(* ===== verification/Silo_Prelude.thy ===== *)
theory Silo_Prelude
  imports Main "HOL-Library.Word"
begin

text \<open>
  Shared vocabulary of the development: names for the machine types of the sources, the
  collections of facts the component proofs are carried by, and the generic lemmas on words,
  lists and bit fields that more than one component uses.
\<close>

unbundle bit_operations_syntax

section \<open>Machine types\<close>

type_synonym u8 = "8 word"
type_synonym u16 = "16 word"
type_synonym u32 = "32 word"
type_synonym u64 = "64 word"

type_synonym bytes = "u8 list"

section \<open>Collections of facts\<close>

named_theorems tid_field_simps \<open>numeric reading of the fields of a transaction id\<close>
named_theorems hdr_bit_simps \<open>bits of a tuple header after each header operation\<close>

section \<open>Word fields as numbers\<close>

lemma unat_and_mask: "unat (v AND mask n :: 'a::len word) = unat v mod 2 ^ n"
proof -
  have "v AND mask n = take_bit n v" by (simp only: take_bit_eq_mask)
  moreover have "unat (take_bit n v) = take_bit n (unat v)" by (rule unsigned_take_bit_eq)
  ultimately show ?thesis by (simp only: take_bit_eq_mod)
qed

lemma unat_drop_bit: "unat (drop_bit n v :: 'a::len word) = unat v div 2 ^ n"
proof -
  have "unat (drop_bit n v) = drop_bit n (take_bit LENGTH('a) (unat v))"
    by (rule unsigned_drop_bit_eq)
  then show ?thesis by (simp only: drop_bit_eq_div take_bit_nat_eq_self [OF unsigned_less])
qed

lemma bit_beyond:
  fixes w :: "'a::len word"
  assumes "unat w < 2 ^ n" and "n \<le> i"
  shows "\<not> bit w i"
proof -
  have "unat w < 2 ^ i"
    using assms by (meson less_le_trans one_le_numeral power_increasing)
  then have "unat w div 2 ^ i = 0" by simp
  then have "\<not> bit (unat w) i" by (simp add: bit_iff_odd)
  then show ?thesis by (simp add: bit_unsigned_iff)
qed

lemma word_le_unat: "(v \<le> w) = (unat v \<le> unat w)"
  by (rule word_le_nat_alt)

lemma word_less_unat: "(v < w) = (unat v < unat w)"
  by (rule word_less_nat_alt)

section \<open>Lists\<close>

lemma unat_of_nat_small: "n < 2 ^ LENGTH('a) \<Longrightarrow> unat (of_nat n :: 'a::len word) = n"
  by (simp add: unsigned_of_nat take_bit_nat_eq_self)

lemma fold_max_ge_init: "(a :: 'a::linorder) \<le> fold (\<lambda>x r. if r < x then x else r) xs a"
  by (induction xs arbitrary: a) (auto intro: order_trans dest: less_imp_le)

lemma fold_max_ge_elem:
  "x \<in> set xs \<Longrightarrow> (x :: 'a::linorder) \<le> fold (\<lambda>x r. if r < x then x else r) xs a"
proof (induction xs arbitrary: a)
  case Nil
  then show ?case by simp
next
  case (Cons y ys)
  show ?case
  proof (cases "x \<in> set ys")
    case True
    then show ?thesis using Cons.IH by simp
  next
    case False
    with Cons.prems have "x = y" by simp
    then have "x \<le> (if a < y then y else a)" by (simp add: not_less)
    also have "\<dots> \<le> fold (\<lambda>x r. if r < x then x else r) ys (if a < y then y else a)"
      by (rule fold_max_ge_init)
    finally show ?thesis by simp
  qed
qed

lemma fold_max_cases:
  "fold (\<lambda>x r. if r < x then x else r) xs a = a \<or>
   fold (\<lambda>x r. if r < x then x else r) xs (a :: 'a::linorder) \<in> set xs"
proof (induction xs arbitrary: a)
  case Nil
  then show ?case by simp
next
  case (Cons y ys)
  from Cons.IH [of "if a < y then y else a"] show ?case by auto
qed


text \<open>Different numbers of a window no wider than the modulus have different remainders.\<close>

lemma mod_window:
  assumes "a \<le> (x :: nat)" "x < a + n" "a \<le> y" "y < a + n" "x mod n = y mod n"
  shows "x = y"
proof -
  have eq: "y = x" if "x \<le> y" "y < x + n" "x mod n = y mod n" for x y :: nat
  proof -
    have "n dvd y - x" using that(1,3) by (metis mod_eq_dvd_iff_nat)
    moreover have "y - x < n" using that(1,2) by simp
    ultimately have "y - x = 0" by (meson nat_dvd_not_less not_gr_zero)
    then show ?thesis using that(1) by simp
  qed
  have "y < x + n" "x < y + n" using assms(1-4) by linarith+
  then show ?thesis using eq [OF _ _ assms(5)] eq [OF _ _ assms(5) [symmetric]] by (metis nat_le_linear)
qed

section \<open>Computations that may fail\<close>

text \<open>An access outside the memory the caller owns; a failed \<^verbatim>\<open>ALWAYS_ASSERT\<close>.\<close>

datatype mem_error = Past_end | Assert_failed

definition sbind :: "'e + 'a \<Rightarrow> ('a \<Rightarrow> 'e + 'b) \<Rightarrow> 'e + 'b" where
  "sbind r f = (case r of Inl e \<Rightarrow> Inl e | Inr x \<Rightarrow> f x)"

lemma sbind_simps [simp]: "sbind (Inl e) f = Inl e" "sbind (Inr x) f = f x"
  by (simp_all add: sbind_def)

lemma sbind_Inr: "sbind r f = Inr y \<longleftrightarrow> (\<exists>x. r = Inr x \<and> f x = Inr y)"
  by (cases r) simp_all

section \<open>Writing into a byte buffer\<close>

definition write_at :: "nat \<Rightarrow> 'a list \<Rightarrow> 'a list \<Rightarrow> 'a list" where
  "write_at off bs buf = take off buf @ bs @ drop (off + length bs) buf"

lemma length_write_at: "off + length bs \<le> length buf \<Longrightarrow> length (write_at off bs buf) = length buf"
  by (simp add: write_at_def)

lemma write_at_append: "off = length pre \<Longrightarrow> write_at off bs (pre @ rest) = pre @ bs @ drop (length bs) rest"
  by (simp add: write_at_def)

lemma take_write_at: "off \<le> length buf \<Longrightarrow> n \<le> off \<Longrightarrow> take n (write_at off bs buf) = take n buf"
  by (simp add: write_at_def)

end
