(* ===== verification/Varint.thy ===== *)
theory Varint
  imports Silo_Prelude
begin

text \<open>
  Variable-length unsigned integers (\<^verbatim>\<open>src/src/varint.h\<close>). A writer is modelled by the bytes it
  stores at its buffer, a reader by a function from the bytes at its pointer to the value and the bytes
  after it. \<open>Past_end\<close> is a read beyond the memory the caller owns, \<open>Assert_failed\<close> an
  \<^verbatim>\<open>ALWAYS_ASSERT(false)\<close>; the null pointer of the failsafe readers is \<open>None\<close>.
\<close>

section \<open>Model\<close>

function write_uvint32 :: "u32 \<Rightarrow> bytes" where
  "write_uvint32 val =
     (if val > 0x7F
      then ((ucast val AND 0x7F) OR 0x80) # write_uvint32 (drop_bit 7 val)
      else [ucast val AND 0x7F])"
  by pat_completeness auto
termination
proof (relation "measure unat")
  fix val :: u32
  assume "0x7F < val"
  then have "127 < unat val" by (simp add: word_less_unat)
  then show "(drop_bit 7 val, val) \<in> measure unat" by (simp add: unat_drop_bit)
qed simp

declare write_uvint32.simps [simp del]

definition size_uvint32 :: "u32 \<Rightarrow> nat" where
  "size_uvint32 val =
     (if val \<le> 0x7F then 1
      else if val \<le> (push_bit 7 0x7F OR 0x7F) then 2
      else if val \<le> (push_bit 14 0x7F OR push_bit 7 0x7F OR 0x7F) then 3
      else if val \<le> (push_bit 21 0x7F OR push_bit 14 0x7F OR push_bit 7 0x7F OR 0x7F) then 4
      else 5)"

text \<open>
  The unrolled readers take the bytes one at a time; \<open>i\<close> counts the bytes taken and \<open>result\<close> is
  the value assembled so far. The fifth byte is not masked.
\<close>

definition add_vbyte :: "nat \<Rightarrow> u32 \<Rightarrow> u8 \<Rightarrow> u32" where
  "add_vbyte i result b =
     (if i < 4 then result OR push_bit (7 * i) (ucast b AND 0x7F)
      else result OR push_bit 28 (ucast b))"

fun read_uvint32_from :: "nat \<Rightarrow> u32 \<Rightarrow> bytes \<Rightarrow> mem_error + (u32 \<times> bytes)" where
  "read_uvint32_from i result [] = Inl Past_end"
| "read_uvint32_from i result (b # p) =
     (let result' = add_vbyte i result b
      in if b < 0x80 then Inr (result', p)
         else if i < 4 then read_uvint32_from (Suc i) result' p
         else Inl Assert_failed)"

definition read_uvint32_slow :: "bytes \<Rightarrow> mem_error + (u32 \<times> bytes)" where
  "read_uvint32_slow buf = read_uvint32_from 0 0 buf"

definition read_uvint32 :: "bytes \<Rightarrow> mem_error + (u32 \<times> bytes)" where
  "read_uvint32 buf =
     (case buf of
        [] \<Rightarrow> Inl Past_end
      | b # p \<Rightarrow> if b < 0x80 then Inr (ucast b, p) else read_uvint32_slow buf)"

fun failsafe_read_uvint32_from ::
  "nat \<Rightarrow> u32 \<Rightarrow> nat \<Rightarrow> bytes \<Rightarrow> mem_error + (u32 \<times> bytes) option" where
  "failsafe_read_uvint32_from i result 0 p = Inr None"
| "failsafe_read_uvint32_from i result (Suc nbytes) [] = Inl Past_end"
| "failsafe_read_uvint32_from i result (Suc nbytes) (b # p) =
     (let result' = add_vbyte i result b
      in if b < 0x80 then Inr (Some (result', p))
         else if i < 4 then failsafe_read_uvint32_from (Suc i) result' nbytes p
         else Inr (Some (result', p)))"

definition failsafe_read_uvint32_slow :: "bytes \<Rightarrow> nat \<Rightarrow> mem_error + (u32 \<times> bytes) option" where
  "failsafe_read_uvint32_slow buf nbytes = failsafe_read_uvint32_from 0 0 nbytes buf"

definition failsafe_read_uvint32 :: "bytes \<Rightarrow> nat \<Rightarrow> mem_error + (u32 \<times> bytes) option" where
  "failsafe_read_uvint32 stream nbytes =
     (if nbytes = 0 then Inr None
      else case stream of
        [] \<Rightarrow> Inl Past_end
      | ch # p \<Rightarrow> if ch < 0x80 then Inr (Some (ucast ch, p))
                   else failsafe_read_uvint32_slow stream nbytes)"

text \<open>
  Skipping: the number of bytes of the encoding and, where \<^verbatim>\<open>rawv\<close> is given, the bytes copied there.
  \<open>i\<close> counts the bytes already passed.
\<close>

fun skip_uvint32_from :: "nat \<Rightarrow> bytes \<Rightarrow> bytes \<Rightarrow> mem_error + (nat \<times> bytes)" where
  "skip_uvint32_from i raw [] = Inl Past_end"
| "skip_uvint32_from i raw (b # p) =
     (if b < 0x80 then Inr (Suc i, raw @ [b])
      else if i < 4 then skip_uvint32_from (Suc i) (raw @ [b]) p
      else Inl Assert_failed)"

definition skip_uvint32 :: "bytes \<Rightarrow> bool \<Rightarrow> mem_error + (nat \<times> bytes option)" where
  "skip_uvint32 stream rawv =
     (case skip_uvint32_from 0 [] stream of
        Inl e \<Rightarrow> Inl e
      | Inr (n, raw) \<Rightarrow> Inr (n, if rawv then Some raw else None))"

text \<open>The failsafe skip returns 0 when the bytes run out; the bytes before that have been copied.\<close>

fun failsafe_skip_uvint32_from :: "nat \<Rightarrow> bytes \<Rightarrow> nat \<Rightarrow> bytes \<Rightarrow> mem_error + (nat \<times> bytes)" where
  "failsafe_skip_uvint32_from i raw 0 p = Inr (0, raw)"
| "failsafe_skip_uvint32_from i raw (Suc nbytes) [] = Inl Past_end"
| "failsafe_skip_uvint32_from i raw (Suc nbytes) (b # p) =
     (if b < 0x80 then Inr (Suc i, raw @ [b])
      else if i < 4 then failsafe_skip_uvint32_from (Suc i) (raw @ [b]) nbytes p
      else Inl Assert_failed)"

definition failsafe_skip_uvint32 :: "bytes \<Rightarrow> nat \<Rightarrow> bool \<Rightarrow> mem_error + (nat \<times> bytes option)" where
  "failsafe_skip_uvint32 stream nbytes rawv =
     (case failsafe_skip_uvint32_from 0 [] nbytes stream of
        Inl e \<Rightarrow> Inl e
      | Inr (n, raw) \<Rightarrow> Inr (n, if rawv then Some raw else None))"

section \<open>The bytes of an encoding\<close>

lemma mask_7F: "0x7F = (mask 7 :: 'a::len word)"
  by (simp add: mask_eq_exp_minus_1)

lemma write_uvint32_small: "val \<le> 0x7F \<Longrightarrow> write_uvint32 val = [ucast val]"
proof -
  assume "val \<le> 0x7F"
  then have "unat val < 2 ^ 7" by (simp add: word_le_unat)
  then have "ucast val AND 0x7F = (ucast val :: u8)"
  proof (intro bit_word_eqI)
    fix i
    assume i: "i < LENGTH(8)"
    have "\<not> bit val i" if "7 \<le> i" using bit_beyond \<open>unat val < 2 ^ 7\<close> that by blast
    then show "bit (ucast val AND 0x7F :: u8) i = bit (ucast val :: u8) i"
      using i by (cases "7 \<le> i") (auto simp: bit_simps mask_7F)
  qed
  then show ?thesis using leD [OF \<open>val \<le> 0x7F\<close>] by (simp add: write_uvint32.simps [of val])
qed

lemma write_uvint32_large:
  "\<not> val \<le> 0x7F \<Longrightarrow>
   write_uvint32 val = ((ucast val AND 0x7F) OR 0x80) # write_uvint32 (drop_bit 7 val)"
  by (simp add: write_uvint32.simps [of val] not_le)


lemma bit_80: "bit (0x80 :: 'a::len word) n \<longleftrightarrow> n = 7 \<and> n < LENGTH('a)"
proof -
  have "(0x80 :: 'a word) = 2 ^ 7" by simp
  then have "bit (0x80 :: 'a word) n \<longleftrightarrow> bit (2 ^ 7 :: 'a word) n" by (simp only:)
  also have "\<dots> \<longleftrightarrow> n = 7 \<and> n < LENGTH('a)" by (auto simp only: bit_exp_iff possible_bit_word)
  finally show ?thesis .
qed

lemma low7_bytes:
  fixes w :: u32
  shows "\<not> (ucast w AND 0x7F OR 0x80 :: u8) < 0x80"
    and "ucast (ucast w AND 0x7F OR 0x80 :: u8) AND 0x7F = w AND 0x7F"
    and "unat w < 128 \<Longrightarrow> (ucast w :: u8) < 0x80"
    and "unat w < 128 \<Longrightarrow> ucast (ucast w :: u8) = w"
proof -
  let ?b = "ucast w AND 0x7F OR 0x80 :: u8"
  have "bit ?b 7" by (simp add: bit_or_iff bit_80)
  then have "\<not> unat ?b < 2 ^ 7" using bit_beyond [of ?b 7 7] by blast
  then show "\<not> ?b < 0x80" by (simp add: word_less_unat)
  show "ucast (ucast w AND 0x7F OR 0x80 :: u8) AND 0x7F = w AND 0x7F"
  proof (rule bit_word_eqI)
    fix n assume "n < LENGTH(32)"
    have "bit ?b n \<longleftrightarrow> bit w n" if "n < 7"
      using that unfolding bit_or_iff bit_and_iff bit_ucast_iff bit_80 mask_7F bit_mask_iff
      by auto
    then show "bit (ucast ?b AND 0x7F :: u32) n = bit (w AND 0x7F) n"
      unfolding mask_7F bit_and_iff bit_mask_iff bit_ucast_iff by auto
  qed
  assume w: "unat w < 128"
  have u: "unat (ucast w :: u8) = unat w" using w by (simp add: unsigned_ucast_eq take_bit_nat_eq_self)
  then show "(ucast w :: u8) < 0x80" using w by (simp add: word_less_unat)
  have w8: "unat w < 2 ^ 8" using w by simp
  have "unat (take_bit 8 w) = unat w"
    by (simp only: unsigned_take_bit_eq take_bit_nat_eq_self [OF w8])
  then have "take_bit 8 w = w" by (simp only: word_unat_eq_iff)
  moreover have "ucast (ucast w :: u8) = take_bit 8 w"
    by (rule bit_word_eqI) (auto simp: bit_simps)
  ultimately show "ucast (ucast w :: u8) = w" by simp
qed

lemma size_uvint32_unat:
  "size_uvint32 val =
     (if unat val < 128 then 1 else if unat val < 16384 then 2
      else if unat val < 2097152 then 3 else if unat val < 268435456 then 4 else 5)"
  by (auto simp: size_uvint32_def word_le_unat)

lemma size_uvint32_step:
  assumes "\<not> unat val < 128"
  shows "size_uvint32 val = Suc (size_uvint32 (drop_bit 7 val))"
proof -
  have "unat val div 128 < 268435456"
    using unsigned_less [of val, where ?'a = nat] by (simp add: div_less_iff_less_mult)
  then show ?thesis
    using assms by (auto simp: size_uvint32_unat unat_drop_bit div_less_iff_less_mult)
qed

lemma le_7F_unat: "val \<le> 0x7F \<longleftrightarrow> unat (val :: u32) < 128"
  by (auto simp: word_le_unat)

lemma length_write_uvint32: "length (write_uvint32 val) = size_uvint32 val"
proof (induction val rule: write_uvint32.induct)
  case (1 val)
  show ?case
  proof (cases "val \<le> 0x7F")
    case True
    then show ?thesis by (simp add: write_uvint32_small size_uvint32_def)
  next
    case False
    then have "0x7F < val" and "\<not> unat val < 128" by (simp_all add: le_7F_unat [symmetric])
    then show ?thesis
      using 1 False by (simp add: write_uvint32_large size_uvint32_step)
  qed
qed

lemma size_uvint32_bounds: "1 \<le> size_uvint32 val" "size_uvint32 val \<le> 5"
  by (simp_all add: size_uvint32_def)

section \<open>Reading an encoding back\<close>

text \<open>
  The four readers walk an encoding in step. \<open>i\<close> bytes are behind, \<open>w\<close> is what is left of the
  value; the bound says that the rest still fits in the bits above position \<open>7 * i\<close>.
\<close>

lemma combine_low7: "push_bit k (w AND 0x7F) OR push_bit (k + 7) (drop_bit 7 w) = push_bit k (w :: u32)"
proof (rule bit_word_eqI)
  fix n
  have "7 + (n - (k + 7)) = n - k" if "\<not> n - k < 7" using that by simp
  then show "bit (push_bit k (w AND 0x7F) OR push_bit (k + 7) (drop_bit 7 w)) n = bit (push_bit k w) n"
    by (cases "n - k < 7") (auto simp: bit_simps mask_7F)
qed

lemma add_vbyte_last:
  assumes "unat w < 128" and "i = 4 \<longrightarrow> unat w < 16" and "i \<le> 4"
  shows "add_vbyte i r (ucast w) = r OR push_bit (7 * i) w"
proof -
  have "w AND 0x7F = w"
    using assms(1) unat_and_mask [of w 7] by (simp add: mask_7F word_unat_eq_iff)
  then show ?thesis using assms by (auto simp: add_vbyte_def low7_bytes(4))
qed

lemma add_vbyte_more:
  assumes "i < 4"
  shows "add_vbyte i r (ucast w AND 0x7F OR 0x80) = r OR push_bit (7 * i) (w AND 0x7F)"
  using assms by (simp add: add_vbyte_def low7_bytes(2))

lemma vbound_step:
  assumes "unat (w :: u32) < 2 ^ (32 - 7 * i)" and "i < 4"
  shows "unat (drop_bit 7 w) < 2 ^ (32 - 7 * Suc i)"
proof -
  have "(2 :: nat) ^ (32 - 7 * i) = 2 ^ (32 - 7 * Suc i) * 2 ^ 7"
    using assms(2) by (simp only: power_add [symmetric]) simp
  then show ?thesis using assms(1) by (simp add: unat_drop_bit div_less_iff_less_mult)
qed

lemma vbound_more:
  assumes "\<not> w \<le> 0x7F" and "unat (w :: u32) < 2 ^ (32 - 7 * i)" and "i \<le> 4"
  shows "i < 4"
proof (rule ccontr)
  assume "\<not> i < 4"
  then have "i = 4" using assms(3) by simp
  then have "unat w < 16" using assms(2) by simp
  then show False using assms(1) by (simp add: le_7F_unat)
qed

lemma read_uvint32_from_write:
  assumes "unat w < 2 ^ (32 - 7 * i)" and "i \<le> 4"
  shows "read_uvint32_from i r (write_uvint32 w @ rest) = Inr (r OR push_bit (7 * i) w, rest)"
  using assms
proof (induction w arbitrary: i r rule: write_uvint32.induct)
  case (1 w)
  show ?case
  proof (cases "w \<le> 0x7F")
    case True
    then have w: "unat w < 128" by (simp add: le_7F_unat)
    have "i = 4 \<longrightarrow> unat w < 16" using 1(2) by auto
    then have "add_vbyte i r (ucast w) = r OR push_bit (7 * i) w"
      using w 1(3) by (intro add_vbyte_last)
    then show ?thesis using w True by (simp add: write_uvint32_small low7_bytes(3) Let_def)
  next
    case False
    then have gt: "0x7F < w" by simp
    have i: "i < 4" by (rule vbound_more [OF False 1(2,3)])
    have "read_uvint32_from i r (write_uvint32 w @ rest) =
        read_uvint32_from (Suc i) (r OR push_bit (7 * i) (w AND 0x7F))
          (write_uvint32 (drop_bit 7 w) @ rest)"
      unfolding write_uvint32_large [OF False] append_Cons read_uvint32_from.simps Let_def
      using i by (simp only: low7_bytes(1) add_vbyte_more if_False if_True)
    also have "\<dots> = Inr ((r OR push_bit (7 * i) (w AND 0x7F)) OR push_bit (7 * Suc i) (drop_bit 7 w), rest)"
      using 1(1) [OF gt vbound_step [OF 1(2) i], of "r OR push_bit (7 * i) (w AND 0x7F)"] i by simp
    also have "(r OR push_bit (7 * i) (w AND 0x7F)) OR push_bit (7 * Suc i) (drop_bit 7 w) =
        r OR push_bit (7 * i) w"
      using combine_low7 [of "7 * i" w] by (simp add: or.assoc add.commute)
    finally show ?thesis .
  qed
qed


text \<open>
  The failsafe readers agree with the plain ones as long as the byte budget covers the encoding, and
  report the end of the budget when it does not.
\<close>

lemma failsafe_read_from_write:
  assumes "unat w < 2 ^ (32 - 7 * i)" and "i \<le> 4"
  shows "failsafe_read_uvint32_from i r nbytes (write_uvint32 w @ rest) =
    (if size_uvint32 w \<le> nbytes then Inr (Some (r OR push_bit (7 * i) w, rest)) else Inr None)"
  using assms
proof (induction w arbitrary: i r nbytes rule: write_uvint32.induct)
  case (1 w)
  show ?case
  proof (cases nbytes)
    case 0
    then show ?thesis using size_uvint32_bounds(1) [of w] by simp
  next
    case (Suc k)
    show ?thesis
    proof (cases "w \<le> 0x7F")
      case True
      then have w: "unat w < 128" by (simp add: le_7F_unat)
      have "i = 4 \<longrightarrow> unat w < 16" using 1(2) by auto
      then have "add_vbyte i r (ucast w) = r OR push_bit (7 * i) w"
        using w 1(3) by (intro add_vbyte_last)
      then show ?thesis using w True Suc
        by (simp add: write_uvint32_small low7_bytes(3) Let_def size_uvint32_def)
    next
      case False
      then have gt: "0x7F < w" by simp
      have i: "i < 4" by (rule vbound_more [OF False 1(2,3)])
      let ?r = "r OR push_bit (7 * i) (w AND 0x7F)"
      have "failsafe_read_uvint32_from i r nbytes (write_uvint32 w @ rest) =
          failsafe_read_uvint32_from (Suc i) ?r k (write_uvint32 (drop_bit 7 w) @ rest)"
        unfolding Suc write_uvint32_large [OF False] append_Cons failsafe_read_uvint32_from.simps Let_def
        using i by (simp only: low7_bytes(1) add_vbyte_more if_False if_True)
      also have "\<dots> = (if size_uvint32 (drop_bit 7 w) \<le> k
          then Inr (Some (?r OR push_bit (7 * Suc i) (drop_bit 7 w), rest)) else Inr None)"
        using 1(1) [OF gt vbound_step [OF 1(2) i], of ?r k] i by simp
      also have "?r OR push_bit (7 * Suc i) (drop_bit 7 w) = r OR push_bit (7 * i) w"
        using combine_low7 [of "7 * i" w] by (simp add: or.assoc add.commute)
      also have "size_uvint32 (drop_bit 7 w) \<le> k \<longleftrightarrow> size_uvint32 w \<le> nbytes"
        using False Suc by (simp add: size_uvint32_step le_7F_unat)
      finally show ?thesis .
    qed
  qed
qed


lemma skip_from_write:
  assumes "i + size_uvint32 w \<le> 5"
  shows "skip_uvint32_from i raw (write_uvint32 w @ rest) =
    Inr (i + size_uvint32 w, raw @ write_uvint32 w)"
  using assms
proof (induction w arbitrary: i raw rule: write_uvint32.induct)
  case (1 w)
  show ?case
  proof (cases "w \<le> 0x7F")
    case True
    then show ?thesis
      by (simp add: write_uvint32_small low7_bytes(3) le_7F_unat [symmetric] size_uvint32_def)
  next
    case False
    then have gt: "0x7F < w" by simp
    have sz: "size_uvint32 w = Suc (size_uvint32 (drop_bit 7 w))"
      using False by (simp add: size_uvint32_step le_7F_unat)
    then have i: "i < 4" using 1(2) size_uvint32_bounds(1) [of "drop_bit 7 w"] by simp
    show ?thesis
      unfolding write_uvint32_large [OF False] append_Cons skip_uvint32_from.simps
      using i 1(1) [OF gt, of "Suc i"] 1(2) sz by (simp add: low7_bytes(1))
  qed
qed

lemma write_uvint32_uncons:
  "\<exists>b bs. write_uvint32 v = b # bs \<and> (b < 0x80 \<longrightarrow> bs = [] \<and> ucast b = v)"
proof (cases "v \<le> 0x7F")
  case True
  then show ?thesis by (simp add: write_uvint32_small low7_bytes(4) le_7F_unat)
next
  case False
  then show ?thesis using low7_bytes(1) [of v] write_uvint32_large [OF False] by auto
qed

lemma read_uvint32_write: "read_uvint32 (write_uvint32 v @ rest) = Inr (v, rest)"
proof -
  obtain b bs where w: "write_uvint32 v = b # bs" and small: "b < 0x80 \<longrightarrow> bs = [] \<and> ucast b = v"
    using write_uvint32_uncons by blast
  have "read_uvint32_slow (write_uvint32 v @ rest) = Inr (v, rest)"
    using read_uvint32_from_write [of v 0] unsigned_less [of v, where ?'a = nat]
    by (simp add: read_uvint32_slow_def)
  then show ?thesis using w small by (auto simp: read_uvint32_def)
qed

lemma size_uvint32_pos: "0 < size_uvint32 v"
  using size_uvint32_bounds(1) [of v] by simp

lemma failsafe_read_write_uvint32:
  "failsafe_read_uvint32 (write_uvint32 v @ rest) nbytes =
     (if size_uvint32 v \<le> nbytes then Inr (Some (v, rest)) else Inr None)"
proof -
  obtain b bs where w: "write_uvint32 v = b # bs" and small: "b < 0x80 \<longrightarrow> bs = [] \<and> ucast b = v"
    using write_uvint32_uncons by blast
  have "failsafe_read_uvint32_slow (write_uvint32 v @ rest) nbytes =
      (if size_uvint32 v \<le> nbytes then Inr (Some (v, rest)) else Inr None)"
    using failsafe_read_from_write [of v 0] unsigned_less [of v, where ?'a = nat]
    by (simp add: failsafe_read_uvint32_slow_def)
  moreover have "size_uvint32 v = 1" if "b < 0x80"
    using small w that length_write_uvint32 [of v] by simp
  ultimately show ?thesis
    using w small size_uvint32_pos [of v] by (auto simp: failsafe_read_uvint32_def)
qed

lemma failsafe_skip_from_write:
  assumes "i + size_uvint32 w \<le> 5"
  shows "if size_uvint32 w \<le> nbytes
    then failsafe_skip_uvint32_from i raw nbytes (write_uvint32 w @ rest) =
      Inr (i + size_uvint32 w, raw @ write_uvint32 w)
    else \<exists>r. failsafe_skip_uvint32_from i raw nbytes (write_uvint32 w @ rest) = Inr (0, r)"
  using assms
proof (induction w arbitrary: i raw nbytes rule: write_uvint32.induct)
  case (1 w)
  show ?case
  proof (cases nbytes)
    case 0
    then show ?thesis using size_uvint32_pos [of w] by simp
  next
    case (Suc k)
    show ?thesis
    proof (cases "w \<le> 0x7F")
      case True
      then show ?thesis using Suc
        by (simp add: write_uvint32_small low7_bytes(3) le_7F_unat [symmetric] size_uvint32_def)
    next
      case False
      then have gt: "0x7F < w" by simp
      have sz: "size_uvint32 w = Suc (size_uvint32 (drop_bit 7 w))"
        using False by (simp add: size_uvint32_step le_7F_unat)
      then have i: "i < 4" using 1(2) size_uvint32_pos [of "drop_bit 7 w"] by simp
      show ?thesis
        unfolding Suc write_uvint32_large [OF False] append_Cons failsafe_skip_uvint32_from.simps
        using i 1(1) [OF gt, of "Suc i" k "raw @ [ucast w AND 0x7F OR 0x80]"] 1(2) sz
        by (simp add: low7_bytes(1) split: if_splits)
    qed
  qed
qed

lemma failsafe_skip_write_uvint32:
  "size_uvint32 v \<le> n \<Longrightarrow> failsafe_skip_uvint32 (write_uvint32 v @ rest) n raw =
     Inr (size_uvint32 v, if raw then Some (write_uvint32 v) else None)"
  "n < size_uvint32 v \<Longrightarrow> \<exists>r. failsafe_skip_uvint32 (write_uvint32 v @ rest) n raw = Inr (0, r)"
  using failsafe_skip_from_write [of 0 v n "[]" rest] size_uvint32_bounds(2) [of v]
  by (auto simp: failsafe_skip_uvint32_def split: if_splits)

text \<open>
  Property C33 (varint round trip). Whatever 32-bit value \<^verbatim>\<open>write_uvint32\<close> stores, in front of
  whatever bytes, \<^verbatim>\<open>read_uvint32\<close> returns exactly that value and stops exactly behind the encoding;
  the encoding has the length \<^verbatim>\<open>size_uvint32\<close> announces, between one and five bytes;
  \<^verbatim>\<open>skip_uvint32\<close> passes over precisely those bytes and copies them. The failsafe reader and skip with a
  budget of \<open>nbytes\<close> do the same when the encoding is within the budget and report failure when it is not.
\<close>

theorem uvint32_roundtrip:
  "read_uvint32 (write_uvint32 v @ rest) = Inr (v, rest) \<and>
   length (write_uvint32 v) = size_uvint32 v \<and> 1 \<le> size_uvint32 v \<and> size_uvint32 v \<le> 5 \<and>
   skip_uvint32 (write_uvint32 v @ rest) True = Inr (size_uvint32 v, Some (write_uvint32 v)) \<and>
   failsafe_read_uvint32 (write_uvint32 v @ rest) nbytes = Inr (if size_uvint32 v \<le> nbytes then Some (v, rest) else None) \<and>
   (\<exists>raw. failsafe_skip_uvint32 (write_uvint32 v @ rest) nbytes True =
      Inr (if size_uvint32 v \<le> nbytes then (size_uvint32 v, Some (write_uvint32 v)) else (0, raw)))"
  using size_uvint32_bounds [of v] failsafe_skip_write_uvint32 [where v = v and rest = rest and n = nbytes and raw = True]
  by (auto simp: read_uvint32_write length_write_uvint32 skip_uvint32_def skip_from_write failsafe_read_write_uvint32)

text \<open>
  Failsafe reads. On an encoding followed by any bytes, the failsafe reader with a budget
  of \<open>nbytes\<close> returns the value when the whole encoding is within the budget and the null pointer
  when it is not: a truncated encoding is never misread, and no byte beyond the budget is touched.
\<close>

theorem failsafe_read_truncation:
  "failsafe_read_uvint32 (write_uvint32 v @ rest) nbytes =
     (if size_uvint32 v \<le> nbytes then Inr (Some (v, rest)) else Inr None)"
  by (rule failsafe_read_write_uvint32)

text \<open>
  Overlong encodings: the plain reader aborts on five bytes that all carry the continuation
  bit; the failsafe reader, meant for input that may be damaged, accepts the same bytes as a value.
\<close>

theorem failsafe_read_accepts_overlong:
  "read_uvint32 [0x80, 0x80, 0x80, 0x80, 0x80] = Inl Assert_failed \<and>
   failsafe_read_uvint32 [0x80, 0x80, 0x80, 0x80, 0x80] 5 = Inr (Some (0, []))"
  by code_simp

end
