(* ===== verification/Serializer.thy ===== *)
theory Serializer
  imports Varint
begin

text \<open>
  Field serializers (\<^verbatim>\<open>src/src/record/serializer.h\<close>): the fixed-width serializer of integer types,
  the varint and zig-zag specialisations, and the type-erased \<^verbatim>\<open>generic_serializer\<close>. The common
  contract of all of them is the locale \<open>field_serializer\<close>, interpreted on each.
\<close>

section \<open>Little-endian memory\<close>

definition sizeof_word :: "'a::len itself \<Rightarrow> nat" where
  "sizeof_word t = LENGTH('a) div 8"

definition le_bytes :: "'a::len word \<Rightarrow> bytes" where
  "le_bytes w = map (\<lambda>i. ucast (drop_bit (8 * i) w)) [0..<LENGTH('a) div 8]"

fun le_word :: "bytes \<Rightarrow> 'a::len word" where
  "le_word [] = 0"
| "le_word (b # bs) = ucast b OR push_bit 8 (le_word bs)"

lemma length_le_bytes [simp]: "length (le_bytes (w :: 'a::len word)) = LENGTH('a) div 8"
  by (simp add: le_bytes_def)

lemma bit_le_word:
  "bit (le_word bs :: 'a::len word) i \<longleftrightarrow>
     i < LENGTH('a) \<and> i div 8 < length bs \<and> bit (bs ! (i div 8)) (i mod 8)"
proof (induction bs arbitrary: i)
  case Nil
  then show ?case by simp
next
  case (Cons b bs)
  show ?case
  proof (cases "i < 8")
    case True
    then show ?thesis by (auto simp: bit_simps)
  next
    case False
    then obtain j where j: "i = j + 8" by (metis le_add_diff_inverse2 not_less)
    have "(j + 8) div 8 = Suc (j div 8)" by simp
    moreover have "\<not> bit b i" using bit_imp_le_length [of b i] False by auto
    ultimately show ?thesis using Cons.IH [of j] j by (auto simp: bit_simps)
  qed
qed

lemma le_word_le_bytes:
  fixes w :: "'a::len word"
  assumes "8 dvd LENGTH('a)"
  shows "le_word (le_bytes w) = w"
proof (rule bit_word_eqI)
  fix i assume i: "i < LENGTH('a)"
  then have "i div 8 < LENGTH('a) div 8" using assms by (auto elim!: dvdE simp: div_less_iff_less_mult mult.commute)
  then show "bit (le_word (le_bytes w) :: 'a word) i = bit w i"
    using i by (simp add: bit_le_word le_bytes_def bit_simps)
qed

lemma le_bytes_le_word:
  assumes len: "length bs = LENGTH('a::len) div 8" and dvd: "8 dvd LENGTH('a)"
  shows "le_bytes (le_word bs :: 'a word) = bs"
proof (rule nth_equalityI)
  fix i assume "i < length (le_bytes (le_word bs :: 'a word))"
  then have i: "i < LENGTH('a) div 8" by simp
  show "le_bytes (le_word bs :: 'a word) ! i = bs ! i"
  proof (rule bit_word_eqI)
    fix j assume "j < LENGTH(8)"
    then have j: "j < 8" by simp
    have "8 * i + j < LENGTH('a)" using i j dvd by (auto elim!: dvdE)
    then show "bit (le_bytes (le_word bs :: 'a word) ! i) j = bit (bs ! i) j"
      using i j len by (simp add: le_bytes_def bit_simps bit_le_word add.commute)
  qed
qed (simp add: len)

section \<open>Serializer operations\<close>

text \<open>
  The function pointers of a field: a write gets the value and the memory at the destination and is the
  bytes that lie there afterwards, a read is the value and what follows it, a skip the number of bytes
  passed and their copy when the caller asked for one.
\<close>

record 'v field_ops =
  write_fn :: "'v \<Rightarrow> bytes \<Rightarrow> bytes"
  read_fn :: "bytes \<Rightarrow> mem_error + ('v \<times> bytes)"
  failsafe_read_fn :: "bytes \<Rightarrow> nat \<Rightarrow> mem_error + ('v \<times> bytes) option"
  nbytes_fn :: "'v \<Rightarrow> nat"
  skip_fn :: "bytes \<Rightarrow> bool \<Rightarrow> mem_error + (nat \<times> bytes option)"
  failsafe_skip_fn :: "bytes \<Rightarrow> nat \<Rightarrow> bool \<Rightarrow> mem_error + (nat \<times> bytes option)"
  max_nbytes :: nat


text \<open>The generic serializer of a type copied as it lies in memory.\<close>

definition fixed_write :: "'a::len word \<Rightarrow> bytes" where
  "fixed_write obj = le_bytes obj"

definition fixed_read :: "bytes \<Rightarrow> mem_error + ('a::len word \<times> bytes)" where
  "fixed_read buf =
     (if length buf < sizeof_word TYPE('a) then Inl Past_end
      else Inr (le_word (take (sizeof_word TYPE('a)) buf), drop (sizeof_word TYPE('a)) buf))"

definition fixed_failsafe_read :: "bytes \<Rightarrow> nat \<Rightarrow> mem_error + ('a::len word \<times> bytes) option" where
  "fixed_failsafe_read buf nbytes =
     (if nbytes < sizeof_word TYPE('a) then Inr None
      else case fixed_read buf of Inl e \<Rightarrow> Inl e | Inr r \<Rightarrow> Inr (Some r))"

definition fixed_nbytes :: "'a::len word \<Rightarrow> nat" where
  "fixed_nbytes obj = sizeof_word TYPE('a)"

definition fixed_skip :: "'a::len itself \<Rightarrow> bytes \<Rightarrow> bool \<Rightarrow> mem_error + (nat \<times> bytes option)" where
  "fixed_skip t stream rawv =
     (if rawv
      then if length stream < sizeof_word t then Inl Past_end
           else Inr (sizeof_word t, Some (take (sizeof_word t) stream))
      else Inr (sizeof_word t, None))"

definition fixed_failsafe_skip ::
  "'a::len itself \<Rightarrow> bytes \<Rightarrow> nat \<Rightarrow> bool \<Rightarrow> mem_error + (nat \<times> bytes option)" where
  "fixed_failsafe_skip t stream nbytes rawv =
     (if nbytes < sizeof_word t then Inr (0, None) else fixed_skip t stream rawv)"

definition fixed_serializer :: "'a::len word field_ops" where
  "fixed_serializer =
     \<lparr>write_fn = (\<lambda>obj _. fixed_write obj), read_fn = fixed_read, failsafe_read_fn = fixed_failsafe_read,
      nbytes_fn = fixed_nbytes, skip_fn = fixed_skip TYPE('a),
      failsafe_skip_fn = fixed_failsafe_skip TYPE('a), max_nbytes = sizeof_word TYPE('a)\<rparr>"

text \<open>\<^verbatim>\<open>serializer<uint32_t, true>\<close>.\<close>

definition uvint32_serializer :: "u32 field_ops" where
  "uvint32_serializer =
     \<lparr>write_fn = (\<lambda>obj _. write_uvint32 obj), read_fn = read_uvint32, failsafe_read_fn = failsafe_read_uvint32,
      nbytes_fn = size_uvint32, skip_fn = skip_uvint32, failsafe_skip_fn = failsafe_skip_uvint32,
      max_nbytes = 5\<rparr>"

text \<open>\<^verbatim>\<open>serializer<int32_t, true>\<close>: an \<^verbatim>\<open>int32_t\<close> is its 32-bit pattern, \<^verbatim>\<open>>>\<close> on it is arithmetic.\<close>

definition zigzag_encode :: "u32 \<Rightarrow> u32" where
  "zigzag_encode val = push_bit 1 val XOR signed_drop_bit 31 val"

definition zigzag_decode :: "u32 \<Rightarrow> u32" where
  "zigzag_decode val = drop_bit 1 val XOR - (val AND 1)"

definition svint32_write :: "u32 \<Rightarrow> bytes \<Rightarrow> bytes" where
  "svint32_write obj buf = write_fn uvint32_serializer (zigzag_encode obj) buf"

definition svint32_read :: "bytes \<Rightarrow> mem_error + (u32 \<times> bytes)" where
  "svint32_read buf =
     (case read_fn uvint32_serializer buf of
        Inl e \<Rightarrow> Inl e
      | Inr (v, p) \<Rightarrow> Inr (zigzag_decode v, p))"

definition svint32_failsafe_read :: "bytes \<Rightarrow> nat \<Rightarrow> mem_error + (u32 \<times> bytes) option" where
  "svint32_failsafe_read buf nbytes =
     (case failsafe_read_fn uvint32_serializer buf nbytes of
        Inl e \<Rightarrow> Inl e
      | Inr None \<Rightarrow> Inr None
      | Inr (Some (v, p)) \<Rightarrow> Inr (Some (zigzag_decode v, p)))"

definition svint32_nbytes :: "u32 \<Rightarrow> nat" where
  "svint32_nbytes obj = nbytes_fn uvint32_serializer (zigzag_encode obj)"

definition svint32_serializer :: "u32 field_ops" where
  "svint32_serializer =
     \<lparr>write_fn = svint32_write, read_fn = svint32_read, failsafe_read_fn = svint32_failsafe_read,
      nbytes_fn = svint32_nbytes, skip_fn = skip_uvint32, failsafe_skip_fn = failsafe_skip_uvint32,
      max_nbytes = 5\<rparr>"

text \<open>
  \<^verbatim>\<open>generic_serializer\<close> wraps a serializer behind untyped pointers: \<open>get\<close> reads the object at a
  pointer as the serializer's type, \<open>mk\<close> is the object stored back.
\<close>

definition generic_serializer :: "('a \<Rightarrow> 'v) \<Rightarrow> ('v \<Rightarrow> 'a) \<Rightarrow> 'a field_ops \<Rightarrow> 'v field_ops" where
  "generic_serializer mk get S =
     \<lparr>write_fn = (\<lambda>obj buf. write_fn S (get obj) buf),
      read_fn = (\<lambda>buf. case read_fn S buf of Inl e \<Rightarrow> Inl e | Inr (v, p) \<Rightarrow> Inr (mk v, p)),
      failsafe_read_fn = (\<lambda>buf nbytes.
        case failsafe_read_fn S buf nbytes of
          Inl e \<Rightarrow> Inl e
        | Inr None \<Rightarrow> Inr None
        | Inr (Some (v, p)) \<Rightarrow> Inr (Some (mk v, p))),
      nbytes_fn = (\<lambda>obj. nbytes_fn S (get obj)),
      skip_fn = skip_fn S,
      failsafe_skip_fn = failsafe_skip_fn S,
      max_nbytes = max_nbytes S\<rparr>"

section \<open>The contract of a field serializer\<close>

text \<open>
  \<open>ok v\<close> says that the serializer stores \<open>v\<close>; \<open>stored S v bs\<close> that \<open>bs\<close> is what some write of \<open>v\<close>
  left behind. Reading, skipping and their failsafe versions are determined on stored bytes followed by
  anything.
\<close>

definition stored :: "'v field_ops \<Rightarrow> 'v \<Rightarrow> bytes \<Rightarrow> bool" where
  "stored S v bs \<longleftrightarrow> (\<exists>d. nbytes_fn S v \<le> length d \<and> bs = write_fn S v d)"

locale field_serializer =
  fixes S :: "'v field_ops" and ok :: "'v \<Rightarrow> bool"
  assumes read_write: "ok v \<Longrightarrow> stored S v bs \<Longrightarrow> read_fn S (bs @ rest) = Inr (v, rest)"
    and length_write: "ok v \<Longrightarrow> stored S v bs \<Longrightarrow> length bs = nbytes_fn S v"
    and nbytes_pos: "ok v \<Longrightarrow> 0 < nbytes_fn S v"
    and nbytes_max: "ok v \<Longrightarrow> nbytes_fn S v \<le> max_nbytes S"
    and failsafe_read_write: "ok v \<Longrightarrow> stored S v bs \<Longrightarrow> failsafe_read_fn S (bs @ rest) n =
      (if nbytes_fn S v \<le> n then Inr (Some (v, rest)) else Inr None)"
    and skip_write: "ok v \<Longrightarrow> stored S v bs \<Longrightarrow> skip_fn S (bs @ rest) raw =
      Inr (nbytes_fn S v, if raw then Some bs else None)"
    and failsafe_skip_write: "ok v \<Longrightarrow> stored S v bs \<Longrightarrow> nbytes_fn S v \<le> n \<Longrightarrow>
      failsafe_skip_fn S (bs @ rest) n raw = Inr (nbytes_fn S v, if raw then Some bs else None)"
    and failsafe_skip_short: "ok v \<Longrightarrow> stored S v bs \<Longrightarrow> n < nbytes_fn S v \<Longrightarrow>
      \<exists>r. failsafe_skip_fn S (bs @ rest) n raw = Inr (0, r)"
begin

lemma stored_injective:
  assumes "ok v" "stored S v bs" and "ok w" "stored S w cs" and "bs @ r = cs @ r'"
  shows "v = w \<and> r = r'"
  using read_write [OF assms(1,2), of r] unfolding assms(5) read_write [OF assms(3,4)] by simp

lemma write_stored: "nbytes_fn S v \<le> length d \<Longrightarrow> stored S v (write_fn S v d)"
  by (auto simp: stored_def)

end


section \<open>Zig-zag\<close>

lemma sign_fill: "signed_drop_bit 31 (v :: u32) = (if bit v 31 then - 1 else 0)"
proof (rule bit_word_eqI)
  fix i assume "i < LENGTH(32)"
  then show "bit (signed_drop_bit 31 v) i = bit (if bit v 31 then - 1 else 0 :: u32) i"
    by (cases i) (auto simp: bit_signed_drop_bit_iff)
qed

lemma zigzag_roundtrip: "zigzag_decode (zigzag_encode v) = v"
proof (rule bit_word_eqI)
  fix i assume i: "i < LENGTH(32)"
  let ?e = "zigzag_encode v"
  have e: "bit ?e j \<longleftrightarrow> (0 < j \<and> bit v (j - 1)) \<noteq> bit v 31" if "j < 32" for j
  proof -
    have "bit (push_bit 1 v) j \<longleftrightarrow> 0 < j \<and> bit v (j - 1)"
      using that unfolding bit_push_bit_iff by auto
    then show ?thesis using that by (simp add: zigzag_encode_def sign_fill bit_xor_iff)
  qed
  have "?e AND 1 = of_bool (bit v 31)"
    using e [of 0] by (simp add: and_one_eq bit_0 mod_2_eq_odd)
  then have "bit (- (?e AND 1)) i \<longleftrightarrow> bit v 31" using i by simp
  then show "bit (zigzag_decode ?e) i = bit v i"
    using i e [of "Suc i"] bit_imp_le_length [of ?e "Suc i"]
    by (cases "i = 31") (auto simp: zigzag_decode_def bit_simps)
qed

lemma sint_sign: "sint (v :: u32) = (if bit v 31 then uint v - 4294967296 else uint v)"
  using sint_uint [of v] take_bit_int_eq_self [of "uint v" 32] unsigned_less [of v, where ?'a = int]
  by (simp add: signed_take_bit_eq_take_bit_minus bit_uint_iff)


lemma uint_not_u32: "uint (NOT x) = 4294967295 - uint (x :: u32)"
proof -
  have m1: "uint (- 1 :: u32) = 4294967295" by (simp add: unsigned_minus_1_eq_mask mask_eq_exp_minus_1)
  have "uint x \<le> uint (- 1 :: u32)" using unsigned_less [of x, where ?'a = int] m1 by simp
  then have "uint (- 1 - x) = uint (- 1 :: u32) - uint x" by (simp only: uint_sub_lem)
  moreover have "NOT x = - 1 - x" by (simp add: not_eq_complement)
  ultimately show ?thesis using m1 by simp
qed

text \<open>
  Zig-zag: encoding and decoding a signed integer gives it back, and the code of a value
  is twice its magnitude, less one when it is negative, so integers of small magnitude have short
  encodings whatever their sign.
\<close>

theorem zigzag_magnitude:
  "zigzag_decode (zigzag_encode v) = v \<and>
   uint (zigzag_encode v) = (if 0 \<le> sint v then 2 * sint v else - 2 * sint v - 1)"
proof -
  have lt: "uint v < 4294967296" using unsigned_less [of v, where ?'a = int] by simp
  have top: "bit v 31 \<longleftrightarrow> 2147483648 \<le> uint v"
  proof -
    have "bit v 31 \<longleftrightarrow> bit (uint v) 31" by (simp add: bit_uint_iff)
    then have "bit v 31 \<longleftrightarrow> odd (uint v div 2147483648)"
      using bit_iff_odd [of "uint v" 31] by simp
    moreover have "uint v div 2147483648 = (if 2147483648 \<le> uint v then 1 else 0)"
      using lt by (auto simp: div_pos_pos_trivial intro: int_div_pos_eq)
    ultimately show ?thesis by simp
  qed
  have shl: "uint (push_bit 1 v) = 2 * uint v mod 4294967296"
    by (simp add: push_bit_eq_mult uint_word_ariths mult.commute)
  have "uint (zigzag_encode v) = (if 0 \<le> sint v then 2 * sint v else - 2 * sint v - 1)"
  proof (cases "bit v 31")
    case True
    have "2 * uint v mod 4294967296 = (2 * uint v - 4294967296) mod 4294967296"
      by (rule minus_mod_self2 [symmetric])
    also have "\<dots> = 2 * uint v - 4294967296"
      using lt top True by (intro mod_pos_pos_trivial) simp_all
    finally have "2 * uint v mod 4294967296 = 2 * uint v - 4294967296" .
    moreover have "uint (NOT (push_bit 1 v)) = 4294967295 - uint (push_bit 1 v)"
      by (rule uint_not_u32)
    ultimately show ?thesis
      using True lt top shl by (simp add: zigzag_encode_def sign_fill sint_sign)
  next
    case False
    then show ?thesis
      using lt top shl unsigned_greater_eq [of v]
      by (simp add: zigzag_encode_def sign_fill sint_sign)
  qed
  then show ?thesis by (simp add: zigzag_roundtrip)
qed

section \<open>The serializers satisfy the contract\<close>

lemma fixed_field_serializer:
  assumes dvd: "8 dvd LENGTH('a::len)"
  shows "field_serializer (fixed_serializer :: 'a word field_ops) (\<lambda>_. True)"
proof -
  obtain k where k: "LENGTH('a) = 8 * k" using dvd by (rule dvdE)
  then have "k \<noteq> 0" using len_gt_0 [where 'a = 'a] by (intro notI) simp
  then have pos: "0 < LENGTH('a) div 8" using k by simp
  show ?thesis
    by unfold_locales
      (auto simp add: stored_def fixed_serializer_def fixed_write_def fixed_read_def fixed_failsafe_read_def
        fixed_nbytes_def fixed_skip_def fixed_failsafe_skip_def sizeof_word_def pos
        le_word_le_bytes [OF dvd])
qed

interpretation u8_fixed: field_serializer "fixed_serializer :: u8 field_ops" "\<lambda>_. True"
  by (rule fixed_field_serializer) simp

interpretation u16_fixed: field_serializer "fixed_serializer :: u16 field_ops" "\<lambda>_. True"
  by (rule fixed_field_serializer) simp

interpretation u32_fixed: field_serializer "fixed_serializer :: u32 field_ops" "\<lambda>_. True"
  by (rule fixed_field_serializer) simp

interpretation u64_fixed: field_serializer "fixed_serializer :: u64 field_ops" "\<lambda>_. True"
  by (rule fixed_field_serializer) simp

lemma uvint32_facts:
  "read_uvint32 (write_uvint32 v @ rest) = Inr (v, rest)"
  "skip_uvint32 (write_uvint32 v @ rest) raw =
     Inr (size_uvint32 v, if raw then Some (write_uvint32 v) else None)"
  by (simp_all add: read_uvint32_write skip_uvint32_def skip_from_write size_uvint32_bounds)

interpretation uvint32: field_serializer uvint32_serializer "\<lambda>_. True"
  by unfold_locales
    (auto simp add: stored_def uvint32_serializer_def uvint32_facts length_write_uvint32 size_uvint32_bounds
      size_uvint32_pos failsafe_read_write_uvint32 failsafe_skip_write_uvint32)

interpretation svint32: field_serializer svint32_serializer "\<lambda>_. True"
  by unfold_locales
    (auto simp add: stored_def svint32_serializer_def svint32_write_def svint32_read_def svint32_failsafe_read_def
      svint32_nbytes_def uvint32_serializer_def uvint32_facts length_write_uvint32
      size_uvint32_bounds size_uvint32_pos failsafe_read_write_uvint32 failsafe_skip_write_uvint32
      zigzag_roundtrip)

text \<open>Type erasure keeps the contract.\<close>

lemma generic_field_serializer:
  assumes "field_serializer S ok" and inv: "\<And>v. get (mk v) = v"
  shows "field_serializer (generic_serializer mk get S) (\<lambda>x. \<exists>v. ok v \<and> x = mk v)"
proof -
  note S = field_serializer.read_write [OF assms(1)] field_serializer.length_write [OF assms(1)]
    field_serializer.nbytes_pos [OF assms(1)] field_serializer.nbytes_max [OF assms(1)]
    field_serializer.failsafe_read_write [OF assms(1)] field_serializer.skip_write [OF assms(1)]
    field_serializer.failsafe_skip_write [OF assms(1)] field_serializer.failsafe_skip_short [OF assms(1)]
  have st: "stored (generic_serializer mk get S) (mk v) bs = stored S v bs" for v bs
    by (simp add: stored_def generic_serializer_def inv)
  show ?thesis
    by unfold_locales (auto simp: st, auto simp: generic_serializer_def inv S)
qed

end
