(* ===== verification/Record_Codec.thy ===== *)
theory Record_Codec
  imports Serializer
begin

text \<open>
  Record encoding (\<^verbatim>\<open>DO_STRUCT\<close> in \<^verbatim>\<open>src/src/record/encoder.h\<close>) and the cursors over encoded
  records (\<^verbatim>\<open>src/src/record/cursor.h\<close>). The macro expands to one statement per field; a struct is
  modelled by the list of its field serializers (its \<^verbatim>\<open>value_descriptor\<close>) and an object by the list of
  its field values.
\<close>

section \<open>Struct encoder\<close>

type_synonym 'v descriptor = "'v field_ops list"

text \<open>\<open>buf\<close> is the memory at the destination; the result lies in its place.\<close>

fun encode_write :: "'v descriptor \<Rightarrow> 'v list \<Rightarrow> bytes \<Rightarrow> bytes" where
  "encode_write (f # fs) (v # vs) buf =
     (let w = write_fn f v buf in w @ encode_write fs vs (drop (length w) buf))"
| "encode_write _ _ buf = []"

fun encode_read :: "'v descriptor \<Rightarrow> bytes \<Rightarrow> mem_error + ('v list \<times> bytes)" where
  "encode_read [] buf = Inr ([], buf)"
| "encode_read (f # fs) buf =
     sbind (read_fn f buf) (\<lambda>(v, buf').
     sbind (encode_read fs buf') (\<lambda>(vs, buf''). Inr (v # vs, buf'')))"

text \<open>\<open>i\<close> fields have been read; the fields behind the prefix keep the values the object had.\<close>

fun encode_prefix_read_from ::
  "nat \<Rightarrow> nat \<Rightarrow> 'v descriptor \<Rightarrow> bytes \<Rightarrow> 'v list \<Rightarrow> mem_error + 'v list" where
  "encode_prefix_read_from i prefix (f # fs) buf (x # obj) =
     sbind (read_fn f buf) (\<lambda>(v, buf').
       if prefix \<le> Suc i then Inr (v # obj)
       else sbind (encode_prefix_read_from (Suc i) prefix fs buf' obj) (\<lambda>vs. Inr (v # vs)))"
| "encode_prefix_read_from i prefix _ buf obj = Inr obj"

definition encode_prefix_read :: "'v descriptor \<Rightarrow> bytes \<Rightarrow> 'v list \<Rightarrow> nat \<Rightarrow> mem_error + 'v list" where
  "encode_prefix_read fs buf obj prefix = encode_prefix_read_from 0 prefix fs buf obj"

text \<open>\<open>None\<close>: \<^verbatim>\<open>false\<close> is returned.\<close>

fun encode_failsafe_read :: "'v descriptor \<Rightarrow> bytes \<Rightarrow> nat \<Rightarrow> mem_error + 'v list option" where
  "encode_failsafe_read [] buf nbytes = Inr (Some [])"
| "encode_failsafe_read (f # fs) buf nbytes =
     sbind (failsafe_read_fn f buf nbytes) (\<lambda>r.
       case r of
         None \<Rightarrow> Inr None
       | Some (v, p) \<Rightarrow>
           sbind (encode_failsafe_read fs p (nbytes - (length buf - length p))) (\<lambda>r'.
             case r' of None \<Rightarrow> Inr None | Some vs \<Rightarrow> Inr (Some (v # vs))))"

fun encode_nbytes :: "'v descriptor \<Rightarrow> 'v list \<Rightarrow> nat" where
  "encode_nbytes (f # fs) (v # vs) = nbytes_fn f v + encode_nbytes fs vs"
| "encode_nbytes _ _ = 0"

text \<open>The overload that writes into a \<^verbatim>\<open>std::string\<close>, resized (with zeros) to fit.\<close>

definition encode_string :: "'v descriptor \<Rightarrow> 'v list \<Rightarrow> bytes" where
  "encode_string fs obj = encode_write fs obj (replicate (encode_nbytes fs obj) 0)"

fun encode_max_nbytes :: "'v descriptor \<Rightarrow> nat" where
  "encode_max_nbytes [] = 0"
| "encode_max_nbytes (f # fs) = max_nbytes f + encode_max_nbytes fs"

definition SIZE_MAX :: nat where
  "SIZE_MAX = 2 ^ 64 - 1"

fun max_nbytes_prefix_from :: "nat \<Rightarrow> nat \<Rightarrow> 'v descriptor \<Rightarrow> nat" where
  "max_nbytes_prefix_from i nfields [] = 0"
| "max_nbytes_prefix_from i nfields (f # fs) =
     (if nfields \<le> Suc i then max_nbytes f
      else max_nbytes f + max_nbytes_prefix_from (Suc i) nfields fs)"

definition encode_max_nbytes_prefix :: "'v descriptor \<Rightarrow> nat \<Rightarrow> nat" where
  "encode_max_nbytes_prefix fs nfields =
     (if length fs \<le> nfields then SIZE_MAX else max_nbytes_prefix_from 0 nfields fs)"

section \<open>Read cursor\<close>

text \<open>
  The bytes from \<^verbatim>\<open>px_begin\<close> on, the bytes left in the budget, the offset of \<^verbatim>\<open>px_cur\<close> and the
  current field.
\<close>

record read_record_cursor =
  rc_mem :: bytes
  rc_nbytes :: nat
  rc_cur :: nat
  rc_n :: nat

definition rc_init :: "bytes \<Rightarrow> nat \<Rightarrow> read_record_cursor" where
  "rc_init px nbytes = \<lparr>rc_mem = px, rc_nbytes = nbytes, rc_cur = 0, rc_n = 0\<rparr>"

function rc_skip_to :: "'v descriptor \<Rightarrow> nat \<Rightarrow> read_record_cursor \<Rightarrow> mem_error + (bool \<times> read_record_cursor)" where
  "rc_skip_to fs i c =
     (if rc_n c < i then
        if length fs \<le> rc_n c then Inl Past_end
        else sbind (failsafe_skip_fn (fs ! rc_n c) (drop (rc_cur c) (rc_mem c)) (rc_nbytes c) False)
          (\<lambda>(sz, _).
            let c1 = c\<lparr>rc_n := Suc (rc_n c)\<rparr>
            in if sz = 0 then Inr (False, c1)
               else rc_skip_to fs i (c1\<lparr>rc_cur := rc_cur c + sz, rc_nbytes := rc_nbytes c - sz\<rparr>))
      else Inr (True, c))"
  by pat_completeness auto
termination
  by (relation "measure (\<lambda>(fs, i, c). i - rc_n c)") auto

declare rc_skip_to.simps [simp del]

definition rc_reset :: "read_record_cursor \<Rightarrow> read_record_cursor" where
  "rc_reset c = c\<lparr>rc_nbytes := rc_nbytes c + rc_cur c, rc_cur := 0, rc_n := 0\<rparr>"

text \<open>The value stored into the caller's struct comes with the returned size; 0 is failure.\<close>

definition rc_read_current_and_advance ::
  "'v descriptor \<Rightarrow> read_record_cursor \<Rightarrow> mem_error + (nat \<times> 'v option \<times> read_record_cursor)" where
  "rc_read_current_and_advance fs c =
     (if length fs \<le> rc_n c then Inl Past_end
      else sbind (failsafe_read_fn (fs ! rc_n c) (drop (rc_cur c) (rc_mem c)) (rc_nbytes c)) (\<lambda>r.
        let c1 = c\<lparr>rc_n := Suc (rc_n c)\<rparr>
        in case r of
             None \<Rightarrow> Inr (0, None, c1)
           | Some (v, px_skip) \<Rightarrow>
               let rawsz = length (drop (rc_cur c) (rc_mem c)) - length px_skip
               in Inr (rawsz, Some v,
                    c1\<lparr>rc_nbytes := rc_nbytes c - rawsz, rc_cur := rc_cur c + rawsz\<rparr>)))"

definition rc_read_current_raw_size_and_advance ::
  "'v descriptor \<Rightarrow> read_record_cursor \<Rightarrow> mem_error + (nat \<times> read_record_cursor)" where
  "rc_read_current_raw_size_and_advance fs c =
     (if length fs \<le> rc_n c then Inl Past_end
      else sbind (failsafe_skip_fn (fs ! rc_n c) (drop (rc_cur c) (rc_mem c)) (rc_nbytes c) False)
        (\<lambda>(rawsz, _).
          let c1 = c\<lparr>rc_n := Suc (rc_n c)\<rparr>
          in if rc_nbytes c = 0 then Inr (0, c1)
             else Inr (rawsz, c1\<lparr>rc_nbytes := rc_nbytes c - rawsz, rc_cur := rc_cur c + rawsz\<rparr>)))"

section \<open>Write cursor\<close>

record write_record_cursor =
  wc_mem :: bytes
  wc_cur :: nat
  wc_end :: "nat option"
  wc_n :: nat

definition wc_init :: "bytes \<Rightarrow> write_record_cursor" where
  "wc_init px = \<lparr>wc_mem = px, wc_cur = 0, wc_end = None, wc_n = 0\<rparr>"

text \<open>Advance \<open>cur\<close> over the fields \<open>n, \<dots>, i - 1\<close>: the loop of \<^verbatim>\<open>skip_to\<close> and \<^verbatim>\<open>compute_end\<close>.\<close>

function skip_fields :: "'v descriptor \<Rightarrow> nat \<Rightarrow> bytes \<Rightarrow> nat \<Rightarrow> nat \<Rightarrow> mem_error + nat" where
  "skip_fields fs i buf n cur =
     (if n < i then
        if length fs \<le> n then Inl Past_end
        else sbind (skip_fn (fs ! n) (drop cur buf) False) (\<lambda>(sz, _). skip_fields fs i buf (Suc n) (cur + sz))
      else Inr cur)"
  by pat_completeness auto
termination
  by (relation "measure (\<lambda>(fs, i, buf, n, cur). i - n)") auto

declare skip_fields.simps [simp del]

definition wc_skip_to :: "'v descriptor \<Rightarrow> nat \<Rightarrow> write_record_cursor \<Rightarrow> mem_error + write_record_cursor" where
  "wc_skip_to fs i c =
     sbind (skip_fields fs i (wc_mem c) (wc_n c) (wc_cur c))
       (\<lambda>cur. Inr (c\<lparr>wc_cur := cur, wc_n := max (wc_n c) i\<rparr>))"

definition wc_reset :: "write_record_cursor \<Rightarrow> write_record_cursor" where
  "wc_reset c = c\<lparr>wc_cur := 0, wc_n := 0\<rparr>"

definition compute_end :: "'v descriptor \<Rightarrow> write_record_cursor \<Rightarrow> mem_error + nat" where
  "compute_end fs c =
     (case wc_end c of
        Some e \<Rightarrow> Inr e
      | None \<Rightarrow> skip_fields fs (length fs) (wc_mem c) (wc_n c) (wc_cur c))"

definition mem_move :: "nat \<Rightarrow> nat \<Rightarrow> nat \<Rightarrow> bytes \<Rightarrow> mem_error + bytes" where
  "mem_move dst src len buf =
     (if length buf < src + len \<or> length buf < dst + len then Inl Past_end
      else Inr (write_at dst (take len (drop src buf)) buf))"

text \<open>Writes field \<open>n\<close> of the object \<open>v\<close> over the current field; the copy of the old field goes to the caller.\<close>

definition wc_write_current_and_advance ::
  "'v descriptor \<Rightarrow> 'v \<Rightarrow> write_record_cursor \<Rightarrow> mem_error + (bytes option \<times> write_record_cursor)" where
  "wc_write_current_and_advance fs v c =
     (if length fs \<le> wc_n c then Inl Past_end
      else
        let f = fs ! wc_n c; newsz = nbytes_fn f v
        in sbind (skip_fn f (drop (wc_cur c) (wc_mem c)) True) (\<lambda>(oldsz, old_v).
           sbind (if oldsz \<noteq> newsz
                  then sbind (compute_end fs c) (\<lambda>px_end.
                       sbind (mem_move (wc_cur c + newsz) (wc_cur c + oldsz)
                                (px_end - wc_cur c - oldsz) (wc_mem c)) (\<lambda>buf.
                         Inr (c\<lparr>wc_mem := buf,
                              wc_end := Some (if newsz < oldsz then px_end - (oldsz - newsz)
                                              else px_end + (newsz - oldsz))\<rparr>)))
                  else Inr c) (\<lambda>c1.
             if length (wc_mem c1) < wc_cur c1 + nbytes_fn f v then Inl Past_end
             else
               let bs = write_fn f v (drop (wc_cur c1) (wc_mem c1))
               in Inr (old_v,
                  c1\<lparr>wc_mem := write_at (wc_cur c1) bs (wc_mem c1),
                     wc_cur := wc_cur c1 + length bs, wc_n := Suc (wc_n c1)\<rparr>))))"


section \<open>Records of well-behaved fields\<close>

text \<open>
  A record layout is a descriptor whose every field meets the field contract; \<open>oks\<close> are the fields'
  domains. Everything the encoder and the cursors promise is proved once here.
\<close>

definition object_ok :: "('v \<Rightarrow> bool) list \<Rightarrow> 'v list \<Rightarrow> bool" where
  "object_ok oks obj = list_all2 (\<lambda>ok v. ok v) oks obj"

lemma object_ok_simps [simp]:
  "object_ok [] obj \<longleftrightarrow> obj = []"
  "object_ok (ok # oks) (v # vs) \<longleftrightarrow> ok v \<and> object_ok oks vs"
  "object_ok (ok # oks) obj \<longleftrightarrow> (\<exists>v vs. obj = v # vs \<and> ok v \<and> object_ok oks vs)"
  by (auto simp: object_ok_def list_all2_Cons1)

lemma object_ok_length: "object_ok oks obj \<Longrightarrow> length obj = length oks"
  by (simp add: object_ok_def list_all2_lengthD)

lemma object_ok_nth: "object_ok oks obj \<Longrightarrow> i < length oks \<Longrightarrow> (oks ! i) (obj ! i)"
  by (auto simp: object_ok_def list_all2_conv_all_nth)

lemma object_ok_update: "object_ok oks obj \<Longrightarrow> i < length oks \<Longrightarrow> (oks ! i) v \<Longrightarrow> object_ok oks (obj[i := v])"
  by (auto simp: object_ok_def list_all2_conv_all_nth nth_list_update)

text \<open>\<open>bs\<close> consists of stored fields, one after the other.\<close>

fun encodes :: "'v descriptor \<Rightarrow> 'v list \<Rightarrow> bytes \<Rightarrow> bool" where
  "encodes [] [] bs \<longleftrightarrow> bs = []"
| "encodes (f # fs) (v # vs) bs \<longleftrightarrow> (\<exists>w r. bs = w @ r \<and> stored f v w \<and> encodes fs vs r)"
| "encodes _ _ bs \<longleftrightarrow> False"

lemma encode_write_encodes:
  "list_all2 field_serializer fs oks \<Longrightarrow> object_ok oks obj \<Longrightarrow> encode_nbytes fs obj \<le> length buf \<Longrightarrow>
   encodes fs obj (encode_write fs obj buf)"
proof (induction fs oks arbitrary: obj buf rule: list_all2_induct)
  case Nil
  then show ?case by simp
next
  case (Cons f fs ok oks)
  then obtain v vs where obj: "obj = v # vs" and v: "ok v" and vs: "object_ok oks vs" by auto
  have st: "stored f v (write_fn f v buf)" using Cons.prems(2) unfolding stored_def
    by (intro exI [of _ buf]) (simp add: obj)
  then have len: "length (write_fn f v buf) = nbytes_fn f v"
    by (rule field_serializer.length_write [OF Cons.hyps(1) v])
  show ?case
    using st Cons.IH [OF vs, of "drop (nbytes_fn f v) buf"] Cons.prems(2)
    by (fastforce simp: obj Let_def len)
qed

lemma encodes_read:
  "list_all2 field_serializer fs oks \<Longrightarrow> object_ok oks obj \<Longrightarrow> encodes fs obj bs \<Longrightarrow>
   encode_read fs (bs @ rest) = Inr (obj, rest)"
  by (induction fs oks arbitrary: obj bs rule: list_all2_induct)
    (auto simp: field_serializer.read_write)

lemma encodes_length:
  "list_all2 field_serializer fs oks \<Longrightarrow> object_ok oks obj \<Longrightarrow> encodes fs obj bs \<Longrightarrow>
   length bs = encode_nbytes fs obj"
  by (induction fs oks arbitrary: obj bs rule: list_all2_induct)
    (auto simp: field_serializer.length_write)

lemma encode_nbytes_max_gen:
  "list_all2 field_serializer fs oks \<Longrightarrow> object_ok oks obj \<Longrightarrow>
   encode_nbytes fs obj \<le> encode_max_nbytes fs"
  by (induction fs oks arbitrary: obj rule: list_all2_induct)
    (auto intro!: add_mono dest: field_serializer.nbytes_max)

lemma encodes_failsafe_read:
  "list_all2 field_serializer fs oks \<Longrightarrow> object_ok oks obj \<Longrightarrow> encodes fs obj bs \<Longrightarrow>
   encode_failsafe_read fs (bs @ rest) n =
     (if encode_nbytes fs obj \<le> n then Inr (Some obj) else Inr None)"
proof (induction fs oks arbitrary: obj n bs rule: list_all2_induct)
  case Nil
  then show ?case by simp
next
  case (Cons f fs ok oks)
  then obtain v vs where obj: "obj = v # vs" and v: "ok v" and vs: "object_ok oks vs" by auto
  obtain w r where bs: "bs = w @ r" and w: "stored f v w" and r: "encodes fs vs r"
    using Cons.prems(2) by (auto simp: obj)
  show ?case
    using Cons.IH [OF vs r, of "n - nbytes_fn f v"]
    by (auto simp: obj bs field_serializer.failsafe_read_write [OF Cons.hyps(1) v w]
        field_serializer.length_write [OF Cons.hyps(1) v w])
qed

lemma encodes_prefix_read:
  "list_all2 field_serializer fs oks \<Longrightarrow> object_ok oks obj \<Longrightarrow> encodes fs obj bs \<Longrightarrow> length old = length fs \<Longrightarrow>
   encode_prefix_read_from i prefix fs (bs @ rest) old =
     Inr (take (max 1 (prefix - i)) obj @ drop (max 1 (prefix - i)) old)"
proof (induction fs oks arbitrary: obj old i bs rule: list_all2_induct)
  case Nil
  then show ?case by simp
next
  case (Cons f fs ok oks)
  then obtain v vs x xs where obj: "obj = v # vs" "old = x # xs" and v: "ok v" and vs: "object_ok oks vs"
    and len: "length xs = length fs" by (auto simp: length_Suc_conv)
  obtain w r where bs: "bs = w @ r" and w: "stored f v w" and r: "encodes fs vs r"
    using Cons.prems(2) by (auto simp: obj)
  have k: "max 1 (prefix - i) = Suc (max 1 (prefix - Suc i))" if "Suc i < prefix" using that by simp
  show ?case
    using Cons.IH [OF vs r len, of "Suc i"] k
    by (auto simp: obj bs field_serializer.read_write [OF Cons.hyps(1) v w] not_le)
qed

lemma encodes_append:
  "length xs = length us \<Longrightarrow>
   encodes (xs @ ys) (us @ ws) bs \<longleftrightarrow> (\<exists>A B. bs = A @ B \<and> encodes xs us A \<and> encodes ys ws B)"
proof (induction xs us arbitrary: bs rule: list_induct2)
  case Nil
  then show ?case by simp
next
  case (Cons x xs u us)
  show ?case by (auto simp: Cons.IH) (metis append.assoc)+
qed

lemma encode_nbytes_append:
  "length xs = length us \<Longrightarrow> encode_nbytes (xs @ ys) (us @ ws) = encode_nbytes xs us + encode_nbytes ys ws"
  by (induction xs us rule: list_induct2) auto

locale record_layout =
  fixes fs :: "'v descriptor" and oks :: "('v \<Rightarrow> bool) list"
  assumes fields: "list_all2 field_serializer fs oks"
begin

lemma same_length: "length fs = length oks"
  using fields by (rule list_all2_lengthD)

lemma field: "i < length fs \<Longrightarrow> field_serializer (fs ! i) (oks ! i)"
  using fields by (rule list_all2_nthD)

lemmas write_encodes = encode_write_encodes [OF fields]
lemmas read_encoded = encodes_read [OF fields]
lemmas length_encoded = encodes_length [OF fields]
lemmas encoded_max = encode_nbytes_max_gen [OF fields]
lemmas failsafe_read_encoded = encodes_failsafe_read [OF fields]
lemmas prefix_read_encoded = encodes_prefix_read [OF fields]

text \<open>Where field \<open>n\<close> starts in the encoding, and what lies there.\<close>

definition offset :: "'v list \<Rightarrow> nat \<Rightarrow> nat" where
  "offset obj n = encode_nbytes (take n fs) (take n obj)"

lemma offset_0 [simp]: "offset obj 0 = 0"
  by (simp add: offset_def)

lemma offset_all: "object_ok oks obj \<Longrightarrow> offset obj (length fs) = encode_nbytes fs obj"
  using object_ok_length [of oks obj] same_length by (simp add: offset_def)

lemma fields_split:
  "object_ok oks obj \<Longrightarrow> encode_nbytes fs obj =
     offset obj n + encode_nbytes (drop n fs) (drop n obj)"
  using encode_nbytes_append [of "take n fs" "take n obj" "drop n fs" "drop n obj"]
    object_ok_length [of oks obj] same_length by (simp add: offset_def)

lemma drop_Cons:
  assumes "object_ok oks obj" and "n < length fs"
  shows "drop n fs = fs ! n # drop (Suc n) fs" and "drop n obj = obj ! n # drop (Suc n) obj"
  using object_ok_length [OF assms(1)] same_length assms(2) by (simp_all add: Cons_nth_drop_Suc)

lemma offset_Suc:
  assumes "object_ok oks obj" and "n < length fs"
  shows "offset obj (Suc n) = offset obj n + nbytes_fn (fs ! n) (obj ! n)"
  using fields_split [OF assms(1), of n] fields_split [OF assms(1), of "Suc n"]
  unfolding drop_Cons [OF assms] by simp

lemma offset_mono: "object_ok oks obj \<Longrightarrow> offset obj n \<le> encode_nbytes fs obj"
  using fields_split [of obj n] by simp

text \<open>The encoding around field \<open>n\<close>: what precedes it, its own bytes, what follows.\<close>

lemma encodes_at:
  assumes ok: "object_ok oks obj" and n: "n < length fs" and bs: "encodes fs obj bs"
  obtains A w B where "bs = A @ w @ B" "length A = offset obj n" "stored (fs ! n) (obj ! n) w"
    "encodes (take n fs) (take n obj) A" "encodes (drop (Suc n) fs) (drop (Suc n) obj) B"
proof -
  have len: "length (take n fs) = length (take n obj)" using object_ok_length [OF ok] same_length by simp
  have "encodes (take n fs @ drop n fs) (take n obj @ drop n obj) bs" using bs by simp
  then obtain A C where A: "bs = A @ C" "encodes (take n fs) (take n obj) A"
      and C: "encodes (drop n fs) (drop n obj) C"
    by (auto simp only: encodes_append [OF len])
  from C obtain w B where C': "C = w @ B" "stored (fs ! n) (obj ! n) w"
      "encodes (drop (Suc n) fs) (drop (Suc n) obj) B"
    unfolding drop_Cons [OF ok n] by auto
  have "list_all2 field_serializer (take n fs) (take n oks)" using fields by (rule list_all2_takeI)
  moreover have "object_ok (take n oks) (take n obj)"
    using ok unfolding object_ok_def by (rule list_all2_takeI)
  ultimately have "length A = offset obj n" unfolding offset_def using A(2) by (rule encodes_length)
  then show thesis using A C' by (intro that [of A w B]) simp_all
qed

lemma encodes_join:
  assumes ok: "object_ok oks obj" and n: "n < length fs" and v: "stored (fs ! n) v w"
    and A: "encodes (take n fs) (take n obj) A" and B: "encodes (drop (Suc n) fs) (drop (Suc n) obj) B"
  shows "encodes fs (obj[n := v]) (A @ w @ B)"
proof -
  have len: "length (take n fs) = length (take n obj)" using object_ok_length [OF ok] same_length by simp
  have o: "obj[n := v] = take n obj @ v # drop (Suc n) obj"
    using object_ok_length [OF ok] same_length n by (simp add: upd_conv_take_nth_drop)
  have "encodes (take n fs @ fs ! n # drop (Suc n) fs) (take n obj @ v # drop (Suc n) obj) (A @ w @ B)"
    unfolding encodes_append [OF len] using A B v by (intro exI [of _ A] exI [of _ "w @ B"]) auto
  then show ?thesis using n o by (simp add: Cons_nth_drop_Suc)
qed

lemma skip_fields_encoded:
  assumes ok: "object_ok oks obj" and bs: "encodes fs obj bs" and "n \<le> i" and "i \<le> length fs"
  shows "skip_fields fs i (bs @ rest) n (offset obj n) = Inr (offset obj i)"
  using assms(3,4)
proof (induction "i - n" arbitrary: n)
  case 0
  then show ?case by (simp add: skip_fields.simps)
next
  case (Suc k)
  then have n: "n < i" "n < length fs" by simp_all
  obtain A w B where at: "bs = A @ w @ B" "length A = offset obj n" "stored (fs ! n) (obj ! n) w"
    by (rule encodes_at [OF ok n(2) bs])
  have "skip_fn (fs ! n) (drop (offset obj n) (bs @ rest)) False = Inr (nbytes_fn (fs ! n) (obj ! n), None)"
    using field_serializer.skip_write [OF field [OF n(2)] _ at(3), of "B @ rest" False]
      object_ok_nth [OF ok, of n] same_length n by (simp add: at(1) at(2) [symmetric])
  then show ?case
    using Suc.hyps(1) [of "Suc n"] Suc.hyps(2) Suc.prems n
    by (simp add: skip_fields.simps [of fs i _ n] offset_Suc [OF ok n(2)])
qed

text \<open>
  The write cursor sits at the start of field \<open>n\<close> of an encoded object, and an end it has computed is
  the end of the encoding.
\<close>

definition at_field :: "'v list \<Rightarrow> write_record_cursor \<Rightarrow> bool" where
  "at_field obj c \<longleftrightarrow> object_ok oks obj \<and> wc_n c \<le> length fs \<and> wc_cur c = offset obj (wc_n c) \<and>
     (\<exists>bs junk. wc_mem c = bs @ junk \<and> encodes fs obj bs) \<and>
     (\<forall>e. wc_end c = Some e \<longrightarrow> e = encode_nbytes fs obj)"

lemma at_field_skip_to:
  assumes "at_field obj c" and "wc_n c \<le> i" and "i \<le> length fs"
  shows "\<exists>c'. wc_skip_to fs i c = Inr c' \<and> at_field obj c' \<and> wc_n c' = i \<and> wc_mem c' = wc_mem c"
proof -
  obtain bs junk where "wc_mem c = bs @ junk" "encodes fs obj bs" using assms(1) by (auto simp: at_field_def)
  then show ?thesis
    using assms skip_fields_encoded [of obj bs "wc_n c" i junk]
    by (auto simp: at_field_def wc_skip_to_def max_def intro!: exI [of _ bs])
qed

lemma compute_end_at_field:
  assumes "at_field obj c"
  shows "compute_end fs c = Inr (encode_nbytes fs obj)"
proof (cases "wc_end c")
  case None
  then show ?thesis
    using assms skip_fields_encoded [of obj _ "wc_n c" "length fs"] offset_all [of obj]
    by (auto simp: compute_end_def at_field_def)
next
  case (Some e)
  then show ?thesis using assms by (simp add: compute_end_def at_field_def)
qed

text \<open>The memory around the current field, and how long the record is with another value in it.\<close>

lemma at_field_parts:
  assumes at: "at_field obj c" and n: "wc_n c < length fs" and v: "(oks ! wc_n c) v"
  obtains A w B J where "wc_mem c = A @ w @ B @ J" "wc_cur c = length A" "stored (fs ! wc_n c) (obj ! wc_n c) w"
    "encodes (take (wc_n c) fs) (take (wc_n c) obj) A" "encodes (drop (Suc (wc_n c)) fs) (drop (Suc (wc_n c)) obj) B"
    "skip_fn (fs ! wc_n c) (drop (wc_cur c) (wc_mem c)) True = Inr (length w, Some w)"
    "encode_nbytes fs obj = length A + length w + length B"
    "encode_nbytes fs (obj[wc_n c := v]) = length A + nbytes_fn (fs ! wc_n c) v + length B"
    "offset (obj[wc_n c := v]) (Suc (wc_n c)) = length A + nbytes_fn (fs ! wc_n c) v"
proof -
  let ?n = "wc_n c" and ?f = "fs ! wc_n c"
  have ok: "object_ok oks obj" using at by (simp add: at_field_def)
  have ok': "object_ok oks (obj[?n := v])" using ok n v same_length by (simp add: object_ok_update)
  obtain bs J where mem0: "wc_mem c = bs @ J" "encodes fs obj bs" using at by (auto simp: at_field_def)
  obtain A w B where A: "bs = A @ w @ B" "length A = offset obj ?n" "stored ?f (obj ! ?n) w"
      "encodes (take ?n fs) (take ?n obj) A" "encodes (drop (Suc ?n) fs) (drop (Suc ?n) obj) B"
    by (rule encodes_at [OF ok n mem0(2)])
  have mem: "wc_mem c = A @ w @ B @ J" using mem0(1) A(1) by simp
  have cur: "wc_cur c = length A" using at A(2) by (simp add: at_field_def)
  have old: "(oks ! ?n) (obj ! ?n)" using object_ok_nth [OF ok] n same_length by simp
  have lenw: "length w = nbytes_fn ?f (obj ! ?n)" by (rule field_serializer.length_write [OF field [OF n] old A(3)])
  have enc: "encode_nbytes fs obj = length A + length w + length B"
    using length_encoded [OF ok mem0(2)] A(1) by simp
  have off: "offset (obj[?n := v]) ?n = length A" using A(2) by (simp add: offset_def)
  have offS: "offset (obj[?n := v]) (Suc ?n) = length A + nbytes_fn ?f v"
    using offset_Suc [OF ok' n] off n object_ok_length [OF ok] same_length by simp
  have enc': "encode_nbytes fs (obj[?n := v]) = length A + nbytes_fn ?f v + length B"
    using fields_split [OF ok', of "Suc ?n"] fields_split [OF ok, of "Suc ?n"] offS enc
      offset_Suc [OF ok n] A(2) lenw by simp
  have skip: "skip_fn ?f (drop (wc_cur c) (wc_mem c)) True = Inr (length w, Some w)"
    using field_serializer.skip_write [OF field [OF n] old A(3), of "B @ J" True] by (simp add: mem cur lenw)
  show thesis by (rule that [OF mem cur A(3-5) skip enc enc' offS])
qed

text \<open>Without room for the record with the new value, the tail is moved behind the memory.\<close>

lemma write_current_overflow:
  assumes at: "at_field obj c" and n: "wc_n c < length fs" and v: "(oks ! wc_n c) v"
    and full: "length (wc_mem c) < encode_nbytes fs (obj[wc_n c := v])"
  shows "wc_write_current_and_advance fs v c = Inl Past_end"
proof -
  obtain A w B J where p: "wc_mem c = A @ w @ B @ J" "wc_cur c = length A"
      "skip_fn (fs ! wc_n c) (drop (wc_cur c) (wc_mem c)) True = Inr (length w, Some w)"
      "encode_nbytes fs obj = length A + length w + length B"
      "encode_nbytes fs (obj[wc_n c := v]) = length A + nbytes_fn (fs ! wc_n c) v + length B"
    by (rule at_field_parts [OF at n v])
  have "length w \<noteq> nbytes_fn (fs ! wc_n c) v" using full p(1,5) by auto
  moreover have "mem_move (wc_cur c + nbytes_fn (fs ! wc_n c) v) (wc_cur c + length w)
      (encode_nbytes fs obj - wc_cur c - length w) (wc_mem c) = Inl Past_end"
    using full p by (simp add: mem_move_def)
  ultimately show ?thesis
    unfolding wc_write_current_and_advance_def Let_def p(3) sbind_simps prod.case compute_end_at_field [OF at]
    using n by simp
qed

lemma write_current_at_field:
  assumes at: "at_field obj c" and n: "wc_n c < length fs" and v: "(oks ! wc_n c) v"
    and room: "encode_nbytes fs (obj[wc_n c := v]) \<le> length (wc_mem c)"
  shows "\<exists>old c'. wc_write_current_and_advance fs v c = Inr (Some old, c') \<and>
    stored (fs ! wc_n c) (obj ! wc_n c) old \<and>
    at_field (obj[wc_n c := v]) c' \<and> wc_n c' = Suc (wc_n c) \<and> length (wc_mem c') = length (wc_mem c)"
proof -
  let ?n = "wc_n c"
  let ?f = "fs ! ?n"
  let ?sz = "nbytes_fn ?f v"
  have ok: "object_ok oks obj" using at by (simp add: at_field_def)
  have ok': "object_ok oks (obj[?n := v])" using ok n v same_length by (simp add: object_ok_update)
  obtain A w B J where mem: "wc_mem c = A @ w @ B @ J" and cur: "wc_cur c = length A" and w: "stored ?f (obj ! ?n) w"
    and AB: "encodes (take ?n fs) (take ?n obj) A" "encodes (drop (Suc ?n) fs) (drop (Suc ?n) obj) B"
    and skip: "skip_fn ?f (drop (wc_cur c) (wc_mem c)) True = Inr (length w, Some w)"
    and enc: "encode_nbytes fs obj = length A + length w + length B"
    and enc': "encode_nbytes fs (obj[?n := v]) = length A + ?sz + length B"
    and offS: "offset (obj[?n := v]) (Suc ?n) = length A + ?sz"
    by (rule at_field_parts [OF at n v])
  have join: "encodes fs (obj[?n := v]) (A @ N @ B)" and lenN: "length N = ?sz"
    if "N = write_fn ?f v d" "?sz \<le> length d" for N d
  proof -
    have st: "stored ?f v N" using that by (auto simp: stored_def)
    then show "encodes fs (obj[?n := v]) (A @ N @ B)" by (rule encodes_join [OF ok n _ AB])
    show "length N = ?sz" using st by (rule field_serializer.length_write [OF field [OF n] v])
  qed
  show ?thesis
  proof (cases "length w = ?sz")
    case True
    let ?N = "write_fn ?f v (w @ B @ J)"
    have d: "?sz \<le> length (w @ B @ J)" using True by simp
    have "wc_write_current_and_advance fs v c =
        Inr (Some w, c\<lparr>wc_mem := A @ ?N @ B @ J, wc_cur := length A + ?sz, wc_n := Suc ?n\<rparr>)"
      using n True skip lenN [OF refl d]
      by (simp add: wc_write_current_and_advance_def Let_def mem cur write_at_append)
    moreover have "at_field (obj[?n := v]) (c\<lparr>wc_mem := A @ ?N @ B @ J, wc_cur := length A + ?sz, wc_n := Suc ?n\<rparr>)"
      using n ok' at offS enc enc' True join [OF refl d]
      unfolding at_field_def by (intro conjI exI [of _ "A @ ?N @ B"] exI [of _ J]) auto
    ultimately show ?thesis using w lenN [OF refl d] True by (auto simp: mem)
  next
    case False
    let ?buf = "write_at (length A + ?sz) B (wc_mem c)"
    let ?N = "write_fn ?f v (drop (length A) ?buf)"
    have room': "length A + ?sz + length B \<le> length (wc_mem c)" using room enc' by simp
    have move: "mem_move (wc_cur c + ?sz) (wc_cur c + length w)
        (encode_nbytes fs obj - wc_cur c - length w) (wc_mem c) = Inr ?buf"
      using room' by (simp add: mem_move_def enc cur mem)
    have lbuf: "length ?buf = length (wc_mem c)" using room' by (simp add: length_write_at)
    have d: "?sz \<le> length (drop (length A) ?buf)" using room' by (simp add: lbuf)
    note N = lenN [OF refl d]
    have buf: "write_at (length A) ?N ?buf =
        A @ ?N @ B @ drop (length A + ?sz + length B) (wc_mem c)"
      using room' unfolding write_at_def [of "length A" ?N] N by (simp add: write_at_def mem)
    have ends: "(if ?sz < length w then encode_nbytes fs obj - (length w - ?sz)
        else encode_nbytes fs obj + (?sz - length w)) = encode_nbytes fs (obj[?n := v])"
      using enc enc' by auto
    let ?c' = "c\<lparr>wc_mem := write_at (length A) ?N ?buf, wc_end := Some (encode_nbytes fs (obj[?n := v])),
      wc_cur := length A + ?sz, wc_n := Suc ?n\<rparr>"
    have "wc_write_current_and_advance fs v c = Inr (Some w, ?c')"
      unfolding wc_write_current_and_advance_def Let_def skip sbind_simps prod.case
        compute_end_at_field [OF at] move ends
      using n False room' lbuf cur N by simp
    moreover have "length (write_at (length A) ?N ?buf) = length (wc_mem c)"
      using room' lbuf N by (simp add: length_write_at)
    moreover have "at_field (obj[?n := v]) ?c'"
      using n ok' offS join [OF refl d] unfolding at_field_def
      by (intro conjI exI [of _ "A @ ?N @ B"]
          exI [of _ "drop (length A + ?sz + length B) (wc_mem c)"]) (auto simp: buf)
    ultimately show ?thesis using w by auto
  qed
qed

text \<open>The read cursor at field \<open>n\<close>, with at least the whole encoding in its budget.\<close>

definition reading :: "'v list \<Rightarrow> nat \<Rightarrow> read_record_cursor \<Rightarrow> bool" where
  "reading obj budget c \<longleftrightarrow> object_ok oks obj \<and> rc_n c \<le> length fs \<and> rc_cur c = offset obj (rc_n c) \<and>
     (\<exists>bs junk. rc_mem c = bs @ junk \<and> encodes fs obj bs) \<and>
     encode_nbytes fs obj \<le> budget \<and> rc_nbytes c = budget - rc_cur c"

lemma rc_at_field:
  assumes r: "reading obj budget c" and n: "rc_n c < length fs"
  obtains w rest where "drop (rc_cur c) (rc_mem c) = w @ rest"
    and "stored (fs ! rc_n c) (obj ! rc_n c) w"
    and "(oks ! rc_n c) (obj ! rc_n c)"
    and "nbytes_fn (fs ! rc_n c) (obj ! rc_n c) \<le> rc_nbytes c"
proof -
  have ok: "object_ok oks obj" using r by (simp add: reading_def)
  obtain bs junk where m: "rc_mem c = bs @ junk" "encodes fs obj bs" and cur: "rc_cur c = offset obj (rc_n c)"
    using r by (auto simp: reading_def)
  obtain A w B where at: "bs = A @ w @ B" "length A = offset obj (rc_n c)" "stored (fs ! rc_n c) (obj ! rc_n c) w"
    by (rule encodes_at [OF ok n m(2)])
  show thesis
  proof (rule that [OF _ at(3)])
    show "drop (rc_cur c) (rc_mem c) = w @ B @ junk" by (simp add: m(1) cur at(1) at(2) [symmetric])
    show "(oks ! rc_n c) (obj ! rc_n c)" using object_ok_nth [OF ok] n same_length by simp
    show "nbytes_fn (fs ! rc_n c) (obj ! rc_n c) \<le> rc_nbytes c"
      using r n offset_mono [OF ok, of "Suc (rc_n c)"] offset_Suc [OF ok n] by (auto simp: reading_def)
  qed
qed

lemma reading_advance:
  assumes r: "reading obj budget c" and n: "rc_n c < length fs"
  shows "reading obj budget (c\<lparr>rc_n := Suc (rc_n c),
      rc_cur := rc_cur c + nbytes_fn (fs ! rc_n c) (obj ! rc_n c),
      rc_nbytes := rc_nbytes c - nbytes_fn (fs ! rc_n c) (obj ! rc_n c)\<rparr>)"
proof -
  have "object_ok oks obj" using r by (simp add: reading_def)
  then show ?thesis using r n offset_Suc [of obj "rc_n c"] by (auto simp: reading_def)
qed

lemma rc_skip_to_reading:
  assumes "reading obj budget c" and "rc_n c \<le> i" and "i \<le> length fs"
  shows "\<exists>c'. rc_skip_to fs i c = Inr (True, c') \<and> reading obj budget c' \<and> rc_n c' = i"
  using assms
proof (induction "i - rc_n c" arbitrary: c)
  case 0
  then show ?case by (simp add: rc_skip_to.simps)
next
  case (Suc k)
  then have n: "rc_n c < i" "rc_n c < length fs" by simp_all
  let ?f = "fs ! rc_n c"
  let ?sz = "nbytes_fn ?f (obj ! rc_n c)"
  let ?c' = "c\<lparr>rc_n := Suc (rc_n c), rc_cur := rc_cur c + ?sz, rc_nbytes := rc_nbytes c - ?sz\<rparr>"
  obtain w rest where at: "drop (rc_cur c) (rc_mem c) = w @ rest" "stored ?f (obj ! rc_n c) w"
      "(oks ! rc_n c) (obj ! rc_n c)" "?sz \<le> rc_nbytes c"
    by (rule rc_at_field [OF Suc.prems(1) n(2)])
  have skip: "failsafe_skip_fn ?f (drop (rc_cur c) (rc_mem c)) (rc_nbytes c) False = Inr (?sz, None)"
    unfolding at(1) using field_serializer.failsafe_skip_write [OF field [OF n(2)] at(3) at(2) at(4)] by simp
  have pos: "0 < ?sz" by (rule field_serializer.nbytes_pos [OF field [OF n(2)] at(3)])
  have "rc_skip_to fs i c = rc_skip_to fs i ?c'"
    using n skip pos by (simp add: rc_skip_to.simps [of fs i c] Let_def)
  moreover have "\<exists>c''. rc_skip_to fs i ?c' = Inr (True, c'') \<and> reading obj budget c'' \<and> rc_n c'' = i"
    using Suc.hyps(1) [of ?c'] Suc.hyps(2) Suc.prems(3) n reading_advance [OF Suc.prems(1) n(2)] by simp
  ultimately show ?case by simp
qed

lemma rc_read_reading:
  assumes r: "reading obj budget c" and n: "rc_n c < length fs"
  shows "\<exists>c'. rc_read_current_and_advance fs c =
      Inr (nbytes_fn (fs ! rc_n c) (obj ! rc_n c), Some (obj ! rc_n c), c') \<and>
    reading obj budget c' \<and> rc_n c' = Suc (rc_n c)"
proof -
  let ?f = "fs ! rc_n c"
  let ?sz = "nbytes_fn ?f (obj ! rc_n c)"
  obtain w rest where m: "drop (rc_cur c) (rc_mem c) = w @ rest" and at: "stored ?f (obj ! rc_n c) w"
      "(oks ! rc_n c) (obj ! rc_n c)" "?sz \<le> rc_nbytes c"
    by (rule rc_at_field [OF r n])
  have read: "failsafe_read_fn ?f (drop (rc_cur c) (rc_mem c)) (rc_nbytes c) = Inr (Some (obj ! rc_n c, rest))"
    using field_serializer.failsafe_read_write [OF field [OF n] at(2,1)] at(3) by (simp add: m)
  have sz: "length (drop (rc_cur c) (rc_mem c)) - length rest = ?sz"
    using field_serializer.length_write [OF field [OF n] at(2,1)] by (simp add: m)
  show ?thesis
    unfolding rc_read_current_and_advance_def read sbind_simps option.case prod.case sz Let_def
    using n reading_advance [OF r n] by (auto simp: reading_def add.commute)
qed

end

end
