(* ===== verification/Inline_Str.thy ===== *)
theory Inline_Str
  imports Serializer
begin

text \<open>
  Strings stored inside records (\<^verbatim>\<open>src/src/record/inline_str.h\<close>): \<^verbatim>\<open>inline_str_base\<close>, a length and a
  buffer of \<^verbatim>\<open>N + 1\<close> characters, of which only the first \<^verbatim>\<open>sz\<close> are copied by an assignment, and
  \<^verbatim>\<open>inline_str_fixed\<close>, padded to \<^verbatim>\<open>N\<close>. Their serialization is the struct assignment of the
  unspecialised \<^verbatim>\<open>serializer\<close>: \<^verbatim>\<open>inline_str_8\<close> and \<^verbatim>\<open>inline_str_16\<close> are derived classes, which the
  specialisation for \<^verbatim>\<open>inline_str_base\<close> does not match.
\<close>

section \<open>Variable-length strings\<close>

record 'sz inline_str_base =
  istr_sz :: 'sz
  istr_buf :: bytes

text \<open>The default constructor leaves the buffer as it was: \<open>junk\<close>.\<close>

definition istr_init :: "bytes \<Rightarrow> 'a::len word inline_str_base" where
  "istr_init junk = \<lparr>istr_sz = 0, istr_buf = junk\<rparr>"

definition istr_size :: "'a::len word inline_str_base \<Rightarrow> nat" where
  "istr_size s = unat (istr_sz s)"

definition istr_assign :: "bytes \<Rightarrow> 'a::len word inline_str_base \<Rightarrow> mem_error + 'a word inline_str_base" where
  "istr_assign s this =
     (if length (istr_buf this) < length s then Inl Past_end
      else Inr (this\<lparr>istr_buf := write_at 0 s (istr_buf this), istr_sz := of_nat (length s)\<rparr>))"

text \<open>Copy constructor and \<^verbatim>\<open>operator=\<close>.\<close>

definition istr_copy :: "'a::len word inline_str_base \<Rightarrow> 'a word inline_str_base \<Rightarrow> mem_error + 'a word inline_str_base" where
  "istr_copy that this =
     (if length (istr_buf that) < unat (istr_sz that) \<or> length (istr_buf this) < unat (istr_sz that) then Inl Past_end
      else Inr (this\<lparr>istr_sz := istr_sz that, istr_buf := write_at 0 (take (unat (istr_sz that)) (istr_buf that)) (istr_buf this)\<rparr>))"

definition istr_str :: "'a::len word inline_str_base \<Rightarrow> bytes" where
  "istr_str this = take (unat (istr_sz this)) (istr_buf this)"

definition istr_str_zeropad :: "nat \<Rightarrow> 'a::len word inline_str_base \<Rightarrow> mem_error + bytes" where
  "istr_str_zeropad N this =
     (if N < unat (istr_sz this) \<or> length (istr_buf this) < unat (istr_sz this) then Inl Past_end
      else Inr (write_at 0 (take (unat (istr_sz this)) (istr_buf this)) (replicate N 0)))"

text \<open>The characters a C reader of \<^verbatim>\<open>c_str()\<close> sees, and the object after the terminator was stored.\<close>

definition istr_c_str :: "'a::len word inline_str_base \<Rightarrow> mem_error + (bytes \<times> 'a word inline_str_base)" where
  "istr_c_str this =
     (if length (istr_buf this) \<le> unat (istr_sz this) then Inl Past_end
      else let b = write_at (unat (istr_sz this)) [0] (istr_buf this)
           in Inr (takeWhile (\<lambda>c. c \<noteq> 0) b, this\<lparr>istr_buf := b\<rparr>))"

definition istr_resize :: "nat \<Rightarrow> u8 \<Rightarrow> 'a::len word inline_str_base \<Rightarrow> mem_error + 'a word inline_str_base" where
  "istr_resize n c this =
     (if unat (istr_sz this) < n
      then if length (istr_buf this) < n then Inl Past_end
           else Inr (this\<lparr>istr_buf := write_at (unat (istr_sz this)) (replicate (n - unat (istr_sz this)) c) (istr_buf this),
                       istr_sz := of_nat n\<rparr>)
      else Inr (this\<lparr>istr_sz := of_nat n\<rparr>))"

definition istr_resize_junk :: "nat \<Rightarrow> 'a::len word inline_str_base \<Rightarrow> 'a word inline_str_base" where
  "istr_resize_junk n this = this\<lparr>istr_sz := of_nat n\<rparr>"

definition istr_eq :: "'a::len word inline_str_base \<Rightarrow> 'a word inline_str_base \<Rightarrow> bool" where
  "istr_eq this other \<longleftrightarrow> take (unat (istr_sz this)) (istr_buf this) = take (unat (istr_sz this)) (istr_buf other)"

text \<open>The object fits its buffer of \<open>N + 1\<close> characters.\<close>

definition istr_wf :: "nat \<Rightarrow> 'a::len word inline_str_base \<Rightarrow> bool" where
  "istr_wf N this \<longleftrightarrow> length (istr_buf this) = Suc N \<and> unat (istr_sz this) \<le> N"

lemma istr_str_assign:
  assumes "istr_wf N this" and "length s \<le> N" and "N < 2 ^ LENGTH('a)"
  shows "\<exists>that. istr_assign s (this :: 'a::len word inline_str_base) = Inr that \<and> istr_str that = s \<and> istr_wf N that"
proof -
  have u: "unat (of_nat (length s) :: 'a word) = length s"
    using assms(2,3) by (intro unat_of_nat_small) simp
  show ?thesis
    using assms u by (auto simp: istr_assign_def istr_wf_def istr_str_def write_at_def)
qed

lemma istr_str_copy:
  assumes "istr_wf N this" and "istr_wf N that"
  shows "\<exists>r. istr_copy that this = Inr r \<and> istr_str r = istr_str that \<and> istr_wf N r"
  using assms by (auto simp: istr_copy_def istr_wf_def istr_str_def write_at_def)

lemma istr_str_c_str:
  assumes "istr_wf N this" and "0 \<notin> set (istr_str this)"
  shows "\<exists>r. istr_c_str this = Inr (istr_str this, r) \<and> istr_str r = istr_str this \<and> istr_wf N r"
proof -
  let ?n = "unat (istr_sz this)"
  let ?b = "write_at ?n [0] (istr_buf this)"
  have b: "?b = take ?n (istr_buf this) @ 0 # drop (Suc ?n) (istr_buf this)" using assms(1) by (simp add: write_at_def istr_wf_def)
  have "takeWhile (\<lambda>c. c \<noteq> 0) (take ?n (istr_buf this) @ 0 # drop (Suc ?n) (istr_buf this)) = take ?n (istr_buf this)"
    using assms(2) by (auto simp: istr_str_def takeWhile_append)
  then show ?thesis
    using assms(1) b by (auto simp: istr_c_str_def istr_wf_def istr_str_def Let_def length_write_at)
qed

lemma istr_str_resize:
  assumes "istr_wf N this" and "n \<le> N" and "N < 2 ^ LENGTH('a)"
  shows "\<exists>r. istr_resize n c (this :: 'a::len word inline_str_base) = Inr r \<and> istr_wf N r \<and>
    istr_str r = take n (istr_str this) @ replicate (n - istr_size this) c"
proof -
  have u: "unat (of_nat n :: 'a word) = n" using assms(2,3) by (intro unat_of_nat_small) simp
  show ?thesis
    using assms u
    by (auto simp: istr_resize_def istr_wf_def istr_str_def istr_size_def write_at_def min_def)
qed

text \<open>What the comparison decides: whether the other buffer starts with this string.\<close>

lemma istr_eq_prefix:
  assumes "istr_wf N this" and "istr_wf N other"
  shows "istr_eq this other \<longleftrightarrow>
    istr_str this = take (istr_size this) (istr_buf other)"
  by (simp add: istr_eq_def istr_str_def istr_size_def)

lemma istr_eq_same_size:
  assumes "istr_wf N this" and "istr_wf N other" and "istr_size this = istr_size other"
  shows "istr_eq this other \<longleftrightarrow> istr_str this = istr_str other"
  using assms by (simp add: istr_eq_def istr_str_def istr_size_def)

section \<open>Fixed-length strings\<close>

definition ifixed_assign :: "nat \<Rightarrow> u8 \<Rightarrow> bytes \<Rightarrow> bytes \<Rightarrow> mem_error + bytes" where
  "ifixed_assign N fill s this =
     (if N < length s then Inl Past_end
      else Inr (write_at (length s) (replicate (N - length s) fill) (write_at 0 s this)))"

definition ifixed_init :: "nat \<Rightarrow> u8 \<Rightarrow> bytes" where
  "ifixed_init N fill = replicate N fill"

definition ifixed_eq :: "nat \<Rightarrow> bytes \<Rightarrow> bytes \<Rightarrow> bool" where
  "ifixed_eq N this other \<longleftrightarrow> take N this = take N other"

lemma ifixed_assign_pads:
  assumes "length this = N" and "length s \<le> N"
  shows "ifixed_assign N fill s this = Inr (s @ replicate (N - length s) fill)"
  using assms by (simp add: ifixed_assign_def write_at_def)

section \<open>Serialization\<close>

text \<open>The packed struct in memory.\<close>

definition istr_at :: "nat \<Rightarrow> bytes \<Rightarrow> 'a::len word inline_str_base" where
  "istr_at N d = \<lparr>istr_sz = le_word (take (sizeof_word TYPE('a)) d),
     istr_buf = take (Suc N) (drop (sizeof_word TYPE('a)) d)\<rparr>"

definition istr_layout :: "'a::len word inline_str_base \<Rightarrow> bytes" where
  "istr_layout this = le_bytes (istr_sz this) @ istr_buf this"

text \<open>
  \<^verbatim>\<open>serializer<inline_str_8<N>, _>\<close> and \<^verbatim>\<open>serializer<inline_str_16<N>, _>\<close>: the object as the string it
  holds. A write assigns to the struct at the destination and so keeps what its buffer held behind the
  string; a read assigns from the struct at the source.
\<close>

definition inline_str_write :: "'a::len itself \<Rightarrow> nat \<Rightarrow> bytes \<Rightarrow> bytes \<Rightarrow> bytes" where
  "inline_str_write t N s d =
     le_bytes (of_nat (length s) :: 'a word) @ s @ take (Suc N - length s) (drop (sizeof_word t + length s) d)"

definition inline_str_read :: "'a::len itself \<Rightarrow> nat \<Rightarrow> bytes \<Rightarrow> mem_error + (bytes \<times> bytes)" where
  "inline_str_read t N b =
     (if length b < sizeof_word t + Suc N then Inl Past_end
      else let src = (istr_at N b :: 'a word inline_str_base)
           in if Suc N < unat (istr_sz src) then Inl Past_end
              else Inr (istr_str src, drop (sizeof_word t + Suc N) b))"

definition inline_str_serializer :: "'a::len itself \<Rightarrow> nat \<Rightarrow> bytes field_ops" where
  "inline_str_serializer t N =
     \<lparr>write_fn = inline_str_write t N,
      read_fn = inline_str_read t N,
      failsafe_read_fn = (\<lambda>b nbytes.
        if nbytes < sizeof_word t + Suc N then Inr None
        else case inline_str_read t N b of Inl e \<Rightarrow> Inl e | Inr r \<Rightarrow> Inr (Some r)),
      nbytes_fn = (\<lambda>_. sizeof_word t + Suc N),
      skip_fn = (\<lambda>stream rawv.
        if rawv
        then if length stream < sizeof_word t + Suc N then Inl Past_end
             else Inr (sizeof_word t + Suc N, Some (take (sizeof_word t + Suc N) stream))
        else Inr (sizeof_word t + Suc N, None)),
      failsafe_skip_fn = (\<lambda>stream nbytes rawv.
        if nbytes < sizeof_word t + Suc N then Inr (0, None)
        else if rawv
        then if length stream < sizeof_word t + Suc N then Inl Past_end
             else Inr (sizeof_word t + Suc N, Some (take (sizeof_word t + Suc N) stream))
        else Inr (sizeof_word t + Suc N, None)),
      max_nbytes = sizeof_word t + Suc N\<rparr>"

text \<open>The write is the struct assignment \<^verbatim>\<open>*p = obj\<close>.\<close>

lemma inline_str_write_is_assignment:
  fixes obj :: "'a::len word inline_str_base"
  assumes wf: "istr_wf N obj" and d: "sizeof_word TYPE('a) + Suc N \<le> length d"
  shows "\<exists>r. istr_copy obj (istr_at N d) = Inr r \<and>
    inline_str_write TYPE('a) N (istr_str obj) d = istr_layout r"
proof -
  have len: "length (istr_str obj) = unat (istr_sz obj)" using wf by (simp add: istr_str_def istr_wf_def)
  have "take (Suc N - unat (istr_sz obj)) (drop (sizeof_word TYPE('a) + unat (istr_sz obj)) d) =
      drop (unat (istr_sz obj)) (take (Suc N) (drop (sizeof_word TYPE('a)) d))"
    by (simp add: drop_take add.commute)
  then show ?thesis
    using wf d
    by (simp add: istr_copy_def istr_wf_def istr_at_def istr_layout_def inline_str_write_def len
        write_at_def) (simp add: istr_str_def min_def)
qed

lemma inline_str_field_serializer:
  assumes dvd: "8 dvd LENGTH('a::len)" and N: "N < 2 ^ LENGTH('a)"
  shows "field_serializer (inline_str_serializer TYPE('a) N) (\<lambda>s. length s \<le> N)"
proof -
  let ?S = "inline_str_serializer TYPE('a) N"
  let ?k = "sizeof_word TYPE('a)"
  have st: "\<exists>tail. bs = le_bytes (of_nat (length s) :: 'a word) @ s @ tail \<and> length tail = Suc N - length s"
    if "stored ?S s bs" for s bs
    using that by (auto simp: stored_def inline_str_serializer_def inline_str_write_def)
  have rd: "inline_str_read TYPE('a) N (bs @ rest) = Inr (s, rest)" and len: "length bs = ?k + Suc N"
    if ok: "length s \<le> N" and sto: "stored ?S s bs" for s bs rest
  proof -
    obtain tail where bs: "bs = le_bytes (of_nat (length s) :: 'a word) @ s @ tail"
      and tail: "length tail = Suc N - length s" using st [OF sto] by blast
    have u: "unat (of_nat (length s) :: 'a word) = length s" using ok N by (intro unat_of_nat_small) simp
    show "length bs = ?k + Suc N" using ok tail by (simp add: bs sizeof_word_def)
    have "?k = length (le_bytes (of_nat (length s) :: 'a word))" by (simp add: sizeof_word_def)
    then show "inline_str_read TYPE('a) N (bs @ rest) = Inr (s, rest)"
      using ok tail u
      by (simp add: inline_str_read_def istr_at_def istr_str_def bs le_word_le_bytes [OF dvd] min_def Let_def)
  qed
  show ?thesis
    by unfold_locales (auto simp: rd len, auto simp: inline_str_serializer_def rd len)
qed

interpretation inline_str_8_16: field_serializer "inline_str_serializer TYPE(8) 16" "\<lambda>s. length s \<le> 16"
  by (rule inline_str_field_serializer) simp_all

interpretation inline_str_16_500: field_serializer "inline_str_serializer TYPE(16) 500" "\<lambda>s. length s \<le> 500"
  by (rule inline_str_field_serializer) simp_all

text \<open>
  String comparison: \<^verbatim>\<open>operator==\<close> compares only the characters of its left operand: there
  are well-formed strings of different lengths for which it holds, although with the operands exchanged
  it fails.
\<close>

theorem istr_eq_ignores_length:
  "\<exists>x y :: 8 word inline_str_base. istr_wf 3 x \<and> istr_wf 3 y \<and>
     istr_eq x y \<and> istr_str x \<noteq> istr_str y \<and> \<not> istr_eq y x"
proof -
  let ?x = "\<lparr>istr_sz = 2, istr_buf = [97, 98, 0, 0]\<rparr> :: 8 word inline_str_base"
  let ?y = "\<lparr>istr_sz = 3, istr_buf = [97, 98, 99, 0]\<rparr> :: 8 word inline_str_base"
  have "istr_wf 3 ?x \<and> istr_wf 3 ?y \<and> istr_eq ?x ?y \<and> istr_str ?x \<noteq> istr_str ?y \<and> \<not> istr_eq ?y ?x"
    by (simp add: istr_wf_def istr_eq_def istr_str_def)
  then show ?thesis by blast
qed

end
