(* ===== verification/Schema.thy ===== *)
theory Schema
  imports Record_Codec Inline_Str
begin

text \<open>
  Typed records: the field types the schemas of \<^verbatim>\<open>src/src/benchmarks/tpcc.h\<close> use, the serializers
  \<^verbatim>\<open>DO_STRUCT\<close> selects for them in values (compressed) and in keys (big-endian), the schemas
  themselves, and the properties of encoded records and of the cursors over them.
\<close>

section \<open>Field types\<close>

datatype field_type =
    Ty_bool | Ty_int8 | Ty_uint8 | Ty_int16 | Ty_int32 | Ty_uint32 | Ty_float
  | Ty_inline_str_8 nat | Ty_inline_str_16 nat | Ty_inline_str_fixed nat

text \<open>The packed sizes; \<^verbatim>\<open>inline_str_base\<close> is a length followed by \<^verbatim>\<open>N + 1\<close> bytes.\<close>

fun sizeof_type :: "field_type \<Rightarrow> nat" where
  "sizeof_type Ty_bool = 1"
| "sizeof_type Ty_int8 = 1"
| "sizeof_type Ty_uint8 = 1"
| "sizeof_type Ty_int16 = 2"
| "sizeof_type Ty_int32 = 4"
| "sizeof_type Ty_uint32 = 4"
| "sizeof_type Ty_float = 4"
| "sizeof_type (Ty_inline_str_8 N) = 1 + (N + 1)"
| "sizeof_type (Ty_inline_str_16 N) = 2 + (N + 1)"
| "sizeof_type (Ty_inline_str_fixed N) = N"

text \<open>
  A field is a 32-bit integer, or the bytes of an object that is copied as it is, or the characters of an
  \<^verbatim>\<open>inline_str_8\<close> or \<^verbatim>\<open>inline_str_16\<close>.
\<close>

datatype field_value = V_int (int_of: u32) | V_obj (obj_of: bytes)

text \<open>The unspecialised serializer on an object of \<open>n\<close> bytes.\<close>

definition object_serializer :: "nat \<Rightarrow> bytes field_ops" where
  "object_serializer n =
     \<lparr>write_fn = (\<lambda>obj _. obj),
      read_fn = (\<lambda>buf. if length buf < n then Inl Past_end else Inr (take n buf, drop n buf)),
      failsafe_read_fn = (\<lambda>buf nbytes.
        if nbytes < n then Inr None
        else if length buf < n then Inl Past_end else Inr (Some (take n buf, drop n buf))),
      nbytes_fn = (\<lambda>_. n),
      skip_fn = (\<lambda>stream rawv.
        if rawv then if length stream < n then Inl Past_end else Inr (n, Some (take n stream))
        else Inr (n, None)),
      failsafe_skip_fn = (\<lambda>stream nbytes rawv.
        if nbytes < n then Inr (0, None)
        else if rawv then if length stream < n then Inl Past_end else Inr (n, Some (take n stream))
        else Inr (n, None)),
      max_nbytes = n\<rparr>"

lemma object_field_serializer: "0 < n \<Longrightarrow> field_serializer (object_serializer n) (\<lambda>bs. length bs = n)"
  by unfold_locales (auto simp: stored_def object_serializer_def)

text \<open>Values: \<^verbatim>\<open>serializer<tpe, true>\<close>.\<close>

fun value_field :: "field_type \<Rightarrow> field_value field_ops" where
  "value_field Ty_uint32 = generic_serializer V_int int_of uvint32_serializer"
| "value_field Ty_int32 = generic_serializer V_int int_of svint32_serializer"
| "value_field (Ty_inline_str_8 N) = generic_serializer V_obj obj_of (inline_str_serializer TYPE(8) N)"
| "value_field (Ty_inline_str_16 N) = generic_serializer V_obj obj_of (inline_str_serializer TYPE(16) N)"
| "value_field t = generic_serializer V_obj obj_of (object_serializer (sizeof_type t))"

fun value_ok :: "field_type \<Rightarrow> field_value \<Rightarrow> bool" where
  "value_ok Ty_uint32 = (\<lambda>v. \<exists>w. v = V_int w)"
| "value_ok Ty_int32 = (\<lambda>v. \<exists>w. v = V_int w)"
| "value_ok (Ty_inline_str_8 N) = (\<lambda>v. \<exists>bs. length bs \<le> N \<and> v = V_obj bs)"
| "value_ok (Ty_inline_str_16 N) = (\<lambda>v. \<exists>bs. length bs \<le> N \<and> v = V_obj bs)"
| "value_ok t = (\<lambda>v. \<exists>bs. length bs = sizeof_type t \<and> v = V_obj bs)"

text \<open>The field occupies memory, and a string's length fits its length field.\<close>

fun type_ok :: "field_type \<Rightarrow> bool" where
  "type_ok (Ty_inline_str_8 N) \<longleftrightarrow> N < 2 ^ 8"
| "type_ok (Ty_inline_str_16 N) \<longleftrightarrow> N < 2 ^ 16"
| "type_ok t \<longleftrightarrow> 0 < sizeof_type t"

lemmas string_fields =
  generic_field_serializer [OF inline_str_field_serializer [where 'a = 8], of _ obj_of V_obj]
  generic_field_serializer [OF inline_str_field_serializer [where 'a = 16], of _ obj_of V_obj]

lemma value_field_serializer: "type_ok t \<Longrightarrow> field_serializer (value_field t) (value_ok t)"
proof (cases t)
  case Ty_uint32
  then show ?thesis
    using generic_field_serializer [OF uvint32.field_serializer_axioms, of int_of V_int] by simp
next
  case Ty_int32
  then show ?thesis
    using generic_field_serializer [OF svint32.field_serializer_axioms, of int_of V_int] by simp
qed (use string_fields generic_field_serializer [OF object_field_serializer, of "sizeof_type t" obj_of V_obj] in simp_all)

text \<open>Keys: \<^verbatim>\<open>serializer<tpe, false>\<close> behind the host-to-big-endian transform of \<^verbatim>\<open>util.h\<close>.\<close>

definition bswap16 :: "u16 \<Rightarrow> u16" where
  "bswap16 x = drop_bit 8 (x AND 0xff00) OR push_bit 8 (x AND 0x00ff)"

definition bswap32 :: "u32 \<Rightarrow> u32" where
  "bswap32 x = drop_bit 24 (x AND 0xff000000) OR drop_bit 8 (x AND 0x00ff0000) OR
     push_bit 8 (x AND 0x0000ff00) OR push_bit 24 (x AND 0x000000ff)"

text \<open>\<^verbatim>\<open>host_endian_trfm\<close> on a write, \<^verbatim>\<open>big_endian_trfm\<close> on a read: the same swap.\<close>

definition be32_serializer :: "u32 field_ops" where
  "be32_serializer = generic_serializer bswap32 bswap32 fixed_serializer"

definition be16_serializer :: "u16 field_ops" where
  "be16_serializer = generic_serializer bswap16 bswap16 fixed_serializer"

fun key_field :: "field_type \<Rightarrow> field_value field_ops" where
  "key_field Ty_uint32 = generic_serializer V_int int_of be32_serializer"
| "key_field Ty_int32 = generic_serializer V_int int_of be32_serializer"
| "key_field Ty_int16 = generic_serializer (\<lambda>w. V_obj (le_bytes w)) (\<lambda>v. le_word (obj_of v)) be16_serializer"
| "key_field (Ty_inline_str_8 N) = generic_serializer V_obj obj_of (inline_str_serializer TYPE(8) N)"
| "key_field (Ty_inline_str_16 N) = generic_serializer V_obj obj_of (inline_str_serializer TYPE(16) N)"
| "key_field t = generic_serializer V_obj obj_of (object_serializer (sizeof_type t))"

lemma bit_bswap32:
  assumes "i < 32"
  shows "bit (bswap32 x) i = bit x (8 * (3 - i div 8) + i mod 8)"
proof -
  have "\<forall>i \<in> set [0..<32]. bit (bswap32 x) i = bit x (8 * (3 - i div 8) + i mod 8)"
    unfolding bswap32_def by (simp add: upt_conv_Cons bit_simps bit_0 del: set_upt) (simp add: eval_nat_numeral)
  then show ?thesis using assms by simp
qed

lemma bit_bswap16:
  assumes "i < 16"
  shows "bit (bswap16 x) i = bit x (8 * (1 - i div 8) + i mod 8)"
proof -
  have "\<forall>i \<in> set [0..<16]. bit (bswap16 x) i = bit x (8 * (1 - i div 8) + i mod 8)"
    unfolding bswap16_def by (simp add: upt_conv_Cons bit_simps bit_0 del: set_upt) (simp add: eval_nat_numeral)
  then show ?thesis using assms by simp
qed

lemma swapped_index:
  fixes i k :: nat
  assumes "i < 8 * Suc k"
  defines "j \<equiv> 8 * (k - i div 8) + i mod 8"
  shows "j < 8 * Suc k" and "8 * (k - j div 8) + j mod 8 = i"
proof -
  have q: "i div 8 \<le> k" using assms(1) by (simp add: less_Suc_eq_le div_less_iff_less_mult mult.commute flip: less_Suc_eq_le)
  have "8 * (k - i div 8) + i mod 8 < 8 * k + 8" by (rule add_le_less_mono) simp_all
  then show "j < 8 * Suc k" by (simp only: j_def mult_Suc_right add.commute)
  have "j div 8 = k - i div 8" and "j mod 8 = i mod 8" by (simp_all add: j_def)
  then show "8 * (k - j div 8) + j mod 8 = i" using q by simp
qed

lemma bswap_involution: "bswap32 (bswap32 w) = w" "bswap16 (bswap16 v) = v"
  by (rule bit_word_eqI, use bit_bswap32 swapped_index [of _ 3] in simp)
    (rule bit_word_eqI, use bit_bswap16 swapped_index [of _ 1] in simp)

interpretation be32: field_serializer be32_serializer "\<lambda>_. True"
proof -
  have "field_serializer be32_serializer (\<lambda>x. \<exists>v. True \<and> x = bswap32 v)"
    unfolding be32_serializer_def
    by (rule generic_field_serializer, rule u32_fixed.field_serializer_axioms, rule bswap_involution)
  moreover have "(\<lambda>x. \<exists>v. True \<and> x = bswap32 v) = (\<lambda>_. True)"
    using bswap_involution by (intro ext) metis
  ultimately show "field_serializer be32_serializer (\<lambda>_. True)" by simp
qed

interpretation be16: field_serializer be16_serializer "\<lambda>_. True"
proof -
  have "field_serializer be16_serializer (\<lambda>x. \<exists>v. True \<and> x = bswap16 v)"
    unfolding be16_serializer_def
    by (rule generic_field_serializer, rule u16_fixed.field_serializer_axioms, rule bswap_involution)
  moreover have "(\<lambda>x. \<exists>v. True \<and> x = bswap16 v) = (\<lambda>_. True)"
    using bswap_involution by (intro ext) metis
  ultimately show "field_serializer be16_serializer (\<lambda>_. True)" by simp
qed

lemma key_field_serializer: "type_ok t \<Longrightarrow> field_serializer (key_field t) (value_ok t)"
proof (cases t)
  case Ty_uint32
  then show ?thesis
    using generic_field_serializer [OF be32.field_serializer_axioms, of int_of V_int] by simp
next
  case Ty_int32
  then show ?thesis
    using generic_field_serializer [OF be32.field_serializer_axioms, of int_of V_int] by simp
next
  case Ty_int16
  have "(\<exists>bs. length bs = 2 \<and> v = V_obj bs) \<longleftrightarrow> (\<exists>w :: u16. True \<and> v = V_obj (le_bytes w))" for v
    using le_bytes_le_word [where 'a = 16, symmetric] by fastforce
  then show ?thesis
    using generic_field_serializer [OF be16.field_serializer_axioms, of "\<lambda>v. le_word (obj_of v)" "\<lambda>w. V_obj (le_bytes w)"]
    by (simp add: Ty_int16 le_word_le_bytes)
qed (use string_fields generic_field_serializer [OF object_field_serializer, of "sizeof_type t" obj_of V_obj] in simp_all)

section \<open>Schemas\<close>

definition customer_key :: "field_type list" where
  "customer_key = [Ty_int32, Ty_int32, Ty_int32]"

definition customer_value :: "field_type list" where
  "customer_value =
     [Ty_float, Ty_inline_str_fixed 2, Ty_inline_str_8 16, Ty_inline_str_8 16, Ty_float, Ty_float,
      Ty_float, Ty_int32, Ty_int32, Ty_inline_str_8 20, Ty_inline_str_8 20, Ty_inline_str_8 20,
      Ty_inline_str_fixed 2, Ty_inline_str_fixed 9, Ty_inline_str_fixed 16, Ty_uint32,
      Ty_inline_str_fixed 2, Ty_inline_str_16 500]"

definition customer_name_idx_key :: "field_type list" where
  "customer_name_idx_key = [Ty_int32, Ty_int32, Ty_inline_str_fixed 16, Ty_inline_str_fixed 16]"

definition customer_name_idx_value :: "field_type list" where
  "customer_name_idx_value = [Ty_int32]"

definition district_key :: "field_type list" where
  "district_key = [Ty_int32, Ty_int32]"

definition district_value :: "field_type list" where
  "district_value =
     [Ty_float, Ty_float, Ty_int32, Ty_inline_str_8 10, Ty_inline_str_8 20, Ty_inline_str_8 20,
      Ty_inline_str_8 20, Ty_inline_str_fixed 2, Ty_inline_str_fixed 9]"

definition history_key :: "field_type list" where
  "history_key = [Ty_int32, Ty_int32, Ty_int32, Ty_int32, Ty_int32, Ty_uint32]"

definition history_value :: "field_type list" where
  "history_value = [Ty_float, Ty_inline_str_8 24]"

definition item_key :: "field_type list" where
  "item_key = [Ty_int32]"

definition item_value :: "field_type list" where
  "item_value = [Ty_inline_str_8 24, Ty_float, Ty_inline_str_8 50, Ty_int32]"

definition new_order_key :: "field_type list" where
  "new_order_key = [Ty_int32, Ty_int32, Ty_int32]"

definition new_order_value :: "field_type list" where
  "new_order_value = [Ty_inline_str_fixed 12]"

definition oorder_key :: "field_type list" where
  "oorder_key = [Ty_int32, Ty_int32, Ty_int32]"

definition oorder_value :: "field_type list" where
  "oorder_value = [Ty_int32, Ty_int32, Ty_int8, Ty_bool, Ty_uint32]"

definition oorder_c_id_idx_key :: "field_type list" where
  "oorder_c_id_idx_key = [Ty_int32, Ty_int32, Ty_int32, Ty_int32]"

definition oorder_c_id_idx_value :: "field_type list" where
  "oorder_c_id_idx_value = [Ty_uint8]"

definition order_line_key :: "field_type list" where
  "order_line_key = [Ty_int32, Ty_int32, Ty_int32, Ty_int32]"

definition order_line_value :: "field_type list" where
  "order_line_value = [Ty_int32, Ty_uint32, Ty_float, Ty_int32, Ty_int8]"

definition stock_key :: "field_type list" where
  "stock_key = [Ty_int32, Ty_int32]"

definition stock_value :: "field_type list" where
  "stock_value = [Ty_int16, Ty_float, Ty_int32, Ty_int32]"

definition stock_data_key :: "field_type list" where
  "stock_data_key = [Ty_int32, Ty_int32]"

definition stock_data_value :: "field_type list" where
  "stock_data_value = Ty_inline_str_8 50 # replicate 10 (Ty_inline_str_fixed 24)"

definition warehouse_key :: "field_type list" where
  "warehouse_key = [Ty_int32]"

definition warehouse_value :: "field_type list" where
  "warehouse_value =
     [Ty_float, Ty_float, Ty_inline_str_8 10, Ty_inline_str_8 20, Ty_inline_str_8 20,
      Ty_inline_str_8 20, Ty_inline_str_fixed 2, Ty_inline_str_fixed 9]"

definition tpcc_values :: "field_type list list" where
  "tpcc_values =
     [customer_value, customer_name_idx_value, district_value, history_value, item_value,
      new_order_value, oorder_value, oorder_c_id_idx_value, order_line_value, stock_value,
      stock_data_value, warehouse_value]"

definition tpcc_keys :: "field_type list list" where
  "tpcc_keys =
     [customer_key, customer_name_idx_key, district_key, history_key, item_key, new_order_key,
      oorder_key, oorder_c_id_idx_key, order_line_key, stock_key, stock_data_key, warehouse_key]"

lemmas schema_defs = customer_value_def customer_name_idx_value_def district_value_def
  history_value_def item_value_def new_order_value_def oorder_value_def oorder_c_id_idx_value_def
  order_line_value_def stock_value_def stock_data_value_def warehouse_value_def
  customer_key_def customer_name_idx_key_def district_key_def history_key_def item_key_def
  new_order_key_def oorder_key_def oorder_c_id_idx_key_def order_line_key_def stock_key_def
  stock_data_key_def warehouse_key_def


section \<open>Encoded records\<close>

definition value_descriptor :: "field_type list \<Rightarrow> field_value descriptor" where
  "value_descriptor ts = map value_field ts"

definition key_descriptor :: "field_type list \<Rightarrow> field_value descriptor" where
  "key_descriptor ts = map key_field ts"

definition well_typed :: "field_type list \<Rightarrow> field_value list \<Rightarrow> bool" where
  "well_typed ts obj = object_ok (map value_ok ts) obj"

definition sized :: "field_type list \<Rightarrow> bool" where
  "sized ts \<longleftrightarrow> (\<forall>t \<in> set ts. type_ok t)"

lemma value_layout: "sized ts \<Longrightarrow> record_layout (value_descriptor ts) (map value_ok ts)"
  by unfold_locales
    (auto simp: sized_def value_descriptor_def list_all2_conv_all_nth value_field_serializer)

lemma key_layout: "sized ts \<Longrightarrow> record_layout (key_descriptor ts) (map value_ok ts)"
  by unfold_locales
    (auto simp: sized_def key_descriptor_def list_all2_conv_all_nth key_field_serializer)

lemma tpcc_sized: "ts \<in> set (tpcc_values @ tpcc_keys) \<Longrightarrow> sized ts"
  by (auto simp: tpcc_values_def tpcc_keys_def schema_defs sized_def)

interpretation customer: record_layout "value_descriptor customer_value" "map value_ok customer_value"
  by (rule value_layout, rule tpcc_sized) (simp add: tpcc_values_def)

interpretation oorder: record_layout "value_descriptor oorder_value" "map value_ok oorder_value"
  by (rule value_layout, rule tpcc_sized) (simp add: tpcc_values_def)

interpretation order_line_k: record_layout "key_descriptor order_line_key" "map value_ok order_line_key"
  by (rule key_layout, rule tpcc_sized) (simp add: tpcc_keys_def)


text \<open>
  Property C26 (record round trip). For every struct of the schema language and every object of it, written
  to any destination that is large enough: decoding what lies there, followed by anything, gives the object
  and stops behind it; the encoding is exactly as long as announced and at most the announced maximum; and
  the failsafe decoder succeeds when its budget covers the encoding and fails otherwise.
\<close>

theorem record_value_roundtrip:
  assumes "sized ts" and "well_typed ts obj" and "encode_nbytes (value_descriptor ts) obj \<le> length dst"
  shows "let fs = value_descriptor ts; enc = encode_write fs obj dst
    in encode_read fs (enc @ rest) = Inr (obj, rest) \<and>
       length enc = encode_nbytes fs obj \<and> encode_nbytes fs obj \<le> encode_max_nbytes fs \<and>
       encode_failsafe_read fs (enc @ rest) budget =
         (if encode_nbytes fs obj \<le> budget then Inr (Some obj) else Inr None)"
proof -
  note L = value_layout [OF assms(1)]
  have ok: "object_ok (map value_ok ts) obj" using assms(2) by (simp add: well_typed_def)
  note enc = record_layout.write_encodes [OF L ok assms(3)]
  show ?thesis
    by (simp add: Let_def record_layout.read_encoded [OF L ok enc] record_layout.length_encoded [OF L ok enc]
        record_layout.encoded_max [OF L ok] record_layout.failsafe_read_encoded [OF L ok enc])
qed

lemmas nbytes_eval = value_descriptor_def generic_serializer_def svint32_serializer_def
  svint32_nbytes_def uvint32_serializer_def object_serializer_def inline_str_serializer_def
  sizeof_word_def size_uvint32_def

theorem record_value_roundtrip_witness:
  "encode_read (value_descriptor oorder_value)
     (encode_write (value_descriptor oorder_value) [V_int 7, V_int (- 1), V_obj [3], V_obj [1], V_int 300]
        (replicate 20 0) @ [9]) =
   Inr ([V_int 7, V_int (- 1), V_obj [3], V_obj [1], V_int 300], [9])"
proof -
  have "encode_nbytes (value_descriptor oorder_value) [V_int 7, V_int (- 1), V_obj [3], V_obj [1], V_int 300]
      \<le> length (replicate 20 (0 :: u8))"
    by (simp add: schema_defs nbytes_eval)
  then show ?thesis
    using record_value_roundtrip
      [of oorder_value "[V_int 7, V_int (- 1), V_obj [3], V_obj [1], V_int 300]" "replicate 20 0" "[9]"]
    by (simp only: Let_def) (simp add: sized_def well_typed_def schema_defs)
qed

text \<open>
  Property C31 (in-place field update). Let the buffer hold an encoded object, followed by spare bytes, and
  let the new encoding fit. Moving a fresh write cursor to field \<open>i\<close> and writing a new value there leaves an
  encoding of the object with just that field replaced, although fields have different lengths and the
  fields behind it had to move; the caller receives the bytes the field had.
\<close>

theorem write_cursor_replaces_field:
  assumes "sized ts" and "well_typed ts obj" and "i < length ts" and "value_ok (ts ! i) v"
    and "encodes (value_descriptor ts) obj bs"
    and "encode_nbytes (value_descriptor ts) (obj[i := v]) \<le> length (bs @ spare)"
  shows "\<exists>c old c' bs' spare'.
    wc_skip_to (value_descriptor ts) i (wc_init (bs @ spare)) = Inr c \<and>
    wc_write_current_and_advance (value_descriptor ts) v c = Inr (Some old, c') \<and>
    stored (value_field (ts ! i)) (obj ! i) old \<and>
    wc_mem c' = bs' @ spare' \<and> length (bs' @ spare') = length (bs @ spare) \<and>
    encodes (value_descriptor ts) (obj[i := v]) bs' \<and>
    encode_read (value_descriptor ts) (wc_mem c') = Inr (obj[i := v], spare')"
proof -
  let ?fs = "value_descriptor ts"
  note L = value_layout [OF assms(1)]
  have ok: "object_ok (map value_ok ts) obj" using assms(2) by (simp add: well_typed_def)
  have len: "length ?fs = length ts" and nth: "?fs ! i = value_field (ts ! i)"
    using assms(3) by (simp_all add: value_descriptor_def)
  have "record_layout.at_field ?fs (map value_ok ts) obj (wc_init (bs @ spare))"
    using ok assms(5) by (auto simp: record_layout.at_field_def [OF L] wc_init_def record_layout.offset_0 [OF L])
  from record_layout.at_field_skip_to [OF L this, of i] obtain c
    where c: "wc_skip_to ?fs i (wc_init (bs @ spare)) = Inr c"
      "record_layout.at_field ?fs (map value_ok ts) obj c" "wc_n c = i" "wc_mem c = bs @ spare"
    using assms(3) len by (auto simp: wc_init_def)
  have "\<exists>old c'. wc_write_current_and_advance ?fs v c = Inr (Some old, c') \<and>
      stored (?fs ! wc_n c) (obj ! wc_n c) old \<and>
      record_layout.at_field ?fs (map value_ok ts) (obj[wc_n c := v]) c' \<and> wc_n c' = Suc (wc_n c) \<and>
      length (wc_mem c') = length (wc_mem c)"
    by (rule record_layout.write_current_at_field [OF L c(2)])
      (use assms(3,4,6) c(3,4) len in simp_all)
  then obtain old c' bs' spare' where w: "wc_write_current_and_advance ?fs v c = Inr (Some old, c')"
      "stored (value_field (ts ! i)) (obj ! i) old" "wc_mem c' = bs' @ spare'"
      "encodes ?fs (obj[i := v]) bs'" "object_ok (map value_ok ts) (obj[i := v])"
      "length (wc_mem c') = length (bs @ spare)"
    using c(3,4) nth by (auto simp: record_layout.at_field_def [OF L])
  then show ?thesis
    using c(1) record_layout.read_encoded [OF L w(5) w(4), of spare'] by (metis w(3,6))
qed

lemma small_order_encodes:
  "encodes (value_descriptor customer_name_idx_value) [V_int 5] [10]"
proof -
  have "write_uvint32 10 = [10]" using write_uvint32_small [of 10] by simp
  then have "stored (value_field Ty_int32) (V_int 5) [10]"
    unfolding stored_def
    by (intro exI [of _ "[0]"])
      (simp add: nbytes_eval svint32_write_def zigzag_encode_def sign_fill)
  then show ?thesis by (simp add: schema_defs value_descriptor_def)
qed

theorem write_cursor_replaces_field_witness:
  "\<exists>c old c' bs' spare'.
    wc_skip_to (value_descriptor customer_name_idx_value) 0 (wc_init ([10] @ [0, 0, 0, 0])) = Inr c \<and>
    wc_write_current_and_advance (value_descriptor customer_name_idx_value) (V_int 100000) c = Inr (Some old, c') \<and>
    stored (value_field Ty_int32) (V_int 5) old \<and>
    wc_mem c' = bs' @ spare' \<and> length (bs' @ spare') = length ([10] @ [0, 0, 0, 0] :: bytes) \<and>
    encodes (value_descriptor customer_name_idx_value) [V_int 100000] bs' \<and>
    encode_read (value_descriptor customer_name_idx_value) (wc_mem c') = Inr ([V_int 100000], spare')"
proof -
  have "encode_nbytes (value_descriptor customer_name_idx_value) [V_int 100000] \<le> length ([10] @ [0, 0, 0, 0] :: bytes)"
    by (simp add: schema_defs nbytes_eval zigzag_encode_def sign_fill)
  then show ?thesis
    using write_cursor_replaces_field
      [of customer_name_idx_value "[V_int 5]" 0 "V_int 100000" "[10]" "[0, 0, 0, 0]"] small_order_encodes
    by (simp only: customer_name_idx_value_def) (simp add: sized_def well_typed_def)
qed

text \<open>
  Field selection on reads. A read cursor over an encoded object, moved to field \<open>i\<close> with a
  budget that covers the encoding, reads exactly the value of that field, without decoding the others.
\<close>

theorem read_cursor_selects_field:
  assumes "sized ts" and "well_typed ts obj" and "i < length ts"
    and "encodes (value_descriptor ts) obj bs" and "length bs \<le> budget"
  shows "\<exists>c c'. rc_skip_to (value_descriptor ts) i (rc_init (bs @ junk) budget) = Inr (True, c) \<and>
    rc_read_current_and_advance (value_descriptor ts) c =
      Inr (nbytes_fn (value_field (ts ! i)) (obj ! i), Some (obj ! i), c')"
proof -
  let ?fs = "value_descriptor ts"
  note L = value_layout [OF assms(1)]
  have ok: "object_ok (map value_ok ts) obj" using assms(2) by (simp add: well_typed_def)
  have len: "length ?fs = length ts" and nth: "?fs ! i = value_field (ts ! i)"
    using assms(3) by (simp_all add: value_descriptor_def)
  have "record_layout.reading ?fs (map value_ok ts) obj budget (rc_init (bs @ junk) budget)"
    using ok assms(4,5) record_layout.length_encoded [OF L ok assms(4)]
    by (auto simp: record_layout.reading_def [OF L] rc_init_def record_layout.offset_0 [OF L])
  from record_layout.rc_skip_to_reading [OF L this, of i] obtain c
    where c: "rc_skip_to ?fs i (rc_init (bs @ junk) budget) = Inr (True, c)"
      "record_layout.reading ?fs (map value_ok ts) obj budget c" "rc_n c = i"
    using assms(3) len by (auto simp: rc_init_def)
  have "rc_n c < length ?fs" using c(3) assms(3) len by simp
  from record_layout.rc_read_reading [OF L c(2) this] show ?thesis
    using c nth by auto
qed

theorem read_cursor_selects_field_witness:
  "\<exists>c c'. rc_skip_to (value_descriptor customer_name_idx_value) 0 (rc_init ([10] @ []) 100) = Inr (True, c) \<and>
    rc_read_current_and_advance (value_descriptor customer_name_idx_value) c = Inr (1, Some (V_int 5), c')"
proof -
  have "nbytes_fn (value_field Ty_int32) (V_int 5) = 1"
    by (simp add: nbytes_eval zigzag_encode_def sign_fill)
  then show ?thesis
    using read_cursor_selects_field [of customer_name_idx_value "[V_int 5]" 0 "[10]" 100 "[]"] small_order_encodes
    by (simp only: customer_name_idx_value_def) (simp add: sized_def well_typed_def)
qed

end
