(* ===== verification/Tid.thy ===== *)
theory Tid
  imports Silo_Prelude
begin

text \<open>
  Transaction ids (\<^verbatim>\<open>transaction_proto2_static\<close> in \<^verbatim>\<open>src/src/txn_proto2_impl.h\<close>): the packing
  of core, number and epoch into 64 bits, the snapshot id of a read-only transaction, the
  overwrite test, and the generation of a commit id.
\<close>

section \<open>Layout\<close>

definition NMAXCOREBITS :: nat where
  "NMAXCOREBITS = 9"

definition NMaxCores :: u64 where
  "NMaxCores = push_bit NMAXCOREBITS 1"

definition NBitsNumber :: nat where
  "NBitsNumber = 24"

definition CoreBits :: nat where
  "CoreBits = NMAXCOREBITS"

definition CoreMask :: u64 where
  "CoreMask = NMaxCores - 1"

definition NumIdShift :: nat where
  "NumIdShift = CoreBits"

definition NumIdMask :: u64 where
  "NumIdMask = push_bit NumIdShift (push_bit NBitsNumber 1 - 1)"

definition EpochShift :: nat where
  "EpochShift = CoreBits + NBitsNumber"

definition EpochMask :: u64 where
  "EpochMask = push_bit EpochShift (- 1)"

definition CoreId :: "u64 \<Rightarrow> u64" where
  "CoreId v = v AND CoreMask"

definition NumId :: "u64 \<Rightarrow> u64" where
  "NumId v = drop_bit NumIdShift (v AND NumIdMask)"

definition EpochId :: "u64 \<Rightarrow> u64" where
  "EpochId v = drop_bit EpochShift (v AND EpochMask)"

definition MakeTid :: "u64 \<Rightarrow> u64 \<Rightarrow> u64 \<Rightarrow> u64" where
  "MakeTid core_id num_id epoch_id =
     core_id OR push_bit NumIdShift num_id OR push_bit EpochShift epoch_id"

definition MIN_TID :: u64 where
  "MIN_TID = 0"

definition MAX_TID :: u64 where
  "MAX_TID = - 1"

definition ReadOnlyEpochMultiplier :: u64 where
  "ReadOnlyEpochMultiplier = 25"

definition to_read_only_tick :: "u64 \<Rightarrow> u64" where
  "to_read_only_tick epoch_tick = epoch_tick div ReadOnlyEpochMultiplier"

definition ComputeReadOnlyTid :: "u64 \<Rightarrow> u64" where
  "ComputeReadOnlyTid global_tick_ex =
     (let a = global_tick_ex div ReadOnlyEpochMultiplier;
          b = a * ReadOnlyEpochMultiplier
      in if b = 0 then MakeTid 0 0 0
         else MakeTid CoreMask (drop_bit NumIdShift NumIdMask) (b - 1))"

definition can_overwrite_record_tid :: "u64 \<Rightarrow> u64 \<Rightarrow> bool" where
  "can_overwrite_record_tid prev cur \<longleftrightarrow>
     to_read_only_tick (EpochId prev) = to_read_only_tick (EpochId cur) \<or> prev = 0"

section \<open>Commit ids\<close>

text \<open>
  The state \<^verbatim>\<open>gen_commit_tid\<close> touches: the core's \<^verbatim>\<open>last_commit_tid_\<close> and the
  simulation counter \<^verbatim>\<open>g_hack\<close>. The tick the ticker returns is an argument; the write set is
  given by the insert flag and the version of each locked tuple.
\<close>

record tid_ctx =
  last_commit_tid :: u64
  hack_status :: bool
  hack_global_tid :: u64

definition bump_tid :: "u64 \<Rightarrow> u64 \<Rightarrow> u64" where
  "bump_tid ret t = (if ret < t then t else ret)"

fun max_read_tid :: "u64 list \<Rightarrow> u64 \<Rightarrow> u64" where
  "max_read_tid [] ret = ret"
| "max_read_tid (t # ts) ret = max_read_tid ts (bump_tid ret t)"

fun max_write_tid :: "(bool \<times> u64) list \<Rightarrow> u64 \<Rightarrow> u64" where
  "max_write_tid [] ret = ret"
| "max_write_tid ((is_insert, t) # ws) ret =
     (if is_insert then max_write_tid ws ret
      else max_write_tid ws (if t \<noteq> MAX_TID then bump_tid ret t else ret))"

definition gen_commit_tid ::
  "tid_ctx \<Rightarrow> u64 \<Rightarrow> u64 \<Rightarrow> u64 list \<Rightarrow> (bool \<times> u64) list \<Rightarrow> u64 \<times> tid_ctx" where
  "gen_commit_tid ctx my_core_id commit_epoch read_tids write_tuples =
     (let ret0 = last_commit_tid ctx;
          ret1 = (if commit_epoch \<noteq> EpochId ret0 then MakeTid 0 0 commit_epoch else ret0);
          ctx1 = (if hack_status ctx then ctx\<lparr>hack_global_tid := hack_global_tid ctx + 1\<rparr> else ctx);
          ret2 = max_read_tid read_tids ret1;
          ret3 = max_write_tid write_tuples ret2;
          ret4 = MakeTid my_core_id (NumId ret3 + 1) commit_epoch
      in (ret4, ctx1\<lparr>last_commit_tid := ret4\<rparr>))"

section \<open>Fields as numbers\<close>

lemmas layout_defs = NMAXCOREBITS_def NMaxCores_def NBitsNumber_def CoreBits_def CoreMask_def
  NumIdShift_def NumIdMask_def EpochShift_def EpochMask_def

lemma CoreMask_mask: "CoreMask = mask 9"
  by (simp add: layout_defs mask_eq_exp_minus_1)

lemma NumIdMask_mask: "NumIdMask = push_bit 9 (mask 24)"
  by (simp add: layout_defs mask_eq_exp_minus_1)

lemma EpochMask_mask: "EpochMask = NOT (mask 33)"
  by (simp add: layout_defs mask_eq_exp_minus_1)

lemma CoreId_bits: "CoreId v = v AND mask 9"
  by (simp add: CoreId_def CoreMask_mask)

lemma NumId_bits: "NumId v = drop_bit 9 v AND mask 24"
  by (rule bit_word_eqI)
    (auto simp: NumId_def NumIdMask_mask layout_defs bit_simps)

lemma EpochId_bits: "EpochId v = drop_bit 33 v"
  by (rule bit_word_eqI)
    (auto simp: EpochId_def EpochMask_mask layout_defs bit_simps dest: bit_imp_le_length)

lemma MakeTid_bits: "MakeTid c n e = c OR push_bit 9 n OR push_bit 33 e"
  by (simp add: MakeTid_def layout_defs)

lemma unat_CoreId [tid_field_simps]: "unat (CoreId v) = unat v mod 512"
  by (simp add: CoreId_bits unat_and_mask)

lemma unat_NumId [tid_field_simps]: "unat (NumId v) = unat v div 512 mod 16777216"
  by (simp add: NumId_bits unat_and_mask unat_drop_bit)

lemma unat_EpochId [tid_field_simps]: "unat (EpochId v) = unat v div 8589934592"
  by (simp add: EpochId_bits unat_drop_bit)

lemma tid_decompose:
  "unat v = unat (CoreId v) + 512 * unat (NumId v) + 8589934592 * unat (EpochId v)"
proof -
  let ?q = "unat v div 512"
  have "unat v div 8589934592 = ?q div 16777216" by (simp add: div_mult2_eq [symmetric])
  moreover have "?q = ?q mod 16777216 + 16777216 * (?q div 16777216)" by simp
  moreover have "unat v = unat v mod 512 + 512 * ?q" by simp
  ultimately show ?thesis unfolding tid_field_simps by linarith
qed

lemma CoreId_MakeTid:
  assumes "unat c < 512"
  shows "CoreId (MakeTid c n e) = c"
proof (rule bit_word_eqI)
  fix i
  have "\<not> bit c i" if "9 \<le> i" using bit_beyond [of c 9 i] assms that by simp
  then show "bit (CoreId (MakeTid c n e)) i = bit c i"
    by (cases "9 \<le> i") (auto simp: CoreId_bits MakeTid_bits bit_simps)
qed

lemma NumId_MakeTid:
  assumes "unat c < 512" and "unat n < 16777216"
  shows "NumId (MakeTid c n e) = n"
proof (rule bit_word_eqI)
  fix i assume i: "i < LENGTH(64)"
  have c: "\<not> bit c (9 + i)" using bit_beyond [of c 9 "9 + i"] assms by simp
  have n: "\<not> bit n i" if "24 \<le> i" using bit_beyond [of n 24 i] assms that by simp
  show "bit (NumId (MakeTid c n e)) i = bit n i"
    using c n i by (cases "24 \<le> i") (auto simp: NumId_bits MakeTid_bits bit_simps)
qed

lemma EpochId_MakeTid:
  assumes "unat c < 512" and "unat n < 16777216" and "unat e < 2147483648"
  shows "EpochId (MakeTid c n e) = e"
proof (rule bit_word_eqI)
  fix i assume i: "i < LENGTH(64)"
  have c: "\<not> bit c (33 + i)" using bit_beyond [of c 9 "33 + i"] assms by simp
  have n: "\<not> bit n (24 + i)" using bit_beyond [of n 24 "24 + i"] assms by simp
  have e: "\<not> bit e i" if "31 \<le> i" using bit_beyond [of e 31 i] assms that by simp
  show "bit (EpochId (MakeTid c n e)) i = bit e i"
    using c n e i by (cases "31 \<le> i") (auto simp: EpochId_bits MakeTid_bits bit_simps add.commute)
qed


lemma unat_MakeTid:
  assumes "unat c < 512" and "unat n < 16777216" and "unat e < 2147483648"
  shows "unat (MakeTid c n e) = unat c + 512 * unat n + 8589934592 * unat e"
  using tid_decompose [of "MakeTid c n e"] assms
  by (simp only: CoreId_MakeTid NumId_MakeTid EpochId_MakeTid)

lemma CoreId_less: "unat (CoreId v) < 512"
  by (simp add: tid_field_simps)

lemma NumId_less: "unat (NumId v) < 16777216"
  by (simp add: tid_field_simps)

lemma EpochId_less: "unat (EpochId v) < 2147483648"
proof -
  have "unat v < 2147483648 * 8589934592" using unsigned_less [of v] by simp
  then show ?thesis by (simp only: tid_field_simps less_mult_imp_div_less)
qed

lemma EpochId_mono: "v \<le> w \<Longrightarrow> EpochId v \<le> EpochId w"
  by (simp add: word_le_unat tid_field_simps div_le_mono)

lemma less_if_epoch_less:
  assumes "EpochId v < EpochId w"
  shows "v < w"
  using assms EpochId_mono [of w v] by (meson leD leI)

lemma less_if_number_less:
  assumes "EpochId v = EpochId w" and "NumId v < NumId w"
  shows "v < w"
proof -
  have "unat (NumId v) < unat (NumId w)" using assms(2) by (simp add: word_less_unat)
  moreover have "unat (CoreId v) < 512" by (rule CoreId_less)
  ultimately have "unat v < unat w"
    using tid_decompose [of v] tid_decompose [of w] assms(1) by simp
  then show ?thesis by (simp add: word_less_unat)
qed

text \<open>
  Round trip. Packing the three fields of an id and reading them back gives the
  fields, whatever 9-bit core, 24-bit number and 31-bit epoch are packed; and every 64-bit id is
  the packing of its own fields.
\<close>

theorem tid_pack_roundtrip:
  "(unat c < 512 \<and> unat n < 16777216 \<and> unat e < 2147483648 \<longrightarrow>
      CoreId (MakeTid c n e) = c \<and> NumId (MakeTid c n e) = n \<and> EpochId (MakeTid c n e) = e) \<and>
   MakeTid (CoreId v) (NumId v) (EpochId v) = v"
proof -
  have "unat (MakeTid (CoreId v) (NumId v) (EpochId v)) = unat v"
    using tid_decompose [of v] by (simp add: unat_MakeTid CoreId_less NumId_less EpochId_less)
  then have "MakeTid (CoreId v) (NumId v) (EpochId v) = v" by (simp add: word_unat_eq_iff)
  then show ?thesis by (simp add: CoreId_MakeTid NumId_MakeTid EpochId_MakeTid)
qed

theorem tid_pack_roundtrip_witness:
  "CoreId (MakeTid 7 9 11) = 7 \<and> NumId (MakeTid 7 9 11) = 9 \<and> EpochId (MakeTid 7 9 11) = 11"
  using tid_pack_roundtrip [of 7 9 11 0] by simp

text \<open>
  Ids compare as unsigned 64-bit integers exactly as their (epoch, number, core)
  triples compare lexicographically: the epoch dominates, then the per-core number, then the core.
\<close>

theorem tid_order_lexicographic:
  "v < w \<longleftrightarrow>
     EpochId v < EpochId w \<or>
     EpochId v = EpochId w \<and> (NumId v < NumId w \<or> NumId v = NumId w \<and> CoreId v < CoreId w)"
  (is "?l \<longleftrightarrow> ?r")
proof
  assume ?r
  then consider "EpochId v < EpochId w" | "EpochId v = EpochId w" "NumId v < NumId w" |
    "EpochId v = EpochId w" "NumId v = NumId w" "CoreId v < CoreId w" by blast
  then show ?l
  proof cases
    case 3
    then show ?thesis using tid_decompose [of v] tid_decompose [of w] by (simp add: word_less_unat)
  qed (simp_all add: less_if_epoch_less less_if_number_less)
next
  assume l: ?l
  show ?r
  proof (rule ccontr)
    assume r: "\<not> ?r"
    have e: "EpochId w \<le> EpochId v" using r by auto
    show False
    proof (cases "EpochId v = EpochId w")
      case False
      then have "w < v" using e less_if_epoch_less by auto
      then show ?thesis using l by simp
    next
      case True
      then have n: "NumId w \<le> NumId v" using r by auto
      show ?thesis
      proof (cases "NumId v = NumId w")
        case False
        then have "w < v" using n True less_if_number_less by auto
        then show ?thesis using l by simp
      next
        case num: True
        then have "CoreId w \<le> CoreId v" using r True by auto
        then have "unat (CoreId w) \<le> unat (CoreId v)" by (simp only: word_le_unat)
        moreover have "unat (EpochId w) = unat (EpochId v)" and "unat (NumId w) = unat (NumId v)"
          using True num by simp_all
        ultimately have "unat w \<le> unat v"
          unfolding tid_decompose [of v] tid_decompose [of w] by simp
        then show ?thesis using l by (simp add: word_less_unat)
      qed
    qed
  qed
qed


section \<open>Snapshots\<close>

lemma to_read_only_tick_unat: "unat (to_read_only_tick e) = unat e div 25"
  by (simp add: to_read_only_tick_def ReadOnlyEpochMultiplier_def unat_div)

text \<open>
  With \<open>k\<close> the read-only tick of the exclusive global tick, the snapshot id is the largest id of
  the epochs below \<open>25 * k\<close>.
\<close>

lemma ComputeReadOnlyTid_cases:
  assumes g: "unat g < 2147483648"
  shows "unat g < 25 \<Longrightarrow> ComputeReadOnlyTid g = 0"
    and "25 \<le> unat g \<Longrightarrow>
      unat (ComputeReadOnlyTid g) + 1 = 8589934592 * (25 * (unat g div 25))"
proof -
  let ?b = "g div ReadOnlyEpochMultiplier * ReadOnlyEpochMultiplier"
  have le: "unat g div 25 * 25 \<le> unat g" by simp
  have "unat g div 25 * 25 < 2 ^ LENGTH(64)"
    using le_less_trans [OF le g] by simp
  then have b: "unat ?b = unat g div 25 * 25"
    by (simp add: ReadOnlyEpochMultiplier_def unat_word_ariths unat_div)
  show "ComputeReadOnlyTid g = 0" if "unat g < 25"
  proof -
    have "?b = 0" using b that by (simp add: unat_eq_0 [symmetric])
    then show ?thesis by (simp add: ComputeReadOnlyTid_def Let_def MakeTid_def)
  qed
  show "unat (ComputeReadOnlyTid g) + 1 = 8589934592 * (25 * (unat g div 25))" if ge: "25 \<le> unat g"
  proof -
    have pos: "0 < unat g div 25" using ge by (simp add: div_greater_zero_iff)
    then have nz: "?b \<noteq> 0" using b by (metis mult_eq_0_iff not_less0 unat_0 zero_neq_numeral)
    have b1: "unat (?b - 1) = unat g div 25 * 25 - 1" using nz b by (simp add: unat_minus_one)
    have num: "unat (drop_bit NumIdShift NumIdMask) = 16777215"
      by (simp add: layout_defs)
    have core: "unat CoreMask = 511" by (simp add: layout_defs)
    have "ComputeReadOnlyTid g = MakeTid CoreMask (drop_bit NumIdShift NumIdMask) (?b - 1)"
      using nz by (simp add: ComputeReadOnlyTid_def Let_def)
    moreover have "unat (?b - 1) < 2147483648" using b1 le g by linarith
    ultimately have "unat (ComputeReadOnlyTid g) =
        511 + 512 * 16777215 + 8589934592 * (unat g div 25 * 25 - 1)"
      by (simp add: unat_MakeTid core num b1)
    then show ?thesis using pos by (cases "unat g div 25") simp_all
  qed
qed

lemma visible_to_snapshot_iff:
  assumes g: "unat g < 2147483648" and t: "t \<noteq> 0"
  shows "t \<le> ComputeReadOnlyTid g \<longleftrightarrow> to_read_only_tick (EpochId t) < to_read_only_tick g"
proof (cases "unat g < 25")
  case True
  then show ?thesis using ComputeReadOnlyTid_cases(1) [OF g] t
    by (simp add: word_less_unat to_read_only_tick_unat)
next
  case False
  let ?k = "unat g div 25"
  have S: "unat (ComputeReadOnlyTid g) + 1 = 8589934592 * (25 * ?k)"
    using ComputeReadOnlyTid_cases(2) [OF g] False by simp
  have "t \<le> ComputeReadOnlyTid g \<longleftrightarrow> unat t < 8589934592 * (25 * ?k)"
    using S by (simp only: word_le_unat) linarith
  also have "\<dots> \<longleftrightarrow> unat t div 8589934592 < 25 * ?k"
    by (simp add: less_mult_imp_div_less div_less_iff_less_mult mult.commute)
  also have "\<dots> \<longleftrightarrow> unat t div 8589934592 div 25 < ?k"
    by (simp add: div_less_iff_less_mult mult.commute)
  finally show ?thesis
    by (simp only: word_less_unat to_read_only_tick_unat tid_field_simps)
qed

lemma overwrite_visibility:
  assumes "can_overwrite_record_tid prev cur" and "prev \<le> cur" and "prev \<noteq> 0"
    and "unat g < 2147483648"
  shows "prev \<le> ComputeReadOnlyTid g \<longleftrightarrow> cur \<le> ComputeReadOnlyTid g"
proof -
  have "to_read_only_tick (EpochId prev) = to_read_only_tick (EpochId cur)"
    using assms(1,3) by (simp add: can_overwrite_record_tid_def)
  moreover have "cur \<noteq> 0" using assms(2,3) by (auto simp: word_le_unat unat_eq_zero)
  ultimately show ?thesis using assms(3,4) by (simp add: visible_to_snapshot_iff)
qed

text \<open>
  Property C14 (which versions may be overwritten in place). Of two ids \<open>prev\<close> and \<open>cur\<close> with \<open>prev\<close> not above \<open>cur\<close>,
  which \<^verbatim>\<open>can_overwrite_record_tid\<close> asserts, the test succeeds exactly when \<open>prev\<close> is \<^verbatim>\<open>MIN_TID\<close>, the id that stands for
  an absent record, or when no read-only transaction can tell the two apart: for every global tick below
  \<open>2\<^sup>3\<^sup>1\<close> (the width of an epoch) the snapshot taken at it sees \<open>prev\<close> if and only if it sees \<open>cur\<close>. So an overwrite never
  removes a committed version some snapshot needs, and no harmless overwrite is refused.
\<close>

theorem overwrite_invisible_to_snapshots:
  assumes "prev \<le> cur"
  shows "can_overwrite_record_tid prev cur \<longleftrightarrow>
    prev = MIN_TID \<or> (\<forall>g. unat g < 2147483648 \<longrightarrow> (prev \<le> ComputeReadOnlyTid g \<longleftrightarrow> cur \<le> ComputeReadOnlyTid g))"
proof (cases "prev = 0 \<or> to_read_only_tick (EpochId prev) = to_read_only_tick (EpochId cur)")
  case True
  then have "can_overwrite_record_tid prev cur" by (auto simp: can_overwrite_record_tid_def)
  then show ?thesis using overwrite_visibility [OF _ assms] by (auto simp: MIN_TID_def)
next
  case False
  then have nz: "prev \<noteq> 0" "cur \<noteq> 0" using assms by (auto simp: word_le_unat unat_eq_zero)
  have "to_read_only_tick (EpochId prev) \<le> to_read_only_tick (EpochId cur)"
    using EpochId_mono [OF assms] by (simp add: word_le_unat to_read_only_tick_unat div_le_mono)
  then have "to_read_only_tick (EpochId prev) < to_read_only_tick (EpochId cur)" using False by (simp add: order.strict_iff_order)
  then have "prev \<le> ComputeReadOnlyTid (EpochId cur) \<and> \<not> cur \<le> ComputeReadOnlyTid (EpochId cur)"
    using visible_to_snapshot_iff [OF EpochId_less] nz by simp
  moreover have "\<not> can_overwrite_record_tid prev cur" using False by (simp add: can_overwrite_record_tid_def)
  ultimately show ?thesis using nz EpochId_less [of cur] by (auto simp: MIN_TID_def)
qed

theorem overwrite_invisible_to_snapshots_witness:
  "(MakeTid 0 1 50 \<le> ComputeReadOnlyTid 80 \<longleftrightarrow> MakeTid 3 9 60 \<le> ComputeReadOnlyTid 80) \<and>
   \<not> (\<forall>g. unat g < 2147483648 \<longrightarrow> (MakeTid 0 1 50 \<le> ComputeReadOnlyTid g \<longleftrightarrow> MakeTid 3 9 80 \<le> ComputeReadOnlyTid g))"
proof -
  have le: "MakeTid 0 1 50 \<le> MakeTid 3 9 60" "MakeTid 0 1 50 \<le> MakeTid 3 9 80" "MakeTid 0 1 50 \<noteq> MIN_TID"
    by (simp_all add: MakeTid_bits MIN_TID_def)
  have "can_overwrite_record_tid (MakeTid 0 1 50) (MakeTid 3 9 60)" "\<not> can_overwrite_record_tid (MakeTid 0 1 50) (MakeTid 3 9 80)"
    using le(3) by (simp_all add: can_overwrite_record_tid_def to_read_only_tick_def ReadOnlyEpochMultiplier_def EpochId_MakeTid MIN_TID_def)
  then show ?thesis
    using overwrite_invisible_to_snapshots [OF le(1)] overwrite_invisible_to_snapshots [OF le(2)] le(3) by simp
qed


section \<open>Generated commit ids\<close>

lemma max_read_tid_fold: "max_read_tid ts ret = fold (\<lambda>x r. if r < x then x else r) ts ret"
  by (induction ts arbitrary: ret) (simp_all add: bump_tid_def)

text \<open>The versions of the write set that take part: neither inserts nor tentative versions.\<close>

definition overwritten_tids :: "(bool \<times> u64) list \<Rightarrow> u64 list" where
  "overwritten_tids ws = map snd (filter (\<lambda>(is_insert, t). \<not> is_insert \<and> t \<noteq> MAX_TID) ws)"

lemma max_write_tid_overwritten: "max_write_tid ws ret = max_read_tid (overwritten_tids ws) ret"
  by (induction ws ret rule: max_write_tid.induct) (simp_all add: overwritten_tids_def)

lemma max_read_tid_append: "max_read_tid (ts @ us) ret = max_read_tid us (max_read_tid ts ret)"
  by (induction ts arbitrary: ret) simp_all

lemmas max_read_tid_bounds =
  fold_max_ge_init [where xs = ts for ts :: "u64 list", folded max_read_tid_fold]
  fold_max_ge_elem [where xs = ts for ts :: "u64 list", folded max_read_tid_fold]
  fold_max_cases [where xs = ts for ts :: "u64 list", folded max_read_tid_fold]

text \<open>
  The bump at the end of \<^verbatim>\<open>gen_commit_tid\<close>, on any id of the commit epoch whose number has room.
\<close>

lemma MakeTid_next_number:
  assumes "unat core < 512" and "EpochId ret = e" and "unat (NumId ret) < 16777215"
  shows "CoreId (MakeTid core (NumId ret + 1) e) = core"
    and "NumId (MakeTid core (NumId ret + 1) e) = NumId ret + 1"
    and "EpochId (MakeTid core (NumId ret + 1) e) = e"
    and "ret < MakeTid core (NumId ret + 1) e"
proof -
  have n: "unat (NumId ret + 1) = unat (NumId ret) + 1"
    using assms(3) by (simp add: unat_word_ariths)
  have e: "unat e < 2147483648" using assms(2) EpochId_less by blast
  show "CoreId (MakeTid core (NumId ret + 1) e) = core"
    using assms by (simp add: CoreId_MakeTid)
  show num: "NumId (MakeTid core (NumId ret + 1) e) = NumId ret + 1"
    using assms n by (simp add: NumId_MakeTid)
  show ep: "EpochId (MakeTid core (NumId ret + 1) e) = e"
    using assms n e by (simp add: EpochId_MakeTid)
  show "ret < MakeTid core (NumId ret + 1) e"
    by (rule less_if_number_less) (simp_all add: num ep assms(2) word_less_unat n)
qed

lemma commit_id_fresh:
  assumes core: "unat core < 512" and epoch: "unat e < 2147483648"
    and old: "\<forall>t \<in> {last_commit_tid ctx} \<union> set reads \<union> set (overwritten_tids ws).
        EpochId t \<le> e \<and> (EpochId t = e \<longrightarrow> unat (NumId t) < 16777215)"
    and res: "gen_commit_tid ctx core e reads ws = (tid, ctx')"
  shows "CoreId tid = core \<and> EpochId tid = e \<and> last_commit_tid ctx' = tid \<and>
    (\<forall>t \<in> {last_commit_tid ctx} \<union> set reads \<union> set (overwritten_tids ws). t < tid)"
proof -
  let ?all = "reads @ overwritten_tids ws"
  let ?l = "last_commit_tid ctx"
  define ret1 where "ret1 = (if e \<noteq> EpochId ?l then MakeTid 0 0 e else ?l)"
  define ret3 where "ret3 = max_read_tid ?all ret1"
  have e1: "EpochId ret1 = e" using epoch by (simp add: ret1_def EpochId_MakeTid)
  have n1: "unat (NumId ret1) < 16777215"
    using epoch old by (simp add: ret1_def NumId_MakeTid)
  have ge: "ret1 \<le> ret3" and mem: "ret3 = ret1 \<or> ret3 \<in> set ?all"
    unfolding ret3_def using max_read_tid_bounds(1,3) by blast+
  have e3: "EpochId ret3 = e"
  proof (rule antisym)
    show "EpochId ret3 \<le> e" using mem e1 old by auto
    show "e \<le> EpochId ret3" using EpochId_mono [OF ge] e1 by simp
  qed
  have n3: "unat (NumId ret3) < 16777215" using mem n1 e3 old by auto
  have tid: "tid = MakeTid core (NumId ret3 + 1) e" and ctx': "last_commit_tid ctx' = tid"
    using res by (auto simp: gen_commit_tid_def Let_def max_write_tid_overwritten
        max_read_tid_append ret3_def ret1_def)
  have gt: "ret3 < tid" unfolding tid by (rule MakeTid_next_number(4) [OF core e3 n3])
  have "t < tid" if "t = ?l \<or> t \<in> set ?all" for t
  proof (cases "t \<in> set ?all")
    case True
    then have "t \<le> ret3" unfolding ret3_def by (rule max_read_tid_bounds(2))
    then show ?thesis using gt by simp
  next
    case False
    with that have t: "t = ?l" by simp
    show ?thesis
    proof (cases "e = EpochId ?l")
      case True
      then show ?thesis using t gt ge by (simp add: ret1_def)
    next
      case False
      then have "EpochId ?l < EpochId ret1" using old e1 by auto
      then have "?l < ret1" by (rule less_if_epoch_less)
      then show ?thesis using t ge gt by simp
    qed
  qed
  then show ?thesis
    using MakeTid_next_number(1,3) [OF core e3 n3] tid ctx' by auto
qed

text \<open>
  Property C15 (commit ids order after what the transaction observed). Let the ids of the core's last
  commit, of the read set and of the overwritten versions come from epochs up to the commit epoch, and
  let those of the commit epoch leave room in the 24-bit number. Then \<^verbatim>\<open>gen_commit_tid\<close> returns an id of
  this core and of the commit epoch that is strictly greater than every one of them, and records it as
  the core's last commit id.
\<close>

theorem gen_commit_tid_fresh:
  assumes core: "unat core < 512" and epoch: "unat e < 2147483648"
    and old: "\<forall>t \<in> {last_commit_tid ctx} \<union> set reads \<union> set (overwritten_tids ws).
        EpochId t \<le> e \<and> (EpochId t = e \<longrightarrow> unat (NumId t) < 16777215)"
    and res: "gen_commit_tid ctx core e reads ws = (tid, ctx')"
  shows "CoreId tid = core \<and> EpochId tid = e \<and> last_commit_tid ctx' = tid \<and>
    (\<forall>t \<in> {last_commit_tid ctx} \<union> set reads \<union> set (overwritten_tids ws). t < tid)"
  by (rule commit_id_fresh [OF core epoch old res])

theorem gen_commit_tid_fresh_witness:
  "\<exists>tid ctx'. gen_commit_tid \<lparr>last_commit_tid = MakeTid 3 5 7, hack_status = False, hack_global_tid = 0\<rparr>
      3 7 [MakeTid 1 8 7] [(False, MakeTid 2 4 6), (True, MAX_TID)] = (tid, ctx') \<and>
    CoreId tid = 3 \<and> EpochId tid = 7 \<and> MakeTid 1 8 7 < tid"
proof -
  let ?ctx = "\<lparr>last_commit_tid = MakeTid 3 5 7, hack_status = False, hack_global_tid = 0\<rparr>"
  let ?r = "gen_commit_tid ?ctx 3 7 [MakeTid 1 8 7] [(False, MakeTid 2 4 6), (True, MAX_TID)]"
  have "CoreId (fst ?r) = 3 \<and> EpochId (fst ?r) = 7 \<and> last_commit_tid (snd ?r) = fst ?r \<and>
    (\<forall>t \<in> {last_commit_tid ?ctx} \<union> set [MakeTid 1 8 7] \<union>
      set (overwritten_tids [(False, MakeTid 2 4 6), (True, MAX_TID)]). t < fst ?r)"
    by (rule gen_commit_tid_fresh [where core = 3 and e = 7 and ctx = ?ctx])
      (simp_all add: overwritten_tids_def MAX_TID_def EpochId_bits NumId_bits MakeTid_bits mask_eq_exp_minus_1)
  then show ?thesis by (cases ?r) auto
qed

text \<open>The largest number plus one: bit 24 of the number is bit 0 of the epoch field.\<close>

lemma MakeTid_number_overflow: "MakeTid c 16777216 e = MakeTid c 0 (e OR 1)"
  by (simp add: MakeTid_bits push_bit_or ac_simps)

lemma max_read_tid_dominated: "\<forall>t \<in> set ts. t \<le> ret \<Longrightarrow> max_read_tid ts ret = ret"
  using max_read_tid_bounds(1) [of ret ts] max_read_tid_bounds(3) [of ts ret] by (metis antisym)

text \<open>
  Property C32 (number overflow). The 24-bit number is not checked. Let a core's last commit id carry the
  largest number, let its epoch be the commit epoch, and let the transaction have observed no greater id. Then the
  number of the next commit id is 0, and the carry is absorbed by the lowest bit of the epoch field: in an
  odd epoch the new id is \<^emph>\<open>smaller\<close> than the core's last one, and in an even epoch it is an id of the next epoch,
  which the ticker has not reached.
\<close>

theorem gen_commit_tid_number_overflow:
  assumes "unat core < 512" and "EpochId (last_commit_tid ctx) = e"
    and "unat (NumId (last_commit_tid ctx)) = 16777215"
    and "\<forall>t \<in> set reads \<union> set (overwritten_tids ws). t \<le> last_commit_tid ctx"
    and "gen_commit_tid ctx core e reads ws = (tid, ctx')"
  shows "NumId tid = 0 \<and> last_commit_tid ctx' = tid \<and>
    (if odd e then EpochId tid = e \<and> tid < last_commit_tid ctx else EpochId tid = e + 1)"
proof -
  have n: "NumId (last_commit_tid ctx) = 16777215" using assms(3) by (simp add: word_unat_eq_iff)
  have "max_write_tid ws (max_read_tid reads (last_commit_tid ctx)) = last_commit_tid ctx"
    using assms(4) by (simp add: max_write_tid_overwritten max_read_tid_dominated)
  then have tid: "tid = MakeTid core 0 (e OR 1)" and ctx': "last_commit_tid ctx' = tid"
    using assms(2,5) n by (auto simp: gen_commit_tid_def Let_def MakeTid_number_overflow)
  have "unat (e OR 1) < 2147483648"
    using EpochId_less [of "last_commit_tid ctx OR 8589934592"] assms(2)
    by (simp add: EpochId_bits drop_bit_or)
  then have ep: "EpochId tid = e OR 1" and num: "NumId tid = 0"
    using assms(1) unfolding tid by (simp_all add: EpochId_MakeTid NumId_MakeTid)
  have "tid < last_commit_tid ctx" if "odd e"
    by (rule less_if_number_less) (use that ep num n assms(2) in \<open>simp_all add: or_one_eq\<close>)
  then show ?thesis using ep num ctx' by (simp add: or_one_eq)
qed

theorem gen_commit_tid_number_overflow_witness:
  "\<exists>tid ctx'. gen_commit_tid \<lparr>last_commit_tid = MakeTid 3 16777215 7, hack_status = False, hack_global_tid = 0\<rparr>
      3 7 [MakeTid 1 5 7] [(False, MakeTid 2 4 6)] = (tid, ctx') \<and> tid < MakeTid 3 16777215 7"
proof -
  let ?ctx = "\<lparr>last_commit_tid = MakeTid 3 16777215 7, hack_status = False, hack_global_tid = 0\<rparr>"
  let ?r = "gen_commit_tid ?ctx 3 7 [MakeTid 1 5 7] [(False, MakeTid 2 4 6)]"
  have "if odd (7 :: u64) then EpochId (fst ?r) = 7 \<and> fst ?r < last_commit_tid ?ctx else EpochId (fst ?r) = 7 + 1"
    using gen_commit_tid_number_overflow [where core = 3 and e = 7 and ctx = ?ctx and reads = "[MakeTid 1 5 7]"
        and ws = "[(False, MakeTid 2 4 6)]" and tid = "fst ?r" and ctx' = "snd ?r"]
    by (simp add: overwritten_tids_def MAX_TID_def EpochId_bits NumId_bits MakeTid_bits mask_eq_exp_minus_1)
  then show ?thesis by (cases ?r) simp
qed

end
