(* ===== verification/Tuple_Hdr.thy ===== *)
theory Tuple_Hdr
  imports Silo_Prelude
begin

text \<open>
  The header word of a tuple (\<^verbatim>\<open>src/src/tuple.h\<close>): four flags and a 27-bit version counter packed
  into 32 bits, and the operations of the version-validated lock on it.
\<close>

section \<open>Layout\<close>

definition HDR_LOCKED_MASK :: u32 where
  "HDR_LOCKED_MASK = 0x1"

definition HDR_DELETING_SHIFT :: nat where
  "HDR_DELETING_SHIFT = 1"

definition HDR_DELETING_MASK :: u32 where
  "HDR_DELETING_MASK = push_bit HDR_DELETING_SHIFT 0x1"

definition HDR_WRITE_INTENT_SHIFT :: nat where
  "HDR_WRITE_INTENT_SHIFT = 2"

definition HDR_WRITE_INTENT_MASK :: u32 where
  "HDR_WRITE_INTENT_MASK = push_bit HDR_WRITE_INTENT_SHIFT 0x1"

definition HDR_MODIFYING_SHIFT :: nat where
  "HDR_MODIFYING_SHIFT = 3"

definition HDR_MODIFYING_MASK :: u32 where
  "HDR_MODIFYING_MASK = push_bit HDR_MODIFYING_SHIFT 0x1"

definition HDR_LATEST_SHIFT :: nat where
  "HDR_LATEST_SHIFT = 4"

definition HDR_LATEST_MASK :: u32 where
  "HDR_LATEST_MASK = push_bit HDR_LATEST_SHIFT 0x1"

definition HDR_VERSION_SHIFT :: nat where
  "HDR_VERSION_SHIFT = 5"

definition HDR_VERSION_MASK :: u32 where
  "HDR_VERSION_MASK = push_bit HDR_VERSION_SHIFT (- 1)"

definition IsLocked :: "u32 \<Rightarrow> bool" where
  "IsLocked v \<longleftrightarrow> v AND HDR_LOCKED_MASK \<noteq> 0"

definition IsDeleting :: "u32 \<Rightarrow> bool" where
  "IsDeleting v \<longleftrightarrow> v AND HDR_DELETING_MASK \<noteq> 0"

definition IsWriteIntent :: "u32 \<Rightarrow> bool" where
  "IsWriteIntent v \<longleftrightarrow> v AND HDR_WRITE_INTENT_MASK \<noteq> 0"

definition IsModifying :: "u32 \<Rightarrow> bool" where
  "IsModifying v \<longleftrightarrow> v AND HDR_MODIFYING_MASK \<noteq> 0"

definition IsLatest :: "u32 \<Rightarrow> bool" where
  "IsLatest v \<longleftrightarrow> v AND HDR_LATEST_MASK \<noteq> 0"

definition Version :: "u32 \<Rightarrow> u32" where
  "Version v = drop_bit HDR_VERSION_SHIFT (v AND HDR_VERSION_MASK)"

section \<open>Operations on the header\<close>

definition lockmask :: "bool \<Rightarrow> u32" where
  "lockmask write_intent =
     (if write_intent then HDR_LOCKED_MASK OR HDR_WRITE_INTENT_MASK else HDR_LOCKED_MASK)"

text \<open>
  One iteration of the loop of \<^verbatim>\<open>lock()\<close> on the header \<open>h\<close> it finds: \<open>None\<close> is another iteration.
\<close>

definition try_lock :: "bool \<Rightarrow> u32 \<Rightarrow> u32 option" where
  "try_lock write_intent h = (if IsLocked h then None else Some (h OR lockmask write_intent))"

definition unlock_hdr :: "u32 \<Rightarrow> u32" where
  "unlock_hdr h =
     (let v = (if IsModifying h \<or> IsWriteIntent h
               then let n = Version h
                    in (h AND NOT HDR_VERSION_MASK) OR
                       (push_bit HDR_VERSION_SHIFT (n + 1) AND HDR_VERSION_MASK)
               else h)
      in v AND NOT (HDR_LOCKED_MASK OR HDR_MODIFYING_MASK OR HDR_WRITE_INTENT_MASK))"

definition mark_deleting_hdr :: "u32 \<Rightarrow> u32" where
  "mark_deleting_hdr h = h OR HDR_DELETING_MASK"

definition clear_deleting_hdr :: "u32 \<Rightarrow> u32" where
  "clear_deleting_hdr h = h AND NOT HDR_DELETING_MASK"

definition mark_modifying_hdr :: "u32 \<Rightarrow> u32" where
  "mark_modifying_hdr h = h OR HDR_MODIFYING_MASK"

definition clear_latest_hdr :: "u32 \<Rightarrow> u32" where
  "clear_latest_hdr h = h AND NOT HDR_LATEST_MASK"

definition MODULO_BITS :: u32 where
  "MODULO_BITS = HDR_LOCKED_MASK OR HDR_WRITE_INTENT_MASK OR HDR_LATEST_MASK"

text \<open>\<open>h\<close> is the header at the time of the check, \<open>v\<close> the one the caller remembered.\<close>

definition reader_check_version :: "u32 \<Rightarrow> u32 \<Rightarrow> bool" where
  "reader_check_version h v \<longleftrightarrow> h AND NOT MODULO_BITS = v AND NOT MODULO_BITS"

definition writer_check_version :: "u32 \<Rightarrow> u32 \<Rightarrow> bool" where
  "writer_check_version h v \<longleftrightarrow> h = v"

section \<open>Bits\<close>

lemma and_single_bit: "(w AND push_bit n 1 = 0) \<longleftrightarrow> \<not> (n < LENGTH('a) \<and> bit (w :: 'a::len word) n)"
proof -
  have "bit (w AND push_bit n 1) i \<longleftrightarrow> i = n \<and> n < LENGTH('a) \<and> bit w n" for i
    by (auto simp: bit_simps)
  then show ?thesis by (metis bit_0_eq bit_word_eqI bot_apply bot_bool_def)
qed

lemma hdr_flag_bits:
  "IsLocked v \<longleftrightarrow> bit v 0" "IsDeleting v \<longleftrightarrow> bit v 1" "IsWriteIntent v \<longleftrightarrow> bit v 2"
  "IsModifying v \<longleftrightarrow> bit v 3" "IsLatest v \<longleftrightarrow> bit v 4"
proof -
  have one: "HDR_LOCKED_MASK = push_bit 0 1" by (simp add: HDR_LOCKED_MASK_def)
  show "IsLocked v \<longleftrightarrow> bit v 0" unfolding IsLocked_def one and_single_bit by simp
  show "IsDeleting v \<longleftrightarrow> bit v 1" "IsWriteIntent v \<longleftrightarrow> bit v 2" "IsModifying v \<longleftrightarrow> bit v 3"
    "IsLatest v \<longleftrightarrow> bit v 4"
    unfolding IsDeleting_def HDR_DELETING_MASK_def HDR_DELETING_SHIFT_def
      IsWriteIntent_def HDR_WRITE_INTENT_MASK_def HDR_WRITE_INTENT_SHIFT_def
      IsModifying_def HDR_MODIFYING_MASK_def HDR_MODIFYING_SHIFT_def
      IsLatest_def HDR_LATEST_MASK_def HDR_LATEST_SHIFT_def numeral_One and_single_bit
    by simp_all
qed

lemma bit_masks [hdr_bit_simps]:
  "bit HDR_LOCKED_MASK i \<longleftrightarrow> i = 0"
  "bit HDR_DELETING_MASK i \<longleftrightarrow> i = 1"
  "bit HDR_WRITE_INTENT_MASK i \<longleftrightarrow> i = 2"
  "bit HDR_MODIFYING_MASK i \<longleftrightarrow> i = 3"
  "bit HDR_LATEST_MASK i \<longleftrightarrow> i = 4"
  "bit HDR_VERSION_MASK i \<longleftrightarrow> 5 \<le> i \<and> i < 32"
proof -
  have "bit (push_bit n (1 :: u32)) i \<longleftrightarrow> i = n" if "n < 32" for n
    using that by (auto simp: bit_simps)
  from this [of 1] this [of 2] this [of 3] this [of 4]
  show "bit HDR_DELETING_MASK i \<longleftrightarrow> i = 1" "bit HDR_WRITE_INTENT_MASK i \<longleftrightarrow> i = 2"
    "bit HDR_MODIFYING_MASK i \<longleftrightarrow> i = 3" "bit HDR_LATEST_MASK i \<longleftrightarrow> i = 4"
    unfolding HDR_DELETING_MASK_def HDR_DELETING_SHIFT_def HDR_WRITE_INTENT_MASK_def
      HDR_WRITE_INTENT_SHIFT_def HDR_MODIFYING_MASK_def HDR_MODIFYING_SHIFT_def
      HDR_LATEST_MASK_def HDR_LATEST_SHIFT_def numeral_One by auto
  show "bit HDR_LOCKED_MASK i \<longleftrightarrow> i = 0" by (simp add: HDR_LOCKED_MASK_def bit_1_iff)
  show "bit HDR_VERSION_MASK i \<longleftrightarrow> 5 \<le> i \<and> i < 32"
    unfolding HDR_VERSION_MASK_def HDR_VERSION_SHIFT_def by (auto simp: bit_simps)
qed

lemma bit_lockmask [hdr_bit_simps]: "bit (lockmask wi) i \<longleftrightarrow> i = 0 \<or> wi \<and> i = 2"
  by (auto simp: lockmask_def bit_or_iff hdr_bit_simps)

lemma bit_modulo [hdr_bit_simps]: "bit MODULO_BITS i \<longleftrightarrow> i = 0 \<or> i = 2 \<or> i = 4"
  by (auto simp: MODULO_BITS_def bit_or_iff hdr_bit_simps)

lemma Version_eq: "Version v = drop_bit 5 v"
proof (rule bit_word_eqI)
  fix i assume "i < LENGTH(32)"
  then show "bit (Version v) i = bit (drop_bit 5 v) i"
    using bit_imp_le_length [of v "5 + i"]
    by (auto simp: Version_def HDR_VERSION_SHIFT_def bit_drop_bit_eq bit_and_iff hdr_bit_simps)
qed

lemma unat_Version: "unat (Version v) = unat v div 2 ^ 5"
  unfolding Version_eq by (rule unat_drop_bit)

lemma Version_less: "unat (Version v) < 2 ^ 27"
proof -
  have "unat v < 2 ^ 32" using unsigned_less [of v, where ?'a = nat] by simp
  then show ?thesis unfolding unat_Version by (simp add: less_mult_imp_div_less)
qed

text \<open>Flags and version after each operation.\<close>

lemma bit_ops [hdr_bit_simps]:
  "bit (h OR lockmask wi) i \<longleftrightarrow> bit h i \<or> i = 0 \<or> wi \<and> i = 2"
  "bit (mark_deleting_hdr h) i \<longleftrightarrow> bit h i \<or> i = 1"
  "bit (mark_modifying_hdr h) i \<longleftrightarrow> bit h i \<or> i = 3"
  "bit (clear_latest_hdr h) i \<longleftrightarrow> bit h i \<and> i \<noteq> 4"
  "bit (clear_deleting_hdr h) i \<longleftrightarrow> bit h i \<and> i \<noteq> 1"
proof -
  show "bit (h OR lockmask wi) i \<longleftrightarrow> bit h i \<or> i = 0 \<or> wi \<and> i = 2"
    by (auto simp: bit_or_iff hdr_bit_simps)
  show "bit (mark_deleting_hdr h) i \<longleftrightarrow> bit h i \<or> i = 1"
    by (auto simp: mark_deleting_hdr_def bit_or_iff hdr_bit_simps)
  show "bit (mark_modifying_hdr h) i \<longleftrightarrow> bit h i \<or> i = 3"
    by (auto simp: mark_modifying_hdr_def bit_or_iff hdr_bit_simps)
  show "bit (clear_latest_hdr h) i \<longleftrightarrow> bit h i \<and> i \<noteq> 4"
    using bit_imp_le_length [of h i]
    by (auto simp: clear_latest_hdr_def bit_and_iff bit_not_iff hdr_bit_simps)
  show "bit (clear_deleting_hdr h) i \<longleftrightarrow> bit h i \<and> i \<noteq> 1"
    using bit_imp_le_length [of h i]
    by (auto simp: clear_deleting_hdr_def bit_and_iff bit_not_iff hdr_bit_simps)
qed

lemma Version_same_bits: "(\<And>i. 5 \<le> i \<Longrightarrow> bit a i = bit b i) \<Longrightarrow> Version a = Version b"
  unfolding Version_eq by (rule bit_word_eqI) (simp add: bit_drop_bit_eq)

lemma Version_ops [simp]:
  "Version (h OR lockmask wi) = Version h"
  "Version (mark_deleting_hdr h) = Version h"
  "Version (mark_modifying_hdr h) = Version h"
  "Version (clear_latest_hdr h) = Version h"
  "Version (clear_deleting_hdr h) = Version h"
  by (rule Version_same_bits; auto simp: hdr_bit_simps)+

definition bumps :: "u32 \<Rightarrow> bool" where
  "bumps h \<longleftrightarrow> IsModifying h \<or> IsWriteIntent h"

lemma bit_unlock_low [hdr_bit_simps]:
  "i < 5 \<Longrightarrow> bit (unlock_hdr h) i \<longleftrightarrow> bit h i \<and> (i = 1 \<or> i = 4)"
  using bit_imp_le_length [of h i]
  by (auto simp: unlock_hdr_def Let_def bit_and_iff bit_or_iff bit_not_iff bit_push_bit_iff hdr_bit_simps
      HDR_VERSION_SHIFT_def)

lemma unlock_flags:
  "\<not> IsLocked (unlock_hdr h)" "\<not> IsModifying (unlock_hdr h)" "\<not> IsWriteIntent (unlock_hdr h)"
  "IsDeleting (unlock_hdr h) = IsDeleting h" "IsLatest (unlock_hdr h) = IsLatest h"
  by (simp_all add: hdr_flag_bits hdr_bit_simps)

lemma Version_unlock:
  "unat (Version (unlock_hdr h)) = (if bumps h then (unat (Version h) + 1) mod 2 ^ 27 else unat (Version h))"
proof -
  have bits: "bit (Version (unlock_hdr h)) i = bit (if bumps h then Version h + 1 else Version h) i"
    if "i < 27" for i
    using that bit_imp_le_length [of h "i + 5"]
    unfolding Version_eq [of "unlock_hdr h"] bit_drop_bit_eq
    by (auto simp: unlock_hdr_def bumps_def Let_def bit_and_iff bit_or_iff bit_not_iff bit_push_bit_iff
        hdr_bit_simps HDR_VERSION_SHIFT_def Version_eq bit_drop_bit_eq add.commute)
  have "take_bit 27 (Version (unlock_hdr h)) = take_bit 27 (if bumps h then Version h + 1 else Version h)"
    by (rule bit_word_eqI) (use bits in \<open>auto simp: bit_take_bit_iff\<close>)
  then have "unat (take_bit 27 (Version (unlock_hdr h))) =
      unat (take_bit 27 (if bumps h then Version h + 1 else Version h))" by simp
  then have "take_bit 27 (unat (Version (unlock_hdr h))) =
      take_bit 27 (unat (if bumps h then Version h + 1 else Version h))"
    by (simp only: unsigned_take_bit_eq)
  then have eq: "unat (Version (unlock_hdr h)) mod 2 ^ 27 =
      unat (if bumps h then Version h + 1 else Version h) mod 2 ^ 27"
    unfolding take_bit_eq_mod .
  have "unat (Version h + 1) = unat (Version h) + 1"
    using Version_less [of h] by (simp add: unat_word_ariths)
  then show ?thesis using eq Version_less [of "unlock_hdr h"] Version_less [of h] by simp
qed

lemma reader_check_bits:
  "reader_check_version h v \<longleftrightarrow>
     IsDeleting h = IsDeleting v \<and> IsModifying h = IsModifying v \<and> Version h = Version v"
proof -
  have "reader_check_version h v \<longleftrightarrow> (\<forall>i < 32. i \<noteq> 0 \<and> i \<noteq> 2 \<and> i \<noteq> 4 \<longrightarrow> bit h i = bit v i)"
    unfolding reader_check_version_def
    by (auto simp: bit_eq_iff bit_and_iff bit_not_iff hdr_bit_simps)
  also have "\<dots> \<longleftrightarrow> bit h 1 = bit v 1 \<and> bit h 3 = bit v 3 \<and> (\<forall>i < 27. bit h (5 + i) = bit v (5 + i))"
  proof
    assume a: "bit h 1 = bit v 1 \<and> bit h 3 = bit v 3 \<and> (\<forall>i < 27. bit h (5 + i) = bit v (5 + i))"
    show "\<forall>i < 32. i \<noteq> 0 \<and> i \<noteq> 2 \<and> i \<noteq> 4 \<longrightarrow> bit h i = bit v i"
    proof (rule allI, rule impI, rule impI)
      fix i :: nat assume i: "i < 32" "i \<noteq> 0 \<and> i \<noteq> 2 \<and> i \<noteq> 4"
      have "i = 1 \<or> i = 3 \<or> 5 \<le> i" using i by auto
      then show "bit h i = bit v i"
        using a i by (auto dest: spec [where x = "i - 5"])
    qed
  qed auto
  also have "(\<forall>i < 27. bit h (5 + i) = bit v (5 + i)) \<longleftrightarrow> Version h = Version v"
  proof
    assume a: "\<forall>i < 27. bit h (5 + i) = bit v (5 + i)"
    show "Version h = Version v" unfolding Version_eq
    proof (rule bit_word_eqI)
      fix i
      show "bit (drop_bit 5 h) i = bit (drop_bit 5 v) i"
        using a bit_imp_le_length [of h "5 + i"] bit_imp_le_length [of v "5 + i"]
        by (cases "i < 27") (auto simp: bit_drop_bit_eq)
    qed
  next
    assume "Version h = Version v"
    then show "\<forall>i < 27. bit h (5 + i) = bit v (5 + i)"
      unfolding Version_eq bit_eq_iff bit_drop_bit_eq by simp
  qed
  finally show ?thesis unfolding hdr_flag_bits .
qed

lemma try_lock_Some: "try_lock wi h = Some h' \<longleftrightarrow> \<not> IsLocked h \<and> h' = h OR lockmask wi"
  by (auto simp: try_lock_def)

end
