(* ===== verification/Tuple.thy ===== *)
theory Tuple
  imports Tid Tuple_Hdr Varint
begin

text \<open>
  Tuples (\<^verbatim>\<open>src/src/tuple.h\<close>): a versioned record with its header, its value buffer and the chain of
  older versions behind it. The heap is an explicit store. Reads run against a memory that changes over
  time, so that every load of a reader may see the effect of concurrent writers.
\<close>

section \<open>Tuples and the heap\<close>

type_synonym ptr = nat

record dbtuple =
  hdr :: u32
  tversion :: u64
  tsize :: u16
  alloc_size :: u16
  tnext :: "ptr option"
  value_start :: bytes

text \<open>The allocated tuples, the next free address, and what fresh memory holds.\<close>

record heap =
  cells :: "ptr \<Rightarrow> dbtuple option"
  brk :: ptr
  raw :: "ptr \<Rightarrow> nat \<Rightarrow> u8"

definition tuple_at :: "heap \<Rightarrow> ptr \<Rightarrow> mem_error + dbtuple" where
  "tuple_at H p = (case cells H p of None \<Rightarrow> Inl Past_end | Some x \<Rightarrow> Inr x)"

definition tuple_put :: "ptr \<Rightarrow> dbtuple \<Rightarrow> heap \<Rightarrow> heap" where
  "tuple_put p x H = H\<lparr>cells := (cells H)(p \<mapsto> x)\<rparr>"

definition fresh_bytes :: "heap \<Rightarrow> nat \<Rightarrow> bytes" where
  "fresh_bytes H n = map (raw H (brk H)) [0..<n]"

definition heap_new :: "dbtuple \<Rightarrow> heap \<Rightarrow> ptr \<times> heap" where
  "heap_new x H = (brk H, H\<lparr>cells := (cells H)(brk H \<mapsto> x), brk := Suc (brk H)\<rparr>)"

definition heap_free :: "ptr \<Rightarrow> heap \<Rightarrow> heap" where
  "heap_free p H = H\<lparr>cells := (cells H)(p := None)\<rparr>"

definition mem_copy :: "bytes \<Rightarrow> nat \<Rightarrow> bytes \<Rightarrow> mem_error + bytes" where
  "mem_copy src n dst =
     (if length src < n \<or> length dst < n then Inl Past_end else Inr (write_at 0 (take n src) dst))"

section \<open>Allocation\<close>

definition round_up :: "nat \<Rightarrow> u64 \<Rightarrow> u64" where
  "round_up lgbase t = (t + (push_bit lgbase 1 - 1)) AND NOT (push_bit lgbase 1 - 1)"

definition sizeof_dbtuple :: nat where
  "sizeof_dbtuple = 24"

definition LgAllocAlignment :: nat where
  "LgAllocAlignment = 4"

definition max_node_size :: nat where
  "max_node_size = 2 ^ 16 - 1"

definition alloc_sz :: "nat \<Rightarrow> nat" where
  "alloc_sz needed =
     min (unat (round_up LgAllocAlignment (of_nat (sizeof_dbtuple + needed)))) (max_node_size + sizeof_dbtuple)"

definition alloc_first :: "nat \<Rightarrow> bool \<Rightarrow> heap \<Rightarrow> ptr \<times> heap" where
  "alloc_first sz acquire_lock H =
     (let n = alloc_sz sz - sizeof_dbtuple
      in heap_new
           \<lparr>hdr = HDR_LATEST_MASK OR
               (if acquire_lock then HDR_LOCKED_MASK OR HDR_WRITE_INTENT_MASK else 0) OR
               (if sz = 0 then HDR_DELETING_MASK else 0),
            tversion = MAX_TID, tsize = of_nat sz, alloc_size = of_nat n, tnext = None,
            value_start = fresh_bytes H n\<rparr> H)"

text \<open>A copy of \<open>base\<close> at \<open>ver\<close>.\<close>

definition alloc_copy :: "u64 \<Rightarrow> dbtuple \<Rightarrow> bool \<Rightarrow> heap \<Rightarrow> mem_error + (ptr \<times> heap)" where
  "alloc_copy ver base set_latest H =
     (let n = alloc_sz (unat (tsize base)) - sizeof_dbtuple;
          h = (if set_latest then HDR_LATEST_MASK else 0)
      in sbind (mem_copy (value_start base) (unat (tsize base)) (fresh_bytes H n)) (\<lambda>bs.
           Inr (heap_new
             \<lparr>hdr = (if IsDeleting (hdr base) then mark_deleting_hdr h else h),
              tversion = ver, tsize = tsize base, alloc_size = of_nat n, tnext = tnext base,
              value_start = bs\<rparr> H)))"

definition alloc_spill ::
  "u64 \<Rightarrow> bytes \<Rightarrow> nat \<Rightarrow> nat \<Rightarrow> ptr \<Rightarrow> bool \<Rightarrow> bool \<Rightarrow> heap \<Rightarrow> mem_error + (ptr \<times> heap)" where
  "alloc_spill ver r oldsz newsz nxt set_latest copy_old_value H =
     (let needed_sz = (if copy_old_value then max newsz oldsz else newsz);
          n = alloc_sz needed_sz - sizeof_dbtuple
      in sbind (if copy_old_value then mem_copy r oldsz (fresh_bytes H n) else Inr (fresh_bytes H n)) (\<lambda>bs.
           Inr (heap_new
             \<lparr>hdr = (if set_latest then HDR_LATEST_MASK else 0) OR (if newsz = 0 then HDR_DELETING_MASK else 0),
              tversion = ver, tsize = of_nat newsz, alloc_size = of_nat n, tnext = Some nxt,
              value_start = bs\<rparr> H)))"

section \<open>Predicates on a tuple\<close>

definition is_not_behind :: "dbtuple \<Rightarrow> u64 \<Rightarrow> bool" where
  "is_not_behind x t \<longleftrightarrow> tversion x \<le> t"

definition is_latest_version :: "dbtuple \<Rightarrow> u64 \<Rightarrow> bool" where
  "is_latest_version x t \<longleftrightarrow> IsLatest (hdr x) \<and> is_not_behind x t"

definition latest_value_is_nil :: "dbtuple \<Rightarrow> bool" where
  "latest_value_is_nil x \<longleftrightarrow> IsLatest (hdr x) \<and> tsize x = 0"

section \<open>Reads\<close>

text \<open>Memory over time: each load happens at its own instant.\<close>

type_synonym memory = "nat \<Rightarrow> ptr \<Rightarrow> dbtuple option"

definition load :: "memory \<Rightarrow> nat \<Rightarrow> ptr \<Rightarrow> mem_error + dbtuple" where
  "load mem \<tau> p = (case mem \<tau> p of None \<Rightarrow> Inl Past_end | Some x \<Rightarrow> Inr x)"

fun load_bytes :: "memory \<Rightarrow> nat \<Rightarrow> ptr \<Rightarrow> nat \<Rightarrow> nat \<Rightarrow> mem_error + bytes" where
  "load_bytes mem \<tau> p i 0 = Inr []"
| "load_bytes mem \<tau> p i (Suc n) =
     sbind (load mem \<tau> p) (\<lambda>x.
       if length (value_start x) \<le> i then Inl Past_end
       else sbind (load_bytes mem (Suc \<tau>) p (Suc i) n) (\<lambda>bs. Inr (value_start x ! i # bs)))"

text \<open>The spin loops, with fuel; \<open>None\<close>: the fuel ran out. The version comes with the time after its load.\<close>

fun reader_stable_version :: "nat \<Rightarrow> memory \<Rightarrow> nat \<Rightarrow> ptr \<Rightarrow> bool \<Rightarrow> mem_error + (u32 \<times> nat) option" where
  "reader_stable_version 0 mem \<tau> p allow_write_intent = Inr None"
| "reader_stable_version (Suc fuel) mem \<tau> p allow_write_intent =
     sbind (load mem \<tau> p) (\<lambda>x.
       let v = hdr x
       in if IsModifying v \<or> \<not> allow_write_intent \<and> IsWriteIntent v
          then reader_stable_version fuel mem (Suc \<tau>) p allow_write_intent
          else Inr (Some (v, Suc \<tau>)))"

fun try_writer_stable_version :: "nat \<Rightarrow> memory \<Rightarrow> nat \<Rightarrow> ptr \<Rightarrow> mem_error + (bool \<times> u32 \<times> nat)" where
  "try_writer_stable_version spins mem \<tau> p =
     sbind (load mem \<tau> p) (\<lambda>x.
       if IsWriteIntent (hdr x)
       then case spins of
              0 \<Rightarrow> Inr (False, hdr x, Suc \<tau>)
            | Suc n \<Rightarrow> try_writer_stable_version n mem (Suc \<tau>) p
       else Inr (True, hdr x, Suc \<tau>))"

definition stable_is_latest_version :: "memory \<Rightarrow> nat \<Rightarrow> ptr \<Rightarrow> u64 \<Rightarrow> mem_error + bool" where
  "stable_is_latest_version mem \<tau> p t =
     sbind (try_writer_stable_version 16 mem \<tau> p) (\<lambda>(ok, v, \<tau>1).
       if \<not> ok then Inr False
       else sbind (load mem \<tau>1 p) (\<lambda>x.
              if IsLatest v \<and> is_not_behind x t
              then sbind (load mem (Suc \<tau>1) p) (\<lambda>y. Inr (writer_check_version (hdr y) v))
              else Inr False))"

definition stable_latest_value_is_nil :: "memory \<Rightarrow> nat \<Rightarrow> ptr \<Rightarrow> mem_error + bool" where
  "stable_latest_value_is_nil mem \<tau> p =
     sbind (try_writer_stable_version 16 mem \<tau> p) (\<lambda>(ok, v, \<tau>1).
       if \<not> ok then Inr False
       else sbind (load mem \<tau>1 p) (\<lambda>x.
              if IsLatest v \<and> tsize x = 0
              then sbind (load mem (Suc \<tau>1) p) (\<lambda>y. Inr (writer_check_version (hdr y) v))
              else Inr False))"

datatype ReadStatus = READ_FAILED | READ_EMPTY | READ_RECORD

datatype 'r visit = Done ReadStatus u64 "'r option" | Follow "ptr option" | Retry

text \<open>
  One pass of the read loop over the tuple at \<open>p\<close>, after the stable version \<open>v\<close> was obtained. The reader
  gets the bytes and may ask for a retry (\<open>None\<close>).
\<close>

definition visit_tuple ::
  "memory \<Rightarrow> nat \<Rightarrow> ptr \<Rightarrow> u32 \<Rightarrow> u64 \<Rightarrow> (bytes \<Rightarrow> 'r option) \<Rightarrow> mem_error + ('r visit \<times> nat)" where
  "visit_tuple mem \<tau> p v t reader =
     sbind (load mem \<tau> p) (\<lambda>x0.
       if is_not_behind x0 t then
         sbind (load mem (\<tau> + 1) p) (\<lambda>x1.
         sbind (load mem (\<tau> + 2) p) (\<lambda>x2.
         let start_t = tversion x1;
             read_sz = (if IsDeleting v then 0 else unat (tsize x2))
         in sbind (load_bytes mem (\<tau> + 3) p 0 read_sz) (\<lambda>bs.
            let r = (if read_sz = 0 then None else reader bs)
            in if read_sz \<noteq> 0 \<and> r = None then Inr (Retry, \<tau> + 3 + read_sz)
               else sbind (load mem (\<tau> + 3 + read_sz) p) (\<lambda>y.
                      if \<not> reader_check_version (hdr y) v then Inr (Retry, \<tau> + 4 + read_sz)
                      else Inr (Done (if read_sz \<noteq> 0 then READ_RECORD else READ_EMPTY) start_t r,
                                \<tau> + 4 + read_sz)))))
       else
         sbind (load mem (\<tau> + 1) p) (\<lambda>x1.
         sbind (load mem (\<tau> + 2) p) (\<lambda>y.
           if \<not> reader_check_version (hdr y) v then Inr (Retry, \<tau> + 3)
           else Inr (Follow (tnext x1), \<tau> + 3))))"

fun record_at_chain ::
  "nat \<Rightarrow> memory \<Rightarrow> nat \<Rightarrow> ptr \<Rightarrow> u64 \<Rightarrow> (bytes \<Rightarrow> 'r option) \<Rightarrow> bool \<Rightarrow>
   mem_error + (ReadStatus \<times> u64 \<times> 'r option \<times> nat) option" where
  "record_at_chain 0 mem \<tau> p t reader allow_write_intent = Inr None"
| "record_at_chain (Suc fuel) mem \<tau> p t reader allow_write_intent =
     sbind (reader_stable_version (Suc fuel) mem \<tau> p allow_write_intent) (\<lambda>r.
       case r of
         None \<Rightarrow> Inr None
       | Some (v, \<tau>1) \<Rightarrow>
           sbind (visit_tuple mem \<tau>1 p v t reader) (\<lambda>(out, \<tau>2).
             case out of
               Done stat start_t r \<Rightarrow> Inr (Some (stat, start_t, r, \<tau>2))
             | Retry \<Rightarrow> record_at_chain fuel mem \<tau>2 p t reader allow_write_intent
             | Follow None \<Rightarrow> Inr (Some (READ_EMPTY, MIN_TID, None, \<tau>2))
             | Follow (Some q) \<Rightarrow> record_at_chain fuel mem \<tau>2 q t reader allow_write_intent))"

text \<open>\<^verbatim>\<open>record_at\<close> and \<^verbatim>\<open>stable_read\<close>: the inlined first iteration is the body of the chain's loop.\<close>

definition stable_read ::
  "nat \<Rightarrow> memory \<Rightarrow> nat \<Rightarrow> ptr \<Rightarrow> u64 \<Rightarrow> (bytes \<Rightarrow> 'r option) \<Rightarrow> bool \<Rightarrow>
   mem_error + (ReadStatus \<times> u64 \<times> 'r option \<times> nat) option" where
  "stable_read fuel mem \<tau> p t reader allow_write_intent =
     sbind (load mem \<tau> p) (\<lambda>x.
       if tversion x = MAX_TID then Inr (Some (READ_EMPTY, MIN_TID, None, Suc \<tau>))
       else record_at_chain fuel mem (Suc \<tau>) p t reader allow_write_intent)"

declare try_writer_stable_version.simps [simp del]

section \<open>What concurrent threads do to a tuple\<close>

text \<open>
  The accesses to a tuple a reader may race with: the header operations of \<^verbatim>\<open>lock()\<close>, \<^verbatim>\<open>unlock()\<close> and the
  \<^verbatim>\<open>mark\<close> and \<^verbatim>\<open>clear\<close> functions, the stores of a write, made only after \<^verbatim>\<open>mark_modifying()\<close>, the key a
  logical delete leaves in a deleted tuple, and the version a commit gives to a tuple it inserted. No thread
  stores \<^verbatim>\<open>MAX_TID\<close> as a version, which is reserved for tentative tuples.
\<close>

inductive tuple_step :: "dbtuple \<Rightarrow> dbtuple \<Rightarrow> bool" where
  step_lock: "try_lock wi (hdr x) = Some h \<Longrightarrow> tuple_step x (x\<lparr>hdr := h\<rparr>)"
| step_mark_modifying: "IsLocked (hdr x) \<Longrightarrow> tuple_step x (x\<lparr>hdr := mark_modifying_hdr (hdr x)\<rparr>)"
| step_store: "IsLocked (hdr x) \<Longrightarrow> IsModifying (hdr x) \<Longrightarrow> t \<noteq> MAX_TID \<Longrightarrow>
    tuple_step x (x\<lparr>tversion := t, tsize := n, tnext := q, value_start := bs\<rparr>)"
| step_mark_deleting: "IsLocked (hdr x) \<Longrightarrow> IsModifying (hdr x) \<Longrightarrow>
    tuple_step x (x\<lparr>hdr := mark_deleting_hdr (hdr x)\<rparr>)"
| step_delete_key: "IsLocked (hdr x) \<Longrightarrow> IsDeleting (hdr x) \<Longrightarrow>
    tuple_step x (x\<lparr>tsize := n, value_start := bs\<rparr>)"
| step_publish: "IsLocked (hdr x) \<Longrightarrow> tversion x = MAX_TID \<Longrightarrow> t \<noteq> MAX_TID \<Longrightarrow> tuple_step x (x\<lparr>tversion := t\<rparr>)"
| step_clear_latest: "IsLocked (hdr x) \<Longrightarrow> tuple_step x (x\<lparr>hdr := clear_latest_hdr (hdr x)\<rparr>)"
| step_unlock: "IsLocked (hdr x) \<Longrightarrow> tuple_step x (x\<lparr>hdr := unlock_hdr (hdr x)\<rparr>)"

inductive_cases tuple_stepE: "tuple_step x y"

text \<open>What a reader may depend on: in a deleted tuple neither size nor bytes.\<close>

definition content :: "dbtuple \<Rightarrow> u64 \<times> ptr option \<times> bool \<times> (u16 \<times> bytes) option" where
  "content x = (tversion x, tnext x, IsDeleting (hdr x),
     if IsDeleting (hdr x) then None else Some (tsize x, value_start x))"

definition version_bump :: "dbtuple \<Rightarrow> dbtuple \<Rightarrow> bool" where
  "version_bump x y \<longleftrightarrow> Version (hdr x) \<noteq> Version (hdr y)"

lemma flags_after [simp]:
  "IsModifying (h OR lockmask wi) = IsModifying h" "IsDeleting (h OR lockmask wi) = IsDeleting h"
  "IsModifying (clear_latest_hdr h) = IsModifying h" "IsDeleting (clear_latest_hdr h) = IsDeleting h"
  "IsDeleting (mark_modifying_hdr h) = IsDeleting h" "IsModifying (mark_modifying_hdr h)"
  "IsModifying (mark_deleting_hdr h) = IsModifying h" "IsDeleting (mark_deleting_hdr h)"
  by (simp_all add: hdr_flag_bits hdr_bit_simps)

lemma Version_unlock_neq: "bumps h \<Longrightarrow> Version (unlock_hdr h) \<noteq> Version h"
  using Version_unlock [of h] Version_less [of h]
  by (cases "unat (Version h) + 1 = 2 ^ 27") (auto simp: word_unat_eq_iff)

lemma step_version:
  assumes "tuple_step x y"
  shows "unat (Version (hdr y)) = (unat (Version (hdr x)) + of_bool (version_bump x y)) mod 2 ^ 27"
  using assms
proof (cases rule: tuple_step.cases)
  case step_unlock
  then show ?thesis
    using Version_unlock [of "hdr x"] Version_unlock_neq [of "hdr x"] Version_less [of "hdr x"]
    by (cases "bumps (hdr x)") (auto simp: version_bump_def word_unat_eq_iff)
qed (use Version_less [of "hdr x"] in \<open>auto simp: version_bump_def try_lock_Some\<close>)

lemma step_leaves_modifying:
  assumes "tuple_step x y" and "IsModifying (hdr x)" and "\<not> IsModifying (hdr y)"
  shows "version_bump x y"
  using assms(1)
proof (cases rule: tuple_step.cases)
  case step_unlock
  then show ?thesis
    using Version_unlock_neq [of "hdr x"] assms(2) by (auto simp: version_bump_def bumps_def)
qed (use assms(2,3) in \<open>auto simp: try_lock_Some\<close>)

lemma step_keeps_content:
  assumes "tuple_step x y" and "\<not> IsModifying (hdr x)" and "tversion x \<noteq> MAX_TID"
  shows "content y = content x"
  using assms by (cases rule: tuple_step.cases) (auto simp: content_def try_lock_Some unlock_flags)

lemma step_keeps_published:
  assumes "tuple_step x y" and "tversion x \<noteq> MAX_TID"
  shows "tversion y \<noteq> MAX_TID"
  using assms by (cases rule: tuple_step.cases) auto

section \<open>Consistency of validated reads\<close>

text \<open>
  A history of one tuple, access by access, and the version bumps between two points of it. The loads of a
  reader happen at points of the history, in order, with any number of accesses of other threads between
  two of them.
\<close>

definition tuple_history :: "(nat \<Rightarrow> dbtuple) \<Rightarrow> bool" where
  "tuple_history tr \<longleftrightarrow> (\<forall>i. tr (Suc i) = tr i \<or> tuple_step (tr i) (tr (Suc i)))"

fun version_bumps :: "(nat \<Rightarrow> dbtuple) \<Rightarrow> nat \<Rightarrow> nat \<Rightarrow> nat" where
  "version_bumps tr a 0 = 0"
| "version_bumps tr a (Suc n) = version_bumps tr a n + of_bool (version_bump (tr (a + n)) (tr (a + Suc n)))"

lemma history_version:
  assumes "tuple_history tr"
  shows "unat (Version (hdr (tr (a + n)))) = (unat (Version (hdr (tr a))) + version_bumps tr a n) mod 2 ^ 27"
proof (induction n)
  case 0
  then show ?case using Version_less [of "hdr (tr a)"] by simp
next
  case (Suc n)
  have "unat (Version (hdr y)) = (unat (Version (hdr x)) + of_bool (version_bump x y)) mod 2 ^ 27"
    if "y = x \<or> tuple_step x y" for x y
    using that
  proof
    assume "y = x"
    then show ?thesis using Version_less [of "hdr x"] by (simp add: version_bump_def)
  qed (rule step_version)
  then have "unat (Version (hdr (tr (a + Suc n)))) =
      (unat (Version (hdr (tr (a + n)))) + of_bool (version_bump (tr (a + n)) (tr (a + Suc n)))) mod 2 ^ 27"
    using assms by (simp add: tuple_history_def)
  then show ?case by (simp only: version_bumps.simps Suc.IH mod_add_left_eq add.assoc)
qed

lemma history_unchanged:
  assumes h: "tuple_history tr" and a: "\<not> IsModifying (hdr (tr a))" "tversion (tr a) \<noteq> MAX_TID"
  shows "version_bumps tr a n = 0 \<Longrightarrow> \<not> IsModifying (hdr (tr (a + n))) \<Longrightarrow>
    (\<forall>i \<le> n. \<not> IsModifying (hdr (tr (a + i))) \<and> content (tr (a + i)) = content (tr a))"
proof (induction n)
  case 0
  then show ?case using a by simp
next
  case (Suc n)
  let ?x = "tr (a + n)" and ?y = "tr (a + Suc n)"
  have st: "?y = ?x \<or> tuple_step ?x ?y" using h by (simp add: tuple_history_def)
  have nb: "version_bumps tr a n = 0" "\<not> version_bump ?x ?y" using Suc.prems(1) by simp_all
  have nm: "\<not> IsModifying (hdr ?x)" using st nb(2) step_leaves_modifying Suc.prems(2) by auto
  note IH = Suc.IH [OF nb(1) nm]
  then have "content ?x = content (tr a)" by simp
  moreover from this have "tversion ?x \<noteq> MAX_TID" using a(2) by (simp add: content_def)
  ultimately have "content ?y = content (tr a)" using st nm step_keeps_content by metis
  then show ?case using IH Suc.prems(2) by (auto simp: le_Suc_eq)
qed

lemma history_published:
  assumes "tuple_history tr" and "tversion (tr i) \<noteq> MAX_TID"
  shows "tversion (tr (i + j)) \<noteq> MAX_TID"
proof (induction j)
  case (Suc j)
  have "tr (Suc (i + j)) = tr (i + j) \<or> tuple_step (tr (i + j)) (tr (Suc (i + j)))"
    using assms(1) by (simp add: tuple_history_def)
  then show ?case using Suc.IH step_keeps_published by auto
qed (use assms(2) in simp)

lemma version_bumps_mono: "k \<le> n \<Longrightarrow> version_bumps tr a k \<le> version_bumps tr a n"
  by (rule lift_Suc_mono_le [where f = "version_bumps tr a"]) simp_all

lemma validated_interval:
  assumes h: "tuple_history tr" and a: "\<not> IsModifying (hdr (tr a))" "tversion (tr a) \<noteq> MAX_TID"
    and chk: "reader_check_version (hdr (tr (a + n))) (hdr (tr a))"
    and few: "version_bumps tr a n < 2 ^ 27" and i: "i \<le> n"
  shows "content (tr (a + i)) = content (tr a)"
proof -
  let ?V = "unat (Version (hdr (tr a)))" and ?k = "version_bumps tr a n"
  have "\<not> IsModifying (hdr (tr (a + n)))" and V: "?V = (?V + ?k) mod 2 ^ 27"
    using chk a(1) history_version [OF h, of a n] by (auto simp: reader_check_bits)
  moreover have "?k = 0"
  proof (cases "?V + ?k < 2 ^ 27")
    case True
    then show ?thesis using V by simp
  next
    case False
    have "(?V + ?k) mod 2 ^ 27 = ?V + ?k - 2 ^ 27"
      using False few Version_less [of "hdr (tr a)"] by (simp add: mod_if)
    then show ?thesis using V False few by simp
  qed
  ultimately show ?thesis using history_unchanged [OF h a] i by simp
qed

lemma load_bytes_same:
  "(\<And>j. j < n \<Longrightarrow> mem (\<tau> + j) p = Some (tr j)) \<Longrightarrow> (\<And>j. j < n \<Longrightarrow> value_start (tr j) = bs) \<Longrightarrow>
   load_bytes mem \<tau> p i n = (if i + n \<le> length bs \<or> n = 0 then Inr (take n (drop i bs)) else Inl Past_end)"
proof (induction n arbitrary: \<tau> i tr)
  case 0
  then show ?case by simp
next
  case (Suc n)
  have l: "load mem \<tau> p = Inr (tr 0)" "value_start (tr 0) = bs" using Suc.prems [of 0] by (simp_all add: load_def)
  have "load_bytes mem (Suc \<tau>) p (Suc i) n =
      (if Suc i + n \<le> length bs \<or> n = 0 then Inr (take n (drop (Suc i) bs)) else Inl Past_end)"
    by (rule Suc.IH [where tr = "\<lambda>j. tr (Suc j)"]) (use Suc.prems [of "Suc _"] in simp_all)
  then show ?case
    using l by (auto simp: Cons_nth_drop_Suc [symmetric])
qed

lemma stable_version_result:
  "reader_stable_version fuel mem \<tau> p awi = Inr (Some (v, \<tau>1)) \<Longrightarrow>
   \<exists>a x. \<tau>1 = Suc a \<and> \<tau> \<le> a \<and> mem a p = Some x \<and> v = hdr x \<and> \<not> IsModifying v \<and> (awi \<or> \<not> IsWriteIntent v)"
proof (induction fuel arbitrary: \<tau>)
  case 0
  then show ?case by simp
next
  case (Suc fuel)
  show ?case
  proof (cases "mem \<tau> p")
    case None
    then show ?thesis using Suc.prems by (simp add: load_def)
  next
    case (Some x)
    then show ?thesis
      using Suc.prems Suc.IH [of "Suc \<tau>"] by (fastforce simp: load_def Let_def split: if_splits)
  qed
qed

text \<open>The tuple at \<open>p\<close> stays allocated and \<open>tr\<close> is what it holds over time.\<close>

definition traces :: "memory \<Rightarrow> ptr \<Rightarrow> (nat \<Rightarrow> dbtuple) \<Rightarrow> bool" where
  "traces mem p tr \<longleftrightarrow> (\<forall>i. mem i p = Some (tr i))"

lemma load_traces: "traces mem p tr \<Longrightarrow> load mem i p = Inr (tr i)"
  by (simp add: traces_def load_def)

text \<open>The passes that end without a retry, on a memory where the tuple stays allocated.\<close>

lemma visit_found:
  assumes m: "traces mem p tr" and "is_not_behind (tr \<tau>) t"
    and n: "n = (if IsDeleting v then 0 else unat (tsize (tr (\<tau> + 2))))"
  shows "visit_tuple mem \<tau> p v t reader = Inr (out, \<tau>2) \<and> out \<noteq> Retry \<longleftrightarrow>
    (\<exists>bs. load_bytes mem (\<tau> + 3) p 0 n = Inr bs \<and> (n \<noteq> 0 \<longrightarrow> reader bs \<noteq> None) \<and>
      reader_check_version (hdr (tr (\<tau> + 3 + n))) v \<and> \<tau>2 = \<tau> + 4 + n \<and>
      out = Done (if n \<noteq> 0 then READ_RECORD else READ_EMPTY) (tversion (tr (\<tau> + 1)))
        (if n = 0 then None else reader bs))"
  unfolding visit_tuple_def load_traces [OF m] sbind_simps Let_def n [symmetric] if_P [OF assms(2)]
  by (cases "load_bytes mem (\<tau> + 3) p 0 n") (auto split: if_splits)

lemma visit_behind:
  assumes m: "traces mem p tr" and "\<not> is_not_behind (tr \<tau>) t"
  shows "visit_tuple mem \<tau> p v t reader = Inr (out, \<tau>2) \<and> out \<noteq> Retry \<longleftrightarrow>
    reader_check_version (hdr (tr (\<tau> + 2))) v \<and> \<tau>2 = \<tau> + 3 \<and> out = Follow (tnext (tr (\<tau> + 1)))"
  using assms(2) by (auto simp: visit_tuple_def load_traces [OF m] split: if_splits)

lemma visit_end:
  assumes v: "visit_tuple mem \<tau> p v t reader = Inr (out, \<tau>2) \<and> out \<noteq> Retry"
    and m: "traces mem p tr"
  shows "\<exists>n. \<tau>2 = \<tau> + Suc n \<and> reader_check_version (hdr (tr (\<tau> + n))) v"
proof (cases "is_not_behind (tr \<tau>) t")
  case True
  show ?thesis
    using v unfolding visit_found [OF m True refl]
    by (auto intro!: exI [of _ "3 + (if IsDeleting v then 0 else unat (tsize (tr (\<tau> + 2))))"] simp: add.assoc)
next
  case False
  show ?thesis using v unfolding visit_behind [OF m False] by (auto intro!: exI [of _ 2])
qed

lemma visit_same:
  assumes vis: "visit_tuple mem \<tau> p v t reader = Inr (out, \<tau>2) \<and> out \<noteq> Retry"
    and m: "traces mem p tr" and v: "v = hdr x"
    and same: "\<And>i. \<tau> \<le> i \<Longrightarrow> i < \<tau>2 \<Longrightarrow> content (tr i) = content x"
  shows "visit_tuple (\<lambda>_. [p \<mapsto> x]) \<tau> p v t reader = Inr (out, \<tau>2) \<and> out \<noteq> Retry"
proof -
  let ?M = "\<lambda>_ :: nat. [p \<mapsto> x]"
  have m': "traces ?M p (\<lambda>_. x)" by (simp add: traces_def)
  have chk: "reader_check_version (hdr x) v" by (simp add: v reader_check_version_def)
  obtain n where n: "\<tau>2 = \<tau> + Suc n" using visit_end [OF vis m] by blast
  have c0: "tversion (tr \<tau>) = tversion x" using same [of \<tau>] n by (simp add: content_def)
  show ?thesis
  proof (cases "is_not_behind x t")
    case True
    then have f: "is_not_behind (tr \<tau>) t" using c0 by (simp add: is_not_behind_def)
    define k where "k = (if IsDeleting v then 0 else unat (tsize (tr (\<tau> + 2))))"
    note V = vis [unfolded visit_found [OF m f k_def]]
    have c: "content (tr (\<tau> + i)) = content x" if "i < 4 + k" for i
      using same [of "\<tau> + i"] that V by auto
    have start: "tversion (tr (\<tau> + 1)) = tversion x" using c [of 1] by (simp add: content_def)
    have k': "k = (if IsDeleting v then 0 else unat (tsize x))"
      using c [of 2] v by (auto simp: content_def k_def split: if_splits)
    have val: "value_start (tr (\<tau> + (3 + i))) = value_start x" if "i < k" for i
      using c [of "3 + i"] that v by (auto simp: content_def k_def split: if_splits)
    have "load_bytes mem (\<tau> + 3) p 0 k =
        (if 0 + k \<le> length (value_start x) \<or> k = 0 then Inr (take k (drop 0 (value_start x))) else Inl Past_end)"
      by (rule load_bytes_same [where tr = "\<lambda>j. tr (\<tau> + (3 + j))"]) (use m val in \<open>simp_all add: traces_def add.assoc\<close>)
    moreover have "load_bytes ?M (\<tau> + 3) p 0 k =
        (if 0 + k \<le> length (value_start x) \<or> k = 0 then Inr (take k (drop 0 (value_start x))) else Inl Past_end)"
      by (rule load_bytes_same [where tr = "\<lambda>_. x"]) simp_all
    ultimately have "load_bytes mem (\<tau> + 3) p 0 k = load_bytes ?M (\<tau> + 3) p 0 k" by simp
    then show ?thesis unfolding visit_found [OF m' True k'] using V chk start by auto
  next
    case False
    then have f: "\<not> is_not_behind (tr \<tau>) t" using c0 by (simp add: is_not_behind_def)
    note V = vis [unfolded visit_behind [OF m f]]
    have "tnext (tr (\<tau> + 1)) = tnext x" using same [of "\<tau> + 1"] V by (simp add: content_def)
    then show ?thesis unfolding visit_behind [OF m' False] using V chk by simp
  qed
qed

text \<open>
  Property C4 (validated reads are consistent). Let \<open>h\<close> be the history of the tuple, one access of some thread after
  another, and let the \<open>i\<close>th load of the reader see the tuple as it is at the point \<open>obs i\<close> of the history, where \<open>obs\<close> is any
  monotone function: between two loads other threads make as many accesses as they like. Let the tuple have been
  published when the reader found its version different from \<^verbatim>\<open>MAX_TID\<close> (the check of \<^verbatim>\<open>stable_read\<close>, at the load \<open>\<tau>0\<close>), and let fewer
  than \<open>2\<^sup>2\<^sup>7\<close> version bumps, the period of the counter, happen while the pass runs. If the pass obtains a stable version and
  ends without a retry, then its outcome (status, id, the bytes given to the reader, or the next tuple to
  visit) is exactly what the pass gives on the tuple as it was at the point where the stable version was
  loaded, although the version, the size, each byte and the next pointer were loaded at different points.
\<close>

theorem validated_read_consistent:
  assumes h: "tuple_history h" and obs: "mono obs" and m: "traces mem p (\<lambda>i. h (obs i))"
    and pub: "tversion (h (obs \<tau>0)) \<noteq> MAX_TID" "\<tau>0 \<le> \<tau>"
    and st: "reader_stable_version fuel mem \<tau> p awi = Inr (Some (v, Suc a))"
    and vis: "visit_tuple mem (Suc a) p v t reader = Inr (out, \<tau>2)" "out \<noteq> Retry"
    and few: "version_bumps h (obs a) (obs \<tau>2 - obs a) < 2 ^ 27"
  shows "visit_tuple (\<lambda>_. [p \<mapsto> h (obs a)]) (Suc a) p v t reader = Inr (out, \<tau>2)"
proof -
  let ?x = "h (obs a)"
  have v: "v = hdr ?x" "\<not> IsModifying (hdr ?x)" and \<tau>: "\<tau> \<le> a"
    using stable_version_result [OF st] m by (auto simp: traces_def)
  have "obs \<tau>0 \<le> obs a" using pub(2) \<tau> obs by (simp add: monoD)
  then have x: "tversion ?x \<noteq> MAX_TID" using history_published [OF h pub(1), of "obs a - obs \<tau>0"] by simp
  obtain n where n: "\<tau>2 = Suc a + Suc n" "reader_check_version (hdr (h (obs (Suc a + n)))) v"
    using visit_end [OF conjI [OF vis] m] by blast
  define d where "d = obs (Suc a + n) - obs a"
  have le: "obs a \<le> obs i" "obs i \<le> obs (Suc a + n)" if "a \<le> i" "i \<le> Suc a + n" for i
    using that obs by (simp_all add: monoD)
  have "obs (Suc a + n) \<le> obs \<tau>2" using n(1) obs by (simp add: monoD)
  then have "d \<le> obs \<tau>2 - obs a" by (simp add: d_def)
  then have "version_bumps h (obs a) d < 2 ^ 27" by (rule le_less_trans [OF version_bumps_mono few])
  moreover have "reader_check_version (hdr (h (obs a + d))) (hdr ?x)"
    using n(2) v(1) le [of "Suc a + n"] by (simp add: d_def)
  ultimately have "content (h (obs i)) = content ?x" if "Suc a \<le> i" "i < \<tau>2" for i
    using validated_interval [OF h v(2) x, of d "obs i - obs a"] le [of i] that n(1) by (simp add: d_def)
  then have "visit_tuple (\<lambda>_. [p \<mapsto> ?x]) (Suc a) p v t reader = Inr (out, \<tau>2) \<and> out \<noteq> Retry"
    by (rule visit_same [OF conjI [OF vis] m v(1)])
  then show ?thesis ..
qed

text \<open>In the witness other threads lock and unlock the tuple, three accesses between two loads.\<close>

theorem validated_read_consistent_witness:
  "\<exists>x. visit_tuple (\<lambda>_. [0 \<mapsto> x]) 1 0 16 9 Some = Inr (Done READ_RECORD 5 (Some [7]), 6)"
proof -
  let ?x = "\<lparr>hdr = 16, tversion = 5, tsize = 1, alloc_size = 8, tnext = None,
    value_start = [7, 0, 0, 0, 0, 0, 0, 0]\<rparr>"
  let ?y = "?x\<lparr>hdr := hdr ?x OR lockmask False\<rparr>"
  define h where "h i = (if even i then ?x else ?y)" for i :: nat
  define mem :: memory where "mem i = [0 \<mapsto> h (3 * i)]" for i
  have m: "traces mem 0 (\<lambda>i. h (3 * i))" by (simp add: traces_def mem_def)
  have lk: "IsLocked (16 OR lockmask False)" "\<not> IsModifying (16 OR lockmask False)" "unlock_hdr (16 OR lockmask False) = 16"
    by code_simp+
  have h: "tuple_history h"
    unfolding tuple_history_def
  proof
    fix i
    have "tuple_step ?x ?y"
      by (rule step_lock) (simp add: try_lock_def IsLocked_def HDR_LOCKED_MASK_def)
    moreover have "tuple_step ?y ?x"
      using step_unlock [of ?y] lk by simp
    ultimately show "h (Suc i) = h i \<or> tuple_step (h i) (h (Suc i))"
      by (cases "even i") (simp_all add: h_def)
  qed
  have flags: "\<not> IsModifying 16" "\<not> IsWriteIntent 16" "\<not> IsDeleting 16" by code_simp+
  have chk: "reader_check_version (16 OR lockmask False) 16"
    by (simp add: reader_check_bits)
  have st: "reader_stable_version 1 mem 0 0 False = Inr (Some (16, Suc 0))"
    using flags by (simp add: load_traces [OF m] h_def)
  have vis: "visit_tuple mem (Suc 0) 0 16 9 Some = Inr (Done READ_RECORD 5 (Some [7]), 6)"
    using flags chk by (simp add: visit_tuple_def load_traces [OF m] h_def is_not_behind_def reader_check_version_def)
  have "version_bumps h 0 n = 0" for n
    by (induction n) (simp_all add: version_bump_def h_def)
  then have few: "version_bumps h (3 * 0) (3 * 6 - 3 * 0) < 2 ^ 27" by simp
  have "visit_tuple (\<lambda>_. [0 \<mapsto> h (3 * 0)]) (Suc 0) 0 16 9 Some = Inr (Done READ_RECORD 5 (Some [7]), 6)"
    by (rule validated_read_consistent [OF h _ m _ _ st vis _ few])
      (simp_all add: h_def MAX_TID_def mono_def)
  then show ?thesis by (intro exI [of _ "h 0"]) simp
qed

section \<open>Version chains\<close>

text \<open>The addresses from \<open>q\<close> on along the next pointers.\<close>

fun chain :: "(ptr \<Rightarrow> dbtuple option) \<Rightarrow> ptr option \<Rightarrow> ptr list \<Rightarrow> bool" where
  "chain M q [] \<longleftrightarrow> q = None"
| "chain M q (p # ps) \<longleftrightarrow> q = Some p \<and> (\<exists>x. M p = Some x \<and> chain M (tnext x) ps)"

definition tuple_value :: "dbtuple \<Rightarrow> bytes option" where
  "tuple_value x =
     (let n = (if IsDeleting (hdr x) then 0 else unat (tsize x))
      in if n = 0 then None else Some (take n (value_start x)))"

text \<open>The versions a chain stands for, and what a snapshot at \<open>t\<close> sees of them.\<close>

definition versions :: "(ptr \<Rightarrow> dbtuple option) \<Rightarrow> ptr list \<Rightarrow> (u64 \<times> bytes option) list" where
  "versions M ps = map (\<lambda>p. case M p of None \<Rightarrow> (MIN_TID, None) | Some x \<Rightarrow> (tversion x, tuple_value x)) ps"

fun snapshot_of :: "(u64 \<times> bytes option) list \<Rightarrow> u64 \<Rightarrow> u64 \<times> bytes option" where
  "snapshot_of [] t = (MIN_TID, None)"
| "snapshot_of ((w, v) # vs) t = (if w \<le> t then (w, v) else snapshot_of vs t)"

definition tuple_wf :: "dbtuple \<Rightarrow> bool" where
  "tuple_wf x \<longleftrightarrow> length (value_start x) = unat (alloc_size x) \<and>
     (IsDeleting (hdr x) \<or> unat (tsize x) \<le> unat (alloc_size x))"

definition readable :: "bool \<Rightarrow> dbtuple \<Rightarrow> bool" where
  "readable awi x \<longleftrightarrow> tuple_wf x \<and> \<not> IsModifying (hdr x) \<and> (awi \<or> \<not> IsWriteIntent (hdr x))"

lemma visit_frozen:
  assumes M: "M p = Some x" and x: "tuple_wf x" and r: "\<And>bs. reader bs \<noteq> None"
  shows "visit_tuple (\<lambda>_. M) \<tau> p (hdr x) t reader =
    (if tversion x \<le> t
     then case tuple_value x of
            None \<Rightarrow> Inr (Done READ_EMPTY (tversion x) None, \<tau> + 4)
          | Some bs \<Rightarrow> Inr (Done READ_RECORD (tversion x) (reader bs), \<tau> + 4 + length bs)
     else Inr (Follow (tnext x), \<tau> + 3))"
proof -
  have m: "traces (\<lambda>_. M) p (\<lambda>_. x)" by (simp add: traces_def M)
  have chk: "reader_check_version (hdr x) (hdr x)" by (simp add: reader_check_version_def)
  define n where "n = (if IsDeleting (hdr x) then 0 else unat (tsize x))"
  have len: "n \<le> length (value_start x)" using x by (auto simp: tuple_wf_def n_def)
  have lb: "load_bytes (\<lambda>_. M) i p 0 n = Inr (take n (value_start x))" for i
    using load_bytes_same [of n "\<lambda>_. M" i p "\<lambda>_. x" "value_start x" 0] len M by simp
  have tv: "tuple_value x = (if n = 0 then None else Some (take n (value_start x)))"
    by (simp add: tuple_value_def n_def Let_def)
  show ?thesis
    unfolding visit_tuple_def load_traces [OF m] sbind_simps Let_def n_def [symmetric] lb
    using chk r [of "take n (value_start x)"] len by (auto simp: is_not_behind_def tv)
qed

lemma record_at_chain_frozen:
  assumes "chain M (Some p) ps" and "\<And>q x. q \<in> set ps \<Longrightarrow> M q = Some x \<Longrightarrow> readable awi x"
    and r: "\<And>bs. reader bs \<noteq> None" and "length ps \<le> fuel"
  shows "\<exists>\<tau>'. record_at_chain fuel (\<lambda>_. M) \<tau> p t reader awi =
    (case snapshot_of (versions M ps) t of (w, v) \<Rightarrow>
       Inr (Some (case v of None \<Rightarrow> READ_EMPTY | Some _ \<Rightarrow> READ_RECORD, w, Option.bind v reader, \<tau>')))"
  using assms(1,2,4)
proof (induction ps arbitrary: p fuel \<tau>)
  case Nil
  then show ?case by simp
next
  case (Cons p' ps)
  have "p' = p \<and> (\<exists>x. M p' = Some x \<and> chain M (tnext x) ps)" using Cons.prems(1) by simp
  then obtain x where x: "M p = Some x" "p' = p" and tl: "chain M (tnext x) ps" by blast
  have rd: "readable awi x" using Cons.prems(2) [of p x] x by simp
  obtain f where f: "fuel = Suc f" "length ps \<le> f" using Cons.prems(3) by (cases fuel) auto
  have st: "reader_stable_version (Suc f) (\<lambda>_. M) \<tau> p awi = Inr (Some (hdr x, Suc \<tau>))"
    using rd x by (auto simp: load_def readable_def Let_def)
  note vis = visit_frozen [of M p x reader, OF x(1) _ r]
  have wf: "tuple_wf x" using rd by (simp add: readable_def)
  show ?case
  proof (cases "tversion x \<le> t")
    case True
    then show ?thesis
      using st vis [OF wf, of "Suc \<tau>" t] x
      by (cases "tuple_value x") (simp_all add: f versions_def)
  next
    case False
    show ?thesis
    proof (cases "tnext x")
      case None
      then have "ps = []" using tl by (cases ps) auto
      then show ?thesis
        using False None st vis [OF wf, of "Suc \<tau>" t] x by (simp add: f versions_def)
    next
      case (Some q)
      have "\<exists>\<tau>'. record_at_chain f (\<lambda>_. M) (Suc \<tau> + 3) q t reader awi =
        (case snapshot_of (versions M ps) t of (w, v) \<Rightarrow>
           Inr (Some (case v of None \<Rightarrow> READ_EMPTY | Some _ \<Rightarrow> READ_RECORD, w, Option.bind v reader, \<tau>')))"
        by (rule Cons.IH) (use tl Some Cons.prems(2) f in auto)
      then show ?thesis
        using False Some st vis [OF wf, of "Suc \<tau>" t] x by (simp add: f versions_def)
    qed
  qed
qed

end
