(* ===== verification/Tuple_Write.thy ===== *)
theory Tuple_Write
  imports Tuple
begin

text \<open>
  Writing a record (\<^verbatim>\<open>write_record_at\<close> in \<^verbatim>\<open>src/src/tuple.h\<close>): in place, or into a new head of the version
  chain. The caller's \<^verbatim>\<open>tuple_writer_t\<close> callback is a record of its modes; its contract is a locale.
\<close>

section \<open>Writers\<close>

text \<open>
  One field per mode. \<open>w_needed\<close> and \<open>w_write\<close> get the bytes at the pointer and the size of the old record
  there; a write returns the bytes that lie there afterwards.
\<close>

record 'v tuple_writer =
  w_needs_old :: bool
  w_needed :: "'v \<Rightarrow> bytes \<Rightarrow> nat \<Rightarrow> mem_error + nat"
  w_delta_needed :: "'v \<Rightarrow> nat"
  w_write :: "'v \<Rightarrow> bytes \<Rightarrow> nat \<Rightarrow> mem_error + bytes"
  w_delta_write :: "'v \<Rightarrow> bytes \<Rightarrow> nat \<Rightarrow> mem_error + bytes"

text \<open>
  \<open>updates u old new\<close>: the record \<open>new\<close> is the update \<open>u\<close> of the record \<open>old\<close> (empty: absent), \<open>new_size u old\<close>
  its length; \<open>ok u old\<close> says that the update makes sense there, \<open>fits u old n\<close> that it can be carried out in
  a buffer of \<open>n\<close> bytes.
\<close>

locale tuple_writer_contract =
  fixes W :: "'v tuple_writer" and updates :: "'v \<Rightarrow> bytes \<Rightarrow> bytes \<Rightarrow> bool"
    and new_size :: "'v \<Rightarrow> bytes \<Rightarrow> nat"
    and ok :: "'v \<Rightarrow> bytes \<Rightarrow> bool" and fits :: "'v \<Rightarrow> bytes \<Rightarrow> nat \<Rightarrow> bool"
  assumes needed: "ok u old \<Longrightarrow> length old \<le> length buf \<Longrightarrow> take (length old) buf = old \<Longrightarrow>
      w_needed W u buf (length old) = Inr (new_size u old)"
    and nonempty: "ok u old \<Longrightarrow> 0 < new_size u old"
    and update: "ok u old \<Longrightarrow> fits u old (length buf) \<Longrightarrow>
      (w_needs_old W \<Longrightarrow> length old \<le> length buf \<and> take (length old) buf = old) \<Longrightarrow>
      new_size u old \<le> length buf \<Longrightarrow>
      \<exists>buf'. w_write W u buf (length old) = Inr buf' \<and> length buf' = length buf \<and>
        updates u old (take (new_size u old) buf')"

text \<open>\<^verbatim>\<open>txn_btree_::tuple_writer\<close>: the value is a string that replaces the record.\<close>

definition string_writer :: "bytes tuple_writer" where
  "string_writer =
     \<lparr>w_needs_old = False,
      w_needed = (\<lambda>v p sz. Inr (length v)),
      w_delta_needed = length,
      w_write = (\<lambda>v p sz. mem_copy v (length v) p),
      w_delta_write = (\<lambda>v p sz. mem_copy v (length v) p)\<rparr>"

interpretation string_writer: tuple_writer_contract string_writer
  "\<lambda>v _ new. new = v" "\<lambda>v _. length v" "\<lambda>v _. v \<noteq> []" "\<lambda>_ _ _. True"
  by unfold_locales (auto simp: string_writer_def mem_copy_def write_at_def)

section \<open>Writing a record\<close>

record write_record_ret =
  head_tuple :: ptr
  rest_tuple :: "ptr option"
  forced_spill :: bool

definition writer_needed :: "'v tuple_writer \<Rightarrow> 'v option \<Rightarrow> dbtuple \<Rightarrow> mem_error + nat" where
  "writer_needed W v x =
     (case v of None \<Rightarrow> Inr 0 | Some u \<Rightarrow> w_needed W u (value_start x) (unat (tsize x)))"

definition writer_write :: "'v tuple_writer \<Rightarrow> 'v option \<Rightarrow> bytes \<Rightarrow> nat \<Rightarrow> mem_error + bytes" where
  "writer_write W v buf sz = (case v of None \<Rightarrow> Inr buf | Some u \<Rightarrow> w_write W u buf sz)"

definition written_hdr :: "nat \<Rightarrow> u32 \<Rightarrow> u32" where
  "written_hdr new_sz h = (let h1 = mark_modifying_hdr h in if new_sz = 0 then mark_deleting_hdr h1 else h1)"

definition write_record_at ::
  "'v tuple_writer \<Rightarrow> heap \<Rightarrow> ptr \<Rightarrow> u64 \<Rightarrow> 'v option \<Rightarrow> mem_error + (write_record_ret \<times> heap)" where
  "write_record_at W H this t v =
     sbind (tuple_at H this) (\<lambda>x.
     sbind (writer_needed W v x) (\<lambda>new_sz.
     let old_sz = (if IsDeleting (hdr x) then 0 else unat (tsize x))
     in if can_overwrite_record_tid (tversion x) t \<and> old_sz \<noteq> 0
        then
          if new_sz \<le> unat (alloc_size x)
          then sbind (writer_write W v (value_start x) old_sz) (\<lambda>buf.
                 Inr (\<lparr>head_tuple = this, rest_tuple = None, forced_spill = False\<rparr>,
                      tuple_put this (x\<lparr>hdr := written_hdr new_sz (hdr x), value_start := buf,
                        tversion := t, tsize := of_nat new_sz\<rparr>) H))
          else
            sbind (alloc_spill t (value_start x) old_sz new_sz this True (w_needs_old W) H) (\<lambda>(rep, H1).
            sbind (tuple_at H1 rep) (\<lambda>y.
            sbind (writer_write W v (value_start y) old_sz) (\<lambda>buf.
              Inr (\<lparr>head_tuple = rep, rest_tuple = Some this, forced_spill = False\<rparr>,
                   tuple_put this (x\<lparr>hdr := clear_latest_hdr (hdr x)\<rparr>)
                     (tuple_put rep (y\<lparr>value_start := buf\<rparr>) H1)))))
        else if new_sz \<le> unat (alloc_size x) \<and> old_sz \<noteq> 0
        then
          sbind (alloc_copy (tversion x) x False H) (\<lambda>(spill, H1).
          sbind (writer_write W v (value_start x) (unat (tsize x))) (\<lambda>buf.
            Inr (\<lparr>head_tuple = this, rest_tuple = Some spill, forced_spill = True\<rparr>,
                 tuple_put this (x\<lparr>hdr := written_hdr new_sz (hdr x), tnext := Some spill,
                   value_start := buf, tversion := t, tsize := of_nat new_sz\<rparr>) H1)))
        else
          sbind (alloc_spill t (value_start x) old_sz new_sz this True (w_needs_old W) H) (\<lambda>(rep, H1).
          sbind (tuple_at H1 rep) (\<lambda>y.
          sbind (writer_write W v (value_start y) (unat (tsize x))) (\<lambda>buf.
            Inr (\<lparr>head_tuple = rep, rest_tuple = Some this, forced_spill = True\<rparr>,
                 tuple_put this (x\<lparr>hdr := clear_latest_hdr (hdr x)\<rparr>)
                   (tuple_put rep (y\<lparr>value_start := buf\<rparr>) H1)))))))"

section \<open>Heaps and chains\<close>

definition heap_ok :: "heap \<Rightarrow> bool" where
  "heap_ok H \<longleftrightarrow> (\<forall>p. brk H \<le> p \<longrightarrow> cells H p = None)"

lemma chain_cong: "(\<And>p. p \<in> set ps \<Longrightarrow> M' p = M p) \<Longrightarrow> chain M' q ps = chain M q ps"
  by (induction ps arbitrary: q) auto

lemma versions_cong: "(\<And>p. p \<in> set ps \<Longrightarrow> M' p = M p) \<Longrightarrow> versions M' ps = versions M ps"
  by (simp add: versions_def)

lemma chain_unique: "chain M q ps \<Longrightarrow> chain M q ps' \<Longrightarrow> ps = ps'"
proof (induction ps arbitrary: q ps')
  case Nil
  then show ?case by (cases ps') auto
next
  case (Cons p ps)
  then show ?case by (cases ps') auto
qed

lemma chain_suffix: "chain M q (us @ p # ws) \<Longrightarrow> chain M (Some p) (p # ws)"
  by (induction us arbitrary: q) auto

lemma chain_distinct: "chain M q ps \<Longrightarrow> distinct ps"
proof (induction ps arbitrary: q)
  case Nil
  then show ?case by simp
next
  case (Cons p ps)
  have "p \<notin> set ps"
  proof
    assume "p \<in> set ps"
    then obtain us ws where ps: "ps = us @ p # ws" by (meson split_list)
    then have "chain M (Some p) (p # ws)" using Cons.prems chain_suffix [of M q "p # us"] by simp
    moreover have "chain M (Some p) (p # ps)" using Cons.prems by auto
    ultimately have "p # ps = p # ws" by (rule chain_unique [rotated])
    then show False using ps by simp
  qed
  then show ?case using Cons by auto
qed

lemma chain_allocated: "chain M q ps \<Longrightarrow> p \<in> set ps \<Longrightarrow> M p \<noteq> None"
  by (induction ps arbitrary: q) auto

lemma chain_below_brk: "heap_ok H \<Longrightarrow> chain (cells H) q ps \<Longrightarrow> p \<in> set ps \<Longrightarrow> p < brk H"
  using chain_allocated [of "cells H" q ps p] by (auto simp: heap_ok_def not_less [symmetric])

section \<open>Allocation sizes\<close>

lemma round_up_16: "m \<le> 65600 \<Longrightarrow> unat (round_up 4 (of_nat m)) = (m + 15) div 16 * 16"
proof -
  assume m: "m \<le> 65600"
  have "(push_bit 4 1 - 1 :: u64) = mask 4" by (simp add: mask_eq_exp_minus_1)
  then have "round_up 4 (of_nat m) = (of_nat m + mask 4) AND NOT (mask 4)"
    by (simp only: round_up_def)
  also have "(of_nat m + mask 4 :: u64) = of_nat (m + 15)" by (simp add: mask_eq_exp_minus_1)
  also have "(of_nat (m + 15) :: u64) AND NOT (mask 4) = push_bit 4 (drop_bit 4 (of_nat (m + 15)))"
    by (rule bit_word_eqI) (auto simp: bit_simps)
  also have "unat (push_bit 4 (drop_bit 4 (of_nat (m + 15) :: u64))) = (m + 15) div 16 * 16"
  proof -
    have u: "unat (of_nat (m + 15) :: u64) = m + 15" by (rule unat_of_nat_small) (use m in simp)
    have d: "unat (drop_bit 4 (of_nat (m + 15) :: u64)) = (m + 15) div 16"
      by (simp only: unat_drop_bit u) simp
    have "(m + 15) div 16 * 16 < 2 ^ 64" using m by (simp add: less_le_trans div_le_mono)
    then show ?thesis by (simp only: push_bit_eq_mult unat_word_ariths d) (simp add: mult.commute)
  qed
  finally show ?thesis .
qed

lemma alloc_sz_room:
  assumes "n \<le> 65535"
  shows "n \<le> alloc_sz n - sizeof_dbtuple" and "alloc_sz n - sizeof_dbtuple \<le> 65535"
proof -
  have r: "unat (round_up 4 (of_nat (24 + n))) = (24 + n + 15) div 16 * 16"
    by (rule round_up_16) (use assms in simp)
  have "24 + n \<le> (24 + n + 15) div 16 * 16" by presburger
  then have "24 + n \<le> alloc_sz n" using assms
    by (simp only: alloc_sz_def sizeof_dbtuple_def LgAllocAlignment_def max_node_size_def r) simp
  then show "n \<le> alloc_sz n - sizeof_dbtuple" by (simp add: sizeof_dbtuple_def)
  show "alloc_sz n - sizeof_dbtuple \<le> 65535"
    by (simp add: alloc_sz_def max_node_size_def)
qed

section \<open>Effect of a write on the chain\<close>

definition old_record :: "dbtuple \<Rightarrow> bytes" where
  "old_record x = take (unat (tsize x)) (value_start x)"

definition buffer_ok :: "dbtuple \<Rightarrow> bool" where
  "buffer_ok x \<longleftrightarrow> length (value_start x) = unat (alloc_size x) \<and> unat (tsize x) \<le> unat (alloc_size x)"

lemma written_flags:
  "IsDeleting (written_hdr n h) \<longleftrightarrow> IsDeleting h \<or> n = 0"
  by (simp add: written_hdr_def Let_def)

lemma tuple_value_written:
  assumes "\<not> IsDeleting h" and "n \<le> 65535" and "take n buf = new" and "length new = n"
  shows "tuple_value \<lparr>hdr = written_hdr n h, tversion = t, tsize = of_nat n, alloc_size = a, tnext = q, value_start = buf\<rparr> =
    (if n = 0 then None else Some new)"
proof -
  have u: "unat (of_nat n :: u16) = n" using assms(2) by (intro unat_of_nat_small) simp
  show ?thesis unfolding tuple_value_def using assms(1,3) by (simp add: written_flags u Let_def)
qed

lemma tuple_value_clear_latest: "tuple_value (x\<lparr>hdr := clear_latest_hdr (hdr x)\<rparr>) = tuple_value x"
  by (simp add: tuple_value_def Let_def)

lemma heap_new_cells:
  "cells (snd (heap_new x H)) = (cells H)(brk H \<mapsto> x)" "fst (heap_new x H) = brk H"
  by (simp_all add: heap_new_def)

text \<open>
  The spilled head: linked to the old tuple, with the announced size, its buffer large enough and, when
  asked for, starting with the old value.
\<close>

lemma alloc_spill_result:
  assumes "oldsz \<le> length r" and "oldsz \<le> 65535" and "newsz \<le> 65535"
  shows "\<exists>y. alloc_spill ver r oldsz newsz nxt sl copy H = Inr (brk H, H\<lparr>cells := (cells H)(brk H \<mapsto> y), brk := Suc (brk H)\<rparr>) \<and>
    tversion y = ver \<and> tsize y = of_nat newsz \<and> tnext y = Some nxt \<and> IsDeleting (hdr y) = (newsz = 0) \<and>
    length (value_start y) = alloc_sz (if copy then max newsz oldsz else newsz) - sizeof_dbtuple \<and>
    newsz \<le> length (value_start y) \<and>
    (copy \<longrightarrow> oldsz \<le> length (value_start y) \<and> take oldsz (value_start y) = take oldsz r)"
proof -
  define m where "m = (if copy then max newsz oldsz else newsz)"
  have m: "m \<le> alloc_sz m - sizeof_dbtuple" using assms by (intro alloc_sz_room(1)) (simp add: m_def)
  define n where "n = alloc_sz m - sizeof_dbtuple"
  define bs where "bs = (if copy then write_at 0 (take oldsz r) (fresh_bytes H n) else fresh_bytes H n)"
  have old: "copy \<longrightarrow> oldsz \<le> n" using m by (auto simp: m_def n_def split: if_splits)
  have new: "newsz \<le> n" using m by (auto simp: m_def n_def split: if_splits)
  have lf: "length (fresh_bytes H n) = n" by (simp add: fresh_bytes_def)
  have lb: "length bs = n" using old assms(1) lf by (auto simp: bs_def length_write_at)
  have cp: "(if copy then mem_copy r oldsz (fresh_bytes H n) else Inr (fresh_bytes H n)) = Inr bs"
    using old assms(1) lf by (auto simp: mem_copy_def bs_def)
  have flag: "IsDeleting ((if sl then HDR_LATEST_MASK else 0) OR (if newsz = 0 then HDR_DELETING_MASK else 0)) = (newsz = 0)"
    by (simp add: hdr_flag_bits bit_or_iff hdr_bit_simps)
  define y where "y = \<lparr>hdr = (if sl then HDR_LATEST_MASK else 0) OR (if newsz = 0 then HDR_DELETING_MASK else 0),
    tversion = ver, tsize = of_nat newsz, alloc_size = of_nat n, tnext = Some nxt, value_start = bs\<rparr>"
  have "alloc_spill ver r oldsz newsz nxt sl copy H =
      Inr (brk H, H\<lparr>cells := (cells H)(brk H \<mapsto> y), brk := Suc (brk H)\<rparr>)"
    unfolding alloc_spill_def Let_def m_def [symmetric] n_def [symmetric] cp sbind_simps heap_new_def y_def ..
  moreover have "copy \<longrightarrow> take oldsz bs = take oldsz r"
    using assms(1) by (auto simp: bs_def write_at_def)
  ultimately show ?thesis
    using lb new old flag by (intro exI [of _ y]) (simp add: y_def m_def [symmetric] n_def [symmetric])
qed

lemma alloc_copy_result:
  assumes "buffer_ok x" and "\<not> IsDeleting (hdr x)"
  shows "\<exists>y. alloc_copy (tversion x) x False H = Inr (brk H, H\<lparr>cells := (cells H)(brk H \<mapsto> y), brk := Suc (brk H)\<rparr>) \<and>
    tversion y = tversion x \<and> tnext y = tnext x \<and> tuple_value y = tuple_value x"
proof -
  let ?s = "unat (tsize x)"
  have s: "?s \<le> length (value_start x)" using assms(1) by (simp add: buffer_ok_def)
  have "?s < 2 ^ 16" using unsigned_less [of "tsize x", where ?'a = nat] by simp
  then have n: "?s \<le> alloc_sz ?s - sizeof_dbtuple" by (intro alloc_sz_room(1)) simp
  define n where "n = alloc_sz ?s - sizeof_dbtuple"
  have lf: "length (fresh_bytes H n) = n" by (simp add: fresh_bytes_def)
  have cp: "mem_copy (value_start x) ?s (fresh_bytes H n) =
      Inr (write_at 0 (take ?s (value_start x)) (fresh_bytes H n))"
    using s n lf by (simp add: mem_copy_def n_def)
  define y where "y = \<lparr>hdr = 0, tversion = tversion x, tsize = tsize x, alloc_size = of_nat n, tnext = tnext x,
    value_start = write_at 0 (take ?s (value_start x)) (fresh_bytes H n)\<rparr>"
  have "alloc_copy (tversion x) x False H = Inr (brk H, H\<lparr>cells := (cells H)(brk H \<mapsto> y), brk := Suc (brk H)\<rparr>)"
    unfolding alloc_copy_def Let_def n_def [symmetric] cp sbind_simps heap_new_def y_def
    using assms(2) by simp
  moreover have "tuple_value y = tuple_value x"
    using assms(2) s by (simp add: y_def tuple_value_def write_at_def Let_def hdr_flag_bits)
  ultimately show ?thesis by (auto simp: y_def)
qed

text \<open>The bytes a record of \<open>n\<close> bytes is written into: the tuple's own buffer or that of a spilled tuple.\<close>

definition old_size :: "dbtuple \<Rightarrow> nat" where
  "old_size x = (if IsDeleting (hdr x) then 0 else unat (tsize x))"

definition write_room :: "bool \<Rightarrow> nat \<Rightarrow> dbtuple \<Rightarrow> nat" where
  "write_room needs_old n x =
     (if n \<le> unat (alloc_size x) \<and> old_size x \<noteq> 0 then unat (alloc_size x)
      else alloc_sz (if needs_old then max n (old_size x) else n) - sizeof_dbtuple)"

context tuple_writer_contract
begin

text \<open>The value to be written and the requirements of the writer for it.\<close>

definition new_len :: "'v option \<Rightarrow> dbtuple \<Rightarrow> nat" where
  "new_len v x = (case v of None \<Rightarrow> 0 | Some u \<Rightarrow> new_size u (old_record x))"

definition valid_new :: "'v option \<Rightarrow> dbtuple \<Rightarrow> bytes option \<Rightarrow> bool" where
  "valid_new v x val \<longleftrightarrow>
     (case v of None \<Rightarrow> val = None | Some u \<Rightarrow> (\<exists>new. val = Some new \<and> updates u (old_record x) new))"

definition applicable :: "'v option \<Rightarrow> dbtuple \<Rightarrow> bool" where
  "applicable v x \<longleftrightarrow> buffer_ok x \<and> (IsDeleting (hdr x) \<longrightarrow> tsize x = 0 \<or> \<not> w_needs_old W) \<and>
     new_len v x \<le> 65535 \<and>
     (\<forall>u. v = Some u \<longrightarrow> ok u (old_record x) \<and> fits u (old_record x) (write_room (w_needs_old W) (new_len v x) x))"

lemma length_old_record: "applicable v x \<Longrightarrow> length (old_record x) = unat (tsize x)"
  by (simp add: applicable_def buffer_ok_def old_record_def)

lemma needed_new_len:
  assumes "applicable v x"
  shows "writer_needed W v x = Inr (new_len v x)"
proof (cases v)
  case (Some u)
  have "w_needed W u (value_start x) (length (old_record x)) = Inr (new_size u (old_record x))"
    using assms Some by (intro needed) (simp_all add: applicable_def buffer_ok_def old_record_def)
  then show ?thesis
    using length_old_record [OF assms] by (simp add: writer_needed_def new_len_def Some)
qed (simp add: writer_needed_def new_len_def)

lemma new_len_0: "applicable v x \<Longrightarrow> new_len v x = 0 \<longleftrightarrow> v = None"
  using nonempty by (fastforce simp: new_len_def applicable_def split: option.splits)

lemma write_new_len:
  assumes a: "applicable v x" and len: "new_len v x \<le> length buf"
    and f: "\<And>u. v = Some u \<Longrightarrow> fits u (old_record x) (length buf)"
    and old: "w_needs_old W \<Longrightarrow> unat (tsize x) \<le> length buf \<and> take (unat (tsize x)) buf = old_record x"
  shows "\<exists>buf'. writer_write W v buf (unat (tsize x)) = Inr buf' \<and> length buf' = length buf \<and>
    valid_new v x (if new_len v x = 0 then None else Some (take (new_len v x) buf'))"
proof (cases v)
  case None
  then show ?thesis by (simp add: writer_write_def new_len_def valid_new_def)
next
  case (Some u)
  have "\<exists>buf'. w_write W u buf (length (old_record x)) = Inr buf' \<and> length buf' = length buf \<and>
      updates u (old_record x) (take (new_size u (old_record x)) buf')"
    using a len f old Some length_old_record [OF a]
    by (intro update) (simp_all add: applicable_def new_len_def)
  then show ?thesis
    using length_old_record [OF a] new_len_0 [OF a]
    by (auto simp: writer_write_def new_len_def valid_new_def Some)
qed

end

lemma replaced_head:
  assumes ho: "heap_ok H" and ch: "chain (cells H) (Some p) (p # ps)" and x: "cells H p = Some x"
    and y: "tnext y = Some p"
    and H': "H' = tuple_put p (x\<lparr>hdr := clear_latest_hdr (hdr x)\<rparr>)
      (tuple_put (brk H) y (H\<lparr>cells := (cells H)(brk H \<mapsto> y0), brk := Suc (brk H)\<rparr>))"
  shows "chain (cells H') (Some (brk H)) (brk H # p # ps)"
    and "versions (cells H') (brk H # p # ps) = (tversion y, tuple_value y) # versions (cells H) (p # ps)"
    and "heap_ok H'" and "\<And>q. q \<noteq> p \<Longrightarrow> q < brk H \<Longrightarrow> cells H' q = cells H q"
proof -
  have lt: "q < brk H" if "q \<in> set (p # ps)" for q using chain_below_brk [OF ho ch that] .
  have p: "p \<noteq> brk H" "p < brk H" using lt [of p] by auto
  have same: "cells H' q = cells H q" if "q \<in> set ps" for q
    using that lt [of q] chain_distinct [OF ch] by (auto simp: H' tuple_put_def)
  have tl: "chain (cells H) (tnext x) ps" using ch x by auto
  show "chain (cells H') (Some (brk H)) (brk H # p # ps)"
    using y p tl chain_cong [of ps "cells H'" "cells H", OF same] by (auto simp: H' tuple_put_def)
  show "versions (cells H') (brk H # p # ps) = (tversion y, tuple_value y) # versions (cells H) (p # ps)"
    using p x versions_cong [of ps "cells H'" "cells H", OF same]
    by (simp add: versions_def H' tuple_put_def tuple_value_clear_latest)
  show "heap_ok H'" using ho p by (auto simp: heap_ok_def H' tuple_put_def)
  show "cells H' q = cells H q" if "q \<noteq> p" "q < brk H" for q
    using that by (auto simp: H' tuple_put_def)
qed

lemma inplace_head:
  assumes ho: "heap_ok H" and ch: "chain (cells H) (Some p) (p # ps)" and x: "cells H p = Some x"
    and y: "tnext y = tnext x" and H': "H' = tuple_put p y H"
  shows "chain (cells H') (Some p) (p # ps)"
    and "versions (cells H') (p # ps) = (tversion y, tuple_value y) # versions (cells H) ps"
    and "heap_ok H'" and "\<And>q. q \<noteq> p \<Longrightarrow> q < brk H \<Longrightarrow> cells H' q = cells H q"
proof -
  have lt: "p < brk H" using chain_below_brk [OF ho ch] by simp
  have same: "cells H' q = cells H q" if "q \<in> set ps" for q
    using that chain_distinct [OF ch] by (auto simp: H' tuple_put_def)
  have tl: "chain (cells H) (tnext x) ps" using ch x by auto
  show "chain (cells H') (Some p) (p # ps)"
    using y tl chain_cong [of ps "cells H'" "cells H", OF same] by (auto simp: H' tuple_put_def)
  show "versions (cells H') (p # ps) = (tversion y, tuple_value y) # versions (cells H) ps"
    using versions_cong [of ps "cells H'" "cells H", OF same]
    by (simp add: versions_def H' tuple_put_def)
  show "heap_ok H'" using ho lt by (auto simp: heap_ok_def H' tuple_put_def)
  show "cells H' q = cells H q" if "q \<noteq> p" "q < brk H" for q
    using that by (auto simp: H' tuple_put_def)
qed

lemma spilled_behind_head:
  assumes ho: "heap_ok H" and ch: "chain (cells H) (Some p) (p # ps)" and x: "cells H p = Some x"
    and s: "tnext s = tnext x" "tversion s = tversion x" "tuple_value s = tuple_value x"
    and y: "tnext y = Some (brk H)"
    and H': "H' = tuple_put p y (H\<lparr>cells := (cells H)(brk H \<mapsto> s), brk := Suc (brk H)\<rparr>)"
  shows "chain (cells H') (Some p) (p # brk H # ps)"
    and "versions (cells H') (p # brk H # ps) = (tversion y, tuple_value y) # versions (cells H) (p # ps)"
    and "heap_ok H'" and "\<And>q. q \<noteq> p \<Longrightarrow> q < brk H \<Longrightarrow> cells H' q = cells H q"
proof -
  have lt: "q < brk H" if "q \<in> set (p # ps)" for q using chain_below_brk [OF ho ch that] .
  have p: "p \<noteq> brk H" "p < brk H" using lt [of p] by auto
  have same: "cells H' q = cells H q" if "q \<in> set ps" for q
    using that lt [of q] chain_distinct [OF ch] by (auto simp: H' tuple_put_def)
  have tl: "chain (cells H) (tnext x) ps" using ch x by auto
  show "chain (cells H') (Some p) (p # brk H # ps)"
    using y s p tl chain_cong [of ps "cells H'" "cells H", OF same] by (auto simp: H' tuple_put_def)
  show "versions (cells H') (p # brk H # ps) = (tversion y, tuple_value y) # versions (cells H) (p # ps)"
    using p x s versions_cong [of ps "cells H'" "cells H", OF same]
    by (simp add: versions_def H' tuple_put_def)
  show "heap_ok H'" using ho p by (auto simp: heap_ok_def H' tuple_put_def)
  show "cells H' q = cells H q" if "q \<noteq> p" "q < brk H" for q
    using that by (auto simp: H' tuple_put_def)
qed

text \<open>What a write leaves: the new version in front of the chain, and the rest of the heap as it was.\<close>

definition write_effect ::
  "heap \<Rightarrow> ptr \<Rightarrow> ptr list \<Rightarrow> u64 \<Rightarrow> u64 \<times> bytes option \<Rightarrow> write_record_ret \<Rightarrow> heap \<Rightarrow> bool" where
  "write_effect H p ps w new ret H' \<longleftrightarrow>
     (\<exists>ps'. chain (cells H') (Some (head_tuple ret)) ps' \<and> set ps' \<subseteq> insert (brk H) (set (p # ps)) \<and>
        (if rest_tuple ret = None
         then can_overwrite_record_tid w (fst new) \<and> versions (cells H') ps' = new # versions (cells H) ps
         else versions (cells H') ps' = new # versions (cells H) (p # ps))) \<and>
     heap_ok H' \<and> (\<forall>q. q \<noteq> p \<longrightarrow> q < brk H \<longrightarrow> cells H' q = cells H q)"

lemma write_effect_spillI:
  "chain (cells H') (Some (head_tuple ret)) ps' \<Longrightarrow> set ps' \<subseteq> insert (brk H) (set (p # ps)) \<Longrightarrow> rest_tuple ret = Some r \<Longrightarrow>
   versions (cells H') ps' = new # versions (cells H) (p # ps) \<Longrightarrow> heap_ok H' \<Longrightarrow>
   (\<And>q. q \<noteq> p \<Longrightarrow> q < brk H \<Longrightarrow> cells H' q = cells H q) \<Longrightarrow> write_effect H p ps w new ret H'"
  unfolding write_effect_def by auto

lemma write_effect_overI:
  "chain (cells H') (Some (head_tuple ret)) ps' \<Longrightarrow> set ps' \<subseteq> insert (brk H) (set (p # ps)) \<Longrightarrow> rest_tuple ret = None \<Longrightarrow>
   versions (cells H') ps' = new # versions (cells H) ps \<Longrightarrow> can_overwrite_record_tid w (fst new) \<Longrightarrow> heap_ok H' \<Longrightarrow>
   (\<And>q. q \<noteq> p \<Longrightarrow> q < brk H \<Longrightarrow> cells H' q = cells H q) \<Longrightarrow> write_effect H p ps w new ret H'"
  unfolding write_effect_def by auto

lemma tuple_value_of:
  assumes "IsDeleting (hdr y) = (n = 0)" and "tsize y = of_nat n" and "n \<le> 65535"
    and "take n (value_start y) = new"
  shows "tuple_value y = (if n = 0 then None else Some new)"
proof -
  have "unat (of_nat n :: u16) = n" using assms(3) by (intro unat_of_nat_small) simp
  then show ?thesis using assms by (simp add: tuple_value_def Let_def)
qed

context tuple_writer_contract
begin

text \<open>The tuple is rewritten where it lies.\<close>

lemma write_in_buffer:
  assumes a: "applicable v x" and room: "new_len v x \<le> unat (alloc_size x)" "old_size x \<noteq> 0"
  shows "\<exists>buf. writer_write W v (value_start x) (unat (tsize x)) = Inr buf \<and>
    valid_new v x (tuple_value (x\<lparr>hdr := written_hdr (new_len v x) (hdr x), tnext := q, value_start := buf,
        tversion := t, tsize := of_nat (new_len v x)\<rparr>))"
proof -
  let ?n = "new_len v x"
  have live: "\<not> IsDeleting (hdr x)" using room(2) by (auto simp: old_size_def)
  have ok: "buffer_ok x" using a by (simp add: applicable_def)
  have fit: "fits u (old_record x) (length (value_start x))" if "v = Some u" for u
    using a ok room that by (simp add: applicable_def write_room_def buffer_ok_def)
  obtain buf where buf: "writer_write W v (value_start x) (unat (tsize x)) = Inr buf"
      "valid_new v x (if ?n = 0 then None else Some (take ?n buf))"
    using write_new_len [OF a _ fit] ok room by (auto simp: buffer_ok_def old_record_def)
  have "?n \<le> 65535" using a by (simp add: applicable_def)
  then have "tuple_value (x\<lparr>hdr := written_hdr ?n (hdr x), tnext := q, value_start := buf,
        tversion := t, tsize := of_nat ?n\<rparr>) = (if ?n = 0 then None else Some (take ?n buf))"
    using live by (intro tuple_value_of) (simp_all add: written_flags)
  then have "valid_new v x (tuple_value (x\<lparr>hdr := written_hdr ?n (hdr x), tnext := q, value_start := buf,
        tversion := t, tsize := of_nat ?n\<rparr>))" using buf(2) by (simp only:)
  then show ?thesis using buf(1) by blast
qed

text \<open>A new tuple takes over as head of the chain.\<close>

lemma write_in_spill:
  assumes a: "applicable v x" and full: "\<not> (new_len v x \<le> unat (alloc_size x) \<and> old_size x \<noteq> 0)"
  shows "\<exists>y buf. alloc_spill t (value_start x) (old_size x)
        (new_len v x) p True (w_needs_old W) H =
      Inr (brk H, H\<lparr>cells := (cells H)(brk H \<mapsto> y), brk := Suc (brk H)\<rparr>) \<and>
    writer_write W v (value_start y) (unat (tsize x)) = Inr buf \<and>
    tnext y = Some p \<and> tversion y = t \<and> valid_new v x (tuple_value (y\<lparr>value_start := buf\<rparr>))"
proof -
  let ?n = "new_len v x" and ?o = "old_size x"
  have n: "?n \<le> 65535" using a by (simp add: applicable_def)
  have "unat (tsize x) < 2 ^ 16" using unsigned_less [of "tsize x", where ?'a = nat] by simp
  then have o: "?o \<le> 65535" "?o \<le> length (value_start x)"
    using a by (auto simp: applicable_def buffer_ok_def old_size_def)
  obtain y where y: "alloc_spill t (value_start x) ?o ?n p True (w_needs_old W) H =
      Inr (brk H, H\<lparr>cells := (cells H)(brk H \<mapsto> y), brk := Suc (brk H)\<rparr>)"
      "tversion y = t" "tsize y = of_nat ?n" "tnext y = Some p" "IsDeleting (hdr y) = (?n = 0)"
      "length (value_start y) = alloc_sz (if w_needs_old W then max ?n ?o else ?n) - sizeof_dbtuple"
      "?n \<le> length (value_start y)"
      "w_needs_old W \<longrightarrow> ?o \<le> length (value_start y) \<and> take ?o (value_start y) = take ?o (value_start x)"
    using alloc_spill_result [OF o(2,1) n, of t p True "w_needs_old W" H]
    by (elim exE conjE) (rule that; assumption)
  have old: "w_needs_old W \<Longrightarrow> unat (tsize x) \<le> length (value_start y) \<and>
      take (unat (tsize x)) (value_start y) = old_record x"
    using y(8) a by (auto simp: applicable_def old_record_def old_size_def split: if_splits)
  have fit: "fits u (old_record x) (length (value_start y))" if "v = Some u" for u
    unfolding y(6) using a full that unfolding applicable_def write_room_def by (simp only: if_False simp_thms)
  obtain buf where buf: "writer_write W v (value_start y) (unat (tsize x)) = Inr buf"
      "valid_new v x (if ?n = 0 then None else Some (take ?n buf))"
    using write_new_len [OF a y(7) fit old] by auto
  have "tuple_value (y\<lparr>value_start := buf\<rparr>) = (if ?n = 0 then None else Some (take ?n buf))"
    using y n by (intro tuple_value_of) simp_all
  then have "valid_new v x (tuple_value (y\<lparr>value_start := buf\<rparr>))" using buf(2) by (simp only:)
  then show ?thesis using y(1,2,4) buf(1) by blast
qed

lemma write_record_at_effect:
  assumes ho: "heap_ok H" and ch: "chain (cells H) (Some p) (p # ps)" and x: "cells H p = Some x"
    and a: "applicable v x"
  shows "\<exists>ret H' val. write_record_at W H p t v = Inr (ret, H') \<and> valid_new v x val \<and>
    write_effect H p ps (tversion x) (t, val) ret H'"
proof -
  let ?n = "new_len v x" and ?o = "old_size x"
  have at: "tuple_at H p = Inr x" by (simp add: tuple_at_def x)
  note start = at needed_new_len [OF a]
  show ?thesis
  proof (cases "?n \<le> unat (alloc_size x) \<and> ?o \<noteq> 0")
    case True
    then have live: "\<not> IsDeleting (hdr x)" and room: "?n \<le> unat (alloc_size x)" "old_size x \<noteq> 0"
      by (auto simp: old_size_def split: if_splits)
    have os: "unat (tsize x) = old_size x" using live by (simp add: old_size_def)
    show ?thesis
    proof (cases "can_overwrite_record_tid (tversion x) t")
      case over: True
      obtain buf where w: "writer_write W v (value_start x) (unat (tsize x)) = Inr buf"
          "valid_new v x (tuple_value (x\<lparr>hdr := written_hdr ?n (hdr x), tnext := tnext x, value_start := buf,
              tversion := t, tsize := of_nat ?n\<rparr>))"
        using write_in_buffer [OF a room] by blast
      let ?y = "x\<lparr>hdr := written_hdr ?n (hdr x), value_start := buf, tversion := t, tsize := of_nat ?n\<rparr>"
      have eq: "x\<lparr>hdr := written_hdr ?n (hdr x), tnext := tnext x, value_start := buf, tversion := t,
          tsize := of_nat ?n\<rparr> = ?y" by simp
      have "write_record_at W H p t v =
          Inr (\<lparr>head_tuple = p, rest_tuple = None, forced_spill = False\<rparr>, tuple_put p ?y H)"
        unfolding write_record_at_def start sbind_simps Let_def old_size_def [symmetric] using True over live w(1) [unfolded os] by simp
      moreover have "write_effect H p ps (tversion x) (t, tuple_value ?y)
          \<lparr>head_tuple = p, rest_tuple = None, forced_spill = False\<rparr> (tuple_put p ?y H)"
        by (rule write_effect_overI [where ps' = "p # ps"])
          (use inplace_head [OF ho ch x, of ?y, OF _ refl] over in \<open>simp_all add: subset_insertI2 del: chain.simps\<close>)
      ultimately show ?thesis using w(2) [unfolded eq] by blast
    next
      case over: False
      obtain s where s: "alloc_copy (tversion x) x False H =
          Inr (brk H, H\<lparr>cells := (cells H)(brk H \<mapsto> s), brk := Suc (brk H)\<rparr>)"
          "tversion s = tversion x" "tnext s = tnext x" "tuple_value s = tuple_value x"
        using alloc_copy_result [OF _ live, of H] a by (auto simp: applicable_def)
      obtain buf where w: "writer_write W v (value_start x) (unat (tsize x)) = Inr buf"
          "valid_new v x (tuple_value (x\<lparr>hdr := written_hdr ?n (hdr x), tnext := Some (brk H), value_start := buf,
              tversion := t, tsize := of_nat ?n\<rparr>))"
        using write_in_buffer [OF a room] by blast
      let ?y = "x\<lparr>hdr := written_hdr ?n (hdr x), tnext := Some (brk H), value_start := buf,
        tversion := t, tsize := of_nat ?n\<rparr>"
      let ?H' = "tuple_put p ?y (H\<lparr>cells := (cells H)(brk H \<mapsto> s), brk := Suc (brk H)\<rparr>)"
      have "write_record_at W H p t v =
          Inr (\<lparr>head_tuple = p, rest_tuple = Some (brk H), forced_spill = True\<rparr>, ?H')"
        unfolding write_record_at_def start sbind_simps Let_def old_size_def [symmetric] using True over live w(1) s(1) by simp
      moreover have "write_effect H p ps (tversion x) (t, tuple_value ?y)
          \<lparr>head_tuple = p, rest_tuple = Some (brk H), forced_spill = True\<rparr> ?H'"
        by (rule write_effect_spillI [where ps' = "p # brk H # ps" and r = "brk H"])
          (use spilled_behind_head [OF ho ch x s(3,2,4), of ?y, OF _ refl] in \<open>simp_all add: subset_insertI2 del: chain.simps\<close>)
      ultimately show ?thesis using w(2) by blast
    qed
  next
    case False
    obtain y buf where y: "alloc_spill t (value_start x) ?o ?n p True (w_needs_old W) H =
        Inr (brk H, H\<lparr>cells := (cells H)(brk H \<mapsto> y), brk := Suc (brk H)\<rparr>)"
        "writer_write W v (value_start y) (unat (tsize x)) = Inr buf"
        "tnext y = Some p" "tversion y = t" "valid_new v x (tuple_value (y\<lparr>value_start := buf\<rparr>))"
      using write_in_spill [OF a False] by blast
    let ?H1 = "H\<lparr>cells := (cells H)(brk H \<mapsto> y), brk := Suc (brk H)\<rparr>"
    let ?Hs = "tuple_put p (x\<lparr>hdr := clear_latest_hdr (hdr x)\<rparr>) (tuple_put (brk H) (y\<lparr>value_start := buf\<rparr>) ?H1)"
    have tn: "tnext (y\<lparr>value_start := buf\<rparr>) = Some p" using y(3) by simp
    note sp = replaced_head [OF ho ch x tn refl]
    have spill: "write_effect H p ps (tversion x) (t, tuple_value (y\<lparr>value_start := buf\<rparr>))
        \<lparr>head_tuple = brk H, rest_tuple = Some p, forced_spill = b\<rparr> ?Hs" for b
      by (rule write_effect_spillI [where ps' = "brk H # p # ps" and r = p])
        (use sp y(4) in \<open>simp_all add: subset_insertI2 del: chain.simps\<close>)
    have at1: "tuple_at ?H1 (brk H) = Inr y" by (simp add: tuple_at_def)
    have os: "old_size x \<noteq> 0 \<Longrightarrow> old_size x = unat (tsize x)" by (simp add: old_size_def split: if_splits)
    have "\<exists>b. write_record_at W H p t v = Inr (\<lparr>head_tuple = brk H, rest_tuple = Some p, forced_spill = b\<rparr>, ?Hs)"
      unfolding write_record_at_def start sbind_simps Let_def old_size_def [symmetric]
      using False y(1,2) at1 os by (auto split: if_splits)
    then show ?thesis using spill y(5) by blast
  qed
qed

end

section \<open>Snapshots across a write\<close>

text \<open>
  A snapshot taken before the write sees the same record afterwards, also when the write overwrote the
  version in place; a read at or after the new id sees the new record.
\<close>

lemma write_effect_snapshots:
  assumes e: "write_effect H p ps (tversion x) (t, val) ret H'" and x: "cells H p = Some x"
    and w: "tversion x \<le> t" "tversion x = MIN_TID \<longrightarrow> ps = [] \<and> tuple_value x = None"
  shows "\<exists>ps'. chain (cells H') (Some (head_tuple ret)) ps' \<and>
    (\<forall>s. t \<le> s \<longrightarrow> snapshot_of (versions (cells H') ps') s = (t, val)) \<and>
    (\<forall>g. unat g < 2147483648 \<and> \<not> t \<le> ComputeReadOnlyTid g \<longrightarrow>
       snapshot_of (versions (cells H') ps') (ComputeReadOnlyTid g) =
       snapshot_of (versions (cells H) (p # ps)) (ComputeReadOnlyTid g))"
proof -
  have old: "versions (cells H) (p # ps) = (tversion x, tuple_value x) # versions (cells H) ps"
    by (simp add: versions_def x)
  obtain ps' where c: "chain (cells H') (Some (head_tuple ret)) ps'"
    and v: "if rest_tuple ret = None
      then can_overwrite_record_tid (tversion x) t \<and> versions (cells H') ps' = (t, val) # versions (cells H) ps
      else versions (cells H') ps' = (t, val) # versions (cells H) (p # ps)"
    using e unfolding write_effect_def fst_conv by blast
  have "snapshot_of (versions (cells H') ps') (ComputeReadOnlyTid g) =
      snapshot_of (versions (cells H) (p # ps)) (ComputeReadOnlyTid g)"
    if g: "unat g < 2147483648" "\<not> t \<le> ComputeReadOnlyTid g" for g
  proof (cases "rest_tuple ret = None")
    case True
    then have ov: "can_overwrite_record_tid (tversion x) t" using v by simp
    show ?thesis
    proof (cases "tversion x = MIN_TID")
      case absent: True
      then show ?thesis using v True g(2) old w(2) by (simp add: versions_def MIN_TID_def)
    next
      case False
      then have "\<not> tversion x \<le> ComputeReadOnlyTid g"
        using overwrite_visibility [OF ov w(1) _ g(1)] g(2) by (simp add: MIN_TID_def)
      then show ?thesis using v True g(2) old by simp
    qed
  next
    case False
    then show ?thesis using v g(2) by simp
  qed
  moreover have "snapshot_of (versions (cells H') ps') s = (t, val)" if "t \<le> s" for s
    using v that by (auto split: if_splits)
  ultimately show ?thesis using c by blast
qed

text \<open>
  Property C12 (writes keep snapshots). For the writer of the string tables, writing a non-empty record of at most
  65535 bytes, or deleting the record (\<open>v = None\<close>), at an id not older than the tuple's succeeds on
  every tuple whose chain and buffer are well formed; a tuple at \<^verbatim>\<open>MIN_TID\<close>, the id of an absent record, has to hold no
  record and no older versions. The write leaves a chain in which every read at or after the new id
  finds the new record and every read-only snapshot older than it finds exactly what it found before,
  whichever of the four ways the write took: overwriting, overwriting into a larger tuple, moving the old
  version behind the tuple, or spilling to a new head.
\<close>

theorem write_record_at_snapshots:
  assumes "heap_ok H" and "chain (cells H) (Some p) (p # ps)" and "cells H p = Some x" and "buffer_ok x"
    and "tversion x \<le> t" and "tversion x = MIN_TID \<longrightarrow> ps = [] \<and> tuple_value x = None"
    and "\<forall>u. v = Some u \<longrightarrow> u \<noteq> [] \<and> length u \<le> 65535"
  shows "\<exists>ret H' ps'. write_record_at string_writer H p t v = Inr (ret, H') \<and>
    chain (cells H') (Some (head_tuple ret)) ps' \<and>
    (\<forall>s. t \<le> s \<longrightarrow> snapshot_of (versions (cells H') ps') s = (t, v)) \<and>
    (\<forall>g. unat g < 2147483648 \<and> \<not> t \<le> ComputeReadOnlyTid g \<longrightarrow>
       snapshot_of (versions (cells H') ps') (ComputeReadOnlyTid g) =
       snapshot_of (versions (cells H) (p # ps)) (ComputeReadOnlyTid g))"
proof -
  have no_old: "\<not> w_needs_old string_writer" by (simp add: string_writer_def)
  have nv: "string_writer.new_len v x \<le> 65535"
    using assms(7) by (cases v) (auto simp: string_writer.new_len_def)
  have "string_writer.applicable v x"
    using assms(4,7) nv no_old unfolding string_writer.applicable_def by simp
  from string_writer.write_record_at_effect [OF assms(1-3) this, of t] obtain ret H' val
    where w: "write_record_at string_writer H p t v = Inr (ret, H')" "string_writer.valid_new v x val"
      and e: "write_effect H p ps (tversion x) (t, val) ret H'" by blast
  have "val = v" using w(2) by (cases v) (simp_all add: string_writer.valid_new_def)
  then show ?thesis using w(1) write_effect_snapshots [OF e assms(3,5,6)] by blast
qed

theorem write_record_at_snapshots_witness:
  "\<exists>H p x ret H' ps'. cells H p = Some x \<and>
    write_record_at string_writer H p (MakeTid 0 1 60) (Some [1, 2, 3]) = Inr (ret, H') \<and>
    chain (cells H') (Some (head_tuple ret)) ps' \<and>
    snapshot_of (versions (cells H') ps') (MakeTid 0 1 60) = (MakeTid 0 1 60, Some [1, 2, 3])"
proof -
  let ?x = "\<lparr>hdr = 21, tversion = 5, tsize = 1, alloc_size = 2, tnext = None, value_start = [7, 0]\<rparr>"
  let ?H = "\<lparr>cells = [0 \<mapsto> ?x], brk = 1, raw = (\<lambda>_ _. 0)\<rparr>"
  have 1: "heap_ok ?H" "chain (cells ?H) (Some 0) (0 # [])" "cells ?H 0 = Some ?x" "buffer_ok ?x"
    by (simp_all add: heap_ok_def buffer_ok_def)
  have 2: "tversion ?x \<le> MakeTid 0 1 60" "tversion ?x = MIN_TID \<longrightarrow> [] = ([] :: ptr list) \<and> tuple_value ?x = None"
    by (simp_all add: MakeTid_bits MIN_TID_def)
  obtain ret H' ps' where "write_record_at string_writer ?H 0 (MakeTid 0 1 60) (Some [1, 2, 3]) = Inr (ret, H')"
      "chain (cells H') (Some (head_tuple ret)) ps'"
      "\<forall>s. MakeTid 0 1 60 \<le> s \<longrightarrow> snapshot_of (versions (cells H') ps') s = (MakeTid 0 1 60, Some [1, 2, 3])"
    using write_record_at_snapshots [OF 1 2, of "Some [1, 2, 3]"] by auto
  then show ?thesis using 1(3) by blast
qed

text \<open>
  Property C17 (snapshot reads). On a chain no thread is modifying, \<^verbatim>\<open>stable_read(t)\<close> terminates and
  returns the first version of the chain that is not newer than \<open>t\<close>: its id and its bytes, or an empty read
  when that version is a deleted record or the chain ends.
\<close>

theorem stable_read_snapshot:
  assumes "chain M (Some p) ps" and "\<forall>q \<in> set ps. \<exists>x. M q = Some x \<and> readable awi x \<and> tversion x \<noteq> MAX_TID"
    and "\<forall>bs. reader bs \<noteq> None" and "length ps \<le> fuel"
  shows "\<exists>\<tau>'. stable_read fuel (\<lambda>_. M) \<tau> p t reader awi =
    (case snapshot_of (versions M ps) t of (w, v) \<Rightarrow>
       Inr (Some (case v of None \<Rightarrow> READ_EMPTY | Some _ \<Rightarrow> READ_RECORD, w, Option.bind v reader, \<tau>')))"
proof -
  obtain x where x: "M p = Some x" "tversion x \<noteq> MAX_TID"
    using assms(1,2) by (cases ps) auto
  have "stable_read fuel (\<lambda>_. M) \<tau> p t reader awi = record_at_chain fuel (\<lambda>_. M) (Suc \<tau>) p t reader awi"
    by (simp add: stable_read_def load_def x)
  then show ?thesis
    using record_at_chain_frozen [OF assms(1) _ _ assms(4), of awi reader "Suc \<tau>" t] assms(2,3) by fastforce
qed

theorem stable_read_snapshot_witness:
  "\<exists>M \<tau>'. stable_read 2 (\<lambda>_. M) 0 0 6 Some False = Inr (Some (READ_RECORD, 5, Some [7], \<tau>'))"
proof -
  let ?x = "\<lparr>hdr = 16, tversion = 8, tsize = 1, alloc_size = 2, tnext = Some 1, value_start = [9, 0]\<rparr>"
  let ?y = "\<lparr>hdr = 0, tversion = 5, tsize = 1, alloc_size = 2, tnext = None, value_start = [7, 0]\<rparr>"
  let ?M = "[0 \<mapsto> ?x, 1 \<mapsto> ?y]"
  have flags: "\<not> IsModifying 16" "\<not> IsWriteIntent 16" "\<not> IsDeleting 16" "\<not> IsModifying 0"
      "\<not> IsWriteIntent 0" "\<not> IsDeleting 0"
    unfolding hdr_flag_bits by simp_all
  have 1: "chain ?M (Some 0) [0, 1]" by simp
  have 2: "\<forall>q \<in> set [0, 1]. \<exists>x. ?M q = Some x \<and> readable False x \<and> tversion x \<noteq> MAX_TID"
    using flags by (simp add: readable_def tuple_wf_def MAX_TID_def)
  have 3: "\<forall>bs :: bytes. Some bs \<noteq> None" and 4: "length [0 :: nat, 1] \<le> 2" by simp_all
  have "versions ?M [0, 1] = [(8, Some [9]), (5, Some [7])]"
    using flags by (simp add: versions_def tuple_value_def)
  then have s: "snapshot_of (versions ?M [0, 1]) 6 = (5, Some [7])" by simp
  show ?thesis
    using stable_read_snapshot [OF 1 2 3 4, of 0 6]
    unfolding s prod.case option.case bind.simps by blast
qed

end
