(* ===== verification/Typed_Writer.thy ===== *)
theory Typed_Writer
  imports Schema Tuple_Write
begin

text \<open>
  Typed records in tuples (\<^verbatim>\<open>typed_txn_btree_\<close> in \<^verbatim>\<open>src/src/typed_txn_btree.h\<close>): reading all or some
  fields of an encoded record, and the writer callback that updates the fields of a mask, in place,
  through a write cursor.
\<close>

section \<open>Field masks\<close>

definition AllFieldsMask :: "nat \<Rightarrow> u64" where
  "AllFieldsMask nfields = push_bit nfields 1 - 1"

definition IsAllFields :: "nat \<Rightarrow> u64 \<Rightarrow> bool" where
  "IsAllFields nfields m \<longleftrightarrow> m AND AllFieldsMask nfields = AllFieldsMask nfields"

text \<open>The fields of the mask, in the order of the loops \<^verbatim>\<open>for (i = 0; i < nfields(); i++) if ((1UL << i) & fields)\<close>.\<close>

definition mask_fields :: "nat \<Rightarrow> u64 \<Rightarrow> nat list" where
  "mask_fields nfields m = filter (\<lambda>i. push_bit i 1 AND m \<noteq> 0) [0..<nfields]"

section \<open>Reading\<close>

text \<open>The struct \<open>v\<close> is returned with the success flag; \<open>r.skip_to(i)\<close> is called for its effect only.\<close>

fun read_fields ::
  "'v descriptor \<Rightarrow> nat list \<Rightarrow> read_record_cursor \<Rightarrow> 'v list \<Rightarrow> mem_error + (bool \<times> 'v list)" where
  "read_fields fs [] r v = Inr (True, v)"
| "read_fields fs (i # is) r v =
     sbind (rc_skip_to fs i r) (\<lambda>(_, r1).
     sbind (rc_read_current_and_advance fs r1) (\<lambda>(rawsz, x, r2).
       let v' = (case x of None \<Rightarrow> v | Some y \<Rightarrow> v[rc_n r1 := y])
       in if rawsz = 0 then Inr (False, v') else read_fields fs is r2 v'))"

definition do_record_read ::
  "'v descriptor \<Rightarrow> bytes \<Rightarrow> nat \<Rightarrow> u64 \<Rightarrow> 'v list \<Rightarrow> mem_error + (bool \<times> 'v list)" where
  "do_record_read fs data sz fields_mask v =
     (if IsAllFields (length fs) fields_mask
      then sbind (encode_failsafe_read fs data sz) (\<lambda>r.
             case r of None \<Rightarrow> Inr (False, v) | Some v' \<Rightarrow> Inr (True, v'))
      else read_fields fs (mask_fields (length fs) fields_mask) (rc_init data sz) v)"

section \<open>Writing\<close>

definition new_updates_sum :: "'v descriptor \<Rightarrow> nat list \<Rightarrow> 'v list \<Rightarrow> nat" where
  "new_updates_sum fs is v = sum_list (map (\<lambda>i. nbytes_fn (fs ! i) (v ! i)) is)"

fun old_updates_sum :: "'v descriptor \<Rightarrow> nat list \<Rightarrow> read_record_cursor \<Rightarrow> mem_error + nat" where
  "old_updates_sum fs [] rc = Inr 0"
| "old_updates_sum fs (i # is) rc =
     sbind (rc_skip_to fs i rc) (\<lambda>(_, rc1).
     sbind (rc_read_current_raw_size_and_advance fs rc1) (\<lambda>(sz, rc2).
     sbind (old_updates_sum fs is rc2) (\<lambda>n. Inr (sz + n))))"

text \<open>The result is an \<^verbatim>\<open>ssize_t\<close> returned as a \<^verbatim>\<open>size_t\<close>.\<close>

definition compute_needed_standalone ::
  "'v descriptor \<Rightarrow> 'v list \<Rightarrow> u64 \<Rightarrow> bytes \<Rightarrow> nat \<Rightarrow> mem_error + nat" where
  "compute_needed_standalone fs v fmask buf sz =
     (if fmask = 0 then Inr 0
      else if sz = 0 then Inr (encode_nbytes fs v)
      else
        let is = mask_fields (length fs) fmask
        in sbind (old_updates_sum fs is (rc_init buf sz)) (\<lambda>old.
             Inr (nat ((int sz - int old + int (new_updates_sum fs is v)) mod 2 ^ 64))))"

definition compute_needed_delta_standalone :: "'v descriptor \<Rightarrow> 'v list \<Rightarrow> u64 \<Rightarrow> nat" where
  "compute_needed_delta_standalone fs v fmask =
     (if fmask = 0 then 8
      else if IsAllFields (length fs) fmask then 8 + encode_nbytes fs v
      else 8 + new_updates_sum fs (mask_fields (length fs) fmask) v)"

text \<open>Storing \<open>bs\<close> at the start of the memory at \<open>buf\<close>.\<close>

definition store_at_start :: "bytes \<Rightarrow> nat \<Rightarrow> bytes \<Rightarrow> mem_error + bytes" where
  "store_at_start bs n buf = (if length buf < n then Inl Past_end else Inr (write_at 0 bs buf))"

fun write_fields :: "'v descriptor \<Rightarrow> nat list \<Rightarrow> 'v list \<Rightarrow> write_record_cursor \<Rightarrow> mem_error + write_record_cursor" where
  "write_fields fs [] v wc = Inr wc"
| "write_fields fs (i # is) v wc =
     sbind (wc_skip_to fs i wc) (\<lambda>wc1.
     sbind (wc_write_current_and_advance fs (v ! wc_n wc1) wc1) (\<lambda>(_, wc2).
       write_fields fs is v wc2))"

definition do_write_standalone :: "'v descriptor \<Rightarrow> 'v list \<Rightarrow> u64 \<Rightarrow> bytes \<Rightarrow> mem_error + bytes" where
  "do_write_standalone fs v fmask buf =
     (if fmask = 0 then Inr buf
      else if IsAllFields (length fs) fmask
      then store_at_start (encode_write fs v buf) (encode_nbytes fs v) buf
      else sbind (write_fields fs (mask_fields (length fs) fmask) v (wc_init buf)) (\<lambda>wc. Inr (wc_mem wc)))"

fun delta_fields :: "'v descriptor \<Rightarrow> nat list \<Rightarrow> 'v list \<Rightarrow> bytes \<Rightarrow> bytes" where
  "delta_fields fs [] v buf = []"
| "delta_fields fs (i # is) v buf =
     (let w = write_fn (fs ! i) (v ! i) buf in w @ delta_fields fs is v (drop (length w) buf))"

definition do_delta_write_standalone :: "'v descriptor \<Rightarrow> 'v list \<Rightarrow> u64 \<Rightarrow> bytes \<Rightarrow> mem_error + bytes" where
  "do_delta_write_standalone fs v fmask buf =
     (let rest = drop 8 buf;
          body = (if fmask = 0 then []
                  else if IsAllFields (length fs) fmask then encode_write fs v rest
                  else delta_fields fs (mask_fields (length fs) fmask) v rest)
      in store_at_start (fixed_write fmask @ body) (compute_needed_delta_standalone fs v fmask) buf)"

text \<open>\<^verbatim>\<open>tuple_writer<Fields>\<close>.\<close>

definition typed_writer :: "'v descriptor \<Rightarrow> u64 \<Rightarrow> 'v list tuple_writer" where
  "typed_writer fs fmask =
     \<lparr>w_needs_old = True,
      w_needed = (\<lambda>v p sz. compute_needed_standalone fs v fmask p sz),
      w_delta_needed = (\<lambda>v. compute_needed_delta_standalone fs v fmask),
      w_write = (\<lambda>v p sz. do_write_standalone fs v fmask p),
      w_delta_write = (\<lambda>v p sz. do_delta_write_standalone fs v fmask p)\<rparr>"

section \<open>Masks\<close>

lemma mask_bit: "i < 64 \<Longrightarrow> (push_bit i 1 AND m \<noteq> 0) = bit (m :: u64) i"
  using and_single_bit [of m i] by (simp add: and.commute)

lemma mask_fields_bits: "n \<le> 64 \<Longrightarrow> mask_fields n m = filter (bit m) [0..<n]"
  unfolding mask_fields_def using mask_bit by (intro filter_cong) auto

lemma all_fields:
  assumes "IsAllFields n m" and "n \<le> 64"
  shows "mask_fields n m = [0..<n]"
proof -
  have "AllFieldsMask n = mask n" by (simp add: AllFieldsMask_def mask_eq_decr_exp push_bit_eq_mult)
  then have eq: "bit (m AND mask n) i = bit (mask n :: u64) i" for i
    using assms(1) by (simp only: IsAllFields_def)
  have "bit m i" if "i < n" for i
    using eq [of i] that assms(2) unfolding bit_and_iff bit_mask_iff by simp
  then show ?thesis unfolding mask_fields_bits [OF assms(2)] by (intro filter_True) simp
qed

lemma sorted_mask_fields: "sorted_wrt (<) (mask_fields n m)" "set (mask_fields n m) \<subseteq> {..<n}"
  by (auto simp: mask_fields_def sorted_wrt_filter)

section \<open>Updates of several fields\<close>

text \<open>The object with the fields of the list taken from \<open>v\<close>.\<close>

fun update_fields :: "'v list \<Rightarrow> 'v list \<Rightarrow> nat list \<Rightarrow> 'v list" where
  "update_fields obj v [] = obj"
| "update_fields obj v (i # is) = update_fields (obj[i := v ! i]) v is"

lemma length_update_fields [simp]: "length (update_fields obj v is) = length obj"
  by (induction "is" arbitrary: obj) simp_all

lemma nth_update_fields:
  "k < length obj \<Longrightarrow> update_fields obj v is ! k = (if k \<in> set is then v ! k else obj ! k)"
  by (induction "is" arbitrary: obj) (auto simp: nth_list_update)

lemma update_all_fields: "length v = length obj \<Longrightarrow> update_fields obj v [0..<length obj] = v"
  by (rule nth_equalityI) (simp_all add: nth_update_fields)

context record_layout
begin

lemma nbytes_update:
  assumes ok: "object_ok oks obj" and i: "i < length fs" and w: "(oks ! i) w"
  shows "encode_nbytes fs (obj[i := w]) + nbytes_fn (fs ! i) (obj ! i) =
    encode_nbytes fs obj + nbytes_fn (fs ! i) w"
proof -
  have ok': "object_ok oks (obj[i := w])" using ok i w same_length by (simp add: object_ok_update)
  have l: "i < length obj" using object_ok_length [OF ok] same_length i by simp
  have "offset (obj[i := w]) i = offset obj i" by (simp add: offset_def)
  then show ?thesis
    using fields_split [OF ok, of i] fields_split [OF ok', of i] l
    unfolding drop_Cons [OF ok i] drop_Cons [OF ok' i] by simp
qed

lemma update_fields_ok:
  assumes "object_ok oks obj" and "object_ok oks v" and "set is \<subseteq> {..<length fs}"
  shows "object_ok oks (update_fields obj v is)"
  using assms
  by (auto simp: object_ok_def list_all2_conv_all_nth nth_update_fields)

lemma nbytes_update_fields:
  assumes "object_ok oks obj" and "object_ok oks v" and "set is \<subseteq> {..<length fs}" and "distinct is"
  shows "encode_nbytes fs (update_fields obj v is) + new_updates_sum fs is obj =
    encode_nbytes fs obj + new_updates_sum fs is v"
  using assms
proof (induction "is" arbitrary: obj)
  case Nil
  then show ?case by (simp add: new_updates_sum_def)
next
  case (Cons i "is")
  have i: "i < length fs" and v: "(oks ! i) (v ! i)"
    using Cons.prems object_ok_nth [OF Cons.prems(2)] same_length by auto
  have ok': "object_ok oks (obj[i := v ! i])" using Cons.prems(1) i v same_length by (simp add: object_ok_update)
  have "new_updates_sum fs is (obj[i := v ! i]) = new_updates_sum fs is obj"
    using Cons.prems(4) unfolding new_updates_sum_def by (intro arg_cong [where f = sum_list] map_cong)
      (auto, metis nth_list_update_neq)
  then show ?case
    using Cons.IH [OF ok' Cons.prems(2)] Cons.prems nbytes_update [OF Cons.prems(1) i v]
    by (simp add: new_updates_sum_def)
qed

lemma encoded_in_memory: "at_field obj c \<Longrightarrow> encode_nbytes fs obj \<le> length (wc_mem c)"
  using length_encoded by (fastforce simp: at_field_def)

lemma write_fields_at_field:
  assumes "at_field obj c" and "object_ok oks v" and "sorted_wrt (<) is" and "set is \<subseteq> {..<length fs}"
    and "\<forall>i \<in> set is. wc_n c \<le> i"
    and "\<forall>k \<le> length is. encode_nbytes fs (update_fields obj v (take k is)) \<le> length (wc_mem c)"
  shows "\<exists>c'. write_fields fs is v c = Inr c' \<and> at_field (update_fields obj v is) c' \<and>
    length (wc_mem c') = length (wc_mem c)"
  using assms
proof (induction "is" arbitrary: obj c)
  case Nil
  then show ?case by simp
next
  case (Cons i "is")
  have i: "i < length fs" "wc_n c \<le> i" using Cons.prems by auto
  obtain c1 where c1: "wc_skip_to fs i c = Inr c1" "at_field obj c1" "wc_n c1 = i" "wc_mem c1 = wc_mem c"
    using at_field_skip_to [OF Cons.prems(1) i(2)] i(1) by auto
  have v: "(oks ! i) (v ! i)" using object_ok_nth [OF Cons.prems(2)] i same_length by simp
  have room: "encode_nbytes fs (obj[i := v ! i]) \<le> length (wc_mem c)"
    using Cons.prems(6) [rule_format, of 1] by simp
  obtain old c2 where c2: "wc_write_current_and_advance fs (v ! i) c1 = Inr (Some old, c2)"
      "at_field (obj[i := v ! i]) c2" "wc_n c2 = Suc i" "length (wc_mem c2) = length (wc_mem c)"
    using write_current_at_field [OF c1(2), of "v ! i"] c1 i v room by auto
  have "\<exists>c'. write_fields fs is v c2 = Inr c' \<and> at_field (update_fields (obj[i := v ! i]) v is) c' \<and>
      length (wc_mem c') = length (wc_mem c2)"
  proof (rule Cons.IH [OF c2(2) Cons.prems(2)])
    show "\<forall>k \<le> length is. encode_nbytes fs (update_fields (obj[i := v ! i]) v (take k is)) \<le> length (wc_mem c2)"
      using Cons.prems(6) c2(4) by (metis Suc_le_mono length_Cons take_Suc_Cons update_fields.simps(2))
  qed (use Cons.prems c2 in auto)
  then show ?case using c1 c2 by simp
qed

lemma write_fields_overflow:
  assumes "at_field obj c" and "object_ok oks v" and "sorted_wrt (<) is" and "set is \<subseteq> {..<length fs}"
    and "\<forall>i \<in> set is. wc_n c \<le> i"
    and "\<exists>k \<le> length is. length (wc_mem c) < encode_nbytes fs (update_fields obj v (take k is))"
  shows "write_fields fs is v c = Inl Past_end"
  using assms
proof (induction "is" arbitrary: obj c)
  case Nil
  then show ?case using encoded_in_memory [OF Nil.prems(1)] by simp
next
  case (Cons i "is")
  have i: "i < length fs" "wc_n c \<le> i" using Cons.prems by auto
  obtain c1 where c1: "wc_skip_to fs i c = Inr c1" "at_field obj c1" "wc_n c1 = i" "wc_mem c1 = wc_mem c"
    using at_field_skip_to [OF Cons.prems(1) i(2)] i(1) by auto
  have v: "(oks ! i) (v ! i)" using object_ok_nth [OF Cons.prems(2)] i same_length by simp
  show ?case
  proof (cases "length (wc_mem c) < encode_nbytes fs (obj[i := v ! i])")
    case True
    then show ?thesis using write_current_overflow [OF c1(2), of "v ! i"] c1 i v by simp
  next
    case False
    then obtain old c2 where c2: "wc_write_current_and_advance fs (v ! i) c1 = Inr (Some old, c2)"
        "at_field (obj[i := v ! i]) c2" "wc_n c2 = Suc i" "length (wc_mem c2) = length (wc_mem c)"
      using write_current_at_field [OF c1(2), of "v ! i"] c1 i v by auto
    obtain k where k: "k \<le> length (i # is)" "length (wc_mem c) < encode_nbytes fs (update_fields obj v (take k (i # is)))"
      using Cons.prems(6) by blast
    then obtain l where l: "k = Suc l" using encoded_in_memory [OF Cons.prems(1)] by (cases k) auto
    have "write_fields fs is v c2 = Inl Past_end"
    proof (rule Cons.IH [OF c2(2) Cons.prems(2)])
      show "\<exists>k \<le> length is. length (wc_mem c2) < encode_nbytes fs (update_fields (obj[i := v ! i]) v (take k is))"
        using k c2(4) by (intro exI [of _ l]) (simp add: l)
    qed (use Cons.prems c2(3) in auto)
    then show ?thesis using c1 c2(1) by simp
  qed
qed

lemma rc_raw_size_reading:
  assumes r: "reading obj budget c" and n: "rc_n c < length fs"
  shows "\<exists>c'. rc_read_current_raw_size_and_advance fs c = Inr (nbytes_fn (fs ! rc_n c) (obj ! rc_n c), c') \<and>
    reading obj budget c' \<and> rc_n c' = Suc (rc_n c)"
proof -
  let ?f = "fs ! rc_n c"
  let ?sz = "nbytes_fn ?f (obj ! rc_n c)"
  obtain w rest where m: "drop (rc_cur c) (rc_mem c) = w @ rest" and at: "stored ?f (obj ! rc_n c) w"
      "(oks ! rc_n c) (obj ! rc_n c)" "?sz \<le> rc_nbytes c"
    by (rule rc_at_field [OF r n])
  have skip: "failsafe_skip_fn ?f (drop (rc_cur c) (rc_mem c)) (rc_nbytes c) False = Inr (?sz, None)"
    unfolding m using field_serializer.failsafe_skip_write [OF field [OF n] at(2,1,3)] by simp
  have "0 < rc_nbytes c" using field_serializer.nbytes_pos [OF field [OF n] at(2)] at(3) by simp
  then show ?thesis
    unfolding rc_read_current_raw_size_and_advance_def skip sbind_simps prod.case Let_def
    using n reading_advance [OF r n] by (auto simp: reading_def add.commute)
qed

lemma old_updates_sum_reading:
  assumes "reading obj budget c" and "sorted_wrt (<) is" and "set is \<subseteq> {..<length fs}"
    and "\<forall>i \<in> set is. rc_n c \<le> i"
  shows "old_updates_sum fs is c = Inr (new_updates_sum fs is obj)"
  using assms
proof (induction "is" arbitrary: c)
  case Nil
  then show ?case by (simp add: new_updates_sum_def)
next
  case (Cons i "is")
  have i: "i < length fs" "rc_n c \<le> i" using Cons.prems by auto
  obtain c1 where c1: "rc_skip_to fs i c = Inr (True, c1)" "reading obj budget c1" "rc_n c1 = i"
    using rc_skip_to_reading [OF Cons.prems(1) i(2)] i(1) by auto
  obtain c2 where c2: "rc_read_current_raw_size_and_advance fs c1 = Inr (nbytes_fn (fs ! i) (obj ! i), c2)"
      "reading obj budget c2" "rc_n c2 = Suc i"
    using rc_raw_size_reading [OF c1(2)] c1(3) i by auto
  have "old_updates_sum fs is c2 = Inr (new_updates_sum fs is obj)"
    by (rule Cons.IH [OF c2(2)]) (use Cons.prems c2(3) in auto)
  then show ?case using c1 c2 by (simp add: new_updates_sum_def)
qed

lemma read_fields_reading:
  assumes "reading obj budget c" and "sorted_wrt (<) is" and "set is \<subseteq> {..<length fs}"
    and "\<forall>i \<in> set is. rc_n c \<le> i"
  shows "read_fields fs is c v = Inr (True, update_fields v obj is)"
  using assms
proof (induction "is" arbitrary: c v)
  case Nil
  then show ?case by simp
next
  case (Cons i "is")
  have i: "i < length fs" "rc_n c \<le> i" using Cons.prems by auto
  obtain c1 where c1: "rc_skip_to fs i c = Inr (True, c1)" "reading obj budget c1" "rc_n c1 = i"
    using rc_skip_to_reading [OF Cons.prems(1) i(2)] i(1) by auto
  have ok: "(oks ! i) (obj ! i)"
    using Cons.prems(1) object_ok_nth [of oks obj i] i same_length by (simp add: reading_def)
  obtain c2 where c2: "rc_read_current_and_advance fs c1 = Inr (nbytes_fn (fs ! i) (obj ! i), Some (obj ! i), c2)"
      "reading obj budget c2" "rc_n c2 = Suc i"
    using rc_read_reading [OF c1(2)] c1(3) i by auto
  have "read_fields fs is c2 (v[i := obj ! i]) = Inr (True, update_fields (v[i := obj ! i]) obj is)"
    by (rule Cons.IH [OF c2(2)]) (use Cons.prems c2(3) in auto)
  then show ?case
    using c1 c2 field_serializer.nbytes_pos [OF field [OF i(1)] ok] by (simp add: Let_def)
qed

lemma reading_init:
  assumes "object_ok oks obj" and "encodes fs obj old" and "length old \<le> budget"
  shows "reading obj budget (rc_init (old @ junk) budget)"
  using assms length_encoded [OF assms(1,2)] by (auto simp: reading_def rc_init_def)

end

section \<open>The typed writer meets the writer contract\<close>

text \<open>
  The record after an update is an encoding of the object with the fields of the mask replaced; into an
  absent record only all fields can be written.
\<close>

definition typed_updates ::
  "'v descriptor \<Rightarrow> ('v \<Rightarrow> bool) list \<Rightarrow> u64 \<Rightarrow> 'v list \<Rightarrow> bytes \<Rightarrow> bytes \<Rightarrow> bool" where
  "typed_updates fs oks fmask v old new \<longleftrightarrow>
     (if old = [] then encodes fs v new
      else \<exists>obj. object_ok oks obj \<and> encodes fs obj old \<and>
             encodes fs (update_fields obj v (mask_fields (length fs) fmask)) new)"

definition typed_size :: "'v descriptor \<Rightarrow> u64 \<Rightarrow> 'v list \<Rightarrow> bytes \<Rightarrow> nat" where
  "typed_size fs fmask v old =
     (if old = [] then encode_nbytes fs v
      else let is = mask_fields (length fs) fmask
           in case old_updates_sum fs is (rc_init old (length old)) of
                Inl _ \<Rightarrow> 0
              | Inr n \<Rightarrow> length old + new_updates_sum fs is v - n)"

definition typed_ok ::
  "'v descriptor \<Rightarrow> ('v \<Rightarrow> bool) list \<Rightarrow> u64 \<Rightarrow> 'v list \<Rightarrow> bytes \<Rightarrow> bool" where
  "typed_ok fs oks fmask v old \<longleftrightarrow> fmask \<noteq> 0 \<and> object_ok oks v \<and>
     (if old = [] then IsAllFields (length fs) fmask else \<exists>obj. object_ok oks obj \<and> encodes fs obj old)"

text \<open>The record fits the buffer after each field that is written.\<close>

definition typed_fits ::
  "'v descriptor \<Rightarrow> ('v \<Rightarrow> bool) list \<Rightarrow> u64 \<Rightarrow> 'v list \<Rightarrow> bytes \<Rightarrow> nat \<Rightarrow> bool" where
  "typed_fits fs oks fmask v old n \<longleftrightarrow> IsAllFields (length fs) fmask \<or>
     (\<forall>obj. object_ok oks obj \<and> encodes fs obj old \<longrightarrow>
        (\<forall>k \<le> length (mask_fields (length fs) fmask).
           encode_nbytes fs (update_fields obj v (take k (mask_fields (length fs) fmask))) \<le> n))"

context record_layout
begin

lemma record_nbytes_pos: "object_ok oks obj \<Longrightarrow> fs \<noteq> [] \<Longrightarrow> 0 < encode_nbytes fs obj"
proof -
  assume ok: "object_ok oks obj" and "fs \<noteq> []"
  then have n: "0 < length fs" by simp
  have "(oks ! 0) (obj ! 0)" using object_ok_nth [OF ok] n same_length by simp
  then have "0 < nbytes_fn (fs ! 0) (obj ! 0)" by (rule field_serializer.nbytes_pos [OF field [OF n]])
  then show ?thesis using offset_Suc [OF ok n] offset_mono [OF ok, of "Suc 0"] by simp
qed

lemma typed_size_encoded:
  assumes "object_ok oks obj" and "encodes fs obj old" and "object_ok oks v" and "fs \<noteq> []"
  shows "typed_size fs fmask v old = encode_nbytes fs (update_fields obj v (mask_fields (length fs) fmask))"
    and "old_updates_sum fs (mask_fields (length fs) fmask) (rc_init (old @ junk) (length old)) =
      Inr (new_updates_sum fs (mask_fields (length fs) fmask) obj)"
    and "old \<noteq> []"
proof -
  let ?is = "mask_fields (length fs) fmask"
  have s: "sorted_wrt (<) ?is" "set ?is \<subseteq> {..<length fs}" "distinct ?is"
    using sorted_mask_fields [of "length fs" fmask] by (auto simp: strict_sorted_iff mask_fields_def)
  have len: "length old = encode_nbytes fs obj" by (rule length_encoded [OF assms(1,2)])
  then show ne: "old \<noteq> []" using record_nbytes_pos [OF assms(1,4)] by auto
  have sum: "old_updates_sum fs ?is (rc_init (old @ j) (length old)) = Inr (new_updates_sum fs ?is obj)" for j
    using old_updates_sum_reading [OF reading_init [OF assms(1,2) le_refl] s(1,2)] by (simp add: rc_init_def)
  then show "old_updates_sum fs ?is (rc_init (old @ junk) (length old)) = Inr (new_updates_sum fs ?is obj)" .
  show "typed_size fs fmask v old = encode_nbytes fs (update_fields obj v ?is)"
    using sum [of "[]"] nbytes_update_fields [OF assms(1,3) s(2,3)] len ne by (simp add: typed_size_def Let_def)
qed

lemma compute_needed_encoded:
  assumes "object_ok oks obj" and "encodes fs obj old" and "object_ok oks v" and "fs \<noteq> []" and "fmask \<noteq> 0"
    and max: "encode_max_nbytes fs < 2 ^ 32"
  shows "compute_needed_standalone fs v fmask (old @ junk) (length old) = Inr (typed_size fs fmask v old)"
proof -
  let ?is = "mask_fields (length fs) fmask"
  let ?n = "encode_nbytes fs (update_fields obj v ?is)"
  have s: "set ?is \<subseteq> {..<length fs}" "distinct ?is"
    using sorted_mask_fields [of "length fs" fmask] by (auto simp: mask_fields_def)
  have "object_ok oks (update_fields obj v ?is)" by (rule update_fields_ok [OF assms(1,3) s(1)])
  then have "?n < 2 ^ 32" using encoded_max max by (meson le_less_trans)
  then have "nat (int ?n mod 2 ^ 64) = ?n" by simp
  moreover have "int (length old) - int (new_updates_sum fs ?is obj) + int (new_updates_sum fs ?is v) = int ?n"
    using nbytes_update_fields [OF assms(1,3) s] length_encoded [OF assms(1,2)] by simp
  ultimately show ?thesis
    using assms(5) typed_size_encoded(1,2) [OF assms(1-4), of fmask] typed_size_encoded(3) [OF assms(1-4)]
    by (simp add: compute_needed_standalone_def Let_def)
qed

lemma do_write_all:
  assumes "IsAllFields (length fs) fmask" and "fmask \<noteq> 0" and "object_ok oks v"
    and "encode_nbytes fs v \<le> length buf"
  shows "\<exists>buf'. do_write_standalone fs v fmask buf = Inr buf' \<and> length buf' = length buf \<and>
    encodes fs v (take (encode_nbytes fs v) buf')"
proof -
  have e: "encodes fs v (encode_write fs v buf)" by (rule write_encodes [OF assms(3,4)])
  have l: "length (encode_write fs v buf) = encode_nbytes fs v" by (rule length_encoded [OF assms(3) e])
  show ?thesis
    using assms e l by (auto simp: do_write_standalone_def store_at_start_def length_write_at write_at_def)
qed

lemma do_write_some:
  assumes "\<not> IsAllFields (length fs) fmask" and "fmask \<noteq> 0" and "object_ok oks v"
    and obj: "object_ok oks obj" "encodes fs obj old"
    and room: "\<forall>k \<le> length (mask_fields (length fs) fmask).
      encode_nbytes fs (update_fields obj v (take k (mask_fields (length fs) fmask))) \<le> length (old @ junk)"
  shows "\<exists>buf'. do_write_standalone fs v fmask (old @ junk) = Inr buf' \<and> length buf' = length (old @ junk) \<and>
    (let new = update_fields obj v (mask_fields (length fs) fmask)
     in encodes fs new (take (encode_nbytes fs new) buf'))"
proof -
  let ?is = "mask_fields (length fs) fmask"
  let ?new = "update_fields obj v ?is"
  have s: "sorted_wrt (<) ?is" "set ?is \<subseteq> {..<length fs}" by (rule sorted_mask_fields)+
  have at: "at_field obj (wc_init (old @ junk))" using obj by (auto simp: at_field_def wc_init_def)
  have mem: "wc_mem (wc_init (old @ junk)) = old @ junk" "wc_n (wc_init (old @ junk)) = 0" by (simp_all add: wc_init_def)
  obtain c' where c': "write_fields fs ?is v (wc_init (old @ junk)) = Inr c'" "at_field ?new c'"
      "length (wc_mem c') = length (old @ junk)"
    using write_fields_at_field [OF at assms(3) s, unfolded mem] room by auto
  then obtain bs j where "wc_mem c' = bs @ j" "encodes fs ?new bs" "object_ok oks ?new"
    by (auto simp: at_field_def)
  then have "encodes fs ?new (take (encode_nbytes fs ?new) (wc_mem c'))"
    using length_encoded [of ?new bs] by simp
  then show ?thesis using assms(1,2) c' by (simp add: do_write_standalone_def Let_def)
qed

text \<open>A partial update stays inside the memory exactly when the record fits after each of its fields.\<close>

lemma do_write_some_overflow:
  assumes "\<not> IsAllFields (length fs) fmask" and "fmask \<noteq> 0" and "object_ok oks v"
    and obj: "object_ok oks obj" "encodes fs obj old"
  shows "do_write_standalone fs v fmask (old @ junk) = Inl Past_end \<longleftrightarrow>
    (\<exists>k \<le> length (mask_fields (length fs) fmask).
       length (old @ junk) < encode_nbytes fs (update_fields obj v (take k (mask_fields (length fs) fmask))))"
proof (cases "\<exists>k \<le> length (mask_fields (length fs) fmask).
    length (old @ junk) < encode_nbytes fs (update_fields obj v (take k (mask_fields (length fs) fmask)))")
  case True
  let ?is = "mask_fields (length fs) fmask" and ?c = "wc_init (old @ junk)"
  have at: "at_field obj ?c" using obj by (auto simp: at_field_def wc_init_def)
  have "\<exists>k \<le> length ?is. length (wc_mem ?c) < encode_nbytes fs (update_fields obj v (take k ?is))"
    using True by (simp add: wc_init_def)
  moreover have "\<forall>i \<in> set ?is. wc_n ?c \<le> i" by (simp add: wc_init_def)
  ultimately have "write_fields fs ?is v ?c = Inl Past_end"
    using write_fields_overflow [OF at assms(3) sorted_mask_fields] by blast
  then show ?thesis using True assms(1,2) by (simp add: do_write_standalone_def)
next
  case False
  then have "\<forall>k \<le> length (mask_fields (length fs) fmask).
      encode_nbytes fs (update_fields obj v (take k (mask_fields (length fs) fmask))) \<le> length (old @ junk)"
    using not_less by blast
  then show ?thesis using do_write_some [OF assms] False by fastforce
qed

lemma typed_writer_contract:
  assumes n: "length fs \<le> 64" "fs \<noteq> []" and max: "encode_max_nbytes fs < 2 ^ 32"
  shows "tuple_writer_contract (typed_writer fs fmask) (typed_updates fs oks fmask) (typed_size fs fmask)
    (typed_ok fs oks fmask) (typed_fits fs oks fmask)"
proof
  fix u :: "'v list" and old buf :: bytes
  assume ok: "typed_ok fs oks fmask u old"
  then have u: "fmask \<noteq> 0" "object_ok oks u" by (simp_all add: typed_ok_def)
  let ?is = "mask_fields (length fs) fmask"
  have all: "?is = [0..<length fs]" if "IsAllFields (length fs) fmask" by (rule all_fields [OF that n(1)])
  have upd: "update_fields obj u ?is = u" if "IsAllFields (length fs) fmask" "object_ok oks obj" for obj
    using update_all_fields [of u obj] object_ok_length [OF u(2)] object_ok_length [OF that(2)]
      same_length all [OF that(1)] by simp
  have size: "typed_size fs fmask u old = encode_nbytes fs u" if "old = [] \<or> IsAllFields (length fs) fmask"
  proof (cases "old = []")
    case False
    then obtain obj where "object_ok oks obj" "encodes fs obj old" using ok by (auto simp: typed_ok_def)
    then show ?thesis using typed_size_encoded(1) [of obj old u fmask] u(2) n(2) upd that False by simp
  qed (simp add: typed_size_def)
  show "0 < typed_size fs fmask u old"
  proof (cases "old = []")
    case True
    then show ?thesis using size record_nbytes_pos [OF u(2) n(2)] by simp
  next
    case False
    then obtain obj where o: "object_ok oks obj" "encodes fs obj old" using ok by (auto simp: typed_ok_def)
    have "object_ok oks (update_fields obj u ?is)"
      by (rule update_fields_ok [OF o(1) u(2)]) (rule sorted_mask_fields)
    then show ?thesis
      using typed_size_encoded(1) [OF o u(2) n(2)] record_nbytes_pos [OF _ n(2)] by simp
  qed
  show "w_needed (typed_writer fs fmask) u buf (length old) = Inr (typed_size fs fmask u old)"
    if len: "length old \<le> length buf" and pre: "take (length old) buf = old"
  proof (cases "old = []")
    case True
    then show ?thesis using u(1) by (simp add: typed_writer_def compute_needed_standalone_def typed_size_def)
  next
    case False
    then obtain obj where o: "object_ok oks obj" "encodes fs obj old" using ok by (auto simp: typed_ok_def)
    have "buf = old @ drop (length old) buf" using pre by (metis append_take_drop_id)
    then show ?thesis
      using compute_needed_encoded [OF o u(2) n(2) u(1) max, of "drop (length old) buf"]
      by (simp add: typed_writer_def)
  qed
  show "\<exists>buf'. w_write (typed_writer fs fmask) u buf (length old) = Inr buf' \<and> length buf' = length buf \<and>
      typed_updates fs oks fmask u old (take (typed_size fs fmask u old) buf')"
    if fit: "typed_fits fs oks fmask u old (length buf)"
      and pre: "w_needs_old (typed_writer fs fmask) \<Longrightarrow> length old \<le> length buf \<and> take (length old) buf = old"
      and room: "typed_size fs fmask u old \<le> length buf"
  proof (cases "IsAllFields (length fs) fmask")
    case True
    obtain buf' where "do_write_standalone fs u fmask buf = Inr buf'" "length buf' = length buf"
        "encodes fs u (take (encode_nbytes fs u) buf')"
      using do_write_all [OF True u(1,2), of buf] room size True by auto
    then show ?thesis
      using size True upd [OF True] ok
      by (cases "old = []") (fastforce simp: typed_writer_def typed_updates_def typed_ok_def)+
  next
    case False
    then obtain obj where o: "object_ok oks obj" "encodes fs obj old" and ne: "old \<noteq> []"
      using ok by (auto simp: typed_ok_def split: if_splits)
    have b: "buf = old @ drop (length old) buf"
      using pre by (metis append_take_drop_id typed_writer_def tuple_writer.select_convs(1))
    obtain buf' where "do_write_standalone fs u fmask buf = Inr buf'" "length buf' = length buf"
        "encodes fs (update_fields obj u ?is) (take (encode_nbytes fs (update_fields obj u ?is)) buf')"
      using do_write_some [OF False u o, of "drop (length old) buf", folded b] fit False o
      by (auto simp: typed_fits_def Let_def)
    then show ?thesis
      using typed_size_encoded(1) [OF o u(2) n(2)] o ne by (auto simp: typed_writer_def typed_updates_def)
  qed
qed

end

section \<open>Typed records in tuples\<close>

lemma max_nbytes_bound:
  "\<forall>t \<in> set ts. sizeof_type t \<le> n \<Longrightarrow> 5 \<le> n \<Longrightarrow> encode_max_nbytes (value_descriptor ts) \<le> n * length ts"
proof (induction ts)
  case (Cons t ts)
  have "max_nbytes (value_field t) \<le> max 5 (sizeof_type t)" by (cases t) (simp_all add: nbytes_eval)
  also have "\<dots> \<le> n" using Cons.prems by simp
  finally show ?case using Cons by (simp add: value_descriptor_def add_mono)
qed (simp add: value_descriptor_def)

lemma tpcc_layout:
  assumes "ts \<in> set tpcc_values"
  shows "record_layout (value_descriptor ts) (map value_ok ts)" "length (value_descriptor ts) \<le> 64"
    "value_descriptor ts \<noteq> []" "encode_max_nbytes (value_descriptor ts) < 2 ^ 32"
proof -
  show "record_layout (value_descriptor ts) (map value_ok ts)"
    using assms by (intro value_layout tpcc_sized) simp
  show "length (value_descriptor ts) \<le> 64" "value_descriptor ts \<noteq> []"
    using assms by (auto simp: value_descriptor_def tpcc_values_def schema_defs)
  show "encode_max_nbytes (value_descriptor ts) < 2 ^ 32"
  proof -
    have "\<forall>t \<in> set ts. sizeof_type t \<le> 600" and "length ts \<le> 20"
      using assms by (auto simp: tpcc_values_def schema_defs)
    then have "encode_max_nbytes (value_descriptor ts) \<le> 600 * 20"
      using max_nbytes_bound [of ts 600] by simp
    then show ?thesis by simp
  qed
qed

text \<open>The typed writer for each schema of the benchmark.\<close>

lemma tpcc_writer:
  "ts \<in> set tpcc_values \<Longrightarrow>
   tuple_writer_contract (typed_writer (value_descriptor ts) fmask)
     (typed_updates (value_descriptor ts) (map value_ok ts) fmask) (typed_size (value_descriptor ts) fmask)
     (typed_ok (value_descriptor ts) (map value_ok ts) fmask) (typed_fits (value_descriptor ts) (map value_ok ts) fmask)"
  using record_layout.typed_writer_contract [OF tpcc_layout] by blast

interpretation stock_writer: tuple_writer_contract "typed_writer (value_descriptor stock_value) fmask"
  "typed_updates (value_descriptor stock_value) (map value_ok stock_value) fmask"
  "typed_size (value_descriptor stock_value) fmask"
  "typed_ok (value_descriptor stock_value) (map value_ok stock_value) fmask"
  "typed_fits (value_descriptor stock_value) (map value_ok stock_value) fmask" for fmask
  by (rule tpcc_writer) (simp add: tpcc_values_def)

lemma write_effect_head:
  assumes "write_effect H p ps w (t, val) ret H'"
  shows "\<exists>y. cells H' (head_tuple ret) = Some y \<and> tversion y = t \<and> tuple_value y = val"
proof -
  obtain ps' vs where c: "chain (cells H') (Some (head_tuple ret)) ps'" "versions (cells H') ps' = (t, val) # vs"
    using assms unfolding write_effect_def by (auto split: if_splits)
  then obtain ps'' where ps': "ps' = head_tuple ret # ps''" by (cases ps') (auto simp: versions_def)
  then obtain y where "cells H' (head_tuple ret) = Some y" using c(1) by auto
  then show ?thesis using c(2) by (auto simp: versions_def ps')
qed

text \<open>
  Property C27 (partial updates). For every value schema of the benchmark, writing the fields of a mask to a
  stored record leaves a tuple at the new id whose record decodes to the old object with exactly those fields replaced,
  provided that the tuple is not deleted, that the new record has at most 65535 bytes, and, when the mask is not that of
  all fields, that the record fits the destination after each field that is written. The last condition is the exact
  one: without it the writer leaves its buffer (property C34).
\<close>

theorem typed_write_then_read:
  assumes ts: "ts \<in> set tpcc_values"
    and heap: "heap_ok H" "chain (cells H) (Some p) (p # ps)" "cells H p = Some x" "buffer_ok x"
    and rcd: "\<not> IsDeleting (hdr x)" "well_typed ts obj" "encodes (value_descriptor ts) obj (old_record x)"
    and v: "well_typed ts v" "fmask \<noteq> 0"
    and small: "encode_nbytes (value_descriptor ts) (update_fields obj v (mask_fields (length ts) fmask)) \<le> 65535"
    and room: "IsAllFields (length ts) fmask \<or> (\<forall>k \<le> length (mask_fields (length ts) fmask).
      encode_nbytes (value_descriptor ts) (update_fields obj v (take k (mask_fields (length ts) fmask))) \<le>
      write_room True (encode_nbytes (value_descriptor ts) (update_fields obj v (mask_fields (length ts) fmask))) x)"
  shows "\<exists>ret H' y new. write_record_at (typed_writer (value_descriptor ts) fmask) H p t (Some v) = Inr (ret, H') \<and>
    cells H' (head_tuple ret) = Some y \<and> tversion y = t \<and> tuple_value y = Some new \<and>
    encode_read (value_descriptor ts) new = Inr (update_fields obj v (mask_fields (length ts) fmask), [])"
proof -
  let ?fs = "value_descriptor ts" and ?oks = "map value_ok ts"
  note L = tpcc_layout [OF ts]
  note C = tpcc_writer [OF ts, of fmask]
  have len: "length ?fs = length ts" by (simp add: value_descriptor_def)
  have ok: "object_ok ?oks obj" "object_ok ?oks v" using rcd(2) v(1) by (simp_all add: well_typed_def)
  have uniq: "obj' = obj" if "object_ok ?oks obj'" "encodes ?fs obj' (old_record x)" for obj'
    using record_layout.read_encoded [OF L(1) that, of "[]"]
      record_layout.read_encoded [OF L(1) ok(1) rcd(3), of "[]"] by simp
  have ne: "old_record x \<noteq> []" by (rule record_layout.typed_size_encoded(3) [OF L(1) ok(1) rcd(3) ok(2) L(3)])
  have sz: "typed_size ?fs fmask v (old_record x) = encode_nbytes ?fs (update_fields obj v (mask_fields (length ts) fmask))"
    using record_layout.typed_size_encoded(1) [OF L(1) ok(1) rcd(3) ok(2) L(3)] len by simp
  have nl: "tuple_writer_contract.new_len (typed_size ?fs fmask) (Some v) x =
      encode_nbytes ?fs (update_fields obj v (mask_fields (length ts) fmask))"
    using sz by (simp add: tuple_writer_contract.new_len_def [OF C])
  have fit: "typed_fits ?fs ?oks fmask v (old_record x)
      (write_room True (encode_nbytes ?fs (update_fields obj v (mask_fields (length ts) fmask))) x)"
    unfolding typed_fits_def len using room uniq by blast
  have tok: "typed_ok ?fs ?oks fmask v (old_record x)"
    using v(2) ok ne rcd(3) by (auto simp: typed_ok_def)
  have no: "w_needs_old (typed_writer ?fs fmask)" by (simp add: typed_writer_def)
  have "tuple_writer_contract.applicable (typed_writer ?fs fmask) (typed_size ?fs fmask)
      (typed_ok ?fs ?oks fmask) (typed_fits ?fs ?oks fmask) (Some v) x"
    unfolding tuple_writer_contract.applicable_def [OF C] nl
    using heap(4) rcd(1) small fit tok no by simp
  from tuple_writer_contract.write_record_at_effect [OF C heap(1-3) this] obtain ret H' val
    where w: "write_record_at (typed_writer ?fs fmask) H p t (Some v) = Inr (ret, H')"
      "tuple_writer_contract.valid_new (typed_updates ?fs ?oks fmask) (Some v) x val"
      "write_effect H p ps (tversion x) (t, val) ret H'" by blast
  obtain new where new: "val = Some new" "typed_updates ?fs ?oks fmask v (old_record x) new"
    using w(2) by (auto simp: tuple_writer_contract.valid_new_def [OF C])
  then have enc: "encodes ?fs (update_fields obj v (mask_fields (length ts) fmask)) new"
    using ne uniq by (auto simp: typed_updates_def len)
  have ok': "object_ok ?oks (update_fields obj v (mask_fields (length ts) fmask))"
    using record_layout.update_fields_ok [OF L(1) ok, of "mask_fields (length ts) fmask"]
      sorted_mask_fields(2) [of "length ts" fmask] len by simp
  have "encode_read ?fs new = Inr (update_fields obj v (mask_fields (length ts) fmask), [])"
    using record_layout.read_encoded [OF L(1) ok' enc, of "[]"] by simp
  then show ?thesis using w(1) write_effect_head [OF w(3)] new(1) by blast
qed

theorem typed_write_then_read_witness:
  "\<exists>H ret H' y new. write_record_at (typed_writer (value_descriptor customer_name_idx_value) 1) H 0 9 (Some [V_int 100000]) =
      Inr (ret, H') \<and>
    cells H' (head_tuple ret) = Some y \<and> tversion y = 9 \<and> tuple_value y = Some new \<and>
    encode_read (value_descriptor customer_name_idx_value) new = Inr ([V_int 100000], [])"
proof -
  let ?ts = "customer_name_idx_value"
  let ?x = "\<lparr>hdr = 21, tversion = 5, tsize = 1, alloc_size = 4, tnext = None, value_start = [10, 0, 0, 0]\<rparr>"
  let ?H = "\<lparr>cells = [0 \<mapsto> ?x], brk = 1, raw = (\<lambda>_ _. 0)\<rparr>"
  have ts: "?ts \<in> set tpcc_values" by (simp add: tpcc_values_def)
  have h: "heap_ok ?H" "chain (cells ?H) (Some 0) (0 # [])" "cells ?H 0 = Some ?x" "buffer_ok ?x"
    by (simp_all add: heap_ok_def buffer_ok_def)
  have live: "\<not> IsDeleting (hdr ?x)" unfolding hdr_flag_bits by simp
  have enc: "encodes (value_descriptor ?ts) [V_int 5] (old_record ?x)"
    using small_order_encodes by (simp add: old_record_def)
  have wt: "well_typed ?ts [V_int 5]" "well_typed ?ts [V_int 100000]"
    by (simp_all add: well_typed_def schema_defs)
  have mf: "mask_fields (length ?ts) 1 = [0]" by (simp add: mask_fields_def schema_defs)
  have nb: "encode_nbytes (value_descriptor ?ts) [V_int 5] = 1" "encode_nbytes (value_descriptor ?ts) [V_int 100000] = 3"
    by (simp_all add: schema_defs nbytes_eval zigzag_encode_def sign_fill)
  have upd: "update_fields [V_int 5] [V_int 100000] [0] = [V_int 100000]" by simp
  have room: "\<forall>k \<le> length (mask_fields (length ?ts) 1).
      encode_nbytes (value_descriptor ?ts) (update_fields [V_int 5] [V_int 100000] (take k (mask_fields (length ?ts) 1))) \<le>
      write_room True (encode_nbytes (value_descriptor ?ts)
        (update_fields [V_int 5] [V_int 100000] (mask_fields (length ?ts) 1))) ?x"
    unfolding mf upd nb using live nb by (auto simp: write_room_def old_size_def le_Suc_eq)
  show ?thesis
    using typed_write_then_read [OF ts h live wt(1) enc wt(2) _ _ disjI2 [OF room], of 9] unfolding mf upd nb
    by (intro exI [of _ ?H]) simp
qed

text \<open>
  Property C34 (when a partial update leaves its buffer). \<^verbatim>\<open>compute_needed()\<close> announces the size of the record after
  the whole update, and the caller of the writer reserves no more than that and the old record. The writer replaces the fields of the
  mask one after the other, and touches memory behind the destination exactly when after some of the fields the record
  is longer than the destination. So an update in which an earlier field grows before a later one shrinks can
  overflow a destination of the announced size.
\<close>

theorem typed_write_overflow:
  assumes "ts \<in> set tpcc_values" and "well_typed ts obj" and "well_typed ts v" and "encodes (value_descriptor ts) obj old"
    and "fmask \<noteq> 0" and "\<not> IsAllFields (length ts) fmask"
  shows "compute_needed_standalone (value_descriptor ts) v fmask (old @ junk) (length old) =
      Inr (encode_nbytes (value_descriptor ts) (update_fields obj v (mask_fields (length ts) fmask))) \<and>
    (do_write_standalone (value_descriptor ts) v fmask (old @ junk) = Inl Past_end \<longleftrightarrow>
      (\<exists>k \<le> length (mask_fields (length ts) fmask). length (old @ junk) <
         encode_nbytes (value_descriptor ts) (update_fields obj v (take k (mask_fields (length ts) fmask)))))"
proof -
  note L = tpcc_layout [OF assms(1)]
  have len: "length (value_descriptor ts) = length ts" by (simp add: value_descriptor_def)
  have ok: "object_ok (map value_ok ts) obj" "object_ok (map value_ok ts) v" using assms(2,3) by (simp_all add: well_typed_def)
  have "compute_needed_standalone (value_descriptor ts) v fmask (old @ junk) (length old) =
      Inr (encode_nbytes (value_descriptor ts) (update_fields obj v (mask_fields (length ts) fmask)))"
    using record_layout.compute_needed_encoded [OF L(1) ok(1) assms(4) ok(2) L(3) assms(5) L(4)]
      record_layout.typed_size_encoded(1) [OF L(1) ok(1) assms(4) ok(2) L(3)] len by simp
  then show ?thesis
    using record_layout.do_write_some_overflow [OF L(1) _ assms(5) ok(2,1) assms(4)] assms(6) len by simp
qed

text \<open>
  An order of eight bytes whose first field grows and whose second shrinks by as much: the announced size is eight, which is
  also what the tuple's allocation provides, and the update overflows it.
\<close>

theorem typed_write_overflow_witness:
  "\<exists>obj v buf. well_typed oorder_value obj \<and> well_typed oorder_value v \<and> alloc_sz (length buf) - sizeof_dbtuple = length buf \<and>
     compute_needed_standalone (value_descriptor oorder_value) v 3 buf (length buf) = Inr (length buf) \<and>
     do_write_standalone (value_descriptor oorder_value) v 3 buf = Inl Past_end"
proof -
  let ?fs = "value_descriptor oorder_value"
  let ?obj = "[V_int 0, V_int 1048576, V_obj [3], V_obj [1], V_int 0]"
  let ?v = "[V_int 1048576, V_int 0, V_obj [3], V_obj [1], V_int 0]"
  let ?buf = "encode_string ?fs ?obj"
  have ts: "oorder_value \<in> set tpcc_values" by (simp add: tpcc_values_def)
  have wt: "well_typed oorder_value ?obj" "well_typed oorder_value ?v"
    by (simp_all add: well_typed_def schema_defs)
  have len: "length ?buf = 8" by code_simp
  have "alloc_sz 8 - sizeof_dbtuple = 8"
    using round_up_16 [of 32] by (simp add: alloc_sz_def sizeof_dbtuple_def LgAllocAlignment_def max_node_size_def)
  then have al: "alloc_sz (length ?buf) - sizeof_dbtuple = length ?buf" unfolding len .
  have ok: "object_ok (map value_ok oorder_value) ?obj" using wt(1) by (simp add: well_typed_def)
  have enc: "encodes ?fs ?obj ?buf"
    unfolding encode_string_def by (rule record_layout.write_encodes [OF tpcc_layout(1) [OF ts] ok]) simp
  have part: "(3 :: u64) \<noteq> 0" "\<not> IsAllFields (length oorder_value) 3" by code_simp+
  note T = typed_write_overflow [OF ts wt enc part, of "[]", unfolded append_Nil2 len]
  have "encode_nbytes ?fs (update_fields ?obj ?v (mask_fields (length oorder_value) 3)) = 8"
      "1 \<le> length (mask_fields (length oorder_value) 3)"
      "8 < encode_nbytes ?fs (update_fields ?obj ?v (take 1 (mask_fields (length oorder_value) 3)))" by code_simp+
  then have "compute_needed_standalone ?fs ?v 3 ?buf 8 = Inr 8" "do_write_standalone ?fs ?v 3 ?buf = Inl Past_end"
    using T by auto
  then show ?thesis using wt al by (intro exI [of _ ?obj] exI [of _ ?v] exI [of _ ?buf]) (simp add: len)
qed

text \<open>
  The size of a record written over a deleted one. A logical delete leaves the key in the tuple
  and its length in \<^verbatim>\<open>size\<close>, and \<^verbatim>\<open>write_record_at\<close> hands both to the writer as if they were the old record. For
  an order the typed writer then announces seven bytes more than the record's encoding has, and for a key
  with negative components it runs into the assertion of the varint skip.
\<close>

theorem typed_rewrite_of_deleted:
  "let fs = value_descriptor oorder_value;
       v = [V_int 7, V_int 0, V_obj [3], V_obj [1], V_int 0];
       key = encode_string (key_descriptor oorder_key) [V_int 1, V_int 2, V_int 3];
       neg = encode_string (key_descriptor oorder_key) [V_int (- 1), V_int (- 1), V_int 3]
   in length key = 12 \<and> IsAllFields (length fs) 31 \<and>
      compute_needed_standalone fs v 31 key (length key) = Inr (encode_nbytes fs v + 7) \<and>
      compute_needed_standalone fs v 31 neg (length neg) = Inl Assert_failed"
proof -
  have "length (encode_string (key_descriptor oorder_key) [V_int 1, V_int 2, V_int 3]) = 12"
    "IsAllFields (length (value_descriptor oorder_value)) 31" by code_simp+
  moreover have "compute_needed_standalone (value_descriptor oorder_value) [V_int 7, V_int 0, V_obj [3], V_obj [1], V_int 0] 31
      (encode_string (key_descriptor oorder_key) [V_int 1, V_int 2, V_int 3])
      (length (encode_string (key_descriptor oorder_key) [V_int 1, V_int 2, V_int 3])) =
    Inr (encode_nbytes (value_descriptor oorder_value) [V_int 7, V_int 0, V_obj [3], V_obj [1], V_int 0] + 7)"
    by code_simp
  moreover have "compute_needed_standalone (value_descriptor oorder_value) [V_int 7, V_int 0, V_obj [3], V_obj [1], V_int 0] 31
      (encode_string (key_descriptor oorder_key) [V_int (- 1), V_int (- 1), V_int 3])
      (length (encode_string (key_descriptor oorder_key) [V_int (- 1), V_int (- 1), V_int 3])) = Inl Assert_failed"
    by code_simp
  ultimately show ?thesis unfolding Let_def by blast
qed

text \<open>
  Property C35 (partial reads). Reading a mask of fields from a stored TPC-C record succeeds and puts
  exactly these fields of the stored object into the caller's struct, whether the mask takes the path
  through the struct decoder (all fields) or the one through the cursor.
\<close>

theorem typed_read_fields:
  assumes "ts \<in> set tpcc_values" and "well_typed ts obj" and "encodes (value_descriptor ts) obj bs"
    and "length v = length ts"
  shows "do_record_read (value_descriptor ts) bs (length bs) fmask v =
    Inr (True, update_fields v obj (mask_fields (length ts) fmask))"
proof -
  let ?fs = "value_descriptor ts"
  note L = tpcc_layout [OF assms(1)]
  have len: "length ?fs = length ts" by (simp add: value_descriptor_def)
  have ok: "object_ok (map value_ok ts) obj" using assms(2) by (simp add: well_typed_def)
  show ?thesis
  proof (cases "IsAllFields (length ?fs) fmask")
    case True
    have "encode_failsafe_read ?fs (bs @ []) (length bs) = Inr (Some obj)"
      using record_layout.failsafe_read_encoded [OF L(1) ok assms(3), of "[]" "length bs"]
        record_layout.length_encoded [OF L(1) ok assms(3)] by simp
    moreover have "update_fields v obj (mask_fields (length ts) fmask) = obj"
      using all_fields [OF True L(2)] update_all_fields [of obj v] object_ok_length [OF ok] assms(4) len by simp
    ultimately show ?thesis using True by (simp add: do_record_read_def)
  next
    case False
    have "record_layout.reading ?fs (map value_ok ts) obj (length bs) (rc_init (bs @ []) (length bs))"
      by (rule record_layout.reading_init [OF L(1) ok assms(3) le_refl])
    then have "read_fields ?fs (mask_fields (length ?fs) fmask) (rc_init bs (length bs)) v =
        Inr (True, update_fields v obj (mask_fields (length ?fs) fmask))"
      using record_layout.read_fields_reading [OF L(1) _ sorted_mask_fields] by (simp add: rc_init_def)
    then show ?thesis using False len by (simp add: do_record_read_def)
  qed
qed

theorem typed_read_fields_witness:
  "do_record_read (value_descriptor customer_name_idx_value) [10] (length [10 :: u8]) 1 [V_int 0] =
   Inr (True, update_fields [V_int 0] [V_int 5] (mask_fields (length customer_name_idx_value) 1))"
  by (rule typed_read_fields)
    (simp_all add: tpcc_values_def well_typed_def small_order_encodes, simp_all add: schema_defs)

end
