(* ===== verification/Small_Vector.thy ===== *)
theory Small_Vector
  imports Silo_Prelude "HOL-Library.Multiset"
begin

text \<open>
  The vectors of the read and write sets (\<^verbatim>\<open>src/src/small_vector.h\<close>, \<^verbatim>\<open>src/src/static_vector.h\<close>): a buffer
  inside the object that moves to a \<^verbatim>\<open>std::vector\<close> once it is full, and one that never grows. Both
  implement the contract \<open>vector\<close>, whose client lemmas are about every run of operations.
\<close>

section \<open>The vector contract\<close>

datatype 'a vec_op = Push 'a | Pop | Put nat 'a | Clear

fun list_op :: "'a vec_op \<Rightarrow> 'a list \<Rightarrow> 'a list" where
  "list_op (Push x) xs = xs @ [x]"
| "list_op Pop xs = butlast xs"
| "list_op (Put i x) xs = xs[i := x]"
| "list_op Clear xs = []"

text \<open>Which operations a list of elements admits, in a vector that may hold \<open>cap\<close> elements.\<close>

fun op_ok :: "nat option \<Rightarrow> 'a vec_op \<Rightarrow> 'a list \<Rightarrow> bool" where
  "op_ok cap (Push x) xs \<longleftrightarrow> (case cap of None \<Rightarrow> True | Some n \<Rightarrow> length xs < n)"
| "op_ok cap Pop xs \<longleftrightarrow> xs \<noteq> []"
| "op_ok cap (Put i x) xs \<longleftrightarrow> i < length xs"
| "op_ok cap Clear xs \<longleftrightarrow> True"

fun ops_ok :: "nat option \<Rightarrow> 'a vec_op list \<Rightarrow> 'a list \<Rightarrow> bool" where
  "ops_ok cap [] xs \<longleftrightarrow> True"
| "ops_ok cap (a # as) xs \<longleftrightarrow> op_ok cap a xs \<and> ops_ok cap as (list_op a xs)"

fun run_ops :: "('a vec_op \<Rightarrow> 'c \<Rightarrow> mem_error + 'c) \<Rightarrow> 'a vec_op list \<Rightarrow> 'c \<Rightarrow> mem_error + 'c" where
  "run_ops step [] c = Inr c"
| "run_ops step (a # as) c = sbind (step a c) (run_ops step as)"

locale vector =
  fixes ok :: "'c \<Rightarrow> bool" and abs :: "'c \<Rightarrow> 'a list" and cap :: "'c \<Rightarrow> nat option"
    and step :: "'a vec_op \<Rightarrow> 'c \<Rightarrow> mem_error + 'c"
    and vsize :: "'c \<Rightarrow> nat" and get :: "'c \<Rightarrow> nat \<Rightarrow> mem_error + 'a"
  assumes vsize: "ok c \<Longrightarrow> vsize c = length (abs c)"
    and get: "ok c \<Longrightarrow> i < length (abs c) \<Longrightarrow> get c i = Inr (abs c ! i)"
    and step: "ok c \<Longrightarrow> op_ok (cap c) a (abs c) \<Longrightarrow>
      \<exists>c'. step a c = Inr c' \<and> ok c' \<and> abs c' = list_op a (abs c) \<and> cap c' = cap c"
begin

lemma run_refines:
  "ok c \<Longrightarrow> ops_ok (cap c) as (abs c) \<Longrightarrow>
     \<exists>c'. run_ops step as c = Inr c' \<and> ok c' \<and> abs c' = fold list_op as (abs c) \<and> cap c' = cap c"
proof (induction as arbitrary: c)
  case (Cons a as)
  then obtain c1 where c1: "step a c = Inr c1" "ok c1" "abs c1 = list_op a (abs c)" "cap c1 = cap c"
    using step [of c a] by auto
  then show ?case using Cons.IH [of c1] Cons.prems(2) by auto
qed simp

text \<open>Reading every index of a vector gives its elements.\<close>

lemma run_reads:
  assumes "ok c" and "ops_ok (cap c) as (abs c)"
  shows "\<exists>c'. run_ops step as c = Inr c' \<and> vsize c' = length (fold list_op as (abs c)) \<and>
    (\<forall>i < vsize c'. get c' i = Inr (fold list_op as (abs c) ! i))"
  using run_refines [OF assms] vsize get by metis

end

section \<open>small_vector\<close>

text \<open>The slots of the inline buffer (\<open>None\<close>: never constructed); their number is \<^verbatim>\<open>SmallSize\<close>.\<close>

record 'a small_vector =
  sv_n :: nat
  sv_buf :: "'a option list"
  sv_large :: "'a list option"

definition sv_new :: "nat \<Rightarrow> 'a small_vector" where
  "sv_new SmallSize = \<lparr>sv_n = 0, sv_buf = replicate SmallSize None, sv_large = None\<rparr>"

definition slot :: "'a option list \<Rightarrow> nat \<Rightarrow> mem_error + 'a" where
  "slot buf i =
     (if i < length buf then case buf ! i of None \<Rightarrow> Inl Past_end | Some x \<Rightarrow> Inr x else Inl Past_end)"

definition at_index :: "'a list \<Rightarrow> nat \<Rightarrow> mem_error + 'a" where
  "at_index xs i = (if i < length xs then Inr (xs ! i) else Inl Past_end)"

definition sv_size :: "'a small_vector \<Rightarrow> nat" where
  "sv_size v = (case sv_large v of Some xs \<Rightarrow> length xs | None \<Rightarrow> sv_n v)"

definition sv_empty :: "'a small_vector \<Rightarrow> bool" where
  "sv_empty v \<longleftrightarrow> sv_size v = 0"

definition sv_index :: "'a small_vector \<Rightarrow> nat \<Rightarrow> mem_error + 'a" where
  "sv_index v i = (case sv_large v of Some xs \<Rightarrow> at_index xs i | None \<Rightarrow> slot (sv_buf v) i)"

text \<open>Storing through the reference \<^verbatim>\<open>operator[]\<close> returns.\<close>

definition sv_put :: "nat \<Rightarrow> 'a \<Rightarrow> 'a small_vector \<Rightarrow> mem_error + 'a small_vector" where
  "sv_put i x v =
     (case sv_large v of
        Some xs \<Rightarrow> if i < length xs then Inr (v\<lparr>sv_large := Some (xs[i := x])\<rparr>) else Inl Past_end
      | None \<Rightarrow> if i < length (sv_buf v) then Inr (v\<lparr>sv_buf := (sv_buf v)[i := Some x]\<rparr>) else Inl Past_end)"

definition sv_front :: "'a small_vector \<Rightarrow> mem_error + 'a" where
  "sv_front v = (case sv_large v of Some xs \<Rightarrow> at_index xs 0 | None \<Rightarrow> slot (sv_buf v) 0)"

definition sv_back :: "'a small_vector \<Rightarrow> mem_error + 'a" where
  "sv_back v =
     (case sv_large v of
        Some xs \<Rightarrow> if xs = [] then Inl Past_end else Inr (last xs)
      | None \<Rightarrow> if sv_n v = 0 then Inl Past_end else slot (sv_buf v) (sv_n v - 1))"

definition sv_pop_back :: "'a small_vector \<Rightarrow> mem_error + 'a small_vector" where
  "sv_pop_back v =
     (case sv_large v of
        Some xs \<Rightarrow> if xs = [] then Inl Past_end else Inr (v\<lparr>sv_large := Some (butlast xs)\<rparr>)
      | None \<Rightarrow> if sv_n v = 0 then Inl Past_end else Inr (v\<lparr>sv_n := sv_n v - 1\<rparr>))"

definition sv_emplace_back :: "'a \<Rightarrow> 'a small_vector \<Rightarrow> mem_error + 'a small_vector" where
  "sv_emplace_back x v =
     (case sv_large v of
        Some xs \<Rightarrow> Inr (v\<lparr>sv_large := Some (xs @ [x])\<rparr>)
      | None \<Rightarrow>
          if sv_n v = length (sv_buf v)
          then Inr (v\<lparr>sv_large := Some (map the (take (sv_n v) (sv_buf v)) @ [x]), sv_n := 0\<rparr>)
          else if sv_n v < length (sv_buf v)
          then Inr (v\<lparr>sv_buf := (sv_buf v)[sv_n v := Some x], sv_n := sv_n v + 1\<rparr>)
          else Inl Past_end)"

definition sv_clear :: "'a small_vector \<Rightarrow> 'a small_vector" where
  "sv_clear v =
     (case sv_large v of Some xs \<Rightarrow> v\<lparr>sv_large := Some []\<rparr> | None \<Rightarrow> v\<lparr>sv_n := 0\<rparr>)"

definition sv_clearDestructive :: "'a small_vector \<Rightarrow> 'a small_vector" where
  "sv_clearDestructive v =
     (case sv_large v of Some xs \<Rightarrow> v\<lparr>sv_large := None\<rparr> | None \<Rightarrow> v\<lparr>sv_n := 0\<rparr>)"

definition sv_is_small_type :: "'a small_vector \<Rightarrow> bool" where
  "sv_is_small_type v \<longleftrightarrow> sv_large v = None"

text \<open>
  \<^verbatim>\<open>std::sort\<close> with a comparator \<open>c\<close> rearranges the elements so that no element is less than one before it. The order of
  equal elements is unspecified, so the sorting function \<open>srt\<close> is a parameter and this is all that is asked of it.
\<close>

definition std_sort :: "('a \<Rightarrow> 'a \<Rightarrow> bool) \<Rightarrow> ('a list \<Rightarrow> 'a list) \<Rightarrow> bool" where
  "std_sort c srt \<longleftrightarrow> (\<forall>xs. mset (srt xs) = mset xs \<and> sorted_wrt (\<lambda>x y. \<not> c y x) (srt xs))"

definition sv_sort :: "('a list \<Rightarrow> 'a list) \<Rightarrow> 'a small_vector \<Rightarrow> 'a small_vector" where
  "sv_sort srt v =
     (case sv_large v of
        Some xs \<Rightarrow> v\<lparr>sv_large := Some (srt xs)\<rparr>
      | None \<Rightarrow> v\<lparr>sv_buf := map Some (srt (map the (take (sv_n v) (sv_buf v)))) @ drop (sv_n v) (sv_buf v)\<rparr>)"

text \<open>\<^verbatim>\<open>assignFrom\<close> for two different objects of the same type.\<close>

definition sv_assignFrom :: "'a small_vector \<Rightarrow> 'a small_vector \<Rightarrow> 'a small_vector" where
  "sv_assignFrom that v =
     (let w = sv_clearDestructive v
      in case sv_large that of
           Some xs \<Rightarrow> w\<lparr>sv_large := Some xs\<rparr>
         | None \<Rightarrow> w\<lparr>sv_buf := write_at 0 (take (sv_n that) (sv_buf that)) (sv_buf w), sv_n := sv_n that\<rparr>)"

fun sv_push_all :: "'a list \<Rightarrow> 'a small_vector \<Rightarrow> mem_error + 'a small_vector" where
  "sv_push_all [] v = Inr v"
| "sv_push_all (x # xs) v = sbind (sv_emplace_back x v) (sv_push_all xs)"

definition sv_of_list :: "nat \<Rightarrow> 'a list \<Rightarrow> mem_error + 'a small_vector" where
  "sv_of_list SmallSize l =
     (if SmallSize < length l then Inr ((sv_new SmallSize)\<lparr>sv_large := Some l\<rparr>)
      else sv_push_all l (sv_new SmallSize))"

section \<open>Iterators of small_vector\<close>

text \<open>A position in the inline buffer, or one in the large vector.\<close>

record sv_iterator =
  it_large :: bool
  small_it :: nat
  large_it :: nat

definition sv_begin :: "'a small_vector \<Rightarrow> sv_iterator" where
  "sv_begin v = \<lparr>it_large = (sv_large v \<noteq> None), small_it = 0, large_it = 0\<rparr>"

definition sv_end :: "'a small_vector \<Rightarrow> sv_iterator" where
  "sv_end v =
     (case sv_large v of
        Some xs \<Rightarrow> \<lparr>it_large = True, small_it = 0, large_it = length xs\<rparr>
      | None \<Rightarrow> \<lparr>it_large = False, small_it = sv_n v, large_it = 0\<rparr>)"

definition it_deref :: "'a small_vector \<Rightarrow> sv_iterator \<Rightarrow> mem_error + 'a" where
  "it_deref v i =
     (if it_large i then case sv_large v of Some xs \<Rightarrow> at_index xs (large_it i) | None \<Rightarrow> Inl Past_end
      else slot (sv_buf v) (small_it i))"

definition it_eq :: "sv_iterator \<Rightarrow> sv_iterator \<Rightarrow> bool" where
  "it_eq i j \<longleftrightarrow> (if it_large i then large_it i = large_it j else small_it i = small_it j)"

definition it_incr :: "sv_iterator \<Rightarrow> sv_iterator" where
  "it_incr i = (if it_large i then i\<lparr>large_it := large_it i + 1\<rparr> else i\<lparr>small_it := small_it i + 1\<rparr>)"

text \<open>A loop \<^verbatim>\<open>for (; it != it_end; ++it)\<close> that collects the elements, with fuel.\<close>

fun sv_iterate :: "nat \<Rightarrow> 'a small_vector \<Rightarrow> sv_iterator \<Rightarrow> sv_iterator \<Rightarrow> mem_error + 'a list option" where
  "sv_iterate 0 v i e = (if it_eq i e then Inr (Some []) else Inr None)"
| "sv_iterate (Suc fuel) v i e =
     (if it_eq i e then Inr (Some [])
      else sbind (it_deref v i) (\<lambda>x.
           sbind (sv_iterate fuel v (it_incr i) e) (\<lambda>xs. Inr (map_option ((#) x) xs))))"

section \<open>static_vector\<close>

record 'a static_vector =
  st_n :: nat
  st_buf :: "'a option list"

definition st_new :: "nat \<Rightarrow> 'a static_vector" where
  "st_new StaticSize = \<lparr>st_n = 0, st_buf = replicate StaticSize None\<rparr>"

definition st_size :: "'a static_vector \<Rightarrow> nat" where
  "st_size v = st_n v"

definition st_index :: "'a static_vector \<Rightarrow> nat \<Rightarrow> mem_error + 'a" where
  "st_index v i = slot (st_buf v) i"

definition st_put :: "nat \<Rightarrow> 'a \<Rightarrow> 'a static_vector \<Rightarrow> mem_error + 'a static_vector" where
  "st_put i x v =
     (if i < length (st_buf v) then Inr (v\<lparr>st_buf := (st_buf v)[i := Some x]\<rparr>) else Inl Past_end)"

definition st_front :: "'a static_vector \<Rightarrow> mem_error + 'a" where
  "st_front v = slot (st_buf v) 0"

definition st_back :: "'a static_vector \<Rightarrow> mem_error + 'a" where
  "st_back v = (if st_n v = 0 then Inl Past_end else slot (st_buf v) (st_n v - 1))"

definition st_pop_back :: "'a static_vector \<Rightarrow> mem_error + 'a static_vector" where
  "st_pop_back v = (if st_n v = 0 then Inl Past_end else Inr (v\<lparr>st_n := st_n v - 1\<rparr>))"

definition st_emplace_back :: "'a \<Rightarrow> 'a static_vector \<Rightarrow> mem_error + 'a static_vector" where
  "st_emplace_back x v =
     (if st_n v < length (st_buf v)
      then Inr (v\<lparr>st_buf := (st_buf v)[st_n v := Some x], st_n := st_n v + 1\<rparr>)
      else Inl Past_end)"

definition st_clear :: "'a static_vector \<Rightarrow> 'a static_vector" where
  "st_clear v = v\<lparr>st_n := 0\<rparr>"

fun st_expand :: "nat \<Rightarrow> 'a \<Rightarrow> 'a static_vector \<Rightarrow> mem_error + 'a static_vector" where
  "st_expand 0 x v = Inr v"
| "st_expand (Suc k) x v = sbind (st_emplace_back x v) (st_expand k x)"

definition st_resize :: "nat \<Rightarrow> 'a \<Rightarrow> 'a static_vector \<Rightarrow> mem_error + 'a static_vector" where
  "st_resize n x v =
     (if st_n v < n then st_expand (n - st_n v) x v
      else if n < st_n v then Inr (v\<lparr>st_n := n\<rparr>) else Inr v)"

definition st_assignFrom :: "'a static_vector \<Rightarrow> 'a static_vector \<Rightarrow> 'a static_vector" where
  "st_assignFrom that v =
     (st_clear v)\<lparr>st_buf := write_at 0 (take (st_n that) (st_buf that)) (st_buf v), st_n := st_n that\<rparr>"

definition st_sort :: "('a list \<Rightarrow> 'a list) \<Rightarrow> 'a static_vector \<Rightarrow> 'a static_vector" where
  "st_sort srt v =
     v\<lparr>st_buf := map Some (srt (map the (take (st_n v) (st_buf v)))) @ drop (st_n v) (st_buf v)\<rparr>"

section \<open>Representation\<close>

definition filled :: "'a option list \<Rightarrow> nat \<Rightarrow> bool" where
  "filled buf n \<longleftrightarrow> n \<le> length buf \<and> (\<forall>i < n. buf ! i \<noteq> None)"

definition contents :: "'a option list \<Rightarrow> nat \<Rightarrow> 'a list" where
  "contents buf n = map the (take n buf)"

lemma contents_simps:
  "filled buf n \<Longrightarrow> length (contents buf n) = n"
  "filled buf n \<Longrightarrow> i < n \<Longrightarrow> slot buf i = Inr (contents buf n ! i)"
  "filled buf n \<Longrightarrow> n < length buf \<Longrightarrow> filled (buf[n := Some x]) (Suc n)"
  "filled buf n \<Longrightarrow> n < length buf \<Longrightarrow> contents (buf[n := Some x]) (Suc n) = contents buf n @ [x]"
  "filled buf n \<Longrightarrow> i < n \<Longrightarrow> filled (buf[i := Some x]) n"
  "filled buf n \<Longrightarrow> i < n \<Longrightarrow> contents (buf[i := Some x]) n = (contents buf n)[i := x]"
  "filled buf (Suc n) \<Longrightarrow> filled buf n"
  "filled buf n \<Longrightarrow> contents buf (n - 1) = butlast (contents buf n)"
  "contents buf 0 = []" "filled buf 0"
  unfolding filled_def contents_def
  by (auto simp: slot_def nth_list_update take_Suc_conv_app_nth less_Suc_eq take_update_swap map_update list_update_append
      butlast_take simp flip: map_butlast split: option.split)

lemma filled_prefix: "n = length xs \<Longrightarrow> filled (map Some xs @ rest) n \<and> contents (map Some xs @ rest) n = xs"
  by (auto simp: filled_def contents_def nth_append comp_def)

lemma filled_map: "filled buf n \<Longrightarrow> take n buf = map Some (contents buf n)"
  by (auto simp: filled_def contents_def intro!: nth_equalityI)

definition sv_ok :: "'a small_vector \<Rightarrow> bool" where
  "sv_ok v \<longleftrightarrow> (case sv_large v of Some xs \<Rightarrow> sv_n v = 0 | None \<Rightarrow> filled (sv_buf v) (sv_n v))"

definition sv_abs :: "'a small_vector \<Rightarrow> 'a list" where
  "sv_abs v = (case sv_large v of Some xs \<Rightarrow> xs | None \<Rightarrow> contents (sv_buf v) (sv_n v))"

fun sv_step :: "'a vec_op \<Rightarrow> 'a small_vector \<Rightarrow> mem_error + 'a small_vector" where
  "sv_step (Push x) v = sv_emplace_back x v"
| "sv_step Pop v = sv_pop_back v"
| "sv_step (Put i x) v = sv_put i x v"
| "sv_step Clear v = Inr (sv_clear v)"

lemma sv_step_abs:
  assumes "sv_ok v" and "op_ok None a (sv_abs v)"
  shows "\<exists>v'. sv_step a v = Inr v' \<and> sv_ok v' \<and> sv_abs v' = list_op a (sv_abs v)"
proof (cases "sv_large v")
  case None
  then have f: "filled (sv_buf v) (sv_n v)" "sv_abs v = contents (sv_buf v) (sv_n v)"
    using assms(1) by (simp_all add: sv_ok_def sv_abs_def)
  show ?thesis
  proof (cases a)
    case (Push x)
    show ?thesis
    proof (cases "sv_n v < length (sv_buf v)")
      case True
      then show ?thesis using Push None f
        by (simp add: sv_emplace_back_def sv_ok_def sv_abs_def contents_simps)
    next
      case False
      then have "sv_n v = length (sv_buf v)" using f(1) by (simp add: filled_def)
      then show ?thesis using Push None f
        by (simp add: sv_emplace_back_def sv_ok_def sv_abs_def contents_def)
    qed
  next
    case Pop
    then have "sv_n v \<noteq> 0" using assms(2) f contents_simps(9) [of "sv_buf v"] by (metis op_ok.simps(2))
    then obtain m where m: "sv_n v = Suc m" by (auto simp: gr0_conv_Suc)
    then show ?thesis using Pop None f contents_simps(7) [of "sv_buf v" m] contents_simps(8) [OF f(1)]
      by (simp add: sv_pop_back_def sv_ok_def sv_abs_def)
  next
    case (Put i x)
    then have "i < sv_n v" using assms(2) f by (simp add: contents_simps)
    then show ?thesis using Put None f
      by (simp add: sv_put_def sv_ok_def sv_abs_def contents_simps) (simp add: filled_def)
  next
    case Clear
    then show ?thesis using None by (simp add: sv_clear_def sv_ok_def sv_abs_def contents_simps)
  qed
next
  case (Some xs)
  then show ?thesis using assms
    by (cases a) (simp_all add: sv_ok_def sv_abs_def sv_emplace_back_def sv_pop_back_def sv_put_def sv_clear_def)
qed

interpretation sv: vector sv_ok sv_abs "\<lambda>_. None" sv_step sv_size sv_index
proof unfold_locales
  fix v :: "'a small_vector" and i a
  assume ok: "sv_ok v"
  show "sv_size v = length (sv_abs v)"
    using ok by (simp add: sv_ok_def sv_abs_def sv_size_def contents_simps split: option.splits)
  show "i < length (sv_abs v) \<Longrightarrow> sv_index v i = Inr (sv_abs v ! i)"
    using ok by (auto simp: sv_ok_def sv_abs_def sv_index_def at_index_def contents_simps split: option.splits)
  show "op_ok None a (sv_abs v) \<Longrightarrow>
      \<exists>v'. sv_step a v = Inr v' \<and> sv_ok v' \<and> sv_abs v' = list_op a (sv_abs v) \<and> None = None"
    using sv_step_abs [OF ok] by simp
qed

lemma sv_new_ok: "sv_ok (sv_new N)" "sv_abs (sv_new N) = []"
  by (simp_all add: sv_new_def sv_ok_def sv_abs_def contents_simps)

lemma sv_sort_abs:
  assumes "sv_ok v" and "std_sort c srt"
  shows "sv_ok (sv_sort srt v)" "sv_abs (sv_sort srt v) = srt (sv_abs v)"
proof -
  have len: "length (srt xs) = length xs" for xs using assms(2) mset_eq_length unfolding std_sort_def by blast
  have "filled (map Some (srt (contents buf n)) @ drop n buf) n \<and>
      contents (map Some (srt (contents buf n)) @ drop n buf) n = srt (contents buf n)"
    if "filled buf n" for buf n
    using filled_prefix [of n "srt (contents buf n)"] that by (simp add: contents_simps len)
  then show "sv_ok (sv_sort srt v)" "sv_abs (sv_sort srt v) = srt (sv_abs v)"
    using assms by (auto simp: sv_sort_def sv_ok_def sv_abs_def contents_def [symmetric] split: option.splits)
qed

lemma sv_assignFrom_abs:
  assumes "sv_ok v" and "sv_ok that" and "length (sv_buf that) = length (sv_buf v)"
  shows "sv_ok (sv_assignFrom that v)" "sv_abs (sv_assignFrom that v) = sv_abs that"
proof -
  have "filled (write_at 0 (take n b) buf) n \<and> contents (write_at 0 (take n b) buf) n = contents b n"
    if "filled b n" "length b = length buf" for b buf :: "'a option list" and n
    using that filled_prefix [of n "contents b n" "drop n buf"]
    by (simp add: write_at_def filled_map contents_simps)
  then show "sv_ok (sv_assignFrom that v)" "sv_abs (sv_assignFrom that v) = sv_abs that"
    using assms by (auto simp: sv_assignFrom_def sv_clearDestructive_def sv_ok_def sv_abs_def Let_def split: option.splits)
qed

lemma sv_iterate_from:
  assumes "sv_ok v" and "k + m = sv_size v" and "m \<le> fuel"
    and "it_large i = (sv_large v \<noteq> None)" and "(if it_large i then large_it i else small_it i) = k"
  shows "sv_iterate fuel v i (sv_end v) = Inr (Some (drop k (sv_abs v)))"
  using assms
proof (induction m arbitrary: k i fuel)
  case 0
  then have "it_eq i (sv_end v)"
    by (auto simp: it_eq_def sv_end_def sv_size_def split: option.splits if_splits)
  moreover have "drop k (sv_abs v) = []" using 0 sv.vsize [of v] by simp
  ultimately show ?case by (cases fuel) simp_all
next
  case (Suc m)
  have ne: "\<not> it_eq i (sv_end v)"
    using Suc.prems by (auto simp: it_eq_def sv_end_def sv_size_def split: option.splits if_splits)
  have k: "k < length (sv_abs v)" using Suc.prems sv.vsize [of v] by simp
  have d: "it_deref v i = Inr (sv_abs v ! k)"
    using sv.get [OF Suc.prems(1) k] Suc.prems(4,5)
    by (auto simp: it_deref_def sv_index_def split: option.splits if_splits)
  obtain f where f: "fuel = Suc f" "m \<le> f" using Suc.prems(3) by (cases fuel) auto
  have "sv_iterate f v (it_incr i) (sv_end v) = Inr (Some (drop (Suc k) (sv_abs v)))"
    using Suc.prems f by (intro Suc.IH) (auto simp: it_incr_def split: if_splits)
  then show ?case using ne d f k by (simp add: Cons_nth_drop_Suc)
qed

definition st_ok :: "'a static_vector \<Rightarrow> bool" where
  "st_ok v \<longleftrightarrow> filled (st_buf v) (st_n v)"

definition st_abs :: "'a static_vector \<Rightarrow> 'a list" where
  "st_abs v = contents (st_buf v) (st_n v)"

fun st_step :: "'a vec_op \<Rightarrow> 'a static_vector \<Rightarrow> mem_error + 'a static_vector" where
  "st_step (Push x) v = st_emplace_back x v"
| "st_step Pop v = st_pop_back v"
| "st_step (Put i x) v = st_put i x v"
| "st_step Clear v = Inr (st_clear v)"

lemma st_step_abs:
  assumes ok: "st_ok v" and a: "op_ok (Some (length (st_buf v))) a (st_abs v)"
  shows "\<exists>v'. st_step a v = Inr v' \<and> st_ok v' \<and> st_abs v' = list_op a (st_abs v) \<and>
    length (st_buf v') = length (st_buf v)"
proof (cases a)
  case (Push x)
  then show ?thesis using ok a by (simp add: st_ok_def st_abs_def st_emplace_back_def contents_simps)
next
  case Pop
  then have "st_n v \<noteq> 0" using a contents_simps(9) [of "st_buf v"] by (metis op_ok.simps(2) st_abs_def)
  then obtain m where m: "st_n v = Suc m" by (auto simp: gr0_conv_Suc)
  then show ?thesis using Pop ok contents_simps(7) [of "st_buf v" m] contents_simps(8) [of "st_buf v" "Suc m"]
    by (simp add: st_ok_def st_abs_def st_pop_back_def)
next
  case (Put i x)
  then show ?thesis using ok a
    by (simp add: st_ok_def st_abs_def st_put_def contents_simps) (simp add: filled_def)
next
  case Clear
  then show ?thesis by (simp add: st_ok_def st_abs_def st_clear_def contents_simps)
qed

interpretation st: vector st_ok st_abs "\<lambda>v. Some (length (st_buf v))" st_step st_size st_index
proof unfold_locales
  fix v :: "'a static_vector" and i a
  assume ok: "st_ok v"
  show "st_size v = length (st_abs v)"
    using ok by (simp add: st_ok_def st_abs_def st_size_def contents_simps)
  show "i < length (st_abs v) \<Longrightarrow> st_index v i = Inr (st_abs v ! i)"
    using ok by (simp add: st_ok_def st_abs_def st_index_def contents_simps)
  show "op_ok (Some (length (st_buf v))) a (st_abs v) \<Longrightarrow> \<exists>v'. st_step a v = Inr v' \<and> st_ok v' \<and>
      st_abs v' = list_op a (st_abs v) \<and> Some (length (st_buf v')) = Some (length (st_buf v))"
    using st_step_abs [OF ok] by simp
qed

lemma st_new_ok: "st_ok (st_new N)" "st_abs (st_new N) = []" "length (st_buf (st_new N)) = N"
  by (simp_all add: st_new_def st_ok_def st_abs_def contents_simps)

section \<open>Runs of operations\<close>

text \<open>
  Property C29 (small vectors are lists). Whatever the inline capacity, every run of pushes, pops, element
  updates and clears that makes sense on a list succeeds on an empty \<^verbatim>\<open>small_vector\<close> and leaves the size
  and the elements of that list, in the buffer or in the large vector; traversing it from \<^verbatim>\<open>begin()\<close> to
  \<^verbatim>\<open>end()\<close> ends after as many steps as there are elements and visits exactly these. Sorting it with a comparator \<open>c\<close>, whatever
  \<^verbatim>\<open>std::sort\<close> does with equal elements, leaves a vector whose traversal visits the same elements in an order in which none is
  less than one before it.
\<close>

theorem small_vector_refines_list:
  assumes "ops_ok None as []" and "std_sort c srt"
  shows "\<exists>v. run_ops sv_step as (sv_new SmallSize) = Inr v \<and> sv_size v = length (fold list_op as []) \<and>
    (\<forall>i < sv_size v. sv_index v i = Inr (fold list_op as [] ! i)) \<and>
    sv_iterate (sv_size v) v (sv_begin v) (sv_end v) = Inr (Some (fold list_op as [])) \<and>
    (\<exists>ys. sv_iterate (sv_size (sv_sort srt v)) (sv_sort srt v) (sv_begin (sv_sort srt v)) (sv_end (sv_sort srt v)) = Inr (Some ys) \<and>
       mset ys = mset (fold list_op as []) \<and> sorted_wrt (\<lambda>x y. \<not> c y x) ys)"
proof -
  obtain v where v: "run_ops sv_step as (sv_new SmallSize) = Inr v" "sv_ok v" "sv_abs v = fold list_op as []"
    using sv.run_refines [of "sv_new SmallSize" as] assms by (auto simp: sv_new_ok)
  have it: "sv_iterate (sv_size w) w (sv_begin w) (sv_end w) = Inr (Some (sv_abs w))"
    if "sv_ok w" for w :: "'a small_vector"
    using sv_iterate_from [OF that, of 0 "sv_size w" "sv_size w" "sv_begin w"] by (simp add: sv_begin_def)
  show ?thesis
    using v it [OF v(2)] it [OF sv_sort_abs(1) [OF v(2) assms(2)]] sv.vsize [OF v(2)] sv.get [OF v(2)]
      sv_sort_abs(2) [OF v(2) assms(2)] assms(2) unfolding std_sort_def by auto
qed

theorem small_vector_refines_list_witness:
  "\<exists>v ys. run_ops sv_step [Push 3, Push 1, Pop, Push 2, Put 0 7] (sv_new 1) = Inr v \<and> sv_size v = 2 \<and>
    sv_index v 1 = Inr (2 :: nat) \<and> \<not> sv_is_small_type v \<and>
    sv_iterate (sv_size (sv_sort sort v)) (sv_sort sort v) (sv_begin (sv_sort sort v)) (sv_end (sv_sort sort v)) = Inr (Some ys) \<and>
    mset ys = {#2, 7#}"
proof -
  let ?as = "[Push 3, Push 1, Pop, Push 2, Put 0 7] :: nat vec_op list"
  have "std_sort (<) (sort :: nat list \<Rightarrow> nat list)" by (simp add: std_sort_def not_less)
  then obtain v ys where v: "run_ops sv_step ?as (sv_new 1) = Inr v" "sv_size v = length (fold list_op ?as [])"
      "\<forall>i < sv_size v. sv_index v i = Inr (fold list_op ?as [] ! i)"
      "sv_iterate (sv_size (sv_sort sort v)) (sv_sort sort v) (sv_begin (sv_sort sort v)) (sv_end (sv_sort sort v)) = Inr (Some ys)"
      "mset ys = mset (fold list_op ?as [])"
    using small_vector_refines_list [where as = ?as and SmallSize = 1 and c = "(<)" and srt = sort] by auto
  moreover have "\<not> sv_is_small_type v"
    using v(1) by (auto simp: sv_new_def sv_emplace_back_def sv_pop_back_def sv_put_def sv_is_small_type_def)
  ultimately show ?thesis by (intro exI [of _ v] exI [of _ ys]) simp
qed

text \<open>
  Static vectors: A \<^verbatim>\<open>static_vector\<close> behaves as a list as long as the list never outgrows
  \<^verbatim>\<open>StaticSize\<close>; pushing onto a full one writes behind its buffer, which nothing checks.
\<close>

theorem static_vector_refines_list:
  assumes "ops_ok (Some StaticSize) as []"
  shows "\<exists>v. run_ops st_step as (st_new StaticSize) = Inr v \<and> st_size v = length (fold list_op as []) \<and>
    (\<forall>i < st_size v. st_index v i = Inr (fold list_op as [] ! i)) \<and>
    (st_size v = StaticSize \<longrightarrow> st_emplace_back x v = Inl Past_end)"
proof -
  obtain v where v: "run_ops st_step as (st_new StaticSize) = Inr v" "st_ok v" "st_abs v = fold list_op as []"
      "length (st_buf v) = StaticSize"
    using st.run_refines [of "st_new StaticSize" as] assms by (auto simp: st_new_ok)
  then show ?thesis using st.vsize [OF v(2)] st.get [OF v(2)]
    by (auto simp: st_emplace_back_def st_size_def)
qed

theorem static_vector_refines_list_witness:
  "\<exists>v. run_ops st_step [Push 3, Push (1 :: nat)] (st_new 2) = Inr v \<and> st_size v = 2 \<and>
    st_index v 1 = Inr 1 \<and> st_emplace_back 5 v = Inl Past_end"
  using static_vector_refines_list [of 2 "[Push 3, Push (1 :: nat)]" 5] by auto

end
