(* ===== verification/Small_Map.thy ===== *)
theory Small_Map
  imports Small_Vector "HOL-Library.AList"
begin

text \<open>
  The hash maps of the absent set (\<^verbatim>\<open>src/src/small_unordered_map.h\<close>, \<^verbatim>\<open>src/src/static_unordered_map.h\<close>):
  a fixed array of buckets chained from a table of list heads, which the small map abandons for a
  \<^verbatim>\<open>std::unordered_map\<close> once it is full. A pointer to a bucket is its index in the array.
\<close>

section \<open>Table sizes and hashes\<close>

text \<open>\<open>None\<close>: the division by zero of the source.\<close>

function ceil_log2_const :: "nat \<Rightarrow> bool \<Rightarrow> nat option" where
  "ceil_log2_const x exact =
     (if x = 0 then None
      else if x = 1 then Some (if exact then 0 else 1)
      else map_option Suc (ceil_log2_const (x div 2) (if odd x then False else exact)))"
  by pat_completeness auto
termination by (relation "measure fst") auto

declare ceil_log2_const.simps [simp del]

definition round_up_to_pow2_const :: "nat \<Rightarrow> nat option" where
  "round_up_to_pow2_const x = map_option (\<lambda>n. 2 ^ n) (ceil_log2_const x True)"

definition TableSize :: "nat \<Rightarrow> nat" where
  "TableSize small_size = (case round_up_to_pow2_const small_size of None \<Rightarrow> 0 | Some n \<Rightarrow> n)"

text \<open>The hash of a pointer, without \<^verbatim>\<open>USE_TOMMY_HASH\<close>.\<close>

definition myhash :: "u64 \<Rightarrow> u64" where
  "myhash t = (let key = drop_bit 3 t; key = NOT key + push_bit 21 key in key XOR drop_bit 24 key)"

section \<open>Buckets\<close>

record ('k, 'v) bucket =
  bnext :: "nat option"
  bh :: u64
  bkey :: 'k
  bval :: 'v

type_synonym ('k, 'v) buckets = "('k, 'v) bucket option list"

text \<open>The loop of \<^verbatim>\<open>find_bucket\<close>, with fuel; the inner \<open>None\<close> is the null pointer.\<close>

fun find_chain ::
  "nat \<Rightarrow> bool \<Rightarrow> ('k, 'v) buckets \<Rightarrow> u64 \<Rightarrow> 'k \<Rightarrow> nat option \<Rightarrow> mem_error + nat option option" where
  "find_chain 0 check_hash els h k b = Inr None"
| "find_chain (Suc fuel) check_hash els h k b =
     (case b of
        None \<Rightarrow> Inr (Some None)
      | Some i \<Rightarrow>
          sbind (slot els i) (\<lambda>x.
            if (\<not> check_hash \<or> bh x = h) \<and> bkey x = k then Inr (Some (Some i))
            else find_chain fuel check_hash els h k (bnext x)))"

definition find_bucket ::
  "nat \<Rightarrow> bool \<Rightarrow> ('k \<Rightarrow> u64) \<Rightarrow> ('k, 'v) buckets \<Rightarrow> nat option list \<Rightarrow> 'k \<Rightarrow> mem_error + nat option option" where
  "find_bucket fuel check_hash hash els table k =
     find_chain fuel check_hash els (hash k) k (table ! (unat (hash k) mod length table))"

text \<open>The bucket at index \<open>n\<close> becomes the head of its chain.\<close>

definition link_bucket ::
  "nat \<Rightarrow> u64 \<Rightarrow> 'k \<Rightarrow> 'v \<Rightarrow> ('k, 'v) buckets \<times> nat option list \<Rightarrow> ('k, 'v) buckets \<times> nat option list" where
  "link_bucket n h k v = (\<lambda>(els, table).
     let i = unat h mod length table
     in (els[n := Some \<lparr>bnext = table ! i, bh = h, bkey = k, bval = v\<rparr>], table[i := Some n]))"

section \<open>small_unordered_map\<close>

record ('k, 'v) small_map =
  mn :: nat
  small_elems :: "('k, 'v) buckets"
  table :: "nat option list"
  large_elems :: "('k \<times> 'v) list option"

definition sm_new :: "nat \<Rightarrow> ('k, 'v) small_map" where
  "sm_new SmallSize =
     \<lparr>mn = 0, small_elems = replicate SmallSize None, table = replicate (TableSize SmallSize) None,
      large_elems = None\<rparr>"

datatype 'k element = Small_elem nat | Large_elem 'k

definition bucket_pair :: "('k, 'v) bucket option \<Rightarrow> 'k \<times> 'v" where
  "bucket_pair b = (bkey (the b), bval (the b))"

definition large_subscript :: "'v \<Rightarrow> 'k \<Rightarrow> ('k \<times> 'v) list \<Rightarrow> ('k \<times> 'v) list" where
  "large_subscript dflt k xs = (if map_of xs k = None then xs @ [(k, dflt)] else xs)"

text \<open>\<^verbatim>\<open>operator[]\<close>: where the reference points to, and the map with the element in it.\<close>

definition sm_subscript ::
  "nat \<Rightarrow> bool \<Rightarrow> ('k \<Rightarrow> u64) \<Rightarrow> 'v \<Rightarrow> 'k \<Rightarrow> ('k, 'v) small_map \<Rightarrow>
   mem_error + ('k element \<times> ('k, 'v) small_map) option" where
  "sm_subscript fuel check_hash hash dflt k m =
     (case large_elems m of
        Some xs \<Rightarrow> Inr (Some (Large_elem k, m\<lparr>large_elems := Some (large_subscript dflt k xs)\<rparr>))
      | None \<Rightarrow>
          sbind (find_bucket fuel check_hash hash (small_elems m) (table m) k) (\<lambda>r.
            case r of
              None \<Rightarrow> Inr None
            | Some (Some i) \<Rightarrow> Inr (Some (Small_elem i, m))
            | Some None \<Rightarrow>
                if mn m = length (small_elems m)
                then Inr (Some (Large_elem k,
                       m\<lparr>large_elems := Some (large_subscript dflt k (map bucket_pair (small_elems m))), mn := 0\<rparr>))
                else if mn m < length (small_elems m)
                then let (els, tab) = link_bucket (mn m) (hash k) k dflt (small_elems m, table m)
                     in Inr (Some (Small_elem (mn m), m\<lparr>small_elems := els, table := tab, mn := mn m + 1\<rparr>))
                else Inl Past_end))"

text \<open>Storing through the reference.\<close>

definition sm_store :: "'k element \<Rightarrow> 'v \<Rightarrow> ('k, 'v) small_map \<Rightarrow> ('k, 'v) small_map" where
  "sm_store e v m =
     (case e of
        Small_elem i \<Rightarrow> m\<lparr>small_elems := (small_elems m)[i := map_option (bval_update (\<lambda>_. v)) (small_elems m ! i)]\<rparr>
      | Large_elem k \<Rightarrow> m\<lparr>large_elems := map_option (AList.update k v) (large_elems m)\<rparr>)"

definition sm_assign ::
  "nat \<Rightarrow> bool \<Rightarrow> ('k \<Rightarrow> u64) \<Rightarrow> 'v \<Rightarrow> 'k \<Rightarrow> 'v \<Rightarrow> ('k, 'v) small_map \<Rightarrow> mem_error + ('k, 'v) small_map option" where
  "sm_assign fuel check_hash hash dflt k v m =
     sbind (sm_subscript fuel check_hash hash dflt k m) (\<lambda>r.
       Inr (map_option (\<lambda>(e, m'). sm_store e v m') r))"

text \<open>\<^verbatim>\<open>find\<close> and the value at the iterator; the inner \<open>None\<close> is \<^verbatim>\<open>end()\<close>.\<close>

definition sm_find ::
  "nat \<Rightarrow> bool \<Rightarrow> ('k \<Rightarrow> u64) \<Rightarrow> 'k \<Rightarrow> ('k, 'v) small_map \<Rightarrow> mem_error + 'v option option" where
  "sm_find fuel check_hash hash k m =
     (case large_elems m of
        Some xs \<Rightarrow> Inr (Some (map_of xs k))
      | None \<Rightarrow>
          sbind (find_bucket fuel check_hash hash (small_elems m) (table m) k) (\<lambda>r.
            case r of
              None \<Rightarrow> Inr None
            | Some None \<Rightarrow> Inr (Some None)
            | Some (Some i) \<Rightarrow> sbind (slot (small_elems m) i) (\<lambda>x. Inr (Some (Some (bval x))))))"

definition sm_size :: "('k, 'v) small_map \<Rightarrow> nat" where
  "sm_size m = (case large_elems m of Some xs \<Rightarrow> length xs | None \<Rightarrow> mn m)"

definition sm_empty :: "('k, 'v) small_map \<Rightarrow> bool" where
  "sm_empty m \<longleftrightarrow> sm_size m = 0"

text \<open>The elements between \<^verbatim>\<open>begin()\<close> and \<^verbatim>\<open>end()\<close>.\<close>

definition sm_elements :: "('k, 'v) small_map \<Rightarrow> ('k \<times> 'v) list" where
  "sm_elements m =
     (case large_elems m of Some xs \<Rightarrow> xs | None \<Rightarrow> map bucket_pair (take (mn m) (small_elems m)))"

definition sm_clear :: "('k, 'v) small_map \<Rightarrow> ('k, 'v) small_map" where
  "sm_clear m =
     (case large_elems m of
        Some xs \<Rightarrow> m\<lparr>large_elems := None\<rparr>
      | None \<Rightarrow> if mn m = 0 then m else m\<lparr>table := replicate (length (table m)) None, mn := 0\<rparr>)"

text \<open>The copy loop of \<^verbatim>\<open>assignFrom\<close>, from index \<open>i\<close> of the other map.\<close>

fun sm_copy :: "('k, 'v) buckets \<Rightarrow> ('k, 'v) small_map \<Rightarrow> ('k, 'v) small_map" where
  "sm_copy [] m = m"
| "sm_copy (b # bs) m =
     (let (els, tab) = link_bucket (mn m) (bh (the b)) (bkey (the b)) (bval (the b)) (small_elems m, table m)
      in sm_copy bs (m\<lparr>small_elems := els, table := tab, mn := mn m + 1\<rparr>))"

definition sm_assignFrom :: "('k, 'v) small_map \<Rightarrow> ('k, 'v) small_map \<Rightarrow> ('k, 'v) small_map" where
  "sm_assignFrom that m =
     (let m1 = sm_clear m
      in case large_elems that of
           Some xs \<Rightarrow> m1\<lparr>large_elems := Some xs\<rparr>
         | None \<Rightarrow> sm_copy (take (mn that) (small_elems that)) m1)"

section \<open>static_unordered_map\<close>

record ('k, 'v) static_map =
  smn :: nat
  elems :: "('k, 'v) buckets"
  stable :: "nat option list"

definition stm_new :: "nat \<Rightarrow> ('k, 'v) static_map" where
  "stm_new StaticSize =
     \<lparr>smn = 0, elems = replicate StaticSize None, stable = replicate (TableSize StaticSize) None\<rparr>"

definition stm_subscript ::
  "nat \<Rightarrow> bool \<Rightarrow> ('k \<Rightarrow> u64) \<Rightarrow> 'v \<Rightarrow> 'k \<Rightarrow> ('k, 'v) static_map \<Rightarrow>
   mem_error + (nat \<times> ('k, 'v) static_map) option" where
  "stm_subscript fuel check_hash hash dflt k m =
     sbind (find_bucket fuel check_hash hash (elems m) (stable m) k) (\<lambda>r.
       case r of
         None \<Rightarrow> Inr None
       | Some (Some i) \<Rightarrow> Inr (Some (i, m))
       | Some None \<Rightarrow>
           if smn m < length (elems m)
           then let (els, tab) = link_bucket (smn m) (hash k) k dflt (elems m, stable m)
                in Inr (Some (smn m, m\<lparr>elems := els, stable := tab, smn := smn m + 1\<rparr>))
           else Inl Past_end)"

definition stm_assign ::
  "nat \<Rightarrow> bool \<Rightarrow> ('k \<Rightarrow> u64) \<Rightarrow> 'v \<Rightarrow> 'k \<Rightarrow> 'v \<Rightarrow> ('k, 'v) static_map \<Rightarrow> mem_error + ('k, 'v) static_map option" where
  "stm_assign fuel check_hash hash dflt k v m =
     sbind (stm_subscript fuel check_hash hash dflt k m) (\<lambda>r.
       Inr (map_option (\<lambda>(i, m'). m'\<lparr>elems := (elems m')[i := map_option (bval_update (\<lambda>_. v)) (elems m' ! i)]\<rparr>) r))"

definition stm_find ::
  "nat \<Rightarrow> bool \<Rightarrow> ('k \<Rightarrow> u64) \<Rightarrow> 'k \<Rightarrow> ('k, 'v) static_map \<Rightarrow> mem_error + 'v option option" where
  "stm_find fuel check_hash hash k m =
     sbind (find_bucket fuel check_hash hash (elems m) (stable m) k) (\<lambda>r.
       case r of
         None \<Rightarrow> Inr None
       | Some None \<Rightarrow> Inr (Some None)
       | Some (Some i) \<Rightarrow> sbind (slot (elems m) i) (\<lambda>x. Inr (Some (Some (bval x)))))"

definition stm_clear :: "('k, 'v) static_map \<Rightarrow> ('k, 'v) static_map" where
  "stm_clear m = (if smn m = 0 then m else m\<lparr>stable := replicate (length (stable m)) None, smn := 0\<rparr>)"

section \<open>Chains of buckets\<close>

fun bucket_chain :: "('k, 'v) buckets \<Rightarrow> nat option \<Rightarrow> nat list \<Rightarrow> bool" where
  "bucket_chain els b [] \<longleftrightarrow> b = None"
| "bucket_chain els b (i # is) \<longleftrightarrow>
     b = Some i \<and> (\<exists>x. i < length els \<and> els ! i = Some x \<and> bucket_chain els (bnext x) is)"

lemma bucket_chain_cong:
  "(\<And>i. i \<in> set is \<Longrightarrow> i < length els \<Longrightarrow> i < length els' \<and> map_option bnext (els' ! i) = map_option bnext (els ! i)) \<Longrightarrow>
     bucket_chain els b is \<Longrightarrow> bucket_chain els' b is"
proof (induction "is" arbitrary: b)
  case (Cons i "is")
  then obtain x where x: "b = Some i" "i < length els" "els ! i = Some x" "bucket_chain els (bnext x) is" by auto
  then obtain y where "els' ! i = Some y" "bnext y = bnext x" "i < length els'"
    using Cons.prems(1) [of i] by (cases "els' ! i") auto
  then show ?case using x Cons by auto
qed simp

abbreviation key_at :: "('k, 'v) buckets \<Rightarrow> nat \<Rightarrow> 'k" where
  "key_at els i \<equiv> bkey (the (els ! i))"

lemma find_chain_result:
  assumes "bucket_chain els b is" and "length is < fuel" and "\<forall>i \<in> set is. bh (the (els ! i)) = hash (key_at els i)"
  shows "\<exists>r. find_chain fuel chk els (hash k) k b = Inr (Some r) \<and>
    (case r of None \<Rightarrow> \<forall>i \<in> set is. key_at els i \<noteq> k | Some i \<Rightarrow> i \<in> set is \<and> key_at els i = k)"
  using assms
proof (induction "is" arbitrary: b fuel)
  case Nil
  then obtain f where "fuel = Suc f" by (cases fuel) auto
  then show ?case using Nil by simp
next
  case (Cons i "is")
  then obtain x where x: "b = Some i" "i < length els" "els ! i = Some x" "bucket_chain els (bnext x) is" by auto
  obtain f where f: "fuel = Suc f" "length is < f" using Cons.prems(2) by (cases fuel) auto
  have h: "bkey x = k \<Longrightarrow> bh x = hash k" using Cons.prems(3) x(3) by auto
  show ?case
  proof (cases "bkey x = k")
    case True
    then show ?thesis using x f(1) h by (simp add: slot_def)
  next
    case False
    obtain r where r: "find_chain f chk els (hash k) k (bnext x) = Inr (Some r)"
        "case r of None \<Rightarrow> \<forall>i \<in> set is. key_at els i \<noteq> k | Some i \<Rightarrow> i \<in> set is \<and> key_at els i = k"
      using Cons.IH [OF x(4) f(2)] Cons.prems(3) by auto
    then show ?thesis using x f(1) False by (cases r) (simp_all add: slot_def)
  qed
qed

section \<open>The bucket array\<close>

definition home :: "('k \<Rightarrow> u64) \<Rightarrow> nat option list \<Rightarrow> ('k, 'v) buckets \<Rightarrow> nat \<Rightarrow> nat" where
  "home hash tab els i = unat (hash (key_at els i)) mod length tab"

text \<open>
  The first \<open>n\<close> buckets hold different keys with their hashes, and each table entry heads the chain of the
  buckets that belong there, the newest first.
\<close>

definition buckets_ok :: "('k \<Rightarrow> u64) \<Rightarrow> nat \<Rightarrow> ('k, 'v) buckets \<Rightarrow> nat option list \<Rightarrow> bool" where
  "buckets_ok hash n els tab \<longleftrightarrow> filled els n \<and> tab \<noteq> [] \<and>
     (\<forall>i < n. bh (the (els ! i)) = hash (key_at els i)) \<and> distinct (map (key_at els) [0..<n]) \<and>
     (\<forall>t < length tab. bucket_chain els (tab ! t) (rev (filter (\<lambda>i. home hash tab els i = t) [0..<n])))"

definition pairs :: "('k, 'v) buckets \<Rightarrow> nat \<Rightarrow> ('k \<times> 'v) list" where
  "pairs els n = map bucket_pair (take n els)"

lemma pairs_nth: "filled els n \<Longrightarrow> i < n \<Longrightarrow> pairs els n ! i = (key_at els i, bval (the (els ! i)))"
  by (simp add: pairs_def bucket_pair_def filled_def)

lemma length_pairs: "filled els n \<Longrightarrow> length (pairs els n) = n"
  by (simp add: pairs_def filled_def)

lemma map_fst_pairs: "filled els n \<Longrightarrow> map fst (pairs els n) = map (key_at els) [0..<n]"
  by (rule nth_equalityI) (simp_all add: length_pairs pairs_nth)

lemma distinct_pairs: "buckets_ok hash n els tab \<Longrightarrow> distinct (map fst (pairs els n))"
  by (simp add: buckets_ok_def map_fst_pairs)

lemma find_bucket_result:
  assumes ok: "buckets_ok hash n els tab" and fuel: "n < fuel"
  shows "\<exists>r. find_bucket fuel chk hash els tab k = Inr (Some r) \<and>
    (case r of None \<Rightarrow> map_of (pairs els n) k = None
     | Some i \<Rightarrow> i < n \<and> key_at els i = k \<and> map_of (pairs els n) k = Some (bval (the (els ! i))))"
proof -
  let ?t = "unat (hash k) mod length tab"
  let ?is = "rev (filter (\<lambda>i. home hash tab els i = ?t) [0..<n])"
  have f: "filled els n" and t: "?t < length tab" using ok by (auto simp: buckets_ok_def)
  have "length ?is \<le> n" using length_filter_le [of _ "[0..<n]"] by simp
  then have len: "length ?is < fuel" using fuel by simp
  have ch: "bucket_chain els (tab ! ?t) ?is" using ok t unfolding buckets_ok_def by blast
  obtain r where r: "find_bucket fuel chk hash els tab k = Inr (Some r)"
      "case r of None \<Rightarrow> \<forall>i \<in> set ?is. key_at els i \<noteq> k | Some i \<Rightarrow> i \<in> set ?is \<and> key_at els i = k"
    unfolding find_bucket_def using find_chain_result [OF ch len, of hash chk k] ok by (auto simp: buckets_ok_def)
  have none: "map_of (pairs els n) k = None" if "\<forall>i \<in> set ?is. key_at els i \<noteq> k"
  proof -
    have "k \<notin> set (map fst (pairs els n))"
      unfolding map_fst_pairs [OF f] using that by (auto simp: home_def)
    then show ?thesis by (simp add: map_of_eq_None_iff)
  qed
  have some: "map_of (pairs els n) k = Some (bval (the (els ! i)))" if i: "i < n" "key_at els i = k" for i
  proof (rule map_of_is_SomeI [OF distinct_pairs [OF ok]])
    show "(k, bval (the (els ! i))) \<in> set (pairs els n)"
      using nth_mem [of i "pairs els n"] i by (simp add: length_pairs [OF f] pairs_nth [OF f])
  qed
  show ?thesis using r none some by (cases r) auto
qed

lemma link_bucket_ok:
  assumes ok: "buckets_ok hash n els tab" and n: "n < length els" and new: "map_of (pairs els n) k = None"
    and l: "link_bucket n (hash k) k v (els, tab) = (els', tab')"
  shows "buckets_ok hash (Suc n) els' tab'" "pairs els' (Suc n) = pairs els n @ [(k, v)]"
    "length els' = length els" "length tab' = length tab"
proof -
  let ?i = "unat (hash k) mod length tab"
  let ?b = "\<lparr>bnext = tab ! ?i, bh = hash k, bkey = k, bval = v\<rparr>"
  have f: "filled els n" and tab: "tab \<noteq> []" using ok by (auto simp: buckets_ok_def)
  have e: "els' = els[n := Some ?b]" and t: "tab' = tab[?i := Some n]"
    using l by (simp_all add: link_bucket_def Let_def)
  show "length els' = length els" "length tab' = length tab" by (simp_all add: e t)
  have key: "key_at els' j = (if j = n then k else key_at els j)" if "j < Suc n" for j
    using that n by (simp add: e)
  have keys: "map (key_at els') [0..<Suc n] = map (key_at els) [0..<n] @ [k]" using key by simp
  have "k \<notin> set (map fst (pairs els n))" using new by (simp add: map_of_eq_None_iff)
  then have notin: "k \<notin> set (map (key_at els) [0..<n])" unfolding map_fst_pairs [OF f] .
  have f': "filled els' (Suc n)" unfolding e by (rule contents_simps(3) [OF f n])
  have home: "home hash tab' els' j = (if j = n then ?i else home hash tab els j)" if "j < Suc n" for j
    using key [OF that] by (simp add: home_def t)
  have old: "bucket_chain els' b is" if "bucket_chain els b is" "set is \<subseteq> {..<n}" for b "is"
    by (rule bucket_chain_cong [OF _ that(1)]) (use that(2) in \<open>auto simp: e\<close>)
  have filt: "filter (\<lambda>j. home hash tab' els' j = t) [0..<Suc n] =
      filter (\<lambda>j. home hash tab els j = t) [0..<n] @ (if ?i = t then [n] else [])" for t
    using home by (auto intro!: filter_cong)
  have "bucket_chain els' (tab' ! t) (rev (filter (\<lambda>j. home hash tab' els' j = t) [0..<Suc n]))"
    if t': "t < length tab'" for t
  proof -
    have lt: "t < length tab" using t' by (simp add: t)
    then have "bucket_chain els (tab ! t) (rev (filter (\<lambda>j. home hash tab els j = t) [0..<n]))"
      using ok unfolding buckets_ok_def by blast
    then have "bucket_chain els' (tab ! t) (rev (filter (\<lambda>j. home hash tab els j = t) [0..<n]))"
      by (rule old) auto
    then show ?thesis unfolding filt using lt n by (auto simp: t e)
  qed
  moreover have "bh (the (els' ! j)) = hash (key_at els' j)" if "j < Suc n" for j
    using that ok n by (cases "j = n") (auto simp: e buckets_ok_def)
  moreover have "distinct (map (key_at els') [0..<Suc n])"
    unfolding keys using ok notin by (simp add: buckets_ok_def)
  ultimately show "buckets_ok hash (Suc n) els' tab'" using f' tab unfolding buckets_ok_def by (simp add: t)
  show "pairs els' (Suc n) = pairs els n @ [(k, v)]"
    unfolding pairs_def e using n by (simp add: take_Suc_conv_app_nth bucket_pair_def)
qed

lemma map_of_list_update:
  assumes d: "distinct (map fst xs)" and i: "i < length xs"
  shows "map_of (xs[i := (fst (xs ! i), v)]) = (map_of xs)(fst (xs ! i) \<mapsto> v)"
  using assms
proof (induction xs arbitrary: i)
  case (Cons x xs)
  show ?case
  proof (cases i)
    case 0
    then show ?thesis by (cases x) auto
  next
    case (Suc j)
    then have "fst (xs ! j) \<in> fst ` set xs" using Cons.prems by (intro imageI nth_mem) simp
    moreover have "fst x \<notin> fst ` set xs" using Cons.prems by simp
    ultimately have "fst x \<noteq> fst (xs ! j)" by metis
    then show ?thesis using Cons Suc by (cases x) (auto simp: fun_upd_twist)
  qed
qed simp

lemma store_bucket_ok:
  assumes ok: "buckets_ok hash n els tab" and i: "i < n"
    and e: "els' = els[i := map_option (bval_update (\<lambda>_. v)) (els ! i)]"
  shows "buckets_ok hash n els' tab" "map_of (pairs els' n) = (map_of (pairs els n))(key_at els i \<mapsto> v)"
    "map fst (pairs els' n) = map fst (pairs els n)"
proof -
  have f: "filled els n" using ok by (simp add: buckets_ok_def)
  then obtain x where x: "els ! i = Some x" "i < length els" using i by (auto simp: filled_def)
  have e': "els' = els[i := Some (x\<lparr>bval := v\<rparr>)]" using x by (simp add: e)
  have f': "filled els' n" unfolding e' by (rule contents_simps(5) [OF f i])
  have key: "key_at els' j = key_at els j" "bh (the (els' ! j)) = bh (the (els ! j))" for j
    using x by (auto simp: e' nth_list_update)
  have home: "home hash tab els' = home hash tab els" by (rule ext) (simp add: home_def key)
  have "bucket_chain els' b is" if "bucket_chain els b is" for b "is"
    by (rule bucket_chain_cong [OF _ that]) (use x in \<open>auto simp: e' nth_list_update\<close>)
  then show ok': "buckets_ok hash n els' tab"
    using ok f' unfolding buckets_ok_def home by (simp add: key)
  show fsts: "map fst (pairs els' n) = map fst (pairs els n)"
    unfolding map_fst_pairs [OF f] map_fst_pairs [OF f'] by (simp add: key)
  have p: "pairs els' n = (pairs els n)[i := (key_at els i, v)]"
    using x by (simp add: pairs_def e' take_update_swap map_update bucket_pair_def)
  have fst_i: "fst (pairs els n ! i) = key_at els i" using pairs_nth [OF f i] by simp
  show "map_of (pairs els' n) = (map_of (pairs els n))(key_at els i \<mapsto> v)"
    unfolding p using map_of_list_update [OF distinct_pairs [OF ok], of i v] i fst_i by (simp add: length_pairs f)
qed

lemma add_bucket_ok:
  assumes b: "buckets_ok hash n els tab" and n: "n < length els" and new: "map_of (pairs els n) k = None"
    and l: "link_bucket n (hash k) k d (els, tab) = (els1, tab1)"
    and e: "els2 = els1[n := map_option (bval_update (\<lambda>_. v)) (els1 ! n)]"
  shows "buckets_ok hash (Suc n) els2 tab1" "map_of (pairs els2 (Suc n)) = (map_of (pairs els n))(k \<mapsto> v)"
    "length els2 = length els"
proof -
  note lk = link_bucket_ok [OF b n new l]
  note st = store_bucket_ok [OF lk(1) lessI e]
  have key: "key_at els1 n = k" using l n by (auto simp: link_bucket_def Let_def)
  show "buckets_ok hash (Suc n) els2 tab1" by (rule st(1))
  show "map_of (pairs els2 (Suc n)) = (map_of (pairs els n))(k \<mapsto> v)"
    unfolding st(2) lk(2) key by (auto simp: map_add_def fun_eq_iff split: option.splits)
  show "length els2 = length els" by (simp add: e lk(3))
qed

lemma new_buckets_ok: "t \<noteq> 0 \<Longrightarrow> buckets_ok hash 0 els (replicate t None)"
  by (simp add: buckets_ok_def contents_simps)

section \<open>The map contract\<close>

fun assign_all ::
  "('k \<Rightarrow> 'v \<Rightarrow> 'c \<Rightarrow> mem_error + 'c option) \<Rightarrow> ('k \<times> 'v) list \<Rightarrow> 'c \<Rightarrow> mem_error + 'c option" where
  "assign_all put [] c = Inr (Some c)"
| "assign_all put ((k, v) # kvs) c =
     sbind (put k v c) (\<lambda>r. case r of None \<Rightarrow> Inr None | Some c' \<Rightarrow> assign_all put kvs c')"

locale finite_map =
  fixes ok :: "'c \<Rightarrow> bool" and abs :: "'c \<Rightarrow> 'k \<rightharpoonup> 'v" and cap :: "'c \<Rightarrow> nat option"
    and put :: "'k \<Rightarrow> 'v \<Rightarrow> 'c \<Rightarrow> mem_error + 'c option" and get :: "'k \<Rightarrow> 'c \<Rightarrow> mem_error + 'v option option"
  assumes finite: "ok c \<Longrightarrow> finite (dom (abs c))"
    and get: "ok c \<Longrightarrow> get k c = Inr (Some (abs c k))"
    and put: "ok c \<Longrightarrow> (case cap c of None \<Rightarrow> True | Some n \<Rightarrow> card (dom (abs c) \<union> {k}) \<le> n) \<Longrightarrow>
      \<exists>c'. put k v c = Inr (Some c') \<and> ok c' \<and> abs c' = (abs c)(k \<mapsto> v) \<and> cap c' = cap c"
begin

lemma assign_all_lookup:
  assumes "ok c" and "case cap c of None \<Rightarrow> True | Some n \<Rightarrow> card (dom (abs c) \<union> fst ` set kvs) \<le> n"
  shows "\<exists>c'. assign_all put kvs c = Inr (Some c') \<and> ok c' \<and> (\<forall>k. get k c' = Inr (Some ((abs c ++ map_of (rev kvs)) k)))"
  using assms
proof (induction kvs arbitrary: c)
  case Nil
  then show ?case using get by auto
next
  case (Cons kv kvs)
  obtain k v where kv: "kv = (k, v)" by (cases kv)
  have "card (dom (abs c) \<union> {k}) \<le> card (dom (abs c) \<union> fst ` set (kv # kvs))"
    using finite [OF Cons.prems(1)] by (intro card_mono) (auto simp: kv)
  then obtain c1 where c1: "put k v c = Inr (Some c1)" "ok c1" "abs c1 = (abs c)(k \<mapsto> v)" "cap c1 = cap c"
    using put [OF Cons.prems(1), of k v] Cons.prems(2) by (cases "cap c") auto
  then have "case cap c1 of None \<Rightarrow> True | Some n \<Rightarrow> card (dom (abs c1) \<union> fst ` set kvs) \<le> n"
    using Cons.prems(2) by (auto simp: kv insert_commute split: option.splits)
  from Cons.IH [OF c1(2) this] obtain c' where c': "assign_all put kvs c1 = Inr (Some c')" "ok c'"
      "\<forall>k. get k c' = Inr (Some ((abs c1 ++ map_of (rev kvs)) k))" by blast
  have "abs c ++ map_of (rev (kv # kvs)) = abs c1 ++ map_of (rev kvs)"
    by (auto simp: kv c1(3) map_add_def fun_eq_iff split: option.splits)
  then show ?case using c' c1(1) by (simp add: kv)
qed

end

section \<open>Both maps implement it\<close>

definition sm_ok :: "('k \<Rightarrow> u64) \<Rightarrow> ('k, 'v) small_map \<Rightarrow> bool" where
  "sm_ok hash m \<longleftrightarrow>
     (case large_elems m of None \<Rightarrow> buckets_ok hash (mn m) (small_elems m) (table m) | Some xs \<Rightarrow> distinct (map fst xs))"

definition sm_abs :: "('k, 'v) small_map \<Rightarrow> 'k \<rightharpoonup> 'v" where
  "sm_abs m = map_of (sm_elements m)"

lemma large_subscript_ok:
  assumes "distinct (map fst xs)"
  shows "distinct (map fst (large_subscript d k xs))"
    "map_of (AList.update k v (large_subscript d k xs)) = (map_of xs)(k \<mapsto> v)"
proof -
  show "distinct (map fst (large_subscript d k xs))"
    using assms by (auto simp: large_subscript_def map_of_eq_None_iff)
  show "map_of (AList.update k v (large_subscript d k xs)) = (map_of xs)(k \<mapsto> v)"
    by (auto simp: large_subscript_def update_conv' map_add_def fun_eq_iff split: option.splits)
qed

lemma sm_assign_ok:
  assumes ok: "sm_ok hash m" and fuel: "mn m < fuel"
  shows "\<exists>m'. sm_assign fuel chk hash dflt k v m = Inr (Some m') \<and> sm_ok hash m' \<and> sm_abs m' = (sm_abs m)(k \<mapsto> v)"
proof (cases "large_elems m")
  case (Some xs)
  then have "distinct (map fst xs)" using ok by (simp add: sm_ok_def)
  note l = large_subscript_ok [OF this]
  show ?thesis using Some l(1) l(2) [of k v dflt]
    by (simp add: sm_assign_def sm_subscript_def sm_store_def sm_ok_def sm_abs_def sm_elements_def distinct_update)
next
  case None
  then have b: "buckets_ok hash (mn m) (small_elems m) (table m)" using ok by (simp add: sm_ok_def)
  have n: "mn m \<le> length (small_elems m)" using b by (simp add: buckets_ok_def filled_def)
  have abs: "sm_abs m = map_of (pairs (small_elems m) (mn m))" using None by (simp add: sm_abs_def sm_elements_def pairs_def)
  obtain r where r: "find_bucket fuel chk hash (small_elems m) (table m) k = Inr (Some r)"
      "case r of None \<Rightarrow> map_of (pairs (small_elems m) (mn m)) k = None
       | Some i \<Rightarrow> i < mn m \<and> key_at (small_elems m) i = k \<and>
           map_of (pairs (small_elems m) (mn m)) k = Some (bval (the (small_elems m ! i)))"
    using find_bucket_result [OF b fuel, of chk k] by blast
  show ?thesis
  proof (cases r)
    case (Some i)
    then have i: "i < mn m" "key_at (small_elems m) i = k" using r by auto
    note st = store_bucket_ok [OF b i(1) refl, of v]
    show ?thesis using None Some r(1) st(1,2) i(2)
      by (simp add: sm_assign_def sm_subscript_def sm_store_def sm_ok_def abs)
        (simp add: sm_abs_def sm_elements_def pairs_def)
  next
    case new: None
    then have k: "map_of (pairs (small_elems m) (mn m)) k = None" using r by simp
    show ?thesis
    proof (cases "mn m = length (small_elems m)")
      case True
      then have p: "map bucket_pair (small_elems m) = pairs (small_elems m) (mn m)" by (simp add: pairs_def)
      note l = large_subscript_ok [OF distinct_pairs [OF b]]
      show ?thesis using None new r(1) True l(1) l(2) [of k v dflt] p
        by (simp add: sm_assign_def sm_subscript_def sm_store_def sm_ok_def abs distinct_update)
          (simp add: sm_abs_def sm_elements_def)
    next
      case False
      then have lt: "mn m < length (small_elems m)" using n by simp
      obtain els tab where l: "link_bucket (mn m) (hash k) k dflt (small_elems m, table m) = (els, tab)"
        by (cases "link_bucket (mn m) (hash k) k dflt (small_elems m, table m)")
      note ad = add_bucket_ok [OF b lt k l refl, of v]
      show ?thesis using None new r(1) False lt l ad
        by (simp add: sm_assign_def sm_subscript_def sm_store_def sm_ok_def abs)
          (simp add: sm_abs_def sm_elements_def pairs_def)
    qed
  qed
qed

lemma sm_find_ok:
  assumes "sm_ok hash m" and "mn m < fuel"
  shows "sm_find fuel chk hash k m = Inr (Some (sm_abs m k))"
proof (cases "large_elems m")
  case (Some xs)
  then show ?thesis by (simp add: sm_find_def sm_abs_def sm_elements_def)
next
  case None
  then have b: "buckets_ok hash (mn m) (small_elems m) (table m)" using assms(1) by (simp add: sm_ok_def)
  obtain r where r: "find_bucket fuel chk hash (small_elems m) (table m) k = Inr (Some r)"
      "case r of None \<Rightarrow> map_of (pairs (small_elems m) (mn m)) k = None
       | Some i \<Rightarrow> i < mn m \<and> key_at (small_elems m) i = k \<and>
           map_of (pairs (small_elems m) (mn m)) k = Some (bval (the (small_elems m ! i)))"
    using find_bucket_result [OF b assms(2), of chk k] by blast
  have "slot (small_elems m) i = Inr (the (small_elems m ! i))" if "i < mn m" for i
    using b that by (auto simp: slot_def buckets_ok_def filled_def split: option.split)
  then show ?thesis using None r
    by (cases r) (simp_all add: sm_find_def sm_abs_def sm_elements_def pairs_def)
qed

interpretation sm: finite_map "sm_ok hash" sm_abs "\<lambda>_. None"
  "\<lambda>k v m. sm_assign (Suc (mn m)) chk hash dflt k v m" "\<lambda>k m. sm_find (Suc (mn m)) chk hash k m"
  for hash :: "'k \<Rightarrow> u64" and chk :: bool and dflt :: 'v
proof unfold_locales
  fix m :: "('k, 'v) small_map" and k v
  assume ok: "sm_ok hash m"
  show "finite (dom (sm_abs m))" by (simp add: sm_abs_def finite_dom_map_of)
  show "sm_find (Suc (mn m)) chk hash k m = Inr (Some (sm_abs m k))" by (rule sm_find_ok [OF ok lessI])
  show "\<exists>m'. sm_assign (Suc (mn m)) chk hash dflt k v m = Inr (Some m') \<and> sm_ok hash m' \<and>
      sm_abs m' = (sm_abs m)(k \<mapsto> v) \<and> None = None"
    using sm_assign_ok [OF ok lessI] by simp
qed

text \<open>With \<^verbatim>\<open>exact\<close> false a bit has been shifted out, so the power has to be strictly larger.\<close>

lemma ceil_log2_const_bounds:
  "0 < x \<Longrightarrow> \<exists>k. ceil_log2_const x exact = Some k \<and>
     (if exact then x \<le> 2 ^ k \<and> 2 ^ k < 2 * x else x < 2 ^ k \<and> 2 ^ k \<le> 2 * x)"
proof (induction x exact rule: ceil_log2_const.induct)
  case (1 x exact)
  show ?case
  proof (cases "x = 1")
    case True
    then show ?thesis by (simp add: ceil_log2_const.simps)
  next
    case False
    define e where "e = (if odd x then False else exact)"
    obtain k where k: "ceil_log2_const (x div 2) e = Some k"
        "if e then x div 2 \<le> 2 ^ k \<and> 2 ^ k < 2 * (x div 2) else x div 2 < 2 ^ k \<and> 2 ^ k \<le> 2 * (x div 2)"
      using "1.IH" "1.prems" False by (auto simp: e_def div_greater_zero_iff)
    have "ceil_log2_const x exact = Some (Suc k)"
      using k(1) False "1.prems" by (subst ceil_log2_const.simps) (simp add: e_def)
    moreover have "x = 2 * (x div 2) + x mod 2" "x mod 2 < 2" by simp_all
    ultimately show ?thesis using k(2) by (auto simp: e_def odd_iff_mod_2_eq_one split: if_splits)
  qed
qed

lemma TableSize_pos: "0 < n \<Longrightarrow> 0 < TableSize n"
  using ceil_log2_const_bounds [of n True] by (auto simp: TableSize_def round_up_to_pow2_const_def)

lemma sm_new_ok: "0 < N \<Longrightarrow> sm_ok hash (sm_new N)" "sm_abs (sm_new N) = Map.empty"
  using TableSize_pos [of N] by (simp_all add: sm_new_def sm_ok_def sm_abs_def sm_elements_def new_buckets_ok)

definition stm_ok :: "('k \<Rightarrow> u64) \<Rightarrow> ('k, 'v) static_map \<Rightarrow> bool" where
  "stm_ok hash m \<longleftrightarrow> buckets_ok hash (smn m) (elems m) (stable m)"

definition stm_abs :: "('k, 'v) static_map \<Rightarrow> 'k \<rightharpoonup> 'v" where
  "stm_abs m = map_of (pairs (elems m) (smn m))"

lemma stm_card: "stm_ok hash m \<Longrightarrow> card (dom (stm_abs m)) = smn m"
  unfolding stm_ok_def stm_abs_def
  using distinct_pairs [of hash "smn m" "elems m" "stable m"] length_pairs [of "elems m" "smn m"]
  by (simp add: dom_map_of_conv_image_fst buckets_ok_def) (metis distinct_card length_map set_map)

lemma stm_assign_ok:
  assumes ok: "stm_ok hash m" and room: "card (dom (stm_abs m) \<union> {k}) \<le> length (elems m)"
  shows "\<exists>m'. stm_assign (Suc (smn m)) chk hash dflt k v m = Inr (Some m') \<and> stm_ok hash m' \<and>
    stm_abs m' = (stm_abs m)(k \<mapsto> v) \<and> length (elems m') = length (elems m)"
proof -
  have b: "buckets_ok hash (smn m) (elems m) (stable m)" using ok by (simp add: stm_ok_def)
  obtain r where r: "find_bucket (Suc (smn m)) chk hash (elems m) (stable m) k = Inr (Some r)"
      "case r of None \<Rightarrow> stm_abs m k = None
       | Some i \<Rightarrow> i < smn m \<and> key_at (elems m) i = k \<and> stm_abs m k = Some (bval (the (elems m ! i)))"
    using find_bucket_result [OF b lessI, of chk k] unfolding stm_abs_def by blast
  show ?thesis
  proof (cases r)
    case (Some i)
    then have i: "i < smn m" "key_at (elems m) i = k" using r by auto
    note st = store_bucket_ok [OF b i(1) refl, of v]
    show ?thesis using Some r(1) st(1,2) i(2)
      by (simp add: stm_assign_def stm_subscript_def stm_ok_def stm_abs_def)
  next
    case None
    then have k: "map_of (pairs (elems m) (smn m)) k = None" "k \<notin> dom (stm_abs m)"
      using r by (auto simp: stm_abs_def)
    have "finite (dom (stm_abs m))" by (simp add: stm_abs_def finite_dom_map_of)
    then have lt: "smn m < length (elems m)" using room k(2) stm_card [OF ok] by simp
    obtain els tab where l: "link_bucket (smn m) (hash k) k dflt (elems m, stable m) = (els, tab)"
      by (cases "link_bucket (smn m) (hash k) k dflt (elems m, stable m)")
    note ad = add_bucket_ok [OF b lt k(1) l refl, of v]
    show ?thesis using None r(1) lt l ad
      by (simp add: stm_assign_def stm_subscript_def stm_ok_def stm_abs_def)
  qed
qed

interpretation stm: finite_map "stm_ok hash" stm_abs "\<lambda>m. Some (length (elems m))"
  "\<lambda>k v m. stm_assign (Suc (smn m)) chk hash dflt k v m" "\<lambda>k m. stm_find (Suc (smn m)) chk hash k m"
  for hash :: "'k \<Rightarrow> u64" and chk :: bool and dflt :: 'v
proof unfold_locales
  fix m :: "('k, 'v) static_map" and k v
  assume ok: "stm_ok hash m"
  then have b: "buckets_ok hash (smn m) (elems m) (stable m)" by (simp add: stm_ok_def)
  show "finite (dom (stm_abs m))" by (simp add: stm_abs_def finite_dom_map_of)
  have "slot (elems m) i = Inr (the (elems m ! i))" if "i < smn m" for i
    using b that by (auto simp: slot_def buckets_ok_def filled_def split: option.split)
  moreover obtain r where "find_bucket (Suc (smn m)) chk hash (elems m) (stable m) k = Inr (Some r)"
      "case r of None \<Rightarrow> stm_abs m k = None
       | Some i \<Rightarrow> i < smn m \<and> key_at (elems m) i = k \<and> stm_abs m k = Some (bval (the (elems m ! i)))"
    using find_bucket_result [OF b lessI, of chk k] unfolding stm_abs_def by blast
  ultimately show "stm_find (Suc (smn m)) chk hash k m = Inr (Some (stm_abs m k))"
    by (cases r) (simp_all add: stm_find_def)
  show "case Some (length (elems m)) of None \<Rightarrow> True | Some n \<Rightarrow> card (dom (stm_abs m) \<union> {k}) \<le> n \<Longrightarrow>
      \<exists>m'. stm_assign (Suc (smn m)) chk hash dflt k v m = Inr (Some m') \<and> stm_ok hash m' \<and>
        stm_abs m' = (stm_abs m)(k \<mapsto> v) \<and> Some (length (elems m')) = Some (length (elems m))"
    using stm_assign_ok [OF ok] by simp
qed

lemma stm_new_ok: "0 < N \<Longrightarrow> stm_ok hash (stm_new N)" "stm_abs (stm_new N) = Map.empty" "length (elems (stm_new N)) = N"
  using TableSize_pos [of N] by (simp_all add: stm_new_def stm_ok_def stm_abs_def pairs_def new_buckets_ok)

lemma stm_clear_ok: "stm_ok hash m \<Longrightarrow> stm_ok hash (stm_clear m) \<and> stm_abs (stm_clear m) = Map.empty"
  by (cases "smn m = 0")
    (simp_all add: stm_clear_def stm_ok_def stm_abs_def pairs_def new_buckets_ok buckets_ok_def contents_simps)

section \<open>Properties\<close>

text \<open>
  Table sizes: The table of a map with \<open>n\<close> buckets has the smallest power of two that is not
  less than \<open>n\<close> as its size.
\<close>

theorem TableSize_least_power:
  assumes "0 < n"
  shows "\<exists>k. TableSize n = 2 ^ k \<and> n \<le> 2 ^ k \<and> (\<forall>j. n \<le> 2 ^ j \<longrightarrow> k \<le> j)"
proof -
  obtain k where k: "TableSize n = 2 ^ k" "n \<le> 2 ^ k" "2 ^ k < 2 * n"
    using ceil_log2_const_bounds [OF assms, of True] by (auto simp: TableSize_def round_up_to_pow2_const_def)
  have "k \<le> j" if "n \<le> 2 ^ j" for j
  proof -
    have "2 ^ k < (2 :: nat) ^ Suc j" using k(3) that by simp
    then have "k < Suc j" by (rule power_less_imp_less_exp [rotated]) simp
    then show ?thesis by simp
  qed
  then show ?thesis using k by blast
qed

theorem TableSize_least_power_witness: "\<exists>k. TableSize 5 = 2 ^ k \<and> 5 \<le> (2 :: nat) ^ k \<and> k \<le> 3"
  using TableSize_least_power [of 5] by auto

text \<open>
  Property C28 (lookups in a small map). After any sequence of assignments \<^verbatim>\<open>m[k] = v\<close> to an empty
  \<^verbatim>\<open>small_unordered_map\<close>, whatever the hash function and the collisions, and whether or not the map has
  grown into the large one, \<^verbatim>\<open>find\<close> ends within one step more than there are buckets and gives the value
  last assigned to the key, or \<^verbatim>\<open>end()\<close> for a key that was never assigned.
\<close>

theorem small_map_lookup:
  assumes "0 < SmallSize"
  shows "\<exists>m. assign_all (\<lambda>k v m. sm_assign (Suc (mn m)) check_hash hash dflt k v m) kvs (sm_new SmallSize) = Inr (Some m) \<and>
    (\<forall>k. sm_find (Suc (mn m)) check_hash hash k m = Inr (Some (map_of (rev kvs) k)))"
  using sm.assign_all_lookup [where kvs = kvs and chk = check_hash and dflt = dflt,
      OF sm_new_ok(1) [OF assms, of hash]] by (auto simp: sm_new_ok(2))

theorem small_map_lookup_witness:
  "\<exists>m. assign_all (\<lambda>k v m. sm_assign (Suc (mn m)) True myhash 0 k v m) [(8, 1), (16, 2), (8, 3 :: nat)] (sm_new 1) = Inr (Some m) \<and>
    sm_find (Suc (mn m)) True myhash 8 m = Inr (Some (Some 3)) \<and> sm_find (Suc (mn m)) True myhash 24 m = Inr (Some None)"
  using small_map_lookup [of 1 True myhash 0 "[(8, 1), (16, 2), (8, 3 :: nat)]"] by force

text \<open>
  Lookups in a static map: the same holds for a \<^verbatim>\<open>static_unordered_map\<close> as long as no more
  than \<^verbatim>\<open>StaticSize\<close> different keys are assigned.
\<close>

theorem static_map_lookup:
  assumes "0 < StaticSize" and "card (fst ` set kvs) \<le> StaticSize"
  shows "\<exists>m. assign_all (\<lambda>k v m. stm_assign (Suc (smn m)) check_hash hash dflt k v m) kvs (stm_new StaticSize) = Inr (Some m) \<and>
    (\<forall>k. stm_find (Suc (smn m)) check_hash hash k m = Inr (Some (map_of (rev kvs) k)))"
  using stm.assign_all_lookup [where kvs = kvs and chk = check_hash and dflt = dflt,
      OF stm_new_ok(1) [OF assms(1), of hash]] assms(2) by (auto simp: stm_new_ok)

theorem static_map_lookup_witness:
  "\<exists>m. assign_all (\<lambda>k v m. stm_assign (Suc (smn m)) True myhash 0 k v m) [(8, 1), (16, 2), (8, 3 :: nat)] (stm_new 2) = Inr (Some m) \<and>
    stm_find (Suc (smn m)) True myhash 8 m = Inr (Some (Some 3))"
proof -
  have "fst ` set [(8 :: u64, 1), (16, 2), (8, 3 :: nat)] = {8, 16}" by auto
  then have "card (fst ` set [(8 :: u64, 1), (16, 2), (8, 3 :: nat)]) \<le> 2" by simp
  from static_map_lookup [OF _ this, of True myhash 0] show ?thesis by force
qed

lemma find_chain_self_loop:
  assumes "els = [Some x]" and "bnext x = Some 0" and "bkey x \<noteq> k"
  shows "find_chain fuel chk els h k (Some 0) = Inr None"
  by (induction fuel) (simp_all add: assms slot_def)

text \<open>
  Property C36 (clearing a map that has grown). \<^verbatim>\<open>clear()\<close> on a \<^verbatim>\<open>small_unordered_map\<close> that has become large
  leaves the table of the small one as it was. The map then reports size 0 and still finds the old
  elements; the next assignment can link a bucket to itself, after which a \<^verbatim>\<open>find\<close> of an absent key never ends.
\<close>

theorem small_map_clear_stale:
  fixes put :: "int \<Rightarrow> int \<Rightarrow> (int, int) small_map \<Rightarrow> mem_error + (int, int) small_map option"
  defines "put \<equiv> sm_assign 5 True (\<lambda>_. 0) 0"
  shows "\<exists>m m'. assign_all put [(1, 10), (2, 20)] (sm_new 1) = Inr (Some m) \<and>
    sm_size (sm_clear m) = 0 \<and> sm_find 5 True (\<lambda>_. 0) 1 (sm_clear m) = Inr (Some (Some 10)) \<and>
    put 3 30 (sm_clear m) = Inr (Some m') \<and> (\<forall>fuel. sm_find fuel True (\<lambda>_. 0) 4 m' = Inr None)"
proof -
  have t: "TableSize (Suc 0) = Suc 0" by (simp add: TableSize_def round_up_to_pow2_const_def ceil_log2_const.simps)
  let ?b = "\<lparr>bnext = None, bh = 0, bkey = 1, bval = 10\<rparr> :: (int, int) bucket"
  let ?c = "\<lparr>bnext = Some 0, bh = 0, bkey = 3, bval = 30\<rparr> :: (int, int) bucket"
  let ?m = "\<lparr>mn = 0, small_elems = [Some ?b], table = [Some 0], large_elems = Some [(1, 10), (2, 20)]\<rparr>"
  let ?m' = "\<lparr>mn = 1, small_elems = [Some ?c], table = [Some 0], large_elems = None\<rparr>"
  note defs = put_def sm_assign_def sm_subscript_def sm_store_def find_bucket_def link_bucket_def slot_def
    large_subscript_def bucket_pair_def numeral_eq_Suc
  have 1: "assign_all put [(1, 10), (2, 20)] (sm_new 1) = Inr (Some ?m)" by (simp add: sm_new_def t defs)
  have 2: "sm_find 5 True (\<lambda>_. 0) 1 (sm_clear ?m) = Inr (Some (Some 10))"
    by (simp add: sm_find_def sm_clear_def defs)
  have 3: "put 3 30 (sm_clear ?m) = Inr (Some ?m')" by (simp add: sm_clear_def defs)
  have 4: "sm_find fuel True (\<lambda>_. 0) 4 ?m' = Inr None" for fuel
    by (simp add: sm_find_def find_bucket_def find_chain_self_loop)
  have "sm_size (sm_clear ?m) = 0" by (simp add: sm_size_def sm_clear_def)
  then show ?thesis using 1 2 3 4 by blast
qed

end
