(* ===== verification/Ticker.thy ===== *)
theory Ticker
  imports Silo_Prelude
begin

text \<open>
  The system-wide epoch ticker (\<^verbatim>\<open>src/src/ticker.h\<close>, \<^verbatim>\<open>src/src/spinlock.h\<close>). One thread runs \<^verbatim>\<open>tickerloop\<close>; the
  threads of the other cores open and close guards. Each shared access is one step, so a run is a schedule:
  a list saying who takes the next step. Loads and stores are taken as sequentially consistent. The checks
  written as \<^verbatim>\<open>INVARIANT\<close> are steps that can fail.
\<close>

section \<open>State\<close>

text \<open>The spinlock is the word \<^verbatim>\<open>value\<close>.\<close>

record tickinfo =
  ti_lock :: u32
  ti_current_tick :: u64
  ti_depth :: u64
  ti_start_us :: u64

definition tickinfo_new :: tickinfo where
  "tickinfo_new = \<lparr>ti_lock = 0, ti_current_tick = 1, ti_depth = 0, ti_start_us = 0\<rparr>"

text \<open>A guard object; \<^verbatim>\<open>impl_\<close> and \<^verbatim>\<open>core_\<close> are the system and the core that hold it.\<close>

record guard =
  g_tick :: u64
  g_depth :: u64
  g_start_us :: u64

text \<open>
  Where a thread is: outside the guard's constructor and destructor (\<open>Running\<close>), or before the named access
  of one of them. The local variables of the constructor are arguments.
\<close>

datatype core_pc =
    Running
  | Ctor_lock
  | Ctor_read_tick
  | Ctor_store_tick u64
  | Ctor_store_start u64
  | Ctor_nested u64
  | Ctor_nested_start u64 u64
  | Dtor_start
  | Dtor_unlock

text \<open>The guards of a thread, the innermost first.\<close>

record core =
  core_pc :: core_pc
  guards :: "guard list"

text \<open>Where the ticker is: sleeping, or at core \<open>i\<close> of the round that ends the tick \<open>last\<close>.\<close>

datatype ticker_pc =
    Tick_sleep
  | Tick_load u64 nat
  | Tick_lock u64 nat
  | Tick_store u64 nat
  | Tick_unlock u64 nat

record tick_sys =
  ticks :: "tickinfo list"
  current_tick :: u64
  last_tick_inclusive :: u64
  ticker_pc :: ticker_pc
  cores :: "core list"

definition ticker_init :: "nat \<Rightarrow> tick_sys" where
  "ticker_init n =
     \<lparr>ticks = replicate n tickinfo_new, current_tick = 1, last_tick_inclusive = 0, ticker_pc = Tick_sleep,
      cores = replicate n \<lparr>core_pc = Running, guards = []\<rparr>\<rparr>"

section \<open>Operations\<close>

definition global_last_tick_exclusive :: "tick_sys \<Rightarrow> u64" where
  "global_last_tick_exclusive s = last_tick_inclusive s + 1"

definition compute_global_last_tick_exclusive :: "tick_sys \<Rightarrow> u64" where
  "compute_global_last_tick_exclusive s =
     fold (\<lambda>ti e. min e (ti_current_tick ti)) (tl (ticks s)) (ti_current_tick (hd (ticks s)))"

definition is_locally_guarded :: "nat \<Rightarrow> tick_sys \<Rightarrow> u64 option" where
  "is_locally_guarded i s =
     (if ti_depth (ticks s ! i) \<noteq> 0 then Some (ti_current_tick (ticks s ! i)) else None)"

definition spin_locked :: "tickinfo \<Rightarrow> bool" where
  "spin_locked ti \<longleftrightarrow> ti_lock ti \<noteq> 0"

definition spin_try_lock :: "tickinfo \<Rightarrow> tickinfo option" where
  "spin_try_lock ti = (if ti_lock ti = 0 then Some (ti\<lparr>ti_lock := 1\<rparr>) else None)"

definition spin_unlock :: "tickinfo \<Rightarrow> mem_error + tickinfo" where
  "spin_unlock ti = (if spin_locked ti then Inr (ti\<lparr>ti_lock := 0\<rparr>) else Inl Assert_failed)"

definition put_core :: "nat \<Rightarrow> tickinfo \<Rightarrow> core \<Rightarrow> tick_sys \<Rightarrow> tick_sys" where
  "put_core i ti c s = s\<lparr>ticks := (ticks s)[i := ti], cores := (cores s)[i := c]\<rparr>"

text \<open>The constructor of a guard: the bump of the depth, then one step per access.\<close>

definition guard_begin :: "tickinfo \<Rightarrow> core \<Rightarrow> tickinfo \<times> core" where
  "guard_begin ti c =
     (let prev_depth = ti_depth ti
      in (ti\<lparr>ti_depth := prev_depth + 1\<rparr>,
          c\<lparr>core_pc := (if prev_depth = 0 then Ctor_lock else Ctor_nested prev_depth)\<rparr>))"

definition guard_made :: "u64 \<Rightarrow> u64 \<Rightarrow> u64 \<Rightarrow> tickinfo \<Rightarrow> core \<Rightarrow> mem_error + (tickinfo \<times> core)" where
  "guard_made tick depth start_us ti c =
     (if spin_locked ti
      then Inr (ti, c\<lparr>core_pc := Running, guards := \<lparr>g_tick = tick, g_depth = depth, g_start_us = start_us\<rparr> # guards c\<rparr>)
      else Inl Assert_failed)"

text \<open>The destructor: the innermost guard goes; the last one clears the start time and unlocks.\<close>

definition guard_end :: "u64 \<Rightarrow> tickinfo \<Rightarrow> core \<Rightarrow> mem_error + (tickinfo \<times> core)" where
  "guard_end last_inclusive ti c =
     (case guards c of
        [] \<Rightarrow> Inr (ti, c)
      | g # gs \<Rightarrow>
          if spin_locked ti \<and> last_inclusive < g_tick g \<and> ti_depth ti \<noteq> 0
          then Inr (ti\<lparr>ti_depth := ti_depth ti - 1\<rparr>,
                    c\<lparr>core_pc := (if ti_depth ti = 1 then Dtor_start else Running), guards := gs\<rparr>)
          else Inl Assert_failed)"

text \<open>The next access of a thread inside a constructor or destructor; a lock that is taken makes it spin.\<close>

definition guard_continue :: "u64 \<Rightarrow> u64 \<Rightarrow> tickinfo \<Rightarrow> core \<Rightarrow> mem_error + (tickinfo \<times> core)" where
  "guard_continue now global_tick ti c =
     (case core_pc c of
        Running \<Rightarrow> Inr (ti, c)
      | Ctor_lock \<Rightarrow> (case spin_try_lock ti of None \<Rightarrow> Inr (ti, c) | Some ti' \<Rightarrow> Inr (ti', c\<lparr>core_pc := Ctor_read_tick\<rparr>))
      | Ctor_read_tick \<Rightarrow> Inr (ti, c\<lparr>core_pc := Ctor_store_tick global_tick\<rparr>)
      | Ctor_store_tick tick \<Rightarrow>
          if ti_current_tick ti \<le> tick
          then Inr (ti\<lparr>ti_current_tick := tick\<rparr>, c\<lparr>core_pc := Ctor_store_start tick\<rparr>)
          else Inl Assert_failed
      | Ctor_store_start tick \<Rightarrow> guard_made tick 1 now (ti\<lparr>ti_start_us := now\<rparr>) c
      | Ctor_nested prev_depth \<Rightarrow> Inr (ti, c\<lparr>core_pc := Ctor_nested_start prev_depth (ti_current_tick ti)\<rparr>)
      | Ctor_nested_start prev_depth tick \<Rightarrow> guard_made tick (prev_depth + 1) (ti_start_us ti) ti c
      | Dtor_start \<Rightarrow> Inr (ti\<lparr>ti_start_us := 0\<rparr>, c\<lparr>core_pc := Dtor_unlock\<rparr>)
      | Dtor_unlock \<Rightarrow> sbind (spin_unlock ti) (\<lambda>ti'. Inr (ti', c\<lparr>core_pc := Running\<rparr>)))"

text \<open>
  One step of \<^verbatim>\<open>tickerloop\<close>. Only the ticker writes \<^verbatim>\<open>current_tick_\<close>, so its non-atomic increment is one step.
\<close>

definition tickerloop_step :: "tick_sys \<Rightarrow> mem_error + tick_sys" where
  "tickerloop_step s =
     (case ticker_pc s of
        Tick_sleep \<Rightarrow>
          Inr (s\<lparr>current_tick := current_tick s + 1, ticker_pc := Tick_load (current_tick s) 0\<rparr>)
      | Tick_load last_tick i \<Rightarrow>
          if length (ticks s) \<le> i
          then Inr (s\<lparr>last_tick_inclusive := last_tick, ticker_pc := Tick_sleep\<rparr>)
          else let t = ti_current_tick (ticks s ! i)
               in if t \<noteq> last_tick \<and> t \<noteq> last_tick + 1 then Inl Assert_failed
                  else if t = last_tick + 1 then Inr (s\<lparr>ticker_pc := Tick_load last_tick (Suc i)\<rparr>)
                  else Inr (s\<lparr>ticker_pc := Tick_lock last_tick i\<rparr>)
      | Tick_lock last_tick i \<Rightarrow>
          (case spin_try_lock (ticks s ! i) of
             None \<Rightarrow> Inr s
           | Some ti \<Rightarrow> Inr (s\<lparr>ticks := (ticks s)[i := ti], ticker_pc := Tick_store last_tick i\<rparr>))
      | Tick_store last_tick i \<Rightarrow>
          Inr (s\<lparr>ticks := (ticks s)[i := (ticks s ! i)\<lparr>ti_current_tick := last_tick + 1\<rparr>], ticker_pc := Tick_unlock last_tick i\<rparr>)
      | Tick_unlock last_tick i \<Rightarrow>
          sbind (spin_unlock (ticks s ! i)) (\<lambda>ti.
            Inr (s\<lparr>ticks := (ticks s)[i := ti], ticker_pc := Tick_load last_tick (Suc i)\<rparr>)))"

section \<open>Schedules\<close>

text \<open>
  Who takes the next step: a core that opens or closes a guard or goes on inside one of these (with the time
  of the clock), or the ticker. A core opens and closes guards only between constructors and destructors.
\<close>

datatype actor = Open_guard nat | Close_guard nat | Continue nat u64 | Tick_thread

definition core_step :: "(tickinfo \<Rightarrow> core \<Rightarrow> mem_error + (tickinfo \<times> core)) \<Rightarrow> nat \<Rightarrow> tick_sys \<Rightarrow> mem_error + tick_sys" where
  "core_step f i s =
     (if i < length (cores s)
      then sbind (f (ticks s ! i) (cores s ! i)) (\<lambda>(ti, c). Inr (put_core i ti c s))
      else Inr s)"

definition when_running ::
  "(tickinfo \<Rightarrow> core \<Rightarrow> mem_error + (tickinfo \<times> core)) \<Rightarrow> tickinfo \<Rightarrow> core \<Rightarrow> mem_error + (tickinfo \<times> core)" where
  "when_running f ti c = (if core_pc c = Running then f ti c else Inr (ti, c))"

fun actor_step :: "actor \<Rightarrow> tick_sys \<Rightarrow> mem_error + tick_sys" where
  "actor_step (Open_guard i) s = core_step (when_running (\<lambda>ti c. Inr (guard_begin ti c))) i s"
| "actor_step (Close_guard i) s = core_step (when_running (guard_end (last_tick_inclusive s))) i s"
| "actor_step (Continue i now) s = core_step (guard_continue now (current_tick s)) i s"
| "actor_step Tick_thread s = tickerloop_step s"

fun run_ticker :: "actor list \<Rightarrow> tick_sys \<Rightarrow> mem_error + tick_sys" where
  "run_ticker [] s = Inr s"
| "run_ticker (a # as) s = sbind (actor_step a s) (run_ticker as)"

lemma run_ticker_append: "run_ticker (as @ bs) s = sbind (run_ticker as s) (run_ticker bs)"
proof (induction as arbitrary: s)
  case (Cons a as)
  then show ?case by (cases "actor_step a s") simp_all
qed simp

section \<open>Invariant\<close>

definition holds_lock :: "core \<Rightarrow> bool" where
  "holds_lock c \<longleftrightarrow> guards c \<noteq> [] \<or> core_pc c \<noteq> Running \<and> core_pc c \<noteq> Ctor_lock"

text \<open>What holds at each point of a thread; \<open>G\<close> is the global tick.\<close>

definition pc_ok :: "u64 \<Rightarrow> tickinfo \<Rightarrow> core \<Rightarrow> bool" where
  "pc_ok G ti c \<longleftrightarrow>
     (case core_pc c of
        Running \<Rightarrow> ti_depth ti = of_nat (length (guards c))
      | Ctor_lock \<Rightarrow> guards c = [] \<and> ti_depth ti = 1
      | Ctor_read_tick \<Rightarrow> guards c = [] \<and> ti_depth ti = 1
      | Ctor_store_tick t \<Rightarrow> guards c = [] \<and> ti_depth ti = 1 \<and> ti_current_tick ti \<le> t \<and> t \<le> G
      | Ctor_store_start t \<Rightarrow> guards c = [] \<and> ti_depth ti = 1 \<and> t = ti_current_tick ti
      | Ctor_nested prev \<Rightarrow> guards c \<noteq> [] \<and> prev = of_nat (length (guards c)) \<and> ti_depth ti = prev + 1
      | Ctor_nested_start prev t \<Rightarrow>
          guards c \<noteq> [] \<and> prev = of_nat (length (guards c)) \<and> ti_depth ti = prev + 1 \<and> t = ti_current_tick ti
      | Dtor_start \<Rightarrow> guards c = [] \<and> ti_depth ti = 0
      | Dtor_unlock \<Rightarrow> guards c = [] \<and> ti_depth ti = 0)"

text \<open>
  The lock of a core is held by its thread or by the ticker (\<open>held\<close>), never by both, and all guards of the
  thread have the tick its core shows. \<open>n\<close> bounds the nesting.
\<close>

definition core_ok :: "nat \<Rightarrow> u64 \<Rightarrow> bool \<Rightarrow> tickinfo \<Rightarrow> core \<Rightarrow> bool" where
  "core_ok n G held ti c \<longleftrightarrow>
     ti_lock ti = (if held \<or> holds_lock c then 1 else 0) \<and> \<not> (held \<and> holds_lock c) \<and>
     (\<forall>g \<in> set (guards c). g_tick g = ti_current_tick ti) \<and> length (guards c) \<le> n \<and> pc_ok G ti c"

definition ticker_holds :: "ticker_pc \<Rightarrow> nat \<Rightarrow> bool" where
  "ticker_holds p i \<longleftrightarrow> (case p of Tick_store _ j \<Rightarrow> j = i | Tick_unlock _ j \<Rightarrow> j = i | _ \<Rightarrow> False)"

text \<open>In the round that ends the tick \<open>l\<close>, the cores below \<open>j\<close> have left it.\<close>

definition round_ok :: "u64 \<Rightarrow> nat \<Rightarrow> tick_sys \<Rightarrow> bool" where
  "round_ok l j s \<longleftrightarrow>
     current_tick s = l + 1 \<and> unat (current_tick s) = Suc (unat l) \<and> unat l = Suc (unat (last_tick_inclusive s)) \<and>
     (\<forall>i < length (ticks s). ti_current_tick (ticks s ! i) = current_tick s \<or>
        j \<le> i \<and> ti_current_tick (ticks s ! i) = l)"

definition phase_ok :: "tick_sys \<Rightarrow> bool" where
  "phase_ok s \<longleftrightarrow>
     (case ticker_pc s of
        Tick_sleep \<Rightarrow> unat (current_tick s) = Suc (unat (last_tick_inclusive s)) \<and>
          (\<forall>i < length (ticks s). ti_current_tick (ticks s ! i) = current_tick s)
      | Tick_load l j \<Rightarrow> round_ok l j s
      | Tick_lock l j \<Rightarrow> round_ok l j s \<and> j < length (ticks s)
      | Tick_store l j \<Rightarrow> round_ok l j s \<and> j < length (ticks s)
      | Tick_unlock l j \<Rightarrow> round_ok l (Suc j) s \<and> j < length (ticks s))"

definition tick_inv :: "nat \<Rightarrow> tick_sys \<Rightarrow> bool" where
  "tick_inv n s \<longleftrightarrow>
     length (ticks s) = length (cores s) \<and> unat (current_tick s) \<le> Suc n \<and> phase_ok s \<and>
     (\<forall>i < length (cores s). core_ok n (current_tick s) (ticker_holds (ticker_pc s) i) (ticks s ! i) (cores s ! i))"

lemma ticker_init_inv: "tick_inv 0 (ticker_init n)"
  by (simp add: tick_inv_def ticker_init_def phase_ok_def core_ok_def ticker_holds_def holds_lock_def pc_ok_def
      tickinfo_new_def)

text \<open>Every core shows a tick above those completed and at most one behind the global one.\<close>

lemma core_tick_window:
  assumes "phase_ok s" and "i < length (ticks s)"
  shows "unat (last_tick_inclusive s) < unat (ti_current_tick (ticks s ! i))"
    and "unat (ti_current_tick (ticks s ! i)) \<le> unat (current_tick s)"
    and "unat (current_tick s) \<le> Suc (unat (ti_current_tick (ticks s ! i)))"
  using assms by (auto simp: phase_ok_def round_ok_def split: ticker_pc.splits)

section \<open>Steps of a core\<close>

text \<open>What a step of a core may do to what it shares: the tick it shows grows, up to the global one.\<close>

definition core_move :: "nat \<Rightarrow> u64 \<Rightarrow> bool \<Rightarrow> tickinfo \<Rightarrow> mem_error + (tickinfo \<times> core) \<Rightarrow> bool" where
  "core_move n G held ti r \<longleftrightarrow>
     (\<exists>ti' c'. r = Inr (ti', c') \<and> core_ok n G held ti' c' \<and> ti_current_tick ti \<le> ti_current_tick ti' \<and>
        (ti_current_tick ti' = ti_current_tick ti \<or> ti_current_tick ti' \<le> G))"

lemma of_nat_small_eq_0:
  assumes "n < 2 ^ LENGTH('a)"
  shows "(of_nat n :: 'a::len word) = 0 \<longleftrightarrow> n = 0"
proof
  assume "(of_nat n :: 'a word) = 0"
  then have "unat (of_nat n :: 'a word) = unat (0 :: 'a word)" by (rule arg_cong)
  then show "n = 0" by (simp only: unat_of_nat_small [OF assms] unsigned_0)
qed simp

lemma of_nat_small_eq_1:
  assumes "n < 2 ^ LENGTH('a)"
  shows "(of_nat n :: 'a::len word) = 1 \<longleftrightarrow> n = 1"
proof
  assume "(of_nat n :: 'a word) = 1"
  then have "unat (of_nat n :: 'a word) = unat (1 :: 'a word)" by (rule arg_cong)
  then show "n = 1" by (simp only: unat_of_nat_small [OF assms] unsigned_1)
qed simp

lemma guard_begin_ok:
  assumes "core_ok n G held ti c" and "n < 2 ^ 64"
  shows "core_move (Suc n) G held ti (when_running (\<lambda>ti c. Inr (guard_begin ti c)) ti c)"
proof (cases "core_pc c = Running")
  case True
  have l: "length (guards c) < 2 ^ LENGTH(64)" using assms by (simp add: core_ok_def)
  show ?thesis using assms True of_nat_small_eq_0 [OF l]
    by (auto simp: core_move_def when_running_def guard_begin_def core_ok_def holds_lock_def pc_ok_def Let_def)
next
  case False
  then show ?thesis using assms by (auto simp: core_move_def when_running_def core_ok_def)
qed

lemma guard_end_ok:
  assumes ok: "core_ok n G held ti c" and n: "n < 2 ^ 64" and L: "L < ti_current_tick ti"
  shows "core_move (Suc n) G held ti (when_running (guard_end L) ti c)"
proof (cases "core_pc c = Running \<and> guards c \<noteq> []")
  case True
  then obtain g gs where g: "guards c = g # gs" by (cases "guards c") auto
  have l: "Suc (length gs) < 2 ^ LENGTH(64)" using ok n g by (simp add: core_ok_def)
  have "ti_depth ti = of_nat (Suc (length gs))" using ok True by (simp add: core_ok_def pc_ok_def g)
  then show ?thesis
    using ok True of_nat_small_eq_0 [OF l] of_nat_small_eq_1 [OF l] L
    by (auto simp: core_move_def when_running_def guard_end_def core_ok_def holds_lock_def pc_ok_def g spin_locked_def)
next
  case False
  then show ?thesis using ok by (auto simp: core_move_def when_running_def core_ok_def guard_end_def)
qed

lemma guard_continue_ok:
  assumes "core_ok n G held ti c" and "ti_current_tick ti \<le> G"
  shows "core_move (Suc n) G held ti (guard_continue now G ti c)"
  using assms
  by (cases "core_pc c")
    (auto simp: core_move_def guard_continue_def core_ok_def holds_lock_def pc_ok_def spin_try_lock_def guard_made_def
      spin_locked_def spin_unlock_def)

section \<open>Steps of the system\<close>

lemma core_ok_mono: "core_ok n G held ti c \<Longrightarrow> n \<le> m \<Longrightarrow> G \<le> G' \<Longrightarrow> core_ok m G' held ti c"
  by (auto simp: core_ok_def pc_ok_def split: core_pc.splits)

lemma tick_inv_mono: "tick_inv n s \<Longrightarrow> n \<le> m \<Longrightarrow> tick_inv m s"
  by (auto simp: tick_inv_def intro: core_ok_mono)

text \<open>A tick that lies between the two of a round is one of them.\<close>

lemma tick_squeeze:
  fixes t :: u64
  assumes "old = G \<or> old = l" and "old \<le> t" and "t \<le> G" and "unat G = Suc (unat l)"
  shows "t = G \<or> old = l \<and> t = l"
proof -
  have "unat t = unat G \<or> old = l \<and> unat t = unat l" using assms by (auto simp: word_le_unat)
  then show ?thesis using unsigned_word_eqI [of t G] unsigned_word_eqI [of t l] by blast
qed

lemma put_core_phase:
  assumes ph: "phase_ok s" and i: "i < length (ticks s)"
    and t: "ti_current_tick (ticks s ! i) \<le> ti_current_tick ti" "ti_current_tick ti \<le> current_tick s"
  shows "phase_ok (put_core i ti c s)"
proof -
  have rnd: "round_ok l j (put_core i ti c s)" if r: "round_ok l j s" for l j
  proof -
    have o: "ti_current_tick (ticks s ! i) = current_tick s \<or> ti_current_tick (ticks s ! i) = l"
      using r i by (auto simp: round_ok_def)
    have "ti_current_tick ti = current_tick s \<or> ti_current_tick (ticks s ! i) = l \<and> ti_current_tick ti = l"
      using r unfolding round_ok_def by (intro tick_squeeze [OF o t]) blast
    then show ?thesis using r i by (auto simp: round_ok_def put_core_def nth_list_update)
  qed
  have slp: "ti_current_tick ti = current_tick s" if "ti_current_tick (ticks s ! i) = current_tick s" using that t by simp
  show ?thesis
  proof (cases "ticker_pc s")
    case Tick_sleep
    then show ?thesis using ph i slp by (auto simp: phase_ok_def put_core_def nth_list_update)
  qed (use ph rnd in \<open>auto simp: phase_ok_def put_core_def\<close>)
qed

lemma core_step_ok:
  assumes inv: "tick_inv n s"
    and f: "\<And>ti c held. i < length (cores s) \<Longrightarrow> ti = ticks s ! i \<Longrightarrow> core_ok n (current_tick s) held ti c \<Longrightarrow>
      core_move (Suc n) (current_tick s) held ti (f ti c)"
  shows "\<exists>s'. core_step f i s = Inr s' \<and> tick_inv (Suc n) s'"
proof (cases "i < length (cores s)")
  case True
  let ?ti = "ticks s ! i" and ?held = "ticker_holds (ticker_pc s) i"
  have len: "length (ticks s) = length (cores s)" and ph: "phase_ok s" using inv by (simp_all add: tick_inv_def)
  have "core_move (Suc n) (current_tick s) ?held ?ti (f ?ti (cores s ! i))"
    using f [OF True refl] inv True by (simp add: tick_inv_def)
  then obtain ti c where m: "f ?ti (cores s ! i) = Inr (ti, c)" "core_ok (Suc n) (current_tick s) ?held ti c"
      "ti_current_tick ?ti \<le> ti_current_tick ti"
      "ti_current_tick ti = ti_current_tick ?ti \<or> ti_current_tick ti \<le> current_tick s"
    by (auto simp: core_move_def)
  have i: "i < length (ticks s)" using True len by simp
  have "ti_current_tick ti \<le> current_tick s" using m(4) core_tick_window(2) [OF ph i] by (auto simp: word_le_unat)
  then have "phase_ok (put_core i ti c s)" by (rule put_core_phase [OF ph i m(3)])
  moreover have "core_ok (Suc n) (current_tick s) (ticker_holds (ticker_pc s) j) (ticks s ! j) (cores s ! j)"
    if "j < length (cores s)" for j
    using inv that by (auto simp: tick_inv_def intro: core_ok_mono)
  ultimately have "tick_inv (Suc n) (put_core i ti c s)"
    using inv m(2) True len by (auto simp: tick_inv_def put_core_def nth_list_update)
  then show ?thesis using m(1) True by (simp add: core_step_def)
next
  case False
  then show ?thesis using tick_inv_mono [OF inv, of "Suc n"] by (simp add: core_step_def)
qed

text \<open>The ticker touches the core it is at, and only while it holds its lock.\<close>

lemma ticker_at:
  assumes inv: "tick_inv n s" and i: "i < length (cores s)"
    and me: "\<And>j. ticker_holds (ticker_pc s) j \<Longrightarrow> j = i" and p: "\<And>j. ticker_holds p j \<longleftrightarrow> j = i \<and> held"
    and ok: "core_ok (Suc n) (current_tick s) held ti (cores s ! i)"
    and ph: "phase_ok (s\<lparr>ticks := (ticks s)[i := ti], ticker_pc := p\<rparr>)"
  shows "tick_inv (Suc n) (s\<lparr>ticks := (ticks s)[i := ti], ticker_pc := p\<rparr>)"
proof -
  have "core_ok (Suc n) (current_tick s) (ticker_holds p j) ((ticks s)[i := ti] ! j) (cores s ! j)"
    if j: "j < length (cores s)" for j
  proof (cases "j = i")
    case True
    then show ?thesis using ok p j inv by (simp add: tick_inv_def)
  next
    case False
    then have "\<not> ticker_holds (ticker_pc s) j" "\<not> ticker_holds p j" using me p by auto
    moreover have "core_ok n (current_tick s) (ticker_holds (ticker_pc s) j) (ticks s ! j) (cores s ! j)"
      using inv j by (simp add: tick_inv_def)
    ultimately show ?thesis using core_ok_mono [of n "current_tick s" False _ _ "Suc n"] False by auto
  qed
  then show ?thesis using inv ph by (simp add: tick_inv_def)
qed

lemma tickerloop_step_ok:
  assumes inv: "tick_inv n s" and n: "n + 2 < 2 ^ 64"
  shows "\<exists>s'. tickerloop_step s = Inr s' \<and> tick_inv (Suc n) s'"
proof -
  let ?G = "current_tick s"
  have len: "length (ticks s) = length (cores s)" and ph: "phase_ok s" and G: "unat ?G \<le> Suc n"
    using inv by (simp_all add: tick_inv_def)
  have co: "core_ok (Suc n) ?G (ticker_holds (ticker_pc s) i) (ticks s ! i) (cores s ! i)" if "i < length (cores s)" for i
    using inv that by (auto simp: tick_inv_def intro: core_ok_mono)
  have bump: "unat (?G + 1) = Suc (unat ?G)" using G n by (subst unat_add_lem [THEN iffD1]) simp_all
  show ?thesis
  proof (cases "ticker_pc s")
    case Tick_sleep
    have "core_ok (Suc n) (?G + 1) False (ticks s ! i) (cores s ! i)" if "i < length (cores s)" for i
      using co [OF that] bump by (auto simp: Tick_sleep ticker_holds_def word_le_unat intro: core_ok_mono)
    then show ?thesis using ph len G bump Tick_sleep
      by (auto simp: tickerloop_step_def tick_inv_def phase_ok_def round_ok_def ticker_holds_def)
  next
    case (Tick_load l i)
    have r: "round_ok l i s" using ph by (simp add: phase_ok_def Tick_load)
    have ne: "l \<noteq> l + 1" using r by (auto simp: round_ok_def)
    show ?thesis
    proof (cases "i < length (ticks s)")
      case True
      have "round_ok l (Suc i) s" if "ti_current_tick (ticks s ! i) = l + 1"
        using r that ne by (auto simp: round_ok_def Suc_le_eq le_less)
      then show ?thesis using r True ne co len G Tick_load
        by (auto simp: tickerloop_step_def tick_inv_def phase_ok_def ticker_holds_def Let_def round_ok_def)
    next
      case False
      then show ?thesis using r co len G Tick_load
        by (auto simp: tickerloop_step_def tick_inv_def phase_ok_def ticker_holds_def round_ok_def)
    qed
  next
    case (Tick_lock l i)
    have i: "i < length (cores s)" and r: "round_ok l i s" using ph len by (simp_all add: phase_ok_def Tick_lock)
    show ?thesis
    proof (cases "spin_try_lock (ticks s ! i)")
      case None
      then show ?thesis using tick_inv_mono [OF inv, of "Suc n"] by (simp add: tickerloop_step_def Tick_lock)
    next
      case (Some ti)
      have "tick_inv (Suc n) (s\<lparr>ticks := (ticks s)[i := ti], ticker_pc := Tick_store l i\<rparr>)"
        by (rule ticker_at [OF inv i, where held = True])
          (use r i co [OF i] Some len in \<open>auto simp: Tick_lock ticker_holds_def phase_ok_def round_ok_def spin_try_lock_def
             core_ok_def pc_ok_def nth_list_update split: if_splits core_pc.splits\<close>)
      then show ?thesis using Some by (simp add: tickerloop_step_def Tick_lock)
    qed
  next
    case (Tick_store l i)
    have i: "i < length (cores s)" and r: "round_ok l i s" using ph len by (simp_all add: phase_ok_def Tick_store)
    have "tick_inv (Suc n) (s\<lparr>ticks := (ticks s)[i := (ticks s ! i)\<lparr>ti_current_tick := l + 1\<rparr>], ticker_pc := Tick_unlock l i\<rparr>)"
      by (rule ticker_at [OF inv i, where held = True])
        (use r i co [OF i] len in \<open>auto simp: Tick_store ticker_holds_def phase_ok_def round_ok_def
           core_ok_def holds_lock_def pc_ok_def nth_list_update split: core_pc.splits\<close>)
    then show ?thesis by (simp add: tickerloop_step_def Tick_store)
  next
    case (Tick_unlock l i)
    have i: "i < length (cores s)" and r: "round_ok l (Suc i) s" using ph len by (simp_all add: phase_ok_def Tick_unlock)
    have lk: "spin_unlock (ticks s ! i) = Inr ((ticks s ! i)\<lparr>ti_lock := 0\<rparr>)"
      using co [OF i] by (simp add: spin_unlock_def spin_locked_def core_ok_def Tick_unlock ticker_holds_def)
    have "tick_inv (Suc n) (s\<lparr>ticks := (ticks s)[i := (ticks s ! i)\<lparr>ti_lock := 0\<rparr>], ticker_pc := Tick_load l (Suc i)\<rparr>)"
      by (rule ticker_at [OF inv i, where held = False])
        (use r i co [OF i] len in \<open>auto simp: Tick_unlock ticker_holds_def phase_ok_def round_ok_def
           core_ok_def pc_ok_def nth_list_update split: core_pc.splits\<close>)
    then show ?thesis using lk by (simp add: tickerloop_step_def Tick_unlock)
  qed
qed

lemma actor_step_ok:
  assumes inv: "tick_inv n s" and n: "n + 2 < 2 ^ 64"
  shows "\<exists>s'. actor_step a s = Inr s' \<and> tick_inv (Suc n) s'"
proof -
  have ph: "phase_ok s" and len: "length (ticks s) = length (cores s)" using inv by (simp_all add: tick_inv_def)
  have n': "n < 2 ^ 64" using n by simp
  show ?thesis
  proof (cases a)
    case (Open_guard i)
    then show ?thesis using core_step_ok [OF inv] guard_begin_ok [OF _ n'] by simp
  next
    case (Close_guard i)
    have "last_tick_inclusive s < ti_current_tick (ticks s ! i)" if "i < length (cores s)"
      using core_tick_window(1) [OF ph, of i] that len by (simp add: word_less_unat)
    then show ?thesis using core_step_ok [OF inv] guard_end_ok [OF _ n'] Close_guard by simp
  next
    case (Continue i now)
    have "ti_current_tick (ticks s ! i) \<le> current_tick s" if "i < length (cores s)"
      using core_tick_window(2) [OF ph, of i] that len by (simp add: word_le_unat)
    then show ?thesis using core_step_ok [OF inv] guard_continue_ok Continue by simp
  next
    case Tick_thread
    then show ?thesis using tickerloop_step_ok [OF inv n] by simp
  qed
qed

lemma run_ticker_ok:
  "tick_inv n s \<Longrightarrow> n + length as + 1 < 2 ^ 64 \<Longrightarrow> \<exists>s'. run_ticker as s = Inr s' \<and> tick_inv (n + length as) s'"
proof (induction as arbitrary: n s)
  case (Cons a as)
  obtain s1 where "actor_step a s = Inr s1" "tick_inv (Suc n) s1"
    using actor_step_ok [OF Cons.prems(1)] Cons.prems(2) by auto
  then show ?case using Cons.IH [of "Suc n" s1] Cons.prems(2) by simp
qed simp

section \<open>What guards promise their users\<close>

text \<open>The tick of the region a core is in, from the end of the outermost constructor on.\<close>

definition region_tick :: "nat \<Rightarrow> tick_sys \<Rightarrow> u64 option" where
  "region_tick i s =
     (if i < length (cores s)
      then (case guards (cores s ! i) of [] \<Rightarrow> None | g # gs \<Rightarrow> Some (g_tick g))
      else None)"

definition core_tick :: "nat \<Rightarrow> tick_sys \<Rightarrow> u64" where
  "core_tick i s = (if i < length (ticks s) then ti_current_tick (ticks s ! i) else 0)"

text \<open>
  The contract of an epoch scheme: a region keeps the tick of its core, completed ticks are below those of
  all regions, regions that are open together are at most one tick apart, and the tick of a core never
  decreases. \<open>inv n\<close> holds of the states within \<open>n\<close> steps.
\<close>

locale epoch_scheme =
  fixes inv :: "nat \<Rightarrow> 's \<Rightarrow> bool" and act :: "'a \<Rightarrow> 's \<Rightarrow> 'e + 's" and region :: "nat \<Rightarrow> 's \<Rightarrow> u64 option"
    and tick :: "nat \<Rightarrow> 's \<Rightarrow> u64" and completed_ex :: "'s \<Rightarrow> u64"
  assumes act_ok: "inv n s \<Longrightarrow> n + 2 < 2 ^ 64 \<Longrightarrow> \<exists>s'. act a s = Inr s' \<and> inv (Suc n) s'"
    and region_tick: "inv n s \<Longrightarrow> region i s = Some t \<Longrightarrow> t = tick i s"
    and tick_bound: "inv n s \<Longrightarrow> unat (tick i s) \<le> Suc n"
    and completed: "inv n s \<Longrightarrow> region i s = Some t \<Longrightarrow> completed_ex s \<le> t"
    and behind: "inv n s \<Longrightarrow> region i s = Some t \<Longrightarrow> unat t \<le> Suc (unat (completed_ex s))"
    and window: "inv n s \<Longrightarrow> region i s = Some t \<Longrightarrow> region j s = Some u \<Longrightarrow> unat t \<le> Suc (unat u)"
    and grows: "inv n s \<Longrightarrow> n + 2 < 2 ^ 64 \<Longrightarrow> act a s = Inr s' \<Longrightarrow> tick i s \<le> tick i s'"
    and completed_grows: "inv n s \<Longrightarrow> n + 2 < 2 ^ 64 \<Longrightarrow> act a s = Inr s' \<Longrightarrow> completed_ex s \<le> completed_ex s'"
    and keeps: "inv n s \<Longrightarrow> n + 2 < 2 ^ 64 \<Longrightarrow> act a s = Inr s' \<Longrightarrow> region i s = Some t \<Longrightarrow> region i s' = Some u \<Longrightarrow> u = t"
begin

text \<open>
  Waiting in units of \<open>m\<close> ticks: what is retired inside a region of tick \<open>u\<close> is due at \<open>(u + 1) div m\<close>. A unit
  is reclaimed when it lies below that of the completed ticks, so never while a region that was open at
  the retirement is.
\<close>

lemma retire_after:
  assumes "inv n s" and "n + 2 < 2 ^ 64" and "region i s = Some t" and "region j s = Some u"
  shows "t div m \<le> (u + 1) div m"
proof -
  have "unat u \<le> Suc n" using region_tick [OF assms(1,4)] tick_bound [OF assms(1)] by simp
  then have "unat (u + 1) = Suc (unat u)" using assms(2) by (subst unat_add_lem [THEN iffD1]) simp_all
  then have "unat t \<le> unat (u + 1)" using window [OF assms(1,3,4)] by simp
  then have "unat t div unat m \<le> unat (u + 1) div unat m" by (rule div_le_mono)
  then show ?thesis by (simp only: word_le_unat unat_div)
qed

lemma not_due:
  assumes "inv n s" and "region i s = Some t" and "t div m \<le> r" and "completed_ex s div m \<noteq> 0"
  shows "\<not> r \<le> completed_ex s div m - 1"
proof -
  have "unat (completed_ex s) div unat m \<le> unat t div unat m"
    using completed [OF assms(1,2)] by (intro div_le_mono) (simp add: word_le_unat)
  then have "unat (completed_ex s div m) \<le> unat r" using assms(3) by (simp add: word_le_unat unat_div)
  moreover have "0 < unat (completed_ex s div m)" using assms(4) by (simp add: unat_gt_0)
  ultimately show ?thesis using assms(4) by (simp add: not_le word_less_unat unat_minus_one)
qed

end

lemma region_tick_core:
  assumes "tick_inv n s" and "region_tick i s = Some t"
  shows "t = core_tick i s" and "i < length (ticks s)" and "i < length (cores s)"
  using assms by (auto simp: region_tick_def core_tick_def tick_inv_def core_ok_def split: if_splits list.splits)

text \<open>A step of a core changes what it shares only as \<^const>\<open>core_move\<close> allows, and keeps the tick of an open region.\<close>

lemma guard_steps_keep:
  assumes "guards c \<noteq> []" and "guards c' \<noteq> []" and "core_ok n G held ti c"
    and "when_running (\<lambda>ti c. Inr (guard_begin ti c)) ti c = Inr (ti', c') \<or> when_running (guard_end L) ti c = Inr (ti', c') \<or>
      guard_continue now G ti c = Inr (ti', c')"
  shows "ti_current_tick ti' = ti_current_tick ti"
  using assms(4)
proof (elim disjE)
  assume "guard_continue now G ti c = Inr (ti', c')"
  then show ?thesis using assms(1,3)
    by (cases "core_pc c")
      (auto simp: guard_continue_def core_ok_def pc_ok_def guard_made_def spin_try_lock_def spin_unlock_def split: if_splits)
qed (auto simp: when_running_def guard_begin_def guard_end_def Let_def split: if_splits list.splits)

lemma core_step_keeps:
  assumes inv: "tick_inv n s" and st: "core_step f i s = Inr s'"
    and f: "\<And>ti c ti' c'. f ti c = Inr (ti', c') \<Longrightarrow> ti = ticks s ! i \<Longrightarrow> core_ok n (current_tick s) (ticker_holds (ticker_pc s) i) ti c \<Longrightarrow>
      guards c \<noteq> [] \<Longrightarrow> guards c' \<noteq> [] \<Longrightarrow> ti_current_tick ti' = ti_current_tick ti"
    and r: "region_tick j s \<noteq> None" "region_tick j s' \<noteq> None"
  shows "core_tick j s' = core_tick j s"
proof (cases "i < length (cores s) \<and> j = i")
  case True
  then obtain ti c where m: "f (ticks s ! i) (cores s ! i) = Inr (ti, c)" "s' = put_core i ti c s"
    using st by (auto simp: core_step_def sbind_Inr split: if_splits)
  have "core_ok n (current_tick s) (ticker_holds (ticker_pc s) i) (ticks s ! i) (cores s ! i)"
    using inv True by (simp add: tick_inv_def)
  moreover have "guards (cores s ! i) \<noteq> []" using r(1) True by (auto simp: region_tick_def)
  moreover have "guards c \<noteq> []" using r(2) True m(2) by (auto simp: region_tick_def put_core_def)
  ultimately show ?thesis using f [OF m(1) refl] True m(2) by (auto simp: core_tick_def put_core_def)
next
  case False
  then show ?thesis using st by (auto simp: core_step_def sbind_Inr core_tick_def put_core_def split: if_splits)
qed

lemma ticker_keeps:
  assumes inv: "tick_inv n s" and st: "tickerloop_step s = Inr s'" and r: "region_tick j s \<noteq> None"
  shows "core_tick j s' = core_tick j s"
proof -
  have j: "j < length (cores s)" "guards (cores s ! j) \<noteq> []" using r by (auto simp: region_tick_def split: if_splits)
  then have "\<not> ticker_holds (ticker_pc s) j" using inv by (auto simp: tick_inv_def core_ok_def holds_lock_def)
  moreover have "phase_ok s" using inv by (simp add: tick_inv_def)
  ultimately show ?thesis using st
    by (auto simp: tickerloop_step_def core_tick_def ticker_holds_def spin_try_lock_def spin_unlock_def sbind_Inr Let_def
        phase_ok_def nth_list_update split: ticker_pc.splits if_splits)
qed

lemma actor_step_keeps:
  assumes inv: "tick_inv n s" and st: "actor_step a s = Inr s'" and r: "region_tick j s \<noteq> None" "region_tick j s' \<noteq> None"
  shows "core_tick j s' = core_tick j s"
proof (cases a)
  case (Open_guard i)
  show ?thesis by (rule core_step_keeps [OF inv st [unfolded Open_guard actor_step.simps] _ r]) (use guard_steps_keep in blast)
next
  case (Close_guard i)
  show ?thesis by (rule core_step_keeps [OF inv st [unfolded Close_guard actor_step.simps] _ r]) (use guard_steps_keep in blast)
next
  case (Continue i now)
  show ?thesis by (rule core_step_keeps [OF inv st [unfolded Continue actor_step.simps] _ r]) (use guard_steps_keep in blast)
next
  case Tick_thread
  then show ?thesis using ticker_keeps [OF inv _ r(1)] st by simp
qed

text \<open>The tick of a core grows.\<close>

lemma core_step_grows:
  assumes inv: "tick_inv n s" and st: "core_step f i s = Inr s'"
    and f: "\<And>ti c held. i < length (cores s) \<Longrightarrow> ti = ticks s ! i \<Longrightarrow> core_ok n (current_tick s) held ti c \<Longrightarrow>
      core_move (Suc n) (current_tick s) held ti (f ti c)"
  shows "core_tick j s \<le> core_tick j s'"
proof (cases "i < length (cores s)")
  case True
  have "core_ok n (current_tick s) (ticker_holds (ticker_pc s) i) (ticks s ! i) (cores s ! i)"
    using inv True by (simp add: tick_inv_def)
  then obtain ti c where "f (ticks s ! i) (cores s ! i) = Inr (ti, c)" "ti_current_tick (ticks s ! i) \<le> ti_current_tick ti"
    using f [OF True refl] unfolding core_move_def by blast
  then show ?thesis using st True inv by (auto simp: core_step_def core_tick_def put_core_def tick_inv_def nth_list_update)
next
  case False
  then show ?thesis using st by (auto simp: core_step_def)
qed

lemma ticker_grows:
  assumes inv: "tick_inv n s" and st: "tickerloop_step s = Inr s'"
  shows "core_tick j s \<le> core_tick j s'"
proof -
  have ph: "phase_ok s" using inv by (simp add: tick_inv_def)
  then have "ti_current_tick (ticks s ! i) \<le> current_tick s" if "i < length (ticks s)" for i
    using core_tick_window(2) [OF ph that] by (simp add: word_le_unat)
  then show ?thesis using st ph
    by (auto simp: tickerloop_step_def core_tick_def spin_try_lock_def spin_unlock_def sbind_Inr Let_def
        phase_ok_def round_ok_def nth_list_update split: ticker_pc.splits if_splits)
qed

lemma actor_step_grows:
  assumes inv: "tick_inv n s" and n: "n + 2 < 2 ^ 64" and st: "actor_step a s = Inr s'"
  shows "core_tick j s \<le> core_tick j s'"
proof -
  have ph: "phase_ok s" and len: "length (ticks s) = length (cores s)" using inv by (simp_all add: tick_inv_def)
  have n': "n < 2 ^ 64" using n by simp
  have w: "last_tick_inclusive s < ti_current_tick (ticks s ! i)" "ti_current_tick (ticks s ! i) \<le> current_tick s"
    if "i < length (cores s)" for i
    using core_tick_window [OF ph, of i] that len by (simp_all add: word_less_unat word_le_unat)
  show ?thesis
  proof (cases a)
    case (Open_guard i)
    show ?thesis by (rule core_step_grows [OF inv st [unfolded Open_guard actor_step.simps] guard_begin_ok [OF _ n']])
  next
    case (Close_guard i)
    show ?thesis by (rule core_step_grows [OF inv st [unfolded Close_guard actor_step.simps] guard_end_ok [OF _ n']]) (simp_all add: w)
  next
    case (Continue i now)
    show ?thesis by (rule core_step_grows [OF inv st [unfolded Continue actor_step.simps] guard_continue_ok]) (simp_all add: w)
  next
    case Tick_thread
    then show ?thesis using ticker_grows [OF inv] st by simp
  qed
qed

lemma region_window:
  assumes inv: "tick_inv n s" and t: "region_tick i s = Some t"
  shows "unat (last_tick_inclusive s) < unat t" and "unat t \<le> unat (current_tick s)" and "unat (current_tick s) \<le> Suc (unat t)"
proof -
  note r = region_tick_core [OF inv t]
  have ph: "phase_ok s" using inv by (simp add: tick_inv_def)
  show "unat (last_tick_inclusive s) < unat t" "unat t \<le> unat (current_tick s)" "unat (current_tick s) \<le> Suc (unat t)"
    using core_tick_window [OF ph r(2)] r(1,2) by (simp_all add: core_tick_def)
qed

lemma last_exclusive: "tick_inv n s \<Longrightarrow> region_tick i s = Some t \<Longrightarrow> global_last_tick_exclusive s \<le> t"
  using region_window(1) by (simp add: global_last_tick_exclusive_def inc_le word_less_unat)

lemma last_exclusive_behind:
  assumes inv: "tick_inv n s" and t: "region_tick i s = Some t"
  shows "unat t \<le> Suc (unat (global_last_tick_exclusive s))"
proof -
  have "unat (current_tick s) \<le> Suc (Suc (unat (last_tick_inclusive s)))"
    using inv by (auto simp: tick_inv_def phase_ok_def round_ok_def split: ticker_pc.splits)
  moreover have "unat (last_tick_inclusive s + 1) = Suc (unat (last_tick_inclusive s))"
    using region_window(1) [OF inv t] unsigned_less [of t, where 'a = nat] by (subst unat_add_lem [THEN iffD1]) simp_all
  ultimately show ?thesis using region_window(2) [OF inv t] by (simp add: global_last_tick_exclusive_def)
qed

lemma last_exclusive_grows:
  assumes inv: "tick_inv n s" and n: "n + 2 < 2 ^ 64" and st: "actor_step a s = Inr s'"
  shows "global_last_tick_exclusive s \<le> global_last_tick_exclusive s'"
proof (cases "last_tick_inclusive s' = last_tick_inclusive s")
  case False
  have G: "unat (current_tick s) \<le> Suc n" and ph: "phase_ok s" using inv by (simp_all add: tick_inv_def)
  obtain l i where l: "ticker_pc s = Tick_load l i" "last_tick_inclusive s' = l"
    using st False
    by (cases a) (auto simp: core_step_def put_core_def tickerloop_step_def sbind_Inr Let_def
        split: if_splits ticker_pc.splits option.splits)
  then have u: "unat l = Suc (unat (last_tick_inclusive s))" "unat l < unat (current_tick s)"
    using ph by (auto simp: phase_ok_def round_ok_def)
  have "unat (last_tick_inclusive s + 1) = Suc (unat (last_tick_inclusive s))" "unat (l + 1) = Suc (unat l)"
    using u G n by (subst unat_add_lem [THEN iffD1]; simp)+
  then show ?thesis using u(1) by (simp add: global_last_tick_exclusive_def l(2) word_le_unat)
qed (simp add: global_last_tick_exclusive_def)

interpretation ticker: epoch_scheme tick_inv actor_step region_tick core_tick global_last_tick_exclusive
proof unfold_locales
  fix n s a i t j u s'
  assume inv: "tick_inv n s"
  show "n + 2 < 2 ^ 64 \<Longrightarrow> \<exists>s'. actor_step a s = Inr s' \<and> tick_inv (Suc n) s'" by (rule actor_step_ok [OF inv])
  show "region_tick i s = Some t \<Longrightarrow> t = core_tick i s" by (rule region_tick_core(1) [OF inv])
  have ph: "phase_ok s" using inv by (simp add: tick_inv_def)
  show "unat (core_tick i s) \<le> Suc n" using core_tick_window(2) [OF ph, of i] inv by (auto simp: core_tick_def tick_inv_def)
  show "region_tick i s = Some t \<Longrightarrow> global_last_tick_exclusive s \<le> t" by (rule last_exclusive [OF inv])
  show "region_tick i s = Some t \<Longrightarrow> unat t \<le> Suc (unat (global_last_tick_exclusive s))" by (rule last_exclusive_behind [OF inv])
  show "region_tick i s = Some t \<Longrightarrow> region_tick j s = Some u \<Longrightarrow> unat t \<le> Suc (unat u)"
    using region_window [OF inv] by (meson le_trans)
  show "n + 2 < 2 ^ 64 \<Longrightarrow> actor_step a s = Inr s' \<Longrightarrow> core_tick i s \<le> core_tick i s'" by (rule actor_step_grows [OF inv])
  show "n + 2 < 2 ^ 64 \<Longrightarrow> actor_step a s = Inr s' \<Longrightarrow> global_last_tick_exclusive s \<le> global_last_tick_exclusive s'"
    by (rule last_exclusive_grows [OF inv])
next
  fix n s a i t u s'
  assume inv: "tick_inv n s" and n: "n + 2 < 2 ^ 64" and st: "actor_step a s = Inr s'"
    and t: "region_tick i s = Some t" "region_tick i s' = Some u"
  have eq: "core_tick i s' = core_tick i s" by (rule actor_step_keeps [OF inv st]) (use t in simp_all)
  have "tick_inv (Suc n) s'" using actor_step_ok [OF inv n, of a] st by simp
  then show "u = t" using region_tick_core(1) inv t eq by metis
qed

text \<open>A run during which the region of core \<open>j\<close> stays open: the ticks completed grow by at most one.\<close>

fun region_lasts :: "nat \<Rightarrow> actor list \<Rightarrow> tick_sys \<Rightarrow> bool" where
  "region_lasts j [] s \<longleftrightarrow> region_tick j s \<noteq> None"
| "region_lasts j (a # as) s \<longleftrightarrow>
     region_tick j s \<noteq> None \<and> (case actor_step a s of Inl _ \<Rightarrow> False | Inr s' \<Rightarrow> region_lasts j as s')"

lemma region_lasts_open: "region_lasts j as s \<Longrightarrow> region_tick j s \<noteq> None"
  by (cases as) simp_all

lemma region_lasts_tick:
  "tick_inv n s \<Longrightarrow> n + length as + 1 < 2 ^ 64 \<Longrightarrow> region_lasts j as s \<Longrightarrow> run_ticker as s = Inr s' \<Longrightarrow> region_tick j s = Some t \<Longrightarrow>
     region_tick j s' = Some t \<and> tick_inv (n + length as) s'"
proof (induction as arbitrary: n s)
  case (Cons a as)
  obtain s1 where s1: "actor_step a s = Inr s1" "region_lasts j as s1" "run_ticker as s1 = Inr s'"
    using Cons.prems(3,4) by (auto simp: sbind_Inr split: sum.splits)
  have n: "n + 2 < 2 ^ 64" using Cons.prems(2) by simp
  have "tick_inv (Suc n) s1" using ticker.act_ok [OF Cons.prems(1) n, of a] s1(1) by simp
  moreover obtain u where u: "region_tick j s1 = Some u" using region_lasts_open [OF s1(2)] by auto
  moreover have "u = t" by (rule ticker.keeps [OF Cons.prems(1) n s1(1) Cons.prems(5) u])
  ultimately show ?case using Cons.IH [of "Suc n" s1] Cons.prems(2) s1 by simp
qed simp

lemma region_lasts_completed:
  assumes "tick_inv n s" and "n + length as + 1 < 2 ^ 64" and "region_lasts j as s" and "run_ticker as s = Inr s'"
  shows "unat (global_last_tick_exclusive s') \<le> Suc (unat (global_last_tick_exclusive s))"
proof -
  obtain t where t: "region_tick j s = Some t" using region_lasts_open [OF assms(3)] by auto
  have "region_tick j s' = Some t" "tick_inv (n + length as) s'" using region_lasts_tick [OF assms t] by simp_all
  then have "global_last_tick_exclusive s' \<le> t" by (metis ticker.completed)
  then show ?thesis using ticker.behind [OF assms(1) t] by (simp add: word_le_unat)
qed

section \<open>Properties\<close>

text \<open>The first core's tick and the minimum with the others.\<close>

lemma fold_min_ge: "(a :: 'a::linorder) \<le> b \<Longrightarrow> \<forall>x \<in> set xs. a \<le> f x \<Longrightarrow> a \<le> fold (\<lambda>x e. min e (f x)) xs b"
  by (induction xs arbitrary: b) simp_all

lemma compute_last_exclusive:
  assumes "tick_inv n s" and "ticks s \<noteq> []"
  shows "global_last_tick_exclusive s \<le> compute_global_last_tick_exclusive s"
proof -
  have ph: "phase_ok s" using assms(1) by (simp add: tick_inv_def)
  have "global_last_tick_exclusive s \<le> ti_current_tick ti" if ti: "ti \<in> set (ticks s)" for ti
  proof -
    obtain i where "i < length (ticks s)" "ti = ticks s ! i" using ti by (auto simp: in_set_conv_nth)
    then show ?thesis using core_tick_window(1) [OF ph, of i] by (simp add: global_last_tick_exclusive_def inc_le word_less_unat)
  qed
  then show ?thesis using assms(2) unfolding compute_global_last_tick_exclusive_def
    by (intro fold_min_ge) (simp_all add: list.set_sel)
qed

lemma actor_step_length: "actor_step a s = Inr s' \<Longrightarrow> length (cores s') = length (cores s)"
  by (cases a)
    (auto simp: core_step_def put_core_def tickerloop_step_def sbind_Inr Let_def
      split: if_splits ticker_pc.splits option.splits)

lemma run_ticker_length: "run_ticker as s = Inr s' \<Longrightarrow> length (cores s') = length (cores s)"
  by (induction as arbitrary: s) (auto simp: sbind_Inr dest: actor_step_length)

lemma region_guarded:
  assumes inv: "tick_inv n s" and n: "n + 1 < 2 ^ 64" and t: "region_tick i s = Some t"
  shows "spin_locked (ticks s ! i)" and "is_locally_guarded i s = Some t"
proof -
  note r = region_tick_core [OF inv t]
  have ok: "core_ok n (current_tick s) (ticker_holds (ticker_pc s) i) (ticks s ! i) (cores s ! i)"
    using inv r(3) by (simp add: tick_inv_def)
  have g: "guards (cores s ! i) \<noteq> []" using t by (auto simp: region_tick_def split: if_splits)
  let ?l = "length (guards (cores s ! i))"
  have l: "?l < 2 ^ LENGTH(64)" "Suc ?l < 2 ^ LENGTH(64)" using ok n by (simp_all add: core_ok_def)
  have d: "ti_depth (ticks s ! i) = of_nat ?l \<or> ti_depth (ticks s ! i) = of_nat (Suc ?l)"
    using ok g by (auto simp: core_ok_def pc_ok_def split: core_pc.splits)
  have "of_nat ?l \<noteq> (0 :: u64)" "of_nat (Suc ?l) \<noteq> (0 :: u64)"
    using of_nat_small_eq_0 [OF l(1)] of_nat_small_eq_0 [OF l(2)] g by (simp_all del: of_nat_Suc)
  then have "ti_depth (ticks s ! i) \<noteq> 0" using d by metis
  then show "is_locally_guarded i s = Some t" using r by (simp add: is_locally_guarded_def core_tick_def)
  show "spin_locked (ticks s ! i)" using ok g by (auto simp: core_ok_def holds_lock_def spin_locked_def)
qed

text \<open>
  Property C13 (the ticker's assertions). In every interleaving of guards on \<open>N\<close> cores with the ticker, nested
  guards included, no \<^verbatim>\<open>INVARIANT\<close> of the ticker, the guards and their locks fails. In every state reached, a
  core inside a region holds its lock, sees itself guarded with the tick of the region, that tick is not
  among those completed and at most one behind the global tick; and the minimum over all cores is never
  below the completed ticks. (The run is shorter than the range of the 64-bit counters.)
\<close>

theorem ticker_assertions_hold:
  assumes "length as + 1 < 2 ^ 64" and "0 < N"
  shows "\<exists>s. run_ticker as (ticker_init N) = Inr s \<and>
    global_last_tick_exclusive s \<le> compute_global_last_tick_exclusive s \<and>
    (\<forall>i t. region_tick i s = Some t \<longrightarrow> spin_locked (ticks s ! i) \<and> is_locally_guarded i s = Some t \<and>
       last_tick_inclusive s < t \<and> t \<le> current_tick s \<and> unat (current_tick s) \<le> Suc (unat t))"
proof -
  obtain s where s: "run_ticker as (ticker_init N) = Inr s" "tick_inv (length as) s"
    using run_ticker_ok [OF ticker_init_inv, of as N] assms(1) by auto
  have "length (ticks s) = N" using run_ticker_length [OF s(1)] s(2) by (simp add: tick_inv_def ticker_init_def)
  then have "ticks s \<noteq> []" using assms(2) by auto
  then have "global_last_tick_exclusive s \<le> compute_global_last_tick_exclusive s" by (rule compute_last_exclusive [OF s(2)])
  then show ?thesis using s(1) region_guarded [OF s(2) assms(1)] region_window [OF s(2)]
    by (auto simp: word_less_unat word_le_unat)
qed

text \<open>Two cores and a whole round of the ticker; core 0 is in a region of tick 2, core 1 still in one of tick 1.\<close>

definition demo_schedule :: "actor list" where
  "demo_schedule =
     [Open_guard 1, Continue 1 7, Continue 1 7, Continue 1 7, Continue 1 7, Tick_thread, Tick_thread, Tick_thread, Tick_thread,
      Tick_thread, Tick_thread, Tick_thread, Open_guard 0, Continue 0 9, Continue 0 9, Continue 0 9, Continue 0 9, Open_guard 0,
      Continue 0 9, Continue 0 9]"

lemma demo_schedule_run:
  "case run_ticker demo_schedule (ticker_init 2) of
     Inl _ \<Rightarrow> False
   | Inr s \<Rightarrow> region_tick 0 s = Some 2 \<and> region_tick 1 s = Some 1 \<and> last_tick_inclusive s = 0 \<and> current_tick s = 2"
  by code_simp

theorem ticker_assertions_hold_witness:
  "\<exists>s. run_ticker demo_schedule (ticker_init 2) = Inr s \<and> region_tick 0 s = Some 2 \<and> region_tick 1 s = Some 1 \<and>
     is_locally_guarded 0 s = Some 2 \<and> is_locally_guarded 1 s = Some 1 \<and> spin_locked (ticks s ! 1) \<and>
     global_last_tick_exclusive s \<le> compute_global_last_tick_exclusive s"
proof -
  have "length demo_schedule + 1 < 2 ^ 64" by (simp add: demo_schedule_def)
  then show ?thesis using ticker_assertions_hold [of demo_schedule 2] demo_schedule_run by auto
qed

end
