(* ===== verification/Px_Queue.thy ===== *)
theory Px_Queue
  imports Silo_Prelude
begin

text \<open>
  The queue of deferred deletions (\<^verbatim>\<open>src/src/pxqueue.h\<close>): groups of elements of one tick, linked from the
  oldest to the newest, and a free list of groups. Groups live in a store of their own; the elements of a
  group are a vector.
\<close>

section \<open>Groups and queues\<close>

record 'a px_group =
  gnext :: "nat option"
  pxs :: "'a list"
  rcu_tick :: u64

record 'a group_store =
  groups :: "nat \<Rightarrow> 'a px_group"
  next_group :: nat

record px_queue =
  q_head :: "nat option"
  q_tail :: "nat option"
  freelist_head :: "nat option"
  freelist_tail :: "nat option"
  ngroups :: nat

definition pxq_new :: px_queue where
  "pxq_new = \<lparr>q_head = None, q_tail = None, freelist_head = None, freelist_tail = None, ngroups = 0\<rparr>"

definition set_group :: "nat \<Rightarrow> 'a px_group \<Rightarrow> 'a group_store \<Rightarrow> 'a group_store" where
  "set_group g x S = S\<lparr>groups := (groups S)(g := x)\<rparr>"

definition set_next :: "nat \<Rightarrow> nat option \<Rightarrow> 'a group_store \<Rightarrow> 'a group_store" where
  "set_next g p S = set_group g ((groups S g)\<lparr>gnext := p\<rparr>) S"

section \<open>Operations\<close>

fun alloc_freelist :: "nat \<Rightarrow> 'a group_store \<Rightarrow> px_queue \<Rightarrow> 'a group_store \<times> px_queue" where
  "alloc_freelist 0 S q = (S, q)"
| "alloc_freelist (Suc n) S q =
     (let p = next_group S;
          ft = (if freelist_tail q = None then Some p else freelist_tail q);
          S1 = (set_group p \<lparr>gnext = freelist_head q, pxs = [], rcu_tick = 0\<rparr> S)\<lparr>next_group := Suc p\<rparr>
      in alloc_freelist n S1 (q\<lparr>freelist_tail := ft, freelist_head := Some p\<rparr>))"

definition ensure_freelist :: "'a group_store \<Rightarrow> px_queue \<Rightarrow> 'a group_store \<times> px_queue" where
  "ensure_freelist S q = (if freelist_head q \<noteq> None then (S, q) else alloc_freelist 16 S q)"

text \<open>The adjustment of \<^verbatim>\<open>head_\<close> and \<^verbatim>\<open>tail_\<close> when the group \<open>g\<close> becomes the last one.\<close>

definition append_group :: "nat \<Rightarrow> 'a group_store \<Rightarrow> px_queue \<Rightarrow> 'a group_store \<times> px_queue" where
  "append_group g S q =
     (case q_head q of
        None \<Rightarrow> (S, q\<lparr>q_head := Some g, q_tail := Some g\<rparr>)
      | Some h \<Rightarrow> (set_next (the (q_tail q)) (Some g) S, q\<lparr>q_tail := Some g\<rparr>))"

text \<open>Popping the head of the free list as a fresh last group; \<open>None\<close>: a null pointer is dereferenced.\<close>

definition new_group :: "u64 \<Rightarrow> 'a group_store \<Rightarrow> px_queue \<Rightarrow> ('a group_store \<times> px_queue) option" where
  "new_group tick S q =
     (case freelist_head q of
        None \<Rightarrow> None
      | Some g \<Rightarrow>
          let ft = (if Some g = freelist_tail q then None else freelist_tail q);
              q1 = q\<lparr>freelist_head := gnext (groups S g), freelist_tail := ft, ngroups := ngroups q + 1\<rparr>;
              S1 = set_group g \<lparr>gnext = None, pxs = [], rcu_tick = tick\<rparr> S
          in Some (append_group g S1 q1))"

definition emplace :: "'a \<Rightarrow> nat \<Rightarrow> 'a group_store \<Rightarrow> 'a group_store" where
  "emplace t g S = set_group g ((groups S g)\<lparr>pxs := pxs (groups S g) @ [t]\<rparr>) S"

definition enqueue :: "nat \<Rightarrow> 'a \<Rightarrow> u64 \<Rightarrow> 'a group_store \<Rightarrow> px_queue \<Rightarrow> ('a group_store \<times> px_queue) option" where
  "enqueue GroupSize t tick S q =
     (if (case q_tail q of
            None \<Rightarrow> True
          | Some l \<Rightarrow> length (pxs (groups S l)) = GroupSize \<or> rcu_tick (groups S l) \<noteq> tick)
      then case ensure_freelist S q of (S1, q1) \<Rightarrow>
             (case new_group tick S1 q1 of
                None \<Rightarrow> None
              | Some (S2, q2) \<Rightarrow> Some (emplace t (the (q_tail q2)) S2, q2))
      else Some (emplace t (the (q_tail q)) S, q))"

definition pxq_empty :: "px_queue \<Rightarrow> bool" where
  "pxq_empty q \<longleftrightarrow> q_head q = None"

text \<open>The loop of \<^verbatim>\<open>empty_accept_from\<close>, with fuel: (store, this queue, source).\<close>

fun accept_loop ::
  "nat \<Rightarrow> u64 \<Rightarrow> 'a group_store \<times> px_queue \<times> px_queue \<Rightarrow> ('a group_store \<times> px_queue \<times> px_queue) option" where
  "accept_loop 0 tick (S, q, src) = None"
| "accept_loop (Suc fuel) tick (S, q, src) =
     (case q_head src of
        None \<Rightarrow> Some (S, q, src)
      | Some p \<Rightarrow>
          if rcu_tick (groups S p) \<le> tick
          then let pnext = gnext (groups S p);
                   (S1, q1) = append_group p (set_next p None S) q;
                   src1 = src\<lparr>ngroups := ngroups src - 1, q_head := pnext,
                     q_tail := (if pnext = None then None else q_tail src)\<rparr>
               in accept_loop fuel tick (S1, q1\<lparr>ngroups := ngroups q1 + 1\<rparr>, src1)
          else Some (S, q, src))"

definition empty_accept_from ::
  "nat \<Rightarrow> u64 \<Rightarrow> 'a group_store \<Rightarrow> px_queue \<Rightarrow> px_queue \<Rightarrow> (mem_error + ('a group_store \<times> px_queue \<times> px_queue) option)" where
  "empty_accept_from fuel tick S q src =
     (if \<not> pxq_empty q then Inl Assert_failed else Inr (accept_loop fuel tick (S, q, src)))"

text \<open>\<^verbatim>\<open>transfer_freelist\<close> with \<^verbatim>\<open>n < 0\<close>: the whole free list.\<close>

definition transfer_all :: "'a group_store \<Rightarrow> px_queue \<Rightarrow> px_queue \<Rightarrow> 'a group_store \<times> px_queue \<times> px_queue" where
  "transfer_all S q dest =
     (case freelist_head q of
        None \<Rightarrow> (S, q, dest)
      | Some h \<Rightarrow>
          let S1 = set_next (the (freelist_tail q)) (freelist_head dest) S;
              dt = (if freelist_tail dest = None then freelist_tail q else freelist_tail dest)
          in (S1, q\<lparr>freelist_head := None, freelist_tail := None\<rparr>,
              dest\<lparr>freelist_tail := dt, freelist_head := Some h\<rparr>))"

text \<open>\<^verbatim>\<open>transfer_freelist\<close> with a count.\<close>

fun transfer_n :: "nat \<Rightarrow> 'a group_store \<Rightarrow> px_queue \<Rightarrow> px_queue \<Rightarrow> 'a group_store \<times> px_queue \<times> px_queue" where
  "transfer_n 0 S q dest = (S, q, dest)"
| "transfer_n (Suc n) S q dest =
     (case freelist_head q of
        None \<Rightarrow> (S, q, dest)
      | Some p \<Rightarrow>
          let tmp = gnext (groups S p);
              S1 = set_next p (freelist_head dest) S;
              dt = (if freelist_tail dest = None then Some p else freelist_tail dest);
              ft = (if Some p = freelist_tail q then None else freelist_tail q)
          in transfer_n n S1 (q\<lparr>freelist_tail := ft, freelist_head := tmp\<rparr>)
               (dest\<lparr>freelist_head := Some p, freelist_tail := dt\<rparr>))"

definition pxq_clear :: "'a group_store \<Rightarrow> px_queue \<Rightarrow> 'a group_store \<times> px_queue" where
  "pxq_clear S q =
     (case q_head q of
        None \<Rightarrow> (S, q)
      | Some h \<Rightarrow>
          let S1 = set_next (the (q_tail q)) (freelist_head q) S;
              ft = (if freelist_tail q = None then q_tail q else freelist_tail q)
          in (S1, \<lparr>q_head = None, q_tail = None, freelist_head = Some h, freelist_tail = ft, ngroups = 0\<rparr>))"

definition get_latest_epoch :: "'a group_store \<Rightarrow> px_queue \<Rightarrow> u64 option" where
  "get_latest_epoch S q = map_option (\<lambda>l. rcu_tick (groups S l)) (q_tail q)"

text \<open>Iterators: the group and the index in it; \<^verbatim>\<open>end()\<close> is the null group with index 0.\<close>

definition iter_incr :: "'a group_store \<Rightarrow> nat \<times> nat \<Rightarrow> (nat option \<times> nat)" where
  "iter_incr S = (\<lambda>(p, i).
     if i + 1 = length (pxs (groups S p)) then (gnext (groups S p), 0) else (Some p, i + 1))"

fun iterate :: "nat \<Rightarrow> 'a group_store \<Rightarrow> nat option \<times> nat \<Rightarrow> ('a \<times> u64) list option" where
  "iterate 0 S it = None"
| "iterate (Suc fuel) S it =
     (case it of
        (None, i) \<Rightarrow> Some []
      | (Some p, i) \<Rightarrow>
          if i < length (pxs (groups S p))
          then map_option ((#) (pxs (groups S p) ! i, rcu_tick (groups S p))) (iterate fuel S (iter_incr S (p, i)))
          else None)"

section \<open>Chains of groups\<close>

text \<open>The links lead from \<open>p\<close> through the groups \<open>gs\<close> to \<open>q\<close>.\<close>

fun segment :: "(nat \<Rightarrow> 'a px_group) \<Rightarrow> nat option \<Rightarrow> nat list \<Rightarrow> nat option \<Rightarrow> bool" where
  "segment G p [] q \<longleftrightarrow> p = q"
| "segment G p (g # gs) q \<longleftrightarrow> p = Some g \<and> segment G (gnext (G g)) gs q"

definition linked :: "(nat \<Rightarrow> 'a px_group) \<Rightarrow> nat option \<Rightarrow> nat option \<Rightarrow> nat list \<Rightarrow> bool" where
  "linked G h t gs \<longleftrightarrow> segment G h gs None \<and> t = (if gs = [] then None else Some (last gs))"

lemma segment_cong: "\<forall>g \<in> set gs. gnext (G' g) = gnext (G g) \<Longrightarrow> segment G' p gs q = segment G p gs q"
  by (induction gs arbitrary: p) simp_all

lemma linked_cong: "\<forall>g \<in> set gs. gnext (G' g) = gnext (G g) \<Longrightarrow> linked G' h t gs = linked G h t gs"
  unfolding linked_def by (simp only: segment_cong)

lemma segment_append: "segment G p (gs @ hs) q \<longleftrightarrow> (\<exists>r. segment G p gs r \<and> segment G r hs q)"
  by (induction gs arbitrary: p) simp_all

lemma segment_redirect:
  assumes "segment G p gs r" and "gs \<noteq> []" and "distinct gs" and "gnext x = q"
  shows "segment (G(last gs := x)) p gs q"
proof -
  obtain us l where gs: "gs = us @ [l]" using assms(2) by (metis append_butlast_last_id)
  have "segment G p us (Some l)" using assms(1) by (auto simp: gs segment_append)
  then have "segment (G(l := x)) p us (Some l)"
    using segment_cong [of us "G(l := x)" G p "Some l"] assms(3) by (auto simp: gs)
  then show ?thesis using assms(4) by (auto simp: gs segment_append)
qed

text \<open>The well-formedness \<^verbatim>\<open>sanity_check\<close> tests: the groups \<open>gs\<close> of the queue and \<open>fs\<close> of its free list.\<close>

definition pxq_rep :: "nat \<Rightarrow> 'a group_store \<Rightarrow> px_queue \<Rightarrow> nat list \<Rightarrow> nat list \<Rightarrow> bool" where
  "pxq_rep GroupSize S q gs fs \<longleftrightarrow>
     linked (groups S) (q_head q) (q_tail q) gs \<and> linked (groups S) (freelist_head q) (freelist_tail q) fs \<and>
     distinct (gs @ fs) \<and> (\<forall>g \<in> set (gs @ fs). g < next_group S) \<and> ngroups q = length gs \<and>
     (\<forall>g \<in> set gs. pxs (groups S g) \<noteq> [] \<and> length (pxs (groups S g)) \<le> GroupSize) \<and>
     sorted (map (\<lambda>g. rcu_tick (groups S g)) gs)"

definition group_entries :: "'a px_group \<Rightarrow> ('a \<times> u64) list" where
  "group_entries x = map (\<lambda>t. (t, rcu_tick x)) (pxs x)"

definition entries :: "'a group_store \<Rightarrow> nat list \<Rightarrow> ('a \<times> u64) list" where
  "entries S gs = concat (map (\<lambda>g. group_entries (groups S g)) gs)"

lemma entries_simps [simp]:
  "entries S [] = []" "entries S (g # gs) = group_entries (groups S g) @ entries S gs"
  "entries S (gs @ hs) = entries S gs @ entries S hs"
  by (simp_all add: entries_def)

lemma entries_cong:
  "\<forall>g \<in> set gs. pxs (groups S' g) = pxs (groups S g) \<and> rcu_tick (groups S' g) = rcu_tick (groups S g) \<Longrightarrow>
     entries S' gs = entries S gs"
  by (induction gs) (simp_all add: group_entries_def)

lemma set_group_simps [simp]:
  "groups (set_group g x S) = (groups S)(g := x)" "next_group (set_group g x S) = next_group S"
  "groups (set_next g p S) = (groups S)(g := (groups S g)\<lparr>gnext := p\<rparr>)" "next_group (set_next g p S) = next_group S"
  "groups (emplace t g S) = (groups S)(g := (groups S g)\<lparr>pxs := pxs (groups S g) @ [t]\<rparr>)"
  "next_group (emplace t g S) = next_group S"
  by (simp_all add: set_group_def set_next_def emplace_def)

section \<open>Allocation\<close>

lemma alloc_freelist_rep:
  "pxq_rep N S q gs fs \<Longrightarrow> alloc_freelist n S q = (S', q') \<Longrightarrow>
     \<exists>fs'. pxq_rep N S' q' gs (fs' @ fs) \<and> length fs' = n \<and> entries S' gs = entries S gs \<and>
       next_group S' = next_group S + n \<and> (\<forall>g < next_group S. groups S' g = groups S g) \<and>
       (\<forall>g \<in> set fs'. next_group S \<le> g) \<and> q_head q' = q_head q \<and> q_tail q' = q_tail q"
proof (induction n arbitrary: S q fs)
  case 0
  then show ?case by (intro exI [of _ "[]"]) simp
next
  case (Suc n)
  let ?p = "next_group S"
  let ?x = "\<lparr>gnext = freelist_head q, pxs = [], rcu_tick = 0\<rparr>"
  let ?S = "(set_group ?p ?x S)\<lparr>next_group := Suc ?p\<rparr>"
  let ?q = "q\<lparr>freelist_tail := (if freelist_tail q = None then Some ?p else freelist_tail q), freelist_head := Some ?p\<rparr>"
  have fresh: "?p \<notin> set gs" "?p \<notin> set fs" using Suc.prems(1) by (auto simp: pxq_rep_def)
  have cong: "linked ((groups S)(?p := ?x)) h t hs = linked (groups S) h t hs" if "?p \<notin> set hs" for h t hs
    by (rule linked_cong) (use that in auto)
  have fl: "linked ((groups S)(?p := ?x)) (Some ?p) (freelist_tail ?q) (?p # fs)"
    using Suc.prems(1) cong [OF fresh(2)] by (auto simp: pxq_rep_def linked_def)
  have gp: "(groups ?S g) = groups S g" if "g \<in> set gs" for g using that fresh by auto
  have "pxq_rep N ?S ?q gs (?p # fs)"
    using Suc.prems(1) cong [OF fresh(1)] fl fresh gp unfolding pxq_rep_def
    by (auto simp: less_Suc_eq cong: map_cong)
  moreover have "alloc_freelist n ?S ?q = (S', q')" using Suc.prems(2) by (simp add: Let_def)
  ultimately obtain fs' where fs': "pxq_rep N S' q' gs (fs' @ ?p # fs)" "length fs' = n" "entries S' gs = entries ?S gs"
      "next_group S' = Suc ?p + n" "\<forall>g < Suc ?p. groups S' g = groups ?S g" "\<forall>g \<in> set fs'. Suc ?p \<le> g"
      "q_head q' = q_head q" "q_tail q' = q_tail q"
    using Suc.IH [of ?S ?q "?p # fs"] by auto
  have "entries ?S gs = entries S gs" by (rule entries_cong) (use gp in auto)
  then show ?case using fs' by (intro exI [of _ "fs' @ [?p]"]) auto
qed

section \<open>Enqueueing\<close>

definition same_content :: "'a px_group \<Rightarrow> 'a px_group \<Rightarrow> bool" where
  "same_content x y \<longleftrightarrow> pxs x = pxs y \<and> rcu_tick x = rcu_tick y"

lemma append_group_linked:
  assumes l: "linked (groups S) (q_head q) (q_tail q) gs" and d: "distinct (gs @ [g])"
    and n: "gnext (groups S g) = None" and a: "append_group g S q = (S', q')"
  shows "linked (groups S') (q_head q') (q_tail q') (gs @ [g])"
    and "\<forall>x. x \<notin> set gs \<longrightarrow> groups S' x = groups S x" and "\<forall>x. same_content (groups S' x) (groups S x)"
    and "next_group S' = next_group S"
    and "freelist_head q' = freelist_head q" "freelist_tail q' = freelist_tail q" "ngroups q' = ngroups q"
proof -
  have "linked (groups S') (q_head q') (q_tail q') (gs @ [g]) \<and> (\<forall>x. x \<notin> set gs \<longrightarrow> groups S' x = groups S x) \<and>
      (\<forall>x. same_content (groups S' x) (groups S x)) \<and> next_group S' = next_group S \<and>
      freelist_head q' = freelist_head q \<and> freelist_tail q' = freelist_tail q \<and> ngroups q' = ngroups q"
  proof (cases "gs = []")
    case True
    then show ?thesis using a l n by (auto simp: append_group_def linked_def same_content_def)
  next
    case False
    then obtain h where h: "q_head q = Some h" "q_tail q = Some (last gs)"
      using l by (cases gs) (auto simp: linked_def)
    then have S': "S' = set_next (last gs) (Some g) S" and q': "q' = q\<lparr>q_tail := Some g\<rparr>"
      using a by (simp_all add: append_group_def)
    have "g \<noteq> last gs" using d False by auto
    moreover have "segment (groups S') (q_head q) gs (Some g)"
      unfolding S' set_group_simps
      by (rule segment_redirect [where r = None]) (use l d False in \<open>simp_all add: linked_def\<close>)
    ultimately show ?thesis using False n
      by (auto simp: q' S' linked_def segment_append same_content_def)
  qed
  then show "linked (groups S') (q_head q') (q_tail q') (gs @ [g])"
    "\<forall>x. x \<notin> set gs \<longrightarrow> groups S' x = groups S x" "\<forall>x. same_content (groups S' x) (groups S x)"
    "next_group S' = next_group S" "freelist_head q' = freelist_head q" "freelist_tail q' = freelist_tail q"
    "ngroups q' = ngroups q" by simp_all
qed

lemma emplace_rep:
  assumes r: "pxq_rep N S q gs fs" and g: "gs = us @ [g]" and room: "length (pxs (groups S g)) < N"
  shows "pxq_rep N (emplace t g S) q gs fs"
    and "entries (emplace t g S) gs = entries S gs @ [(t, rcu_tick (groups S g))]"
proof -
  have cong: "linked (groups (emplace t g S)) h l hs = linked (groups S) h l hs" for h l hs
    by (rule linked_cong) simp
  have g': "g \<notin> set us" using r g by (auto simp: pxq_rep_def)
  have ticks: "(\<lambda>x. rcu_tick (groups (emplace t g S) x)) = (\<lambda>x. rcu_tick (groups S x))" by (rule ext) simp
  show "pxq_rep N (emplace t g S) q gs fs"
    using r room g unfolding pxq_rep_def cong ticks by auto
  have "entries (emplace t g S) us = entries S us" by (rule entries_cong) (use g' in auto)
  then show "entries (emplace t g S) gs = entries S gs @ [(t, rcu_tick (groups S g))]"
    by (simp add: g group_entries_def)
qed

lemma new_group_rep:
  assumes r: "pxq_rep N S q gs (g # fs)" and t: "\<forall>x \<in> set gs. rcu_tick (groups S x) \<le> tick" and N: "0 < N"
  shows "\<exists>S' q'. new_group tick S q = Some (S', q') \<and> q_tail q' = Some g \<and>
    linked (groups S') (q_head q') (q_tail q') (gs @ [g]) \<and>
    pxq_rep N (emplace e g S') q' (gs @ [g]) fs \<and>
    entries (emplace e g S') (gs @ [g]) = entries S gs @ [(e, tick)] \<and> next_group S' = next_group S \<and>
    (\<forall>x. x \<notin> set (gs @ g # fs) \<longrightarrow> groups (emplace e g S') x = groups S x)"
proof -
  have d: "distinct (gs @ g # fs)" and fh: "freelist_head q = Some g" and ft: "freelist_tail q = Some (last (g # fs))"
    and fl: "linked (groups S) (gnext (groups S g)) (if fs = [] then None else Some (last fs)) fs"
    using r by (auto simp: pxq_rep_def linked_def)
  let ?S1 = "set_group g \<lparr>gnext = None, pxs = [], rcu_tick = tick\<rparr> S"
  let ?q1 = "q\<lparr>freelist_head := gnext (groups S g), freelist_tail := (if Some g = freelist_tail q then None else freelist_tail q),
    ngroups := ngroups q + 1\<rparr>"
  obtain S' q' where a: "append_group g ?S1 ?q1 = (S', q')" by (cases "append_group g ?S1 ?q1")
  have l1: "linked (groups ?S1) (q_head ?q1) (q_tail ?q1) gs"
    using r d linked_cong [of gs "groups ?S1" "groups S" "q_head q" "q_tail q"] by (auto simp: pxq_rep_def)
  have dg: "distinct (gs @ [g])" using d by simp
  note ap = append_group_linked [OF l1 dg _ a]
  have n0: "gnext (groups ?S1 g) = None" by simp
  note ap = ap [OF n0]
  have new: "new_group tick S q = Some (S', q')" using fh a by (simp add: new_group_def Let_def)
  have gS': "groups S' g = \<lparr>gnext = None, pxs = [], rcu_tick = tick\<rparr>" using ap(2) d by auto
  have ftail: "freelist_tail q' = (if fs = [] then None else Some (last fs))"
    using ap(6) ft d by (cases fs) auto
  have old: "same_content (groups S' x) (groups S x)" if "x \<in> set gs" for x
    using ap(3) [rule_format, of x] that d by (simp split: if_splits)
  have fsl: "linked (groups (emplace e g S')) (freelist_head q') (freelist_tail q') fs"
  proof -
    have "\<forall>x \<in> set fs. gnext (groups (emplace e g S') x) = gnext (groups S x)" using ap(2) d by auto
    then have "linked (groups (emplace e g S')) (gnext (groups S g)) (freelist_tail q') fs =
        linked (groups S) (gnext (groups S g)) (freelist_tail q') fs" by (rule linked_cong)
    then show ?thesis using fl ap(5) ftail by simp
  qed
  have lk: "linked (groups (emplace e g S')) (q_head q') (q_tail q') (gs @ [g])"
    using ap(1) linked_cong [of "gs @ [g]" "groups (emplace e g S')" "groups S'"] by simp
  have ent: "entries (emplace e g S') gs = entries S gs"
    by (rule entries_cong) (use old d in \<open>auto simp: same_content_def\<close>)
  have ticks: "map (\<lambda>x. rcu_tick (groups (emplace e g S') x)) gs = map (\<lambda>x. rcu_tick (groups S x)) gs"
    using old d by (auto simp: same_content_def)
  have "pxq_rep N (emplace e g S') q' (gs @ [g]) fs"
  proof -
    have "sorted (map (\<lambda>x. rcu_tick (groups (emplace e g S') x)) (gs @ [g]))"
      unfolding map_append ticks using r t gS' by (auto simp: sorted_append pxq_rep_def)
    moreover have "ngroups q' = length (gs @ [g])" "distinct ((gs @ [g]) @ fs)"
        "\<forall>x \<in> set ((gs @ [g]) @ fs). x < next_group (emplace e g S')"
      using r d ap(4,7) by (auto simp: pxq_rep_def)
    moreover have "\<forall>x \<in> set (gs @ [g]). pxs (groups (emplace e g S') x) \<noteq> [] \<and>
        length (pxs (groups (emplace e g S') x)) \<le> N"
      using r old gS' d N by (auto simp: pxq_rep_def same_content_def Suc_le_eq)
    ultimately show ?thesis using lk fsl unfolding pxq_rep_def by (intro conjI)
  qed
  moreover have "entries (emplace e g S') (gs @ [g]) = entries S gs @ [(e, tick)]"
    using ent gS' by (simp add: group_entries_def)
  moreover have "q_tail q' = Some g" using ap(1) by (simp add: linked_def)
  moreover have "\<forall>x. x \<notin> set (gs @ g # fs) \<longrightarrow> groups (emplace e g S') x = groups S x"
    using ap(2) by auto
  ultimately show ?thesis using new ap(1,4) by auto
qed

lemma enqueue_rep:
  assumes r: "pxq_rep N S q gs fs" and N: "0 < N" and t: "\<forall>g \<in> set gs. rcu_tick (groups S g) \<le> tick"
  shows "\<exists>S' q' gs' fs'. enqueue N e tick S q = Some (S', q') \<and> pxq_rep N S' q' gs' fs' \<and>
    entries S' gs' = entries S gs @ [(e, tick)] \<and> next_group S \<le> next_group S' \<and>
    (\<forall>x < next_group S. x \<notin> set (gs @ fs) \<longrightarrow> groups S' x = groups S x \<and> x \<notin> set (gs' @ fs'))"
proof (cases "q_tail q = None \<or> length (pxs (groups S (the (q_tail q)))) = N \<or> rcu_tick (groups S (the (q_tail q))) \<noteq> tick")
  case True
  then have need: "case q_tail q of None \<Rightarrow> True
      | Some l \<Rightarrow> length (pxs (groups S l)) = N \<or> rcu_tick (groups S l) \<noteq> tick" by (auto split: option.split)
  obtain S1 q1 where e1: "ensure_freelist S q = (S1, q1)" by (cases "ensure_freelist S q")
  obtain g fs1 where f: "pxq_rep N S1 q1 gs (g # fs1)" "entries S1 gs = entries S gs" "next_group S \<le> next_group S1"
      "\<forall>x < next_group S. groups S1 x = groups S x" "set (g # fs1) \<subseteq> set fs \<union> {next_group S..}"
  proof (cases "freelist_head q")
    case None
    then have al: "alloc_freelist 16 S q = (S1, q1)" using e1 by (simp add: ensure_freelist_def)
    have fs: "fs = []" using None r by (cases fs) (auto simp: pxq_rep_def linked_def)
    obtain fs' where "pxq_rep N S1 q1 gs (fs' @ fs)" "length fs' = 16" "entries S1 gs = entries S gs"
        "next_group S1 = next_group S + 16" "\<forall>g < next_group S. groups S1 g = groups S g"
        "\<forall>g \<in> set fs'. next_group S \<le> g"
      using alloc_freelist_rep [OF r al] by blast
    then show thesis using that fs by (cases fs') auto
  next
    case (Some h)
    then have "S1 = S" "q1 = q" "fs \<noteq> []" using e1 r by (auto simp: ensure_freelist_def pxq_rep_def linked_def)
    then show thesis using that r by (cases fs) auto
  qed
  have "\<forall>x \<in> set gs. rcu_tick (groups S1 x) \<le> tick" using t f(4) r by (auto simp: pxq_rep_def)
  then obtain S' q' where n: "new_group tick S1 q1 = Some (S', q')" "q_tail q' = Some g"
      "pxq_rep N (emplace e g S') q' (gs @ [g]) fs1" "entries (emplace e g S') (gs @ [g]) = entries S1 gs @ [(e, tick)]"
      "next_group S' = next_group S1" "\<forall>x. x \<notin> set (gs @ g # fs1) \<longrightarrow> groups (emplace e g S') x = groups S1 x"
    using new_group_rep [OF f(1) _ N, of tick e] by auto
  have "enqueue N e tick S q = Some (emplace e g S', q')" using need e1 n(1,2) by (simp add: enqueue_def)
  moreover have "groups (emplace e g S') x = groups S x \<and> x \<notin> set ((gs @ [g]) @ fs1)"
    if x: "x < next_group S" "x \<notin> set (gs @ fs)" for x
  proof -
    have "x \<notin> set (gs @ g # fs1)" using f(5) x by auto
    then show ?thesis using n(6) f(4) x(1) by simp
  qed
  moreover have "entries (emplace e g S') (gs @ [g]) = entries S gs @ [(e, tick)]" using n(4) f(2) by simp
  moreover have "next_group S \<le> next_group (emplace e g S')" using n(5) f(3) by simp
  ultimately show ?thesis using n(3) by blast
next
  case False
  then obtain l where l: "q_tail q = Some l" "length (pxs (groups S l)) \<noteq> N" "rcu_tick (groups S l) = tick" by auto
  then obtain us where gs: "gs = us @ [l]"
    using r that [of "butlast gs"] by (simp add: pxq_rep_def linked_def split: if_splits)
  then have room: "length (pxs (groups S l)) < N" using r l(2) by (auto simp: pxq_rep_def)
  have "enqueue N e tick S q = Some (emplace e l S, q)" using l by (simp add: enqueue_def)
  moreover note emplace_rep [OF r gs room, of e, unfolded l(3)]
  moreover have "\<forall>x < next_group S. x \<notin> set (gs @ fs) \<longrightarrow> groups (emplace e l S) x = groups S x \<and> x \<notin> set (gs @ fs)"
    by (simp add: gs)
  moreover have "next_group S \<le> next_group (emplace e l S)" by simp
  ultimately show ?thesis by blast
qed

section \<open>Accepting, transferring and clearing\<close>

lemma pxq_rep_cong:
  assumes "pxq_rep N S q gs fs" and "\<forall>g \<in> set (gs @ fs). gnext (groups S' g) = gnext (groups S g)"
    and "\<forall>g \<in> set gs. same_content (groups S' g) (groups S g)" and "next_group S' = next_group S"
  shows "pxq_rep N S' q gs fs"
proof -
  have "linked (groups S') (q_head q) (q_tail q) gs" "linked (groups S') (freelist_head q) (freelist_tail q) fs"
    using assms(1,2) linked_cong [of gs "groups S'" "groups S"] linked_cong [of fs "groups S'" "groups S"]
    by (auto simp: pxq_rep_def)
  moreover have "sorted (map (\<lambda>g. rcu_tick (groups S' g)) gs)"
  proof -
    have "map (\<lambda>g. rcu_tick (groups S' g)) gs = map (\<lambda>g. rcu_tick (groups S g)) gs"
      using assms(3) by (simp add: same_content_def)
    then show ?thesis using assms(1) by (simp only: pxq_rep_def)
  qed
  moreover have "\<forall>g \<in> set gs. pxs (groups S' g) \<noteq> [] \<and> length (pxs (groups S' g)) \<le> N"
    using assms(1,3) by (auto simp: pxq_rep_def same_content_def)
  ultimately show ?thesis using assms(1,4) unfolding pxq_rep_def by simp
qed

lemma pxq_rep_same:
  assumes r: "pxq_rep N S q gs fs" and same: "\<forall>x \<in> set (gs @ fs). groups S' x = groups S x"
    and n: "next_group S \<le> next_group S'"
  shows "pxq_rep N S' q gs fs"
proof -
  have "linked (groups S') h t gs = linked (groups S) h t gs" "linked (groups S') h t fs = linked (groups S) h t fs" for h t
    using same by (auto intro!: linked_cong)
  moreover have m: "map (\<lambda>g. rcu_tick (groups S' g)) gs = map (\<lambda>g. rcu_tick (groups S g)) gs" using same by simp
  have "sorted (map (\<lambda>g. rcu_tick (groups S' g)) gs)" unfolding m using r by (simp add: pxq_rep_def)
  moreover have "\<forall>g \<in> set (gs @ fs). g < next_group S'" using r n unfolding pxq_rep_def by (blast dest: less_le_trans)
  moreover have "\<forall>g \<in> set gs. pxs (groups S' g) = pxs (groups S g)" using same by simp
  ultimately show ?thesis using r unfolding pxq_rep_def by simp
qed

lemma accept_step_rep:
  assumes q: "pxq_rep N S q gs fs" and src: "pxq_rep N S src (p # hs) ks"
    and d: "distinct (gs @ fs @ p # hs @ ks)" and srt: "sorted (map (\<lambda>g. rcu_tick (groups S g)) (gs @ p # hs))"
    and a: "append_group p (set_next p None S) q = (S1, q1)"
  shows "pxq_rep N S1 (q1\<lparr>ngroups := ngroups q1 + 1\<rparr>) (gs @ [p]) fs"
    and "pxq_rep N S1 (src\<lparr>ngroups := ngroups src - 1, q_head := gnext (groups S p),
      q_tail := (if gnext (groups S p) = None then None else q_tail src)\<rparr>) hs ks"
    and "\<forall>g. same_content (groups S1 g) (groups S g)" and "next_group S1 = next_group S"
proof -
  let ?S0 = "set_next p None S"
  have l0: "linked (groups ?S0) (q_head q) (q_tail q) gs"
    using q d linked_cong [of gs "groups ?S0" "groups S"] by (auto simp: pxq_rep_def)
  have d0: "distinct (gs @ [p])" using d by auto
  have n0: "gnext (groups ?S0 p) = None" by simp
  note ap = append_group_linked [OF l0 d0 n0 a]
  show sc: "\<forall>g. same_content (groups S1 g) (groups S g)"
  proof
    fix g
    have "same_content (groups S1 g) (groups ?S0 g)" using ap(3) by blast
    moreover have "same_content (groups ?S0 g) (groups S g)" by (simp add: same_content_def)
    ultimately show "same_content (groups S1 g) (groups S g)" by (simp add: same_content_def)
  qed
  show ng: "next_group S1 = next_group S" using ap(4) by simp
  have other: "groups S1 g = groups S g" if "g \<notin> set gs" "g \<noteq> p" for g using ap(2) that by simp
  have ticks: "(\<lambda>g. rcu_tick (groups S1 g)) = (\<lambda>g. rcu_tick (groups S g))"
    using sc by (auto simp: same_content_def)
  have fl: "linked (groups S1) (freelist_head q1) (freelist_tail q1) fs"
  proof -
    have "\<forall>g \<in> set fs. g \<notin> set gs \<and> g \<noteq> p" using d by auto
    then have "\<forall>g \<in> set fs. gnext (groups S1 g) = gnext (groups S g)" using other by simp
    then have "linked (groups S1) (freelist_head q) (freelist_tail q) fs =
        linked (groups S) (freelist_head q) (freelist_tail q) fs" by (rule linked_cong)
    then show ?thesis using q ap(5,6) by (simp add: pxq_rep_def)
  qed
  have "sorted (map (\<lambda>g. rcu_tick (groups S1 g)) (gs @ [p]))"
    unfolding ticks using srt by (auto simp: sorted_append)
  moreover have "\<forall>g \<in> set (gs @ [p]). pxs (groups S1 g) \<noteq> [] \<and> length (pxs (groups S1 g)) \<le> N"
    using q src sc by (auto simp: pxq_rep_def same_content_def)
  moreover have "\<forall>g \<in> set ((gs @ [p]) @ fs). g < next_group S1" using q src ng by (auto simp: pxq_rep_def)
  ultimately show "pxq_rep N S1 (q1\<lparr>ngroups := ngroups q1 + 1\<rparr>) (gs @ [p]) fs"
    using ap(1,7) fl d q unfolding pxq_rep_def by auto
  have "pxq_rep N S (src\<lparr>ngroups := ngroups src - 1, q_head := gnext (groups S p),
      q_tail := (if gnext (groups S p) = None then None else q_tail src)\<rparr>) hs ks"
    using src unfolding pxq_rep_def linked_def by (cases hs) auto
  then show "pxq_rep N S1 (src\<lparr>ngroups := ngroups src - 1, q_head := gnext (groups S p),
      q_tail := (if gnext (groups S p) = None then None else q_tail src)\<rparr>) hs ks"
  proof (rule pxq_rep_cong)
    have "\<forall>g \<in> set (hs @ ks). g \<notin> set gs \<and> g \<noteq> p" using d by auto
    then show "\<forall>g \<in> set (hs @ ks). gnext (groups S1 g) = gnext (groups S g)" using other by simp
  qed (use sc ng in auto)
qed

lemma accept_loop_rep:
  assumes "pxq_rep N S q gs fs" and "pxq_rep N S src hs ks" and "distinct (gs @ fs @ hs @ ks)"
    and "sorted (map (\<lambda>g. rcu_tick (groups S g)) (gs @ hs))" and "length hs < fuel"
  shows "\<exists>S' q' src' us vs. accept_loop fuel tick (S, q, src) = Some (S', q', src') \<and> hs = us @ vs \<and>
    pxq_rep N S' q' (gs @ us) fs \<and> pxq_rep N S' src' vs ks \<and>
    (\<forall>g. same_content (groups S' g) (groups S g)) \<and> next_group S' = next_group S \<and>
    (\<forall>g \<in> set us. rcu_tick (groups S g) \<le> tick) \<and> (\<forall>g \<in> set vs. \<not> rcu_tick (groups S g) \<le> tick)"
  using assms
proof (induction hs arbitrary: S q src gs fuel)
  case Nil
  obtain f where "fuel = Suc f" using Nil.prems(5) by (cases fuel) auto
  then have "accept_loop fuel tick (S, q, src) = Some (S, q, src)"
    using Nil.prems(2) by (simp add: pxq_rep_def linked_def)
  then show ?case using Nil.prems(1,2) by (auto simp: same_content_def)
next
  case (Cons p hs)
  obtain f where f: "fuel = Suc f" "length hs < f" using Cons.prems(5) by (cases fuel) auto
  have h: "q_head src = Some p" using Cons.prems(2) by (simp add: pxq_rep_def linked_def)
  show ?case
  proof (cases "rcu_tick (groups S p) \<le> tick")
    case True
    obtain S1 q1 where a: "append_group p (set_next p None S) q = (S1, q1)"
      by (cases "append_group p (set_next p None S) q")
    let ?q1 = "q1\<lparr>ngroups := ngroups q1 + 1\<rparr>"
    let ?src1 = "src\<lparr>ngroups := ngroups src - 1, q_head := gnext (groups S p),
      q_tail := (if gnext (groups S p) = None then None else q_tail src)\<rparr>"
    have d: "distinct (gs @ fs @ p # hs @ ks)" using Cons.prems(3) by simp
    note st = accept_step_rep [OF Cons.prems(1,2) d _ a]
    have srt: "sorted (map (\<lambda>g. rcu_tick (groups S g)) (gs @ p # hs))" using Cons.prems(4) by simp
    note st = st [OF srt]
    have ticks: "(\<lambda>g. rcu_tick (groups S1 g)) = (\<lambda>g. rcu_tick (groups S g))"
      using st(3) by (auto simp: same_content_def)
    have "distinct ((gs @ [p]) @ fs @ hs @ ks)" using d by auto
    moreover have "sorted (map (\<lambda>g. rcu_tick (groups S1 g)) ((gs @ [p]) @ hs))" unfolding ticks using srt by simp
    ultimately obtain S' q' src' us vs where r: "accept_loop f tick (S1, ?q1, ?src1) = Some (S', q', src')"
        "hs = us @ vs" "pxq_rep N S' q' ((gs @ [p]) @ us) fs" "pxq_rep N S' src' vs ks"
        "\<forall>g. same_content (groups S' g) (groups S1 g)" "next_group S' = next_group S1"
        "\<forall>g \<in> set us. rcu_tick (groups S1 g) \<le> tick" "\<forall>g \<in> set vs. \<not> rcu_tick (groups S1 g) \<le> tick"
      using Cons.IH [OF st(1,2) _ _ f(2)] by blast
    have "accept_loop fuel tick (S, q, src) = Some (S', q', src')"
      using f(1) h True a r(1) by (simp add: Let_def)
    moreover have "\<forall>g. same_content (groups S' g) (groups S g)" using r(5) st(3) by (simp add: same_content_def)
    moreover have "\<forall>g \<in> set (p # us). rcu_tick (groups S g) \<le> tick" "\<forall>g \<in> set vs. \<not> rcu_tick (groups S g) \<le> tick"
      using r(7,8) True st(3) by (auto simp: same_content_def)
    moreover have "p # hs = (p # us) @ vs" "pxq_rep N S' q' (gs @ p # us) fs" using r(2,3) by simp_all
    ultimately show ?thesis using r(4,6) st(4) by (metis (no_types, lifting))
  next
    case False
    then have "\<forall>g \<in> set (p # hs). \<not> rcu_tick (groups S g) \<le> tick"
      using Cons.prems(4) by (auto simp: sorted_append)
    moreover have "accept_loop fuel tick (S, q, src) = Some (S, q, src)" using f(1) h False by simp
    moreover have "p # hs = [] @ (p # hs)" "pxq_rep N S q (gs @ []) fs" using Cons.prems(1) by simp_all
    moreover have "\<forall>g. same_content (groups S g) (groups S g)" by (simp add: same_content_def)
    moreover have "\<forall>g \<in> set []. rcu_tick (groups S g) \<le> tick" by simp
    ultimately show ?thesis using Cons.prems(2) by blast
  qed
qed

lemma entries_filter:
  fixes S :: "'a group_store"
  assumes "\<forall>g \<in> set us. P (rcu_tick (groups S g))" and "\<forall>g \<in> set vs. \<not> P (rcu_tick (groups S g))"
  shows "filter (\<lambda>(x, t). P t) (entries S (us @ vs)) = entries S us"
    and "filter (\<lambda>(x, t). \<not> P t) (entries S (us @ vs)) = entries S vs"
proof -
  have "\<forall>e \<in> set (entries S us). P (snd e)" "\<forall>e \<in> set (entries S vs). \<not> P (snd e)"
    using assms by (auto simp: entries_def group_entries_def)
  moreover have "(\<lambda>(x, t). P t) = (\<lambda>e :: 'a \<times> u64. P (snd e))" "(\<lambda>(x, t). \<not> P t) = (\<lambda>e :: 'a \<times> u64. \<not> P (snd e))"
    by auto
  ultimately show "filter (\<lambda>(x, t). P t) (entries S (us @ vs)) = entries S us"
    "filter (\<lambda>(x, t). \<not> P t) (entries S (us @ vs)) = entries S vs"
    by (simp_all add: filter_id_conv filter_empty_conv)
qed

lemma iterate_rep:
  assumes "segment (groups S) (Some p) (p # gs) None" and "\<forall>g \<in> set (p # gs). pxs (groups S g) \<noteq> []"
    and "i < length (pxs (groups S p))" and "length (drop i (group_entries (groups S p)) @ entries S gs) < fuel"
  shows "iterate fuel S (Some p, i) = Some (drop i (group_entries (groups S p)) @ entries S gs)"
  using assms
proof (induction fuel arbitrary: p gs i)
  case (Suc fuel)
  let ?x = "groups S p"
  have d: "drop i (group_entries ?x) = (pxs ?x ! i, rcu_tick ?x) # drop (Suc i) (group_entries ?x)"
    using Suc.prems(3) by (simp add: group_entries_def flip: Cons_nth_drop_Suc)
  show ?case
  proof (cases "Suc i = length (pxs ?x)")
    case False
    then have "iterate fuel S (Some p, Suc i) = Some (drop (Suc i) (group_entries ?x) @ entries S gs)"
      using Suc.IH [of p gs "Suc i"] Suc.prems d by simp
    then show ?thesis using Suc.prems(3) False d by (simp add: iter_incr_def)
  next
    case True
    then have e: "drop (Suc i) (group_entries ?x) = []" by (simp add: group_entries_def)
    show ?thesis
    proof (cases gs)
      case Nil
      then have "gnext ?x = None" using Suc.prems(1) by simp
      moreover have "0 < fuel" using Suc.prems(4) d by simp
      ultimately show ?thesis using Suc.prems(3) True d e Nil by (cases fuel) (simp_all add: iter_incr_def)
    next
      case (Cons g hs)
      then have "gnext ?x = Some g" using Suc.prems(1) by simp
      moreover have "iterate fuel S (Some g, 0) = Some (drop 0 (group_entries (groups S g)) @ entries S hs)"
        using Suc.prems Cons d e by (intro Suc.IH) auto
      ultimately show ?thesis using Suc.prems(3) True d e Cons by (simp add: iter_incr_def)
    qed
  qed
qed simp

lemma relink:
  assumes fs: "linked (groups S) h t fs" and ks: "linked (groups S) h' t' ks" and ne: "fs \<noteq> []"
    and d: "distinct (fs @ ks)"
  shows "linked (groups (set_next (the t) h' S)) h (if t' = None then t else t') (fs @ ks)"
    and "\<forall>x. x \<notin> set fs \<longrightarrow> groups (set_next (the t) h' S) x = groups S x"
    and "\<forall>x. same_content (groups (set_next (the t) h' S) x) (groups S x)"
proof -
  let ?G = "groups (set_next (the t) h' S)"
  have t: "t = Some (last fs)" and sf: "segment (groups S) h fs None" using fs ne by (auto simp: linked_def)
  have "segment ?G h fs h'"
    unfolding t set_group_simps option.sel by (rule segment_redirect [OF sf ne]) (use d in auto)
  moreover have "segment ?G h' ks None"
  proof -
    have "last fs \<notin> set ks" using d ne by (meson disjoint_iff distinct_append last_in_set)
    then have "\<forall>g \<in> set ks. gnext (?G g) = gnext (groups S g)" using t by auto
    then show ?thesis using ks segment_cong [of ks ?G "groups S" h' None] by (simp add: linked_def)
  qed
  ultimately show "linked ?G h (if t' = None then t else t') (fs @ ks)"
    using t ks ne by (auto simp: linked_def segment_append)
  show "\<forall>x. x \<notin> set fs \<longrightarrow> ?G x = groups S x" using t ne by auto
  show "\<forall>x. same_content (?G x) (groups S x)" by (simp add: same_content_def)
qed

lemma transfer_all_rep:
  assumes q: "pxq_rep N S q gs fs" and dest: "pxq_rep N S dest hs ks" and d: "distinct (gs @ fs @ hs @ ks)"
    and r: "transfer_all S q dest = (S', q', dest')"
  shows "pxq_rep N S' q' gs []" and "pxq_rep N S' dest' hs (fs @ ks)"
    and "\<forall>g. same_content (groups S' g) (groups S g)" and "next_group S' = next_group S"
proof -
  have "pxq_rep N S' q' gs [] \<and> pxq_rep N S' dest' hs (fs @ ks) \<and> (\<forall>g. same_content (groups S' g) (groups S g)) \<and>
      next_group S' = next_group S"
  proof (cases "fs = []")
    case True
    then have "freelist_head q = None" using q by (simp add: pxq_rep_def linked_def)
    then show ?thesis using r q dest True by (simp add: transfer_all_def same_content_def)
  next
    case False
    have lf: "linked (groups S) (freelist_head q) (freelist_tail q) fs"
      and lk: "linked (groups S) (freelist_head dest) (freelist_tail dest) ks"
      using q dest by (auto simp: pxq_rep_def)
    obtain h where h: "freelist_head q = Some h" using lf False by (cases fs) (auto simp: linked_def)
    have S': "S' = set_next (the (freelist_tail q)) (freelist_head dest) S"
      and q': "q' = q\<lparr>freelist_head := None, freelist_tail := None\<rparr>"
      and dest': "dest' = dest\<lparr>freelist_tail := (if freelist_tail dest = None then freelist_tail q else freelist_tail dest),
        freelist_head := Some h\<rparr>"
      using r h by (simp_all add: transfer_all_def Let_def)
    have "distinct (fs @ ks)" using d by auto
    note rl = relink [OF lf lk False this, folded S']
    have ng: "next_group S' = next_group S" by (simp add: S')
    have "g \<notin> set fs" if "g \<in> set gs \<union> set hs" for g using d that by auto
    then have un: "\<forall>g \<in> set gs. gnext (groups S' g) = gnext (groups S g)" "\<forall>g \<in> set hs. gnext (groups S' g) = gnext (groups S g)"
      using rl(2) by simp_all
    have "pxq_rep N S (q\<lparr>freelist_head := None, freelist_tail := None\<rparr>) gs []"
      using q unfolding pxq_rep_def linked_def by auto
    then have 1: "pxq_rep N S' q' gs []"
      unfolding q' by (rule pxq_rep_cong) (use un rl(3) ng in simp_all)
    have "pxq_rep N S' (dest\<lparr>freelist_head := None, freelist_tail := None\<rparr>) hs []"
    proof (rule pxq_rep_cong)
      show "pxq_rep N S (dest\<lparr>freelist_head := None, freelist_tail := None\<rparr>) hs []"
        using dest unfolding pxq_rep_def linked_def by auto
    qed (use un rl(3) ng in simp_all)
    then have 2: "pxq_rep N S' dest' hs (fs @ ks)"
      using rl(1) d q dest unfolding pxq_rep_def by (auto simp: dest' h S')
    show ?thesis using 1 2 rl(3) by (simp add: S')
  qed
  then show "pxq_rep N S' q' gs []" "pxq_rep N S' dest' hs (fs @ ks)"
    "\<forall>g. same_content (groups S' g) (groups S g)" "next_group S' = next_group S" by simp_all
qed

lemma pxq_clear_rep:
  assumes q: "pxq_rep N S q gs fs" and r: "pxq_clear S q = (S', q')"
  shows "pxq_rep N S' q' [] (gs @ fs)" and "\<forall>x. x \<notin> set gs \<longrightarrow> groups S' x = groups S x"
    and "\<forall>g. same_content (groups S' g) (groups S g)" and "next_group S' = next_group S"
proof -
  have lg: "linked (groups S) (q_head q) (q_tail q) gs" and lf: "linked (groups S) (freelist_head q) (freelist_tail q) fs"
    and d: "distinct (gs @ fs)" using q by (auto simp: pxq_rep_def)
  have "pxq_rep N S' q' [] (gs @ fs) \<and> (\<forall>x. x \<notin> set gs \<longrightarrow> groups S' x = groups S x) \<and>
      (\<forall>g. same_content (groups S' g) (groups S g)) \<and> next_group S' = next_group S"
  proof (cases "gs = []")
    case True
    then have "q_head q = None" using lg by (simp add: linked_def)
    then show ?thesis using r q True by (simp add: pxq_clear_def same_content_def)
  next
    case False
    obtain h where h: "q_head q = Some h" using lg False by (cases gs) (auto simp: linked_def)
    have S': "S' = set_next (the (q_tail q)) (freelist_head q) S"
      and q': "q' = \<lparr>q_head = None, q_tail = None, freelist_head = Some h,
        freelist_tail = (if freelist_tail q = None then q_tail q else freelist_tail q), ngroups = 0\<rparr>"
      using r h by (simp_all add: pxq_clear_def Let_def)
    note rl = relink [OF lg lf False d, folded S']
    have "pxq_rep N S' q' [] (gs @ fs)"
      using rl(1) d q unfolding pxq_rep_def by (auto simp: q' h S' linked_def)
    then show ?thesis using rl(2,3) by (simp add: S')
  qed
  then show "pxq_rep N S' q' [] (gs @ fs)" "\<forall>x. x \<notin> set gs \<longrightarrow> groups S' x = groups S x"
    "\<forall>g. same_content (groups S' g) (groups S g)" "next_group S' = next_group S" by simp_all
qed

section \<open>The contract of the deferred queue\<close>

locale tick_queue =
  fixes ok :: "'q \<Rightarrow> bool" and abs :: "'q \<Rightarrow> ('a \<times> u64) list"
    and enq :: "'a \<Rightarrow> u64 \<Rightarrow> 'q \<Rightarrow> 'q option" and take_until :: "u64 \<Rightarrow> 'q \<Rightarrow> (('a \<times> u64) list \<times> 'q) option"
  assumes enq: "ok q \<Longrightarrow> \<forall>t \<in> snd ` set (abs q). t \<le> tick \<Longrightarrow>
      \<exists>q'. enq e tick q = Some q' \<and> ok q' \<and> abs q' = abs q @ [(e, tick)]"
    and take_until: "ok q \<Longrightarrow> \<exists>q'. take_until tick q = Some (filter (\<lambda>(x, t). t \<le> tick) (abs q), q') \<and> ok q' \<and>
      abs q' = filter (\<lambda>(x, t). \<not> t \<le> tick) (abs q)"
begin

fun enq_all :: "('a \<times> u64) list \<Rightarrow> 'q \<Rightarrow> 'q option" where
  "enq_all [] q = Some q"
| "enq_all ((e, t) # es) q = Option.bind (enq e t q) (enq_all es)"

lemma enq_all:
  "ok q \<Longrightarrow> sorted (map snd (abs q @ es)) \<Longrightarrow> \<exists>q'. enq_all es q = Some q' \<and> ok q' \<and> abs q' = abs q @ es"
proof (induction es arbitrary: q)
  case (Cons et es)
  obtain e t where et: "et = (e, t)" by (cases et)
  have "\<forall>t' \<in> snd ` set (abs q). t' \<le> t" using Cons.prems(2) by (auto simp: et sorted_append)
  then obtain q1 where "enq e t q = Some q1" "ok q1" "abs q1 = abs q @ [(e, t)]"
    using enq [OF Cons.prems(1)] by blast
  then show ?case using Cons.IH [of q1] Cons.prems(2) by (auto simp: et)
qed simp

text \<open>What is enqueued is handed out exactly once, by the first \<open>take_until\<close> that reaches its tick.\<close>

lemma enq_then_take:
  assumes "ok q" and "abs q = []" and "sorted (map snd es)"
  shows "\<exists>q1 q2. enq_all es q = Some q1 \<and> take_until tick q1 = Some (filter (\<lambda>(x, t). t \<le> tick) es, q2) \<and>
    ok q2 \<and> abs q2 = filter (\<lambda>(x, t). \<not> t \<le> tick) es"
proof -
  obtain q1 where q1: "enq_all es q = Some q1" "ok q1" "abs q1 = es" using enq_all [OF assms(1)] assms(2,3) by auto
  then show ?thesis using take_until [OF q1(2), of tick] by auto
qed

end

section \<open>Queue and scratch queue of a thread\<close>

text \<open>What \<^verbatim>\<open>clean_up_to_including\<close> does with the two queues of a thread: accept, hand over the free groups,
  visit the accepted entries, clear.\<close>

record 'a gc_queues =
  gstore :: "'a group_store"
  queue :: px_queue
  scratch :: px_queue

definition gq_enqueue :: "nat \<Rightarrow> 'a \<Rightarrow> u64 \<Rightarrow> 'a gc_queues \<Rightarrow> 'a gc_queues option" where
  "gq_enqueue GroupSize e tick c =
     map_option (\<lambda>(S, q). c\<lparr>gstore := S, queue := q\<rparr>) (enqueue GroupSize e tick (gstore c) (queue c))"

definition gq_accept :: "nat \<Rightarrow> u64 \<Rightarrow> 'a gc_queues \<Rightarrow> 'a gc_queues option" where
  "gq_accept fuel tick c =
     (case empty_accept_from fuel tick (gstore c) (scratch c) (queue c) of
        Inr (Some (S1, scr1, q1)) \<Rightarrow>
          (case transfer_all S1 scr1 q1 of (S2, scr2, q2) \<Rightarrow> Some \<lparr>gstore = S2, queue = q2, scratch = scr2\<rparr>)
      | _ \<Rightarrow> None)"

definition gq_clear :: "'a gc_queues \<Rightarrow> 'a gc_queues" where
  "gq_clear c = (case pxq_clear (gstore c) (scratch c) of (S, scr) \<Rightarrow> c\<lparr>gstore := S, scratch := scr\<rparr>)"

definition gq_reap :: "nat \<Rightarrow> u64 \<Rightarrow> 'a gc_queues \<Rightarrow> (('a \<times> u64) list \<times> 'a gc_queues) option" where
  "gq_reap fuel tick c =
     (case gq_accept fuel tick c of
        None \<Rightarrow> None
      | Some c1 \<Rightarrow> map_option (\<lambda>es. (es, gq_clear c1)) (iterate fuel (gstore c1) (q_head (scratch c1), 0)))"

definition gq_rep :: "nat \<Rightarrow> 'a gc_queues \<Rightarrow> nat list \<Rightarrow> nat list \<Rightarrow> nat list \<Rightarrow> nat list \<Rightarrow> bool" where
  "gq_rep N c hs ks gs fs \<longleftrightarrow> pxq_rep N (gstore c) (queue c) hs ks \<and> pxq_rep N (gstore c) (scratch c) gs fs \<and>
     distinct (gs @ fs @ hs @ ks)"

lemma gq_accept_rep:
  assumes r: "gq_rep N c hs ks [] fs" and fuel: "length hs < fuel"
  shows "\<exists>c' us vs ks'. gq_accept fuel tick c = Some c' \<and> gq_rep N c' vs ks' us [] \<and> hs = us @ vs \<and>
    entries (gstore c') us = filter (\<lambda>(x, t). t \<le> tick) (entries (gstore c) hs) \<and>
    entries (gstore c') vs = filter (\<lambda>(x, t). \<not> t \<le> tick) (entries (gstore c) hs)"
proof -
  let ?S = "gstore c"
  have q: "pxq_rep N ?S (queue c) hs ks" and s: "pxq_rep N ?S (scratch c) [] fs" and d: "distinct ([] @ fs @ hs @ ks)"
    using r by (auto simp: gq_rep_def)
  have emp: "pxq_empty (scratch c)" using s by (simp add: pxq_rep_def linked_def pxq_empty_def)
  have srt: "sorted (map (\<lambda>g. rcu_tick (groups ?S g)) ([] @ hs))" using q by (simp add: pxq_rep_def)
  obtain S1 scr1 q1 us vs where a: "accept_loop fuel tick (?S, scratch c, queue c) = Some (S1, scr1, q1)"
      "hs = us @ vs" "pxq_rep N S1 scr1 ([] @ us) fs" "pxq_rep N S1 q1 vs ks"
      "\<forall>g. same_content (groups S1 g) (groups ?S g)" "\<forall>g \<in> set us. rcu_tick (groups ?S g) \<le> tick"
      "\<forall>g \<in> set vs. \<not> rcu_tick (groups ?S g) \<le> tick"
    using accept_loop_rep [OF s q d srt fuel, of tick] by blast
  obtain S2 scr2 q2 where t: "transfer_all S1 scr1 q1 = (S2, scr2, q2)" by (cases "transfer_all S1 scr1 q1")
  have a3: "pxq_rep N S1 scr1 us fs" using a(3) by simp
  have d': "distinct (us @ fs @ vs @ ks)" using d a(2) by auto
  note tr = transfer_all_rep [OF a3 a(4) d' t]
  have "gq_accept fuel tick c = Some \<lparr>gstore = S2, queue = q2, scratch = scr2\<rparr>"
    using a(1) emp t by (simp add: gq_accept_def empty_accept_from_def)
  moreover have "gq_rep N \<lparr>gstore = S2, queue = q2, scratch = scr2\<rparr> vs (fs @ ks) us []"
    using tr(1,2) d' by (auto simp: gq_rep_def)
  moreover have "entries S2 hs' = entries ?S hs'" for hs'
    by (rule entries_cong) (use a(5) tr(3) in \<open>simp add: same_content_def\<close>)
  ultimately show ?thesis
    using entries_filter [where P = "\<lambda>t. t \<le> tick" and S = ?S, OF a(6,7)] a(2) by fastforce
qed

text \<open>The groups of the queue, read off the links.\<close>

fun walk :: "nat \<Rightarrow> (nat \<Rightarrow> 'a px_group) \<Rightarrow> nat option \<Rightarrow> nat list" where
  "walk 0 G p = []"
| "walk (Suc n) G p = (case p of None \<Rightarrow> [] | Some g \<Rightarrow> g # walk n G (gnext (G g)))"

lemma walk_segment: "segment G p gs None \<Longrightarrow> walk (length gs) G p = gs"
  by (induction gs arbitrary: p) simp_all

definition gq_abs :: "'a gc_queues \<Rightarrow> ('a \<times> u64) list" where
  "gq_abs c = entries (gstore c) (walk (ngroups (queue c)) (groups (gstore c)) (q_head (queue c)))"

definition gq_ok :: "nat \<Rightarrow> 'a gc_queues \<Rightarrow> bool" where
  "gq_ok N c \<longleftrightarrow> (\<exists>hs ks fs. gq_rep N c hs ks [] fs)"

lemma gq_abs_rep: "gq_rep N c hs ks gs fs \<Longrightarrow> gq_abs c = entries (gstore c) hs \<and> ngroups (queue c) = length hs"
  using walk_segment [of "groups (gstore c)" "q_head (queue c)" hs]
  by (simp add: gq_rep_def pxq_rep_def linked_def gq_abs_def)

lemma length_entries:
  "\<forall>g \<in> set gs. length (pxs (groups S g)) \<le> N \<Longrightarrow> length (entries S gs) \<le> N * length gs"
  by (induction gs) (simp_all add: group_entries_def)

text \<open>Visiting the accepted entries, and clearing them away.\<close>

lemma scratch_iterate:
  assumes r: "gq_rep N c hs ks gs fs" and fuel: "length (entries (gstore c) gs) < fuel"
  shows "iterate fuel (gstore c) (q_head (scratch c), 0) = Some (entries (gstore c) gs)"
proof -
  have su: "pxq_rep N (gstore c) (scratch c) gs fs" using r by (simp add: gq_rep_def)
  show ?thesis
  proof (cases gs)
    case Nil
    then show ?thesis using su fuel by (cases fuel) (simp_all add: pxq_rep_def linked_def)
  next
    case (Cons p us')
    then have h: "q_head (scratch c) = Some p" using su by (simp add: pxq_rep_def linked_def)
    show ?thesis
      using iterate_rep [of "gstore c" p us' 0 fuel] su Cons fuel by (simp add: h pxq_rep_def linked_def)
  qed
qed

lemma gq_clear_rep:
  assumes r: "gq_rep N c hs ks gs fs"
  shows "gq_rep N (gq_clear c) hs ks [] (gs @ fs)" and "gq_abs (gq_clear c) = gq_abs c"
proof -
  have su: "pxq_rep N (gstore c) (scratch c) gs fs" and qu: "pxq_rep N (gstore c) (queue c) hs ks"
    and d: "distinct (gs @ fs @ hs @ ks)" using r by (auto simp: gq_rep_def)
  obtain S3 scr3 where cl: "pxq_clear (gstore c) (scratch c) = (S3, scr3)" by (cases "pxq_clear (gstore c) (scratch c)")
  note pc = pxq_clear_rep [OF su cl]
  have c': "gq_clear c = c\<lparr>gstore := S3, scratch := scr3\<rparr>" by (simp add: gq_clear_def cl)
  have "\<forall>g \<in> set (hs @ ks). g \<notin> set gs" using d by auto
  then have "\<forall>g \<in> set (hs @ ks). gnext (groups S3 g) = gnext (groups (gstore c) g)" using pc(2) by simp
  then have "pxq_rep N S3 (queue c) hs ks" using pxq_rep_cong [OF qu] pc(3,4) by simp
  then show rep: "gq_rep N (gq_clear c) hs ks [] (gs @ fs)" using pc(1) d by (auto simp: gq_rep_def c')
  have "entries S3 hs = entries (gstore c) hs"
    by (rule entries_cong) (use pc(3) in \<open>simp add: same_content_def\<close>)
  then show "gq_abs (gq_clear c) = gq_abs c" using gq_abs_rep [OF rep] gq_abs_rep [OF r] by (simp add: c')
qed

lemma accepted_length:
  assumes "gq_rep N c hs ks gs fs"
  shows "length (entries (gstore c) gs) \<le> N * length gs"
  using assms by (intro length_entries) (simp add: gq_rep_def pxq_rep_def)

text \<open>One reaping up to the visit: exactly the entries that are due are accepted, in order.\<close>

lemma gq_accept_due:
  assumes r: "gq_rep N c hs ks [] fs" and N: "0 < N" and fuel: "N * length hs < fuel"
  shows "\<exists>q us vs ks'. gq_accept fuel tick c = Some q \<and> gq_rep N q vs ks' us [] \<and>
    iterate fuel (gstore q) (q_head (scratch q), 0) = Some (filter (\<lambda>(x, t). t \<le> tick) (gq_abs c)) \<and>
    gq_abs q = filter (\<lambda>(x, t). \<not> t \<le> tick) (gq_abs c) \<and> (pxq_empty (scratch q) \<longleftrightarrow> us = []) \<and>
    (us = [] \<longleftrightarrow> filter (\<lambda>(x, t). t \<le> tick) (gq_abs c) = [])"
proof -
  have "1 * length hs \<le> N * length hs" using N by (intro mult_le_mono1) simp
  then have "length hs < fuel" using fuel by linarith
  then obtain q us vs ks' where a: "gq_accept fuel tick c = Some q" "gq_rep N q vs ks' us []" "hs = us @ vs"
      "entries (gstore q) us = filter (\<lambda>(x, t). t \<le> tick) (entries (gstore c) hs)"
      "entries (gstore q) vs = filter (\<lambda>(x, t). \<not> t \<le> tick) (entries (gstore c) hs)"
    using gq_accept_rep [OF r, of fuel tick] by blast
  have es: "entries (gstore q) us = filter (\<lambda>(x, t). t \<le> tick) (gq_abs c)" using a(4) gq_abs_rep [OF r] by simp
  have "N * length us \<le> N * length hs" using a(3) by simp
  then have "length (entries (gstore q) us) < fuel" using accepted_length [OF a(2)] fuel by linarith
  then have "iterate fuel (gstore q) (q_head (scratch q), 0) = Some (filter (\<lambda>(x, t). t \<le> tick) (gq_abs c))"
    unfolding es [symmetric] by (rule scratch_iterate [OF a(2)])
  moreover have "gq_abs q = filter (\<lambda>(x, t). \<not> t \<le> tick) (gq_abs c)"
    using gq_abs_rep [OF a(2)] gq_abs_rep [OF r] a(5) by simp
  moreover have "pxq_empty (scratch q) \<longleftrightarrow> us = []"
    using a(2) by (cases us) (auto simp: gq_rep_def pxq_rep_def linked_def pxq_empty_def)
  moreover have "us = [] \<longleftrightarrow> entries (gstore q) us = []"
    using a(2) by (cases us) (auto simp: gq_rep_def pxq_rep_def group_entries_def)
  ultimately show ?thesis using a(1,2) es by (intro exI [of _ q] exI [of _ us] exI [of _ vs] exI [of _ ks']) simp
qed

lemma gq_reap_rep:
  assumes r: "gq_rep N c hs ks [] fs" and N: "0 < N" and fuel: "N * length hs < fuel"
  shows "\<exists>c'. gq_reap fuel tick c = Some (filter (\<lambda>(x, t). t \<le> tick) (gq_abs c), c') \<and> gq_ok N c' \<and>
    gq_abs c' = filter (\<lambda>(x, t). \<not> t \<le> tick) (gq_abs c)"
proof -
  obtain q us vs ks' where q: "gq_accept fuel tick c = Some q" "gq_rep N q vs ks' us []"
      "iterate fuel (gstore q) (q_head (scratch q), 0) = Some (filter (\<lambda>(x, t). t \<le> tick) (gq_abs c))"
      "gq_abs q = filter (\<lambda>(x, t). \<not> t \<le> tick) (gq_abs c)"
    using gq_accept_due [OF assms, of tick] by blast
  then show ?thesis using gq_clear_rep [OF q(2)] by (intro exI [of _ "gq_clear q"]) (auto simp: gq_reap_def gq_ok_def)
qed

text \<open>An entry may be queued also while accepted ones are being visited.\<close>

lemma gq_enqueue_rep:
  assumes r: "gq_rep N c hs ks gs fs" and N: "0 < N" and t: "\<forall>t \<in> snd ` set (gq_abs c). t \<le> tick"
  shows "\<exists>c' hs' ks'. gq_enqueue N e tick c = Some c' \<and> gq_rep N c' hs' ks' gs fs \<and> gq_abs c' = gq_abs c @ [(e, tick)] \<and>
    scratch c' = scratch c \<and> (\<forall>g \<in> set gs. groups (gstore c') g = groups (gstore c) g)"
proof -
  let ?S = "gstore c"
  have q: "pxq_rep N ?S (queue c) hs ks" and s: "pxq_rep N ?S (scratch c) gs fs" and d: "distinct (gs @ fs @ hs @ ks)"
    using r by (auto simp: gq_rep_def)
  have ticks: "\<forall>g \<in> set hs. rcu_tick (groups ?S g) \<le> tick"
  proof
    fix g assume g: "g \<in> set hs"
    then obtain x where "x \<in> set (pxs (groups ?S g))" using q by (cases "pxs (groups ?S g)") (auto simp: pxq_rep_def)
    then have "rcu_tick (groups ?S g) \<in> snd ` set (entries ?S hs)"
      using g by (force simp: entries_def group_entries_def)
    then show "rcu_tick (groups ?S g) \<le> tick" using t gq_abs_rep [OF r] by auto
  qed
  obtain S' q' hs' ks' where e: "enqueue N e tick ?S (queue c) = Some (S', q')" "pxq_rep N S' q' hs' ks'"
      "entries S' hs' = entries ?S hs @ [(e, tick)]" "next_group ?S \<le> next_group S'"
      "\<forall>x < next_group ?S. x \<notin> set (hs @ ks) \<longrightarrow> groups S' x = groups ?S x \<and> x \<notin> set (hs' @ ks')"
    using enqueue_rep [OF q N ticks] by blast
  have same: "\<forall>x \<in> set (gs @ fs). groups S' x = groups ?S x \<and> x \<notin> set (hs' @ ks')"
  proof
    fix x assume x: "x \<in> set (gs @ fs)"
    then have "x < next_group ?S" using s unfolding pxq_rep_def by blast
    moreover have "x \<notin> set (hs @ ks)" using x d by auto
    ultimately show "groups S' x = groups ?S x \<and> x \<notin> set (hs' @ ks')" using e(5) by blast
  qed
  then have "pxq_rep N S' (scratch c) gs fs" using pxq_rep_same [OF s _ e(4)] by blast
  then have rep: "gq_rep N (c\<lparr>gstore := S', queue := q'\<rparr>) hs' ks' gs fs"
    using e(2) same d by (auto simp: gq_rep_def pxq_rep_def)
  show ?thesis using e(1,3) rep same gq_abs_rep [OF rep] gq_abs_rep [OF r]
    by (auto simp: gq_enqueue_def)
qed

text \<open>Groups of one element or more; the fuel of a reaping covers every entry the groups can hold.\<close>

definition gq_take :: "nat \<Rightarrow> u64 \<Rightarrow> 'a gc_queues \<Rightarrow> (('a \<times> u64) list \<times> 'a gc_queues) option" where
  "gq_take N tick c = gq_reap (Suc (N * ngroups (queue c))) tick c"

interpretation gq: tick_queue "gq_ok (Suc n)" gq_abs "gq_enqueue (Suc n)" "gq_take (Suc n)" for n
proof unfold_locales
  fix c :: "'a gc_queues" and tick e
  assume "gq_ok (Suc n) c"
  then obtain hs ks fs where r: "gq_rep (Suc n) c hs ks [] fs" by (auto simp: gq_ok_def)
  show "\<forall>t \<in> snd ` set (gq_abs c). t \<le> tick \<Longrightarrow>
      \<exists>c'. gq_enqueue (Suc n) e tick c = Some c' \<and> gq_ok (Suc n) c' \<and> gq_abs c' = gq_abs c @ [(e, tick)]"
    using gq_enqueue_rep [OF r] by (fastforce simp: gq_ok_def)
  show "\<exists>c'. gq_take (Suc n) tick c = Some (filter (\<lambda>(x, t). t \<le> tick) (gq_abs c), c') \<and> gq_ok (Suc n) c' \<and>
      gq_abs c' = filter (\<lambda>(x, t). \<not> t \<le> tick) (gq_abs c)"
    using gq_reap_rep [OF r, of _ tick] gq_abs_rep [OF r] by (simp add: gq_take_def)
qed

section \<open>Properties\<close>

fun enqueue_all :: "nat \<Rightarrow> ('a \<times> u64) list \<Rightarrow> 'a gc_queues \<Rightarrow> 'a gc_queues option" where
  "enqueue_all N [] c = Some c"
| "enqueue_all N ((e, t) # es) c = Option.bind (gq_enqueue N e t c) (enqueue_all N es)"

lemma enqueue_all_gq: "enqueue_all (Suc n) es c = gq.enq_all n es c"
proof (induction es arbitrary: c)
  case (Cons et es)
  have "enqueue_all (Suc n) es = gq.enq_all n es" by (rule ext) (rule Cons.IH)
  then show ?case by (cases et) simp
qed simp

definition gq_new :: "'a group_store \<Rightarrow> 'a gc_queues" where
  "gq_new S = \<lparr>gstore = S, queue = pxq_new, scratch = pxq_new\<rparr>"

lemma gq_new_ok: "gq_ok N (gq_new S)" "gq_abs (gq_new S) = []"
proof -
  have "gq_rep N (gq_new S) [] [] [] []" by (simp add: gq_rep_def gq_new_def pxq_new_def pxq_rep_def linked_def)
  then show "gq_ok N (gq_new S)" "gq_abs (gq_new S) = []"
    using gq_abs_rep [of N "gq_new S" "[]" "[]" "[]" "[]"] by (auto simp: gq_ok_def)
qed

text \<open>
  Property C24 (deferred deletions). Entries enqueued with non-decreasing ticks, however they spread over
  groups of bounded size, are handed out by a reaping in their order, exactly those whose tick is reached;
  the others stay queued, again in order, and nothing is handed out twice: a second reaping at the same
  tick hands out nothing.
\<close>

theorem px_queue_reaps_in_order:
  assumes "0 < GroupSize" and "sorted (map snd es)"
  shows "\<exists>c1 c2 c3. enqueue_all GroupSize es (gq_new S) = Some c1 \<and>
    gq_take GroupSize tick c1 = Some (filter (\<lambda>(x, t). t \<le> tick) es, c2) \<and>
    gq_abs c2 = filter (\<lambda>(x, t). \<not> t \<le> tick) es \<and> gq_take GroupSize tick c2 = Some ([], c3)"
proof -
  obtain n where n: "GroupSize = Suc n" using assms(1) by (cases GroupSize) auto
  obtain c1 c2 where c: "gq.enq_all n es (gq_new S) = Some c1"
      "gq_take (Suc n) tick c1 = Some (filter (\<lambda>(x, t). t \<le> tick) es, c2)"
      "gq_ok (Suc n) c2" "gq_abs c2 = filter (\<lambda>(x, t). \<not> t \<le> tick) es"
    using gq.enq_then_take [OF gq_new_ok assms(2), where tick = tick and n = n] by blast
  have "filter (\<lambda>(x, t). t \<le> tick) (gq_abs c2) = []" unfolding c(4) by (auto simp: filter_empty_conv)
  then obtain c3 where "gq_take (Suc n) tick c2 = Some ([], c3)" using gq.take_until [OF c(3), of tick] by auto
  then show ?thesis using c n enqueue_all_gq by metis
qed

theorem px_queue_reaps_in_order_witness:
  "\<exists>c1 c2. enqueue_all 1 [(7 :: nat, 1), (8, 1), (9, 4)] (gq_new \<lparr>groups = (\<lambda>_. \<lparr>gnext = None, pxs = [], rcu_tick = 0\<rparr>), next_group = 0\<rparr>) = Some c1 \<and>
    gq_take 1 2 c1 = Some ([(7, 1), (8, 1)], c2)"
  using px_queue_reaps_in_order [of 1 "[(7 :: nat, 1), (8, 1), (9, 4)]"
    "\<lparr>groups = (\<lambda>_. \<lparr>gnext = None, pxs = [], rcu_tick = 0\<rparr>), next_group = 0\<rparr>" 2] by auto

end
