(* ===== verification/Rcu.thy ===== *)
theory Rcu
  imports Ticker Px_Queue
begin

text \<open>
  Deferred reclamation (\<^verbatim>\<open>src/src/rcu.h\<close>, \<^verbatim>\<open>src/src/rcu.cc\<close>): what a core retires inside a region waits in its queue
  until the ticker has moved past every region that could see it. The steps of the cores and of the ticker
  interleave as in the theory of the ticker; the queues of a core are touched by its own thread only.
\<close>

section \<open>Entries\<close>

text \<open>\<^verbatim>\<open>action\<close> is signed: minus the size of a block to release, or the address of a deleter.\<close>

record rcu_entry =
  re_ptr :: u64
  re_action :: u64

definition entry_dealloc :: "u64 \<Rightarrow> u64 \<Rightarrow> mem_error + rcu_entry" where
  "entry_dealloc p sz = (if sint (- sz) < 0 then Inr \<lparr>re_ptr = p, re_action = - sz\<rparr> else Inl Assert_failed)"

definition entry_deleter :: "u64 \<Rightarrow> u64 \<Rightarrow> mem_error + rcu_entry" where
  "entry_deleter p fn = (if 0 < sint fn then Inr \<lparr>re_ptr = p, re_action = fn\<rparr> else Inl Assert_failed)"

datatype rcu_effect = Dealloc u64 u64 | Call_deleter u64 u64

definition entry_run :: "rcu_entry \<Rightarrow> rcu_effect" where
  "entry_run e = (if sint (re_action e) < 0 then Dealloc (re_ptr e) (- re_action e) else Call_deleter (re_action e) (re_ptr e))"

section \<open>State\<close>

definition EpochTimeMultiplier :: u64 where
  "EpochTimeMultiplier = 25"

definition to_rcu_ticks :: "u64 \<Rightarrow> u64" where
  "to_rcu_ticks t = t div EpochTimeMultiplier"

definition NQueueGroups :: nat where
  "NQueueGroups = 32"

definition RCU_GroupSize :: nat where
  "RCU_GroupSize = 4096"

text \<open>
  The queue and the scratch queue of a core, the 32-bit \<^verbatim>\<open>last_reaped_epoch_\<close>, and where the loop of
  \<^verbatim>\<open>do_cleanup\<close> over the accepted entries stands. \<^verbatim>\<open>depth_\<close> counts the regions of the core, one per guard:
  it is the number of its guards.
\<close>

record rcu_sync =
  rs_queues :: "rcu_entry gc_queues"
  rs_last_reaped :: u32
  rs_todo :: "rcu_entry list option"

definition no_groups :: "'a group_store" where
  "no_groups = \<lparr>groups = (\<lambda>_. \<lparr>gnext = None, pxs = [], rcu_tick = 0\<rparr>), next_group = 0\<rparr>"

definition rcu_sync_new :: rcu_sync where
  "rcu_sync_new =
     (case alloc_freelist NQueueGroups no_groups pxq_new of
        (S1, q) \<Rightarrow> case alloc_freelist NQueueGroups S1 pxq_new of
          (S2, scr) \<Rightarrow> \<lparr>rs_queues = \<lparr>gstore = S2, queue = q, scratch = scr\<rparr>, rs_last_reaped = 0, rs_todo = None\<rparr>)"

text \<open>All effects so far, in order, are kept in \<open>ran\<close>.\<close>

record rcu_sys =
  tk :: tick_sys
  syncs :: "rcu_sync list"
  ran :: "rcu_effect list"

definition rcu_init :: "nat \<Rightarrow> rcu_sys" where
  "rcu_init n = \<lparr>tk = ticker_init n, syncs = replicate n rcu_sync_new, ran = []\<rparr>"

definition put_sync :: "nat \<Rightarrow> rcu_sync \<Rightarrow> rcu_sys \<Rightarrow> rcu_sys" where
  "put_sync i y s = s\<lparr>syncs := (syncs s)[i := y]\<rparr>"

definition rcu_depth :: "nat \<Rightarrow> rcu_sys \<Rightarrow> nat" where
  "rcu_depth i s = length (guards (cores (tk s) ! i))"

section \<open>Operations\<close>

definition cleaning_rcu_tick_exclusive :: "rcu_sys \<Rightarrow> u64" where
  "cleaning_rcu_tick_exclusive s = to_rcu_ticks (global_last_tick_exclusive (tk s))"

text \<open>What \<^verbatim>\<open>free_with_fn\<close> and \<^verbatim>\<open>dealloc_rcu\<close> share.\<close>

definition rcu_enqueue :: "nat \<Rightarrow> rcu_entry \<Rightarrow> rcu_sys \<Rightarrow> mem_error + rcu_sys" where
  "rcu_enqueue i e s =
     (case is_locally_guarded i (tk s) of
        None \<Rightarrow> Inl Assert_failed
      | Some cur_tick \<Rightarrow>
          if rcu_depth i s = 0 then Inl Assert_failed
          else case gq_enqueue RCU_GroupSize e (to_rcu_ticks (cur_tick + 1)) (rs_queues (syncs s ! i)) of
                 None \<Rightarrow> Inl Past_end
               | Some q \<Rightarrow> Inr (put_sync i ((syncs s ! i)\<lparr>rs_queues := q\<rparr>) s))"

definition free_with_fn :: "nat \<Rightarrow> u64 \<Rightarrow> u64 \<Rightarrow> rcu_sys \<Rightarrow> mem_error + rcu_sys" where
  "free_with_fn i p fn s = sbind (entry_deleter p fn) (\<lambda>e. rcu_enqueue i e s)"

definition dealloc_rcu :: "nat \<Rightarrow> u64 \<Rightarrow> u64 \<Rightarrow> rcu_sys \<Rightarrow> mem_error + rcu_sys" where
  "dealloc_rcu i p sz s = sbind (entry_dealloc p sz) (\<lambda>e. rcu_enqueue i e s)"

text \<open>\<^verbatim>\<open>do_cleanup\<close> up to its loop: which entries are due.\<close>

definition do_cleanup :: "nat \<Rightarrow> rcu_sys \<Rightarrow> mem_error + rcu_sys" where
  "do_cleanup i s =
     (let y = syncs s ! i; clean_ex = cleaning_rcu_tick_exclusive s
      in if clean_ex = 0 then Inr s
         else let clean_tick = clean_ex - 1
              in if \<not> ucast (rs_last_reaped y) \<le> clean_tick \<or> \<not> pxq_empty (scratch (rs_queues y)) then Inl Assert_failed
                 else if ucast (rs_last_reaped y) = clean_tick then Inr s
                 else let fuel = Suc (RCU_GroupSize * ngroups (queue (rs_queues y)))
                      in case gq_accept fuel clean_tick (rs_queues y) of
                           None \<Rightarrow> Inl Past_end
                         | Some q \<Rightarrow>
                             let y1 = y\<lparr>rs_queues := q, rs_last_reaped := ucast clean_tick\<rparr>
                             in if pxq_empty (scratch q) then Inr (put_sync i y1 s)
                                else case iterate fuel (gstore q) (q_head (scratch q), 0) of
                                       None \<Rightarrow> Inl Past_end
                                     | Some es \<Rightarrow> Inr (put_sync i (y1\<lparr>rs_todo := Some (map fst es)\<rparr>) s))"

text \<open>One round of its loop, and what follows the loop.\<close>

definition cleanup_visit :: "nat \<Rightarrow> rcu_sys \<Rightarrow> rcu_sys" where
  "cleanup_visit i s =
     (let y = syncs s ! i
      in case rs_todo y of
           None \<Rightarrow> s
         | Some [] \<Rightarrow> put_sync i (y\<lparr>rs_queues := gq_clear (rs_queues y), rs_todo := None\<rparr>) s
         | Some (e # es) \<Rightarrow> (put_sync i (y\<lparr>rs_todo := Some es\<rparr>) s)\<lparr>ran := ran s @ [entry_run e]\<rparr>)"

section \<open>Schedules\<close>

text \<open>
  A thread calls the operations between the constructors and destructors of guards: it retires at any time,
  cleans up outside all regions, and visits the accepted entries in the region \<^verbatim>\<open>do_cleanup\<close> opens for that.
\<close>

datatype rcu_actor =
    Rcu_tick actor
  | Rcu_free nat u64 u64
  | Rcu_dealloc nat u64 u64
  | Rcu_cleanup nat
  | Rcu_visit nat

definition rcu_running :: "nat \<Rightarrow> rcu_sys \<Rightarrow> bool" where
  "rcu_running i s \<longleftrightarrow> i < length (cores (tk s)) \<and> core_pc (cores (tk s) ! i) = Running"

fun rcu_step :: "rcu_actor \<Rightarrow> rcu_sys \<Rightarrow> mem_error + rcu_sys" where
  "rcu_step (Rcu_tick a) s = sbind (actor_step a (tk s)) (\<lambda>t. Inr (s\<lparr>tk := t\<rparr>))"
| "rcu_step (Rcu_free i p fn) s = (if rcu_running i s then free_with_fn i p fn s else Inr s)"
| "rcu_step (Rcu_dealloc i p sz) s = (if rcu_running i s then dealloc_rcu i p sz s else Inr s)"
| "rcu_step (Rcu_cleanup i) s =
     (if rcu_running i s \<and> rcu_depth i s = 0 \<and> rs_todo (syncs s ! i) = None then do_cleanup i s else Inr s)"
| "rcu_step (Rcu_visit i) s = Inr (if rcu_running i s \<and> rcu_depth i s \<noteq> 0 then cleanup_visit i s else s)"

fun run_rcu :: "rcu_actor list \<Rightarrow> rcu_sys \<Rightarrow> mem_error + rcu_sys" where
  "run_rcu [] s = Inr s"
| "run_rcu (a # as) s = sbind (rcu_step a s) (run_rcu as)"

section \<open>Invariant\<close>

text \<open>\<open>T\<close> is the tick of the core, \<open>L\<close> the completed ticks. Accepted entries are in the scratch queue only while the loop runs.\<close>

definition sync_ok :: "u64 \<Rightarrow> u64 \<Rightarrow> rcu_sync \<Rightarrow> bool" where
  "sync_ok T L y \<longleftrightarrow>
     (\<exists>hs ks gs fs. gq_rep RCU_GroupSize (rs_queues y) hs ks gs fs \<and> (rs_todo y = None \<longrightarrow> gs = [])) \<and>
     (\<forall>r \<in> snd ` set (gq_abs (rs_queues y)). r \<le> to_rcu_ticks (T + 1)) \<and>
     (rs_last_reaped y = 0 \<or> ucast (rs_last_reaped y) < to_rcu_ticks L)"

lemma sync_okI:
  assumes "gq_rep RCU_GroupSize (rs_queues y) hs ks gs fs" and "rs_todo y = None \<longrightarrow> gs = []"
    and "\<forall>r \<in> snd ` set (gq_abs (rs_queues y)). r \<le> to_rcu_ticks (T + 1)"
    and "rs_last_reaped y = 0 \<or> ucast (rs_last_reaped y) < to_rcu_ticks L"
  shows "sync_ok T L y"
  unfolding sync_ok_def using assms(3,4)
  by (intro conjI exI [of _ hs] exI [of _ ks] exI [of _ gs] exI [of _ fs]) (simp_all add: assms(1,2))

lemma sync_okD:
  assumes "sync_ok T L y"
  shows "\<exists>hs ks gs fs. gq_rep RCU_GroupSize (rs_queues y) hs ks gs fs \<and> (rs_todo y = None \<longrightarrow> gs = [])"
    and "\<forall>r \<in> snd ` set (gq_abs (rs_queues y)). r \<le> to_rcu_ticks (T + 1)"
    and "rs_last_reaped y = 0 \<or> ucast (rs_last_reaped y) < to_rcu_ticks L"
  using assms unfolding sync_ok_def by blast+

text \<open>The accepted entries still to be visited.\<close>

definition todo_list :: "rcu_sync \<Rightarrow> rcu_entry list" where
  "todo_list y = (case rs_todo y of None \<Rightarrow> [] | Some es \<Rightarrow> es)"

definition rcu_inv :: "nat \<Rightarrow> rcu_sys \<Rightarrow> bool" where
  "rcu_inv n s \<longleftrightarrow> tick_inv n (tk s) \<and> length (syncs s) = length (cores (tk s)) \<and>
     (\<forall>i < length (syncs s). sync_ok (core_tick i (tk s)) (global_last_tick_exclusive (tk s)) (syncs s ! i))"

lemma rcu_sync_new_ok: "sync_ok T L rcu_sync_new" "gq_abs (rs_queues rcu_sync_new) = []" "rs_todo rcu_sync_new = None"
proof -
  let ?N = RCU_GroupSize
  obtain S1 :: "rcu_entry group_store" and q where q: "alloc_freelist NQueueGroups no_groups pxq_new = (S1, q)"
    by (cases "alloc_freelist NQueueGroups no_groups pxq_new :: rcu_entry group_store \<times> px_queue")
  obtain S2 scr where scr: "alloc_freelist NQueueGroups S1 pxq_new = (S2, scr)" by (cases "alloc_freelist NQueueGroups S1 pxq_new")
  have new: "rcu_sync_new = \<lparr>rs_queues = \<lparr>gstore = S2, queue = q, scratch = scr\<rparr>, rs_last_reaped = 0, rs_todo = None\<rparr>"
    by (simp add: rcu_sync_new_def q scr)
  have e: "pxq_rep ?N S pxq_new [] []" for S :: "rcu_entry group_store" by (simp add: pxq_rep_def pxq_new_def linked_def)
  obtain ks where ks: "pxq_rep ?N S1 q [] ks" using alloc_freelist_rep [OF e q] by auto
  obtain fs where fs: "pxq_rep ?N S2 scr [] fs" "\<forall>g < next_group S1. groups S2 g = groups S1 g" "\<forall>g \<in> set fs. next_group S1 \<le> g"
      "next_group S1 \<le> next_group S2"
    using alloc_freelist_rep [OF e scr] by auto
  have lt: "\<forall>g \<in> set ks. g < next_group S1" using ks by (simp add: pxq_rep_def)
  then have "pxq_rep ?N S2 q [] ks" using fs(2,4) by (intro pxq_rep_same [OF ks]) auto
  then have rep: "gq_rep ?N (rs_queues rcu_sync_new) [] ks [] fs"
    using fs(1,3) lt by (fastforce simp: gq_rep_def pxq_rep_def new)
  then show abs: "gq_abs (rs_queues rcu_sync_new) = []" using gq_abs_rep by fastforce
  show "rs_todo rcu_sync_new = None" by (simp add: new)
  show "sync_ok T L rcu_sync_new" using rep abs by (auto simp: sync_ok_def new)
qed

lemma rcu_init_inv: "rcu_inv 0 (rcu_init n)"
  using ticker_init_inv [of n] by (simp add: rcu_inv_def rcu_init_def ticker_init_def rcu_sync_new_ok(1))

lemma rcu_inv_sync:
  assumes "rcu_inv n s" and "i < length (syncs s)"
  shows "sync_ok (core_tick i (tk s)) (global_last_tick_exclusive (tk s)) (syncs s ! i)"
  using assms by (simp add: rcu_inv_def)

lemma put_sync_inv:
  assumes "rcu_inv n s" and "sync_ok (core_tick i (tk s)) (global_last_tick_exclusive (tk s)) y"
  shows "rcu_inv (Suc n) (put_sync i y s)"
proof -
  have "sync_ok (core_tick j (tk s)) (global_last_tick_exclusive (tk s)) ((syncs s)[i := y] ! j)" if "j < length (syncs s)" for j
    using assms that by (cases "j = i") (simp_all add: rcu_inv_def)
  then show ?thesis using assms(1) tick_inv_mono [of n "tk s" "Suc n"] by (simp add: rcu_inv_def put_sync_def)
qed

lemma rcu_inv_mono: "rcu_inv n s \<Longrightarrow> n \<le> m \<Longrightarrow> rcu_inv m s"
  using tick_inv_mono by (auto simp: rcu_inv_def)

text \<open>Time only relaxes what a core's queue must satisfy.\<close>

lemma to_rcu_ticks_mono: "a \<le> b \<Longrightarrow> to_rcu_ticks a \<le> to_rcu_ticks b"
  by (simp add: to_rcu_ticks_def word_le_unat unat_div div_le_mono)

lemma sync_ok_later:
  assumes "sync_ok T L y" and "T + 1 \<le> T' + 1" and "L \<le> L'"
  shows "sync_ok T' L' y"
  using assms(1) to_rcu_ticks_mono [OF assms(2)] to_rcu_ticks_mono [OF assms(3)]
  unfolding sync_ok_def by (blast intro: order_trans less_le_trans)

lemma core_tick_succ:
  assumes "tick_inv n s" and "n + 2 < 2 ^ 64"
  shows "unat (core_tick i s + 1) = Suc (unat (core_tick i s))"
  using ticker.tick_bound [OF assms(1), of i] assms(2) by (subst unat_add_lem [THEN iffD1]) simp_all

lemma tick_step_inv:
  assumes inv: "rcu_inv n s" and n: "n + 3 < 2 ^ 64"
  shows "\<exists>t. actor_step a (tk s) = Inr t \<and> rcu_inv (Suc n) (s\<lparr>tk := t\<rparr>)"
proof -
  have ti: "tick_inv n (tk s)" and n2: "n + 2 < 2 ^ 64" using inv n by (simp_all add: rcu_inv_def)
  obtain t where t: "actor_step a (tk s) = Inr t" "tick_inv (Suc n) t" using ticker.act_ok [OF ti n2] by blast
  have "sync_ok (core_tick i t) (global_last_tick_exclusive t) (syncs s ! i)" if i: "i < length (syncs s)" for i
  proof (rule sync_ok_later [OF rcu_inv_sync [OF inv i]])
    show "core_tick i (tk s) + 1 \<le> core_tick i t + 1"
      using ticker.grows [OF ti n2 t(1), of i] core_tick_succ [OF ti n2, of i] core_tick_succ [OF t(2), of i] n
      by (simp add: word_le_unat)
    show "global_last_tick_exclusive (tk s) \<le> global_last_tick_exclusive t" by (rule ticker.completed_grows [OF ti n2 t(1)])
  qed
  then show ?thesis using t inv actor_step_length [OF t(1)] by (simp add: rcu_inv_def)
qed

section \<open>What the operations do\<close>

lemma region_depth: "tick_inv n (tk s) \<Longrightarrow> region_tick i (tk s) = Some t \<Longrightarrow> rcu_depth i s \<noteq> 0"
  by (auto simp: region_tick_def rcu_depth_def split: if_splits)

lemma depth_region:
  assumes "rcu_running i s" and "rcu_depth i s \<noteq> 0"
  obtains t where "region_tick i (tk s) = Some t"
proof -
  obtain g gs where "guards (cores (tk s) ! i) = g # gs" using assms(2) by (cases "guards (cores (tk s) ! i)") (auto simp: rcu_depth_def)
  then show thesis using assms(1) that [of "g_tick g"] by (simp add: rcu_running_def region_tick_def)
qed

lemma rcu_enqueue_effect:
  assumes inv: "rcu_inv n s" and n: "n + 2 < 2 ^ 64" and t: "region_tick i (tk s) = Some t"
  shows "\<exists>y. rcu_enqueue i e s = Inr (put_sync i y s) \<and>
    sync_ok (core_tick i (tk s)) (global_last_tick_exclusive (tk s)) y \<and> rs_todo y = rs_todo (syncs s ! i) \<and>
    gq_abs (rs_queues y) = gq_abs (rs_queues (syncs s ! i)) @ [(e, to_rcu_ticks (t + 1))]"
proof -
  have ti: "tick_inv n (tk s)" and n1: "n + 1 < 2 ^ 64" using inv n by (simp_all add: rcu_inv_def)
  let ?y = "syncs s ! i"
  have i: "i < length (syncs s)" and T: "t = core_tick i (tk s)"
    using inv region_tick_core [OF ti t] by (simp_all add: rcu_inv_def)
  note ok = rcu_inv_sync [OF inv i]
  obtain hs ks gs fs where r: "gq_rep RCU_GroupSize (rs_queues ?y) hs ks gs fs" "rs_todo ?y = None \<longrightarrow> gs = []"
    using ok by (auto simp: sync_ok_def)
  have le: "\<forall>r \<in> snd ` set (gq_abs (rs_queues ?y)). r \<le> to_rcu_ticks (t + 1)" using ok by (simp add: sync_ok_def T)
  have N: "0 < RCU_GroupSize" by (simp add: RCU_GroupSize_def)
  obtain q hs' ks' where q: "gq_enqueue RCU_GroupSize e (to_rcu_ticks (t + 1)) (rs_queues ?y) = Some q"
      "gq_rep RCU_GroupSize q hs' ks' gs fs" "gq_abs q = gq_abs (rs_queues ?y) @ [(e, to_rcu_ticks (t + 1))]"
    using gq_enqueue_rep [OF r(1) N le, of e] by blast
  have "sync_ok (core_tick i (tk s)) (global_last_tick_exclusive (tk s)) (?y\<lparr>rs_queues := q\<rparr>)"
    by (rule sync_okI [where hs = hs' and ks = ks' and gs = gs and fs = fs]) (use q(2,3) r(2) sync_okD(2,3) [OF ok] T in auto)
  then show ?thesis using q(1,3) region_guarded(2) [OF ti n1 t] region_depth [OF ti t]
    by (intro exI [of _ "?y\<lparr>rs_queues := q\<rparr>"]) (simp add: rcu_enqueue_def)
qed

text \<open>Cleaning up takes exactly the entries that are due.\<close>

definition due :: "u64 \<Rightarrow> rcu_sync \<Rightarrow> (rcu_entry \<times> u64) list" where
  "due clean y = filter (\<lambda>(e, r). r \<le> clean) (gq_abs (rs_queues y))"

lemma ucast_clean:
  fixes clean :: u64
  assumes "clean < L"
  shows "ucast (ucast clean :: u32) < L"
proof -
  have "unat (ucast (ucast clean :: u32) :: u64) \<le> unat clean" by (simp add: unsigned_ucast_eq unsigned_take_bit_eq)
  then show ?thesis using assms by (simp add: word_less_unat)
qed

lemma do_cleanup_effect:
  assumes inv: "rcu_inv n s" and i: "i < length (syncs s)" and todo: "rs_todo (syncs s ! i) = None"
  shows "\<exists>s'. do_cleanup i s = Inr s' \<and>
    (s' = s \<or> cleaning_rcu_tick_exclusive s \<noteq> 0 \<and>
      (\<exists>y. s' = put_sync i y s \<and> sync_ok (core_tick i (tk s)) (global_last_tick_exclusive (tk s)) y \<and>
         gq_abs (rs_queues y) = filter (\<lambda>(e, r). \<not> r \<le> cleaning_rcu_tick_exclusive s - 1) (gq_abs (rs_queues (syncs s ! i))) \<and>
         set (todo_list y) = fst ` set (due (cleaning_rcu_tick_exclusive s - 1) (syncs s ! i))))"
proof -
  let ?y = "syncs s ! i" and ?ex = "cleaning_rcu_tick_exclusive s" and ?N = RCU_GroupSize
  let ?clean = "?ex - 1"
  note ok = rcu_inv_sync [OF inv i]
  obtain hs ks fs where r: "gq_rep ?N (rs_queues ?y) hs ks [] fs" using ok todo by (auto simp: sync_ok_def)
  have emp: "pxq_empty (scratch (rs_queues ?y))" using r by (simp add: gq_rep_def pxq_rep_def linked_def pxq_empty_def)
  show ?thesis
  proof (cases "?ex = 0 \<or> ucast (rs_last_reaped ?y) = ?clean")
    case True
    then have "do_cleanup i s = Inr s" using emp by (auto simp: do_cleanup_def Let_def)
    then show ?thesis by auto
  next
    case False
    then have nz: "?ex \<noteq> 0" and ne: "ucast (rs_last_reaped ?y) \<noteq> ?clean" by auto
    have lt: "?clean < ?ex" using nz by (simp add: word_less_unat unat_minus_one unat_gt_0)
    have le: "ucast (rs_last_reaped ?y) \<le> ?clean"
    proof (cases "rs_last_reaped ?y = 0")
      case False
      then have "unat (ucast (rs_last_reaped ?y) :: u64) < unat ?ex"
        using sync_okD(3) [OF ok] by (simp add: cleaning_rcu_tick_exclusive_def word_less_unat)
      then show ?thesis using nz by (simp add: word_le_unat unat_minus_one)
    qed simp
    let ?fuel = "Suc (?N * ngroups (queue (rs_queues ?y)))"
    have fuel: "?N * length hs < ?fuel" and N: "0 < ?N" using gq_abs_rep [OF r] by (simp_all add: RCU_GroupSize_def)
    obtain q us vs ks' where q: "gq_accept ?fuel ?clean (rs_queues ?y) = Some q" "gq_rep ?N q vs ks' us []"
        "iterate ?fuel (gstore q) (q_head (scratch q), 0) = Some (due ?clean ?y)"
        "gq_abs q = filter (\<lambda>(x, t). \<not> t \<le> ?clean) (gq_abs (rs_queues ?y))"
        "pxq_empty (scratch q) \<longleftrightarrow> us = []" "us = [] \<longleftrightarrow> due ?clean ?y = []"
      using gq_accept_due [OF r N fuel, of ?clean] unfolding due_def by blast
    let ?y1 = "?y\<lparr>rs_queues := q, rs_last_reaped := ucast ?clean\<rparr>"
    have ok1: "sync_ok (core_tick i (tk s)) (global_last_tick_exclusive (tk s)) (?y1\<lparr>rs_todo := d\<rparr>)" if "d = None \<longrightarrow> us = []" for d
      by (rule sync_okI [where hs = vs and ks = ks' and gs = us and fs = "[]"])
        (use q(2,4) that sync_okD(2) [OF ok] ucast_clean [OF lt] in \<open>auto simp: cleaning_rcu_tick_exclusive_def\<close>)
    have upd: "?y1\<lparr>rs_todo := None\<rparr> = ?y1" using todo by (cases ?y) simp
    have run: "do_cleanup i s =
        Inr (put_sync i (?y1\<lparr>rs_todo := (if us = [] then None else Some (map fst (due ?clean ?y)))\<rparr>) s)"
      using nz ne le emp q(1,3,5) upd by (simp del: iterate.simps add: do_cleanup_def Let_def)
    show ?thesis
      by (rule exI, rule conjI [OF run], rule disjI2, rule conjI [OF nz], rule exI, rule conjI [OF refl])
        (use ok1 q(4,6) in \<open>auto simp: todo_list_def\<close>)
  qed
qed

lemma cleanup_visit_effect:
  assumes inv: "rcu_inv n s" and i: "i < length (syncs s)"
  shows "\<exists>y es. cleanup_visit i s = (put_sync i y s)\<lparr>ran := ran s @ map entry_run es\<rparr> \<and>
    sync_ok (core_tick i (tk s)) (global_last_tick_exclusive (tk s)) y \<and>
    gq_abs (rs_queues y) = gq_abs (rs_queues (syncs s ! i)) \<and> todo_list (syncs s ! i) = es @ todo_list y"
proof -
  let ?y = "syncs s ! i"
  note ok = rcu_inv_sync [OF inv i]
  obtain hs ks gs fs where r: "gq_rep RCU_GroupSize (rs_queues ?y) hs ks gs fs" "rs_todo ?y = None \<longrightarrow> gs = []"
    using sync_okD(1) [OF ok] by (elim exE conjE)
  consider "rs_todo ?y = None" | "rs_todo ?y = Some []" | e es where "rs_todo ?y = Some (e # es)"
    by (metis neq_Nil_conv option.exhaust)
  then show ?thesis
  proof cases
    case 1
    then show ?thesis using ok i
      by (intro exI [of _ ?y] exI [of _ "[]"]) (simp add: cleanup_visit_def put_sync_def Let_def)
  next
    case 2
    let ?y1 = "?y\<lparr>rs_queues := gq_clear (rs_queues ?y), rs_todo := None\<rparr>"
    have "sync_ok (core_tick i (tk s)) (global_last_tick_exclusive (tk s)) ?y1"
      by (rule sync_okI [where hs = hs and ks = ks and gs = "[]" and fs = "gs @ fs"])
        (use gq_clear_rep [OF r(1)] sync_okD(2,3) [OF ok] in auto)
    then show ?thesis using 2 gq_clear_rep(2) [OF r(1)]
      by (intro exI [of _ ?y1] exI [of _ "[]"]) (simp add: cleanup_visit_def put_sync_def todo_list_def Let_def)
  next
    case 3
    let ?y1 = "?y\<lparr>rs_todo := Some es\<rparr>"
    have "sync_ok (core_tick i (tk s)) (global_last_tick_exclusive (tk s)) ?y1"
      by (rule sync_okI [where hs = hs and ks = ks and gs = gs and fs = fs]) (use r sync_okD(2,3) [OF ok] in auto)
    then show ?thesis using 3
      by (intro exI [of _ ?y1] exI [of _ "[e]"]) (simp add: cleanup_visit_def put_sync_def todo_list_def Let_def)
  qed
qed

section \<open>Steps of the system\<close>

text \<open>What a step may do to the queues of a core: retire into them, take what is due, visit what was taken.\<close>

inductive sync_move :: "rcu_sys \<Rightarrow> nat \<Rightarrow> rcu_sync \<Rightarrow> rcu_entry list \<Rightarrow> bool" for s i where
  retire: "sync_move s i y []" if "region_tick i (tk s) = Some t" "todo_list y = todo_list (syncs s ! i)"
    "gq_abs (rs_queues y) = gq_abs (rs_queues (syncs s ! i)) @ [(e, to_rcu_ticks (t + 1))]"
| accept: "sync_move s i y []" if "cleaning_rcu_tick_exclusive s \<noteq> 0"
    "gq_abs (rs_queues y) = filter (\<lambda>(e, r). \<not> r \<le> cleaning_rcu_tick_exclusive s - 1) (gq_abs (rs_queues (syncs s ! i)))"
    "set (todo_list y) = fst ` set (due (cleaning_rcu_tick_exclusive s - 1) (syncs s ! i))"
| visit: "sync_move s i y es" if "gq_abs (rs_queues y) = gq_abs (rs_queues (syncs s ! i))" "todo_list (syncs s ! i) = es @ todo_list y"

lemma rcu_step_effect:
  assumes inv: "rcu_inv n s" and n: "n + 3 < 2 ^ 64" and st: "rcu_step a s = Inr s'"
  shows "s' = s \<or> (\<exists>b t. actor_step b (tk s) = Inr t \<and> s' = s\<lparr>tk := t\<rparr>) \<or>
    (\<exists>i y es. i < length (syncs s) \<and> s' = (put_sync i y s)\<lparr>ran := ran s @ map entry_run es\<rparr> \<and>
       sync_ok (core_tick i (tk s)) (global_last_tick_exclusive (tk s)) y \<and> sync_move s i y es)"
    (is "?none \<or> ?tick \<or> ?sync")
proof -
  have n2: "n + 2 < 2 ^ 64" using n by simp
  have len: "length (syncs s) = length (cores (tk s))" using inv by (simp add: rcu_inv_def)
  have enq: ?thesis if run: "rcu_running i s" and e: "rcu_enqueue i e s = Inr s'" for i e
  proof -
    have "rcu_depth i s \<noteq> 0" using e by (auto simp: rcu_enqueue_def split: option.splits if_splits)
    then obtain t where t: "region_tick i (tk s) = Some t" using depth_region [OF run] by blast
    obtain y where y: "s' = put_sync i y s" "sync_ok (core_tick i (tk s)) (global_last_tick_exclusive (tk s)) y"
        "rs_todo y = rs_todo (syncs s ! i)" "gq_abs (rs_queues y) = gq_abs (rs_queues (syncs s ! i)) @ [(e, to_rcu_ticks (t + 1))]"
      using rcu_enqueue_effect [OF inv n2 t, of e] e by auto
    have "sync_move s i y []" by (rule sync_move.retire [OF t _ y(4)]) (simp add: todo_list_def y(3))
    then have ?sync using y(1,2) run len
      by (intro exI [of _ i] exI [of _ y] exI [of _ "[]"]) (simp add: rcu_running_def put_sync_def)
    then show ?thesis by blast
  qed
  show ?thesis
  proof (cases a)
    case (Rcu_tick b)
    then show ?thesis using st by (auto simp: sbind_Inr)
  next
    case (Rcu_free i p fn)
    then show ?thesis using st enq [of i] by (auto simp: free_with_fn_def sbind_Inr split: if_splits)
  next
    case (Rcu_dealloc i p sz)
    then show ?thesis using st enq [of i] by (auto simp: dealloc_rcu_def sbind_Inr split: if_splits)
  next
    case (Rcu_cleanup i)
    show ?thesis
    proof (cases "rcu_running i s \<and> rcu_depth i s = 0 \<and> rs_todo (syncs s ! i) = None")
      case True
      then have i: "i < length (syncs s)" and todo: "rs_todo (syncs s ! i) = None" using len by (simp_all add: rcu_running_def)
      have "do_cleanup i s = Inr s'" using st True Rcu_cleanup by simp
      then consider "s' = s" | y where "s' = put_sync i y s" "sync_ok (core_tick i (tk s)) (global_last_tick_exclusive (tk s)) y"
          "sync_move s i y []"
        using do_cleanup_effect [OF inv i todo] by (auto intro: sync_move.accept)
      then show ?thesis
      proof cases
        case 2
        then have ?sync using i by (intro exI [of _ i] exI [of _ y] exI [of _ "[]"]) (simp add: put_sync_def)
        then show ?thesis by blast
      qed blast
    next
      case False
      then show ?thesis using st Rcu_cleanup by (simp split: if_splits)
    qed
  next
    case (Rcu_visit i)
    show ?thesis
    proof (cases "rcu_running i s \<and> rcu_depth i s \<noteq> 0")
      case True
      then have i: "i < length (syncs s)" using len by (simp add: rcu_running_def)
      obtain y es where y: "cleanup_visit i s = (put_sync i y s)\<lparr>ran := ran s @ map entry_run es\<rparr>"
          "sync_ok (core_tick i (tk s)) (global_last_tick_exclusive (tk s)) y"
          "gq_abs (rs_queues y) = gq_abs (rs_queues (syncs s ! i))" "todo_list (syncs s ! i) = es @ todo_list y"
        using cleanup_visit_effect [OF inv i] by blast
      have "s' = (put_sync i y s)\<lparr>ran := ran s @ map entry_run es\<rparr>" using st True y(1) Rcu_visit by simp
      then have ?sync using i y(2) sync_move.visit [of y s i es, OF y(3,4)]
        by (intro exI [of _ i] exI [of _ y] exI [of _ es] conjI)
      then show ?thesis by blast
    next
      case False
      then show ?thesis using st Rcu_visit by auto
    qed
  qed
qed

lemma rcu_step_inv:
  assumes inv: "rcu_inv n s" and n: "n + 3 < 2 ^ 64" and st: "rcu_step a s = Inr s'"
  shows "rcu_inv (Suc n) s'"
  using rcu_step_effect [OF assms]
proof (elim disjE exE conjE)
  assume "s' = s"
  then show ?thesis using rcu_inv_mono [OF inv] by simp
next
  fix b t assume "actor_step b (tk s) = Inr t" "s' = s\<lparr>tk := t\<rparr>"
  then show ?thesis using tick_step_inv [OF inv n, of b] by auto
next
  fix i y es assume "s' = (put_sync i y s)\<lparr>ran := ran s @ map entry_run es\<rparr>"
    "sync_ok (core_tick i (tk s)) (global_last_tick_exclusive (tk s)) y"
  then show ?thesis using put_sync_inv [OF inv] by (simp add: rcu_inv_def)
qed

text \<open>Only retiring can fail, and only outside all regions or with an impossible size or deleter.\<close>

definition retire_ok :: "rcu_actor \<Rightarrow> rcu_sys \<Rightarrow> bool" where
  "retire_ok a s \<longleftrightarrow>
     (case a of
        Rcu_free i p fn \<Rightarrow> rcu_depth i s \<noteq> 0 \<and> 0 < sint fn
      | Rcu_dealloc i p sz \<Rightarrow> rcu_depth i s \<noteq> 0 \<and> sint (- sz) < 0
      | _ \<Rightarrow> True)"

lemma rcu_step_ok:
  assumes inv: "rcu_inv n s" and n: "n + 3 < 2 ^ 64" and ok: "retire_ok a s"
  shows "\<exists>s'. rcu_step a s = Inr s'"
proof -
  have n2: "n + 2 < 2 ^ 64" using n by simp
  have len: "length (syncs s) = length (cores (tk s))" using inv by (simp add: rcu_inv_def)
  have enq: "\<exists>s'. rcu_enqueue i e s = Inr s'" if "rcu_running i s" "rcu_depth i s \<noteq> 0" for i e
    using depth_region [OF that] rcu_enqueue_effect [OF inv n2] by metis
  show ?thesis
  proof (cases a)
    case (Rcu_tick b)
    then show ?thesis using tick_step_inv [OF inv n, of b] by auto
  next
    case (Rcu_cleanup i)
    then show ?thesis using do_cleanup_effect [OF inv, of i] len by (auto simp: rcu_running_def)
  qed (use ok enq in \<open>auto simp: retire_ok_def free_with_fn_def dealloc_rcu_def entry_deleter_def entry_dealloc_def\<close>)
qed

text \<open>Visiting an entry does what was asked for when it was made.\<close>

lemma entry_run_made:
  "entry_dealloc p sz = Inr e \<Longrightarrow> entry_run e = Dealloc p sz" "entry_deleter p fn = Inr e \<Longrightarrow> entry_run e = Call_deleter fn p"
  by (auto simp: entry_dealloc_def entry_deleter_def entry_run_def split: if_splits)

section \<open>Readers are safe\<close>

fun effect_ptr :: "rcu_effect \<Rightarrow> u64" where
  "effect_ptr (Dealloc p sz) = p"
| "effect_ptr (Call_deleter fn p) = p"

lemma effect_ptr_run [simp]: "effect_ptr (entry_run e) = re_ptr e"
  by (simp add: entry_run_def)

text \<open>The block \<open>p\<close> was not handed to the scheme before; or if it was, then not to be reclaimed during a region of tick \<open>t\<close>.\<close>

definition unretired :: "u64 \<Rightarrow> rcu_sys \<Rightarrow> bool" where
  "unretired p s \<longleftrightarrow>
     (\<forall>y \<in> set (syncs s). (\<forall>(e, r) \<in> set (gq_abs (rs_queues y)). re_ptr e \<noteq> p) \<and> (\<forall>e \<in> set (todo_list y). re_ptr e \<noteq> p)) \<and>
     (\<forall>f \<in> set (ran s). effect_ptr f \<noteq> p)"

definition spared :: "u64 \<Rightarrow> u64 \<Rightarrow> rcu_sys \<Rightarrow> bool" where
  "spared p t s \<longleftrightarrow>
     (\<forall>i < length (syncs s). (\<forall>(e, r) \<in> set (gq_abs (rs_queues (syncs s ! i))). re_ptr e = p \<longrightarrow> to_rcu_ticks t \<le> r) \<and>
        (\<forall>e \<in> set (todo_list (syncs s ! i)). re_ptr e \<noteq> p)) \<and>
     (\<forall>f \<in> set (ran s). effect_ptr f \<noteq> p)"

lemma unretired_spared: "unretired p s \<Longrightarrow> spared p t s"
  by (fastforce simp: unretired_def spared_def)

lemma spared_put:
  assumes "spared p t s" and "i < length (syncs s)"
    and "\<forall>(e, r) \<in> set (gq_abs (rs_queues y)). re_ptr e = p \<longrightarrow> to_rcu_ticks t \<le> r"
    and "\<forall>e \<in> set (todo_list y). re_ptr e \<noteq> p" and "\<forall>e \<in> set es. re_ptr e \<noteq> p"
  shows "spared p t ((put_sync i y s)\<lparr>ran := ran s @ map entry_run es\<rparr>)"
  using assms unfolding spared_def put_sync_def by (auto simp: nth_list_update)

lemma sync_move_spared:
  assumes inv: "rcu_inv n s" and n: "n + 3 < 2 ^ 64" and rd: "region_tick j (tk s) = Some t" and sp: "spared p t s"
    and i: "i < length (syncs s)" and mv: "sync_move s i y es"
  shows "spared p t ((put_sync i y s)\<lparr>ran := ran s @ map entry_run es\<rparr>)"
proof -
  have ti: "tick_inv n (tk s)" and n2: "n + 2 < 2 ^ 64" using inv n by (simp_all add: rcu_inv_def)
  have q: "\<forall>(e, r) \<in> set (gq_abs (rs_queues (syncs s ! i))). re_ptr e = p \<longrightarrow> to_rcu_ticks t \<le> r"
    and todo: "\<forall>e \<in> set (todo_list (syncs s ! i)). re_ptr e \<noteq> p" using sp i by (simp_all add: spared_def)
  from mv show ?thesis
  proof cases
    case (retire u e)
    have "to_rcu_ticks t \<le> to_rcu_ticks (u + 1)"
      using ticker.retire_after [OF ti n2 rd retire(2)] by (simp add: to_rcu_ticks_def)
    then show ?thesis using retire q todo by (intro spared_put [OF sp i]) auto
  next
    case accept
    have "\<not> r \<le> cleaning_rcu_tick_exclusive s - 1" if "to_rcu_ticks t \<le> r" for r
      using ticker.not_due [OF ti rd, of EpochTimeMultiplier r] that accept(2)
      by (simp add: to_rcu_ticks_def cleaning_rcu_tick_exclusive_def)
    then have "\<forall>e \<in> set (todo_list y). re_ptr e \<noteq> p" using q unfolding accept(4) due_def by fastforce
    then show ?thesis using accept q by (intro spared_put [OF sp i]) auto
  next
    case visit
    then show ?thesis using q todo by (intro spared_put [OF sp i]) auto
  qed
qed

text \<open>The steps run and the region of core \<open>j\<close> stays open in every state they pass.\<close>

fun stays_open :: "nat \<Rightarrow> rcu_actor list \<Rightarrow> rcu_sys \<Rightarrow> bool" where
  "stays_open j [] s \<longleftrightarrow> region_tick j (tk s) \<noteq> None"
| "stays_open j (a # as) s \<longleftrightarrow>
     region_tick j (tk s) \<noteq> None \<and> (case rcu_step a s of Inl _ \<Rightarrow> False | Inr s' \<Rightarrow> stays_open j as s')"

lemma stays_open_region: "stays_open j as s \<Longrightarrow> region_tick j (tk s) \<noteq> None"
  by (cases as) simp_all

lemma spared_step:
  assumes inv: "rcu_inv n s" and n: "n + 3 < 2 ^ 64" and rd: "region_tick j (tk s) = Some t" and sp: "spared p t s"
    and st: "rcu_step a s = Inr s'"
  shows "spared p t s'"
  using rcu_step_effect [OF inv n st]
proof (elim disjE exE conjE)
  fix i y es assume "i < length (syncs s)" "s' = (put_sync i y s)\<lparr>ran := ran s @ map entry_run es\<rparr>" "sync_move s i y es"
  then show ?thesis using sync_move_spared [OF inv n rd sp] by simp
qed (use sp in \<open>simp_all add: spared_def\<close>)

lemma same_region:
  assumes inv: "rcu_inv n s" and n: "n + 3 < 2 ^ 64" and st: "rcu_step a s = Inr s'"
    and rd: "region_tick j (tk s) = Some t" and rd': "region_tick j (tk s') \<noteq> None"
  shows "region_tick j (tk s') = Some t"
proof -
  have ti: "tick_inv n (tk s)" and n2: "n + 2 < 2 ^ 64" using inv n by (simp_all add: rcu_inv_def)
  show ?thesis using rcu_step_effect [OF inv n st]
  proof (elim disjE exE conjE)
    fix b u assume b: "actor_step b (tk s) = Inr u" "s' = s\<lparr>tk := u\<rparr>"
    then obtain v where v: "region_tick j u = Some v" using rd' by auto
    then have "v = t" by (rule ticker.keeps [OF ti n2 b(1) rd])
    then show ?thesis using v b(2) by simp
  qed (use rd in \<open>simp_all add: put_sync_def\<close>)
qed

lemma stays_open_spares:
  "rcu_inv n s \<Longrightarrow> n + length as + 2 < 2 ^ 64 \<Longrightarrow> region_tick j (tk s) = Some t \<Longrightarrow> spared p t s \<Longrightarrow> stays_open j as s \<Longrightarrow>
     run_rcu as s = Inr s' \<Longrightarrow> spared p t s'"
proof (induction as arbitrary: n s)
  case (Cons a as)
  obtain s1 where s1: "rcu_step a s = Inr s1" "stays_open j as s1" "run_rcu as s1 = Inr s'"
    using Cons.prems(5,6) by (auto simp: sbind_Inr split: sum.splits)
  have n: "n + 3 < 2 ^ 64" using Cons.prems(2) by simp
  show ?case
  proof (rule Cons.IH [of "Suc n" s1])
    show "rcu_inv (Suc n) s1" by (rule rcu_step_inv [OF Cons.prems(1) n s1(1)])
    show "region_tick j (tk s1) = Some t"
      by (rule same_region [OF Cons.prems(1) n s1(1) Cons.prems(3) stays_open_region [OF s1(2)]])
    show "spared p t s1" by (rule spared_step [OF Cons.prems(1) n Cons.prems(3,4) s1(1)])
  qed (use Cons.prems(2) s1 in simp_all)
qed simp

lemma run_rcu_inv:
  "rcu_inv n s \<Longrightarrow> n + length as + 2 < 2 ^ 64 \<Longrightarrow> run_rcu as s = Inr s' \<Longrightarrow> rcu_inv (n + length as) s'"
proof (induction as arbitrary: n s)
  case (Cons a as)
  then obtain s1 where s1: "rcu_step a s = Inr s1" "run_rcu as s1 = Inr s'" by (auto simp: sbind_Inr)
  have "rcu_inv (Suc n) s1" using rcu_step_inv [OF Cons.prems(1) _ s1(1)] Cons.prems(2) by simp
  then show ?case using Cons.IH [of "Suc n" s1] Cons.prems(2) s1(2) by simp
qed simp

section \<open>Properties\<close>

text \<open>
  Property C3 (grace period). Take any run of any number of cores and the ticker, a state of it in which core
  \<open>j\<close> is inside a region, and a block \<open>p\<close> no core has retired so far. Whatever the cores do from then on, retiring
  \<open>p\<close> and cleaning up included: as long as core \<open>j\<close> stays in that region, \<open>p\<close> is neither released nor given to its
  deleter.
\<close>

theorem rcu_grace_period:
  assumes "run_rcu as (rcu_init N) = Inr s" and "unretired p s" and "stays_open j bs s" and "run_rcu bs s = Inr s'"
    and "length as + length bs + 2 < 2 ^ 64"
  shows "p \<notin> effect_ptr ` set (ran s')"
proof -
  have inv: "rcu_inv (length as) s" using run_rcu_inv [OF rcu_init_inv _ assms(1)] assms(5) by simp
  obtain t where t: "region_tick j (tk s) = Some t" using stays_open_region [OF assms(3)] by auto
  have "spared p t s'"
    by (rule stays_open_spares [OF inv assms(5) t unretired_spared [OF assms(2)] assms(3,4)])
  then show ?thesis by (auto simp: spared_def)
qed

text \<open>
  Core 1 is in a region; core 0 retires a block and cleans up while the ticker waits for core 1.
  Then core 1 leaves, the ticker goes on, and the next clean-up releases the block.
\<close>

definition enter :: "nat \<Rightarrow> rcu_actor list" where
  "enter i = Rcu_tick (Open_guard i) # replicate 4 (Rcu_tick (Continue i 7))"

definition leave :: "nat \<Rightarrow> rcu_actor list" where
  "leave i = Rcu_tick (Close_guard i) # replicate 2 (Rcu_tick (Continue i 7))"

definition tick_for :: "nat \<Rightarrow> rcu_actor list" where
  "tick_for n = replicate n (Rcu_tick Tick_thread)"

definition demo_before :: "rcu_actor list" where
  "demo_before = enter 1"

definition demo_while :: "rcu_actor list" where
  "demo_while = enter 0 @ [Rcu_dealloc 0 4096 64] @ leave 0 @ tick_for 20 @ [Rcu_cleanup 0] @ enter 0 @ [Rcu_visit 0, Rcu_visit 0] @ leave 0"

definition demo_after :: "rcu_actor list" where
  "demo_after = leave 1 @ tick_for 500 @ [Rcu_cleanup 0] @ enter 0 @ [Rcu_visit 0, Rcu_visit 0] @ leave 0"

lemma demo_rcu_run:
  "case run_rcu demo_before (rcu_init 2) of
     Inl _ \<Rightarrow> False
   | Inr s \<Rightarrow> unretired 4096 s \<and> stays_open 1 demo_while s \<and>
       (case run_rcu demo_while s of
          Inl _ \<Rightarrow> False
        | Inr s' \<Rightarrow> ran s' = [] \<and> (case run_rcu demo_after s' of Inl _ \<Rightarrow> False | Inr s'' \<Rightarrow> ran s'' = [Dealloc 4096 64]))"
  by code_simp

theorem rcu_grace_period_witness:
  "\<exists>s s'. run_rcu demo_before (rcu_init 2) = Inr s \<and> stays_open 1 demo_while s \<and> run_rcu demo_while s = Inr s' \<and>
     4096 \<notin> effect_ptr ` set (ran s')"
proof -
  have len: "length demo_before + length demo_while + 2 < 2 ^ 64"
    by (simp add: demo_before_def demo_while_def enter_def leave_def tick_for_def)
  obtain s where s: "run_rcu demo_before (rcu_init 2) = Inr s" "unretired 4096 s" "stays_open 1 demo_while s"
    using demo_rcu_run by (auto split: sum.splits)
  moreover obtain s' where "run_rcu demo_while s = Inr s'" using demo_rcu_run s(1) by (auto split: sum.splits)
  ultimately show ?thesis using rcu_grace_period [OF s _ len] by blast
qed

end
