(* ===== verification/Txn_State.thy ===== *)
theory Txn_State
  imports Tuple_Write "HOL-Library.Product_Lexorder"
begin

text \<open>
  What a transaction remembers (\<^verbatim>\<open>src/src/txn.h\<close>): its state, its read, write and absent sets, and the
  vector of write entries a commit sorts, locks in order and searches. The three sets are small containers
  (\<^verbatim>\<open>small_vector.h\<close>, \<^verbatim>\<open>small_unordered_map.h\<close>) that hold what a list, a list and a map hold.
\<close>

section \<open>Computations of a transaction\<close>

text \<open>
  A bad memory access; a spin loop that only another thread can end, with nobody else running: the call
  does not return; or the bound the model puts on the rounds of a loop reached, which says nothing of the code.
\<close>

datatype fault = Mem mem_error | Spin | No_fuel

definition lift_mem :: "mem_error + 'a \<Rightarrow> fault + 'a" where
  "lift_mem r = (case r of Inl e \<Rightarrow> Inl (Mem e) | Inr x \<Rightarrow> Inr x)"

lemma lift_mem_simps [simp]: "lift_mem (Inl e) = Inl (Mem e)" "lift_mem (Inr x) = Inr x"
  by (simp_all add: lift_mem_def)

lemma lift_mem_Inr: "lift_mem r = Inr x \<longleftrightarrow> r = Inr x"
  by (cases r) simp_all

definition or_spin :: "'a option \<Rightarrow> fault + 'a" where
  "or_spin r = (case r of None \<Rightarrow> Inl Spin | Some x \<Rightarrow> Inr x)"

lemma or_spin_simps [simp]: "or_spin None = Inl Spin" "or_spin (Some x) = Inr x"
  by (simp_all add: or_spin_def)

section \<open>States and reasons\<close>

datatype txn_state = TXN_EMBRYO | TXN_ACTIVE | TXN_COMMITED | TXN_ABRT

definition TXN_FLAG_LOW_LEVEL_SCAN :: u64 where
  "TXN_FLAG_LOW_LEVEL_SCAN = 0x1"

definition TXN_FLAG_READ_ONLY :: u64 where
  "TXN_FLAG_READ_ONLY = 0x2"

datatype abort_reason =
    ABORT_REASON_NONE
  | ABORT_REASON_USER
  | ABORT_REASON_UNSTABLE_READ
  | ABORT_REASON_FUTURE_TID_READ
  | ABORT_REASON_NODE_SCAN_WRITE_VERSION_CHANGED
  | ABORT_REASON_NODE_SCAN_READ_VERSION_CHANGED
  | ABORT_REASON_WRITE_NODE_INTERFERENCE
  | ABORT_REASON_INSERT_NODE_INTERFERENCE
  | ABORT_REASON_READ_NODE_INTEREFERENCE
  | ABORT_REASON_READ_ABSENCE_INTEREFERENCE

section \<open>Read, write and absent sets\<close>

type_synonym btree = nat
type_synonym node = nat

record read_record =
  rr_tuple :: ptr
  rr_tid :: u64

text \<open>
  The two low bits of the marked pointer \<^verbatim>\<open>btr\<close> are the flags \<open>wr_insert\<close> and \<open>wr_do_write\<close>.
\<close>

record 'v write_record =
  wr_tuple :: ptr
  wr_key :: bytes
  wr_value :: "'v option"
  wr_writer :: "'v tuple_writer"
  wr_btr :: btree
  wr_insert :: bool
  wr_do_write :: bool

definition new_write_record ::
  "ptr \<Rightarrow> bytes \<Rightarrow> 'v option \<Rightarrow> 'v tuple_writer \<Rightarrow> btree \<Rightarrow> bool \<Rightarrow> 'v write_record" where
  "new_write_record tuple k r w btr ins =
     \<lparr>wr_tuple = tuple, wr_key = k, wr_value = r, wr_writer = w, wr_btr = btr,
      wr_insert = ins, wr_do_write = False\<rparr>"

definition set_do_write :: "nat \<Rightarrow> 'v write_record list \<Rightarrow> 'v write_record list" where
  "set_do_write i ws = ws[i := (ws ! i)\<lparr>wr_do_write := True\<rparr>]"

fun find_write_set :: "ptr \<Rightarrow> 'v write_record list \<Rightarrow> 'v write_record option" where
  "find_write_set tuple [] = None"
| "find_write_set tuple (w # ws) = (if wr_tuple w = tuple then Some w else find_write_set tuple ws)"

fun find_read_set :: "ptr \<Rightarrow> read_record list \<Rightarrow> read_record option" where
  "find_read_set tuple [] = None"
| "find_read_set tuple (r # rs) = (if rr_tuple r = tuple then Some r else find_read_set tuple rs)"

text \<open>
  \<^verbatim>\<open>u_\<close> is the union of the snapshot id (read-only transactions) and the epoch of the commit (the others).
\<close>

record 'v txn =
  state :: txn_state
  reason :: abort_reason
  flags :: u64
  read_set :: "read_record list"
  write_set :: "'v write_record list"
  absent_set :: "(node \<times> u64) list"
  u_word :: u64

definition is_snapshot :: "'v txn \<Rightarrow> bool" where
  "is_snapshot t \<longleftrightarrow> flags t AND TXN_FLAG_READ_ONLY \<noteq> 0"

definition snapshot_tid :: "'v txn \<Rightarrow> u64" where
  "snapshot_tid t = u_word t"

definition ensure_active :: "'v txn \<Rightarrow> 'v txn" where
  "ensure_active t = (if state t = TXN_EMBRYO then t\<lparr>state := TXN_ACTIVE\<rparr> else t)"

text \<open>The constructor; \<open>tick_ex\<close> is the \<^verbatim>\<open>global_last_tick_exclusive()\<close> the guard saw.\<close>

definition transaction_proto2 :: "u64 \<Rightarrow> u64 \<Rightarrow> u64 \<Rightarrow> 'v txn" where
  "transaction_proto2 uninit tick_ex fl =
     \<lparr>state = TXN_EMBRYO, reason = ABORT_REASON_NONE, flags = fl, read_set = [], write_set = [],
      absent_set = [],
      u_word = (if fl AND TXN_FLAG_READ_ONLY \<noteq> 0 then ComputeReadOnlyTid tick_ex else uninit)\<rparr>"

section \<open>The sorted write entries\<close>

text \<open>\<open>wi_entry\<close> is the pointer to the write record, its position in the write set.\<close>

record dbtuple_write_info =
  wi_tuple :: ptr
  wi_entry :: nat
  wi_pos :: nat
  wi_locked :: bool
  wi_insert :: bool

definition new_write_info :: "ptr \<Rightarrow> nat \<Rightarrow> bool \<Rightarrow> nat \<Rightarrow> dbtuple_write_info" where
  "new_write_info tuple entry is_insert pos =
     \<lparr>wi_tuple = tuple, wi_entry = entry, wi_pos = pos, wi_locked = is_insert, wi_insert = is_insert\<rparr>"

definition mark_locked :: "dbtuple_write_info \<Rightarrow> dbtuple_write_info" where
  "mark_locked i = i\<lparr>wi_locked := True\<rparr>"

definition write_info_less :: "dbtuple_write_info \<Rightarrow> dbtuple_write_info \<Rightarrow> bool" where
  "write_info_less i j \<longleftrightarrow>
     wi_tuple i < wi_tuple j \<or>
     (wi_tuple i = wi_tuple j \<and> (\<not> wi_insert i) < (\<not> wi_insert j)) \<or>
     (wi_tuple i = wi_tuple j \<and> (\<not> wi_insert i) = (\<not> wi_insert j) \<and> wi_pos i < wi_pos j)"

definition write_info_key :: "dbtuple_write_info \<Rightarrow> ptr \<times> bool \<times> nat" where
  "write_info_key i = (wi_tuple i, \<not> wi_insert i, wi_pos i)"

text \<open>
  The loop that fills \<^verbatim>\<open>write_dbtuples\<close>. \<^verbatim>\<open>std::sort\<close> by \<^verbatim>\<open>operator<\<close>: the keys are unique, so the sorted
  sequence is determined.
\<close>

definition collect_write_infos :: "'v write_record list \<Rightarrow> dbtuple_write_info list" where
  "collect_write_infos ws =
     map (\<lambda>(pos, w). new_write_info (wr_tuple w) pos (wr_insert w) pos) (enumerate 0 ws)"

definition sort_write_infos :: "dbtuple_write_info list \<Rightarrow> dbtuple_write_info list" where
  "sort_write_infos is = sort_key write_info_key is"

text \<open>\<^verbatim>\<open>std::binary_search\<close> with the comparison of the tuples: a lower bound, then one comparison.\<close>

function lower_bound :: "dbtuple_write_info list \<Rightarrow> ptr \<Rightarrow> nat \<Rightarrow> nat \<Rightarrow> nat" where
  "lower_bound is tuple first len =
     (if len = 0 then first
      else let half = len div 2
           in if wi_tuple (is ! (first + half)) < tuple
              then lower_bound is tuple (first + half + 1) (len - half - 1)
              else lower_bound is tuple first half)"
  by pat_completeness auto
termination by (relation "measure (\<lambda>(is, tuple, first, len). len)") auto

declare lower_bound.simps [simp del]

definition sorted_dbtuples_contains :: "dbtuple_write_info list \<Rightarrow> ptr \<Rightarrow> bool" where
  "sorted_dbtuples_contains is tuple =
     (let i = lower_bound is tuple 0 (length is)
      in i \<noteq> length is \<and> \<not> tuple < wi_tuple (is ! i))"

section \<open>Properties of the write entries\<close>

lemma write_info_less_key: "write_info_less i j \<longleftrightarrow> write_info_key i < write_info_key j"
  by (auto simp: write_info_less_def write_info_key_def)

lemma collect_nth:
  "k < length ws \<Longrightarrow> collect_write_infos ws ! k = new_write_info (wr_tuple (ws ! k)) k (wr_insert (ws ! k)) k"
  by (simp add: collect_write_infos_def nth_enumerate_eq)

lemma length_collect [simp]: "length (collect_write_infos ws) = length ws"
  by (simp add: collect_write_infos_def)

lemma length_sort_infos [simp]: "length (sort_write_infos is) = length is"
  by (simp add: sort_write_infos_def)

lemma set_sort_infos [simp]: "set (sort_write_infos is) = set is"
  by (simp add: sort_write_infos_def)

lemma distinct_sort_infos [simp]: "distinct (sort_write_infos is) = distinct is"
  by (simp add: sort_write_infos_def)

lemma set_collect:
  "set (collect_write_infos ws) =
     {new_write_info (wr_tuple (ws ! k)) k (wr_insert (ws ! k)) k |k. k < length ws}"
proof -
  have "set (collect_write_infos ws) = (\<lambda>k. collect_write_infos ws ! k) ` {..<length ws}"
    using nth_image [of "length ws" "collect_write_infos ws"] by (simp add: lessThan_atLeast0)
  then show ?thesis by (auto simp: collect_nth)
qed

lemma inj_collect: "inj_on wi_pos (set (collect_write_infos ws))"
  by (auto simp: set_collect inj_on_def new_write_info_def)

lemma sorted_infos_keys: "sorted (map write_info_key (sort_write_infos is))"
  by (simp add: sort_write_infos_def)

lemma sorted_infos_tuples: "sorted (map wi_tuple (sort_write_infos is))"
  using sorted_infos_keys [of "is"]
  by (fastforce simp: sorted_iff_nth_mono write_info_key_def less_eq_prod_def)

text \<open>The search keeps the bound between the entries below the tuple and the others.\<close>

lemma lower_bound_spec:
  assumes "sorted (map wi_tuple is)" and "first + len \<le> length is"
    and "\<forall>k < first. wi_tuple (is ! k) < tuple" and "\<forall>k. first + len \<le> k \<and> k < length is \<longrightarrow> tuple \<le> wi_tuple (is ! k)"
  shows "lower_bound is tuple first len \<le> length is \<and>
    (\<forall>k < lower_bound is tuple first len. wi_tuple (is ! k) < tuple) \<and>
    (\<forall>k. lower_bound is tuple first len \<le> k \<and> k < length is \<longrightarrow> tuple \<le> wi_tuple (is ! k))"
  using assms
proof (induction "is" tuple first len rule: lower_bound.induct)
  case (1 "is" tuple first len)
  have mono: "wi_tuple (is ! a) \<le> wi_tuple (is ! b)" if "a \<le> b" "b < length is" for a b
    using 1(3) that by (auto simp: sorted_iff_nth_mono)
  show ?case
  proof (cases "len = 0")
    case True
    then show ?thesis using 1(4,5,6) by (simp add: lower_bound.simps)
  next
    case False
    let ?h = "len div 2"
    have h: "first + ?h < length is" "?h < len" using False 1(4) by auto
    show ?thesis
    proof (cases "wi_tuple (is ! (first + ?h)) < tuple")
      case True
      have "\<forall>k < first + ?h + 1. wi_tuple (is ! k) < tuple"
      proof (intro allI impI)
        fix k assume "k < first + ?h + 1"
        then have "wi_tuple (is ! k) \<le> wi_tuple (is ! (first + ?h))" using mono h by simp
        then show "wi_tuple (is ! k) < tuple" using True by simp
      qed
      moreover have "lower_bound is tuple first len = lower_bound is tuple (first + ?h + 1) (len - ?h - 1)"
        unfolding lower_bound.simps [of "is" tuple first len] Let_def if_not_P [OF False] if_P [OF True] ..
      moreover have "first + ?h + 1 + (len - ?h - 1) = first + len" using h(2) by simp
      ultimately show ?thesis using 1(1) [OF False refl True 1(3)] 1(4,6) by metis
    next
      case below: False
      have "\<forall>k. first + ?h \<le> k \<and> k < length is \<longrightarrow> tuple \<le> wi_tuple (is ! k)"
        using below mono [of "first + ?h"] by (meson le_trans not_le)
      moreover have "lower_bound is tuple first len = lower_bound is tuple first ?h"
        unfolding lower_bound.simps [of "is" tuple first len] Let_def if_not_P [OF False] if_not_P [OF below] ..
      ultimately show ?thesis using 1(2) [OF False refl below 1(3)] 1(5) h(1) by (metis less_imp_le)
    qed
  qed
qed

lemma sorted_contains_iff:
  assumes "sorted (map wi_tuple is)"
  shows "sorted_dbtuples_contains is tuple \<longleftrightarrow> tuple \<in> wi_tuple ` set is"
proof -
  let ?i = "lower_bound is tuple 0 (length is)"
  have i: "?i \<le> length is" "\<forall>k < ?i. wi_tuple (is ! k) < tuple"
      "\<forall>k. ?i \<le> k \<and> k < length is \<longrightarrow> tuple \<le> wi_tuple (is ! k)"
    using lower_bound_spec [OF assms, of 0 "length is" tuple] by auto
  show ?thesis
  proof
    assume "sorted_dbtuples_contains is tuple"
    then have "?i < length is" "\<not> tuple < wi_tuple (is ! ?i)"
      using i(1) by (auto simp: sorted_dbtuples_contains_def Let_def)
    moreover from this have "wi_tuple (is ! ?i) = tuple" using i(3) by force
    ultimately show "tuple \<in> wi_tuple ` set is" by (metis imageI nth_mem)
  next
    assume "tuple \<in> wi_tuple ` set is"
    then obtain k where k: "k < length is" "wi_tuple (is ! k) = tuple"
      by (auto simp: in_set_conv_nth)
    then have "?i \<le> k" using i(2) by (metis leI less_irrefl)
    moreover from this have "wi_tuple (is ! ?i) \<le> wi_tuple (is ! k)"
      using assms k(1) by (auto simp: sorted_iff_nth_mono)
    ultimately show "sorted_dbtuples_contains is tuple"
      using k by (auto simp: sorted_dbtuples_contains_def Let_def)
  qed
qed

text \<open>
  Property C30 (write entries). The vector a commit works on lists every entry of the write set exactly once,
  in ascending order of the tuples' addresses, the insert of a tuple first and its other writes in the order
  they were made; and the binary search on it finds exactly the tuples of the write set.
\<close>

theorem sorted_write_infos:
  "let is = sort_write_infos (collect_write_infos ws)
   in distinct is \<and> map wi_entry is = map wi_pos is \<and> set (map wi_pos is) = {..<length ws} \<and>
      sorted_wrt write_info_less is \<and>
      (\<forall>tuple. sorted_dbtuples_contains is tuple \<longleftrightarrow> (\<exists>w \<in> set ws. wr_tuple w = tuple))"
proof -
  define "is" where "is = sort_write_infos (collect_write_infos ws)"
  have d: "distinct (collect_write_infos ws)"
    by (auto simp: distinct_conv_nth collect_nth new_write_info_def)
  then have dis: "distinct is" by (simp add: is_def)
  have inj: "inj_on write_info_key (set is)"
    using inj_collect [of ws] by (auto simp: is_def inj_on_def write_info_key_def)
  have "write_info_less (is ! a) (is ! b)" if ab: "a < b" "b < length is" for a b
  proof -
    have "write_info_key (is ! a) \<le> write_info_key (is ! b)"
      using sorted_infos_keys [of "collect_write_infos ws"] ab by (auto simp: is_def sorted_iff_nth_mono)
    moreover have "is ! a \<noteq> is ! b" using dis ab by (simp add: nth_eq_iff_index_eq)
    then have "write_info_key (is ! a) \<noteq> write_info_key (is ! b)"
      using inj_onD [OF inj, of "is ! a" "is ! b"] ab by (auto simp del: not_None_eq)
    ultimately show ?thesis by (simp add: write_info_less_key)
  qed
  then have "sorted_wrt write_info_less is" by (simp add: sorted_wrt_iff_nth_less)
  moreover have "map wi_entry is = map wi_pos is" and "set (map wi_pos is) = {..<length ws}"
    by (auto simp: is_def set_collect new_write_info_def image_def)
  moreover have "sorted_dbtuples_contains is tuple \<longleftrightarrow> (\<exists>w \<in> set ws. wr_tuple w = tuple)" for tuple
  proof -
    have "sorted_dbtuples_contains is tuple \<longleftrightarrow> tuple \<in> wi_tuple ` set (collect_write_infos ws)"
      using sorted_contains_iff [OF sorted_infos_tuples] by (simp add: is_def)
    also have "\<dots> \<longleftrightarrow> (\<exists>k < length ws. wr_tuple (ws ! k) = tuple)"
      unfolding set_collect new_write_info_def by (auto intro!: image_eqI)
    also have "\<dots> \<longleftrightarrow> (\<exists>w \<in> set ws. wr_tuple w = tuple)" by (metis in_set_conv_nth)
    finally show ?thesis .
  qed
  ultimately show ?thesis unfolding Let_def is_def [symmetric] using dis by blast
qed

end
