(* ===== verification/Circbuf.thy ===== *)
theory Circbuf
  imports Silo_Prelude
begin

text \<open>
  The ring buffer between workers and loggers (\<^verbatim>\<open>src/src/circbuf.h\<close>): slots that hold a pointer or null,
  an index for enqueuers, an index for the dequeuer. First its operations run by one thread, against the
  contract of a bounded queue; then enqueuers and the dequeuer interleaved load by load.
\<close>

section \<open>Operations\<close>

record 'a circbuf =
  slots :: "'a option list"
  cb_head :: nat
  cb_tail :: nat

definition cb_new :: "nat \<Rightarrow> 'a circbuf" where
  "cb_new Capacity = \<lparr>slots = replicate Capacity None, cb_head = 0, cb_tail = 0\<rparr>"

definition cb_empty :: "'a circbuf \<Rightarrow> bool" where
  "cb_empty c \<longleftrightarrow> cb_head c = cb_tail c \<and> slots c ! cb_head c = None"

definition cb_next :: "'a circbuf \<Rightarrow> nat \<Rightarrow> nat" where
  "cb_next c i = (i + 1) mod length (slots c)"

text \<open>With nobody else running, a call that finds its slot occupied (empty) spins forever: \<open>None\<close>.\<close>

definition cb_enq :: "'a \<Rightarrow> 'a circbuf \<Rightarrow> 'a circbuf option" where
  "cb_enq p c =
     (let icur = cb_head c
      in if slots c ! icur \<noteq> None then None
         else Some (c\<lparr>cb_head := cb_next c icur, slots := (slots c)[icur := Some p]\<rparr>))"

definition cb_deq :: "'a circbuf \<Rightarrow> ('a \<times> 'a circbuf) option" where
  "cb_deq c =
     (case slots c ! cb_tail c of
        None \<Rightarrow> None
      | Some p \<Rightarrow> Some (p, c\<lparr>cb_tail := cb_next c (cb_tail c), slots := (slots c)[cb_tail c := None]\<rparr>))"

definition cb_peek :: "'a circbuf \<Rightarrow> 'a option" where
  "cb_peek c = slots c ! cb_tail c"

text \<open>The loop of \<^verbatim>\<open>peekall\<close>: \<open>room\<close> is what the limit still allows.\<close>

function peek_loop :: "'a circbuf \<Rightarrow> nat \<Rightarrow> nat \<Rightarrow> 'a list" where
  "peek_loop c i room =
     (case slots c ! i of
        None \<Rightarrow> []
      | Some p \<Rightarrow>
          if room = 0 then []
          else p # (if cb_next c i = cb_tail c then [] else peek_loop c (cb_next c i) (room - 1)))"
  by pat_completeness auto
termination by (relation "measure (\<lambda>(c, i, room). room)") auto

declare peek_loop.simps [simp del]

definition cb_peekall :: "'a circbuf \<Rightarrow> nat \<Rightarrow> 'a list" where
  "cb_peekall c limit = peek_loop c (cb_tail c) limit"

section \<open>The contract of a bounded queue\<close>

locale bounded_queue =
  fixes ok :: "'q \<Rightarrow> bool" and abs :: "'q \<Rightarrow> 'a list" and cap :: "'q \<Rightarrow> nat"
    and enq :: "'a \<Rightarrow> 'q \<Rightarrow> 'q option" and deq :: "'q \<Rightarrow> ('a \<times> 'q) option" and peek :: "'q \<Rightarrow> 'a option"
  assumes enq: "ok q \<Longrightarrow> length (abs q) < cap q \<Longrightarrow>
      \<exists>q'. enq p q = Some q' \<and> ok q' \<and> abs q' = abs q @ [p] \<and> cap q' = cap q"
    and enq_full: "ok q \<Longrightarrow> length (abs q) = cap q \<Longrightarrow> enq p q = None"
    and deq: "ok q \<Longrightarrow> abs q = p # ps \<Longrightarrow> \<exists>q'. deq q = Some (p, q') \<and> ok q' \<and> abs q' = ps \<and> cap q' = cap q"
    and deq_empty: "ok q \<Longrightarrow> abs q = [] \<Longrightarrow> deq q = None"
    and peek: "ok q \<Longrightarrow> peek q = (case abs q of [] \<Rightarrow> None | p # ps \<Rightarrow> Some p)"
    and within: "ok q \<Longrightarrow> length (abs q) \<le> cap q"
begin

fun enq_all :: "'a list \<Rightarrow> 'q \<Rightarrow> 'q option" where
  "enq_all [] q = Some q"
| "enq_all (p # ps) q = Option.bind (enq p q) (enq_all ps)"

fun deq_n :: "nat \<Rightarrow> 'q \<Rightarrow> ('a list \<times> 'q) option" where
  "deq_n 0 q = Some ([], q)"
| "deq_n (Suc n) q = Option.bind (deq q) (\<lambda>(p, q'). map_option (apfst ((#) p)) (deq_n n q'))"

lemma enq_all:
  "ok q \<Longrightarrow> length (abs q) + length ps \<le> cap q \<Longrightarrow>
     \<exists>q'. enq_all ps q = Some q' \<and> ok q' \<and> abs q' = abs q @ ps \<and> cap q' = cap q"
proof (induction ps arbitrary: q)
  case (Cons p ps)
  then obtain q1 where "enq p q = Some q1" "ok q1" "abs q1 = abs q @ [p]" "cap q1 = cap q"
    using enq [of q p] by auto
  then show ?case using Cons.IH [of q1] Cons.prems(2) by auto
qed simp

lemma deq_n:
  "ok q \<Longrightarrow> n \<le> length (abs q) \<Longrightarrow>
     \<exists>q'. deq_n n q = Some (take n (abs q), q') \<and> ok q' \<and> abs q' = drop n (abs q)"
proof (induction n arbitrary: q)
  case (Suc n)
  then obtain p ps where ps: "abs q = p # ps" by (cases "abs q") auto
  then obtain q1 where "deq q = Some (p, q1)" "ok q1" "abs q1 = ps" using deq [OF Suc.prems(1)] by blast
  then show ?case using Suc.IH [of q1] Suc.prems(2) ps by auto
qed simp

end

section \<open>The ring buffer implements it\<close>

definition ring_of :: "'a circbuf \<Rightarrow> 'a list \<Rightarrow> bool" where
  "ring_of c xs \<longleftrightarrow> slots c \<noteq> [] \<and> cb_tail c < length (slots c) \<and> length xs \<le> length (slots c) \<and>
     cb_head c = (cb_tail c + length xs) mod length (slots c) \<and>
     rotate (cb_tail c) (slots c) = map Some xs @ replicate (length (slots c) - length xs) None"

definition cb_abs :: "'a circbuf \<Rightarrow> 'a list" where
  "cb_abs c = map the (takeWhile (\<lambda>p. p \<noteq> None) (rotate (cb_tail c) (slots c)))"

definition cb_ok :: "'a circbuf \<Rightarrow> bool" where
  "cb_ok c \<longleftrightarrow> ring_of c (cb_abs c)"

lemma takeWhile_filled: "takeWhile (\<lambda>p. p \<noteq> None) (map Some xs @ replicate n None) = map Some xs"
  by (induction xs) (auto simp: takeWhile_replicate)

lemma ring_of_abs: "ring_of c xs \<Longrightarrow> cb_abs c = xs \<and> cb_ok c"
proof -
  assume r: "ring_of c xs"
  then have "cb_abs c = xs" unfolding cb_abs_def ring_of_def by (simp only: takeWhile_filled) (simp add: comp_def)
  then show ?thesis using r by (simp add: cb_ok_def)
qed

lemma slot_rotated: "ring_of c xs \<Longrightarrow> i < length (slots c) \<Longrightarrow>
    slots c ! ((cb_tail c + i) mod length (slots c)) = (if i < length xs then Some (xs ! i) else None)"
proof -
  assume r: "ring_of c xs" and i: "i < length (slots c)"
  have "rotate (cb_tail c) (slots c) ! i = slots c ! ((cb_tail c + i) mod length (slots c))"
    using i by (simp add: nth_rotate)
  moreover have "rotate (cb_tail c) (slots c) ! i = (if i < length xs then Some (xs ! i) else None)"
    using r i by (simp add: ring_of_def nth_append)
  ultimately show ?thesis by simp
qed

lemma rotate_update:
  assumes "i < length xs"
  shows "rotate t (xs[(t + i) mod length xs := v]) = (rotate t xs)[i := v]"
proof (rule nth_equalityI)
  fix j assume "j < length (rotate t (xs[(t + i) mod length xs := v]))"
  then have j: "j < length xs" by simp
  have "(t + i) mod length xs = (t + j) mod length xs \<longleftrightarrow> i = j"
    using assms j mod_window [of t "t + i" "length xs" "t + j"] by auto
  moreover have "(t + j) mod length xs < length xs" using j by (intro mod_less_divisor) linarith
  ultimately show "rotate t (xs[(t + i) mod length xs := v]) ! j = (rotate t xs)[i := v] ! j"
    using j assms by (cases "i = j") (auto simp: nth_rotate nth_list_update)
qed simp

lemma cb_enq_ring:
  assumes r: "ring_of c xs" and room: "length xs < length (slots c)"
  shows "\<exists>c'. cb_enq p c = Some c' \<and> ring_of c' (xs @ [p]) \<and> length (slots c') = length (slots c)"
proof -
  let ?n = "length (slots c)" and ?t = "cb_tail c"
  have h: "cb_head c = (?t + length xs) mod ?n" using r by (simp add: ring_of_def)
  have free: "slots c ! cb_head c = None" using slot_rotated [OF r room] by (simp add: h)
  let ?c = "c\<lparr>cb_head := cb_next c (cb_head c), slots := (slots c)[cb_head c := Some p]\<rparr>"
  have "rotate ?t (slots ?c) = (map Some xs @ replicate (?n - length xs) None)[length xs := Some p]"
    using rotate_update [OF room, of ?t "Some p"] r by (simp add: h ring_of_def)
  also have "\<dots> = map Some (xs @ [p]) @ replicate (?n - Suc (length xs)) None"
    using room by (simp add: list_update_append Suc_diff_Suc flip: replicate_Suc)
      (simp add: Suc_diff_Suc [symmetric])
  finally have "ring_of ?c (xs @ [p])"
    using r room by (simp add: ring_of_def h cb_next_def mod_Suc_eq)
  moreover have "cb_enq p c = Some ?c" using free by (simp add: cb_enq_def Let_def)
  ultimately show ?thesis by auto
qed

lemma cb_new_ok: "0 < n \<Longrightarrow> cb_ok (cb_new n :: 'a circbuf) \<and> cb_abs (cb_new n :: 'a circbuf) = []"
  using ring_of_abs [of "cb_new n :: 'a circbuf" "[]"] by (simp add: ring_of_def cb_new_def)

lemma cb_deq_ring:
  assumes r: "ring_of c (p # ps)"
  shows "\<exists>c'. cb_deq c = Some (p, c') \<and> ring_of c' ps \<and> length (slots c') = length (slots c)"
proof -
  let ?n = "length (slots c)" and ?t = "cb_tail c"
  have n: "0 < ?n" "?t < ?n" "Suc (length ps) \<le> ?n" using r by (auto simp: ring_of_def)
  have at: "slots c ! ?t = Some p" using slot_rotated [OF r n(1)] n(2) by simp
  let ?c = "c\<lparr>cb_tail := cb_next c ?t, slots := (slots c)[?t := None]\<rparr>"
  have "rotate ?t ((slots c)[?t := None]) = (rotate ?t (slots c))[0 := None]"
    using rotate_update [OF n(1), of ?t None] n(2) by simp
  also have "\<dots> = None # map Some ps @ replicate (?n - Suc (length ps)) None" using r by (simp add: ring_of_def)
  finally have "rotate (Suc ?t) ((slots c)[?t := None]) = map Some ps @ replicate (?n - length ps) None"
    using n(3) by (simp add: replicate_append_same flip: replicate_Suc)
  then have "rotate (cb_next c ?t) (slots ?c) = map Some ps @ replicate (?n - length ps) None"
    using rotate_conv_mod [of "Suc ?t" "(slots c)[?t := None]"] by (simp add: cb_next_def)
  moreover have "cb_head c = (cb_next c ?t + length ps) mod ?n"
    using r by (simp add: ring_of_def cb_next_def mod_add_left_eq)
  ultimately have "ring_of ?c ps" using n by (simp add: ring_of_def cb_next_def)
  then show ?thesis using at by (auto simp: cb_deq_def)
qed

interpretation cb: bounded_queue cb_ok cb_abs "\<lambda>c. length (slots c)" cb_enq cb_deq cb_peek
proof unfold_locales
  fix c :: "'a circbuf" and p ps
  assume ok: "cb_ok c"
  then have r: "ring_of c (cb_abs c)" by (simp add: cb_ok_def)
  have pos: "0 < length (slots c)" "cb_tail c < length (slots c)" using r by (auto simp: ring_of_def)
  show "length (cb_abs c) \<le> length (slots c)" using r by (simp add: ring_of_def)
  show "length (cb_abs c) < length (slots c) \<Longrightarrow> \<exists>c'. cb_enq p c = Some c' \<and> cb_ok c' \<and>
      cb_abs c' = cb_abs c @ [p] \<and> length (slots c') = length (slots c)"
    using cb_enq_ring [OF r] ring_of_abs by blast
  show "cb_abs c = p # ps \<Longrightarrow> \<exists>c'. cb_deq c = Some (p, c') \<and> cb_ok c' \<and> cb_abs c' = ps \<and>
      length (slots c') = length (slots c)"
    using cb_deq_ring [of c p ps] r ring_of_abs by metis
  have tail: "slots c ! cb_tail c = (case cb_abs c of [] \<Rightarrow> None | p # ps \<Rightarrow> Some p)"
    using slot_rotated [OF r pos(1)] pos(2) by (cases "cb_abs c") simp_all
  then show "cb_peek c = (case cb_abs c of [] \<Rightarrow> None | p # ps \<Rightarrow> Some p)" by (simp add: cb_peek_def)
  show "cb_abs c = [] \<Longrightarrow> cb_deq c = None" using tail by (simp add: cb_deq_def)
  assume full: "length (cb_abs c) = length (slots c)"
  then have "cb_head c = cb_tail c" using r pos(2) by (simp add: ring_of_def)
  moreover have "cb_abs c \<noteq> []" using full pos by auto
  ultimately show "cb_enq p c = None" using tail by (cases "cb_abs c") (simp_all add: cb_enq_def Let_def)
qed

lemma peek_loop_ring:
  assumes r: "ring_of c xs"
  shows "k \<le> length xs \<Longrightarrow> k < length (slots c) \<Longrightarrow>
    peek_loop c ((cb_tail c + k) mod length (slots c)) room = take room (drop k xs)"
proof (induction room arbitrary: k)
  case 0
  then show ?case by (subst peek_loop.simps) (simp split: option.split)
next
  case (Suc room)
  let ?n = "length (slots c)"
  have at: "slots c ! ((cb_tail c + k) mod ?n) = (if k < length xs then Some (xs ! k) else None)"
    by (rule slot_rotated [OF r Suc.prems(2)])
  have nxt: "cb_next c ((cb_tail c + k) mod ?n) = (cb_tail c + Suc k) mod ?n" by (simp add: cb_next_def mod_Suc_eq)
  have t: "cb_tail c < ?n" "length xs \<le> ?n" using r by (auto simp: ring_of_def)
  show ?case
  proof (cases "k < length xs")
    case True
    have d: "drop k xs = xs ! k # drop (Suc k) xs" using True by (simp add: Cons_nth_drop_Suc)
    show ?thesis
    proof (cases "Suc k = ?n")
      case full: True
      then have "(cb_tail c + Suc k) mod ?n = cb_tail c" using t by simp
      moreover have "drop (Suc k) xs = []" using full t by simp
      ultimately show ?thesis using at True nxt d by (subst peek_loop.simps) simp
    next
      case False
      then have lt: "Suc k < ?n" using Suc.prems by simp
      have "(cb_tail c + Suc k) mod ?n \<noteq> cb_tail c"
      proof
        assume "(cb_tail c + Suc k) mod ?n = cb_tail c"
        then have "(cb_tail c + Suc k) mod ?n = cb_tail c mod ?n" using t by simp
        then have "cb_tail c + Suc k = cb_tail c" by (rule mod_window [rotated 4, of _ _ _ "cb_tail c"]) (use lt in auto)
        then show False by simp
      qed
      then show ?thesis using at True nxt d Suc.IH [of "Suc k"] lt by (subst peek_loop.simps) simp
    qed
  next
    case False
    then show ?thesis using at Suc.prems by (subst peek_loop.simps) simp
  qed
qed

section \<open>Enqueuers and the dequeuer interleaved\<close>

text \<open>The program points between the loads and stores of \<^verbatim>\<open>enq\<close> and of \<^verbatim>\<open>deq\<close>.\<close>

datatype 'a enq_pc = Enq_idle | Enq_start 'a | Enq_loaded 'a nat | Enq_checked 'a nat | Enq_claimed 'a nat

datatype 'a deq_pc = Deq_idle | Deq_seen | Deq_loaded 'a | Deq_moved 'a nat

text \<open>\<open>claimed\<close> records the values in the order of the successful exchanges, \<open>dequeued\<close> the returned ones.\<close>

record 'a ring_state =
  ring :: "'a circbuf"
  enqs :: "nat \<Rightarrow> 'a enq_pc"
  deq_at :: "'a deq_pc"
  claimed :: "'a list"
  dequeued :: "'a list"

definition ring_init :: "nat \<Rightarrow> 'a ring_state" where
  "ring_init Capacity =
     \<lparr>ring = cb_new Capacity, enqs = (\<lambda>_. Enq_idle), deq_at = Deq_idle, claimed = [], dequeued = []\<rparr>"

definition at_enq :: "nat \<Rightarrow> 'a enq_pc \<Rightarrow> 'a ring_state \<Rightarrow> 'a ring_state" where
  "at_enq e pc s = s\<lparr>enqs := (enqs s)(e := pc)\<rparr>"

definition set_slot :: "nat \<Rightarrow> 'a option \<Rightarrow> 'a circbuf \<Rightarrow> 'a circbuf" where
  "set_slot i v c = c\<lparr>slots := (slots c)[i := v]\<rparr>"

inductive ring_step :: "nat set \<Rightarrow> 'a ring_state \<Rightarrow> 'a ring_state \<Rightarrow> bool" for T where
  enq_call: "e \<in> T \<Longrightarrow> enqs s e = Enq_idle \<Longrightarrow> ring_step T s (at_enq e (Enq_start p) s)"
| enq_load: "e \<in> T \<Longrightarrow> enqs s e = Enq_start p \<Longrightarrow>
    ring_step T s (at_enq e (Enq_loaded p (cb_head (ring s))) s)"
| enq_full: "e \<in> T \<Longrightarrow> enqs s e = Enq_loaded p i \<Longrightarrow> slots (ring s) ! i \<noteq> None \<Longrightarrow>
    ring_step T s (at_enq e (Enq_start p) s)"
| enq_free: "e \<in> T \<Longrightarrow> enqs s e = Enq_loaded p i \<Longrightarrow> slots (ring s) ! i = None \<Longrightarrow>
    ring_step T s (at_enq e (Enq_checked p i) s)"
| enq_lost: "e \<in> T \<Longrightarrow> enqs s e = Enq_checked p i \<Longrightarrow> cb_head (ring s) \<noteq> i \<Longrightarrow>
    ring_step T s (at_enq e (Enq_start p) s)"
| enq_claim: "e \<in> T \<Longrightarrow> enqs s e = Enq_checked p i \<Longrightarrow> cb_head (ring s) = i \<Longrightarrow>
    ring_step T s (at_enq e (Enq_claimed p i)
      (s\<lparr>ring := (ring s)\<lparr>cb_head := cb_next (ring s) i\<rparr>, claimed := claimed s @ [p]\<rparr>))"
| enq_store: "e \<in> T \<Longrightarrow> enqs s e = Enq_claimed p i \<Longrightarrow>
    ring_step T s (at_enq e Enq_idle (s\<lparr>ring := set_slot i (Some p) (ring s)\<rparr>))"
| deq_see: "deq_at s = Deq_idle \<Longrightarrow> slots (ring s) ! cb_tail (ring s) \<noteq> None \<Longrightarrow>
    ring_step T s (s\<lparr>deq_at := Deq_seen\<rparr>)"
| deq_load: "deq_at s = Deq_seen \<Longrightarrow> slots (ring s) ! cb_tail (ring s) = Some p \<Longrightarrow>
    ring_step T s (s\<lparr>deq_at := Deq_loaded p\<rparr>)"
| deq_move: "deq_at s = Deq_loaded p \<Longrightarrow>
    ring_step T s (s\<lparr>deq_at := Deq_moved p (cb_tail (ring s)),
      ring := (ring s)\<lparr>cb_tail := cb_next (ring s) (cb_tail (ring s))\<rparr>\<rparr>)"
| deq_clear: "deq_at s = Deq_moved p i \<Longrightarrow>
    ring_step T s (s\<lparr>deq_at := Deq_idle, ring := set_slot i None (ring s), dequeued := dequeued s @ [p]\<rparr>)"

text \<open>
  The invariant with one enqueuer \<open>e\<close>: of the claimed values the first \<open>c\<close> have been dequeued, those from
  \<open>c\<close> up to \<open>hi\<close> are in the slots, and the one at \<open>hi\<close>, if there is one, is about to be stored.
\<close>

definition window_ok :: "nat \<Rightarrow> nat \<Rightarrow> nat \<Rightarrow> 'a ring_state \<Rightarrow> bool" where
  "window_ok cap c hi s \<longleftrightarrow> 0 < cap \<and> length (slots (ring s)) = cap \<and> c \<le> hi \<and> hi \<le> length (claimed s) \<and>
     length (claimed s) \<le> c + cap \<and> cb_head (ring s) = length (claimed s) mod cap \<and>
     dequeued s = take c (claimed s) \<and>
     (\<forall>k. c \<le> k \<and> k < c + cap \<longrightarrow>
        slots (ring s) ! (k mod cap) = (if k < hi then Some (claimed s ! k) else None))"

definition enq_ok :: "nat \<Rightarrow> nat \<Rightarrow> nat \<Rightarrow> 'a ring_state \<Rightarrow> 'a enq_pc \<Rightarrow> bool" where
  "enq_ok cap c hi s pc \<longleftrightarrow>
     (case pc of
        Enq_idle \<Rightarrow> hi = length (claimed s)
      | Enq_start p \<Rightarrow> hi = length (claimed s)
      | Enq_loaded p i \<Rightarrow> hi = length (claimed s) \<and> i = cb_head (ring s)
      | Enq_checked p i \<Rightarrow> hi = length (claimed s) \<and> i = cb_head (ring s) \<and> hi < c + cap
      | Enq_claimed p i \<Rightarrow> length (claimed s) = Suc hi \<and> claimed s ! hi = p \<and> i = hi mod cap)"

definition deq_ok :: "nat \<Rightarrow> nat \<Rightarrow> nat \<Rightarrow> 'a ring_state \<Rightarrow> bool" where
  "deq_ok cap c hi s \<longleftrightarrow>
     (case deq_at s of
        Deq_idle \<Rightarrow> cb_tail (ring s) = c mod cap
      | Deq_seen \<Rightarrow> cb_tail (ring s) = c mod cap \<and> c < hi
      | Deq_loaded p \<Rightarrow> cb_tail (ring s) = c mod cap \<and> c < hi \<and> p = claimed s ! c
      | Deq_moved p i \<Rightarrow> cb_tail (ring s) = Suc c mod cap \<and> i = c mod cap \<and> c < hi \<and> p = claimed s ! c)"

definition ring_inv :: "nat \<Rightarrow> nat \<Rightarrow> nat \<Rightarrow> nat \<Rightarrow> 'a ring_state \<Rightarrow> bool" where
  "ring_inv e cap c hi s \<longleftrightarrow> window_ok cap c hi s \<and> enq_ok cap c hi s (enqs s e) \<and> deq_ok cap c hi s"

lemmas ring_inv_defs = ring_inv_def window_ok_def enq_ok_def deq_ok_def

lemma ring_parts [simp]:
  "window_ok cap c hi (at_enq e pc s) = window_ok cap c hi s"
  "deq_ok cap c hi (at_enq e pc s) = deq_ok cap c hi s"
  "enq_ok cap c hi (at_enq e pc s) pc' = enq_ok cap c hi s pc'"
  "enqs (at_enq e pc s) e = pc" "ring (at_enq e pc s) = ring s" "claimed (at_enq e pc s) = claimed s"
  "window_ok cap c hi (s\<lparr>deq_at := d\<rparr>) = window_ok cap c hi s"
  "enq_ok cap c hi (s\<lparr>deq_at := d\<rparr>) pc' = enq_ok cap c hi s pc'"
  by (simp_all add: at_enq_def window_ok_def deq_ok_def enq_ok_def cong: deq_pc.case_cong enq_pc.case_cong)

lemma ring_inv_init: "0 < cap \<Longrightarrow> ring_inv e cap 0 0 (ring_init cap)"
  by (simp add: ring_inv_defs ring_init_def cb_new_def)

lemma window_slot:
  "window_ok cap c hi s \<Longrightarrow> c \<le> k \<Longrightarrow> k < c + cap \<Longrightarrow>
     slots (ring s) ! (k mod cap) = (if k < hi then Some (claimed s ! k) else None)"
  by (simp add: window_ok_def)

lemma window_store:
  assumes w: "window_ok cap c hi s" and p: "length (claimed s) = Suc hi" "claimed s ! hi = p"
  shows "window_ok cap c (Suc hi) (at_enq e pc (s\<lparr>ring := set_slot (hi mod cap) (Some p) (ring s)\<rparr>))"
proof -
  have hi: "c \<le> hi" "hi < c + cap" "0 < cap" "length (slots (ring s)) = cap" using w p by (auto simp: window_ok_def)
  have "(slots (ring s))[hi mod cap := Some p] ! (k mod cap) = (if k < Suc hi then Some (claimed s ! k) else None)"
    if k: "c \<le> k" "k < c + cap" for k
    using window_slot [OF w k] mod_window [OF k hi(1,2)] hi p
    by (cases "k = hi") (auto simp: nth_list_update)
  then show ?thesis using w p by (simp add: window_ok_def at_enq_def set_slot_def)
qed

lemma window_clear:
  assumes w: "window_ok cap c hi s" and lt: "c < hi"
  shows "window_ok cap (Suc c) hi (s\<lparr>deq_at := d, ring := set_slot (c mod cap) None (ring s),
    dequeued := dequeued s @ [claimed s ! c]\<rparr>)"
proof -
  have c: "0 < cap" "length (slots (ring s)) = cap" "hi \<le> length (claimed s)" "length (claimed s) \<le> c + cap"
    using w by (auto simp: window_ok_def)
  have "(slots (ring s))[c mod cap := None] ! (k mod cap) = (if k < hi then Some (claimed s ! k) else None)"
    if k: "Suc c \<le> k" "k < Suc c + cap" for k
  proof (cases "k = c + cap")
    case True
    then show ?thesis using c by simp
  next
    case False
    then have k': "c \<le> k" "k < c + cap" using k by auto
    then show ?thesis using window_slot [OF w k'] mod_window [OF k', of c] k c
      by (auto simp: nth_list_update)
  qed
  moreover have "take (Suc c) (claimed s) = take c (claimed s) @ [claimed s ! c]"
    using lt c by (simp add: take_Suc_conv_app_nth)
  ultimately show ?thesis using w lt by (simp add: window_ok_def set_slot_def)
qed

lemma ring_step_inv:
  assumes "ring_step {e} s s'" and inv: "ring_inv e cap c hi s"
  shows "\<exists>c' hi'. ring_inv e cap c' hi' s'"
proof -
  have w: "window_ok cap c hi s" and en: "enq_ok cap c hi s (enqs s e)" and de: "deq_ok cap c hi s"
    using inv by (simp_all add: ring_inv_def)
  have cap: "0 < cap" using w by (simp add: window_ok_def)
  show ?thesis using assms(1)
  proof (cases rule: ring_step.cases)
    case (enq_free d p i)
    have "hi < c + cap"
    proof (rule ccontr)
      assume "\<not> hi < c + cap"
      then have "hi = c + cap" "hi = length (claimed s)" using w en enq_free by (auto simp: window_ok_def enq_ok_def)
      then have "slots (ring s) ! i = Some (claimed s ! c)"
        using window_slot [OF w, of c] w en enq_free cap by (auto simp: window_ok_def enq_ok_def)
      then show False using enq_free by simp
    qed
    then have "ring_inv e cap c hi s'" using inv enq_free by (auto simp: ring_inv_def enq_ok_def)
    then show ?thesis by blast
  next
    case (enq_claim d p i)
    have "\<forall>k. c \<le> k \<and> k < c + cap \<longrightarrow> slots (ring s) ! (k mod cap) = (if k < hi then Some ((claimed s @ [p]) ! k) else None)"
      using w by (auto simp: window_ok_def nth_append)
    then have "ring_inv e cap c hi s'" using inv enq_claim
      by (auto simp: ring_inv_defs at_enq_def cb_next_def mod_Suc_eq nth_append split: deq_pc.splits)
    then show ?thesis by blast
  next
    case (enq_store d p i)
    then have p: "length (claimed s) = Suc hi" "claimed s ! hi = p" "i = hi mod cap" using en by (auto simp: enq_ok_def)
    have "ring_inv e cap c (Suc hi) s'"
      unfolding ring_inv_def using enq_store p window_store [OF w p(1,2), of e Enq_idle] de
      by (auto simp: enq_ok_def deq_ok_def at_enq_def set_slot_def split: deq_pc.splits)
    then show ?thesis by blast
  next
    case deq_see
    then have "c < hi" using window_slot [OF w, of c] de cap by (auto simp: deq_ok_def split: if_splits)
    then have "ring_inv e cap c hi s'" using inv deq_see by (auto simp: ring_inv_def deq_ok_def)
    then show ?thesis by blast
  next
    case (deq_load p)
    then have "p = claimed s ! c" using window_slot [OF w, of c] de cap by (auto simp: deq_ok_def split: if_splits)
    then have "ring_inv e cap c hi s'" using inv deq_load by (auto simp: ring_inv_def deq_ok_def)
    then show ?thesis by blast
  next
    case (deq_clear p i)
    then have lt: "c < hi" "i = c mod cap" "p = claimed s ! c" "cb_tail (ring s) = Suc c mod cap"
      using de by (auto simp: deq_ok_def)
    have "ring_inv e cap (Suc c) hi s'"
      unfolding ring_inv_def using deq_clear lt window_clear [OF w lt(1), of Deq_idle] en
      by (auto simp: enq_ok_def deq_ok_def set_slot_def split: enq_pc.splits)
    then show ?thesis by blast
  next
    case (deq_move p)
    then have "ring_inv e cap c hi s'" using inv
      by (auto simp: ring_inv_defs cb_next_def mod_Suc_eq split: enq_pc.splits)
    then show ?thesis by blast
  qed (use inv in \<open>fastforce simp: ring_inv_def enq_ok_def\<close>)+
qed

lemma reachable_inv:
  assumes "(ring_step {e})\<^sup>*\<^sup>* (ring_init cap) s" and "0 < cap"
  shows "\<exists>c hi. ring_inv e cap c hi s"
  using assms(1)
proof (induction rule: rtranclp_induct)
  case base
  then show ?case using ring_inv_init [OF assms(2)] by blast
next
  case (step s s')
  then show ?case using ring_step_inv by blast
qed

section \<open>Properties\<close>

text \<open>
  The ring is a queue. Whatever elements a well-formed ring buffer holds: enqueueing puts an
  element behind them as long as there is a free slot and otherwise does not return; dequeueing takes the
  first and otherwise does not return; \<^verbatim>\<open>peek\<close> shows the first; \<^verbatim>\<open>peekall\<close> lists the first \<open>limit\<close> of them and
  ends; \<^verbatim>\<open>empty\<close> says whether there are none.
\<close>

theorem circbuf_is_queue:
  assumes "cb_ok c"
  shows "(if length (cb_abs c) < length (slots c)
          then \<exists>c'. cb_enq p c = Some c' \<and> cb_ok c' \<and> cb_abs c' = cb_abs c @ [p] else cb_enq p c = None) \<and>
    (case cb_abs c of
       [] \<Rightarrow> cb_deq c = None \<and> cb_peek c = None
     | q # qs \<Rightarrow> cb_peek c = Some q \<and> (\<exists>c'. cb_deq c = Some (q, c') \<and> cb_ok c' \<and> cb_abs c' = qs)) \<and>
    cb_peekall c limit = take limit (cb_abs c) \<and> cb_empty c = (cb_abs c = [])"
proof -
  have r: "ring_of c (cb_abs c)" using assms by (simp add: cb_ok_def)
  then have n: "0 < length (slots c)" "cb_tail c < length (slots c)" "length (cb_abs c) \<le> length (slots c)"
    by (auto simp: ring_of_def)
  have all: "cb_peekall c limit = take limit (cb_abs c)"
    using peek_loop_ring [OF r, of 0 limit] n by (simp add: cb_peekall_def)
  have "cb_empty c = (cb_abs c = [])"
  proof (cases "cb_abs c = []")
    case True
    then have "cb_head c = cb_tail c" using r n(2) by (simp add: ring_of_def)
    moreover have "slots c ! cb_tail c = None" using slot_rotated [OF r n(1)] True n(2) by simp
    ultimately show ?thesis using True by (simp add: cb_empty_def)
  next
    case False
    then have "slots c ! cb_tail c \<noteq> None" using slot_rotated [OF r n(1)] n(2) by simp
    then show ?thesis using False by (auto simp: cb_empty_def)
  qed
  moreover have "length (cb_abs c) < length (slots c) \<or> length (cb_abs c) = length (slots c)" using n(3) by auto
  ultimately show ?thesis
    using all cb.enq [OF assms] cb.enq_full [OF assms] cb.deq [OF assms] cb.deq_empty [OF assms] cb.peek [OF assms]
    by (cases "cb_abs c") auto
qed

theorem circbuf_is_queue_witness:
  "\<exists>c'. cb_enq 7 \<lparr>slots = [None, Some (5 :: nat)], cb_head = 0, cb_tail = 1\<rparr> = Some c' \<and> cb_abs c' = [5, 7] \<and>
    cb_peekall \<lparr>slots = [None, Some (5 :: nat)], cb_head = 0, cb_tail = 1\<rparr> 4 = [5]"
proof -
  let ?c = "\<lparr>slots = [None, Some 5], cb_head = 0, cb_tail = 1\<rparr> :: nat circbuf"
  have r: "ring_of ?c [5]" by (simp add: ring_of_def rotate_def)
  then have "cb_ok ?c" "cb_abs ?c = [5]" using ring_of_abs [OF r] by simp_all
  then show ?thesis using circbuf_is_queue [of ?c 7 4] by simp blast
qed

text \<open>
  Property C25 (one producer, one consumer). With a single enqueuer running concurrently with the dequeuer,
  in every interleaving of their loads and stores the values returned by \<^verbatim>\<open>deq\<close> are the values enqueued,
  in order, none lost and none repeated; those still on their way fit into the ring.
\<close>

theorem circbuf_fifo:
  assumes "(ring_step {e})\<^sup>*\<^sup>* (ring_init Capacity) s" and "0 < Capacity"
  shows "\<exists>pending. claimed s = dequeued s @ pending \<and> length pending \<le> Capacity"
proof -
  obtain c hi where "ring_inv e Capacity c hi s" using reachable_inv [OF assms] by blast
  then have "dequeued s = take c (claimed s)" "length (claimed s) \<le> c + Capacity"
    by (simp_all add: ring_inv_def window_ok_def)
  then show ?thesis by (intro exI [of _ "drop c (claimed s)"]) auto
qed

theorem circbuf_fifo_witness:
  "\<exists>s pending. (ring_step {0})\<^sup>*\<^sup>* (ring_init 2) s \<and> claimed s = dequeued s @ pending \<and> length pending \<le> 2 \<and>
    claimed s = [7 :: nat]"
proof -
  let ?s1 = "at_enq 0 (Enq_start (7 :: nat)) (ring_init 2)"
  let ?s2 = "at_enq 0 (Enq_loaded 7 (cb_head (ring ?s1))) ?s1"
  let ?s3 = "at_enq 0 (Enq_checked 7 (cb_head (ring ?s1))) ?s2"
  let ?s4 = "at_enq 0 (Enq_claimed 7 (cb_head (ring ?s1)))
    (?s3\<lparr>ring := (ring ?s3)\<lparr>cb_head := cb_next (ring ?s3) (cb_head (ring ?s1))\<rparr>, claimed := claimed ?s3 @ [7]\<rparr>)"
  have 1: "ring_step {0} (ring_init 2) ?s1" by (rule ring_step.enq_call) (simp_all add: ring_init_def)
  have 2: "ring_step {0} ?s1 ?s2" by (rule ring_step.enq_load) simp_all
  have 3: "ring_step {0} ?s2 ?s3" by (rule ring_step.enq_free) (simp_all add: ring_init_def cb_new_def)
  have 4: "ring_step {0} ?s3 ?s4" by (rule ring_step.enq_claim) simp_all
  have r: "(ring_step {0})\<^sup>*\<^sup>* (ring_init 2) ?s4"
    using 1 2 3 4 by (meson converse_rtranclp_into_rtranclp r_into_rtranclp)
  have c: "claimed ?s4 = [7]" by (simp add: ring_init_def)
  obtain pending where "claimed ?s4 = dequeued ?s4 @ pending" "length pending \<le> 2"
    using circbuf_fifo [OF r] by auto
  then show ?thesis using r c by blast
qed

text \<open>Whole calls, when no other thread moves in between.\<close>

lemma at_enq_twice:
  "at_enq e x (at_enq e y s) = at_enq e x s"
  "(at_enq e y s)\<lparr>claimed := xs\<rparr> = at_enq e y (s\<lparr>claimed := xs\<rparr>)"
  "(at_enq e y s)\<lparr>ring := r\<rparr> = at_enq e y (s\<lparr>ring := r\<rparr>)"
  by (simp_all add: at_enq_def)

lemma enq_until_store:
  assumes "e \<in> T" and "enqs s e = Enq_idle" and "slots (ring s) ! cb_head (ring s) = None"
  shows "(ring_step T)\<^sup>*\<^sup>* s (at_enq e (Enq_claimed p (cb_head (ring s)))
    (s\<lparr>ring := (ring s)\<lparr>cb_head := cb_next (ring s) (cb_head (ring s))\<rparr>, claimed := claimed s @ [p]\<rparr>))"
proof -
  let ?i = "cb_head (ring s)"
  have 1: "ring_step T s (at_enq e (Enq_start p) s)" using assms by (intro ring_step.enq_call) simp_all
  have 2: "ring_step T (at_enq e (Enq_start p) s) (at_enq e (Enq_loaded p ?i) s)"
    using ring_step.enq_load [OF assms(1), of "at_enq e (Enq_start p) s" p] by (simp add: at_enq_twice)
  have 3: "ring_step T (at_enq e (Enq_loaded p ?i) s) (at_enq e (Enq_checked p ?i) s)"
    using ring_step.enq_free [OF assms(1), of "at_enq e (Enq_loaded p ?i) s" p ?i] assms(3) by (simp add: at_enq_twice)
  have 4: "ring_step T (at_enq e (Enq_checked p ?i) s) (at_enq e (Enq_claimed p ?i)
    (s\<lparr>ring := (ring s)\<lparr>cb_head := cb_next (ring s) ?i\<rparr>, claimed := claimed s @ [p]\<rparr>))"
    using ring_step.enq_claim [OF assms(1), of "at_enq e (Enq_checked p ?i) s" p ?i] by (simp add: at_enq_twice)
  show ?thesis using 1 2 3 4 by (meson converse_rtranclp_into_rtranclp r_into_rtranclp)
qed

lemma enq_whole:
  assumes "e \<in> T" and "enqs s e = Enq_idle" and "slots (ring s) ! cb_head (ring s) = None"
  shows "(ring_step T)\<^sup>*\<^sup>* s (at_enq e Enq_idle
    (s\<lparr>claimed := claimed s @ [p],
       ring := set_slot (cb_head (ring s)) (Some p) ((ring s)\<lparr>cb_head := cb_next (ring s) (cb_head (ring s))\<rparr>)\<rparr>))"
  by (rule rtranclp.rtrancl_into_rtrancl [OF enq_until_store [OF assms, of p]])
    (use ring_step.enq_store [OF assms(1), of "at_enq e (Enq_claimed p (cb_head (ring s)))
      (s\<lparr>ring := (ring s)\<lparr>cb_head := cb_next (ring s) (cb_head (ring s))\<rparr>, claimed := claimed s @ [p]\<rparr>)"] in
      \<open>simp add: at_enq_twice\<close>)

lemma deq_whole:
  assumes "deq_at s = Deq_idle" and p: "slots (ring s) ! cb_tail (ring s) = Some p"
  shows "(ring_step T)\<^sup>*\<^sup>* s (s\<lparr>ring := set_slot (cb_tail (ring s)) None ((ring s)\<lparr>cb_tail := cb_next (ring s) (cb_tail (ring s))\<rparr>),
       dequeued := dequeued s @ [p]\<rparr>)"
proof -
  let ?i = "cb_tail (ring s)"
  let ?r = "(ring s)\<lparr>cb_tail := cb_next (ring s) ?i\<rparr>"
  have 1: "ring_step T s (s\<lparr>deq_at := Deq_seen\<rparr>)" using assms by (intro ring_step.deq_see) simp_all
  have 2: "ring_step T (s\<lparr>deq_at := Deq_seen\<rparr>) (s\<lparr>deq_at := Deq_loaded p\<rparr>)"
    using ring_step.deq_load [of "s\<lparr>deq_at := Deq_seen\<rparr>" p] p by simp
  have 3: "ring_step T (s\<lparr>deq_at := Deq_loaded p\<rparr>) (s\<lparr>deq_at := Deq_moved p ?i, ring := ?r\<rparr>)"
    using ring_step.deq_move [of "s\<lparr>deq_at := Deq_loaded p\<rparr>" p] by simp
  have 4: "ring_step T (s\<lparr>deq_at := Deq_moved p ?i, ring := ?r\<rparr>)
    (s\<lparr>deq_at := Deq_idle, ring := set_slot ?i None ?r, dequeued := dequeued s @ [p]\<rparr>)"
    using ring_step.deq_clear [of "s\<lparr>deq_at := Deq_moved p ?i, ring := ?r\<rparr>" p ?i] by simp
  have "s\<lparr>deq_at := Deq_idle, ring := set_slot ?i None ?r, dequeued := dequeued s @ [p]\<rparr> =
      s\<lparr>ring := set_slot ?i None ?r, dequeued := dequeued s @ [p]\<rparr>" using assms(1) by simp
  note 4 = 4 [unfolded this]
  show ?thesis using 1 2 3 4 by (meson converse_rtranclp_into_rtranclp r_into_rtranclp)
qed

text \<open>
  Two producers. The comment of the class allows many concurrent enqueuers. Yet with two of
  them there is a run, without any dequeuer being involved, in which one enqueuer claims a slot and stalls
  before its store while the other fills the rest of the ring and then claims the same slot again, which
  still looks empty: one of the two values is lost although both calls return. Here three values are
  enqueued into a ring of two slots, two are dequeued, and no slot holds the third; head and tail have
  fallen apart, so that \<^verbatim>\<open>empty()\<close> is false.
\<close>

theorem circbuf_two_enqueuers_lose:
  "\<exists>s. (ring_step {0, 1})\<^sup>*\<^sup>* (ring_init 2) s \<and> claimed s = [1, 2, 3 :: nat] \<and> dequeued s = [1, 2] \<and>
    (\<forall>e. enqs s e = Enq_idle) \<and> slots (ring s) = [None, None] \<and> \<not> cb_empty (ring s)"
proof -
  let ?st = "\<lambda>sl h t en cl de. \<lparr>ring = \<lparr>slots = sl, cb_head = h, cb_tail = t\<rparr>, enqs = en, deq_at = Deq_idle,
    claimed = cl, dequeued = de\<rparr> :: nat ring_state"
  let ?id = "\<lambda>_ :: nat. Enq_idle :: nat enq_pc"
  let ?a = "?id(0 := Enq_claimed 1 0)"
  note defs = cb_next_def set_slot_def at_enq_def numeral_eq_Suc
  have 0: "ring_init 2 = ?st [None, None] 0 0 ?id [] []" by (simp add: ring_init_def cb_new_def numeral_eq_Suc)
  have 1: "(ring_step {0, 1})\<^sup>*\<^sup>* (ring_init 2) (?st [None, None] 1 0 ?a [1] [])"
    unfolding 0 using enq_until_store [of 0 "{0, 1}" "?st [None, None] 0 0 ?id [] []" 1] by (simp add: defs)
  have 2: "(ring_step {0, 1})\<^sup>*\<^sup>* (?st [None, None] 1 0 ?a [1] []) (?st [None, Some 2] 0 0 ?a [1, 2] [])"
    using enq_whole [of 1 "{0, 1}" "?st [None, None] 1 0 ?a [1] []" 2] by (simp add: defs fun_upd_idem)
  have 3: "(ring_step {0, 1})\<^sup>*\<^sup>* (?st [None, Some 2] 0 0 ?a [1, 2] []) (?st [Some 3, Some 2] 1 0 ?a [1, 2, 3] [])"
    using enq_whole [of 1 "{0, 1}" "?st [None, Some 2] 0 0 ?a [1, 2] []" 3] by (simp add: defs fun_upd_idem)
  have 4: "(ring_step {0, 1})\<^sup>*\<^sup>* (?st [Some 3, Some 2] 1 0 ?a [1, 2, 3] []) (?st [Some 1, Some 2] 1 0 ?id [1, 2, 3] [])"
    using ring_step.enq_store [of 0 "{0, 1}" "?st [Some 3, Some 2] 1 0 ?a [1, 2, 3] []" 1 0]
    by (intro r_into_rtranclp) (simp add: defs fun_upd_idem)
  have 5: "(ring_step {0, 1})\<^sup>*\<^sup>* (?st [Some 1, Some 2] 1 0 ?id [1, 2, 3] []) (?st [None, Some 2] 1 1 ?id [1, 2, 3] [1])"
    using deq_whole [of "?st [Some 1, Some 2] 1 0 ?id [1, 2, 3] []" 1 "{0, 1}"] by (simp add: defs)
  have 6: "(ring_step {0, 1})\<^sup>*\<^sup>* (?st [None, Some 2] 1 1 ?id [1, 2, 3] [1]) (?st [None, None] 1 0 ?id [1, 2, 3] [1, 2])"
    using deq_whole [of "?st [None, Some 2] 1 1 ?id [1, 2, 3] [1]" 2 "{0, 1}"] by (simp add: defs)
  have "(ring_step {0, 1})\<^sup>*\<^sup>* (ring_init 2) (?st [None, None] 1 0 ?id [1, 2, 3] [1, 2])"
    using 1 2 3 4 5 6 by (meson rtranclp_trans)
  then show ?thesis
    by (intro exI [of _ "?st [None, None] 1 0 ?id [1, 2, 3] [1, 2]"]) (simp add: cb_empty_def)
qed

end
