(* ===== verification/Log_Buffer.thy ===== *)
theory Log_Buffer
  imports Txn_State Serializer Circbuf
begin

text \<open>
  The log of a worker (\<^verbatim>\<open>txn_logger\<close> in \<^verbatim>\<open>src/src/txn_proto2_impl.h\<close> and \<^verbatim>\<open>txn_proto2_impl.cc\<close>): buffers
  that a core fills with the entries of its committed transactions and exchanges with a logger through two
  circular queues. The compression library is a parameter.
\<close>

section \<open>Buffers\<close>

definition sizeof_logbuf_header :: nat where
  "sizeof_logbuf_header = 16"

record pbuffer =
  earliest_start_us :: u64
  io_scheduled :: bool
  curoff :: nat
  pcore_id :: nat
  buf_sz :: nat
  buf_start :: bytes

definition pbuffer_reset :: "pbuffer \<Rightarrow> pbuffer" where
  "pbuffer_reset px =
     px\<lparr>earliest_start_us := 0, io_scheduled := False, curoff := sizeof_logbuf_header,
        buf_start := replicate (buf_sz px) 0\<rparr>"

definition pbuffer_new :: "nat \<Rightarrow> nat \<Rightarrow> pbuffer" where
  "pbuffer_new core_id sz =
     pbuffer_reset \<lparr>earliest_start_us = 0, io_scheduled = False, curoff = 0, pcore_id = core_id,
       buf_sz = sz, buf_start = []\<rparr>"

definition datasize :: "pbuffer \<Rightarrow> nat" where
  "datasize px = curoff px - sizeof_logbuf_header"

definition log_data :: "pbuffer \<Rightarrow> bytes" where
  "log_data px = take (datasize px) (drop sizeof_logbuf_header (buf_start px))"

definition space_remaining :: "pbuffer \<Rightarrow> nat" where
  "space_remaining px = buf_sz px - curoff px"

text \<open>The header is the first 16 bytes: two little-endian words.\<close>

definition nentries :: "pbuffer \<Rightarrow> u64" where
  "nentries px = le_word (take 8 (buf_start px))"

definition last_tid :: "pbuffer \<Rightarrow> u64" where
  "last_tid px = le_word (take 8 (drop 8 (buf_start px)))"

definition set_header :: "u64 \<Rightarrow> u64 \<Rightarrow> pbuffer \<Rightarrow> pbuffer" where
  "set_header n t px = px\<lparr>buf_start := le_bytes n @ le_bytes t @ drop 16 (buf_start px)\<rparr>"

definition can_hold_tid :: "pbuffer \<Rightarrow> u64 \<Rightarrow> bool" where
  "can_hold_tid px tid \<longleftrightarrow> nentries px = 0 \<or> EpochId (last_tid px) = EpochId tid"

section \<open>The entry of a transaction\<close>

definition key_nbytes :: "'v write_record \<Rightarrow> u32" where
  "key_nbytes rec = of_nat (length (wr_key rec))"

definition value_nbytes :: "'v write_record \<Rightarrow> u32" where
  "value_nbytes rec =
     (case wr_value rec of None \<Rightarrow> 0 | Some u \<Rightarrow> of_nat (w_delta_needed (wr_writer rec) u))"

definition record_space :: "'v write_record \<Rightarrow> nat" where
  "record_space rec =
     size_uvint32 (key_nbytes rec) + unat (key_nbytes rec) +
     size_uvint32 (value_nbytes rec) + unat (value_nbytes rec)"

definition log_space_needed :: "'v write_record list \<Rightarrow> nat" where
  "log_space_needed ws = 8 + size_uvint32 (of_nat (length ws)) + sum_list (map record_space ws)"

text \<open>Storing bytes at a pointer into the buffer; the pointer moves behind them.\<close>

definition put_bytes :: "bytes \<Rightarrow> nat \<times> bytes \<Rightarrow> mem_error + (nat \<times> bytes)" where
  "put_bytes bs = (\<lambda>(p, buf).
     if length buf < p + length bs then Inl Past_end
     else Inr (p + length bs, write_at p bs buf))"

definition put_delta :: "'v write_record \<Rightarrow> u32 \<Rightarrow> nat \<times> bytes \<Rightarrow> mem_error + (nat \<times> bytes)" where
  "put_delta rec v_nbytes = (\<lambda>(p, buf).
     if v_nbytes = 0 then Inr (p, buf)
     else case wr_value rec of
            None \<Rightarrow> Inl Past_end
          | Some u \<Rightarrow>
              if length buf < p + unat v_nbytes then Inl Past_end
              else sbind (w_delta_write (wr_writer rec) u (drop p buf) (unat v_nbytes)) (\<lambda>bs.
                     Inr (p + unat v_nbytes, take p buf @ bs)))"

fun put_records :: "'v write_record list \<Rightarrow> u32 list \<Rightarrow> nat \<times> bytes \<Rightarrow> mem_error + (nat \<times> bytes)" where
  "put_records (rec # rs) (v # vs) pb =
     sbind (put_bytes (write_uvint32 (key_nbytes rec)) pb) (\<lambda>pb1.
     sbind (put_bytes (take (unat (key_nbytes rec)) (wr_key rec)) pb1) (\<lambda>pb2.
     sbind (put_bytes (write_uvint32 v) pb2) (\<lambda>pb3.
     sbind (put_delta rec v pb3) (\<lambda>pb4. put_records rs vs pb4))))"
| "put_records _ _ pb = Inr pb"

definition write_current_txn_into_buffer ::
  "u64 \<Rightarrow> pbuffer \<Rightarrow> u64 \<Rightarrow> 'v write_record list \<Rightarrow> u32 list \<Rightarrow> mem_error + (nat \<times> pbuffer)" where
  "write_current_txn_into_buffer start_us px commit_tid ws value_sizes =
     (let px0 = (if nentries px = 0 then px\<lparr>earliest_start_us := start_us\<rparr> else px);
          porig = curoff px
      in sbind (put_bytes (le_bytes commit_tid) (porig, buf_start px0)) (\<lambda>pb1.
         sbind (put_bytes (write_uvint32 (of_nat (length ws))) pb1) (\<lambda>pb2.
         sbind (put_records ws value_sizes pb2) (\<lambda>(p, buf).
           Inr (p - porig,
                set_header (nentries px + 1) commit_tid (px0\<lparr>buf_start := buf, curoff := p\<rparr>))))))"

section \<open>The context of a core\<close>

definition g_perthread_buffers :: nat where
  "g_perthread_buffers = 256"

definition g_buffer_size :: nat where
  "g_buffer_size = 2 ^ 20"

definition g_horizon_buffer_size :: nat where
  "g_horizon_buffer_size = 2 * 2 ^ 16"

text \<open>The queues hold pointers; \<open>pbufs\<close> is the memory they point into.\<close>

record persist_ctx =
  p_init :: bool
  horizon :: pbuffer
  all_buffers :: "nat circbuf"
  persist_buffers :: "nat circbuf"
  pbufs :: "nat \<Rightarrow> pbuffer"

record log_state =
  g_persist :: bool
  g_use_compression :: bool
  pctx :: persist_ctx
  ntxns_pushed :: u64
  ntxns_committed :: u64

text \<open>The memory a first use sets up, by the number of buffers and their sizes.\<close>

fun enq_buffers :: "nat list \<Rightarrow> nat circbuf \<Rightarrow> nat circbuf option" where
  "enq_buffers [] c = Some c"
| "enq_buffers (i # is) c = Option.bind (cb_enq i c) (enq_buffers is)"

definition persist_ctx_for :: "nat \<Rightarrow> bool \<Rightarrow> log_state \<Rightarrow> fault + log_state" where
  "persist_ctx_for core init L =
     (if p_init (pctx L) \<or> \<not> init then Inr L
      else let c = pctx L;
               c1 = (if g_use_compression L then c\<lparr>horizon := pbuffer_new core g_horizon_buffer_size\<rparr> else c)
           in sbind (or_spin (enq_buffers [0..<g_perthread_buffers] (all_buffers c1))) (\<lambda>q.
                Inr (L\<lparr>pctx := c1\<lparr>all_buffers := q, pbufs := (\<lambda>_. pbuffer_new core g_buffer_size),
                       p_init := True\<rparr>\<rparr>)))"

definition set_pbuf :: "nat \<Rightarrow> pbuffer \<Rightarrow> persist_ctx \<Rightarrow> persist_ctx" where
  "set_pbuf i px c = c\<lparr>pbufs := (pbufs c)(i := px)\<rparr>"

definition wait_for_head :: "persist_ctx \<Rightarrow> fault + nat" where
  "wait_for_head c = or_spin (cb_peek (all_buffers c))"

text \<open>The head of the pull queue goes to the logger.\<close>

definition push_head :: "persist_ctx \<Rightarrow> fault + (nat \<times> persist_ctx)" where
  "push_head c =
     sbind (or_spin (cb_deq (all_buffers c))) (\<lambda>(i, pull).
     sbind (or_spin (cb_enq i (persist_buffers c))) (\<lambda>push.
       Inr (i, c\<lparr>all_buffers := pull, persist_buffers := push\<rparr>)))"

text \<open>
  \<open>LZ4_compress src room\<close> is what the library writes into \<open>room\<close> bytes; its length is the result of the call.
\<close>

record lz4 =
  LZ4_compressBound :: "nat \<Rightarrow> nat"
  LZ4_compress :: "bytes \<Rightarrow> nat \<Rightarrow> bytes"

definition push_horizon_to_buffer :: "lz4 \<Rightarrow> persist_ctx \<Rightarrow> fault + (u64 \<times> persist_ctx)" where
  "push_horizon_to_buffer Z c =
     (let hz = horizon c
      in if nentries hz = 0 then Inr (0, c)
         else
           sbind (wait_for_head c) (\<lambda>i0.
           let px0 = pbufs c i0;
               compressed_space_needed = 4 + LZ4_compressBound Z (datasize hz)
           in sbind (if space_remaining px0 < compressed_space_needed \<or> \<not> can_hold_tid px0 (last_tid hz)
                     then sbind (push_head c) (\<lambda>(_, c1).
                          sbind (wait_for_head c1) (\<lambda>i1. Inr (nentries px0, i1, c1)))
                     else Inr (0, i0, c)) (\<lambda>(npushed, i, c1).
              let px = pbufs c1 i;
                  px1 = (if nentries px = 0 then px\<lparr>earliest_start_us := earliest_start_us hz\<rparr> else px);
                  px2 = set_header (nentries px + nentries hz) (last_tid hz) px1;
                  out = LZ4_compress Z (log_data hz) (space_remaining px2 - 4);
                  ret = length out
              in sbind (lift_mem (put_bytes out (curoff px2 + 4, buf_start px2))) (\<lambda>(_, buf1).
                 sbind (lift_mem (put_bytes (le_bytes (of_nat ret :: u32)) (curoff px2, buf1))) (\<lambda>(_, buf2).
                   let px3 = px2\<lparr>buf_start := buf2, curoff := curoff px2 + 4 + ret\<rparr>
                   in Inr (npushed, (set_pbuf i px3 c1)\<lparr>horizon := pbuffer_reset hz\<rparr>))))))"

text \<open>The loop behind the label \<^verbatim>\<open>retry\<close>: full or foreign buffers go to the logger.\<close>

fun find_buffer :: "nat \<Rightarrow> nat \<Rightarrow> u64 \<Rightarrow> log_state \<Rightarrow> fault + (nat \<times> log_state)" where
  "find_buffer 0 space_needed commit_tid L = Inl No_fuel"
| "find_buffer (Suc fuel) space_needed commit_tid L =
     sbind (wait_for_head (pctx L)) (\<lambda>i.
     let px = pbufs (pctx L) i
     in if space_remaining px < space_needed \<or> \<not> can_hold_tid px commit_tid
        then sbind (push_head (pctx L)) (\<lambda>(_, c).
               find_buffer fuel space_needed commit_tid
                 (L\<lparr>pctx := c, ntxns_pushed := ntxns_pushed L + nentries px\<rparr>))
        else Inr (i, L))"

text \<open>
  \<^verbatim>\<open>on_tid_finish\<close> of a transaction in state \<open>st\<close>. Each retry takes a buffer out of a queue of
  \<open>length (slots _)\<close> places, so one more round than places meets an empty queue.
\<close>

definition on_tid_finish ::
  "lz4 \<Rightarrow> nat \<Rightarrow> u64 \<Rightarrow> txn_state \<Rightarrow> 'v write_record list \<Rightarrow> u64 \<Rightarrow> log_state \<Rightarrow> fault + log_state" where
  "on_tid_finish Z core start_us st ws commit_tid L =
     (if \<not> g_persist L \<or> st \<noteq> TXN_COMMITED then Inr L
      else
        let value_sizes = map value_nbytes ws;
            space_needed = log_space_needed ws
        in sbind (persist_ctx_for core True L) (\<lambda>L1.
           let L2 = L1\<lparr>ntxns_committed := ntxns_committed L1 + 1\<rparr>
           in if g_use_compression L2 then
                let hz = horizon (pctx L2)
                in sbind (if space_remaining hz < space_needed \<or> \<not> can_hold_tid hz commit_tid
                          then sbind (push_horizon_to_buffer Z (pctx L2)) (\<lambda>(npushed, c).
                                 Inr (L2\<lparr>pctx := c,
                                   ntxns_pushed := (if npushed \<noteq> 0 then ntxns_pushed L2 + npushed
                                                    else ntxns_pushed L2)\<rparr>))
                          else Inr L2) (\<lambda>L3.
                   sbind (lift_mem (write_current_txn_into_buffer start_us (horizon (pctx L3)) commit_tid ws value_sizes))
                     (\<lambda>(_, hz'). Inr (L3\<lparr>pctx := (pctx L3)\<lparr>horizon := hz'\<rparr>\<rparr>)))
              else
                sbind (find_buffer (Suc (length (slots (all_buffers (pctx L2))))) space_needed commit_tid L2) (\<lambda>(i, L3).
                sbind (lift_mem (write_current_txn_into_buffer start_us (pbufs (pctx L3) i) commit_tid ws value_sizes))
                  (\<lambda>(_, px'). Inr (L3\<lparr>pctx := set_pbuf i px' (pctx L3)\<rparr>)))))"

text \<open>\<^verbatim>\<open>txn_epoch_sync::thread_end\<close>: what is left goes to the logger.\<close>

definition thread_end :: "lz4 \<Rightarrow> log_state \<Rightarrow> fault + log_state" where
  "thread_end Z L =
     (if \<not> g_persist L \<or> \<not> p_init (pctx L) then Inr L
      else
        sbind (if g_use_compression L \<and> nentries (horizon (pctx L)) \<noteq> 0
               then sbind (push_horizon_to_buffer Z (pctx L)) (\<lambda>(npushed, c).
                      Inr (L\<lparr>pctx := c, ntxns_pushed := (if npushed \<noteq> 0 then ntxns_pushed L + npushed
                                                          else ntxns_pushed L)\<rparr>))
               else Inr L) (\<lambda>L1.
          case cb_peek (all_buffers (pctx L1)) of
            None \<Rightarrow> Inr L1
          | Some i \<Rightarrow>
              if nentries (pbufs (pctx L1) i) = 0 then Inr L1
              else sbind (push_head (pctx L1)) (\<lambda>(_, c).
                     Inr (L1\<lparr>pctx := c, ntxns_pushed := ntxns_pushed L1 + nentries (pbufs (pctx L1) i)\<rparr>))))"

section \<open>Reading a log back\<close>

text \<open>What a recovery reads: the id, the number of records, then key and value of each.\<close>

definition get_bytes :: "bytes \<Rightarrow> mem_error + (bytes \<times> bytes)" where
  "get_bytes bs =
     sbind (read_uvint32 bs) (\<lambda>(n, rest).
       if length rest < unat n then Inl Past_end else Inr (take (unat n) rest, drop (unat n) rest))"

fun get_records :: "nat \<Rightarrow> bytes \<Rightarrow> mem_error + ((bytes \<times> bytes) list \<times> bytes)" where
  "get_records 0 bs = Inr ([], bs)"
| "get_records (Suc n) bs =
     sbind (get_bytes bs) (\<lambda>(k, bs1).
     sbind (get_bytes bs1) (\<lambda>(v, bs2).
     sbind (get_records n bs2) (\<lambda>(kvs, bs3). Inr ((k, v) # kvs, bs3))))"

type_synonym log_entry = "u64 \<times> (bytes \<times> bytes) list"

definition get_entry :: "bytes \<Rightarrow> mem_error + (log_entry \<times> bytes)" where
  "get_entry bs =
     sbind (fixed_read bs) (\<lambda>(tid :: u64, bs1).
     sbind (read_uvint32 bs1) (\<lambda>(n, bs2).
     sbind (get_records (unat n) bs2) (\<lambda>(kvs, bs3). Inr ((tid, kvs), bs3))))"

fun get_log :: "nat \<Rightarrow> bytes \<Rightarrow> mem_error + (log_entry list \<times> bytes)" where
  "get_log 0 bs = Inr ([], bs)"
| "get_log (Suc n) bs =
     sbind (get_entry bs) (\<lambda>(e, bs1).
     sbind (get_log n bs1) (\<lambda>(es, bs2). Inr (e # es, bs2)))"

definition entries_of :: "pbuffer \<Rightarrow> log_entry list" where
  "entries_of px = (case get_log (unat (nentries px)) (log_data px) of Inl _ \<Rightarrow> [] | Inr (es, _) \<Rightarrow> es)"

text \<open>The bytes an entry occupies.\<close>

definition enc_bytes :: "bytes \<Rightarrow> bytes" where
  "enc_bytes bs = write_uvint32 (of_nat (length bs)) @ bs"

definition enc_records :: "(bytes \<times> bytes) list \<Rightarrow> bytes" where
  "enc_records kvs = concat (map (\<lambda>(k, v). enc_bytes k @ enc_bytes v) kvs)"

definition enc_entry :: "log_entry \<Rightarrow> bytes" where
  "enc_entry = (\<lambda>(tid, kvs). le_bytes tid @ write_uvint32 (of_nat (length kvs)) @ enc_records kvs)"

definition entry_fits :: "log_entry \<Rightarrow> bool" where
  "entry_fits = (\<lambda>(tid, kvs). length kvs < 2 ^ 32 \<and> (\<forall>(k, v) \<in> set kvs. length k < 2 ^ 32 \<and> length v < 2 ^ 32))"

lemma get_enc_bytes: "length bs < 2 ^ 32 \<Longrightarrow> get_bytes (enc_bytes bs @ rest) = Inr (bs, rest)"
proof -
  assume l: "length bs < 2 ^ 32"
  have "unat (of_nat (length bs) :: u32) = length bs" using l by (intro unat_of_nat_small) simp
  then show ?thesis by (simp add: get_bytes_def enc_bytes_def read_uvint32_write)
qed

lemma get_enc_records:
  "\<forall>(k, v) \<in> set kvs. length k < 2 ^ 32 \<and> length v < 2 ^ 32 \<Longrightarrow>
   get_records (length kvs) (enc_records kvs @ rest) = Inr (kvs, rest)"
  by (induction kvs) (auto simp: enc_records_def get_enc_bytes)

lemma get_enc_entry:
  assumes "entry_fits e"
  shows "get_entry (enc_entry e @ rest) = Inr (e, rest)"
proof -
  obtain tid kvs where e: "e = (tid, kvs)" by (cases e)
  have l: "length kvs < 2 ^ 32" "\<forall>(k, v) \<in> set kvs. length k < 2 ^ 32 \<and> length v < 2 ^ 32"
    using assms by (auto simp: e entry_fits_def)
  have n: "unat (of_nat (length kvs) :: u32) = length kvs" using l(1) by (intro unat_of_nat_small) simp
  have "fixed_read (le_bytes tid @ bs) = Inr (tid, bs)" for bs
    by (simp add: fixed_read_def sizeof_word_def le_word_le_bytes)
  then show ?thesis
    using get_enc_records [OF l(2), of rest]
    by (simp add: get_entry_def enc_entry_def e read_uvint32_write n)
qed

lemma get_enc_log: "\<forall>e \<in> set es. entry_fits e \<Longrightarrow> get_log (length es) (concat (map enc_entry es) @ rest) = Inr (es, rest)"
  by (induction es) (simp_all add: get_enc_entry)

lemma enc_entry_nonempty: "9 \<le> length (enc_entry e)"
  using size_uvint32_bounds(1) [of "of_nat (length (snd e))"]
  by (cases e) (simp add: enc_entry_def length_write_uvint32)

section \<open>Writing an entry\<close>

text \<open>
  What the code relies on from a writer: a delta of the announced size is written at the pointer. \<open>D\<close> says
  which bytes stand for the update.
\<close>

definition delta_ok :: "('v write_record \<Rightarrow> bytes \<Rightarrow> bool) \<Rightarrow> 'v write_record \<Rightarrow> bool" where
  "delta_ok D rec \<longleftrightarrow>
     (case wr_value rec of
        None \<Rightarrow> D rec []
      | Some u \<Rightarrow>
          let W = wr_writer rec; n = w_delta_needed W u
          in n < 2 ^ 32 \<and> (n = 0 \<longrightarrow> D rec []) \<and>
             (\<forall>buf. n \<le> length buf \<longrightarrow>
                (\<exists>bs. w_delta_write W u buf n = Inr bs \<and> length bs = length buf \<and> D rec (take n bs))))"

definition record_ok :: "('v write_record \<Rightarrow> bytes \<Rightarrow> bool) \<Rightarrow> 'v write_record \<Rightarrow> bool" where
  "record_ok D rec \<longleftrightarrow> length (wr_key rec) < 2 ^ 32 \<and> delta_ok D rec"

text \<open>The records of an entry tell the keys and the deltas of the write set.\<close>

definition entry_records :: "('v write_record \<Rightarrow> bytes \<Rightarrow> bool) \<Rightarrow> 'v write_record list \<Rightarrow> (bytes \<times> bytes) list \<Rightarrow> bool" where
  "entry_records D ws kvs \<longleftrightarrow> list_all2 (\<lambda>rec (k, v). k = wr_key rec \<and> D rec v) ws kvs"

text \<open>The contract of a writer towards the log: \<open>delta u bs\<close> says that \<open>bs\<close> stands for the update \<open>u\<close>.\<close>

locale delta_writer =
  fixes W :: "'v tuple_writer" and delta :: "'v \<Rightarrow> bytes \<Rightarrow> bool" and ok :: "'v \<Rightarrow> bool"
  assumes delta_small: "ok u \<Longrightarrow> w_delta_needed W u < 2 ^ 32"
    and delta_write: "ok u \<Longrightarrow> w_delta_needed W u \<le> length buf \<Longrightarrow>
      \<exists>bs. w_delta_write W u buf (w_delta_needed W u) = Inr bs \<and> length bs = length buf \<and>
        delta u (take (w_delta_needed W u) bs)"
begin

definition delta_of :: "'v write_record \<Rightarrow> bytes \<Rightarrow> bool" where
  "delta_of rec v \<longleftrightarrow> (case wr_value rec of None \<Rightarrow> v = [] | Some u \<Rightarrow> delta u v)"

lemma record_ok_delta:
  assumes "wr_writer rec = W" and "\<And>u. wr_value rec = Some u \<Longrightarrow> ok u" and "length (wr_key rec) < 2 ^ 32"
  shows "record_ok delta_of rec"
proof (cases "wr_value rec")
  case None
  then show ?thesis using assms(3) by (simp add: record_ok_def delta_ok_def delta_of_def)
next
  case (Some u)
  have u: "ok u" by (rule assms(2)) (rule Some)
  have "delta u []" if "w_delta_needed W u = 0" using delta_write [OF u, of "[]"] that by simp
  then show ?thesis
    using assms(1,3) Some delta_small [OF u] delta_write [OF u]
    by (simp add: record_ok_def delta_ok_def delta_of_def Let_def)
qed

end

interpretation string_delta: delta_writer string_writer "\<lambda>u v. v = u" "\<lambda>u. length u < 2 ^ 32"
  by unfold_locales (auto simp: string_writer_def mem_copy_def write_at_def)

lemma put_bytes_at:
  "length bs \<le> length rest \<Longrightarrow>
   put_bytes bs (length pre, pre @ rest) = Inr (length (pre @ bs), (pre @ bs) @ drop (length bs) rest)"
  by (simp add: put_bytes_def write_at_append)

lemma put_delta_at:
  assumes d: "delta_ok D rec" and room: "unat (value_nbytes rec) \<le> length rest"
  shows "\<exists>v rest'. put_delta rec (value_nbytes rec) (length pre, pre @ rest) = Inr (length (pre @ v), (pre @ v) @ rest') \<and>
    D rec v \<and> length v = unat (value_nbytes rec) \<and> length rest' = length rest - length v \<and> length v < 2 ^ 32"
proof (cases "wr_value rec")
  case None
  then show ?thesis
    using d by (intro exI [of _ "[]"] exI [of _ rest]) (simp add: put_delta_def value_nbytes_def delta_ok_def)
next
  case (Some u)
  let ?n = "w_delta_needed (wr_writer rec) u"
  have n: "?n < 2 ^ 32" and z: "?n = 0 \<longrightarrow> D rec []" and
    w: "\<And>buf. ?n \<le> length buf \<Longrightarrow> \<exists>bs. w_delta_write (wr_writer rec) u buf ?n = Inr bs \<and>
      length bs = length buf \<and> D rec (take ?n bs)"
    using d by (auto simp: delta_ok_def Some Let_def)
  have u: "unat (value_nbytes rec) = ?n"
    using n unat_of_nat_small [of ?n, where 'a = 32] by (simp add: value_nbytes_def Some)
  show ?thesis
  proof (cases "?n = 0")
    case True
    then have "value_nbytes rec = 0" using u by (simp add: word_unat_eq_iff)
    then show ?thesis using z True u by (intro exI [of _ "[]"] exI [of _ rest]) (simp add: put_delta_def)
  next
    case False
    then have nz: "value_nbytes rec \<noteq> 0" using u by (auto simp: word_unat_eq_iff)
    obtain bs where bs: "w_delta_write (wr_writer rec) u rest ?n = Inr bs" "length bs = length rest" "D rec (take ?n bs)"
      using w [of rest] room u by auto
    have "put_delta rec (value_nbytes rec) (length pre, pre @ rest) =
        Inr (length (pre @ take ?n bs), (pre @ take ?n bs) @ drop ?n bs)"
      using nz bs room u by (simp add: put_delta_def Some)
    then show ?thesis
      using bs room u n by (intro exI [of _ "take ?n bs"] exI [of _ "drop ?n bs"]) simp
  qed
qed

lemma put_records_at:
  assumes "\<forall>rec \<in> set ws. record_ok D rec" and "sum_list (map record_space ws) \<le> length rest"
  shows "\<exists>kvs rest'. put_records ws (map value_nbytes ws) (length pre, pre @ rest) =
      Inr (length (pre @ enc_records kvs), (pre @ enc_records kvs) @ rest') \<and>
    entry_records D ws kvs \<and> length (enc_records kvs) = sum_list (map record_space ws) \<and>
    length rest' = length rest - length (enc_records kvs) \<and>
    (\<forall>(k, v) \<in> set kvs. length k < 2 ^ 32 \<and> length v < 2 ^ 32)"
  using assms
proof (induction ws arbitrary: pre rest)
  case Nil
  then show ?case
    by (intro exI [of _ "[]"] exI [of _ rest]) (simp add: enc_records_def entry_records_def)
next
  case (Cons rec ws)
  have ok: "record_ok D rec" "\<forall>rec \<in> set ws. record_ok D rec" using Cons.prems(1) by auto
  have key: "unat (key_nbytes rec) = length (wr_key rec)"
    using ok(1) unat_of_nat_small [of "length (wr_key rec)", where 'a = 32] by (simp add: key_nbytes_def record_ok_def)
  let ?k = "write_uvint32 (key_nbytes rec)" and ?v = "write_uvint32 (value_nbytes rec)"
  have room: "length ?k + length (wr_key rec) + length ?v + unat (value_nbytes rec) + sum_list (map record_space ws) \<le> length rest"
    using Cons.prems(2) by (simp add: record_space_def [of rec] length_write_uvint32 key)
  let ?r1 = "drop (length ?k) rest"
  let ?r2 = "drop (length (wr_key rec)) ?r1"
  let ?r3 = "drop (length ?v) ?r2"
  let ?p3 = "((pre @ ?k) @ wr_key rec) @ ?v"
  have e1: "put_bytes ?k (length pre, pre @ rest) = Inr (length (pre @ ?k), (pre @ ?k) @ ?r1)"
    by (rule put_bytes_at) (use room in simp)
  have e2: "put_bytes (wr_key rec) (length (pre @ ?k), (pre @ ?k) @ ?r1) =
      Inr (length ((pre @ ?k) @ wr_key rec), ((pre @ ?k) @ wr_key rec) @ ?r2)"
    by (rule put_bytes_at) (use room in simp)
  have e3: "put_bytes ?v (length ((pre @ ?k) @ wr_key rec), ((pre @ ?k) @ wr_key rec) @ ?r2) = Inr (length ?p3, ?p3 @ ?r3)"
    by (rule put_bytes_at) (use room in simp)
  have "unat (value_nbytes rec) \<le> length ?r3" using room by simp
  with ok(1) obtain v r4 where v: "put_delta rec (value_nbytes rec) (length ?p3, ?p3 @ ?r3) = Inr (length (?p3 @ v), (?p3 @ v) @ r4)"
      "D rec v" "length v = unat (value_nbytes rec)" "length r4 = length ?r3 - length v" "length v < 2 ^ 32"
    using put_delta_at [of D rec ?r3 ?p3] unfolding record_ok_def by blast
  have "sum_list (map record_space ws) \<le> length r4" using room v(3,4) by simp
  with Cons.IH [OF ok(2), of r4 "?p3 @ v"] obtain kvs r5 where kvs:
      "put_records ws (map value_nbytes ws) (length (?p3 @ v), (?p3 @ v) @ r4) =
        Inr (length ((?p3 @ v) @ enc_records kvs), ((?p3 @ v) @ enc_records kvs) @ r5)"
      "entry_records D ws kvs" "length (enc_records kvs) = sum_list (map record_space ws)"
      "length r5 = length r4 - length (enc_records kvs)"
      "\<forall>(k, v) \<in> set kvs. length k < 2 ^ 32 \<and> length v < 2 ^ 32" by blast
  have vn: "of_nat (length v) = value_nbytes rec" by (simp add: v(3))
  have enc: "enc_records ((wr_key rec, v) # kvs) = ?k @ wr_key rec @ ?v @ v @ enc_records kvs"
    by (simp add: enc_records_def enc_bytes_def key_nbytes_def vn)
  have "put_records (rec # ws) (map value_nbytes (rec # ws)) (length pre, pre @ rest) =
      Inr (length (pre @ enc_records ((wr_key rec, v) # kvs)), (pre @ enc_records ((wr_key rec, v) # kvs)) @ r5)"
    unfolding list.map put_records.simps key take_all [OF order_refl] e1 sbind_simps e2 e3 v(1) kvs(1) enc
    by simp
  moreover have "entry_records D (rec # ws) ((wr_key rec, v) # kvs)"
    using v(2) kvs(2) by (simp add: entry_records_def)
  moreover have len: "length (enc_records ((wr_key rec, v) # kvs)) = sum_list (map record_space (rec # ws))"
    unfolding enc by (simp add: kvs(3) v(3) record_space_def [of rec] length_write_uvint32 key)
  moreover have "length r5 = length rest - length (enc_records ((wr_key rec, v) # kvs))"
    unfolding enc using room kvs(3,4) v(3,4) by simp
  moreover have "\<forall>(k, v) \<in> set ((wr_key rec, v) # kvs). length k < 2 ^ 32 \<and> length v < 2 ^ 32"
    using kvs(5) v(5) ok(1) by (simp add: record_ok_def)
  ultimately show ?case by blast
qed

section \<open>What a buffer holds\<close>

definition buffer_log :: "pbuffer \<Rightarrow> log_entry list \<Rightarrow> bool" where
  "buffer_log px es \<longleftrightarrow>
     buf_sz px = length (buf_start px) \<and> buf_sz px < 2 ^ 32 \<and>
     sizeof_logbuf_header \<le> curoff px \<and> curoff px \<le> buf_sz px \<and>
     log_data px = concat (map enc_entry es) \<and> unat (nentries px) = length es \<and>
     (\<forall>e \<in> set es. entry_fits e \<and> EpochId (fst e) = EpochId (last_tid px)) \<and>
     (es \<noteq> [] \<longrightarrow> last_tid px = fst (last es))"

lemma buffer_log_entries: "buffer_log px es \<Longrightarrow> entries_of px = es"
  using get_enc_log [of es "[]"] by (simp add: buffer_log_def entries_of_def)

lemma header_fields:
  assumes "16 \<le> length (buf_start px)"
  shows "nentries (set_header n t px) = n" "last_tid (set_header n t px) = t"
    "curoff (set_header n t px) = curoff px" "buf_sz (set_header n t px) = buf_sz px"
    "length (buf_start (set_header n t px)) = length (buf_start px)" "log_data (set_header n t px) = log_data px"
  using assms
  by (simp_all add: nentries_def last_tid_def set_header_def log_data_def datasize_def sizeof_logbuf_header_def
      le_word_le_bytes)

lemma pbuffer_new_log:
  assumes "16 \<le> sz" and "sz < 2 ^ 32"
  shows "buffer_log (pbuffer_new core sz) []" and "space_remaining (pbuffer_new core sz) = sz - 16"
proof -
  have z: "le_word (replicate n 0) = (0 :: u64)" for n by (induction n) simp_all
  show "buffer_log (pbuffer_new core sz) []"
    using assms by (simp add: buffer_log_def pbuffer_new_def pbuffer_reset_def sizeof_logbuf_header_def log_data_def
        datasize_def nentries_def z)
  show "space_remaining (pbuffer_new core sz) = sz - 16"
    by (simp add: space_remaining_def pbuffer_new_def pbuffer_reset_def sizeof_logbuf_header_def)
qed

lemma entry_count_bound: "length (concat (map enc_entry es)) < 2 ^ 32 \<Longrightarrow> length es < 2 ^ 32"
proof -
  have "length es \<le> length (concat (map enc_entry es))"
  proof (induction es)
    case (Cons e es)
    then show ?case using enc_entry_nonempty [of e] by simp
  qed simp
  then show "length (concat (map enc_entry es)) < 2 ^ 32 \<Longrightarrow> length es < 2 ^ 32" by simp
qed

text \<open>A transaction that fits is appended as one entry, in exactly the space computed for it.\<close>

lemma write_entry:
  assumes b: "buffer_log px es" and hold: "can_hold_tid px tid" and space: "log_space_needed ws \<le> space_remaining px"
    and ws: "\<forall>rec \<in> set ws. record_ok D rec" and n: "length ws < 2 ^ 32"
  shows "\<exists>px' kvs. write_current_txn_into_buffer us px tid ws (map value_nbytes ws) = Inr (log_space_needed ws, px') \<and>
    buffer_log px' (es @ [(tid, kvs)]) \<and> entry_records D ws kvs \<and> buf_sz px' = buf_sz px"
proof -
  let ?o = "curoff px" and ?sz = "buf_sz px"
  have len: "length (buf_start px) = ?sz" "16 \<le> ?o" "?o \<le> ?sz" "?sz < 2 ^ 32"
    using b by (auto simp: buffer_log_def sizeof_logbuf_header_def)
  let ?pre = "take ?o (buf_start px)" and ?rest = "drop ?o (buf_start px)"
  have pre: "length ?pre = ?o" using len by simp
  let ?t = "le_bytes tid" and ?n = "write_uvint32 (of_nat (length ws))"
  have room: "8 + length ?n + sum_list (map record_space ws) \<le> length ?rest"
    using space len by (simp add: log_space_needed_def space_remaining_def length_write_uvint32)
  have e1: "put_bytes ?t (length ?pre, ?pre @ ?rest) = Inr (length (?pre @ ?t), (?pre @ ?t) @ drop 8 ?rest)"
    using put_bytes_at [of ?t ?rest ?pre] room by simp
  have e2: "put_bytes ?n (length (?pre @ ?t), (?pre @ ?t) @ drop 8 ?rest) =
      Inr (length ((?pre @ ?t) @ ?n), ((?pre @ ?t) @ ?n) @ drop (length ?n) (drop 8 ?rest))"
    by (rule put_bytes_at) (use room in simp)
  have "sum_list (map record_space ws) \<le> length (drop (length ?n) (drop 8 ?rest))" using room by simp
  from put_records_at [OF ws this, of "(?pre @ ?t) @ ?n"] obtain kvs rest' where kvs:
      "put_records ws (map value_nbytes ws) (length ((?pre @ ?t) @ ?n), ((?pre @ ?t) @ ?n) @ drop (length ?n) (drop 8 ?rest)) =
        Inr (length (((?pre @ ?t) @ ?n) @ enc_records kvs), (((?pre @ ?t) @ ?n) @ enc_records kvs) @ rest')"
      "entry_records D ws kvs" "length (enc_records kvs) = sum_list (map record_space ws)"
      "length rest' = length (drop (length ?n) (drop 8 ?rest)) - length (enc_records kvs)"
      "\<forall>(k, v) \<in> set kvs. length k < 2 ^ 32 \<and> length v < 2 ^ 32" by blast
  have lk: "length kvs = length ws" using kvs(2) by (simp add: entry_records_def list_all2_lengthD)
  let ?e = "enc_entry (tid, kvs)"
  have enc: "(((?pre @ ?t) @ ?n) @ enc_records kvs) = ?pre @ ?e" by (simp add: enc_entry_def lk)
  have le: "length ?e = log_space_needed ws"
    by (simp add: enc_entry_def lk kvs(3) log_space_needed_def length_write_uvint32)
  define px0 where "px0 = (if nentries px = 0 then px\<lparr>earliest_start_us := us\<rparr> else px)"
  define px1 where "px1 = px0\<lparr>buf_start := (?pre @ ?e) @ rest', curoff := length (?pre @ ?e)\<rparr>"
  define px' where "px' = set_header (nentries px + 1) tid px1"
  have b0: "buf_start px0 = buf_start px" "buf_sz px0 = ?sz" by (simp_all add: px0_def)
  have start: "(?o, buf_start px0) = (length ?pre, ?pre @ ?rest)" by (simp only: b0 pre append_take_drop_id)
  have w: "write_current_txn_into_buffer us px tid ws (map value_nbytes ws) = Inr (log_space_needed ws, px')"
    unfolding write_current_txn_into_buffer_def Let_def px0_def [symmetric] start e1 sbind_simps e2 kvs(1) prod.case enc
      px'_def px1_def
    using le len by simp
  have l1: "length (buf_start px1) = ?sz"
    using kvs(4) len room le kvs(3) by (simp add: px1_def enc_entry_def lk log_space_needed_def length_write_uvint32)
  have c1: "curoff px1 = ?o + length ?e" using len by (simp add: px1_def)
  have d: "log_data px1 = log_data px @ ?e"
    using len by (simp add: log_data_def datasize_def c1 px1_def sizeof_logbuf_header_def drop_take)
  have h: "16 \<le> length (buf_start px1)" using l1 len by simp
  note hf = header_fields [OF h, of "nentries px + 1" tid, folded px'_def]
  have cle: "curoff px' \<le> ?sz" using hf(3) c1 le space len by (simp add: space_remaining_def)
  have data: "log_data px' = concat (map enc_entry (es @ [(tid, kvs)]))"
    using hf(6) d b by (simp add: buffer_log_def)
  have "length (log_data px') \<le> ?sz" using hf(5) l1 by (simp add: log_data_def)
  then have "length (es @ [(tid, kvs)]) < 2 ^ 32" using len(4) data by (intro entry_count_bound) simp
  then have cnt: "unat (nentries px') = length (es @ [(tid, kvs)])"
    using b hf(1) by (simp add: buffer_log_def unat_word_ariths)
  have fit: "entry_fits (tid, kvs)" using kvs(5) n lk by (simp add: entry_fits_def)
  have ep: "\<forall>e \<in> set es. EpochId (fst e) = EpochId tid"
  proof (cases "es = []")
    case False
    then have "nentries px \<noteq> 0" using b by (auto simp: buffer_log_def)
    then have "EpochId (last_tid px) = EpochId tid" using hold by (simp add: can_hold_tid_def)
    then show ?thesis using b by (simp add: buffer_log_def)
  qed simp
  have bs: "buf_sz px' = ?sz" by (simp add: hf(4) px1_def b0)
  have "buffer_log px' (es @ [(tid, kvs)])"
    unfolding buffer_log_def
  proof (intro conjI)
    show "buf_sz px' = length (buf_start px')" using bs hf(5) l1 by simp
    show "buf_sz px' < 2 ^ 32" using bs len by simp
    show "sizeof_logbuf_header \<le> curoff px'" using hf(3) c1 len by (simp add: sizeof_logbuf_header_def)
    show "curoff px' \<le> buf_sz px'" using cle bs by simp
    show "\<forall>e \<in> set (es @ [(tid, kvs)]). entry_fits e \<and> EpochId (fst e) = EpochId (last_tid px')"
      using ep hf(2) fit b by (auto simp: buffer_log_def)
  qed (use data cnt hf(2) in simp_all)
  then show ?thesis using w kvs(2) bs by blast
qed

section \<open>The log of a core\<close>

definition pulled :: "log_state \<Rightarrow> nat list" where
  "pulled L = cb_abs (all_buffers (pctx L))"

definition pushed :: "log_state \<Rightarrow> nat list" where
  "pushed L = cb_abs (persist_buffers (pctx L))"

text \<open>What the buffers hold, oldest first: those with the logger, then the ones of the core.\<close>

definition log_abs :: "log_state \<Rightarrow> log_entry list" where
  "log_abs L = concat (map (\<lambda>i. entries_of (pbufs (pctx L) i)) (pushed L @ pulled L))"

text \<open>
  Buffers of one size, each in one queue; only the first one of the core has entries, and the queue to the
  logger has room for all.
\<close>

definition log_inv :: "nat \<Rightarrow> log_state \<Rightarrow> bool" where
  "log_inv sz L \<longleftrightarrow>
     cb_ok (all_buffers (pctx L)) \<and> cb_ok (persist_buffers (pctx L)) \<and>
     distinct (pushed L @ pulled L) \<and>
     length (pushed L @ pulled L) \<le> length (slots (persist_buffers (pctx L))) \<and>
     (\<forall>i \<in> set (pushed L @ pulled L). \<exists>es. buffer_log (pbufs (pctx L) i) es \<and> buf_sz (pbufs (pctx L) i) = sz) \<and>
     (\<forall>i \<in> set (tl (pulled L)). nentries (pbufs (pctx L) i) = 0)"

lemma log_inv_buffer:
  assumes "log_inv sz L" and "i \<in> set (pushed L @ pulled L)"
  shows "buffer_log (pbufs (pctx L) i) (entries_of (pbufs (pctx L) i))" and "buf_sz (pbufs (pctx L) i) = sz"
proof -
  obtain es where "buffer_log (pbufs (pctx L) i) es" "buf_sz (pbufs (pctx L) i) = sz"
    using assms unfolding log_inv_def by blast
  then show "buffer_log (pbufs (pctx L) i) (entries_of (pbufs (pctx L) i))" "buf_sz (pbufs (pctx L) i) = sz"
    using buffer_log_entries by auto
qed

lemma empty_entries: "buffer_log px es \<Longrightarrow> nentries px = 0 \<longleftrightarrow> es = []"
  unfolding buffer_log_def by (metis length_0_conv unsigned_0 word_unat_eq_iff)

lemma empty_space:
  assumes "buffer_log px es" and "nentries px = 0"
  shows "space_remaining px = buf_sz px - 16"
proof -
  have es: "es = []" using assms empty_entries by blast
  have len: "length (buf_start px) = buf_sz px" "16 \<le> curoff px" "curoff px \<le> buf_sz px" "log_data px = []"
    using assms(1) by (auto simp: buffer_log_def es sizeof_logbuf_header_def)
  then have "curoff px = 16" by (auto simp: log_data_def datasize_def sizeof_logbuf_header_def)
  then show ?thesis by (simp add: space_remaining_def)
qed

lemma head_of_pulled: "cb_ok (all_buffers (pctx L)) \<Longrightarrow> pulled L = i # is \<Longrightarrow> wait_for_head (pctx L) = Inr i"
  using cb.peek [of "all_buffers (pctx L)"] by (simp add: wait_for_head_def pulled_def)

text \<open>The head goes to the logger: the log as a whole does not change.\<close>

lemma push_head_inv:
  assumes inv: "log_inv sz L" and pl: "pulled L = i # is"
  shows "\<exists>c. push_head (pctx L) = Inr (i, c) \<and> log_inv sz (L\<lparr>pctx := c, ntxns_pushed := n\<rparr>) \<and>
    pulled (L\<lparr>pctx := c, ntxns_pushed := n\<rparr>) = is \<and> log_abs (L\<lparr>pctx := c, ntxns_pushed := n\<rparr>) = log_abs L \<and>
    pbufs c = pbufs (pctx L) \<and> p_init c = p_init (pctx L) \<and> horizon c = horizon (pctx L)"
proof -
  have ok: "cb_ok (all_buffers (pctx L))" "cb_ok (persist_buffers (pctx L))" using inv by (auto simp: log_inv_def)
  obtain q where q: "cb_deq (all_buffers (pctx L)) = Some (i, q)" "cb_ok q" "cb_abs q = is"
    using cb.deq [OF ok(1), of i "is"] pl by (auto simp: pulled_def)
  have "length (pushed L @ pulled L) \<le> length (slots (persist_buffers (pctx L)))" using inv by (simp add: log_inv_def)
  then have "length (cb_abs (persist_buffers (pctx L))) < length (slots (persist_buffers (pctx L)))"
    by (simp add: pl pushed_def)
  from cb.enq [OF ok(2) this, of i] obtain r where r: "cb_enq i (persist_buffers (pctx L)) = Some r" "cb_ok r"
      "cb_abs r = pushed L @ [i]" "length (slots r) = length (slots (persist_buffers (pctx L)))"
    by (auto simp: pushed_def)
  let ?c = "(pctx L)\<lparr>all_buffers := q, persist_buffers := r\<rparr>"
  let ?L = "L\<lparr>pctx := ?c, ntxns_pushed := n\<rparr>"
  have p: "push_head (pctx L) = Inr (i, ?c)" by (simp add: push_head_def q(1) r(1))
  have pu: "pulled ?L = is" "pushed ?L = pushed L @ [i]" by (simp_all add: pulled_def pushed_def q(3) r(3))
  have same: "pushed ?L @ pulled ?L = pushed L @ pulled L" by (simp add: pu pl)
  have tl: "\<forall>j \<in> set (tl is). nentries (pbufs (pctx L) j) = 0"
    using inv pl by (cases "is") (simp_all add: log_inv_def)
  have inv': "log_inv sz ?L"
    unfolding log_inv_def same using inv q r tl unfolding log_inv_def by (simp add: pu(1) pl)
  have "log_abs ?L = log_abs L" unfolding log_abs_def same by simp
  then show ?thesis using p pu(1) inv' by (intro exI [of _ ?c]) simp
qed

lemma log_abs_split:
  assumes inv: "log_inv sz L" and pl: "pulled L = i # is"
  shows "log_abs L = concat (map (\<lambda>i. entries_of (pbufs (pctx L) i)) (pushed L)) @ entries_of (pbufs (pctx L) i)"
proof -
  have "entries_of (pbufs (pctx L) j) = []" if j: "j \<in> set is" for j
  proof -
    have "nentries (pbufs (pctx L) j) = 0" using inv pl j by (simp add: log_inv_def)
    then show ?thesis using log_inv_buffer(1) [OF inv, of j] pl j empty_entries by auto
  qed
  then have "concat (map (\<lambda>i. entries_of (pbufs (pctx L) i)) is) = []" by simp
  then show ?thesis by (simp add: log_abs_def pl)
qed

text \<open>Filling the head appends its entry to the log.\<close>

lemma fill_head_inv:
  assumes inv: "log_inv sz L" and pl: "pulled L = i # is"
    and px: "buffer_log px (entries_of (pbufs (pctx L) i) @ [e])" "buf_sz px = sz"
  shows "log_inv sz (L\<lparr>pctx := set_pbuf i px (pctx L)\<rparr>)" and "log_abs (L\<lparr>pctx := set_pbuf i px (pctx L)\<rparr>) = log_abs L @ [e]"
proof -
  let ?L = "L\<lparr>pctx := set_pbuf i px (pctx L)\<rparr>"
  have q: "pulled ?L = i # is" "pushed ?L = pushed L" using pl by (simp_all add: pulled_def pushed_def set_pbuf_def)
  have ni: "i \<notin> set (pushed L)" "i \<notin> set is" using inv pl by (auto simp: log_inv_def)
  have bufs: "pbufs (pctx ?L) j = (if j = i then px else pbufs (pctx L) j)" for j by (simp add: set_pbuf_def)
  have qs: "all_buffers (pctx ?L) = all_buffers (pctx L)" "persist_buffers (pctx ?L) = persist_buffers (pctx L)"
    by (simp_all add: set_pbuf_def)
  have "\<forall>j \<in> set (pushed L @ i # is). \<exists>es. buffer_log (pbufs (pctx ?L) j) es \<and> buf_sz (pbufs (pctx ?L) j) = sz"
  proof
    fix j assume j: "j \<in> set (pushed L @ i # is)"
    show "\<exists>es. buffer_log (pbufs (pctx ?L) j) es \<and> buf_sz (pbufs (pctx ?L) j) = sz"
      using px inv j unfolding bufs log_inv_def pl by (cases "j = i") auto
  qed
  moreover have "\<forall>j \<in> set is. nentries (pbufs (pctx ?L) j) = 0"
    using inv ni(2) unfolding bufs log_inv_def pl by auto
  ultimately show inv': "log_inv sz ?L"
    using inv unfolding log_inv_def q qs pl list.sel by blast
  have m: "map (\<lambda>j. entries_of (pbufs (pctx ?L) j)) (pushed L) = map (\<lambda>j. entries_of (pbufs (pctx L) j)) (pushed L)"
    using ni(1) unfolding bufs by (intro map_cong) auto
  have "entries_of (pbufs (pctx ?L) i) = entries_of (pbufs (pctx L) i) @ [e]"
    using buffer_log_entries [OF px(1)] by (simp add: set_pbuf_def)
  then show "log_abs ?L = log_abs L @ [e]"
    unfolding log_abs_split [OF inv' q(1)] log_abs_split [OF inv pl] q(2) m by simp
qed

text \<open>
  The search for a buffer ends: with the head when the entry fits there, otherwise with the next buffer,
  which is empty.
\<close>

lemma find_buffer_ends:
  assumes inv: "log_inv sz L" and need: "space_needed + 16 \<le> sz" and pl: "pulled L = i # is"
    and room: "is \<noteq> [] \<or> space_needed \<le> space_remaining (pbufs (pctx L) i) \<and> can_hold_tid (pbufs (pctx L) i) tid"
  shows "\<exists>j js L'. find_buffer (Suc (Suc fuel)) space_needed tid L = Inr (j, L') \<and> log_inv sz L' \<and> pulled L' = j # js \<and>
    log_abs L' = log_abs L \<and> space_needed \<le> space_remaining (pbufs (pctx L') j) \<and>
    can_hold_tid (pbufs (pctx L') j) tid"
proof -
  have head: "wait_for_head (pctx L) = Inr i" by (rule head_of_pulled [OF _ pl]) (use inv in \<open>simp add: log_inv_def\<close>)
  let ?px = "pbufs (pctx L) i"
  show ?thesis
  proof (cases "space_needed \<le> space_remaining ?px \<and> can_hold_tid ?px tid")
    case True
    then have "find_buffer (Suc (Suc fuel)) space_needed tid L = Inr (i, L)"
      unfolding find_buffer.simps(2) [of "Suc fuel"] head sbind_simps Let_def by simp
    then show ?thesis using inv pl True by blast
  next
    case False
    then obtain j js where pl2: "pulled L = i # j # js" using room pl by (cases "is") auto
    let ?n = "ntxns_pushed L + nentries ?px"
    obtain c where c: "push_head (pctx L) = Inr (i, c)" "log_inv sz (L\<lparr>pctx := c, ntxns_pushed := ?n\<rparr>)"
        "pulled (L\<lparr>pctx := c, ntxns_pushed := ?n\<rparr>) = j # js" "log_abs (L\<lparr>pctx := c, ntxns_pushed := ?n\<rparr>) = log_abs L"
        "pbufs c = pbufs (pctx L)"
      using push_head_inv [OF inv pl2, of ?n] by blast
    let ?L = "L\<lparr>pctx := c, ntxns_pushed := ?n\<rparr>"
    have head': "wait_for_head c = Inr j"
      using head_of_pulled [OF _ c(3)] c(2) by (simp add: log_inv_def)
    have "nentries (pbufs (pctx L) j) = 0" using inv pl2 by (simp add: log_inv_def)
    then have e: "nentries (pbufs c j) = 0" by (simp add: c(5))
    have "buffer_log (pbufs c j) (entries_of (pbufs c j))" "buf_sz (pbufs c j) = sz"
      using log_inv_buffer [OF c(2), of j] c(3) by simp_all
    then have sp: "space_needed \<le> space_remaining (pbufs c j)" using empty_space [OF _ e] need by simp
    have hold: "can_hold_tid (pbufs c j) tid" using e by (simp add: can_hold_tid_def)
    have "find_buffer (Suc (Suc fuel)) space_needed tid L = find_buffer (Suc fuel) space_needed tid ?L"
      unfolding find_buffer.simps(2) [of "Suc fuel"] head sbind_simps Let_def c(1) prod.case using False by auto
    also have "\<dots> = Inr (j, ?L)" using head' sp hold by simp
    finally show ?thesis
      using c(2,3,4) sp hold
      by (intro exI [of _ j] exI [of _ js] exI [of _ ?L]) simp
  qed
qed

lemma finish_appends:
  assumes "log_inv sz L" and "g_persist L" and "\<not> g_use_compression L" and "p_init (pctx L)"
    and "log_space_needed ws + 16 \<le> sz" and "pulled L = i # is"
    and "is \<noteq> [] \<or> log_space_needed ws \<le> space_remaining (pbufs (pctx L) i) \<and> can_hold_tid (pbufs (pctx L) i) tid"
    and "\<forall>rec \<in> set ws. record_ok D rec" and "length ws < 2 ^ 32"
  shows "\<exists>L' kvs. on_tid_finish Z core us TXN_COMMITED ws tid L = Inr L' \<and> log_inv sz L' \<and>
    log_abs L' = log_abs L @ [(tid, kvs)] \<and> entry_records D ws kvs"
proof -
  let ?L2 = "L\<lparr>ntxns_committed := ntxns_committed L + 1\<rparr>"
  have ctx: "persist_ctx_for core True L = Inr L" using assms(4) by (simp add: persist_ctx_for_def)
  have inv: "log_inv sz ?L2" using assms(1) by (simp add: log_inv_def pushed_def pulled_def)
  have pl: "pulled ?L2 = i # is" using assms(6) by (simp add: pulled_def)
  have room: "is \<noteq> [] \<or> log_space_needed ws \<le> space_remaining (pbufs (pctx ?L2) i) \<and> can_hold_tid (pbufs (pctx ?L2) i) tid"
    using assms(7) by simp
  have "cb_ok (all_buffers (pctx L))" using assms(1) by (simp add: log_inv_def)
  then have "slots (all_buffers (pctx L)) \<noteq> []" by (simp add: cb_ok_def ring_of_def)
  then obtain f where f: "length (slots (all_buffers (pctx L))) = Suc f" by (cases "slots (all_buffers (pctx L))") auto
  from find_buffer_ends [OF inv assms(5) pl room, of f] obtain j js L3 where l3:
      "find_buffer (Suc (Suc f)) (log_space_needed ws) tid ?L2 = Inr (j, L3)" "log_inv sz L3" "pulled L3 = j # js"
      "log_abs L3 = log_abs ?L2" "log_space_needed ws \<le> space_remaining (pbufs (pctx L3) j)"
      "can_hold_tid (pbufs (pctx L3) j) tid" by blast
  have j: "j \<in> set (pushed L3 @ pulled L3)" using l3(3) by simp
  obtain px kvs where px: "write_current_txn_into_buffer us (pbufs (pctx L3) j) tid ws (map value_nbytes ws) =
        Inr (log_space_needed ws, px)" "buffer_log px (entries_of (pbufs (pctx L3) j) @ [(tid, kvs)])"
      "entry_records D ws kvs" "buf_sz px = buf_sz (pbufs (pctx L3) j)"
    using write_entry [OF log_inv_buffer(1) [OF l3(2) j] l3(6,5) assms(8,9), of us] by blast
  note fill = fill_head_inv [OF l3(2,3) px(2)]
  have "buf_sz px = sz" using px(4) log_inv_buffer(2) [OF l3(2) j] by simp
  note fill = fill [OF this]
  have "on_tid_finish Z core us TXN_COMMITED ws tid L = Inr (L3\<lparr>pctx := set_pbuf j px (pctx L3)\<rparr>)"
    unfolding on_tid_finish_def Let_def using assms(2,3) ctx f l3(1) px(1) by simp
  moreover have "log_abs ?L2 = log_abs L" by (simp add: log_abs_def pushed_def pulled_def)
  ultimately show ?thesis using fill l3(4) px(3) by (intro exI [of _ "L3\<lparr>pctx := set_pbuf j px (pctx L3)\<rparr>"] exI [of _ kvs]) simp
qed

text \<open>
  Property C23 (commits reach the log). With logging on and compression off, \<^verbatim>\<open>on_tid_finish\<close> of a committed
  transaction returns as soon as its entry fits into the current buffer or there is one more free buffer,
  keeps the invariant of the buffers (in particular one epoch per buffer) and appends exactly one entry to
  the log: the commit id with every key and delta of the write set, in their order. Nothing already
  logged is lost or reordered, and what is in the buffers can be read back.
\<close>

theorem on_tid_finish_appends:
  assumes "log_inv sz L" and "g_persist L" and "\<not> g_use_compression L" and "p_init (pctx L)"
    and "log_space_needed ws + 16 \<le> sz" and "pulled L = i # is"
    and "is \<noteq> [] \<or> log_space_needed ws \<le> space_remaining (pbufs (pctx L) i) \<and> can_hold_tid (pbufs (pctx L) i) tid"
    and "\<forall>rec \<in> set ws. record_ok D rec" and "length ws < 2 ^ 32"
  shows "\<exists>L' kvs. on_tid_finish Z core us TXN_COMMITED ws tid L = Inr L' \<and> log_inv sz L' \<and>
    log_abs L' = log_abs L @ [(tid, kvs)] \<and> entry_records D ws kvs"
  by (rule finish_appends [OF assms])

theorem on_tid_finish_appends_witness:
  "\<forall>Z. \<exists>L L' ws. log_abs L = [] \<and> on_tid_finish Z 0 0 TXN_COMMITED ws (MakeTid 0 1 60) L = Inr L' \<and>
    map wr_key ws = [[1]] \<and> map wr_value ws = [Some ([2, 3] :: bytes)] \<and> log_abs L' = [(MakeTid 0 1 60, [([1], [2, 3])])]"
proof
  fix Z
  let ?rec = "\<lparr>wr_tuple = 0, wr_key = [1], wr_value = Some [2, 3], wr_writer = string_writer, wr_btr = 0,
    wr_insert = False, wr_do_write = True\<rparr> :: bytes write_record"
  let ?c = "\<lparr>p_init = True, horizon = pbuffer_new 0 64, all_buffers = \<lparr>slots = [Some 0], cb_head = 0, cb_tail = 0\<rparr>,
    persist_buffers = cb_new 1, pbufs = (\<lambda>_. pbuffer_new 0 64)\<rparr>"
  let ?L = "\<lparr>g_persist = True, g_use_compression = False, pctx = ?c, ntxns_pushed = 0, ntxns_committed = 0\<rparr>"
  have pn: "cb_abs (all_buffers ?c) = [0]" "cb_abs (persist_buffers ?c) = []"
    by (simp_all add: cb_abs_def cb_new_def)
  have ok: "cb_ok (all_buffers ?c)" "cb_ok (persist_buffers ?c)"
    unfolding cb_ok_def pn by (simp_all add: ring_of_def cb_new_def)
  note new = pbuffer_new_log [of 64 0, simplified]
  have 1: "log_inv 64 ?L"
    using ok pn new(1) by (auto simp: log_inv_def pushed_def pulled_def cb_new_def pbuffer_new_def pbuffer_reset_def)
  have 2: "pulled ?L = 0 # []" using pn by (simp add: pulled_def)
  have needed: "log_space_needed [?rec] = 14"
    by (simp add: log_space_needed_def record_space_def key_nbytes_def value_nbytes_def string_writer_def
        size_uvint32_unat)
  have 3: "can_hold_tid (pbuffer_new 0 64) t" for t
    using empty_entries [OF new(1)] by (simp add: can_hold_tid_def)
  have 4: "\<forall>rec \<in> set [?rec]. record_ok string_delta.delta_of rec"
    using string_delta.record_ok_delta [of ?rec] by simp
  have abs: "log_abs ?L = []" using buffer_log_entries [OF new(1)] pn by (simp add: log_abs_def pushed_def pulled_def)
  obtain L' kvs where "on_tid_finish Z 0 0 TXN_COMMITED [?rec] (MakeTid 0 1 60) ?L = Inr L'"
      "log_abs L' = log_abs ?L @ [(MakeTid 0 1 60, kvs)]" "entry_records string_delta.delta_of [?rec] kvs"
    using on_tid_finish_appends [OF 1 _ _ _ _ 2 _ 4, of "MakeTid 0 1 60" Z 0 0] needed new(2) 3 by auto
  moreover from this(3) have "kvs = [([1], [2, 3])]"
    by (auto simp: entry_records_def list_all2_Cons1 string_delta.delta_of_def)
  ultimately show "\<exists>L L' ws. log_abs L = [] \<and> on_tid_finish Z 0 0 TXN_COMMITED ws (MakeTid 0 1 60) L = Inr L' \<and>
    map wr_key ws = [[1]] \<and> map wr_value ws = [Some ([2, 3] :: bytes)] \<and> log_abs L' = [(MakeTid 0 1 60, [([1], [2, 3])])]"
    using abs by (intro exI [of _ ?L] exI [of _ L'] exI [of _ "[?rec]"]) simp
qed

section \<open>When logging does not hold a commit up\<close>

text \<open>
  Logging is off; or it is on without compression and, after the first use of the core's context, the entry fits into an
  empty buffer and the core has a second buffer to turn to.
\<close>

definition log_ready :: "nat \<Rightarrow> 'v write_record list \<Rightarrow> log_state \<Rightarrow> bool" where
  "log_ready core ws L \<longleftrightarrow>
     \<not> g_persist L \<or>
     \<not> g_use_compression L \<and> length ws < 2 ^ 32 \<and> (\<forall>r \<in> set ws. length (wr_key r) < 2 ^ 32) \<and>
     (\<exists>L1 sz i is. persist_ctx_for core True L = Inr L1 \<and> log_inv sz L1 \<and> log_space_needed ws + 16 \<le> sz \<and>
        pulled L1 = i # is \<and> is \<noteq> [])"

lemma persist_ctx_for_keeps:
  "persist_ctx_for core True L = Inr L1 \<Longrightarrow>
     p_init (pctx L1) \<and> g_persist L1 = g_persist L \<and> g_use_compression L1 = g_use_compression L"
  by (auto simp: persist_ctx_for_def Let_def sbind_Inr split: if_splits)

lemma finish_ready:
  assumes rd: "log_ready core ws L" and ok: "\<forall>rec \<in> set ws. record_ok D rec"
  shows "\<exists>L'. on_tid_finish Z core us TXN_COMMITED ws tid L = Inr L'"
proof (cases "g_persist L")
  case False
  then show ?thesis by (simp add: on_tid_finish_def)
next
  case True
  then obtain L1 sz i "is" where l1: "persist_ctx_for core True L = Inr L1" "log_inv sz L1" "log_space_needed ws + 16 \<le> sz"
      "pulled L1 = i # is" "is \<noteq> []" and c: "\<not> g_use_compression L" "length ws < 2 ^ 32"
    using rd unfolding log_ready_def by blast
  note k = persist_ctx_for_keeps [OF l1(1)]
  have "persist_ctx_for core True L1 = Inr L1" using k by (simp add: persist_ctx_for_def)
  then have "on_tid_finish Z core us TXN_COMMITED ws tid L = on_tid_finish Z core us TXN_COMMITED ws tid L1"
    using l1(1) k True unfolding on_tid_finish_def by (simp only: sbind_simps simp_thms if_False)
  moreover have "\<exists>L' kvs. on_tid_finish Z core us TXN_COMMITED ws tid L1 = Inr L' \<and> log_inv sz L' \<and>
      log_abs L' = log_abs L1 @ [(tid, kvs)] \<and> entry_records D ws kvs"
    by (rule finish_appends [OF l1(2) _ _ _ l1(3,4) _ ok c(2)]) (use k True c l1(5) in simp_all)
  ultimately show ?thesis by auto
qed

lemma enq_buffers_eq: "enq_buffers xs = cb.enq_all xs"
  by (induction xs) (auto intro!: ext)

text \<open>The first use of a context whose queues are empty and large enough leaves all buffers free.\<close>

lemma first_use_ready:
  assumes "\<not> g_use_compression L" and "\<not> p_init (pctx L)"
    and q: "cb_ok (all_buffers (pctx L))" "cb_abs (all_buffers (pctx L)) = []"
      "g_perthread_buffers \<le> length (slots (all_buffers (pctx L)))"
    and p: "cb_ok (persist_buffers (pctx L))" "cb_abs (persist_buffers (pctx L)) = []"
      "g_perthread_buffers \<le> length (slots (persist_buffers (pctx L)))"
    and "length ws < 2 ^ 32" and "\<forall>r \<in> set ws. length (wr_key r) < 2 ^ 32" and "log_space_needed ws + 16 \<le> g_buffer_size"
  shows "log_ready core ws L"
proof -
  obtain c where c: "enq_buffers [0..<g_perthread_buffers] (all_buffers (pctx L)) = Some c" "cb_ok c"
      "cb_abs c = [0..<g_perthread_buffers]"
    using cb.enq_all [OF q(1), of "[0..<g_perthread_buffers]"] q(2,3) unfolding enq_buffers_eq by auto
  let ?L = "L\<lparr>pctx := (pctx L)\<lparr>all_buffers := c, pbufs := (\<lambda>_. pbuffer_new core g_buffer_size), p_init := True\<rparr>\<rparr>"
  have new: "buffer_log (pbuffer_new core g_buffer_size) []" by (rule pbuffer_new_log) (simp_all add: g_buffer_size_def)
  have pl: "pulled ?L = [0..<g_perthread_buffers]" "pushed ?L = []" using c(3) p(2) by (simp_all add: pulled_def pushed_def)
  have "persist_ctx_for core True L = Inr ?L" using assms(1,2) c(1) by (simp add: persist_ctx_for_def)
  moreover have "log_inv g_buffer_size ?L"
    unfolding log_inv_def pl using c(2) p(1,3) new empty_entries [OF new] by (auto simp: pbuffer_new_def pbuffer_reset_def)
  moreover have "pulled ?L = 0 # [1..<g_perthread_buffers]" "[1..<g_perthread_buffers] \<noteq> []"
    unfolding pl by (simp_all add: g_perthread_buffers_def upt_conv_Cons)
  ultimately show ?thesis using assms(1,9-11) unfolding log_ready_def by blast
qed

section \<open>Entries that fit no buffer\<close>

lemma cramped_buffer: "buffer_log px es \<Longrightarrow> buf_sz px < n + 16 \<Longrightarrow> space_remaining px < n"
  by (auto simp: buffer_log_def space_remaining_def sizeof_logbuf_header_def)

text \<open>
  An entry too large for an empty buffer: every buffer of the core goes to the logger, then the queue is empty.
  More rounds than buffers reach that point.
\<close>

lemma find_buffer_oversized:
  assumes "log_inv sz L" and "sz < space_needed + 16" and "length (pulled L) < fuel"
  shows "find_buffer fuel space_needed tid L = Inl Spin"
  using assms(1,3)
proof (induction fuel arbitrary: L)
  case (Suc fuel)
  have ok: "cb_ok (all_buffers (pctx L))" using Suc.prems(1) by (simp add: log_inv_def)
  show ?case
  proof (cases "pulled L")
    case Nil
    then show ?thesis using cb.peek [OF ok] by (simp add: wait_for_head_def pulled_def)
  next
    case (Cons i "is")
    have head: "wait_for_head (pctx L) = Inr i" by (rule head_of_pulled [OF ok Cons])
    have full: "space_remaining (pbufs (pctx L) i) < space_needed"
      using cramped_buffer log_inv_buffer [OF Suc.prems(1), of i] assms(2) Cons by simp
    let ?n = "ntxns_pushed L + nentries (pbufs (pctx L) i)"
    obtain c where c: "push_head (pctx L) = Inr (i, c)" "log_inv sz (L\<lparr>pctx := c, ntxns_pushed := ?n\<rparr>)"
        "pulled (L\<lparr>pctx := c, ntxns_pushed := ?n\<rparr>) = is"
      using push_head_inv [OF Suc.prems(1) Cons, of ?n] by blast
    have "find_buffer (Suc fuel) space_needed tid L =
        find_buffer fuel space_needed tid (L\<lparr>pctx := c, ntxns_pushed := ?n\<rparr>)"
      unfolding find_buffer.simps(2) head sbind_simps Let_def c(1) prod.case using full by simp
    also have "\<dots> = Inl Spin" using Suc.IH [OF c(2)] c(3) Suc.prems(2) Cons by simp
    finally show ?thesis .
  qed
qed simp

text \<open>
  Property C37 (oversized transactions). With logging on and compression off, let the entry of a transaction be larger
  than an empty log buffer of \<open>sz\<close> bytes has room for (all but the 16 bytes of its header). Then \<^verbatim>\<open>on_tid_finish\<close> does not
  return, however many buffers the core has: it hands every one of them to the logger, empty ones too, and then spins on
  the empty queue. The result is the spin itself; the bound on the rounds of the search is not reached.
\<close>

theorem oversized_txn_spins:
  assumes "log_inv sz L" and "g_persist L" and "\<not> g_use_compression L" and "p_init (pctx L)"
    and "sz < log_space_needed ws + 16"
  shows "on_tid_finish Z core us TXN_COMMITED ws tid L = Inl Spin"
proof -
  let ?L = "L\<lparr>ntxns_committed := ntxns_committed L + 1\<rparr>"
  have inv: "log_inv sz ?L" using assms(1) by (simp add: log_inv_def pushed_def pulled_def)
  have "length (pulled ?L) \<le> length (slots (all_buffers (pctx L)))"
    using assms(1) by (simp add: log_inv_def cb_ok_def ring_of_def pulled_def)
  then show ?thesis
    using assms(2-4) find_buffer_oversized [OF inv assms(5), of "Suc (length (slots (all_buffers (pctx L))))" tid]
    by (simp add: on_tid_finish_def persist_ctx_for_def del: find_buffer.simps)
qed

theorem oversized_txn_spins_witness:
  "\<forall>Z. \<exists>L ws. length ws = 1 \<and> pbufs (pctx L) = (\<lambda>_. pbuffer_new 0 g_buffer_size) \<and>
     pulled L = [0] \<and> on_tid_finish Z 0 0 TXN_COMMITED (ws :: bytes write_record list) (MakeTid 0 1 60) L = Inl Spin"
proof
  fix Z
  let ?rec = "\<lparr>wr_tuple = 0, wr_key = [1], wr_value = Some (replicate g_buffer_size 0), wr_writer = string_writer, wr_btr = 0,
    wr_insert = False, wr_do_write = True\<rparr> :: bytes write_record"
  let ?c = "\<lparr>p_init = True, horizon = pbuffer_new 0 64, all_buffers = \<lparr>slots = [Some 0], cb_head = 0, cb_tail = 0\<rparr>,
    persist_buffers = cb_new 1, pbufs = (\<lambda>_. pbuffer_new 0 g_buffer_size)\<rparr>"
  let ?L = "\<lparr>g_persist = True, g_use_compression = False, pctx = ?c, ntxns_pushed = 0, ntxns_committed = 0\<rparr>"
  have pn: "cb_abs (all_buffers ?c) = [0]" "cb_abs (persist_buffers ?c) = []"
    by (simp_all add: cb_abs_def cb_new_def)
  have ok: "cb_ok (all_buffers ?c)" "cb_ok (persist_buffers ?c)"
    unfolding cb_ok_def pn by (simp_all add: ring_of_def cb_new_def)
  have "buffer_log (pbuffer_new 0 g_buffer_size) []" by (rule pbuffer_new_log) (simp_all add: g_buffer_size_def)
  then have inv: "log_inv g_buffer_size ?L"
    using ok pn by (auto simp: log_inv_def pushed_def pulled_def cb_new_def pbuffer_new_def pbuffer_reset_def)
  have "unat (of_nat g_buffer_size :: u32) = g_buffer_size" by (rule unat_of_nat_small) (simp add: g_buffer_size_def)
  then have "g_buffer_size \<le> record_space ?rec"
    by (simp add: record_space_def value_nbytes_def string_writer_def)
  then have "g_buffer_size < log_space_needed [?rec] + 16" by (simp add: log_space_needed_def)
  then have "on_tid_finish Z 0 0 TXN_COMMITED [?rec] (MakeTid 0 1 60) ?L = Inl Spin"
    by (intro oversized_txn_spins [OF inv]) simp_all
  moreover have "pulled ?L = [0]" using pn by (simp add: pulled_def)
  ultimately show "\<exists>L ws. length ws = 1 \<and> pbufs (pctx L) = (\<lambda>_. pbuffer_new 0 g_buffer_size) \<and>
     pulled L = [0] \<and> on_tid_finish Z 0 0 TXN_COMMITED (ws :: bytes write_record list) (MakeTid 0 1 60) L = Inl Spin"
    by (intro exI [of _ ?L] exI [of _ "[?rec]"]) simp
qed

end
