(* ===== verification/Txn.thy ===== *)
theory Txn
  imports Log_Buffer Px_Queue
begin

text \<open>
  Transactions (\<^verbatim>\<open>src/src/txn_impl.h\<close> and the protocol hooks of \<^verbatim>\<open>src/src/txn_proto2_impl.h\<close>): reads, inserts,
  commit and abort, as one thread executes them while nobody else runs. The index is a parameter. Every
  call returns the new transaction and the new world together with what it returned or threw.
\<close>

section \<open>The index and the world\<close>

record insert_info =
  ii_node :: node
  ii_old_version :: u64
  ii_new_version :: u64

text \<open>
  The operations of \<^verbatim>\<open>concurrent_btree\<close> the transactions use. One state \<open>'ix\<close> holds the nodes of all trees.
  A search returns the value and the node with its version; an insertion reports the node it changed;
  \<open>ix_insert\<close> replaces the value of a key.
\<close>

record 'ix index_ops =
  ix_search :: "'ix \<Rightarrow> btree \<Rightarrow> bytes \<Rightarrow> ptr option \<times> node \<times> u64"
  ix_insert_if_absent :: "'ix \<Rightarrow> btree \<Rightarrow> bytes \<Rightarrow> ptr \<Rightarrow> (insert_info \<times> 'ix) option"
  ix_insert :: "'ix \<Rightarrow> btree \<Rightarrow> bytes \<Rightarrow> ptr \<Rightarrow> 'ix"
  ix_remove :: "'ix \<Rightarrow> btree \<Rightarrow> bytes \<Rightarrow> (ptr \<times> 'ix) option"
  ix_version :: "'ix \<Rightarrow> node \<Rightarrow> u64"

record 'ix env =
  e_ix :: "'ix index_ops"
  e_lz4 :: lz4

text \<open>\<open>de_key\<close> points to a string; \<open>de_flag\<close> is the mark of that pointer: the entry is a logical delete.\<close>

record delete_entry =
  de_tuple :: ptr
  de_key :: "nat option"
  de_flag :: bool
  de_btr :: "btree option"

text \<open>
  Memory, index, the \<^verbatim>\<open>threadctx\<close> of the core (queues, last id, last reaped epoch, pool of strings), the
  tuples handed to RCU, the log, and the ticker as the thread reads it.
\<close>

record 'ix world =
  wheap :: heap
  windex :: 'ix
  wgc :: "delete_entry gc_queues"
  wtid :: tid_ctx
  wlast_reaped :: u32
  wpool :: "nat list"
  wstrs :: "nat \<Rightarrow> bytes"
  wnext_str :: nat
  wrcu :: "ptr list"
  wlog :: log_state
  wtick :: u64
  wlast_tick_ex :: u64
  wcore :: nat
  wstart_us :: u64

datatype 'a outcome = Return 'a | Abort_exn abort_reason | Unusable_exn

section \<open>Locks\<close>

definition lock_tuple :: "bool \<Rightarrow> ptr \<Rightarrow> heap \<Rightarrow> fault + (u32 \<times> heap)" where
  "lock_tuple wi p H =
     sbind (lift_mem (tuple_at H p)) (\<lambda>x.
     sbind (or_spin (try_lock wi (hdr x))) (\<lambda>h. Inr (h, tuple_put p (x\<lparr>hdr := h\<rparr>) H)))"

definition unlock_tuple :: "ptr \<Rightarrow> heap \<Rightarrow> fault + heap" where
  "unlock_tuple p H =
     sbind (lift_mem (tuple_at H p)) (\<lambda>x. Inr (tuple_put p (x\<lparr>hdr := unlock_hdr (hdr x)\<rparr>) H))"

definition clear_latest :: "ptr \<Rightarrow> heap \<Rightarrow> fault + heap" where
  "clear_latest p H =
     sbind (lift_mem (tuple_at H p)) (\<lambda>x. Inr (tuple_put p (x\<lparr>hdr := clear_latest_hdr (hdr x)\<rparr>) H))"

section \<open>Abort\<close>

definition cleanup_inserted_tuple_marker ::
  "'ix env \<Rightarrow> ptr \<Rightarrow> bytes \<Rightarrow> btree \<Rightarrow> 'ix world \<Rightarrow> fault + 'ix world" where
  "cleanup_inserted_tuple_marker E marker key btr w =
     (case ix_remove (e_ix E) (windex w) btr key of
        None \<Rightarrow> Inl (Mem Assert_failed)
      | Some (removed, ix) \<Rightarrow>
          sbind (clear_latest marker (wheap w)) (\<lambda>H.
            Inr (w\<lparr>windex := ix, wheap := H, wrcu := wrcu w @ [marker]\<rparr>)))"

definition unlock_world :: "ptr \<Rightarrow> 'ix world \<Rightarrow> fault + 'ix world" where
  "unlock_world p w = sbind (unlock_tuple p (wheap w)) (\<lambda>H. Inr (w\<lparr>wheap := H\<rparr>))"

fun release_inserts :: "'ix env \<Rightarrow> 'v write_record list \<Rightarrow> 'ix world \<Rightarrow> fault + 'ix world" where
  "release_inserts E [] w = Inr w"
| "release_inserts E (r # rs) w =
     (if wr_insert r
      then sbind (cleanup_inserted_tuple_marker E (wr_tuple r) (wr_key r) (wr_btr r) w) (\<lambda>w1.
           sbind (unlock_world (wr_tuple r) w1) (\<lambda>w2. release_inserts E rs w2))
      else release_inserts E rs w)"

definition abort_impl ::
  "'ix env \<Rightarrow> abort_reason \<Rightarrow> 'v txn \<Rightarrow> 'ix world \<Rightarrow> fault + (unit outcome \<times> 'v txn \<times> 'ix world)" where
  "abort_impl E r t w =
     (case state t of
        TXN_ABRT \<Rightarrow> Inr (Return (), t, w)
      | TXN_COMMITED \<Rightarrow> Inr (Unusable_exn, t, w)
      | _ \<Rightarrow> sbind (release_inserts E (write_set t) w) (\<lambda>w1.
               Inr (Return (), t\<lparr>state := TXN_ABRT, reason := r\<rparr>, w1)))"

definition abort_txn :: "'ix env \<Rightarrow> 'v txn \<Rightarrow> 'ix world \<Rightarrow> fault + (unit outcome \<times> 'v txn \<times> 'ix world)" where
  "abort_txn E t w = abort_impl E ABORT_REASON_USER t w"

text \<open>\<^verbatim>\<open>abort_impl(r); throw transaction_abort_exception(r)\<close>.\<close>

definition abort_throw ::
  "'ix env \<Rightarrow> abort_reason \<Rightarrow> 'v txn \<Rightarrow> 'ix world \<Rightarrow> fault + ('a outcome \<times> 'v txn \<times> 'ix world)" where
  "abort_throw E r t w =
     sbind (abort_impl E r t w) (\<lambda>(out, t1, w1).
       case out of Unusable_exn \<Rightarrow> Inr (Unusable_exn, t1, w1) | _ \<Rightarrow> Inr (Abort_exn r, t1, w1))"

section \<open>Reads and inserts\<close>

text \<open>A chain visits each tuple of the heap at most once, so this many iterations are enough.\<close>

definition read_fuel :: "heap \<Rightarrow> nat" where
  "read_fuel H = Suc (brk H)"

definition can_read_tid :: "u64 \<Rightarrow> bool" where
  "can_read_tid t \<longleftrightarrow> True"

text \<open>
  \<open>read_own\<close> is \<^verbatim>\<open>Traits::read_own_writes\<close>. The reader turns bytes into a result, \<open>dup\<close> does so with a value of
  the write set. The result is what \<^verbatim>\<open>value_reader\<close> holds, \<open>None\<close> for an empty read.
\<close>

definition do_tuple_read ::
  "'ix env \<Rightarrow> bool \<Rightarrow> ('v \<Rightarrow> 'r) \<Rightarrow> (bytes \<Rightarrow> 'r option) \<Rightarrow> ptr \<Rightarrow> 'v txn \<Rightarrow> 'ix world \<Rightarrow>
   fault + ('r option outcome \<times> 'v txn \<times> 'ix world)" where
  "do_tuple_read E read_own dup reader p t w =
     (let snap = (if is_snapshot t then snapshot_tid t else MAX_TID);
          own = (if read_own then find_write_set p (write_set t) else None)
      in case own of
           Some r \<Rightarrow> Inr (Return (map_option dup (wr_value r)), t, w)
         | None \<Rightarrow>
             sbind (lift_mem (stable_read (read_fuel (wheap w)) (\<lambda>_. cells (wheap w)) 0 p snap reader (is_snapshot t))) (\<lambda>res.
             sbind (or_spin res) (\<lambda>(stat, start_t, r, _).
               if stat = READ_FAILED then abort_throw E ABORT_REASON_UNSTABLE_READ t w
               else if \<not> can_read_tid start_t then abort_throw E ABORT_REASON_FUTURE_TID_READ t w
               else let t1 = (if \<not> is_snapshot t
                              then t\<lparr>read_set := read_set t @ [\<lparr>rr_tuple = p, rr_tid = start_t\<rparr>]\<rparr> else t)
                    in Inr (Return (if stat = READ_EMPTY then None else r), t1, w))))"

definition do_node_read ::
  "'ix env \<Rightarrow> node \<Rightarrow> u64 \<Rightarrow> 'v txn \<Rightarrow> 'ix world \<Rightarrow> fault + (unit outcome \<times> 'v txn \<times> 'ix world)" where
  "do_node_read E n v t w =
     (if is_snapshot t then Inr (Return (), t, w)
      else case map_of (absent_set t) n of
             None \<Rightarrow> Inr (Return (), t\<lparr>absent_set := absent_set t @ [(n, v)]\<rparr>, w)
           | Some v' \<Rightarrow>
               if v' \<noteq> v then abort_throw E ABORT_REASON_NODE_SCAN_READ_VERSION_CHANGED t w
               else Inr (Return (), t, w))"

definition set_version :: "node \<Rightarrow> u64 \<Rightarrow> (node \<times> u64) list \<Rightarrow> (node \<times> u64) list" where
  "set_version n v as = map (\<lambda>(m, u). if m = n then (m, v) else (m, u)) as"

text \<open>The new tuple (\<open>None\<close>: the key was there) and whether the transaction must abort.\<close>

definition try_insert_new_tuple ::
  "'ix env \<Rightarrow> btree \<Rightarrow> bytes \<Rightarrow> 'v option \<Rightarrow> 'v tuple_writer \<Rightarrow> 'v txn \<Rightarrow> 'ix world \<Rightarrow>
   fault + ((ptr option \<times> bool) \<times> 'v txn \<times> 'ix world)" where
  "try_insert_new_tuple E btr key v W t w =
     sbind (case v of None \<Rightarrow> Inr 0 | Some u \<Rightarrow> lift_mem (w_needed W u [] 0)) (\<lambda>sz.
     case alloc_first sz True (wheap w) of (tuple, H) \<Rightarrow>
     sbind (lift_mem (tuple_at H tuple)) (\<lambda>x.
     sbind (case v of None \<Rightarrow> Inr (value_start x) | Some u \<Rightarrow> lift_mem (w_write W u (value_start x) 0)) (\<lambda>buf.
     let H1 = tuple_put tuple (x\<lparr>value_start := buf\<rparr>) H
     in case ix_insert_if_absent (e_ix E) (windex w) btr key tuple of
          None \<Rightarrow>
            sbind (clear_latest tuple H1) (\<lambda>H2.
            sbind (unlock_tuple tuple H2) (\<lambda>H3.
              Inr ((None, False), t, w\<lparr>wheap := heap_free tuple H3\<rparr>)))
        | Some (info, ix) \<Rightarrow>
            let t1 = t\<lparr>write_set := write_set t @ [new_write_record tuple key v W btr True]\<rparr>;
                w1 = w\<lparr>wheap := H1, windex := ix\<rparr>
            in case map_of (absent_set t) (ii_node info) of
                 None \<Rightarrow> Inr ((Some tuple, False), t1, w1)
               | Some ver \<Rightarrow>
                   if ver \<noteq> ii_old_version info
                   then Inr ((Some tuple, True), t1\<lparr>reason := ABORT_REASON_WRITE_NODE_INTERFERENCE\<rparr>, w1)
                   else Inr ((Some tuple, False),
                             t1\<lparr>absent_set := set_version (ii_node info) (ii_new_version info) (absent_set t)\<rparr>, w1))))"

section \<open>Commit: locking\<close>

definition handle_last_tuple_in_group ::
  "dbtuple_write_info \<Rightarrow> bool \<Rightarrow> 'v write_record list \<Rightarrow> heap \<Rightarrow>
   fault + (bool \<times> dbtuple_write_info \<times> 'v write_record list \<times> heap)" where
  "handle_last_tuple_in_group px did_group_insert ws H =
     (if did_group_insert
      then Inr (True, px, if \<not> wi_insert px then set_do_write (wi_entry px) ws else ws, H)
      else
        sbind (lift_mem (tuple_at H (wi_tuple px))) (\<lambda>x.
          if tversion x = MAX_TID then Inr (False, px, ws, H)
          else sbind (lock_tuple True (wi_tuple px) H) (\<lambda>(v, H1).
                 if \<not> IsLatest v \<or> \<not> can_read_tid (tversion x)
                 then Inr (False, mark_locked px, ws, H1)
                 else Inr (True, mark_locked px, set_do_write (wi_entry px) ws, H1))))"

text \<open>
  The loop over the sorted entries: \<open>done\<close> are the entries before \<open>last_px\<close>, \<open>ins\<close> is
  \<^verbatim>\<open>inserted_last_run\<close>. The result says whether to go on.
\<close>

fun lock_loop ::
  "dbtuple_write_info list \<Rightarrow> dbtuple_write_info option \<Rightarrow> bool \<Rightarrow> dbtuple_write_info list \<Rightarrow> 'v write_record list \<Rightarrow> heap \<Rightarrow>
   fault + (bool \<times> dbtuple_write_info list \<times> 'v write_record list \<times> heap)" where
  "lock_loop done None ins [] ws H = Inr (True, done, ws, H)"
| "lock_loop done (Some px) ins [] ws H =
     sbind (handle_last_tuple_in_group px ins ws H) (\<lambda>(ok, px', ws', H'). Inr (ok, done @ [px'], ws', H'))"
| "lock_loop done None ins (i # is) ws H =
     lock_loop done (Some i) (ins \<or> wi_insert i) is (if wi_insert i then set_do_write (wi_entry i) ws else ws) H"
| "lock_loop done (Some px) ins (i # is) ws H =
     (if wi_tuple px \<noteq> wi_tuple i
      then sbind (handle_last_tuple_in_group px ins ws H) (\<lambda>(ok, px', ws', H').
             if \<not> ok then Inr (False, done @ [px'] @ i # is, ws', H')
             else lock_loop (done @ [px']) (Some i) (wi_insert i) is
                    (if wi_insert i then set_do_write (wi_entry i) ws' else ws') H')
      else lock_loop (done @ [px]) (Some i) (ins \<or> wi_insert i) is
             (if wi_insert i then set_do_write (wi_entry i) ws else ws) H)"

section \<open>Commit: validation\<close>

fun write_versions :: "dbtuple_write_info list \<Rightarrow> heap \<Rightarrow> fault + (bool \<times> u64) list" where
  "write_versions [] H = Inr []"
| "write_versions (i # is) H =
     (if wi_insert i then sbind (write_versions is H) (\<lambda>vs. Inr ((True, MAX_TID) # vs))
      else sbind (lift_mem (tuple_at H (wi_tuple i))) (\<lambda>x.
           sbind (write_versions is H) (\<lambda>vs. Inr ((False, tversion x) # vs))))"

fun validate_reads :: "dbtuple_write_info list \<Rightarrow> read_record list \<Rightarrow> heap \<Rightarrow> fault + bool" where
  "validate_reads is [] H = Inr True"
| "validate_reads is (r # rs) H =
     sbind (lift_mem (if sorted_dbtuples_contains is (rr_tuple r)
                      then sbind (tuple_at H (rr_tuple r)) (\<lambda>x. Inr (is_latest_version x (rr_tid r)))
                      else stable_is_latest_version (\<lambda>_. cells H) 0 (rr_tuple r) (rr_tid r))) (\<lambda>ok.
       if ok then validate_reads is rs H else Inr False)"

fun validate_nodes :: "'ix env \<Rightarrow> (node \<times> u64) list \<Rightarrow> 'ix \<Rightarrow> bool" where
  "validate_nodes E [] ix \<longleftrightarrow> True"
| "validate_nodes E ((n, v) # as) ix \<longleftrightarrow> (if ix_version (e_ix E) ix n \<noteq> v then False else validate_nodes E as ix)"

section \<open>Commit: writing\<close>

definition GC_GroupSize :: nat where
  "GC_GroupSize = 4096"

definition gc_enqueue :: "delete_entry \<Rightarrow> u64 \<Rightarrow> 'ix world \<Rightarrow> fault + 'ix world" where
  "gc_enqueue e tick w =
     (case gq_enqueue GC_GroupSize e tick (wgc w) of
        None \<Rightarrow> Inl (Mem Past_end)
      | Some q \<Rightarrow> Inr (w\<lparr>wgc := q\<rparr>))"

definition on_dbtuple_spill :: "u64 \<Rightarrow> ptr \<Rightarrow> 'ix world \<Rightarrow> fault + 'ix world" where
  "on_dbtuple_spill commit_epoch tuple w =
     sbind (lift_mem (tuple_at (wheap w) tuple)) (\<lambda>x.
       if IsDeleting (hdr x) then Inr w
       else gc_enqueue \<lparr>de_tuple = tuple, de_key = None, de_flag = False, de_btr = None\<rparr>
              (to_read_only_tick commit_epoch) w)"

definition on_logical_delete :: "u64 \<Rightarrow> ptr \<Rightarrow> bytes \<Rightarrow> btree \<Rightarrow> 'ix world \<Rightarrow> fault + 'ix world" where
  "on_logical_delete commit_epoch tuple key btr w =
     sbind (lift_mem (tuple_at (wheap w) tuple)) (\<lambda>x.
     let ro_tick = to_read_only_tick commit_epoch
     in if length key \<le> unat (alloc_size x)
        then sbind (lift_mem (mem_copy key (length key) (value_start x))) (\<lambda>buf.
               gc_enqueue \<lparr>de_tuple = tuple, de_key = None, de_flag = True, de_btr = Some btr\<rparr> ro_tick
                 (w\<lparr>wheap := tuple_put tuple (x\<lparr>value_start := buf, tsize := of_nat (length key)\<rparr>) (wheap w)\<rparr>))
        else
          case (case wpool w of
                  [] \<Rightarrow> (wnext_str w, w\<lparr>wnext_str := Suc (wnext_str w)\<rparr>)
                | s # ss \<Rightarrow> (s, w\<lparr>wpool := ss\<rparr>)) of
            (spx, w1) \<Rightarrow>
              gc_enqueue \<lparr>de_tuple = tuple, de_key = Some spx, de_flag = True, de_btr = Some btr\<rparr> ro_tick
                (w1\<lparr>wstrs := (wstrs w1)(spx := key)\<rparr>))"

definition lock_world :: "ptr \<Rightarrow> 'ix world \<Rightarrow> fault + 'ix world" where
  "lock_world p w = sbind (lock_tuple True p (wheap w)) (\<lambda>(_, H). Inr (w\<lparr>wheap := H\<rparr>))"

definition commit_write :: "'ix env \<Rightarrow> u64 \<Rightarrow> u64 \<Rightarrow> 'v write_record \<Rightarrow> 'ix world \<Rightarrow> fault + 'ix world" where
  "commit_write E commit_epoch commit_tid r w =
     (if \<not> wr_do_write r then Inr w
      else if wr_insert r
      then sbind (lift_mem (tuple_at (wheap w) (wr_tuple r))) (\<lambda>x.
             Inr (w\<lparr>wheap := tuple_put (wr_tuple r) (x\<lparr>tversion := commit_tid\<rparr>) (wheap w)\<rparr>))
      else
        sbind (lift_mem (write_record_at (wr_writer r) (wheap w) (wr_tuple r) commit_tid (wr_value r))) (\<lambda>(ret, H1).
        let replaced = (head_tuple ret \<noteq> wr_tuple r); w1 = w\<lparr>wheap := H1\<rparr>
        in sbind (if replaced
                  then sbind (lock_world (head_tuple ret) w1) (\<lambda>w2.
                         Inr (w2\<lparr>windex := ix_insert (e_ix E) (windex w2) (wr_btr r) (wr_key r) (head_tuple ret)\<rparr>))
                  else Inr w1) (\<lambda>w3.
           sbind (case rest_tuple ret of None \<Rightarrow> Inr w3 | Some p \<Rightarrow> on_dbtuple_spill commit_epoch p w3) (\<lambda>w4.
           sbind (if wr_value r = None then on_logical_delete commit_epoch (head_tuple ret) (wr_key r) (wr_btr r) w4
                  else Inr w4) (\<lambda>w5.
           if replaced then unlock_world (head_tuple ret) w5 else Inr w5)))))"

fun commit_writes :: "'ix env \<Rightarrow> u64 \<Rightarrow> u64 \<Rightarrow> 'v write_record list \<Rightarrow> 'ix world \<Rightarrow> fault + 'ix world" where
  "commit_writes E ep tid [] w = Inr w"
| "commit_writes E ep tid (r # rs) w = sbind (commit_write E ep tid r w) (\<lambda>w1. commit_writes E ep tid rs w1)"

fun unlock_infos :: "dbtuple_write_info list \<Rightarrow> 'ix world \<Rightarrow> fault + 'ix world" where
  "unlock_infos [] w = Inr w"
| "unlock_infos (i # is) w =
     sbind (if wi_locked i then unlock_world (wi_tuple i) w else Inr w) (\<lambda>w1. unlock_infos is w1)"

text \<open>The entries behind the label \<^verbatim>\<open>do_abort\<close>.\<close>

fun abort_infos :: "'ix env \<Rightarrow> 'v write_record list \<Rightarrow> dbtuple_write_info list \<Rightarrow> 'ix world \<Rightarrow> fault + 'ix world" where
  "abort_infos E ws [] w = Inr w"
| "abort_infos E ws (i # is) w =
     (if wi_locked i
      then sbind (if wi_insert i
                  then cleanup_inserted_tuple_marker E (wi_tuple i) (wr_key (ws ! wi_entry i)) (wr_btr (ws ! wi_entry i)) w
                  else Inr w) (\<lambda>w1.
           sbind (unlock_world (wi_tuple i) w1) (\<lambda>w2. abort_infos E ws is w2))
      else abort_infos E ws is w)"

section \<open>Commit\<close>

definition txn_finish ::
  "'ix env \<Rightarrow> 'v txn \<Rightarrow> u64 option \<Rightarrow> 'ix world \<Rightarrow> fault + 'ix world" where
  "txn_finish E t commit_tid w =
     (case commit_tid of
        None \<Rightarrow> Inr w
      | Some tid \<Rightarrow>
          sbind (on_tid_finish (e_lz4 E) (wcore w) (wstart_us w) (state t) (write_set t) tid (wlog w)) (\<lambda>L.
            Inr (w\<lparr>wlog := L\<rparr>)))"

definition commit_success ::
  "'ix env \<Rightarrow> u64 option \<Rightarrow> 'v txn \<Rightarrow> 'ix world \<Rightarrow> fault + (bool outcome \<times> 'v txn \<times> 'ix world)" where
  "commit_success E commit_tid t w =
     (let t1 = t\<lparr>state := TXN_COMMITED\<rparr>
      in sbind (txn_finish E t1 commit_tid w) (\<lambda>w1. Inr (Return True, t1, w1)))"

definition do_abort ::
  "'ix env \<Rightarrow> bool \<Rightarrow> abort_reason \<Rightarrow> u64 option \<Rightarrow> dbtuple_write_info list \<Rightarrow> 'v txn \<Rightarrow> 'ix world \<Rightarrow>
   fault + (bool outcome \<times> 'v txn \<times> 'ix world)" where
  "do_abort E doThrow r commit_tid is t w =
     sbind (abort_infos E (write_set t) is w) (\<lambda>w1.
     let t1 = t\<lparr>reason := r, state := TXN_ABRT\<rparr>
     in sbind (txn_finish E t1 commit_tid w1) (\<lambda>w2.
          Inr (if doThrow then Abort_exn r else Return False, t1, w2)))"

text \<open>From the validation on; \<open>is\<close> are the locked entries, \<open>commit_tid\<close> the id, if there are writes.\<close>

definition validate_and_write ::
  "'ix env \<Rightarrow> bool \<Rightarrow> u64 option \<Rightarrow> dbtuple_write_info list \<Rightarrow> 'v txn \<Rightarrow> 'ix world \<Rightarrow>
   fault + (bool outcome \<times> 'v txn \<times> 'ix world)" where
  "validate_and_write E doThrow commit_tid is t w =
     sbind (validate_reads is (read_set t) (wheap w)) (\<lambda>ok.
       if \<not> ok then do_abort E doThrow ABORT_REASON_READ_NODE_INTEREFERENCE commit_tid is t w
       else if \<not> validate_nodes E (absent_set t) (windex w)
       then do_abort E doThrow ABORT_REASON_NODE_SCAN_READ_VERSION_CHANGED commit_tid is t w
       else case commit_tid of
              None \<Rightarrow> commit_success E None t w
            | Some tid \<Rightarrow>
                sbind (commit_writes E (u_word t) tid (write_set t) w) (\<lambda>w1.
                sbind (unlock_infos is w1) (\<lambda>w2. commit_success E (Some tid) t w2)))"

definition commit ::
  "'ix env \<Rightarrow> bool \<Rightarrow> 'v txn \<Rightarrow> 'ix world \<Rightarrow> fault + (bool outcome \<times> 'v txn \<times> 'ix world)" where
  "commit E doThrow t w =
     (case state t of
        TXN_COMMITED \<Rightarrow> Inr (Return True, t, w)
      | TXN_ABRT \<Rightarrow> Inr (if doThrow then Abort_exn (reason t) else Return False, t, w)
      | _ \<Rightarrow>
          if is_snapshot t then commit_success E None t w
          else if write_set t = [] then validate_and_write E doThrow None [] t w
          else
            sbind (lock_loop [] None False (sort_write_infos (collect_write_infos (write_set t))) (write_set t) (wheap w))
              (\<lambda>(ok, is, ws, H).
                 let t1 = t\<lparr>write_set := ws\<rparr>; w1 = w\<lparr>wheap := H\<rparr>
                 in if \<not> ok then do_abort E doThrow ABORT_REASON_WRITE_NODE_INTERFERENCE None is t1 w1
                    else
                      sbind (write_versions is H) (\<lambda>vs.
                      case gen_commit_tid (wtid w) (of_nat (wcore w)) (wtick w) (map rr_tid (read_set t)) vs of
                        (tid, ctx) \<Rightarrow>
                          validate_and_write E doThrow (Some tid) is (t1\<lparr>u_word := wtick w\<rparr>) (w1\<lparr>wtid := ctx\<rparr>))))"

end
