(* ===== verification/Txn_Commit.thy ===== *)
theory Txn_Commit
  imports Txn "HOL-Library.Multiset"
begin

text \<open>
  What the phases of a commit do: which tuples the lock phase locks and which entries it marks for writing,
  what an abort restores, what a successful validation guarantees.
\<close>

section \<open>Effects of locking on the heap\<close>

definition lk :: "dbtuple \<Rightarrow> dbtuple" where
  "lk x = x\<lparr>hdr := hdr x OR lockmask True\<rparr>"

definition ulk :: "dbtuple \<Rightarrow> dbtuple" where
  "ulk x = x\<lparr>hdr := unlock_hdr (hdr x)\<rparr>"

definition drop_latest :: "dbtuple \<Rightarrow> dbtuple" where
  "drop_latest x = x\<lparr>hdr := clear_latest_hdr (hdr x)\<rparr>"

definition upd_heap :: "(dbtuple \<Rightarrow> dbtuple) \<Rightarrow> ptr set \<Rightarrow> heap \<Rightarrow> heap" where
  "upd_heap f A H = H\<lparr>cells := (\<lambda>p. if p \<in> A then map_option f (cells H p) else cells H p)\<rparr>"

lemma upd_heap_simps [simp]:
  "cells (upd_heap f A H) p = (if p \<in> A then map_option f (cells H p) else cells H p)"
  "brk (upd_heap f A H) = brk H" "raw (upd_heap f A H) = raw H"
  by (simp_all add: upd_heap_def)

lemma upd_heap_empty [simp]: "upd_heap f {} H = H"
  by (simp add: upd_heap_def)

lemma heap_eqI:
  fixes H H' :: heap
  shows "(\<And>p. cells H p = cells H' p) \<Longrightarrow> brk H = brk H' \<Longrightarrow> raw H = raw H' \<Longrightarrow> H = H'"
  by (cases H, cases H') auto

lemma upd_heap_union: "A \<inter> B = {} \<Longrightarrow> upd_heap f A (upd_heap f B H) = upd_heap f (A \<union> B) H"
  by (rule heap_eqI) auto

lemma tuple_put_upd: "cells H p = Some x \<Longrightarrow> tuple_put p (f x) H = upd_heap f {p} H"
  by (rule heap_eqI) (auto simp: tuple_put_def)

lemma lock_tuple_Inr:
  "lock_tuple True p H = Inr (v, H') \<longleftrightarrow>
     (\<exists>x. cells H p = Some x \<and> \<not> IsLocked (hdr x) \<and> v = hdr x OR lockmask True \<and> H' = upd_heap lk {p} H)"
proof (cases "cells H p")
  case (Some x)
  then show ?thesis
    using tuple_put_upd [OF Some, of lk] by (auto simp: lock_tuple_def tuple_at_def try_lock_def lk_def)
qed (simp add: lock_tuple_def tuple_at_def)

lemma unlock_tuple_Inr:
  "unlock_tuple p H = Inr H' \<longleftrightarrow> (\<exists>x. cells H p = Some x \<and> H' = upd_heap ulk {p} H)"
proof (cases "cells H p")
  case (Some x)
  then show ?thesis using tuple_put_upd [OF Some, of ulk] by (auto simp: unlock_tuple_def tuple_at_def ulk_def)
qed (simp add: unlock_tuple_def tuple_at_def)

lemma clear_latest_Inr:
  "clear_latest p H = Inr H' \<longleftrightarrow> (\<exists>x. cells H p = Some x \<and> H' = upd_heap drop_latest {p} H)"
proof (cases "cells H p")
  case (Some x)
  then show ?thesis
    using tuple_put_upd [OF Some, of drop_latest] by (auto simp: clear_latest_def tuple_at_def drop_latest_def)
qed (simp add: clear_latest_def tuple_at_def)

lemma lock_flags:
  "IsLatest (h OR lockmask wi) = IsLatest h" "IsDeleting (h OR lockmask wi) = IsDeleting h"
  "IsLocked (h OR lockmask wi)" "IsWriteIntent (h OR lockmask True)" "IsModifying (h OR lockmask wi) = IsModifying h"
  by (simp_all add: hdr_flag_bits hdr_bit_simps)

lemma drop_latest_flags:
  "\<not> IsLatest (clear_latest_hdr h)" "IsLocked (clear_latest_hdr h) = IsLocked h"
  "IsDeleting (clear_latest_hdr h) = IsDeleting h"
  by (simp_all add: hdr_flag_bits hdr_bit_simps)

section \<open>The lock phase\<close>

text \<open>The tuples locked by the commit itself; an insert has been locked since its creation.\<close>

definition newly_locked :: "dbtuple_write_info list \<Rightarrow> ptr list" where
  "newly_locked is = map wi_tuple (filter (\<lambda>i. wi_locked i \<and> \<not> wi_insert i) is)"

lemma newly_locked_simps [simp]:
  "newly_locked [] = []" "newly_locked (is @ js) = newly_locked is @ newly_locked js"
  "newly_locked (i # is) = (if wi_locked i \<and> \<not> wi_insert i then wi_tuple i # newly_locked is else newly_locked is)"
  by (simp_all add: newly_locked_def)

definition lockable :: "heap \<Rightarrow> ptr \<Rightarrow> bool" where
  "lockable H p \<longleftrightarrow> (\<exists>x. cells H p = Some x \<and> \<not> IsLocked (hdr x) \<and> tversion x \<noteq> MAX_TID)"

definition latest_at :: "heap \<Rightarrow> ptr \<Rightarrow> bool" where
  "latest_at H p \<longleftrightarrow> (\<exists>x. cells H p = Some x \<and> IsLatest (hdr x))"

definition marks :: "'v write_record list \<Rightarrow> 'v write_record list \<Rightarrow> bool" where
  "marks ws ws' \<longleftrightarrow> list_all2 (\<lambda>r r'. r' = r \<or> r' = r\<lparr>wr_do_write := True\<rparr>) ws ws'"

lemma marks_refl: "marks ws ws"
  by (simp add: marks_def list_all2_refl)

lemma marks_trans: "marks ws ws' \<Longrightarrow> marks ws' ws'' \<Longrightarrow> marks ws ws''"
  unfolding marks_def by (rule list_all2_trans) auto

lemma marks_set: "marks ws (set_do_write k ws)"
proof (cases "k < length ws")
  case True
  then show ?thesis
    by (auto simp: marks_def set_do_write_def list_all2_conv_all_nth nth_list_update)
qed (simp add: set_do_write_def marks_refl list_update_beyond)

lemma marks_nth:
  "marks ws ws' \<Longrightarrow> length ws' = length ws" "marks ws ws' \<Longrightarrow> k < length ws \<Longrightarrow> wr_tuple (ws' ! k) = wr_tuple (ws ! k)"
  "marks ws ws' \<Longrightarrow> k < length ws \<Longrightarrow> wr_key (ws' ! k) = wr_key (ws ! k)"
  "marks ws ws' \<Longrightarrow> k < length ws \<Longrightarrow> wr_btr (ws' ! k) = wr_btr (ws ! k)"
  "marks ws ws' \<Longrightarrow> k < length ws \<Longrightarrow> wr_insert (ws' ! k) = wr_insert (ws ! k)"
  by (auto simp: marks_def list_all2_conv_all_nth dest!: spec [where x = k])

lemma mark_locked_simps [simp]:
  "wi_tuple (mark_locked i) = wi_tuple i" "wi_entry (mark_locked i) = wi_entry i" "wi_pos (mark_locked i) = wi_pos i"
  "wi_insert (mark_locked i) = wi_insert i" "wi_locked (mark_locked i)"
  by (simp_all add: mark_locked_def)

lemma handle_last:
  assumes "handle_last_tuple_in_group px ins ws H = Inr (ok, px', ws', H')" and "wi_insert px \<longrightarrow> ins"
    and "wi_locked px = wi_insert px"
  shows "marks ws ws' \<and> (px' = px \<or> px' = mark_locked px) \<and>
    (if ins then ok \<and> px' = px \<and> H' = H
     else if px' = mark_locked px then lockable H (wi_tuple px) \<and> H' = upd_heap lk {wi_tuple px} H \<and>
       ok = latest_at H (wi_tuple px)
     else \<not> ok \<and> H' = H)"
proof (cases ins)
  case True
  then show ?thesis
    using assms by (auto simp: handle_last_tuple_in_group_def marks_refl marks_set)
next
  case False
  obtain x where x: "cells H (wi_tuple px) = Some x"
    using assms(1) False by (cases "cells H (wi_tuple px)") (auto simp: handle_last_tuple_in_group_def tuple_at_def)
  show ?thesis
  proof (cases "tversion x = MAX_TID")
    case True
    then have "\<not> ok \<and> px' = px \<and> ws' = ws \<and> H' = H"
      using assms(1) False x by (simp add: handle_last_tuple_in_group_def tuple_at_def)
    moreover have "px \<noteq> mark_locked px" using assms(2,3) False mark_locked_simps(5) by metis
    ultimately show ?thesis using False marks_refl by auto
  next
    case ver: False
    obtain v H1 where l: "lock_tuple True (wi_tuple px) H = Inr (v, H1)"
      using assms(1) False x ver by (cases "lock_tuple True (wi_tuple px) H") (auto simp: handle_last_tuple_in_group_def tuple_at_def)
    then have l': "\<not> IsLocked (hdr x)" "v = hdr x OR lockmask True" "H1 = upd_heap lk {wi_tuple px} H"
      using x by (auto simp: lock_tuple_Inr)
    have "px' = mark_locked px \<and> H' = H1 \<and> ok = IsLatest (hdr x) \<and> (ws' = ws \<or> ws' = set_do_write (wi_entry px) ws)"
      using assms(1) False x ver l l'(2)
      by (auto simp: handle_last_tuple_in_group_def tuple_at_def can_read_tid_def lock_flags split: if_splits)
    then show ?thesis
      using False l' x ver marks_refl marks_set by (auto simp: lockable_def latest_at_def)
  qed
qed

text \<open>
  The entries after the lock phase are the sorted ones, some of them marked as locked; one entry per locked
  tuple, and only for tuples the transaction did not insert.
\<close>

definition relocked :: "dbtuple_write_info list \<Rightarrow> dbtuple_write_info list \<Rightarrow> bool" where
  "relocked is ms \<longleftrightarrow> list_all2 (\<lambda>i m. m = i \<or> m = mark_locked i) is ms"

lemma relocked_simps [simp]:
  "relocked [] ms \<longleftrightarrow> ms = []"
  "relocked (i # is) ms \<longleftrightarrow> (\<exists>m ms'. ms = m # ms' \<and> (m = i \<or> m = mark_locked i) \<and> relocked is ms')"
  by (auto simp: relocked_def list_all2_Cons1)

lemma relocked_refl: "relocked is is"
  by (simp add: relocked_def list_all2_refl)

lemma unlocked_none: "\<forall>i \<in> set is. wi_locked i = wi_insert i \<Longrightarrow> newly_locked is = []"
  by (induction "is") auto

lemma relocked_tuples: "relocked is ms \<Longrightarrow> map wi_tuple ms = map wi_tuple is \<and> map wi_insert ms = map wi_insert is \<and>
    map wi_entry ms = map wi_entry is"
  by (induction "is" arbitrary: ms) auto

lemma newly_locked_sub: "set (newly_locked ms) \<subseteq> set (map wi_tuple ms)"
  by (auto simp: newly_locked_def)

definition has_insert :: "dbtuple_write_info list \<Rightarrow> ptr \<Rightarrow> bool" where
  "has_insert is p \<longleftrightarrow> (\<exists>i \<in> set is. wi_tuple i = p \<and> wi_insert i)"

text \<open>What is known of the rest of the loop, from the entry \<open>px\<close> on; \<open>ins\<close>: its tuple was inserted.\<close>

definition locked_phase ::
  "dbtuple_write_info \<Rightarrow> bool \<Rightarrow> dbtuple_write_info list \<Rightarrow> heap \<Rightarrow> bool \<Rightarrow> dbtuple_write_info list \<Rightarrow> heap \<Rightarrow> bool" where
  "locked_phase px ins is H ok ms H' \<longleftrightarrow>
     relocked (px # is) ms \<and> H' = upd_heap lk (set (newly_locked ms)) H \<and> distinct (newly_locked ms) \<and>
     (\<forall>p \<in> set (newly_locked ms). lockable H p \<and> (ok \<longrightarrow> latest_at H p) \<and> \<not> has_insert (px # is) p \<and>
        \<not> (p = wi_tuple px \<and> ins)) \<and>
     (ok \<longrightarrow> (\<forall>i \<in> set (px # is). wi_tuple i \<in> set (newly_locked ms) \<or> has_insert (px # is) (wi_tuple i) \<or>
        (wi_tuple i = wi_tuple px \<and> ins)))"

lemma sorted_strict:
  assumes "sorted_wrt write_info_less (px # i # is)" and "wi_tuple px \<noteq> wi_tuple i" and "j \<in> set (i # is)"
  shows "wi_tuple px < wi_tuple j"
proof -
  have "wi_tuple px < wi_tuple i" using assms(1,2) by (auto simp: write_info_less_def)
  moreover have "wi_tuple i \<le> wi_tuple j" using assms(1,3) by (auto simp: write_info_less_def)
  ultimately show ?thesis by simp
qed

lemma handle_last_phase:
  assumes "handle_last_tuple_in_group px ins ws H = Inr (ok, px', ws', H')" and "wi_insert px \<longrightarrow> ins"
    and "wi_locked px = wi_insert px"
  shows "marks ws ws'" and "locked_phase px ins [] H ok [px'] H'"
proof -
  note h = handle_last [OF assms]
  show "marks ws ws'" using h by blast
  show "locked_phase px ins [] H ok [px'] H'"
  proof (cases ins)
    case True
    then have "ok \<and> px' = px \<and> H' = H" using h by simp
    then show ?thesis using True assms(3) by (simp add: locked_phase_def has_insert_def)
  next
    case False
    then have ni: "\<not> wi_insert px" using assms(2) by simp
    show ?thesis
    proof (cases "px' = mark_locked px")
      case True
      then show ?thesis using h False ni by (auto simp: locked_phase_def has_insert_def)
    next
      case same: False
      then have "px' = px \<and> \<not> ok \<and> H' = H" using h False by auto
      then show ?thesis using ni assms(3) by (simp add: locked_phase_def)
    qed
  qed
qed

lemma locked_phase_same:
  assumes "locked_phase i (ins \<or> wi_insert i) is H ok ms H'" and "wi_tuple px = wi_tuple i"
    and "wi_insert px \<longrightarrow> ins" and "wi_locked px = wi_insert px"
  shows "locked_phase px ins (i # is) H ok (px # ms) H'"
proof -
  note r = assms(1) [unfolded locked_phase_def]
  have nl: "newly_locked (px # ms) = newly_locked ms" using assms(4) by simp
  have hi: "has_insert (px # i # is) p \<longleftrightarrow> (wi_tuple px = p \<and> wi_insert px) \<or> has_insert (i # is) p" for p
    by (auto simp: has_insert_def)
  have "relocked (px # i # is) (px # ms)" using r by simp
  moreover have "\<forall>p \<in> set (newly_locked ms). lockable H p \<and> (ok \<longrightarrow> latest_at H p) \<and> \<not> has_insert (px # i # is) p \<and>
      \<not> (p = wi_tuple px \<and> ins)"
    unfolding hi using r assms(2,3) by blast
  moreover have "ok \<longrightarrow> (\<forall>j \<in> set (px # i # is). wi_tuple j \<in> set (newly_locked ms) \<or> has_insert (px # i # is) (wi_tuple j) \<or>
      (wi_tuple j = wi_tuple px \<and> ins))"
  proof (intro impI ballI)
    fix j assume ok: ok and "j \<in> set (px # i # is)"
    then obtain k where k: "k \<in> set (i # is)" "wi_tuple j = wi_tuple k" using assms(2) by auto
    have "wi_tuple k \<in> set (newly_locked ms) \<or> has_insert (i # is) (wi_tuple k) \<or>
        (wi_tuple k = wi_tuple i \<and> (ins \<or> wi_insert i))" using r ok k(1) by blast
    moreover have "wi_insert i \<Longrightarrow> has_insert (i # is) (wi_tuple i)" by (auto simp: has_insert_def)
    ultimately show "wi_tuple j \<in> set (newly_locked ms) \<or> has_insert (px # i # is) (wi_tuple j) \<or>
        (wi_tuple j = wi_tuple px \<and> ins)" unfolding hi k(2) assms(2) by auto
  qed
  ultimately show ?thesis unfolding locked_phase_def nl using r by blast
qed

lemma locked_phase_next:
  assumes first: "locked_phase px ins [] H True [px'] H1" and rest: "locked_phase i (wi_insert i) is H1 ok ms H'"
    and s: "sorted_wrt write_info_less (px # i # is)" "wi_tuple px \<noteq> wi_tuple i" and "wi_insert px \<longrightarrow> ins"
  shows "locked_phase px ins (i # is) H ok (px' # ms) H'"
proof -
  let ?A = "set (newly_locked ms)" and ?B = "set (newly_locked [px'])"
  note r = rest [unfolded locked_phase_def] and f = first [unfolded locked_phase_def]
  have px': "px' = px \<or> px' = mark_locked px" using f by simp
  have less: "wi_tuple px < p" if "p \<in> wi_tuple ` set (i # is)" for p using sorted_strict [OF s] that by blast
  have "map wi_tuple ms = map wi_tuple (i # is)" using r relocked_tuples by blast
  then have A: "?A \<subseteq> wi_tuple ` set (i # is)" using newly_locked_sub [of ms] by (metis list.set_map)
  have B: "?B \<subseteq> {wi_tuple px}" using px' by auto
  have disj: "?A \<inter> ?B = {}" using A B less by (metis (no_types) disjoint_iff less_irrefl singletonD subsetD)
  have H1: "H1 = upd_heap lk ?B H" using f by blast
  have same: "cells H1 p = cells H p" if "p \<in> ?A" for p using that disj by (auto simp: H1)
  have ni: "\<not> has_insert [px] p" if "p \<in> ?A" for p using less [of p] that A by (auto simp: has_insert_def)
  have hi: "has_insert (px # i # is) p \<longleftrightarrow> has_insert [px] p \<or> has_insert (i # is) p" for p
    by (auto simp: has_insert_def)
  have "\<not> has_insert (i # is) (wi_tuple px)" using less by (metis has_insert_def imageI less_irrefl)
  then have old: "\<forall>p \<in> ?B. lockable H p \<and> latest_at H p \<and> \<not> has_insert (px # i # is) p \<and> \<not> (p = wi_tuple px \<and> ins)"
    using f B hi by blast
  have new: "\<forall>p \<in> ?A. lockable H p \<and> (ok \<longrightarrow> latest_at H p) \<and> \<not> has_insert (px # i # is) p \<and> \<not> (p = wi_tuple px \<and> ins)"
  proof
    fix p assume p: "p \<in> ?A"
    have "lockable H1 p" "ok \<longrightarrow> latest_at H1 p" "\<not> has_insert (i # is) p" using r p by blast+
    moreover have "p \<noteq> wi_tuple px" using A p less by blast
    ultimately show "lockable H p \<and> (ok \<longrightarrow> latest_at H p) \<and> \<not> has_insert (px # i # is) p \<and> \<not> (p = wi_tuple px \<and> ins)"
      using same [OF p] ni [OF p] hi by (simp add: lockable_def latest_at_def)
  qed
  have un: "set (newly_locked (px' # ms)) = ?A \<union> ?B" by auto
  have "distinct (newly_locked (px' # ms))" using r disj by auto
  moreover have "H' = upd_heap lk (set (newly_locked (px' # ms))) H"
    using r H1 upd_heap_union [OF disj] un by simp
  moreover have "ok \<longrightarrow> (\<forall>j \<in> set (px # i # is). wi_tuple j \<in> set (newly_locked (px' # ms)) \<or>
      has_insert (px # i # is) (wi_tuple j) \<or> wi_tuple j = wi_tuple px \<and> ins)"
  proof (intro impI ballI)
    fix j assume ok: ok and j: "j \<in> set (px # i # is)"
    show "wi_tuple j \<in> set (newly_locked (px' # ms)) \<or> has_insert (px # i # is) (wi_tuple j) \<or>
        wi_tuple j = wi_tuple px \<and> ins"
    proof (cases "j = px")
      case True
      then show ?thesis using f unfolding un hi by auto
    next
      case False
      then have "wi_tuple j \<in> ?A \<or> has_insert (i # is) (wi_tuple j) \<or> (wi_tuple j = wi_tuple i \<and> wi_insert i)"
        using r ok j by auto
      moreover have "wi_insert i \<Longrightarrow> has_insert (i # is) (wi_tuple i)" by (auto simp: has_insert_def)
      ultimately show ?thesis unfolding un hi by auto
    qed
  qed
  moreover have "relocked (px # i # is) (px' # ms)" using px' r by auto
  moreover have "\<forall>p \<in> set (newly_locked (px' # ms)). lockable H p \<and> (ok \<longrightarrow> latest_at H p) \<and>
      \<not> has_insert (px # i # is) p \<and> \<not> (p = wi_tuple px \<and> ins)"
    unfolding un using old new by blast
  ultimately show ?thesis unfolding locked_phase_def by blast
qed

lemma locked_phase_stop:
  assumes first: "locked_phase px ins [] H False [px'] H'"
    and s: "sorted_wrt write_info_less (px # i # is)" "wi_tuple px \<noteq> wi_tuple i"
    and un: "\<forall>j \<in> set (i # is). wi_locked j = wi_insert j"
  shows "locked_phase px ins (i # is) H False (px' # i # is) H'"
proof -
  note f = first [unfolded locked_phase_def]
  have nl: "newly_locked (px' # i # is) = newly_locked [px']"
    using unlocked_none [OF un] newly_locked_simps(2) [of "[px']" "i # is"] by simp
  have nh: "\<not> has_insert (i # is) (wi_tuple px)" using sorted_strict [OF s] by (force simp: has_insert_def)
  have hi: "has_insert (px # i # is) p \<longleftrightarrow> has_insert [px] p \<or> has_insert (i # is) p" for p
    by (auto simp: has_insert_def)
  have px': "px' = px \<or> px' = mark_locked px" using f by simp
  then have "set (newly_locked [px']) \<subseteq> {wi_tuple px}" by auto
  then have "\<forall>p \<in> set (newly_locked [px']). lockable H p \<and> \<not> has_insert (px # i # is) p \<and> \<not> (p = wi_tuple px \<and> ins)"
    using f nh unfolding hi by blast
  moreover have "relocked (px # i # is) (px' # i # is)" using px' relocked_refl [of "i # is"] by simp
  ultimately show ?thesis unfolding locked_phase_def nl using f by blast
qed

lemma lock_loop_phase:
  assumes "lock_loop done (Some px) ins is ws H = Inr (ok, is', ws', H')"
    and "sorted_wrt write_info_less (px # is)" and "\<forall>j \<in> set (px # is). wi_locked j = wi_insert j"
    and "wi_insert px \<longrightarrow> ins"
  shows "marks ws ws' \<and> (\<exists>ms. is' = done @ ms \<and> locked_phase px ins is H ok ms H')"
  using assms
proof (induction "is" arbitrary: "done" px ins ws H)
  case Nil
  then obtain px' where "handle_last_tuple_in_group px ins ws H = Inr (ok, px', ws', H')" "is' = done @ [px']"
    by (auto simp: sbind_Inr)
  then show ?case using handle_last_phase Nil.prems by fastforce
next
  case (Cons i "is")
  have s: "sorted_wrt write_info_less (i # is)" and un: "\<forall>j \<in> set (i # is). wi_locked j = wi_insert j"
    using Cons.prems(2,3) by auto
  let ?mark = "\<lambda>ws. if wi_insert i then set_do_write (wi_entry i) ws else ws"
  have mk: "marks ws (?mark ws)" for ws :: "'a write_record list" using marks_refl marks_set by auto
  show ?case
  proof (cases "wi_tuple px = wi_tuple i")
    case True
    then have "lock_loop (done @ [px]) (Some i) (ins \<or> wi_insert i) is (?mark ws) H = Inr (ok, is', ws', H')"
      using Cons.prems(1) by simp
    from Cons.IH [OF this s un] obtain ms where "marks (?mark ws) ws'" "is' = done @ [px] @ ms"
        "locked_phase i (ins \<or> wi_insert i) is H ok ms H'" by auto
    moreover have "wi_locked px = wi_insert px" using Cons.prems(3) by simp
    ultimately show ?thesis
      using locked_phase_same [OF _ True Cons.prems(4)] marks_trans [OF mk] by (metis append_Cons append_Nil)
  next
    case False
    obtain ok1 px' ws1 H1 where h: "handle_last_tuple_in_group px ins ws H = Inr (ok1, px', ws1, H1)"
      using Cons.prems(1) False by (cases "handle_last_tuple_in_group px ins ws H") auto
    note ph = handle_last_phase [OF h Cons.prems(4)]
    have px: "wi_locked px = wi_insert px" using Cons.prems(3) by simp
    show ?thesis
    proof (cases ok1)
      case ok1: True
      then have "lock_loop (done @ [px']) (Some i) (wi_insert i) is (?mark ws1) H1 = Inr (ok, is', ws', H')"
        using Cons.prems(1) False h by simp
      from Cons.IH [OF this s un] obtain ms where ms: "marks (?mark ws1) ws'" "is' = done @ [px'] @ ms"
          "locked_phase i (wi_insert i) is H1 ok ms H'" by auto
      have "marks ws ws'" using ph(1) [OF px] mk ms(1) marks_trans by blast
      moreover have "locked_phase px ins (i # is) H ok (px' # ms) H'"
        using locked_phase_next [OF _ ms(3) Cons.prems(2) False Cons.prems(4)] ph(2) [OF px] ok1 by simp
      ultimately show ?thesis using ms(2) by auto
    next
      case ok1: False
      then have r: "ok = False" "is' = done @ px' # i # is" "ws' = ws1" "H' = H1"
        using Cons.prems(1) False h by auto
      have "locked_phase px ins (i # is) H False (px' # i # is) H1"
        using locked_phase_stop [OF _ Cons.prems(2) False un] ph(2) [OF px] ok1 by simp
      then show ?thesis using r ph(1) [OF px] by auto
    qed
  qed
qed

text \<open>The whole phase, on the sorted entries of a write set.\<close>

definition sorted_infos :: "'v write_record list \<Rightarrow> dbtuple_write_info list" where
  "sorted_infos ws = sort_write_infos (collect_write_infos ws)"

lemma sorted_infos_wrt: "sorted_wrt write_info_less (sorted_infos ws)"
proof -
  let ?is = "sorted_infos ws"
  have "inj_on write_info_key (set ?is)"
    using inj_collect [of ws] by (auto simp: sorted_infos_def inj_on_def write_info_key_def)
  moreover have "distinct (collect_write_infos ws)"
    by (auto simp: distinct_conv_nth collect_nth new_write_info_def)
  then have "distinct ?is" by (simp add: sorted_infos_def)
  ultimately have "distinct (map write_info_key ?is)" by (simp add: distinct_map)
  moreover have "sorted (map write_info_key ?is)" using sorted_infos_keys by (simp add: sorted_infos_def)
  ultimately have "sorted_wrt (<) (map write_info_key ?is)" by (simp add: strict_sorted_iff)
  moreover have "write_info_less = (\<lambda>i j. write_info_key i < write_info_key j)"
    by (intro ext) (rule write_info_less_key)
  ultimately show ?thesis by (simp only: sorted_wrt_map)
qed

lemma set_sorted_infos:
  "set (sorted_infos ws) = {new_write_info (wr_tuple (ws ! k)) k (wr_insert (ws ! k)) k |k. k < length ws}"
  by (simp add: sorted_infos_def set_collect)

lemma has_insert_iff: "has_insert (sorted_infos ws) p \<longleftrightarrow> (\<exists>r \<in> set ws. wr_tuple r = p \<and> wr_insert r)"
proof -
  have "has_insert (sorted_infos ws) p \<longleftrightarrow> (\<exists>k < length ws. wr_tuple (ws ! k) = p \<and> wr_insert (ws ! k))"
    unfolding has_insert_def set_sorted_infos by (force simp: new_write_info_def)
  then show ?thesis by (metis in_set_conv_nth)
qed

definition lock_phase ::
  "'v write_record list \<Rightarrow> heap \<Rightarrow> bool \<Rightarrow> dbtuple_write_info list \<Rightarrow> heap \<Rightarrow> bool" where
  "lock_phase ws H ok ms H' \<longleftrightarrow>
     relocked (sorted_infos ws) ms \<and> H' = upd_heap lk (set (newly_locked ms)) H \<and> distinct (newly_locked ms) \<and>
     (\<forall>p \<in> set (newly_locked ms). lockable H p \<and> (ok \<longrightarrow> latest_at H p) \<and>
        (\<exists>r \<in> set ws. wr_tuple r = p) \<and> \<not> (\<exists>r \<in> set ws. wr_tuple r = p \<and> wr_insert r)) \<and>
     (ok \<longrightarrow> (\<forall>r \<in> set ws. wr_tuple r \<in> set (newly_locked ms) \<or> (\<exists>r' \<in> set ws. wr_tuple r' = wr_tuple r \<and> wr_insert r')))"

lemma commit_lock_phase:
  assumes "lock_loop [] None False (sorted_infos ws) ws H = Inr (ok, ms, ws', H')" and "ws \<noteq> []"
  shows "marks ws ws' \<and> lock_phase ws H ok ms H'"
proof -
  have ne: "length (sorted_infos ws) \<noteq> 0" using assms(2) by (simp add: sorted_infos_def)
  then obtain i "is" where i: "sorted_infos ws = i # is" by (cases "sorted_infos ws") auto
  let ?m = "if wi_insert i then set_do_write (wi_entry i) ws else ws"
  have l: "lock_loop [] (Some i) (wi_insert i) is ?m H = Inr (ok, ms, ws', H')" using assms(1) by (simp add: i)
  have un: "\<forall>j \<in> set (i # is). wi_locked j = wi_insert j"
    unfolding i [symmetric] by (auto simp: set_sorted_infos new_write_info_def)
  have r: "marks ?m ws'" "locked_phase i (wi_insert i) is H ok ms H'"
    using lock_loop_phase [OF l sorted_infos_wrt [of ws, unfolded i] un] by auto
  have "marks ws ?m" using marks_refl marks_set by auto
  then have m: "marks ws ws'" using r(1) by (rule marks_trans)
  note ph = r(2) [unfolded locked_phase_def i [symmetric] has_insert_iff]
  have self: "wi_insert i \<Longrightarrow> \<exists>r \<in> set ws. wr_tuple r = wi_tuple i \<and> wr_insert r"
    using has_insert_iff [of ws "wi_tuple i"] i by (auto simp: has_insert_def)
  have mem: "p \<in> wr_tuple ` set ws" if "p \<in> set (newly_locked ms)" for p
  proof -
    have "map wi_tuple ms = map wi_tuple (sorted_infos ws)" using ph relocked_tuples by blast
    then have "p \<in> wi_tuple ` set (sorted_infos ws)" using that newly_locked_sub [of ms] by (metis list.set_map subsetD)
    then show ?thesis by (auto simp: set_sorted_infos new_write_info_def)
  qed
  have cover: "wr_tuple r \<in> set (newly_locked ms) \<or> (\<exists>r' \<in> set ws. wr_tuple r' = wr_tuple r \<and> wr_insert r')"
    if okr: "ok" "r \<in> set ws" for r
  proof -
    obtain k where "k < length ws" "ws ! k = r" using okr(2) by (auto simp: in_set_conv_nth)
    then have "wr_tuple r \<in> wi_tuple ` set (sorted_infos ws)"
      by (force simp: set_sorted_infos new_write_info_def)
    then show ?thesis using ph self okr(1) by auto
  qed
  show ?thesis unfolding lock_phase_def using m ph mem cover by blast
qed

section \<open>The index\<close>

text \<open>
  What the transactions rely on from the index: \<open>M ix b k\<close> is the value of the key \<open>k\<close> in the tree \<open>b\<close>, and the
  operations look up, add, replace and remove single keys.
\<close>

definition upd_key :: "btree \<Rightarrow> bytes \<Rightarrow> ptr option \<Rightarrow> (btree \<Rightarrow> bytes \<Rightarrow> ptr option) \<Rightarrow> btree \<Rightarrow> bytes \<Rightarrow> ptr option" where
  "upd_key b k v m = (\<lambda>b' k'. if b' = b \<and> k' = k then v else m b' k')"

definition index_laws :: "'ix index_ops \<Rightarrow> ('ix \<Rightarrow> btree \<Rightarrow> bytes \<Rightarrow> ptr option) \<Rightarrow> bool" where
  "index_laws X M \<longleftrightarrow>
     (\<forall>ix b k. fst (ix_search X ix b k) = M ix b k) \<and>
     (\<forall>ix b k p. case ix_insert_if_absent X ix b k p of
        None \<Rightarrow> M ix b k \<noteq> None | Some (info, ix') \<Rightarrow> M ix b k = None \<and> M ix' = upd_key b k (Some p) (M ix)) \<and>
     (\<forall>ix b k p. M (ix_insert X ix b k p) = upd_key b k (Some p) (M ix)) \<and>
     (\<forall>ix b k. case ix_remove X ix b k of
        None \<Rightarrow> M ix b k = None | Some (p, ix') \<Rightarrow> M ix b k = Some p \<and> M ix' = upd_key b k None (M ix))"

lemma index_remove:
  assumes "index_laws X M" and "M ix b k = Some p"
  shows "\<exists>ix'. ix_remove X ix b k = Some (p, ix') \<and> M ix' = upd_key b k None (M ix)"
proof -
  have "case ix_remove X ix b k of
      None \<Rightarrow> M ix b k = None | Some (p, ix') \<Rightarrow> M ix b k = Some p \<and> M ix' = upd_key b k None (M ix)"
    using assms(1) unfolding index_laws_def by blast
  then show ?thesis using assms(2) by (cases "ix_remove X ix b k") auto
qed

section \<open>Aborting\<close>

text \<open>The inserted tuples among the entries, with tree and key.\<close>

definition inserted :: "dbtuple_write_info list \<Rightarrow> ptr list" where
  "inserted is = map wi_tuple (filter (\<lambda>i. wi_locked i \<and> wi_insert i) is)"

lemma inserted_simps [simp]:
  "inserted [] = []" "inserted (i # is) = (if wi_locked i \<and> wi_insert i then wi_tuple i # inserted is else inserted is)"
  by (simp_all add: inserted_def)

definition unindexed :: "(btree \<times> bytes) set \<Rightarrow> (btree \<Rightarrow> bytes \<Rightarrow> ptr option) \<Rightarrow> btree \<Rightarrow> bytes \<Rightarrow> ptr option" where
  "unindexed K m = (\<lambda>b k. if (b, k) \<in> K then None else m b k)"

definition insert_keys :: "'v write_record list \<Rightarrow> dbtuple_write_info list \<Rightarrow> (btree \<times> bytes) list" where
  "insert_keys ws is = map (\<lambda>i. (wr_btr (ws ! wi_entry i), wr_key (ws ! wi_entry i))) (filter (\<lambda>i. wi_locked i \<and> wi_insert i) is)"

lemma insert_keys_simps [simp]:
  "insert_keys ws [] = []"
  "insert_keys ws (i # is) = (if wi_locked i \<and> wi_insert i
     then (wr_btr (ws ! wi_entry i), wr_key (ws ! wi_entry i)) # insert_keys ws is else insert_keys ws is)"
  by (simp_all add: insert_keys_def)

definition retire :: "dbtuple \<Rightarrow> dbtuple" where
  "retire x = ulk (drop_latest x)"

lemma abort_infos_effect:
  assumes L: "index_laws (e_ix E) M" and "distinct (newly_locked is @ inserted is)" and "distinct (insert_keys ws is)"
    and "\<forall>p \<in> set (newly_locked is @ inserted is). cells (wheap w) p \<noteq> None"
    and "\<forall>i \<in> set is. wi_locked i \<and> wi_insert i \<longrightarrow> M (windex w) (wr_btr (ws ! wi_entry i)) (wr_key (ws ! wi_entry i)) \<noteq> None"
  shows "\<exists>w'. abort_infos E ws is w = Inr w' \<and>
    wheap w' = upd_heap retire (set (inserted is)) (upd_heap ulk (set (newly_locked is)) (wheap w)) \<and>
    M (windex w') = unindexed (set (insert_keys ws is)) (M (windex w)) \<and>
    w' = w\<lparr>wheap := wheap w', windex := windex w', wrcu := wrcu w @ inserted is\<rparr>"
  using assms(2-)
proof (induction "is" arbitrary: w)
  case Nil
  then show ?case by (simp add: unindexed_def)
next
  case (Cons i "is")
  let ?p = "wi_tuple i" and ?b = "wr_btr (ws ! wi_entry i)" and ?k = "wr_key (ws ! wi_entry i)"
  show ?case
  proof (cases "wi_locked i")
    case False
    then show ?thesis using Cons.IH [of w] Cons.prems by simp
  next
    case locked: True
    then obtain x where x: "cells (wheap w) ?p = Some x" using Cons.prems(3) by (auto split: if_splits)
    show ?thesis
    proof (cases "wi_insert i")
      case False
      let ?w = "w\<lparr>wheap := upd_heap ulk {?p} (wheap w)\<rparr>"
      have u: "unlock_world ?p w = Inr ?w"
        using x unlock_tuple_Inr [of ?p "wheap w" "upd_heap ulk {?p} (wheap w)"] by (simp add: unlock_world_def)
      have p: "?p \<notin> set (newly_locked is) \<union> set (inserted is)" using Cons.prems(1) locked False by simp
      have pre: "distinct (newly_locked is @ inserted is)" "distinct (insert_keys ws is)"
          "\<forall>p \<in> set (newly_locked is @ inserted is). cells (wheap ?w) p \<noteq> None"
          "\<forall>j \<in> set is. wi_locked j \<and> wi_insert j \<longrightarrow> M (windex ?w) (wr_btr (ws ! wi_entry j)) (wr_key (ws ! wi_entry j)) \<noteq> None"
        using Cons.prems locked False by auto
      from Cons.IH [OF pre] obtain w' where w': "abort_infos E ws is ?w = Inr w'"
          "wheap w' = upd_heap retire (set (inserted is)) (upd_heap ulk (set (newly_locked is)) (wheap ?w))"
          "M (windex w') = unindexed (set (insert_keys ws is)) (M (windex ?w))"
          "w' = ?w\<lparr>wheap := wheap w', windex := windex w', wrcu := wrcu ?w @ inserted is\<rparr>" by blast
      have "upd_heap ulk (set (newly_locked is)) (wheap ?w) = upd_heap ulk (set (newly_locked (i # is))) (wheap w)"
        using p upd_heap_union [of "set (newly_locked is)" "{?p}" ulk "wheap w"] locked False by simp
      then show ?thesis using w' u locked False by (intro exI [of _ w']) simp
    next
      case ins: True
      obtain ix where ix: "ix_remove (e_ix E) (windex w) ?b ?k = Some (the (M (windex w) ?b ?k), ix)"
          "M ix = upd_key ?b ?k None (M (windex w))"
        using index_remove [OF L, of "windex w" ?b ?k] Cons.prems(4) locked ins by auto
      let ?H1 = "upd_heap drop_latest {?p} (wheap w)" and ?H2 = "upd_heap retire {?p} (wheap w)"
      let ?w1 = "w\<lparr>windex := ix, wheap := ?H1, wrcu := wrcu w @ [?p]\<rparr>" and ?w2 = "w\<lparr>windex := ix, wheap := ?H2, wrcu := wrcu w @ [?p]\<rparr>"
      have c: "cleanup_inserted_tuple_marker E ?p ?k ?b w = Inr ?w1"
        using ix x clear_latest_Inr [of ?p "wheap w" ?H1] by (simp add: cleanup_inserted_tuple_marker_def)
      have "upd_heap ulk {?p} ?H1 = ?H2" by (rule heap_eqI) (simp_all add: retire_def [abs_def] option.map_comp comp_def)
      then have u: "unlock_world ?p ?w1 = Inr ?w2"
        using x unlock_tuple_Inr [of ?p ?H1 ?H2] by (simp add: unlock_world_def)
      have p: "?p \<notin> set (newly_locked is) \<union> set (inserted is)" using Cons.prems(1) locked ins by simp
      have keys: "M ix (wr_btr (ws ! wi_entry j)) (wr_key (ws ! wi_entry j)) \<noteq> None"
        if "j \<in> set is" "wi_locked j" "wi_insert j" for j
      proof -
        have "(wr_btr (ws ! wi_entry j), wr_key (ws ! wi_entry j)) \<noteq> (?b, ?k)"
        proof -
          have "(wr_btr (ws ! wi_entry j), wr_key (ws ! wi_entry j)) \<in> set (insert_keys ws is)"
            using that by (auto simp: insert_keys_def)
          then show ?thesis using Cons.prems(2) locked ins by auto
        qed
        then show ?thesis using Cons.prems(4) that by (auto simp: ix(2) upd_key_def)
      qed
      have pre: "distinct (newly_locked is @ inserted is)" "distinct (insert_keys ws is)"
          "\<forall>p \<in> set (newly_locked is @ inserted is). cells (wheap ?w2) p \<noteq> None"
          "\<forall>j \<in> set is. wi_locked j \<and> wi_insert j \<longrightarrow> M (windex ?w2) (wr_btr (ws ! wi_entry j)) (wr_key (ws ! wi_entry j)) \<noteq> None"
        using Cons.prems locked ins keys by auto
      from Cons.IH [OF pre] obtain w' where w': "abort_infos E ws is ?w2 = Inr w'"
          "wheap w' = upd_heap retire (set (inserted is)) (upd_heap ulk (set (newly_locked is)) (wheap ?w2))"
          "M (windex w') = unindexed (set (insert_keys ws is)) (M (windex ?w2))"
          "w' = ?w2\<lparr>wheap := wheap w', windex := windex w', wrcu := wrcu ?w2 @ inserted is\<rparr>" by blast
      have "wheap w' = upd_heap retire (set (inserted (i # is))) (upd_heap ulk (set (newly_locked (i # is))) (wheap w))"
        unfolding w'(2) by (rule heap_eqI) (use p locked ins in \<open>auto simp: option.map_comp comp_def\<close>)
      moreover have "M (windex w') = unindexed (set (insert_keys ws (i # is))) (M (windex w))"
        unfolding w'(3) using locked ins by (auto simp: unindexed_def ix(2) upd_key_def fun_eq_iff)
      ultimately show ?thesis using w'(1,4) u c locked ins by (intro exI [of _ w']) simp
    qed
  qed
qed

section \<open>An aborted commit\<close>

text \<open>
  The write set of an unfinished transaction: its tuples exist; every insert has its own tuple, still locked
  and without a version, under its own key.
\<close>

definition marker :: "heap \<Rightarrow> ptr \<Rightarrow> bool" where
  "marker H p \<longleftrightarrow> (\<exists>x. cells H p = Some x \<and> tversion x = MAX_TID \<and> IsLocked (hdr x) \<and> IsLatest (hdr x))"

definition write_set_ok ::
  "('ix \<Rightarrow> btree \<Rightarrow> bytes \<Rightarrow> ptr option) \<Rightarrow> 'v write_record list \<Rightarrow> 'ix world \<Rightarrow> bool" where
  "write_set_ok M ws w \<longleftrightarrow>
     (\<forall>r \<in> set ws. cells (wheap w) (wr_tuple r) \<noteq> None) \<and>
     distinct (map wr_tuple (filter wr_insert ws)) \<and>
     distinct (map (\<lambda>r. (wr_btr r, wr_key r)) (filter wr_insert ws)) \<and>
     (\<forall>r \<in> set ws. wr_insert r \<longrightarrow>
        M (windex w) (wr_btr r) (wr_key r) = Some (wr_tuple r) \<and> marker (wheap w) (wr_tuple r))"

lemma new_write_info_simp: "wi_insert (new_write_info p k i n) = i"
  by (simp add: new_write_info_def)

lemma collect_inserts:
  assumes "\<And>k. k < length ws \<Longrightarrow> g (new_write_info (wr_tuple (ws ! k)) k (wr_insert (ws ! k)) k) = h (ws ! k)"
  shows "map g (filter wi_insert (collect_write_infos ws)) = map h (filter wr_insert ws)"
proof -
  let ?n = "[0..<length ws]"
  have c: "collect_write_infos ws = map (\<lambda>k. new_write_info (wr_tuple (ws ! k)) k (wr_insert (ws ! k)) k) ?n"
    by (rule nth_equalityI) (simp_all add: collect_nth)
  have "filter wr_insert ws = filter wr_insert (map ((!) ws) ?n)" by (simp add: map_nth)
  then have w: "filter wr_insert ws = map ((!) ws) (filter (\<lambda>k. wr_insert (ws ! k)) ?n)"
    by (simp add: filter_map comp_def)
  show ?thesis
    unfolding c w filter_map map_map comp_def new_write_info_simp
    by (rule map_cong [OF refl], rule assms) simp
qed

lemma sorted_inserts:
  assumes "\<And>k. k < length ws \<Longrightarrow> g (new_write_info (wr_tuple (ws ! k)) k (wr_insert (ws ! k)) k) = h (ws ! k)"
  shows "mset (map g (filter wi_insert (sorted_infos ws))) = mset (map h (filter wr_insert ws))"
proof -
  have "mset (map g (filter wi_insert (sorted_infos ws))) = mset (map g (filter wi_insert (collect_write_infos ws)))"
    by (simp add: sorted_infos_def sort_write_infos_def)
  then show ?thesis using collect_inserts [of ws g h, OF assms] by simp
qed

lemma relocked_inserts:
  "relocked is ms \<Longrightarrow> \<forall>i \<in> set is. wi_locked i = wi_insert i \<Longrightarrow>
   filter (\<lambda>i. wi_locked i \<and> wi_insert i) ms = map mark_locked (filter wi_insert is)"
proof (induction "is" arbitrary: ms)
  case (Cons i "is")
  then obtain m ms' where "ms = m # ms'" "m = i \<or> m = mark_locked i" "relocked is ms'" by auto
  moreover have "wi_insert i \<Longrightarrow> i = mark_locked i" using Cons.prems(2) by (simp add: mark_locked_def)
  ultimately show ?case using Cons by auto
qed simp

lemma phase_inserts:
  assumes ph: "lock_phase ws H ok ms H'" and m: "marks ws ws'"
  shows "mset (inserted ms) = mset (map wr_tuple (filter wr_insert ws))"
    and "mset (insert_keys ws' ms) = mset (map (\<lambda>r. (wr_btr r, wr_key r)) (filter wr_insert ws))"
proof -
  have "\<forall>i \<in> set (sorted_infos ws). wi_locked i = wi_insert i" by (auto simp: set_sorted_infos new_write_info_def)
  then have f: "filter (\<lambda>i. wi_locked i \<and> wi_insert i) ms = map mark_locked (filter wi_insert (sorted_infos ws))"
    using relocked_inserts ph unfolding lock_phase_def by blast
  show "mset (inserted ms) = mset (map wr_tuple (filter wr_insert ws))"
    unfolding inserted_def f map_map comp_def by (rule sorted_inserts) (simp add: new_write_info_def)
  show "mset (insert_keys ws' ms) = mset (map (\<lambda>r. (wr_btr r, wr_key r)) (filter wr_insert ws))"
    unfolding insert_keys_def f map_map comp_def
    by (rule sorted_inserts) (use marks_nth [OF m] in \<open>simp add: new_write_info_def\<close>)
qed

text \<open>What an abort leaves of the tuples: \<open>I\<close> are the inserted ones.\<close>

definition restored :: "ptr set \<Rightarrow> heap \<Rightarrow> heap \<Rightarrow> bool" where
  "restored I H H' \<longleftrightarrow>
     brk H' = brk H \<and>
     (\<forall>p. case cells H p of
            None \<Rightarrow> cells H' p = None
          | Some x \<Rightarrow> \<exists>x'. cells H' p = Some x' \<and> x' = x\<lparr>hdr := hdr x'\<rparr> \<and>
              IsDeleting (hdr x') = IsDeleting (hdr x) \<and>
              IsLocked (hdr x') = (p \<notin> I \<and> IsLocked (hdr x)) \<and> IsLatest (hdr x') = (p \<notin> I \<and> IsLatest (hdr x)))"

lemma unlock_lock_flags:
  "\<not> IsLocked (hdr (ulk x))" "IsLatest (hdr (ulk (lk x))) = IsLatest (hdr x)"
  "IsDeleting (hdr (ulk (lk x))) = IsDeleting (hdr x)" "ulk (lk x) = x\<lparr>hdr := hdr (ulk (lk x))\<rparr>"
  "\<not> IsLatest (hdr (retire x))" "\<not> IsLocked (hdr (retire x))" "IsDeleting (hdr (retire x)) = IsDeleting (hdr x)"
  "retire x = x\<lparr>hdr := hdr (retire x)\<rparr>"
  by (simp_all add: ulk_def lk_def retire_def drop_latest_def unlock_flags lock_flags drop_latest_flags)

lemma restored_upd:
  assumes "\<forall>p \<in> L. lockable H p" and "L \<inter> I = {}"
  shows "restored I H (upd_heap retire I (upd_heap ulk L (upd_heap lk L H)))"
proof -
  have "case cells H p of
          None \<Rightarrow> cells (upd_heap retire I (upd_heap ulk L (upd_heap lk L H))) p = None
        | Some x \<Rightarrow> \<exists>x'. cells (upd_heap retire I (upd_heap ulk L (upd_heap lk L H))) p = Some x' \<and> x' = x\<lparr>hdr := hdr x'\<rparr> \<and>
            IsDeleting (hdr x') = IsDeleting (hdr x) \<and>
            IsLocked (hdr x') = (p \<notin> I \<and> IsLocked (hdr x)) \<and> IsLatest (hdr x') = (p \<notin> I \<and> IsLatest (hdr x))" for p
  proof (cases "cells H p")
    case (Some x)
    consider "p \<in> I" "p \<notin> L" | "p \<in> L" "p \<notin> I" | "p \<notin> I" "p \<notin> L" using assms(2) by blast
    then show ?thesis
    proof cases
      case 1
      then have "cells (upd_heap retire I (upd_heap ulk L (upd_heap lk L H))) p = Some (retire x)" by (simp add: Some)
      then show ?thesis unfolding Some option.case using 1 unlock_lock_flags(5-8) [of x] by blast
    next
      case 2
      then have "cells (upd_heap retire I (upd_heap ulk L (upd_heap lk L H))) p = Some (ulk (lk x))" by (simp add: Some)
      moreover have "\<not> IsLocked (hdr x)" using assms(1) Some 2 by (auto simp: lockable_def)
      ultimately show ?thesis
        unfolding Some option.case using 2 unlock_lock_flags(1) [of "lk x"] unlock_lock_flags(2-4) [of x] by blast
    qed (use Some in simp)
  qed simp
  then show ?thesis by (simp add: restored_def)
qed

lemma txn_finish_abort: "state t \<noteq> TXN_COMMITED \<Longrightarrow> txn_finish E t c w = Inr w"
  by (auto simp: txn_finish_def on_tid_finish_def split: option.splits)

text \<open>The path behind \<^verbatim>\<open>do_abort\<close>, from any state the lock phase can leave.\<close>

lemma do_abort_effect:
  assumes L: "index_laws (e_ix E) M" and ok: "write_set_ok M ws w" and ph: "lock_phase ws (wheap w) b ms H" and m: "marks ws ws'"
  shows "\<exists>w'. do_abort E doThrow r c ms (t\<lparr>write_set := ws', u_word := u\<rparr>) (w\<lparr>wheap := H, wtid := ctx\<rparr>) =
      Inr (if doThrow then Abort_exn r else Return False, t\<lparr>write_set := ws', u_word := u, reason := r, state := TXN_ABRT\<rparr>, w') \<and>
    restored (wr_tuple ` {r \<in> set ws. wr_insert r}) (wheap w) (wheap w') \<and>
    M (windex w') = unindexed ((\<lambda>r. (wr_btr r, wr_key r)) ` {r \<in> set ws. wr_insert r}) (M (windex w)) \<and>
    w' = w\<lparr>wtid := ctx, wheap := wheap w', windex := windex w', wrcu := wrcu w @ inserted ms\<rparr> \<and>
    set (inserted ms) = wr_tuple ` {r \<in> set ws. wr_insert r}"
proof -
  note ins = phase_inserts [OF ph m]
  let ?I = "wr_tuple ` {r \<in> set ws. wr_insert r}" and ?w = "w\<lparr>wheap := H, wtid := ctx\<rparr>"
  have si: "set (inserted ms) = ?I" using mset_eq_setD [OF ins(1)] by simp
  have sk: "set (insert_keys ws' ms) = (\<lambda>r. (wr_btr r, wr_key r)) ` {r \<in> set ws. wr_insert r}"
    using mset_eq_setD [OF ins(2)] by simp
  have H: "H = upd_heap lk (set (newly_locked ms)) (wheap w)" using ph by (simp add: lock_phase_def)
  have disj: "set (newly_locked ms) \<inter> ?I = {}" using ph unfolding lock_phase_def by blast
  have d: "distinct (newly_locked ms @ inserted ms)"
    using ph disj si ok mset_eq_imp_distinct_iff [OF ins(1)] by (simp add: lock_phase_def write_set_ok_def)
  have dk: "distinct (insert_keys ws' ms)"
    using ok mset_eq_imp_distinct_iff [OF ins(2)] by (simp add: write_set_ok_def)
  have lockable: "\<forall>p \<in> set (newly_locked ms). lockable (wheap w) p" using ph unfolding lock_phase_def by blast
  then have al: "\<forall>p \<in> set (newly_locked ms @ inserted ms). cells (wheap ?w) p \<noteq> None"
    using ok si by (auto simp: H lockable_def write_set_ok_def)
  have ke: "\<forall>i \<in> set ms. wi_locked i \<and> wi_insert i \<longrightarrow>
      M (windex ?w) (wr_btr (ws' ! wi_entry i)) (wr_key (ws' ! wi_entry i)) \<noteq> None"
  proof (intro ballI impI)
    fix i assume "i \<in> set ms" "wi_locked i \<and> wi_insert i"
    then have "(wr_btr (ws' ! wi_entry i), wr_key (ws' ! wi_entry i)) \<in> set (insert_keys ws' ms)"
      by (auto simp: insert_keys_def)
    then show "M (windex ?w) (wr_btr (ws' ! wi_entry i)) (wr_key (ws' ! wi_entry i)) \<noteq> None"
      using ok unfolding sk write_set_ok_def by auto
  qed
  obtain w' where w': "abort_infos E ws' ms ?w = Inr w'"
      "wheap w' = upd_heap retire (set (inserted ms)) (upd_heap ulk (set (newly_locked ms)) (wheap ?w))"
      "M (windex w') = unindexed (set (insert_keys ws' ms)) (M (windex ?w))"
      "w' = ?w\<lparr>wheap := wheap w', windex := windex w', wrcu := wrcu ?w @ inserted ms\<rparr>"
    using abort_infos_effect [OF L d dk al ke] by blast
  have "restored ?I (wheap w) (wheap w')"
    unfolding w'(2) si using restored_upd [OF lockable disj] by (simp add: H)
  moreover have "do_abort E doThrow r c ms (t\<lparr>write_set := ws', u_word := u\<rparr>) ?w =
      Inr (if doThrow then Abort_exn r else Return False, t\<lparr>write_set := ws', u_word := u, reason := r, state := TXN_ABRT\<rparr>, w')"
    unfolding do_abort_def using w'(1) by (simp add: txn_finish_abort)
  moreover have "w' = w\<lparr>wtid := ctx, wheap := wheap w', windex := windex w', wrcu := wrcu w @ inserted ms\<rparr>"
    using w'(4) by simp
  ultimately show ?thesis using w'(3) sk si by (intro exI [of _ w']) simp
qed

lemma commit_success_Inr:
  "commit_success E c t w = Inr (out, t', w') \<Longrightarrow> out = Return True \<and> t' = t\<lparr>state := TXN_COMMITED\<rparr> \<and>
     txn_finish E t' c w = Inr w'"
  by (auto simp: commit_success_def Let_def sbind_Inr)

lemma validate_and_write_Inr:
  assumes "validate_and_write E doThrow c ms t w = Inr (out, t', w')"
  shows "(\<exists>r. do_abort E doThrow r c ms t w = Inr (out, t', w')) \<or>
    out = Return True \<and> t' = t\<lparr>state := TXN_COMMITED\<rparr> \<and>
    validate_reads ms (read_set t) (wheap w) = Inr True \<and> validate_nodes E (absent_set t) (windex w) \<and>
    (case c of
       None \<Rightarrow> w' = w
     | Some tid \<Rightarrow> \<exists>w1 w2. commit_writes E (u_word t) tid (write_set t) w = Inr w1 \<and> unlock_infos ms w1 = Inr w2 \<and>
         txn_finish E t' c w2 = Inr w')"
proof -
  obtain ok where v: "validate_reads ms (read_set t) (wheap w) = Inr ok"
    using assms by (cases "validate_reads ms (read_set t) (wheap w)") (auto simp: validate_and_write_def)
  show ?thesis
  proof (cases "ok \<and> validate_nodes E (absent_set t) (windex w)")
    case False
    then show ?thesis using assms v by (auto simp: validate_and_write_def split: if_splits)
  next
    case True
    show ?thesis
    proof (cases c)
      case None
      then have "commit_success E None t w = Inr (out, t', w')" using assms v True by (simp add: validate_and_write_def)
      then show ?thesis using None v True commit_success_Inr [of E None t w out t' w'] by (auto simp: txn_finish_def)
    next
      case (Some tid)
      then obtain w1 w2 where w12: "commit_writes E (u_word t) tid (write_set t) w = Inr w1" "unlock_infos ms w1 = Inr w2"
          "commit_success E (Some tid) t w2 = Inr (out, t', w')"
        using assms v True by (auto simp: validate_and_write_def sbind_Inr)
      then show ?thesis using Some v True commit_success_Inr [OF w12(3)] by auto
    qed
  qed
qed

text \<open>The commit of an unfinished transaction, by the phase it ends in.\<close>

lemma commit_phases:
  assumes st: "state t = TXN_EMBRYO \<or> state t = TXN_ACTIVE" and ns: "\<not> is_snapshot t"
    and c: "commit E doThrow t w = Inr (out, t', w')"
  obtains (empty) "write_set t = []" "validate_and_write E doThrow None [] t w = Inr (out, t', w')"
  | (lock_failed) ms ws H where "write_set t \<noteq> []" "marks (write_set t) ws" "lock_phase (write_set t) (wheap w) False ms H"
      "do_abort E doThrow ABORT_REASON_WRITE_NODE_INTERFERENCE None ms (t\<lparr>write_set := ws\<rparr>) (w\<lparr>wheap := H\<rparr>) = Inr (out, t', w')"
  | (locked) ms ws H vs tid ctx where "write_set t \<noteq> []" "marks (write_set t) ws" "lock_phase (write_set t) (wheap w) True ms H"
      "lock_loop [] None False (sorted_infos (write_set t)) (write_set t) (wheap w) = Inr (True, ms, ws, H)"
      "write_versions ms H = Inr vs"
      "gen_commit_tid (wtid w) (of_nat (wcore w)) (wtick w) (map rr_tid (read_set t)) vs = (tid, ctx)"
      "validate_and_write E doThrow (Some tid) ms (t\<lparr>write_set := ws, u_word := wtick w\<rparr>) (w\<lparr>wheap := H, wtid := ctx\<rparr>) =
        Inr (out, t', w')"
proof (cases "write_set t = []")
  case True
  then show ?thesis using st ns c empty by (auto simp: commit_def)
next
  case False
  obtain ok ms ws H where l: "lock_loop [] None False (sorted_infos (write_set t)) (write_set t) (wheap w) = Inr (ok, ms, ws, H)"
    using st ns c False
    by (cases "lock_loop [] None False (sorted_infos (write_set t)) (write_set t) (wheap w)")
      (auto simp: commit_def sorted_infos_def)
  note ph = commit_lock_phase [OF l False]
  have rest: "(let t1 = t\<lparr>write_set := ws\<rparr>; w1 = w\<lparr>wheap := H\<rparr>
     in if \<not> ok then do_abort E doThrow ABORT_REASON_WRITE_NODE_INTERFERENCE None ms t1 w1
        else sbind (write_versions ms H) (\<lambda>vs.
          case gen_commit_tid (wtid w) (of_nat (wcore w)) (wtick w) (map rr_tid (read_set t)) vs of
            (tid, ctx) \<Rightarrow> validate_and_write E doThrow (Some tid) ms (t1\<lparr>u_word := wtick w\<rparr>) (w1\<lparr>wtid := ctx\<rparr>))) =
     Inr (out, t', w')"
    using st ns c False l [unfolded sorted_infos_def] by (auto simp: commit_def)
  show ?thesis
  proof (cases ok)
    case False
    then show ?thesis using rest ph l \<open>write_set t \<noteq> []\<close> by (intro lock_failed) auto
  next
    case True
    then obtain vs where vs: "write_versions ms H = Inr vs" using rest by (cases "write_versions ms H") auto
    obtain tid ctx where g: "gen_commit_tid (wtid w) (of_nat (wcore w)) (wtick w) (map rr_tid (read_set t)) vs = (tid, ctx)"
      by (cases "gen_commit_tid (wtid w) (of_nat (wcore w)) (wtick w) (map rr_tid (read_set t)) vs")
    have "validate_and_write E doThrow (Some tid) ms (t\<lparr>write_set := ws, u_word := wtick w\<rparr>) (w\<lparr>wheap := H, wtid := ctx\<rparr>) =
        Inr (out, t', w')"
      using rest True vs g by (simp add: Let_def)
    then show ?thesis using locked [OF \<open>write_set t \<noteq> []\<close> _ _ _ vs g] ph l True by auto
  qed
qed

lemma failed_commit:
  assumes "index_laws (e_ix E) M" and "state t = TXN_EMBRYO \<or> state t = TXN_ACTIVE" and "\<not> is_snapshot t"
    and "write_set_ok M (write_set t) w" and "commit E doThrow t w = Inr (out, t', w')" and "out \<noteq> Return True"
  shows "state t' = TXN_ABRT \<and> out = (if doThrow then Abort_exn (reason t') else Return False) \<and>
    restored (wr_tuple ` {r \<in> set (write_set t). wr_insert r}) (wheap w) (wheap w') \<and>
    M (windex w') = unindexed ((\<lambda>r. (wr_btr r, wr_key r)) ` {r \<in> set (write_set t). wr_insert r}) (M (windex w)) \<and>
    (\<exists>ps. wrcu w' = wrcu w @ ps \<and> set ps = wr_tuple ` {r \<in> set (write_set t). wr_insert r}) \<and>
    wlog w' = wlog w \<and> wgc w' = wgc w"
proof -
  let ?ws = "write_set t"
  let ?concl = "\<lambda>out t' w'. state t' = TXN_ABRT \<and> out = (if doThrow then Abort_exn (reason t') else Return False) \<and>
    restored (wr_tuple ` {r \<in> set ?ws. wr_insert r}) (wheap w) (wheap w') \<and>
    M (windex w') = unindexed ((\<lambda>r. (wr_btr r, wr_key r)) ` {r \<in> set ?ws. wr_insert r}) (M (windex w)) \<and>
    (\<exists>ps. wrcu w' = wrcu w @ ps \<and> set ps = wr_tuple ` {r \<in> set ?ws. wr_insert r}) \<and> wlog w' = wlog w \<and> wgc w' = wgc w"
  have ab: "?concl out t' w'"
    if ph: "lock_phase ?ws (wheap w) b ms H" "marks ?ws ws'"
      and d: "do_abort E doThrow r c ms (t\<lparr>write_set := ws', u_word := u\<rparr>) (w\<lparr>wheap := H, wtid := ctx\<rparr>) = Inr (out, t', w')"
    for b ms H ws' r c u ctx
  proof -
    obtain w2 where w2: "do_abort E doThrow r c ms (t\<lparr>write_set := ws', u_word := u\<rparr>) (w\<lparr>wheap := H, wtid := ctx\<rparr>) =
        Inr (if doThrow then Abort_exn r else Return False, t\<lparr>write_set := ws', u_word := u, reason := r, state := TXN_ABRT\<rparr>, w2)"
        "restored (wr_tuple ` {r \<in> set ?ws. wr_insert r}) (wheap w) (wheap w2)"
        "M (windex w2) = unindexed ((\<lambda>r. (wr_btr r, wr_key r)) ` {r \<in> set ?ws. wr_insert r}) (M (windex w))"
        "w2 = w\<lparr>wtid := ctx, wheap := wheap w2, windex := windex w2, wrcu := wrcu w @ inserted ms\<rparr>"
        "set (inserted ms) = wr_tuple ` {r \<in> set ?ws. wr_insert r}"
      using do_abort_effect [OF assms(1,4) ph, where doThrow = doThrow and r = r and c = c and t = t and u = u and ctx = ctx] by blast
    have eq: "out = (if doThrow then Abort_exn r else Return False)" "w' = w2"
        "t' = t\<lparr>write_set := ws', u_word := u, reason := r, state := TXN_ABRT\<rparr>" using d w2(1) by auto
    have "wrcu w2 = wrcu w @ inserted ms" "wlog w2 = wlog w" "wgc w2 = wgc w"
      by (subst w2(4), simp)+
    then show ?thesis using w2(2,3,5) by (simp add: eq)
  qed
  show ?thesis
  proof (rule commit_phases [OF assms(2,3,5)])
    assume e: "?ws = []" and v: "validate_and_write E doThrow None [] t w = Inr (out, t', w')"
    obtain r where d: "do_abort E doThrow r None [] t w = Inr (out, t', w')"
      using validate_and_write_Inr [OF v] assms(6) by auto
    have ph: "lock_phase ?ws (wheap w) True [] (wheap w)"
      by (simp add: e lock_phase_def sorted_infos_def sort_write_infos_def collect_write_infos_def)
    show ?thesis by (rule ab [OF ph marks_refl, of r None "u_word t" "wtid w"]) (use d in simp)
  next
    fix ms ws H
    assume p: "marks ?ws ws" "lock_phase ?ws (wheap w) False ms H"
      and d: "do_abort E doThrow ABORT_REASON_WRITE_NODE_INTERFERENCE None ms (t\<lparr>write_set := ws\<rparr>) (w\<lparr>wheap := H\<rparr>) = Inr (out, t', w')"
    show ?thesis
      by (rule ab [OF p(2,1), of ABORT_REASON_WRITE_NODE_INTERFERENCE None "u_word t" "wtid w"]) (use d in simp)
  next
    fix ms ws H vs tid ctx
    assume p: "marks ?ws ws" "lock_phase ?ws (wheap w) True ms H"
      and v: "validate_and_write E doThrow (Some tid) ms (t\<lparr>write_set := ws, u_word := wtick w\<rparr>) (w\<lparr>wheap := H, wtid := ctx\<rparr>) =
        Inr (out, t', w')"
    obtain r where "do_abort E doThrow r (Some tid) ms (t\<lparr>write_set := ws, u_word := wtick w\<rparr>) (w\<lparr>wheap := H, wtid := ctx\<rparr>) =
        Inr (out, t', w')"
      using validate_and_write_Inr [OF v] assms(6) by auto
    then show ?thesis by (rule ab [OF p(2,1)])
  qed
qed

text \<open>
  Property C6 (abort). A commit that does not succeed puts the transaction into \<^verbatim>\<open>TXN_ABRT\<close>, reports it by
  \<^verbatim>\<open>false\<close> or the exception, and undoes everything: every tuple keeps its version, size, bytes, successor
  and deleted mark, no lock of the transaction is left, the inserted tuples are out of the index, no longer
  latest and handed to RCU, every other key of the index is as before, and neither the log nor the garbage
  queues changed.
\<close>

theorem commit_abort_restores:
  assumes "index_laws (e_ix E) M" and "state t = TXN_EMBRYO \<or> state t = TXN_ACTIVE" and "\<not> is_snapshot t"
    and "write_set_ok M (write_set t) w" and "commit E doThrow t w = Inr (out, t', w')" and "out \<noteq> Return True"
  shows "state t' = TXN_ABRT \<and> out = (if doThrow then Abort_exn (reason t') else Return False) \<and>
    restored (wr_tuple ` {r \<in> set (write_set t). wr_insert r}) (wheap w) (wheap w') \<and>
    M (windex w') = unindexed ((\<lambda>r. (wr_btr r, wr_key r)) ` {r \<in> set (write_set t). wr_insert r}) (M (windex w)) \<and>
    (\<exists>ps. wrcu w' = wrcu w @ ps \<and> set ps = wr_tuple ` {r \<in> set (write_set t). wr_insert r}) \<and>
    wlog w' = wlog w \<and> wgc w' = wgc w"
  by (rule failed_commit [OF assms])

text \<open>The smallest index: one node with a version, under which all keys lie. Examples run on it.\<close>

type_synonym flat_index = "(btree \<Rightarrow> bytes \<Rightarrow> ptr option) \<times> u64"

definition flat_ops :: "flat_index index_ops" where
  "flat_ops =
     \<lparr>ix_search = (\<lambda>(m, v) b k. (m b k, 0, v)),
      ix_insert_if_absent = (\<lambda>(m, v) b k p. if m b k \<noteq> None then None
        else Some (\<lparr>ii_node = 0, ii_old_version = v, ii_new_version = v + 1\<rparr>, (upd_key b k (Some p) m, v + 1))),
      ix_insert = (\<lambda>(m, v) b k p. (upd_key b k (Some p) m, v)),
      ix_remove = (\<lambda>(m, v) b k. map_option (\<lambda>p. (p, (upd_key b k None m, v + 1))) (m b k)),
      ix_version = (\<lambda>(m, v) n. v)\<rparr>"

definition flat_env :: "flat_index env" where
  "flat_env = \<lparr>e_ix = flat_ops, e_lz4 = \<lparr>LZ4_compressBound = (\<lambda>n. n), LZ4_compress = (\<lambda>bs room. bs)\<rparr>\<rparr>"

lemma flat_laws: "index_laws (e_ix flat_env) fst"
  by (auto simp: index_laws_def flat_env_def flat_ops_def split: option.splits)

text \<open>A world over given tuples and keys, with empty queues and logging off.\<close>

definition flat_world :: "heap \<Rightarrow> (btree \<Rightarrow> bytes \<Rightarrow> ptr option) \<Rightarrow> u64 \<Rightarrow> flat_index world" where
  "flat_world H m tick =
     \<lparr>wheap = H, windex = (m, 0),
      wgc = gq_new \<lparr>groups = (\<lambda>_. \<lparr>gnext = None, pxs = [], rcu_tick = 0\<rparr>), next_group = 0\<rparr>,
      wtid = \<lparr>last_commit_tid = 0, hack_status = False, hack_global_tid = 0\<rparr>, wlast_reaped = 0,
      wpool = [], wstrs = (\<lambda>_. []), wnext_str = 0, wrcu = [],
      wlog = \<lparr>g_persist = False, g_use_compression = False,
        pctx = \<lparr>p_init = False, horizon = pbuffer_new 0 0, all_buffers = cb_new 256, persist_buffers = cb_new 256,
          pbufs = (\<lambda>_. pbuffer_new 0 0)\<rparr>, ntxns_pushed = 0, ntxns_committed = 0\<rparr>,
      wtick = tick, wlast_tick_ex = 0, wcore = 0, wstart_us = 0\<rparr>"

text \<open>A transaction that inserts a key and writes a tuple which another transaction has replaced.\<close>

theorem commit_abort_restores_witness:
  "\<exists>(t :: bytes txn) w t' w'. commit flat_env False t w = Inr (Return False, t', w') \<and>
    fst (windex w) 0 [1] = Some 0 \<and> fst (windex w') 0 [1] = None \<and> state t' = TXN_ABRT \<and>
    restored {0} (wheap w) (wheap w')"
proof -
  let ?x = "\<lparr>hdr = 21, tversion = MAX_TID, tsize = 1, alloc_size = 8, tnext = None, value_start = replicate 8 0\<rparr>"
  let ?y = "\<lparr>hdr = 0, tversion = 5, tsize = 1, alloc_size = 8, tnext = None, value_start = replicate 8 0\<rparr>"
  let ?H = "\<lparr>cells = [0 \<mapsto> ?x, 1 \<mapsto> ?y], brk = 2, raw = (\<lambda>_ _. 0)\<rparr>"
  let ?w = "flat_world ?H (\<lambda>b k. if k = [1] then Some 0 else if k = [2] then Some 1 else None) 60"
  let ?ws = "[new_write_record 0 [1] (Some [7]) string_writer 0 True, new_write_record 1 [2] (Some [8]) string_writer 0 False]"
  let ?t = "\<lparr>state = TXN_ACTIVE, reason = ABORT_REASON_NONE, flags = 0, read_set = [], write_set = ?ws, absent_set = [],
    u_word = 0\<rparr> :: bytes txn"
  have flags: "IsLocked 21" "IsLatest 21" "\<not> IsLocked 0" "\<not> IsLatest 0" unfolding hdr_flag_bits by simp_all
  have ok: "write_set_ok fst (write_set ?t) ?w"
    using flags by (simp add: write_set_ok_def new_write_record_def flat_world_def marker_def)
  have si: "sort_write_infos (collect_write_infos ?ws) = [new_write_info 0 0 True 0, new_write_info 1 1 False 1]"
    by (simp add: sort_write_infos_def collect_write_infos_def new_write_record_def new_write_info_def write_info_key_def)
  have ns: "\<not> is_snapshot ?t" by (simp add: is_snapshot_def)
  define ws where "ws = ?ws"
  define H where "H = ?H"
  have at: "cells H 0 = Some ?x" "cells H 1 = Some ?y" by (simp_all add: H_def)
  have nl: "\<not> IsLatest (lockmask True)" by (simp add: hdr_flag_bits hdr_bit_simps)
  have "\<exists>ms ws' H'. lock_loop [] None False [new_write_info 0 0 True 0, new_write_info 1 1 False 1] ws H = Inr (False, ms, ws', H')"
    using flags at nl
    by (auto simp: handle_last_tuple_in_group_def new_write_info_def tuple_at_def MAX_TID_def lock_tuple_def try_lock_def
        lock_flags)
  then obtain ms ws' H' where l: "lock_loop [] None False (sorted_infos ws) ws H = Inr (False, ms, ws', H')"
    using si by (auto simp: sorted_infos_def ws_def)
  have ph: "marks ws ws'" "lock_phase ws H False ms H'" using commit_lock_phase [OF l] by (simp_all add: ws_def)
  have okw: "write_set_ok fst ws ?w" using ok by (simp add: ws_def)
  have hw: "wheap ?w = H" by (simp add: flat_world_def H_def)
  obtain w' where "do_abort flat_env False ABORT_REASON_WRITE_NODE_INTERFERENCE None ms (?t\<lparr>write_set := ws', u_word := 0\<rparr>)
      (?w\<lparr>wheap := H', wtid := wtid ?w\<rparr>) = Inr (if False then Abort_exn ABORT_REASON_WRITE_NODE_INTERFERENCE else Return False,
        ?t\<lparr>write_set := ws', u_word := 0, reason := ABORT_REASON_WRITE_NODE_INTERFERENCE, state := TXN_ABRT\<rparr>, w')"
    using do_abort_effect [OF flat_laws okw ph(2) [folded hw] ph(1), where doThrow = False and
      r = ABORT_REASON_WRITE_NODE_INTERFERENCE and c = None and t = ?t and u = 0 and ctx = "wtid ?w"] by blast
  then have "\<exists>t' w'. commit flat_env False ?t ?w = Inr (Return False, t', w')"
    using l ns unfolding sorted_infos_def by (auto simp: commit_def ws_def H_def flat_world_def)
  then obtain t' w' where c: "commit flat_env False ?t ?w = Inr (Return False, t', w')" by blast
  have "state t' = TXN_ABRT \<and> restored {0} (wheap ?w) (wheap w') \<and>
      fst (windex w') = unindexed {(0, [1])} (fst (windex ?w))"
  proof -
    have sets: "wr_tuple ` {r \<in> set (write_set ?t). wr_insert r} = {0}"
        "(\<lambda>r. (wr_btr r, wr_key r)) ` {r \<in> set (write_set ?t). wr_insert r} = {(0, [1])}"
    proof -
      have one: "{r \<in> set [a, b]. wr_insert r} = {a}" if "wr_insert a" "\<not> wr_insert b" for a b :: "bytes write_record"
        using that by auto
      have "write_set ?t = ?ws" by simp
      moreover have "{r \<in> set ?ws. wr_insert r} = {new_write_record 0 [1] (Some [7]) string_writer 0 True}"
        by (rule one) (simp_all add: new_write_record_def)
      ultimately show "wr_tuple ` {r \<in> set (write_set ?t). wr_insert r} = {0}"
          "(\<lambda>r. (wr_btr r, wr_key r)) ` {r \<in> set (write_set ?t). wr_insert r} = {(0, [1])}"
        by (simp_all only: image_insert image_empty) (simp_all add: new_write_record_def)
    qed
    have st: "state ?t = TXN_EMBRYO \<or> state ?t = TXN_ACTIVE" and nt: "Return False \<noteq> Return True" by simp_all
    show ?thesis using commit_abort_restores [OF flat_laws st ns ok c nt] unfolding sets by blast
  qed
  then show ?thesis
    using c by (intro exI [of _ ?t] exI [of _ ?w] exI [of _ t'] exI [of _ w']) (simp add: flat_world_def unindexed_def)
qed

end
