(* ===== verification/Txn_Effect.thy ===== *)
theory Txn_Effect
  imports Txn_Commit
begin

text \<open>
  What a successful commit does to the database: the versions each key reads as, before and after, for
  the tables of plain strings (\<^verbatim>\<open>txn_btree\<close>).
\<close>

section \<open>Heaps that hold the same versions\<close>

definition same_data :: "dbtuple \<Rightarrow> dbtuple \<Rightarrow> bool" where
  "same_data x y \<longleftrightarrow> tversion y = tversion x \<and> tnext y = tnext x \<and> tuple_value y = tuple_value x"

lemma same_data_refl [simp]: "same_data x x"
  by (simp add: same_data_def)

definition same_on :: "ptr set \<Rightarrow> heap \<Rightarrow> heap \<Rightarrow> bool" where
  "same_on A H H' \<longleftrightarrow> (\<forall>p \<in> A. rel_option same_data (cells H p) (cells H' p))"

lemma same_on_cells: "(\<And>p. p \<in> A \<Longrightarrow> cells H' p = cells H p) \<Longrightarrow> same_on A H H'"
  by (auto simp: same_on_def intro: option.rel_refl)

lemma same_on_trans:
  assumes "same_on A H1 H2" and "same_on A H2 H3"
  shows "same_on A H1 H3"
  unfolding same_on_def
proof
  fix p assume "p \<in> A"
  then have "rel_option same_data (cells H1 p) (cells H2 p)" "rel_option same_data (cells H2 p) (cells H3 p)"
    using assms by (auto simp: same_on_def)
  then show "rel_option same_data (cells H1 p) (cells H3 p)"
    by (cases "cells H1 p"; cases "cells H2 p"; cases "cells H3 p") (auto simp: same_data_def)
qed

lemma chain_same:
  "same_on (set ps) H H' \<Longrightarrow> chain (cells H) q ps \<Longrightarrow> chain (cells H') q ps"
proof (induction ps arbitrary: q)
  case (Cons p ps)
  then obtain x where x: "q = Some p" "cells H p = Some x" "chain (cells H) (tnext x) ps" by auto
  then obtain y where y: "cells H' p = Some y" "tnext y = tnext x"
    using Cons.prems(1) by (auto simp: same_on_def same_data_def option_rel_Some1)
  then show ?case using Cons.IH [of "tnext x"] Cons.prems(1) x by (auto simp: same_on_def)
qed simp

lemma versions_same: "same_on (set ps) H H' \<Longrightarrow> versions (cells H') ps = versions (cells H) ps"
  unfolding versions_def
  by (rule map_cong) (auto simp: same_on_def same_data_def split: option.splits elim!: option.rel_cases)

lemma tuple_value_hdr: "IsDeleting h = IsDeleting (hdr x) \<Longrightarrow> tuple_value (x\<lparr>hdr := h\<rparr>) = tuple_value x"
  by (simp add: tuple_value_def Let_def)

lemma same_data_hdr: "IsDeleting h = IsDeleting (hdr x) \<Longrightarrow> same_data x (x\<lparr>hdr := h\<rparr>)"
  by (simp add: same_data_def tuple_value_hdr)

lemma same_data_lock [simp]: "same_data x (lk x)" "same_data x (ulk x)"
  unfolding lk_def ulk_def by (rule same_data_hdr, simp add: lock_flags unlock_flags)+

lemma same_on_upd: "(\<And>x. same_data x (f x)) \<Longrightarrow> same_on A H (upd_heap f B H)"
  by (auto simp: same_on_def option.rel_map intro: option.rel_refl)

definition locked_at :: "heap \<Rightarrow> ptr \<Rightarrow> bool" where
  "locked_at H p \<longleftrightarrow> (\<exists>x. cells H p = Some x \<and> IsLocked (hdr x))"

section \<open>The head after a write\<close>

lemma string_write_ok:
  "\<forall>u. v = Some u \<longrightarrow> length u \<le> length buf \<Longrightarrow> \<exists>buf'. writer_write string_writer v buf n = Inr buf' \<and> length buf' = length buf"
  by (cases v) (auto simp: writer_write_def string_writer_def mem_copy_def write_at_def)

lemma written_hdr_flags:
  "IsLocked (written_hdr n h) = IsLocked h" "IsLatest (written_hdr n h) = IsLatest h"
  by (simp_all add: written_hdr_def Let_def hdr_flag_bits hdr_bit_simps)

definition value_size :: "bytes option \<Rightarrow> nat" where
  "value_size v = (case v of None \<Rightarrow> 0 | Some u \<Rightarrow> length u)"

lemma string_needed: "writer_needed string_writer v x = Inr (value_size v)"
  by (cases v) (simp_all add: writer_needed_def string_writer_def value_size_def)

text \<open>
  \<open>head_ok\<close>: what a head of a chain is besides its versions. A write keeps it; the head is the tuple itself,
  still locked, or a new one, unlocked, and then the tuple is no longer the latest.
\<close>

definition head_ok :: "dbtuple \<Rightarrow> bool" where
  "head_ok x \<longleftrightarrow> buffer_ok x \<and> IsLatest (hdr x)"

definition written_head :: "heap \<Rightarrow> ptr \<Rightarrow> bytes option \<Rightarrow> write_record_ret \<Rightarrow> heap \<Rightarrow> bool" where
  "written_head H p v ret H' \<longleftrightarrow>
     (\<exists>y. cells H' (head_tuple ret) = Some y \<and> head_ok y \<and> (v = None \<longrightarrow> IsDeleting (hdr y))) \<and>
     (\<forall>q. locked_at H' q = locked_at H q) \<and> (\<forall>q. cells H q \<noteq> None \<longrightarrow> cells H' q \<noteq> None) \<and> brk H \<le> brk H' \<and>
     (head_tuple ret \<noteq> p \<longrightarrow> head_tuple ret = brk H) \<and>
     (\<forall>q. rest_tuple ret = Some q \<longrightarrow> cells H' q \<noteq> None)"

lemma new_head:
  assumes "newsz \<le> 65535" and "oldsz \<le> length r" and "oldsz \<le> 65535"
  shows "\<exists>y. alloc_spill ver r oldsz newsz nxt True False H = Inr (brk H, H\<lparr>cells := (cells H)(brk H \<mapsto> y), brk := Suc (brk H)\<rparr>) \<and>
    \<not> IsLocked (hdr y) \<and> IsLatest (hdr y) \<and> IsDeleting (hdr y) = (newsz = 0) \<and> buffer_ok y \<and> newsz \<le> length (value_start y)"
proof -
  let ?n = "alloc_sz newsz - sizeof_dbtuple"
  have n: "newsz \<le> ?n" "?n \<le> 65535" using alloc_sz_room [OF assms(1)] by simp_all
  have u: "unat (of_nat ?n :: u16) = ?n" "unat (of_nat newsz :: u16) = newsz"
    using n assms(1) by (auto intro!: unat_of_nat_small)
  define h where "h = HDR_LATEST_MASK OR (if newsz = 0 then HDR_DELETING_MASK else 0)"
  have h: "\<not> IsLocked h" "IsLatest h" "IsDeleting h = (newsz = 0)"
    unfolding hdr_flag_bits h_def by (simp_all add: bit_or_iff hdr_bit_simps)
  define y where "y = \<lparr>hdr = h, tversion = ver, tsize = of_nat newsz, alloc_size = of_nat ?n, tnext = Some nxt,
    value_start = fresh_bytes H ?n\<rparr>"
  have "alloc_spill ver r oldsz newsz nxt True False H = Inr (brk H, H\<lparr>cells := (cells H)(brk H \<mapsto> y), brk := Suc (brk H)\<rparr>)"
    unfolding alloc_spill_def Let_def if_False sbind_simps heap_new_def if_True h_def [symmetric] y_def ..
  then show ?thesis using h n u by (intro exI [of _ y]) (simp add: y_def buffer_ok_def fresh_bytes_def)
qed

lemma locked_at_simps:
  "locked_at (tuple_put p x H) q = (if q = p then IsLocked (hdr x) else locked_at H q)"
  "locked_at (H\<lparr>cells := (cells H)(p \<mapsto> x), brk := n\<rparr>) q = (if q = p then IsLocked (hdr x) else locked_at H q)"
  by (simp_all add: locked_at_def tuple_put_def)

lemma alloc_copy_Inr:
  assumes "alloc_copy ver x False H = Inr (q, H1)"
  shows "q = brk H \<and> (\<exists>y. \<not> IsLocked (hdr y) \<and> H1 = H\<lparr>cells := (cells H)(brk H \<mapsto> y), brk := Suc (brk H)\<rparr>)"
proof -
  have "\<not> IsLocked 0" "\<not> IsLocked (mark_deleting_hdr 0)" unfolding hdr_flag_bits by (simp_all add: hdr_bit_simps)
  moreover obtain y where "H1 = H\<lparr>cells := (cells H)(brk H \<mapsto> y), brk := Suc (brk H)\<rparr>"
      "hdr y = (if IsDeleting (hdr x) then mark_deleting_hdr 0 else 0)" "q = brk H"
  proof -
    obtain bs where "heap_new \<lparr>hdr = (if IsDeleting (hdr x) then mark_deleting_hdr 0 else 0), tversion = ver, tsize = tsize x,
        alloc_size = of_nat (alloc_sz (unat (tsize x)) - sizeof_dbtuple), tnext = tnext x, value_start = bs\<rparr> H = (q, H1)"
      using assms by (auto simp: alloc_copy_def Let_def sbind_Inr)
    then show ?thesis by (intro that) (auto simp: heap_new_def)
  qed
  ultimately have "q = brk H \<and> \<not> IsLocked (hdr y) \<and> H1 = H\<lparr>cells := (cells H)(brk H \<mapsto> y), brk := Suc (brk H)\<rparr>" by simp
  then show ?thesis by blast
qed

lemma write_record_at_head:
  assumes ho: "heap_ok H" and x: "cells H p = Some x" and hd: "head_ok x"
    and v: "\<forall>u. v = Some u \<longrightarrow> u \<noteq> [] \<and> length u \<le> 65535"
    and w: "write_record_at string_writer H p t v = Inr (ret, H')"
  shows "written_head H p v ret H'"
proof -
  let ?n = "value_size v" and ?o = "old_size x"
  have n: "?n \<le> 65535" and n0: "?n = 0 \<longleftrightarrow> v = None" using v by (cases v; simp add: value_size_def)+
  have bo: "buffer_ok x" and lt: "IsLatest (hdr x)" using hd by (simp_all add: head_ok_def)
  have lock: "locked_at H p = IsLocked (hdr x)" by (simp add: locked_at_def x)
  have fresh: "cells H (brk H) = None" "p \<noteq> brk H" using ho x by (auto simp: heap_ok_def)
  then have nl: "\<not> locked_at H (brk H)" by (simp add: locked_at_def)
  have at: "tuple_at H p = Inr x" by (simp add: tuple_at_def x)
  have no: "\<not> w_needs_old string_writer" by (simp add: string_writer_def)
  have un: "unat (of_nat ?n :: u16) = ?n" using n by (auto intro!: unat_of_nat_small)
  have inplace: "written_head H p v ret (tuple_put p (x\<lparr>hdr := written_hdr ?n (hdr x), tnext := q, value_start := buf, tversion := t,
        tsize := of_nat ?n\<rparr>) H0)"
    if room: "?n \<le> unat (alloc_size x)" and buf: "length buf = length (value_start x)" and ret: "head_tuple ret = p"
      and H0: "\<forall>q. locked_at H0 q = locked_at H q" "\<forall>q. cells H q \<noteq> None \<longrightarrow> cells H0 q \<noteq> None" "brk H \<le> brk H0"
        "\<forall>q. rest_tuple ret = Some q \<longrightarrow> cells H0 q \<noteq> None"
    for buf q H0
  proof -
    have b: "head_ok (x\<lparr>hdr := written_hdr ?n (hdr x), tnext := q, value_start := buf, tversion := t, tsize := of_nat ?n\<rparr>)"
      using bo lt buf room un by (simp add: head_ok_def buffer_ok_def written_hdr_flags)
    have d: "v = None \<longrightarrow> IsDeleting (written_hdr ?n (hdr x))" using n0 by (auto simp: written_flags value_size_def)
    show ?thesis
      unfolding written_head_def using b d H0 ret
      by (auto simp: locked_at_simps written_hdr_flags lock) (auto simp: tuple_put_def)
  qed
  have spill: "written_head H p v ret (tuple_put p (x\<lparr>hdr := clear_latest_hdr (hdr x)\<rparr>) (tuple_put (brk H) (y\<lparr>value_start := buf\<rparr>)
        (H\<lparr>cells := (cells H)(brk H \<mapsto> y), brk := Suc (brk H)\<rparr>)))"
    if y: "\<not> IsLocked (hdr y)" "IsLatest (hdr y)" "IsDeleting (hdr y) = (?n = 0)" "buffer_ok y"
      and buf: "length buf = length (value_start y)" and ret: "head_tuple ret = brk H" "rest_tuple ret = Some p" for y buf
  proof -
    have b: "head_ok (y\<lparr>value_start := buf\<rparr>)" using y(2,4) buf by (simp add: head_ok_def buffer_ok_def)
    have d: "v = None \<longrightarrow> IsDeleting (hdr (y\<lparr>value_start := buf\<rparr>))" using y(3) n0 by simp
    show ?thesis
      unfolding written_head_def using b d ret fresh nl y(1)
      by (auto simp: locked_at_simps drop_latest_flags lock) (auto simp: tuple_put_def)
  qed
  have osz: "?o \<le> length (value_start x)" "?o \<le> 65535"
    using bo unsigned_less [of "tsize x", where ?'a = nat] by (auto simp: buffer_ok_def old_size_def)
  note start = w [unfolded write_record_at_def at string_needed sbind_simps Let_def old_size_def [symmetric]]
  show ?thesis
  proof (cases "?n \<le> unat (alloc_size x) \<and> ?o \<noteq> 0")
    case True
    then have room: "\<forall>u. v = Some u \<longrightarrow> length u \<le> length (value_start x)"
      using bo by (auto simp: value_size_def buffer_ok_def)
    show ?thesis
    proof (cases "can_overwrite_record_tid (tversion x) t")
      case over: True
      obtain buf where buf: "writer_write string_writer v (value_start x) ?o = Inr buf" "length buf = length (value_start x)"
        using string_write_ok [OF room] by blast
      have H': "H' = tuple_put p (x\<lparr>hdr := written_hdr ?n (hdr x), tnext := tnext x, value_start := buf, tversion := t,
          tsize := of_nat ?n\<rparr>) H" and ret: "head_tuple ret = p" "rest_tuple ret = None"
        using start True over buf(1) by (auto simp: tuple_put_def)
      show ?thesis unfolding H' by (rule inplace) (use True buf(2) ret in auto)
    next
      case over: False
      obtain q H1 where cp: "alloc_copy (tversion x) x False H = Inr (q, H1)"
        using start True over by (cases "alloc_copy (tversion x) x False H") auto
      obtain buf where buf: "writer_write string_writer v (value_start x) (unat (tsize x)) = Inr buf" "length buf = length (value_start x)"
        using string_write_ok [OF room] by blast
      have H': "H' = tuple_put p (x\<lparr>hdr := written_hdr ?n (hdr x), tnext := Some q, value_start := buf, tversion := t,
          tsize := of_nat ?n\<rparr>) H1" and ret: "head_tuple ret = p" "rest_tuple ret = Some q"
        using start True over buf(1) cp by auto
      obtain y where y: "q = brk H" "\<not> IsLocked (hdr y)" "H1 = H\<lparr>cells := (cells H)(brk H \<mapsto> y), brk := Suc (brk H)\<rparr>"
        using alloc_copy_Inr [OF cp] by blast
      show ?thesis
        unfolding H' by (rule inplace) (use True buf(2) ret y nl in \<open>auto simp: locked_at_simps\<close>)
    qed
  next
    case False
    obtain y where y: "alloc_spill t (value_start x) ?o ?n p True False H = Inr (brk H, H\<lparr>cells := (cells H)(brk H \<mapsto> y), brk := Suc (brk H)\<rparr>)"
        "\<not> IsLocked (hdr y)" "IsLatest (hdr y)" "IsDeleting (hdr y) = (?n = 0)" "buffer_ok y" "?n \<le> length (value_start y)"
      using new_head [OF n osz, of t p H] by (elim exE conjE) (rule that; assumption)
    let ?H1 = "H\<lparr>cells := (cells H)(brk H \<mapsto> y), brk := Suc (brk H)\<rparr>"
    have room: "\<forall>u. v = Some u \<longrightarrow> length u \<le> length (value_start y)" using y(6) by (auto simp: value_size_def)
    have at1: "tuple_at ?H1 (brk H) = Inr y" by (simp add: tuple_at_def)
    obtain b1 b2 where b: "writer_write string_writer v (value_start y) ?o = Inr b1" "length b1 = length (value_start y)"
        "writer_write string_writer v (value_start y) (unat (tsize x)) = Inr b2" "length b2 = length (value_start y)"
      using string_write_ok [OF room] by blast
    obtain buf where H': "H' = tuple_put p (x\<lparr>hdr := clear_latest_hdr (hdr x)\<rparr>) (tuple_put (brk H) (y\<lparr>value_start := buf\<rparr>) ?H1)"
        "length buf = length (value_start y)" and ret: "head_tuple ret = brk H" "rest_tuple ret = Some p"
      using start False y(1) at1 b no by (auto split: if_splits)
    show ?thesis unfolding H' by (rule spill) (use y(2-5) H'(2) ret in auto)
  qed
qed


section \<open>The database\<close>

text \<open>The tuples of the chain that starts at a pointer; a chain has no tuple twice, so the fuel is enough.\<close>

fun walk_tuples :: "nat \<Rightarrow> heap \<Rightarrow> ptr option \<Rightarrow> ptr list" where
  "walk_tuples 0 H q = []"
| "walk_tuples (Suc n) H q =
     (case q of
        None \<Rightarrow> []
      | Some p \<Rightarrow> (case cells H p of None \<Rightarrow> [] | Some x \<Rightarrow> p # walk_tuples n H (tnext x)))"

definition chain_at :: "heap \<Rightarrow> ptr \<Rightarrow> ptr list" where
  "chain_at H p = walk_tuples (brk H) H (Some p)"

lemma walk_chain: "chain (cells H) q ps \<Longrightarrow> length ps \<le> n \<Longrightarrow> walk_tuples n H q = ps"
proof (induction ps arbitrary: q n)
  case Nil
  then show ?case by (cases n) auto
next
  case (Cons p ps)
  then show ?case by (cases n) auto
qed

lemma chain_length: "heap_ok H \<Longrightarrow> chain (cells H) q ps \<Longrightarrow> length ps \<le> brk H"
proof -
  assume h: "heap_ok H" and c: "chain (cells H) q ps"
  have "set ps \<subseteq> {..<brk H}" using chain_below_brk [OF h c] by auto
  then have "card (set ps) \<le> brk H" using card_mono [of "{..<brk H}" "set ps"] by simp
  then show "length ps \<le> brk H" using chain_distinct [OF c] by (simp add: distinct_card)
qed

lemma chain_at_eq: "heap_ok H \<Longrightarrow> chain (cells H) (Some p) ps \<Longrightarrow> chain_at H p = ps"
  by (simp add: chain_at_def walk_chain chain_length)

text \<open>The versions of a key, newest first, and what a read at \<open>s\<close> finds.\<close>

definition key_versions :: "heap \<Rightarrow> ptr option \<Rightarrow> (u64 \<times> bytes option) list" where
  "key_versions H q = (case q of None \<Rightarrow> [] | Some p \<Rightarrow> versions (cells H) (chain_at H p))"

text \<open>
  Every key leads to a well-formed chain whose first tuple is marked as latest; the chains of different keys
  have no tuple in common. \<open>m\<close> is the content of the index.
\<close>

definition db_ok :: "(btree \<Rightarrow> bytes \<Rightarrow> ptr option) \<Rightarrow> heap \<Rightarrow> bool" where
  "db_ok m H \<longleftrightarrow> heap_ok H \<and>
     (\<forall>b k p. m b k = Some p \<longrightarrow> chain (cells H) (Some p) (chain_at H p) \<and> (\<exists>x. cells H p = Some x \<and> head_ok x)) \<and>
     (\<forall>b k p b' k' p'. m b k = Some p \<and> m b' k' = Some p' \<and> (b, k) \<noteq> (b', k') \<longrightarrow>
        set (chain_at H p) \<inter> set (chain_at H p') = {})"

lemma db_okD:
  assumes "db_ok m H" and "m b k = Some p"
  shows "heap_ok H" and "chain (cells H) (Some p) (chain_at H p)" and "\<exists>x. cells H p = Some x \<and> head_ok x"
    and "p \<in> set (chain_at H p)" and "\<And>b' k' p'. m b' k' = Some p' \<Longrightarrow> (b', k') \<noteq> (b, k) \<Longrightarrow>
      set (chain_at H p) \<inter> set (chain_at H p') = {}"
proof -
  show c: "chain (cells H) (Some p) (chain_at H p)" and "heap_ok H" "\<exists>x. cells H p = Some x \<and> head_ok x"
    using assms by (auto simp: db_ok_def)
  show "p \<in> set (chain_at H p)" using c by (cases "chain_at H p") auto
  show "\<And>b' k' p'. m b' k' = Some p' \<Longrightarrow> (b', k') \<noteq> (b, k) \<Longrightarrow> set (chain_at H p) \<inter> set (chain_at H p') = {}"
    using assms unfolding db_ok_def by blast
qed

text \<open>A step on the heap that only touches the chain of one key and fresh memory.\<close>

definition only_key :: "heap \<Rightarrow> ptr \<Rightarrow> heap \<Rightarrow> bool" where
  "only_key H p H' \<longleftrightarrow> heap_ok H' \<and> brk H \<le> brk H' \<and> (\<forall>q. q \<noteq> p \<longrightarrow> q < brk H \<longrightarrow> cells H' q = cells H q)"

lemma db_ok_update:
  assumes db: "db_ok m H" and key: "m b k = Some p" and only: "only_key H p H'"
    and c: "chain (cells H') (Some p') ps'" "set ps' \<subseteq> set (chain_at H p) \<union> {brk H..}"
    and hd: "cells H' p' = Some y" "head_ok y"
  shows "db_ok (upd_key b k (Some p') m) H'" and "key_versions H' (Some p') = versions (cells H') ps'"
    and "\<And>b' k'. (b', k') \<noteq> (b, k) \<Longrightarrow> key_versions H' (m b' k') = key_versions H (m b' k')"
proof -
  note d = db_okD [OF db key]
  have ho: "heap_ok H'" using only by (simp add: only_key_def)
  have other: "chain (cells H') (Some q) (chain_at H q)" "chain_at H' q = chain_at H q"
      "\<forall>z \<in> set (chain_at H q). cells H' z = cells H z" "\<exists>x. cells H' q = Some x \<and> head_ok x"
      "set (chain_at H q) \<inter> set ps' = {}"
    if q: "m b' k' = Some q" "(b', k') \<noteq> (b, k)" for b' k' q
  proof -
    note e = db_okD [OF db q(1)]
    have dj: "set (chain_at H p) \<inter> set (chain_at H q) = {}" using d(5) [OF q] by blast
    have lt: "z < brk H" if "z \<in> set (chain_at H q)" for z using chain_below_brk [OF e(1,2) that] .
    show same: "\<forall>z \<in> set (chain_at H q). cells H' z = cells H z"
    proof
      fix z assume z: "z \<in> set (chain_at H q)"
      then have "z \<noteq> p" using d(4) dj by (metis disjoint_iff)
      then show "cells H' z = cells H z" using only lt [OF z] by (simp add: only_key_def)
    qed
    show ch: "chain (cells H') (Some q) (chain_at H q)"
      using e(2) same chain_cong [of "chain_at H q" "cells H'" "cells H" "Some q"] by simp
    show "chain_at H' q = chain_at H q" by (rule chain_at_eq [OF ho ch])
    show "\<exists>x. cells H' q = Some x \<and> head_ok x" using e(3,4) same by auto
    show "set (chain_at H q) \<inter> set ps' = {}"
    proof (rule equals0I)
      fix z assume "z \<in> set (chain_at H q) \<inter> set ps'"
      then have z: "z \<in> set (chain_at H q)" "z \<in> set ps'" by auto
      then have "z \<in> set (chain_at H p) \<or> brk H \<le> z" using c(2) by auto
      then show False using z(1) dj lt [of z] by auto
    qed
  qed
  have mine: "chain_at H' p' = ps'" by (rule chain_at_eq [OF ho c(1)])
  show "key_versions H' (Some p') = versions (cells H') ps'" by (simp add: key_versions_def mine)
  show "key_versions H' (m b' k') = key_versions H (m b' k')" if "(b', k') \<noteq> (b, k)" for b' k'
    using other [OF _ that] versions_cong [of "chain_at H _" "cells H'" "cells H"]
    by (cases "m b' k'") (auto simp: key_versions_def)
  show "db_ok (upd_key b k (Some p') m) H'"
    unfolding db_ok_def
  proof (intro conjI allI impI)
    show "heap_ok H'" by (rule ho)
    fix b' k' q assume q: "upd_key b k (Some p') m b' k' = Some q"
    have "(b', k') = (b, k) \<and> q = p' \<or> (b', k') \<noteq> (b, k) \<and> m b' k' = Some q"
      using q by (auto simp: upd_key_def split: if_splits)
    then show "chain (cells H') (Some q) (chain_at H' q)" "\<exists>x. cells H' q = Some x \<and> head_ok x"
      using other [of b' k' q] mine c(1) hd by auto
  next
    fix b1 k1 q1 b2 k2 q2
    assume a: "upd_key b k (Some p') m b1 k1 = Some q1 \<and> upd_key b k (Some p') m b2 k2 = Some q2 \<and> (b1, k1) \<noteq> (b2, k2)"
    have *: "(b', k') = (b, k) \<and> q = p' \<or> (b', k') \<noteq> (b, k) \<and> m b' k' = Some q"
      if "upd_key b k (Some p') m b' k' = Some q" for b' k' q
      using that by (auto simp: upd_key_def split: if_splits)
    consider "(b1, k1) = (b, k)" "q1 = p'" "(b2, k2) \<noteq> (b, k)" "m b2 k2 = Some q2"
      | "(b2, k2) = (b, k)" "q2 = p'" "(b1, k1) \<noteq> (b, k)" "m b1 k1 = Some q1"
      | "(b1, k1) \<noteq> (b, k)" "m b1 k1 = Some q1" "(b2, k2) \<noteq> (b, k)" "m b2 k2 = Some q2"
      using * [of b1 k1 q1] * [of b2 k2 q2] a by metis
    then show "set (chain_at H' q1) \<inter> set (chain_at H' q2) = {}"
    proof cases
      case 1
      then show ?thesis using other(2,5) [OF 1(4,3)] mine by auto
    next
      case 2
      then show ?thesis using other(2,5) [OF 2(4,3)] mine by auto
    next
      case 3
      then show ?thesis
        using other(2) [OF 3(2,1)] other(2) [OF 3(4,3)] db_okD(5) [OF db 3(2) 3(4)] a by auto
    qed
  qed
qed

section \<open>Changes of a head that keep its version\<close>

definition tweak :: "ptr \<Rightarrow> heap \<Rightarrow> heap \<Rightarrow> bool" where
  "tweak h H H' \<longleftrightarrow> brk H' = brk H \<and> (\<forall>q. q \<noteq> h \<longrightarrow> cells H' q = cells H q) \<and>
     (\<exists>y y'. cells H h = Some y \<and> cells H' h = Some y' \<and> same_data y y' \<and> (head_ok y \<longrightarrow> head_ok y') \<and>
        IsDeleting (hdr y') = IsDeleting (hdr y))"

lemma tweak_refl: "cells H h = Some y \<Longrightarrow> tweak h H H"
  by (auto simp: tweak_def)

lemma tweak_trans:
  assumes "tweak h H1 H2" and "tweak h H2 H3"
  shows "tweak h H1 H3"
proof -
  obtain y y' where 1: "cells H1 h = Some y" "cells H2 h = Some y'" "same_data y y'" "head_ok y \<longrightarrow> head_ok y'"
      "IsDeleting (hdr y') = IsDeleting (hdr y)" using assms(1) unfolding tweak_def by blast
  obtain z' where 2: "cells H3 h = Some z'" "same_data y' z'" "head_ok y' \<longrightarrow> head_ok z'" "IsDeleting (hdr z') = IsDeleting (hdr y')"
    using assms(2) 1(2) unfolding tweak_def by auto
  have "same_data y z'" using 1(3) 2(2) by (simp add: same_data_def)
  then show ?thesis using assms 1 2 unfolding tweak_def by simp
qed

lemma tweak_put:
  "cells H h = Some y \<Longrightarrow> same_data y y' \<Longrightarrow> (head_ok y \<Longrightarrow> head_ok y') \<Longrightarrow> IsDeleting (hdr y') = IsDeleting (hdr y) \<Longrightarrow>
   tweak h H (tuple_put h y' H)"
  by (auto simp: tweak_def tuple_put_def)

lemma tweak_upd:
  "cells H h = Some y \<Longrightarrow> f = lk \<or> f = ulk \<Longrightarrow> tweak h H (upd_heap f {h} H)"
  by (auto simp: tweak_def lk_def ulk_def head_ok_def buffer_ok_def lock_flags unlock_flags intro!: same_data_hdr)

lemma tweak_same: "tweak h H H' \<Longrightarrow> same_on A H H'"
  unfolding tweak_def same_on_def by (metis option.rel_inject(2) option.rel_refl same_data_refl)

lemma tweak_cells: "tweak h H H' \<Longrightarrow> cells H q \<noteq> None \<Longrightarrow> cells H' q \<noteq> None"
  unfolding tweak_def by (cases "q = h") auto

lemma tweak_heap_ok: "tweak h H H' \<Longrightarrow> heap_ok H \<Longrightarrow> heap_ok H'"
  unfolding tweak_def heap_ok_def by (metis option.distinct(1))

section \<open>Garbage queue\<close>

definition gc_ok :: "u64 \<Rightarrow> 'ix world \<Rightarrow> bool" where
  "gc_ok ep w \<longleftrightarrow> gq_ok GC_GroupSize (wgc w) \<and> (\<forall>t \<in> snd ` set (gq_abs (wgc w)). t \<le> to_read_only_tick ep)"

lemma gc_enqueue_ok:
  assumes "gc_ok ep w"
  shows "\<exists>q. gc_enqueue e (to_read_only_tick ep) w = Inr (w\<lparr>wgc := q\<rparr>) \<and> gc_ok ep (w\<lparr>wgc := q\<rparr>) \<and>
    gq_abs q = gq_abs (wgc w) @ [(e, to_read_only_tick ep)]"
proof -
  have n: "GC_GroupSize = Suc 4095" by (simp add: GC_GroupSize_def)
  obtain q where "gq_enqueue GC_GroupSize e (to_read_only_tick ep) (wgc w) = Some q" "gq_ok GC_GroupSize q"
      "gq_abs q = gq_abs (wgc w) @ [(e, to_read_only_tick ep)]"
    using gq.enq [of 4095 "wgc w" "to_read_only_tick ep" e] assms unfolding gc_ok_def n by blast
  then show ?thesis using assms by (intro exI [of _ q]) (auto simp: gc_enqueue_def gc_ok_def)
qed

lemma gc_ok_cong: "wgc w' = wgc w \<Longrightarrow> gc_ok ep w' = gc_ok ep w"
  by (simp add: gc_ok_def)

text \<open>Fields a write may change: the heap, the index, the queue and the pool of strings.\<close>

definition same_rest :: "'ix world \<Rightarrow> 'ix world \<Rightarrow> bool" where
  "same_rest w w' \<longleftrightarrow> wtid w' = wtid w \<and> wrcu w' = wrcu w \<and> wlog w' = wlog w \<and> wtick w' = wtick w \<and> wcore w' = wcore w \<and>
     wstart_us w' = wstart_us w"

lemma same_rest_trans: "same_rest w1 w2 \<Longrightarrow> same_rest w2 w3 \<Longrightarrow> same_rest w1 w3"
  by (simp add: same_rest_def)

lemma spill_ok:
  assumes "cells (wheap w) q \<noteq> None" and "gc_ok ep w"
  shows "\<exists>w'. on_dbtuple_spill ep q w = Inr w' \<and> wheap w' = wheap w \<and> windex w' = windex w \<and> gc_ok ep w' \<and> same_rest w w'"
proof -
  obtain x where x: "cells (wheap w) q = Some x" using assms(1) by auto
  show ?thesis
    using gc_enqueue_ok [OF assms(2), of "\<lparr>de_tuple = q, de_key = None, de_flag = False, de_btr = None\<rparr>"] assms(2)
    by (auto simp: on_dbtuple_spill_def tuple_at_def x same_rest_def)
qed

lemma logical_delete_ok:
  assumes y: "cells (wheap w) h = Some y" "head_ok y" "IsDeleting (hdr y)" and gc: "gc_ok ep w"
  shows "\<exists>w'. on_logical_delete ep h key btr w = Inr w' \<and> tweak h (wheap w) (wheap w') \<and>
    (\<forall>q. locked_at (wheap w') q = locked_at (wheap w) q) \<and> windex w' = windex w \<and> gc_ok ep w' \<and> same_rest w w'"
proof (cases "length key \<le> unat (alloc_size y)")
  case True
  have len: "length (value_start y) = unat (alloc_size y)" using y(2) by (simp add: head_ok_def buffer_ok_def)
  have "unat (alloc_size y) < 2 ^ 16" using unsigned_less [of "alloc_size y", where ?'a = nat] by simp
  then have u: "unat (of_nat (length key) :: u16) = length key" using True by (intro unat_of_nat_small) simp
  define buf where "buf = write_at 0 (take (length key) key) (value_start y)"
  define y' where "y' = y\<lparr>value_start := buf, tsize := of_nat (length key)\<rparr>"
  have lb: "length buf = length (value_start y)" using True len by (simp add: buf_def write_at_def)
  have mc: "mem_copy key (length key) (value_start y) = Inr buf" using True len by (simp add: mem_copy_def buf_def)
  have sd: "same_data y y'" using y(3) by (simp add: same_data_def y'_def tuple_value_def)
  have ho: "head_ok y'" using y(2) lb u True by (simp add: head_ok_def buffer_ok_def y'_def)
  let ?w = "w\<lparr>wheap := tuple_put h y' (wheap w)\<rparr>"
  obtain q where q: "gc_enqueue \<lparr>de_tuple = h, de_key = None, de_flag = True, de_btr = Some btr\<rparr> (to_read_only_tick ep) ?w = Inr (?w\<lparr>wgc := q\<rparr>)"
      "gc_ok ep (?w\<lparr>wgc := q\<rparr>)"
    using gc_enqueue_ok [of ep ?w] gc gc_ok_cong [of ?w w ep] by fastforce
  have tw: "tweak h (wheap w) (tuple_put h y' (wheap w))"
    by (rule tweak_put [OF y(1) sd]) (rule ho, simp add: y'_def)
  have "locked_at (tuple_put h y' (wheap w)) z = locked_at (wheap w) z" for z
    by (auto simp: locked_at_simps y'_def) (simp_all add: locked_at_def y(1))
  then show ?thesis
    using q tw mc True
    by (intro exI [of _ "?w\<lparr>wgc := q\<rparr>"]) (simp add: on_logical_delete_def tuple_at_def y(1) y'_def same_rest_def Let_def)
next
  case False
  define sw where "sw = (case wpool w of [] \<Rightarrow> (wnext_str w, w\<lparr>wnext_str := Suc (wnext_str w)\<rparr>) | s # ss \<Rightarrow> (s, w\<lparr>wpool := ss\<rparr>))"
  obtain spx w1 where w1: "sw = (spx, w1)" by (cases sw)
  then have same: "wheap w1 = wheap w" "windex w1 = windex w" "wgc w1 = wgc w" "same_rest w w1"
    by (auto simp: sw_def same_rest_def split: list.splits)
  let ?w = "w1\<lparr>wstrs := (wstrs w1)(spx := key)\<rparr>"
  obtain q where q: "gc_enqueue \<lparr>de_tuple = h, de_key = Some spx, de_flag = True, de_btr = Some btr\<rparr> (to_read_only_tick ep) ?w = Inr (?w\<lparr>wgc := q\<rparr>)"
      "gc_ok ep (?w\<lparr>wgc := q\<rparr>)"
    using gc_enqueue_ok [of ep ?w] gc gc_ok_cong [of ?w w ep] same(3) by fastforce
  have "on_logical_delete ep h key btr w = Inr (?w\<lparr>wgc := q\<rparr>)"
    unfolding on_logical_delete_def tuple_at_def y(1) using False q(1) w1 by (simp add: sw_def [symmetric])
  then show ?thesis using q(2) same tweak_refl [OF y(1)] by (auto simp: same_rest_def)
qed

end
