(* ===== verification/Txn_Install.thy ===== *)
theory Txn_Install
  imports Txn_Effect
begin

text \<open>
  What a successful commit installs: each written key gets exactly one new version, the others keep theirs,
  and the locks are released (\<^verbatim>\<open>transaction::commit\<close> in \<^verbatim>\<open>src/src/txn_impl.h\<close>).
\<close>

section \<open>One new version of a key\<close>

text \<open>
  The versions \<open>vs'\<close> of a key show the value \<open>v\<close> to every read at or after \<open>tid\<close> and to every older read-only
  snapshot what \<open>vs\<close> showed.
\<close>

definition installs :: "u64 \<Rightarrow> bytes option \<Rightarrow> (u64 \<times> bytes option) list \<Rightarrow> (u64 \<times> bytes option) list \<Rightarrow> bool" where
  "installs tid v vs vs' \<longleftrightarrow>
     (\<forall>s. tid \<le> s \<longrightarrow> snapshot_of vs' s = (tid, v)) \<and>
     (\<forall>g. unat g < 2147483648 \<and> \<not> tid \<le> ComputeReadOnlyTid g \<longrightarrow>
        snapshot_of vs' (ComputeReadOnlyTid g) = snapshot_of vs (ComputeReadOnlyTid g))"

lemma installs_trans: "installs tid u vs vs' \<Longrightarrow> installs tid v vs' vs'' \<Longrightarrow> installs tid v vs vs''"
  by (simp add: installs_def)

lemma installs_marker: "installs tid v [(MAX_TID, u)] [(tid, v)]"
proof -
  have "\<not> MAX_TID \<le> s" if "\<not> tid \<le> s" for s :: u64
    using that order_trans [of tid MAX_TID s] by (auto simp: MAX_TID_def)
  then show ?thesis by (simp add: installs_def)
qed

section \<open>One write\<close>

definition value_ok :: "bytes option \<Rightarrow> bool" where
  "value_ok v \<longleftrightarrow> (\<forall>u. v = Some u \<longrightarrow> u \<noteq> [] \<and> length u \<le> 65535)"

text \<open>
  The step of a commit on one key: index and heap of the other keys stay, no lock is taken or left, only
  the garbage queue and the pool of strings change besides.
\<close>

definition key_step ::
  "('ix \<Rightarrow> btree \<Rightarrow> bytes \<Rightarrow> ptr option) \<Rightarrow> u64 \<Rightarrow> u64 \<Rightarrow> 'v write_record \<Rightarrow> bytes option \<Rightarrow> 'ix world \<Rightarrow> 'ix world \<Rightarrow> bool" where
  "key_step M ep tid r v w w' \<longleftrightarrow>
     (let b = wr_btr r; k = wr_key r
      in (\<exists>p'. M (windex w') = upd_key b k (Some p') (M (windex w))) \<and> db_ok (M (windex w')) (wheap w') \<and>
         installs tid v (key_versions (wheap w) (M (windex w) b k)) (key_versions (wheap w') (M (windex w') b k)) \<and>
         (\<forall>b' k'. (b', k') \<noteq> (b, k) \<longrightarrow> key_versions (wheap w') (M (windex w') b' k') = key_versions (wheap w) (M (windex w) b' k')) \<and>
         only_key (wheap w) (wr_tuple r) (wheap w') \<and> (\<forall>q. locked_at (wheap w') q = locked_at (wheap w) q) \<and>
         (\<forall>q. cells (wheap w) q \<noteq> None \<longrightarrow> cells (wheap w') q \<noteq> None) \<and> gc_ok ep w' \<and> same_rest w w')"

lemma string_write:
  assumes "heap_ok H" and "chain (cells H) (Some p) (p # ps)" and "cells H p = Some x" and "head_ok x" and "value_ok v"
    and "tversion x \<le> t" and "tversion x \<noteq> 0"
  obtains ret H' ps' where "write_record_at string_writer H p t v = Inr (ret, H')" and "written_head H p v ret H'"
    and "chain (cells H') (Some (head_tuple ret)) ps'" and "set ps' \<subseteq> insert (brk H) (set (p # ps))"
    and "installs t v (versions (cells H) (p # ps)) (versions (cells H') ps')"
    and "heap_ok H'" and "\<forall>q. q \<noteq> p \<longrightarrow> q < brk H \<longrightarrow> cells H' q = cells H q"
proof -
  have no_old: "\<not> w_needs_old string_writer" by (simp add: string_writer_def)
  have nv: "string_writer.new_len v x \<le> 65535"
    using assms(5) by (cases v) (auto simp: string_writer.new_len_def value_ok_def)
  have "string_writer.applicable v x"
    using assms(4,5) nv no_old unfolding string_writer.applicable_def head_ok_def value_ok_def by simp
  from string_writer.write_record_at_effect [OF assms(1-3) this, of t] obtain ret H' val
    where w: "write_record_at string_writer H p t v = Inr (ret, H')" "string_writer.valid_new v x val"
      and e: "write_effect H p ps (tversion x) (t, val) ret H'" by blast
  have val: "val = v" using w(2) by (cases v) (simp_all add: string_writer.valid_new_def)
  obtain ps' where c: "chain (cells H') (Some (head_tuple ret)) ps'" "set ps' \<subseteq> insert (brk H) (set (p # ps))"
    and h: "heap_ok H'" "\<forall>q. q \<noteq> p \<longrightarrow> q < brk H \<longrightarrow> cells H' q = cells H q"
    using e unfolding write_effect_def by blast
  have "installs t v (versions (cells H) (p # ps)) (versions (cells H') ps')"
    using write_effect_snapshots [OF e assms(3,6)] assms(7) chain_unique [OF c(1)] val unfolding installs_def MIN_TID_def by blast
  moreover have "written_head H p v ret H'"
    using write_record_at_head [OF assms(1,3,4) _ w(1)] assms(5) by (simp add: value_ok_def)
  ultimately show ?thesis using that w(1) c h by blast
qed

lemma locked_at_upd: "locked_at (upd_heap lk {h} H) q \<longleftrightarrow> (if q = h then cells H h \<noteq> None else locked_at H q)"
    "locked_at (upd_heap ulk {h} H) q \<longleftrightarrow> q \<noteq> h \<and> locked_at H q"
  by (auto simp: locked_at_def lk_def ulk_def lock_flags unlock_flags)

lemma index_insert: "index_laws X M \<Longrightarrow> M (ix_insert X ix b k p) = upd_key b k (Some p) (M ix)"
  by (simp add: index_laws_def)

lemma unlock_world_ok: "cells (wheap w) p \<noteq> None \<Longrightarrow> unlock_world p w = Inr (w\<lparr>wheap := upd_heap ulk {p} (wheap w)\<rparr>)"
  using unlock_tuple_Inr [of p "wheap w" "upd_heap ulk {p} (wheap w)"] by (auto simp: unlock_world_def)

lemma lock_world_ok:
  "cells (wheap w) p = Some x \<Longrightarrow> \<not> IsLocked (hdr x) \<Longrightarrow> lock_world p w = Inr (w\<lparr>wheap := upd_heap lk {p} (wheap w)\<rparr>)"
  using lock_tuple_Inr [of p "wheap w" "hdr x OR lockmask True" "upd_heap lk {p} (wheap w)"] by (simp add: lock_world_def)

text \<open>What follows the write in \<^verbatim>\<open>commit\<close>: publish a new head, queue the garbage, unlock the new head.\<close>

definition after_write ::
  "'ix env \<Rightarrow> u64 \<Rightarrow> 'v write_record \<Rightarrow> write_record_ret \<Rightarrow> 'ix world \<Rightarrow> fault + 'ix world" where
  "after_write E ep r ret w1 =
     (let replaced = (head_tuple ret \<noteq> wr_tuple r)
      in sbind (if replaced
                then sbind (lock_world (head_tuple ret) w1) (\<lambda>w2.
                       Inr (w2\<lparr>windex := ix_insert (e_ix E) (windex w2) (wr_btr r) (wr_key r) (head_tuple ret)\<rparr>))
                else Inr w1) (\<lambda>w3.
         sbind (case rest_tuple ret of None \<Rightarrow> Inr w3 | Some p \<Rightarrow> on_dbtuple_spill ep p w3) (\<lambda>w4.
         sbind (if wr_value r = None then on_logical_delete ep (head_tuple ret) (wr_key r) (wr_btr r) w4 else Inr w4) (\<lambda>w5.
         if replaced then unlock_world (head_tuple ret) w5 else Inr w5))))"

lemma commit_write_after:
  assumes "wr_do_write r" and "\<not> wr_insert r"
    and "write_record_at (wr_writer r) (wheap w) (wr_tuple r) tid (wr_value r) = Inr (ret, H1)"
  shows "commit_write E ep tid r w = after_write E ep r ret (w\<lparr>wheap := H1\<rparr>)"
  using assms by (simp add: commit_write_def after_write_def Let_def)

lemma publish_ok:
  assumes L: "index_laws (e_ix E) M" and h: "cells (wheap w) h = Some y" and un: "h \<noteq> p \<longrightarrow> \<not> locked_at (wheap w) h"
  shows "\<exists>w'. (if h \<noteq> p
      then sbind (lock_world h w) (\<lambda>w2. Inr (w2\<lparr>windex := ix_insert (e_ix E) (windex w2) b k h\<rparr>)) else Inr w) = Inr w' \<and>
    tweak h (wheap w) (wheap w') \<and> M (windex w') = (if h \<noteq> p then upd_key b k (Some h) (M (windex w)) else M (windex w)) \<and>
    (\<forall>q. locked_at (wheap w') q \<longleftrightarrow> q = h \<and> h \<noteq> p \<or> locked_at (wheap w) q) \<and> wgc w' = wgc w \<and> same_rest w w'"
proof (cases "h = p")
  case True
  then show ?thesis using tweak_refl [OF h] by (auto simp: same_rest_def)
next
  case False
  then have "\<not> IsLocked (hdr y)" using un h by (simp add: locked_at_def)
  then have l: "lock_world h w = Inr (w\<lparr>wheap := upd_heap lk {h} (wheap w)\<rparr>)" by (rule lock_world_ok [OF h])
  have tw: "tweak h (wheap w) (upd_heap lk {h} (wheap w))" by (rule tweak_upd [OF h]) simp
  let ?w = "w\<lparr>wheap := upd_heap lk {h} (wheap w), windex := ix_insert (e_ix E) (windex w) b k h\<rparr>"
  show ?thesis
    by (rule exI [of _ ?w]) (use False l tw h index_insert [OF L] in \<open>auto simp: same_rest_def locked_at_upd\<close>)
qed

lemma tweakE:
  assumes "tweak h H H'" and "cells H h = Some y" and "head_ok y"
  obtains y' where "cells H' h = Some y'" and "head_ok y'" and "IsDeleting (hdr y') = IsDeleting (hdr y)"
  using assms by (auto simp: tweak_def)

lemma after_write_ok:
  assumes L: "index_laws (e_ix E) M" and wh: "written_head H (wr_tuple r) (wr_value r) ret (wheap w)"
    and ho: "heap_ok H" and gc: "gc_ok ep w"
  shows "\<exists>w'. after_write E ep r ret w = Inr w' \<and> tweak (head_tuple ret) (wheap w) (wheap w') \<and>
    M (windex w') = (if head_tuple ret \<noteq> wr_tuple r then upd_key (wr_btr r) (wr_key r) (Some (head_tuple ret)) (M (windex w))
      else M (windex w)) \<and>
    (\<forall>q. locked_at (wheap w') q = locked_at (wheap w) q) \<and> gc_ok ep w' \<and> same_rest w w'"
proof -
  let ?h = "head_tuple ret" and ?p = "wr_tuple r"
  obtain y where y: "cells (wheap w) ?h = Some y" "head_ok y" "wr_value r = None \<longrightarrow> IsDeleting (hdr y)"
    using wh unfolding written_head_def by (elim conjE exE) (rule that)
  have un: "?h \<noteq> ?p \<longrightarrow> \<not> locked_at (wheap w) ?h"
  proof
    assume "?h \<noteq> ?p"
    then have "?h = brk H" "locked_at (wheap w) ?h = locked_at H ?h" using wh unfolding written_head_def by blast+
    then show "\<not> locked_at (wheap w) ?h" using ho by (simp add: locked_at_def heap_ok_def)
  qed
  obtain w3 where w3: "(if ?h \<noteq> ?p
      then sbind (lock_world ?h w) (\<lambda>w2. Inr (w2\<lparr>windex := ix_insert (e_ix E) (windex w2) (wr_btr r) (wr_key r) ?h\<rparr>)) else Inr w) = Inr w3"
    and t3: "tweak ?h (wheap w) (wheap w3)"
    and i3: "M (windex w3) = (if ?h \<noteq> ?p then upd_key (wr_btr r) (wr_key r) (Some ?h) (M (windex w)) else M (windex w))"
    and l3: "\<forall>q. locked_at (wheap w3) q \<longleftrightarrow> q = ?h \<and> ?h \<noteq> ?p \<or> locked_at (wheap w) q"
    and g3: "wgc w3 = wgc w" and s3: "same_rest w w3"
    using publish_ok [OF L y(1) un] by blast
  obtain w4 where w4: "(case rest_tuple ret of None \<Rightarrow> Inr w3 | Some p \<Rightarrow> on_dbtuple_spill ep p w3) = Inr w4"
    and e4: "wheap w4 = wheap w3" "windex w4 = windex w3" "gc_ok ep w4" "same_rest w3 w4"
  proof (cases "rest_tuple ret")
    case None
    then show ?thesis using that [of w3] gc gc_ok_cong [OF g3] by (simp add: same_rest_def)
  next
    case (Some q)
    then have "cells (wheap w3) q \<noteq> None" using wh tweak_cells [OF t3] unfolding written_head_def by blast
    then show ?thesis using that Some spill_ok [of w3 q ep] gc gc_ok_cong [OF g3] by auto
  qed
  obtain y4 where y4: "cells (wheap w4) ?h = Some y4" "head_ok y4" "wr_value r = None \<longrightarrow> IsDeleting (hdr y4)"
    using tweakE [OF t3 y(1,2)] y(3) e4(1) by metis
  obtain w5 where w5: "(if wr_value r = None then on_logical_delete ep ?h (wr_key r) (wr_btr r) w4 else Inr w4) = Inr w5"
    and t5: "tweak ?h (wheap w4) (wheap w5)" and l5: "\<forall>q. locked_at (wheap w5) q = locked_at (wheap w4) q"
    and e5: "windex w5 = windex w4" "gc_ok ep w5" "same_rest w4 w5"
  proof (cases "wr_value r = None")
    case True
    then have "IsDeleting (hdr y4)" using y4(3) by simp
    from logical_delete_ok [OF y4(1,2) this e4(3), of "wr_key r" "wr_btr r"] show ?thesis using that True by auto
  next
    case False
    show ?thesis
      by (rule that [of w4]) (use False tweak_refl [OF y4(1)] e4(3) in \<open>simp_all only: if_False, simp_all add: same_rest_def\<close>)
  qed
  have t: "tweak ?h (wheap w) (wheap w5)" using tweak_trans [OF t3] t5 e4(1) by simp
  have sr: "same_rest w w5" using s3 e4(4) e5(3) by (blast intro: same_rest_trans)
  obtain y5 where y5: "cells (wheap w5) ?h = Some y5" using tweakE [OF t5 y4(1,2)] by blast
  let ?w6 = "if ?h \<noteq> ?p then w5\<lparr>wheap := upd_heap ulk {?h} (wheap w5)\<rparr> else w5"
  have "after_write E ep r ret w = Inr ?w6"
    unfolding after_write_def Let_def w3 sbind_simps w4 w5 using y5 by (simp add: unlock_world_ok)
  moreover have "tweak ?h (wheap w) (wheap ?w6)" using t tweak_trans [OF t tweak_upd [OF y5, of ulk]] by auto
  moreover have "locked_at (wheap ?w6) q = locked_at (wheap w) q" for q
    using l3 l5 e4(1) un by (auto simp: locked_at_upd)
  moreover have "same_rest w ?w6" "gc_ok ep ?w6" using sr e5(2) by (simp_all add: same_rest_def gc_ok_def)
  ultimately show ?thesis using i3 e4(2) e5(1) by (intro exI [of _ ?w6]) simp
qed

lemma tweak_db:
  assumes tw: "tweak h H1 H'" and only: "only_key H p H1" "h = p \<or> h = brk H"
    and c: "chain (cells H1) (Some h) ps'" and y: "cells H1 h = Some y" "head_ok y"
  shows "only_key H p H'" and "chain (cells H') (Some h) ps'" and "versions (cells H') ps' = versions (cells H1) ps'"
    and "\<exists>y'. cells H' h = Some y' \<and> head_ok y'"
proof -
  have s: "same_on (set ps') H1 H'" by (rule tweak_same [OF tw])
  show "chain (cells H') (Some h) ps'" by (rule chain_same [OF s c])
  show "versions (cells H') ps' = versions (cells H1) ps'" by (rule versions_same [OF s])
  show "\<exists>y'. cells H' h = Some y' \<and> head_ok y'" using tweakE [OF tw y] by metis
  have "heap_ok H'" using tweak_heap_ok [OF tw] only(1) by (simp add: only_key_def)
  then show "only_key H p H'" using tw only unfolding only_key_def tweak_def by auto
qed

lemma upd_key_same: "m b k = v \<Longrightarrow> upd_key b k v m = m"
  by (auto simp: upd_key_def fun_eq_iff)

lemma upd_key_at [simp]: "upd_key b k v m b k = v"
  by (simp add: upd_key_def)

lemma upd_key_other: "(b', k') \<noteq> (b, k) \<Longrightarrow> upd_key b k v m b' k' = m b' k'"
  by (auto simp: upd_key_def)

text \<open>The write of a tuple that has a committed version.\<close>

lemma commit_write_update:
  assumes L: "index_laws (e_ix E) M" and r: "wr_do_write r" "\<not> wr_insert r" "wr_writer r = string_writer" "value_ok (wr_value r)"
    and db: "db_ok (M (windex w)) (wheap w)" and key: "M (windex w) (wr_btr r) (wr_key r) = Some (wr_tuple r)"
    and x: "cells (wheap w) (wr_tuple r) = Some x" "tversion x \<le> tid" "tversion x \<noteq> 0" and gc: "gc_ok ep w"
  shows "\<exists>w'. commit_write E ep tid r w = Inr w' \<and> key_step M ep tid r (wr_value r) w w'"
proof -
  let ?H = "wheap w" and ?p = "wr_tuple r" and ?b = "wr_btr r" and ?k = "wr_key r" and ?v = "wr_value r"
  note d = db_okD [where m = "M (windex w)", OF db key]
  have hx: "head_ok x" using d(3) x(1) by simp
  obtain ps where ps: "chain_at ?H ?p = ?p # ps" using d(2) by (cases "chain_at ?H ?p") auto
  obtain ret H1 ps' where w1: "write_record_at string_writer ?H ?p tid ?v = Inr (ret, H1)" "written_head ?H ?p ?v ret H1"
    and c1: "chain (cells H1) (Some (head_tuple ret)) ps'" "set ps' \<subseteq> insert (brk ?H) (set (?p # ps))"
    and i1: "installs tid ?v (versions (cells ?H) (?p # ps)) (versions (cells H1) ps')"
    and h1: "heap_ok H1" "\<forall>q. q \<noteq> ?p \<longrightarrow> q < brk ?H \<longrightarrow> cells H1 q = cells ?H q"
    using string_write [OF d(1) d(2) [unfolded ps] x(1) hx r(4) x(2,3)] by metis
  let ?h = "head_tuple ret" and ?w1 = "w\<lparr>wheap := H1\<rparr>"
  obtain y where y: "cells H1 ?h = Some y" "head_ok y"
    and brk: "brk ?H \<le> brk H1" and lk1: "\<forall>q. locked_at H1 q = locked_at ?H q"
    and al1: "\<forall>q. cells ?H q \<noteq> None \<longrightarrow> cells H1 q \<noteq> None" and hp: "?h = ?p \<or> ?h = brk ?H"
    using w1(2) unfolding written_head_def by (elim conjE exE) (rule that; blast)
  have only1: "only_key ?H ?p H1" using h1 brk by (simp add: only_key_def)
  have "written_head ?H ?p ?v ret (wheap ?w1)" "gc_ok ep ?w1" using w1(2) gc by (simp_all add: gc_ok_def)
  from after_write_ok [OF L this(1) d(1) this(2)] obtain w' where w': "after_write E ep r ret ?w1 = Inr w'"
    and tw: "tweak ?h H1 (wheap w')"
    and ix: "M (windex w') = (if ?h \<noteq> ?p then upd_key ?b ?k (Some ?h) (M (windex w)) else M (windex w))"
    and lk: "\<forall>q. locked_at (wheap w') q = locked_at H1 q" and e: "gc_ok ep w'" "same_rest ?w1 w'" by auto
  have ix': "M (windex w') = upd_key ?b ?k (Some ?h) (M (windex w))"
    using ix key upd_key_same [of "M (windex w)" ?b ?k "Some ?h"] by auto
  note tdb = tweak_db [OF tw only1 hp c1(1) y]
  obtain y' where y': "cells (wheap w') ?h = Some y'" "head_ok y'" using tdb(4) by blast
  have sub: "set ps' \<subseteq> set (chain_at ?H ?p) \<union> {brk ?H..}" using c1(2) by (auto simp: ps)
  note up = db_ok_update [OF db key tdb(1,2) sub y', folded ix']
  have vs: "key_versions ?H (M (windex w) ?b ?k) = versions (cells ?H) (?p # ps)" by (simp add: key key_versions_def ps)
  have "installs tid ?v (key_versions ?H (M (windex w) ?b ?k)) (key_versions (wheap w') (M (windex w') ?b ?k))"
    using i1 up(2) tdb(3) unfolding vs by (simp add: ix')
  moreover have "\<forall>b' k'. (b', k') \<noteq> (?b, ?k) \<longrightarrow> key_versions (wheap w') (M (windex w') b' k') = key_versions ?H (M (windex w) b' k')"
    using up(3) upd_key_other [of _ _ ?b ?k] by (simp add: ix')
  moreover have "\<forall>q. cells ?H q \<noteq> None \<longrightarrow> cells (wheap w') q \<noteq> None" using al1 tweak_cells [OF tw] by blast
  moreover have "same_rest w w'" using e(2) by (simp add: same_rest_def)
  moreover have "commit_write E ep tid r w = Inr w'"
    using commit_write_after [OF r(1,2), of w tid ret H1 E ep] w1(1) w' r(3) by simp
  ultimately show ?thesis
    unfolding key_step_def Let_def using up(1) tdb(1) lk lk1 e(1) ix' by (intro exI [of _ w'] conjI) auto
qed

text \<open>The write of an inserted tuple: it gets its version.\<close>

lemma commit_write_insert:
  assumes r: "wr_do_write r" "wr_insert r"
    and db: "db_ok (M (windex w)) (wheap w)" and key: "M (windex w) (wr_btr r) (wr_key r) = Some (wr_tuple r)"
    and x: "cells (wheap w) (wr_tuple r) = Some x" "tversion x = MAX_TID" "tnext x = None" and gc: "gc_ok ep w"
  shows "\<exists>w'. commit_write E ep tid r w = Inr w' \<and> key_step M ep tid r (tuple_value x) w w' \<and>
    windex w' = windex w \<and> cells (wheap w') (wr_tuple r) = Some (x\<lparr>tversion := tid\<rparr>)"
proof -
  let ?H = "wheap w" and ?p = "wr_tuple r" and ?b = "wr_btr r" and ?k = "wr_key r"
  let ?x = "x\<lparr>tversion := tid\<rparr>"
  let ?H' = "tuple_put ?p ?x ?H"
  let ?w' = "w\<lparr>wheap := ?H'\<rparr>"
  note d = db_okD [where m = "M (windex w)", OF db key]
  have hx: "head_ok ?x" using d(3) x(1) by (simp add: head_ok_def buffer_ok_def)
  have c: "chain_at ?H ?p = [?p]" using d(1) x(1,3) by (intro chain_at_eq) auto
  have at: "cells ?H' ?p = Some ?x" by (simp add: tuple_put_def)
  have ps: "chain (cells ?H') (Some ?p) [?p]" "set [?p] \<subseteq> set (chain_at ?H ?p) \<union> {brk ?H..}"
    using x(3) by (simp_all add: tuple_put_def c)
  have lt: "?p < brk ?H" using d(1) x(1) by (auto simp: heap_ok_def not_less [symmetric])
  have only: "only_key ?H ?p ?H'" using d(1) lt by (auto simp: only_key_def heap_ok_def tuple_put_def)
  note up = db_ok_update [OF db key only ps at hx, unfolded upd_key_same [where m = "M (windex w)", OF key]]
  have val: "tuple_value ?x = tuple_value x" by (simp add: tuple_value_def Let_def)
  have "key_versions ?H (M (windex w) ?b ?k) = [(MAX_TID, tuple_value x)]" "key_versions ?H' (M (windex w) ?b ?k) = [(tid, tuple_value x)]"
    using up(2) at x(1,2) val by (simp_all add: key key_versions_def c versions_def)
  then have "installs tid (tuple_value x) (key_versions ?H (M (windex w) ?b ?k)) (key_versions ?H' (M (windex w) ?b ?k))"
    using installs_marker by simp
  moreover have "\<forall>q. locked_at ?H' q = locked_at ?H q" using x(1) by (auto simp: locked_at_def tuple_put_def)
  moreover have "\<exists>p'. M (windex w) = upd_key ?b ?k (Some p') (M (windex w))" using key upd_key_same by metis
  moreover have "\<forall>q. cells ?H q \<noteq> None \<longrightarrow> cells ?H' q \<noteq> None" by (simp add: tuple_put_def)
  moreover have "gc_ok ep ?w'" "same_rest w ?w'" using gc by (simp_all add: gc_ok_def same_rest_def)
  moreover have "commit_write E ep tid r w = Inr ?w'" using r x(1) by (simp add: commit_write_def tuple_at_def)
  ultimately show ?thesis
    using up(1,3) only at unfolding key_step_def Let_def by (intro exI [of _ ?w']) auto
qed

section \<open>The writes of a transaction\<close>

text \<open>The value of the last record for a key; \<open>None\<close>: the key is not written, \<open>Some None\<close>: it is removed.\<close>

primrec last_write :: "'v write_record list \<Rightarrow> btree \<Rightarrow> bytes \<Rightarrow> 'v option option" where
  "last_write [] b k = None"
| "last_write (r # rs) b k =
     (case last_write rs b k of
        Some v \<Rightarrow> Some v
      | None \<Rightarrow> if wr_btr r = b \<and> wr_key r = k then Some (wr_value r) else None)"

definition committed_at :: "heap \<Rightarrow> u64 \<Rightarrow> ptr \<Rightarrow> bool" where
  "committed_at H tid p \<longleftrightarrow> (\<exists>x. cells H p = Some x \<and> tversion x \<le> tid \<and> tversion x \<noteq> 0)"

definition fresh_insert :: "heap \<Rightarrow> bytes write_record \<Rightarrow> bool" where
  "fresh_insert H r \<longleftrightarrow>
     (\<exists>x. cells H (wr_tuple r) = Some x \<and> tversion x = MAX_TID \<and> tnext x = None \<and> tuple_value x = wr_value r)"

definition plain_write :: "bytes write_record \<Rightarrow> bool" where
  "plain_write r \<longleftrightarrow> wr_writer r = string_writer \<and> value_ok (wr_value r)"

text \<open>
  The records still to be written: each key is the one of its tuple, inserts are fresh, the other tuples have
  a version below the id or their insert is still to come. A tuple is written once, or inserted and then written.
\<close>

definition ready :: "(btree \<Rightarrow> bytes \<Rightarrow> ptr option) \<Rightarrow> heap \<Rightarrow> u64 \<Rightarrow> bytes write_record list \<Rightarrow> bool" where
  "ready m H tid rs \<longleftrightarrow>
     (\<forall>r \<in> set rs. wr_do_write r \<longrightarrow>
        plain_write r \<and> m (wr_btr r) (wr_key r) = Some (wr_tuple r) \<and>
        (if wr_insert r then fresh_insert H r
         else committed_at H tid (wr_tuple r) \<or> (\<exists>r' \<in> set rs. wr_do_write r' \<and> wr_insert r' \<and> wr_tuple r' = wr_tuple r))) \<and>
     sorted_wrt (\<lambda>r r'. wr_do_write r \<and> wr_do_write r' \<and> wr_tuple r = wr_tuple r' \<longrightarrow> wr_insert r \<and> \<not> wr_insert r') rs"

lemma readyD:
  assumes "ready m H tid rs" and "r \<in> set rs" and "wr_do_write r"
  shows "plain_write r" and "m (wr_btr r) (wr_key r) = Some (wr_tuple r)" and "wr_insert r \<Longrightarrow> fresh_insert H r"
    and "\<not> wr_insert r \<Longrightarrow> committed_at H tid (wr_tuple r) \<or> (\<exists>r' \<in> set rs. wr_do_write r' \<and> wr_insert r' \<and> wr_tuple r' = wr_tuple r)"
  using assms unfolding ready_def by auto

lemma ready_first:
  assumes "ready m H tid (r # rs)" and "wr_do_write r" and "\<not> wr_insert r"
  shows "committed_at H tid (wr_tuple r)"
proof -
  have "\<not> (\<exists>r' \<in> set (r # rs). wr_do_write r' \<and> wr_insert r' \<and> wr_tuple r' = wr_tuple r)"
    using assms unfolding ready_def by fastforce
  then show ?thesis using readyD(4) [OF assms(1) _ assms(2,3)] by auto
qed

lemma ready_skip: "ready m H tid (r # rs) \<Longrightarrow> \<not> wr_do_write r \<Longrightarrow> ready m H tid rs"
  unfolding ready_def list.set by (auto split: if_splits)

lemma ready_step:
  assumes rd: "ready (M (windex w)) (wheap w) tid (r # rs)" and r: "wr_do_write r" and tid: "tid \<noteq> 0"
    and db: "db_ok (M (windex w)) (wheap w)" and st: "key_step M ep tid r v w w'"
    and ins: "wr_insert r \<Longrightarrow> windex w' = windex w \<and> (\<exists>x. cells (wheap w') (wr_tuple r) = Some x \<and> tversion x = tid)"
  shows "ready (M (windex w')) (wheap w') tid rs"
proof -
  let ?m = "M (windex w)" and ?m' = "M (windex w')"
  obtain p' where m': "?m' = upd_key (wr_btr r) (wr_key r) (Some p') ?m" and only: "only_key (wheap w) (wr_tuple r) (wheap w')"
    using st unfolding key_step_def Let_def by blast
  have rs: "wr_do_write r' \<and> wr_tuple r' = wr_tuple r \<longrightarrow> wr_insert r \<and> \<not> wr_insert r'" if "r' \<in> set rs" for r'
    using rd r that unfolding ready_def by auto
  have one: "plain_write r' \<and> ?m' (wr_btr r') (wr_key r') = Some (wr_tuple r') \<and>
      (if wr_insert r' then fresh_insert (wheap w') r'
       else committed_at (wheap w') tid (wr_tuple r') \<or> (\<exists>s \<in> set rs. wr_do_write s \<and> wr_insert s \<and> wr_tuple s = wr_tuple r'))"
    if r': "r' \<in> set rs" "wr_do_write r'" for r'
  proof -
    note d = readyD [OF rd _ r'(2), unfolded list.set] and d0 = readyD [OF rd _ r, unfolded list.set]
    have k': "?m (wr_btr r') (wr_key r') = Some (wr_tuple r')" using d(2) r'(1) by simp
    show ?thesis
    proof (cases "wr_tuple r' = wr_tuple r")
      case True
      then have i: "wr_insert r" "\<not> wr_insert r'" using rs [OF r'(1)] r'(2) by auto
      then have "committed_at (wheap w') tid (wr_tuple r')" using ins [OF i(1)] tid True by (auto simp: committed_at_def)
      then show ?thesis using i ins [OF i(1)] d(1) k' r'(1) by simp
    next
      case False
      then have "(wr_btr r', wr_key r') \<noteq> (wr_btr r, wr_key r)" using d0(2) k' by auto
      then have key: "?m' (wr_btr r') (wr_key r') = Some (wr_tuple r')" using m' k' upd_key_other by simp
      have "cells (wheap w) (wr_tuple r') \<noteq> None" using db_okD(3) [where m = ?m, OF db k'] by auto
      then have "wr_tuple r' < brk (wheap w)"
        using db_okD(1) [where m = ?m, OF db k'] by (auto simp: heap_ok_def not_less [symmetric])
      then have same: "cells (wheap w') (wr_tuple r') = cells (wheap w) (wr_tuple r')" using only False by (simp add: only_key_def)
      have "\<not> wr_insert r' \<Longrightarrow> committed_at (wheap w) tid (wr_tuple r') \<or>
          (\<exists>s \<in> set rs. wr_do_write s \<and> wr_insert s \<and> wr_tuple s = wr_tuple r')"
        using d(4) r'(1) False by auto
      then show ?thesis using d(1,3) r'(1) key same by (simp add: fresh_insert_def committed_at_def)
    qed
  qed
  moreover have "sorted_wrt (\<lambda>r r'. wr_do_write r \<and> wr_do_write r' \<and> wr_tuple r = wr_tuple r' \<longrightarrow> wr_insert r \<and> \<not> wr_insert r') rs"
    using rd unfolding ready_def by simp
  ultimately show ?thesis unfolding ready_def by blast
qed

text \<open>What the writes do to the keys.\<close>

definition key_effect ::
  "u64 \<Rightarrow> bytes option option \<Rightarrow> (u64 \<times> bytes option) list \<Rightarrow> (u64 \<times> bytes option) list \<Rightarrow> bool" where
  "key_effect tid lv vs vs' \<longleftrightarrow> (case lv of None \<Rightarrow> vs' = vs | Some v \<Rightarrow> installs tid v vs vs')"

definition writes_effect ::
  "('ix \<Rightarrow> btree \<Rightarrow> bytes \<Rightarrow> ptr option) \<Rightarrow> u64 \<Rightarrow> u64 \<Rightarrow> bytes write_record list \<Rightarrow> 'ix world \<Rightarrow> 'ix world \<Rightarrow> bool" where
  "writes_effect M ep tid rs w w' \<longleftrightarrow>
     db_ok (M (windex w')) (wheap w') \<and>
     (\<forall>b k. key_effect tid (last_write (filter wr_do_write rs) b k)
        (key_versions (wheap w) (M (windex w) b k)) (key_versions (wheap w') (M (windex w') b k))) \<and>
     (\<forall>q. locked_at (wheap w') q = locked_at (wheap w) q) \<and>
     (\<forall>q. cells (wheap w) q \<noteq> None \<longrightarrow> cells (wheap w') q \<noteq> None) \<and> gc_ok ep w' \<and> same_rest w w'"

lemma writes_effect_Cons:
  assumes r: "wr_do_write r" and st: "key_step M ep tid r (wr_value r) w w1" and rest: "writes_effect M ep tid rs w1 w'"
  shows "writes_effect M ep tid (r # rs) w w'"
proof -
  let ?kv = "\<lambda>w b k. key_versions (wheap w) (M (windex w) b k)"
  note s = st [unfolded key_step_def Let_def] and e = rest [unfolded writes_effect_def]
  have "key_effect tid (last_write (filter wr_do_write (r # rs)) b k) (?kv w b k) (?kv w' b k)" for b k
  proof (cases "wr_btr r = b \<and> wr_key r = k")
    case True
    then have i: "installs tid (wr_value r) (?kv w b k) (?kv w1 b k)" using s by blast
    have k: "key_effect tid (last_write (filter wr_do_write rs) b k) (?kv w1 b k) (?kv w' b k)" using e by blast
    show ?thesis
    proof (cases "last_write (filter wr_do_write rs) b k")
      case None
      then show ?thesis using i k True r by (simp add: key_effect_def)
    next
      case (Some v)
      then show ?thesis using installs_trans [OF i] k r by (simp add: key_effect_def)
    qed
  next
    case False
    then have "?kv w1 b k = ?kv w b k" using s by auto
    moreover have "key_effect tid (last_write (filter wr_do_write rs) b k) (?kv w1 b k) (?kv w' b k)" using e by blast
    ultimately show ?thesis using False r by (auto simp: key_effect_def split: option.splits)
  qed
  moreover have "same_rest w w'" using s e same_rest_trans by blast
  ultimately show ?thesis using s e unfolding writes_effect_def by simp
qed

lemma commit_writes_effect:
  assumes L: "index_laws (e_ix E) M" and tid: "tid \<noteq> 0"
    and "ready (M (windex w)) (wheap w) tid rs" and "db_ok (M (windex w)) (wheap w)" and "gc_ok ep w"
  shows "\<exists>w'. commit_writes E ep tid rs w = Inr w' \<and> writes_effect M ep tid rs w w'"
  using assms(3-)
proof (induction rs arbitrary: w)
  case Nil
  then show ?case by (simp add: writes_effect_def key_effect_def same_rest_def)
next
  case (Cons r rs)
  show ?case
  proof (cases "wr_do_write r")
    case False
    then have "commit_write E ep tid r w = Inr w" by (simp add: commit_write_def)
    then show ?thesis using Cons.IH [OF ready_skip [OF Cons.prems(1) False] Cons.prems(2,3)] False by (auto simp: writes_effect_def)
  next
    case True
    note d = readyD [OF Cons.prems(1) _ True, unfolded list.set]
    obtain w1 where w1: "commit_write E ep tid r w = Inr w1" "key_step M ep tid r (wr_value r) w w1"
      and ins: "wr_insert r \<Longrightarrow> windex w1 = windex w \<and> (\<exists>x. cells (wheap w1) (wr_tuple r) = Some x \<and> tversion x = tid)"
    proof (cases "wr_insert r")
      case i: True
      then obtain x where x: "cells (wheap w) (wr_tuple r) = Some x" "tversion x = MAX_TID" "tnext x = None" "tuple_value x = wr_value r"
        using d(3) by (auto simp: fresh_insert_def)
      from commit_write_insert [where M = M, OF True i Cons.prems(2) d(2) x(1-3) Cons.prems(3)] obtain w1
        where "commit_write E ep tid r w = Inr w1" "key_step M ep tid r (wr_value r) w w1" "windex w1 = windex w"
          "cells (wheap w1) (wr_tuple r) = Some (x\<lparr>tversion := tid\<rparr>)" using x(4) by auto
      then show ?thesis using that by simp
    next
      case i: False
      obtain x where x: "cells (wheap w) (wr_tuple r) = Some x" "tversion x \<le> tid" "tversion x \<noteq> 0"
        using ready_first [OF Cons.prems(1) True i] by (auto simp: committed_at_def)
      show ?thesis
        using commit_write_update [OF L True i _ _ Cons.prems(2) d(2) x Cons.prems(3)] d(1) i that
        by (auto simp: plain_write_def)
    qed
    have s: "ready (M (windex w1)) (wheap w1) tid rs" by (rule ready_step [OF Cons.prems(1) True tid Cons.prems(2) w1(2) ins])
    have "db_ok (M (windex w1)) (wheap w1)" "gc_ok ep w1" using w1(2) by (simp_all add: key_step_def Let_def)
    from Cons.IH [OF s this] show ?thesis using w1 writes_effect_Cons [OF True w1(2)] by auto
  qed
qed

section \<open>The records the lock phase selects\<close>

text \<open>Of the sorted entries, those which insert and the last one of each tuple.\<close>

primrec flagged :: "dbtuple_write_info \<Rightarrow> dbtuple_write_info list \<Rightarrow> dbtuple_write_info set" where
  "flagged px [] = {px}"
| "flagged px (i # is) = (if wi_insert px \<or> wi_tuple px \<noteq> wi_tuple i then {px} else {}) \<union> flagged i is"

lemma flagged_iff:
  "sorted_wrt write_info_less (px # is) \<Longrightarrow>
   i \<in> flagged px is \<longleftrightarrow> i \<in> set (px # is) \<and>
     (wi_insert i \<or> (\<forall>j \<in> set (px # is). wi_tuple j = wi_tuple i \<longrightarrow> j = i \<or> write_info_less j i))"
proof (induction "is" arbitrary: px)
  case (Cons i' "is")
  have irr: "\<not> write_info_less a a" and asym: "write_info_less a b \<Longrightarrow> \<not> write_info_less b a" for a b
    by (auto simp: write_info_less_def)
  have less: "write_info_less px j" if "j \<in> set (i' # is)" for j using Cons.prems that by auto
  have tup: "wi_tuple j \<noteq> wi_tuple px" if "wi_tuple px \<noteq> wi_tuple i'" "j \<in> set (i' # is)" for j
    using sorted_strict [OF Cons.prems that] by simp
  have IH: "i \<in> flagged i' is \<longleftrightarrow> i \<in> set (i' # is) \<and>
      (wi_insert i \<or> (\<forall>j \<in> set (i' # is). wi_tuple j = wi_tuple i \<longrightarrow> j = i \<or> write_info_less j i))" using Cons by simp
  show ?case
  proof (cases "i = px")
    case True
    then have nin: "i \<notin> set (i' # is)" using less irr by blast
    have "(\<forall>j \<in> set (px # i' # is). wi_tuple j = wi_tuple i \<longrightarrow> j = i \<or> write_info_less j i) \<longleftrightarrow> wi_tuple px \<noteq> wi_tuple i'"
      using tup less asym nin True by (metis list.set_intros(1) list.set_intros(2) set_ConsD)
    then show ?thesis using IH nin True by (simp only: flagged.simps) auto
  next
    case False
    then show ?thesis using IH less by auto
  qed
qed auto

lemma set_do_write_nth:
  "e < length ws \<Longrightarrow> wr_do_write (set_do_write k ws ! e) \<longleftrightarrow> wr_do_write (ws ! e) \<or> k = e"
  by (cases "k = e") (simp_all add: set_do_write_def)

lemma length_set_do_write [simp]: "length (set_do_write k ws) = length ws"
  by (simp add: set_do_write_def)

lemma handle_last_flags:
  assumes "handle_last_tuple_in_group px ins ws H = Inr (True, px', ws', H')" and "wi_insert px \<longrightarrow> ins"
  shows "ws' = (if wi_insert px then ws else set_do_write (wi_entry px) ws)"
proof (cases ins)
  case True
  then show ?thesis using assms by (auto simp: handle_last_tuple_in_group_def)
next
  case False
  then show ?thesis using assms by (auto simp: handle_last_tuple_in_group_def sbind_Inr split: if_splits)
qed

lemma lock_loop_flags:
  assumes "lock_loop done (Some px) ins is ws H = Inr (True, is', ws', H')" and "wi_insert px \<longrightarrow> ins"
    and "\<forall>i \<in> set (px # is). wi_entry i < length ws" and "wi_insert px \<longrightarrow> wr_do_write (ws ! wi_entry px)" and "e < length ws"
  shows "wr_do_write (ws' ! e) \<longleftrightarrow> wr_do_write (ws ! e) \<or> (\<exists>i \<in> flagged px is. wi_entry i = e)"
  using assms
proof (induction "is" arbitrary: "done" px ins ws H)
  case Nil
  then obtain px' where "handle_last_tuple_in_group px ins ws H = Inr (True, px', ws', H')" by (auto simp: sbind_Inr)
  from handle_last_flags [OF this Nil.prems(2)] show ?case using Nil.prems(4,5) by (auto simp: set_do_write_nth)
next
  case (Cons i "is")
  let ?mark = "\<lambda>ws. if wi_insert i then set_do_write (wi_entry i) ws else ws"
  have step: "wr_do_write (ws' ! e) \<longleftrightarrow> wr_do_write (ws1 ! e) \<or> (\<exists>j \<in> flagged i is. wi_entry j = e)"
    if "lock_loop done' (Some i) ins' is (?mark ws1) H1 = Inr (True, is', ws', H')" "wi_insert i \<longrightarrow> ins'" "length ws1 = length ws"
    for done' ins' ws1 H1
  proof -
    have "wr_do_write (ws' ! e) \<longleftrightarrow> wr_do_write (?mark ws1 ! e) \<or> (\<exists>j \<in> flagged i is. wi_entry j = e)"
      by (rule Cons.IH [OF that(1,2)]) (use Cons.prems(3,5) that(3) in \<open>auto simp: set_do_write_nth\<close>)
    moreover have "wi_insert i \<Longrightarrow> i \<in> flagged i is" by (cases "is") auto
    ultimately show ?thesis using Cons.prems(5) that(3) by (auto simp: set_do_write_nth)
  qed
  show ?case
  proof (cases "wi_tuple px = wi_tuple i")
    case True
    then have "lock_loop (done @ [px]) (Some i) (ins \<or> wi_insert i) is (?mark ws) H = Inr (True, is', ws', H')"
      using Cons.prems(1) by simp
    from step [OF this] show ?thesis using True Cons.prems(4) by auto
  next
    case False
    obtain px' ws1 H1 where h: "handle_last_tuple_in_group px ins ws H = Inr (True, px', ws1, H1)"
      and l: "lock_loop (done @ [px']) (Some i) (wi_insert i) is (?mark ws1) H1 = Inr (True, is', ws', H')"
    proof -
      obtain ok1 px' ws1 H1 where h: "handle_last_tuple_in_group px ins ws H = Inr (ok1, px', ws1, H1)"
        using Cons.prems(1) False by (cases "handle_last_tuple_in_group px ins ws H") auto
      then have "ok1" using Cons.prems(1) False by (cases ok1) auto
      then show ?thesis using that h Cons.prems(1) False by simp
    qed
    have ws1: "ws1 = (if wi_insert px then ws else set_do_write (wi_entry px) ws)" by (rule handle_last_flags [OF h Cons.prems(2)])
    have "wr_do_write (ws' ! e) \<longleftrightarrow> wr_do_write (ws1 ! e) \<or> (\<exists>j \<in> flagged i is. wi_entry j = e)"
      by (rule step [OF l]) (simp_all add: ws1)
    then show ?thesis using False Cons.prems(4,5) by (auto simp: ws1 set_do_write_nth)
  qed
qed

text \<open>In terms of the write set: the inserts, and of the other records of a tuple the last one.\<close>

lemma lock_phase_selects:
  assumes "lock_loop [] None False (sorted_infos ws) ws H = Inr (True, ms, ws', H')" and "\<forall>r \<in> set ws. \<not> wr_do_write r"
    and e: "e < length ws"
  shows "wr_do_write (ws' ! e) \<longleftrightarrow> wr_insert (ws ! e) \<or>
    (\<forall>j < length ws. wr_tuple (ws ! j) = wr_tuple (ws ! e) \<and> \<not> wr_insert (ws ! j) \<longrightarrow> j \<le> e)"
proof -
  let ?i = "\<lambda>k. new_write_info (wr_tuple (ws ! k)) k (wr_insert (ws ! k)) k"
  obtain px "is" where px: "sorted_infos ws = px # is"
    using e by (cases "sorted_infos ws") (auto simp: sorted_infos_def dest: arg_cong [where f = length])
  have mem: "set (px # is) = {?i k |k. k < length ws}" using set_sorted_infos [of ws] by (simp add: px)
  let ?m = "if wi_insert px then set_do_write (wi_entry px) ws else ws"
  have l: "lock_loop [] (Some px) (wi_insert px) is ?m H = Inr (True, ms, ws', H')" using assms(1) by (simp add: px)
  have ent: "\<forall>i \<in> set (px # is). wi_entry i < length ws" unfolding mem by (auto simp: new_write_info_def)
  have "wr_do_write (ws' ! e) \<longleftrightarrow> wr_do_write (?m ! e) \<or> (\<exists>i \<in> flagged px is. wi_entry i = e)"
    by (rule lock_loop_flags [OF l]) (use ent e in \<open>auto simp: set_do_write_nth\<close>)
  also have "\<dots> \<longleftrightarrow> (\<exists>i \<in> flagged px is. wi_entry i = e)"
  proof -
    have "wi_insert px \<Longrightarrow> px \<in> flagged px is" by (cases "is") auto
    moreover have "\<not> wr_do_write (ws ! e)" using assms(2) e by simp
    ultimately show ?thesis using e by (auto simp: set_do_write_nth)
  qed
  also have "\<dots> \<longleftrightarrow> ?i e \<in> flagged px is"
  proof -
    have "i = ?i (wi_entry i)" if "i \<in> flagged px is" for i
    proof -
      have "i \<in> {?i k |k. k < length ws}" using that flagged_iff [OF sorted_infos_wrt [of ws, unfolded px], of i] mem by blast
      then show ?thesis by (auto simp: new_write_info_def)
    qed
    moreover have "wi_entry (?i e) = e" by (simp add: new_write_info_def)
    ultimately show ?thesis by (metis (no_types))
  qed
  also have "\<dots> \<longleftrightarrow> wr_insert (ws ! e) \<or> (\<forall>j < length ws. wr_tuple (ws ! j) = wr_tuple (ws ! e) \<and> \<not> wr_insert (ws ! j) \<longrightarrow> j \<le> e)"
  proof -
    have lt: "?i j = ?i e \<or> write_info_less (?i j) (?i e) \<longleftrightarrow> wr_insert (ws ! j) \<or> j \<le> e"
      if "wr_tuple (ws ! j) = wr_tuple (ws ! e)" "\<not> wr_insert (ws ! e)" for j
      using that by (cases "j = e") (auto simp: new_write_info_def write_info_less_def)
    have ie: "?i e \<in> {?i k |k. k < length ws}" "wi_insert (?i k) = wr_insert (ws ! k)" "wi_tuple (?i k) = wr_tuple (ws ! k)" for k
      using e by (auto simp: new_write_info_def)
    show ?thesis
      unfolding flagged_iff [OF sorted_infos_wrt [of ws, unfolded px]] mem
    proof (cases "wr_insert (ws ! e)")
      case False
      have "(\<forall>j \<in> {?i k |k. k < length ws}. wi_tuple j = wi_tuple (?i e) \<longrightarrow> j = ?i e \<or> write_info_less j (?i e)) \<longleftrightarrow>
          (\<forall>j < length ws. wr_tuple (ws ! j) = wr_tuple (ws ! e) \<longrightarrow> ?i j = ?i e \<or> write_info_less (?i j) (?i e))"
      proof -
        have all: "(\<forall>j \<in> {f k |k. k < n}. P j) \<longleftrightarrow> (\<forall>k < n. P (f k))" for f :: "nat \<Rightarrow> dbtuple_write_info" and n :: nat and P
          by blast
        show ?thesis unfolding all ie(3) ..
      qed
      also have "\<dots> \<longleftrightarrow> (\<forall>j < length ws. wr_tuple (ws ! j) = wr_tuple (ws ! e) \<and> \<not> wr_insert (ws ! j) \<longrightarrow> j \<le> e)"
        using lt False by blast
      finally show "?i e \<in> {?i k |k. k < length ws} \<and> (wi_insert (?i e) \<or>
          (\<forall>j \<in> {?i k |k. k < length ws}. wi_tuple j = wi_tuple (?i e) \<longrightarrow> j = ?i e \<or> write_info_less j (?i e))) \<longleftrightarrow>
          wr_insert (ws ! e) \<or> (\<forall>j < length ws. wr_tuple (ws ! j) = wr_tuple (ws ! e) \<and> \<not> wr_insert (ws ! j) \<longrightarrow> j \<le> e)"
        using ie by simp
    qed (use ie(1) in \<open>simp add: new_write_info_simp\<close>)
  qed
  finally show ?thesis .
qed

section \<open>Locking and unlocking keep the database\<close>

lemma db_ok_upd:
  assumes db: "db_ok m H" and f: "\<And>x. same_data x (f x)" "\<And>x. head_ok x \<Longrightarrow> head_ok (f x)"
  shows "db_ok m (upd_heap f A H)" and "key_versions (upd_heap f A H) (m b k) = key_versions H (m b k)"
proof -
  let ?H = "upd_heap f A H"
  have ho: "heap_ok ?H" using db by (simp add: db_ok_def heap_ok_def)
  have same: "chain (cells ?H) (Some p) (chain_at H p)" "chain_at ?H p = chain_at H p" "\<exists>x. cells ?H p = Some x \<and> head_ok x"
    if "m b k = Some p" for b k p
  proof -
    note d = db_okD [OF db that]
    show c: "chain (cells ?H) (Some p) (chain_at H p)" using chain_same [OF same_on_upd d(2)] f(1) by blast
    show "chain_at ?H p = chain_at H p" by (rule chain_at_eq [OF ho c])
    show "\<exists>x. cells ?H p = Some x \<and> head_ok x" using d(3) f(2) by auto
  qed
  show "db_ok m ?H"
    unfolding db_ok_def
  proof (intro conjI allI impI)
    show "heap_ok ?H" by (rule ho)
    fix b k p assume "m b k = Some p"
    from same [OF this] show "chain (cells ?H) (Some p) (chain_at ?H p)" "\<exists>x. cells ?H p = Some x \<and> head_ok x" by simp_all
  next
    fix b k p b' k' p' assume a: "m b k = Some p \<and> m b' k' = Some p' \<and> (b, k) \<noteq> (b', k')"
    then show "set (chain_at ?H p) \<inter> set (chain_at ?H p') = {}"
      using same(2) db_okD(5) [OF db, of b k p b' k' p'] by auto
  qed
  show "key_versions ?H (m b k) = key_versions H (m b k)"
    using same(2) versions_same [OF same_on_upd, of f] f(1) by (cases "m b k") (auto simp: key_versions_def)
qed

lemma head_ok_lock: "head_ok (lk x) = head_ok x" "head_ok (ulk x) = head_ok x"
  by (simp_all add: head_ok_def buffer_ok_def lk_def ulk_def lock_flags unlock_flags)

lemma db_ok_lock:
  assumes "db_ok m H" and "f = lk \<or> f = ulk"
  shows "db_ok m (upd_heap f A H)" and "key_versions (upd_heap f A H) (m b k) = key_versions H (m b k)"
  using db_ok_upd [OF assms(1), of f] assms(2) by (auto simp: head_ok_lock)

lemma unlock_infos_effect:
  assumes "db_ok m (wheap w)" and "\<forall>i \<in> set is. cells (wheap w) (wi_tuple i) \<noteq> None"
  shows "\<exists>H'. unlock_infos is w = Inr (w\<lparr>wheap := H'\<rparr>) \<and> db_ok m H' \<and>
    (\<forall>b k. key_versions H' (m b k) = key_versions (wheap w) (m b k)) \<and>
    (\<forall>q. locked_at H' q \<longleftrightarrow> locked_at (wheap w) q \<and> q \<notin> wi_tuple ` {i \<in> set is. wi_locked i})"
  using assms
proof (induction "is" arbitrary: w)
  case (Cons i "is")
  show ?case
  proof (cases "wi_locked i")
    case False
    then have "{j \<in> set (i # is). wi_locked j} = {j \<in> set is. wi_locked j}" by auto
    then show ?thesis using Cons.IH [OF Cons.prems(1)] Cons.prems(2) False by simp
  next
    case True
    let ?w = "w\<lparr>wheap := upd_heap ulk {wi_tuple i} (wheap w)\<rparr>"
    have u: "unlock_world (wi_tuple i) w = Inr ?w" using Cons.prems(2) by (intro unlock_world_ok) simp
    have db: "db_ok m (wheap ?w)" "key_versions (wheap ?w) (m b k) = key_versions (wheap w) (m b k)" for b k
      using db_ok_lock [OF Cons.prems(1), of ulk] by simp_all
    have al: "\<forall>j \<in> set is. cells (wheap ?w) (wi_tuple j) \<noteq> None" using Cons.prems(2) by auto
    have s: "wi_tuple ` {j \<in> set (i # is). wi_locked j} = insert (wi_tuple i) (wi_tuple ` {j \<in> set is. wi_locked j})"
      using True by auto
    obtain H' where H': "unlock_infos is ?w = Inr (?w\<lparr>wheap := H'\<rparr>)" "db_ok m H'"
        "\<forall>b k. key_versions H' (m b k) = key_versions (wheap ?w) (m b k)"
        "\<forall>q. locked_at H' q \<longleftrightarrow> locked_at (wheap ?w) q \<and> q \<notin> wi_tuple ` {i \<in> set is. wi_locked i}"
      using Cons.IH [OF db(1) al] by blast
    show ?thesis unfolding s using H' True u db(2) by (intro exI [of _ H']) (simp add: locked_at_upd, blast)
  qed
qed (auto intro!: exI)

section \<open>Versions and validation\<close>

lemma write_versions_overwritten:
  assumes "write_versions is H = Inr vs"
  shows "set (overwritten_tids vs) =
    {tversion x |x. \<exists>i \<in> set is. \<not> wi_insert i \<and> cells H (wi_tuple i) = Some x \<and> tversion x \<noteq> MAX_TID}"
  using assms
proof (induction "is" arbitrary: vs)
  case Nil
  then show ?case by (simp add: overwritten_tids_def)
next
  case (Cons i "is")
  show ?case
  proof (cases "wi_insert i")
    case True
    then obtain us where "write_versions is H = Inr us" "vs = (True, MAX_TID) # us" using Cons.prems by (auto simp: sbind_Inr)
    then show ?thesis using Cons.IH True by (auto simp: overwritten_tids_def)
  next
    case False
    then obtain x us where "cells H (wi_tuple i) = Some x" "write_versions is H = Inr us" "vs = (False, tversion x) # us"
      using Cons.prems by (auto simp: sbind_Inr lift_mem_Inr tuple_at_def split: option.splits)
    then show ?thesis using Cons.IH [of us] False by (auto simp: overwritten_tids_def)
  qed
qed

lemma frozen_stable_version:
  "M p = Some x \<Longrightarrow> \<exists>\<tau>'. try_writer_stable_version n (\<lambda>_. M) \<tau> p = Inr (\<not> IsWriteIntent (hdr x), hdr x, \<tau>')"
proof (induction n arbitrary: \<tau>)
  case 0
  then show ?case by (simp add: try_writer_stable_version.simps [of 0] load_def)
next
  case (Suc n)
  have "try_writer_stable_version (Suc n) (\<lambda>_. M) \<tau> p = (if IsWriteIntent (hdr x)
      then try_writer_stable_version n (\<lambda>_. M) (Suc \<tau>) p else Inr (True, hdr x, Suc \<tau>))"
    using Suc.prems by (subst try_writer_stable_version.simps) (simp add: load_def)
  then show ?case using Suc.IH [OF Suc.prems, of "Suc \<tau>"] by (cases "IsWriteIntent (hdr x)") auto
qed

lemma frozen_latest:
  "stable_is_latest_version (\<lambda>_. M) \<tau> p t = Inr True \<longleftrightarrow>
   (\<exists>x. M p = Some x \<and> \<not> IsWriteIntent (hdr x) \<and> IsLatest (hdr x) \<and> is_not_behind x t)"
proof (cases "M p")
  case None
  then show ?thesis by (simp add: stable_is_latest_version_def load_def try_writer_stable_version.simps [of 16])
next
  case (Some x)
  then obtain \<tau>' where "try_writer_stable_version 16 (\<lambda>_. M) \<tau> p = Inr (\<not> IsWriteIntent (hdr x), hdr x, \<tau>')"
    using frozen_stable_version by blast
  then show ?thesis using Some by (simp add: stable_is_latest_version_def load_def writer_check_version_def)
qed

text \<open>What the validation of the read set has seen: the tuple is the latest and still at the version read.\<close>

lemma validate_reads_latest:
  "validate_reads is rs H = Inr True \<Longrightarrow> r \<in> set rs \<Longrightarrow>
   \<exists>x. cells H (rr_tuple r) = Some x \<and> IsLatest (hdr x) \<and> is_not_behind x (rr_tid r)"
proof (induction rs)
  case (Cons a rs)
  let ?v = "if sorted_dbtuples_contains is (rr_tuple a)
    then sbind (tuple_at H (rr_tuple a)) (\<lambda>x. Inr (is_latest_version x (rr_tid a)))
    else stable_is_latest_version (\<lambda>_. cells H) 0 (rr_tuple a) (rr_tid a)"
  have v: "?v = Inr True" and rest: "validate_reads is rs H = Inr True"
    using Cons.prems(1) by (auto simp: sbind_Inr lift_mem_Inr simp del: if_split_asm split: if_splits)
  show ?case
  proof (cases "r = a")
    case False
    then show ?thesis using Cons.IH rest Cons.prems(2) by simp
  next
    case True
    show ?thesis
    proof (cases "sorted_dbtuples_contains is (rr_tuple a)")
      case c: True
      then show ?thesis using v True by (auto simp: sbind_Inr tuple_at_def is_latest_version_def split: option.splits)
    next
      case c: False
      then show ?thesis using v True by (auto simp: frozen_latest)
    qed
  qed
qed simp

section \<open>A successful commit\<close>

text \<open>
  What the calls of a transaction leave in its write set, besides \<open>write_set_ok\<close>: a tuple still marked latest is
  the one its key leads to, inserts carry their value, and an insert comes before the other writes of its tuple.
\<close>

definition writes_ok :: "('ix \<Rightarrow> btree \<Rightarrow> bytes \<Rightarrow> ptr option) \<Rightarrow> bytes write_record list \<Rightarrow> 'ix world \<Rightarrow> bool" where
  "writes_ok M ws w \<longleftrightarrow>
     (\<forall>r \<in> set ws. plain_write r \<and> \<not> wr_do_write r \<and> (wr_insert r \<longrightarrow> fresh_insert (wheap w) r) \<and>
        (latest_at (wheap w) (wr_tuple r) \<longrightarrow> M (windex w) (wr_btr r) (wr_key r) = Some (wr_tuple r))) \<and>
     sorted_wrt (\<lambda>r r'. wr_tuple r = wr_tuple r' \<longrightarrow> \<not> wr_insert r') ws"

definition written_versions :: "'v write_record list \<Rightarrow> heap \<Rightarrow> u64 set" where
  "written_versions ws H = {tversion x |x. \<exists>r \<in> set ws. cells H (wr_tuple r) = Some x \<and> tversion x \<noteq> MAX_TID}"

text \<open>The ids a commit has to exceed leave room in the epoch.\<close>

definition tids_ok :: "'v txn \<Rightarrow> 'ix world \<Rightarrow> bool" where
  "tids_ok t w \<longleftrightarrow> wcore w < 512 \<and> unat (wtick w) < 2147483648 \<and> 0 \<notin> written_versions (write_set t) (wheap w) \<and>
     (\<forall>u \<in> {last_commit_tid (wtid w)} \<union> rr_tid ` set (read_set t) \<union> written_versions (write_set t) (wheap w).
        EpochId u \<le> wtick w \<and> (EpochId u = wtick w \<longrightarrow> unat (NumId u) < 16777215))"

lemma relocked_pairs:
  "relocked is ms \<Longrightarrow> map (\<lambda>i. (wi_tuple i, wi_insert i)) ms = map (\<lambda>i. (wi_tuple i, wi_insert i)) is"
  by (induction "is" arbitrary: ms) auto

lemma phase_pairs:
  assumes "lock_phase ws H ok ms H'"
  shows "(\<lambda>i. (wi_tuple i, wi_insert i)) ` set ms = (\<lambda>r. (wr_tuple r, wr_insert r)) ` set ws"
proof -
  have "(\<lambda>i. (wi_tuple i, wi_insert i)) ` set ms = (\<lambda>i. (wi_tuple i, wi_insert i)) ` set (sorted_infos ws)"
  proof -
    have "relocked (sorted_infos ws) ms" using assms by (simp add: lock_phase_def)
    from relocked_pairs [OF this, THEN arg_cong [where f = set]] show ?thesis by simp
  qed
  also have "\<dots> = (\<lambda>k. (wr_tuple (ws ! k), wr_insert (ws ! k))) ` {..<length ws}"
  proof -
    have "set (sorted_infos ws) = (\<lambda>k. new_write_info (wr_tuple (ws ! k)) k (wr_insert (ws ! k)) k) ` {..<length ws}"
      unfolding set_sorted_infos by blast
    then show ?thesis by (simp add: image_image new_write_info_def)
  qed
  also have "\<dots> = (\<lambda>r. (wr_tuple r, wr_insert r)) ` set ws"
  proof -
    have "set ws = (!) ws ` {..<length ws}" by (metis atLeast_upt list.set_map map_nth)
    then show ?thesis by (simp add: image_image)
  qed
  finally show ?thesis .
qed

lemma phase_version:
  assumes "lock_phase ws H ok ms H'" and "cells H p = Some x"
  obtains y where "cells H' p = Some y" and "tversion y = tversion x" and "tnext y = tnext x" and "tuple_value y = tuple_value x"
proof -
  have "same_on {p} H H'" using assms(1) same_on_upd [of lk "{p}" H] by (simp add: lock_phase_def)
  then show ?thesis using assms(2) that by (auto simp: same_on_def option_rel_Some1 same_data_def)
qed

lemma phase_cells: "lock_phase ws H ok ms H' \<Longrightarrow> cells H' p = None \<longleftrightarrow> cells H p = None"
  by (auto simp: lock_phase_def)

lemma phase_written:
  assumes "lock_phase ws H ok ms H'" and "write_versions ms H' = Inr vs"
  shows "set (overwritten_tids vs) \<subseteq> written_versions ws H"
    and "\<And>r x. r \<in> set ws \<Longrightarrow> \<not> wr_insert r \<Longrightarrow> cells H (wr_tuple r) = Some x \<Longrightarrow> tversion x \<noteq> MAX_TID \<Longrightarrow>
      tversion x \<in> set (overwritten_tids vs)"
proof -
  note ov = write_versions_overwritten [OF assms(2)]
  have H': "H' = upd_heap lk (set (newly_locked ms)) H" using assms(1) by (simp add: lock_phase_def)
  have orig: "\<exists>y. cells H p = Some y \<and> tversion y = tversion x" if "cells H' p = Some x" for p x
    using that by (auto simp: H' lk_def split: if_splits)
  show "set (overwritten_tids vs) \<subseteq> written_versions ws H"
  proof
    fix u assume "u \<in> set (overwritten_tids vs)"
    then obtain x i where x: "u = tversion x" "tversion x \<noteq> MAX_TID" "i \<in> set ms" "cells H' (wi_tuple i) = Some x"
      unfolding ov by blast
    obtain r where r: "r \<in> set ws" "wr_tuple r = wi_tuple i"
    proof -
      have "(wi_tuple i, wi_insert i) \<in> (\<lambda>r. (wr_tuple r, wr_insert r)) ` set ws" unfolding phase_pairs [OF assms(1), symmetric] using x(3) by blast
      then show ?thesis using that by auto
    qed
    obtain y where "cells H (wr_tuple r) = Some y" "tversion y = u" using orig [OF x(4)] x(1) r(2) by auto
    then show "u \<in> written_versions ws H" unfolding written_versions_def using r(1) x(1,2) by (intro CollectI exI [of _ y]) auto
  qed
  fix r x assume r: "r \<in> set ws" "\<not> wr_insert r" and x: "cells H (wr_tuple r) = Some x" "tversion x \<noteq> MAX_TID"
  obtain i where i: "i \<in> set ms" "wi_tuple i = wr_tuple r" "wi_insert i = wr_insert r"
  proof -
    have "(wr_tuple r, wr_insert r) \<in> (\<lambda>i. (wi_tuple i, wi_insert i)) ` set ms" unfolding phase_pairs [OF assms(1)] using r(1) by blast
    then show ?thesis using that by auto
  qed
  obtain y where "cells H' (wr_tuple r) = Some y" "tversion y = tversion x" using phase_version [OF assms(1) x(1)] by metis
  then show "tversion x \<in> set (overwritten_tids vs)" unfolding ov using i r(2) x(2) by (intro CollectI exI [of _ y] conjI bexI [of _ i]) auto
qed

lemma phase_latest:
  assumes "lock_phase ws (wheap w) True ms H'" and "write_set_ok M ws w" and "writes_ok M ws w" and "r \<in> set ws"
  shows "M (windex w) (wr_btr r) (wr_key r) = Some (wr_tuple r)"
proof -
  have "latest_at (wheap w) (wr_tuple r)"
  proof (cases "wr_tuple r \<in> set (newly_locked ms)")
    case True
    then show ?thesis using assms(1) unfolding lock_phase_def by blast
  next
    case False
    then obtain r' where "r' \<in> set ws" "wr_tuple r' = wr_tuple r" "wr_insert r'" using assms(1,4) unfolding lock_phase_def by blast
    then have "marker (wheap w) (wr_tuple r)" using assms(2) unfolding write_set_ok_def by auto
    then show ?thesis by (auto simp: marker_def latest_at_def)
  qed
  then show ?thesis using assms(3,4) unfolding writes_ok_def by blast
qed

lemma last_write_None: "last_write rs b k = None \<longleftrightarrow> (\<forall>r \<in> set rs. \<not> (wr_btr r = b \<and> wr_key r = k))"
  by (induction rs) (auto split: option.splits)

lemma last_write_filter:
  assumes "\<And>i. i < length rs \<Longrightarrow> \<not> P (rs ! i) \<Longrightarrow>
    \<exists>j > i. j < length rs \<and> wr_btr (rs ! j) = wr_btr (rs ! i) \<and> wr_key (rs ! j) = wr_key (rs ! i)"
  shows "last_write (filter P rs) b k = last_write rs b k"
  using assms
proof (induction rs)
  case (Cons r rs)
  have IH: "last_write (filter P rs) b k = last_write rs b k"
  proof (rule Cons.IH)
    fix i assume i: "i < length rs" "\<not> P (rs ! i)"
    then obtain j where "j > Suc i" "j < length (r # rs)" "wr_btr ((r # rs) ! j) = wr_btr (rs ! i)" "wr_key ((r # rs) ! j) = wr_key (rs ! i)"
      using Cons.prems [of "Suc i"] by auto
    then show "\<exists>j > i. j < length rs \<and> wr_btr (rs ! j) = wr_btr (rs ! i) \<and> wr_key (rs ! j) = wr_key (rs ! i)"
      by (intro exI [of _ "j - 1"]) (auto simp: nth_Cons split: nat.splits)
  qed
  show ?case
  proof (cases "P r")
    case False
    then obtain j where j: "j > 0" "j < length (r # rs)" "wr_btr ((r # rs) ! j) = wr_btr r" "wr_key ((r # rs) ! j) = wr_key r"
      using Cons.prems [of 0] by auto
    then have "rs ! (j - 1) \<in> set rs" "wr_btr (rs ! (j - 1)) = wr_btr r" "wr_key (rs ! (j - 1)) = wr_key r"
      by (auto simp: nth_Cons split: nat.splits)
    then have "wr_btr r = b \<and> wr_key r = k \<Longrightarrow> last_write rs b k \<noteq> None" unfolding last_write_None by metis
    then show ?thesis using IH False by (auto split: option.splits)
  qed (simp add: IH)
qed simp

lemma last_write_marks: "marks ws ws' \<Longrightarrow> last_write ws' b k = last_write ws b k"
proof (induction ws arbitrary: ws')
  case (Cons r ws)
  then obtain r' ws'' where w: "ws' = r' # ws''" "marks ws ws''" "r' = r \<or> r' = r\<lparr>wr_do_write := True\<rparr>"
    by (auto simp: marks_def list_all2_Cons1)
  have "wr_btr r' = wr_btr r" "wr_key r' = wr_key r" "wr_value r' = wr_value r" using w(3) by auto
  then show ?case using Cons.IH [OF w(2)] by (simp add: w(1) split: option.split)
qed (simp add: marks_def)

text \<open>The state after a successful lock phase, before the writes.\<close>

lemma locked_ready:
  assumes l: "lock_loop [] None False (sorted_infos ws) ws (wheap w) = Inr (True, ms, ws', H)"
    and ph: "marks ws ws'" "lock_phase ws (wheap w) True ms H"
    and ok: "write_set_ok M ws w" "writes_ok M ws w" and db: "db_ok (M (windex w)) (wheap w)"
    and ver: "\<forall>r \<in> set ws. \<forall>x. \<not> wr_insert r \<and> cells (wheap w) (wr_tuple r) = Some x \<and> tversion x \<noteq> MAX_TID \<longrightarrow>
      tversion x \<le> tid \<and> tversion x \<noteq> 0"
  shows "ready (M (windex w)) H tid ws'" and "last_write (filter wr_do_write ws') b k = last_write ws b k"
proof -
  have len: "length ws' = length ws" using marks_nth(1) [OF ph(1)] .
  note nth = marks_nth(2-5) [OF ph(1)]
  have sel: "wr_do_write (ws' ! e) \<longleftrightarrow> wr_insert (ws ! e) \<or>
      (\<forall>j < length ws. wr_tuple (ws ! j) = wr_tuple (ws ! e) \<and> \<not> wr_insert (ws ! j) \<longrightarrow> j \<le> e)" if "e < length ws" for e
    using lock_phase_selects [OF l _ that] ok(2) unfolding writes_ok_def by blast
  have first: "\<not> wr_insert (ws ! j)" if "i < j" "j < length ws" "wr_tuple (ws ! i) = wr_tuple (ws ! j)" for i j
    using ok(2) that unfolding writes_ok_def sorted_wrt_iff_nth_less by blast
  have key: "M (windex w) (wr_btr r) (wr_key r) = Some (wr_tuple r)" if "r \<in> set ws" for r by (rule phase_latest [OF ph(2) ok that])
  have val: "wr_value (ws' ! e) = wr_value (ws ! e) \<and> wr_writer (ws' ! e) = wr_writer (ws ! e)" if "e < length ws" for e
    using ph(1) that by (auto simp: marks_def list_all2_conv_all_nth)
  show "ready (M (windex w)) H tid ws'"
    unfolding ready_def
  proof (intro conjI ballI impI)
    show "sorted_wrt (\<lambda>r r'. wr_do_write r \<and> wr_do_write r' \<and> wr_tuple r = wr_tuple r' \<longrightarrow> wr_insert r \<and> \<not> wr_insert r') ws'"
      unfolding sorted_wrt_iff_nth_less len
    proof (intro allI impI)
      fix i j assume ij: "i < j" "j < length ws" "wr_do_write (ws' ! i) \<and> wr_do_write (ws' ! j) \<and> wr_tuple (ws' ! i) = wr_tuple (ws' ! j)"
      then have "\<not> wr_insert (ws ! j)" using first nth(1) by simp
      moreover from this have "wr_insert (ws ! i)"
      proof -
        have il: "i < length ws" and tup: "wr_tuple (ws ! j) = wr_tuple (ws ! i)" using ij nth(1) by auto
        have "\<not> (\<forall>j < length ws. wr_tuple (ws ! j) = wr_tuple (ws ! i) \<and> \<not> wr_insert (ws ! j) \<longrightarrow> j \<le> i)"
          using ij(1,2) tup \<open>\<not> wr_insert (ws ! j)\<close> by (metis leD)
        then show ?thesis using sel [OF il] ij(3) by blast
      qed
      ultimately show "wr_insert (ws' ! i) \<and> \<not> wr_insert (ws' ! j)" using nth(4) ij by simp
    qed
    fix r' assume r': "r' \<in> set ws'" "wr_do_write r'"
    then obtain e where e: "e < length ws" "r' = ws' ! e" using len by (auto simp: in_set_conv_nth)
    let ?r = "ws ! e"
    have mem: "?r \<in> set ws" using e(1) by simp
    have eq: "wr_tuple r' = wr_tuple ?r" "wr_key r' = wr_key ?r" "wr_btr r' = wr_btr ?r" "wr_insert r' = wr_insert ?r"
        "wr_value r' = wr_value ?r" "wr_writer r' = wr_writer ?r" using e nth val by auto
    show "plain_write r'" using ok(2) mem eq unfolding writes_ok_def plain_write_def by auto
    show "M (windex w) (wr_btr r') (wr_key r') = Some (wr_tuple r')" using key [OF mem] eq by simp
    show "if wr_insert r' then fresh_insert H r'
      else committed_at H tid (wr_tuple r') \<or> (\<exists>s \<in> set ws'. wr_do_write s \<and> wr_insert s \<and> wr_tuple s = wr_tuple r')"
    proof (cases "wr_insert ?r")
      case True
      then have "fresh_insert (wheap w) ?r" using ok(2) mem unfolding writes_ok_def by blast
      then obtain x where x: "cells (wheap w) (wr_tuple ?r) = Some x" "tversion x = MAX_TID" "tnext x = None" "tuple_value x = wr_value ?r"
        unfolding fresh_insert_def by blast
      obtain y where "cells H (wr_tuple ?r) = Some y" "tversion y = tversion x" "tnext y = tnext x" "tuple_value y = tuple_value x"
        by (rule phase_version [OF ph(2) x(1)])
      then have "fresh_insert H r'" using x(2-4) eq by (simp add: fresh_insert_def)
      then show ?thesis using True eq by simp
    next
      case False
      show ?thesis
      proof (cases "\<exists>s \<in> set ws. wr_insert s \<and> wr_tuple s = wr_tuple ?r")
        case True
        then obtain f where f: "f < length ws" "wr_insert (ws ! f)" "wr_tuple (ws ! f) = wr_tuple ?r" by (metis in_set_conv_nth)
        then have "ws' ! f \<in> set ws'" "wr_do_write (ws' ! f)" "wr_insert (ws' ! f)" "wr_tuple (ws' ! f) = wr_tuple ?r"
          using sel nth len by auto
        then show ?thesis using False eq by auto
      next
        case no: False
        then have "wr_tuple ?r \<in> set (newly_locked ms)" using ph(2) mem unfolding lock_phase_def by blast
        then have "lockable (wheap w) (wr_tuple ?r)" using ph(2) unfolding lock_phase_def by blast
        then obtain x where x: "cells (wheap w) (wr_tuple ?r) = Some x" "tversion x \<noteq> MAX_TID" by (auto simp: lockable_def)
        then have "tversion x \<le> tid" "tversion x \<noteq> 0" using ver mem False by auto
        then have "committed_at H tid (wr_tuple ?r)" using phase_version [OF ph(2) x(1)] by (metis committed_at_def)
        then show ?thesis using False eq by simp
      qed
    qed
  qed
  have inj: "wr_btr (ws ! i) = wr_btr (ws ! j) \<and> wr_key (ws ! i) = wr_key (ws ! j)"
    if "i < length ws" "j < length ws" "wr_tuple (ws ! i) = wr_tuple (ws ! j)" for i j
  proof (rule ccontr)
    assume "\<not> ?thesis"
    moreover note k = key [OF nth_mem [OF that(1)]] key [OF nth_mem [OF that(2)]]
    ultimately have "set (chain_at (wheap w) (wr_tuple (ws ! i))) \<inter> set (chain_at (wheap w) (wr_tuple (ws ! j))) = {}"
      using db_okD(5) [where m = "M (windex w)", OF db k] by auto
    then show False using db_okD(4) [where m = "M (windex w)", OF db k(1)] that(3) by auto
  qed
  have "last_write (filter wr_do_write ws') b k = last_write ws' b k"
  proof (rule last_write_filter)
    fix i assume i: "i < length ws'" "\<not> wr_do_write (ws' ! i)"
    then obtain j where "j < length ws" "wr_tuple (ws ! j) = wr_tuple (ws ! i)" "i < j" using sel [of i] len by (auto simp: not_le)
    then show "\<exists>j > i. j < length ws' \<and> wr_btr (ws' ! j) = wr_btr (ws' ! i) \<and> wr_key (ws' ! j) = wr_key (ws' ! i)"
      using inj [of j i] nth i(1) len by auto
  qed
  then show "last_write (filter wr_do_write ws') b k = last_write ws b k" using last_write_marks [OF ph(1)] by simp
qed

lemma txn_finish_same: "txn_finish E t c w = Inr w' \<Longrightarrow> \<exists>L. w' = w\<lparr>wlog := L\<rparr>"
proof (cases c)
  case None
  then show "txn_finish E t c w = Inr w' \<Longrightarrow> ?thesis" by (intro exI [of _ "wlog w"]) (simp add: txn_finish_def)
next
  case (Some tid)
  then show "txn_finish E t c w = Inr w' \<Longrightarrow> ?thesis" by (auto simp: txn_finish_def sbind_Inr)
qed

text \<open>From the locked state to the end of a commit that validates.\<close>

definition commit_effect ::
  "('ix \<Rightarrow> btree \<Rightarrow> bytes \<Rightarrow> ptr option) \<Rightarrow> u64 \<Rightarrow> bytes write_record list \<Rightarrow> 'ix world \<Rightarrow> 'ix world \<Rightarrow> bool" where
  "commit_effect M tid ws w w' \<longleftrightarrow>
     db_ok (M (windex w')) (wheap w') \<and>
     (\<forall>b k. key_effect tid (last_write ws b k)
        (key_versions (wheap w) (M (windex w) b k)) (key_versions (wheap w') (M (windex w') b k))) \<and>
     (\<forall>q. locked_at (wheap w') q \<longleftrightarrow> locked_at (wheap w) q \<and> q \<notin> wr_tuple ` {r \<in> set ws. wr_insert r})"

lemma phase_unlocks:
  assumes "lock_phase ws H ok ms H'"
  shows "locked_at H' q \<and> q \<notin> wi_tuple ` {i \<in> set ms. wi_locked i} \<longleftrightarrow> locked_at H q \<and> q \<notin> wr_tuple ` {r \<in> set ws. wr_insert r}"
proof -
  have "set (inserted ms) = wr_tuple ` {r \<in> set ws. wr_insert r}"
    using mset_eq_setD [OF phase_inserts(1) [OF assms marks_refl]] by simp
  then have s: "wi_tuple ` {i \<in> set ms. wi_locked i} = set (newly_locked ms) \<union> wr_tuple ` {r \<in> set ws. wr_insert r}"
    by (auto simp: newly_locked_def inserted_def)
  have H': "H' = upd_heap lk (set (newly_locked ms)) H" and L: "\<forall>p \<in> set (newly_locked ms). lockable H p"
    using assms unfolding lock_phase_def by blast+
  have "locked_at H' q = locked_at H q" if "q \<notin> set (newly_locked ms)" using that by (simp add: H' locked_at_def)
  moreover have "\<not> locked_at H q" if "q \<in> set (newly_locked ms)" using L that by (auto simp: lockable_def locked_at_def)
  ultimately show ?thesis unfolding s by blast
qed

lemma write_and_unlock:
  assumes L: "index_laws (e_ix E) M" and tid: "tid \<noteq> 0"
    and l: "lock_loop [] None False (sorted_infos ws) ws (wheap w) = Inr (True, ms, ws', H)"
    and ph: "marks ws ws'" "lock_phase ws (wheap w) True ms H"
    and ok: "write_set_ok M ws w" "writes_ok M ws w" and db: "db_ok (M (windex w)) (wheap w)" and gc: "gc_ok ep w"
    and ver: "\<forall>r \<in> set ws. \<forall>x. \<not> wr_insert r \<and> cells (wheap w) (wr_tuple r) = Some x \<and> tversion x \<noteq> MAX_TID \<longrightarrow>
      tversion x \<le> tid \<and> tversion x \<noteq> 0"
  shows "\<exists>w1 w2. commit_writes E ep tid ws' (w\<lparr>wheap := H, wtid := ctx\<rparr>) = Inr w1 \<and> unlock_infos ms w1 = Inr w2 \<and>
    commit_effect M tid ws w w2 \<and> gc_ok ep w2 \<and> same_rest (w\<lparr>wtid := ctx\<rparr>) w2"
proof -
  let ?w = "w\<lparr>wheap := H, wtid := ctx\<rparr>"
  have H: "H = upd_heap lk (set (newly_locked ms)) (wheap w)" using ph(2) by (simp add: lock_phase_def)
  have db1: "db_ok (M (windex ?w)) (wheap ?w)" "key_versions H (M (windex w) b k) = key_versions (wheap w) (M (windex w) b k)" for b k
    using db_ok_lock [OF db, of lk] by (simp_all add: H)
  have "ready (M (windex ?w)) (wheap ?w) tid ws'" and lw: "last_write (filter wr_do_write ws') b k = last_write ws b k" for b k
    using locked_ready [OF l ph ok db ver] by simp_all
  from commit_writes_effect [OF L tid this(1) db1(1), of ep] obtain w1
    where w1: "commit_writes E ep tid ws' ?w = Inr w1" "writes_effect M ep tid ws' ?w w1" using gc by (auto simp: gc_ok_def)
  note e = w1(2) [unfolded writes_effect_def lw]
  have "\<forall>i \<in> set ms. cells (wheap w1) (wi_tuple i) \<noteq> None"
  proof
    fix i assume "i \<in> set ms"
    then have "(wi_tuple i, wi_insert i) \<in> (\<lambda>r. (wr_tuple r, wr_insert r)) ` set ws" unfolding phase_pairs [OF ph(2), symmetric] by blast
    then have "cells (wheap w) (wi_tuple i) \<noteq> None" using ok(1) by (auto simp: write_set_ok_def)
    then show "cells (wheap w1) (wi_tuple i) \<noteq> None" using e phase_cells [OF ph(2), of "wi_tuple i"] by (simp del: not_None_eq)
  qed
  then obtain H2 where H2: "unlock_infos ms w1 = Inr (w1\<lparr>wheap := H2\<rparr>)" "db_ok (M (windex w1)) H2"
      "\<forall>b k. key_versions H2 (M (windex w1) b k) = key_versions (wheap w1) (M (windex w1) b k)"
      "\<forall>q. locked_at H2 q \<longleftrightarrow> locked_at (wheap w1) q \<and> q \<notin> wi_tuple ` {i \<in> set ms. wi_locked i}"
    using unlock_infos_effect [where m = "M (windex w1)" and w = w1] e by blast
  have "commit_effect M tid ws w (w1\<lparr>wheap := H2\<rparr>)"
    unfolding commit_effect_def using H2 e db1(2) phase_unlocks [OF ph(2)] by simp
  moreover have "gc_ok ep (w1\<lparr>wheap := H2\<rparr>)" "same_rest (w\<lparr>wtid := ctx\<rparr>) (w1\<lparr>wheap := H2\<rparr>)"
    using e by (simp_all add: gc_ok_def same_rest_def)
  ultimately show ?thesis using w1(1) H2(1) by blast
qed

lemma commit_id_facts:
  assumes tids: "tids_ok t w" and ph: "lock_phase (write_set t) (wheap w) True ms H" and vs: "write_versions ms H = Inr vs"
    and g: "gen_commit_tid (wtid w) (of_nat (wcore w)) (wtick w) (map rr_tid (read_set t)) vs = (tid, ctx)"
  shows "CoreId tid = of_nat (wcore w) \<and> EpochId tid = wtick w \<and> last_commit_tid ctx = tid \<and>
      (\<forall>u \<in> {last_commit_tid (wtid w)} \<union> rr_tid ` set (read_set t). u < tid)"
    and "tid \<noteq> 0"
    and "\<forall>r \<in> set (write_set t). \<forall>x. \<not> wr_insert r \<and> cells (wheap w) (wr_tuple r) = Some x \<and> tversion x \<noteq> MAX_TID \<longrightarrow>
      tversion x \<le> tid \<and> tversion x \<noteq> 0"
proof -
  have core: "unat (of_nat (wcore w) :: u64) < 512" using tids by (simp add: tids_ok_def unat_of_nat_small)
  have old: "\<forall>u \<in> {last_commit_tid (wtid w)} \<union> set (map rr_tid (read_set t)) \<union> set (overwritten_tids vs).
      EpochId u \<le> wtick w \<and> (EpochId u = wtick w \<longrightarrow> unat (NumId u) < 16777215)"
    using tids phase_written(1) [OF ph vs] by (auto simp: tids_ok_def)
  have epoch: "unat (wtick w) < 2147483648" using tids by (simp add: tids_ok_def)
  note fresh = commit_id_fresh [OF core epoch old g]
  show "CoreId tid = of_nat (wcore w) \<and> EpochId tid = wtick w \<and> last_commit_tid ctx = tid \<and>
      (\<forall>u \<in> {last_commit_tid (wtid w)} \<union> rr_tid ` set (read_set t). u < tid)" using fresh by auto
  show "tid \<noteq> 0" using fresh by auto
  show "\<forall>r \<in> set (write_set t). \<forall>x. \<not> wr_insert r \<and> cells (wheap w) (wr_tuple r) = Some x \<and> tversion x \<noteq> MAX_TID \<longrightarrow>
      tversion x \<le> tid \<and> tversion x \<noteq> 0"
  proof (intro ballI allI impI conjI)
    fix r x assume r: "r \<in> set (write_set t)" and x: "\<not> wr_insert r \<and> cells (wheap w) (wr_tuple r) = Some x \<and> tversion x \<noteq> MAX_TID"
    show "tversion x \<le> tid" using phase_written(2) [OF ph vs r] x fresh by (auto intro: order_less_imp_le)
    have "tversion x \<in> written_versions (write_set t) (wheap w)" unfolding written_versions_def using r x by blast
    then show "tversion x \<noteq> 0" using tids by (auto simp: tids_ok_def)
  qed
qed

lemma successful_commit:
  assumes L: "index_laws (e_ix E) M" and st: "state t = TXN_EMBRYO \<or> state t = TXN_ACTIVE" and ns: "\<not> is_snapshot t"
    and ok: "write_set_ok M (write_set t) w" "writes_ok M (write_set t) w" and tids: "tids_ok t w"
    and db: "db_ok (M (windex w)) (wheap w)" and gc: "gc_ok (wtick w) w" and ne: "write_set t \<noteq> []"
    and c: "commit E doThrow t w = Inr (Return True, t', w')"
  shows "state t' = TXN_COMMITED \<and>
    (\<exists>tid. CoreId tid = of_nat (wcore w) \<and> EpochId tid = wtick w \<and> last_commit_tid (wtid w') = tid \<and>
       (\<forall>u \<in> {last_commit_tid (wtid w)} \<union> rr_tid ` set (read_set t). u < tid) \<and> commit_effect M tid (write_set t) w w') \<and>
    (\<forall>r \<in> set (read_set t). \<exists>x. cells (wheap w) (rr_tuple r) = Some x \<and> IsLatest (hdr x) \<and> tversion x \<le> rr_tid r) \<and>
    (\<forall>(n, v) \<in> set (absent_set t). ix_version (e_ix E) (windex w) n = v)"
proof (rule commit_phases [OF st ns c])
  assume "write_set t = []"
  then show ?thesis using ne by simp
next
  fix ms ws H
  assume "do_abort E doThrow ABORT_REASON_WRITE_NODE_INTERFERENCE None ms (t\<lparr>write_set := ws\<rparr>) (w\<lparr>wheap := H\<rparr>) =
    Inr (Return True, t', w')"
  then show ?thesis by (auto simp: do_abort_def sbind_Inr Let_def split: if_splits)
next
  fix ms ws H vs tid ctx
  assume ph: "marks (write_set t) ws" "lock_phase (write_set t) (wheap w) True ms H"
    and l: "lock_loop [] None False (sorted_infos (write_set t)) (write_set t) (wheap w) = Inr (True, ms, ws, H)"
    and vs: "write_versions ms H = Inr vs"
    and g: "gen_commit_tid (wtid w) (of_nat (wcore w)) (wtick w) (map rr_tid (read_set t)) vs = (tid, ctx)"
    and v: "validate_and_write E doThrow (Some tid) ms (t\<lparr>write_set := ws, u_word := wtick w\<rparr>) (w\<lparr>wheap := H, wtid := ctx\<rparr>) =
      Inr (Return True, t', w')"
  let ?t = "t\<lparr>write_set := ws, u_word := wtick w\<rparr>" and ?w = "w\<lparr>wheap := H, wtid := ctx\<rparr>"
  note id = commit_id_facts [OF tids ph(2) vs g]
  obtain w1 w2 where w12: "commit_writes E (wtick w) tid ws ?w = Inr w1" "unlock_infos ms w1 = Inr w2"
    and e: "commit_effect M tid (write_set t) w w2" "same_rest (w\<lparr>wtid := ctx\<rparr>) w2"
    using write_and_unlock [OF L id(2) l ph ok db gc id(3), of ctx] by blast
  have val: "t' = ?t\<lparr>state := TXN_COMMITED\<rparr>" "validate_reads ms (read_set t) H = Inr True"
      "validate_nodes E (absent_set t) (windex w)" "txn_finish E t' (Some tid) w2 = Inr w'"
    using validate_and_write_Inr [OF v] w12 by (auto simp: do_abort_def sbind_Inr Let_def split: if_splits)
  obtain W where "w' = w2\<lparr>wlog := W\<rparr>" using txn_finish_same [OF val(4)] by blast
  then have e': "commit_effect M tid (write_set t) w w'" "wtid w' = ctx" using e by (simp_all add: commit_effect_def same_rest_def)
  have "\<exists>x. cells (wheap w) (rr_tuple r) = Some x \<and> IsLatest (hdr x) \<and> tversion x \<le> rr_tid r" if r: "r \<in> set (read_set t)" for r
  proof -
    obtain y where y: "cells H (rr_tuple r) = Some y" "IsLatest (hdr y)" "tversion y \<le> rr_tid r"
      using validate_reads_latest [OF val(2) r] by (auto simp: is_not_behind_def)
    moreover have "H = upd_heap lk (set (newly_locked ms)) (wheap w)" using ph(2) by (simp add: lock_phase_def)
    ultimately show ?thesis by (auto simp: lk_def lock_flags split: if_splits)
  qed
  moreover have "\<forall>(n, v) \<in> set as. ix_version (e_ix E) ix n = v" if "validate_nodes E as ix" for "as" ix
    using that by (induction E "as" ix rule: validate_nodes.induct) (auto split: if_splits)
  ultimately show ?thesis using id(1) e' val(1,3) by auto
qed

text \<open>
  Property C5 (atomic commit). A commit on string tables that reports success installs the write set as a whole: there is one
  id, of this core and of the current epoch and above the core's last one, above every version read and
  above every version overwritten, such that every key the transaction wrote shows the value of its last write
  from that id on and its old versions to older snapshots, and every other key is unchanged. Every read
  is still the latest version of its tuple, every scanned node has the version it was scanned at, and all
  locks are released.
\<close>

theorem commit_installs:
  assumes L: "index_laws (e_ix E) M" and st: "state t = TXN_EMBRYO \<or> state t = TXN_ACTIVE" and ns: "\<not> is_snapshot t"
    and ok: "write_set_ok M (write_set t) w" "writes_ok M (write_set t) w" and tids: "tids_ok t w"
    and db: "db_ok (M (windex w)) (wheap w)" and gc: "gc_ok (wtick w) w" and ne: "write_set t \<noteq> []"
    and c: "commit E doThrow t w = Inr (Return True, t', w')"
  shows "state t' = TXN_COMMITED \<and>
    (\<exists>tid. CoreId tid = of_nat (wcore w) \<and> EpochId tid = wtick w \<and> last_commit_tid (wtid w') = tid \<and>
       (\<forall>u \<in> {last_commit_tid (wtid w)} \<union> rr_tid ` set (read_set t). u < tid) \<and> commit_effect M tid (write_set t) w w') \<and>
    (\<forall>r \<in> set (read_set t). \<exists>x. cells (wheap w) (rr_tuple r) = Some x \<and> IsLatest (hdr x) \<and> tversion x \<le> rr_tid r) \<and>
    (\<forall>(n, v) \<in> set (absent_set t). ix_version (e_ix E) (windex w) n = v)"
  by (rule successful_commit [OF L st ns ok tids db gc ne c])

section \<open>A commit nobody disturbs\<close>

definition lock_free :: "heap \<Rightarrow> ptr \<Rightarrow> bool" where
  "lock_free H p \<longleftrightarrow> lockable H p \<and> latest_at H p"

lemma handle_last_succeeds:
  assumes "ins \<or> lock_free H (wi_tuple px)"
  shows "\<exists>px' ws' H'. handle_last_tuple_in_group px ins ws H = Inr (True, px', ws', H') \<and>
    (\<forall>p. p \<noteq> wi_tuple px \<longrightarrow> cells H' p = cells H p)"
proof (cases ins)
  case True
  then show ?thesis by (simp add: handle_last_tuple_in_group_def)
next
  case False
  then obtain x where x: "cells H (wi_tuple px) = Some x" "\<not> IsLocked (hdr x)" "tversion x \<noteq> MAX_TID" "IsLatest (hdr x)"
    using assms by (auto simp: lock_free_def lockable_def latest_at_def)
  have "lock_tuple True (wi_tuple px) H = Inr (hdr x OR lockmask True, upd_heap lk {wi_tuple px} H)"
    using x by (simp add: lock_tuple_Inr)
  then show ?thesis
    using False x by (simp add: handle_last_tuple_in_group_def tuple_at_def lock_flags can_read_tid_def)
qed

lemma lock_loop_succeeds:
  assumes "sorted_wrt write_info_less (px # is)"
    and "\<forall>i \<in> set (px # is). has_insert (px # is) (wi_tuple i) \<or> (wi_tuple i = wi_tuple px \<and> ins) \<or> lock_free H (wi_tuple i)"
    and "wi_insert px \<longrightarrow> ins"
  shows "\<exists>ms ws' H'. lock_loop done (Some px) ins is ws H = Inr (True, ms, ws', H')"
  using assms
proof (induction "is" arbitrary: "done" px ins ws H)
  case Nil
  then have "ins \<or> lock_free H (wi_tuple px)" by (auto simp: has_insert_def)
  from handle_last_succeeds [OF this, of ws] show ?case by auto
next
  case (Cons i "is")
  have s: "sorted_wrt write_info_less (i # is)" using Cons.prems(1) by simp
  show ?case
  proof (cases "wi_tuple px = wi_tuple i")
    case True
    have "\<forall>j \<in> set (i # is). has_insert (i # is) (wi_tuple j) \<or> (wi_tuple j = wi_tuple i \<and> (ins \<or> wi_insert i)) \<or> lock_free H (wi_tuple j)"
    proof
      fix j assume j: "j \<in> set (i # is)"
      have hi: "has_insert (px # i # is) p \<longleftrightarrow> wi_tuple px = p \<and> wi_insert px \<or> has_insert (i # is) p" for p
        by (auto simp: has_insert_def)
      show "has_insert (i # is) (wi_tuple j) \<or> (wi_tuple j = wi_tuple i \<and> (ins \<or> wi_insert i)) \<or> lock_free H (wi_tuple j)"
        using bspec [OF Cons.prems(2), of j] j Cons.prems(3) True unfolding hi by auto
    qed
    from Cons.IH [OF s this] show ?thesis using True by simp
  next
    case False
    have lt: "wi_tuple px < wi_tuple j" if "j \<in> set (i # is)" for j by (rule sorted_strict [OF Cons.prems(1) False that])
    have "\<not> has_insert (i # is) (wi_tuple px)" using lt by (force simp: has_insert_def)
    then have "ins \<or> lock_free H (wi_tuple px)" using Cons.prems(2,3) by (auto simp: has_insert_def)
    then obtain px' ws1 H1 where h: "handle_last_tuple_in_group px ins ws H = Inr (True, px', ws1, H1)"
        "\<forall>p. p \<noteq> wi_tuple px \<longrightarrow> cells H1 p = cells H p"
      using handle_last_succeeds [of ins H px ws] by blast
    have "has_insert (i # is) (wi_tuple j) \<or> (wi_tuple j = wi_tuple i \<and> wi_insert i) \<or> lock_free H1 (wi_tuple j)"
      if j: "j \<in> set (i # is)" for j
    proof -
      have "wi_tuple j \<noteq> wi_tuple px" using lt [OF j] by simp
      then have "lock_free H1 (wi_tuple j) = lock_free H (wi_tuple j)" "has_insert (px # i # is) (wi_tuple j) = has_insert (i # is) (wi_tuple j)"
        using h(2) by (auto simp: lock_free_def lockable_def latest_at_def has_insert_def)
      then show ?thesis using Cons.prems(2) j \<open>wi_tuple j \<noteq> wi_tuple px\<close> by auto
    qed
    then have "\<forall>j \<in> set (i # is). has_insert (i # is) (wi_tuple j) \<or> (wi_tuple j = wi_tuple i \<and> wi_insert i) \<or> lock_free H1 (wi_tuple j)"
      by blast
    from Cons.IH [OF s this] show ?thesis using False h(1) by simp
  qed
qed

lemma commit_lock_succeeds:
  assumes "ws \<noteq> []" and "\<forall>r \<in> set ws. (\<exists>s \<in> set ws. wr_tuple s = wr_tuple r \<and> wr_insert s) \<or> lock_free H (wr_tuple r)"
  shows "\<exists>ms ws' H'. lock_loop [] None False (sorted_infos ws) ws H = Inr (True, ms, ws', H')"
proof -
  have "length (sorted_infos ws) \<noteq> 0" using assms(1) by (simp add: sorted_infos_def)
  then obtain i "is" where i: "sorted_infos ws = i # is" by (cases "sorted_infos ws") auto
  have "has_insert (i # is) (wi_tuple j) \<or> lock_free H (wi_tuple j)" if j: "j \<in> set (i # is)" for j
  proof -
    obtain k where k: "k < length ws" "wi_tuple j = wr_tuple (ws ! k)"
    proof -
      have "j \<in> {new_write_info (wr_tuple (ws ! k)) k (wr_insert (ws ! k)) k |k. k < length ws}"
        using j unfolding i [symmetric] set_sorted_infos .
      then show ?thesis using that by (auto simp: new_write_info_def)
    qed
    then show ?thesis using assms(2) nth_mem [OF k(1)] unfolding i [symmetric] has_insert_iff by auto
  qed
  then have "\<forall>j \<in> set (i # is). has_insert (i # is) (wi_tuple j) \<or> (wi_tuple j = wi_tuple i \<and> wi_insert i) \<or> lock_free H (wi_tuple j)"
    by blast
  from lock_loop_succeeds [OF sorted_infos_wrt [of ws, unfolded i] this] show ?thesis unfolding i by (cases "wi_insert i") auto
qed

lemma write_versions_returns:
  "\<forall>i \<in> set is. cells H (wi_tuple i) \<noteq> None \<Longrightarrow> \<exists>vs. write_versions is H = Inr vs"
  by (induction "is") (auto simp: tuple_at_def)

text \<open>What the log gets from the write set of a commit, whose records are marked but otherwise the same.\<close>

lemma marked_ready:
  assumes m: "marks ws ws'" and rd: "log_ready core ws L" and pw: "\<forall>r \<in> set ws. plain_write r"
  shows "\<exists>L'. on_tid_finish Z core us TXN_COMMITED ws' tid L = Inr L'"
proof -
  have same: "list_all2 (\<lambda>r r'. wr_key r' = wr_key r \<and> wr_value r' = wr_value r \<and> wr_writer r' = wr_writer r) ws ws'"
    using m unfolding marks_def by (rule list_all2_mono) auto
  then have sp: "map record_space ws' = map record_space ws"
    by (induction rule: list_all2_induct) (simp_all add: record_space_def key_nbytes_def value_nbytes_def cong: option.case_cong)
  have len: "length ws' = length ws" using same by (simp add: list_all2_lengthD)
  have orig: "\<exists>r \<in> set ws. wr_key r' = wr_key r \<and> wr_value r' = wr_value r \<and> wr_writer r' = wr_writer r" if "r' \<in> set ws'" for r'
    using same that by (fastforce simp: list_all2_conv_all_nth in_set_conv_nth [of r'] intro: nth_mem bexI [of _ "ws ! _"])
  have "log_space_needed ws' = log_space_needed ws" by (simp add: log_space_needed_def sp len)
  moreover have "\<forall>r \<in> set ws'. length (wr_key r) < 2 ^ 32" if "\<forall>r \<in> set ws. length (wr_key r) < 2 ^ 32"
    using orig that by fastforce
  ultimately have rd': "log_ready core ws' L" using rd unfolding log_ready_def len by auto
  have "\<forall>r \<in> set ws'. record_ok string_delta.delta_of r" if "g_persist L"
  proof
    fix r' assume "r' \<in> set ws'"
    then obtain r where r: "r \<in> set ws" "wr_key r' = wr_key r" "wr_value r' = wr_value r" "wr_writer r' = wr_writer r"
      using orig by blast
    have "length (wr_key r) < 2 ^ 32" using rd that r(1) by (auto simp: log_ready_def)
    moreover have "length u < 2 ^ 32" if "wr_value r' = Some u" for u
    proof -
      have "length u \<le> 65535" using pw r(1,3) that by (simp add: plain_write_def value_ok_def)
      then show ?thesis by simp
    qed
    ultimately show "record_ok string_delta.delta_of r'"
      using pw r(1,2,4) by (intro string_delta.record_ok_delta) (simp_all add: plain_write_def)
  qed
  then show ?thesis using finish_ready [OF rd'] by (cases "g_persist L") (auto simp: on_tid_finish_def)
qed

text \<open>What an undisturbed transaction finds: its reads are still latest, nobody else is writing them.\<close>

definition reads_stable :: "'v txn \<Rightarrow> heap \<Rightarrow> bool" where
  "reads_stable t H \<longleftrightarrow>
     (\<forall>r \<in> set (read_set t). \<exists>x. cells H (rr_tuple r) = Some x \<and> is_latest_version x (rr_tid r) \<and>
        (\<not> IsWriteIntent (hdr x) \<or> rr_tuple r \<in> wr_tuple ` set (write_set t)))"

lemma phase_contains:
  assumes "lock_phase ws H ok ms H'"
  shows "sorted_dbtuples_contains ms p \<longleftrightarrow> p \<in> wr_tuple ` set ws"
proof -
  have "relocked (sorted_infos ws) ms" using assms by (simp add: lock_phase_def)
  then have "map wi_tuple ms = map wi_tuple (sorted_infos ws)" using relocked_tuples by blast
  then have "sorted (map wi_tuple ms)" using sorted_infos_tuples [of "collect_write_infos ws"] by (simp add: sorted_infos_def)
  moreover have "wi_tuple ` set ms = wr_tuple ` set ws"
    using arg_cong [OF phase_pairs [OF assms], of "image fst"] by (simp add: image_image)
  ultimately show ?thesis using sorted_contains_iff by simp
qed

lemma validate_reads_stable:
  assumes "\<forall>r \<in> set rs. \<exists>x. cells H (rr_tuple r) = Some x \<and> is_latest_version x (rr_tid r) \<and>
    (\<not> IsWriteIntent (hdr x) \<or> sorted_dbtuples_contains is (rr_tuple r))"
  shows "validate_reads is rs H = Inr True"
  using assms
proof (induction rs)
  case (Cons r rs)
  then obtain x where x: "cells H (rr_tuple r) = Some x" "is_latest_version x (rr_tid r)"
      "\<not> IsWriteIntent (hdr x) \<or> sorted_dbtuples_contains is (rr_tuple r)" by auto
  have f: "stable_is_latest_version (\<lambda>_. cells H) 0 (rr_tuple r) (rr_tid r) = Inr True" if "\<not> IsWriteIntent (hdr x)"
    using that x(1,2) by (simp add: frozen_latest is_latest_version_def)
  show ?case
  proof (cases "sorted_dbtuples_contains is (rr_tuple r)")
    case True
    then show ?thesis using Cons x by (simp add: tuple_at_def)
  next
    case False
    then show ?thesis using Cons x f by simp
  qed
qed simp

lemma phase_reads_stable:
  assumes ph: "lock_phase (write_set t) H True ms H'" and rs: "reads_stable t H"
  shows "validate_reads ms (read_set t) H' = Inr True"
proof (rule validate_reads_stable, rule ballI)
  fix r assume "r \<in> set (read_set t)"
  then obtain x where x: "cells H (rr_tuple r) = Some x" "is_latest_version x (rr_tid r)"
      "\<not> IsWriteIntent (hdr x) \<or> rr_tuple r \<in> wr_tuple ` set (write_set t)" using rs unfolding reads_stable_def by blast
  have H': "H' = upd_heap lk (set (newly_locked ms)) H" and mem: "set (newly_locked ms) \<subseteq> wr_tuple ` set (write_set t)"
    using ph unfolding lock_phase_def by (blast, force)
  show "\<exists>x. cells H' (rr_tuple r) = Some x \<and> is_latest_version x (rr_tid r) \<and>
      (\<not> IsWriteIntent (hdr x) \<or> sorted_dbtuples_contains ms (rr_tuple r))"
  proof (cases "rr_tuple r \<in> set (newly_locked ms)")
    case True
    then have "cells H' (rr_tuple r) = Some (lk x)" "rr_tuple r \<in> wr_tuple ` set (write_set t)" using x(1) mem by (auto simp: H')
    then show ?thesis
      using x(2) by (auto simp: phase_contains [OF ph] is_latest_version_def is_not_behind_def lk_def lock_flags)
  next
    case False
    then show ?thesis using x by (simp add: H' phase_contains [OF ph])
  qed
qed

lemma undisturbed_commit:
  assumes L: "index_laws (e_ix E) M" and st: "state t = TXN_EMBRYO \<or> state t = TXN_ACTIVE" and ns: "\<not> is_snapshot t"
    and ok: "write_set_ok M (write_set t) w" "writes_ok M (write_set t) w" and tids: "tids_ok t w"
    and db: "db_ok (M (windex w)) (wheap w)" and gc: "gc_ok (wtick w) w"
    and free: "\<forall>r \<in> set (write_set t). (\<exists>s \<in> set (write_set t). wr_tuple s = wr_tuple r \<and> wr_insert s) \<or> lock_free (wheap w) (wr_tuple r)"
    and reads: "reads_stable t (wheap w)" and nodes: "validate_nodes E (absent_set t) (windex w)" 
    and log: "log_ready (wcore w) (write_set t) (wlog w)"
  shows "\<exists>t' w'. commit E doThrow t w = Inr (Return True, t', w')"
proof (cases "write_set t = []")
  case True
  then have "\<forall>r \<in> set (read_set t). \<exists>x. cells (wheap w) (rr_tuple r) = Some x \<and> is_latest_version x (rr_tid r) \<and>
      (\<not> IsWriteIntent (hdr x) \<or> sorted_dbtuples_contains [] (rr_tuple r))" using reads by (auto simp: reads_stable_def)
  then have "validate_reads [] (read_set t) (wheap w) = Inr True" by (rule validate_reads_stable)
  then have "commit E doThrow t w = commit_success E None t w"
    using st ns nodes True by (auto simp: commit_def validate_and_write_def)
  then show ?thesis by (simp add: commit_success_def txn_finish_def Let_def)
next
  case ne: False
  obtain ms ws H where l: "lock_loop [] None False (sorted_infos (write_set t)) (write_set t) (wheap w) = Inr (True, ms, ws, H)"
    using commit_lock_succeeds [OF ne free] by blast
  have ph: "marks (write_set t) ws" "lock_phase (write_set t) (wheap w) True ms H" using commit_lock_phase [OF l ne] by auto
  have "\<forall>i \<in> set ms. cells H (wi_tuple i) \<noteq> None"
  proof
    fix i assume "i \<in> set ms"
    then have "(wi_tuple i, wi_insert i) \<in> (\<lambda>r. (wr_tuple r, wr_insert r)) ` set (write_set t)"
      unfolding phase_pairs [OF ph(2), symmetric] by blast
    then have "cells (wheap w) (wi_tuple i) \<noteq> None" using ok(1) by (auto simp: write_set_ok_def)
    then show "cells H (wi_tuple i) \<noteq> None" using phase_cells [OF ph(2), of "wi_tuple i"] by (simp del: not_None_eq)
  qed
  then obtain vs where vs: "write_versions ms H = Inr vs" using write_versions_returns by blast
  obtain tid ctx where g: "gen_commit_tid (wtid w) (of_nat (wcore w)) (wtick w) (map rr_tid (read_set t)) vs = (tid, ctx)"
    by (cases "gen_commit_tid (wtid w) (of_nat (wcore w)) (wtick w) (map rr_tid (read_set t)) vs")
  note id = commit_id_facts [OF tids ph(2) vs g]
  obtain w1 w2 where w12: "commit_writes E (wtick w) tid ws (w\<lparr>wheap := H, wtid := ctx\<rparr>) = Inr w1" "unlock_infos ms w1 = Inr w2"
      "same_rest (w\<lparr>wtid := ctx\<rparr>) w2"
    using write_and_unlock [OF L id(2) l ph ok db gc id(3), of ctx] by blast
  have "validate_reads ms (read_set t) H = Inr True" by (rule phase_reads_stable [OF ph(2) reads])
  then have "validate_and_write E doThrow (Some tid) ms (t\<lparr>write_set := ws, u_word := wtick w\<rparr>) (w\<lparr>wheap := H, wtid := ctx\<rparr>) =
      commit_success E (Some tid) (t\<lparr>write_set := ws, u_word := wtick w\<rparr>) w2"
    using nodes w12 by (simp add: validate_and_write_def)
  moreover have "commit E doThrow t w =
      validate_and_write E doThrow (Some tid) ms (t\<lparr>write_set := ws, u_word := wtick w\<rparr>) (w\<lparr>wheap := H, wtid := ctx\<rparr>)"
    using st ns ne l vs g by (auto simp: commit_def sorted_infos_def Let_def)
  moreover have "\<exists>L'. on_tid_finish (e_lz4 E) (wcore w2) (wstart_us w2) TXN_COMMITED ws tid (wlog w2) = Inr L'"
    by (rule marked_ready [OF ph(1)]) (use w12(3) log ok(2) in \<open>simp_all add: same_rest_def writes_ok_def\<close>)
  ultimately show ?thesis by (auto simp: commit_success_def txn_finish_def Let_def)
qed

text \<open>
  Property C16 (an undisturbed commit succeeds). Let a transaction on string tables (the writes of \<open>writes_ok\<close>) find that
  nobody holds or has replaced the tuples of its write set, that every read is still the latest version of an unlocked tuple
  and that the scanned nodes have kept their versions. Let logging be off, or on without compression with an entry that
  fits into an empty buffer and a second free buffer (\<open>log_ready\<close>; on the first use of a context this is so for every entry of at most
  a buffer's size). Then commit runs to its end and reports success: no spinning, no fault, no abort.
\<close>

theorem commit_succeeds:
  assumes L: "index_laws (e_ix E) M" and st: "state t = TXN_EMBRYO \<or> state t = TXN_ACTIVE" and ns: "\<not> is_snapshot t"
    and ok: "write_set_ok M (write_set t) w" "writes_ok M (write_set t) w" and tids: "tids_ok t w"
    and db: "db_ok (M (windex w)) (wheap w)" and gc: "gc_ok (wtick w) w"
    and free: "\<forall>r \<in> set (write_set t). (\<exists>s \<in> set (write_set t). wr_tuple s = wr_tuple r \<and> wr_insert s) \<or> lock_free (wheap w) (wr_tuple r)"
    and reads: "reads_stable t (wheap w)" and nodes: "validate_nodes E (absent_set t) (windex w)" 
    and log: "log_ready (wcore w) (write_set t) (wlog w)"
  shows "\<exists>t' w'. commit E doThrow t w = Inr (Return True, t', w')"
  by (rule undisturbed_commit [OF L st ns ok tids db gc free reads nodes log])

text \<open>A transaction that has read the key \<open>[2]\<close>, overwrites it twice and inserts the key \<open>[1]\<close>.\<close>

definition demo_heap :: heap where
  "demo_heap = \<lparr>cells =
     [0 \<mapsto> \<lparr>hdr = 21, tversion = MAX_TID, tsize = 1, alloc_size = 8, tnext = None, value_start = 7 # replicate 7 0\<rparr>,
      1 \<mapsto> \<lparr>hdr = 16, tversion = 5, tsize = 1, alloc_size = 8, tnext = None, value_start = 9 # replicate 7 0\<rparr>],
     brk = 2, raw = (\<lambda>_ _. 0)\<rparr>"

definition demo_keys :: "btree \<Rightarrow> bytes \<Rightarrow> ptr option" where
  "demo_keys b k = (if b = 0 \<and> k = [1] then Some 0 else if b = 0 \<and> k = [2] then Some 1 else None)"

definition demo_world :: "flat_index world" where
  "demo_world = flat_world demo_heap demo_keys 60"

definition demo_txn :: "bytes txn" where
  "demo_txn = \<lparr>state = TXN_ACTIVE, reason = ABORT_REASON_NONE, flags = 0, read_set = [\<lparr>rr_tuple = 1, rr_tid = 5\<rparr>],
     write_set = [new_write_record 1 [2] (Some [8]) string_writer 0 False,
       new_write_record 0 [1] (Some [7]) string_writer 0 True, new_write_record 1 [2] (Some [6, 6]) string_writer 0 False],
     absent_set = [(0, 0)], u_word = 0\<rparr>"

lemma demo_flags: "IsLocked 21" "IsLatest 21" "\<not> IsDeleting 21" "\<not> IsLocked 16" "IsLatest 16" "\<not> IsWriteIntent 16" "\<not> IsDeleting 16"
  unfolding hdr_flag_bits by simp_all

lemmas demo_simps = demo_world_def demo_txn_def demo_heap_def demo_keys_def flat_world_def new_write_record_def demo_flags

lemma demo_db: "db_ok (fst (windex demo_world)) (wheap demo_world)"
proof -
  have h: "heap_ok demo_heap" by (auto simp: heap_ok_def demo_heap_def)
  have c: "chain (cells demo_heap) (Some 0) [0]" "chain (cells demo_heap) (Some 1) [1]" by (simp_all add: demo_heap_def)
  then have at: "chain_at demo_heap 0 = [0]" "chain_at demo_heap 1 = [1]" using chain_at_eq [OF h] by blast+
  have "head_ok x" if "cells demo_heap p = Some x" for p x
    using that by (auto simp: demo_heap_def head_ok_def buffer_ok_def demo_flags split: if_splits)
  moreover have "demo_keys b k = Some p \<Longrightarrow> p = 0 \<and> b = 0 \<and> k = [1] \<or> p = 1 \<and> b = 0 \<and> k = [2]" for b k p
    by (auto simp: demo_keys_def split: if_splits)
  moreover have "cells demo_heap 0 \<noteq> None" "cells demo_heap 1 \<noteq> None" by (simp_all add: demo_heap_def)
  ultimately have "db_ok demo_keys demo_heap"
    unfolding db_ok_def
  proof (intro conjI allI impI)
    fix b k p assume "\<And>p x. cells demo_heap p = Some x \<Longrightarrow> head_ok x"
      and k: "\<And>b k p. demo_keys b k = Some p \<Longrightarrow> p = 0 \<and> b = 0 \<and> k = [1] \<or> p = 1 \<and> b = 0 \<and> k = [2]"
      and al: "cells demo_heap 0 \<noteq> None" "cells demo_heap 1 \<noteq> None" and p: "demo_keys b k = Some p"
    then show "\<exists>x. cells demo_heap p = Some x \<and> head_ok x" by blast
    show "chain (cells demo_heap) (Some p) (chain_at demo_heap p)" using k [OF p] c at by auto
  next
    fix b k p b' k' p'
    assume k: "\<And>b k p. demo_keys b k = Some p \<Longrightarrow> p = 0 \<and> b = 0 \<and> k = [1] \<or> p = 1 \<and> b = 0 \<and> k = [2]"
      and p: "demo_keys b k = Some p \<and> demo_keys b' k' = Some p' \<and> (b, k) \<noteq> (b', k')"
    show "set (chain_at demo_heap p) \<inter> set (chain_at demo_heap p') = {}"
      using k [of b k p] k [of b' k' p'] p at by auto
  qed (rule h)
  then show ?thesis by (simp add: demo_world_def flat_world_def)
qed

lemma demo_writes: "write_set_ok fst (write_set demo_txn) demo_world" "writes_ok fst (write_set demo_txn) demo_world"
  by (simp_all add: write_set_ok_def writes_ok_def demo_simps marker_def plain_write_def value_ok_def fresh_insert_def tuple_value_def)

lemma demo_gc: "gc_ok (wtick demo_world) demo_world"
  by (simp add: gc_ok_def demo_world_def flat_world_def gq_new_ok)

lemma demo_tids: "tids_ok demo_txn demo_world"
  by (auto simp: tids_ok_def written_versions_def demo_simps MAX_TID_def EpochId_bits NumId_bits mask_eq_exp_minus_1 split: if_splits)

lemma demo_started: "state demo_txn = TXN_EMBRYO \<or> state demo_txn = TXN_ACTIVE" "\<not> is_snapshot demo_txn" "write_set demo_txn \<noteq> []"
  by (simp_all add: demo_txn_def is_snapshot_def)

lemma demo_undisturbed:
  "\<forall>r \<in> set (write_set demo_txn). (\<exists>s \<in> set (write_set demo_txn). wr_tuple s = wr_tuple r \<and> wr_insert s) \<or> lock_free (wheap demo_world) (wr_tuple r)"
  "reads_stable demo_txn (wheap demo_world)" "validate_nodes flat_env (absent_set demo_txn) (windex demo_world)"
  "log_ready (wcore demo_world) (write_set demo_txn) (wlog demo_world)"
  by (simp_all add: log_ready_def demo_simps lock_free_def lockable_def latest_at_def reads_stable_def MAX_TID_def is_latest_version_def
      is_not_behind_def flat_env_def flat_ops_def)

text \<open>The same with logging on, at the first use of the core's context.\<close>

definition demo_log :: log_state where
  "demo_log = \<lparr>g_persist = True, g_use_compression = False,
     pctx = \<lparr>p_init = False, horizon = pbuffer_new 0 64, all_buffers = cb_new g_perthread_buffers,
       persist_buffers = cb_new g_perthread_buffers, pbufs = (\<lambda>_. pbuffer_new 0 64)\<rparr>, ntxns_pushed = 0, ntxns_committed = 0\<rparr>"

lemma demo_log_ready: "log_ready core (write_set demo_txn) demo_log"
proof (rule first_use_ready)
  have "cb_ok (cb_new g_perthread_buffers :: nat circbuf)" "cb_abs (cb_new g_perthread_buffers :: nat circbuf) = []"
    using cb_new_ok [of g_perthread_buffers, where 'a = nat] by (simp_all add: g_perthread_buffers_def)
  then show "cb_ok (all_buffers (pctx demo_log))" "cb_ok (persist_buffers (pctx demo_log))"
      "cb_abs (all_buffers (pctx demo_log)) = []" "cb_abs (persist_buffers (pctx demo_log)) = []" by (simp_all add: demo_log_def)
  show "log_space_needed (write_set demo_txn) + 16 \<le> g_buffer_size"
    by (simp add: log_space_needed_def record_space_def key_nbytes_def value_nbytes_def string_writer_def demo_txn_def
        new_write_record_def size_uvint32_unat g_buffer_size_def)
qed (simp_all add: demo_log_def cb_new_def demo_txn_def new_write_record_def)

theorem commit_succeeds_witness:
  "\<exists>t' w'. g_persist demo_log \<and> commit flat_env True demo_txn (demo_world\<lparr>wlog := demo_log\<rparr>) = Inr (Return True, t', w')"
proof -
  let ?w = "demo_world\<lparr>wlog := demo_log\<rparr>"
  have ok: "write_set_ok fst (write_set demo_txn) ?w" "writes_ok fst (write_set demo_txn) ?w"
    using demo_writes by (simp_all add: write_set_ok_def writes_ok_def)
  have tids: "tids_ok demo_txn ?w" using demo_tids by (simp add: tids_ok_def)
  have rest: "db_ok (fst (windex ?w)) (wheap ?w)" "gc_ok (wtick ?w) ?w" using demo_db demo_gc by (simp_all add: gc_ok_def)
  have "\<exists>t' w'. commit flat_env True demo_txn ?w = Inr (Return True, t', w')"
    by (rule commit_succeeds [OF flat_laws demo_started(1,2) ok tids rest])
      (use demo_undisturbed demo_log_ready in simp_all)
  then show ?thesis by (simp add: demo_log_def)
qed

text \<open>The example installs \<open>[6, 6]\<close> under \<open>[2]\<close> and \<open>[7]\<close> under \<open>[1]\<close>, with one id.\<close>

lemma demo_commits: "\<exists>t' w'. commit flat_env True demo_txn demo_world = Inr (Return True, t', w')"
  by (rule undisturbed_commit [OF flat_laws demo_started(1,2) demo_writes demo_tids demo_db demo_gc demo_undisturbed])

theorem commit_installs_witness:
  "\<exists>t' w' tid. commit flat_env True demo_txn demo_world = Inr (Return True, t', w') \<and> EpochId tid = 60 \<and>
    snapshot_of (key_versions (wheap w') (fst (windex w') 0 [2])) tid = (tid, Some [6, 6]) \<and>
    snapshot_of (key_versions (wheap w') (fst (windex w') 0 [1])) tid = (tid, Some [7])"
proof -
  obtain t' w' where c: "commit flat_env True demo_txn demo_world = Inr (Return True, t', w')" using demo_commits by blast
  obtain tid where tid: "EpochId tid = wtick demo_world" "commit_effect fst tid (write_set demo_txn) demo_world w'"
    using commit_installs [OF flat_laws demo_started(1,2) demo_writes demo_tids demo_db demo_gc demo_started(3) c] by blast
  have "last_write (write_set demo_txn) 0 [2] = Some (Some [6, 6])" "last_write (write_set demo_txn) 0 [1] = Some (Some [7])"
    by (simp_all add: demo_simps)
  note lw = this
  have all: "key_effect tid (last_write (write_set demo_txn) b k) (key_versions (wheap demo_world) (fst (windex demo_world) b k))
      (key_versions (wheap w') (fst (windex w') b k))" for b k
    using tid(2) unfolding commit_effect_def by blast
  have s: "snapshot_of (key_versions (wheap w') (fst (windex w') 0 [2])) tid = (tid, Some [6, 6])"
      "snapshot_of (key_versions (wheap w') (fst (windex w') 0 [1])) tid = (tid, Some [7])"
    using all [of 0 "[2]"] all [of 0 "[1]"] unfolding lw key_effect_def option.case installs_def by blast+
  have "EpochId tid = 60" using tid(1) by (simp add: demo_world_def flat_world_def)
  then show ?thesis using c s by blast
qed

end
