(* ===== verification/Txn_Btree.thy ===== *)
theory Txn_Btree
  imports Txn_Install "HOL-Library.List_Lexorder"
begin

text \<open>
  Tables (\<^verbatim>\<open>src/src/base_txn_btree.h\<close> and, for plain strings, \<^verbatim>\<open>src/src/txn_btree.h\<close>): search, put, insert,
  remove and range scans of a transaction on a table, and the destruction of a table.
\<close>

section \<open>Search\<close>

definition do_search ::
  "'ix env \<Rightarrow> bool \<Rightarrow> ('v \<Rightarrow> 'r) \<Rightarrow> (bytes \<Rightarrow> 'r option) \<Rightarrow> btree \<Rightarrow> bytes \<Rightarrow> 'v txn \<Rightarrow> 'ix world \<Rightarrow>
   fault + ('r option outcome \<times> 'v txn \<times> 'ix world)" where
  "do_search E read_own dup reader btr k t w =
     (let t1 = ensure_active t
      in case ix_search (e_ix E) (windex w) btr k of
           (Some p, _) \<Rightarrow> do_tuple_read E read_own dup reader p t1 w
         | (None, n, v) \<Rightarrow>
             sbind (do_node_read E n v t1 w) (\<lambda>(out, t2, w2). Inr (map_outcome (\<lambda>_. None) out, t2, w2)))"

section \<open>Put\<close>

text \<open>
  The loop of \<^verbatim>\<open>do_tree_put\<close>. It looks the key up, tries to insert it when it is absent, and starts again when
  the insertion lost a race; the number of rounds is bounded by fuel.
\<close>

fun put_loop ::
  "nat \<Rightarrow> 'ix env \<Rightarrow> btree \<Rightarrow> bytes \<Rightarrow> 'v option \<Rightarrow> 'v tuple_writer \<Rightarrow> bool \<Rightarrow> 'v txn \<Rightarrow> 'ix world \<Rightarrow>
   fault + (unit outcome \<times> 'v txn \<times> 'ix world)" where
  "put_loop 0 E btr k v W expect_new t w = Inl No_fuel"
| "put_loop (Suc n) E btr k v W expect_new t w =
     sbind (if expect_new then try_insert_new_tuple E btr k v W t w else Inr ((None, False), t, w)) (\<lambda>((px, bad), t1, w1).
       if bad then abort_throw E ABORT_REASON_WRITE_NODE_INTERFERENCE t1 w1
       else case px of
              Some _ \<Rightarrow> Inr (Return (), t1, w1)
            | None \<Rightarrow>
                (case fst (ix_search (e_ix E) (windex w1) btr k) of
                   None \<Rightarrow> put_loop n E btr k v W True t1 w1
                 | Some p \<Rightarrow>
                     Inr (Return (), t1\<lparr>write_set := write_set t1 @ [new_write_record p k v W btr False]\<rparr>, w1)))"

text \<open>While nobody else runs, the second round finds the key or inserts it.\<close>

definition put_rounds :: nat where
  "put_rounds = 2"

definition do_tree_put ::
  "'ix env \<Rightarrow> btree \<Rightarrow> bytes \<Rightarrow> 'v option \<Rightarrow> 'v tuple_writer \<Rightarrow> bool \<Rightarrow> 'v txn \<Rightarrow> 'ix world \<Rightarrow>
   fault + (unit outcome \<times> 'v txn \<times> 'ix world)" where
  "do_tree_put E btr k v W expect_new t w =
     (let t1 = ensure_active t
      in if is_snapshot t1 then abort_throw E ABORT_REASON_USER t1 w
         else put_loop put_rounds E btr k v W expect_new t1 w)"

section \<open>Range scans\<close>

text \<open>
  What the tree reports to its callback during a walk over a range: the nodes it visits with their versions,
  and the keys with their tuples. The walk itself is a parameter.
\<close>

datatype scan_event = Resp_node node u64 | Scan_elem bytes ptr

definition on_resp_node :: "'ix env \<Rightarrow> node \<Rightarrow> u64 \<Rightarrow> 'v txn \<Rightarrow> 'ix world \<Rightarrow> fault + (unit outcome \<times> 'v txn \<times> 'ix world)" where
  "on_resp_node E n v t w = do_node_read E n v t w"

text \<open>\<open>cb\<close> is the caller's callback with its state; the result says whether the walk goes on.\<close>

definition scan_invoke ::
  "'ix env \<Rightarrow> bool \<Rightarrow> ('v \<Rightarrow> 'r) \<Rightarrow> (bytes \<Rightarrow> 'r option) \<Rightarrow> (bytes \<Rightarrow> 'r \<Rightarrow> 's \<Rightarrow> bool \<times> 's) \<Rightarrow> bytes \<Rightarrow> ptr \<Rightarrow>
   's \<Rightarrow> 'v txn \<Rightarrow> 'ix world \<Rightarrow> fault + (bool outcome \<times> 's \<times> 'v txn \<times> 'ix world)" where
  "scan_invoke E read_own dup reader cb k p s t w =
     sbind (do_tuple_read E read_own dup reader p (ensure_active t) w) (\<lambda>(out, t1, w1).
       case out of
         Return (Some r) \<Rightarrow> (case cb k r s of (go, s1) \<Rightarrow> Inr (Return go, s1, t1, w1))
       | Return None \<Rightarrow> Inr (Return True, s, t1, w1)
       | Abort_exn a \<Rightarrow> Inr (Abort_exn a, s, t1, w1)
       | Unusable_exn \<Rightarrow> Inr (Unusable_exn, s, t1, w1))"

fun run_scan ::
  "'ix env \<Rightarrow> bool \<Rightarrow> ('v \<Rightarrow> 'r) \<Rightarrow> (bytes \<Rightarrow> 'r option) \<Rightarrow> (bytes \<Rightarrow> 'r \<Rightarrow> 's \<Rightarrow> bool \<times> 's) \<Rightarrow> scan_event list \<Rightarrow>
   's \<Rightarrow> 'v txn \<Rightarrow> 'ix world \<Rightarrow> fault + (unit outcome \<times> 's \<times> 'v txn \<times> 'ix world)" where
  "run_scan E read_own dup reader cb [] s t w = Inr (Return (), s, t, w)"
| "run_scan E read_own dup reader cb (Resp_node n v # es) s t w =
     sbind (on_resp_node E n v t w) (\<lambda>(out, t1, w1).
       case out of
         Return _ \<Rightarrow> run_scan E read_own dup reader cb es s t1 w1
       | Abort_exn a \<Rightarrow> Inr (Abort_exn a, s, t1, w1)
       | Unusable_exn \<Rightarrow> Inr (Unusable_exn, s, t1, w1))"
| "run_scan E read_own dup reader cb (Scan_elem k p # es) s t w =
     sbind (scan_invoke E read_own dup reader cb k p s t w) (\<lambda>(out, s1, t1, w1).
       case out of
         Return go \<Rightarrow> if go then run_scan E read_own dup reader cb es s1 t1 w1 else Inr (Return (), s1, t1, w1)
       | Abort_exn a \<Rightarrow> Inr (Abort_exn a, s1, t1, w1)
       | Unusable_exn \<Rightarrow> Inr (Unusable_exn, s1, t1, w1))"

type_synonym 'ix tree_walk = "'ix \<Rightarrow> btree \<Rightarrow> bytes \<Rightarrow> bytes option \<Rightarrow> scan_event list"

definition do_search_range_call ::
  "'ix env \<Rightarrow> 'ix tree_walk \<Rightarrow> bool \<Rightarrow> ('v \<Rightarrow> 'r) \<Rightarrow> (bytes \<Rightarrow> 'r option) \<Rightarrow> (bytes \<Rightarrow> 'r \<Rightarrow> 's \<Rightarrow> bool \<times> 's) \<Rightarrow> btree \<Rightarrow>
   bytes \<Rightarrow> bytes option \<Rightarrow> 's \<Rightarrow> 'v txn \<Rightarrow> 'ix world \<Rightarrow> fault + (unit outcome \<times> 's \<times> 'v txn \<times> 'ix world)" where
  "do_search_range_call E twalk read_own dup reader cb btr lower upper s t w =
     (let t1 = ensure_active t
      in if (case upper of None \<Rightarrow> False | Some u \<Rightarrow> u \<le> lower) then Inr (Return (), s, t1, w)
         else run_scan E read_own dup reader cb (twalk (windex w) btr lower upper) s t1 w)"

text \<open>The reverse walk starts at the upper key.\<close>

definition do_rsearch_range_call ::
  "'ix env \<Rightarrow> 'ix tree_walk \<Rightarrow> bool \<Rightarrow> ('v \<Rightarrow> 'r) \<Rightarrow> (bytes \<Rightarrow> 'r option) \<Rightarrow> (bytes \<Rightarrow> 'r \<Rightarrow> 's \<Rightarrow> bool \<times> 's) \<Rightarrow> btree \<Rightarrow>
   bytes \<Rightarrow> bytes option \<Rightarrow> 's \<Rightarrow> 'v txn \<Rightarrow> 'ix world \<Rightarrow> fault + (unit outcome \<times> 's \<times> 'v txn \<times> 'ix world)" where
  "do_rsearch_range_call E rwalk read_own dup reader cb btr upper lower s t w =
     (let t1 = ensure_active t
      in if (case lower of None \<Rightarrow> False | Some l \<Rightarrow> upper \<le> l) then Inr (Return (), s, t1, w)
         else run_scan E read_own dup reader cb (rwalk (windex w) btr upper lower) s t1 w)"

section \<open>Destruction of a table\<close>

definition mark_deleting :: "ptr \<Rightarrow> heap \<Rightarrow> fault + heap" where
  "mark_deleting p H =
     sbind (lift_mem (tuple_at H p)) (\<lambda>x. Inr (tuple_put p (x\<lparr>hdr := mark_deleting_hdr (hdr x)\<rparr>) H))"

text \<open>\<^verbatim>\<open>on_node_success\<close> for the values of one node: live tuples are retired, deleted ones are on the queue.\<close>

fun purge_values :: "ptr list \<Rightarrow> 'ix world \<Rightarrow> fault + 'ix world" where
  "purge_values [] w = Inr w"
| "purge_values (p # ps) w =
     sbind (lift_mem (tuple_at (wheap w) p)) (\<lambda>x.
       if IsDeleting (hdr x) then purge_values ps w
       else sbind (clear_latest p (wheap w)) (\<lambda>H1.
            sbind (mark_deleting p H1) (\<lambda>H2. purge_values ps (w\<lparr>wheap := H2, wrcu := wrcu w @ [p]\<rparr>))))"

text \<open>A visit of the walk: the values extracted from a node, and whether its version was unchanged.\<close>

fun purge_walk :: "(ptr list \<times> bool) list \<Rightarrow> 'ix world \<Rightarrow> fault + 'ix world" where
  "purge_walk [] w = Inr w"
| "purge_walk ((vals, same) # vs) w =
     (if same then sbind (purge_values vals w) (\<lambda>w1. purge_walk vs w1) else purge_walk vs w)"

definition unsafe_purge ::
  "('ix \<Rightarrow> btree \<Rightarrow> (ptr list \<times> bool) list) \<Rightarrow> ('ix \<Rightarrow> btree \<Rightarrow> 'ix) \<Rightarrow> btree \<Rightarrow> bool \<Rightarrow> 'ix world \<Rightarrow> fault + (bool \<times> 'ix world)" where
  "unsafe_purge tree_walk clear btr been_destructed w =
     (if been_destructed then Inl (Mem Assert_failed)
      else sbind (purge_walk (tree_walk (windex w) btr) w) (\<lambda>w1. Inr (True, w1\<lparr>windex := clear (windex w1) btr\<rparr>)))"

section \<open>Tables of plain strings\<close>

definition single_value_reader :: "nat \<Rightarrow> bytes \<Rightarrow> bytes option" where
  "single_value_reader max_bytes_read data = Some (take (min (length data) max_bytes_read) data)"

definition single_value_dup :: "bytes \<Rightarrow> bytes" where
  "single_value_dup v = v"

definition string_search ::
  "'ix env \<Rightarrow> bool \<Rightarrow> nat \<Rightarrow> btree \<Rightarrow> bytes \<Rightarrow> bytes txn \<Rightarrow> 'ix world \<Rightarrow> fault + (bytes option outcome \<times> bytes txn \<times> 'ix world)" where
  "string_search E read_own max_bytes_read btr k t w =
     do_search E read_own single_value_dup (single_value_reader max_bytes_read) btr k t w"

definition string_search_range_call ::
  "'ix env \<Rightarrow> 'ix tree_walk \<Rightarrow> bool \<Rightarrow> nat \<Rightarrow> (bytes \<Rightarrow> bytes \<Rightarrow> 's \<Rightarrow> bool \<times> 's) \<Rightarrow> btree \<Rightarrow>
   bytes \<Rightarrow> bytes option \<Rightarrow> 's \<Rightarrow> bytes txn \<Rightarrow> 'ix world \<Rightarrow> fault + (unit outcome \<times> 's \<times> bytes txn \<times> 'ix world)" where
  "string_search_range_call E twalk read_own max_bytes_read cb btr lower upper s t w =
     do_search_range_call E twalk read_own single_value_dup (single_value_reader max_bytes_read) cb btr lower upper s t w"

definition string_rsearch_range_call ::
  "'ix env \<Rightarrow> 'ix tree_walk \<Rightarrow> bool \<Rightarrow> nat \<Rightarrow> (bytes \<Rightarrow> bytes \<Rightarrow> 's \<Rightarrow> bool \<times> 's) \<Rightarrow> btree \<Rightarrow>
   bytes \<Rightarrow> bytes option \<Rightarrow> 's \<Rightarrow> bytes txn \<Rightarrow> 'ix world \<Rightarrow> fault + (unit outcome \<times> 's \<times> bytes txn \<times> 'ix world)" where
  "string_rsearch_range_call E rwalk read_own max_bytes_read cb btr upper lower s t w =
     do_rsearch_range_call E rwalk read_own single_value_dup (single_value_reader max_bytes_read) cb btr upper lower s t w"

definition string_put ::
  "'ix env \<Rightarrow> btree \<Rightarrow> bytes \<Rightarrow> bytes \<Rightarrow> bytes txn \<Rightarrow> 'ix world \<Rightarrow> fault + (unit outcome \<times> bytes txn \<times> 'ix world)" where
  "string_put E btr k v t w = do_tree_put E btr k (Some v) string_writer False t w"

definition string_insert ::
  "'ix env \<Rightarrow> btree \<Rightarrow> bytes \<Rightarrow> bytes \<Rightarrow> bytes txn \<Rightarrow> 'ix world \<Rightarrow> fault + (unit outcome \<times> bytes txn \<times> 'ix world)" where
  "string_insert E btr k v t w = do_tree_put E btr k (Some v) string_writer True t w"

text \<open>\<^verbatim>\<open>stablize(t, p, sz)\<close>: no bytes become the null pointer.\<close>

definition stablize_bytes :: "bytes \<Rightarrow> bytes option" where
  "stablize_bytes s = (if length s = 0 then None else Some s)"

definition string_insert_bytes ::
  "'ix env \<Rightarrow> btree \<Rightarrow> bytes \<Rightarrow> bytes \<Rightarrow> bytes txn \<Rightarrow> 'ix world \<Rightarrow> fault + (unit outcome \<times> bytes txn \<times> 'ix world)" where
  "string_insert_bytes E btr k v t w = do_tree_put E btr k (stablize_bytes v) string_writer True t w"

definition string_remove ::
  "'ix env \<Rightarrow> btree \<Rightarrow> bytes \<Rightarrow> bytes txn \<Rightarrow> 'ix world \<Rightarrow> fault + (unit outcome \<times> bytes txn \<times> 'ix world)" where
  "string_remove E btr k t w = do_tree_put E btr k None string_writer False t w"

end
