(* ===== verification/Txn_Run.thy ===== *)
theory Txn_Run
  imports Txn_Btree
begin

text \<open>
  Whole transactions on tables of plain strings: a sequence of calls followed by a commit or an abort, against
  a specification on the values of the keys.
\<close>

section \<open>Calls of a transaction\<close>

datatype call = Search btree bytes | Put btree bytes bytes | Insert btree bytes bytes | Remove btree bytes

text \<open>One call, with what it returned for a search; \<^verbatim>\<open>read_own_writes\<close> is on, as in the default traits.\<close>

definition no_limit :: nat where
  "no_limit = 2 ^ 64 - 1"

fun run_call ::
  "'ix env \<Rightarrow> call \<Rightarrow> bytes txn \<Rightarrow> 'ix world \<Rightarrow> fault + (bytes option list outcome \<times> bytes txn \<times> 'ix world)" where
  "run_call E (Search b k) t w =
     sbind (string_search E True no_limit b k t w) (\<lambda>(out, t1, w1). Inr (map_outcome (\<lambda>r. [r]) out, t1, w1))"
| "run_call E (Put b k v) t w = sbind (string_put E b k v t w) (\<lambda>(out, t1, w1). Inr (map_outcome (\<lambda>_. []) out, t1, w1))"
| "run_call E (Insert b k v) t w = sbind (string_insert E b k v t w) (\<lambda>(out, t1, w1). Inr (map_outcome (\<lambda>_. []) out, t1, w1))"
| "run_call E (Remove b k) t w = sbind (string_remove E b k t w) (\<lambda>(out, t1, w1). Inr (map_outcome (\<lambda>_. []) out, t1, w1))"

text \<open>A sequence of calls; an exception ends it.\<close>

fun run_calls ::
  "'ix env \<Rightarrow> call list \<Rightarrow> bytes txn \<Rightarrow> 'ix world \<Rightarrow> fault + (bytes option list outcome \<times> bytes txn \<times> 'ix world)" where
  "run_calls E [] t w = Inr (Return [], t, w)"
| "run_calls E (c # cs) t w =
     sbind (run_call E c t w) (\<lambda>(out, t1, w1).
       case out of
         Return rs \<Rightarrow>
           sbind (run_calls E cs t1 w1) (\<lambda>(out2, t2, w2). Inr (map_outcome (\<lambda>rs2. rs @ rs2) out2, t2, w2))
       | e \<Rightarrow> Inr (e, t1, w1))"

section \<open>Specification\<close>

text \<open>
  The writes of the calls, in order, and what the searches are to return: the value of the database, or, for a key the
  transaction has written before, its latest uncommitted value, as \<^verbatim>\<open>src/src/txn.h\<close> documents \<^verbatim>\<open>read_own_writes\<close>.
\<close>

fun writes_of :: "call list \<Rightarrow> ((btree \<times> bytes) \<times> bytes option) list" where
  "writes_of [] = []"
| "writes_of (Search b k # cs) = writes_of cs"
| "writes_of (Put b k v # cs) = ((b, k), Some v) # writes_of cs"
| "writes_of (Insert b k v # cs) = ((b, k), Some v) # writes_of cs"
| "writes_of (Remove b k # cs) = ((b, k), None) # writes_of cs"

fun spec_results ::
  "(btree \<Rightarrow> bytes \<Rightarrow> bytes option) \<Rightarrow> ((btree \<times> bytes) \<times> bytes option) list \<Rightarrow> call list \<Rightarrow> bytes option list" where
  "spec_results db ws [] = []"
| "spec_results db ws (Search b k # cs) =
     (case map_of (rev ws) (b, k) of None \<Rightarrow> db b k | Some v \<Rightarrow> v) # spec_results db ws cs"
| "spec_results db ws (c # cs) = spec_results db (ws @ writes_of [c]) cs"

text \<open>
  The code returns the \<^emph>\<open>first\<close> own write instead. The two agree on transactions that search no key after having written it
  more than once.
\<close>

fun seen_results ::
  "(btree \<Rightarrow> bytes \<Rightarrow> bytes option) \<Rightarrow> ((btree \<times> bytes) \<times> bytes option) list \<Rightarrow> call list \<Rightarrow> bytes option list" where
  "seen_results db ws [] = []"
| "seen_results db ws (Search b k # cs) =
     (case map_of ws (b, k) of None \<Rightarrow> db b k | Some v \<Rightarrow> v) # seen_results db ws cs"
| "seen_results db ws (c # cs) = seen_results db (ws @ writes_of [c]) cs"

fun reads_settled :: "((btree \<times> bytes) \<times> bytes option) list \<Rightarrow> call list \<Rightarrow> bool" where
  "reads_settled ws [] \<longleftrightarrow> True"
| "reads_settled ws (Search b k # cs) \<longleftrightarrow> length (filter (\<lambda>kv. fst kv = (b, k)) ws) \<le> 1 \<and> reads_settled ws cs"
| "reads_settled ws (c # cs) \<longleftrightarrow> reads_settled (ws @ writes_of [c]) cs"

lemma map_of_rev_single: "length (filter (\<lambda>kv. fst kv = x) ws) \<le> 1 \<Longrightarrow> map_of (rev ws) x = map_of ws x"
proof (induction ws)
  case (Cons kv ws)
  have "map_of (rev ws) x = None" if "filter (\<lambda>kv. fst kv = x) ws = []"
    using that by (auto simp: map_of_eq_None_iff filter_empty_conv)
  then show ?case using Cons by (cases kv) (auto simp: map_add_def split: option.splits)
qed simp

lemma seen_settled: "reads_settled ws cs \<Longrightarrow> seen_results db ws cs = spec_results db ws cs"
  by (induction db ws cs rule: spec_results.induct) (simp_all add: map_of_rev_single)

fun call_ok :: "call \<Rightarrow> bool" where
  "call_ok (Search b k) \<longleftrightarrow> True"
| "call_ok (Put b k v) \<longleftrightarrow> v \<noteq> [] \<and> length v \<le> 65535"
| "call_ok (Insert b k v) \<longleftrightarrow> v \<noteq> [] \<and> length v \<le> 65535"
| "call_ok (Remove b k) \<longleftrightarrow> True"

section \<open>Growing databases\<close>

text \<open>Fresh memory does not change what the keys lead to; a new key gets a chain of its own.\<close>

definition grows :: "heap \<Rightarrow> heap \<Rightarrow> bool" where
  "grows H H' \<longleftrightarrow> heap_ok H' \<and> brk H \<le> brk H' \<and> (\<forall>p < brk H. cells H' p = cells H p)"

lemma grows_refl: "heap_ok H \<Longrightarrow> grows H H"
  by (simp add: grows_def)

lemma grows_trans: "grows H1 H2 \<Longrightarrow> grows H2 H3 \<Longrightarrow> grows H1 H3"
  by (auto simp: grows_def)

lemma grows_chain:
  assumes "db_ok m H" and "grows H H'" and "m b k = Some p"
  shows "chain (cells H') (Some p) (chain_at H p)" and "chain_at H' p = chain_at H p" and "cells H' p = cells H p"
    and "versions (cells H') (chain_at H p) = versions (cells H) (chain_at H p)" and "\<forall>q \<in> set (chain_at H p). q < brk H"
proof -
  note d = db_okD [OF assms(1,3)]
  show lt: "\<forall>q \<in> set (chain_at H p). q < brk H" using chain_below_brk [OF d(1,2)] by blast
  then have same: "q \<in> set (chain_at H p) \<Longrightarrow> cells H' q = cells H q" for q using assms(2) by (auto simp: grows_def)
  show c: "chain (cells H') (Some p) (chain_at H p)" 
    using d(2) chain_cong [of "chain_at H p" "cells H'" "cells H" "Some p", OF same] by blast
  show "chain_at H' p = chain_at H p" by (rule chain_at_eq [OF _ c]) (use assms(2) in \<open>simp add: grows_def\<close>)
  show "cells H' p = cells H p" by (rule same [OF d(4)])
  show "versions (cells H') (chain_at H p) = versions (cells H) (chain_at H p)" by (rule versions_cong, rule same)
qed

lemma db_ok_grows:
  assumes db: "db_ok m H" and g: "grows H H'"
  shows "db_ok m H'" and "key_versions H' (m b k) = key_versions H (m b k)"
proof -
  show "db_ok m H'"
    unfolding db_ok_def
  proof (intro conjI allI impI)
    show "heap_ok H'" using g by (simp add: grows_def)
    fix b k p assume p: "m b k = Some p"
    show "chain (cells H') (Some p) (chain_at H' p)" using grows_chain(1,2) [OF db g p] by simp
    show "\<exists>x. cells H' p = Some x \<and> head_ok x" using db_okD(3) [OF db p] grows_chain(3) [OF db g p] by simp
  next
    fix b k p b' k' p' assume a: "m b k = Some p \<and> m b' k' = Some p' \<and> (b, k) \<noteq> (b', k')"
    then show "set (chain_at H' p) \<inter> set (chain_at H' p') = {}"
      using grows_chain(2) [OF db g] db_okD(5) [OF db, of b k p b' k' p'] by auto
  qed
  show "key_versions H' (m b k) = key_versions H (m b k)"
    using grows_chain(2,4) [OF db g] by (cases "m b k") (auto simp: key_versions_def)
qed

lemma db_ok_new_key:
  assumes db: "db_ok m H" and g: "grows H H'" and new: "m b k = None" "brk H \<le> p"
    and x: "cells H' p = Some x" "head_ok x" "tnext x = None"
  shows "db_ok (upd_key b k (Some p) m) H'" and "chain_at H' p = [p]"
proof -
  have ho: "heap_ok H'" using g by (simp add: grows_def)
  show at: "chain_at H' p = [p]" using x(1,3) by (intro chain_at_eq [OF ho]) simp
  have old: "m b' k' = Some q" "(b', k') \<noteq> (b, k)" if "upd_key b k (Some p) m b' k' = Some q" "q \<noteq> p" for b' k' q
    using that by (auto simp: upd_key_def split: if_splits)
  have ne: "q \<noteq> p" "p \<notin> set (chain_at H' q)" if "m b' k' = Some q" for b' k' q
    using grows_chain(2,5) [OF db g that] db_okD(4) [OF db that] new(2) by auto
  have cs: "(b', k') = (b, k) \<and> q = p \<or> (b', k') \<noteq> (b, k) \<and> m b' k' = Some q" if "upd_key b k (Some p) m b' k' = Some q" for b' k' q
    using that by (auto simp: upd_key_def split: if_splits)
  note db' = db_ok_grows(1) [OF db g]
  show "db_ok (upd_key b k (Some p) m) H'"
    unfolding db_ok_def
  proof (intro conjI allI impI)
    show "heap_ok H'" by (rule ho)
    fix b' k' q assume q: "upd_key b k (Some p) m b' k' = Some q"
    show "chain (cells H') (Some q) (chain_at H' q)" "\<exists>x. cells H' q = Some x \<and> head_ok x"
      using cs [OF q] x at db_okD(2,3) [OF db'] by auto
  next
    fix b1 k1 q1 b2 k2 q2
    assume a: "upd_key b k (Some p) m b1 k1 = Some q1 \<and> upd_key b k (Some p) m b2 k2 = Some q2 \<and> (b1, k1) \<noteq> (b2, k2)"
    show "set (chain_at H' q1) \<inter> set (chain_at H' q2) = {}"
    proof (cases "q1 = p \<or> q2 = p")
      case True
      then show ?thesis using a cs [of b1 k1 q1] cs [of b2 k2 q2] ne at by auto
    next
      case False
      then show ?thesis using a old [of b1 k1 q1] old [of b2 k2 q2] db_okD(5) [OF db', of b1 k1 q1 b2 k2 q2] by auto
    qed
  qed
qed

section \<open>Reads\<close>

lemma frozen_reader_version:
  "M p = Some x \<Longrightarrow> reader_stable_version n (\<lambda>_. M) \<tau> p awi = Inr (Some (v, \<tau>')) \<Longrightarrow> v = hdr x"
  by (induction n arbitrary: \<tau>) (auto simp: load_def Let_def split: if_splits)

lemma frozen_reader_no_error: "M p = Some x \<Longrightarrow> reader_stable_version n (\<lambda>_. M) \<tau> p awi \<noteq> Inl e"
  by (induction n arbitrary: \<tau>) (auto simp: load_def Let_def)

text \<open>A read of the newest version, if it returns, has seen the tuple as it is.\<close>

lemma frozen_read_latest:
  assumes M: "M p = Some x" "tuple_wf x" and r: "\<And>bs. reader bs \<noteq> None"
    and s: "stable_read n (\<lambda>_. M) \<tau> p MAX_TID reader awi = Inr (Some (stat, start_t, res, \<tau>'))"
  shows "(stat, start_t, res) = (if tversion x = MAX_TID then (READ_EMPTY, MIN_TID, None)
    else (case tuple_value x of None \<Rightarrow> READ_EMPTY | Some _ \<Rightarrow> READ_RECORD, tversion x, Option.bind (tuple_value x) reader))"
proof (cases "tversion x = MAX_TID")
  case True
  then show ?thesis using s M(1) by (simp add: stable_read_def load_def)
next
  case False
  then have rec: "record_at_chain n (\<lambda>_. M) (Suc \<tau>) p MAX_TID reader awi = Inr (Some (stat, start_t, res, \<tau>'))"
    using s M(1) by (simp add: stable_read_def load_def)
  then obtain n' where n: "n = Suc n'" by (cases n) auto
  obtain v \<tau>1 where v: "reader_stable_version n (\<lambda>_. M) (Suc \<tau>) p awi = Inr (Some (v, \<tau>1))"
    using rec n frozen_reader_no_error [where M = M, OF M(1)]
    by (cases "reader_stable_version n (\<lambda>_. M) (Suc \<tau>) p awi") (auto split: option.splits)
  have "v = hdr x" by (rule frozen_reader_version [where M = M, OF M(1) v])
  then show ?thesis
    using rec v n False visit_frozen [where M = M, OF M r, of \<tau>1 MAX_TID]
    by (auto simp: MAX_TID_def split: option.splits)
qed

lemma tuple_value_length: "tuple_value x = Some v \<Longrightarrow> length v \<le> 65535"
proof -
  assume "tuple_value x = Some v"
  then have "v = take (unat (tsize x)) (value_start x)" by (auto simp: tuple_value_def Let_def split: if_splits)
  moreover have "unat (tsize x) < 2 ^ 16" using unsigned_less [of "tsize x", where ?'a = nat] by simp
  ultimately show "length v \<le> 65535" by simp
qed

lemma no_limit_reader: "length v \<le> 65535 \<Longrightarrow> single_value_reader no_limit v = Some v"
  by (simp add: single_value_reader_def no_limit_def)

section \<open>The invariant of a running transaction\<close>

text \<open>
  The world a transaction starts in: a well-formed database without unfinished inserts, whose versions leave
  room for the next id.
\<close>

definition tid_room :: "u64 \<Rightarrow> u64 \<Rightarrow> bool" where
  "tid_room tick u \<longleftrightarrow> EpochId u \<le> tick \<and> (EpochId u = tick \<longrightarrow> unat (NumId u) < 16777215)"

definition start_ok :: "('ix \<Rightarrow> btree \<Rightarrow> bytes \<Rightarrow> ptr option) \<Rightarrow> 'ix world \<Rightarrow> bool" where
  "start_ok M w \<longleftrightarrow>
     db_ok (M (windex w)) (wheap w) \<and> gc_ok (wtick w) w \<and> wcore w < 512 \<and> unat (wtick w) < 2147483648 \<and>
     tid_room (wtick w) (last_commit_tid (wtid w)) \<and>
     (\<forall>b k p x. M (windex w) b k = Some p \<and> cells (wheap w) p = Some x \<longrightarrow>
        tversion x \<noteq> MAX_TID \<and> tversion x \<noteq> 0 \<and> tid_room (wtick w) (tversion x))"

definition db_value :: "('ix \<Rightarrow> btree \<Rightarrow> bytes \<Rightarrow> ptr option) \<Rightarrow> 'ix world \<Rightarrow> btree \<Rightarrow> bytes \<Rightarrow> bytes option" where
  "db_value M w b k =
     (case M (windex w) b k of None \<Rightarrow> None | Some p \<Rightarrow> Option.bind (cells (wheap w) p) tuple_value)"

definition rec_key :: "'v write_record \<Rightarrow> btree \<times> bytes" where
  "rec_key r = (wr_btr r, wr_key r)"

text \<open>
  The state after some calls, relative to the start: the database grew by the inserts of the transaction only,
  and the write set lists the writes \<open>wl\<close> in order.
\<close>

definition txn_inv ::
  "('ix \<Rightarrow> btree \<Rightarrow> bytes \<Rightarrow> ptr option) \<Rightarrow> 'ix world \<Rightarrow> ((btree \<times> bytes) \<times> bytes option) list \<Rightarrow> bytes txn \<Rightarrow> 'ix world \<Rightarrow> bool" where
  "txn_inv M w0 wl t w \<longleftrightarrow>
     (state t = TXN_EMBRYO \<or> state t = TXN_ACTIVE) \<and> \<not> is_snapshot t \<and>
     map (\<lambda>r. (rec_key r, wr_value r)) (write_set t) = wl \<and>
     db_ok (M (windex w)) (wheap w) \<and> write_set_ok M (write_set t) w \<and> writes_ok M (write_set t) w \<and>
     (\<forall>r \<in> set (write_set t). M (windex w) (wr_btr r) (wr_key r) = Some (wr_tuple r)) \<and>
     (\<forall>b k. M (windex w0) b k = (if \<exists>r \<in> set (write_set t). wr_insert r \<and> rec_key r = (b, k) then None else M (windex w) b k)) \<and>
     grows (wheap w0) (wheap w) \<and>
     (\<forall>q. brk (wheap w0) \<le> q \<longrightarrow> (cells (wheap w) q \<noteq> None \<longleftrightarrow> (\<exists>r \<in> set (write_set t). wr_insert r \<and> wr_tuple r = q))) \<and>
     (\<forall>r \<in> set (write_set t). wr_insert r \<longrightarrow> brk (wheap w0) \<le> wr_tuple r) \<and>
     (\<forall>r \<in> set (read_set t). rr_tid r = MIN_TID \<or> tid_room (wtick w0) (rr_tid r)) \<and>
     w = w0\<lparr>wheap := wheap w, windex := windex w\<rparr>"

lemma txn_invD:
  assumes "txn_inv M w0 wl t w"
  shows "state t = TXN_EMBRYO \<or> state t = TXN_ACTIVE" and "\<not> is_snapshot t"
    and "map (\<lambda>r. (rec_key r, wr_value r)) (write_set t) = wl"
    and "db_ok (M (windex w)) (wheap w)" and "write_set_ok M (write_set t) w" and "writes_ok M (write_set t) w"
    and "\<And>r. r \<in> set (write_set t) \<Longrightarrow> M (windex w) (wr_btr r) (wr_key r) = Some (wr_tuple r)"
    and "\<And>b k. M (windex w0) b k = (if \<exists>r \<in> set (write_set t). wr_insert r \<and> rec_key r = (b, k) then None else M (windex w) b k)"
    and "grows (wheap w0) (wheap w)"
    and "\<And>q. brk (wheap w0) \<le> q \<Longrightarrow> cells (wheap w) q \<noteq> None \<longleftrightarrow> (\<exists>r \<in> set (write_set t). wr_insert r \<and> wr_tuple r = q)"
    and "\<And>r. r \<in> set (write_set t) \<Longrightarrow> wr_insert r \<Longrightarrow> brk (wheap w0) \<le> wr_tuple r"
    and "\<And>r. r \<in> set (read_set t) \<Longrightarrow> rr_tid r = MIN_TID \<or> tid_room (wtick w0) (rr_tid r)"
    and "w = w0\<lparr>wheap := wheap w, windex := windex w\<rparr>"
  using assms unfolding txn_inv_def by blast+

lemma txn_invI:
  assumes "state t = TXN_EMBRYO \<or> state t = TXN_ACTIVE" and "\<not> is_snapshot t"
    and "map (\<lambda>r. (rec_key r, wr_value r)) (write_set t) = wl"
    and "db_ok (M (windex w)) (wheap w)" and "write_set_ok M (write_set t) w" and "writes_ok M (write_set t) w"
    and "\<And>r. r \<in> set (write_set t) \<Longrightarrow> M (windex w) (wr_btr r) (wr_key r) = Some (wr_tuple r)"
    and "\<And>b k. M (windex w0) b k = (if \<exists>r \<in> set (write_set t). wr_insert r \<and> rec_key r = (b, k) then None else M (windex w) b k)"
    and "grows (wheap w0) (wheap w)"
    and "\<And>q. brk (wheap w0) \<le> q \<Longrightarrow> cells (wheap w) q \<noteq> None \<longleftrightarrow> (\<exists>r \<in> set (write_set t). wr_insert r \<and> wr_tuple r = q)"
    and "\<And>r. r \<in> set (write_set t) \<Longrightarrow> wr_insert r \<Longrightarrow> brk (wheap w0) \<le> wr_tuple r"
    and "\<And>r. r \<in> set (read_set t) \<Longrightarrow> rr_tid r = MIN_TID \<or> tid_room (wtick w0) (rr_tid r)"
    and "w = w0\<lparr>wheap := wheap w, windex := windex w\<rparr>"
  shows "txn_inv M w0 wl t w"
  using assms unfolding txn_inv_def by blast

lemma txn_inv_same:
  assumes "txn_inv M w0 wl t w" and "state t' = TXN_EMBRYO \<or> state t' = TXN_ACTIVE" and "is_snapshot t' = is_snapshot t"
    and "write_set t' = write_set t"
    and "\<forall>r \<in> set (read_set t'). r \<in> set (read_set t) \<or> rr_tid r = MIN_TID \<or> tid_room (wtick w0) (rr_tid r)"
  shows "txn_inv M w0 wl t' w"
  using assms unfolding txn_inv_def by auto

lemma txn_inv_start:
  assumes "start_ok M w"
  shows "txn_inv M w [] (transaction_proto2 u tick_ex 0) w"
proof -
  have "db_ok (M (windex w)) (wheap w)" using assms by (simp add: start_ok_def)
  moreover from this have "heap_ok (wheap w)" by (simp add: db_ok_def)
  ultimately show ?thesis
    by (simp add: txn_inv_def transaction_proto2_def is_snapshot_def write_set_ok_def writes_ok_def grows_refl)
       (auto simp: heap_ok_def)
qed

lemma ensure_active_inv:
  assumes "txn_inv M w0 wl t w"
  shows "txn_inv M w0 wl (ensure_active t) w"
  by (rule txn_inv_same [OF assms]) (use txn_invD(1) [OF assms] in \<open>auto simp: ensure_active_def is_snapshot_def\<close>)

text \<open>A tuple belongs to one key.\<close>

lemma db_key_unique:
  assumes "db_ok m H" and "m b k = Some p" and "m b' k' = Some p"
  shows "(b, k) = (b', k')"
proof (rule ccontr)
  assume "(b, k) \<noteq> (b', k')"
  then show False using db_okD(4) [OF assms(1,2)] db_okD(5) [OF assms(1,2,3)] by auto
qed

lemma own_write:
  assumes inv: "txn_inv M w0 wl t w" and p: "M (windex w) b k = Some p"
  shows "map_option wr_value (find_write_set p (write_set t)) = map_of wl (b, k)"
proof -
  have "map_option wr_value (find_write_set p ws) = map_of (map (\<lambda>r. (rec_key r, wr_value r)) ws) (b, k)"
    if "set ws \<subseteq> set (write_set t)" for ws
    using that
  proof (induction ws)
    case (Cons r ws)
    have r: "M (windex w) (wr_btr r) (wr_key r) = Some (wr_tuple r)" using Cons.prems txn_invD(7) [OF inv] by simp
    have "wr_tuple r = p \<longleftrightarrow> rec_key r = (b, k)"
    proof
      assume "wr_tuple r = p"
      then show "rec_key r = (b, k)"
        using db_key_unique [where m = "M (windex w)", OF txn_invD(4) [OF inv] r] p by (simp add: rec_key_def)
    qed (use r p in \<open>simp add: rec_key_def\<close>)
    then show ?case using Cons by simp
  qed simp
  then show ?thesis using txn_invD(3) [OF inv] by auto
qed

lemma no_own_write:
  assumes inv: "txn_inv M w0 wl t w" and p: "M (windex w) b k = None"
  shows "map_of wl (b, k) = None" and "M (windex w0) b k = None"
proof -
  have "rec_key r \<noteq> (b, k)" if "r \<in> set (write_set t)" for r
    using txn_invD(7) [OF inv that] p by (auto simp: rec_key_def)
  then show "map_of wl (b, k) = None" using txn_invD(3) [OF inv] by (force simp: map_of_eq_None_iff)
  show "M (windex w0) b k = None" using txn_invD(8) [OF inv, of b k] p by simp
qed

section \<open>The calls keep the invariant\<close>

text \<open>What holds after a call: the specified results and the invariant, or an abort out of a state that had it.\<close>

definition call_post ::
  "'ix env \<Rightarrow> ('ix \<Rightarrow> btree \<Rightarrow> bytes \<Rightarrow> ptr option) \<Rightarrow> 'ix world \<Rightarrow> ((btree \<times> bytes) \<times> bytes option) list \<Rightarrow> 'r \<Rightarrow>
   'r outcome \<Rightarrow> bytes txn \<Rightarrow> 'ix world \<Rightarrow> bool" where
  "call_post E M w0 wl res out t' w' \<longleftrightarrow>
     (case out of
        Return rs \<Rightarrow> rs = res \<and> txn_inv M w0 wl t' w'
      | Abort_exn a \<Rightarrow> \<exists>wl1 t1 w1. txn_inv M w0 wl1 t1 w1 \<and> abort_impl E a t1 w1 = Inr (Return (), t', w')
      | Unusable_exn \<Rightarrow> False)"

lemma abort_post:
  assumes "txn_inv M w0 wl1 t w" and "abort_throw E a t w = Inr (out, t', w')"
  shows "call_post E M w0 wl res out t' w'"
proof -
  obtain w1 where "release_inserts E (write_set t) w = Inr w1"
      "abort_impl E a t w = Inr (Return (), t\<lparr>state := TXN_ABRT, reason := a\<rparr>, w1)"
    using assms(2) txn_invD(1) [OF assms(1)] by (auto simp: abort_throw_def abort_impl_def sbind_Inr)
  then have "out = Abort_exn a" "abort_impl E a t w = Inr (Return (), t', w')"
    using assms(2) by (auto simp: abort_throw_def)
  then show ?thesis using assms(1) by (auto simp: call_post_def)
qed

lemma map_outcome_post:
  "call_post E M w0 wl res out t' w' \<Longrightarrow> call_post E M w0 wl (f res) (map_outcome f out) t' w'"
  by (cases out) (auto simp: call_post_def)

lemma node_read_post:
  assumes inv: "txn_inv M w0 wl t w" and r: "do_node_read E n v t w = Inr (out, t', w')"
  shows "call_post E M w0 wl () out t' w'"
proof -
  consider (new) "map_of (absent_set t) n = None" | (same) "map_of (absent_set t) n = Some v"
    | (changed) v' where "map_of (absent_set t) n = Some v'" "v' \<noteq> v" by (cases "map_of (absent_set t) n") auto
  then show ?thesis
  proof cases
    case new
    then have "out = Return ()" "t' = t\<lparr>absent_set := absent_set t @ [(n, v)]\<rparr>" "w' = w"
      using r txn_invD(2) [OF inv] by (auto simp: do_node_read_def)
    then show ?thesis
      using txn_inv_same [OF inv, of t'] txn_invD(1) [OF inv] by (simp add: call_post_def is_snapshot_def)
  next
    case same
    then show ?thesis using r txn_invD(2) [OF inv] inv by (auto simp: do_node_read_def call_post_def)
  next
    case changed
    then show ?thesis using r txn_invD(2) [OF inv] abort_post [OF inv] by (auto simp: do_node_read_def)
  qed
qed

lemma start_tuple:
  assumes inv: "txn_inv M w0 wl t w" and st: "start_ok M w0" and p: "M (windex w) b k = Some p" and own: "map_of wl (b, k) = None"
  obtains x where "cells (wheap w) p = Some x" and "tuple_wf x" and "tversion x \<noteq> MAX_TID" and "tid_room (wtick w0) (tversion x)"
    and "db_value M w0 b k = tuple_value x"
proof -
  have "rec_key r \<noteq> (b, k)" if "r \<in> set (write_set t)" for r
    using own that txn_invD(3) [OF inv] by (force simp: map_of_eq_None_iff)
  then have p0: "M (windex w0) b k = Some p" using txn_invD(8) [OF inv, of b k] p by auto
  have db0: "db_ok (M (windex w0)) (wheap w0)" using st by (simp add: start_ok_def)
  obtain x where x: "cells (wheap w0) p = Some x" "head_ok x" using db_okD(3) [where m = "M (windex w0)", OF db0 p0] by blast
  have "cells (wheap w) p = Some x" using grows_chain(3) [where m = "M (windex w0)", OF db0 txn_invD(9) [OF inv] p0] x by simp
  moreover have "tuple_wf x" using x(2) by (simp add: head_ok_def buffer_ok_def tuple_wf_def)
  moreover have "tversion x \<noteq> MAX_TID \<and> tid_room (wtick w0) (tversion x)" using st p0 x(1) unfolding start_ok_def by blast
  moreover have "db_value M w0 b k = tuple_value x" using p0 x(1) by (simp add: db_value_def)
  ultimately show ?thesis using that by blast
qed

lemma tuple_read_post:
  assumes inv: "txn_inv M w0 wl t w" and st: "start_ok M w0" and p: "M (windex w) b k = Some p"
    and r: "do_tuple_read E True single_value_dup (single_value_reader no_limit) p t w = Inr (out, t', w')"
  shows "call_post E M w0 wl (case map_of wl (b, k) of None \<Rightarrow> db_value M w0 b k | Some v \<Rightarrow> v) out t' w'"
proof (cases "find_write_set p (write_set t)")
  case (Some rec)
  then have "map_of wl (b, k) = Some (wr_value rec)" using own_write [OF inv p] by simp
  then show ?thesis
    using r Some inv by (auto simp: do_tuple_read_def Let_def call_post_def single_value_dup_def [abs_def] option.map_ident)
next
  case None
  then have own: "map_of wl (b, k) = None" using own_write [OF inv p] by simp
  obtain x where x: "cells (wheap w) p = Some x" "tuple_wf x" "tversion x \<noteq> MAX_TID" "tid_room (wtick w0) (tversion x)"
      "db_value M w0 b k = tuple_value x" by (rule start_tuple [OF inv st p own])
  have ns: "\<not> is_snapshot t" by (rule txn_invD(2) [OF inv])
  let ?rd = "stable_read (read_fuel (wheap w)) (\<lambda>_. cells (wheap w)) 0 p MAX_TID (single_value_reader no_limit) False"
  obtain stat start_t res \<tau>' where rd: "?rd = Inr (Some (stat, start_t, res, \<tau>'))"
    using r None ns by (auto simp: do_tuple_read_def Let_def sbind_Inr lift_mem_Inr or_spin_def split: option.splits)
  have "(stat, start_t, res) = (case tuple_value x of None \<Rightarrow> READ_EMPTY | Some _ \<Rightarrow> READ_RECORD, tversion x,
      Option.bind (tuple_value x) (single_value_reader no_limit))"
    using frozen_read_latest [where M = "cells (wheap w)", OF x(1,2) _ rd] x(3) by (simp add: single_value_reader_def)
  then have eq: "stat = (case tuple_value x of None \<Rightarrow> READ_EMPTY | Some _ \<Rightarrow> READ_RECORD)" "start_t = tversion x"
      "res = tuple_value x"
    using no_limit_reader [OF tuple_value_length [of x]] by (auto split: option.splits)
  let ?t = "t\<lparr>read_set := read_set t @ [\<lparr>rr_tuple = p, rr_tid = start_t\<rparr>]\<rparr>"
  have "out = Return (tuple_value x)" "t' = ?t" "w' = w"
    using r None ns rd eq by (auto simp: do_tuple_read_def Let_def can_read_tid_def split: option.splits)
  moreover have "txn_inv M w0 wl ?t w"
    by (rule txn_inv_same [OF inv]) (use txn_invD(1) [OF inv] x(4) eq(2) in \<open>auto simp: is_snapshot_def\<close>)
  ultimately show ?thesis using own x(5) by (simp add: call_post_def)
qed

lemma search_post:
  assumes inv: "txn_inv M w0 wl t w" and st: "start_ok M w0" and L: "index_laws (e_ix E) M"
    and r: "string_search E True no_limit b k t w = Inr (out, t', w')"
  shows "call_post E M w0 wl (case map_of wl (b, k) of None \<Rightarrow> db_value M w0 b k | Some v \<Rightarrow> v) out t' w'"
proof -
  note inv1 = ensure_active_inv [OF inv]
  obtain q n v where s: "ix_search (e_ix E) (windex w) b k = (q, n, v)" by (cases "ix_search (e_ix E) (windex w) b k")
  have q: "q = M (windex w) b k" using L s unfolding index_laws_def by (metis fst_conv)
  show ?thesis
  proof (cases q)
    case (Some p)
    then have "do_tuple_read E True single_value_dup (single_value_reader no_limit) p (ensure_active t) w = Inr (out, t', w')"
      using r s by (simp add: string_search_def do_search_def)
    then show ?thesis using tuple_read_post [OF inv1 st, of b k p] q Some by metis
  next
    case None
    obtain out1 where o: "do_node_read E n v (ensure_active t) w = Inr (out1, t', w')" "out = map_outcome (\<lambda>_. None) out1"
      using r s None by (auto simp: string_search_def do_search_def sbind_Inr)
    have m: "M (windex w) b k = None" using None q by simp
    have "db_value M w0 b k = None" "map_of wl (b, k) = None"
      using no_own_write [OF inv m] by (simp_all add: db_value_def)
    then show ?thesis using map_outcome_post [OF node_read_post [OF inv1 o(1)], of "\<lambda>_. None"] o(2) by simp
  qed
qed

text \<open>Putting: a known key gets a write record, a new one a locked tuple with the value.\<close>

lemma write_set_ok_snoc:
  "write_set_ok M (ws @ [r]) w \<longleftrightarrow> write_set_ok M ws w \<and> cells (wheap w) (wr_tuple r) \<noteq> None \<and>
   (wr_insert r \<longrightarrow> wr_tuple r \<notin> wr_tuple ` set (filter wr_insert ws) \<and>
      (wr_btr r, wr_key r) \<notin> (\<lambda>r. (wr_btr r, wr_key r)) ` set (filter wr_insert ws) \<and>
      M (windex w) (wr_btr r) (wr_key r) = Some (wr_tuple r) \<and> marker (wheap w) (wr_tuple r))"
  by (auto simp: write_set_ok_def)

lemma writes_ok_snoc:
  "writes_ok M (ws @ [r]) w \<longleftrightarrow> writes_ok M ws w \<and> plain_write r \<and> \<not> wr_do_write r \<and> (wr_insert r \<longrightarrow> fresh_insert (wheap w) r) \<and>
   (latest_at (wheap w) (wr_tuple r) \<longrightarrow> M (windex w) (wr_btr r) (wr_key r) = Some (wr_tuple r)) \<and>
   (\<forall>s \<in> set ws. wr_tuple s = wr_tuple r \<longrightarrow> \<not> wr_insert r)"
  by (auto simp: writes_ok_def sorted_wrt_append)

lemma put_known_key:
  assumes inv: "txn_inv M w0 wl t w" and p: "M (windex w) b k = Some p" and v: "value_ok v"
  shows "txn_inv M w0 (wl @ [((b, k), v)]) (t\<lparr>write_set := write_set t @ [new_write_record p k v string_writer b False]\<rparr>) w"
proof -
  let ?r = "new_write_record p k v string_writer b False"
  have r: "wr_tuple ?r = p" "wr_key ?r = k" "wr_btr ?r = b" "\<not> wr_insert ?r" "\<not> wr_do_write ?r" "wr_value ?r = v" "rec_key ?r = (b, k)"
      "plain_write ?r" using v by (simp_all add: new_write_record_def rec_key_def plain_write_def)
  have "cells (wheap w) p \<noteq> None" using db_okD(3) [where m = "M (windex w)", OF txn_invD(4) [OF inv] p] by auto
  then have "write_set_ok M (write_set t @ [?r]) w" "writes_ok M (write_set t @ [?r]) w"
    using txn_invD(5,6) [OF inv] r p by (simp_all add: write_set_ok_snoc writes_ok_snoc)
  then show ?thesis
    using inv r p unfolding txn_inv_def by (auto simp: is_snapshot_def)
qed

lemma heap_new_grows:
  assumes "heap_ok H"
  shows "grows H (H\<lparr>cells := (cells H)(brk H := c), brk := Suc (brk H)\<rparr>)"
  using assms by (auto simp: grows_def heap_ok_def)

text \<open>The tuple an insert allocates.\<close>

lemma first_tuple:
  assumes v: "value_ok v"
  obtains x buf where "(case v of None \<Rightarrow> Inr 0 | Some u \<Rightarrow> lift_mem (w_needed string_writer u [] 0)) = (Inr (value_size v) :: fault + nat)"
    and "alloc_first (value_size v) True H = (brk H, H\<lparr>cells := (cells H)(brk H \<mapsto> x), brk := Suc (brk H)\<rparr>)"
    and "(case v of None \<Rightarrow> Inr (value_start x) | Some u \<Rightarrow> lift_mem (w_write string_writer u (value_start x) 0)) = (Inr buf :: fault + bytes)"
    and "tversion x = MAX_TID" and "tnext x = None" and "IsLocked (hdr x)" and "IsLatest (hdr x)"
    and "head_ok (x\<lparr>value_start := buf\<rparr>)" and "tuple_value (x\<lparr>value_start := buf\<rparr>) = v"
proof -
  let ?s = "value_size v"
  let ?n = "alloc_sz ?s - sizeof_dbtuple"
  have s: "?s \<le> 65535" and s0: "?s = 0 \<longleftrightarrow> v = None" using v by (cases v; simp add: value_size_def value_ok_def)+
  have n: "?s \<le> ?n" "?n \<le> 65535" using alloc_sz_room [OF s] by simp_all
  have u: "unat (of_nat ?n :: u16) = ?n" "unat (of_nat ?s :: u16) = ?s" using n s by (auto intro!: unat_of_nat_small)
  define h where "h = HDR_LATEST_MASK OR (HDR_LOCKED_MASK OR HDR_WRITE_INTENT_MASK) OR (if ?s = 0 then HDR_DELETING_MASK else 0)"
  have h: "IsLocked h" "IsLatest h" "IsDeleting h = (?s = 0)"
    unfolding hdr_flag_bits h_def by (simp_all add: bit_or_iff hdr_bit_simps)
  define x where "x = \<lparr>hdr = h, tversion = MAX_TID, tsize = of_nat ?s, alloc_size = of_nat ?n, tnext = None, value_start = fresh_bytes H ?n\<rparr>"
  have len: "length (value_start x) = ?n" by (simp add: x_def fresh_bytes_def)
  define buf where "buf = (case v of None \<Rightarrow> value_start x | Some a \<Rightarrow> write_at 0 a (value_start x))"
  have lb: "length buf = ?n" using len n(1) by (cases v) (simp_all add: buf_def value_size_def write_at_def)
  have "alloc_first ?s True H = (brk H, H\<lparr>cells := (cells H)(brk H \<mapsto> x), brk := Suc (brk H)\<rparr>)"
    by (simp add: alloc_first_def heap_new_def Let_def x_def h_def)
  moreover have "(case v of None \<Rightarrow> Inr (value_start x) | Some a \<Rightarrow> lift_mem (w_write string_writer a (value_start x) 0)) = (Inr buf :: fault + bytes)"
    using len n(1) by (cases v) (simp_all add: buf_def string_writer_def mem_copy_def value_size_def)
  moreover have "head_ok (x\<lparr>value_start := buf\<rparr>)" using lb u n h by (simp add: head_ok_def buffer_ok_def x_def)
  moreover have "tuple_value (x\<lparr>value_start := buf\<rparr>) = v"
  proof (cases v)
    case None
    then show ?thesis using h s0 by (simp add: tuple_value_def x_def)
  next
    case (Some a)
    then have "take ?s buf = a" by (simp add: buf_def value_size_def write_at_def)
    then show ?thesis using Some h s0 u by (simp add: tuple_value_def x_def)
  qed
  moreover have "(case v of None \<Rightarrow> Inr 0 | Some a \<Rightarrow> lift_mem (w_needed string_writer a [] 0)) = (Inr ?s :: fault + nat)"
    by (cases v) (simp_all add: string_writer_def value_size_def)
  moreover have "tversion x = MAX_TID" "tnext x = None" "IsLocked (hdr x)" "IsLatest (hdr x)" using h by (simp_all add: x_def)
  ultimately show ?thesis using that by blast
qed

lemma write_set_ok_cong:
  assumes "write_set_ok M ws w" and "\<And>r. r \<in> set ws \<Longrightarrow> cells (wheap w') (wr_tuple r) = cells (wheap w) (wr_tuple r)"
    and "\<And>r. r \<in> set ws \<Longrightarrow> M (windex w') (wr_btr r) (wr_key r) = M (windex w) (wr_btr r) (wr_key r)"
  shows "write_set_ok M ws w'"
  using assms by (simp add: write_set_ok_def marker_def)

lemma writes_ok_cong:
  assumes "writes_ok M ws w" and "\<And>r. r \<in> set ws \<Longrightarrow> cells (wheap w') (wr_tuple r) = cells (wheap w) (wr_tuple r)"
    and "\<And>r. r \<in> set ws \<Longrightarrow> M (windex w') (wr_btr r) (wr_key r) = M (windex w) (wr_btr r) (wr_key r)"
  shows "writes_ok M ws w'"
  using assms by (simp add: writes_ok_def fresh_insert_def latest_at_def)

lemma inv_tuple_below:
  assumes "txn_inv M w0 wl t w" and "r \<in> set (write_set t)"
  shows "wr_tuple r < brk (wheap w)"
proof -
  have "cells (wheap w) (wr_tuple r) \<noteq> None" using txn_invD(5) [OF assms(1)] assms(2) by (simp add: write_set_ok_def)
  moreover have "heap_ok (wheap w)" using txn_invD(4) [OF assms(1)] by (simp add: db_ok_def)
  ultimately show ?thesis by (auto simp: heap_ok_def not_less [symmetric])
qed

lemma txn_inv_garbage:
  assumes inv: "txn_inv M w0 wl t w" and H': "cells H' = cells (wheap w)" "brk (wheap w) \<le> brk H'"
  shows "txn_inv M w0 wl t (w\<lparr>wheap := H'\<rparr>)"
proof -
  let ?w = "w\<lparr>wheap := H'\<rparr>"
  have "heap_ok (wheap w)" using txn_invD(4) [OF inv] by (simp add: db_ok_def)
  then have g: "grows (wheap w) H'" using H' by (auto simp: grows_def heap_ok_def)
  have ix: "windex ?w = windex w" by simp
  show ?thesis
  proof (rule txn_invI)
    show "db_ok (M (windex ?w)) (wheap ?w)" using db_ok_grows(1) [OF txn_invD(4) [OF inv] g] by simp
    show "write_set_ok M (write_set t) ?w" "writes_ok M (write_set t) ?w"
      using write_set_ok_cong [OF txn_invD(5) [OF inv], of ?w] writes_ok_cong [OF txn_invD(6) [OF inv], of ?w] H'(1) by simp_all
    show "grows (wheap w0) (wheap ?w)" using grows_trans [OF txn_invD(9) [OF inv] g] by simp
    show "?w = w0\<lparr>wheap := wheap ?w, windex := windex ?w\<rparr>" by (subst txn_invD(13) [OF inv]) simp
    show "M (windex w0) b k = (if \<exists>r \<in> set (write_set t). wr_insert r \<and> rec_key r = (b, k) then None else M (windex ?w) b k)" for b k
      unfolding ix by (rule txn_invD(8) [OF inv])
    show "cells (wheap ?w) q \<noteq> None \<longleftrightarrow> (\<exists>r \<in> set (write_set t). wr_insert r \<and> wr_tuple r = q)" if "brk (wheap w0) \<le> q" for q
      using txn_invD(10) [OF inv that] H'(1) by simp
    show "M (windex ?w) (wr_btr r) (wr_key r) = Some (wr_tuple r)" if "r \<in> set (write_set t)" for r
      using txn_invD(7) [OF inv that] by simp
  qed (use txn_invD(1,2,3,11,12) [OF inv] in blast)+
qed

lemma put_new_key:
  assumes inv: "txn_inv M w0 wl t w" and new: "M (windex w) b k = None" and v: "value_ok v"
    and x: "tversion x = MAX_TID" "tnext x = None" "IsLocked (hdr x)" "IsLatest (hdr x)" "head_ok x" "tuple_value x = v"
    and H': "H' = (wheap w)\<lparr>cells := (cells (wheap w))(brk (wheap w) \<mapsto> x), brk := Suc (brk (wheap w))\<rparr>"
    and ix: "M ix = upd_key b k (Some (brk (wheap w))) (M (windex w))"
    and t': "write_set t' = write_set t @ [new_write_record (brk (wheap w)) k v string_writer b True]" "state t' = state t"
      "flags t' = flags t" "read_set t' = read_set t"
  shows "txn_inv M w0 (wl @ [((b, k), v)]) t' (w\<lparr>wheap := H', windex := ix\<rparr>)"
proof -
  let ?p = "brk (wheap w)" and ?w = "w\<lparr>wheap := H', windex := ix\<rparr>"
  let ?r = "new_write_record ?p k v string_writer b True"
  have r: "wr_tuple ?r = ?p" "wr_key ?r = k" "wr_btr ?r = b" "wr_insert ?r" "\<not> wr_do_write ?r" "wr_value ?r = v" "rec_key ?r = (b, k)"
      "plain_write ?r" using v by (simp_all add: new_write_record_def rec_key_def plain_write_def)
  have ho: "heap_ok (wheap w)" using txn_invD(4) [OF inv] by (simp add: db_ok_def)
  have g: "grows (wheap w) H'" unfolding H' by (rule heap_new_grows [OF ho])
  have at: "cells H' ?p = Some x" by (simp add: H')
  have keys: "(wr_btr s, wr_key s) \<noteq> (b, k)" if "s \<in> set (write_set t)" for s
    using txn_invD(7) [OF inv that] new by auto
  have same: "cells (wheap ?w) (wr_tuple s) = cells (wheap w) (wr_tuple s)" "wr_tuple s \<noteq> ?p"
      "M (windex ?w) (wr_btr s) (wr_key s) = M (windex w) (wr_btr s) (wr_key s)" if "s \<in> set (write_set t)" for s
    using inv_tuple_below [OF inv that] g keys [OF that] upd_key_other [of "wr_btr s" "wr_key s" b k] by (auto simp: grows_def ix)
  have lw: "map (\<lambda>r. (rec_key r, wr_value r)) (write_set t') = wl @ [((b, k), v)]"
    using txn_invD(3) [OF inv] r by (simp add: t'(1))
  have st: "state t' = TXN_EMBRYO \<or> state t' = TXN_ACTIVE" "\<not> is_snapshot t'"
    using txn_invD(1,2) [OF inv] t'(2,3) by (simp_all add: is_snapshot_def)
  have db: "db_ok (M (windex ?w)) (wheap ?w)"
    using db_ok_new_key(1) [where m = "M (windex w)", OF txn_invD(4) [OF inv] g new _ at x(5,2)] by (simp add: ix)
  have "marker H' ?p" "fresh_insert H' ?r" using at x r by (auto simp: marker_def fresh_insert_def)
  then have ok: "write_set_ok M (write_set t') ?w" "writes_ok M (write_set t') ?w"
    using write_set_ok_cong [OF txn_invD(5) [OF inv], of ?w] writes_ok_cong [OF txn_invD(6) [OF inv], of ?w] same keys r at
    unfolding t'(1) write_set_ok_snoc writes_ok_snoc by (simp_all add: ix) (use same(2) in \<open>force+\<close>)
  have own: "\<forall>s \<in> set (write_set t'). M (windex ?w) (wr_btr s) (wr_key s) = Some (wr_tuple s)"
    using same(3) txn_invD(7) [OF inv] r by (auto simp: t'(1) ix)
  have m0: "M (windex w0) b' k' = (if \<exists>s \<in> set (write_set t'). wr_insert s \<and> rec_key s = (b', k') then None else M (windex ?w) b' k')" for b' k'
  proof (cases "(b', k') = (b, k)")
    case True
    then show ?thesis using txn_invD(8) [OF inv, of b k] new r by (auto simp: t'(1))
  next
    case False
    then show ?thesis using txn_invD(8) [OF inv, of b' k'] r upd_key_other [OF False] by (auto simp: t'(1) ix)
  qed
  have g0: "grows (wheap w0) (wheap ?w)" using grows_trans [OF txn_invD(9) [OF inv] g] by simp
  have le: "brk (wheap w0) \<le> ?p" using txn_invD(9) [OF inv] by (simp add: grows_def)
  have al: "cells (wheap ?w) q \<noteq> None \<longleftrightarrow> (\<exists>s \<in> set (write_set t'). wr_insert s \<and> wr_tuple s = q)" if "brk (wheap w0) \<le> q" for q
  proof (cases "q = ?p")
    case True
    then show ?thesis using r at by (auto simp: t'(1))
  next
    case False
    then show ?thesis using txn_invD(10) [OF inv that] r by (auto simp: t'(1) H')
  qed
  show ?thesis
  proof (rule txn_invI)
    show "?w = w0\<lparr>wheap := wheap ?w, windex := windex ?w\<rparr>" by (subst txn_invD(13) [OF inv]) simp
    show "brk (wheap w0) \<le> wr_tuple s" if "s \<in> set (write_set t')" "wr_insert s" for s
      using that le txn_invD(11) [OF inv] r by (auto simp: t'(1))
    show "rr_tid s = MIN_TID \<or> tid_room (wtick w0) (rr_tid s)" if "s \<in> set (read_set t')" for s
      using that txn_invD(12) [OF inv] by (simp add: t'(4))
    show "M (windex ?w) (wr_btr s) (wr_key s) = Some (wr_tuple s)" if "s \<in> set (write_set t')" for s using own that by blast
  qed (fact st lw db ok m0 g0 al)+
qed

lemma index_insert_if_absent:
  assumes "index_laws X M"
  shows "M ix b k \<noteq> None \<Longrightarrow> ix_insert_if_absent X ix b k p = None"
    and "M ix b k = None \<Longrightarrow> \<exists>info ix'. ix_insert_if_absent X ix b k p = Some (info, ix') \<and> M ix' = upd_key b k (Some p) (M ix)"
proof -
  have "case ix_insert_if_absent X ix b k p of
      None \<Rightarrow> M ix b k \<noteq> None | Some (info, ix') \<Rightarrow> M ix b k = None \<and> M ix' = upd_key b k (Some p) (M ix)"
    using assms unfolding index_laws_def by blast
  then show "M ix b k \<noteq> None \<Longrightarrow> ix_insert_if_absent X ix b k p = None"
    and "M ix b k = None \<Longrightarrow> \<exists>info ix'. ix_insert_if_absent X ix b k p = Some (info, ix') \<and> M ix' = upd_key b k (Some p) (M ix)"
    by (auto split: option.splits)
qed

text \<open>An insertion over a present key leaves the transaction alone; one of an absent key succeeds.\<close>

lemma try_insert_post:
  assumes inv: "txn_inv M w0 wl t w" and L: "index_laws (e_ix E) M" and v: "value_ok v"
  shows "\<exists>px bad t' w'. try_insert_new_tuple E b k v string_writer t w = Inr ((px, bad), t', w') \<and>
    (if M (windex w) b k \<noteq> None then px = None \<and> \<not> bad \<and> t' = t \<and> windex w' = windex w \<and> txn_inv M w0 wl t w'
     else px \<noteq> None \<and> txn_inv M w0 (wl @ [((b, k), v)]) t' w')"
proof -
  let ?H = "wheap w" and ?p = "brk (wheap w)"
  obtain x buf where need: "(case v of None \<Rightarrow> Inr 0 | Some u \<Rightarrow> lift_mem (w_needed string_writer u [] 0)) = (Inr (value_size v) :: fault + nat)"
    and al: "alloc_first (value_size v) True ?H = (?p, ?H\<lparr>cells := (cells ?H)(?p \<mapsto> x), brk := Suc ?p\<rparr>)"
    and wr: "(case v of None \<Rightarrow> Inr (value_start x) | Some u \<Rightarrow> lift_mem (w_write string_writer u (value_start x) 0)) = (Inr buf :: fault + bytes)"
    and x: "tversion x = MAX_TID" "tnext x = None" "IsLocked (hdr x)" "IsLatest (hdr x)"
    and x': "head_ok (x\<lparr>value_start := buf\<rparr>)" "tuple_value (x\<lparr>value_start := buf\<rparr>) = v"
    by (rule first_tuple [OF v, of ?H])
  let ?x = "x\<lparr>value_start := buf\<rparr>"
  let ?H1 = "?H\<lparr>cells := (cells ?H)(?p \<mapsto> ?x), brk := Suc ?p\<rparr>"
  have put: "tuple_put ?p ?x (?H\<lparr>cells := (cells ?H)(?p \<mapsto> x), brk := Suc ?p\<rparr>) = ?H1" by (simp add: tuple_put_def)
  have at: "tuple_at (?H\<lparr>cells := (cells ?H)(?p \<mapsto> x), brk := Suc ?p\<rparr>) ?p = Inr x" by (simp add: tuple_at_def)
  note go = try_insert_new_tuple_def [of E b k v string_writer t w, unfolded need sbind_simps al prod.case at lift_mem_simps wr Let_def put]
  show ?thesis
  proof (cases "M (windex w) b k = None")
    case False
    have none: "ix_insert_if_absent (e_ix E) (windex w) b k ?p = None" using index_insert_if_absent(1) [OF L False] .
    let ?H2 = "upd_heap drop_latest {?p} ?H1"
    let ?H3 = "upd_heap ulk {?p} ?H2"
    have "clear_latest ?p ?H1 = Inr ?H2" "unlock_tuple ?p ?H2 = Inr ?H3" by (simp_all add: clear_latest_Inr unlock_tuple_Inr)
    then have res: "try_insert_new_tuple E b k v string_writer t w = Inr ((None, False), t, w\<lparr>wheap := heap_free ?p ?H3\<rparr>)"
      unfolding go none by simp
    have ho: "heap_ok ?H" using txn_invD(4) [OF inv] by (simp add: db_ok_def)
    then have "cells (heap_free ?p ?H3) = cells ?H" by (auto simp: heap_free_def fun_eq_iff heap_ok_def)
    moreover have "?p \<le> brk (heap_free ?p ?H3)" by (simp add: heap_free_def)
    ultimately have "txn_inv M w0 wl t (w\<lparr>wheap := heap_free ?p ?H3\<rparr>)" by (rule txn_inv_garbage [OF inv])
    then show ?thesis using res False by auto
  next
    case True
    obtain info ix' where i: "ix_insert_if_absent (e_ix E) (windex w) b k ?p = Some (info, ix')" "M ix' = upd_key b k (Some ?p) (M (windex w))"
      using index_insert_if_absent(2) [OF L True] by blast
    let ?w = "w\<lparr>wheap := ?H1, windex := ix'\<rparr>"
    have post: "txn_inv M w0 (wl @ [((b, k), v)]) t' ?w"
      if "write_set t' = write_set t @ [new_write_record ?p k v string_writer b True]" "state t' = state t" "flags t' = flags t"
        "read_set t' = read_set t" for t'
      by (rule put_new_key [OF inv True v _ _ _ _ x' refl i(2) that]) (simp_all add: x)
    obtain bad t' where "try_insert_new_tuple E b k v string_writer t w = Inr ((Some ?p, bad), t', ?w)"
        "write_set t' = write_set t @ [new_write_record ?p k v string_writer b True]" "state t' = state t" "flags t' = flags t"
        "read_set t' = read_set t"
    proof (cases "map_of (absent_set t) (ii_node info)")
      case None
      then show ?thesis
        by (intro that [of False "t\<lparr>write_set := write_set t @ [new_write_record ?p k v string_writer b True]\<rparr>"]) (simp_all add: go i(1))
    next
      case (Some ver)
      let ?t = "t\<lparr>write_set := write_set t @ [new_write_record ?p k v string_writer b True]\<rparr>"
      show ?thesis
      proof (cases "ver = ii_old_version info")
        case True
        then show ?thesis
          using Some by (intro that [of False "?t\<lparr>absent_set := set_version (ii_node info) (ii_new_version info) (absent_set t)\<rparr>"])
            (simp_all add: go i(1))
      next
        case False
        then show ?thesis
          using Some by (intro that [of True "?t\<lparr>reason := ABORT_REASON_WRITE_NODE_INTERFERENCE\<rparr>"]) (simp_all add: go i(1))
      qed
    qed
    then show ?thesis using post True by auto
  qed
qed

text \<open>Two rounds of the loop are enough, and the put either records its write or aborts the transaction.\<close>

lemma put_post:
  assumes inv: "txn_inv M w0 wl t w" and L: "index_laws (e_ix E) M" and v: "value_ok v"
    and r: "do_tree_put E b k v string_writer expect_new t w = Inr (out, t', w')"
  shows "call_post E M w0 (wl @ [((b, k), v)]) () out t' w'"
proof -
  let ?t = "ensure_active t"
  note inv1 = ensure_active_inv [OF inv]
  have loop: "put_loop (Suc (Suc 0)) E b k v string_writer expect_new ?t w = Inr (out, t', w')"
    using r txn_invD(2) [OF inv1] by (simp add: do_tree_put_def put_rounds_def numeral_2_eq_2 Let_def)
  have search: "fst (ix_search (e_ix E) ix b k) = M ix b k" for ix using L unfolding index_laws_def by blast
  obtain px bad t1 w1 where ins: "try_insert_new_tuple E b k v string_writer ?t w = Inr ((px, bad), t1, w1)"
    and post: "if M (windex w) b k \<noteq> None then px = None \<and> \<not> bad \<and> t1 = ?t \<and> windex w1 = windex w \<and> txn_inv M w0 wl ?t w1
      else px \<noteq> None \<and> txn_inv M w0 (wl @ [((b, k), v)]) t1 w1"
    using try_insert_post [OF inv1 L v] by blast
  show ?thesis
  proof (cases "M (windex w) b k")
    case (Some p)
    have known: "call_post E M w0 (wl @ [((b, k), v)]) () (Return ())
        (?t\<lparr>write_set := write_set ?t @ [new_write_record p k v string_writer b False]\<rparr>) u"
      if "txn_inv M w0 wl ?t u" "windex u = windex w" for u
      using put_known_key [OF that(1) _ v, of b k p] Some that(2) by (simp add: call_post_def)
    show ?thesis
      using loop ins post Some known [of w1] known [of w] inv1 search by (cases expect_new) auto
  next
    case None
    have "(if bad then abort_throw E ABORT_REASON_WRITE_NODE_INTERFERENCE t1 w1 else Inr (Return (), t1, w1)) = Inr (out, t', w')"
      using loop ins post None search by (cases expect_new; cases bad) auto
    then show ?thesis
      using abort_post [of M w0 "wl @ [((b, k), v)]" t1 w1] post None by (auto simp: call_post_def split: if_splits)
  qed
qed

fun result_of :: "(btree \<Rightarrow> bytes \<Rightarrow> bytes option) \<Rightarrow> ((btree \<times> bytes) \<times> bytes option) list \<Rightarrow> call \<Rightarrow> bytes option list" where
  "result_of db wl (Search b k) = [case map_of wl (b, k) of None \<Rightarrow> db b k | Some v \<Rightarrow> v]"
| "result_of db wl c = []"

lemma seen_results_Cons: "seen_results db wl (c # cs) = result_of db wl c @ seen_results db (wl @ writes_of [c]) cs"
  by (cases c) simp_all

lemma writes_of_Cons: "writes_of (c # cs) = writes_of [c] @ writes_of cs"
  by (cases c) simp_all

lemma run_call_post:
  assumes inv: "txn_inv M w0 wl t w" and st: "start_ok M w0" and L: "index_laws (e_ix E) M" and c: "call_ok c"
    and r: "run_call E c t w = Inr (out, t', w')"
  shows "call_post E M w0 (wl @ writes_of [c]) (result_of (db_value M w0) wl c) out t' w'"
proof -
  have put: "call_post E M w0 (wl @ [((b, k), v)]) [] out t' w'"
    if p: "sbind (do_tree_put E b k v string_writer e t w) (\<lambda>(out, t1, w1). Inr (map_outcome (\<lambda>_. []) out, t1, w1)) = Inr (out, t', w')"
      and v: "value_ok v" for b k v e
  proof -
    obtain out1 where o: "do_tree_put E b k v string_writer e t w = Inr (out1, t', w')" "out = map_outcome (\<lambda>_. []) out1"
      using p by (auto simp: sbind_Inr)
    show ?thesis using map_outcome_post [OF put_post [OF inv L v o(1)], of "\<lambda>_. []"] o(2) by simp
  qed
  show ?thesis
  proof (cases c)
    case (Search b k)
    then obtain out1 where o: "string_search E True no_limit b k t w = Inr (out1, t', w')" "out = map_outcome (\<lambda>r. [r]) out1"
      using r by (auto simp: sbind_Inr)
    show ?thesis using map_outcome_post [OF search_post [OF inv st L o(1)], of "\<lambda>r. [r]"] o(2) Search by simp
  next
    case (Put b k v)
    then show ?thesis using put [of b k "Some v" False] r c by (simp add: string_put_def value_ok_def)
  next
    case (Insert b k v)
    then show ?thesis using put [of b k "Some v" True] r c by (simp add: string_insert_def value_ok_def)
  next
    case (Remove b k)
    then show ?thesis using put [of b k None False] r by (simp add: string_remove_def value_ok_def)
  qed
qed

lemma run_calls_post:
  assumes "txn_inv M w0 wl t w" and st: "start_ok M w0" and L: "index_laws (e_ix E) M" and "\<forall>c \<in> set cs. call_ok c"
    and "run_calls E cs t w = Inr (out, t', w')"
  shows "call_post E M w0 (wl @ writes_of cs) (seen_results (db_value M w0) wl cs) out t' w'"
  using assms(1,4,5)
proof (induction cs arbitrary: wl t w out)
  case Nil
  then show ?case by (auto simp: call_post_def)
next
  case (Cons c cs)
  obtain out1 t1 w1 where r1: "run_call E c t w = Inr (out1, t1, w1)"
    using Cons.prems(3) by (cases "run_call E c t w") auto
  have p1: "call_post E M w0 (wl @ writes_of [c]) (result_of (db_value M w0) wl c) out1 t1 w1"
    using run_call_post [OF Cons.prems(1) st L _ r1] Cons.prems(2) by simp
  show ?case
  proof (cases out1)
    case (Return rs)
    then have inv1: "txn_inv M w0 (wl @ writes_of [c]) t1 w1" and rs: "rs = result_of (db_value M w0) wl c"
      using p1 by (simp_all add: call_post_def)
    obtain out2 where o: "run_calls E cs t1 w1 = Inr (out2, t', w')" "out = map_outcome (\<lambda>rs2. rs @ rs2) out2"
      using Cons.prems(3) r1 Return by (auto simp: sbind_Inr)
    have "call_post E M w0 ((wl @ writes_of [c]) @ writes_of cs) (seen_results (db_value M w0) (wl @ writes_of [c]) cs) out2 t' w'"
      using Cons.IH [OF inv1 _ o(1)] Cons.prems(2) by simp
    from map_outcome_post [OF this, of "\<lambda>rs2. rs @ rs2"] show ?thesis
      using o(2) rs by (simp add: seen_results_Cons writes_of_Cons [of c cs])
  next
    case (Abort_exn a)
    then show ?thesis using Cons.prems(3) r1 p1 by (auto simp: call_post_def)
  next
    case Unusable_exn
    then show ?thesis using p1 by (simp add: call_post_def)
  qed
qed

section \<open>Undoing\<close>

lemma release_as_abort:
  "release_inserts E ws w = abort_infos E (us @ ws) (map (\<lambda>(pos, r). new_write_info (wr_tuple r) pos (wr_insert r) pos)
     (enumerate (length us) ws)) w"
proof (induction ws arbitrary: us w)
  case (Cons r ws)
  have "release_inserts E ws = abort_infos E (us @ r # ws) (map (\<lambda>(pos, r). new_write_info (wr_tuple r) pos (wr_insert r) pos)
     (enumerate (Suc (length us)) ws))"
    using Cons.IH [of _ "us @ [r]"] by (simp add: fun_eq_iff)
  then show ?case by (simp add: new_write_info_def)
qed simp

lemma release_infos: "release_inserts E ws w = abort_infos E ws (collect_write_infos ws) w"
  using release_as_abort [of E ws w "[]"] by (simp add: collect_write_infos_def)

lemma collect_locked:
  "newly_locked (collect_write_infos ws) = []" "inserted (collect_write_infos ws) = map wr_tuple (filter wr_insert ws)"
  "insert_keys ws (collect_write_infos ws) = map (\<lambda>r. (wr_btr r, wr_key r)) (filter wr_insert ws)"
proof -
  have l: "\<forall>i \<in> set (collect_write_infos ws). wi_locked i = wi_insert i" by (auto simp: set_collect new_write_info_def)
  show "newly_locked (collect_write_infos ws) = []" by (rule unlocked_none [OF l])
  have "filter (\<lambda>i. wi_locked i \<and> wi_insert i) (collect_write_infos ws) = filter wi_insert (collect_write_infos ws)"
    by (rule filter_cong) (use l in auto)
  then show "inserted (collect_write_infos ws) = map wr_tuple (filter wr_insert ws)"
      "insert_keys ws (collect_write_infos ws) = map (\<lambda>r. (wr_btr r, wr_key r)) (filter wr_insert ws)"
    unfolding inserted_def insert_keys_def
    by (simp_all only:) (rule collect_inserts; simp add: new_write_info_def)+
qed

lemma release_inserts_effect:
  assumes L: "index_laws (e_ix E) M" and ok: "write_set_ok M ws w"
  shows "\<exists>w'. release_inserts E ws w = Inr w' \<and>
    restored (wr_tuple ` {r \<in> set ws. wr_insert r}) (wheap w) (wheap w') \<and>
    M (windex w') = unindexed ((\<lambda>r. (wr_btr r, wr_key r)) ` {r \<in> set ws. wr_insert r}) (M (windex w)) \<and>
    w' = w\<lparr>wheap := wheap w', windex := windex w', wrcu := wrcu w @ map wr_tuple (filter wr_insert ws)\<rparr>"
proof -
  let ?is = "collect_write_infos ws"
  note cl = collect_locked [of ws]
  have pre: "distinct (newly_locked ?is @ inserted ?is)" "distinct (insert_keys ws ?is)"
      "\<forall>p \<in> set (newly_locked ?is @ inserted ?is). cells (wheap w) p \<noteq> None"
    using ok unfolding cl by (auto simp: write_set_ok_def)
  have keys: "\<forall>i \<in> set ?is. wi_locked i \<and> wi_insert i \<longrightarrow> M (windex w) (wr_btr (ws ! wi_entry i)) (wr_key (ws ! wi_entry i)) \<noteq> None"
    using ok by (auto simp: set_collect new_write_info_def write_set_ok_def)
  obtain w' where w': "abort_infos E ws ?is w = Inr w'"
      "wheap w' = upd_heap retire (set (inserted ?is)) (upd_heap ulk (set (newly_locked ?is)) (wheap w))"
      "M (windex w') = unindexed (set (insert_keys ws ?is)) (M (windex w))"
      "w' = w\<lparr>wheap := wheap w', windex := windex w', wrcu := wrcu w @ inserted ?is\<rparr>"
    using abort_infos_effect [OF L pre keys] by blast
  have "restored (set (inserted ?is)) (wheap w) (wheap w')"
    using restored_upd [of "{}" "wheap w" "set (inserted ?is)"] unfolding w'(2) cl by simp
  then show ?thesis using w'(1,3,4) unfolding release_infos cl by (intro exI [of _ w']) simp
qed

text \<open>Nothing of the transaction is left.\<close>

definition undone :: "('ix \<Rightarrow> btree \<Rightarrow> bytes \<Rightarrow> ptr option) \<Rightarrow> 'ix world \<Rightarrow> 'ix world \<Rightarrow> bool" where
  "undone M w0 w \<longleftrightarrow>
     M (windex w) = M (windex w0) \<and> db_ok (M (windex w)) (wheap w) \<and>
     (\<forall>b k. key_versions (wheap w) (M (windex w) b k) = key_versions (wheap w0) (M (windex w0) b k)) \<and>
     (\<forall>q. locked_at (wheap w) q = locked_at (wheap w0) q) \<and> wlog w = wlog w0 \<and> wgc w = wgc w0"

lemma restoredD:
  assumes "restored I H H'"
  shows "brk H' = brk H" and "cells H p = None \<Longrightarrow> cells H' p = None"
    and "cells H p = Some x \<Longrightarrow> \<exists>x'. cells H' p = Some x' \<and> x' = x\<lparr>hdr := hdr x'\<rparr> \<and> IsDeleting (hdr x') = IsDeleting (hdr x) \<and>
      IsLocked (hdr x') = (p \<notin> I \<and> IsLocked (hdr x)) \<and> IsLatest (hdr x') = (p \<notin> I \<and> IsLatest (hdr x))"
proof -
  note all = assms [unfolded restored_def]
  show "brk H' = brk H" using all by blast
  note at = spec [OF conjunct2 [OF all], of p]
  show "cells H p = None \<Longrightarrow> cells H' p = None" using at by simp
  show "cells H p = Some x \<Longrightarrow> \<exists>x'. cells H' p = Some x' \<and> x' = x\<lparr>hdr := hdr x'\<rparr> \<and> IsDeleting (hdr x') = IsDeleting (hdr x) \<and>
      IsLocked (hdr x') = (p \<notin> I \<and> IsLocked (hdr x)) \<and> IsLatest (hdr x') = (p \<notin> I \<and> IsLatest (hdr x))"
    using at by (simp only: option.case)
qed

lemma restored_cell:
  assumes "restored I H H'" and "cells H p = Some x" and "p \<notin> I"
  obtains x' where "cells H' p = Some x'" and "same_data x x'" and "head_ok x' = head_ok x" and "IsLocked (hdr x') = IsLocked (hdr x)"
proof -
  obtain h where h: "cells H' p = Some (x\<lparr>hdr := h\<rparr>)" "IsDeleting h = IsDeleting (hdr x)" "IsLocked h = IsLocked (hdr x)"
      "IsLatest h = IsLatest (hdr x)"
  proof -
    obtain x' where "cells H' p = Some x'" "x' = x\<lparr>hdr := hdr x'\<rparr>" "IsDeleting (hdr x') = IsDeleting (hdr x)"
        "IsLocked (hdr x') = (p \<notin> I \<and> IsLocked (hdr x))" "IsLatest (hdr x') = (p \<notin> I \<and> IsLatest (hdr x))"
      using restoredD(3) [OF assms(1,2)] by (elim exE conjE) (rule that; assumption)
    then show ?thesis using that [of "hdr x'"] assms(3) by metis
  qed
  show ?thesis by (rule that [OF h(1)]) (simp_all add: same_data_hdr h head_ok_def buffer_ok_def)
qed

lemma restored_undone:
  assumes inv: "txn_inv M w0 wl t w" and st: "start_ok M w0"
    and re: "restored (wr_tuple ` {r \<in> set (write_set t). wr_insert r}) (wheap w) (wheap w')"
    and ix: "M (windex w') = unindexed ((\<lambda>r. (wr_btr r, wr_key r)) ` {r \<in> set (write_set t). wr_insert r}) (M (windex w))"
    and rest: "wlog w' = wlog w" "wgc w' = wgc w"
  shows "undone M w0 w'"
proof -
  let ?I = "wr_tuple ` {r \<in> set (write_set t). wr_insert r}" and ?m = "M (windex w0)"
  have m: "M (windex w') = ?m"
  proof (intro ext)
    fix b k
    have "(b, k) \<in> (\<lambda>r. (wr_btr r, wr_key r)) ` {r \<in> set (write_set t). wr_insert r} \<longleftrightarrow>
        (\<exists>r \<in> set (write_set t). wr_insert r \<and> rec_key r = (b, k))" by (auto simp: rec_key_def)
    then show "M (windex w') b k = ?m b k" unfolding ix unindexed_def txn_invD(8) [OF inv, of b k] by simp
  qed
  have db0: "db_ok ?m (wheap w0)" using st by (simp add: start_ok_def)
  have ho0: "heap_ok (wheap w0)" and ho: "heap_ok (wheap w)" using db0 txn_invD(4) [OF inv] by (simp_all add: db_ok_def)
  have none: "cells (wheap w) p = None \<Longrightarrow> cells (wheap w') p = None" and brk: "brk (wheap w') = brk (wheap w)" for p
    using restoredD(1,2) [OF re] by blast+
  have ho': "heap_ok (wheap w')" using ho none brk by (simp add: heap_ok_def)
  have old: "p \<notin> ?I \<and> cells (wheap w) p = cells (wheap w0) p" if "p < brk (wheap w0)" for p
    using that txn_invD(9,11) [OF inv] by (auto simp: grows_def not_less [symmetric])
  have keep: "rel_option (\<lambda>x x'. same_data x x' \<and> head_ok x' = head_ok x \<and> IsLocked (hdr x') = IsLocked (hdr x))
      (cells (wheap w0) p) (cells (wheap w') p)" if lt: "p < brk (wheap w0)" for p
  proof (cases "cells (wheap w0) p")
    case None
    then show ?thesis using old [OF lt] none by simp
  next
    case (Some x)
    then have p: "cells (wheap w) p = Some x" "p \<notin> ?I" using old [OF lt] by auto
    obtain x' where "cells (wheap w') p = Some x'" "same_data x x'" "head_ok x' = head_ok x" "IsLocked (hdr x') = IsLocked (hdr x)"
      by (rule restored_cell [OF re p])
    then show ?thesis by (simp add: Some)
  qed
  have chain: "chain (cells (wheap w')) (Some p) (chain_at (wheap w0) p)" "chain_at (wheap w') p = chain_at (wheap w0) p"
      "versions (cells (wheap w')) (chain_at (wheap w0) p) = versions (cells (wheap w0)) (chain_at (wheap w0) p)"
      "\<exists>x. cells (wheap w') p = Some x \<and> head_ok x" if p: "?m b k = Some p" for b k p
  proof -
    note d = db_okD [where m = ?m, OF db0 p]
    have lt: "q < brk (wheap w0)" if "q \<in> set (chain_at (wheap w0) p)" for q using chain_below_brk [OF d(1,2) that] .
    have s: "same_on (set (chain_at (wheap w0) p)) (wheap w0) (wheap w')"
      unfolding same_on_def using keep lt by (blast intro: option.rel_mono_strong)
    show c: "chain (cells (wheap w')) (Some p) (chain_at (wheap w0) p)" by (rule chain_same [OF s d(2)])
    show "chain_at (wheap w') p = chain_at (wheap w0) p" by (rule chain_at_eq [OF ho' c])
    show "versions (cells (wheap w')) (chain_at (wheap w0) p) = versions (cells (wheap w0)) (chain_at (wheap w0) p)"
      by (rule versions_same [OF s])
    show "\<exists>x. cells (wheap w') p = Some x \<and> head_ok x" using keep [OF lt [OF d(4)]] d(3) by (auto simp: option_rel_Some1)
  qed
  have db': "db_ok ?m (wheap w')"
    unfolding db_ok_def
  proof (intro conjI allI impI)
    show "heap_ok (wheap w')" by (rule ho')
    fix b k p assume "?m b k = Some p"
    from chain [OF this] show "chain (cells (wheap w')) (Some p) (chain_at (wheap w') p)" "\<exists>x. cells (wheap w') p = Some x \<and> head_ok x"
      by simp_all
  next
    fix b k p b' k' p' assume a: "?m b k = Some p \<and> ?m b' k' = Some p' \<and> (b, k) \<noteq> (b', k')"
    then show "set (chain_at (wheap w') p) \<inter> set (chain_at (wheap w') p') = {}"
      using chain(2) db_okD(5) [where m = ?m, OF db0, of b k p b' k' p'] by auto
  qed
  have kv: "key_versions (wheap w') (?m b k) = key_versions (wheap w0) (?m b k)" for b k
    using chain(2,3) by (cases "?m b k") (auto simp: key_versions_def)
  have lk: "locked_at (wheap w') q = locked_at (wheap w0) q" for q
  proof (cases "q < brk (wheap w0)")
    case True
    then show ?thesis using keep [OF True] by (cases "cells (wheap w0) q"; cases "cells (wheap w') q") (auto simp: locked_at_def)
  next
    case False
    then have "cells (wheap w0) q = None" using ho0 by (simp add: heap_ok_def)
    moreover have "\<not> locked_at (wheap w') q"
    proof (cases "cells (wheap w) q")
      case None
      then show ?thesis using none by (simp add: locked_at_def)
    next
      case (Some x)
      then have "q \<in> ?I" using txn_invD(10) [OF inv, of q] False by auto
      then show ?thesis using restoredD(3) [OF re Some] by (auto simp: locked_at_def)
    qed
    ultimately show ?thesis by (simp add: locked_at_def)
  qed
  have "wlog w = wlog w0" "wgc w = wgc w0" by (subst txn_invD(13) [OF inv], simp)+
  then show ?thesis unfolding undone_def m using db' kv lk rest by simp
qed

section \<open>Whole transactions\<close>

text \<open>
  A transaction from its construction to its end: the calls, then \<^verbatim>\<open>commit\<close>, or \<^verbatim>\<open>abort\<close> when the caller gives
  up. The result is what the searches returned, or \<open>None\<close> when the transaction did not commit.
\<close>

definition run_txn ::
  "'ix env \<Rightarrow> u64 \<Rightarrow> bool \<Rightarrow> call list \<Rightarrow> 'ix world \<Rightarrow> fault + (bytes option list option \<times> bytes txn \<times> 'ix world)" where
  "run_txn E uninit give_up cs w =
     sbind (run_calls E cs (transaction_proto2 uninit (wlast_tick_ex w) 0) w) (\<lambda>(out, t1, w1).
       case out of
         Return rs \<Rightarrow>
           if give_up then sbind (abort_txn E t1 w1) (\<lambda>(_, t2, w2). Inr (None, t2, w2))
           else sbind (commit E False t1 w1) (\<lambda>(o2, t2, w2). Inr (if o2 = Return True then Some rs else None, t2, w2))
       | _ \<Rightarrow> Inr (None, t1, w1))"

lemma abort_impl_undone:
  assumes inv: "txn_inv M w0 wl t w" and st: "start_ok M w0" and L: "index_laws (e_ix E) M"
    and a: "abort_impl E r t w = Inr (out, t', w')"
  shows "undone M w0 w' \<and> state t' = TXN_ABRT"
proof -
  obtain w1 where w1: "release_inserts E (write_set t) w = Inr w1"
      "restored (wr_tuple ` {r \<in> set (write_set t). wr_insert r}) (wheap w) (wheap w1)"
      "M (windex w1) = unindexed ((\<lambda>r. (wr_btr r, wr_key r)) ` {r \<in> set (write_set t). wr_insert r}) (M (windex w))"
      "w1 = w\<lparr>wheap := wheap w1, windex := windex w1, wrcu := wrcu w @ map wr_tuple (filter wr_insert (write_set t))\<rparr>"
    using release_inserts_effect [OF L txn_invD(5) [OF inv]] by blast
  have "w' = w1" "t' = t\<lparr>state := TXN_ABRT, reason := r\<rparr>" using a w1(1) txn_invD(1) [OF inv] by (auto simp: abort_impl_def)
  moreover have "wlog w1 = wlog w" "wgc w1 = wgc w" by (subst w1(4), simp)+
  ultimately show ?thesis using restored_undone [OF inv st w1(2,3)] by simp
qed

lemma run_txn_phases:
  assumes st: "start_ok M w" and L: "index_laws (e_ix E) M" and cs: "\<forall>c \<in> set cs. call_ok c"
    and r: "run_txn E uninit give_up cs w = Inr (res, t', w')"
  obtains (aborted) wl t1 w1 a out where "res = None" "txn_inv M w wl t1 w1" "abort_impl E a t1 w1 = Inr (out, t', w')"
  | (committing) t1 w1 o2 where "txn_inv M w (writes_of cs) t1 w1" "commit E False t1 w1 = Inr (o2, t', w')"
      "res = (if o2 = Return True then Some (seen_results (db_value M w) [] cs) else None)"
proof -
  obtain out t1 w1 where rc: "run_calls E cs (transaction_proto2 uninit (wlast_tick_ex w) 0) w = Inr (out, t1, w1)"
    using r by (cases "run_calls E cs (transaction_proto2 uninit (wlast_tick_ex w) 0) w") (auto simp: run_txn_def)
  have post: "call_post E M w (writes_of cs) (seen_results (db_value M w) [] cs) out t1 w1"
    using run_calls_post [OF txn_inv_start [OF st] st L cs rc] by simp
  show ?thesis
  proof (cases out)
    case (Return rs)
    then have inv: "txn_inv M w (writes_of cs) t1 w1" and rs: "rs = seen_results (db_value M w) [] cs"
      using post by (simp_all add: call_post_def)
    show ?thesis
    proof (cases give_up)
      case True
      then obtain o2 where "abort_txn E t1 w1 = Inr (o2, t', w')" "res = None" using r rc Return by (auto simp: run_txn_def sbind_Inr)
      then show ?thesis using aborted inv by (simp add: abort_txn_def)
    next
      case False
      then obtain o2 where "commit E False t1 w1 = Inr (o2, t', w')" "res = (if o2 = Return True then Some rs else None)"
        using r rc Return by (auto simp: run_txn_def sbind_Inr)
      then show ?thesis using committing inv rs by simp
    qed
  next
    case (Abort_exn a)
    then obtain wl1 t2 w2 where "txn_inv M w wl1 t2 w2" "abort_impl E a t2 w2 = Inr (Return (), t1, w1)"
      using post by (auto simp: call_post_def)
    moreover have "res = None" "t' = t1" "w' = w1" using r rc Abort_exn by (auto simp: run_txn_def)
    ultimately show ?thesis using aborted by blast
  next
    case Unusable_exn
    then show ?thesis using post by (simp add: call_post_def)
  qed
qed

text \<open>
  Property C2 (aborted transactions leave no trace). Whatever calls a transaction made and however it ended
  without committing (an exception of a call, \<^verbatim>\<open>abort\<close>, or a failed \<^verbatim>\<open>commit\<close>): every key leads to the same versions as
  before it started, no lock is left, log and garbage queues are untouched, and the transaction is in
  \<^verbatim>\<open>TXN_ABRT\<close>.
\<close>

theorem run_txn_aborted:
  assumes "start_ok M w" and "index_laws (e_ix E) M" and "\<forall>c \<in> set cs. call_ok c"
    and "run_txn E uninit give_up cs w = Inr (None, t', w')"
  shows "undone M w w' \<and> state t' = TXN_ABRT"
proof (rule run_txn_phases [OF assms])
  fix wl t1 w1 a out assume "txn_inv M w wl t1 w1" "abort_impl E a t1 w1 = Inr (out, t', w')"
  then show ?thesis using abort_impl_undone [OF _ assms(1,2)] by blast
next
  fix t1 w1 o2 assume inv: "txn_inv M w (writes_of cs) t1 w1" and c: "commit E False t1 w1 = Inr (o2, t', w')"
    and "None = (if o2 = Return True then Some (seen_results (db_value M w) [] cs) else None)"
  then have no: "o2 \<noteq> Return True" by auto
  note a = failed_commit [OF assms(2) txn_invD(1,2,5) [OF inv] c no]
  then show ?thesis using restored_undone [OF inv assms(1), of w'] by blast
qed

lemma last_write_spec: "last_write ws b k = map_of (rev (map (\<lambda>r. (rec_key r, wr_value r)) ws)) (b, k)"
  by (induction ws) (auto simp: map_add_def rec_key_def split: option.splits)

lemma installs_over_marker: "installs tid v [(MAX_TID, u)] vs \<Longrightarrow> installs tid v [] vs"
proof -
  have "\<not> MAX_TID \<le> s" if "\<not> tid \<le> s" for s :: u64 using that order_trans [of tid MAX_TID s] by (auto simp: MAX_TID_def)
  then show "installs tid v [(MAX_TID, u)] vs \<Longrightarrow> installs tid v [] vs" by (simp add: installs_def)
qed

lemma tid_room_MIN: "tid_room tick MIN_TID"
  by (simp add: tid_room_def MIN_TID_def EpochId_bits NumId_bits)

lemma start_version:
  assumes inv: "txn_inv M w0 wl t w" and st: "start_ok M w0" and r: "r \<in> set (write_set t)"
    and x: "cells (wheap w) (wr_tuple r) = Some x" "tversion x \<noteq> MAX_TID"
  shows "tversion x \<noteq> 0 \<and> tid_room (wtick w0) (tversion x)"
proof -
  let ?b = "wr_btr r" and ?k = "wr_key r"
  note k = txn_invD(7) [OF inv r]
  have "\<not> (\<exists>s \<in> set (write_set t). wr_insert s \<and> rec_key s = (?b, ?k))"
  proof
    assume "\<exists>s \<in> set (write_set t). wr_insert s \<and> rec_key s = (?b, ?k)"
    then obtain s where s: "s \<in> set (write_set t)" "wr_insert s" "rec_key s = (?b, ?k)" by blast
    then have "wr_tuple s = wr_tuple r" using txn_invD(7) [OF inv s(1)] k by (simp add: rec_key_def)
    moreover have "marker (wheap w) (wr_tuple s)" using txn_invD(5) [OF inv] s(1,2) by (simp add: write_set_ok_def)
    ultimately show False using x by (auto simp: marker_def)
  qed
  then have k0: "M (windex w0) ?b ?k = Some (wr_tuple r)" using txn_invD(8) [OF inv, of ?b ?k] k by simp
  have db0: "db_ok (M (windex w0)) (wheap w0)" using st by (simp add: start_ok_def)
  have "cells (wheap w0) (wr_tuple r) = Some x"
    using grows_chain(3) [where m = "M (windex w0)", OF db0 txn_invD(9) [OF inv] k0] x(1) by simp
  then show ?thesis using st k0 unfolding start_ok_def by blast
qed

lemma inv_tids_ok:
  assumes inv: "txn_inv M w0 wl t w" and st: "start_ok M w0"
  shows "tids_ok t w" and "gc_ok (wtick w) w"
proof -
  have same: "wcore w = wcore w0" "wtick w = wtick w0" "wtid w = wtid w0" "wgc w = wgc w0"
    by (subst txn_invD(13) [OF inv], simp)+
  have v: "u \<noteq> 0 \<and> tid_room (wtick w0) u" if u: "u \<in> written_versions (write_set t) (wheap w)" for u
  proof -
    obtain x r where x: "u = tversion x" "r \<in> set (write_set t)" "cells (wheap w) (wr_tuple r) = Some x" "tversion x \<noteq> MAX_TID"
      using u unfolding written_versions_def by blast
    show ?thesis unfolding x(1) by (rule start_version [OF inv st x(2-4)])
  qed
  have r: "tid_room (wtick w0) u" if "u \<in> rr_tid ` set (read_set t)" for u
    using that txn_invD(12) [OF inv] tid_room_MIN by (metis imageE)
  show "tids_ok t w"
    unfolding tids_ok_def same using st v r by (auto simp: start_ok_def tid_room_def)
  show "gc_ok (wtick w) w" using st same gc_ok_cong [of w w0 "wtick w"] by (simp add: start_ok_def)
qed

text \<open>The effect of the commit, seen from the start of the transaction.\<close>

lemma commit_effect_from_start:
  assumes inv: "txn_inv M w0 wl t w" and st: "start_ok M w0" and e: "commit_effect M tid (write_set t) w w'"
  shows "key_effect tid (map_of (rev wl) (b, k)) (key_versions (wheap w0) (M (windex w0) b k)) (key_versions (wheap w') (M (windex w') b k))"
    and "locked_at (wheap w') q = locked_at (wheap w0) q"
proof -
  have db0: "db_ok (M (windex w0)) (wheap w0)" using st by (simp add: start_ok_def)
  have lw: "last_write (write_set t) b k = map_of (rev wl) (b, k)" unfolding last_write_spec txn_invD(3) [OF inv] ..
  have ke: "key_effect tid (map_of (rev wl) (b, k)) (key_versions (wheap w) (M (windex w) b k)) (key_versions (wheap w') (M (windex w') b k))"
    using e unfolding commit_effect_def lw [symmetric] by blast
  show "key_effect tid (map_of (rev wl) (b, k)) (key_versions (wheap w0) (M (windex w0) b k)) (key_versions (wheap w') (M (windex w') b k))"
  proof (cases "\<exists>r \<in> set (write_set t). wr_insert r \<and> rec_key r = (b, k)")
    case False
    then have "M (windex w) b k = M (windex w0) b k" using txn_invD(8) [OF inv, of b k, unfolded if_not_P [OF False]] by simp
    then show ?thesis using ke db_ok_grows(2) [OF db0 txn_invD(9) [OF inv], of b k] by simp
  next
    case True
    then obtain r where r: "r \<in> set (write_set t)" "wr_insert r" "rec_key r = (b, k)" by blast
    have k: "M (windex w) b k = Some (wr_tuple r)" using txn_invD(7) [OF inv r(1)] r(3) by (simp add: rec_key_def)
    have "fresh_insert (wheap w) r" using txn_invD(6) [OF inv] r(1,2) by (simp add: writes_ok_def)
    then obtain x where x: "cells (wheap w) (wr_tuple r) = Some x" "tversion x = MAX_TID" "tnext x = None"
      by (auto simp: fresh_insert_def)
    have "heap_ok (wheap w)" using txn_invD(4) [OF inv] by (simp add: db_ok_def)
    then have "chain_at (wheap w) (wr_tuple r) = [wr_tuple r]" using x by (intro chain_at_eq) auto
    then have marker: "key_versions (wheap w) (M (windex w) b k) = [(MAX_TID, tuple_value x)]"
      using x by (simp add: k key_versions_def versions_def)
    have old: "M (windex w0) b k = None" using txn_invD(8) [OF inv, of b k] True by simp
    have "last_write (write_set t) b k \<noteq> None" using r unfolding last_write_None by (auto simp: rec_key_def)
    then obtain v where v: "map_of (rev wl) (b, k) = Some v" using lw by auto
    then show ?thesis using ke installs_over_marker unfolding marker v key_effect_def by (auto simp: old key_versions_def)
  qed
  have lk: "locked_at (wheap w') q \<longleftrightarrow> locked_at (wheap w) q \<and> q \<notin> wr_tuple ` {r \<in> set (write_set t). wr_insert r}"
    using e unfolding commit_effect_def by blast
  show "locked_at (wheap w') q = locked_at (wheap w0) q"
  proof (cases "q < brk (wheap w0)")
    case True
    then have "q \<notin> wr_tuple ` {r \<in> set (write_set t). wr_insert r}" "cells (wheap w) q = cells (wheap w0) q"
      using txn_invD(9,11) [OF inv] by (auto simp: grows_def not_less [symmetric])
    then show ?thesis using lk by (simp add: locked_at_def)
  next
    case False
    have "heap_ok (wheap w0)" using db0 by (simp add: db_ok_def)
    then have "\<not> locked_at (wheap w0) q" using False by (auto simp: heap_ok_def locked_at_def)
    moreover have "locked_at (wheap w) q \<Longrightarrow> q \<in> wr_tuple ` {r \<in> set (write_set t). wr_insert r}"
      using txn_invD(10) [OF inv, of q] False by (auto simp: locked_at_def)
    ultimately show ?thesis using lk by blast
  qed
qed

text \<open>
  Property C1 (transactions are atomic). A transaction that commits has the effect of running alone. From the commit id on
  every key it wrote shows its last value, while older snapshots and all other keys see what they saw before; no lock
  is left. Its searches returned the values the database held at its start, and for a key it had written itself its latest
  uncommitted value, unless some search was of a key it had by then written more than once (what such a search returns is
  property C38).
\<close>

theorem run_txn_committed:
  assumes "start_ok M w" and "index_laws (e_ix E) M" and "\<forall>c \<in> set cs. call_ok c"
    and "run_txn E uninit give_up cs w = Inr (Some rs, t', w')"
  shows "(reads_settled [] cs \<longrightarrow> rs = spec_results (db_value M w) [] cs) \<and> state t' = TXN_COMMITED \<and> db_ok (M (windex w')) (wheap w') \<and>
    (\<exists>tid. (writes_of cs \<noteq> [] \<longrightarrow> CoreId tid = of_nat (wcore w) \<and> EpochId tid = wtick w \<and> last_commit_tid (wtid w) < tid) \<and>
       (\<forall>b k. key_effect tid (map_of (rev (writes_of cs)) (b, k))
          (key_versions (wheap w) (M (windex w) b k)) (key_versions (wheap w') (M (windex w') b k)))) \<and>
    (\<forall>q. locked_at (wheap w') q = locked_at (wheap w) q)"
proof (rule run_txn_phases [OF assms])
  fix t1 w1 o2 assume inv: "txn_inv M w (writes_of cs) t1 w1" and c: "commit E False t1 w1 = Inr (o2, t', w')"
    and "Some rs = (if o2 = Return True then Some (seen_results (db_value M w) [] cs) else None)"
  then have yes: "o2 = Return True" "reads_settled [] cs \<longrightarrow> rs = spec_results (db_value M w) [] cs"
    using seen_settled by (simp_all split: if_splits)
  have same: "wcore w1 = wcore w" "wtick w1 = wtick w" "wtid w1 = wtid w" by (subst txn_invD(13) [OF inv], simp)+
  note d = txn_invD [OF inv]
  show ?thesis
  proof (cases "write_set t1 = []")
    case False
    obtain tid where tid: "state t' = TXN_COMMITED" "CoreId tid = of_nat (wcore w1)" "EpochId tid = wtick w1"
        "last_commit_tid (wtid w1) < tid" "commit_effect M tid (write_set t1) w1 w'"
      using successful_commit [OF assms(2) d(1,2,5,6) inv_tids_ok(1) [OF inv assms(1)] d(4) inv_tids_ok(2) [OF inv assms(1)] False c [unfolded yes(1)]]
      by blast
    have "db_ok (M (windex w')) (wheap w')" using tid(5) by (simp add: commit_effect_def)
    then show ?thesis
      using yes(2) tid(1-4) commit_effect_from_start [OF inv assms(1) tid(5)] same by auto
  next
    case True
    then have nil: "writes_of cs = []" using d(3) by simp
    have v: "validate_and_write E False None [] t1 w1 = Inr (Return True, t', w')"
      using c True yes(1) d(1,2) by (auto simp: commit_def)
    then have eq: "t' = t1\<lparr>state := TXN_COMMITED\<rparr>" "w' = w1"
      using validate_and_write_Inr [OF v] by (auto simp: do_abort_def sbind_Inr Let_def split: if_splits)
    have "commit_effect M 0 (write_set t1) w1 w1" using d(4) True by (simp add: commit_effect_def key_effect_def)
    from commit_effect_from_start [OF inv assms(1) this] show ?thesis using yes(2) eq d(4) nil by auto
  qed
qed simp

section \<open>Examples\<close>

text \<open>One key, \<open>[2]\<close>, with the value \<open>[9]\<close>.\<close>

definition one_heap :: heap where
  "one_heap = \<lparr>cells = [0 \<mapsto> \<lparr>hdr = 16, tversion = 5, tsize = 1, alloc_size = 8, tnext = None, value_start = 9 # replicate 7 0\<rparr>],
     brk = 1, raw = (\<lambda>_ _. 0)\<rparr>"

definition one_keys :: "btree \<Rightarrow> bytes \<Rightarrow> ptr option" where
  "one_keys b k = (if b = 0 \<and> k = [2] then Some 0 else None)"

definition one_world :: "flat_index world" where
  "one_world = flat_world one_heap one_keys 60"

lemma one_start: "start_ok fst one_world"
proof -
  have h: "heap_ok one_heap" by (auto simp: heap_ok_def one_heap_def)
  have c: "chain (cells one_heap) (Some 0) [0]" by (simp add: one_heap_def)
  have at: "chain_at one_heap 0 = [0]" by (rule chain_at_eq [OF h c])
  have x: "\<exists>x. cells one_heap 0 = Some x \<and> head_ok x" by (simp add: one_heap_def head_ok_def buffer_ok_def demo_flags)
  have k: "one_keys b k = Some p \<longleftrightarrow> b = 0 \<and> k = [2] \<and> p = 0" for b k p by (auto simp: one_keys_def)
  have "db_ok one_keys one_heap" unfolding db_ok_def k using h c at x by auto
  moreover have "gc_ok 60 one_world" by (simp add: gc_ok_def one_world_def flat_world_def gq_new_ok)
  moreover have "tid_room 60 5" "tid_room 60 0" by (simp_all add: tid_room_def EpochId_bits NumId_bits mask_eq_exp_minus_1)
  ultimately show ?thesis
    unfolding start_ok_def by (auto simp: one_world_def flat_world_def k) (auto simp: one_heap_def MAX_TID_def)
qed

lemma abort_impl_returns:
  assumes "txn_inv M w0 wl t w" and "index_laws (e_ix E) M"
  shows "\<exists>t' w'. abort_impl E a t w = Inr (Return (), t', w')"
  using release_inserts_effect [OF assms(2) txn_invD(5) [OF assms(1)]] txn_invD(1) [OF assms(1)] by (auto simp: abort_impl_def)

text \<open>A transaction that inserts the key \<open>[1]\<close> and gives up.\<close>

theorem run_txn_aborted_witness:
  "\<exists>t' w'. run_txn flat_env 0 True [Insert 0 [1] [7]] one_world = Inr (None, t', w') \<and>
    fst (windex w') 0 [1] = None \<and> fst (windex w') 0 [2] = Some 0"
proof -
  let ?t = "ensure_active (transaction_proto2 0 (wlast_tick_ex one_world) 0 :: bytes txn)"
  have inv: "txn_inv fst one_world [] ?t one_world" by (rule ensure_active_inv [OF txn_inv_start [OF one_start]])
  have k: "fst (windex one_world) 0 [1] = None" by (simp add: one_world_def flat_world_def one_keys_def)
  have v: "value_ok (Some [7])" by (simp add: value_ok_def)
  obtain px bad t1 w1 where i: "try_insert_new_tuple flat_env 0 [1] (Some [7]) string_writer ?t one_world = Inr ((px, bad), t1, w1)"
      "px \<noteq> None" "txn_inv fst one_world [((0, [1]), Some [7])] t1 w1"
    using try_insert_post [OF inv flat_laws v, of 0 "[1]"] k by auto
  have ns: "\<not> is_snapshot ?t" by (rule txn_invD(2) [OF inv])
  have ab: "\<exists>t' w'. abort_impl flat_env a t1 w1 = Inr (Return (), t', w')" for a by (rule abort_impl_returns [OF i(3) flat_laws])
  have "\<exists>t' w'. run_txn flat_env 0 True [Insert 0 [1] [7]] one_world = Inr (None, t', w')"
  proof (cases bad)
    case True
    obtain t' w' where "abort_impl flat_env ABORT_REASON_WRITE_NODE_INTERFERENCE t1 w1 = Inr (Return (), t', w')" using ab by blast
    then show ?thesis
      using i(1) ns True by (simp add: run_txn_def string_insert_def do_tree_put_def put_rounds_def numeral_2_eq_2 abort_throw_def Let_def)
  next
    case False
    obtain t' w' where "abort_impl flat_env ABORT_REASON_USER t1 w1 = Inr (Return (), t', w')" using ab by blast
    then show ?thesis
      using i(1,2) ns False by (auto simp: run_txn_def string_insert_def do_tree_put_def put_rounds_def numeral_2_eq_2 abort_txn_def Let_def)
  qed
  then obtain t' w' where r: "run_txn flat_env 0 True [Insert 0 [1] [7]] one_world = Inr (None, t', w')" by blast
  have "undone fst one_world w'" using run_txn_aborted [OF one_start flat_laws _ r] by simp
  then have "fst (windex w') = one_keys" by (simp add: undone_def one_world_def flat_world_def)
  then show ?thesis using r by (auto simp: one_keys_def)
qed

text \<open>Transactions that read \<open>[2]\<close>, write it once or twice and read it again; they see their first write.\<close>

lemma one_read:
  "ix_search (e_ix flat_env) (windex one_world) 0 [2] = (Some 0, 0, 0)"
  "\<exists>\<tau>'. stable_read (read_fuel (wheap one_world)) (\<lambda>_. cells (wheap one_world)) 0 0 MAX_TID (single_value_reader no_limit) False =
     Inr (Some (READ_RECORD, 5, Some [9], \<tau>'))"
proof -
  show "ix_search (e_ix flat_env) (windex one_world) 0 [2] = (Some 0, 0, 0)"
    by (simp add: flat_env_def flat_ops_def one_world_def flat_world_def one_keys_def)
  let ?x = "\<lparr>hdr = 16, tversion = 5, tsize = 1, alloc_size = 8, tnext = None, value_start = 9 # replicate 7 0\<rparr>"
  have H: "wheap one_world = one_heap" "cells one_heap 0 = Some ?x" by (simp_all add: one_world_def flat_world_def one_heap_def)
  have m: "\<not> IsModifying 16" unfolding hdr_flag_bits by simp
  have rd: "readable False ?x" using demo_flags m by (simp add: readable_def tuple_wf_def)
  have val: "tuple_value ?x = Some [9]" by (simp add: tuple_value_def demo_flags)
  have snap: "snapshot_of (versions (cells one_heap) [0]) MAX_TID = (5, Some [9])"
    using val by (simp add: versions_def H(2) MAX_TID_def)
  obtain \<tau>' where "record_at_chain (read_fuel one_heap) (\<lambda>_. cells one_heap) (Suc 0) 0 MAX_TID (single_value_reader no_limit) False =
      Inr (Some (READ_RECORD, 5, single_value_reader no_limit [9], \<tau>'))"
    using record_at_chain_frozen [where M = "cells one_heap" and p = 0 and ps = "[0]" and awi = False and t = MAX_TID and \<tau> = "Suc 0"
      and reader = "single_value_reader no_limit" and fuel = "read_fuel one_heap"] rd H(2)
    unfolding snap by (auto simp: single_value_reader_def read_fuel_def)
  then show "\<exists>\<tau>'. stable_read (read_fuel (wheap one_world)) (\<lambda>_. cells (wheap one_world)) 0 0 MAX_TID (single_value_reader no_limit) False =
      Inr (Some (READ_RECORD, 5, Some [9], \<tau>'))"
    unfolding H(1) by (auto simp: stable_read_def load_def H(2) MAX_TID_def no_limit_reader)
qed

lemma one_run:
  "\<exists>t1. run_calls flat_env [Search 0 [2], Put 0 [2] [6, 6], Search 0 [2]] (transaction_proto2 0 u 0) one_world =
     Inr (Return [Some [9], Some [6, 6]], t1, one_world) \<and> read_set t1 = [\<lparr>rr_tuple = 0, rr_tid = 5\<rparr>] \<and> absent_set t1 = [] \<and>
     write_set t1 = [new_write_record 0 [2] (Some [6, 6]) string_writer 0 False]"
  "\<exists>t1. run_calls flat_env [Search 0 [2], Put 0 [2] [8], Put 0 [2] [6, 6], Search 0 [2]] (transaction_proto2 0 u 0) one_world =
     Inr (Return [Some [9], Some [8]], t1, one_world) \<and>
     write_set t1 = [new_write_record 0 [2] (Some [8]) string_writer 0 False, new_write_record 0 [2] (Some [6, 6]) string_writer 0 False]"
proof -
  obtain \<tau>' where sr: "stable_read (read_fuel (wheap one_world)) (\<lambda>_. cells (wheap one_world)) 0 0 MAX_TID (single_value_reader no_limit) False =
      Inr (Some (READ_RECORD, 5, Some [9], \<tau>'))" using one_read(2) by blast
  note run_simps = string_search_def do_search_def one_read(1) do_tuple_read_def transaction_proto2_def is_snapshot_def sr can_read_tid_def
    ensure_active_def string_put_def do_tree_put_def put_rounds_def numeral_2_eq_2 new_write_record_def single_value_dup_def Let_def
  show "\<exists>t1. run_calls flat_env [Search 0 [2], Put 0 [2] [6, 6], Search 0 [2]] (transaction_proto2 0 u 0) one_world =
      Inr (Return [Some [9], Some [6, 6]], t1, one_world) \<and> read_set t1 = [\<lparr>rr_tuple = 0, rr_tid = 5\<rparr>] \<and> absent_set t1 = [] \<and>
      write_set t1 = [new_write_record 0 [2] (Some [6, 6]) string_writer 0 False]"
    by (simp add: run_simps)
  show "\<exists>t1. run_calls flat_env [Search 0 [2], Put 0 [2] [8], Put 0 [2] [6, 6], Search 0 [2]] (transaction_proto2 0 u 0) one_world =
      Inr (Return [Some [9], Some [8]], t1, one_world) \<and>
      write_set t1 = [new_write_record 0 [2] (Some [8]) string_writer 0 False, new_write_record 0 [2] (Some [6, 6]) string_writer 0 False]"
    by (simp add: run_simps)
qed

theorem run_txn_committed_witness:
  "\<exists>rs t' w' tid. run_txn flat_env 0 False [Search 0 [2], Put 0 [2] [6, 6], Search 0 [2]] one_world = Inr (Some rs, t', w') \<and>
     rs = spec_results (db_value fst one_world) [] [Search 0 [2], Put 0 [2] [6, 6], Search 0 [2]] \<and> rs = [Some [9], Some [6, 6]] \<and>
     EpochId tid = 60 \<and> snapshot_of (key_versions (wheap w') (fst (windex w') 0 [2])) tid = (tid, Some [6, 6])"
proof -
  let ?cs = "[Search 0 [2], Put 0 [2] [6, 6], Search 0 [2]]"
  let ?rs = "[Some [9], Some [6, 6]]"
  obtain t1 where r1: "run_calls flat_env ?cs (transaction_proto2 0 (wlast_tick_ex one_world) 0) one_world = Inr (Return ?rs, t1, one_world)"
    and t1: "read_set t1 = [\<lparr>rr_tuple = 0, rr_tid = 5\<rparr>]" "absent_set t1 = []"
      "write_set t1 = [new_write_record 0 [2] (Some [6, 6]) string_writer 0 False]"
    using one_run(1) by blast
  have ok: "\<forall>c \<in> set ?cs. call_ok c" by simp
  have inv: "txn_inv fst one_world (writes_of ?cs) t1 one_world"
    using run_calls_post [OF txn_inv_start [OF one_start] one_start flat_laws ok r1] by (simp add: call_post_def)
  note d = txn_invD [OF inv]
  have free: "\<forall>r \<in> set (write_set t1). (\<exists>s \<in> set (write_set t1). wr_tuple s = wr_tuple r \<and> wr_insert s) \<or> lock_free (wheap one_world) (wr_tuple r)"
      "reads_stable t1 (wheap one_world)" "validate_nodes flat_env (absent_set t1) (windex one_world)"
      "log_ready (wcore one_world) (write_set t1) (wlog one_world)"
    by (simp_all add: t1 new_write_record_def lock_free_def lockable_def latest_at_def reads_stable_def one_world_def flat_world_def
        one_heap_def demo_flags MAX_TID_def is_latest_version_def is_not_behind_def log_ready_def)
  obtain t' w' where "commit flat_env False t1 one_world = Inr (Return True, t', w')"
    using undisturbed_commit [OF flat_laws d(1,2,5,6) inv_tids_ok(1) [OF inv one_start] d(4) inv_tids_ok(2) [OF inv one_start] free] by blast
  then have r: "run_txn flat_env 0 False ?cs one_world = Inr (Some ?rs, t', w')" using r1 by (simp add: run_txn_def)
  note c = run_txn_committed [OF one_start flat_laws ok r]
  have "reads_settled [] ?cs" by simp
  then have rs: "?rs = spec_results (db_value fst one_world) [] ?cs" using c by blast
  obtain tid where tid: "EpochId tid = wtick one_world" and e: "\<forall>b k. key_effect tid (map_of (rev (writes_of ?cs)) (b, k))
      (key_versions (wheap one_world) (fst (windex one_world) b k)) (key_versions (wheap w') (fst (windex w') b k))"
    using c by auto
  have "map_of (rev (writes_of ?cs)) (0, [2]) = Some (Some [6, 6])" by simp
  then have "installs tid (Some [6, 6]) (key_versions (wheap one_world) (fst (windex one_world) 0 [2])) (key_versions (wheap w') (fst (windex w') 0 [2]))"
    using spec [OF spec [OF e, of 0], of "[2]"] unfolding key_effect_def by simp
  then have "snapshot_of (key_versions (wheap w') (fst (windex w') 0 [2])) tid = (tid, Some [6, 6])" unfolding installs_def by blast
  moreover have "EpochId tid = 60" using tid by (simp add: one_world_def flat_world_def)
  ultimately show ?thesis using r rs by blast
qed

text \<open>
  Property C38 (own writes). With \<^verbatim>\<open>read_own_writes\<close>, a search of a key the transaction has written returns the
  value of its first write to it, although the commit will install the last one: after two puts the search
  does not return the latest uncommitted value.
\<close>

theorem own_read_is_first_write:
  assumes "txn_inv M w0 wl t w" and "index_laws (e_ix E) M" and "map_of wl (b, k) = Some v"
  shows "string_search E True max_bytes_read b k t w = Inr (Return v, ensure_active t, w)"
proof -
  obtain p where p: "M (windex w) b k = Some p" using no_own_write(1) [OF assms(1)] assms(3) by fastforce
  then obtain r where r: "find_write_set p (write_set t) = Some r" "wr_value r = v"
    using own_write [OF assms(1) p] assms(3) by auto
  have "fst (ix_search (e_ix E) (windex w) b k) = Some p" using assms(2) p unfolding index_laws_def by metis
  then obtain nv where s: "ix_search (e_ix E) (windex w) b k = (Some p, nv)" by (cases "ix_search (e_ix E) (windex w) b k") auto
  have "write_set (ensure_active t) = write_set t" by (simp add: ensure_active_def)
  then show ?thesis
    using r s by (auto simp: string_search_def do_search_def do_tuple_read_def Let_def single_value_dup_def [abs_def] option.map_ident)
qed

theorem own_read_is_first_write_witness:
  "\<exists>(t :: bytes txn) t'. map (\<lambda>r. wr_value r) (write_set t) = [Some [8], Some [6, 6]] \<and>
     string_search flat_env True no_limit 0 [2] t one_world = Inr (Return (Some [8]), t', one_world)"
proof -
  let ?cs = "[Search 0 [2], Put 0 [2] [8], Put 0 [2] [6, 6], Search 0 [2]]"
  obtain t1 where r1: "run_calls flat_env ?cs (transaction_proto2 0 0 0) one_world = Inr (Return [Some [9], Some [8]], t1, one_world)"
    and ws: "write_set t1 = [new_write_record 0 [2] (Some [8]) string_writer 0 False, new_write_record 0 [2] (Some [6, 6]) string_writer 0 False]"
    using one_run(2) by blast
  have ok: "\<forall>c \<in> set ?cs. call_ok c" by simp
  have "txn_inv fst one_world (writes_of ?cs) t1 one_world"
    using run_calls_post [OF txn_inv_start [OF one_start] one_start flat_laws ok r1] by (simp add: call_post_def)
  from own_read_is_first_write [OF this flat_laws, of 0 "[2]" "Some [8]" no_limit] show ?thesis
    using ws by (intro exI [of _ t1] exI [of _ "ensure_active t1"]) (simp add: new_write_record_def)
qed

end
