(* ===== verification/Txn_Gc.thy ===== *)
theory Txn_Gc
  imports Txn_Run Ticker
begin

text \<open>
  Garbage collection of old versions and deleted records (\<^verbatim>\<open>clean_up_to_including\<close> and
  \<^verbatim>\<open>PurgeThreadOutstandingGCTasks\<close> in \<^verbatim>\<open>src/src/txn_proto2_impl.cc\<close>, \<^verbatim>\<open>on_post_rcu_region_completion\<close> in
  \<^verbatim>\<open>src/src/txn_proto2_impl.h\<close>): which read-only epoch it may clean up to, and what cleaning does.
\<close>

section \<open>Cleaning one entry\<close>

text \<open>A tuple is freed on the spot: nobody can read it any more.\<close>

definition release_no_rcu :: "ptr \<Rightarrow> 'ix world \<Rightarrow> fault + 'ix world" where
  "release_no_rcu p w = sbind (lift_mem (tuple_at (wheap w) p)) (\<lambda>_. Inr (w\<lparr>wheap := heap_free p (wheap w)\<rparr>))"

definition reclaim_string :: "delete_entry \<Rightarrow> 'ix world \<Rightarrow> 'ix world" where
  "reclaim_string d w = (case de_key d of None \<Rightarrow> w | Some s \<Rightarrow> w\<lparr>wpool := wpool w @ [s]\<rparr>)"

text \<open>A deleted tuple that is not the latest any more waits once more, as an old version.\<close>

definition gc_requeue :: "delete_entry \<Rightarrow> 'ix world \<Rightarrow> fault + 'ix world" where
  "gc_requeue d w =
     sbind (gc_enqueue \<lparr>de_tuple = de_tuple d, de_key = None, de_flag = False, de_btr = None\<rparr> (to_read_only_tick (wtick w)) w)
       (\<lambda>w1. Inr (reclaim_string d w1))"

text \<open>The key of a deleted tuple is in its record, or in a string when it did not fit.\<close>

definition deleted_key :: "delete_entry \<Rightarrow> dbtuple \<Rightarrow> 'ix world \<Rightarrow> bytes" where
  "deleted_key d x w = (case de_key d of None \<Rightarrow> take (unat (tsize x)) (value_start x) | Some s \<Rightarrow> wstrs w s)"

definition gc_remove :: "'ix env \<Rightarrow> delete_entry \<Rightarrow> dbtuple \<Rightarrow> 'ix world \<Rightarrow> fault + 'ix world" where
  "gc_remove E d x w =
     (case de_btr d of
        None \<Rightarrow> Inl (Mem Past_end)
      | Some b \<Rightarrow>
          (case ix_remove (e_ix E) (windex w) b (deleted_key d x w) of
             None \<Rightarrow> Inl (Mem Assert_failed)
           | Some (removed, ix) \<Rightarrow>
               sbind (clear_latest (de_tuple d) (wheap w)) (\<lambda>H.
                 Inr ((reclaim_string d w)\<lparr>windex := ix, wheap := H, wrcu := wrcu w @ [de_tuple d]\<rparr>))))"

text \<open>The body of the loop; \<^verbatim>\<open>lock_guard\<close> unlocks at the end of the block, also on \<^verbatim>\<open>continue\<close>.\<close>

definition clean_entry :: "'ix env \<Rightarrow> delete_entry \<Rightarrow> 'ix world \<Rightarrow> fault + 'ix world" where
  "clean_entry E d w =
     (if \<not> de_flag d then release_no_rcu (de_tuple d) w
      else
        sbind (lock_tuple False (de_tuple d) (wheap w)) (\<lambda>(_, H).
        sbind (lift_mem (tuple_at H (de_tuple d))) (\<lambda>x.
        sbind (if \<not> IsLatest (hdr x) then gc_requeue d (w\<lparr>wheap := H\<rparr>) else gc_remove E d x (w\<lparr>wheap := H\<rparr>)) (\<lambda>w1.
          unlock_world (de_tuple d) w1))))"

fun clean_entries :: "'ix env \<Rightarrow> delete_entry list \<Rightarrow> 'ix world \<Rightarrow> fault + 'ix world" where
  "clean_entries E [] w = Inr w"
| "clean_entries E (d # ds) w = sbind (clean_entry E d w) (\<lambda>w1. clean_entries E ds w1)"

section \<open>Cleaning up\<close>

text \<open>\<^verbatim>\<open>last_reaped_epoch_\<close> is a 32-bit number.\<close>

definition clean_up_to_including :: "'ix env \<Rightarrow> u64 \<Rightarrow> 'ix world \<Rightarrow> fault + 'ix world" where
  "clean_up_to_including E ro_tick_geq w =
     (if ucast (wlast_reaped w) = ro_tick_geq then Inr w
      else let fuel = Suc (GC_GroupSize * ngroups (queue (wgc w)))
           in case gq_accept fuel ro_tick_geq (wgc w) of
                None \<Rightarrow> Inl (Mem Assert_failed)
              | Some q \<Rightarrow>
                  let w1 = w\<lparr>wlast_reaped := ucast ro_tick_geq, wgc := q\<rparr>
                  in if pxq_empty (scratch q) then Inr w1
                     else case iterate fuel (gstore q) (q_head (scratch q), 0) of
                            None \<Rightarrow> Inl (Mem Past_end)
                          | Some es \<Rightarrow>
                              sbind (clean_entries E (map fst es) w1) (\<lambda>w2. Inr (w2\<lparr>wgc := gq_clear (wgc w2)\<rparr>)))"

text \<open>Up to which read-only epoch a thread cleans after a transaction; \<open>None\<close>: there is nothing to clean yet.\<close>

definition gc_bound :: "u64 \<Rightarrow> u64 option" where
  "gc_bound last_tick_ex =
     (if last_tick_ex = 0 then None
      else let ro_tick_ex = to_read_only_tick (last_tick_ex - 1)
           in if ro_tick_ex = 0 then None else Some (ro_tick_ex - 1))"

definition on_post_rcu_region_completion :: "'ix env \<Rightarrow> 'ix world \<Rightarrow> fault + 'ix world" where
  "on_post_rcu_region_completion E w =
     (case gc_bound (wlast_tick_ex w) of None \<Rightarrow> Inr w | Some ro_tick_geq \<Rightarrow> clean_up_to_including E ro_tick_geq w)"

text \<open>
  \<^verbatim>\<open>PurgeThreadOutstandingGCTasks\<close> waits until the ticker allows the newest epoch of the queue; \<open>reads\<close> are the
  values of \<^verbatim>\<open>global_last_tick_exclusive()\<close> its loop sees, one per round.
\<close>

definition purge_ready :: "u64 \<Rightarrow> u64 \<Rightarrow> bool" where
  "purge_ready e last_tick_ex \<longleftrightarrow>
     (let ro_tick_ex = to_read_only_tick last_tick_ex
      in ro_tick_ex \<noteq> 0 \<and> \<not> ro_tick_ex - 1 < e)"

fun purge_wait :: "u64 \<Rightarrow> u64 list \<Rightarrow> fault + unit" where
  "purge_wait e [] = Inl Spin"
| "purge_wait e (t # ts) = (if purge_ready e t then Inr () else purge_wait e ts)"

definition PurgeThreadOutstandingGCTasks :: "'ix env \<Rightarrow> u64 list \<Rightarrow> 'ix world \<Rightarrow> fault + 'ix world" where
  "PurgeThreadOutstandingGCTasks E reads w =
     (case get_latest_epoch (gstore (wgc w)) (queue (wgc w)) of
        None \<Rightarrow> Inr w
      | Some e \<Rightarrow> sbind (purge_wait e reads) (\<lambda>_. clean_up_to_including E e w))"

section \<open>Which snapshots may be running\<close>

text \<open>
  An id of a read-only epoch that may be cleaned is not newer than the snapshot of any transaction that could
  still be running: one that began when the completed ticks were at most one behind.
\<close>

lemma gc_bound_covered:
  assumes b: "gc_bound tick_ex = Some geq" and late: "unat tick_ex \<le> Suc (unat begun)" and small: "unat begun < 2147483648"
    and v: "to_read_only_tick (EpochId v) \<le> geq"
  shows "v \<le> ComputeReadOnlyTid begun"
proof -
  have nz: "tick_ex \<noteq> 0" "to_read_only_tick (tick_ex - 1) \<noteq> 0" and geq: "geq = to_read_only_tick (tick_ex - 1) - 1"
    using b by (auto simp: gc_bound_def Let_def split: if_splits)
  have u: "unat (to_read_only_tick (tick_ex - 1)) = (unat tick_ex - 1) div 25"
    using nz(1) by (simp add: to_read_only_tick_def ReadOnlyEpochMultiplier_def unat_div unat_minus_one)
  have pos: "0 < (unat tick_ex - 1) div 25" using nz(2) u by (metis unat_gt_0)
  have "unat v div 8589934592 div 25 \<le> (unat tick_ex - 1) div 25 - 1"
    using v nz(2) u by (simp add: geq word_le_unat unat_minus_one to_read_only_tick_def ReadOnlyEpochMultiplier_def unat_div tid_field_simps)
  then have "unat v div 8589934592 div 25 < (unat tick_ex - 1) div 25" using pos by linarith
  also have "\<dots> \<le> unat begun div 25" using late by (intro div_le_mono) simp
  finally have lt: "unat v div 8589934592 div 25 < unat begun div 25" .
  then have "unat v div 8589934592 < 25 * (unat begun div 25)" by (simp add: div_less_iff_less_mult)
  then have "unat v < 8589934592 * (25 * (unat begun div 25))" by (simp add: div_less_iff_less_mult)
  moreover have "25 \<le> unat begun" using lt by (metis div_less not_less not_less_zero)
  ultimately show ?thesis using ComputeReadOnlyTid_cases(2) [OF small] by (simp add: word_le_unat)
qed

section \<open>Reads pass over what is behind\<close>

text \<open>The next pointers lead from \<open>p\<close> through the tuples \<open>us\<close>, all newer than \<open>t\<close>, to \<open>a\<close>, which is not.\<close>

fun covered_path :: "(ptr \<Rightarrow> dbtuple option) \<Rightarrow> u64 \<Rightarrow> ptr \<Rightarrow> ptr list \<Rightarrow> ptr \<Rightarrow> bool" where
  "covered_path M t p [] a \<longleftrightarrow> p = a \<and> (\<exists>x. M a = Some x \<and> tversion x \<le> t)"
| "covered_path M t p (u # us) a \<longleftrightarrow>
     p = u \<and> (\<exists>x q. M u = Some x \<and> \<not> tversion x \<le> t \<and> tnext x = Some q \<and> covered_path M t q us a)"

lemma frozen_cong:
  assumes "M' p = M p"
  shows "load (\<lambda>_. M') \<tau> p = load (\<lambda>_. M) \<tau> p"
    and "load_bytes (\<lambda>_. M') \<tau> p i n = load_bytes (\<lambda>_. M) \<tau> p i n"
    and "reader_stable_version fuel (\<lambda>_. M') \<tau> p awi = reader_stable_version fuel (\<lambda>_. M) \<tau> p awi"
    and "visit_tuple (\<lambda>_. M') \<tau> p v t reader = visit_tuple (\<lambda>_. M) \<tau> p v t reader"
proof -
  show l: "load (\<lambda>_. M') \<tau> p = load (\<lambda>_. M) \<tau> p" for \<tau> using assms by (simp add: load_def)
  show lb: "load_bytes (\<lambda>_. M') \<tau> p i n = load_bytes (\<lambda>_. M) \<tau> p i n" for \<tau> i n
    by (induction n arbitrary: \<tau> i) (simp_all add: l cong: if_cong)
  show "reader_stable_version fuel (\<lambda>_. M') \<tau> p awi = reader_stable_version fuel (\<lambda>_. M) \<tau> p awi"
    by (induction fuel arbitrary: \<tau>) (simp_all add: l Let_def cong: if_cong)
  show "visit_tuple (\<lambda>_. M') \<tau> p v t reader = visit_tuple (\<lambda>_. M) \<tau> p v t reader"
    unfolding visit_tuple_def l lb ..
qed

lemma visit_follow:
  assumes "visit_tuple (\<lambda>_. M) \<tau> p v t reader = Inr (Follow q, \<tau>')" and "M p = Some x"
  shows "\<not> tversion x \<le> t" and "q = tnext x"
  using assms by (auto simp: visit_tuple_def load_def is_not_behind_def sbind_Inr Let_def split: if_splits)

lemma covered_read:
  "covered_path M t p us a \<Longrightarrow> \<forall>q \<in> set (us @ [a]). M' q = M q \<Longrightarrow>
     record_at_chain fuel (\<lambda>_. M') \<tau> p t reader awi = record_at_chain fuel (\<lambda>_. M) \<tau> p t reader awi"
proof (induction fuel arbitrary: \<tau> p us)
  case (Suc fuel)
  have p: "p \<in> set (us @ [a])" using Suc.prems(1) by (cases us) auto
  then have eq: "M' p = M p" using Suc.prems(2) by blast
  note fc = frozen_cong [of M' p M, OF eq]
  obtain x where x: "M p = Some x" using Suc.prems(1) by (cases us) auto
  have follow: "record_at_chain fuel (\<lambda>_. M') \<tau>' q t reader awi = record_at_chain fuel (\<lambda>_. M) \<tau>' q t reader awi"
    if f: "visit_tuple (\<lambda>_. M) \<tau>1 p v t reader = Inr (Follow (Some q), \<tau>')" for v \<tau>1 \<tau>' q
  proof -
    note vf = visit_follow [OF f x]
    obtain us' where us: "us = p # us'" "covered_path M t q us' a" using Suc.prems(1) vf x by (cases us) auto
    then show ?thesis using Suc.IH [OF us(2)] Suc.prems(2) by simp
  qed
  show ?case
    unfolding record_at_chain.simps fc
    using follow Suc.IH [OF Suc.prems]
    by (auto simp: sbind_def split: sum.splits option.splits visit.splits)
qed simp

lemma covered_stable_read:
  assumes "covered_path M t p us a" and "\<forall>q \<in> set (us @ [a]). M' q = M q"
  shows "stable_read fuel (\<lambda>_. M') \<tau> p t reader awi = stable_read fuel (\<lambda>_. M) \<tau> p t reader awi"
proof -
  have "p \<in> set (us @ [a])" using assms(1) by (cases us) auto
  then have eq: "M' p = M p" using assms(2) by blast
  show ?thesis unfolding stable_read_def frozen_cong(1) [of M' p M, OF eq] covered_read [OF assms] ..
qed

fun next_path :: "(ptr \<Rightarrow> dbtuple option) \<Rightarrow> ptr \<Rightarrow> ptr list \<Rightarrow> ptr \<Rightarrow> bool" where
  "next_path M p [] a \<longleftrightarrow> p = a"
| "next_path M p (u # us) a \<longleftrightarrow> p = u \<and> (\<exists>x q. M u = Some x \<and> tnext x = Some q \<and> next_path M q us a)"

text \<open>On such a path the first tuple that is not newer covers what is behind.\<close>

lemma next_path_covered:
  assumes "next_path M p us a" and "M a = Some x" and "tversion x \<le> t"
  shows "\<exists>us' a'. covered_path M t p us' a' \<and> set (us' @ [a']) \<subseteq> set (us @ [a])"
  using assms
proof (induction us arbitrary: p)
  case Nil
  then show ?case by (intro exI [of _ "[]"] exI [of _ a]) simp
next
  case (Cons u us)
  then obtain y q where y: "p = u" "M u = Some y" "tnext y = Some q" "next_path M q us a" by auto
  show ?case
  proof (cases "tversion y \<le> t")
    case True
    then show ?thesis using y by (intro exI [of _ "[]"] exI [of _ u]) simp
  next
    case False
    obtain us' a' where "covered_path M t q us' a'" "set (us' @ [a']) \<subseteq> set (us @ [a])"
      using Cons.IH [OF y(4) Cons.prems(2,3)] by blast
    then show ?thesis using y False by (intro exI [of _ "u # us'"] exI [of _ a']) auto
  qed
qed

lemma snapshot_tid_begun [simp]: "snapshot_tid (transaction_proto2 u tick_ex TXN_FLAG_READ_ONLY) = ComputeReadOnlyTid tick_ex"
  by (simp add: snapshot_tid_def transaction_proto2_def TXN_FLAG_READ_ONLY_def)

section \<open>Properties of the epoch arithmetic\<close>

text \<open>
  Property C9 (snapshots and garbage collection). A read-only transaction on core \<open>j\<close> takes its snapshot id when
  it has opened its region, and is still in it when another thread, after any steps of cores and ticker,
  computes the epoch it may clean up to. Let the tuple \<open>a\<close> of a version chain carry an id of that epoch or an
  older one, so that what is behind \<open>a\<close> is free to go. Then the transaction's read of the chain is the same
  whatever became of the memory behind \<open>a\<close>.
\<close>

theorem gc_spares_snapshots:
  assumes "run_ticker as (ticker_init N) = Inr s" and "region_lasts j bs s" and "run_ticker bs s = Inr s'"
    and "length as + length bs + 1 < 2147483648" and "gc_bound (global_last_tick_exclusive s') = Some geq"
    and "next_path M p us a" and "M a = Some x" and "to_read_only_tick (EpochId (tversion x)) \<le> geq"
    and "\<forall>q \<in> set (us @ [a]). M' q = M q"
    and "t = snapshot_tid (transaction_proto2 u (global_last_tick_exclusive s) TXN_FLAG_READ_ONLY)"
  shows "stable_read fuel (\<lambda>_. M') \<tau> p t reader awi = stable_read fuel (\<lambda>_. M) \<tau> p t reader awi"
proof -
  have inv: "tick_inv (length as) s" using run_ticker_ok [OF ticker_init_inv, of as N] assms(1,4) by auto
  let ?ex = "global_last_tick_exclusive s"
  have late: "unat (global_last_tick_exclusive s') \<le> Suc (unat ?ex)"
    using region_lasts_completed [OF inv _ assms(2,3)] assms(4) by simp
  obtain r where r: "region_tick j s = Some r" using region_lasts_open [OF assms(2)] by auto
  have "unat ?ex \<le> unat r" using ticker.completed [OF inv r] by (simp add: word_le_unat)
  also have "\<dots> \<le> Suc (length as)" using ticker.region_tick [OF inv r] ticker.tick_bound [OF inv] by simp
  finally have small: "unat ?ex < 2147483648" using assms(4) by simp
  have "t = ComputeReadOnlyTid ?ex" using assms(10) by simp
  then have "tversion x \<le> t" using gc_bound_covered [OF assms(5) late small assms(8)] by simp
  then obtain us' a' where c: "covered_path M t p us' a'" "set (us' @ [a']) \<subseteq> set (us @ [a])"
    using next_path_covered [OF assms(6,7)] by blast
  have "\<forall>q \<in> set (us' @ [a']). M' q = M q" using c(2) assms(9) by blast
  then show ?thesis by (rule covered_stable_read [OF c(1)])
qed

text \<open>One core; the ticker is at tick 50 when the snapshot begins, and ends tick 49 before it is over.\<close>

definition fifty_ticks :: "actor list" where
  "fifty_ticks = replicate 289 Tick_thread @ Open_guard 0 # replicate 4 (Continue 0 7)"

definition one_more :: "actor list" where
  "one_more = replicate 2 Tick_thread"

definition old_chain :: heap where
  "old_chain = \<lparr>cells = [0 \<mapsto> \<lparr>hdr = 16, tversion = MakeTid 0 1 30, tsize = 1, alloc_size = 2, tnext = Some 1, value_start = [9, 0]\<rparr>,
     1 \<mapsto> \<lparr>hdr = 0, tversion = MakeTid 0 1 10, tsize = 1, alloc_size = 2, tnext = Some 2, value_start = [7, 0]\<rparr>,
     2 \<mapsto> \<lparr>hdr = 0, tversion = MakeTid 0 1 5, tsize = 1, alloc_size = 2, tnext = None, value_start = [3, 0]\<rparr>],
     brk = 3, raw = (\<lambda>_ _. 0)\<rparr>"

lemma fifty_ticks_run:
  "case run_ticker fifty_ticks (ticker_init 1) of
     Inl _ \<Rightarrow> False
   | Inr s \<Rightarrow> region_lasts 0 one_more s \<and> global_last_tick_exclusive s = 49 \<and>
       (case run_ticker one_more s of Inl _ \<Rightarrow> False | Inr s' \<Rightarrow> global_last_tick_exclusive s' = 50)"
  by code_simp

lemma fifty_ticksE:
  obtains s s' where "run_ticker fifty_ticks (ticker_init 1) = Inr s" "region_lasts 0 one_more s" "run_ticker one_more s = Inr s'"
    "global_last_tick_exclusive s = 49" "global_last_tick_exclusive s' = 50"
  using fifty_ticks_run by (auto split: sum.splits)

lemma old_chain_read: "stable_read 4 (\<lambda>_. cells old_chain) 0 0 (ComputeReadOnlyTid 49) Some True = Inr (Some (READ_RECORD, MakeTid 0 1 10, Some [7], 11))"
  by code_simp

theorem gc_spares_snapshots_witness:
  "stable_read 4 (\<lambda>_. (cells old_chain)(2 := None)) 0 0 (ComputeReadOnlyTid 49) Some True =
     Inr (Some (READ_RECORD, MakeTid 0 1 10, Some [7], 11))"
proof -
  obtain s s' where s: "run_ticker fifty_ticks (ticker_init 1) = Inr s" "region_lasts 0 one_more s" "run_ticker one_more s = Inr s'"
      "global_last_tick_exclusive s = 49" "global_last_tick_exclusive s' = 50"
    by (rule fifty_ticksE)
  let ?x = "\<lparr>hdr = 0, tversion = MakeTid 0 1 10, tsize = 1, alloc_size = 2, tnext = Some 2, value_start = [7, 0]\<rparr>"
  have len: "length fifty_ticks + length one_more + 1 < 2147483648" by (simp add: fifty_ticks_def one_more_def)
  have b: "gc_bound (global_last_tick_exclusive s') = Some 0" unfolding s(5) by code_simp
  have p: "next_path (cells old_chain) 0 [0] 1" by (simp add: old_chain_def)
  have x: "cells old_chain 1 = Some ?x" by (simp add: old_chain_def)
  have r: "to_read_only_tick (EpochId (tversion ?x)) \<le> 0" by code_simp
  have t: "ComputeReadOnlyTid 49 = snapshot_tid (transaction_proto2 0 (global_last_tick_exclusive s) TXN_FLAG_READ_ONLY)"
    unfolding s(4) by simp
  show ?thesis
    unfolding old_chain_read [symmetric]
    by (rule gc_spares_snapshots [OF s(1,2,3) len b p x r _ t]) simp
qed

text \<open>
  Property C39 (purging too early). \<^verbatim>\<open>PurgeThreadOutstandingGCTasks\<close> compares with the current read-only epoch and
  not, as \<^verbatim>\<open>on_post_rcu_region_completion\<close>, with that of the tick before. There is a run of a core and the ticker in
  which a read-only transaction is still in its region when a purge frees the version it reads: the same read
  returns a record before the purge and accesses freed memory after it.
\<close>

theorem purge_frees_needed_version:
  "\<exists>s s' w w' t. run_ticker fifty_ticks (ticker_init 1) = Inr s \<and> region_lasts 0 one_more s \<and> run_ticker one_more s = Inr s' \<and>
     t = snapshot_tid (transaction_proto2 0 (global_last_tick_exclusive s) TXN_FLAG_READ_ONLY) \<and>
     on_dbtuple_spill 30 1 (flat_world old_chain (\<lambda>_ _. Some 0) 50) = Inr w \<and>
     PurgeThreadOutstandingGCTasks flat_env [global_last_tick_exclusive s'] w = Inr w' \<and>
     stable_read 4 (\<lambda>_. cells (wheap w)) 0 0 t Some True = Inr (Some (READ_RECORD, MakeTid 0 1 10, Some [7], 11)) \<and>
     stable_read 4 (\<lambda>_. cells (wheap w')) 0 0 t Some True = Inl Past_end"
proof -
  obtain s s' where s: "run_ticker fifty_ticks (ticker_init 1) = Inr s" "region_lasts 0 one_more s" "run_ticker one_more s = Inr s'"
      "global_last_tick_exclusive s = 49" "global_last_tick_exclusive s' = 50"
    by (rule fifty_ticksE)
  have "case on_dbtuple_spill 30 1 (flat_world old_chain (\<lambda>_ _. Some 0) 50) of
      Inl _ \<Rightarrow> False
    | Inr w \<Rightarrow> (case PurgeThreadOutstandingGCTasks flat_env [50] w of
        Inl _ \<Rightarrow> False
      | Inr w' \<Rightarrow> stable_read 4 (\<lambda>_. cells (wheap w)) 0 0 (ComputeReadOnlyTid 49) Some True = Inr (Some (READ_RECORD, MakeTid 0 1 10, Some [7], 11)) \<and>
          stable_read 4 (\<lambda>_. cells (wheap w')) 0 0 (ComputeReadOnlyTid 49) Some True = Inl Past_end)"
    by code_simp
  then show ?thesis using s by (auto split: sum.splits simp del: One_nat_def)
qed

section \<open>What cleaning does\<close>

text \<open>Every key has a tuple of its own.\<close>

definition heads_ok :: "(btree \<Rightarrow> bytes \<Rightarrow> ptr option) \<Rightarrow> heap \<Rightarrow> bool" where
  "heads_ok m H \<longleftrightarrow> (\<forall>b k p. m b k = Some p \<longrightarrow> cells H p \<noteq> None) \<and>
     (\<forall>b k p b' k'. m b k = Some p \<and> m b' k' = Some p \<longrightarrow> b' = b \<and> k' = k)"

text \<open>
  What the queue promises about an entry that is due: its tuple is allocated; an old version is not in the index;
  the tuple of a delete is free to lock, and if it is still the latest of its key, then the record is deleted and
  the entry leads to its key.
\<close>

definition gc_due :: "('ix \<Rightarrow> btree \<Rightarrow> bytes \<Rightarrow> ptr option) \<Rightarrow> 'ix world \<Rightarrow> delete_entry \<Rightarrow> bool" where
  "gc_due M w d \<longleftrightarrow>
     (\<exists>x. cells (wheap w) (de_tuple d) = Some x \<and> (de_flag d \<longrightarrow> \<not> IsLocked (hdr x)) \<and>
        (if de_flag d \<and> IsLatest (hdr x)
         then IsDeleting (hdr x) \<and> (\<exists>b. de_btr d = Some b \<and> M (windex w) b (deleted_key d x w) = Some (de_tuple d))
         else \<forall>b k. M (windex w) b k \<noteq> Some (de_tuple d)))"

definition removable :: "'ix world \<Rightarrow> delete_entry \<Rightarrow> bool" where
  "removable w d \<longleftrightarrow> de_flag d \<and> (\<exists>x. cells (wheap w) (de_tuple d) = Some x \<and> IsLatest (hdr x))"

definition stale :: "'ix world \<Rightarrow> delete_entry \<Rightarrow> bool" where
  "stale w d \<longleftrightarrow> de_flag d \<and> (\<exists>x. cells (wheap w) (de_tuple d) = Some x \<and> \<not> IsLatest (hdr x))"

definition as_version :: "delete_entry \<Rightarrow> delete_entry" where
  "as_version d = \<lparr>de_tuple = de_tuple d, de_key = None, de_flag = False, de_btr = None\<rparr>"

text \<open>The effect of cleaning some entries: what each key shows is the same, the index loses exactly their tuples.\<close>

definition cleaned :: "('ix \<Rightarrow> btree \<Rightarrow> bytes \<Rightarrow> ptr option) \<Rightarrow> delete_entry list \<Rightarrow> 'ix world \<Rightarrow> 'ix world \<Rightarrow> bool" where
  "cleaned M ds w w' \<longleftrightarrow>
     (\<forall>b k. db_value M w' b k = db_value M w b k) \<and>
     (\<forall>d \<in> set ds. \<not> de_flag d \<longrightarrow> cells (wheap w') (de_tuple d) = None) \<and>
     (\<forall>b k p. M (windex w') b k = Some p \<longleftrightarrow> M (windex w) b k = Some p \<and> p \<notin> de_tuple ` set ds) \<and>
     (\<forall>q. q \<notin> de_tuple ` set ds \<longrightarrow> cells (wheap w') q = cells (wheap w) q) \<and>
     wrcu w' = wrcu w @ map de_tuple (filter (removable w) ds) \<and> wstrs w' = wstrs w \<and> wtick w' = wtick w"

text \<open>The queues, while the groups \<open>gs\<close> are visited: the stale entries come back as old versions.\<close>

definition requeued :: "nat list \<Rightarrow> delete_entry list \<Rightarrow> 'ix world \<Rightarrow> 'ix world \<Rightarrow> bool" where
  "requeued gs ds w w' \<longleftrightarrow>
     (\<exists>hs ks fs. gq_rep GC_GroupSize (wgc w') hs ks gs fs) \<and>
     gq_abs (wgc w') = gq_abs (wgc w) @ map (\<lambda>d. (as_version d, to_read_only_tick (wtick w))) (filter (stale w) ds)"

definition gc_ready :: "nat list \<Rightarrow> 'ix world \<Rightarrow> bool" where
  "gc_ready gs w \<longleftrightarrow> (\<exists>hs ks fs. gq_rep GC_GroupSize (wgc w) hs ks gs fs) \<and>
     (\<forall>t \<in> snd ` set (gq_abs (wgc w)). t \<le> to_read_only_tick (wtick w))"

lemma gc_enqueue_ready:
  assumes "gc_ready gs w"
  shows "\<exists>q. gc_enqueue e (to_read_only_tick (wtick w)) w = Inr (w\<lparr>wgc := q\<rparr>) \<and> gc_ready gs (w\<lparr>wgc := q\<rparr>) \<and>
    gq_abs q = gq_abs (wgc w) @ [(e, to_read_only_tick (wtick w))]"
proof -
  obtain hs ks fs where r: "gq_rep GC_GroupSize (wgc w) hs ks gs fs" using assms by (auto simp: gc_ready_def)
  have le: "\<forall>t \<in> snd ` set (gq_abs (wgc w)). t \<le> to_read_only_tick (wtick w)" using assms by (simp add: gc_ready_def)
  have N: "0 < GC_GroupSize" by (simp add: GC_GroupSize_def)
  obtain q hs' ks' where q: "gq_enqueue GC_GroupSize e (to_read_only_tick (wtick w)) (wgc w) = Some q"
      "gq_rep GC_GroupSize q hs' ks' gs fs" "gq_abs q = gq_abs (wgc w) @ [(e, to_read_only_tick (wtick w))]"
    using gq_enqueue_rep [OF r N le, of e] by blast
  have "gc_ready gs (w\<lparr>wgc := q\<rparr>)"
    unfolding gc_ready_def using q(2,3) le
    by (intro conjI exI [of _ hs'] exI [of _ ks'] exI [of _ fs]) auto
  then show ?thesis using q by (intro exI [of _ q]) (simp add: gc_enqueue_def)
qed

lemma db_value_cong:
  assumes "\<And>p. M (windex w') b k = Some p \<longleftrightarrow> M (windex w) b k = Some p"
    and "\<And>p. M (windex w) b k = Some p \<Longrightarrow> cells (wheap w') p = cells (wheap w) p"
  shows "db_value M w' b k = db_value M w b k"
proof -
  have "M (windex w') b k = M (windex w) b k" using assms(1) by (cases "M (windex w) b k"; cases "M (windex w') b k") auto
  then show ?thesis using assms(2) by (auto simp: db_value_def split: option.splits)
qed

lemma db_value_gc [simp]: "db_value M (w\<lparr>wgc := q\<rparr>) = db_value M w" "db_value M (w\<lparr>wlast_reaped := e, wgc := q\<rparr>) = db_value M w"
  by (auto simp: fun_eq_iff db_value_def split: option.split)

lemma cleanedI:
  assumes "\<And>q. q \<noteq> de_tuple d \<Longrightarrow> cells (wheap w') q = cells (wheap w) q"
    and "\<not> de_flag d \<Longrightarrow> cells (wheap w') (de_tuple d) = None"
    and ix: "\<And>b k r. M (windex w') b k = Some r \<longleftrightarrow> M (windex w) b k = Some r \<and> r \<noteq> de_tuple d"
    and none: "\<And>b k. M (windex w) b k = Some (de_tuple d) \<Longrightarrow> db_value M w b k = None"
    and "wrcu w' = wrcu w @ map de_tuple (filter (removable w) [d])" "wstrs w' = wstrs w" "wtick w' = wtick w"
  shows "cleaned M [d] w w'"
proof -
  have "db_value M w' b k = db_value M w b k" for b k
  proof (cases "M (windex w) b k = Some (de_tuple d)")
    case True
    have "M (windex w') b k \<noteq> Some r" for r using ix [of b k r] True by auto
    then have "M (windex w') b k = None" by (cases "M (windex w') b k") blast+
    then show ?thesis using none [OF True] by (simp add: db_value_def)
  next
    case False
    then show ?thesis using ix assms(1) by (intro db_value_cong) auto
  qed
  then show ?thesis using assms by (simp add: cleaned_def)
qed

lemma lock_for_gc:
  "cells H p = Some x \<Longrightarrow> \<not> IsLocked (hdr x) \<Longrightarrow>
     lock_tuple False p H = Inr (hdr x OR lockmask False, tuple_put p (x\<lparr>hdr := hdr x OR lockmask False\<rparr>) H)"
  by (simp add: lock_tuple_def tuple_at_def try_lock_def)

lemma reclaim_string_simps [simp]:
  "wheap (reclaim_string d w) = wheap w" "windex (reclaim_string d w) = windex w" "wgc (reclaim_string d w) = wgc w"
  "wrcu (reclaim_string d w) = wrcu w" "wstrs (reclaim_string d w) = wstrs w" "wtick (reclaim_string d w) = wtick w"
  by (simp_all add: reclaim_string_def split: option.split)

lemma gc_due_at:
  assumes "gc_due M w d"
  obtains x where "cells (wheap w) (de_tuple d) = Some x" "de_flag d \<Longrightarrow> \<not> IsLocked (hdr x)"
    "removable w d \<Longrightarrow> IsLatest (hdr x) \<and> IsDeleting (hdr x) \<and>
       (\<exists>b. de_btr d = Some b \<and> M (windex w) b (deleted_key d x w) = Some (de_tuple d))"
    "\<not> removable w d \<Longrightarrow> \<forall>b k. M (windex w) b k \<noteq> Some (de_tuple d)" "stale w d \<longleftrightarrow> de_flag d \<and> \<not> IsLatest (hdr x)"
  using assms unfolding gc_due_def removable_def stale_def by (auto split: if_splits)

lemma clean_version:
  assumes "gc_due M w d" and "\<not> de_flag d"
  shows "\<exists>w'. clean_entry E d w = Inr w' \<and> cleaned M [d] w w' \<and> wgc w' = wgc w"
proof -
  let ?w = "w\<lparr>wheap := heap_free (de_tuple d) (wheap w)\<rparr>"
  have nr: "\<not> removable w d" using assms(2) by (simp add: removable_def)
  obtain x where x: "cells (wheap w) (de_tuple d) = Some x" "\<forall>b k. M (windex w) b k \<noteq> Some (de_tuple d)"
    using gc_due_at [OF assms(1)] nr by metis
  have "cleaned M [d] w ?w" by (rule cleanedI) (use x(2) nr in \<open>auto simp: heap_free_def\<close>)
  then show ?thesis using assms(2) x(1) by (intro exI [of _ ?w]) (simp add: clean_entry_def release_no_rcu_def tuple_at_def)
qed

lemma clean_stale:
  assumes due: "gc_due M w d" and st: "stale w d" and rd: "gc_ready gs w"
  shows "\<exists>w'. clean_entry E d w = Inr w' \<and> cleaned M [d] w w' \<and> gc_ready gs w' \<and>
    gq_abs (wgc w') = gq_abs (wgc w) @ [(as_version d, to_read_only_tick (wtick w))]"
proof -
  let ?p = "de_tuple d"
  have fl: "de_flag d" and nr: "\<not> removable w d" using st by (auto simp: stale_def removable_def)
  obtain x where x: "cells (wheap w) ?p = Some x" "\<not> IsLocked (hdr x)" "\<forall>b k. M (windex w) b k \<noteq> Some ?p" "\<not> IsLatest (hdr x)"
    using gc_due_at [OF due] nr st by metis
  let ?y = "x\<lparr>hdr := hdr x OR lockmask False\<rparr>"
  let ?w1 = "w\<lparr>wheap := tuple_put ?p ?y (wheap w)\<rparr>"
  have "gc_ready gs ?w1" using rd by (simp add: gc_ready_def)
  then obtain q where q: "gc_enqueue (as_version d) (to_read_only_tick (wtick w)) ?w1 = Inr (?w1\<lparr>wgc := q\<rparr>)"
      "gc_ready gs (?w1\<lparr>wgc := q\<rparr>)" "gq_abs q = gq_abs (wgc w) @ [(as_version d, to_read_only_tick (wtick w))]"
    using gc_enqueue_ready [of gs ?w1 "as_version d"] by auto
  let ?w2 = "reclaim_string d (?w1\<lparr>wgc := q\<rparr>)"
  have rq: "gc_requeue d ?w1 = Inr ?w2" using q(1) by (simp add: gc_requeue_def as_version_def)
  have "cells (wheap ?w2) ?p \<noteq> None" by (simp add: tuple_put_def)
  then have ul: "unlock_world ?p ?w2 = Inr (?w2\<lparr>wheap := upd_heap ulk {?p} (wheap ?w2)\<rparr>)" (is "_ = Inr ?w3") by (rule unlock_world_ok)
  have "clean_entry E d w = Inr ?w3"
    unfolding clean_entry_def using fl lock_for_gc [OF x(1,2)] x(4) rq ul
    by (simp add: tuple_at_def tuple_put_def lock_flags)
  moreover have "cleaned M [d] w ?w3" by (rule cleanedI) (use fl x(3) nr in \<open>auto simp: tuple_put_def\<close>)
  moreover have "gc_ready gs ?w3" using q(2) by (simp add: gc_ready_def)
  ultimately show ?thesis using q(3) by (intro exI [of _ ?w3]) simp
qed

lemma clean_removable:
  assumes L: "index_laws (e_ix E) M" and h: "heads_ok (M (windex w)) (wheap w)" and due: "gc_due M w d" and rm: "removable w d"
  shows "\<exists>w'. clean_entry E d w = Inr w' \<and> cleaned M [d] w w' \<and> wgc w' = wgc w"
proof -
  let ?p = "de_tuple d"
  have fl: "de_flag d" using rm by (simp add: removable_def)
  obtain x b where x: "cells (wheap w) ?p = Some x" "\<not> IsLocked (hdr x)" "IsLatest (hdr x)" "IsDeleting (hdr x)"
      "de_btr d = Some b" "M (windex w) b (deleted_key d x w) = Some ?p"
    using gc_due_at [OF due] rm fl by metis
  let ?k = "deleted_key d x w" and ?y = "x\<lparr>hdr := hdr x OR lockmask False\<rparr>"
  let ?w1 = "w\<lparr>wheap := tuple_put ?p ?y (wheap w)\<rparr>"
  obtain ix where ix: "ix_remove (e_ix E) (windex w) b ?k = Some (?p, ix)" "M ix = upd_key b ?k None (M (windex w))"
    using index_remove [OF L x(6)] by blast
  have key: "deleted_key d ?y ?w1 = ?k" by (simp add: deleted_key_def split: option.split)
  let ?H = "upd_heap drop_latest {?p} (tuple_put ?p ?y (wheap w))"
  have cl: "clear_latest ?p (wheap ?w1) = Inr ?H" by (simp add: clear_latest_Inr tuple_put_def)
  let ?w2 = "(reclaim_string d ?w1)\<lparr>windex := ix, wheap := ?H, wrcu := wrcu w @ [?p]\<rparr>"
  have gr: "gc_remove E d ?y ?w1 = Inr ?w2" using ix(1) cl key x(5) by (simp add: gc_remove_def)
  have "cells (wheap ?w2) ?p \<noteq> None" by (simp add: tuple_put_def)
  then have ul: "unlock_world ?p ?w2 = Inr (?w2\<lparr>wheap := upd_heap ulk {?p} (wheap ?w2)\<rparr>)" (is "_ = Inr ?w3") by (rule unlock_world_ok)
  have "clean_entry E d w = Inr ?w3"
    unfolding clean_entry_def using fl lock_for_gc [OF x(1,2)] x(3) gr ul
    by (simp add: tuple_at_def tuple_put_def lock_flags)
  moreover have "cleaned M [d] w ?w3"
  proof (rule cleanedI)
    have uniq: "b' = b \<and> k' = ?k" if "M (windex w) b' k' = Some ?p" for b' k'
      using h x(6) that unfolding heads_ok_def by blast
    show "M (windex ?w3) b' k' = Some r \<longleftrightarrow> M (windex w) b' k' = Some r \<and> r \<noteq> ?p" for b' k' r
    proof (cases "b' = b \<and> k' = ?k")
      case True
      then show ?thesis using x(6) by (simp add: ix(2) upd_key_def)
    next
      case False
      then have "M (windex w) b' k' \<noteq> Some ?p" using uniq by blast
      then show ?thesis using False by (auto simp: ix(2) upd_key_def)
    qed
    show "db_value M w b' k' = None" if "M (windex w) b' k' = Some ?p" for b' k'
      using that x(1,4) by (simp add: db_value_def tuple_value_def)
  qed (use fl rm in \<open>auto simp: tuple_put_def\<close>)
  ultimately show ?thesis by (intro exI [of _ ?w3]) simp
qed

lemma clean_entry_effect:
  assumes L: "index_laws (e_ix E) M" and h: "heads_ok (M (windex w)) (wheap w)" and due: "gc_due M w d" and rd: "gc_ready gs w"
  shows "\<exists>w'. clean_entry E d w = Inr w' \<and> cleaned M [d] w w' \<and> gc_ready gs w' \<and>
    gq_abs (wgc w') = gq_abs (wgc w) @ map (\<lambda>d. (as_version d, to_read_only_tick (wtick w))) (filter (stale w) [d])"
proof -
  have same: ?thesis if "clean_entry E d w = Inr w'" "cleaned M [d] w w'" "wgc w' = wgc w" "\<not> stale w d" for w'
    using that rd by (intro exI [of _ w']) (simp add: gc_ready_def cleaned_def)
  consider "\<not> de_flag d" | "stale w d" | "removable w d"
    using due by (auto simp: gc_due_def stale_def removable_def)
  then show ?thesis
  proof cases
    case 1
    then have "\<not> stale w d" by (simp add: stale_def)
    then show ?thesis using clean_version [OF due 1] same by blast
  next
    case 2
    then show ?thesis using clean_stale [OF due 2 rd, of E] by simp
  next
    case 3
    then have "\<not> stale w d" by (auto simp: stale_def removable_def)
    then show ?thesis using clean_removable [OF L h due 3] same by blast
  qed
qed

text \<open>Entries of other tuples are still as promised.\<close>

lemma cleaned_others:
  assumes c: "cleaned M [d] w w'" and d': "de_tuple d' \<noteq> de_tuple d"
  shows "gc_due M w d' \<Longrightarrow> gc_due M w' d'" and "removable w' d' = removable w d'" and "stale w' d' = stale w d'"
proof -
  have cell: "cells (wheap w') (de_tuple d') = cells (wheap w) (de_tuple d')"
    and ix: "M (windex w') b k = Some (de_tuple d') \<longleftrightarrow> M (windex w) b k = Some (de_tuple d')" for b k
    using c d' by (simp_all add: cleaned_def)
  have key: "deleted_key d' x w' = deleted_key d' x w" for x
    using c by (simp add: deleted_key_def cleaned_def split: option.split)
  show "gc_due M w d' \<Longrightarrow> gc_due M w' d'" unfolding gc_due_def cell ix key .
  show "removable w' d' = removable w d'" "stale w' d' = stale w d'" unfolding removable_def stale_def cell by simp_all
qed

lemma cleaned_heads:
  assumes c: "cleaned M ds w w'" and h: "heads_ok (M (windex w)) (wheap w)"
  shows "heads_ok (M (windex w')) (wheap w')"
  unfolding heads_ok_def
proof (intro conjI allI impI)
  fix b k p assume "M (windex w') b k = Some p"
  then have p: "M (windex w) b k = Some p" "p \<notin> de_tuple ` set ds" using c by (simp_all add: cleaned_def)
  then have "cells (wheap w') p = cells (wheap w) p" using c by (simp add: cleaned_def)
  then show "cells (wheap w') p \<noteq> None" using h p(1) unfolding heads_ok_def by metis
next
  fix b k p b' k' assume "M (windex w') b k = Some p \<and> M (windex w') b' k' = Some p"
  then have "M (windex w) b k = Some p" "M (windex w) b' k' = Some p" using c by (simp_all add: cleaned_def)
  then show "b' = b" "k' = k" using h unfolding heads_ok_def by blast+
qed

lemma cleaned_Cons:
  assumes 1: "cleaned M [d] w w1" and 2: "cleaned M ds w1 w2" and d: "de_tuple d \<notin> de_tuple ` set ds"
  shows "cleaned M (d # ds) w w2"
proof -
  have ne: "de_tuple d' \<noteq> de_tuple d" if "d' \<in> set ds" for d' using d that by (metis imageI)
  have "filter (removable w1) ds = filter (removable w) ds"
    by (rule filter_cong [OF refl]) (rule cleaned_others(2) [OF 1 ne])
  then have "wrcu w2 = wrcu w @ map de_tuple (filter (removable w) (d # ds))"
    using 1 2 by (simp add: cleaned_def)
  moreover have "cells (wheap w2) (de_tuple d) = None" if "\<not> de_flag d" using 1 2 d that by (simp add: cleaned_def)
  ultimately show ?thesis using 1 2 unfolding cleaned_def by simp
qed

lemma clean_entries_effect:
  assumes L: "index_laws (e_ix E) M"
  shows "heads_ok (M (windex w)) (wheap w) \<Longrightarrow> \<forall>d \<in> set ds. gc_due M w d \<Longrightarrow> distinct (map de_tuple ds) \<Longrightarrow> gc_ready gs w \<Longrightarrow>
    \<exists>w'. clean_entries E ds w = Inr w' \<and> cleaned M ds w w' \<and> gc_ready gs w' \<and>
      gq_abs (wgc w') = gq_abs (wgc w) @ map (\<lambda>d. (as_version d, to_read_only_tick (wtick w))) (filter (stale w) ds)"
proof (induction ds arbitrary: w)
  case Nil
  then show ?case by (auto simp: cleaned_def)
next
  case (Cons d ds)
  have "gc_due M w d" using Cons.prems(2) by simp
  then obtain w1 where w1: "clean_entry E d w = Inr w1" "cleaned M [d] w w1" "gc_ready gs w1"
      "gq_abs (wgc w1) = gq_abs (wgc w) @ map (\<lambda>d. (as_version d, to_read_only_tick (wtick w))) (filter (stale w) [d])"
    using clean_entry_effect [OF L Cons.prems(1) _ Cons.prems(4)] by blast
  have d: "de_tuple d \<notin> de_tuple ` set ds" using Cons.prems(3) by simp
  have ne: "de_tuple d' \<noteq> de_tuple d" if "d' \<in> set ds" for d' using d that by (metis imageI)
  have "\<forall>d' \<in> set ds. gc_due M w1 d'" using cleaned_others(1) [OF w1(2) ne] Cons.prems(2) by simp
  then obtain w2 where w2: "clean_entries E ds w1 = Inr w2" "cleaned M ds w1 w2" "gc_ready gs w2"
      "gq_abs (wgc w2) = gq_abs (wgc w1) @ map (\<lambda>d. (as_version d, to_read_only_tick (wtick w1))) (filter (stale w1) ds)"
    using Cons.IH [OF cleaned_heads [OF w1(2) Cons.prems(1)] _ _ w1(3)] Cons.prems(3) by auto
  have "filter (stale w1) ds = filter (stale w) ds"
    by (rule filter_cong [OF refl]) (rule cleaned_others(3) [OF w1(2) ne])
  moreover have "wtick w1 = wtick w" using w1(2) by (simp add: cleaned_def)
  ultimately have "gq_abs (wgc w2) = gq_abs (wgc w) @ map (\<lambda>d. (as_version d, to_read_only_tick (wtick w))) (filter (stale w) (d # ds))"
    using w1(4) w2(4) by simp
  then show ?case using w1(1) w2(1,3) cleaned_Cons [OF w1(2) w2(2) d] by simp
qed

definition gc_entries_due :: "u64 \<Rightarrow> 'ix world \<Rightarrow> delete_entry list" where
  "gc_entries_due ro_tick_geq w = map fst (filter (\<lambda>(d, t). t \<le> ro_tick_geq) (gq_abs (wgc w)))"

lemma gc_ready_start:
  assumes "gc_ok (wtick w) w"
  obtains hs ks fs where "gq_rep GC_GroupSize (wgc w) hs ks [] fs" "\<forall>t \<in> snd ` set (gq_abs (wgc w)). t \<le> to_read_only_tick (wtick w)"
  using assms by (auto simp: gc_ok_def gq_ok_def)

text \<open>The entry a logical delete queues leads back to the key, whether it fits the record or not.\<close>

lemma logical_delete_entry:
  assumes y: "cells (wheap w) h = Some y" "buffer_ok y" and gc: "gc_ok ep w"
  shows "\<exists>w' d x. on_logical_delete ep h key btr w = Inr w' \<and> gq_abs (wgc w') = gq_abs (wgc w) @ [(d, to_read_only_tick ep)] \<and>
    de_tuple d = h \<and> de_flag d \<and> de_btr d = Some btr \<and> cells (wheap w') h = Some x \<and> deleted_key d x w' = key"
proof -
  have enq: "\<exists>q. gc_enqueue d (to_read_only_tick ep) w1 = Inr (w1\<lparr>wgc := q\<rparr>) \<and> gq_abs q = gq_abs (wgc w) @ [(d, to_read_only_tick ep)]"
    if "wgc w1 = wgc w" for w1 :: "'a world" and d
    using gc_enqueue_ok [of ep w1 d] gc that by (auto simp: gc_ok_cong [OF that])
  show ?thesis
  proof (cases "length key \<le> unat (alloc_size y)")
    case True
    have len: "length (value_start y) = unat (alloc_size y)" using y(2) by (simp add: buffer_ok_def)
    have "unat (alloc_size y) < 2 ^ 16" using unsigned_less [of "alloc_size y", where ?'a = nat] by simp
    then have u: "unat (of_nat (length key) :: u16) = length key" using True by (intro unat_of_nat_small) simp
    let ?buf = "write_at 0 key (value_start y)"
    let ?x = "y\<lparr>value_start := ?buf, tsize := of_nat (length key)\<rparr>"
    let ?d = "\<lparr>de_tuple = h, de_key = None, de_flag = True, de_btr = Some btr\<rparr>"
    let ?w1 = "w\<lparr>wheap := tuple_put h ?x (wheap w)\<rparr>"
    obtain q where q: "gc_enqueue ?d (to_read_only_tick ep) ?w1 = Inr (?w1\<lparr>wgc := q\<rparr>)" "gq_abs q = gq_abs (wgc w) @ [(?d, to_read_only_tick ep)]"
      using enq [of ?w1 ?d] by auto
    have "mem_copy key (length key) (value_start y) = Inr ?buf" using True len by (simp add: mem_copy_def)
    then have "on_logical_delete ep h key btr w = Inr (?w1\<lparr>wgc := q\<rparr>)"
      using q(1) True by (simp add: on_logical_delete_def tuple_at_def y(1) Let_def)
    then show ?thesis using q(2) u
      by (intro exI [of _ "?w1\<lparr>wgc := q\<rparr>"] exI [of _ ?d] exI [of _ ?x]) (simp add: tuple_put_def deleted_key_def write_at_def)
  next
    case False
    obtain s w1 where sw: "(case wpool w of [] \<Rightarrow> (wnext_str w, w\<lparr>wnext_str := Suc (wnext_str w)\<rparr>) | s # ss \<Rightarrow> (s, w\<lparr>wpool := ss\<rparr>)) = (s, w1)"
        "wgc w1 = wgc w" "wheap w1 = wheap w"
      by (cases "wpool w") auto
    let ?d = "\<lparr>de_tuple = h, de_key = Some s, de_flag = True, de_btr = Some btr\<rparr>"
    let ?w2 = "w1\<lparr>wstrs := (wstrs w1)(s := key)\<rparr>"
    obtain q where q: "gc_enqueue ?d (to_read_only_tick ep) ?w2 = Inr (?w2\<lparr>wgc := q\<rparr>)" "gq_abs q = gq_abs (wgc w) @ [(?d, to_read_only_tick ep)]"
      using enq [of ?w2 ?d] sw(2) by auto
    then have "on_logical_delete ep h key btr w = Inr (?w2\<lparr>wgc := q\<rparr>)"
      using False sw(1) by (simp add: on_logical_delete_def tuple_at_def y(1))
    then show ?thesis using q(2) y(1) sw(3)
      by (intro exI [of _ "?w2\<lparr>wgc := q\<rparr>"] exI [of _ ?d] exI [of _ y]) (simp add: deleted_key_def)
  qed
qed

section \<open>Properties of cleaning\<close>

text \<open>
  Property C10 (garbage collection is invisible). Let the entries that are due be as the queue promises, one per
  tuple. Then cleaning up to a new epoch runs to its end: what every key shows is unchanged; the old
  versions are freed; exactly the deleted records that are still the latest of their key leave the index and
  go to RCU; the deleted tuples that have been superseded come back into the queue as old versions, behind
  the entries that were not due; no other tuple is touched, and the queue is in order again.
\<close>

theorem gc_invisible:
  assumes "index_laws (e_ix E) M" and "heads_ok (M (windex w)) (wheap w)" and "gc_ok (wtick w) w"
    and "ucast (wlast_reaped w) \<noteq> ro_tick_geq"
    and "\<forall>d \<in> set (gc_entries_due ro_tick_geq w). gc_due M w d" and "distinct (map de_tuple (gc_entries_due ro_tick_geq w))"
  shows "\<exists>w'. clean_up_to_including E ro_tick_geq w = Inr w' \<and> cleaned M (gc_entries_due ro_tick_geq w) w w' \<and>
    heads_ok (M (windex w')) (wheap w') \<and> gc_ok (wtick w') w' \<and>
    gq_abs (wgc w') = filter (\<lambda>(d, t). \<not> t \<le> ro_tick_geq) (gq_abs (wgc w)) @
      map (\<lambda>d. (as_version d, to_read_only_tick (wtick w))) (filter (stale w) (gc_entries_due ro_tick_geq w))"
proof -
  let ?N = GC_GroupSize and ?ds = "gc_entries_due ro_tick_geq w"
  obtain hs ks fs where r: "gq_rep ?N (wgc w) hs ks [] fs" "\<forall>t \<in> snd ` set (gq_abs (wgc w)). t \<le> to_read_only_tick (wtick w)"
    using gc_ready_start [OF assms(3)] by metis
  let ?fuel = "Suc (?N * ngroups (queue (wgc w)))"
  have fuel: "?N * length hs < ?fuel" and N: "0 < ?N" using gq_abs_rep [OF r(1)] by (simp_all add: GC_GroupSize_def)
  obtain q us vs ks' where q: "gq_accept ?fuel ro_tick_geq (wgc w) = Some q" "gq_rep ?N q vs ks' us []"
      "iterate ?fuel (gstore q) (q_head (scratch q), 0) = Some (filter (\<lambda>(x, t). t \<le> ro_tick_geq) (gq_abs (wgc w)))"
      "gq_abs q = filter (\<lambda>(x, t). \<not> t \<le> ro_tick_geq) (gq_abs (wgc w))" "pxq_empty (scratch q) \<longleftrightarrow> us = []"
      "us = [] \<longleftrightarrow> filter (\<lambda>(x, t). t \<le> ro_tick_geq) (gq_abs (wgc w)) = []"
    using gq_accept_due [OF r(1) N fuel, of ro_tick_geq] by blast
  let ?w1 = "w\<lparr>wlast_reaped := ucast ro_tick_geq, wgc := q\<rparr>"
  have ready: "gc_ready us ?w1"
    unfolding gc_ready_def using q(2,4) r(2) by (intro conjI exI [of _ vs] exI [of _ ks'] exI [of _ "[]"]) auto
  have parts: "removable ?w1 = removable w" "stale ?w1 = stale w" "db_value M ?w1 = db_value M w" "deleted_key d x ?w1 = deleted_key d x w" for d x
    by (auto simp: removable_def stale_def db_value_def deleted_key_def fun_eq_iff split: option.split)
  then have same: "cleaned M ds ?w1 w' = cleaned M ds w w'" "gc_due M ?w1 d = gc_due M w d" for ds w' d
    by (simp_all add: cleaned_def gc_due_def)
  obtain w2 where w2: "clean_entries E ?ds ?w1 = Inr w2" "cleaned M ?ds w w2" "gc_ready us w2"
      "gq_abs (wgc w2) = gq_abs q @ map (\<lambda>d. (as_version d, to_read_only_tick (wtick w))) (filter (stale w) ?ds)"
    using clean_entries_effect [OF assms(1) _ _ assms(6) ready] assms(2,5) unfolding same parts by auto
  obtain hs2 ks2 fs2 where r2: "gq_rep ?N (wgc w2) hs2 ks2 us fs2" using w2(3) by (auto simp: gc_ready_def)
  show ?thesis
  proof (cases "us = []")
    case True
    then have "?ds = []" using q(6) by (simp add: gc_entries_due_def)
    then have "w2 = ?w1" using w2(1) by simp
    moreover have "clean_up_to_including E ro_tick_geq w = Inr ?w1"
      using assms(4) q(1,5) True by (simp add: clean_up_to_including_def Let_def)
    ultimately show ?thesis
      using w2(2,4) q(4) cleaned_heads [OF w2(2) assms(2)] ready True
      by (intro exI [of _ ?w1]) (auto simp: gc_ok_def gc_ready_def gq_ok_def)
  next
    case False
    let ?w3 = "w2\<lparr>wgc := gq_clear (wgc w2)\<rparr>"
    have "clean_up_to_including E ro_tick_geq w = Inr ?w3"
      using assms(4) q(1,3,5) False w2(1)
      by (simp del: iterate.simps add: clean_up_to_including_def Let_def gc_entries_due_def)
    moreover have "cleaned M ?ds w ?w3" using w2(2) by (simp add: cleaned_def)
    moreover have "gc_ok (wtick ?w3) ?w3"
      using gq_clear_rep [OF r2] w2(3) by (auto simp: gc_ok_def gc_ready_def gq_ok_def)
    ultimately show ?thesis
      using w2(4) q(4) gq_clear_rep(2) [OF r2] cleaned_heads [OF w2(2) assms(2)]
      by (intro exI [of _ ?w3]) simp
  qed
qed

text \<open>A record deleted under the key 5, still in the index, and an old version of another one.\<close>

definition gc_heap :: heap where
  "gc_heap = \<lparr>cells = [0 \<mapsto> \<lparr>hdr = 18, tversion = MakeTid 0 1 30, tsize = 1, alloc_size = 2, tnext = None, value_start = [5, 0]\<rparr>,
     1 \<mapsto> \<lparr>hdr = 0, tversion = MakeTid 0 1 10, tsize = 1, alloc_size = 2, tnext = None, value_start = [7, 0]\<rparr>],
     brk = 2, raw = (\<lambda>_ _. 0)\<rparr>"

definition gc_queue :: "(delete_entry \<times> u64) list" where
  "gc_queue = [(\<lparr>de_tuple = 1, de_key = None, de_flag = False, de_btr = None\<rparr>, 1),
     (\<lparr>de_tuple = 0, de_key = None, de_flag = True, de_btr = Some 0\<rparr>, 1)]"

definition gc_keys :: "btree \<Rightarrow> bytes \<Rightarrow> ptr option" where
  "gc_keys = (\<lambda>b k. if b = 0 \<and> k = [5] then Some 0 else None)"

lemma gc_demo_flags: "IsLatest 18" "IsDeleting 18" "\<not> IsLocked 18"
  unfolding hdr_flag_bits by simp_all

theorem gc_invisible_witness:
  "\<exists>w w'. fst (windex w) 0 [5] = Some 0 \<and> clean_up_to_including flat_env 1 w = Inr w' \<and> (\<forall>b k. db_value fst w' b k = db_value fst w b k) \<and>
     fst (windex w') 0 [5] = None \<and> cells (wheap w') 1 = None \<and> wrcu w' = [0] \<and> gq_abs (wgc w') = []"
proof -
  let ?w0 = "flat_world gc_heap gc_keys 75"
  have new: "gq_ok (Suc 4095) (wgc ?w0)" "gq_abs (wgc ?w0) = []" unfolding flat_world_def world.simps by (rule gq_new_ok)+
  have "sorted (map snd (gq_abs (wgc ?w0) @ gc_queue))" by (simp add: new(2) gc_queue_def)
  then obtain q where q: "gq_ok (Suc 4095) q" "gq_abs q = gc_queue"
    using gq.enq_all [OF new(1), of gc_queue] new(2) by auto
  let ?w = "?w0\<lparr>wgc := q\<rparr>"
  have ds: "gc_entries_due 1 ?w = map fst gc_queue" by (simp add: gc_entries_due_def q(2) gc_queue_def)
  have n: "GC_GroupSize = Suc 4095" by (simp add: GC_GroupSize_def)
  have 1: "heads_ok (fst (windex ?w)) (wheap ?w)" by (auto simp: heads_ok_def flat_world_def gc_keys_def gc_heap_def split: if_splits)
  have "(1 :: u64) \<le> to_read_only_tick 75" by code_simp
  then have 2: "gc_ok (wtick ?w) ?w" using q by (simp add: gc_ok_def n gc_queue_def flat_world_def)
  have 3: "ucast (wlast_reaped ?w) \<noteq> (1 :: u64)" by (simp add: flat_world_def)
  have 4: "\<forall>d \<in> set (gc_entries_due 1 ?w). gc_due fst ?w d"
    unfolding ds using gc_demo_flags by (auto simp: gc_queue_def gc_due_def flat_world_def gc_heap_def gc_keys_def deleted_key_def)
  have 5: "distinct (map de_tuple (gc_entries_due 1 ?w))" unfolding ds by (simp add: gc_queue_def)
  obtain w' where w': "clean_up_to_including flat_env 1 ?w = Inr w'" "cleaned fst (gc_entries_due 1 ?w) ?w w'"
      "gq_abs (wgc w') = filter (\<lambda>(d, t). \<not> t \<le> 1) (gq_abs (wgc ?w)) @
        map (\<lambda>d. (as_version d, to_read_only_tick (wtick ?w))) (filter (stale ?w) (gc_entries_due 1 ?w))"
    using gc_invisible [OF flat_laws 1 2 3 4 5] by blast
  have "fst (windex ?w) 0 [5] = Some 0" by (simp add: flat_world_def gc_keys_def)
  moreover have "fst (windex w') 0 [5] \<noteq> Some p" for p
    using w'(2) unfolding ds cleaned_def by (auto simp: gc_queue_def flat_world_def gc_keys_def)
  then have "fst (windex w') 0 [5] = None" by auto
  moreover have "cells (wheap w') 1 = None" using w'(2) unfolding ds cleaned_def by (simp add: gc_queue_def)
  moreover have "filter (removable ?w) (map fst gc_queue) = [snd (map fst gc_queue ! 0, map fst gc_queue ! 1)]"
    using gc_demo_flags by (simp add: gc_queue_def removable_def flat_world_def gc_heap_def)
  then have "wrcu w' = [0]" using w'(2) unfolding ds cleaned_def by (simp add: gc_queue_def flat_world_def)
  moreover have "gq_abs (wgc w') = []"
    using w'(3) gc_demo_flags unfolding ds by (simp add: q(2) gc_queue_def stale_def flat_world_def gc_heap_def)
  ultimately show ?thesis using w'(1,2) by (intro exI [of _ ?w] exI [of _ w']) (simp add: cleaned_def)
qed

end
