(* ===== verification/Allocator.thy ===== *)
theory Allocator
  imports Tuple
begin

text \<open>
  The slab allocator (\<^verbatim>\<open>src/src/allocator.h\<close>, \<^verbatim>\<open>src/src/allocator.cc\<close>) and the thread-local arenas in front of it
  (\<^verbatim>\<open>rcu::sync\<close> in \<^verbatim>\<open>src/src/rcu.h\<close>, \<^verbatim>\<open>src/src/rcu.cc\<close>). Each processor owns a region of pages; a page is cut into
  blocks of one size, free blocks are chained through their first word. Memory is a function from the address
  of a word to the word. A call runs under the lock of the region it uses, so a run is a sequence of calls.
\<close>

section \<open>Sizes\<close>

definition AllocAlignment :: u64 where
  "AllocAlignment = push_bit LgAllocAlignment 1"

definition MAX_ARENAS :: nat where
  "MAX_ARENAS = 32"

definition GetHugepageSize :: u64 where
  "GetHugepageSize = 4096"

definition ArenaSize :: "u64 \<Rightarrow> u64 \<times> u64" where
  "ArenaSize sz =
     (let allocsz = round_up LgAllocAlignment sz;
          arena = allocsz div AllocAlignment - 1
      in (allocsz, arena))"

definition iceil :: "u64 \<Rightarrow> u64 \<Rightarrow> u64" where
  "iceil x y = (let m = x mod y in x + (if m \<noteq> 0 then y - m else 0))"

definition slow_round_up :: "u64 \<Rightarrow> u64 \<Rightarrow> u64" where
  "slow_round_up x q = (let r = x mod q in if r = 0 then x else x + (q - r))"

section \<open>Regions\<close>

record regionctx =
  region_begin :: u64
  region_end :: u64
  region_faulted :: bool
  rarenas :: "u64 list"

definition regionctx_new :: regionctx where
  "regionctx_new = \<lparr>region_begin = 0, region_end = 0, region_faulted = False, rarenas = replicate MAX_ARENAS 0\<rparr>"

record allocator =
  g_memstart :: u64
  g_memend :: u64
  g_ncpus :: u64
  g_maxpercore :: u64
  g_regions :: "regionctx list"
  s_init :: bool

definition allocator_new :: "nat \<Rightarrow> allocator" where
  "allocator_new ncores =
     \<lparr>g_memstart = 0, g_memend = 0, g_ncpus = 0, g_maxpercore = 0,
      g_regions = replicate ncores regionctx_new, s_init = False\<rparr>"

text \<open>The loop over the processors; \<open>x\<close> and \<open>endpx\<close> bound the mapped region.\<close>

fun init_regions :: "u64 \<Rightarrow> u64 \<Rightarrow> nat list \<Rightarrow> allocator \<Rightarrow> mem_error + allocator" where
  "init_regions x endpx [] a = Inr a"
| "init_regions x endpx (i # is) a =
     (let b = g_memstart a + of_nat i * g_maxpercore a;
          e = g_memstart a + (of_nat i + 1) * g_maxpercore a
      in if length (g_regions a) \<le> i then Inl Past_end
         else if \<not> b < e \<or> \<not> x \<le> b \<or> \<not> e \<le> endpx then Inl Assert_failed
         else init_regions x endpx is
                (a\<lparr>g_regions := (g_regions a)[i := (g_regions a ! i)\<lparr>region_begin := b, region_end := e\<rparr>]\<rparr>))"

text \<open>\<open>x\<close> is where the mapping starts: what \<^verbatim>\<open>mmap\<close> returned before the port, the constant 0 in it (\<open>Initialize\<close>).\<close>

definition Initialize_at :: "u64 \<Rightarrow> u64 \<Rightarrow> u64 \<Rightarrow> allocator \<Rightarrow> mem_error + allocator" where
  "Initialize_at x ncpus maxpercore a =
     (if s_init a then Inr a
      else if g_memstart a \<noteq> 0 \<or> g_memend a \<noteq> 0 \<or> g_ncpus a \<noteq> 0 \<or> g_maxpercore a \<noteq> 0 then Inl Assert_failed
      else
        let hugepgsize = GetHugepageSize;
            mx = slow_round_up maxpercore hugepgsize;
            endpx = x + ncpus * mx + hugepgsize;
            ms = iceil x hugepgsize;
            me = ms + ncpus * mx
        in if ms mod hugepgsize \<noteq> 0 \<or> \<not> me \<le> x + (ncpus * mx + hugepgsize) then Inl Assert_failed
           else sbind
                  (init_regions x endpx [0..<unat ncpus]
                     (a\<lparr>g_memstart := ms, g_memend := me, g_ncpus := ncpus, g_maxpercore := mx\<rparr>))
                  (\<lambda>a1. Inr (a1\<lparr>s_init := True\<rparr>)))"

text \<open>The port has no \<^verbatim>\<open>mmap\<close>: the mapping starts at address 0.\<close>

definition Initialize :: "u64 \<Rightarrow> u64 \<Rightarrow> allocator \<Rightarrow> mem_error + allocator" where
  "Initialize = Initialize_at 0"

definition ManagesPointer :: "allocator \<Rightarrow> u64 \<Rightarrow> bool" where
  "ManagesPointer a p \<longleftrightarrow> g_memstart a \<le> p \<and> p < g_memend a"

definition PointerToCpu :: "allocator \<Rightarrow> u64 \<Rightarrow> mem_error + u64" where
  "PointerToCpu a p =
     (if \<not> g_memstart a \<le> p \<or> \<not> p < g_memend a then Inl Assert_failed
      else let ret = (p - g_memstart a) div g_maxpercore a
           in if \<not> ret < g_ncpus a then Inl Assert_failed else Inr ret)"

section \<open>Pages\<close>

type_synonym memory = "u64 \<Rightarrow> u64"

text \<open>The loop of \<^verbatim>\<open>initialize_page\<close>; \<open>None\<close> when the fuel is used up.\<close>

fun carve :: "nat \<Rightarrow> u64 \<Rightarrow> u64 \<Rightarrow> u64 \<Rightarrow> u64 \<Rightarrow> memory \<Rightarrow> memory option" where
  "carve 0 unit limit p nxt M = None"
| "carve (Suc n) unit limit p nxt M =
     (if nxt + unit \<le> limit then carve n unit limit nxt (nxt + unit) (M(p := nxt)) else Some (M(p := 0)))"

definition initialize_page :: "u64 \<Rightarrow> u64 \<Rightarrow> u64 \<Rightarrow> memory \<Rightarrow> (u64 \<times> memory) option" where
  "initialize_page page pagesize unit M =
     (let first = iceil page unit
      in map_option (Pair first) (carve (unat pagesize) unit (page + pagesize) first (first + unit) M))"

definition AllocateUnmanagedWithLock :: "nat \<Rightarrow> u64 \<Rightarrow> allocator \<Rightarrow> mem_error + (u64 \<times> allocator)" where
  "AllocateUnmanagedWithLock cpu nhugepgs a =
     (let pc = g_regions a ! cpu;
          mypx = region_begin pc;
          mynewpx = mypx + nhugepgs * GetHugepageSize
      in if mypx mod GetHugepageSize \<noteq> 0 then Inl Assert_failed
         else if mynewpx > region_end pc then Inl Assert_failed
         else Inr (mypx, a\<lparr>g_regions := (g_regions a)[cpu := pc\<lparr>region_begin := mynewpx\<rparr>]\<rparr>))"

definition AllocateUnmanaged :: "nat \<Rightarrow> u64 \<Rightarrow> allocator \<Rightarrow> mem_error + (u64 \<times> allocator)" where
  "AllocateUnmanaged cpu nhugepgs a =
     (if length (g_regions a) \<le> cpu then Inl Past_end else AllocateUnmanagedWithLock cpu nhugepgs a)"

text \<open>A page that cannot be cut within the fuel would be a loop that does not end; it is an error here.\<close>

definition AllocateArenas :: "nat \<Rightarrow> nat \<Rightarrow> allocator \<Rightarrow> memory \<Rightarrow> mem_error + (u64 \<times> allocator \<times> memory)" where
  "AllocateArenas cpu arena a M =
     (if length (g_regions a) \<le> cpu \<or> MAX_ARENAS \<le> arena then Inl Past_end
      else let pc = g_regions a ! cpu
           in if rarenas pc ! arena \<noteq> 0
              then Inr (rarenas pc ! arena,
                        a\<lparr>g_regions := (g_regions a)[cpu := pc\<lparr>rarenas := (rarenas pc)[arena := 0]\<rparr>]\<rparr>, M)
              else sbind (AllocateUnmanagedWithLock cpu 1 a)
                     (\<lambda>(mypx, a1). case initialize_page mypx GetHugepageSize (of_nat (arena + 1) * AllocAlignment) M of
                                     None \<Rightarrow> Inl Past_end
                                   | Some (first, M1) \<Rightarrow> Inr (first, a1, M1)))"

section \<open>Release\<close>

text \<open>
  \<^verbatim>\<open>ReleaseArenas\<close> sorts the blocks of the arenas into chains by processor: \<open>m\<close> maps a processor to the first and
  the last block of its chain, per arena.
\<close>

type_synonym chains = "u64 \<rightharpoonup> (u64 \<times> u64) list"

definition chain_push :: "nat \<Rightarrow> u64 \<Rightarrow> u64 \<Rightarrow> chains \<times> memory \<Rightarrow> chains \<times> memory" where
  "chain_push arena p cpu cM =
     (let (m, M) = cM
      in case m cpu of
           None \<Rightarrow> (m(cpu \<mapsto> (replicate MAX_ARENAS (0, 0))[arena := (p, p)]), M(p := 0))
         | Some v \<Rightarrow>
             if snd (v ! arena) = 0 then (m(cpu \<mapsto> v[arena := (p, p)]), M(p := 0))
             else (m(cpu \<mapsto> v[arena := (p, snd (v ! arena))]), M(p := fst (v ! arena))))"

fun release_walk :: "nat \<Rightarrow> allocator \<Rightarrow> nat \<Rightarrow> u64 \<Rightarrow> chains \<times> memory \<Rightarrow> mem_error + (chains \<times> memory)" where
  "release_walk 0 a arena p cM = Inl Past_end"
| "release_walk (Suc n) a arena p cM =
     (if p = 0 then Inr cM
      else let pnext = snd cM p
           in sbind (PointerToCpu a p) (\<lambda>cpu. release_walk n a arena pnext (chain_push arena p cpu cM)))"

fun release_arenas :: "nat \<Rightarrow> allocator \<Rightarrow> (nat \<times> u64) list \<Rightarrow> chains \<times> memory \<Rightarrow> mem_error + (chains \<times> memory)" where
  "release_arenas n a [] cM = Inr cM"
| "release_arenas n a ((arena, p) # ps) cM = sbind (release_walk n a arena p cM) (release_arenas n a ps)"

definition splice1 :: "nat \<Rightarrow> u64 \<times> u64 \<Rightarrow> regionctx \<times> memory \<Rightarrow> regionctx \<times> memory" where
  "splice1 arena ht rM =
     (let (pc, M) = rM
      in if fst ht = 0 then (pc, M)
         else (pc\<lparr>rarenas := (rarenas pc)[arena := fst ht]\<rparr>, M(snd ht := rarenas pc ! arena)))"

definition splice_cpu :: "(u64 \<times> u64) list \<Rightarrow> regionctx \<times> memory \<Rightarrow> regionctx \<times> memory" where
  "splice_cpu v rM = fold (\<lambda>arena. splice1 arena (v ! arena)) [0..<MAX_ARENAS] rM"

definition splice :: "chains \<Rightarrow> nat \<Rightarrow> allocator \<times> memory \<Rightarrow> allocator \<times> memory" where
  "splice m cpu aM =
     (case m (of_nat cpu) of
        None \<Rightarrow> aM
      | Some v \<Rightarrow> let (a, M) = aM; (pc, M1) = splice_cpu v (g_regions a ! cpu, M)
                  in (a\<lparr>g_regions := (g_regions a)[cpu := pc]\<rparr>, M1))"

text \<open>The walks visit every block once: the size of the memory is fuel enough.\<close>

definition ReleaseArenas :: "u64 list \<Rightarrow> allocator \<Rightarrow> memory \<Rightarrow> mem_error + (allocator \<times> memory)" where
  "ReleaseArenas arenas a M =
     sbind (release_arenas (Suc (unat (g_memend a - g_memstart a))) a (enumerate 0 arenas) (Map.empty, M))
       (\<lambda>(m, M1). Inr (fold (splice m) [0..<unat (g_ncpus a)] (a, M1)))"

definition CACHELINE_SIZE :: u64 where
  "CACHELINE_SIZE = 64"

text \<open>A byte stored at the address of a word is its lowest byte.\<close>

definition FaultRegion_at :: "u64 \<Rightarrow> nat \<Rightarrow> allocator \<Rightarrow> memory \<Rightarrow> mem_error + (allocator \<times> memory)" where
  "FaultRegion_at x cpu a M =
     (if \<not> of_nat cpu < g_ncpus a then Inl Assert_failed
      else let pc = g_regions a ! cpu
           in if region_faulted pc then Inr (a, M)
              else if region_begin pc mod GetHugepageSize \<noteq> 0 then Inl Assert_failed
              else if x \<noteq> region_begin pc then Inl Assert_failed
              else Inr (a\<lparr>g_regions := (g_regions a)[cpu := pc\<lparr>region_faulted := True\<rparr>]\<rparr>,
                        \<lambda>q. if region_begin pc \<le> q \<and> q < region_end pc \<and> (q - region_begin pc) mod CACHELINE_SIZE = 0
                            then (M q AND NOT 0xFF) OR 0xDE else M q))"

text \<open>In the port the address that stands for the result of \<^verbatim>\<open>mmap\<close> is 0.\<close>

definition FaultRegion :: "nat \<Rightarrow> allocator \<Rightarrow> memory \<Rightarrow> mem_error + (allocator \<times> memory)" where
  "FaultRegion = FaultRegion_at 0"

section \<open>The arenas of a thread\<close>

text \<open>\<open>pin_cpu\<close> is \<open>None\<close> for \<^verbatim>\<open>-1\<close>.\<close>

record sync_arenas =
  pin_cpu :: "nat option"
  arenas :: "u64 list"
  deallocs :: "u64 list"

definition sync_arenas_new :: sync_arenas where
  "sync_arenas_new = \<lparr>pin_cpu = None, arenas = replicate MAX_ARENAS 0, deallocs = replicate MAX_ARENAS 0\<rparr>"

definition set_pin_cpu :: "nat \<Rightarrow> sync_arenas \<Rightarrow> sync_arenas" where
  "set_pin_cpu cpu s = s\<lparr>pin_cpu := Some cpu\<rparr>"

record alloc_sys =
  shared :: allocator
  sync :: "sync_arenas list"
  memory :: memory

text \<open>What an allocation returns: a block of an arena, or whatever \<^verbatim>\<open>malloc(sz)\<close> does.\<close>

datatype alloc_ret = Block u64 | Malloc u64

definition set_sync :: "nat \<Rightarrow> sync_arenas \<Rightarrow> alloc_sys \<Rightarrow> alloc_sys" where
  "set_sync t y s = s\<lparr>sync := (sync s)[t := y]\<rparr>"

definition ensure_arena :: "nat \<Rightarrow> nat \<Rightarrow> nat \<Rightarrow> alloc_sys \<Rightarrow> mem_error + alloc_sys" where
  "ensure_arena t cpu arena s =
     (let y = sync s ! t
      in if arenas y ! arena \<noteq> 0 then Inr s
         else sbind (AllocateArenas cpu arena (shared s) (memory s))
                (\<lambda>(p, a, M). Inr (set_sync t (y\<lparr>arenas := (arenas y)[arena := p]\<rparr>) (s\<lparr>shared := a, memory := M\<rparr>))))"

definition alloc :: "nat \<Rightarrow> u64 \<Rightarrow> alloc_sys \<Rightarrow> mem_error + (alloc_ret \<times> alloc_sys)" where
  "alloc t sz s =
     (case pin_cpu (sync s ! t) of
        None \<Rightarrow> Inr (Malloc sz, s)
      | Some cpu \<Rightarrow>
          let arena = snd (ArenaSize sz)
          in if of_nat MAX_ARENAS \<le> arena then Inr (Malloc sz, s)
             else sbind (ensure_arena t cpu (unat arena) s)
                    (\<lambda>s1. let y = sync s1 ! t; p = arenas y ! unat arena
                          in Inr (Block p, set_sync t (y\<lparr>arenas := (arenas y)[unat arena := memory s1 p]\<rparr>) s1)))"

definition alloc_static :: "nat \<Rightarrow> u64 \<Rightarrow> alloc_sys \<Rightarrow> mem_error + (alloc_ret \<times> alloc_sys)" where
  "alloc_static t sz s =
     (case pin_cpu (sync s ! t) of
        None \<Rightarrow> Inr (Malloc sz, s)
      | Some cpu \<Rightarrow>
          let sz1 = slow_round_up sz GetHugepageSize
          in sbind (AllocateUnmanaged cpu (sz1 div GetHugepageSize) (shared s))
               (\<lambda>(p, a). Inr (Block p, s\<lparr>shared := a\<rparr>)))"

text \<open>A block the allocator does not manage goes to \<^verbatim>\<open>free\<close>.\<close>

definition dealloc :: "nat \<Rightarrow> u64 \<Rightarrow> u64 \<Rightarrow> alloc_sys \<Rightarrow> mem_error + alloc_sys" where
  "dealloc t p sz s =
     (if \<not> ManagesPointer (shared s) p then Inr s
      else let arena = snd (ArenaSize sz); y = sync s ! t; i = unat arena
           in if \<not> arena < of_nat MAX_ARENAS then Inl Assert_failed
              else Inr (set_sync t
                          (y\<lparr>arenas := (arenas y)[i := p], deallocs := (deallocs y)[i := deallocs y ! i + 1]\<rparr>)
                          (s\<lparr>memory := (memory s)(p := arenas y ! i)\<rparr>)))"

definition do_release :: "nat \<Rightarrow> alloc_sys \<Rightarrow> mem_error + alloc_sys" where
  "do_release t s =
     (let y = sync s ! t
      in sbind (ReleaseArenas (arenas y) (shared s) (memory s))
           (\<lambda>(a, M). Inr (set_sync t (y\<lparr>arenas := replicate MAX_ARENAS 0, deallocs := replicate MAX_ARENAS 0\<rparr>)
                                    (s\<lparr>shared := a, memory := M\<rparr>))))"

definition release_threshold :: u64 where
  "release_threshold = 10000"

definition try_release :: "nat \<Rightarrow> alloc_sys \<Rightarrow> mem_error + (bool \<times> alloc_sys)" where
  "try_release t s =
     (let acc = fold (+) (deallocs (sync s ! t)) 0
      in if acc > release_threshold then sbind (do_release t s) (\<lambda>s1. Inr (True, s1)) else Inr (False, s))"

definition fault_region :: "nat \<Rightarrow> alloc_sys \<Rightarrow> mem_error + alloc_sys" where
  "fault_region t s =
     (case pin_cpu (sync s ! t) of
        None \<Rightarrow> Inr s
      | Some cpu \<Rightarrow> sbind (FaultRegion cpu (shared s) (memory s)) (\<lambda>(a, M). Inr (s\<lparr>shared := a, memory := M\<rparr>)))"

section \<open>Linked blocks in memory\<close>

fun blk_list :: "memory \<Rightarrow> u64 \<Rightarrow> u64 list \<Rightarrow> bool" where
  "blk_list M p [] \<longleftrightarrow> p = 0"
| "blk_list M p (b # bs) \<longleftrightarrow> p = b \<and> b \<noteq> 0 \<and> blk_list M (M b) bs"

lemma blk_0 [simp]: "blk_list M 0 bs \<longleftrightarrow> bs = []"
  by (cases bs) auto

lemma blk_nonzero: "p \<noteq> 0 \<Longrightarrow> blk_list M p bs \<longleftrightarrow> (\<exists>cs. bs = p # cs \<and> blk_list M (M p) cs)"
  by (cases bs) auto

lemma blk_cong: "(\<And>b. b \<in> set bs \<Longrightarrow> M' b = M b) \<Longrightarrow> blk_list M' p bs \<longleftrightarrow> blk_list M p bs"
  by (induction bs arbitrary: p) auto

lemma blk_upd [simp]: "b \<notin> set bs \<Longrightarrow> blk_list (M(b := v)) p bs \<longleftrightarrow> blk_list M p bs"
  by (rule blk_cong) auto

lemma blk_unique: "blk_list M p bs \<Longrightarrow> blk_list M p cs \<Longrightarrow> bs = cs"
proof (induction bs arbitrary: p cs)
  case (Cons b bs)
  then show ?case by (cases cs) auto
qed auto

lemma blk_split: "blk_list M p (bs @ c # cs) \<Longrightarrow> blk_list M c (c # cs)"
  by (induction bs arbitrary: p) auto

lemma blk_distinct: "blk_list M p bs \<Longrightarrow> distinct bs"
proof (induction bs arbitrary: p)
  case (Cons b bs)
  have "b \<notin> set bs"
  proof
    assume "b \<in> set bs"
    then obtain xs ys where bs: "bs = xs @ b # ys" by (auto simp: in_set_conv_decomp)
    have "blk_list M b (b # ys)" using Cons.prems blk_split [of M p "b # xs" b ys] by (simp add: bs)
    moreover have "blk_list M b (b # bs)" using Cons.prems by simp
    ultimately have "b # ys = b # bs" by (rule blk_unique)
    then show False by (simp add: bs)
  qed
  then show ?case using Cons by auto
qed simp

lemma blk_append:
  assumes "blk_list M p xs" and "xs \<noteq> []" and "blk_list M q ys" and "set xs \<inter> set ys = {}"
  shows "blk_list (M(last xs := q)) p (xs @ ys)"
  using assms
proof (induction xs arbitrary: p)
  case (Cons x xs)
  have d: "distinct (x # xs)" using Cons.prems(1) by (rule blk_distinct)
  show ?case
  proof (cases "xs = []")
    case True
    then show ?thesis using Cons.prems by (auto simp del: fun_upd_apply simp add: fun_upd_same)
  next
    case False
    then have "last xs \<noteq> x" using d by auto
    then show ?thesis using Cons False by (auto simp del: fun_upd_apply simp add: fun_upd_same fun_upd_other)
  qed
qed simp

section \<open>Who holds a block\<close>

text \<open>
  A block is in use or lies in a list: of a thread, of a region, or of the chains a release builds.
\<close>

datatype owner = Thread nat nat | Region nat nat | Chain nat nat

fun arena_of :: "owner \<Rightarrow> nat" where
  "arena_of (Thread t a) = a"
| "arena_of (Region c a) = a"
| "arena_of (Chain c a) = a"

definition unit_of :: "nat \<Rightarrow> nat" where
  "unit_of arena = (arena + 1) * 16"

type_synonym ownership = "u64 \<rightharpoonup> nat \<times> owner option"

definition in_list :: "ownership \<Rightarrow> owner \<Rightarrow> u64 set" where
  "in_list Q i = {b. Q b = Some (unit_of (arena_of i), Some i)}"

definition free_lists :: "memory \<Rightarrow> (owner \<Rightarrow> u64) \<Rightarrow> ownership \<Rightarrow> owner set \<Rightarrow> bool" where
  "free_lists M hp Q I \<longleftrightarrow> (\<forall>i \<in> I. \<exists>bs. blk_list M (hp i) bs \<and> set bs = in_list Q i)"

text \<open>Free blocks keep their first word; the lists stay when nothing else changes.\<close>

lemma free_lists_frame:
  assumes "free_lists M hp Q I" and "\<And>i. i \<in> I \<Longrightarrow> hp' i = hp i" and "\<And>i. i \<in> I \<Longrightarrow> in_list Q' i = in_list Q i"
    and "\<And>i b. i \<in> I \<Longrightarrow> b \<in> in_list Q i \<Longrightarrow> M' b = M b"
  shows "free_lists M' hp' Q' I"
  unfolding free_lists_def
proof
  fix i assume i: "i \<in> I"
  obtain bs where bs: "blk_list M (hp i) bs" "set bs = in_list Q i" using assms(1) i by (auto simp: free_lists_def)
  have "blk_list M' (hp' i) bs" using bs assms(2,4) [OF i] blk_cong [of bs M' M "hp i"] by simp
  then show "\<exists>bs. blk_list M' (hp' i) bs \<and> set bs = in_list Q' i" using bs(2) assms(3) [OF i] by auto
qed

lemma free_lists_head:
  assumes "free_lists M hp Q I" and "i \<in> I"
  shows "hp i = 0 \<longleftrightarrow> in_list Q i = {}" and "hp i \<noteq> 0 \<Longrightarrow> hp i \<in> in_list Q i"
proof -
  obtain bs where bs: "blk_list M (hp i) bs" "set bs = in_list Q i" using assms by (auto simp: free_lists_def)
  show "hp i = 0 \<longleftrightarrow> in_list Q i = {}"
    using bs by (cases bs) auto
  show "hp i \<in> in_list Q i" if "hp i \<noteq> 0"
    using that bs(1) unfolding bs(2) [symmetric] by (cases bs) auto
qed

lemma in_list_upd: "in_list (Q(b \<mapsto> (n, x))) i =
    (if n = unit_of (arena_of i) \<and> x = Some i then Set.insert b (in_list Q i) else in_list Q i - {b})"
  by (auto simp: in_list_def)

lemma free_lists_one:
  assumes l: "free_lists M hp Q (I - {i})" and c: "blk_list M (hp i) bs" and s: "set bs = in_list Q i"
  shows "free_lists M hp Q I"
  unfolding free_lists_def using assms by (auto simp: free_lists_def)

lemma free_lists_push:
  assumes l: "free_lists M hp Q I" and i: "i \<in> I" and b: "b \<noteq> 0" and free: "\<And>j. j \<in> I \<Longrightarrow> b \<notin> in_list Q j"
  shows "free_lists (M(b := hp i)) (hp(i := b)) (Q(b \<mapsto> (unit_of (arena_of i), Some i))) I"
proof -
  obtain bs where bs: "blk_list M (hp i) bs" "set bs = in_list Q i" using l i by (auto simp: free_lists_def)
  show ?thesis
  proof (rule free_lists_one)
    show "free_lists (M(b := hp i)) (hp(i := b)) (Q(b \<mapsto> (unit_of (arena_of i), Some i))) (I - {i})"
      by (rule free_lists_frame [of M hp Q]) (use l free in \<open>auto simp: free_lists_def in_list_upd\<close>)
    show "blk_list (M(b := hp i)) ((hp(i := b)) i) (b # bs)" using b bs free [OF i] by simp
    show "set (b # bs) = in_list (Q(b \<mapsto> (unit_of (arena_of i), Some i))) i" using bs(2) by (simp add: in_list_upd)
  qed
qed

lemma free_lists_pop:
  assumes l: "free_lists M hp Q I" and i: "i \<in> I" and b: "hp i \<noteq> 0"
  shows "free_lists M (hp(i := M (hp i))) (Q(hp i \<mapsto> (n, None))) I"
proof -
  let ?b = "hp i"
  obtain bs where bs: "blk_list M ?b bs" "set bs = in_list Q i" using l i by (auto simp: free_lists_def)
  then obtain cs where cs: "bs = ?b # cs" "blk_list M (M ?b) cs" using b by (auto simp: blk_nonzero)
  have "?b \<notin> set cs" using blk_distinct [OF bs(1)] cs(1) by auto
  then have s: "set cs = in_list (Q(?b \<mapsto> (n, None))) i" using bs(2) cs(1) by (auto simp: in_list_upd)
  have Qb: "Q ?b = Some (unit_of (arena_of i), Some i)" using free_lists_head(2) [OF l i b] by (simp add: in_list_def)
  show ?thesis
  proof (rule free_lists_one)
    show "free_lists M (hp(i := M ?b)) (Q(?b \<mapsto> (n, None))) (I - {i})"
      by (rule free_lists_frame [of M hp Q]) (use l Qb in \<open>auto simp: free_lists_def in_list_upd in_list_def\<close>)
    show "blk_list M ((hp(i := M ?b)) i) cs" using cs(2) by simp
  qed (rule s)
qed

text \<open>A whole list moves from one owner to another whose list is empty.\<close>

definition move_list :: "owner \<Rightarrow> owner \<Rightarrow> ownership \<Rightarrow> ownership" where
  "move_list i j Q = (\<lambda>b. if b \<in> in_list Q i then Some (unit_of (arena_of j), Some j) else Q b)"

lemma in_list_move:
  assumes "i \<noteq> j"
  shows "in_list (move_list i j Q) k = (if k = j then in_list Q j \<union> in_list Q i else if k = i then {} else in_list Q k)"
  using assms by (auto simp: in_list_def move_list_def)

lemma free_lists_move:
  assumes l: "free_lists M hp Q I" and i: "i \<in> I" and j: "j \<in> I" and ij: "i \<noteq> j" and e: "hp j = 0"
  shows "free_lists M (hp(j := hp i, i := 0)) (move_list i j Q) I"
proof -
  have "in_list Q j = {}" using free_lists_head(1) [OF l j] e by simp
  then show ?thesis using l i j ij by (auto simp: free_lists_def in_list_move)
qed

text \<open>A list is put in front of another through its last block.\<close>

lemma free_lists_splice:
  assumes l: "free_lists M hp Q I" and i: "i \<in> I" and j: "j \<in> I" and ij: "i \<noteq> j"
    and bs: "blk_list M (hp i) bs" "bs \<noteq> []"
  shows "free_lists (M(last bs := hp j)) (hp(j := hp i, i := 0)) (move_list i j Q) I"
proof -
  obtain bs' where "blk_list M (hp i) bs'" "set bs' = in_list Q i" using l i by (auto simp: free_lists_def)
  then have sb: "set bs = in_list Q i" using blk_unique [OF bs(1)] by auto
  obtain cs where cs: "blk_list M (hp j) cs" "set cs = in_list Q j" using l j by (auto simp: free_lists_def)
  have dis: "set bs \<inter> set cs = {}" using ij unfolding sb cs(2) by (auto simp: in_list_def)
  have app: "blk_list (M(last bs := hp j)) (hp i) (bs @ cs)" using blk_append [OF bs cs(1) dis] .
  have lb: "last bs \<in> in_list Q i" unfolding sb [symmetric] using bs(2) by (rule last_in_set)
  show ?thesis
    unfolding free_lists_def
  proof
    fix k assume k: "k \<in> I"
    show "\<exists>ds. blk_list (M(last bs := hp j)) ((hp(j := hp i, i := 0)) k) ds \<and> set ds = in_list (move_list i j Q) k"
    proof (cases "k = j \<or> k = i")
      case True
      then show ?thesis
      proof
        assume "k = j"
        then show ?thesis using app ij sb cs(2) by (intro exI [of _ "bs @ cs"]) (simp add: in_list_move Un_commute)
      next
        assume "k = i"
        then show ?thesis using ij by (simp add: in_list_move)
      qed
    next
      case False
      obtain ds where ds: "blk_list M (hp k) ds" "set ds = in_list Q k" using l k by (auto simp: free_lists_def)
      have "last bs \<notin> set ds" using lb False unfolding ds(2) by (auto simp: in_list_def)
      then show ?thesis using ds False ij by (intro exI [of _ ds]) (simp add: in_list_move)
    qed
  qed
qed

section \<open>Arithmetic of sizes and addresses\<close>

lemma unat_iceil:
  assumes y: "y \<noteq> 0" and b: "unat x + unat y < 2 ^ 64"
  shows "unat y dvd unat (iceil x y)" and "unat x \<le> unat (iceil x y)" and "unat (iceil x y) < unat x + unat y"
proof -
  let ?m = "unat x mod unat y"
  have y0: "0 < unat y" using y by (simp add: unat_gt_0)
  have m: "unat (x mod y) = ?m" by (rule unat_mod)
  have mz: "x mod y = 0 \<longleftrightarrow> ?m = 0" by (metis m unat_eq_zero)
  have lt: "?m < unat y" using y0 by simp
  have e: "unat (iceil x y) = unat x + (if ?m = 0 then 0 else unat y - ?m)"
  proof (cases "?m = 0")
    case True
    then show ?thesis using mz by (simp add: iceil_def Let_def)
  next
    case False
    have "unat (y - x mod y) = unat y - ?m"
      using lt m by (simp add: unat_sub word_le_nat_alt)
    moreover have "unat x + (unat y - ?m) < 2 ^ LENGTH(64)" using b by simp
    ultimately have "unat (x + (y - x mod y)) = unat x + (unat y - ?m)"
      by (metis unat_add_lem)
    then show ?thesis using False mz by (simp add: iceil_def Let_def)
  qed
  have s: "unat x = unat x div unat y * unat y + ?m" by simp
  show "unat y dvd unat (iceil x y)"
  proof (cases "?m = 0")
    case False
    then have "unat (iceil x y) + ?m = unat x + unat y" using e lt by simp
    then have "unat (iceil x y) + ?m = unat x div unat y * unat y + ?m + unat y" using s by linarith
    then have "unat (iceil x y) = (unat x div unat y + 1) * unat y"
      by (simp only: distrib_right mult_1)
    then show ?thesis by simp
  qed (use e in auto)
  show "unat x \<le> unat (iceil x y)" "unat (iceil x y) < unat x + unat y" using e lt y0 by (auto split: if_splits)
qed

lemma slow_round_up_iceil: "slow_round_up = iceil"
  by (simp add: fun_eq_iff slow_round_up_def iceil_def Let_def)

lemma round_up_alignment: "unat (round_up 4 x) = ((unat x + 15) mod 2 ^ 64) div 16 * 16"
proof -
  have m: "(push_bit 4 1 - 1 :: u64) = mask 4" by (simp add: mask_eq_exp_minus_1)
  have "round_up 4 x = (x + 15) AND NOT (mask 4)" unfolding round_up_def m by (simp add: mask_eq_exp_minus_1)
  also have "\<dots> = push_bit 4 (drop_bit 4 (x + 15))" by (rule bit_word_eqI) (auto simp: bit_simps)
  finally have e: "round_up 4 x = drop_bit 4 (x + 15) * 16" by (simp add: push_bit_eq_mult mult.commute)
  have d: "unat (drop_bit 4 (x + 15)) = ((unat x + 15) mod 2 ^ 64) div 16"
    by (simp add: unat_drop_bit unat_word_ariths)
  have "((unat x + 15) mod 2 ^ 64) div 16 * 16 < 2 ^ 64"
    by (rule order_le_less_trans [OF div_times_less_eq_dividend]) simp
  then show ?thesis unfolding e by (simp add: unat_word_ariths d)
qed

text \<open>The arena of a size: the blocks of the arena are at least as large, and by less than an alignment unit.\<close>

lemma ArenaSize_unit:
  assumes "snd (ArenaSize sz) < of_nat MAX_ARENAS"
  shows "unat (snd (ArenaSize sz)) < MAX_ARENAS" and "0 < unat sz" and "unat sz \<le> unit_of (unat (snd (ArenaSize sz)))"
    and "unit_of (unat (snd (ArenaSize sz))) < unat sz + 16"
proof -
  let ?n = "((unat sz + 15) mod 2 ^ 64) div 16"
  have r: "unat (round_up LgAllocAlignment sz) = ?n * 16" by (simp add: LgAllocAlignment_def round_up_alignment)
  have a16: "unat AllocAlignment = 16" by (simp add: AllocAlignment_def LgAllocAlignment_def)
  have d: "unat (round_up LgAllocAlignment sz div AllocAlignment) = ?n" by (simp add: unat_div r a16)
  have lt: "unat (snd (ArenaSize sz)) < MAX_ARENAS"
    using assms by (simp add: word_less_nat_alt MAX_ARENAS_def)
  have s: "snd (ArenaSize sz) = round_up LgAllocAlignment sz div AllocAlignment - 1" by (simp add: ArenaSize_def Let_def)
  have n0: "0 < ?n"
  proof (rule ccontr)
    assume "\<not> 0 < ?n"
    then have "round_up LgAllocAlignment sz div AllocAlignment = 0" using d by (metis gr0I unat_eq_zero)
    then have "snd (ArenaSize sz) = - 1" using s by simp
    then show False using lt by (simp add: MAX_ARENAS_def unsigned_minus_1_eq_mask mask_eq_exp_minus_1)
  qed
  then have u: "unat (snd (ArenaSize sz)) = ?n - 1"
    unfolding s using d by (simp add: unat_sub word_le_nat_alt)
  have big: "?n < 33" using lt u by (simp add: MAX_ARENAS_def)
  have sz: "unat sz < 2 ^ 64" by (rule order_less_le_trans [OF unsigned_less]) simp
  have "unat sz + 15 < 2 ^ 64"
  proof (rule ccontr)
    assume "\<not> unat sz + 15 < 2 ^ 64"
    then have "(unat sz + 15) mod 2 ^ 64 = unat sz + 15 - 2 ^ 64" using sz by (simp add: le_mod_geq)
    then show False using n0 sz by simp
  qed
  then have n: "?n = (unat sz + 15) div 16" by simp
  show "unat (snd (ArenaSize sz)) < MAX_ARENAS" by (rule lt)
  show "0 < unat sz" using n0 n by (cases "unat sz") auto
  show "unat sz \<le> unit_of (unat (snd (ArenaSize sz)))" "unit_of (unat (snd (ArenaSize sz))) < unat sz + 16"
    using n0 unfolding unit_of_def u n by presburger+
qed

section \<open>Cutting a page\<close>

lemma carve_linked:
  assumes "0 < unat unit" and "unat p + unat unit \<le> unat limit" and "unat limit + unat unit < 2 ^ 64" and "p \<noteq> 0"
    and "(unat limit - unat p) div unat unit \<le> n" and "nxt = p + unit"
  shows "\<exists>M' bs. carve n unit limit p nxt M = Some M' \<and> blk_list M' p bs \<and>
           length bs = (unat limit - unat p) div unat unit \<and>
           (\<forall>b \<in> set bs. unat p \<le> unat b \<and> unat b + unat unit \<le> unat limit \<and> unat unit dvd unat b - unat p) \<and>
           (\<forall>q. q \<notin> set bs \<longrightarrow> M' q = M q)"
  using assms
proof (induction n arbitrary: p nxt M)
  case 0
  then have "1 \<le> (unat limit - unat p) div unat unit"
    by (metis add_le_imp_le_diff div_greater_zero_iff add.commute le_imp_less_Suc less_Suc_eq_le One_nat_def Suc_leI)
  then show ?case using 0 by simp
next
  case (Suc n)
  let ?u = "unat unit" and ?L = "unat limit"
  have nx: "unat nxt = unat p + ?u" using Suc.prems by (simp add: unat_add_lem [THEN iffD1])
  have "unat nxt + ?u < 2 ^ LENGTH(64)" using Suc.prems(2,3) nx by simp
  then have "unat (nxt + unit) = unat nxt + ?u" by (rule unat_add_lem [THEN iffD1])
  then have nu: "unat (nxt + unit) = unat p + 2 * ?u" using nx by simp
  have cnt: "(?L - unat p) div ?u = Suc ((?L - unat nxt) div ?u)"
    using Suc.prems(1,2) nx by (simp add: le_div_geq)
  show ?case
  proof (cases "nxt + unit \<le> limit")
    case True
    have a: "unat nxt + ?u \<le> ?L" using True nu nx by (simp add: word_le_nat_alt)
    have b: "nxt \<noteq> 0" using nx Suc.prems(1) by (metis add_is_0 less_numeral_extra(3) unat_0)
    have c: "(?L - unat nxt) div ?u \<le> n" using Suc.prems(5) cnt by simp
    obtain M' bs where IH: "carve n unit limit nxt (nxt + unit) (M(p := nxt)) = Some M'" "blk_list M' nxt bs"
        "length bs = (?L - unat nxt) div ?u"
        "\<forall>b \<in> set bs. unat nxt \<le> unat b \<and> unat b + ?u \<le> ?L \<and> ?u dvd unat b - unat nxt"
        "\<forall>q. q \<notin> set bs \<longrightarrow> M' q = (M(p := nxt)) q"
      using Suc.IH [OF Suc.prems(1) a Suc.prems(3) b c refl, of "M(p := nxt)"] by blast
    have pb: "p \<notin> set bs" using IH(4) nx Suc.prems(1) by fastforce
    have "M' p = nxt" using IH(5) pb by simp
    then have 1: "blk_list M' p (p # bs)" using Suc.prems(4) IH(2) by simp
    have 2: "\<forall>b \<in> set (p # bs). unat p \<le> unat b \<and> unat b + ?u \<le> ?L \<and> ?u dvd unat b - unat p"
    proof
      fix b assume "b \<in> set (p # bs)"
      then consider "b = p" | "b \<in> set bs" by auto
      then show "unat p \<le> unat b \<and> unat b + ?u \<le> ?L \<and> ?u dvd unat b - unat p"
      proof cases
        case 2
        then have "unat b - unat p = (unat b - unat nxt) + ?u" using IH(4) nx by fastforce
        then show ?thesis using 2 IH(4) nx by fastforce
      qed (use Suc.prems in auto)
    qed
    have 3: "\<forall>q. q \<notin> set (p # bs) \<longrightarrow> M' q = M q" using IH(5) by auto
    show ?thesis
      using True IH(1,3) 1 2 3 cnt by (intro exI [of _ M'] exI [of _ "p # bs"]) simp
  next
    case False
    then have "?L - unat nxt < ?u" using nu nx Suc.prems(1) unfolding word_le_nat_alt by linarith
    then have "(?L - unat p) div ?u = 1" using cnt by simp
    then show ?thesis using False Suc.prems by (intro exI [of _ "M(p := 0)"] exI [of _ "[p]"]) (simp add: fun_upd_def)
  qed
qed

section \<open>The invariant\<close>

text \<open>Where the region of a processor starts, and that a block lies in the part of it that has been handed out.\<close>

definition region_base :: "allocator \<Rightarrow> nat \<Rightarrow> nat" where
  "region_base a c = unat (g_memstart a) + c * unat (g_maxpercore a)"

abbreviation rbegin :: "allocator \<Rightarrow> nat \<Rightarrow> nat" where
  "rbegin a c \<equiv> unat (region_begin (g_regions a ! c))"

abbreviation ncpus :: "allocator \<Rightarrow> nat" where
  "ncpus a \<equiv> unat (g_ncpus a)"

definition carved :: "allocator \<Rightarrow> nat \<Rightarrow> u64 \<Rightarrow> nat \<Rightarrow> bool" where
  "carved a c b n \<longleftrightarrow> c < ncpus a \<and> region_base a c \<le> unat b \<and> unat b + n \<le> rbegin a c"

definition region_ok :: "allocator \<Rightarrow> nat \<Rightarrow> bool" where
  "region_ok a c \<longleftrightarrow> region_base a c \<le> rbegin a c \<and> rbegin a c \<le> unat (region_end (g_regions a ! c)) \<and>
     unat (region_end (g_regions a ! c)) = region_base a (Suc c) \<and> 4096 dvd rbegin a c \<and>
     length (rarenas (g_regions a ! c)) = MAX_ARENAS"

definition regions_ok :: "allocator \<Rightarrow> bool" where
  "regions_ok a \<longleftrightarrow> 0 < unat (g_maxpercore a) \<and> 4096 dvd unat (g_memstart a) \<and> 4096 dvd unat (g_maxpercore a) \<and>
     unat (g_memend a) = region_base a (ncpus a) \<and> unat (g_memend a) + 4096 < 2 ^ 64 \<and> ncpus a \<le> length (g_regions a) \<and> (\<forall>c < ncpus a. region_ok a c)"

definition apart :: "u64 \<Rightarrow> nat \<Rightarrow> u64 \<Rightarrow> nat \<Rightarrow> bool" where
  "apart p n q m \<longleftrightarrow> unat p + n \<le> unat q \<or> unat q + m \<le> unat p"

definition block_ok :: "allocator \<Rightarrow> u64 \<Rightarrow> nat \<Rightarrow> bool" where
  "block_ok a b n \<longleftrightarrow> 0 < n \<and> 16 dvd unat b \<and> (n \<le> 512 \<longrightarrow> n dvd unat b) \<and> (\<exists>c < ncpus a. carved a c b n)"

definition blocks_ok :: "allocator \<Rightarrow> ownership \<Rightarrow> bool" where
  "blocks_ok a Q \<longleftrightarrow> (\<forall>b n w. Q b = Some (n, w) \<longrightarrow> block_ok a b n) \<and>
     (\<forall>c k b n. Q b = Some (n, Some (Region c k)) \<longrightarrow> carved a c b n) \<and>
     (\<forall>b n w q m v. b \<noteq> q \<and> Q b = Some (n, w) \<and> Q q = Some (m, v) \<longrightarrow> apart b n q m)"

definition sync_ok :: "allocator \<Rightarrow> sync_arenas \<Rightarrow> bool" where
  "sync_ok a y \<longleftrightarrow> length (arenas y) = MAX_ARENAS \<and> length (deallocs y) = MAX_ARENAS \<and>
     (\<forall>c. pin_cpu y = Some c \<longrightarrow> c < ncpus a)"

fun head_of :: "alloc_sys \<Rightarrow> owner \<Rightarrow> u64" where
  "head_of s (Thread t k) = arenas (sync s ! t) ! k"
| "head_of s (Region c k) = rarenas (g_regions (shared s) ! c) ! k"
| "head_of s (Chain c k) = 0"

definition owners :: "nat \<Rightarrow> nat \<Rightarrow> owner set" where
  "owners nt nc = {i. arena_of i < MAX_ARENAS \<and>
     (case i of Thread t k \<Rightarrow> t < nt | Region c k \<Rightarrow> c < nc | Chain c k \<Rightarrow> c < nc)}"

abbreviation all_owners :: "alloc_sys \<Rightarrow> owner set" where
  "all_owners s \<equiv> owners (length (sync s)) (ncpus (shared s))"

definition alloc_inv :: "alloc_sys \<Rightarrow> ownership \<Rightarrow> bool" where
  "alloc_inv s Q \<longleftrightarrow> regions_ok (shared s) \<and> (\<forall>y \<in> set (sync s). sync_ok (shared s) y) \<and> blocks_ok (shared s) Q \<and>
     (\<forall>b n i. Q b = Some (n, Some i) \<longrightarrow> n = unit_of (arena_of i) \<and> i \<in> all_owners s) \<and>
     free_lists (memory s) (head_of s) Q (all_owners s)"

text \<open>Blocks of different regions do not overlap.\<close>

lemma region_base_mono: "c < d \<Longrightarrow> region_base a (Suc c) \<le> region_base a d"
  unfolding region_base_def by (rule add_left_mono, rule mult_le_mono1) simp

lemma regions_apart:
  assumes r: "regions_ok a" and "c < ncpus a" "d < ncpus a" and "c \<noteq> d"
    and "region_base a c \<le> unat p" "unat p + n \<le> region_base a (Suc c)"
    and "region_base a d \<le> unat q" "unat q + m \<le> region_base a (Suc d)"
  shows "apart p n q m"
proof (cases "c < d")
  case True
  then show ?thesis using region_base_mono [OF True, of a] assms by (simp add: apart_def)
next
  case False
  then have "d < c" using assms by simp
  then show ?thesis using region_base_mono [of d c a] assms by (simp add: apart_def)
qed

lemma unat_unit: "k < MAX_ARENAS \<Longrightarrow> unat (of_nat (k + 1) * AllocAlignment) = unit_of k"
  by (simp add: MAX_ARENAS_def AllocAlignment_def LgAllocAlignment_def unit_of_def unat_word_ariths unat_of_nat_small)

lemma unit_bounds: "k < MAX_ARENAS \<Longrightarrow> 0 < unit_of k \<and> unit_of k \<le> 512 \<and> 16 dvd unit_of k"
  by (auto simp: MAX_ARENAS_def unit_of_def)

text \<open>A page becomes a list of aligned blocks, all inside the page.\<close>

lemma initialize_page_linked:
  assumes k: "k < MAX_ARENAS" and pg: "4096 dvd unat page" "page \<noteq> 0" "unat page + 4096 < 2 ^ 64"
  shows "\<exists>first M' bs. initialize_page page GetHugepageSize (of_nat (k + 1) * AllocAlignment) M = Some (first, M') \<and>
           first \<noteq> 0 \<and> blk_list M' first bs \<and> bs \<noteq> [] \<and>
           (\<forall>b \<in> set bs. unat page \<le> unat b \<and> unat b + unit_of k \<le> unat page + 4096 \<and> unit_of k dvd unat b) \<and>
           (\<forall>q. q \<notin> set bs \<longrightarrow> M' q = M q)"
proof -
  let ?u = "of_nat (k + 1) * AllocAlignment :: u64" and ?first = "iceil page (of_nat (k + 1) * AllocAlignment)"
  have u: "unat ?u = unit_of k" using k by (rule unat_unit)
  have ub: "0 < unit_of k" "unit_of k \<le> 512" using unit_bounds [OF k] by auto
  have u0: "?u \<noteq> 0" using u ub by (metis unat_0 less_numeral_extra(3))
  have hi: "unat page + 4096 \<le> 2 ^ 64 - 4096"
  proof -
    obtain j where j: "unat page = 4096 * j" using pg(1) by blast
    have "4096 * (j + 1) < 4096 * (2 ^ 52 :: nat)" using pg(3) j by simp
    then have "j + 1 < 2 ^ 52" by (rule mult_less_cancel1 [THEN iffD1, THEN conjunct2])
    then have "4096 * (j + 1) \<le> 4096 * (2 ^ 52 - 1 :: nat)" by (intro mult_le_mono) simp_all
    then show ?thesis using j by simp
  qed
  have i: "unit_of k dvd unat ?first" "unat page \<le> unat ?first" "unat ?first < unat page + unit_of k"
    using unat_iceil [OF u0, of page] u ub hi by simp_all
  have f0: "?first \<noteq> 0" using i(2) pg(2) by (metis le_zero_eq unat_0 unat_eq_zero)
  have lim: "unat (page + GetHugepageSize) = unat page + 4096"
    using pg(3) by (simp add: GetHugepageSize_def unat_word_ariths)
  have d: "(unat (page + GetHugepageSize) - unat ?first) div unat ?u \<le> 4096"
    using i(2) lim by (simp add: div_le_dividend order_trans [OF div_le_dividend])
  have "0 < unat ?u" "unat ?first + unat ?u \<le> unat (page + GetHugepageSize)" "unat (page + GetHugepageSize) + unat ?u < 2 ^ 64"
    using u ub i lim hi by simp_all
  from carve_linked [OF this f0 d refl, of M]
  obtain M' bs where c: "carve 4096 ?u (page + GetHugepageSize) ?first (?first + ?u) M = Some M'" "blk_list M' ?first bs"
      "\<forall>b \<in> set bs. unat ?first \<le> unat b \<and> unat b + unat ?u \<le> unat (page + GetHugepageSize) \<and> unat ?u dvd unat b - unat ?first"
      "\<forall>q. q \<notin> set bs \<longrightarrow> M' q = M q" by blast
  have b: "unat page \<le> unat b \<and> unat b + unit_of k \<le> unat page + 4096 \<and> unit_of k dvd unat b" if "b \<in> set bs" for b
  proof -
    have "unat ?first \<le> unat b" "unat b + unit_of k \<le> unat page + 4096" "unit_of k dvd unat b - unat ?first"
      using c(3) that unfolding u lim by auto
    moreover then have "unit_of k dvd unat ?first + (unat b - unat ?first)" using i(1) by (intro dvd_add)
    ultimately show ?thesis using i(2) by simp
  qed
  have ne: "bs \<noteq> []" using c(2) f0 by auto
  have "unat GetHugepageSize = 4096" by (simp add: GetHugepageSize_def)
  then have "initialize_page page GetHugepageSize ?u M = Some (?first, M')"
    using c(1) by (simp add: initialize_page_def Let_def)
  then show ?thesis using f0 c(2,4) ne b by blast
qed

section \<open>Updates of the state\<close>

lemma head_of_set_sync:
  assumes "t < length (sync s)" and "k < length (arenas (sync s ! t))"
  shows "head_of (set_sync t ((sync s ! t)\<lparr>arenas := (arenas (sync s ! t))[k := p], deallocs := d\<rparr>) s) = (head_of s)(Thread t k := p)"
proof
  fix i show "head_of (set_sync t ((sync s ! t)\<lparr>arenas := (arenas (sync s ! t))[k := p], deallocs := d\<rparr>) s) i = ((head_of s)(Thread t k := p)) i"
    using assms by (cases i) (auto simp: set_sync_def nth_list_update)
qed

lemma head_of_set_sync1:
  assumes "t < length (sync s)" and "k < length (arenas (sync s ! t))"
  shows "head_of (set_sync t ((sync s ! t)\<lparr>arenas := (arenas (sync s ! t))[k := p]\<rparr>) s) = (head_of s)(Thread t k := p)"
  using head_of_set_sync [OF assms, where d = "deallocs (sync s ! t)"] by simp

lemma head_of_memory [simp]: "head_of (s\<lparr>memory := M\<rparr>) = head_of s"
proof
  fix i show "head_of (s\<lparr>memory := M\<rparr>) i = head_of s i" by (cases i) auto
qed

definition set_region :: "nat \<Rightarrow> regionctx \<Rightarrow> allocator \<Rightarrow> allocator" where
  "set_region c pc a = a\<lparr>g_regions := (g_regions a)[c := pc]\<rparr>"

lemma set_region_simps [simp]:
  "g_memstart (set_region c pc a) = g_memstart a" "g_memend (set_region c pc a) = g_memend a"
  "g_ncpus (set_region c pc a) = g_ncpus a" "g_maxpercore (set_region c pc a) = g_maxpercore a"
  "length (g_regions (set_region c pc a)) = length (g_regions a)" "region_base (set_region c pc a) = region_base a"
  "c < length (g_regions a) \<Longrightarrow> g_regions (set_region c pc a) ! d = (if d = c then pc else g_regions a ! d)"
  by (auto simp: set_region_def region_base_def fun_eq_iff)

lemma head_of_set_region:
  assumes "c < length (g_regions a)" and "k < length (rarenas (g_regions a ! c))"
  shows "head_of (s\<lparr>shared := set_region c ((g_regions a ! c)\<lparr>rarenas := (rarenas (g_regions a ! c))[k := p]\<rparr>) a\<rparr>) =
         (head_of (s\<lparr>shared := a\<rparr>))(Region c k := p)"
proof
  fix i show "head_of (s\<lparr>shared := set_region c ((g_regions a ! c)\<lparr>rarenas := (rarenas (g_regions a ! c))[k := p]\<rparr>) a\<rparr>) i =
         ((head_of (s\<lparr>shared := a\<rparr>))(Region c k := p)) i"
    using assms by (cases i) (auto simp: nth_list_update)
qed

lemma regions_ok_rarenas:
  assumes r: "regions_ok a" and c: "c < ncpus a" and l: "length ks = MAX_ARENAS"
  shows "regions_ok (set_region c ((g_regions a ! c)\<lparr>rarenas := ks\<rparr>) a)"
proof -
  have c': "c < length (g_regions a)" using r c by (simp add: regions_ok_def)
  have "region_ok (set_region c ((g_regions a ! c)\<lparr>rarenas := ks\<rparr>) a) d" if "d < ncpus a" for d
    using r that l c' by (auto simp: regions_ok_def region_ok_def)
  then show ?thesis using r by (simp add: regions_ok_def)
qed

lemma regions_ok_bump:
  assumes r: "regions_ok a" and c: "c < ncpus a" and n: "unat nb = rbegin a c + m * 4096"
    and le: "unat nb \<le> unat (region_end (g_regions a ! c))"
  shows "regions_ok (set_region c ((g_regions a ! c)\<lparr>region_begin := nb\<rparr>) a)"
proof -
  have c': "c < length (g_regions a)" using r c by (simp add: regions_ok_def)
  have "region_ok (set_region c ((g_regions a ! c)\<lparr>region_begin := nb\<rparr>) a) d" if "d < ncpus a" for d
    using r that n le c' by (auto simp: regions_ok_def region_ok_def)
  then show ?thesis using r by (simp add: regions_ok_def)
qed

lemma carved_mono:
  assumes "carved a c b n" and "region_base a' = region_base a" and "g_ncpus a' = g_ncpus a"
    and "c < ncpus a \<Longrightarrow> rbegin a c \<le> rbegin a' c"
  shows "carved a' c b n"
  using assms by (simp add: carved_def)

lemma blocks_okI:
  assumes "\<And>b n w. Q b = Some (n, w) \<Longrightarrow> block_ok a b n"
    and "\<And>c k b n. Q b = Some (n, Some (Region c k)) \<Longrightarrow> carved a c b n"
    and "\<And>b n w q m v. b \<noteq> q \<Longrightarrow> Q b = Some (n, w) \<Longrightarrow> Q q = Some (m, v) \<Longrightarrow> apart b n q m"
  shows "blocks_ok a Q"
  unfolding blocks_ok_def using assms by blast

lemma blocks_okD:
  assumes "blocks_ok a Q"
  shows "Q b = Some (n, w) \<Longrightarrow> block_ok a b n"
    and "Q b = Some (n, Some (Region c k)) \<Longrightarrow> carved a c b n"
    and "b \<noteq> q \<Longrightarrow> Q b = Some (n, w) \<Longrightarrow> Q q = Some (m, v) \<Longrightarrow> apart b n q m"
  using assms unfolding blocks_ok_def by blast+

lemma blocks_ok_mono:
  assumes "blocks_ok a Q" and "region_base a' = region_base a" and "g_ncpus a' = g_ncpus a"
    and "\<And>c. c < ncpus a \<Longrightarrow> rbegin a c \<le> rbegin a' c"
  shows "blocks_ok a' Q"
proof -
  have c: "carved a c b n \<Longrightarrow> carved a' c b n" for c b n using carved_mono [OF _ assms(2-4)] by blast
  show ?thesis
  proof (rule blocks_okI)
    fix b n w assume "Q b = Some (n, w)"
    then have "block_ok a b n" by (rule blocks_okD(1) [OF assms(1)])
    then show "block_ok a' b n" using c assms(3) by (auto simp: block_ok_def)
  next
    fix c' k b n assume "Q b = Some (n, Some (Region c' k))"
    then show "carved a' c' b n" by (rule c [OF blocks_okD(2) [OF assms(1)]])
  next
    fix b n w q m v assume "b \<noteq> q" "Q b = Some (n, w)" "Q q = Some (m, v)"
    then show "apart b n q m" by (rule blocks_okD(3) [OF assms(1)])
  qed
qed

text \<open>Handing blocks on keeps their sizes.\<close>

lemma blocks_ok_reown:
  assumes Q: "blocks_ok a Q" and f: "\<And>b. map_option fst (Q' b) = map_option fst (Q b)"
    and r: "\<And>c k b n. Q' b = Some (n, Some (Region c k)) \<Longrightarrow> carved a c b n"
  shows "blocks_ok a Q'"
proof -
  have e: "\<exists>w. Q b = Some (n, w)" if "Q' b = Some (n, v)" for b n v
    using f [of b] that by (cases "Q b") auto
  show ?thesis
  proof (rule blocks_okI)
    fix b n w assume "Q' b = Some (n, w)"
    then show "block_ok a b n" using e blocks_okD(1) [OF Q] by blast
  next
    fix b n w q m v assume ne: "b \<noteq> q" and "Q' b = Some (n, w)" "Q' q = Some (m, v)"
    then obtain w' v' where "Q b = Some (n, w')" "Q q = Some (m, v')" using e by blast
    then show "apart b n q m" by (rule blocks_okD(3) [OF Q ne])
  qed (rule r)
qed

lemma sync_ok_shared: "g_ncpus a' = g_ncpus a \<Longrightarrow> region_base a' = region_base a \<Longrightarrow> sync_ok a' y = sync_ok a y"
  by (simp add: sync_ok_def)

section \<open>Allocation\<close>

definition live :: "ownership \<Rightarrow> (u64 \<times> nat) set" where
  "live Q = {(b, n). Q b = Some (n, None)}"

lemma alloc_invD:
  assumes "alloc_inv s Q"
  shows "regions_ok (shared s)" and "t < length (sync s) \<Longrightarrow> sync_ok (shared s) (sync s ! t)" and "blocks_ok (shared s) Q"
    and "Q b = Some (n, Some i) \<Longrightarrow> n = unit_of (arena_of i) \<and> i \<in> all_owners s"
    and "free_lists (memory s) (head_of s) Q (all_owners s)"
  using assms by (auto simp: alloc_inv_def)

lemma owner_in: "t < nt \<Longrightarrow> k < MAX_ARENAS \<Longrightarrow> Thread t k \<in> owners nt nc"
    "c < nc \<Longrightarrow> k < MAX_ARENAS \<Longrightarrow> Region c k \<in> owners nt nc"
    "c < nc \<Longrightarrow> k < MAX_ARENAS \<Longrightarrow> Chain c k \<in> owners nt nc"
  by (auto simp: owners_def)

lemma alloc_invI:
  assumes inv: "alloc_inv s Q" and "regions_ok (shared s')" and eq: "g_ncpus (shared s') = g_ncpus (shared s)"
      "region_base (shared s') = region_base (shared s)" and y: "sync s' = (sync s)[t := y]" "sync_ok (shared s) y"
    and "blocks_ok (shared s') Q'"
    and "\<And>b n i. Q' b = Some (n, Some i) \<Longrightarrow> n = unit_of (arena_of i) \<and> i \<in> all_owners s"
    and "free_lists (memory s') (head_of s') Q' (all_owners s)"
  shows "alloc_inv s' Q'"
proof -
  have "sync_ok (shared s') z" if "z \<in> set (sync s')" for z
  proof -
    have "z \<in> set (sync s) \<or> z = y" using that set_update_subset_insert by (fastforce simp: y(1))
    then show ?thesis using inv y(2) sync_ok_shared [OF eq] by (auto simp: alloc_inv_def)
  qed
  then show ?thesis using assms(2,7-) eq(1) y(1) by (auto simp: alloc_inv_def)
qed

text \<open>The list of a region goes to the thread that asks for it.\<close>

lemma claim_inv:
  assumes inv: "alloc_inv s Q" and t: "t < length (sync s)" and c: "c < ncpus (shared s)" and k: "k < MAX_ARENAS"
    and e: "arenas (sync s ! t) ! k = 0"
    and a': "a' = set_region c ((g_regions (shared s) ! c)\<lparr>rarenas := (rarenas (g_regions (shared s) ! c))[k := 0]\<rparr>) (shared s)"
    and s': "s' = set_sync t ((sync s ! t)\<lparr>arenas := (arenas (sync s ! t))[k := rarenas (g_regions (shared s) ! c) ! k]\<rparr>) (s\<lparr>shared := a'\<rparr>)"
  shows "alloc_inv s' (move_list (Region c k) (Thread t k) Q)"
proof -
  let ?i = "Region c k" and ?j = "Thread t k" and ?Q = "move_list (Region c k) (Thread t k) Q"
  note I = alloc_invD [OF inv]
  have c': "c < length (g_regions (shared s))" and lr: "length (rarenas (g_regions (shared s) ! c)) = MAX_ARENAS"
    using I(1) c by (auto simp: regions_ok_def region_ok_def)
  have la: "length (arenas (sync s ! t)) = MAX_ARENAS" using I(2) [OF t] by (simp add: sync_ok_def)
  have ij: "?i \<in> all_owners s" "?j \<in> all_owners s" using t c k by (simp_all add: owner_in)
  have "head_of (s\<lparr>shared := a'\<rparr>) = (head_of s)(?i := 0)"
    using head_of_set_region [OF c', where k = k and s = s and p = 0] k lr by (simp add: a')
  then have h: "head_of s' = (head_of s)(?j := head_of s ?i, ?i := 0)"
    unfolding s' using head_of_set_sync1 [of t "s\<lparr>shared := a'\<rparr>" k] t k la by (auto simp: fun_upd_twist)
  have fl: "free_lists (memory s') (head_of s') ?Q (all_owners s')"
    unfolding h using free_lists_move [OF I(5) ij] e by (simp add: s' set_sync_def a')
  show ?thesis
  proof (rule alloc_invI [OF inv, where t = t])
    show "regions_ok (shared s')"
      using regions_ok_rarenas [OF I(1) c, of "(rarenas (g_regions (shared s) ! c))[k := 0]"] lr by (simp add: s' set_sync_def a')
    show "sync_ok (shared s) ((sync s ! t)\<lparr>arenas := (arenas (sync s ! t))[k := rarenas (g_regions (shared s) ! c) ! k]\<rparr>)"
      using I(2) [OF t] by (simp add: sync_ok_def)
    show "blocks_ok (shared s') ?Q"
    proof (rule blocks_ok_mono [of "shared s"])
      show "blocks_ok (shared s) ?Q"
        by (rule blocks_ok_reown [OF I(3)])
           (auto simp: move_list_def in_list_def split: if_splits intro: blocks_okD(2) [OF I(3)])
    qed (use c' in \<open>auto simp: s' set_sync_def a'\<close>)
    show "n = unit_of (arena_of i) \<and> i \<in> all_owners s" if "?Q b = Some (n, Some i)" for b n i
      using that I(4) ij by (auto simp: move_list_def split: if_splits)
    show "free_lists (memory s') (head_of s') ?Q (all_owners s)" using fl by (simp add: s' set_sync_def a')
  qed (simp_all add: s' set_sync_def a')
qed

text \<open>What lies behind the used part of a region overlaps no block.\<close>

lemma carved_apart:
  assumes r: "regions_ok a" and q: "block_ok a q m" and c: "c < ncpus a"
    and lo: "rbegin a c \<le> unat p" and hi: "unat p + n \<le> region_base a (Suc c)"
  shows "apart p n q m"
proof -
  obtain d where d: "d < ncpus a" "carved a d q m" using q by (auto simp: block_ok_def)
  show ?thesis
  proof (cases "d = c")
    case True
    then show ?thesis using d lo by (simp add: carved_def apart_def)
  next
    case False
    have "region_ok a c" "region_ok a d" using r c d(1) by (auto simp: regions_ok_def)
    then show ?thesis using regions_apart [OF r c d(1)] False d(2) lo hi by (auto simp: carved_def region_ok_def)
  qed
qed

lemma multiples_apart:
  assumes "0 < n" and "n dvd unat p" and "n dvd unat q" and "p \<noteq> q"
  shows "apart p n q n"
proof -
  have step: "x + n \<le> y" if xy: "n dvd x" "n dvd y" "x < y" for x y :: nat
  proof -
    have "n dvd y - x" using xy by (simp add: dvd_diff_nat)
    then have "n \<le> y - x" using xy(3) by (intro dvd_imp_le) simp_all
    then show ?thesis using xy(3) by simp
  qed
  have "unat p \<noteq> unat q" using assms(4) by (simp add: word_unat_eq_iff)
  then show ?thesis unfolding apart_def using step [of "unat p" "unat q"] step [of "unat q" "unat p"] assms(2,3)
    by (metis linorder_neqE_nat)
qed

text \<open>Blocks cut from fresh memory join the others.\<close>

definition own_all :: "u64 set \<Rightarrow> nat \<Rightarrow> owner option \<Rightarrow> ownership \<Rightarrow> ownership" where
  "own_all B n w Q = (\<lambda>b. if b \<in> B then Some (n, w) else Q b)"

lemma blocks_ok_fresh:
  assumes r: "regions_ok a" and Q: "blocks_ok a Q" and c: "c < ncpus a"
    and n: "unat nb = rbegin a c + m * 4096" "unat nb \<le> unat (region_end (g_regions a ! c))"
    and B: "\<And>b. b \<in> B \<Longrightarrow> rbegin a c \<le> unat b \<and> unat b + u \<le> unat nb \<and> 16 dvd unat b \<and> (u \<le> 512 \<longrightarrow> u dvd unat b)"
    and u: "0 < u" and ap: "\<And>b b'. b \<in> B \<Longrightarrow> b' \<in> B \<Longrightarrow> b \<noteq> b' \<Longrightarrow> apart b u b' u"
    and w: "\<And>d k. w \<noteq> Some (Region d k)"
  shows "blocks_ok (set_region c ((g_regions a ! c)\<lparr>region_begin := nb\<rparr>) a) (own_all B u w Q)" and "B \<inter> dom Q = {}"
proof -
  let ?a = "set_region c ((g_regions a ! c)\<lparr>region_begin := nb\<rparr>) a"
  have c': "c < length (g_regions a)" and ok: "region_ok a c" using r c by (auto simp: regions_ok_def)
  have new: "apart b u q n" if "b \<in> B" "Q q = Some (n, v)" for b q n v
    using carved_apart [OF r blocks_okD(1) [OF Q that(2)] c, of b u] B [OF that(1)] n ok by (simp add: region_ok_def)
  have sym: "apart q n b u" if "apart b u q n" for b q n using that by (auto simp: apart_def)
  have old: "blocks_ok ?a Q" by (rule blocks_ok_mono [OF Q]) (use c' n in auto)
  have nb: "block_ok ?a b u" if "b \<in> B" for b
  proof -
    have "carved ?a c b u" using B [OF that] ok c c' by (simp add: carved_def region_ok_def)
    then show ?thesis using B [OF that] u c by (auto simp: block_ok_def)
  qed
  show "blocks_ok ?a (own_all B u w Q)"
  proof (rule blocks_okI)
    show "block_ok ?a b n" if "own_all B u w Q b = Some (n, v)" for b n v
      using that nb blocks_okD(1) [OF old] by (auto simp: own_all_def split: if_splits)
    show "carved ?a d b n" if "own_all B u w Q b = Some (n, Some (Region d k))" for d k b n
      using that w blocks_okD(2) [OF old] by (auto simp: own_all_def split: if_splits)
    show "apart b n q m" if "b \<noteq> q" "own_all B u w Q b = Some (n, v)" "own_all B u w Q q = Some (m, v')" for b n v q m v'
      using that ap new sym blocks_okD(3) [OF Q that(1)] by (auto simp: own_all_def split: if_splits)
  qed
  show "B \<inter> dom Q = {}"
  proof -
    have False if "b \<in> B" "Q b = Some (n, v)" for b n v
      using new [OF that] blocks_okD(1) [OF Q that(2)] u by (simp add: apart_def block_ok_def)
    then show ?thesis by (auto simp: dom_def)
  qed
qed

lemma page_inv:
  assumes inv: "alloc_inv s Q" and t: "t < length (sync s)" and c: "c < ncpus (shared s)" and k: "k < MAX_ARENAS"
    and e: "arenas (sync s ! t) ! k = 0"
    and nb: "unat nb = rbegin (shared s) c + 4096" "unat nb \<le> unat (region_end (g_regions (shared s) ! c))"
    and a': "a' = set_region c ((g_regions (shared s) ! c)\<lparr>region_begin := nb\<rparr>) (shared s)"
    and bs: "blk_list M' p bs"
      "\<forall>b \<in> set bs. rbegin (shared s) c \<le> unat b \<and> unat b + unit_of k \<le> rbegin (shared s) c + 4096 \<and> unit_of k dvd unat b"
      "\<forall>q. q \<notin> set bs \<longrightarrow> M' q = memory s q"
    and s': "s' = set_sync t ((sync s ! t)\<lparr>arenas := (arenas (sync s ! t))[k := p]\<rparr>) (s\<lparr>shared := a', memory := M'\<rparr>)"
  shows "alloc_inv s' (own_all (set bs) (unit_of k) (Some (Thread t k)) Q)" and "set bs \<inter> dom Q = {}"
proof -
  let ?j = "Thread t k" and ?Q = "own_all (set bs) (unit_of k) (Some (Thread t k)) Q"
  note I = alloc_invD [OF inv]
  have c': "c < length (g_regions (shared s))" using I(1) c by (auto simp: regions_ok_def)
  have la: "length (arenas (sync s ! t)) = MAX_ARENAS" using I(2) [OF t] by (simp add: sync_ok_def)
  have jo: "?j \<in> all_owners s" using t k by (simp add: owner_in)
  have u: "0 < unit_of k" "16 dvd unit_of k" using unit_bounds [OF k] by auto
  have al: "16 dvd unat b" if "b \<in> set bs" for b using bs(2) that u(2) dvd_trans by blast
  have fresh: "blocks_ok a' ?Q" "set bs \<inter> dom Q = {}"
    unfolding a' using blocks_ok_fresh [OF I(1,3) c, of nb 1 "set bs" "unit_of k" "Some ?j"] nb bs(2) u
      multiples_apart al by auto
  show "set bs \<inter> dom Q = {}" by (rule fresh(2))
  have il: "in_list ?Q i = (if i = ?j then in_list Q i \<union> set bs else in_list Q i)" for i
    using fresh(2) by (auto simp: in_list_def own_all_def dom_def)
  have "head_of (s\<lparr>shared := a', memory := M'\<rparr>) = head_of s"
  proof
    fix i show "head_of (s\<lparr>shared := a', memory := M'\<rparr>) i = head_of s i" by (cases i) (auto simp: a' c')
  qed
  then have h: "head_of s' = (head_of s)(?j := p)"
    unfolding s' using head_of_set_sync1 [of t "s\<lparr>shared := a', memory := M'\<rparr>" k] t k la by simp
  have fl: "free_lists M' ((head_of s)(?j := p)) ?Q (all_owners s)"
  proof (rule free_lists_one [where bs = bs])
    show "free_lists M' ((head_of s)(?j := p)) ?Q (all_owners s - {?j})"
    proof (rule free_lists_frame [of "memory s" "head_of s" Q])
      show "free_lists (memory s) (head_of s) Q (all_owners s - {?j})" using I(5) by (auto simp: free_lists_def)
      fix i b assume "b \<in> in_list Q i"
      then have "b \<notin> set bs" using fresh(2) by (auto simp: in_list_def)
      then show "M' b = memory s b" using bs(3) by blast
    qed (auto simp: il)
    have "in_list Q ?j = {}" using free_lists_head(1) [OF I(5) jo] e by simp
    then show "set bs = in_list ?Q ?j" by (simp add: il)
  qed (use bs(1) in simp)
  show "alloc_inv s' ?Q"
  proof (rule alloc_invI [OF inv, where t = t])
    show "regions_ok (shared s')" using regions_ok_bump [OF I(1) c, of nb 1] nb by (simp add: s' set_sync_def a')
    show "sync_ok (shared s) ((sync s ! t)\<lparr>arenas := (arenas (sync s ! t))[k := p]\<rparr>)" using I(2) [OF t] by (simp add: sync_ok_def)
    show "n = unit_of (arena_of i) \<and> i \<in> all_owners s" if "?Q b = Some (n, Some i)" for b n i
      using that I(4) jo by (auto simp: own_all_def split: if_splits)
    show "free_lists (memory s') (head_of s') ?Q (all_owners s)" unfolding h using fl by (simp add: s' set_sync_def)
  qed (use fresh(1) in \<open>simp_all add: s' set_sync_def a'\<close>)
qed

text \<open>Making sure that the thread has a block of the arena; it fails only when the region is used up.\<close>

definition region_full :: "allocator \<Rightarrow> nat \<Rightarrow> bool" where
  "region_full a c \<longleftrightarrow> unat (region_end (g_regions a ! c)) < rbegin a c + 4096"

lemma region_end_bound:
  assumes r: "regions_ok a" and c: "c < ncpus a"
  shows "unat (region_end (g_regions a ! c)) \<le> unat (g_memend a)" and "unat (g_memend a) + 4096 < 2 ^ 64"
proof -
  have "region_base a (Suc c) \<le> region_base a (ncpus a)"
    unfolding region_base_def by (intro add_left_mono mult_le_mono1) (use c in simp)
  then show "unat (region_end (g_regions a ! c)) \<le> unat (g_memend a)"
    using r c by (auto simp: regions_ok_def region_ok_def)
  show "unat (g_memend a) + 4096 < 2 ^ 64" using r by (simp add: regions_ok_def)
qed

lemma AllocateUnmanaged_cases:
  assumes r: "regions_ok a" and c: "c < ncpus a" and n: "unat (g_memend a) + unat n * 4096 < 2 ^ 64"
  shows "if unat (region_end (g_regions a ! c)) < rbegin a c + unat n * 4096
         then AllocateUnmanagedWithLock c n a = Inl Assert_failed
         else \<exists>nb. unat nb = rbegin a c + unat n * 4096 \<and> unat nb \<le> unat (region_end (g_regions a ! c)) \<and>
                AllocateUnmanagedWithLock c n a =
                  Inr (region_begin (g_regions a ! c), set_region c ((g_regions a ! c)\<lparr>region_begin := nb\<rparr>) a)"
proof -
  let ?pc = "g_regions a ! c"
  have ok: "region_ok a c" using r c by (simp add: regions_ok_def)
  have al: "region_begin ?pc mod GetHugepageSize = 0"
  proof -
    have "unat (region_begin ?pc mod GetHugepageSize) = 0"
      using ok by (simp add: unat_mod GetHugepageSize_def region_ok_def mod_eq_0_iff_dvd)
    then show ?thesis by (simp only: unat_eq_zero)
  qed
  have mul: "unat (n * GetHugepageSize) = unat n * 4096"
    using n by (simp add: GetHugepageSize_def unat_word_ariths)
  have le: "rbegin a c \<le> unat (g_memend a)" using ok region_end_bound(1) [OF r c] by (simp add: region_ok_def)
  then have nb: "unat (region_begin ?pc + n * GetHugepageSize) = rbegin a c + unat n * 4096"
    using n mul by (simp add: unat_word_ariths)
  show ?thesis
  proof (cases "unat (region_end ?pc) < rbegin a c + unat n * 4096")
    case True
    then have "region_begin ?pc + n * GetHugepageSize > region_end ?pc" using nb by (simp add: word_less_nat_alt)
    then show ?thesis using True al by (simp add: AllocateUnmanagedWithLock_def Let_def)
  next
    case False
    then have "\<not> region_begin ?pc + n * GetHugepageSize > region_end ?pc" using nb by (simp add: word_less_nat_alt)
    then have "AllocateUnmanagedWithLock c n a =
        Inr (region_begin ?pc, set_region c (?pc\<lparr>region_begin := region_begin ?pc + n * GetHugepageSize\<rparr>) a)"
      using al by (simp add: AllocateUnmanagedWithLock_def Let_def set_region_def)
    then show ?thesis using False nb by auto
  qed
qed

lemma live_move: "live (move_list i j Q) = live Q"
  by (auto simp: live_def move_list_def in_list_def split: if_splits)

lemma live_own_all: "B \<inter> dom Q = {} \<Longrightarrow> live (own_all B n (Some i) Q) = live Q"
  by (auto simp: live_def own_all_def dom_def split: if_splits)

text \<open>The next page of the thread's arena would start at the null pointer.\<close>

definition null_page :: "alloc_sys \<Rightarrow> nat \<Rightarrow> nat \<Rightarrow> nat \<Rightarrow> bool" where
  "null_page s t c k \<longleftrightarrow> arenas (sync s ! t) ! k = 0 \<and> rarenas (g_regions (shared s) ! c) ! k = 0 \<and>
     region_begin (g_regions (shared s) ! c) = 0"

lemma ensure_arena_cases:
  assumes inv: "alloc_inv s Q" and t: "t < length (sync s)" and pin: "pin_cpu (sync s ! t) = Some c" and k: "k < MAX_ARENAS"
    and nn: "\<not> null_page s t c k"
  shows "(ensure_arena t c k s = Inl Assert_failed \<and> region_full (shared s) c) \<or>
    (\<exists>s' Q'. ensure_arena t c k s = Inr s' \<and> alloc_inv s' Q' \<and> live Q' = live Q \<and>
       arenas (sync s' ! t) ! k \<noteq> 0 \<and> length (sync s') = length (sync s))"
proof (cases "arenas (sync s ! t) ! k = 0")
  case False
  then show ?thesis using inv by (auto simp: ensure_arena_def Let_def)
next
  case e: True
  note I = alloc_invD [OF inv]
  let ?a = "shared s" and ?y = "sync s ! t" and ?pc = "g_regions (shared s) ! c"
  have c: "c < ncpus ?a" and la: "length (arenas ?y) = MAX_ARENAS"
    using I(2) [OF t] pin by (auto simp: sync_ok_def)
  have c': "\<not> length (g_regions ?a) \<le> c" and ok: "region_ok ?a c" using I(1) c by (auto simp: regions_ok_def)
  show ?thesis
  proof (cases "rarenas ?pc ! k = 0")
    case False
    let ?a' = "set_region c (?pc\<lparr>rarenas := (rarenas ?pc)[k := 0]\<rparr>) ?a"
    let ?s' = "set_sync t (?y\<lparr>arenas := (arenas ?y)[k := rarenas ?pc ! k]\<rparr>) (s\<lparr>shared := ?a'\<rparr>)"
    have "ensure_arena t c k s = Inr ?s'"
      using e False c' k by (simp add: ensure_arena_def AllocateArenas_def Let_def set_region_def)
    moreover have "alloc_inv ?s' (move_list (Region c k) (Thread t k) Q)" by (rule claim_inv [OF inv t c k e refl refl])
    moreover have "arenas (sync ?s' ! t) ! k \<noteq> 0" using False t k la by (simp add: set_sync_def)
    moreover have "length (sync ?s') = length (sync s)" by (simp add: set_sync_def)
    ultimately show ?thesis using live_move by blast
  next
    case True
    have n1: "unat (g_memend ?a) + unat (1 :: u64) * 4096 < 2 ^ 64" using region_end_bound(2) [OF I(1) c] by simp
    show ?thesis
    proof (cases "region_full ?a c")
      case full: True
      then have "AllocateUnmanagedWithLock c 1 ?a = Inl Assert_failed"
        using AllocateUnmanaged_cases [OF I(1) c n1] by (simp add: region_full_def)
      then show ?thesis using e True full c' k by (simp add: ensure_arena_def AllocateArenas_def Let_def)
    next
      case False
      then obtain nb where nb: "unat nb = rbegin ?a c + 4096" "unat nb \<le> unat (region_end ?pc)"
          "AllocateUnmanagedWithLock c 1 ?a = Inr (region_begin ?pc, set_region c (?pc\<lparr>region_begin := nb\<rparr>) ?a)"
        using AllocateUnmanaged_cases [OF I(1) c n1] by (auto simp: region_full_def)
      have "region_begin ?pc \<noteq> 0" using nn e True by (simp add: null_page_def)
      moreover have "rbegin ?a c + 4096 < 2 ^ 64" unfolding nb(1) [symmetric] by (rule order_less_le_trans [OF unsigned_less]) simp
      moreover have "4096 dvd rbegin ?a c" using ok by (simp add: region_ok_def)
      ultimately obtain first M' bs where pg:
          "initialize_page (region_begin ?pc) GetHugepageSize (of_nat (k + 1) * AllocAlignment) (memory s) = Some (first, M')"
          "first \<noteq> 0" "blk_list M' first bs"
          "\<forall>b \<in> set bs. rbegin ?a c \<le> unat b \<and> unat b + unit_of k \<le> rbegin ?a c + 4096 \<and> unit_of k dvd unat b"
          "\<forall>q. q \<notin> set bs \<longrightarrow> M' q = memory s q"
        using initialize_page_linked [OF k, of "region_begin ?pc" "memory s"] by blast
      let ?a' = "set_region c (?pc\<lparr>region_begin := nb\<rparr>) ?a"
      let ?s' = "set_sync t (?y\<lparr>arenas := (arenas ?y)[k := first]\<rparr>) (s\<lparr>shared := ?a', memory := M'\<rparr>)"
      let ?Q' = "own_all (set bs) (unit_of k) (Some (Thread t k)) Q"
      have "ensure_arena t c k s = Inr ?s'"
        using e True c' k nb(3) pg(1) by (simp add: ensure_arena_def AllocateArenas_def Let_def)
      moreover note P = page_inv [OF inv t c k e nb(1,2) refl pg(3-5) refl]
      moreover have "arenas (sync ?s' ! t) ! k \<noteq> 0" using pg(2) t k la by (simp add: set_sync_def)
      moreover have "length (sync ?s') = length (sync s)" by (simp add: set_sync_def)
      ultimately show ?thesis using live_own_all by blast
    qed
  qed
qed

text \<open>Taking the first block of a list into use, and putting a block back.\<close>

lemma pop_inv:
  assumes inv: "alloc_inv s Q" and t: "t < length (sync s)" and k: "k < MAX_ARENAS"
    and p: "p = arenas (sync s ! t) ! k" "p \<noteq> 0"
    and s': "s' = set_sync t ((sync s ! t)\<lparr>arenas := (arenas (sync s ! t))[k := memory s p]\<rparr>) s"
  shows "alloc_inv s' (Q(p \<mapsto> (unit_of k, None)))" and "Q p = Some (unit_of k, Some (Thread t k))"
proof -
  let ?j = "Thread t k" and ?Q = "Q(p \<mapsto> (unit_of k, None))"
  note I = alloc_invD [OF inv]
  have la: "length (arenas (sync s ! t)) = MAX_ARENAS" using I(2) [OF t] by (simp add: sync_ok_def)
  have jo: "?j \<in> all_owners s" using t k by (simp add: owner_in)
  have hj: "head_of s ?j = p" using p by simp
  show Qp: "Q p = Some (unit_of k, Some ?j)" using free_lists_head(2) [OF I(5) jo] p by (simp add: in_list_def)
  show "alloc_inv s' ?Q"
  proof (rule alloc_invI [OF inv, where t = t])
    show "sync_ok (shared s) ((sync s ! t)\<lparr>arenas := (arenas (sync s ! t))[k := memory s p]\<rparr>)"
      using I(2) [OF t] by (simp add: sync_ok_def)
    have "blocks_ok (shared s) ?Q"
      by (rule blocks_ok_reown [OF I(3)]) (use Qp in \<open>auto split: if_splits intro: blocks_okD(2) [OF I(3)]\<close>)
    then show "blocks_ok (shared s') ?Q" by (simp add: s' set_sync_def)
    show "n = unit_of (arena_of i) \<and> i \<in> all_owners s" if "?Q b = Some (n, Some i)" for b n i
      using that I(4) by (auto split: if_splits)
    have "head_of s' = (head_of s)(?j := memory s p)" unfolding s' by (rule head_of_set_sync1) (use t k la in auto)
    then show "free_lists (memory s') (head_of s') ?Q (all_owners s)"
      using free_lists_pop [OF I(5) jo, of "unit_of k"] hj p(2) by (simp add: s' set_sync_def)
  qed (use I(1) in \<open>simp_all add: s' set_sync_def\<close>)
qed

lemma push_inv:
  assumes inv: "alloc_inv s Q" and t: "t < length (sync s)" and k: "k < MAX_ARENAS" and Qp: "Q p = Some (unit_of k, None)"
    and d: "length d = MAX_ARENAS" and p0: "p \<noteq> 0"
    and s': "s' = set_sync t ((sync s ! t)\<lparr>arenas := (arenas (sync s ! t))[k := p], deallocs := d\<rparr>)
                   (s\<lparr>memory := (memory s)(p := arenas (sync s ! t) ! k)\<rparr>)"
  shows "alloc_inv s' (Q(p \<mapsto> (unit_of k, Some (Thread t k))))"
proof -
  let ?j = "Thread t k" and ?Q = "Q(p \<mapsto> (unit_of k, Some (Thread t k)))"
  let ?s1 = "s\<lparr>memory := (memory s)(p := arenas (sync s ! t) ! k)\<rparr>"
  note I = alloc_invD [OF inv]
  have la: "length (arenas (sync s ! t)) = MAX_ARENAS" using I(2) [OF t] by (simp add: sync_ok_def)
  have jo: "?j \<in> all_owners s" using t k by (simp add: owner_in)
  show ?thesis
  proof (rule alloc_invI [OF inv, where t = t])
    show "sync_ok (shared s) ((sync s ! t)\<lparr>arenas := (arenas (sync s ! t))[k := p], deallocs := d\<rparr>)"
      using I(2) [OF t] d by (simp add: sync_ok_def)
    have "blocks_ok (shared s) ?Q"
      by (rule blocks_ok_reown [OF I(3)]) (use Qp in \<open>auto split: if_splits intro: blocks_okD(2) [OF I(3)]\<close>)
    then show "blocks_ok (shared s') ?Q" by (simp add: s' set_sync_def)
    show "n = unit_of (arena_of i) \<and> i \<in> all_owners s" if "?Q b = Some (n, Some i)" for b n i
      using that I(4) jo by (auto split: if_splits)
    have "head_of s' = (head_of ?s1)(?j := p)"
      unfolding s' using head_of_set_sync [where s = ?s1 and t = t and k = k and p = p and d = d] t k la by simp
    then have h: "head_of s' = (head_of s)(?j := p)" by simp
    have "free_lists ((memory s)(p := head_of s ?j)) ((head_of s)(?j := p)) ?Q (all_owners s)"
      using free_lists_push [OF I(5) jo p0] Qp by (simp add: in_list_def)
    then show "free_lists (memory s') (head_of s') ?Q (all_owners s)" unfolding h by (simp add: s' set_sync_def)
  qed (use I(1) in \<open>simp_all add: s' set_sync_def\<close>)
qed

text \<open>
  The null pointer as a block. A page at address 0 is cut like any other, and its first block goes out as the null
  pointer at once; when it comes back the list of the arena it is put in front of is lost, because a null head is an
  empty list.
\<close>

lemma blk_nonnull: "blk_list M p bs \<Longrightarrow> 0 \<notin> set bs"
  by (induction bs arbitrary: p) auto

lemma listed_nonnull: "free_lists M hp Q I \<Longrightarrow> i \<in> I \<Longrightarrow> 0 \<notin> in_list Q i"
  using blk_nonnull by (fastforce simp: free_lists_def)

lemma null_write_inv:
  assumes "alloc_inv s Q"
  shows "alloc_inv (s\<lparr>memory := (memory s)(0 := v)\<rparr>) Q"
proof -
  note fl = alloc_invD(5) [OF assms]
  have "free_lists ((memory s)(0 := v)) (head_of s) Q (all_owners s)"
    by (rule free_lists_frame [OF fl]) (use listed_nonnull [OF fl] in auto)
  then show ?thesis using assms by (simp add: alloc_inv_def)
qed

lemma add_live_inv:
  assumes inv: "alloc_inv s Q" and ok: "block_ok (shared s) p n" and new: "\<And>q m v. Q q = Some (m, v) \<Longrightarrow> apart p n q m"
  shows "alloc_inv s (Q(p \<mapsto> (n, None)))" and "Q p = None"
proof -
  note I = alloc_invD [OF inv]
  show Qp: "Q p = None"
  proof (rule ccontr)
    assume "Q p \<noteq> None"
    then obtain m v where "Q p = Some (m, v)" by auto
    then show False using new blocks_okD(1) [OF I(3)] ok by (fastforce simp: apart_def block_ok_def)
  qed
  have il: "in_list (Q(p \<mapsto> (n, None))) i = in_list Q i" for i using Qp by (auto simp: in_list_def)
  have sym: "apart q m p n" if "apart p n q m" for q m using that by (auto simp: apart_def)
  have "blocks_ok (shared s) (Q(p \<mapsto> (n, None)))"
  proof (rule blocks_okI)
    show "block_ok (shared s) b m" if "(Q(p \<mapsto> (n, None))) b = Some (m, w)" for b m w
      using that ok blocks_okD(1) [OF I(3)] by (auto split: if_splits)
    show "carved (shared s) c b m" if "(Q(p \<mapsto> (n, None))) b = Some (m, Some (Region c k))" for c k b m
      using that blocks_okD(2) [OF I(3)] by (auto split: if_splits)
    show "apart b m q l" if "b \<noteq> q" "(Q(p \<mapsto> (n, None))) b = Some (m, w)" "(Q(p \<mapsto> (n, None))) q = Some (l, v)" for b m w q l v
      using that new sym blocks_okD(3) [OF I(3) that(1)] by (auto split: if_splits)
  qed
  then show "alloc_inv s (Q(p \<mapsto> (n, None)))"
    using inv by (auto simp: alloc_inv_def free_lists_def il split: if_splits)
qed

lemma initialize_page_null:
  assumes k: "k < MAX_ARENAS" and u: "u = of_nat (k + 1) * AllocAlignment"
  shows "\<exists>M' bs. initialize_page 0 GetHugepageSize u M = Some (0, M') \<and> M' 0 = u \<and> blk_list M' u bs \<and>
    (\<forall>b \<in> set bs. unit_of k \<le> unat b \<and> unat b + unit_of k \<le> 4096 \<and> unit_of k dvd unat b) \<and>
    (\<forall>q. q \<notin> set bs \<longrightarrow> M' q = (M(0 := u)) q)"
proof -
  have uk: "unat u = unit_of k" unfolding u by (rule unat_unit [OF k])
  have ub: "0 < unit_of k" "unit_of k \<le> 512" using unit_bounds [OF k] by auto
  have u0: "u \<noteq> 0" using uk ub(1) by auto
  have lim: "unat (GetHugepageSize) = 4096" by (simp add: GetHugepageSize_def)
  have "0 < unat u" "unat u + unat u \<le> unat GetHugepageSize" "unat GetHugepageSize + unat u < 2 ^ 64"
      "(unat GetHugepageSize - unat u) div unat u \<le> 4095"
    using uk ub lim by (simp_all add: order_trans [OF div_le_dividend])
  note C = carve_linked [OF this(1-3) u0 this(4) refl, of "M(0 := u)"]
  obtain M' bs where c: "carve 4095 u GetHugepageSize u (u + u) (M(0 := u)) = Some M'" "blk_list M' u bs"
      "\<forall>b \<in> set bs. unat u \<le> unat b \<and> unat b + unat u \<le> unat GetHugepageSize \<and> unat u dvd unat b - unat u"
      "\<forall>q. q \<notin> set bs \<longrightarrow> M' q = (M(0 := u)) q" using C by blast
  have "u + u \<le> GetHugepageSize" using uk ub lim by (simp add: word_le_nat_alt unat_word_ariths)
  then have "carve (Suc 4095) u GetHugepageSize 0 u M = Some M'" unfolding carve.simps(2) using c(1) by simp
  then have 1: "initialize_page 0 GetHugepageSize u M = Some (0, M')"
    by (simp add: initialize_page_def iceil_def Let_def lim del: carve.simps)
  have 2: "M' 0 = u" using c(4) blk_nonnull [OF c(2)] by simp
  have 3: "\<forall>b \<in> set bs. unit_of k \<le> unat b \<and> unat b + unit_of k \<le> 4096 \<and> unit_of k dvd unat b"
  proof
    fix b assume "b \<in> set bs"
    then have b: "unit_of k \<le> unat b" "unat b + unit_of k \<le> 4096" "unit_of k dvd unat b - unit_of k" using c(3) uk lim by auto
    then have "unit_of k dvd unit_of k + (unat b - unit_of k)" by (intro dvd_add) simp_all
    then show "unit_of k \<le> unat b \<and> unat b + unit_of k \<le> 4096 \<and> unit_of k dvd unat b" using b by simp
  qed
  show ?thesis using 1 2 3 c(2,4) by blast
qed

lemma null_page_inv:
  assumes inv: "alloc_inv s Q" and t: "t < length (sync s)" and c: "c < ncpus (shared s)" and k: "k < MAX_ARENAS"
    and np: "null_page s t c k" and nf: "\<not> region_full (shared s) c"
  shows "\<exists>s1 Q'. ensure_arena t c k s = Inr s1 \<and> arenas (sync s1 ! t) ! k = 0 \<and> memory s1 0 \<noteq> 0 \<and>
    length (sync s1) = length (sync s) \<and>
    alloc_inv (set_sync t ((sync s1 ! t)\<lparr>arenas := (arenas (sync s1 ! t))[k := memory s1 0]\<rparr>) s1) Q' \<and>
    live Q' = Set.insert (0, unit_of k) (live Q) \<and> (\<forall>(q, m) \<in> live Q. apart 0 (unit_of k) q m)"
proof -
  let ?a = "shared s" and ?y = "sync s ! t" and ?pc = "g_regions (shared s) ! c" and ?u = "of_nat (k + 1) * AllocAlignment :: u64"
  note I = alloc_invD [OF inv]
  have c': "\<not> length (g_regions ?a) \<le> c" and ok: "region_ok ?a c" using I(1) c by (auto simp: regions_ok_def)
  have la: "length (arenas ?y) = MAX_ARENAS" using I(2) [OF t] by (simp add: sync_ok_def)
  have z: "arenas ?y ! k = 0" "rarenas ?pc ! k = 0" "region_begin ?pc = 0" using np by (auto simp: null_page_def)
  have ub: "0 < unit_of k" "unit_of k \<le> 512" "16 dvd unit_of k" using unit_bounds [OF k] by auto
  have n1: "unat (g_memend ?a) + unat (1 :: u64) * 4096 < 2 ^ 64" using region_end_bound(2) [OF I(1) c] by simp
  obtain nb where nb: "unat nb = rbegin ?a c + 4096" "unat nb \<le> unat (region_end ?pc)"
      "AllocateUnmanagedWithLock c 1 ?a = Inr (0, set_region c (?pc\<lparr>region_begin := nb\<rparr>) ?a)"
    using AllocateUnmanaged_cases [OF I(1) c n1] nf z(3) by (auto simp: region_full_def)
  obtain M' bs where pg: "initialize_page 0 GetHugepageSize ?u (memory s) = Some (0, M')" "M' 0 = ?u" "blk_list M' ?u bs"
      "\<forall>b \<in> set bs. unit_of k \<le> unat b \<and> unat b + unit_of k \<le> 4096 \<and> unit_of k dvd unat b"
      "\<forall>q. q \<notin> set bs \<longrightarrow> M' q = ((memory s)(0 := ?u)) q"
    using initialize_page_null [OF k refl, of "memory s"] by blast
  let ?a' = "set_region c (?pc\<lparr>region_begin := nb\<rparr>) ?a"
  let ?s1 = "set_sync t (?y\<lparr>arenas := (arenas ?y)[k := 0]\<rparr>) (s\<lparr>shared := ?a', memory := M'\<rparr>)"
  let ?s0 = "s\<lparr>memory := (memory s)(0 := ?u)\<rparr>"
  let ?s2 = "set_sync t ((sync ?s0 ! t)\<lparr>arenas := (arenas (sync ?s0 ! t))[k := ?u]\<rparr>) (?s0\<lparr>shared := ?a', memory := M'\<rparr>)"
  let ?Q1 = "own_all (set bs) (unit_of k) (Some (Thread t k)) Q"
  have ens: "ensure_arena t c k s = Inr ?s1"
    using z c' k nb(3) pg(1) by (simp add: ensure_arena_def AllocateArenas_def Let_def)
  have s2: "set_sync t ((sync ?s1 ! t)\<lparr>arenas := (arenas (sync ?s1 ! t))[k := memory ?s1 0]\<rparr>) ?s1 = ?s2"
    using t pg(2) by (simp add: set_sync_def)
  have rb: "rbegin ?a c = 0" using z(3) by simp
  have P: "alloc_inv ?s2 ?Q1" "set bs \<inter> dom Q = {}"
    using page_inv [OF null_write_inv [OF inv, of ?u], where t = t and c = c and k = k and nb = nb and a' = ?a' and M' = M'
        and p = ?u and bs = bs and s' = ?s2] t c k z(1) nb(1,2) pg(3-5) rb by simp_all
  have old: "apart 0 (unit_of k) q m" if "Q q = Some (m, v)" for q m v
    by (rule carved_apart [OF I(1) blocks_okD(1) [OF I(3) that] c]) (use rb nb ok ub in \<open>simp_all add: region_ok_def\<close>)
  have "apart 0 (unit_of k) q m" if "?Q1 q = Some (m, v)" for q m v
    using that old pg(4) ub(1) by (auto simp: own_all_def apart_def split: if_splits)
  moreover have "block_ok (shared ?s2) 0 (unit_of k)"
    using ub c c' ok rb nb(1) unfolding block_ok_def
    by (auto simp: set_sync_def carved_def region_ok_def intro!: exI [of _ c])
  ultimately have A: "alloc_inv ?s2 (?Q1(0 \<mapsto> (unit_of k, None)))" "?Q1 0 = None"
    using add_live_inv [OF P(1)] by blast+
  have "live (?Q1(0 \<mapsto> (unit_of k, None))) = Set.insert (0, unit_of k) (live Q)"
    using A(2) P(2) by (auto simp: live_def own_all_def dom_def split: if_splits)
  moreover have "\<forall>(q, m) \<in> live Q. apart 0 (unit_of k) q m" using old by (auto simp: live_def)
  moreover have "arenas (sync ?s1 ! t) ! k = 0" "length (sync ?s1) = length (sync s)" using t k la by (simp_all add: set_sync_def)
  moreover have "?u \<noteq> 0" using unat_unit [OF k] ub(1) by (metis less_numeral_extra(3) unat_0)
  then have "memory ?s1 0 \<noteq> 0" using pg(2) by (simp add: set_sync_def)
  ultimately show ?thesis using ens A(1) s2 by (intro exI [of _ ?s1] exI [of _ "?Q1(0 \<mapsto> (unit_of k, None))"]) simp
qed

lemma null_page_full:
  assumes inv: "alloc_inv s Q" and t: "t < length (sync s)" and c: "c < ncpus (shared s)" and k: "k < MAX_ARENAS"
    and np: "null_page s t c k" and full: "region_full (shared s) c"
  shows "ensure_arena t c k s = Inl Assert_failed"
proof -
  note I = alloc_invD [OF inv]
  have c': "\<not> length (g_regions (shared s)) \<le> c" using I(1) c by (auto simp: regions_ok_def)
  have n1: "unat (g_memend (shared s)) + unat (1 :: u64) * 4096 < 2 ^ 64" using region_end_bound(2) [OF I(1) c] by simp
  have "AllocateUnmanagedWithLock c 1 (shared s) = Inl Assert_failed"
    using AllocateUnmanaged_cases [OF I(1) c n1] full by (simp add: region_full_def)
  then show ?thesis using np c' k by (simp add: null_page_def ensure_arena_def AllocateArenas_def Let_def)
qed

text \<open>Only the region of the first processor can start at the null pointer.\<close>

lemma null_region:
  assumes "regions_ok a" and "c < ncpus a" and "region_begin (g_regions a ! c) = 0"
  shows "c = 0"
proof -
  have "region_base a c \<le> rbegin a c" "0 < unat (g_maxpercore a)" using assms(1,2) by (auto simp: regions_ok_def region_ok_def)
  then show ?thesis using assms(3) by (simp add: region_base_def)
qed

lemma drop_null_inv:
  assumes inv: "alloc_inv s Q" and t: "t < length (sync s)" and k: "k < MAX_ARENAS" and d: "length d = MAX_ARENAS"
    and s': "s' = set_sync t ((sync s ! t)\<lparr>arenas := (arenas (sync s ! t))[k := 0], deallocs := d\<rparr>)
                   (s\<lparr>memory := (memory s)(0 := v)\<rparr>)"
  shows "alloc_inv s' (\<lambda>b. if b = 0 \<or> b \<in> in_list Q (Thread t k) then None else Q b)"
proof -
  let ?j = "Thread t k" and ?s0 = "s\<lparr>memory := (memory s)(0 := v)\<rparr>"
  let ?Q = "\<lambda>b. if b = 0 \<or> b \<in> in_list Q (Thread t k) then None else Q b"
  note I = alloc_invD [OF null_write_inv [OF inv, of v]]
  have la: "length (arenas (sync s ! t)) = MAX_ARENAS" using I(2) [of t] t by (simp add: sync_ok_def)
  have il: "in_list ?Q i = (if i = ?j then {} else in_list Q i - {0})" for i by (auto simp: in_list_def)
  show ?thesis
  proof (rule alloc_invI [OF null_write_inv [OF inv, of v], where t = t])
    show "sync_ok (shared ?s0) ((sync s ! t)\<lparr>arenas := (arenas (sync s ! t))[k := 0], deallocs := d\<rparr>)"
      using I(2) [of t] t d by (simp add: sync_ok_def)
    have "blocks_ok (shared s) ?Q"
    proof (rule blocks_okI)
      show "block_ok (shared s) b n" if "?Q b = Some (n, w)" for b n w
        using that blocks_okD(1) [OF I(3)] by (auto split: if_splits)
      show "carved (shared s) c b n" if "?Q b = Some (n, Some (Region c l))" for c l b n
        using that blocks_okD(2) [OF I(3)] by (auto split: if_splits)
      show "apart b n q m" if "b \<noteq> q" "?Q b = Some (n, w)" "?Q q = Some (m, v')" for b n w q m v'
        using that(2,3) blocks_okD(3) [OF I(3) that(1)] by (auto split: if_splits)
    qed
    then show "blocks_ok (shared s') ?Q" by (simp add: s' set_sync_def)
    show "n = unit_of (arena_of i) \<and> i \<in> all_owners ?s0" if "?Q b = Some (n, Some i)" for b n i
      using that I(4) by (auto split: if_splits)
    have h: "head_of s' = (head_of ?s0)(?j := 0)"
      unfolding s' using head_of_set_sync [where s = ?s0 and t = t and k = k and p = 0 and d = d] t k la by simp
    have "free_lists (memory ?s0) ((head_of ?s0)(?j := 0)) ?Q (all_owners ?s0)"
    proof (rule free_lists_one [where i = ?j and bs = "[]"])
      show "free_lists (memory ?s0) ((head_of ?s0)(?j := 0)) ?Q (all_owners ?s0 - {?j})"
        by (rule free_lists_frame [of "memory ?s0" "head_of ?s0" Q])
          (use I(5) listed_nonnull [OF I(5)] in \<open>auto simp: free_lists_def il\<close>)
    qed (simp_all add: il)
    then show "free_lists (memory s') (head_of s') ?Q (all_owners ?s0)" unfolding h by (simp add: s' set_sync_def)
  qed (use I(1) in \<open>simp_all add: s' set_sync_def\<close>)
qed

text \<open>
  An allocation: from \<^verbatim>\<open>malloc\<close> for threads that are not pinned and for sizes above the largest arena (or 0);
  otherwise a block of the arena, or a failed assertion when the region is used up.
\<close>

lemma alloc_cases:
  assumes inv: "alloc_inv s Q" and t: "t < length (sync s)"
  shows "(alloc t sz s = Inr (Malloc sz, s)) \<or>
    (\<exists>c. pin_cpu (sync s ! t) = Some c \<and> alloc t sz s = Inl Assert_failed \<and> region_full (shared s) c) \<or>
    (\<exists>p s' Q'. alloc t sz s = Inr (Block p, s') \<and> alloc_inv s' Q' \<and> length (sync s') = length (sync s) \<and>
       (p = 0 \<longrightarrow> pin_cpu (sync s ! t) = Some 0) \<and>
       (let n = unit_of (unat (snd (ArenaSize sz)))
        in unat sz \<le> n \<and> n \<le> 512 \<and> live Q' = Set.insert (p, n) (live Q) \<and> (\<forall>(q, m) \<in> live Q. apart p n q m)))"
proof (cases "pin_cpu (sync s ! t) = None \<or> of_nat MAX_ARENAS \<le> snd (ArenaSize sz)")
  case True
  then show ?thesis by (auto simp: alloc_def Let_def split: option.split)
next
  case False
  then obtain c where pin: "pin_cpu (sync s ! t) = Some c" and lt: "snd (ArenaSize sz) < of_nat MAX_ARENAS" by (auto simp: not_le)
  let ?k = "unat (snd (ArenaSize sz))"
  note A = ArenaSize_unit [OF lt]
  have c: "c < ncpus (shared s)" using alloc_invD(2) [OF inv t] pin by (simp add: sync_ok_def)
  consider (full) "ensure_arena t c ?k s = Inl Assert_failed" "region_full (shared s) c" |
    (null) "null_page s t c ?k" "\<not> region_full (shared s) c" |
    (ok) s1 Q1 where "ensure_arena t c ?k s = Inr s1" "alloc_inv s1 Q1" "live Q1 = live Q" "arenas (sync s1 ! t) ! ?k \<noteq> 0"
      "length (sync s1) = length (sync s)"
    using ensure_arena_cases [OF inv t pin A(1)] null_page_full [OF inv t c A(1)] by blast
  then show ?thesis
  proof cases
    case full
    then show ?thesis using pin lt by (simp add: alloc_def Let_def not_le)
  next
    case null
    obtain s1 Q' where s1: "ensure_arena t c ?k s = Inr s1" "arenas (sync s1 ! t) ! ?k = 0" "length (sync s1) = length (sync s)"
        "alloc_inv (set_sync t ((sync s1 ! t)\<lparr>arenas := (arenas (sync s1 ! t))[?k := memory s1 0]\<rparr>) s1) Q'"
        "live Q' = Set.insert (0, unit_of ?k) (live Q)" "\<forall>(q, m) \<in> live Q. apart 0 (unit_of ?k) q m"
      using null_page_inv [OF inv t c A(1) null] by blast
    let ?s' = "set_sync t ((sync s1 ! t)\<lparr>arenas := (arenas (sync s1 ! t))[?k := memory s1 0]\<rparr>) s1"
    have "alloc t sz s = Inr (Block 0, ?s')" using pin lt s1(1,2) by (simp add: alloc_def Let_def not_le)
    moreover have "length (sync ?s') = length (sync s)" using s1(3) by (simp add: set_sync_def)
    moreover have "c = 0" by (rule null_region [OF alloc_invD(1) [OF inv] c]) (use null(1) in \<open>simp add: null_page_def\<close>)
    moreover have "unit_of ?k \<le> 512" using unit_bounds [OF A(1)] by simp
    ultimately show ?thesis unfolding Let_def using s1(4-6) A(3) pin by blast
  next
    case ok
    let ?p = "arenas (sync s1 ! t) ! ?k"
    let ?s' = "set_sync t ((sync s1 ! t)\<lparr>arenas := (arenas (sync s1 ! t))[?k := memory s1 ?p]\<rparr>) s1"
    have t1: "t < length (sync s1)" using t ok(5) by simp
    note P = pop_inv [OF ok(2) t1 A(1) refl ok(4) refl]
    have "alloc t sz s = Inr (Block ?p, ?s')" using pin lt ok(1) by (simp add: alloc_def Let_def not_le)
    moreover have "live (Q1(?p \<mapsto> (unit_of ?k, None))) = Set.insert (?p, unit_of ?k) (live Q)"
      unfolding ok(3) [symmetric] using P(2) by (auto simp: live_def split: if_splits)
    moreover have "\<forall>(q, m) \<in> live Q. apart ?p (unit_of ?k) q m"
    proof -
      have "apart ?p (unit_of ?k) q m" if "Q1 q = Some (m, None)" for q m
      proof -
        have "?p \<noteq> q" using that P(2) by auto
        then show ?thesis using blocks_okD(3) [OF alloc_invD(3) [OF ok(2)] _ P(2) that] by simp
      qed
      then show ?thesis unfolding ok(3) [symmetric] by (auto simp: live_def)
    qed
    moreover have "length (sync ?s') = length (sync s)" using ok(5) by (simp add: set_sync_def)
    moreover have "unit_of ?k \<le> 512" using unit_bounds [OF A(1)] by simp
    ultimately show ?thesis unfolding Let_def using P(1) A(3) ok(4) by blast
  qed
qed

section \<open>Release\<close>

lemma PointerToCpu_carved:
  assumes r: "regions_ok a" and c: "c < ncpus a" and b: "carved a c p n" "0 < n"
  shows "PointerToCpu a p = Inr (of_nat c)"
proof -
  let ?ms = "unat (g_memstart a)" and ?mx = "unat (g_maxpercore a)"
  have ok: "region_ok a c" and me: "unat (g_memend a) = region_base a (ncpus a)" and mx: "0 < ?mx"
    using r c by (auto simp: regions_ok_def)
  have lo: "?ms + c * ?mx \<le> unat p" and hi: "unat p < ?ms + Suc c * ?mx"
    using b ok by (auto simp: carved_def region_ok_def region_base_def)
  have "Suc c * ?mx \<le> ncpus a * ?mx" using c by (intro mult_le_mono1) simp
  then have m: "g_memstart a \<le> p" "p < g_memend a"
    using lo hi me by (simp_all add: word_le_nat_alt word_less_nat_alt region_base_def)
  have "(unat p - ?ms) div ?mx = c"
    by (rule div_nat_eqI) (use lo hi in \<open>simp_all add: algebra_simps\<close>)
  then have "unat ((p - g_memstart a) div g_maxpercore a) = c" using m(1) by (simp add: unat_div unat_sub)
  then have e: "(p - g_memstart a) div g_maxpercore a = of_nat c" by (metis of_nat_unat ucast_id)
  have "unat (of_nat c :: u64) = c"
    by (rule unat_of_nat_small) (use c order_less_trans [OF c unsigned_less [of "g_ncpus a"]] in simp)
  then have "of_nat c < g_ncpus a" using c by (simp add: word_less_nat_alt)
  then show ?thesis using m by (simp add: PointerToCpu_def e Let_def)
qed

definition chain_at :: "chains \<Rightarrow> nat \<Rightarrow> nat \<Rightarrow> u64 \<times> u64" where
  "chain_at m c k = (case m (of_nat c) of None \<Rightarrow> (0, 0) | Some v \<Rightarrow> v ! k)"

definition chain_ok :: "chains \<Rightarrow> memory \<Rightarrow> (owner \<Rightarrow> u64) \<Rightarrow> nat \<times> nat \<Rightarrow> bool" where
  "chain_ok m M hp ck =
     (let i = case_prod Chain ck; (h, l) = case_prod (chain_at m) ck
      in hp i = h \<and> (h = 0 \<longleftrightarrow> l = 0) \<and> (h \<noteq> 0 \<longrightarrow> (\<exists>bs. blk_list M h bs \<and> last bs = l)))"

lemma chain_okI:
  assumes "hp (Chain c k) = h" and "chain_at m c k = (h, l)" and "h = 0 \<longleftrightarrow> l = 0"
    and "h \<noteq> 0 \<Longrightarrow> blk_list M h bs \<and> last bs = l"
  shows "chain_ok m M hp (c, k)"
  using assms by (auto simp: chain_ok_def)

text \<open>One step of the walk: the block becomes the first of the chain of its processor.\<close>

lemma chain_push_at:
  assumes c: "c < nc" "nc \<le> 2 ^ 64" and k: "k < MAX_ARENAS" and v: "\<forall>c v. m c = Some v \<longrightarrow> length v = MAX_ARENAS"
    and ok: "chain_ok m M hp (c, k)"
  shows "\<exists>m'. chain_push k p (of_nat c) (m, M) = (m', M(p := fst (chain_at m c k))) \<and>
    (\<forall>d < nc. \<forall>j < MAX_ARENAS. chain_at m' d j =
        (if d = c \<and> j = k then (p, if fst (chain_at m c k) = 0 then p else snd (chain_at m c k)) else chain_at m d j)) \<and>
    (\<forall>c v. m' c = Some v \<longrightarrow> length v = MAX_ARENAS)"
proof -
  have inj: "(of_nat d :: u64) = of_nat c \<longleftrightarrow> d = c" if "d < nc" for d
  proof -
    have "unat (of_nat d :: u64) = d" "unat (of_nat c :: u64) = c"
      by (rule unat_of_nat_small, use that c in simp)+
    then show ?thesis by metis
  qed
  show ?thesis
  proof (cases "m (of_nat c)")
    case None
    then show ?thesis using k v inj
      by (auto simp: chain_push_def chain_at_def nth_list_update)
  next
    case (Some w)
    have "length w = MAX_ARENAS" using v Some by blast
    moreover have "snd (w ! k) = 0 \<longleftrightarrow> fst (w ! k) = 0"
      using ok Some by (auto simp: chain_ok_def chain_at_def Let_def split: prod.splits)
    ultimately show ?thesis using Some k v inj
      by (auto simp: chain_push_def chain_at_def nth_list_update)
  qed
qed

text \<open>What holds between the steps of a release: the heads of all lists are \<open>hp\<close>.\<close>

definition rel_inv :: "allocator \<Rightarrow> nat \<Rightarrow> (nat \<times> nat) set \<Rightarrow> chains \<Rightarrow> memory \<Rightarrow> (owner \<Rightarrow> u64) \<Rightarrow> ownership \<Rightarrow> bool" where
  "rel_inv a nt R m M hp Q \<longleftrightarrow> free_lists M hp Q (owners nt (ncpus a)) \<and> blocks_ok a Q \<and>
     (\<forall>b n i. Q b = Some (n, Some i) \<longrightarrow> n = unit_of (arena_of i) \<and> i \<in> owners nt (ncpus a)) \<and>
     (\<forall>b n c k. Q b = Some (n, Some (Chain c k)) \<longrightarrow> carved a c b n) \<and>
     (\<forall>c v. m c = Some v \<longrightarrow> length v = MAX_ARENAS) \<and> (\<forall>ck \<in> R. chain_ok m M hp ck)"

lemma chain_ok_frame:
  assumes fl: "free_lists M hp Q I" and i: "Chain c k \<in> I" and "chain_ok m M hp (c, k)"
    and "chain_at m' c k = chain_at m c k" and "hp' (Chain c k) = hp (Chain c k)"
    and M: "\<And>b. b \<in> in_list Q (Chain c k) \<Longrightarrow> M' b = M b"
  shows "chain_ok m' M' hp' (c, k)"
proof -
  obtain bs where bs: "blk_list M (hp (Chain c k)) bs" "set bs = in_list Q (Chain c k)" using fl i by (auto simp: free_lists_def)
  have "blk_list M' (hp (Chain c k)) bs" using bs M blk_cong [of bs M' M] by simp
  then show ?thesis using assms(3-5) bs(1) blk_unique
    by (fastforce simp: chain_ok_def Let_def split: prod.splits)
qed

lemma release_step:
  assumes r: "regions_ok a" and inv: "rel_inv a nt ({..<ncpus a} \<times> {..<MAX_ARENAS}) m M hp Q"
    and t: "t < nt" and k: "k < MAX_ARENAS" and p: "hp (Thread t k) = p" "p \<noteq> 0"
  shows "\<exists>cpu m' hp' Q'. PointerToCpu a p = Inr cpu \<and> chain_push k p cpu (m, M) = (m', M(p := hp (Chain (unat cpu) k))) \<and>
    rel_inv a nt ({..<ncpus a} \<times> {..<MAX_ARENAS}) m' (M(p := hp (Chain (unat cpu) k))) hp' Q' \<and> live Q' = live Q \<and>
    hp' = hp(Thread t k := M p, Chain (unat cpu) k := p)"
proof -
  let ?I = "owners nt (ncpus a)" and ?i = "Thread t k" and ?n = "unit_of k"
  have fl: "free_lists M hp Q ?I" and bl: "blocks_ok a Q" and len: "\<forall>c v. m c = Some v \<longrightarrow> length v = MAX_ARENAS"
    using inv by (auto simp: rel_inv_def)
  have i: "?i \<in> ?I" using t k by (rule owner_in)
  have Qp: "Q p = Some (?n, Some ?i)" using free_lists_head(2) [OF fl i] p by (simp add: in_list_def)
  then obtain c where c: "c < ncpus a" "carved a c p ?n" and n0: "0 < ?n"
    using blocks_okD(1) [OF bl] by (force simp: block_ok_def)
  have cpu: "PointerToCpu a p = Inr (of_nat c)" by (rule PointerToCpu_carved [OF r c(1,2) n0])
  have nc: "ncpus a \<le> 2 ^ 64" using unsigned_less [of "g_ncpus a", where ?'a = nat] by simp
  have uc: "unat (of_nat c :: u64) = c" by (rule unat_of_nat_small) (use c nc in simp)
  let ?j = "Chain c k"
  have j: "?j \<in> ?I" using c k by (simp add: owner_in)
  have okj: "chain_ok m M hp (c, k)" using inv c k by (auto simp: rel_inv_def)
  then have hj: "fst (chain_at m c k) = hp ?j" by (auto simp: chain_ok_def Let_def split: prod.splits)
  obtain m' where m': "chain_push k p (of_nat c) (m, M) = (m', M(p := hp ?j))"
      "\<forall>d < ncpus a. \<forall>j < MAX_ARENAS. chain_at m' d j =
         (if d = c \<and> j = k then (p, if hp ?j = 0 then p else snd (chain_at m c k)) else chain_at m d j)"
      "\<forall>c v. m' c = Some v \<longrightarrow> length v = MAX_ARENAS"
    using chain_push_at [where m = m and M = M and hp = hp and p = p, OF c(1) nc k len okj] unfolding hj by blast
  let ?Q1 = "Q(p \<mapsto> (?n, None))" and ?Q' = "Q(p \<mapsto> (?n, Some (Chain c k)))"
  let ?hp1 = "hp(?i := M p)" and ?hp' = "hp(?i := M p, Chain c k := p)" and ?M' = "M(p := hp (Chain c k))"
  have fl1: "free_lists M ?hp1 ?Q1 ?I" using free_lists_pop [OF fl i, of ?n] p by simp
  have "free_lists (M(p := ?hp1 ?j)) (?hp1(?j := p)) (?Q1(p \<mapsto> (unit_of (arena_of ?j), Some ?j))) ?I"
    by (rule free_lists_push [OF fl1 j p(2)]) (simp add: in_list_upd)
  then have fl': "free_lists ?M' ?hp' ?Q' ?I" by simp
  have bl': "blocks_ok a ?Q'"
    by (rule blocks_ok_reown [OF bl]) (use Qp in \<open>auto split: if_splits intro: blocks_okD(2) [OF bl]\<close>)
  have ch: "chain_ok m' ?M' ?hp' (d, l)" if d: "d < ncpus a" "l < MAX_ARENAS" for d l
  proof (cases "d = c \<and> l = k")
    case True
    have at: "chain_at m' c k = (p, if hp ?j = 0 then p else snd (chain_at m c k))" using m'(2) c k by simp
    obtain bs where bs: "blk_list M (hp ?j) bs" "set bs = in_list Q ?j" using fl j by (auto simp: free_lists_def)
    have pb: "p \<notin> set bs" using Qp unfolding bs(2) by (simp add: in_list_def)
    have "blk_list ?M' p (p # bs)" using bs(1) pb p(2) by simp
    moreover have "last (p # bs) = snd (chain_at m' c k)"
    proof (cases "hp ?j = 0")
      case False
      then have "bs \<noteq> []" using bs(1) by auto
      moreover have "last bs = snd (chain_at m c k)"
        using okj False bs(1) blk_unique by (fastforce simp: chain_ok_def Let_def split: prod.splits)
      ultimately show ?thesis using at False by simp
    qed (use bs(1) at in simp)
    moreover have "snd (chain_at m' c k) \<noteq> 0"
      using at p(2) okj by (auto simp: chain_ok_def Let_def split: prod.splits)
    ultimately have "chain_ok m' ?M' ?hp' (c, k)"
      using at p(2) by (intro chain_okI [of _ _ _ p _ "snd (chain_at m' c k)" _ "p # bs"]) simp_all
    then show ?thesis using True by simp
  next
    case False
    have o: "Chain d l \<in> ?I" using d by (simp add: owner_in)
    have old: "chain_ok m M hp (d, l)" using inv d by (auto simp: rel_inv_def)
    show ?thesis
      by (rule chain_ok_frame [OF fl o old])
         (use False m'(2) d Qp in \<open>auto simp: in_list_def\<close>)
  qed
  have own: "n = unit_of (arena_of i) \<and> i \<in> ?I" if "?Q' b = Some (n, Some i)" for b n i
    using that inv j by (auto simp: rel_inv_def split: if_splits)
  have car: "carved a d b n" if "?Q' b = Some (n, Some (Chain d l))" for b n d l
    using that inv c(2) by (auto simp: rel_inv_def split: if_splits)
  have "rel_inv a nt ({..<ncpus a} \<times> {..<MAX_ARENAS}) m' ?M' ?hp' ?Q'"
    unfolding rel_inv_def using fl' bl' own car m'(3) ch by blast
  moreover have "live ?Q' = live Q" using Qp by (auto simp: live_def split: if_splits)
  ultimately show ?thesis using cpu m'(1) uc by (intro exI [of _ "of_nat c"] exI [of _ m'] exI [of _ ?hp'] exI [of _ ?Q']) simp
qed

abbreviation all_chains :: "allocator \<Rightarrow> (nat \<times> nat) set" where
  "all_chains a \<equiv> {..<ncpus a} \<times> {..<MAX_ARENAS}"

lemma release_walk_inv:
  assumes r: "regions_ok a" and t: "t < nt" and k: "k < MAX_ARENAS"
    and "rel_inv a nt (all_chains a) m M hp Q" and "blk_list M (hp (Thread t k)) bs" and "length bs < n"
  shows "\<exists>m' M' hp' Q'. release_walk n a k (hp (Thread t k)) (m, M) = Inr (m', M') \<and>
    rel_inv a nt (all_chains a) m' M' hp' Q' \<and> live Q' = live Q \<and> hp' (Thread t k) = 0 \<and>
    (\<forall>i. i \<noteq> Thread t k \<and> (\<forall>c l. i \<noteq> Chain c l) \<longrightarrow> hp' i = hp i)"
  using assms(4-)
proof (induction bs arbitrary: n m M hp Q)
  case Nil
  then obtain n' where "n = Suc n'" by (cases n) auto
  then show ?case using Nil by auto
next
  case (Cons b bs)
  let ?p = "hp (Thread t k)"
  obtain n' where n: "n = Suc n'" using Cons.prems(3) by (cases n) auto
  have p0: "?p \<noteq> 0" and pb: "?p = b" using Cons.prems(2) by auto
  obtain cpu m1 hp1 Q1 where st: "PointerToCpu a ?p = Inr cpu"
      "chain_push k ?p cpu (m, M) = (m1, M(?p := hp (Chain (unat cpu) k)))"
      "rel_inv a nt (all_chains a) m1 (M(?p := hp (Chain (unat cpu) k))) hp1 Q1" "live Q1 = live Q"
      "hp1 = hp(Thread t k := M ?p, Chain (unat cpu) k := ?p)"
    using release_step [OF r Cons.prems(1) t k refl p0] by blast
  let ?M1 = "M(?p := hp (Chain (unat cpu) k))"
  have "?p \<notin> set bs" using blk_distinct [OF Cons.prems(2)] pb by simp
  then have lk: "blk_list ?M1 (hp1 (Thread t k)) bs" using Cons.prems(2) pb by (simp add: st(5))
  have ln: "length bs < n'" using Cons.prems(3) n by simp
  obtain m' M' hp' Q' where IH: "release_walk n' a k (hp1 (Thread t k)) (m1, ?M1) = Inr (m', M')"
      "rel_inv a nt (all_chains a) m' M' hp' Q'" "live Q' = live Q1" "hp' (Thread t k) = 0"
      "\<forall>i. i \<noteq> Thread t k \<and> (\<forall>c l. i \<noteq> Chain c l) \<longrightarrow> hp' i = hp1 i"
    using Cons.IH [OF st(3) lk ln] by blast
  have "hp1 (Thread t k) = M ?p" by (simp add: st(5))
  then have "release_walk n a k ?p (m, M) = Inr (m', M')" using n p0 st(1,2) IH(1) by simp
  then show ?case using IH(2-) st(4) by (intro exI [of _ m'] exI [of _ M'] exI [of _ hp'] exI [of _ Q']) (simp add: st(5))
qed

lemma release_arenas_inv:
  assumes r: "regions_ok a" and t: "t < nt" and "\<forall>k \<in> set ks. k < MAX_ARENAS" and "distinct ks"
    and "rel_inv a nt (all_chains a) m M hp Q"
    and fuel: "\<forall>M p bs. blk_list M p bs \<longrightarrow> (\<exists>Q. blocks_ok a Q \<and> set bs \<subseteq> dom Q) \<longrightarrow> length bs < n"
  shows "\<exists>m' M' hp' Q'. release_arenas n a (map (\<lambda>k. (k, hp (Thread t k))) ks) (m, M) = Inr (m', M') \<and>
    rel_inv a nt (all_chains a) m' M' hp' Q' \<and> live Q' = live Q \<and> (\<forall>k \<in> set ks. hp' (Thread t k) = 0) \<and>
    (\<forall>i. (\<forall>k \<in> set ks. i \<noteq> Thread t k) \<and> (\<forall>c l. i \<noteq> Chain c l) \<longrightarrow> hp' i = hp i)"
  using assms(3-5)
proof (induction ks arbitrary: m M hp Q)
  case Nil
  then show ?case by auto
next
  case (Cons k ks)
  have fl: "free_lists M hp Q (owners nt (ncpus a))" and bl: "blocks_ok a Q" using Cons.prems(3) by (auto simp: rel_inv_def)
  have "Thread t k \<in> owners nt (ncpus a)" using t Cons.prems(1) by (simp add: owner_in)
  then obtain bs where bs: "blk_list M (hp (Thread t k)) bs" "set bs = in_list Q (Thread t k)"
    using fl by (auto simp: free_lists_def)
  have "set bs \<subseteq> dom Q" unfolding bs(2) by (auto simp: in_list_def)
  then have ln: "length bs < n" using fuel bs(1) bl by blast
  have k: "k < MAX_ARENAS" using Cons.prems(1) by simp
  obtain m1 M1 hp1 Q1 where w: "release_walk n a k (hp (Thread t k)) (m, M) = Inr (m1, M1)"
      "rel_inv a nt (all_chains a) m1 M1 hp1 Q1" "live Q1 = live Q" "hp1 (Thread t k) = 0"
      "\<forall>i. i \<noteq> Thread t k \<and> (\<forall>c l. i \<noteq> Chain c l) \<longrightarrow> hp1 i = hp i"
    using release_walk_inv [OF r t k Cons.prems(3) bs(1) ln] by blast
  have eq: "map (\<lambda>k. (k, hp (Thread t k))) ks = map (\<lambda>k. (k, hp1 (Thread t k))) ks"
    using w(5) Cons.prems(2) by (intro map_cong refl) (metis distinct.simps(2) owner.distinct(3) owner.inject(1))
  have ks: "\<forall>k \<in> set ks. k < MAX_ARENAS" "distinct ks" using Cons.prems(1,2) by simp_all
  obtain m' M' hp' Q' where IH: "release_arenas n a (map (\<lambda>k. (k, hp1 (Thread t k))) ks) (m1, M1) = Inr (m', M')"
      "rel_inv a nt (all_chains a) m' M' hp' Q'" "live Q' = live Q1" "\<forall>k \<in> set ks. hp' (Thread t k) = 0"
      "\<forall>i. (\<forall>k \<in> set ks. i \<noteq> Thread t k) \<and> (\<forall>c l. i \<noteq> Chain c l) \<longrightarrow> hp' i = hp1 i"
    using Cons.IH [OF ks w(2)] by blast
  have "hp' (Thread t k) = 0" using IH(5) [rule_format, of "Thread t k"] w(4) Cons.prems(2) by auto
  moreover have "\<forall>i. (\<forall>k \<in> set (k # ks). i \<noteq> Thread t k) \<and> (\<forall>c l. i \<noteq> Chain c l) \<longrightarrow> hp' i = hp i"
    using IH(5) w(5) by simp
  moreover have "release_arenas n a (map (\<lambda>k. (k, hp (Thread t k))) (k # ks)) (m, M) = Inr (m', M')"
    using w(1) IH(1) by (simp add: eq)
  ultimately show ?case using w(3) IH(2-4) by (intro exI [of _ m'] exI [of _ M'] exI [of _ hp'] exI [of _ Q']) simp
qed

text \<open>The blocks of a list are different addresses of the memory: its size bounds the length.\<close>

lemma length_list_bound:
  assumes r: "regions_ok a" and l: "blk_list M p bs" and Q: "blocks_ok a Q" "set bs \<subseteq> dom Q"
  shows "length bs \<le> unat (g_memend a - g_memstart a)"
proof -
  let ?A = "{unat (g_memstart a)..<unat (g_memend a)}"
  have ms: "unat (g_memstart a) \<le> unat (g_memend a)" using r by (simp add: regions_ok_def region_base_def)
  have "unat b \<in> ?A" if bb: "b \<in> set bs" for b
  proof -
    obtain n w where "Q b = Some (n, w)" using bb Q(2) by fastforce
    then obtain c where c: "c < ncpus a" "carved a c b n" "0 < n" using blocks_okD(1) [OF Q(1)] unfolding block_ok_def by blast
    then show ?thesis using region_end_bound(1) [OF r c(1)] r
      by (auto simp: carved_def regions_ok_def region_ok_def region_base_def)
  qed
  then have "unat ` set bs \<subseteq> ?A" by auto
  then have "card (unat ` set bs) \<le> card ?A" by (rule card_mono [rotated]) simp
  moreover have "card (unat ` set bs) = length bs"
    using blk_distinct [OF l] by (simp add: card_image inj_on_def distinct_card word_unat_eq_iff)
  ultimately show ?thesis using ms by (simp add: unat_sub word_le_nat_alt)
qed

text \<open>The chains go in front of the lists of their regions.\<close>

lemma rel_inv_subset: "rel_inv a nt R m M hp Q \<Longrightarrow> R' \<subseteq> R \<Longrightarrow> rel_inv a nt R' m M hp Q"
  by (auto simp: rel_inv_def)

lemma splice_step:
  assumes inv: "rel_inv a nt R m M hp Q" and ck: "(c, k) \<in> R" "R \<subseteq> all_chains a" and ht: "chain_at m c k = (h, l)" "h \<noteq> 0"
  shows "rel_inv a nt (R - {(c, k)}) m (M(l := hp (Region c k))) (hp(Region c k := h, Chain c k := 0))
           (move_list (Chain c k) (Region c k) Q)"
proof -
  let ?I = "owners nt (ncpus a)" and ?i = "Chain c k" and ?j = "Region c k"
  let ?Q = "move_list ?i ?j Q" and ?M = "M(l := hp ?j)" and ?hp = "hp(?j := h, ?i := 0)"
  have c: "c < ncpus a" "k < MAX_ARENAS" using ck by auto
  have fl: "free_lists M hp Q ?I" and bl: "blocks_ok a Q" using inv by (auto simp: rel_inv_def)
  have i: "?i \<in> ?I" and j: "?j \<in> ?I" using c by (simp_all add: owner_in)
  have "chain_ok m M hp (c, k)" using inv ck(1) by (auto simp: rel_inv_def)
  then obtain bs where bs: "hp ?i = h" "blk_list M h bs" "last bs = l" using ht by (auto simp: chain_ok_def)
  have ne: "bs \<noteq> []" using bs(2) ht(2) by auto
  have fl': "free_lists ?M ?hp ?Q ?I"
    using free_lists_splice [OF fl i j _ _ ne] bs by simp
  obtain bs' where "blk_list M (hp ?i) bs'" "set bs' = in_list Q ?i" using fl i by (auto simp: free_lists_def)
  then have "set bs = in_list Q ?i" using blk_unique [OF bs(2)] bs(1) by auto
  then have lin: "l \<in> in_list Q ?i" using ne bs(3) by (metis last_in_set)
  have "blocks_ok a ?Q"
  proof (rule blocks_ok_reown [OF bl])
    show "carved a d b n" if "?Q b = Some (n, Some (Region d j))" for d j b n
      using that inv blocks_okD(2) [OF bl] by (auto simp: move_list_def in_list_def rel_inv_def split: if_splits)
  qed (auto simp: move_list_def in_list_def)
  moreover have own: "n = unit_of (arena_of x) \<and> x \<in> ?I" if "?Q b = Some (n, Some x)" for b n x
    using that inv j by (auto simp: move_list_def rel_inv_def split: if_splits)
  moreover have car: "carved a d b n" if "?Q b = Some (n, Some (Chain d j))" for d j b n
    using that inv by (auto simp: move_list_def rel_inv_def split: if_splits)
  moreover have ch: "chain_ok m ?M ?hp (d, j)" if dj: "(d, j) \<in> R - {(c, k)}" for d j
  proof (rule chain_ok_frame [OF fl])
    show "Chain d j \<in> ?I" using dj ck(2) by (auto simp: owner_in)
    show "chain_ok m M hp (d, j)" using inv dj by (auto simp: rel_inv_def)
    show "?M b = M b" if "b \<in> in_list Q (Chain d j)" for b using that lin dj by (auto simp: in_list_def)
  qed (use dj in auto)
  moreover have "\<forall>x \<in> R - {(c, k)}. chain_ok m ?M ?hp x" using ch by (metis surj_pair)
  moreover have "\<forall>c v. m c = Some v \<longrightarrow> length v = MAX_ARENAS" using inv by (simp add: rel_inv_def)
  ultimately show ?thesis using fl' own car unfolding rel_inv_def by blast
qed

lemma splice_cpu_inv:
  assumes "rel_inv a nt R m M hp Q" and "R \<subseteq> all_chains a" and "{c} \<times> set ks \<subseteq> R" and "distinct ks"
    and "length (rarenas pc) = MAX_ARENAS" and "\<forall>k < MAX_ARENAS. rarenas pc ! k = hp (Region c k)"
    and "\<And>k. chain_at m c k = v ! k"
  shows "\<exists>r M' hp' Q'. fold (\<lambda>k. splice1 k (v ! k)) ks (pc, M) = (pc\<lparr>rarenas := r\<rparr>, M') \<and> length r = MAX_ARENAS \<and>
    (\<forall>k < MAX_ARENAS. r ! k = hp' (Region c k)) \<and> rel_inv a nt (R - {c} \<times> set ks) m M' hp' Q' \<and> live Q' = live Q \<and>
    (\<forall>i. (\<forall>k. i \<noteq> Region c k \<and> i \<noteq> Chain c k) \<longrightarrow> hp' i = hp i) \<and> (\<forall>k \<in> set ks. hp' (Chain c k) = 0) \<and>
    (\<forall>k. k \<notin> set ks \<longrightarrow> hp' (Chain c k) = hp (Chain c k))"
  using assms(1-6)
proof (induction ks arbitrary: R M hp Q pc)
  case Nil
  then show ?case by (intro exI [of _ "rarenas pc"] exI [of _ M] exI [of _ hp] exI [of _ Q]) simp
next
  case (Cons k ks)
  obtain h l where hl: "v ! k = (h, l)" by (cases "v ! k")
  have ck: "(c, k) \<in> R" and k: "k < MAX_ARENAS" using Cons.prems(2,3) by auto
  have ok: "chain_ok m M hp (c, k)" using Cons.prems(1) ck by (auto simp: rel_inv_def)
  define hp1 where "hp1 = (if h = 0 then hp else hp(Region c k := h, Chain c k := 0))"
  define M1 where "M1 = (if h = 0 then M else M(l := hp (Region c k)))"
  define Q1 where "Q1 = (if h = 0 then Q else move_list (Chain c k) (Region c k) Q)"
  define pc1 where "pc1 = (if h = 0 then pc else pc\<lparr>rarenas := (rarenas pc)[k := h]\<rparr>)"
  have s: "splice1 k (v ! k) (pc, M) = (pc1, M1)"
    using Cons.prems(6) k by (simp add: splice1_def hl pc1_def M1_def)
  have i1: "rel_inv a nt (R - {(c, k)}) m M1 hp1 Q1"
  proof (cases "h = 0")
    case True
    then show ?thesis using rel_inv_subset [OF Cons.prems(1)] by (simp add: M1_def hp1_def Q1_def)
  next
    case False
    then show ?thesis using splice_step [OF Cons.prems(1) ck Cons.prems(2)] assms(7) hl by (simp add: M1_def hp1_def Q1_def)
  qed
  have hk: "hp1 (Chain c k) = 0" using ok assms(7) hl by (auto simp: chain_ok_def hp1_def)
  have pr: "R - {(c, k)} \<subseteq> all_chains a" "{c} \<times> set ks \<subseteq> R - {(c, k)}" "distinct ks" "length (rarenas pc1) = MAX_ARENAS"
      "\<forall>j < MAX_ARENAS. rarenas pc1 ! j = hp1 (Region c j)"
    using Cons.prems(2-6) k by (auto simp: pc1_def hp1_def nth_list_update)
  obtain r M' hp' Q' where IH: "fold (\<lambda>k. splice1 k (v ! k)) ks (pc1, M1) = (pc1\<lparr>rarenas := r\<rparr>, M')" "length r = MAX_ARENAS"
      "\<forall>k < MAX_ARENAS. r ! k = hp' (Region c k)" "rel_inv a nt (R - {(c, k)} - {c} \<times> set ks) m M' hp' Q'" "live Q' = live Q1"
      "\<forall>i. (\<forall>k. i \<noteq> Region c k \<and> i \<noteq> Chain c k) \<longrightarrow> hp' i = hp1 i" "\<forall>k \<in> set ks. hp' (Chain c k) = 0"
      "\<forall>k. k \<notin> set ks \<longrightarrow> hp' (Chain c k) = hp1 (Chain c k)"
    using Cons.IH [OF i1 pr] by blast
  have 1: "fold (\<lambda>k. splice1 k (v ! k)) (k # ks) (pc, M) = (pc\<lparr>rarenas := r\<rparr>, M')" using IH(1) s by (simp add: pc1_def)
  have 2: "R - {c} \<times> set (k # ks) = R - {(c, k)} - {c} \<times> set ks" by auto
  have 3: "live Q' = live Q" using IH(5) live_move by (simp add: Q1_def)
  have 4: "\<forall>i. (\<forall>k. i \<noteq> Region c k \<and> i \<noteq> Chain c k) \<longrightarrow> hp' i = hp i" using IH(6) by (auto simp: hp1_def)
  have 5: "\<forall>j \<in> set (k # ks). hp' (Chain c j) = 0" using IH(7,8) hk by auto
  have 6: "\<forall>j. j \<notin> set (k # ks) \<longrightarrow> hp' (Chain c j) = hp (Chain c j)" using IH(8) by (simp add: hp1_def)
  show ?case using 1 IH(2-4) 3 4 5 6 unfolding 2 by (intro exI [of _ r] exI [of _ M'] exI [of _ hp'] exI [of _ Q']) blast
qed

definition same_regions :: "allocator \<Rightarrow> allocator \<Rightarrow> bool" where
  "same_regions a a' \<longleftrightarrow> (\<exists>rs. a' = a\<lparr>g_regions := rs\<rparr> \<and> length rs = length (g_regions a) \<and>
     (\<forall>c < length rs. \<exists>r. rs ! c = (g_regions a ! c)\<lparr>rarenas := r\<rparr>))"

definition heads_ok :: "allocator \<Rightarrow> (owner \<Rightarrow> u64) \<Rightarrow> bool" where
  "heads_ok a hp \<longleftrightarrow> (\<forall>c < ncpus a. length (rarenas (g_regions a ! c)) = MAX_ARENAS \<and>
     (\<forall>k < MAX_ARENAS. rarenas (g_regions a ! c) ! k = hp (Region c k)))"

lemma same_regions_set:
  assumes "same_regions a a'" and "c < length (g_regions a)"
  shows "same_regions a (set_region c ((g_regions a' ! c)\<lparr>rarenas := r\<rparr>) a')"
proof -
  obtain rs where rs: "a' = a\<lparr>g_regions := rs\<rparr>" "length rs = length (g_regions a)"
      "\<forall>c < length rs. \<exists>r. rs ! c = (g_regions a ! c)\<lparr>rarenas := r\<rparr>"
    using assms(1) by (auto simp: same_regions_def)
  obtain r' where "rs ! c = (g_regions a ! c)\<lparr>rarenas := r'\<rparr>" using rs(2,3) assms(2) by auto
  then have "(rs ! c)\<lparr>rarenas := r\<rparr> = (g_regions a ! c)\<lparr>rarenas := r\<rparr>" by simp
  then have "\<exists>x. rs[c := (rs ! c)\<lparr>rarenas := r\<rparr>] ! d = (g_regions a ! d)\<lparr>rarenas := x\<rparr>" if "d < length rs" for d
    using rs(3) that by (cases "d = c") auto
  then show ?thesis using rs unfolding same_regions_def
    by (intro exI [of _ "rs[c := (rs ! c)\<lparr>rarenas := r\<rparr>]"]) (simp add: set_region_def)
qed

lemma splice_inv:
  assumes inv: "rel_inv a nt R m M hp Q" and R: "R \<subseteq> all_chains a" "{c} \<times> {..<MAX_ARENAS} \<subseteq> R"
    and c: "c < ncpus a" "c < length (g_regions a)" and same: "same_regions a a'" and heads: "heads_ok a' hp"
  shows "\<exists>a1 M' hp' Q'. splice m c (a', M) = (a1, M') \<and> same_regions a a1 \<and> heads_ok a1 hp' \<and>
    rel_inv a nt (R - {c} \<times> {..<MAX_ARENAS}) m M' hp' Q' \<and> live Q' = live Q \<and>
    (\<forall>t k. hp' (Thread t k) = hp (Thread t k)) \<and> (\<forall>d k. d \<noteq> c \<longrightarrow> hp' (Chain d k) = hp (Chain d k)) \<and>
    (\<forall>k < MAX_ARENAS. hp' (Chain c k) = 0)"
proof -
  have na: "ncpus a' = ncpus a" and la: "length (g_regions a') = length (g_regions a)"
    using same by (auto simp: same_regions_def)
  have ok: "chain_ok m M hp (c, k)" if "k < MAX_ARENAS" for k using inv R(2) that by (auto simp: rel_inv_def)
  show ?thesis
  proof (cases "m (of_nat c)")
    case None
    then have "hp (Chain c k) = 0" if "k < MAX_ARENAS" for k using ok [OF that] by (simp add: chain_ok_def chain_at_def)
    moreover have "rel_inv a nt (R - {c} \<times> {..<MAX_ARENAS}) m M hp Q" by (rule rel_inv_subset [OF inv]) auto
    ultimately show ?thesis using None same heads
      by (intro exI [of _ a'] exI [of _ M] exI [of _ hp] exI [of _ Q]) (simp add: splice_def)
  next
    case (Some v)
    let ?pc = "g_regions a' ! c"
    have at: "chain_at m c k = v ! k" for k using Some by (simp add: chain_at_def)
    have R': "{c} \<times> set [0..<MAX_ARENAS] \<subseteq> R" using R(2) by (simp add: lessThan_atLeast0)
    have pc: "length (rarenas ?pc) = MAX_ARENAS" "\<forall>k < MAX_ARENAS. rarenas ?pc ! k = hp (Region c k)"
      using heads c na by (auto simp: heads_ok_def)
    obtain r M' hp' Q' where f: "fold (\<lambda>k. splice1 k (v ! k)) [0..<MAX_ARENAS] (?pc, M) = (?pc\<lparr>rarenas := r\<rparr>, M')"
        "length r = MAX_ARENAS" "\<forall>k < MAX_ARENAS. r ! k = hp' (Region c k)"
        "rel_inv a nt (R - {c} \<times> set [0..<MAX_ARENAS]) m M' hp' Q'" "live Q' = live Q"
        "\<forall>i. (\<forall>k. i \<noteq> Region c k \<and> i \<noteq> Chain c k) \<longrightarrow> hp' i = hp i" "\<forall>k \<in> set [0..<MAX_ARENAS]. hp' (Chain c k) = 0"
      using splice_cpu_inv [OF inv R(1) R' distinct_upt pc at] by blast
    let ?a1 = "set_region c (?pc\<lparr>rarenas := r\<rparr>) a'"
    have s: "splice m c (a', M) = (?a1, M')" using Some f(1) by (simp add: splice_def splice_cpu_def set_region_def)
    have "heads_ok ?a1 hp'" using heads f(2,3,6) c na la by (auto simp: heads_ok_def)
    moreover have "same_regions a ?a1" by (rule same_regions_set [OF same c(2)])
    moreover have "\<forall>t k. hp' (Thread t k) = hp (Thread t k)" "\<forall>d k. d \<noteq> c \<longrightarrow> hp' (Chain d k) = hp (Chain d k)"
      using f(6) by auto
    ultimately show ?thesis using s f(4,5,7)
      by (intro exI [of _ ?a1] exI [of _ M'] exI [of _ hp'] exI [of _ Q']) (simp add: lessThan_atLeast0)
  qed
qed

lemma splice_all_inv:
  assumes "rel_inv a nt R m M hp Q" and "R \<subseteq> all_chains a" and "set cs \<times> {..<MAX_ARENAS} \<subseteq> R" and "distinct cs"
    and "set cs \<subseteq> {..<ncpus a}" and "ncpus a \<le> length (g_regions a)" and "same_regions a a'" and "heads_ok a' hp"
  shows "\<exists>a1 M' hp' Q'. fold (splice m) cs (a', M) = (a1, M') \<and> same_regions a a1 \<and> heads_ok a1 hp' \<and>
    rel_inv a nt (R - set cs \<times> {..<MAX_ARENAS}) m M' hp' Q' \<and> live Q' = live Q \<and>
    (\<forall>t k. hp' (Thread t k) = hp (Thread t k)) \<and> (\<forall>d k. d \<notin> set cs \<longrightarrow> hp' (Chain d k) = hp (Chain d k)) \<and>
    (\<forall>d \<in> set cs. \<forall>k < MAX_ARENAS. hp' (Chain d k) = 0)"
  using assms(1-5,7-)
proof (induction cs arbitrary: R a' M hp Q)
  case Nil
  then show ?case by (intro exI [of _ a'] exI [of _ M] exI [of _ hp] exI [of _ Q]) simp
next
  case (Cons c cs)
  have c: "c < ncpus a" "c < length (g_regions a)" and Rc: "{c} \<times> {..<MAX_ARENAS} \<subseteq> R" using Cons.prems(3,5) assms(6) by auto
  obtain a1 M1 hp1 Q1 where s: "splice m c (a', M) = (a1, M1)" "same_regions a a1" "heads_ok a1 hp1"
      "rel_inv a nt (R - {c} \<times> {..<MAX_ARENAS}) m M1 hp1 Q1" "live Q1 = live Q"
      "\<forall>t k. hp1 (Thread t k) = hp (Thread t k)" "\<forall>d k. d \<noteq> c \<longrightarrow> hp1 (Chain d k) = hp (Chain d k)"
      "\<forall>k < MAX_ARENAS. hp1 (Chain c k) = 0"
    using splice_inv [OF Cons.prems(1,2) Rc c Cons.prems(6,7)] by blast
  have pr: "R - {c} \<times> {..<MAX_ARENAS} \<subseteq> all_chains a" "set cs \<times> {..<MAX_ARENAS} \<subseteq> R - {c} \<times> {..<MAX_ARENAS}" "distinct cs"
      "set cs \<subseteq> {..<ncpus a}"
    using Cons.prems(2-5) by auto
  obtain a2 M' hp' Q' where IH: "fold (splice m) cs (a1, M1) = (a2, M')" "same_regions a a2" "heads_ok a2 hp'"
      "rel_inv a nt (R - {c} \<times> {..<MAX_ARENAS} - set cs \<times> {..<MAX_ARENAS}) m M' hp' Q'" "live Q' = live Q1"
      "\<forall>t k. hp' (Thread t k) = hp1 (Thread t k)" "\<forall>d k. d \<notin> set cs \<longrightarrow> hp' (Chain d k) = hp1 (Chain d k)"
      "\<forall>d \<in> set cs. \<forall>k < MAX_ARENAS. hp' (Chain d k) = 0"
    using Cons.IH [OF s(4) pr s(2,3)] by blast
  have 2: "R - set (c # cs) \<times> {..<MAX_ARENAS} = R - {c} \<times> {..<MAX_ARENAS} - set cs \<times> {..<MAX_ARENAS}" by auto
  have 3: "\<forall>d \<in> set (c # cs). \<forall>k < MAX_ARENAS. hp' (Chain d k) = 0" using IH(7,8) s(8) Cons.prems(4) by auto
  have 4: "\<forall>d k. d \<notin> set (c # cs) \<longrightarrow> hp' (Chain d k) = hp (Chain d k)" using IH(7) s(7) by simp
  show ?case using s(1,5,6) IH(1-6) 3 4 unfolding 2
    by (intro exI [of _ a2] exI [of _ M'] exI [of _ hp'] exI [of _ Q']) simp
qed

lemma same_regionsD:
  assumes "same_regions a a'"
  shows "g_ncpus a' = g_ncpus a" "g_memstart a' = g_memstart a" "g_memend a' = g_memend a" "g_maxpercore a' = g_maxpercore a"
    "region_base a' = region_base a" "length (g_regions a') = length (g_regions a)"
    "c < length (g_regions a) \<Longrightarrow> rbegin a' c = rbegin a c"
    "c < length (g_regions a) \<Longrightarrow> region_end (g_regions a' ! c) = region_end (g_regions a ! c)"
  using assms by (auto simp: same_regions_def region_base_def fun_eq_iff)

lemma regions_ok_same:
  assumes r: "regions_ok a" and s: "same_regions a a'" and h: "heads_ok a' hp"
  shows "regions_ok a'"
proof -
  have "region_ok a' c" if "c < ncpus a" for c
  proof -
    have "c < length (g_regions a)" "region_ok a c" using r that by (auto simp: regions_ok_def)
    then show ?thesis using same_regionsD(5,7,8) [OF s] h that same_regionsD(1) [OF s]
      by (auto simp: region_ok_def heads_ok_def)
  qed
  then show ?thesis using r same_regionsD [OF s] by (simp add: regions_ok_def)
qed

lemma rel_inv_start:
  assumes inv: "alloc_inv s Q"
  shows "rel_inv (shared s) (length (sync s)) (all_chains (shared s)) Map.empty (memory s) (head_of s) Q"
proof -
  note I = alloc_invD [OF inv]
  have "Q b \<noteq> Some (n, Some (Chain c k))" for b n c k
  proof
    assume b: "Q b = Some (n, Some (Chain c k))"
    then have "n = unit_of k" and o: "Chain c k \<in> all_owners s" using I(4) by fastforce+
    then have "b \<in> in_list Q (Chain c k)" using b by (simp add: in_list_def)
    then show False using free_lists_head(1) [OF I(5) o] by simp
  qed
  then show ?thesis using I(3-5) by (auto simp: rel_inv_def chain_ok_def chain_at_def)
qed

text \<open>A release keeps the invariant and never fails.\<close>

lemma do_release_inv:
  assumes inv: "alloc_inv s Q" and t: "t < length (sync s)"
  shows "\<exists>s' Q'. do_release t s = Inr s' \<and> alloc_inv s' Q' \<and> live Q' = live Q \<and> length (sync s') = length (sync s)"
proof -
  let ?a = "shared s" and ?nt = "length (sync s)" and ?y = "sync s ! t" and ?I = "all_owners s"
  note I = alloc_invD [OF inv]
  let ?n = "Suc (unat (g_memend ?a - g_memstart ?a))"
  have la: "length (arenas ?y) = MAX_ARENAS" using I(2) [OF t] by (simp add: sync_ok_def)
  have nl: "ncpus ?a \<le> length (g_regions ?a)" using I(1) by (simp add: regions_ok_def)
  have fuel: "\<forall>M p bs. blk_list M p bs \<longrightarrow> (\<exists>Q. blocks_ok ?a Q \<and> set bs \<subseteq> dom Q) \<longrightarrow> length bs < ?n"
    using length_list_bound [OF I(1)] by (fastforce simp: less_Suc_eq_le)
  have en: "enumerate 0 (arenas ?y) = map (\<lambda>k. (k, head_of s (Thread t k))) [0..<MAX_ARENAS]"
    using la by (intro nth_equalityI) (simp_all add: nth_enumerate_eq)
  have ks: "\<forall>k \<in> set [0..<MAX_ARENAS]. k < MAX_ARENAS" by simp
  obtain m M1 hp1 Q1 where w: "release_arenas ?n ?a (enumerate 0 (arenas ?y)) (Map.empty, memory s) = Inr (m, M1)"
      "rel_inv ?a ?nt (all_chains ?a) m M1 hp1 Q1" "live Q1 = live Q" "\<forall>k \<in> set [0..<MAX_ARENAS]. hp1 (Thread t k) = 0"
      "\<forall>i. (\<forall>k \<in> set [0..<MAX_ARENAS]. i \<noteq> Thread t k) \<and> (\<forall>c l. i \<noteq> Chain c l) \<longrightarrow> hp1 i = head_of s i"
    unfolding en using release_arenas_inv [OF I(1) t ks distinct_upt rel_inv_start [OF inv] fuel] by blast
  have same: "same_regions ?a ?a" unfolding same_regions_def
    by (rule exI [of _ "g_regions ?a"]) (simp, metis regionctx.surjective regionctx.update_convs(4))
  have "heads_ok ?a hp1" using I(1) w(5) by (auto simp: heads_ok_def regions_ok_def region_ok_def)
  moreover have "set [0..<ncpus ?a] \<times> {..<MAX_ARENAS} \<subseteq> all_chains ?a" "set [0..<ncpus ?a] \<subseteq> {..<ncpus ?a}" by auto
  ultimately obtain a2 M2 hp2 Q2 where f: "fold (splice m) [0..<ncpus ?a] (?a, M1) = (a2, M2)" "same_regions ?a a2" "heads_ok a2 hp2"
      "rel_inv ?a ?nt (all_chains ?a - set [0..<ncpus ?a] \<times> {..<MAX_ARENAS}) m M2 hp2 Q2" "live Q2 = live Q1"
      "\<forall>t k. hp2 (Thread t k) = hp1 (Thread t k)" "\<forall>d \<in> set [0..<ncpus ?a]. \<forall>k < MAX_ARENAS. hp2 (Chain d k) = 0"
    using splice_all_inv [OF w(2) subset_refl _ distinct_upt _ nl same] by blast
  let ?y' = "?y\<lparr>arenas := replicate MAX_ARENAS 0, deallocs := replicate MAX_ARENAS 0\<rparr>"
  let ?s' = "set_sync t ?y' (s\<lparr>shared := a2, memory := M2\<rparr>)"
  have rel: "do_release t s = Inr ?s'" using w(1) f(1) by (simp add: do_release_def ReleaseArenas_def Let_def)
  note D = same_regionsD [OF f(2)]
  have fl: "free_lists M2 hp2 Q2 ?I" and bl: "blocks_ok ?a Q2" using f(4) by (auto simp: rel_inv_def)
  have hd: "head_of ?s' i = hp2 i" if i: "i \<in> ?I" for i
  proof (cases i)
    case (Thread u k)
    then have "k < MAX_ARENAS" "u < ?nt" using i by (auto simp: owners_def)
    then show ?thesis using Thread t f(6) w(4,5) by (cases "u = t") (auto simp: set_sync_def)
  next
    case (Region c k)
    then show ?thesis using i f(3) D(1) by (auto simp: owners_def set_sync_def heads_ok_def)
  next
    case (Chain c k)
    then show ?thesis using i f(7) by (auto simp: owners_def)
  qed
  have "alloc_inv ?s' Q2"
  proof (rule alloc_invI [OF inv, where t = t])
    show "regions_ok (shared ?s')" using regions_ok_same [OF I(1) f(2,3)] by (simp add: set_sync_def)
    show "sync_ok ?a ?y'" using I(2) [OF t] by (simp add: sync_ok_def)
    show "blocks_ok (shared ?s') Q2"
    proof (rule blocks_ok_mono [OF bl])
      show "rbegin ?a c \<le> rbegin (shared ?s') c" if "c < ncpus ?a" for c using that nl D(7) by (simp add: set_sync_def)
    qed (use D in \<open>simp_all add: set_sync_def\<close>)
    show "n = unit_of (arena_of i) \<and> i \<in> ?I" if "Q2 b = Some (n, Some i)" for b n i
      using that f(4) unfolding rel_inv_def by blast
    show "free_lists (memory ?s') (head_of ?s') Q2 ?I"
      by (rule free_lists_frame [OF fl]) (use hd in \<open>auto simp: set_sync_def\<close>)
  qed (use D in \<open>simp_all add: set_sync_def\<close>)
  then show ?thesis using rel w(3) f(5) by (intro exI [of _ ?s'] exI [of _ Q2]) (simp add: set_sync_def)
qed

section \<open>Blocks in use\<close>

lemma live_block:
  assumes inv: "alloc_inv s Q" and x: "(p, n) \<in> live Q"
  shows "block_ok (shared s) p n" and "ManagesPointer (shared s) p" and "unat p + n \<le> unat (g_memend (shared s))"
proof -
  note I = alloc_invD [OF inv]
  have Qp: "Q p = Some (n, None)" using x by (simp add: live_def)
  show ok: "block_ok (shared s) p n" by (rule blocks_okD(1) [OF I(3) Qp])
  then obtain c where c: "c < ncpus (shared s)" "carved (shared s) c p n" "0 < n" by (auto simp: block_ok_def)
  have r: "region_ok (shared s) c" using I(1) c(1) by (simp add: regions_ok_def)
  show e: "unat p + n \<le> unat (g_memend (shared s))"
    using c(2) r region_end_bound(1) [OF I(1) c(1)] by (auto simp: carved_def region_ok_def)
  have "unat (g_memstart (shared s)) \<le> unat p" using c(2) by (simp add: carved_def region_base_def)
  then show "ManagesPointer (shared s) p" using e c(3) by (simp add: ManagesPointer_def word_le_nat_alt word_less_nat_alt)
qed

lemma live_apart:
  assumes inv: "alloc_inv s Q" and "(p, n) \<in> live Q" "(q, m) \<in> live Q" "(p, n) \<noteq> (q, m)"
  shows "apart p n q m"
proof -
  have "Q p = Some (n, None)" "Q q = Some (m, None)" using assms by (auto simp: live_def)
  moreover then have "p \<noteq> q" using assms(4) by auto
  ultimately show ?thesis using blocks_okD(3) [OF alloc_invD(3) [OF inv]] by blast
qed

lemma dealloc_inv:
  assumes inv: "alloc_inv s Q" and t: "t < length (sync s)" and p: "(p, n) \<in> live Q"
    and sz: "snd (ArenaSize sz) < of_nat MAX_ARENAS" "unit_of (unat (snd (ArenaSize sz))) = n"
  shows "\<exists>s' Q'. dealloc t p sz s = Inr s' \<and> alloc_inv s' Q' \<and> live Q' = live Q - {(p, n)} \<and> length (sync s') = length (sync s)"
proof -
  let ?k = "unat (snd (ArenaSize sz))" and ?y = "sync s ! t"
  let ?d = "(deallocs ?y)[?k := deallocs ?y ! ?k + 1]"
  let ?s' = "set_sync t (?y\<lparr>arenas := (arenas ?y)[?k := p], deallocs := ?d\<rparr>) (s\<lparr>memory := (memory s)(p := arenas ?y ! ?k)\<rparr>)"
  have k: "?k < MAX_ARENAS" by (rule ArenaSize_unit(1) [OF sz(1)])
  have Qp: "Q p = Some (unit_of ?k, None)" using p sz(2) by (simp add: live_def)
  have d: "length ?d = MAX_ARENAS" using alloc_invD(2) [OF inv t] by (simp add: sync_ok_def)
  have "dealloc t p sz s = Inr ?s'" using live_block(2) [OF inv p] sz(1) by (simp add: dealloc_def Let_def)
  moreover have "\<exists>Q'. alloc_inv ?s' Q' \<and> live Q' = live Q - {(p, n)}"
  proof (cases "p = 0")
    case True
    let ?Q = "\<lambda>b. if b = 0 \<or> b \<in> in_list Q (Thread t ?k) then None else Q b"
    have "alloc_inv ?s' ?Q" unfolding True by (rule drop_null_inv [OF inv t k d refl])
    moreover have "live ?Q = live Q - {(p, n)}"
      using Qp sz(2) True by (auto simp: live_def in_list_def split: if_splits)
    ultimately show ?thesis by blast
  next
    case False
    note push_inv [OF inv t k Qp d False refl]
    moreover have "live (Q(p \<mapsto> (unit_of ?k, Some (Thread t ?k)))) = live Q - {(p, n)}"
      using Qp sz(2) by (auto simp: live_def split: if_splits)
    ultimately show ?thesis by blast
  qed
  moreover have "length (sync ?s') = length (sync s)" by (simp add: set_sync_def)
  ultimately show ?thesis by blast
qed

text \<open>Whole pages, never given back.\<close>

lemma alloc_static_cases:
  assumes inv: "alloc_inv s Q" and t: "t < length (sync s)" and sz: "0 < unat sz"
    and fit: "unat (g_memend (shared s)) + unat sz + 4096 \<le> 2 ^ 64"
  shows "alloc_static t sz s = Inr (Malloc sz, s) \<or> alloc_static t sz s = Inl Assert_failed \<or>
    (\<exists>p s' Q'. alloc_static t sz s = Inr (Block p, s') \<and> alloc_inv s' Q' \<and> length (sync s') = length (sync s) \<and>
       (p = 0 \<longrightarrow> pin_cpu (sync s ! t) = Some 0) \<and> unat sz \<le> unat (slow_round_up sz GetHugepageSize) \<and>
       live Q' = Set.insert (p, unat (slow_round_up sz GetHugepageSize)) (live Q))"
proof (cases "pin_cpu (sync s ! t)")
  case None
  then show ?thesis by (simp add: alloc_static_def)
next
  case (Some c)
  note I = alloc_invD [OF inv]
  let ?a = "shared s" and ?r = "slow_round_up sz GetHugepageSize" and ?pc = "g_regions (shared s) ! c"
  have c: "c < ncpus ?a" using I(2) [OF t] Some by (auto simp: sync_ok_def)
  have c': "c < length (g_regions ?a)" and ok: "region_ok ?a c" using I(1) c by (auto simp: regions_ok_def)
  have h: "unat GetHugepageSize = 4096" "GetHugepageSize \<noteq> 0" by (simp_all add: GetHugepageSize_def)
  have me: "0 < unat (g_memend ?a)"
    using region_end_bound(1) [OF I(1) c] ok I(1) by (auto simp: region_ok_def regions_ok_def region_base_def)
  have "unat sz + unat GetHugepageSize < 2 ^ 64" using fit me by (simp only: h)
  note R = unat_iceil [OF h(2) this, folded slow_round_up_iceil, unfolded h]
  have r0: "0 < unat ?r" using R(2) sz by simp
  have n: "unat (?r div GetHugepageSize) * 4096 = unat ?r" using R(1) by (simp add: unat_div h)
  have fit': "unat (g_memend ?a) + unat (?r div GetHugepageSize) * 4096 < 2 ^ 64" using n R(3) fit by simp
  show ?thesis
  proof (cases "unat (region_end ?pc) < rbegin ?a c + unat ?r")
    case True
    then have "AllocateUnmanagedWithLock c (?r div GetHugepageSize) ?a = Inl Assert_failed"
      using AllocateUnmanaged_cases [OF I(1) c fit'] n by simp
    then show ?thesis using Some c' by (simp add: alloc_static_def Let_def AllocateUnmanaged_def)
  next
    case False
    then obtain nb where nb: "unat nb = rbegin ?a c + unat ?r" "unat nb \<le> unat (region_end ?pc)"
        "AllocateUnmanagedWithLock c (?r div GetHugepageSize) ?a =
           Inr (region_begin ?pc, set_region c (?pc\<lparr>region_begin := nb\<rparr>) ?a)"
      using AllocateUnmanaged_cases [OF I(1) c fit'] n by auto
    let ?p = "region_begin ?pc" and ?a' = "set_region c (?pc\<lparr>region_begin := nb\<rparr>) ?a"
    let ?s' = "s\<lparr>shared := ?a'\<rparr>" and ?Q = "own_all {region_begin ?pc} (unat ?r) None Q"
    have st: "alloc_static t sz s = Inr (Block ?p, ?s')"
      using Some c' nb(3) by (simp add: alloc_static_def Let_def AllocateUnmanaged_def)
    have nb': "unat nb = rbegin ?a c + unat (?r div GetHugepageSize) * 4096" using nb(1) n by simp
    have big: "512 < unat ?r" using R(1) r0 by (auto dest: dvd_imp_le)
    have "16 dvd rbegin ?a c" using ok by (auto simp: region_ok_def dest: dvd_trans [of 16 4096, rotated])
    then have fr: "blocks_ok ?a' ?Q" "{?p} \<inter> dom Q = {}"
      using blocks_ok_fresh [OF I(1,3) c nb' nb(2), of "{?p}" "unat ?r" None] nb(1) r0 big by auto
    have "head_of ?s' = head_of s"
    proof
      fix i show "head_of ?s' i = head_of s i" using c' by (cases i) auto
    qed
    moreover have il: "in_list ?Q i = in_list Q i" for i using fr(2) by (auto simp: in_list_def own_all_def)
    ultimately have fl: "free_lists (memory s) (head_of ?s') ?Q (all_owners s)"
      using I(5) by (simp add: free_lists_def)
    have "alloc_inv ?s' ?Q"
    proof (rule alloc_invI [OF inv, where t = t and y = "sync s ! t"])
      show "regions_ok (shared ?s')" using regions_ok_bump [OF I(1) c nb' nb(2)] by simp
      show "m = unit_of (arena_of i) \<and> i \<in> all_owners s" if "?Q b = Some (m, Some i)" for b m i
        using that I(4) by (auto simp: own_all_def split: if_splits)
    qed (use fr(1) fl I(2) [OF t] in simp_all)
    moreover have "live ?Q = Set.insert (?p, unat ?r) (live Q)" using fr(2) by (auto simp: live_def own_all_def split: if_splits)
    moreover have "?p = 0 \<longrightarrow> c = 0" using null_region [OF I(1) c] by blast
    ultimately show ?thesis using st R(2) Some
      by (intro disjI2 exI [of _ ?p] exI [of _ ?s'] exI [of _ ?Q]) simp
  qed
qed

text \<open>
  In the port only the region at address 0 can be faulted, before its first page is used; for every other one the assertion
  on the address fails. Faulting writes where there is no block yet.
\<close>

lemma fault_region_cases:
  assumes inv: "alloc_inv s Q" and t: "t < length (sync s)" and f: "fault_region t s = Inr s'"
  shows "alloc_inv s' Q \<and> sync s' = sync s"
proof (cases "s' = s")
  case True
  then show ?thesis using inv by simp
next
  case False
  then obtain c where pin: "pin_cpu (sync s ! t) = Some c"
    using f by (cases "pin_cpu (sync s ! t)") (auto simp: fault_region_def)
  note I = alloc_invD [OF inv]
  let ?a = "shared s" and ?pc = "g_regions (shared s) ! c"
  let ?a' = "set_region c (?pc\<lparr>region_faulted := True\<rparr>) ?a"
  define M' where "M' = (\<lambda>q. if region_begin ?pc \<le> q \<and> q < region_end ?pc \<and> (q - region_begin ?pc) mod CACHELINE_SIZE = 0
                            then (memory s q AND NOT 0xFF) OR 0xDE else memory s q)"
  have c: "c < ncpus ?a" using I(2) [OF t] pin by (simp add: sync_ok_def)
  have c': "c < length (g_regions ?a)" and ok: "region_ok ?a c" using I(1) c by (auto simp: regions_ok_def)
  have z: "region_begin ?pc = 0" and s': "s' = s\<lparr>shared := ?a', memory := M'\<rparr>"
    using f False pin
    by (auto simp: fault_region_def FaultRegion_def FaultRegion_at_def Let_def set_region_def M'_def split: if_splits)
  have keep: "M' b = memory s b" if "Q b = Some (n, w)" for b n w
  proof -
    have "apart 0 (unat (region_end ?pc)) b n"
      by (rule carved_apart [OF I(1) blocks_okD(1) [OF I(3) that] c]) (use z ok in \<open>simp_all add: region_ok_def\<close>)
    moreover have "0 < n" using blocks_okD(1) [OF I(3) that] by (simp add: block_ok_def)
    ultimately have "\<not> b < region_end ?pc" by (simp add: apart_def word_less_nat_alt)
    then show ?thesis by (simp add: M'_def)
  qed
  have "head_of s' = head_of s"
  proof
    fix i show "head_of s' i = head_of s i" using c' by (cases i) (auto simp: s')
  qed
  moreover have "free_lists M' (head_of s) Q (all_owners s)"
    by (rule free_lists_frame [OF I(5)]) (use keep in \<open>auto simp: in_list_def\<close>)
  ultimately have fl: "free_lists (memory s') (head_of s') Q (all_owners s)" by (simp add: s')
  have "region_ok ?a' d" if "d < ncpus ?a" for d using I(1) that c' by (auto simp: regions_ok_def region_ok_def)
  then have r: "regions_ok (shared s')" using I(1) by (simp add: regions_ok_def s')
  have b: "blocks_ok (shared s') Q" by (rule blocks_ok_mono [OF I(3)]) (use c' in \<open>auto simp: s'\<close>)
  have "alloc_inv s' Q"
    by (rule alloc_invI [OF inv r, where t = t and y = "sync s ! t"]) (use b fl I(2) [OF t] I(4) in \<open>auto simp: s'\<close>)
  then show ?thesis by (simp add: s')
qed

section \<open>Runs of the allocator\<close>

text \<open>
  The calls of the threads in any order, and writes of their owners into the blocks in use. \<open>L\<close> lists these with
  their sizes; a block goes back with a size of its own arena.
\<close>

inductive alloc_step :: "alloc_sys \<times> (u64 \<times> nat) set \<Rightarrow> alloc_sys \<times> (u64 \<times> nat) set \<Rightarrow> bool" where
  Alloc: "t < length (sync s) \<Longrightarrow> alloc t sz s = Inr (Block p, s') \<Longrightarrow>
     alloc_step (s, L) (s', Set.insert (p, unit_of (unat (snd (ArenaSize sz)))) L)"
| Alloc_malloc: "t < length (sync s) \<Longrightarrow> alloc t sz s = Inr (Malloc n, s') \<Longrightarrow> alloc_step (s, L) (s', L)"
| Static: "t < length (sync s) \<Longrightarrow> 0 < unat sz \<Longrightarrow> unat (g_memend (shared s)) + unat sz + 4096 \<le> 2 ^ 64 \<Longrightarrow>
     alloc_static t sz s = Inr (Block p, s') \<Longrightarrow>
     alloc_step (s, L) (s', Set.insert (p, unat (slow_round_up sz GetHugepageSize)) L)"
| Dealloc: "t < length (sync s) \<Longrightarrow> (p, n) \<in> L \<Longrightarrow> snd (ArenaSize sz) < of_nat MAX_ARENAS \<Longrightarrow>
     unit_of (unat (snd (ArenaSize sz))) = n \<Longrightarrow> dealloc t p sz s = Inr s' \<Longrightarrow> alloc_step (s, L) (s', L - {(p, n)})"
| Release: "t < length (sync s) \<Longrightarrow> try_release t s = Inr (b, s') \<Longrightarrow> alloc_step (s, L) (s', L)"
| Fault: "t < length (sync s) \<Longrightarrow> fault_region t s = Inr s' \<Longrightarrow> alloc_step (s, L) (s', L)"
| Write: "(\<And>q. M q \<noteq> memory s q \<Longrightarrow> \<exists>(p, n) \<in> L. unat p \<le> unat q \<and> unat q < unat p + n) \<Longrightarrow>
     alloc_step (s, L) (s\<lparr>memory := M\<rparr>, L)"

lemma write_inv:
  assumes inv: "alloc_inv s Q"
    and M: "\<And>q. M q \<noteq> memory s q \<Longrightarrow> \<exists>(p, n) \<in> live Q. unat p \<le> unat q \<and> unat q < unat p + n"
  shows "alloc_inv (s\<lparr>memory := M\<rparr>) Q"
proof -
  note I = alloc_invD [OF inv]
  have "M b = memory s b" if b: "b \<in> in_list Q i" for i b
  proof (rule ccontr)
    assume "M b \<noteq> memory s b"
    then obtain p n where pn: "Q p = Some (n, None)" "unat p \<le> unat b" "unat b < unat p + n"
      using M by (fastforce simp: live_def)
    have Qb: "Q b = Some (unit_of (arena_of i), Some i)" using b by (simp add: in_list_def)
    then have "b \<noteq> p" using pn(1) by auto
    then have "apart b (unit_of (arena_of i)) p n" by (rule blocks_okD(3) [OF I(3) _ Qb pn(1)])
    then show False using pn(2,3) by (simp add: apart_def unit_of_def)
  qed
  then have "free_lists M (head_of s) Q (all_owners s)" by (intro free_lists_frame [OF I(5)]) auto
  then show ?thesis using inv by (simp add: alloc_inv_def)
qed

text \<open>The calls leave the threads on their processors.\<close>

abbreviation pins :: "alloc_sys \<Rightarrow> nat option list" where
  "pins s \<equiv> map pin_cpu (sync s)"

lemma set_sync_pins: "pin_cpu y = pin_cpu (sync s ! t) \<Longrightarrow> pins (set_sync t y s) = pins s"
  by (cases "t < length (sync s)") (auto intro!: nth_equalityI simp: set_sync_def nth_list_update)

lemma alloc_step_pins:
  assumes "alloc_step (s, L) (s', L')"
  shows "pins s' = pins s"
proof -
  have e: "pins s1 = pins s" if "ensure_arena t c k s = Inr s1" for t c k s1
    using that by (auto simp: ensure_arena_def Let_def sbind_Inr set_sync_pins split: if_splits)
  have a: "pins s1 = pins s" if "alloc t sz s = Inr (r, s1)" for t sz r s1
    using that e by (fastforce simp: alloc_def Let_def sbind_Inr set_sync_pins split: option.splits if_splits)
  show ?thesis using assms
  proof (cases rule: alloc_step.cases)
    case (Static t sz p)
    then show ?thesis by (auto simp: alloc_static_def Let_def sbind_Inr split: option.splits)
  next
    case (Dealloc t p n sz)
    then show ?thesis by (auto simp: dealloc_def Let_def set_sync_pins split: if_splits)
  next
    case (Release t b)
    then show ?thesis by (auto simp: try_release_def do_release_def Let_def sbind_Inr set_sync_pins split: if_splits)
  next
    case (Fault t)
    then show ?thesis by (auto simp: fault_region_def sbind_Inr split: option.splits)
  qed (use a in auto)
qed

text \<open>The null pointer is in use only when some thread runs on processor 0.\<close>

definition safe :: "alloc_sys \<times> (u64 \<times> nat) set \<Rightarrow> bool" where
  "safe = (\<lambda>(s, L). (\<exists>Q. alloc_inv s Q \<and> live Q = L) \<and> (\<forall>n. (0, n) \<in> L \<longrightarrow> Some 0 \<in> set (pins s)))"

lemma alloc_step_safe:
  assumes "alloc_step (s, L) (s', L')" and "safe (s, L)"
  shows "safe (s', L')"
proof -
  obtain Q where inv: "alloc_inv s Q" and L: "live Q = L" and null: "\<forall>n. (0, n) \<in> L \<longrightarrow> Some 0 \<in> set (pins s)"
    using assms(2) by (auto simp: safe_def)
  have pin: "Some 0 \<in> set (pins s)" if "t < length (sync s)" "pin_cpu (sync s ! t) = Some 0" for t
    using that nth_mem [of t "pins s"] by simp
  have "(\<exists>Q'. alloc_inv s' Q' \<and> live Q' = L') \<and> (\<forall>n. (0, n) \<in> L' \<longrightarrow> Some 0 \<in> set (pins s))" using assms(1)
  proof (cases rule: alloc_step.cases)
    case (Alloc t sz p)
    then show ?thesis using alloc_cases [OF inv Alloc(2), of sz] L null pin [OF Alloc(2)] by (auto simp: Let_def)
  next
    case (Alloc_malloc t sz n)
    then show ?thesis using alloc_cases [OF inv Alloc_malloc(2), of sz] inv L null by (auto simp: Let_def)
  next
    case (Static t sz p)
    then show ?thesis using alloc_static_cases [OF inv Static(2,3,4)] L null pin [OF Static(2)] by auto
  next
    case (Dealloc t p n sz)
    have "(p, n) \<in> live Q" using Dealloc(3) L by simp
    from dealloc_inv [OF inv Dealloc(2) this Dealloc(4,5)] show ?thesis using Dealloc(1,6) L null by auto
  next
    case (Release t b)
    then show ?thesis using do_release_inv [OF inv Release(2)] inv L null
      by (auto simp: try_release_def Let_def split: if_splits)
  next
    case (Fault t)
    then show ?thesis using fault_region_cases [OF inv Fault(2,3)] L null by auto
  next
    case (Write M)
    then show ?thesis using write_inv [OF inv, of M] L null by auto
  qed
  then show ?thesis unfolding safe_def prod.case alloc_step_pins [OF assms(1)] .
qed

lemma alloc_run_safe: "alloc_step\<^sup>*\<^sup>* x y \<Longrightarrow> safe x \<Longrightarrow> safe y"
proof (induction rule: rtranclp_induct)
  case (step y z)
  then show ?case using alloc_step_safe by (metis surj_pair)
qed

section \<open>Initialization\<close>

lemma init_regions_ok:
  assumes "init_regions x e js a = Inr a'" and "distinct js"
  shows "\<exists>rs. a' = a\<lparr>g_regions := rs\<rparr> \<and> length rs = length (g_regions a) \<and> (\<forall>i \<in> set js. i < length rs \<and>
    rs ! i = (g_regions a ! i)\<lparr>region_begin := g_memstart a + of_nat i * g_maxpercore a,
                              region_end := g_memstart a + (of_nat i + 1) * g_maxpercore a\<rparr> \<and>
    g_memstart a + of_nat i * g_maxpercore a < g_memstart a + (of_nat i + 1) * g_maxpercore a) \<and>
    (\<forall>i. i \<notin> set js \<longrightarrow> rs ! i = g_regions a ! i)"
  using assms
proof (induction js arbitrary: a)
  case Nil
  then show ?case by (intro exI [of _ "g_regions a"]) simp
next
  case (Cons i js)
  let ?b = "g_memstart a + of_nat i * g_maxpercore a" and ?e = "g_memstart a + (of_nat i + 1) * g_maxpercore a"
  let ?a1 = "a\<lparr>g_regions := (g_regions a)[i := (g_regions a ! i)\<lparr>region_begin := ?b, region_end := ?e\<rparr>]\<rparr>"
  have s: "init_regions x e js ?a1 = Inr a'" and i: "i < length (g_regions a)" "?b < ?e"
    using Cons.prems(1) by (auto simp: Let_def split: if_splits)
  have "distinct js" "i \<notin> set js" using Cons.prems(2) by auto
  obtain rs where rs: "a' = ?a1\<lparr>g_regions := rs\<rparr>" "length rs = length (g_regions a)"
      "\<forall>j \<in> set js. j < length rs \<and> rs ! j = (g_regions ?a1 ! j)\<lparr>region_begin := g_memstart a + of_nat j * g_maxpercore a,
                              region_end := g_memstart a + (of_nat j + 1) * g_maxpercore a\<rparr> \<and>
         g_memstart a + of_nat j * g_maxpercore a < g_memstart a + (of_nat j + 1) * g_maxpercore a"
      "\<forall>j. j \<notin> set js \<longrightarrow> rs ! j = g_regions ?a1 ! j"
    using Cons.IH [OF s \<open>distinct js\<close>] by auto
  show ?case
  proof (intro exI [of _ rs] conjI)
    show "a' = a\<lparr>g_regions := rs\<rparr>" using rs(1) by simp
    show "length rs = length (g_regions a)" by (rule rs(2))
  qed (use rs(2-4) i \<open>i \<notin> set js\<close> in \<open>auto simp: nth_list_update\<close>)
qed

text \<open>The mapping lies within the address space, with room for one more page.\<close>

definition mapping_fits :: "u64 \<Rightarrow> u64 \<Rightarrow> u64 \<Rightarrow> bool" where
  "mapping_fits x n maxpercore \<longleftrightarrow> unat maxpercore + 4096 < 2 ^ 64 \<and>
     unat x + unat n * unat (slow_round_up maxpercore GetHugepageSize) + 8192 < 2 ^ 64"

lemma unat_affine:
  fixes a b c :: u64
  assumes "unat a + n * unat c < 2 ^ 64"
  shows "unat (a + of_nat n * c) = unat a + n * unat c"
proof -
  have "unat (a + of_nat n * c) = unat (of_nat (unat a + n * unat c) :: u64)"
    by (simp add: ac_simps)
  also have "\<dots> = unat a + n * unat c" by (rule unat_of_nat_small) (use assms in simp)
  finally show ?thesis .
qed

lemma Initialize_ok:
  assumes init: "Initialize_at x n maxpercore (allocator_new ncores) = Inr a" and fit: "mapping_fits x n maxpercore" and n0: "0 < unat n"
  shows "regions_ok a" and "g_ncpus a = n" and "g_memstart a = iceil x GetHugepageSize" and "c < unat n \<Longrightarrow> rarenas (g_regions a ! c) = replicate MAX_ARENAS 0"
    and "c < unat n \<Longrightarrow> rbegin a c = region_base a c"
proof -
  let ?h = GetHugepageSize
  define mx where "mx = slow_round_up maxpercore ?h"
  define ms where "ms = iceil x ?h"
  define a0 where "a0 = (allocator_new ncores)\<lparr>g_memstart := ms, g_memend := ms + n * mx, g_ncpus := n, g_maxpercore := mx\<rparr>"
  have h: "unat ?h = 4096" "?h \<noteq> 0" by (simp_all add: GetHugepageSize_def)
  have fits: "unat maxpercore + unat ?h < 2 ^ 64" "unat x + unat ?h < 2 ^ 64" "unat x + unat n * unat mx + 8192 < 2 ^ 64"
    using fit h by (simp_all add: mapping_fits_def mx_def)
  note X = unat_iceil [OF h(2) fits(2), folded ms_def, unfolded h]
  note P = unat_iceil [OF h(2) fits(1), folded slow_round_up_iceil, folded mx_def, unfolded h]
  obtain a1 where a1: "init_regions x (x + n * mx + ?h) [0..<unat n] a0 = Inr a1" "a = a1\<lparr>s_init := True\<rparr>"
    using init unfolding Initialize_at_def by (auto simp: allocator_new_def Let_def mx_def ms_def a0_def sbind_Inr split: if_splits)
  have g0: "g_memstart a0 = ms" "g_maxpercore a0 = mx" "g_regions a0 = replicate ncores regionctx_new"
    by (simp_all add: a0_def allocator_new_def)
  have I: "length rs = ncores \<Longrightarrow> i < length rs \<Longrightarrow> g_regions a0 ! i = regionctx_new" for i and rs :: "regionctx list" using g0 by simp
  obtain rs where rs: "a1 = a0\<lparr>g_regions := rs\<rparr>" "length rs = ncores"
      "\<forall>i < unat n. i < ncores \<and> rs ! i = regionctx_new\<lparr>region_begin := ms + of_nat i * mx, region_end := ms + (of_nat i + 1) * mx\<rparr> \<and>
         ms + of_nat i * mx < ms + (of_nat i + 1) * mx"
    using init_regions_ok [OF a1(1)] unfolding g0 by auto
  have a: "g_regions a = rs" "g_memstart a = ms" "g_memend a = ms + n * mx" "g_maxpercore a = mx"
    by (simp_all add: a1(2) rs(1) a0_def)
  show nc: "g_ncpus a = n" by (simp add: a1(2) rs(1) a0_def)
  show "g_memstart a = iceil x ?h" unfolding a(2) ms_def ..
  show "rarenas (g_regions a ! c) = replicate MAX_ARENAS 0" if "c < unat n" for c
    using rs(3) that by (simp add: a(1) regionctx_new_def)
  have bnd: "unat ms + i * unat mx < 2 ^ 64" if "i \<le> unat n" for i
  proof -
    have "i * unat mx \<le> unat n * unat mx" using that by (rule mult_le_mono1)
    then show ?thesis using X(3) fits(3) by linarith
  qed
  have aff: "unat (ms + of_nat i * mx) = unat ms + i * unat mx" if "i \<le> unat n" for i
    by (rule unat_affine) (rule bnd [OF that])
  have me: "unat (ms + n * mx) = unat ms + unat n * unat mx" using aff [of "unat n"] by simp
  have mx0: "0 < unat mx"
    using rs(3) [rule_format, of 0] n0 by (cases "mx = 0") (auto simp: unat_gt_0)
  have "region_ok a c \<and> rbegin a c = region_base a c" if c: "c < unat n" for c
  proof -
    have r: "rs ! c = regionctx_new\<lparr>region_begin := ms + of_nat c * mx, region_end := ms + of_nat (Suc c) * mx\<rparr>"
      using rs(3) c by (simp add: add.commute)
    have "4096 dvd unat ms + c * unat mx" using X(1) P(1) by simp
    then show ?thesis
      using aff [of c] aff [of "Suc c"] c by (simp add: region_ok_def r region_base_def a regionctx_new_def)
  qed
  note reg = this
  show "c < unat n \<Longrightarrow> rbegin a c = region_base a c" using reg by blast
  have "\<forall>c < unat n. region_ok a c" using reg by blast
  moreover have "unat n \<le> length (g_regions a)" using rs(2) rs(3) [rule_format, of "unat n - 1"] n0 by (auto simp: a(1))
  moreover have "unat ms + unat n * unat mx + 4096 < 2 ^ 64" using X(3) fits(3) by linarith
  ultimately show "regions_ok a" using X(1) P(1) mx0 me by (simp add: regions_ok_def nc a region_base_def)
qed

lemma init_safe:
  assumes init: "Initialize_at x n maxpercore (allocator_new ncores) = Inr a" "mapping_fits x n maxpercore" "0 < unat n"
    and ys: "\<forall>y \<in> set ys. \<exists>pin. y = sync_arenas_new\<lparr>pin_cpu := pin\<rparr> \<and> (\<forall>c. pin = Some c \<longrightarrow> c < unat n)"
  shows "safe (\<lparr>shared = a, sync = ys, memory = M\<rparr>, {})"
proof -
  let ?s = "\<lparr>shared = a, sync = ys, memory = M\<rparr>"
  note A = Initialize_ok [OF init]
  have "sync_ok a y" if yy: "y \<in> set ys" for y
    using ys yy A(2) by (auto simp: sync_ok_def sync_arenas_new_def)
  moreover have "head_of ?s i = 0" if "i \<in> all_owners ?s" for i
  proof (cases i)
    case (Thread t k)
    then have "t < length ys" "k < MAX_ARENAS" using that by (auto simp: owners_def)
    then have "\<exists>pin. ys ! t = sync_arenas_new\<lparr>pin_cpu := pin\<rparr>" using ys nth_mem by blast
    then show ?thesis using Thread \<open>k < MAX_ARENAS\<close> by (auto simp: sync_arenas_new_def)
  next
    case (Region c k)
    then show ?thesis using that A(2,4) by (auto simp: owners_def)
  qed simp
  ultimately have "alloc_inv ?s Map.empty"
    using A(1) by (simp add: alloc_inv_def blocks_ok_def free_lists_def in_list_def)
  then show ?thesis by (auto simp: safe_def live_def)
qed

text \<open>
  Property C11 (blocks in use never overlap). After the regions are set up, wherever the mapping starts (in the port, at
  address 0), whatever processors the threads are pinned to, whatever calls they make in whatever order, and whatever they
  write into the blocks they hold: every block in use is aligned to its size and inside the managed memory; it is the null
  pointer only if the managed memory starts at address 0 and some thread runs on processor 0. No two blocks
  overlap. A further allocation is a block at least as large as asked for that overlaps none of them or fails because the
  region of the thread's processor is used up, and giving blocks back and releasing the arenas never fail.
\<close>

theorem arena_blocks_disjoint:
  assumes "Initialize_at x n maxpercore (allocator_new ncores) = Inr a" and "mapping_fits x n maxpercore" and "0 < unat n"
    and "\<forall>y \<in> set ys. \<exists>pin. y = sync_arenas_new\<lparr>pin_cpu := pin\<rparr> \<and> (\<forall>c. pin = Some c \<longrightarrow> c < unat n)"
    and "alloc_step\<^sup>*\<^sup>* (\<lparr>shared = a, sync = ys, memory = M\<rparr>, {}) (s, L)"
  shows "(\<forall>(p, m) \<in> L. 16 dvd unat p \<and> (m \<le> 512 \<longrightarrow> m dvd unat p) \<and> ManagesPointer (shared s) p \<and>
            unat p + m \<le> unat (g_memend (shared s)) \<and>
            (p = 0 \<longrightarrow> g_memstart (shared s) = 0 \<and> (\<exists>y \<in> set (sync s). pin_cpu y = Some 0))) \<and>
         (\<forall>(p, m) \<in> L. \<forall>(q, l) \<in> L. (p, m) \<noteq> (q, l) \<longrightarrow> apart p m q l) \<and>
         (\<forall>t < length (sync s). \<forall>sz.
            (case alloc t sz s of
               Inl e \<Rightarrow> \<exists>c. pin_cpu (sync s ! t) = Some c \<and> region_full (shared s) c
             | Inr (Malloc _, _) \<Rightarrow> True
             | Inr (Block p, _) \<Rightarrow> \<exists>m. unat sz \<le> m \<and> m \<le> 512 \<and> (\<forall>(q, l) \<in> L. apart p m q l))) \<and>
         (\<forall>t < length (sync s). (\<exists>b s'. try_release t s = Inr (b, s')) \<and>
            (\<forall>(p, m) \<in> L. \<forall>sz. snd (ArenaSize sz) < of_nat MAX_ARENAS \<and> unit_of (unat (snd (ArenaSize sz))) = m \<longrightarrow>
               (\<exists>s'. dealloc t p sz s = Inr s')))"
proof -
  have "safe (s, L)" by (rule alloc_run_safe [OF assms(5) init_safe [OF assms(1-4)]])
  then obtain Q where inv: "alloc_inv s Q" and L: "live Q = L" and null: "\<And>n. (0, n) \<in> L \<Longrightarrow> \<exists>y \<in> set (sync s). pin_cpu y = Some 0"
    by (force simp: safe_def)
  have "16 dvd unat p \<and> (m \<le> 512 \<longrightarrow> m dvd unat p) \<and> ManagesPointer (shared s) p \<and> unat p + m \<le> unat (g_memend (shared s)) \<and>
      (p = 0 \<longrightarrow> g_memstart (shared s) = 0 \<and> (\<exists>y \<in> set (sync s). pin_cpu y = Some 0))" if "(p, m) \<in> L" for p m
    using live_block [OF inv, of p m] null [of m] that unfolding L by (auto simp: block_ok_def ManagesPointer_def)
  then have 1: "\<forall>(p, m) \<in> L. 16 dvd unat p \<and> (m \<le> 512 \<longrightarrow> m dvd unat p) \<and> ManagesPointer (shared s) p \<and>
            unat p + m \<le> unat (g_memend (shared s)) \<and>
            (p = 0 \<longrightarrow> g_memstart (shared s) = 0 \<and> (\<exists>y \<in> set (sync s). pin_cpu y = Some 0))" by blast
  have 2: "\<forall>(p, m) \<in> L. \<forall>(q, l) \<in> L. (p, m) \<noteq> (q, l) \<longrightarrow> apart p m q l"
    using live_apart [OF inv] unfolding L by blast
  have 3: "case alloc t sz s of Inl e \<Rightarrow> \<exists>c. pin_cpu (sync s ! t) = Some c \<and> region_full (shared s) c
             | Inr (Malloc _, _) \<Rightarrow> True
             | Inr (Block p, _) \<Rightarrow> \<exists>m. unat sz \<le> m \<and> m \<le> 512 \<and> (\<forall>(q, l) \<in> L. apart p m q l)"
    if "t < length (sync s)" for t sz
    using alloc_cases [OF inv that, of sz] unfolding L Let_def by (elim disjE exE conjE) auto
  have 4: "\<exists>b s'. try_release t s = Inr (b, s')" if "t < length (sync s)" for t
    using do_release_inv [OF inv that] by (auto simp: try_release_def Let_def)
  have 5: "\<exists>s'. dealloc t p sz s = Inr s'"
    if "t < length (sync s)" "(p, m) \<in> L" "snd (ArenaSize sz) < of_nat MAX_ARENAS" "unit_of (unat (snd (ArenaSize sz))) = m" for t p m sz
    using dealloc_inv [OF inv that(1) _ that(3,4), of p] that(2) unfolding L by blast
  have 6: "(\<exists>b s'. try_release t s = Inr (b, s')) \<and>
      (\<forall>(p, m) \<in> L. \<forall>sz. snd (ArenaSize sz) < of_nat MAX_ARENAS \<and> unit_of (unat (snd (ArenaSize sz))) = m \<longrightarrow>
         (\<exists>s'. dealloc t p sz s = Inr s'))" if "t < length (sync s)" for t
    using 4 [OF that] 5 [OF that] by blast
  show ?thesis by (intro conjI [OF 1] conjI [OF 2] conjI allI impI 3 6)
qed

text \<open>Two regions, one thread on the second processor: a block of 100 bytes is 112 bytes at address 4144.\<close>

definition example_alloc :: "mem_error + alloc_sys" where
  "example_alloc =
     sbind (Initialize_at 0 2 4096 (allocator_new 2))
       (\<lambda>a. Inr \<lparr>shared = a, sync = [sync_arenas_new\<lparr>pin_cpu := Some 1\<rparr>], memory = (\<lambda>_. 0)\<rparr>)"

theorem arena_blocks_disjoint_witness:
  "\<exists>a s s1. Initialize_at 0 2 4096 (allocator_new 2) = Inr a \<and> example_alloc = Inr s \<and> alloc 0 100 s = Inr (Block 4144, s1) \<and>
     ManagesPointer (shared s1) 4144 \<and> (\<exists>s2. dealloc 0 4144 100 s1 = Inr s2)"
proof -
  have c: "case example_alloc of Inr s \<Rightarrow> (case alloc 0 100 s of Inr (Block p, s1) \<Rightarrow> p = 4144 | _ \<Rightarrow> False) | Inl _ \<Rightarrow> False"
    by code_simp
  obtain a where a: "Initialize_at 0 2 4096 (allocator_new 2) = Inr a"
    using c by (cases "Initialize_at 0 2 4096 (allocator_new 2)") (auto simp: example_alloc_def)
  let ?y = "sync_arenas_new\<lparr>pin_cpu := Some 1\<rparr>"
  let ?s = "\<lparr>shared = a, sync = [?y], memory = (\<lambda>_. 0)\<rparr>"
  have s: "example_alloc = Inr ?s" using a by (simp add: example_alloc_def)
  obtain s1 where s1: "alloc 0 100 ?s = Inr (Block 4144, s1)"
    using c unfolding s by (auto split: sum.splits alloc_ret.splits)
  have k: "unit_of (unat (snd (ArenaSize 100))) = 112" "snd (ArenaSize 100) < of_nat MAX_ARENAS" by code_simp+
  have "slow_round_up 4096 GetHugepageSize = 4096" by code_simp
  then have fit: "mapping_fits 0 2 4096" by (simp add: mapping_fits_def)
  have "alloc_step (?s, {}) (s1, Set.insert (4144, unit_of (unat (snd (ArenaSize 100)))) {})"
    by (rule alloc_step.Alloc [of 0 ?s 100, OF _ s1]) simp
  then have run: "alloc_step\<^sup>*\<^sup>* (?s, {}) (s1, {(4144, 112)})" using k by simp
  have n: "0 < unat (2 :: u64)" by simp
  have y: "\<forall>y \<in> set [?y]. \<exists>pin. y = sync_arenas_new\<lparr>pin_cpu := pin\<rparr> \<and>
      (\<forall>c. pin = Some c \<longrightarrow> c < unat (2 :: u64))" by auto
  have len: "0 < length (sync s1)"
    using s1 by (auto simp: alloc_def ensure_arena_def set_sync_def sbind_Inr Let_def split: if_splits)
  note T = arena_blocks_disjoint [OF a fit n y run]
  have "ManagesPointer (shared s1) 4144" using T [THEN conjunct1] by simp
  moreover have "\<exists>s2. dealloc 0 4144 100 s1 = Inr s2"
    using T [THEN conjunct2, THEN conjunct2, THEN conjunct2] len k by auto
  ultimately show ?thesis using a s s1 by blast
qed

lemma iceil_0: "iceil 0 y = 0"
  by (simp add: iceil_def)

text \<open>
  Property C40 (the regions of the port start at the null pointer). Let the port's \<^verbatim>\<open>Initialize\<close> have set up regions of any
  number and size, and let the threads be new. The first allocation of a thread on processor 0 whose size has an arena returns
  the null pointer as its block; giving that block back empties the arena, although the rest of the page was free. A thread
  that is not pinned allocates with \<^verbatim>\<open>malloc\<close>, but every address below the end of the regions counts as managed: giving back a
  block from \<^verbatim>\<open>malloc\<close> with such an address puts it into an arena, or fails the assertion on the arena when the size has none.
\<close>

theorem port_regions_at_null:
  assumes "Initialize n maxpercore (allocator_new ncores) = Inr a" and "mapping_fits 0 n maxpercore" and "0 < unat n"
    and "\<forall>y \<in> set ys. \<exists>pin. y = sync_arenas_new\<lparr>pin_cpu := pin\<rparr> \<and> (\<forall>c. pin = Some c \<longrightarrow> c < unat n)" and "t < length ys"
    and "s = \<lparr>shared = a, sync = ys, memory = M\<rparr>" and "k = unat (snd (ArenaSize sz))"
  shows "(pin_cpu (ys ! t) = Some 0 \<and> k < MAX_ARENAS \<longrightarrow>
       (\<exists>s1 s2. alloc t sz s = Inr (Block 0, s1) \<and> arenas (sync s1 ! t) ! k \<noteq> 0 \<and>
          dealloc t 0 sz s1 = Inr s2 \<and> arenas (sync s2 ! t) ! k = 0)) \<and>
    (pin_cpu (ys ! t) = None \<longrightarrow> alloc t sz s = Inr (Malloc sz, s)) \<and>
    (\<forall>p < g_memend a.
       if k < MAX_ARENAS then \<exists>s1. dealloc t p sz s = Inr s1 \<and> arenas (sync s1 ! t) ! k = p
       else dealloc t p sz s = Inl Assert_failed)"
proof -
  note A = Initialize_ok [OF assms(1) [unfolded Initialize_def] assms(2,3)]
  have safe: "safe (s, {})" unfolding assms(6) by (rule init_safe [OF assms(1) [unfolded Initialize_def] assms(2-4)])
  then obtain Q where inv: "alloc_inv s Q" by (auto simp: safe_def)
  have t: "t < length (sync s)" and sh: "shared s = a" "sync s ! t = ys ! t" using assms(5,6) by simp_all
  have ms: "g_memstart a = 0" using A(3) by (simp add: iceil_0)
  have la: "length (arenas (ys ! t)) = MAX_ARENAS" using alloc_invD(2) [OF inv t] sh by (simp add: sync_ok_def)
  have ar: "snd (ArenaSize sz) < of_nat MAX_ARENAS \<longleftrightarrow> k < MAX_ARENAS"
    unfolding assms(7) by (simp add: word_less_nat_alt MAX_ARENAS_def)
  have give: "if k < MAX_ARENAS then \<exists>s1. dealloc t p sz s = Inr s1 \<and> arenas (sync s1 ! t) ! k = p
      else dealloc t p sz s = Inl Assert_failed" if "p < g_memend a" for p
  proof -
    have "ManagesPointer (shared s) p" using that ms sh(1) by (simp add: ManagesPointer_def)
    then show ?thesis using ar t la sh(2) assms(7) by (auto simp: dealloc_def Let_def set_sync_def)
  qed
  have "\<exists>s1 s2. alloc t sz s = Inr (Block 0, s1) \<and> arenas (sync s1 ! t) ! k \<noteq> 0 \<and>
      dealloc t 0 sz s1 = Inr s2 \<and> arenas (sync s2 ! t) ! k = 0" if pin: "pin_cpu (ys ! t) = Some 0" and k: "k < MAX_ARENAS"
  proof -
    have y: "arenas (ys ! t) ! k = 0" using assms(4) nth_mem [OF assms(5)] k by (force simp: sync_arenas_new_def)
    have ok: "region_ok a 0" using A(1,2) assms(3) by (simp add: regions_ok_def)
    have b: "rbegin a 0 = 0" using A(5) [of 0] assms(3) ms by (simp add: region_base_def)
    then have "null_page s t 0 k" using y A(4) [of 0] assms(3) k by (simp add: null_page_def sh unat_eq_zero)
    moreover have "unat (region_end (g_regions a ! 0)) = unat (g_maxpercore a)" using ok ms by (simp add: region_ok_def region_base_def)
    then have "\<not> region_full (shared s) 0" using A(1) b dvd_imp_le [of 4096 "unat (g_maxpercore a)"]
      by (simp add: region_full_def sh(1) regions_ok_def)
    moreover have "0 < ncpus (shared s)" using A(2) assms(3) by (simp add: sh(1))
    ultimately obtain s0 Q' where s0: "ensure_arena t 0 k s = Inr s0" "arenas (sync s0 ! t) ! k = 0" "memory s0 0 \<noteq> 0"
        "length (sync s0) = length (sync s)"
        "alloc_inv (set_sync t ((sync s0 ! t)\<lparr>arenas := (arenas (sync s0 ! t))[k := memory s0 0]\<rparr>) s0) Q'"
        "live Q' = Set.insert (0, unit_of k) (live Q)"
      using null_page_inv [OF inv t _ k, of 0] by blast
    let ?s1 = "set_sync t ((sync s0 ! t)\<lparr>arenas := (arenas (sync s0 ! t))[k := memory s0 0]\<rparr>) s0"
    have al: "alloc t sz s = Inr (Block 0, ?s1)"
      using pin sh(2) ar k s0(1,2) assms(7) by (simp add: alloc_def Let_def not_le)
    have t1: "t < length (sync ?s1)" using t s0(4) by (simp add: set_sync_def)
    have l1: "length (arenas (sync ?s1 ! t)) = MAX_ARENAS" using alloc_invD(2) [OF s0(5) t1] by (simp add: sync_ok_def)
    have "ManagesPointer (shared ?s1) 0" using live_block(2) [OF s0(5), of 0 "unit_of k"] s0(6) by simp
    then have "\<exists>s2. dealloc t 0 sz ?s1 = Inr s2 \<and> arenas (sync s2 ! t) ! k = 0"
      using ar k t1 l1 assms(7) by (simp add: dealloc_def Let_def set_sync_def)
    moreover have "arenas (sync ?s1 ! t) ! k \<noteq> 0" using s0(3) k t1 l1 by (simp add: set_sync_def)
    ultimately show ?thesis using al by blast
  qed
  then show ?thesis using give sh(2) by (auto simp: alloc_def)
qed

theorem port_regions_at_null_witness:
  "\<exists>a s1. Initialize 1 4096 (allocator_new 1) = Inr a \<and>
     alloc 0 100 \<lparr>shared = a, sync = [sync_arenas_new\<lparr>pin_cpu := Some 0\<rparr>], memory = (\<lambda>_. 0)\<rparr> = Inr (Block 0, s1) \<and>
     dealloc 0 1024 600 \<lparr>shared = a, sync = [sync_arenas_new\<lparr>pin_cpu := Some 0\<rparr>], memory = (\<lambda>_. 0)\<rparr> = Inl Assert_failed"
proof -
  have i: "case Initialize 1 4096 (allocator_new 1) of Inr a \<Rightarrow> 1024 < g_memend a | Inl _ \<Rightarrow> False" by code_simp
  then obtain a where a: "Initialize 1 4096 (allocator_new 1) = Inr a" "1024 < g_memend a"
    by (cases "Initialize 1 4096 (allocator_new 1)") auto
  let ?ys = "[sync_arenas_new\<lparr>pin_cpu := Some 0\<rparr>]"
  have "slow_round_up 4096 GetHugepageSize = 4096" by code_simp
  then have fit: "mapping_fits 0 1 4096" by (simp add: mapping_fits_def)
  have n: "0 < unat (1 :: u64)" by simp
  have y: "\<forall>y \<in> set ?ys. \<exists>pin. y = sync_arenas_new\<lparr>pin_cpu := pin\<rparr> \<and> (\<forall>c. pin = Some c \<longrightarrow> c < unat (1 :: u64))"
    by auto
  have t: "0 < length ?ys" by simp
  have k: "unat (snd (ArenaSize 100)) < MAX_ARENAS" "\<not> unat (snd (ArenaSize 600)) < MAX_ARENAS" by code_simp+
  note T = port_regions_at_null [OF a(1) fit n y t refl refl, where M = "\<lambda>_. 0"]
  have "pin_cpu (?ys ! 0) = Some 0" by simp
  then obtain s1 where "alloc 0 100 \<lparr>shared = a, sync = ?ys, memory = (\<lambda>_. 0)\<rparr> = Inr (Block 0, s1)"
    using T [where sz = 100] k(1) by blast
  moreover have "dealloc 0 1024 600 \<lparr>shared = a, sync = ?ys, memory = (\<lambda>_. 0)\<rparr> = Inl Assert_failed"
    using T [where sz = 600] k(2) a(2) by auto
  ultimately show ?thesis using a(1) by blast
qed

end
