(* ===== verification/Btree_Node.thy ===== *)
theory Btree_Node
  imports Small_Map Tuple_Hdr "HOL-Library.Product_Lexorder"
begin

text \<open>
  Keys and nodes of the B+-tree (\<^verbatim>\<open>src/src/varkey.h\<close>, \<^verbatim>\<open>src/src/btree.h\<close>): slices of keys, the version word of a node,
  leaves and internal nodes, and the binary searches in them.
\<close>

section \<open>Keys\<close>

text \<open>\<^verbatim>\<open>slice\<close>: the first eight bytes as a big-endian number, padded with zeros.\<close>

fun be_word :: "nat \<Rightarrow> bytes \<Rightarrow> u64" where
  "be_word 0 bs = 0"
| "be_word (Suc n) [] = 0"
| "be_word (Suc n) (b # bs) = push_bit (8 * n) (ucast b) OR be_word n bs"

definition slice :: "bytes \<Rightarrow> u64" where
  "slice k = be_word 8 k"

definition shift :: "bytes \<Rightarrow> bytes" where
  "shift k = drop 8 k"

definition shift_many :: "nat \<Rightarrow> bytes \<Rightarrow> bytes" where
  "shift_many n k = drop (8 * n) k"

definition kslicelen :: "bytes \<Rightarrow> nat" where
  "kslicelen k = min (length k) 9"

text \<open>\<^verbatim>\<open>memcmp\<close> on the common length, then the lengths.\<close>

fun key_less :: "bytes \<Rightarrow> bytes \<Rightarrow> bool" where
  "key_less _ [] \<longleftrightarrow> False"
| "key_less [] (_ # _) \<longleftrightarrow> True"
| "key_less (a # as) (b # bs) \<longleftrightarrow> a < b \<or> a = b \<and> key_less as bs"

abbreviation key_le :: "bytes \<Rightarrow> bytes \<Rightarrow> bool" where
  "key_le a b \<equiv> \<not> key_less b a"

section \<open>The version word\<close>

definition NKeysPerNode :: nat where
  "NKeysPerNode = 15"

definition NMinKeysPerNode :: nat where
  "NMinKeysPerNode = NKeysPerNode div 2"

definition LowMask :: "nat \<Rightarrow> u64" where
  "LowMask nbits = push_bit nbits 1 - 1"

definition B_TYPE_MASK :: u64 where
  "B_TYPE_MASK = 1"

definition B_KEY_SLOTS_SHIFT :: nat where
  "B_KEY_SLOTS_SHIFT = 1"

definition B_KEY_SLOTS_BITS :: nat where
  "B_KEY_SLOTS_BITS = (case ceil_log2_const NKeysPerNode True of None \<Rightarrow> 0 | Some n \<Rightarrow> n)"

definition B_KEY_SLOTS_MASK :: u64 where
  "B_KEY_SLOTS_MASK = push_bit B_KEY_SLOTS_SHIFT (LowMask B_KEY_SLOTS_BITS)"

definition B_LOCKED_SHIFT :: nat where
  "B_LOCKED_SHIFT = B_KEY_SLOTS_SHIFT + B_KEY_SLOTS_BITS"

definition B_LOCKED_MASK :: u64 where
  "B_LOCKED_MASK = push_bit B_LOCKED_SHIFT (LowMask 1)"

definition B_IS_ROOT_MASK :: u64 where
  "B_IS_ROOT_MASK = push_bit (B_LOCKED_SHIFT + 1) (LowMask 1)"

definition B_MODIFYING_MASK :: u64 where
  "B_MODIFYING_MASK = push_bit (B_LOCKED_SHIFT + 2) (LowMask 1)"

definition B_DELETING_MASK :: u64 where
  "B_DELETING_MASK = push_bit (B_LOCKED_SHIFT + 3) (LowMask 1)"

definition B_VERSION_SHIFT :: nat where
  "B_VERSION_SHIFT = B_LOCKED_SHIFT + 4"

definition B_VERSION_MASK :: u64 where
  "B_VERSION_MASK = push_bit B_VERSION_SHIFT (- 1)"

definition IsLeafNode :: "u64 \<Rightarrow> bool" where
  "IsLeafNode h \<longleftrightarrow> h AND B_TYPE_MASK = 0"

definition KeySlotsUsed :: "u64 \<Rightarrow> nat" where
  "KeySlotsUsed h = unat (drop_bit B_KEY_SLOTS_SHIFT (h AND B_KEY_SLOTS_MASK))"

definition B_IsLocked :: "u64 \<Rightarrow> bool" where
  "B_IsLocked h \<longleftrightarrow> h AND B_LOCKED_MASK \<noteq> 0"

definition B_IsRoot :: "u64 \<Rightarrow> bool" where
  "B_IsRoot h \<longleftrightarrow> h AND B_IS_ROOT_MASK \<noteq> 0"

definition B_IsModifying :: "u64 \<Rightarrow> bool" where
  "B_IsModifying h \<longleftrightarrow> h AND B_MODIFYING_MASK \<noteq> 0"

definition B_IsDeleting :: "u64 \<Rightarrow> bool" where
  "B_IsDeleting h \<longleftrightarrow> h AND B_DELETING_MASK \<noteq> 0"

definition B_Version :: "u64 \<Rightarrow> u64" where
  "B_Version h = drop_bit B_VERSION_SHIFT (h AND B_VERSION_MASK)"

definition SetKeySlotsUsed :: "nat \<Rightarrow> u64 \<Rightarrow> u64" where
  "SetKeySlotsUsed n h = (h AND NOT B_KEY_SLOTS_MASK) OR push_bit B_KEY_SLOTS_SHIFT (of_nat n)"

definition SetRoot :: "u64 \<Rightarrow> u64" where
  "SetRoot h = h OR B_IS_ROOT_MASK"

definition ClearRoot :: "u64 \<Rightarrow> u64" where
  "ClearRoot h = h AND NOT B_IS_ROOT_MASK"

definition MarkModifying :: "u64 \<Rightarrow> u64" where
  "MarkModifying h = h OR B_MODIFYING_MASK"

definition MarkDeleting :: "u64 \<Rightarrow> u64" where
  "MarkDeleting h = h OR B_DELETING_MASK"

text \<open>\<open>None\<close>: the lock is taken, the loop spins.\<close>

definition B_Lock :: "u64 \<Rightarrow> (u64 \<times> u64) option" where
  "B_Lock h = (if B_IsLocked h then None else Some (h, h OR B_LOCKED_MASK))"

definition B_Unlock :: "u64 \<Rightarrow> u64" where
  "B_Unlock h =
     (let h1 = (if h AND B_MODIFYING_MASK \<noteq> 0 \<or> h AND B_DELETING_MASK \<noteq> 0
                then let n = drop_bit B_VERSION_SHIFT (h AND B_VERSION_MASK)
                     in (h AND NOT B_VERSION_MASK) OR (push_bit B_VERSION_SHIFT (n + 1) AND B_VERSION_MASK)
                else h)
      in h1 AND NOT (B_LOCKED_MASK OR B_MODIFYING_MASK))"

definition B_StableVersion :: "u64 \<Rightarrow> u64 option" where
  "B_StableVersion h = (if h AND B_MODIFYING_MASK \<noteq> 0 then None else Some h)"

definition B_CheckVersion :: "u64 \<Rightarrow> u64 \<Rightarrow> bool" where
  "B_CheckVersion t stablev \<longleftrightarrow> t AND NOT B_LOCKED_MASK = stablev AND NOT B_LOCKED_MASK"

text \<open>The version number after an unlock that follows a modification.\<close>

definition bump :: "u64 \<Rightarrow> u64" where
  "bump v = take_bit 55 (v + 1)"

section \<open>Nodes\<close>

text \<open>
  One entry of a leaf: its slice, the length of the key slice (9 for a longer key), the suffix behind the first eight
  bytes, and a value or the root of the layer for the longer keys with this slice. A node has an address and the
  version number of its header word, a leaf also the lower end of its range (\<^verbatim>\<open>min_key_\<close>); the other parts of the
  word follow from the shape of the tree. The sibling pointers of a leaf lead to its neighbours in the order of the
  leaves.
\<close>

datatype ('v, 'n) entry = Entry (eslice: u64) (elen: nat) (esuffix: bytes) (eslot: "'v + 'n")

datatype 'v bnode =
    Leaf nat u64 u64 "('v, 'v bnode) entry list"
  | Internal nat u64 "u64 list" "'v bnode list"

definition is_layer :: "('v, 'n) entry \<Rightarrow> bool" where
  "is_layer e \<longleftrightarrow> (case eslot e of Inl _ \<Rightarrow> False | Inr _ \<Rightarrow> True)"

fun node_id :: "'v bnode \<Rightarrow> nat" where
  "node_id (Leaf i v mk es) = i"
| "node_id (Internal i v ks cs) = i"

fun node_version :: "'v bnode \<Rightarrow> u64" where
  "node_version (Leaf i v mk es) = v"
| "node_version (Internal i v ks cs) = v"

text \<open>The order of leaf entries.\<close>

definition entry_key :: "('v, 'n) entry \<Rightarrow> u64 \<times> nat" where
  "entry_key e = (eslice e, elen e)"

text \<open>\<^verbatim>\<open>leaf_node::key_search\<close>: \<open>lower\<close> and \<open>upper\<close> bound the part still searched.\<close>

function leaf_search :: "('v, 'n) entry list \<Rightarrow> u64 \<Rightarrow> nat \<Rightarrow> nat \<Rightarrow> nat \<Rightarrow> nat option" where
  "leaf_search es k len lower upper =
     (if lower < upper
      then let i = (lower + upper) div 2; k0 = eslice (es ! i); len0 = elen (es ! i)
           in if k0 < k \<or> k0 = k \<and> len0 < len then leaf_search es k len (i + 1) upper
              else if k0 = k \<and> len0 = len then Some i
              else leaf_search es k len lower i
      else None)"
  by pat_completeness auto
termination by (relation "measure (\<lambda>(es, k, len, lower, upper). upper - lower)") auto

declare leaf_search.simps [simp del]

definition leaf_key_search :: "('v, 'n) entry list \<Rightarrow> u64 \<Rightarrow> nat \<Rightarrow> nat option" where
  "leaf_key_search es k len = leaf_search es k len 0 (length es)"

text \<open>\<^verbatim>\<open>leaf_node::key_lower_bound_search\<close>; \<open>None\<close> is \<^verbatim>\<open>-1\<close>.\<close>

function leaf_lower_bound :: "('v, 'n) entry list \<Rightarrow> u64 \<Rightarrow> nat \<Rightarrow> nat option \<Rightarrow> nat \<Rightarrow> nat \<Rightarrow> nat option" where
  "leaf_lower_bound es k len ret lower upper =
     (if lower < upper
      then let i = (lower + upper) div 2; k0 = eslice (es ! i); len0 = elen (es ! i)
           in if k0 < k \<or> k0 = k \<and> len0 < len then leaf_lower_bound es k len (Some i) (i + 1) upper
              else if k0 = k \<and> len0 = len then Some i
              else leaf_lower_bound es k len ret lower i
      else ret)"
  by pat_completeness auto
termination by (relation "measure (\<lambda>(es, k, len, ret, lower, upper). upper - lower)") auto

declare leaf_lower_bound.simps [simp del]

definition leaf_key_lower_bound_search :: "('v, 'n) entry list \<Rightarrow> u64 \<Rightarrow> nat \<Rightarrow> nat option" where
  "leaf_key_lower_bound_search es k len = leaf_lower_bound es k len None 0 (length es)"

text \<open>\<^verbatim>\<open>internal_node::key_search\<close> and \<^verbatim>\<open>internal_node::key_lower_bound_search\<close>.\<close>

function int_search :: "u64 list \<Rightarrow> u64 \<Rightarrow> nat \<Rightarrow> nat \<Rightarrow> nat option" where
  "int_search ks k lower upper =
     (if lower < upper
      then let i = (lower + upper) div 2; k0 = ks ! i
           in if k0 = k then Some i
              else if k0 > k then int_search ks k lower i
              else int_search ks k (i + 1) upper
      else None)"
  by pat_completeness auto
termination by (relation "measure (\<lambda>(ks, k, lower, upper). upper - lower)") auto

function int_lower_bound :: "u64 list \<Rightarrow> u64 \<Rightarrow> nat option \<Rightarrow> nat \<Rightarrow> nat \<Rightarrow> nat option" where
  "int_lower_bound ks k ret lower upper =
     (if lower < upper
      then let i = (lower + upper) div 2; k0 = ks ! i
           in if k0 = k then Some i
              else if k0 > k then int_lower_bound ks k ret lower i
              else int_lower_bound ks k (Some i) (i + 1) upper
      else ret)"
  by pat_completeness auto
termination by (relation "measure (\<lambda>(ks, k, ret, lower, upper). upper - lower)") auto

declare int_search.simps [simp del] int_lower_bound.simps [simp del]

definition key_lower_bound_search :: "u64 list \<Rightarrow> u64 \<Rightarrow> nat option" where
  "key_lower_bound_search ks k = int_lower_bound ks k None 0 (length ks)"

definition child_idx :: "nat option \<Rightarrow> nat" where
  "child_idx ret = (case ret of None \<Rightarrow> 0 | Some r \<Rightarrow> r + 1)"

text \<open>The second part of \<^verbatim>\<open>FindRespLeafLowerBound\<close>: the match and the position behind the smaller entries.\<close>

function find_len :: "('v, 'n) entry list \<Rightarrow> u64 \<Rightarrow> nat \<Rightarrow> nat \<Rightarrow> nat option \<Rightarrow> nat option \<Rightarrow> nat option \<times> nat option" where
  "find_len es kslice klen i idxmatch idxlowerbound =
     (if i < length es
      then if eslice (es ! i) < kslice then find_len es kslice klen (i + 1) idxmatch idxlowerbound
           else if eslice (es ! i) = kslice
           then if elen (es ! i) \<le> klen
                then find_len es kslice klen (i + 1) (if elen (es ! i) = klen then Some i else idxmatch) (Some i)
                else find_len es kslice klen (i + 1) idxmatch idxlowerbound
           else (idxmatch, idxlowerbound)
      else (idxmatch, idxlowerbound))"
  by pat_completeness auto
termination by (relation "measure (\<lambda>(es, kslice, klen, i, m, lb). length es - i)") auto

declare find_len.simps [simp del]

definition FindRespLeafLowerBound :: "('v, 'n) entry list \<Rightarrow> u64 \<Rightarrow> nat \<Rightarrow> nat option \<times> nat option" where
  "FindRespLeafLowerBound es kslice klen =
     (let ret = leaf_key_lower_bound_search es kslice 0
      in find_len es kslice klen (case ret of None \<Rightarrow> 0 | Some r \<Rightarrow> r) None ret)"

section \<open>The searches are correct\<close>

definition entries_sorted :: "('v, 'n) entry list \<Rightarrow> bool" where
  "entries_sorted es \<longleftrightarrow> sorted_wrt (<) (map entry_key es)"

lemma entries_sorted_nth: "entries_sorted es \<Longrightarrow> i < j \<Longrightarrow> j < length es \<Longrightarrow> entry_key (es ! i) < entry_key (es ! j)"
  using sorted_wrt_nth_less [of "(<)" "map entry_key es" i j] by (simp add: entries_sorted_def)

lemma leaf_search_Some:
  "leaf_search es k len lower upper = Some i \<Longrightarrow> lower \<le> i \<and> i < upper \<and> entry_key (es ! i) = (k, len)"
proof (induction es k len lower upper rule: leaf_search.induct)
  case (1 es k len lower upper)
  let ?i = "(lower + upper) div 2"
  have lt: "lower < upper" using "1.prems" by (simp add: leaf_search.simps split: if_splits)
  then have i: "lower \<le> ?i" "?i < upper" by auto
  let ?lt = "eslice (es ! ?i) < k \<or> eslice (es ! ?i) = k \<and> elen (es ! ?i) < len"
  note unf = leaf_search.simps [of es k len lower upper] Let_def
  show ?case
  proof (cases ?lt)
    case True
    then have "leaf_search es k len (?i + 1) upper = Some i" using "1.prems" lt by (simp add: unf)
    then show ?thesis using "1.IH"(1) [OF lt refl refl refl True] i by simp
  next
    case ge: False
    show ?thesis
    proof (cases "eslice (es ! ?i) = k \<and> elen (es ! ?i) = len")
      case True
      then show ?thesis using "1.prems" lt ge i by (simp add: unf entry_key_def)
    next
      case False
      then have "leaf_search es k len lower ?i = Some i" using "1.prems" lt ge by (auto simp: unf split: if_splits)
      then show ?thesis using "1.IH"(2) [OF lt refl refl refl ge False] i by simp
    qed
  qed
qed

lemma leaf_search_None:
  "leaf_search es k len lower upper = None \<Longrightarrow> entries_sorted es \<Longrightarrow> upper \<le> length es \<Longrightarrow> lower \<le> j \<Longrightarrow> j < upper \<Longrightarrow>
   entry_key (es ! j) \<noteq> (k, len)"
proof (induction es k len lower upper rule: leaf_search.induct)
  case (1 es k len lower upper)
  let ?i = "(lower + upper) div 2"
  have lt: "lower < upper" using "1.prems" by simp
  then have i: "?i < upper" by auto
  let ?lt = "eslice (es ! ?i) < k \<or> eslice (es ! ?i) = k \<and> elen (es ! ?i) < len"
  show ?case
  proof (cases ?lt)
    case True
    then have r: "leaf_search es k len (?i + 1) upper = None" using "1.prems"(1) lt by (simp add: leaf_search.simps [of es k len lower upper] Let_def)
    show ?thesis
    proof (cases "j \<le> ?i")
      case le: True
      have "entry_key (es ! j) \<le> entry_key (es ! ?i)"
        using entries_sorted_nth [OF "1.prems"(2), of j ?i] le i "1.prems"(3) by (cases "j = ?i") auto
      then show ?thesis using True by (auto simp: entry_key_def)
    next
      case False
      then show ?thesis using "1.IH"(1) [OF lt refl refl refl True r "1.prems"(2,3)] "1.prems"(5) by simp
    qed
  next
    case False
    then have ne: "\<not> (eslice (es ! ?i) = k \<and> elen (es ! ?i) = len)" and r: "leaf_search es k len lower ?i = None"
      using "1.prems"(1) lt by (auto simp: leaf_search.simps [of es k len lower upper] Let_def split: if_splits)
    show ?thesis
    proof (cases "j < ?i")
      case jl: True
      then show ?thesis using "1.IH"(2) [OF lt refl refl refl False ne r "1.prems"(2)] i "1.prems"(3,4) by simp
    next
      case jg: False
      have "entry_key (es ! ?i) \<le> entry_key (es ! j)"
        using entries_sorted_nth [OF "1.prems"(2), of ?i j] jg "1.prems"(3,5) by (cases "j = ?i") auto
      then show ?thesis using False ne by (auto simp: entry_key_def)
    qed
  qed
qed

lemma leaf_key_search_spec:
  assumes "entries_sorted es"
  shows "leaf_key_search es k len = Some i \<Longrightarrow> i < length es \<and> entry_key (es ! i) = (k, len)"
    and "leaf_key_search es k len = None \<Longrightarrow> e \<in> set es \<Longrightarrow> entry_key e \<noteq> (k, len)"
  using leaf_search_Some [of es k len 0 "length es" i] leaf_search_None [of es k len 0 "length es"] assms
  by (auto simp: leaf_key_search_def in_set_conv_nth)

text \<open>A position that separates the smaller entries from the larger ones.\<close>

definition splits_at :: "nat \<Rightarrow> ('a :: linorder) list \<Rightarrow> 'a \<Rightarrow> bool" where
  "splits_at c xs x \<longleftrightarrow> c \<le> length xs \<and> (\<forall>j < c. xs ! j < x) \<and> (\<forall>j < length xs. c \<le> j \<longrightarrow> x < xs ! j)"

lemma leaf_lower_bound_spec:
  "child_idx ret = lower \<Longrightarrow> lower \<le> upper \<Longrightarrow> upper \<le> length es \<Longrightarrow> entries_sorted es \<Longrightarrow>
   (\<forall>j < lower. entry_key (es ! j) < (k, len)) \<Longrightarrow> (\<forall>j < length es. upper \<le> j \<longrightarrow> (k, len) < entry_key (es ! j)) \<Longrightarrow>
   (\<exists>i < length es. leaf_lower_bound es k len ret lower upper = Some i \<and> entry_key (es ! i) = (k, len)) \<or>
   splits_at (child_idx (leaf_lower_bound es k len ret lower upper)) (map entry_key es) (k, len)"
proof (induction es k len ret lower upper rule: leaf_lower_bound.induct)
  case (1 es k len ret lower upper)
  show ?case
  proof (cases "lower < upper")
    case False
    then have "leaf_lower_bound es k len ret lower upper = ret" by (simp add: leaf_lower_bound.simps)
    then show ?thesis using "1.prems" False by (auto simp: splits_at_def)
  next
    case lt: True
    let ?i = "(lower + upper) div 2"
    have i: "lower \<le> ?i" "?i < upper" "?i < length es" using lt "1.prems"(3) by auto
    let ?lt = "eslice (es ! ?i) < k \<or> eslice (es ! ?i) = k \<and> elen (es ! ?i) < len"
    show ?thesis
    proof (cases ?lt)
      case True
      have key: "entry_key (es ! ?i) < (k, len)" using True by (auto simp: entry_key_def)
      have "\<forall>j < ?i + 1. entry_key (es ! j) < (k, len)"
      proof (intro allI impI)
        fix j assume "j < ?i + 1"
        then show "entry_key (es ! j) < (k, len)"
          using entries_sorted_nth [OF "1.prems"(4), of j ?i] i(3) key by (cases "j = ?i") auto
      qed
      then show ?thesis
        using "1.IH"(1) [OF lt refl refl refl True] "1.prems" lt i True
        by (simp add: leaf_lower_bound.simps [of es k len ret lower upper] Let_def child_idx_def)
    next
      case ge: False
      show ?thesis
      proof (cases "eslice (es ! ?i) = k \<and> elen (es ! ?i) = len")
        case True
        then show ?thesis using lt i(3) by (auto simp: leaf_lower_bound.simps [of es k len ret lower upper] Let_def entry_key_def)
      next
        case False
        have key: "(k, len) < entry_key (es ! ?i)" using ge False by (auto simp: entry_key_def)
        have "\<forall>j < length es. ?i \<le> j \<longrightarrow> (k, len) < entry_key (es ! j)"
        proof (intro allI impI)
          fix j assume "j < length es" "?i \<le> j"
          then show "(k, len) < entry_key (es ! j)"
            using entries_sorted_nth [OF "1.prems"(4), of ?i j] key by (cases "j = ?i") auto
        qed
        moreover have "leaf_lower_bound es k len ret lower upper = leaf_lower_bound es k len ret lower ?i"
          using lt ge False by (auto simp: leaf_lower_bound.simps [of es k len ret lower upper] Let_def)
        ultimately show ?thesis
          using "1.IH"(2) [OF lt refl refl refl ge False] "1.prems" i by simp
      qed
    qed
  qed
qed

lemma int_lower_bound_spec:
  "child_idx ret = lower \<Longrightarrow> lower \<le> upper \<Longrightarrow> upper \<le> length ks \<Longrightarrow> sorted_wrt (<) ks \<Longrightarrow>
   (\<forall>j < lower. ks ! j < k) \<Longrightarrow> (\<forall>j < length ks. upper \<le> j \<longrightarrow> k < ks ! j) \<Longrightarrow>
   c = child_idx (int_lower_bound ks k ret lower upper) \<Longrightarrow>
   c \<le> length ks \<and> (\<forall>j < c. ks ! j \<le> k) \<and> (\<forall>j < length ks. c \<le> j \<longrightarrow> k < ks ! j)"
proof (induction ks k ret lower upper rule: int_lower_bound.induct)
  case (1 ks k ret lower upper)
  note unf = int_lower_bound.simps [of ks k ret lower upper] Let_def
  have srt: "ks ! i < ks ! j" if "i < j" "j < length ks" for i j using sorted_wrt_nth_less [OF "1.prems"(4) that] .
  show ?case
  proof (cases "lower < upper")
    case False
    then have "int_lower_bound ks k ret lower upper = ret" by (simp add: unf)
    then have "c = lower" "upper = lower" using "1.prems" False by simp_all
    then show ?thesis using "1.prems"(3,5,6) by (simp add: less_imp_le)
  next
    case lt: True
    let ?i = "(lower + upper) div 2"
    have i: "lower \<le> ?i" "?i < upper" "?i < length ks" using lt "1.prems"(3) by auto
    consider (eq) "ks ! ?i = k" | (gt) "ks ! ?i \<noteq> k" "ks ! ?i > k" | (less) "ks ! ?i \<noteq> k" "\<not> ks ! ?i > k" by blast
    then show ?thesis
    proof cases
      case eq
      then have c: "c = ?i + 1" using "1.prems"(7) lt by (simp add: unf child_idx_def)
      have "ks ! j \<le> k" if "j < c" for j using srt [of j ?i] eq that c i(3) by (cases "j = ?i") auto
      moreover have "k < ks ! j" if "j < length ks" "c \<le> j" for j using srt [of ?i j] eq that c by simp
      ultimately show ?thesis using c i(3) by simp
    next
      case gt
      have "\<forall>j < length ks. ?i \<le> j \<longrightarrow> k < ks ! j"
      proof (intro allI impI)
        fix j assume "j < length ks" "?i \<le> j"
        then show "k < ks ! j" using srt [of ?i j] gt(2) by (cases "j = ?i") auto
      qed
      moreover have "int_lower_bound ks k ret lower upper = int_lower_bound ks k ret lower ?i" using lt gt by (simp add: unf)
      ultimately show ?thesis using "1.IH"(1) [OF lt refl refl gt] "1.prems" i by simp
    next
      case less
      then have l: "ks ! ?i < k" by auto
      have "\<forall>j < ?i + 1. ks ! j < k"
      proof (intro allI impI)
        fix j assume "j < ?i + 1"
        then show "ks ! j < k" using srt [of j ?i] l i(3) by (cases "j = ?i") auto
      qed
      moreover have "int_lower_bound ks k ret lower upper = int_lower_bound ks k (Some ?i) (?i + 1) upper" using lt less by (simp add: unf)
      ultimately show ?thesis using "1.IH"(2) [OF lt refl refl less] "1.prems" i by (simp add: child_idx_def)
    qed
  qed
qed

lemma key_lower_bound_spec:
  assumes "sorted_wrt (<) ks" and "c = child_idx (key_lower_bound_search ks k)"
  shows "c \<le> length ks" and "j < c \<Longrightarrow> ks ! j \<le> k" and "c \<le> j \<Longrightarrow> j < length ks \<Longrightarrow> k < ks ! j"
  using int_lower_bound_spec [of None 0 "length ks" ks k c] assms by (auto simp: key_lower_bound_search_def child_idx_def)

text \<open>What the loop of \<^verbatim>\<open>FindRespLeafLowerBound\<close> keeps.\<close>

definition len_inv :: "('v, 'n) entry list \<Rightarrow> u64 \<Rightarrow> nat \<Rightarrow> nat \<Rightarrow> nat option \<Rightarrow> nat option \<Rightarrow> bool" where
  "len_inv es ks kl i m lb \<longleftrightarrow> child_idx lb \<le> length es \<and>
     (\<forall>j < length es. (j < i \<and> entry_key (es ! j) \<le> (ks, kl) \<or> eslice (es ! j) < ks) \<longrightarrow> j < child_idx lb) \<and>
     (\<forall>j < child_idx lb. entry_key (es ! j) \<le> (ks, kl)) \<and>
     (case m of None \<Rightarrow> \<forall>j < length es. j < i \<longrightarrow> entry_key (es ! j) \<noteq> (ks, kl)
              | Some j \<Rightarrow> j < length es \<and> entry_key (es ! j) = (ks, kl))"

lemma len_invD:
  assumes "len_inv es ks kl i m lb"
  shows "child_idx lb \<le> length es"
    and "j < length es \<Longrightarrow> j < i \<and> entry_key (es ! j) \<le> (ks, kl) \<or> eslice (es ! j) < ks \<Longrightarrow> j < child_idx lb"
    and "j < child_idx lb \<Longrightarrow> entry_key (es ! j) \<le> (ks, kl)"
    and "m = None \<Longrightarrow> j < length es \<Longrightarrow> j < i \<Longrightarrow> entry_key (es ! j) \<noteq> (ks, kl)"
    and "m = Some j \<Longrightarrow> j < length es \<and> entry_key (es ! j) = (ks, kl)"
  using assms by (auto simp: len_inv_def)

lemma len_inv_step:
  assumes inv: "len_inv es ks kl i m lb" and "i < length es \<Longrightarrow> entry_key (es ! i) \<le> (ks, kl) \<Longrightarrow> i < child_idx lb"
    and ne: "i < length es \<Longrightarrow> entry_key (es ! i) \<noteq> (ks, kl)"
  shows "len_inv es ks kl (i + 1) m lb"
  unfolding len_inv_def
proof (intro conjI allI impI)
  show "j < child_idx lb" if "j < length es" "j < i + 1 \<and> entry_key (es ! j) \<le> (ks, kl) \<or> eslice (es ! j) < ks" for j
    using that len_invD(2) [OF inv that(1)] assms(2) by (cases "j = i") auto
  show "case m of None \<Rightarrow> \<forall>j < length es. j < i + 1 \<longrightarrow> entry_key (es ! j) \<noteq> (ks, kl)
        | Some j \<Rightarrow> j < length es \<and> entry_key (es ! j) = (ks, kl)"
    using len_invD(4,5) [OF inv] ne by (auto simp: less_Suc_eq split: option.splits)
qed (use len_invD [OF inv] in auto)

lemma find_len_inv:
  assumes "find_len es ks kl i m lb = (m', lb')" and "entries_sorted es" and "len_inv es ks kl i m lb"
  shows "len_inv es ks kl (length es) m' lb'"
  using assms
proof (induction es ks kl i m lb rule: find_len.induct)
  case (1 es ks kl i m lb)
  note unf = find_len.simps [of es ks kl i m lb]
  show ?case
  proof (cases "i < length es")
    case False
    then show ?thesis using "1.prems" by (auto simp: unf len_inv_def split: option.splits)
  next
    case i: True
    consider (l) "eslice (es ! i) < ks" | (e) "eslice (es ! i) = ks" "elen (es ! i) \<le> kl"
      | (e') "eslice (es ! i) = ks" "\<not> elen (es ! i) \<le> kl" | (g) "ks < eslice (es ! i)" by (meson linorder_cases)
    then show ?thesis
    proof cases
      case l
      have "len_inv es ks kl (i + 1) m lb"
        using "1.prems"(3) by (rule len_inv_step) (use l i len_invD(2) [OF "1.prems"(3), of i] in \<open>auto simp: entry_key_def\<close>)
      then show ?thesis using "1.IH"(1) [OF i l] "1.prems" l i by (simp add: unf)
    next
      case e
      let ?m = "if elen (es ! i) = kl then Some i else m"
      have key: "entry_key (es ! i) \<le> (ks, kl)" using e by (auto simp: entry_key_def)
      have le: "entry_key (es ! j) \<le> (ks, kl)" if "j \<le> i" for j
        using entries_sorted_nth [OF "1.prems"(2), of j i] that i key by (cases "j = i") auto
      have sl: "j < Suc i" if "j < length es" "eslice (es ! j) < ks" for j
      proof (rule ccontr)
        assume "\<not> j < Suc i"
        then have "entry_key (es ! i) < entry_key (es ! j)" using entries_sorted_nth [OF "1.prems"(2), of i j] that by simp
        then show False using e that(2) by (auto simp: entry_key_def)
      qed
      have "len_inv es ks kl (i + 1) ?m (Some i)"
        unfolding len_inv_def
      proof (intro conjI allI impI)
        show "case ?m of None \<Rightarrow> \<forall>j < length es. j < i + 1 \<longrightarrow> entry_key (es ! j) \<noteq> (ks, kl)
              | Some j \<Rightarrow> j < length es \<and> entry_key (es ! j) = (ks, kl)"
          using len_invD(4,5) [OF "1.prems"(3)] e i by (auto simp: less_Suc_eq entry_key_def split: option.splits)
      qed (use i le sl in \<open>auto simp: child_idx_def less_Suc_eq_le\<close>)
      then show ?thesis using "1.IH"(2) [OF i _ e(1) e(2)] "1.prems" e i by (simp add: unf)
    next
      case e'
      have "len_inv es ks kl (i + 1) m lb"
        using "1.prems"(3) by (rule len_inv_step) (use e' i in \<open>auto simp: entry_key_def\<close>)
      then show ?thesis using "1.IH"(3) [OF i _ e'(1) e'(2)] "1.prems" e' i by (simp add: unf)
    next
      case g
      have big: "(ks, kl) < entry_key (es ! j)" if "i \<le> j" "j < length es" for j
        using entries_sorted_nth [OF "1.prems"(2), of i j] that g by (cases "j = i") (auto simp: entry_key_def)
      have a: "j < i" if "j < length es" "entry_key (es ! j) \<le> (ks, kl)" for j
        using big [of j] that by (meson leD not_le)
      have "len_inv es ks kl (length es) m lb"
        unfolding len_inv_def
      proof (intro conjI allI impI)
        show "j < child_idx lb" if "j < length es" "j < length es \<and> entry_key (es ! j) \<le> (ks, kl) \<or> eslice (es ! j) < ks" for j
          using len_invD(2) [OF "1.prems"(3) that(1)] a that by blast
        show "case m of None \<Rightarrow> \<forall>j < length es. j < length es \<longrightarrow> entry_key (es ! j) \<noteq> (ks, kl)
              | Some j \<Rightarrow> j < length es \<and> entry_key (es ! j) = (ks, kl)"
        proof (cases m)
          case None
          then have "entry_key (es ! j) \<noteq> (ks, kl)" if "j < length es" for j
            using len_invD(4) [OF "1.prems"(3) None that] a [OF that] by (metis order_refl)
          then show ?thesis using None by simp
        qed (use len_invD(5) [OF "1.prems"(3)] in simp)
      qed (use len_invD [OF "1.prems"(3)] in simp_all)
      then show ?thesis using "1.prems"(1) g i less_asym [OF g] by (simp add: unf split: if_splits)
    qed
  qed
qed

lemma FindResp_spec:
  assumes srt: "entries_sorted es" and f: "FindRespLeafLowerBound es ks kl = (m, lb)"
  shows "m = Some i \<Longrightarrow> i < length es \<and> entry_key (es ! i) = (ks, kl)"
    and "m = None \<Longrightarrow> splits_at (child_idx lb) (map entry_key es) (ks, kl)"
proof -
  define ret where "ret = leaf_key_lower_bound_search es ks 0"
  have lb: "(\<exists>r < length es. ret = Some r \<and> entry_key (es ! r) = (ks, 0)) \<or> splits_at (child_idx ret) (map entry_key es) (ks, 0)"
    using leaf_lower_bound_spec [of None 0 "length es" es ks 0] srt by (simp add: ret_def leaf_key_lower_bound_search_def child_idx_def)
  have up: "x \<le> (ks, 0) \<Longrightarrow> x \<le> (ks, kl)" for x :: "u64 \<times> nat" by (cases x) auto
  have sl: "entry_key e < (ks, 0) \<longleftrightarrow> eslice e < ks" for e :: "('a, 'b) entry" by (auto simp: entry_key_def)
  have "len_inv es ks kl (case ret of None \<Rightarrow> 0 | Some r \<Rightarrow> r) None ret"
  proof (cases ret)
    case None
    then have "splits_at 0 (map entry_key es) (ks, 0)" using lb by (simp add: child_idx_def)
    then have "(ks, 0) < entry_key (es ! j)" if "j < length es" for j using that by (simp add: splits_at_def)
    then have "\<not> eslice (es ! j) < ks" if "j < length es" for j using that sl by (metis less_asym)
    then show ?thesis using None by (simp add: len_inv_def child_idx_def)
  next
    case (Some r)
    have r: "r < length es" and k: "entry_key (es ! r) \<le> (ks, 0)"
      using lb Some by (auto simp: splits_at_def child_idx_def intro: less_imp_le)
    have gt: "(ks, 0) < entry_key (es ! j)" if "j < length es" "r < j" for j
      using lb Some that entries_sorted_nth [OF srt that(2,1)] by (auto simp: splits_at_def child_idx_def)
    have lt: "entry_key (es ! j) < (ks, 0)" if "j < r" for j
      using entries_sorted_nth [OF srt that r] k by simp
    have "j \<le> r" if "j < length es" "eslice (es ! j) < ks" for j
      using gt [OF that(1)] that(2) sl [of "es ! j"] by (meson less_asym not_le)
    moreover have "entry_key (es ! j) \<le> (ks, kl)" if "j \<le> r" for j
      using lt [of j] k that up by (cases "j = r") (auto intro: less_imp_le)
    moreover have "entry_key (es ! j) \<noteq> (ks, kl)" if "j < r" for j using lt [OF that] by auto
    ultimately show ?thesis using Some r by (auto simp: len_inv_def child_idx_def less_Suc_eq_le)
  qed
  moreover have "find_len es ks kl (case ret of None \<Rightarrow> 0 | Some r \<Rightarrow> r) None ret = (m, lb)"
    using f by (simp add: FindRespLeafLowerBound_def Let_def ret_def)
  ultimately have inv: "len_inv es ks kl (length es) m lb" using find_len_inv srt by blast
  show "i < length es \<and> entry_key (es ! i) = (ks, kl)" if "m = Some i" using inv that by (simp add: len_inv_def)
  show "splits_at (child_idx lb) (map entry_key es) (ks, kl)" if m: "m = None"
  proof -
    have ne: "entry_key (es ! j) \<noteq> (ks, kl)" if "j < length es" for j using inv m that by (simp add: len_inv_def)
    have c: "child_idx lb \<le> length es" using inv by (simp add: len_inv_def)
    have "entry_key (es ! j) < (ks, kl)" if "j < child_idx lb" for j
      using len_invD(3) [OF inv that] ne [of j] c that by simp
    moreover have "(ks, kl) < entry_key (es ! j)" if "j < length es" "child_idx lb \<le> j" for j
      using len_invD(2) [OF inv that(1)] that ne [of j] by (meson leD not_le_imp_less)
    ultimately show ?thesis using c by (simp add: splits_at_def)
  qed
qed

section \<open>The version word is correct\<close>

lemma header_layout:
  "B_KEY_SLOTS_MASK = 0x1E" "B_LOCKED_MASK = 0x20" "B_IS_ROOT_MASK = 0x40" "B_MODIFYING_MASK = 0x80"
  "B_DELETING_MASK = 0x100" "B_VERSION_SHIFT = 9" "B_VERSION_MASK = 0xFFFFFFFFFFFFFE00"
  by code_simp+

lemma B_Version_drop: "B_Version h = drop_bit 9 h"
proof -
  have "drop_bit 9 (0xFFFFFFFFFFFFFE00 :: u64) = mask 55" by code_simp
  then have "B_Version h = drop_bit 9 h AND mask 55" by (simp add: B_Version_def header_layout drop_bit_and)
  also have "\<dots> = drop_bit 9 h" by (rule bit_eqI) (auto simp: bit_simps dest: bit_imp_le_length)
  finally show ?thesis .
qed

lemma unlock_bumps:
  "B_Version (B_Unlock (MarkModifying h)) = bump (B_Version h)"
proof -
  have m: "drop_bit 9 (NOT (0xA0 :: u64)) = mask 55" "drop_bit 9 (0xFFFFFFFFFFFFFE00 :: u64) = mask 55"
    "drop_bit 9 (NOT (0xFFFFFFFFFFFFFE00 :: u64)) = 0" "drop_bit 9 (0x80 :: u64) = 0" "(0x20 :: u64) OR 0x80 = 0xA0"
    by code_simp+
  have pb: "drop_bit 9 (push_bit 9 x) = x AND mask 55" for x :: u64 by (rule bit_eqI) (auto simp: bit_simps)
  have "bit ((h OR 0x80) AND (0x80 :: u64)) 7"
    using bit_numeral_word_iff by (simp add: bit_simps)
  then have "(h OR 0x80) AND 0x80 \<noteq> (0 :: u64)" by (metis bit_0_eq bot_apply bot_bool_def)
  then have "B_Unlock (MarkModifying h) =
      (((h OR 0x80) AND NOT 0xFFFFFFFFFFFFFE00) OR (push_bit 9 (B_Version (h OR 0x80) + 1) AND 0xFFFFFFFFFFFFFE00)) AND NOT 0xA0"
    by (simp add: B_Unlock_def MarkModifying_def B_Version_def header_layout m Let_def)
  then show ?thesis by (simp only: B_Version_drop drop_bit_and drop_bit_or m pb bump_def take_bit_eq_mask and_zero_eq or.right_neutral or.left_neutral and.assoc and.idem and.right_idem)
qed

lemma bump_ne [simp]: "bump v \<noteq> v"
proof -
  have "even (bump v) \<longleftrightarrow> even (v + 1)" by (simp add: bump_def even_take_bit_eq)
  then show ?thesis by (metis even_plus_one_iff)
qed

lemma unlock_clears: "\<not> B_IsLocked (B_Unlock h)" "\<not> B_IsModifying (B_Unlock h)"
proof -
  have c: "(x AND NOT (B_LOCKED_MASK OR B_MODIFYING_MASK)) AND B_LOCKED_MASK = 0"
    "(x AND NOT (B_LOCKED_MASK OR B_MODIFYING_MASK)) AND B_MODIFYING_MASK = 0" for x
    by (rule bit_eqI, auto simp: bit_simps)+
  show "\<not> B_IsLocked (B_Unlock h)" "\<not> B_IsModifying (B_Unlock h)"
    by (simp_all only: B_IsLocked_def B_IsModifying_def B_Unlock_def Let_def c not_not)
qed

lemma B_Version_unlocked: "B_Version (h AND NOT B_LOCKED_MASK) = B_Version h"
proof -
  have m: "drop_bit 9 (NOT (0x20 :: u64)) = mask 55" by code_simp
  have "B_Version (h AND NOT B_LOCKED_MASK) = drop_bit 9 h AND mask 55" by (simp only: B_Version_drop header_layout drop_bit_and m)
  also have "\<dots> = drop_bit 9 h" by (rule bit_eqI) (auto simp: bit_simps dest: bit_imp_le_length)
  finally show ?thesis by (simp add: B_Version_drop)
qed

text \<open>
  Property C22 (safety). A reader that took a stable version of a node before a writer locked, modified and unlocked it is
  refused afterwards, and the writer leaves the node neither locked nor marked.
\<close>

theorem modified_node_detected:
  assumes "B_StableVersion h = Some s" and "B_Lock h = Some (h0, h1)"
  shows "\<not> B_CheckVersion s (B_Unlock (MarkModifying h1)) \<and> \<not> B_IsLocked (B_Unlock (MarkModifying h1)) \<and>
    \<not> B_IsModifying (B_Unlock (MarkModifying h1))"
proof (intro conjI)
  have s: "s = h" "h1 = h OR B_LOCKED_MASK" using assms by (auto simp: B_StableVersion_def B_Lock_def split: if_splits)
  have "B_Version h1 = B_Version h"
  proof -
    have "h1 AND NOT B_LOCKED_MASK = h AND NOT B_LOCKED_MASK" unfolding s by (rule bit_eqI) (auto simp: bit_simps)
    then show ?thesis by (metis B_Version_unlocked)
  qed
  then have "B_Version (B_Unlock (MarkModifying h1)) \<noteq> B_Version s" by (simp add: unlock_bumps s)
  then show "\<not> B_CheckVersion s (B_Unlock (MarkModifying h1))" unfolding B_CheckVersion_def by (metis B_Version_unlocked)
qed (simp_all add: unlock_clears)

theorem modified_node_detected_witness:
  "B_StableVersion 0x1206 = Some 0x1206 \<and> B_Lock 0x1206 = Some (0x1206, 0x1226) \<and>
   \<not> B_CheckVersion 0x1206 (B_Unlock (MarkModifying 0x1226))"
proof -
  have "B_StableVersion 0x1206 = Some 0x1206" "B_Lock 0x1206 = Some (0x1206, 0x1226)" by code_simp+
  then show ?thesis using modified_node_detected by blast
qed

end
