(* ===== verification/Btree.thy ===== *)
theory Btree
  imports Btree_Node
begin

text \<open>
  The tree (\<^verbatim>\<open>src/src/btree.h\<close>, \<^verbatim>\<open>src/src/btree_impl.h\<close>): the way down to a leaf, \<^verbatim>\<open>search_impl\<close> through the layers, the
  invariant that \<^verbatim>\<open>invariant_checker\<close> asserts, and the map from keys to values that a tree stands for. One operation
  runs at a time: a node is neither locked nor marked while another operation looks at it, and the version checks of
  the code succeed.
\<close>

section \<open>Search\<close>

text \<open>
  \<open>Bad_child\<close>: a child index outside the node, or an internal node where the code casts to a leaf. \<open>Retry_forever\<close>: the
  code goes back to a state it was in before. \<open>Leaf_moved\<close>: the leaf that the descent of an update reached is not the
  leaf responsible for the key. \<open>Broken\<close>: an assertion fails.
\<close>

datatype btree_error = Bad_child | Retry_forever | Leaf_moved | Broken

fun leaf_min :: "'v bnode \<Rightarrow> u64" where
  "leaf_min (Leaf i v mk es) = mk"
| "leaf_min (Internal i v ks cs) = 0"

fun leaf_entries :: "'v bnode \<Rightarrow> ('v, 'v bnode) entry list" where
  "leaf_entries (Leaf i v mk es) = es"
| "leaf_entries (Internal i v ks cs) = []"

text \<open>The leaves of a layer, from left to right.\<close>

fun leaves :: "'v bnode \<Rightarrow> 'v bnode list" where
  "leaves (Leaf i v mk es) = [Leaf i v mk es]"
| "leaves (Internal i v ks cs) = concat (map leaves cs)"

text \<open>
  A place in the chain of leaves: the leaves behind \<^verbatim>\<open>prev_\<close>, nearest first, the leaf, and the leaves behind \<^verbatim>\<open>next_\<close>.
\<close>

type_synonym 'v place = "'v bnode list \<times> 'v bnode \<times> 'v bnode list"

lemma size_nth_le: "i < length xs \<Longrightarrow> size (xs ! i :: 'v bnode) < Suc (size_list size xs)"
  using size_list_estimation' [OF nth_mem, of i xs "size (xs ! i)" size] by simp

text \<open>The way down to a leaf.\<close>

function (sequential) descend :: "u64 \<Rightarrow> 'v bnode list \<Rightarrow> 'v bnode \<Rightarrow> 'v bnode list \<Rightarrow> btree_error + 'v place" where
  "descend k ls (Leaf i v mk es) rs = Inr (ls, Leaf i v mk es, rs)"
| "descend k ls (Internal i v ks cs) rs =
     (let c = child_idx (key_lower_bound_search ks k)
      in if c < length cs
         then descend k (rev (concat (map leaves (take c cs))) @ ls) (cs ! c) (concat (map leaves (drop (c + 1) cs)) @ rs)
         else Inl Bad_child)"
  by pat_completeness auto
termination by (relation "measure (\<lambda>(k, ls, t, rs). size t)") (auto simp: size_nth_le)

text \<open>The search in the leaf and the moves to a neighbour when the key is not there.\<close>

function search_leaf :: "u64 \<Rightarrow> nat \<Rightarrow> 'v bnode list \<Rightarrow> 'v bnode \<Rightarrow> 'v bnode list \<Rightarrow> btree_error + (nat option \<times> 'v place)" where
  "search_leaf k len ls leaf rs =
     (case leaf_key_search (leaf_entries leaf) k len of
        Some ret \<Rightarrow> Inr (Some ret, ls, leaf, rs)
      | None \<Rightarrow>
          if k < leaf_min leaf
          then (case ls of [] \<Rightarrow> Inl Retry_forever | left_sibling # ls' \<Rightarrow> search_leaf k len ls' left_sibling (leaf # rs))
          else (case rs of
                  [] \<Rightarrow> Inr (None, ls, leaf, rs)
                | right_sibling # rs' \<Rightarrow>
                    if leaf_min right_sibling \<le> k then search_leaf k len (leaf # ls) right_sibling rs'
                    else Inr (None, ls, leaf, rs)))"
  by pat_completeness auto
termination
  by (relation "measure (\<lambda>(k, len, ls, leaf, rs). if k < leaf_min leaf then 2 * length ls + length rs + 2 else length rs)")
     auto

declare search_leaf.simps [simp del]

text \<open>
  \<^verbatim>\<open>search_impl\<close>: the value, the leaf that ended the search with its version, and the places the search went through,
  one for each layer.
\<close>

datatype 'v search_ret = Search_ret (sr_value: "'v option") (sr_info: "nat \<times> u64") (sr_leaves: "'v place list")

function search_impl :: "bytes \<Rightarrow> 'v bnode \<Rightarrow> 'v place list \<Rightarrow> btree_error + 'v search_ret" where
  "search_impl kcur cur leaf_nodes =
     (case descend (slice kcur) [] cur [] of
        Inl e \<Rightarrow> Inl e
      | Inr (ls0, leaf0, rs0) \<Rightarrow>
          (case search_leaf (slice kcur) (kslicelen kcur) ls0 leaf0 rs0 of
             Inl e \<Rightarrow> Inl e
           | Inr (None, ls, leaf, rs) \<Rightarrow>
               Inr (Search_ret None (node_id leaf, node_version leaf) (leaf_nodes @ [(ls, leaf, rs)]))
           | Inr (Some ret, ls, leaf, rs) \<Rightarrow>
               let leaf_nodes' = leaf_nodes @ [(ls, leaf, rs)]; info = (node_id leaf, node_version leaf);
                   e = leaf_entries leaf ! ret
               in (case eslot e of
                     Inl x \<Rightarrow>
                       if kslicelen kcur = 9 \<and> esuffix e \<noteq> shift kcur then Inr (Search_ret None info leaf_nodes')
                       else Inr (Search_ret (Some x) info leaf_nodes')
                   | Inr n \<Rightarrow> if kslicelen kcur = 9 then search_impl (shift kcur) n leaf_nodes' else Inl Broken)))"
  by pat_completeness auto
termination by (relation "measure (\<lambda>(k, t, ls). length k)") (auto simp: kslicelen_def shift_def)

declare search_impl.simps [simp del]

section \<open>The map of a tree\<close>

text \<open>The entries of a layer in order.\<close>

fun flat :: "'v bnode \<Rightarrow> ('v, 'v bnode) entry list" where
  "flat (Leaf i v mk es) = es"
| "flat (Internal i v ks cs) = concat (map flat cs)"

definition entry_at :: "('v, 'n) entry list \<Rightarrow> u64 \<times> nat \<Rightarrow> ('v, 'n) entry option" where
  "entry_at es q = List.find (\<lambda>e. entry_key e = q) es"

definition slice_key :: "bytes \<Rightarrow> u64 \<times> nat" where
  "slice_key k = (slice k, kslicelen k)"

text \<open>The value of a key, by going through the entries of each layer one by one.\<close>

function lookup :: "'v bnode \<Rightarrow> bytes \<Rightarrow> 'v option" where
  "lookup t k =
     (case entry_at (flat t) (slice_key k) of
        None \<Rightarrow> None
      | Some e \<Rightarrow>
          (case eslot e of
             Inl x \<Rightarrow> if kslicelen k = 9 \<and> esuffix e \<noteq> shift k then None else Some x
           | Inr n \<Rightarrow> if kslicelen k = 9 then lookup n (shift k) else None))"
  by pat_completeness auto
termination by (relation "measure (\<lambda>(t, k). length k)") (auto simp: kslicelen_def shift_def)

declare lookup.simps [simp del]

section \<open>The invariant\<close>

definition in_bounds :: "u64 option \<Rightarrow> u64 option \<Rightarrow> u64 \<Rightarrow> bool" where
  "in_bounds lo hi k \<longleftrightarrow> (case lo of None \<Rightarrow> True | Some l \<Rightarrow> l \<le> k) \<and> (case hi of None \<Rightarrow> True | Some h \<Rightarrow> k < h)"

text \<open>What \<^verbatim>\<open>base_invariant_unique_keys_check\<close> asserts of one entry.\<close>

definition entry_ok :: "('v, 'n) entry \<Rightarrow> bool" where
  "entry_ok e \<longleftrightarrow> elen e \<le> 9 \<and> (is_layer e \<longrightarrow> elen e = 9) \<and> (\<not> is_layer e \<and> elen e = 9 \<longrightarrow> esuffix e \<noteq> []) \<and>
     (is_layer e \<or> elen e \<le> 8 \<longrightarrow> esuffix e = [])"

definition leaf_ok :: "bool \<Rightarrow> u64 option \<Rightarrow> u64 option \<Rightarrow> u64 \<Rightarrow> ('v, 'n) entry list \<Rightarrow> bool" where
  "leaf_ok is_root lo hi mk es \<longleftrightarrow>
     length es \<le> NKeysPerNode \<and> (is_root \<or> es \<noteq> []) \<and> entries_sorted es \<and>
     list_all entry_ok es \<and> list_all (\<lambda>e. in_bounds lo hi (eslice e)) es \<and>
     mk = (case lo of None \<Rightarrow> 0 | Some l \<Rightarrow> l) \<and> (is_root \<longrightarrow> lo = None \<and> hi = None)"

definition int_ok :: "bool \<Rightarrow> u64 option \<Rightarrow> u64 option \<Rightarrow> u64 list \<Rightarrow> nat \<Rightarrow> bool" where
  "int_ok is_root lo hi ks ncs \<longleftrightarrow>
     length ks \<le> NKeysPerNode \<and> (if is_root then 1 else NMinKeysPerNode) \<le> length ks \<and> ncs = length ks + 1 \<and>
     sorted_wrt (<) ks \<and> list_all (in_bounds lo hi) ks \<and> list_all (\<lambda>k. lo \<noteq> Some k) ks"

text \<open>The range of a child.\<close>

definition lo_at :: "u64 option \<Rightarrow> u64 list \<Rightarrow> nat \<Rightarrow> u64 option" where
  "lo_at lo ks j = (if j = 0 then lo else Some (ks ! (j - 1)))"

definition hi_at :: "u64 option \<Rightarrow> u64 list \<Rightarrow> nat \<Rightarrow> u64 option" where
  "hi_at hi ks j = (if j < length ks then Some (ks ! j) else hi)"

fun height :: "'v bnode \<Rightarrow> nat" where
  "height (Leaf i v mk es) = 0"
| "height (Internal i v ks []) = 1"
| "height (Internal i v ks (c # cs)) = Suc (height c)"

lemma size_layer_le: "Entry s l suf (Inr n) \<in> set es \<Longrightarrow> size (n :: 'v bnode) < Suc (size_list (size_entry (\<lambda>_. 0) size) es)"
  using size_list_estimation' [of "Entry s l suf (Inr n)" es "size n" "size_entry (\<lambda>_. 0) size"] by simp

text \<open>\<^verbatim>\<open>invariant_checker\<close>, with the height of the tree.\<close>

function (sequential) node_wf :: "nat \<Rightarrow> bool \<Rightarrow> u64 option \<Rightarrow> u64 option \<Rightarrow> 'v bnode \<Rightarrow> bool" where
  "node_wf h is_root lo hi (Leaf i v mk es) \<longleftrightarrow>
     h = 0 \<and> leaf_ok is_root lo hi mk es \<and>
     list_all (\<lambda>e. case e of Entry s l suf (Inl x) \<Rightarrow> True | Entry s l suf (Inr n) \<Rightarrow> node_wf (height n) True None None n) es"
| "node_wf h is_root lo hi (Internal i v ks cs) \<longleftrightarrow>
     0 < h \<and> int_ok is_root lo hi ks (length cs) \<and>
     list_all (\<lambda>j. node_wf (h - 1) False (lo_at lo ks j) (hi_at hi ks j) (cs ! j)) [0..<length cs]"
  by pat_completeness auto
termination by (relation "measure (\<lambda>(h, r, lo, hi, t). size t)") (auto simp: size_nth_le size_layer_le)

definition btree_ok :: "'v bnode \<Rightarrow> bool" where
  "btree_ok t \<longleftrightarrow> node_wf (height t) True None None t"

section \<open>Keys are told apart by their slices\<close>

lemma bit_ucast_byte: "bit (ucast (b :: 8 word) :: u64) m \<Longrightarrow> m < 8"
  by (auto simp: bit_simps dest: bit_imp_le_length)

lemma be_word_bit: "bit (be_word n bs) m \<Longrightarrow> m < 8 * n"
proof (induction n bs rule: be_word.induct)
  case (3 n b bs)
  then consider "8 * n \<le> m" "bit (ucast b :: u64) (m - 8 * n)" | "bit (be_word n bs) m" by (auto simp: bit_simps)
  then show ?case
  proof cases
    case 1
    then show ?thesis using bit_ucast_byte by fastforce
  next
    case 2
    then show ?thesis using "3.IH" by fastforce
  qed
qed simp_all

lemma be_word_head:
  assumes "n < 8"
  shows "drop_bit (8 * n) (be_word (Suc n) (b # bs)) = ucast b" and "take_bit (8 * n) (be_word (Suc n) (b # bs)) = be_word n bs"
proof -
  have "bit (be_word n bs) (8 * n + m) = False" for m using be_word_bit [of n bs "8 * n + m"] by auto
  then show "drop_bit (8 * n) (be_word (Suc n) (b # bs)) = ucast b"
    using assms bit_ucast_byte [of b] by (intro bit_eqI) (fastforce simp: bit_drop_bit_eq bit_or_iff bit_push_bit_iff)
  show "take_bit (8 * n) (be_word (Suc n) (b # bs)) = be_word n bs"
    using be_word_bit [of n bs] by (intro bit_eqI) (auto simp: bit_take_bit_iff bit_or_iff bit_push_bit_iff)
qed

lemma be_word_inj: "length as = length bs \<Longrightarrow> length as \<le> n \<Longrightarrow> n \<le> 8 \<Longrightarrow> be_word n as = be_word n bs \<Longrightarrow> as = bs"
proof (induction as bs arbitrary: n rule: list_induct2)
  case (Cons a as b bs)
  then obtain m where n: "n = Suc m" by (cases n) auto
  have "ucast a = (ucast b :: u64)" "be_word m as = be_word m bs"
    using be_word_head [of m a as] be_word_head [of m b bs] Cons.prems(1,2) Cons.prems(3) [unfolded n] n by (metis Suc_le_lessD)+
  moreover have "ucast (ucast x :: u64) = x" for x :: "8 word" by (rule bit_word_eqI) (simp add: bit_simps)
  ultimately show ?case using Cons.IH [of m] Cons.prems n by (metis Suc_leD Suc_le_mono length_Cons)
qed simp

lemma be_word_take_list: "be_word n (take n bs) = be_word n bs"
  by (induction n bs rule: be_word.induct) simp_all

lemma slice_key_inj:
  assumes "slice_key k = slice_key k'" and "kslicelen k = 9 \<Longrightarrow> shift k = shift k'"
  shows "k = k'"
proof -
  have l: "min (length k) 9 = min (length k') 9" and s: "be_word 8 k = be_word 8 k'"
    using assms(1) by (simp_all add: slice_key_def kslicelen_def slice_def)
  have "take 8 k = take 8 k'"
    by (rule be_word_inj [of _ _ 8]) (use l s in \<open>auto simp: be_word_take_list min_def split: if_splits\<close>)
  moreover have "drop 8 k = drop 8 k'"
    using assms(2) l by (cases "9 \<le> length k") (auto simp: kslicelen_def shift_def min_def split: if_splits)
  ultimately show ?thesis by (metis append_take_drop_id)
qed

section \<open>The invariant and the order of the entries\<close>

lemma wf_leaf:
  "node_wf h r lo hi (Leaf i v mk es) \<longleftrightarrow>
     h = 0 \<and> leaf_ok r lo hi mk es \<and> (\<forall>e \<in> set es. \<forall>n. eslot e = Inr n \<longrightarrow> btree_ok n)"
proof -
  have "(case e of Entry s l suf (Inl x) \<Rightarrow> True | Entry s l suf (Inr n) \<Rightarrow> node_wf (height n) True None None n) \<longleftrightarrow>
      (\<forall>n. eslot e = Inr n \<longrightarrow> btree_ok n)" for e :: "('a, 'a bnode) entry"
    by (cases e) (auto simp: btree_ok_def split: sum.splits)
  then show ?thesis by (simp add: list_all_iff)
qed

lemma wf_internal:
  "node_wf h r lo hi (Internal i v ks cs) \<longleftrightarrow>
     0 < h \<and> int_ok r lo hi ks (length cs) \<and> (\<forall>j \<le> length ks. node_wf (h - 1) False (lo_at lo ks j) (hi_at hi ks j) (cs ! j))"
  by (auto simp: list_all_iff int_ok_def less_Suc_eq_le)

declare node_wf.simps [simp del]
lemmas wf_simps = wf_leaf wf_internal

lemma in_bounds_lo_at:
  assumes "int_ok r lo hi ks n" and "in_bounds (lo_at lo ks j) (hi_at hi ks j) k" and "j \<le> length ks"
  shows "in_bounds lo hi k"
proof -
  have ks: "in_bounds lo hi (ks ! m)" if "m < length ks" for m using assms(1) that by (simp add: int_ok_def list_all_iff)
  have "l \<le> k" if "lo = Some l" for l
    using assms(2,3) ks [of "j - 1"] that by (cases "j = 0") (auto simp: in_bounds_def lo_at_def intro: order_trans [of l "ks ! (j - 1)" k])
  moreover have "k < h" if "hi = Some h" for h
    using assms(2) ks [of j] that by (cases "j < length ks") (auto simp: in_bounds_def hi_at_def)
  ultimately show ?thesis by (simp add: in_bounds_def split: option.splits)
qed

lemma in_concat_map: "e \<in> set (concat (map f xs)) \<longleftrightarrow> (\<exists>j < length xs. e \<in> set (f (xs ! j)))"
  by (auto simp: in_set_conv_nth [of _ xs]) (metis nth_mem)

lemma wf_flat_bounds: "node_wf h r lo hi t \<Longrightarrow> e \<in> set (flat t) \<Longrightarrow> in_bounds lo hi (eslice e) \<and> entry_ok e"
proof (induction t arbitrary: h r lo hi e rule: flat.induct)
  case (1 i v mk es)
  then show ?case by (auto simp: wf_leaf leaf_ok_def list_all_iff)
next
  case (2 i v ks cs)
  then obtain c where c: "c \<in> set cs" "e \<in> set (flat c)" by auto
  then obtain j where j: "j < length cs" "c = cs ! j" by (auto simp: in_set_conv_nth)
  have "j \<le> length ks" using 2(2) j(1) by (simp add: wf_internal int_ok_def)
  then have "node_wf (h - 1) False (lo_at lo ks j) (hi_at hi ks j) c" using 2(2) j(2) by (simp add: wf_internal)
  then have "in_bounds (lo_at lo ks j) (hi_at hi ks j) (eslice e) \<and> entry_ok e" using "2.IH" c by blast
  then show ?case using in_bounds_lo_at 2(2) \<open>j \<le> length ks\<close> by (auto simp: wf_internal)
qed

lemma sorted_concatI:
  assumes "\<And>j. j < length xss \<Longrightarrow> sorted_wrt P (xss ! j)"
    and "\<And>i j x y. i < j \<Longrightarrow> j < length xss \<Longrightarrow> x \<in> set (xss ! i) \<Longrightarrow> y \<in> set (xss ! j) \<Longrightarrow> P x y"
  shows "sorted_wrt P (concat xss)"
  using assms
proof (induction xss)
  case (Cons xs xss)
  have "sorted_wrt P (concat xss)"
  proof (rule Cons.IH)
    show "sorted_wrt P (xss ! j)" if "j < length xss" for j using Cons.prems(1) [of "Suc j"] that by simp
    show "P x y" if "i < j" "j < length xss" "x \<in> set (xss ! i)" "y \<in> set (xss ! j)" for i j x y
      using Cons.prems(2) [of "Suc i" "Suc j"] that by simp
  qed
  moreover have "P x y" if x: "x \<in> set xs" and y: "y \<in> set (concat xss)" for x y
  proof -
    obtain j where "j < length xss" "y \<in> set (xss ! j)" using y in_concat_map [of y id xss] by auto
    then show ?thesis using Cons.prems(2) [of 0 "Suc j"] x by simp
  qed
  ultimately show ?case using Cons.prems(1) [of 0] by (auto simp: sorted_wrt_append)
qed simp

lemma child_order:
  assumes "int_ok r lo hi ks n" and "i < j" and "j \<le> length ks"
    and "in_bounds (lo_at lo ks i) (hi_at hi ks i) a" and "in_bounds (lo_at lo ks j) (hi_at hi ks j) b"
  shows "a < b"
proof -
  have "a < ks ! i" using assms(2-4) by (simp add: in_bounds_def hi_at_def)
  also have "ks ! i \<le> ks ! (j - 1)"
    using assms(1-3) sorted_wrt_nth_less [of "(<)" ks i "j - 1"] by (cases "i = j - 1") (auto simp: int_ok_def intro!: less_imp_le)
  also have "ks ! (j - 1) \<le> b" using assms(2,5) by (simp add: in_bounds_def lo_at_def)
  finally show ?thesis .
qed

lemma entries_sorted_alt: "entries_sorted es \<longleftrightarrow> sorted_wrt (\<lambda>a b. entry_key a < entry_key b) es"
  by (simp add: entries_sorted_def sorted_wrt_map)

lemma entry_key_less: "eslice a < eslice b \<Longrightarrow> entry_key a < entry_key b"
  by (simp add: entry_key_def)

lemma wf_flat_sorted: "node_wf h r lo hi t \<Longrightarrow> entries_sorted (flat t)"
proof (induction t arbitrary: h r lo hi rule: flat.induct)
  case (1 i v mk es)
  then show ?case by (simp add: wf_leaf leaf_ok_def)
next
  case (2 i v ks cs)
  have ok: "int_ok r lo hi ks (length cs)" and len: "length cs = Suc (length ks)" using "2.prems" by (auto simp: wf_internal int_ok_def)
  have w: "node_wf (h - 1) False (lo_at lo ks j) (hi_at hi ks j) (cs ! j)" if "j \<le> length ks" for j
    using "2.prems" that by (simp add: wf_internal)
  have "sorted_wrt (\<lambda>a b. entry_key a < entry_key b) (concat (map flat cs))"
  proof (rule sorted_concatI)
    fix j assume "j < length (map flat cs)"
    then show "sorted_wrt (\<lambda>a b. entry_key a < entry_key b) (map flat cs ! j)"
      using "2.IH" [OF nth_mem w [of j]] len by (simp add: entries_sorted_alt)
  next
    fix a b x y assume ab: "a < b" "b < length (map flat cs)" and x: "x \<in> set (map flat cs ! a)" and y: "y \<in> set (map flat cs ! b)"
    then have "eslice x < eslice y"
      using child_order [OF ok ab(1)] wf_flat_bounds [OF w, of a x] wf_flat_bounds [OF w, of b y] len by auto
    then show "entry_key x < entry_key y" by (rule entry_key_less)
  qed
  then show ?case by (simp add: entries_sorted_alt)
qed

text \<open>The child that a search enters.\<close>

lemma list_split_at: "c < length xs \<Longrightarrow> xs = take c xs @ xs ! c # drop (c + 1) xs"
  by (simp add: id_take_nth_drop)

lemma wf_child:
  assumes w: "node_wf h r lo hi (Internal i v ks cs)" and c: "c = child_idx (key_lower_bound_search ks k)"
  shows "c \<le> length ks" and "c < length cs"
    and "flat (Internal i v ks cs) = concat (map flat (take c cs)) @ flat (cs ! c) @ concat (map flat (drop (c + 1) cs))"
    and "e \<in> set (concat (map flat (take c cs))) \<Longrightarrow> eslice e < k"
    and "e \<in> set (concat (map flat (drop (c + 1) cs))) \<Longrightarrow> k < eslice e"
    and "node_wf (h - 1) False (lo_at lo ks c) (hi_at hi ks c) (cs ! c)"
    and "in_bounds lo hi k \<Longrightarrow> in_bounds (lo_at lo ks c) (hi_at hi ks c) k"
proof -
  have ok: "int_ok r lo hi ks (length cs)" and srt: "sorted_wrt (<) ks" and len: "length cs = length ks + 1"
    using w by (auto simp: wf_internal int_ok_def)
  have wj: "node_wf (h - 1) False (lo_at lo ks j) (hi_at hi ks j) (cs ! j)" if "j \<le> length ks" for j
    using w that by (simp add: wf_internal)
  note lb = key_lower_bound_spec [OF srt c]
  show c1: "c \<le> length ks" by (rule lb(1))
  then show c2: "c < length cs" using len by simp
  have "map flat cs = map flat (take c cs) @ flat (cs ! c) # map flat (drop (c + 1) cs)"
    using arg_cong [OF list_split_at [OF c2], of "map flat"] by simp
  then show "flat (Internal i v ks cs) = concat (map flat (take c cs)) @ flat (cs ! c) @ concat (map flat (drop (c + 1) cs))"
    by simp
  show "eslice e < k" if e: "e \<in> set (concat (map flat (take c cs)))"
  proof -
    obtain j where j: "j < c" "e \<in> set (flat (cs ! j))" using e c2 unfolding in_concat_map by auto
    have "eslice e < ks ! j" using wf_flat_bounds [OF wj j(2)] j c1 by (simp add: in_bounds_def hi_at_def)
    then show ?thesis using lb(2) [OF j(1)] by simp
  qed
  show "k < eslice e" if e: "e \<in> set (concat (map flat (drop (c + 1) cs)))"
  proof -
    obtain m where "m < length (drop (c + 1) cs)" "e \<in> set (flat (drop (c + 1) cs ! m))" using e unfolding in_concat_map by auto
    then obtain j where j: "c < j" "j < length cs" "e \<in> set (flat (cs ! j))" using that [of "c + 1 + m"] by simp
    have "ks ! (j - 1) \<le> eslice e" using wf_flat_bounds [OF wj j(3)] j len by (simp add: in_bounds_def lo_at_def)
    moreover have "k < ks ! (j - 1)" by (rule lb(3)) (use j len in auto)
    ultimately show ?thesis by (metis less_le_trans)
  qed
  show "node_wf (h - 1) False (lo_at lo ks c) (hi_at hi ks c) (cs ! c)" using wj c1 by simp
  show "in_bounds (lo_at lo ks c) (hi_at hi ks c) k" if "in_bounds lo hi k"
    using that lb(2) [of "c - 1"] lb(3) [of c] by (auto simp: in_bounds_def lo_at_def hi_at_def split: option.splits)
qed

section \<open>The search is correct\<close>

lemma entry_at_append: "entry_at (xs @ ys) q = (case entry_at xs q of None \<Rightarrow> entry_at ys q | Some e \<Rightarrow> Some e)"
  by (induction xs) (auto simp: entry_at_def)

lemma entry_at_None: "entry_at es q = None \<longleftrightarrow> (\<forall>e \<in> set es. entry_key e \<noteq> q)"
  by (auto simp: entry_at_def find_None_iff)

lemma entry_at_Some: "entry_at es q = Some e \<Longrightarrow> e \<in> set es \<and> entry_key e = q"
  by (auto simp: entry_at_def find_Some_iff in_set_conv_nth)

lemma entry_at_nth:
  assumes srt: "entries_sorted es" and i: "i < length es"
  shows "entry_at es (entry_key (es ! i)) = Some (es ! i)"
proof -
  have "entry_key (es ! j) \<noteq> entry_key (es ! i)" if "j < i" for j using entries_sorted_nth [OF srt that i] by auto
  then show ?thesis using i by (auto simp: entry_at_def find_Some_iff)
qed

lemma leaf_key_search_at:
  assumes srt: "entries_sorted es"
  shows "leaf_key_search es k len = Some i \<Longrightarrow> i < length es \<and> entry_at es (k, len) = Some (es ! i)"
    and "leaf_key_search es k len = None \<Longrightarrow> entry_at es (k, len) = None"
  using leaf_key_search_spec [OF srt] entry_at_nth [OF srt] by (metis, simp add: entry_at_None)

lemma entry_at_child:
  assumes w: "node_wf h r lo hi (Internal i v ks cs)" and c: "c = child_idx (key_lower_bound_search ks k)"
  shows "entry_at (flat (Internal i v ks cs)) (k, len) = entry_at (flat (cs ! c)) (k, len)"
proof -
  note ch = wf_child [OF w c]
  have "entry_at (concat (map flat (take c cs))) (k, len) = None" "entry_at (concat (map flat (drop (c + 1) cs))) (k, len) = None"
    unfolding entry_at_None using ch(4,5) by (auto simp: entry_key_def)
  then show ?thesis unfolding ch(3) by (simp add: entry_at_append split: option.splits)
qed

lemma leaves_min: "node_wf h r (Some l) hi t \<Longrightarrow> \<exists>x xs. leaves t = x # xs \<and> leaf_min x = l"
proof (induction t arbitrary: h r hi rule: leaves.induct)
  case (1 i v mk es)
  then show ?case by (simp add: wf_leaf leaf_ok_def)
next
  case (2 i v ks cs)
  then obtain c cs' where cs: "cs = c # cs'" by (cases cs) (auto simp: wf_internal int_ok_def)
  have "node_wf (h - 1) False (Some l) (hi_at hi ks 0) c" using 2(2) cs by (auto simp: wf_internal lo_at_def)
  then show ?case using "2.IH" [of c] cs by fastforce
qed

text \<open>The range of a place ends where the next leaf begins.\<close>

definition next_min :: "'v bnode list \<Rightarrow> u64 option" where
  "next_min rs = (case rs of [] \<Rightarrow> None | r # _ \<Rightarrow> Some (leaf_min r))"

lemma next_min_child:
  assumes w: "node_wf h r lo (next_min rs) (Internal i v ks cs)" and c: "c \<le> length ks"
  shows "next_min (concat (map leaves (drop (c + 1) cs)) @ rs) = hi_at (next_min rs) ks c"
proof (cases "c = length ks")
  case True
  then show ?thesis using w by (simp add: wf_internal int_ok_def hi_at_def)
next
  case False
  have "node_wf (h - 1) False (Some (ks ! c)) (hi_at (next_min rs) ks (c + 1)) (cs ! (c + 1))"
    using w c False spec [of "\<lambda>j. j \<le> length ks \<longrightarrow> node_wf (h - 1) False (lo_at lo ks j) (hi_at (next_min rs) ks j) (cs ! j)" "c + 1"]
    by (simp add: wf_internal lo_at_def)
  then obtain x xs where "leaves (cs ! (c + 1)) = x # xs" "leaf_min x = ks ! c" using leaves_min by blast
  moreover have "drop (c + 1) cs = cs ! (c + 1) # drop (c + 2) cs"
    using w c False by (simp add: wf_internal int_ok_def Cons_nth_drop_Suc)
  ultimately show ?thesis using c False by (simp add: next_min_def hi_at_def)
qed

lemma descend_spec:
  assumes "node_wf h r lo (next_min rs) t" and "in_bounds lo (next_min rs) k"
  shows "\<exists>ls' i v mk es rs' r' lo'. descend k ls t rs = Inr (ls', Leaf i v mk es, rs') \<and>
    node_wf 0 r' lo' (next_min rs') (Leaf i v mk es) \<and> in_bounds lo' (next_min rs') k \<and>
    (\<forall>len. entry_at (flat t) (k, len) = entry_at es (k, len))"
  using assms
proof (induction k ls t rs arbitrary: h r lo rule: descend.induct)
  case (1 k ls i v mk es rs)
  then have "h = 0" by (simp add: wf_leaf)
  then show ?case using 1 by auto
next
  case (2 k ls i v ks cs rs)
  let ?c = "child_idx (key_lower_bound_search ks k)"
  note ch = wf_child [OF "2.prems"(1) refl, where k = k]
  have m: "next_min (concat (map leaves (drop (?c + 1) cs)) @ rs) = hi_at (next_min rs) ks ?c"
    by (rule next_min_child [OF "2.prems"(1) ch(1)])
  show ?case
    using "2.IH" [OF refl ch(2), of "h - 1" False "lo_at lo ks ?c"] ch(2,6) ch(7) [OF "2.prems"(2)] m entry_at_child [OF "2.prems"(1) refl, where k = k]
    by (simp add: Let_def del: flat.simps)
qed

lemma search_leaf_spec:
  assumes w: "node_wf 0 r lo (next_min rs) (Leaf i v mk es)" and b: "in_bounds lo (next_min rs) k"
  shows "search_leaf k len ls (Leaf i v mk es) rs = Inr (leaf_key_search es k len, ls, Leaf i v mk es, rs)"
proof -
  have mk: "\<not> k < mk" using w b by (auto simp: wf_leaf leaf_ok_def in_bounds_def split: option.splits)
  have rs: "\<not> leaf_min x \<le> k" if "rs = x # xs" for x xs using b that by (auto simp: in_bounds_def next_min_def)
  show ?thesis
    by (cases "leaf_key_search es k len"; cases rs) (use mk rs in \<open>simp_all add: search_leaf.simps\<close>)
qed

lemma search_step:
  assumes "btree_ok t"
  obtains ls i v mk es rs r lo where "descend (slice k) [] t [] = Inr (ls, Leaf i v mk es, rs)"
    and "search_leaf (slice k) (kslicelen k) ls (Leaf i v mk es) rs =
      Inr (leaf_key_search es (slice k) (kslicelen k), ls, Leaf i v mk es, rs)"
    and "node_wf 0 r lo (next_min rs) (Leaf i v mk es)" and "entry_at (flat t) (slice_key k) = entry_at es (slice_key k)"
    and "entries_sorted es"
proof -
  have w: "node_wf (height t) True None (next_min []) t" and b: "in_bounds None (next_min []) (slice k)"
    using assms by (simp_all add: btree_ok_def next_min_def in_bounds_def)
  obtain ls i v mk es rs r lo where d: "descend (slice k) [] t [] = Inr (ls, Leaf i v mk es, rs)"
    "node_wf 0 r lo (next_min rs) (Leaf i v mk es)" "in_bounds lo (next_min rs) (slice k)"
    "\<forall>len. entry_at (flat t) (slice k, len) = entry_at es (slice k, len)"
    using descend_spec [OF w b, of "[]"] by blast
  show ?thesis
    by (rule that [OF d(1) search_leaf_spec [OF d(2,3)] d(2)]) (use d in \<open>auto simp: slice_key_def wf_leaf leaf_ok_def\<close>)
qed

lemma layer_ok: "node_wf h r lo hi (Leaf i v mk es) \<Longrightarrow> e \<in> set es \<Longrightarrow> eslot e = Inr n \<Longrightarrow> btree_ok n \<and> elen e = 9"
  by (auto simp: wf_leaf leaf_ok_def list_all_iff entry_ok_def is_layer_def)

lemma search_impl_lookup:
  assumes "btree_ok t"
  shows "\<exists>s. search_impl k t ls = Inr s \<and> sr_value s = lookup t k"
  using assms
proof (induction "length k" arbitrary: k t ls rule: less_induct)
  case (less k t lns)
  obtain ls i v mk es rs r lo where st: "descend (slice k) [] t [] = Inr (ls, Leaf i v mk es, rs)"
    "search_leaf (slice k) (kslicelen k) ls (Leaf i v mk es) rs =
       Inr (leaf_key_search es (slice k) (kslicelen k), ls, Leaf i v mk es, rs)"
    "node_wf 0 r lo (next_min rs) (Leaf i v mk es)" "entry_at (flat t) (slice_key k) = entry_at es (slice_key k)" "entries_sorted es"
    using search_step [OF less.prems] by blast
  note [simp] = search_impl.simps [of k t lns] lookup.simps [of t k] st(1,2,4)
  show ?case
  proof (cases "leaf_key_search es (slice k) (kslicelen k)")
    case None
    then have "entry_at es (slice_key k) = None" using leaf_key_search_at(2) [OF st(5)] by (simp add: slice_key_def)
    then show ?thesis using None by simp
  next
    case (Some m)
    have m: "m < length es" "entry_at es (slice_key k) = Some (es ! m)"
      using leaf_key_search_at(1) [OF st(5) Some] by (simp_all add: slice_key_def)
    show ?thesis
    proof (cases "eslot (es ! m)")
      case (Inl x)
      then show ?thesis using Some m by (simp add: Let_def)
    next
      case (Inr n)
      have "elen (es ! m) = kslicelen k" using entry_at_Some [OF m(2)] by (simp add: entry_key_def slice_key_def)
      then have n: "btree_ok n" "kslicelen k = 9" using layer_ok [OF st(3) nth_mem [OF m(1)] Inr] by simp_all
      then have "length (shift k) < length k" by (auto simp: shift_def kslicelen_def)
      then obtain s where "search_impl (shift k) n (lns @ [(ls, Leaf i v mk es, rs)]) = Inr s" "sr_value s = lookup n (shift k)"
        using less.hyps [OF _ n(1)] by blast
      then show ?thesis using n(2) Some m Inr st(2) by (simp add: Let_def)
    qed
  qed
qed

section \<open>Children and their separators\<close>

definition lt_opt :: "u64 option \<Rightarrow> u64 option \<Rightarrow> bool" where
  "lt_opt lo hi \<longleftrightarrow> (case lo of None \<Rightarrow> True | Some l \<Rightarrow> (case hi of None \<Rightarrow> True | Some h \<Rightarrow> l < h))"

lemma lt_opt_simps [simp]: "lt_opt None hi" "lt_opt lo None" "lt_opt (Some a) (Some b) \<longleftrightarrow> a < b"
  by (simp_all add: lt_opt_def split: option.splits)

lemma lt_opt_trans: "lt_opt lo (Some a) \<Longrightarrow> lt_opt (Some a) hi \<Longrightarrow> lt_opt lo hi"
  by (cases lo; cases hi) auto

lemma in_bounds_Some: "in_bounds lo hi k \<longleftrightarrow> (lo = Some k \<or> lt_opt lo (Some k)) \<and> lt_opt (Some k) hi"
  by (cases lo; cases hi) (auto simp: in_bounds_def)

text \<open>\<open>kids\<close>: the children of a node; \<open>kids_before\<close>: the children before one whose range begins at \<open>m\<close>.\<close>

fun kids :: "(u64 option \<Rightarrow> u64 option \<Rightarrow> 'n \<Rightarrow> bool) \<Rightarrow> u64 option \<Rightarrow> u64 list \<Rightarrow> 'n list \<Rightarrow> u64 option \<Rightarrow> bool" where
  "kids P lo [] [c] hi \<longleftrightarrow> lt_opt lo hi \<and> P lo hi c"
| "kids P lo (k # ks) (c # cs) hi \<longleftrightarrow> lt_opt lo (Some k) \<and> P lo (Some k) c \<and> kids P (Some k) ks cs hi"
| "kids P lo _ _ hi \<longleftrightarrow> False"

fun kids_before :: "(u64 option \<Rightarrow> u64 option \<Rightarrow> 'n \<Rightarrow> bool) \<Rightarrow> u64 option \<Rightarrow> u64 list \<Rightarrow> 'n list \<Rightarrow> u64 option \<Rightarrow> bool" where
  "kids_before P lo [] [] m \<longleftrightarrow> m = lo"
| "kids_before P lo (k # ks) (c # cs) m \<longleftrightarrow> lt_opt lo (Some k) \<and> P lo (Some k) c \<and> kids_before P (Some k) ks cs m"
| "kids_before P lo _ _ m \<longleftrightarrow> False"

lemma kids_append_before:
  "length ks1 = length cs1 \<Longrightarrow> kids P lo (ks1 @ ks2) (cs1 @ cs2) hi \<longleftrightarrow> (\<exists>m. kids_before P lo ks1 cs1 m \<and> kids P m ks2 cs2 hi)"
  by (induction ks1 cs1 arbitrary: lo rule: list_induct2) auto

lemma kids_append:
  "length cs1 = Suc (length ks1) \<Longrightarrow>
   kids P lo (ks1 @ k # ks2) (cs1 @ cs2) hi \<longleftrightarrow> kids P lo ks1 cs1 (Some k) \<and> kids P (Some k) ks2 cs2 hi"
proof (induction ks1 arbitrary: cs1 lo)
  case Nil
  then obtain c where "cs1 = [c]" by (cases cs1) auto
  then show ?case by simp
next
  case (Cons a ks1)
  then obtain c cs where "cs1 = c # cs" "length cs = Suc (length ks1)" by (cases cs1) auto
  then show ?case using Cons.IH [of cs] by auto
qed

lemma kids_length: "kids P lo ks cs hi \<Longrightarrow> length cs = Suc (length ks)"
  by (induction P lo ks cs hi rule: kids.induct) auto

lemma kids_lt: "kids P lo ks cs hi \<Longrightarrow> lt_opt lo hi"
  by (induction P lo ks cs hi rule: kids.induct) (auto intro: lt_opt_trans)

lemma kids_iff:
  "kids P lo ks cs hi \<longleftrightarrow>
     length cs = length ks + 1 \<and> sorted_wrt (<) ks \<and> list_all (in_bounds lo hi) ks \<and> list_all (\<lambda>k. lo \<noteq> Some k) ks \<and>
     (ks = [] \<longrightarrow> lt_opt lo hi) \<and> (\<forall>j \<le> length ks. P (lo_at lo ks j) (hi_at hi ks j) (cs ! j))"
proof (induction ks arbitrary: lo cs)
  case Nil
  show ?case
  proof (cases "length cs = 1")
    case True
    then obtain c where "cs = [c]" by (cases cs) auto
    then show ?thesis by (auto simp: lo_at_def hi_at_def)
  next
    case False
    then show ?thesis using kids_length [of P lo "[]" cs hi] by auto
  qed
next
  case (Cons k ks)
  show ?case
  proof (cases cs)
    case Nil
    then show ?thesis by simp
  next
    case (Cons c cs')
    have P: "(\<forall>j \<le> length (k # ks). P (lo_at lo (k # ks) j) (hi_at hi (k # ks) j) ((c # cs') ! j)) \<longleftrightarrow>
        P lo (Some k) c \<and> (\<forall>j \<le> length ks. P (lo_at (Some k) ks j) (hi_at hi ks j) (cs' ! j))" (is "?l \<longleftrightarrow> ?r")
    proof
      assume l: ?l
      have "P (lo_at (Some k) ks j) (hi_at hi ks j) (cs' ! j)" if "j \<le> length ks" for j
        using l [rule_format, of "Suc j"] that by (cases j) (auto simp: lo_at_def hi_at_def split: if_splits)
      then show ?r using l [rule_format, of 0] by (simp add: lo_at_def hi_at_def)
    next
      assume r: ?r
      show ?l
      proof (intro allI impI)
        fix j assume "j \<le> length (k # ks)"
        then show "P (lo_at lo (k # ks) j) (hi_at hi (k # ks) j) ((c # cs') ! j)"
          using conjunct1 [OF r] conjunct2 [OF r, rule_format, of "j - 1"]
          by (cases j; cases "j - 1") (auto simp: lo_at_def hi_at_def split: if_splits)
      qed
    qed
    have keys: "lt_opt lo (Some k) \<and> sorted_wrt (<) ks \<and> list_all (in_bounds (Some k) hi) ks \<and> list_all (\<lambda>a. Some k \<noteq> Some a) ks \<and>
          (ks = [] \<longrightarrow> lt_opt (Some k) hi) \<longleftrightarrow>
        sorted_wrt (<) (k # ks) \<and> list_all (in_bounds lo hi) (k # ks) \<and> list_all (\<lambda>a. lo \<noteq> Some a) (k # ks)" (is "?a \<longleftrightarrow> ?b")
    proof
      assume a: ?a
      have "lt_opt (Some k) hi"
      proof (cases ks)
        case (Cons b bs)
        then show ?thesis using a lt_opt_trans [of "Some k" b hi] by (auto simp: in_bounds_Some)
      qed (use a in simp)
      then show ?b using a by (cases lo) (auto simp: list_all_iff in_bounds_Some)
    next
      assume ?b
      then show ?a by (cases lo) (auto simp: list_all_iff in_bounds_Some)
    qed
    show ?thesis using Cons.IH [of "Some k" cs'] P keys unfolding Cons by auto
  qed
qed

lemma wf_kids:
  "node_wf h r lo hi (Internal i v ks cs) \<longleftrightarrow>
     0 < h \<and> length ks \<le> NKeysPerNode \<and> (if r then 1 else NMinKeysPerNode) \<le> length ks \<and> kids (node_wf (h - 1) False) lo ks cs hi"
proof -
  have "NMinKeysPerNode \<noteq> 0" by (simp add: NMinKeysPerNode_def NKeysPerNode_def)
  then show ?thesis unfolding wf_internal kids_iff int_ok_def by (cases "ks = []") (auto split: if_splits)
qed

text \<open>
  Property C21 (functional). A search in a well-formed tree ends, without moving along the leaves and without a retry, and
  returns the value that going through all entries of each layer would find.
\<close>

theorem search_returns_value:
  assumes "btree_ok t"
  shows "\<exists>s. search_impl k t [] = Inr s \<and> sr_value s = lookup t k"
  by (rule search_impl_lookup [OF assms])

definition demo_layers :: "nat bnode" where
  "demo_layers = Leaf 0 0 0 [Entry (slice [1]) 1 [] (Inl 1),
     Entry (slice [1, 2, 3, 4, 5, 6, 7, 8]) 9 [] (Inr (Leaf 1 0 0 [Entry (slice [9]) 1 [] (Inl 7)]))]"

theorem search_returns_value_witness:
  "btree_ok demo_layers \<and> (\<exists>s. search_impl [1, 2, 3, 4, 5, 6, 7, 8, 9] demo_layers [] = Inr s \<and> sr_value s = Some 7)"
proof -
  have "btree_ok demo_layers" "lookup demo_layers [1, 2, 3, 4, 5, 6, 7, 8, 9] = Some 7" by code_simp+
  then show ?thesis using search_returns_value [of demo_layers "[1, 2, 3, 4, 5, 6, 7, 8, 9]"] by auto
qed

end
