(* ===== verification/Btree_Insert.thy ===== *)
theory Btree_Insert
  imports Btree
begin

text \<open>
  Insertion into the B+-tree (\<^verbatim>\<open>insert0\<close> and \<^verbatim>\<open>insert_stable_location\<close> of \<^verbatim>\<open>src/src/btree_impl.h\<close>): the split of leaves and
  internal nodes, new layers, the new root, and the map of the tree afterwards.
\<close>

section \<open>Operations\<close>

text \<open>\<^verbatim>\<open>sift_right\<close> and a store at the freed position.\<close>

definition put_at :: "nat \<Rightarrow> 'a \<Rightarrow> 'a list \<Rightarrow> 'a list" where
  "put_at c x xs = take c xs @ x # drop c xs"

definition new_entry :: "bytes \<Rightarrow> 'v \<Rightarrow> ('v, 'n) entry" where
  "new_entry k v = Entry (slice k) (kslicelen k) (if kslicelen k = 9 then shift k else []) (Inl v)"

definition set_slot :: "('v, 'n) entry \<Rightarrow> 'v + 'n \<Rightarrow> ('v, 'n) entry" where
  "set_slot e x = Entry (eslice e) (elen e) (esuffix e) x"

text \<open>\<^verbatim>\<open>value_set_layer\<close>, after the suffix was swapped out.\<close>

definition set_layer :: "('v, 'n) entry \<Rightarrow> 'n \<Rightarrow> ('v, 'n) entry" where
  "set_layer e n = Entry (eslice e) (elen e) [] (Inr n)"

text \<open>The loops that move a position to the left and to the right until it separates two slices.\<close>

fun left_boundary :: "u64 list \<Rightarrow> nat \<Rightarrow> nat" where
  "left_boundary ks 0 = 0"
| "left_boundary ks (Suc i) = (if ks ! i \<noteq> ks ! Suc i then Suc i else left_boundary ks i)"

function right_boundary :: "nat \<Rightarrow> u64 list \<Rightarrow> nat \<Rightarrow> nat" where
  "right_boundary n ks p =
     (if 1 \<le> p \<and> p < n then if ks ! (p - 1) \<noteq> ks ! p then p else right_boundary n ks (p + 1) else p)"
  by pat_completeness auto
termination by (relation "measure (\<lambda>(n, ks, p). n - p)") auto

declare right_boundary.simps [simp del]

definition split_point :: "u64 list \<Rightarrow> nat" where
  "split_point ks =
     (let l = left_boundary ks (NKeysPerNode div 2); r = right_boundary NKeysPerNode ks (NKeysPerNode div 2)
      in if min l (NKeysPerNode - l) < min r (NKeysPerNode - r) then r else l)"

text \<open>The split of a full leaf: the entries that stay and the entries of the new leaf.\<close>

definition leaf_split :: "bool \<Rightarrow> ('v, 'n) entry list \<Rightarrow> nat \<Rightarrow> ('v, 'n) entry \<Rightarrow>
    btree_error + (('v, 'n) entry list \<times> ('v, 'n) entry list)" where
  "leaf_split has_next es c e =
     (if \<not> has_next \<and> eslice (es ! (length es - 1)) < eslice e then Inr (es, [e])
      else let sp = split_point (map eslice es)
           in if sp \<le> c \<and> sp = 0 then Inl Broken
              else if sp \<le> c \<and> eslice (es ! (sp - 1)) \<noteq> eslice e then Inr (take sp es, put_at (c - sp) e (drop sp es))
              else if c \<le> sp then Inr (put_at c e (take sp es), drop sp es)
              else Inl Broken)"

text \<open>
  The status with the key and the node of a split; the node itself afterwards, the value found (\<^verbatim>\<open>old_v\<close>), the node with
  its version before and after (\<^verbatim>\<open>insert_info\<close>), and the next free address.
\<close>

datatype 'v insert_status = I_NONE_NOMOD | I_NONE_MOD | I_SPLIT u64 "'v bnode"

datatype 'v insert_ret = Ins (ins_status: "'v insert_status") (ins_node: "'v bnode") (ins_old: "'v option")
  (ins_info: "(nat \<times> u64 \<times> u64) option") (ins_fresh: nat)

text \<open>No entry with this slice and length: the new entry goes to position \<open>c\<close>.\<close>

definition leaf_add :: "nat \<Rightarrow> bool \<Rightarrow> nat \<Rightarrow> u64 \<Rightarrow> u64 \<Rightarrow> ('v, 'v bnode) entry list \<Rightarrow> nat \<Rightarrow> bytes \<Rightarrow> 'v \<Rightarrow>
    btree_error + 'v insert_ret" where
  "leaf_add f has_next i ver mk es c k v =
     (if length es < NKeysPerNode
      then Inr (Ins I_NONE_MOD (Leaf i (bump ver) mk (put_at c (new_entry k v) es)) None (Some (i, ver, ver + 1)) f)
      else case leaf_split has_next es c (new_entry k v) of
             Inl err \<Rightarrow> Inl err
           | Inr (_, []) \<Rightarrow> Inl Broken
           | Inr (l, e # r) \<Rightarrow>
               Inr (Ins (I_SPLIT (eslice e) (Leaf f 0 (eslice e) (e # r))) (Leaf i (bump ver) mk l) None
                 (Some (i, ver, ver + 1)) (f + 1)))"

text \<open>The layer below entry \<open>m\<close> took the key; when its root split, the layer gets a new root.\<close>

definition layer_done :: "nat \<Rightarrow> u64 \<Rightarrow> u64 \<Rightarrow> ('v, 'v bnode) entry list \<Rightarrow> nat \<Rightarrow> 'v insert_ret \<Rightarrow> 'v insert_ret" where
  "layer_done i ver mk es m r =
     (case ins_status r of
        I_SPLIT sk n \<Rightarrow>
          Ins I_NONE_MOD (Leaf i ver mk (es[m := set_slot (es ! m) (Inr (Internal (ins_fresh r) 0 [sk] [ins_node r, n]))]))
            (ins_old r) (ins_info r) (ins_fresh r + 1)
      | st \<Rightarrow> Ins st (Leaf i ver mk (es[m := set_slot (es ! m) (Inr (ins_node r))])) (ins_old r) (ins_info r) (ins_fresh r))"

text \<open>The split of a full internal node: the key for the parent, and keys and children of the two nodes.\<close>

definition int_split :: "nat \<Rightarrow> u64 \<Rightarrow> 'n \<Rightarrow> u64 list \<Rightarrow> 'n list \<Rightarrow> u64 \<times> u64 list \<times> 'n list \<times> u64 list \<times> 'n list" where
  "int_split c sk n ks cs =
     (if c < NMinKeysPerNode
      then (ks ! (NMinKeysPerNode - 1),
            put_at c sk (take (NMinKeysPerNode - 1) ks), put_at (c + 1) n (take NMinKeysPerNode cs),
            drop NMinKeysPerNode ks, drop NMinKeysPerNode cs)
      else if c = NMinKeysPerNode
      then (sk, take NMinKeysPerNode ks, take (NMinKeysPerNode + 1) cs,
            drop NMinKeysPerNode ks, n # drop (NMinKeysPerNode + 1) cs)
      else (ks ! NMinKeysPerNode, take NMinKeysPerNode ks, take (NMinKeysPerNode + 1) cs,
            put_at (c - NMinKeysPerNode - 1) sk (drop (NMinKeysPerNode + 1) ks),
            put_at (c - NMinKeysPerNode) n (drop (NMinKeysPerNode + 1) cs)))"

text \<open>The child \<open>c\<close> took the key.\<close>

definition int_done :: "nat \<Rightarrow> u64 \<Rightarrow> u64 list \<Rightarrow> 'v bnode list \<Rightarrow> nat \<Rightarrow> 'v insert_ret \<Rightarrow> btree_error + 'v insert_ret" where
  "int_done i ver ks cs c r =
     (let cs' = cs[c := ins_node r]
      in case ins_status r of
           I_SPLIT sk n \<Rightarrow>
             if ks = [] then Inl Broken
             else if length ks < NKeysPerNode
             then Inr (Ins I_NONE_MOD (Internal i (bump ver) (put_at c sk ks) (put_at (c + 1) n cs'))
                    (ins_old r) (ins_info r) (ins_fresh r))
             else if child_idx (key_lower_bound_search ks sk) \<noteq> c then Inl Broken
             else (case int_split c sk n ks cs' of
                     (up, lks, lcs, rks, rcs) \<Rightarrow>
                       Inr (Ins (I_SPLIT up (Internal (ins_fresh r) 0 rks rcs)) (Internal i (bump ver) lks lcs)
                         (ins_old r) (ins_info r) (ins_fresh r + 1)))
         | st \<Rightarrow> Inr (Ins st (Internal i ver ks cs') (ins_old r) (ins_info r) (ins_fresh r)))"

text \<open>
  \<^verbatim>\<open>insert0\<close>: \<open>f\<close> is the next free address, \<open>rs\<close> are the leaves to the right of the subtree, \<open>oia\<close> is \<^verbatim>\<open>only_if_absent\<close>.
\<close>

function (sequential) insert0 :: "nat \<Rightarrow> 'v bnode \<Rightarrow> 'v bnode list \<Rightarrow> bytes \<Rightarrow> 'v \<Rightarrow> bool \<Rightarrow> btree_error + 'v insert_ret" where
  "insert0 f (Leaf i ver mk es) rs k v oia =
     (if slice k < mk \<or> (case rs of [] \<Rightarrow> False | r # _ \<Rightarrow> leaf_min r \<le> slice k) then Inl Leaf_moved
      else case FindRespLeafLowerBound es (slice k) (kslicelen k) of
             (None, lb) \<Rightarrow> leaf_add f (rs \<noteq> []) i ver mk es (child_idx lb) k v
           | (Some m, lb) \<Rightarrow>
               (case eslot (es ! m) of
                  Inl x \<Rightarrow>
                    if kslicelen k \<le> 8 \<or> esuffix (es ! m) = shift k
                    then Inr (Ins I_NONE_NOMOD (Leaf i ver mk (if oia then es else es[m := set_slot (es ! m) (Inl v)])) (Some x) None f)
                    else (case insert0 (f + 1) (Leaf f 0 0 [new_entry (esuffix (es ! m)) x]) [] (shift k) v oia of
                            Inl err \<Rightarrow> Inl err
                          | Inr r \<Rightarrow>
                              (case ins_status r of
                                 I_NONE_MOD \<Rightarrow>
                                   Inr (Ins I_NONE_MOD (Leaf i (bump ver) mk (es[m := set_layer (es ! m) (ins_node r)]))
                                     (ins_old r) (ins_info r) (ins_fresh r))
                               | _ \<Rightarrow> Inl Broken))
                | Inr n \<Rightarrow>
                    if kslicelen k \<le> 8 then Inl Broken
                    else (case insert0 f n [] (shift k) v oia of Inl err \<Rightarrow> Inl err | Inr r \<Rightarrow> Inr (layer_done i ver mk es m r))))"
| "insert0 f (Internal i ver ks cs) rs k v oia =
     (let c = child_idx (key_lower_bound_search ks (slice k))
      in if c < length cs
         then (case insert0 f (cs ! c) (concat (map leaves (drop (c + 1) cs)) @ rs) k v oia of
                 Inl err \<Rightarrow> Inl err
               | Inr r \<Rightarrow> int_done i ver ks cs c r)
         else Inl Bad_child)"
  by pat_completeness auto
termination
  by (relation "inv_image (less_than <*lex*> less_than) (\<lambda>(f, t, rs, k, v, oia). (length k, size t))")
     (auto simp: kslicelen_def shift_def size_nth_le)

declare insert0.simps [simp del]

text \<open>\<^verbatim>\<open>insert_stable_location\<close>: whether the key is new, and what \<^verbatim>\<open>insert0\<close> reports, with the root afterwards.\<close>

definition insert_stable_location :: "nat \<Rightarrow> 'v bnode \<Rightarrow> bytes \<Rightarrow> 'v \<Rightarrow> bool \<Rightarrow> btree_error + (bool \<times> 'v insert_ret)" where
  "insert_stable_location f t k v oia =
     (case insert0 f t [] k v oia of
        Inl err \<Rightarrow> Inl err
      | Inr r \<Rightarrow>
          (case ins_status r of
             I_NONE_NOMOD \<Rightarrow> Inr (False, r)
           | I_NONE_MOD \<Rightarrow> Inr (True, r)
           | I_SPLIT sk n \<Rightarrow>
               Inr (True, Ins I_NONE_MOD (Internal (ins_fresh r) 0 [sk] [ins_node r, n]) (ins_old r) (ins_info r) (ins_fresh r + 1))))"

definition btree_insert :: "nat \<Rightarrow> 'v bnode \<Rightarrow> bytes \<Rightarrow> 'v \<Rightarrow> btree_error + (bool \<times> 'v insert_ret)" where
  "btree_insert f t k v = insert_stable_location f t k v False"

definition insert_if_absent :: "nat \<Rightarrow> 'v bnode \<Rightarrow> bytes \<Rightarrow> 'v \<Rightarrow> btree_error + (bool \<times> 'v insert_ret)" where
  "insert_if_absent f t k v = insert_stable_location f t k v True"

section \<open>Insertion into a sorted list of entries\<close>

definition ins_entry :: "('v, 'n) entry \<Rightarrow> ('v, 'n) entry list \<Rightarrow> ('v, 'n) entry list" where
  "ins_entry e es = filter (\<lambda>x. entry_key x < entry_key e) es @ e # filter (\<lambda>x. entry_key e < entry_key x) es"

lemma ins_entry_append:
  assumes "\<And>x. x \<in> set A \<Longrightarrow> entry_key x < entry_key e" and "\<And>x. x \<in> set C \<Longrightarrow> entry_key e < entry_key x"
  shows "ins_entry e (A @ B @ C) = A @ ins_entry e B @ C"
proof -
  have "filter (\<lambda>x. entry_key x < entry_key e) A = A" "filter (\<lambda>x. entry_key e < entry_key x) C = C"
    "filter (\<lambda>x. entry_key e < entry_key x) A = []" "filter (\<lambda>x. entry_key x < entry_key e) C = []"
    using assms by (auto simp: filter_id_conv filter_empty_conv dest: less_asym)
  then show ?thesis by (simp add: ins_entry_def)
qed

lemma put_at_ins_entry:
  assumes "splits_at c (map entry_key es) (entry_key e)"
  shows "put_at c e es = ins_entry e es"
proof -
  have lt: "entry_key x < entry_key e" if "x \<in> set (take c es)" for x
    using that assms by (auto simp: splits_at_def in_set_conv_nth)
  have gt: "entry_key e < entry_key x" if "x \<in> set (drop c es)" for x
  proof -
    obtain j where "j < length es - c" "x = es ! (c + j)" using \<open>x \<in> set (drop c es)\<close> by (auto simp: in_set_conv_nth)
    then show ?thesis using assms by (simp add: splits_at_def)
  qed
  have "ins_entry e (take c es @ [] @ drop c es) = take c es @ ins_entry e [] @ drop c es"
    using lt gt by (rule ins_entry_append)
  then show ?thesis by (simp add: put_at_def ins_entry_def)
qed

lemma ins_entry_set: "x \<in> set (ins_entry e es) \<Longrightarrow> x = e \<or> x \<in> set es"
  by (auto simp: ins_entry_def)

lemma ins_entry_sorted: "entries_sorted es \<Longrightarrow> entries_sorted (ins_entry e es)"
  by (auto simp: entries_sorted_alt ins_entry_def sorted_wrt_append sorted_wrt_filter dest: less_trans)

lemma ins_entry_replace:
  assumes srt: "entries_sorted es" and m: "m < length es" and k: "entry_key e = entry_key (es ! m)"
  shows "es[m := e] = ins_entry e es"
proof -
  have "es = take m es @ [es ! m] @ drop (Suc m) es" using m by (simp add: id_take_nth_drop)
  moreover have "ins_entry e (take m es @ [es ! m] @ drop (Suc m) es) = take m es @ ins_entry e [es ! m] @ drop (Suc m) es"
  proof (rule ins_entry_append)
    fix x assume "x \<in> set (take m es)"
    then show "entry_key x < entry_key e" using entries_sorted_nth [OF srt _ m] k by (auto simp: in_set_conv_nth)
  next
    fix x assume "x \<in> set (drop (Suc m) es)"
    then show "entry_key e < entry_key x"
      using entries_sorted_nth [OF srt, of m] k by (auto simp: in_set_conv_nth)
  qed
  ultimately have "ins_entry e es = take m es @ [e] @ drop (Suc m) es" using k by (simp add: ins_entry_def)
  then show ?thesis using m by (simp add: upd_conv_take_nth_drop)
qed

lemma entry_at_ins_entry: "entry_at (ins_entry e es) q = (if q = entry_key e then Some e else entry_at es q)"
proof (cases "q = entry_key e")
  case True
  have "entry_at (filter (\<lambda>x. entry_key x < entry_key e) es) q = None" using True by (auto simp: entry_at_None)
  then show ?thesis using True by (simp add: ins_entry_def entry_at_append) (simp add: entry_at_def)
next
  case False
  have lt: "entry_at (filter (\<lambda>x. entry_key x < b) es) q = (if q < b then entry_at es q else None)"
    and gt: "entry_at (filter (\<lambda>x. b < entry_key x) es) q = (if b < q then entry_at es q else None)" for b
    by (induction es) (auto simp: entry_at_def)
  have e: "entry_at (e # xs) q = entry_at xs q" for xs using False by (simp add: entry_at_def)
  show ?thesis using False by (auto simp: ins_entry_def entry_at_append lt gt e split: option.splits)
qed

section \<open>The split of a leaf\<close>

text \<open>Entries with equal slices have different lengths, so there are at most ten of them.\<close>

lemma same_slice_close:
  assumes srt: "entries_sorted es" and ok: "list_all entry_ok es" and ij: "i \<le> j" "j < length es"
    and eq: "eslice (es ! i) = eslice (es ! j)"
  shows "j \<le> i + 9"
proof -
  have mono: "entry_key (es ! a) \<le> entry_key (es ! b)" if "a \<le> b" "b < length es" for a b
    using entries_sorted_nth [OF srt, of a b] that by (cases "a = b") auto
  have "i + d < length es \<and> i + d \<le> j \<Longrightarrow> elen (es ! i) + d \<le> elen (es ! (i + d))" for d
  proof (induction d)
    case (Suc d)
    have "eslice (es ! (i + d)) = eslice (es ! j)" "eslice (es ! (i + Suc d)) = eslice (es ! j)"
      using mono [of i "i + d"] mono [of "i + d" j] mono [of i "i + Suc d"] mono [of "i + Suc d" j] Suc.prems ij eq
      by (auto simp: entry_key_def)
    then have "elen (es ! (i + d)) < elen (es ! (i + Suc d))"
      using entries_sorted_nth [OF srt, of "i + d" "i + Suc d"] Suc.prems by (simp add: entry_key_def)
    then show ?case using Suc by simp
  qed simp
  from this [of "j - i"] have "elen (es ! i) + (j - i) \<le> elen (es ! j)" using ij by simp
  moreover have "elen (es ! j) \<le> 9" using ok ij(2) by (simp add: list_all_length entry_ok_def)
  ultimately show ?thesis by simp
qed

lemma left_boundary_spec:
  "left_boundary ks n \<le> n \<and> ks ! left_boundary ks n = ks ! n \<and>
   (left_boundary ks n = 0 \<or> ks ! (left_boundary ks n - 1) \<noteq> ks ! left_boundary ks n)"
  by (induction n) auto

lemma right_boundary_spec:
  "1 \<le> p \<Longrightarrow> p \<le> n \<Longrightarrow> ks ! (p - 1) = a \<Longrightarrow> r = right_boundary n ks p \<Longrightarrow>
   p \<le> r \<and> r \<le> n \<and> ks ! (r - 1) = a \<and> (r = n \<or> ks ! (r - 1) \<noteq> ks ! r)"
proof (induction n ks p arbitrary: r rule: right_boundary.induct)
  case (1 n ks p)
  have u: "right_boundary n ks p = (if p < n then if ks ! (p - 1) \<noteq> ks ! p then p else right_boundary n ks (p + 1) else p)"
    using 1(2) by (simp add: right_boundary.simps [of n ks p])
  show ?case
  proof (cases "p < n \<and> ks ! (p - 1) = ks ! p")
    case True
    then show ?thesis using "1.IH" [of r] "1.prems" u by auto
  next
    case False
    then have "r = p" using "1.prems"(4) u by auto
    then show ?thesis using "1.prems" False by auto
  qed
qed

lemma split_point_ok:
  assumes srt: "entries_sorted es" and ok: "list_all entry_ok es" and len: "length es = NKeysPerNode"
    and sp: "sp = split_point (map eslice es)"
  shows "0 < sp" and "sp < NKeysPerNode" and "eslice (es ! (sp - 1)) < eslice (es ! sp)"
proof -
  let ?ks = "map eslice es"
  have N: "NKeysPerNode = 15" "NKeysPerNode div 2 = 7" by (simp_all add: NKeysPerNode_def)
  have l15: "length es = 15" using len N by simp
  define l where "l = left_boundary ?ks 7"
  define r where "r = right_boundary 15 ?ks 7"
  have l: "l \<le> 7" "?ks ! l = ?ks ! 7" "l = 0 \<or> ?ks ! (l - 1) \<noteq> ?ks ! l"
    using left_boundary_spec [of ?ks 7] unfolding l_def by blast+
  have r: "7 \<le> r" "r \<le> 15" "?ks ! (r - 1) = ?ks ! 6" "r = 15 \<or> ?ks ! (r - 1) \<noteq> ?ks ! r"
    using right_boundary_spec [of 7 15 ?ks "?ks ! 6" r] N by (auto simp: r_def)
  have mono: "?ks ! a \<le> ?ks ! b" if "a \<le> b" "b < 15" for a b
    using entries_sorted_nth [OF srt, of a b] that l15 by (cases "a = b") (auto simp: entry_key_def)
  have far: "?ks ! a \<noteq> ?ks ! b" if "a + 9 < b" "b < 15" for a b
    using same_slice_close [OF srt ok, of a b] that l15 by auto
  have "\<not> (l = 0 \<and> r = 15)"
  proof
    assume "l = 0 \<and> r = 15"
    then have "?ks ! 0 = ?ks ! 7" "?ks ! 14 = ?ks ! 6" using l r by simp_all
    then have "?ks ! 0 = ?ks ! 14" using mono [of 0 6] mono [of 6 7] by simp
    then show False using far [of 0 14] by simp
  qed
  moreover have "sp = (if min l (15 - l) < min r (15 - r) then r else l)" by (simp add: sp split_point_def N l_def r_def Let_def)
  ultimately have s: "0 < sp" "sp < 15" "?ks ! (sp - 1) \<noteq> ?ks ! sp" using l r by (auto split: if_splits)
  then show "0 < sp" "sp < NKeysPerNode" using N by simp_all
  show "eslice (es ! (sp - 1)) < eslice (es ! sp)" using s mono [of "sp - 1" sp] l15 by simp
qed
lemma new_entry_simps [simp]: "entry_key (new_entry k v) = slice_key k" "eslice (new_entry k v) = slice k" "entry_ok (new_entry k v)"
  "eslot (new_entry k v) = Inl v"
  by (auto simp: new_entry_def entry_key_def slice_key_def entry_ok_def is_layer_def kslicelen_def shift_def)

lemma entries_sorted_append:
  "entries_sorted (xs @ ys) \<longleftrightarrow> entries_sorted xs \<and> entries_sorted ys \<and> (\<forall>x \<in> set xs. \<forall>y \<in> set ys. entry_key x < entry_key y)"
  by (simp add: entries_sorted_alt sorted_wrt_append)

lemma put_at_split:
  assumes "c \<le> length xs" and "s \<le> length xs"
  shows "s \<le> c \<Longrightarrow> take s xs @ put_at (c - s) x (drop s xs) = put_at c x xs"
    and "c \<le> s \<Longrightarrow> put_at c x (take s xs) @ drop s xs = put_at c x xs"
proof -
  show "take s xs @ put_at (c - s) x (drop s xs) = put_at c x xs" if "s \<le> c"
    using append_take_drop_id [of s "take c xs"] assms that by (simp add: put_at_def take_drop)
  show "put_at c x (take s xs) @ drop s xs = put_at c x xs" if "c \<le> s"
    using drop_append [of c "take s xs" "drop s xs"] assms that by (simp add: put_at_def)
qed

lemma leaf_split_spec:
  assumes srt: "entries_sorted es" and ok: "list_all entry_ok es" and len: "length es = NKeysPerNode"
    and c: "splits_at c (map entry_key es) (entry_key e)"
  shows "\<exists>l x r. leaf_split b es c e = Inr (l, x # r) \<and> l \<noteq> [] \<and> l @ x # r = ins_entry e es \<and>
    (\<forall>y \<in> set l. eslice y < eslice x) \<and> length l \<le> NKeysPerNode \<and> length (x # r) \<le> NKeysPerNode"
proof -
  have N: "NKeysPerNode = 15" by (simp add: NKeysPerNode_def)
  have c': "c \<le> length es" and lt: "entry_key (es ! j) < entry_key e" if "j < c" for j using c that by (auto simp: splits_at_def)
  have cl: "c \<le> length es" using c by (simp add: splits_at_def)
  have gt: "entry_key e < entry_key (es ! j)" if "c \<le> j" "j < length es" for j using c that by (simp add: splits_at_def)
  have mono: "eslice (es ! a) \<le> eslice (es ! b)" if "a \<le> b" "b < length es" for a b
    using entries_sorted_nth [OF srt, of a b] that by (cases "a = b") (auto simp: entry_key_def)
  show ?thesis
  proof (cases "\<not> b \<and> eslice (es ! (length es - 1)) < eslice e")
    case True
    have small: "eslice y < eslice e" if y: "y \<in> set es" for y
    proof -
      obtain j where "j < length es" "y = es ! j" using y by (auto simp: in_set_conv_nth)
      then have "eslice y \<le> eslice (es ! (length es - 1))" using mono [of j "length es - 1"] by simp
      then show ?thesis using True le_less_trans by blast
    qed
    then have "ins_entry e es = es @ [e]"
      using ins_entry_append [of es e "[]" "[]"] by (auto simp: ins_entry_def entry_key_def)
    then show ?thesis using True small len N by (intro exI [of _ es] exI [of _ e] exI [of _ "[]"]) (auto simp: leaf_split_def)
  next
    case False
    define sp where "sp = split_point (map eslice es)"
    note sp = split_point_ok [OF srt ok len sp_def]
    show ?thesis
    proof (cases "sp \<le> c \<and> eslice (es ! (sp - 1)) \<noteq> eslice e")
      case right: True
      let ?r = "put_at (c - sp) e (drop sp es)"
      have "leaf_split b es c e = Inr (take sp es, ?r)" using False right sp(1) by (auto simp: leaf_split_def Let_def sp_def [symmetric])
      moreover have "take sp es @ ?r = ins_entry e es"
        using put_at_split(1) [of c es sp e] right put_at_ins_entry [OF c] cl sp(2) len by simp
      moreover have "length ?r \<le> NKeysPerNode" "length (take sp es) \<le> NKeysPerNode" "take sp es \<noteq> []"
        using sp len right cl by (auto simp: put_at_def N)
      moreover obtain x r where xr: "?r = x # r" by (cases ?r) (auto simp: put_at_def)
      moreover have "eslice (es ! (sp - 1)) < eslice x"
      proof (cases "c = sp")
        case True
        then have "x = e" using xr by (simp add: put_at_def)
        then show ?thesis using right lt [of "sp - 1"] True sp(1) by (auto simp: entry_key_def)
      next
        case False
        then have "x = es ! sp" using xr right sp(2) len Cons_nth_drop_Suc [of sp es, symmetric] by (cases "c - sp") (auto simp: put_at_def)
        then show ?thesis using sp(3) by simp
      qed
      moreover have "eslice y \<le> eslice (es ! (sp - 1))" if "y \<in> set (take sp es)" for y
        using that mono [of _ "sp - 1"] sp len by (auto simp: in_set_conv_nth)
      ultimately show ?thesis by (intro exI [of _ "take sp es"] exI [of _ x] exI [of _ r]) (auto intro: le_less_trans)
    next
      case left: False
      have csp: "c \<le> sp"
      proof (rule ccontr)
        assume "\<not> c \<le> sp"
        then have "eslice (es ! (sp - 1)) = eslice e" "entry_key (es ! sp) < entry_key e" using left lt by auto
        then show False using sp(3) by (auto simp: entry_key_def)
      qed
      have r: "drop sp es = es ! sp # drop (Suc sp) es" using sp(2) len by (simp add: Cons_nth_drop_Suc)
      have "leaf_split b es c e = Inr (put_at c e (take sp es), drop sp es)"
        using False left sp(1) csp by (auto simp: leaf_split_def Let_def sp_def [symmetric])
      moreover have "put_at c e (take sp es) @ drop sp es = ins_entry e es"
        using put_at_split(2) [of c es sp e] put_at_ins_entry [OF c] cl csp sp(2) len by simp
      moreover have "eslice e < eslice (es ! sp)"
      proof (cases "c = sp")
        case True
        then show ?thesis using left sp by auto
      next
        case False
        then have "entry_key e < entry_key (es ! (sp - 1))" using gt [of "sp - 1"] csp sp len by simp
        then show ?thesis using sp(3) by (auto simp: entry_key_def)
      qed
      moreover have "eslice y < eslice (es ! sp)" if "y \<in> set (take sp es)" for y
        using that mono [of _ "sp - 1"] sp len by (auto simp: in_set_conv_nth intro!: le_less_trans [OF _ sp(3)])
      moreover have "\<forall>y \<in> set (put_at c e (take sp es)). eslice y < eslice (es ! sp)"
        using calculation(3,4) csp set_take_subset_set_take [of c sp es] by (auto simp: put_at_def min_def dest!: in_set_dropD)
      moreover have "length (put_at c e (take sp es)) \<le> NKeysPerNode" "length (drop sp es) \<le> NKeysPerNode" "put_at c e (take sp es) \<noteq> []"
        using sp len csp by (auto simp: put_at_def)
      ultimately show ?thesis unfolding r by blast
    qed
  qed
qed

section \<open>What an insertion leaves behind\<close>

definition ins_flat :: "'v insert_ret \<Rightarrow> ('v, 'v bnode) entry list" where
  "ins_flat r = flat (ins_node r) @ (case ins_status r of I_SPLIT sk n \<Rightarrow> flat n | _ \<Rightarrow> [])"

definition ins_wf :: "nat \<Rightarrow> bool \<Rightarrow> u64 option \<Rightarrow> u64 option \<Rightarrow> 'v insert_ret \<Rightarrow> bool" where
  "ins_wf h root lo hi r \<longleftrightarrow>
     (case ins_status r of
        I_SPLIT sk n \<Rightarrow> lt_opt lo (Some sk) \<and> lt_opt (Some sk) hi \<and> node_wf h False lo (Some sk) (ins_node r) \<and>
                        node_wf h False (Some sk) hi n
      | _ \<Rightarrow> node_wf h root lo hi (ins_node r))"

lemma leaf_add_spec:
  assumes w: "node_wf 0 root lo hi (Leaf i ver mk es)" and c: "splits_at c (map entry_key es) (slice_key k)"
    and b: "in_bounds lo hi (slice k)"
  shows "\<exists>r. leaf_add f nx i ver mk es c k v = Inr r \<and> ins_wf 0 root lo hi r \<and> ins_flat r = ins_entry (new_entry k v) es \<and>
    ins_old r = None \<and> ins_status r \<noteq> I_NONE_NOMOD"
proof -
  let ?e = "new_entry k v"
  have ok: "length es \<le> NKeysPerNode" "entries_sorted es" "list_all entry_ok es" "list_all (\<lambda>e. in_bounds lo hi (eslice e)) es"
    "mk = (case lo of None \<Rightarrow> 0 | Some l \<Rightarrow> l)" "root \<longrightarrow> lo = None \<and> hi = None"
    and lay: "\<forall>e \<in> set es. \<forall>n. eslot e = Inr n \<longrightarrow> btree_ok n" using w by (auto simp: wf_leaf leaf_ok_def)
  have c': "splits_at c (map entry_key es) (entry_key ?e)" using c by simp
  have srt: "entries_sorted (ins_entry ?e es)" by (rule ins_entry_sorted [OF ok(2)])
  have all: "entry_ok x" "in_bounds lo hi (eslice x)" "\<forall>n. eslot x = Inr n \<longrightarrow> btree_ok n" if "x \<in> set (ins_entry ?e es)" for x
    using ins_entry_set [OF that] ok(3,4) lay b by (auto simp: list_all_iff)
  show ?thesis
  proof (cases "length es < NKeysPerNode")
    case True
    have "put_at c ?e es = ins_entry ?e es" by (rule put_at_ins_entry [OF c'])
    moreover have "length (put_at c ?e es) \<le> NKeysPerNode" using True by (simp add: put_at_def)
    moreover have "put_at c ?e es \<noteq> []" by (simp add: put_at_def)
    ultimately have "node_wf 0 root lo hi (Leaf i (bump ver) mk (put_at c ?e es))"
      using srt all ok(5,6) by (simp add: wf_leaf leaf_ok_def list_all_iff)
    then show ?thesis using True \<open>put_at c ?e es = ins_entry ?e es\<close> by (simp add: leaf_add_def ins_wf_def ins_flat_def)
  next
    case False
    then have len: "length es = NKeysPerNode" using ok(1) by simp
    obtain l x r where sp: "leaf_split nx es c ?e = Inr (l, x # r)" "l \<noteq> []" "l @ x # r = ins_entry ?e es"
      "\<forall>y \<in> set l. eslice y < eslice x" "length l \<le> NKeysPerNode" "length (x # r) \<le> NKeysPerNode"
      using leaf_split_spec [OF ok(2,3) len c'] by blast
    have s: "entries_sorted l" "entries_sorted (x # r)" using srt sp(3) by (metis entries_sorted_append)+
    have in_l: "x \<in> set (ins_entry ?e es)" "\<And>y. y \<in> set l \<Longrightarrow> y \<in> set (ins_entry ?e es)" "\<And>y. y \<in> set (x # r) \<Longrightarrow> y \<in> set (ins_entry ?e es)"
      unfolding sp(3) [symmetric] by auto
    have lay_l: "\<forall>e \<in> set l. \<forall>n. eslot e = Inr n \<longrightarrow> btree_ok n" using all(3) in_l(2) by blast
    have lay_r: "\<forall>e \<in> set (x # r). \<forall>n. eslot e = Inr n \<longrightarrow> btree_ok n" using all(3) in_l(3) by blast
    have ge: "eslice x \<le> eslice y" if "y \<in> set (x # r)" for y
      using s(2) that by (auto simp: entries_sorted_alt entry_key_def)
    have lo: "lt_opt lo (Some (eslice x))"
    proof -
      obtain y where "y \<in> set l" using sp(2) by (cases l) auto
      then show ?thesis using all(2) in_l(2) sp(4) by (cases lo) (auto simp: in_bounds_def intro: le_less_trans)
    qed
    moreover have "lt_opt (Some (eslice x)) hi" using all(2) [OF in_l(1)] by (simp add: in_bounds_Some)
    moreover have "node_wf 0 False lo (Some (eslice x)) (Leaf i (bump ver) mk l)"
    proof -
      have "in_bounds lo (Some (eslice x)) (eslice y)" if "y \<in> set l" for y
        using all(2) [OF in_l(2) [OF that]] sp(4) that by (simp add: in_bounds_def)
      then show ?thesis using s(1) sp(2,5) all(1) in_l(2) lay_l ok(5) unfolding wf_leaf leaf_ok_def list_all_iff by simp
    qed
    moreover have "node_wf 0 False (Some (eslice x)) hi (Leaf f 0 (eslice x) (x # r))"
    proof -
      have "in_bounds (Some (eslice x)) hi (eslice y)" if "y \<in> set (x # r)" for y
        using all(2) [OF in_l(3) [OF that]] ge [OF that] by (simp add: in_bounds_def)
      then show ?thesis using s(2) sp(6) all(1) in_l(3) lay_r unfolding wf_leaf leaf_ok_def list_all_iff by simp
    qed
    ultimately show ?thesis using sp False by (simp add: leaf_add_def ins_wf_def ins_flat_def)
  qed
qed

text \<open>The three cases of the split of an internal node put the new key and child in place and cut in the middle.\<close>

lemma int_split_alt:
  assumes "c \<le> length ks" and "length ks = NKeysPerNode" and "length cs = NKeysPerNode + 1"
  shows "int_split c sk n ks cs =
    (put_at c sk ks ! NMinKeysPerNode, take NMinKeysPerNode (put_at c sk ks), take (NMinKeysPerNode + 1) (put_at (c + 1) n cs),
     drop (NMinKeysPerNode + 1) (put_at c sk ks), drop (NMinKeysPerNode + 1) (put_at (c + 1) n cs))"
proof -
  have N: "NKeysPerNode = 15" "NMinKeysPerNode = 7" by (simp_all add: NKeysPerNode_def NMinKeysPerNode_def)
  consider "c < 7" | "c = 7" | "7 < c" by linarith
  then show ?thesis
  proof cases
    case 1
    then show ?thesis using assms by (simp add: int_split_def put_at_def N nth_append take_Cons' drop_Cons' min_def drop_take)
  next
    case 2
    then show ?thesis using assms by (simp add: int_split_def put_at_def N nth_append)
  next
    case 3
    then show ?thesis using assms by (simp add: int_split_def put_at_def N nth_append drop_take)
  qed
qed

lemma kids_before_lo: "kids_before P lo ks cs m \<Longrightarrow> m = lo_at lo ks (length ks)"
  by (induction P lo ks cs m rule: kids_before.induct) (auto simp: lo_at_def nth_Cons')

lemma wf_split_child:
  assumes w: "node_wf h r lo hi (Internal i v ks cs)" and c: "c \<le> length ks"
  obtains A B C x D m where "ks = A @ B" "cs = C @ x # D" "length A = c" "length C = c"
    "kids_before (node_wf (h - 1) False) lo A C m" "kids (node_wf (h - 1) False) m B (x # D) hi"
    "m = lo_at lo ks c" "x = cs ! c" "D = drop (c + 1) cs" "C = take c cs"
proof -
  have k: "kids (node_wf (h - 1) False) lo ks cs hi" and len: "length cs = Suc (length ks)"
    using w kids_length by (auto simp: wf_kids)
  have cs: "cs = take c cs @ cs ! c # drop (c + 1) cs" using c len by (simp add: id_take_nth_drop)
  have eq: "length (take c ks) = length (take c cs)" using c len by simp
  have "kids (node_wf (h - 1) False) lo (take c ks @ drop c ks) (take c cs @ cs ! c # drop (c + 1) cs) hi" using k cs by simp
  then obtain m where m: "kids_before (node_wf (h - 1) False) lo (take c ks) (take c cs) m" "kids (node_wf (h - 1) False) m (drop c ks) (cs ! c # drop (c + 1) cs) hi"
    using iffD1 [OF kids_append_before [OF eq]] by blast
  have "m = lo_at lo ks c" using kids_before_lo [OF m(1)] c by (simp add: lo_at_def)
  then show ?thesis using m cs c len by (intro that [of "take c ks" "drop c ks" "take c cs" "cs ! c" "drop (c + 1) cs" m]) auto
qed

lemma key_lower_bound_unique:
  assumes "sorted_wrt (<) ks" and "\<And>j. j < c \<Longrightarrow> ks ! j \<le> k" and "\<And>j. c \<le> j \<Longrightarrow> j < length ks \<Longrightarrow> k < ks ! j" and "c \<le> length ks"
  shows "child_idx (key_lower_bound_search ks k) = c"
proof -
  define d where "d = child_idx (key_lower_bound_search ks k)"
  note d = key_lower_bound_spec [OF assms(1) d_def]
  have "\<not> d < c" using d(3) [of d] assms(2) [of d] assms(4) by (meson le_refl less_le_trans leD)
  moreover have "\<not> c < d" using d(1) d(2) [of c] assms(3) [of c] by (meson le_refl less_le_trans leD)
  ultimately show ?thesis by (simp add: d_def)
qed

lemma kids_cut:
  assumes k: "kids P lo ks cs hi" and p: "p < length ks"
  shows "kids P lo (take p ks) (take (Suc p) cs) (Some (ks ! p))" and "kids P (Some (ks ! p)) (drop (Suc p) ks) (drop (Suc p) cs) hi"
proof -
  have "ks = take p ks @ ks ! p # drop (Suc p) ks" using p by (simp add: id_take_nth_drop)
  moreover have "length (take (Suc p) cs) = Suc (length (take p ks))" using p kids_length [OF k] by simp
  ultimately have "kids P lo (take p ks) (take (Suc p) cs) (Some (ks ! p)) \<and> kids P (Some (ks ! p)) (drop (Suc p) ks) (drop (Suc p) cs) hi"
    using k kids_append [of "take (Suc p) cs" "take p ks" P lo "ks ! p" "drop (Suc p) ks" "drop (Suc p) cs" hi]
    by (metis append_take_drop_id)
  then show "kids P lo (take p ks) (take (Suc p) cs) (Some (ks ! p))" "kids P (Some (ks ! p)) (drop (Suc p) ks) (drop (Suc p) cs) hi"
    by simp_all
qed

lemma int_done_spec:
  assumes w: "node_wf h root lo hi (Internal i ver ks cs)" and c: "c \<le> length ks"
    and r: "ins_wf (h - 1) False (lo_at lo ks c) (hi_at hi ks c) r"
  shows "\<exists>r'. int_done i ver ks cs c r = Inr r' \<and> ins_wf h root lo hi r' \<and>
    ins_flat r' = concat (map flat (take c cs)) @ ins_flat r @ concat (map flat (drop (c + 1) cs)) \<and>
    ins_old r' = ins_old r \<and> ins_info r' = ins_info r \<and> (ins_status r' = I_NONE_NOMOD \<longleftrightarrow> ins_status r = I_NONE_NOMOD)"
proof -
  let ?P = "node_wf (h - 1) False"
  obtain A B C x D m where sp: "ks = A @ B" "cs = C @ x # D" "length A = c" "length C = c"
    "kids_before ?P lo A C m" "kids ?P m B (x # D) hi" "m = lo_at lo ks c" "x = cs ! c" "D = drop (c + 1) cs" "C = take c cs"
    using wf_split_child [OF w c] by blast
  have clen: "c < length cs" using w c by (simp add: wf_internal int_ok_def)
  have cs': "cs[c := y] = C @ y # D" for y using upd_conv_take_nth_drop [OF clen, of y] by (simp add: sp(9,10))
  have cnt: "0 < h" "length ks \<le> NKeysPerNode" "(if root then 1 else NMinKeysPerNode) \<le> length ks" using w by (simp_all add: wf_kids)
  have hi: "hi_at hi ks c = (case B of [] \<Rightarrow> hi | b # _ \<Rightarrow> Some b)" using sp by (auto simp: hi_at_def nth_append split: list.splits)
  have repl: "kids ?P m B (y # D) hi" if "?P m (hi_at hi ks c) y" for y
    using sp(6) that hi by (cases B; cases D) auto
  have all: "kids ?P lo ks (cs[c := y]) hi" if "?P m (hi_at hi ks c) y" for y
    unfolding cs' sp(1) using repl [OF that] sp(3,4,5) by (subst kids_append_before) auto
  have tk: "take c cs = C" "drop (Suc c) cs = D" using sp(9,10) by simp_all
  show ?thesis
  proof (cases "ins_status r")
    case I_NONE_NOMOD
    then have "kids ?P lo ks (C @ ins_node r # D) hi" using r all [of "ins_node r"] sp(7) by (simp add: ins_wf_def cs')
    then show ?thesis using I_NONE_NOMOD cnt cs' by (simp add: int_done_def ins_wf_def ins_flat_def wf_kids tk)
  next
    case I_NONE_MOD
    then have "kids ?P lo ks (C @ ins_node r # D) hi" using r all [of "ins_node r"] sp(7) by (simp add: ins_wf_def cs')
    then show ?thesis using I_NONE_MOD cnt cs' by (simp add: int_done_def ins_wf_def ins_flat_def wf_kids tk)
  next
    case (I_SPLIT sk n)
    let ?ks = "A @ sk # B" and ?cs = "(C @ [ins_node r]) @ n # D"
    have sk: "lt_opt m (Some sk)" "lt_opt (Some sk) (hi_at hi ks c)" "?P m (Some sk) (ins_node r)" "?P (Some sk) (hi_at hi ks c) n"
      using r I_SPLIT sp(7) by (simp_all add: ins_wf_def)
    have "kids ?P (Some sk) B (n # D) hi" using sp(6) sk hi by (cases B; cases D) auto
    then have k': "kids ?P lo ?ks ?cs hi" using sp(3-5) sk kids_append_before [of A C ?P lo "sk # B" "ins_node r # n # D" hi] by auto
    have put: "put_at c sk ks = ?ks" "put_at (c + 1) n (cs[c := ins_node r]) = ?cs" using sp(1,3,4) cs' by (simp_all add: put_at_def)
    have ne: "ks \<noteq> []" using cnt(3) by (auto simp: NMinKeysPerNode_def NKeysPerNode_def split: if_splits)
    show ?thesis
    proof (cases "length ks < NKeysPerNode")
      case True
      then show ?thesis using I_SPLIT cnt k' put ne sp(1) by (simp add: int_done_def Let_def ins_wf_def ins_flat_def wf_kids tk)
    next
      case False
      then have len: "length ks = NKeysPerNode" "length cs = NKeysPerNode + 1" using cnt(2) w by (auto simp: wf_internal int_ok_def)
      have N: "NKeysPerNode = 15" "NMinKeysPerNode = 7" by (simp_all add: NKeysPerNode_def NMinKeysPerNode_def)
      have idx: "child_idx (key_lower_bound_search ks sk) = c"
      proof (rule key_lower_bound_unique)
        show "sorted_wrt (<) ks" using w by (auto simp: wf_kids kids_iff)
        have "sorted_wrt (<) ?ks" using k' by (auto simp: kids_iff)
        then show "ks ! j \<le> sk" if "j < c" for j using that sp(1,3) by (auto simp: sorted_wrt_append nth_append intro: less_imp_le)
        show "sk < ks ! j" if "c \<le> j" "j < length ks" for j
          using \<open>sorted_wrt (<) ?ks\<close> that sp(1,3) by (auto simp: sorted_wrt_append nth_append)
      qed (rule c)
      let ?up = "?ks ! 7"
      have l16: "length ?ks = 16" "length ?cs = 17" using len N sp(1,3,4) arg_cong [OF sp(2), of length] by simp_all
      have k: "kids ?P lo (take 7 ?ks) (take 8 ?cs) (Some ?up)" "kids ?P (Some ?up) (drop 8 ?ks) (drop 8 ?cs) hi"
        using kids_cut [OF k', of 7] l16 by (simp_all add: numeral_eq_Suc)
      have sp8: "int_split c sk n ks (cs[c := ins_node r]) = (?up, take 7 ?ks, take 8 ?cs, drop 8 ?ks, drop 8 ?cs)"
        using int_split_alt [of c ks "cs[c := ins_node r]" sk n] c len unfolding put N by simp
      have "concat (map flat (take 8 ?cs)) @ concat (map flat (drop 8 ?cs)) = concat (map flat ?cs)"
        by (metis append_take_drop_id concat_append map_append)
      moreover have "int_done i ver ks cs c r =
          Inr (Ins (I_SPLIT ?up (Internal (ins_fresh r) 0 (drop 8 ?ks) (drop 8 ?cs))) (Internal i (bump ver) (take 7 ?ks) (take 8 ?cs))
            (ins_old r) (ins_info r) (ins_fresh r + 1))"
        using I_SPLIT False ne idx sp8 by (simp add: int_done_def Let_def)
      moreover have "length (take 7 ?ks) = 7" "length (drop 8 ?ks) = 8" unfolding length_take length_drop l16 by simp_all
      then have "node_wf h False lo (Some ?up) (Internal i (bump ver) (take 7 ?ks) (take 8 ?cs))"
        "node_wf h False (Some ?up) hi (Internal (ins_fresh r) 0 (drop 8 ?ks) (drop 8 ?cs))"
        unfolding wf_kids using k cnt(1) by (simp_all only: N, simp_all)
      ultimately show ?thesis using kids_lt [OF k(1)] kids_lt [OF k(2)] I_SPLIT by (simp add: ins_wf_def ins_flat_def tk)
    qed
  qed
qed

section \<open>Insertion updates the map\<close>

definition entry_val :: "('v, 'v bnode) entry \<Rightarrow> bytes \<Rightarrow> 'v option" where
  "entry_val e k =
     (case eslot e of
        Inl x \<Rightarrow> if kslicelen k = 9 \<and> esuffix e \<noteq> shift k then None else Some x
      | Inr n \<Rightarrow> if kslicelen k = 9 then lookup n (shift k) else None)"

lemma lookup_entry: "lookup t k = (case entry_at (flat t) (slice_key k) of None \<Rightarrow> None | Some e \<Rightarrow> entry_val e k)"
  by (subst lookup.simps) (simp add: entry_val_def split: option.splits sum.splits)

lemma wf_height: "node_wf h r lo hi t \<Longrightarrow> height t = h"
proof (induction t arbitrary: h r lo hi rule: height.induct)
  case (1 i v mk es)
  then show ?case by (simp add: wf_leaf)
next
  case (2 i v ks)
  then show ?case by (simp add: wf_internal int_ok_def)
next
  case (3 i v ks c cs)
  then show ?case by (auto simp: wf_internal dest!: spec [of _ 0])
qed

lemma wf_btree_ok: "node_wf h True None None t \<Longrightarrow> btree_ok t"
  using wf_height by (fastforce simp: btree_ok_def)

definition ins_val :: "bool \<Rightarrow> 'v \<Rightarrow> 'v option \<Rightarrow> 'v" where
  "ins_val oia v old = (if oia then (case old of None \<Rightarrow> v | Some x \<Rightarrow> x) else v)"

definition ins_post :: "nat \<Rightarrow> bool \<Rightarrow> u64 option \<Rightarrow> u64 option \<Rightarrow> 'v bnode \<Rightarrow> bytes \<Rightarrow> 'v \<Rightarrow> bool \<Rightarrow> 'v insert_ret \<Rightarrow> bool" where
  "ins_post h root lo hi t k v oia r \<longleftrightarrow>
     ins_wf h root lo hi r \<and> ins_old r = lookup t k \<and> (ins_status r = I_NONE_NOMOD \<longleftrightarrow> lookup t k \<noteq> None) \<and>
     (\<exists>e. ins_flat r = ins_entry e (flat t) \<and> entry_key e = slice_key k \<and>
        (\<forall>k'. slice_key k' = slice_key k \<longrightarrow>
           entry_val e k' = (if k' = k then Some (ins_val oia v (lookup t k)) else lookup t k')))"

lemma ins_post_lookup:
  assumes p: "ins_post h root lo hi t k v oia r" and f: "flat t' = ins_flat r"
  shows "lookup t' k' = (if k' = k then Some (ins_val oia v (lookup t k)) else lookup t k')"
proof -
  obtain e where e: "ins_flat r = ins_entry e (flat t)" "entry_key e = slice_key k"
    "\<forall>k'. slice_key k' = slice_key k \<longrightarrow> entry_val e k' = (if k' = k then Some (ins_val oia v (lookup t k)) else lookup t k')"
    using p unfolding ins_post_def by blast
  have "entry_at (flat t') (slice_key k') = (if slice_key k' = slice_key k then Some e else entry_at (flat t) (slice_key k'))"
    using e(1,2) f by (simp add: entry_at_ins_entry)
  then show ?thesis using e(3) lookup_entry [of t' k'] lookup_entry [of t k'] by auto
qed

text \<open>The root of a layer after an insertion.\<close>

definition ins_root :: "'v insert_ret \<Rightarrow> 'v bnode" where
  "ins_root r = (case ins_status r of I_SPLIT sk n \<Rightarrow> Internal (ins_fresh r) 0 [sk] [ins_node r, n] | _ \<Rightarrow> ins_node r)"

lemma ins_root_ok:
  assumes "ins_wf h True None None r"
  shows "btree_ok (ins_root r)" and "flat (ins_root r) = ins_flat r"
proof -
  have N: "Suc 0 \<le> NKeysPerNode" by (simp add: NKeysPerNode_def)
  show "btree_ok (ins_root r)"
  proof (cases "ins_status r")
    case (I_SPLIT sk n)
    then have "node_wf (Suc h) True None None (ins_root r)" using assms N by (simp add: ins_root_def ins_wf_def wf_kids)
    then show ?thesis by (rule wf_btree_ok)
  qed (use assms in \<open>auto simp: ins_root_def ins_wf_def intro: wf_btree_ok\<close>)
  show "flat (ins_root r) = ins_flat r" by (simp add: ins_root_def ins_flat_def split: insert_status.splits)
qed

lemma leaf_replace:
  assumes w: "node_wf h r lo hi (Leaf i v mk es)" and m: "m < length es" and e: "entry_key e = entry_key (es ! m)" "entry_ok e"
    "\<forall>n. eslot e = Inr n \<longrightarrow> btree_ok n"
  shows "node_wf h r lo hi (Leaf i v' mk (es[m := e]))" and "es[m := e] = ins_entry e es"
proof -
  have s: "entries_sorted es" using w by (simp add: wf_leaf leaf_ok_def)
  show eq: "es[m := e] = ins_entry e es" by (rule ins_entry_replace [OF s m e(1)])
  have "eslice e = eslice (es ! m)" using e(1) by (simp add: entry_key_def)
  then have "in_bounds lo hi (eslice e)" using w m by (simp add: wf_leaf leaf_ok_def list_all_length)
  then have "\<forall>x \<in> set (es[m := e]). entry_ok x \<and> in_bounds lo hi (eslice x) \<and> (\<forall>n. eslot x = Inr n \<longrightarrow> btree_ok n)"
    using w e set_update_subset_insert [of es m e] by (auto simp: wf_leaf leaf_ok_def list_all_iff dest!: subsetD)
  moreover have "entries_sorted (es[m := e])" unfolding eq by (rule ins_entry_sorted [OF s])
  ultimately show "node_wf h r lo hi (Leaf i v' mk (es[m := e]))" using w by (simp add: wf_leaf leaf_ok_def list_all_iff)
qed

lemma lookup_single: "lookup (Leaf f w mk [new_entry s x]) q = (if q = s then Some x else None)"
proof -
  let ?e = "new_entry s x :: ('a, 'a bnode) entry"
  have "entry_at [?e] (slice_key q) = (if slice_key q = slice_key s then Some ?e else None)"
    by (auto simp: entry_at_def)
  moreover have "entry_val ?e q = (if q = s then Some x else None)" if "slice_key q = slice_key s"
    using slice_key_inj [OF that] that by (auto simp: entry_val_def new_entry_def slice_key_def)
  ultimately show ?thesis by (auto simp: lookup_entry)
qed

lemma insert0_no_split:
  assumes "length es < NKeysPerNode" and "insert0 f (Leaf i ver mk es) rs k v oia = Inr r"
  shows "ins_status r \<noteq> I_SPLIT sk n"
proof -
  have "ins_status (layer_done i ver mk es m r') \<noteq> I_SPLIT sk n" for m r' by (simp add: layer_done_def split: insert_status.splits)
  then have L: "Inr (layer_done i ver mk es m r') = Inr r \<Longrightarrow> ins_status r \<noteq> I_SPLIT sk n" for m r' by auto
  obtain mo lb where F: "FindRespLeafLowerBound es (slice k) (kslicelen k) = (mo, lb)" by fastforce
  show ?thesis
  proof (cases mo)
    case None
    then show ?thesis using assms F by (auto simp: insert0.simps(1) leaf_add_def split: if_splits)
  next
    case (Some m)
    show ?thesis
    proof (cases "eslot (es ! m)")
      case (Inl x)
      then show ?thesis using assms(2) F Some by (auto simp: insert0.simps(1) split: if_splits sum.splits insert_status.splits)
    next
      case (Inr n)
      then show ?thesis using assms(2) F Some L by (simp add: insert0.simps(1) split: if_splits sum.splits)
    qed
  qed
qed

lemma splits_at_ne: "splits_at c xs x \<Longrightarrow> j < length xs \<Longrightarrow> xs ! j \<noteq> x"
  unfolding splits_at_def by (metis less_irrefl not_le_imp_less)

lemma same_key_suffix:
  assumes "slice_key k' = slice_key k" and "k' \<noteq> k"
  shows "kslicelen k = 9" and "kslicelen k' = 9" and "shift k' \<noteq> shift k"
  using slice_key_inj [OF assms(1)] assms by (auto simp: slice_key_def)

lemma ins_post_add:
  assumes w: "node_wf 0 root lo hi (Leaf i ver mk es)" and c: "splits_at c (map entry_key es) (slice_key k)"
    and b: "in_bounds lo hi (slice k)"
  shows "\<exists>r. leaf_add f nx i ver mk es c k v = Inr r \<and> ins_post 0 root lo hi (Leaf i ver mk es) k v oia r"
proof -
  let ?t = "Leaf i ver mk es" and ?e = "new_entry k v :: ('a, 'a bnode) entry"
  have "entry_at es (slice_key k) = None"
    unfolding entry_at_None
  proof
    fix e assume "e \<in> set es"
    then obtain j where "j < length es" "e = es ! j" by (auto simp: in_set_conv_nth)
    then show "entry_key e \<noteq> slice_key k" using splits_at_ne [OF c, of j] by simp
  qed
  then have none: "lookup ?t k' = None" if "slice_key k' = slice_key k" for k' using that by (simp add: lookup_entry)
  have "entry_val ?e k' = (if k' = k then Some (ins_val oia v None) else None)" if "slice_key k' = slice_key k" for k'
    using same_key_suffix [OF that] by (cases "k' = k") (simp_all add: entry_val_def new_entry_def ins_val_def)
  then have e: "\<forall>k'. slice_key k' = slice_key k \<longrightarrow>
      entry_val ?e k' = (if k' = k then Some (ins_val oia v (lookup ?t k)) else lookup ?t k')"
    using none by simp
  obtain r where r: "leaf_add f nx i ver mk es c k v = Inr r" "ins_wf 0 root lo hi r" "ins_flat r = ins_entry ?e es"
    "ins_old r = None" "ins_status r \<noteq> I_NONE_NOMOD"
    using leaf_add_spec [OF w c b] by blast
  have "ins_post 0 root lo hi ?t k v oia r" unfolding ins_post_def
    using r(2-5) none [OF refl] e by (intro conjI exI [of _ ?e]) auto
  then show ?thesis using r(1) by blast
qed

lemma ins_post_replace:
  assumes w: "node_wf 0 root lo hi (Leaf i ver mk es)" and m: "m < length es" "entry_key (es ! m) = slice_key k"
    and e: "entry_key e = slice_key k" "entry_ok e" "\<forall>n. eslot e = Inr n \<longrightarrow> btree_ok n"
    and val: "\<And>k'. slice_key k' = slice_key k \<Longrightarrow>
      entry_val e k' = (if k' = k then Some (ins_val oia v (lookup (Leaf i ver mk es) k)) else entry_val (es ! m) k')"
    and st: "st = I_NONE_NOMOD \<longleftrightarrow> lookup (Leaf i ver mk es) k \<noteq> None" "\<And>sk n. st \<noteq> I_SPLIT sk n"
    and old: "old = lookup (Leaf i ver mk es) k"
  shows "ins_post 0 root lo hi (Leaf i ver mk es) k v oia (Ins st (Leaf i ver' mk (es[m := e])) old info f)"
proof -
  have s: "entries_sorted es" using w by (simp add: wf_leaf leaf_ok_def)
  have lk: "lookup (Leaf i ver mk es) k' = entry_val (es ! m) k'" if "slice_key k' = slice_key k" for k'
    using entry_at_nth [OF s m(1)] m(2) that by (simp add: lookup_entry)
  note u = leaf_replace [OF w m(1) _ e(2,3)]
  have "ins_wf 0 root lo hi (Ins st (Leaf i ver' mk (es[m := e])) old info f)"
    using u(1) e(1) m(2) st(2) by (simp add: ins_wf_def split: insert_status.splits)
  moreover have "ins_flat (Ins st (Leaf i ver' mk (es[m := e])) old info f) = ins_entry e es"
    using u(2) e(1) m(2) st(2) by (simp add: ins_flat_def split: insert_status.splits)
  ultimately show ?thesis unfolding ins_post_def using st(1) old e(1) val lk by (intro conjI exI [of _ e]) auto
qed

lemma insert0_leaf:
  assumes w: "node_wf 0 root lo (next_min rs) (Leaf i ver mk es)" and b: "in_bounds lo (next_min rs) (slice k)"
    and IH: "\<And>f t h. kslicelen k = 9 \<Longrightarrow> node_wf h True None None t \<Longrightarrow>
      \<exists>r. insert0 f t [] (shift k) v oia = Inr r \<and> ins_post h True None None t (shift k) v oia r"
  shows "\<exists>r. insert0 f (Leaf i ver mk es) rs k v oia = Inr r \<and> ins_post 0 root lo (next_min rs) (Leaf i ver mk es) k v oia r"
proof -
  let ?t = "Leaf i ver mk es"
  have s: "entries_sorted es" and ok: "list_all entry_ok es" using w by (simp_all add: wf_leaf leaf_ok_def)
  have here: "\<not> (slice k < mk \<or> (case rs of [] \<Rightarrow> False | r # _ \<Rightarrow> leaf_min r \<le> slice k))"
    using w b by (auto simp: wf_leaf leaf_ok_def in_bounds_def next_min_def split: option.splits list.splits)
  obtain mo lb where F: "FindRespLeafLowerBound es (slice k) (kslicelen k) = (mo, lb)" by fastforce
  note unf = insert0.simps(1) [of f i ver mk es rs k v oia] F here
  show ?thesis
  proof (cases mo)
    case None
    have "splits_at (child_idx lb) (map entry_key es) (slice_key k)"
      using FindResp_spec(2) [OF s F None] by (simp add: slice_key_def)
    then show ?thesis using ins_post_add [OF w _ b] None by (simp add: unf)
  next
    case (Some m)
    have m: "m < length es" "entry_key (es ! m) = slice_key k" using FindResp_spec(1) [OF s F Some] by (simp_all add: slice_key_def)
    have okm: "entry_ok (es ! m)" "elen (es ! m) = kslicelen k"
      using ok m by (simp_all add: list_all_length slice_key_def entry_key_def)
    have lk: "lookup ?t k = entry_val (es ! m) k" using entry_at_nth [OF s m(1)] m(2) by (simp add: lookup_entry)
    show ?thesis
    proof (cases "eslot (es ! m)")
      case (Inl x)
      show ?thesis
      proof (cases "kslicelen k \<le> 8 \<or> esuffix (es ! m) = shift k")
        case True
        let ?e = "if oia then es ! m else set_slot (es ! m) (Inl v)"
        have I: "insert0 f ?t rs k v oia = Inr (Ins I_NONE_NOMOD (Leaf i ver mk (es[m := ?e])) (Some x) None f)"
          using Some Inl True by (simp add: unf)
        have lkx: "lookup ?t k = Some x" using lk Inl True by (auto simp: entry_val_def)
        have "ins_post 0 root lo (next_min rs) ?t k v oia (Ins I_NONE_NOMOD (Leaf i ver mk (es[m := ?e])) (Some x) None f)"
        proof (rule ins_post_replace [OF w m])
          show "entry_key ?e = slice_key k" using m(2) by (simp add: set_slot_def entry_key_def)
          show "entry_ok ?e" using okm(1) Inl by (simp add: entry_ok_def set_slot_def is_layer_def)
          show "\<forall>n. eslot ?e = Inr n \<longrightarrow> btree_ok n" using Inl by (simp add: set_slot_def)
          show "entry_val ?e k' = (if k' = k then Some (ins_val oia v (lookup ?t k)) else entry_val (es ! m) k')"
            if "slice_key k' = slice_key k" for k'
            using same_key_suffix [OF that] that lkx Inl True by (auto simp: entry_val_def set_slot_def ins_val_def)
        qed (use lkx in auto)
        then show ?thesis using I by blast
      next
        case False
        let ?n = "Leaf f 0 0 [new_entry (esuffix (es ! m)) x]"
        have I: "insert0 f ?t rs k v oia = (case insert0 (f + 1) ?n [] (shift k) v oia of
            Inl err \<Rightarrow> Inl err
          | Inr r \<Rightarrow>
              (case ins_status r of
                 I_NONE_MOD \<Rightarrow>
                   Inr (Ins I_NONE_MOD (Leaf i (bump ver) mk (es[m := set_layer (es ! m) (ins_node r)])) (ins_old r) (ins_info r) (ins_fresh r))
               | _ \<Rightarrow> Inl Broken))"
          using Some Inl False by (simp add: unf)
        have k9: "kslicelen k = 9" "esuffix (es ! m) \<noteq> shift k" using False by (auto simp: kslicelen_def)
        have "node_wf 0 True None None ?n"
          by (simp add: wf_leaf leaf_ok_def entries_sorted_def NKeysPerNode_def in_bounds_def)
        then obtain r where r: "insert0 (f + 1) ?n [] (shift k) v oia = Inr r" "ins_post 0 True None None ?n (shift k) v oia r"
          using IH [OF k9(1)] by blast
        have none: "lookup ?n (shift k) = None" using k9(2) by (simp add: lookup_single)
        have st: "ins_status r = I_NONE_MOD"
          using insert0_no_split [OF _ r(1)] r(2) none by (cases "ins_status r") (auto simp: ins_post_def NKeysPerNode_def)
        have wfr: "ins_wf 0 True None None r" using r(2) by (simp add: ins_post_def)
        have nr: "btree_ok (ins_node r)" "flat (ins_node r) = ins_flat r" using ins_root_ok [OF wfr] st by (simp_all add: ins_root_def)
        have sub: "lookup (ins_node r) q = (if q = shift k then Some v else if q = esuffix (es ! m) then Some x else None)" for q
          using ins_post_lookup [OF r(2) nr(2), of q] none by (simp add: lookup_single ins_val_def)
        let ?e = "set_layer (es ! m) (ins_node r)"
        have lkn: "lookup ?t k = None" using lk Inl k9 by (simp add: entry_val_def)
        have "ins_post 0 root lo (next_min rs) ?t k v oia (Ins I_NONE_MOD (Leaf i (bump ver) mk (es[m := ?e])) (ins_old r) (ins_info r) (ins_fresh r))"
        proof (rule ins_post_replace [OF w m])
          show "entry_key ?e = slice_key k" using m(2) by (simp add: set_layer_def entry_key_def)
          show "entry_ok ?e" using okm(2) k9(1) by (simp add: entry_ok_def set_layer_def is_layer_def)
          show "\<forall>n. eslot ?e = Inr n \<longrightarrow> btree_ok n" using nr(1) by (simp add: set_layer_def)
          show "entry_val ?e k' = (if k' = k then Some (ins_val oia v (lookup ?t k)) else entry_val (es ! m) k')"
            if "slice_key k' = slice_key k" for k'
            using same_key_suffix(3) [OF that] that lkn Inl k9(1) sub [of "shift k'"]
            by (auto simp: entry_val_def set_layer_def ins_val_def slice_key_def)
          show "ins_old r = lookup ?t k" using r(2) none lkn by (simp add: ins_post_def)
        qed (use lkn in auto)
        then show ?thesis using I r(1) st by simp
      qed
    next
      case (Inr n)
      have I: "insert0 f ?t rs k v oia = (if kslicelen k \<le> 8 then Inl Broken
          else case insert0 f n [] (shift k) v oia of Inl err \<Rightarrow> Inl err | Inr r \<Rightarrow> Inr (layer_done i ver mk es m r))"
        using Some Inr by (simp add: unf)
      have n: "btree_ok n" "elen (es ! m) = 9" using layer_ok [OF w nth_mem [OF m(1)] Inr] by simp_all
      have k9: "kslicelen k = 9" using n(2) okm(2) by simp
      obtain r where r: "insert0 f n [] (shift k) v oia = Inr r" "ins_post (height n) True None None n (shift k) v oia r"
        using IH [OF k9] n(1) unfolding btree_ok_def by blast
      have wfr: "ins_wf (height n) True None None r" using r(2) by (simp add: ins_post_def)
      note nr = ins_root_ok [OF wfr]
      note sub = ins_post_lookup [OF r(2) nr(2)]
      have lkn: "lookup ?t k = lookup n (shift k)" using lk Inr k9 by (simp add: entry_val_def)
      let ?e = "set_slot (es ! m) (Inr (ins_root r))"
      let ?st = "case ins_status r of I_SPLIT _ _ \<Rightarrow> I_NONE_MOD | s \<Rightarrow> s"
      have "ins_post 0 root lo (next_min rs) ?t k v oia
          (Ins ?st (Leaf i ver mk (es[m := ?e])) (ins_old r) (ins_info r) (ins_fresh (layer_done i ver mk es m r)))"
      proof (rule ins_post_replace [OF w m])
        show "entry_key ?e = slice_key k" using m(2) by (simp add: set_slot_def entry_key_def)
        show "entry_ok ?e" using okm(1) Inr by (simp add: entry_ok_def set_slot_def is_layer_def)
        show "\<forall>n. eslot ?e = Inr n \<longrightarrow> btree_ok n" using nr(1) by (simp add: set_slot_def)
        show "entry_val ?e k' = (if k' = k then Some (ins_val oia v (lookup ?t k)) else entry_val (es ! m) k')"
          if "slice_key k' = slice_key k" for k'
          using same_key_suffix(3) [OF that] that lkn Inr k9 sub [of "shift k'"]
          by (auto simp: entry_val_def set_slot_def slice_key_def)
        show "?st = I_NONE_NOMOD \<longleftrightarrow> lookup ?t k \<noteq> None" using r(2) lkn by (auto simp: ins_post_def split: insert_status.splits)
        show "ins_old r = lookup ?t k" using r(2) lkn by (simp add: ins_post_def)
      qed (simp split: insert_status.splits)
      moreover have "layer_done i ver mk es m r = Ins ?st (Leaf i ver mk (es[m := ?e])) (ins_old r) (ins_info r) (ins_fresh (layer_done i ver mk es m r))"
        by (simp add: layer_done_def ins_root_def split: insert_status.splits)
      ultimately show ?thesis using I k9 r(1) by simp
    qed
  qed
qed

lemma insert0_post:
  "node_wf h root lo (next_min rs) t \<Longrightarrow> in_bounds lo (next_min rs) (slice k) \<Longrightarrow>
   \<exists>r. insert0 f t rs k v oia = Inr r \<and> ins_post h root lo (next_min rs) t k v oia r"
proof (induction "length k" arbitrary: k t rs h root lo f rule: less_induct)
  case less
  have sub: "\<exists>r. insert0 f t [] (shift k) v oia = Inr r \<and> ins_post h True None None t (shift k) v oia r"
    if "kslicelen k = 9" "node_wf h True None None t" for f t h
  proof -
    have "length (shift k) < length k" using that(1) by (auto simp: kslicelen_def shift_def)
    then show ?thesis using less.hyps [of "shift k" h True None "[]" t f] that(2) by (simp add: next_min_def in_bounds_def)
  qed
  show ?case using less.prems
  proof (induction t arbitrary: rs h root lo rule: measure_induct_rule [of size])
    case (less t)
    show ?case
    proof (cases t)
      case (Leaf i ver mk es)
      have "h = 0" using less.prems(1) Leaf by (simp add: wf_leaf)
      then show ?thesis using insert0_leaf [OF _ less.prems(2) sub, of root i ver mk es f] less.prems(1) Leaf by simp
    next
      case (Internal i ver ks cs)
      let ?c = "child_idx (key_lower_bound_search ks (slice k))" and ?hi = "next_min rs"
      note w = less.prems(1) [unfolded Internal]
      note ch = wf_child [OF w refl, where k = "slice k"]
      let ?rs = "concat (map leaves (drop (?c + 1) cs)) @ rs"
      have nm: "next_min ?rs = hi_at ?hi ks ?c" by (rule next_min_child [OF w ch(1)])
      have "size (cs ! ?c) < size t" using size_nth_le [OF ch(2)] Internal by simp
      then obtain r where r: "insert0 f (cs ! ?c) ?rs k v oia = Inr r"
        "ins_post (h - 1) False (lo_at lo ks ?c) (hi_at ?hi ks ?c) (cs ! ?c) k v oia r"
        using less.IH [of "cs ! ?c" "h - 1" False "lo_at lo ks ?c" ?rs] ch(6) ch(7) [OF less.prems(2)] nm by auto
      have lk: "lookup t k' = lookup (cs ! ?c) k'" if "slice k' = slice k" for k'
        using entry_at_child [OF w refl, where k = "slice k"] that Internal by (simp add: lookup_entry slice_key_def del: flat.simps)
      obtain e where e: "ins_flat r = ins_entry e (flat (cs ! ?c))" "entry_key e = slice_key k"
        "\<forall>k'. slice_key k' = slice_key k \<longrightarrow>
           entry_val e k' = (if k' = k then Some (ins_val oia v (lookup (cs ! ?c) k)) else lookup (cs ! ?c) k')"
        using r(2) unfolding ins_post_def by blast
      obtain r' where r': "int_done i ver ks cs ?c r = Inr r'" "ins_wf h root lo ?hi r'"
        "ins_flat r' = concat (map flat (take ?c cs)) @ ins_flat r @ concat (map flat (drop (?c + 1) cs))"
        "ins_old r' = ins_old r" "ins_status r' = I_NONE_NOMOD \<longleftrightarrow> ins_status r = I_NONE_NOMOD"
        using int_done_spec [OF w ch(1), of r] r(2) by (auto simp: ins_post_def)
      have "ins_flat r' = ins_entry e (flat t)"
        unfolding Internal ch(3) r'(3) e(1) using ch(4,5) e(2)
        by (intro ins_entry_append [symmetric]) (simp_all add: entry_key_def slice_key_def prod_eq_iff)
      then have "ins_post h root lo ?hi t k v oia r'"
        unfolding ins_post_def using r' r(2) lk e(2,3) by (intro conjI exI [of _ e]) (auto simp: ins_post_def slice_key_def)
      then show ?thesis using r(1) r'(1) ch(2) Internal by (simp add: insert0.simps(2) Let_def)
    qed
  qed
qed

lemma insert_stable_location_spec:
  assumes ok: "btree_ok t"
  shows "\<exists>r. insert_stable_location f t k v oia = Inr (lookup t k = None, r) \<and> btree_ok (ins_node r) \<and> ins_old r = lookup t k \<and>
    lookup (ins_node r) = (lookup t)(k \<mapsto> ins_val oia v (lookup t k))"
proof -
  have w: "node_wf (height t) True None (next_min []) t" and b: "in_bounds None (next_min []) (slice k)"
    using ok by (simp_all add: btree_ok_def next_min_def in_bounds_def)
  obtain r where r: "insert0 f t [] k v oia = Inr r" "ins_post (height t) True None None t k v oia r"
    using insert0_post [OF w b, of f v oia] by (auto simp: next_min_def)
  have wr: "ins_wf (height t) True None None r" using r(2) by (simp add: ins_post_def)
  note root = ins_root_ok [OF wr]
  have "lookup (ins_root r) = (lookup t)(k \<mapsto> ins_val oia v (lookup t k))"
    using ins_post_lookup [OF r(2) root(2)] by auto
  moreover have "insert_stable_location f t k v oia = Inr (lookup t k = None,
      Ins (if lookup t k = None then I_NONE_MOD else I_NONE_NOMOD) (ins_root r) (ins_old r) (ins_info r)
        (case ins_status r of I_SPLIT _ _ \<Rightarrow> ins_fresh r + 1 | _ \<Rightarrow> ins_fresh r))"
    using r by (cases r; cases "ins_status r") (auto simp: insert_stable_location_def ins_root_def ins_post_def)
  ultimately show ?thesis using root(1) r(2) by (simp add: ins_post_def)
qed

definition demo_long :: "nat bnode" where
  "demo_long = Leaf 0 0 0 [new_entry [1, 2, 3, 4, 5, 6, 7, 8, 9] 7]"

text \<open>
  Property C18 (refinement). Insertion into a well-formed tree returns: the tree stands for the old map with the key
  updated (or for the old map when the key was there and \<^verbatim>\<open>only_if_absent\<close> was given), the result tells whether the key was
  absent, and the old value is reported.
\<close>

theorem insert_updates_map:
  assumes "btree_ok t"
  shows "\<exists>r. insert_stable_location f t k v oia = Inr (lookup t k = None, r) \<and> ins_old r = lookup t k \<and>
    lookup (ins_node r) = (lookup t)(k \<mapsto> (if oia then (case lookup t k of None \<Rightarrow> v | Some x \<Rightarrow> x) else v))"
  using insert_stable_location_spec [OF assms] by (fastforce simp: ins_val_def)

theorem insert_updates_map_witness:
  "btree_ok demo_long \<and>
   (\<exists>r. insert_stable_location 1 demo_long [1, 2, 3, 4, 5, 6, 7, 8, 10] 8 True =
      Inr (lookup demo_long [1, 2, 3, 4, 5, 6, 7, 8, 10] = None, r) \<and> lookup (ins_node r) [1, 2, 3, 4, 5, 6, 7, 8, 9] = Some 7)"
proof -
  have ok: "btree_ok demo_long" and old: "lookup demo_long [1, 2, 3, 4, 5, 6, 7, 8, 9] = Some 7" by code_simp+
  show ?thesis using insert_updates_map [OF ok, of 1 "[1, 2, 3, 4, 5, 6, 7, 8, 10]" 8 True] ok old by fastforce
qed

text \<open>
  Property C20 (type). Insertion keeps the invariant that \<^verbatim>\<open>invariant_checker\<close> asserts: order, ranges and fill of the nodes,
  suffixes, layers, the height of each layer.
\<close>

theorem insert_keeps_invariant:
  assumes "btree_ok t" and "insert_stable_location f t k v oia = Inr (b, r)"
  shows "btree_ok (ins_node r)"
  using insert_stable_location_spec [OF assms(1), of f k v oia] assms(2) by auto

theorem insert_keeps_invariant_witness:
  "\<exists>b r. insert_stable_location 1 demo_long [1, 2, 3, 4, 5, 6, 7, 8, 10] 8 False = Inr (b, r) \<and> btree_ok (ins_node r)"
proof -
  have ok: "btree_ok demo_long" by code_simp
  obtain b r where "insert_stable_location 1 demo_long [1, 2, 3, 4, 5, 6, 7, 8, 10] 8 False = Inr (b, r)"
    using insert_stable_location_spec [OF ok, of 1 "[1, 2, 3, 4, 5, 6, 7, 8, 10]" 8 False] by blast
  then show ?thesis using insert_keeps_invariant [OF ok] by blast
qed

end
