(* ===== verification/Btree_Remove.thy ===== *)
theory Btree_Remove
  imports Btree_Insert
begin

text \<open>
  Removal from the B+-tree (\<^verbatim>\<open>remove0\<close> and \<^verbatim>\<open>remove_stable_location\<close> of \<^verbatim>\<open>src/src/btree_impl.h\<close>): stealing from and merging
  with the neighbours, the loss of a root, and the map of the tree afterwards.
\<close>

section \<open>Operations\<close>

text \<open>\<^verbatim>\<open>sift_left\<close> by one.\<close>

definition del_at :: "nat \<Rightarrow> 'a list \<Rightarrow> 'a list" where
  "del_at i xs = take i xs @ drop (i + 1) xs"

text \<open>The status with the new separator or the new root; the neighbours, the node, and the value removed.\<close>

datatype 'v remove_status = R_NONE_NOMOD | R_NONE_MOD | R_STOLE_FROM_LEFT u64 | R_STOLE_FROM_RIGHT u64
  | R_MERGE_WITH_LEFT | R_MERGE_WITH_RIGHT | R_REPLACE_NODE "'v bnode"

datatype 'v remove_ret = Rem (rem_status: "'v remove_status") (rem_left: "'v bnode option") (rem_node: "'v bnode")
  (rem_right: "'v bnode option") (rem_old: "'v option")

text \<open>A leaf at the minimum with a right neighbour.\<close>

definition leaf_with_right :: "nat \<Rightarrow> u64 \<Rightarrow> u64 \<Rightarrow> ('v, 'v bnode) entry list \<Rightarrow> nat \<Rightarrow>
    nat \<Rightarrow> u64 \<Rightarrow> u64 \<Rightarrow> ('v, 'v bnode) entry list \<Rightarrow> 'v bnode option \<Rightarrow> 'v option \<Rightarrow> btree_error + 'v remove_ret" where
  "leaf_with_right i ver mk es ret ri rver rmk res left old =
     (let n = length es; right_n = length res; sp = right_boundary right_n (map eslice res) 1
      in if right_n > NMinKeysPerNode \<and> n - 1 + sp \<le> NKeysPerNode \<and> sp < right_n
         then Inr (Rem (R_STOLE_FROM_RIGHT (eslice (res ! sp))) left (Leaf i (bump ver) mk (del_at ret es @ take sp res))
                (Some (Leaf ri (bump rver) (eslice (res ! sp)) (drop sp res))) old)
         else if right_n > NMinKeysPerNode \<and> n - 1 + right_n > NKeysPerNode
         then if n > 1
              then Inr (Rem R_NONE_MOD left (Leaf i (bump ver) mk (del_at ret es)) (Some (Leaf ri (bump rver) rmk res)) old)
              else Inl Broken
         else if n - 1 + right_n \<le> NKeysPerNode
         then Inr (Rem R_MERGE_WITH_RIGHT left (Leaf i (bump ver) mk (del_at ret es @ res)) None old)
         else Inl Broken)"

text \<open>A leaf at the minimum that has only a left neighbour.\<close>

definition leaf_with_left :: "nat \<Rightarrow> u64 \<Rightarrow> u64 \<Rightarrow> ('v, 'v bnode) entry list \<Rightarrow> nat \<Rightarrow>
    nat \<Rightarrow> u64 \<Rightarrow> u64 \<Rightarrow> ('v, 'v bnode) entry list \<Rightarrow> 'v option \<Rightarrow> btree_error + 'v remove_ret" where
  "leaf_with_left i ver mk es ret li lver lmk les old =
     (let n = length es; left_n = length les; sp = left_boundary (map eslice les) (left_n - 1); nstolen = left_n - sp
      in if left_n > NMinKeysPerNode \<and> n - 1 + nstolen \<le> NKeysPerNode \<and> sp > 0
         then Inr (Rem (R_STOLE_FROM_LEFT (eslice (les ! sp))) (Some (Leaf li (bump lver) lmk (take sp les)))
                (Leaf i (bump ver) (eslice (les ! sp)) (drop sp les @ del_at ret es)) None old)
         else if left_n > NMinKeysPerNode \<and> left_n + (n - 1) > NKeysPerNode
         then if n > 1
              then Inr (Rem R_NONE_MOD (Some (Leaf li (bump lver) lmk les)) (Leaf i (bump ver) mk (del_at ret es)) None old)
              else Inl Broken
         else if left_n + (n - 1) \<le> NKeysPerNode
         then Inr (Rem R_MERGE_WITH_LEFT (Some (Leaf li (bump lver) lmk (les @ del_at ret es))) (Leaf i ver mk es) None old)
         else Inl Broken)"

text \<open>The entry at position \<open>ret\<close> goes.\<close>

definition leaf_del :: "nat \<Rightarrow> u64 \<Rightarrow> u64 \<Rightarrow> ('v, 'v bnode) entry list \<Rightarrow> nat \<Rightarrow> 'v bnode option \<Rightarrow> 'v bnode option \<Rightarrow>
    'v option \<Rightarrow> btree_error + 'v remove_ret" where
  "leaf_del i ver mk es ret left right old =
     (if length es > NMinKeysPerNode then Inr (Rem R_NONE_MOD left (Leaf i (bump ver) mk (del_at ret es)) right old)
      else case right of
             Some (Leaf ri rver rmk res) \<Rightarrow> leaf_with_right i ver mk es ret ri rver rmk res left old
           | Some (Internal _ _ _ _) \<Rightarrow> Inl Bad_child
           | None \<Rightarrow>
               (case left of
                  Some (Leaf li lver lmk les) \<Rightarrow> leaf_with_left i ver mk es ret li lver lmk les old
                | Some (Internal _ _ _ _) \<Rightarrow> Inl Bad_child
                | None \<Rightarrow> Inr (Rem R_NONE_MOD None (Leaf i (bump ver) mk (del_at ret es)) None old)))"

text \<open>An internal node that lost the separator \<open>ks\<close> and the child \<open>cs\<close> are without, with a right or a left neighbour.\<close>

definition int_with_right :: "nat \<Rightarrow> u64 \<Rightarrow> u64 list \<Rightarrow> 'v bnode list \<Rightarrow> u64 option \<Rightarrow>
    nat \<Rightarrow> u64 \<Rightarrow> u64 list \<Rightarrow> 'v bnode list \<Rightarrow> 'v bnode option \<Rightarrow> 'v option \<Rightarrow> btree_error + 'v remove_ret" where
  "int_with_right i ver ks cs max_key ri rver rks rcs left old =
     (case max_key of
        None \<Rightarrow> Inl Broken
      | Some mxk \<Rightarrow>
          if length rks > NMinKeysPerNode
          then Inr (Rem (R_STOLE_FROM_RIGHT (rks ! 0)) left (Internal i (bump ver) (ks @ [mxk]) (cs @ [rcs ! 0]))
                 (Some (Internal ri (bump rver) (drop 1 rks) (drop 1 rcs))) old)
          else Inr (Rem R_MERGE_WITH_RIGHT left (Internal i (bump ver) (ks @ mxk # rks) (cs @ rcs)) None old))"

definition int_with_left :: "nat \<Rightarrow> u64 \<Rightarrow> u64 list \<Rightarrow> 'v bnode list \<Rightarrow> u64 option \<Rightarrow>
    nat \<Rightarrow> u64 \<Rightarrow> u64 list \<Rightarrow> 'v bnode list \<Rightarrow> 'v option \<Rightarrow> btree_error + 'v remove_ret" where
  "int_with_left i ver ks cs min_key li lver lks lcs old =
     (case min_key of
        None \<Rightarrow> Inl Broken
      | Some mnk \<Rightarrow>
          if length lks > NMinKeysPerNode
          then Inr (Rem (R_STOLE_FROM_LEFT (lks ! (length lks - 1)))
                 (Some (Internal li (bump lver) (take (length lks - 1) lks) (take (length lks) lcs)))
                 (Internal i (bump ver) (mnk # ks) (lcs ! length lks # cs)) None old)
          else Inr (Rem R_MERGE_WITH_LEFT (Some (Internal li (bump lver) (lks @ mnk # ks) (lcs @ cs))) (Internal i ver ks cs) None old))"

text \<open>The separator \<open>dk\<close> and the child \<open>dc\<close> of an internal node go.\<close>

definition int_del :: "nat \<Rightarrow> u64 \<Rightarrow> u64 list \<Rightarrow> 'v bnode list \<Rightarrow> nat \<Rightarrow> nat \<Rightarrow> u64 option \<Rightarrow> u64 option \<Rightarrow>
    'v bnode option \<Rightarrow> 'v bnode option \<Rightarrow> 'v option \<Rightarrow> btree_error + 'v remove_ret" where
  "int_del i ver ks cs dk dc min_key max_key left right old =
     (let n = length ks; ks' = del_at dk ks; cs' = del_at dc cs
      in if n > NMinKeysPerNode then Inr (Rem R_NONE_MOD left (Internal i (bump ver) ks' cs') right old)
         else case right of
                Some (Internal ri rver rks rcs) \<Rightarrow> int_with_right i ver ks' cs' max_key ri rver rks rcs left old
              | Some (Leaf _ _ _ _) \<Rightarrow> Inl Bad_child
              | None \<Rightarrow>
                  (case left of
                     Some (Internal li lver lks lcs) \<Rightarrow> int_with_left i ver ks' cs' min_key li lver lks lcs old
                   | Some (Leaf _ _ _ _) \<Rightarrow> Inl Bad_child
                   | None \<Rightarrow>
                       if n - 1 = 0 then Inr (Rem (R_REPLACE_NODE (cs' ! 0)) None (Internal i (bump ver) ks' cs') None old)
                       else Inr (Rem R_NONE_MOD None (Internal i (bump ver) ks' cs') None old)))"

text \<open>Child \<open>c\<close> and its neighbours as \<open>r\<close> leaves them.\<close>

definition set_children :: "'v bnode list \<Rightarrow> nat \<Rightarrow> 'v remove_ret \<Rightarrow> 'v bnode list" where
  "set_children cs c r =
     (let cs1 = cs[c := rem_node r];
          cs2 = (case rem_left r of None \<Rightarrow> cs1 | Some l \<Rightarrow> cs1[c - 1 := l])
      in case rem_right r of None \<Rightarrow> cs2 | Some x \<Rightarrow> cs2[c + 1 := x])"

definition int_rem :: "nat \<Rightarrow> u64 \<Rightarrow> u64 list \<Rightarrow> 'v bnode list \<Rightarrow> nat \<Rightarrow> u64 option \<Rightarrow> u64 option \<Rightarrow>
    'v bnode option \<Rightarrow> 'v bnode option \<Rightarrow> 'v remove_ret \<Rightarrow> btree_error + 'v remove_ret" where
  "int_rem i ver ks cs c min_key max_key left right r =
     (let cs' = set_children cs c r; old = rem_old r
      in case rem_status r of
           R_NONE_NOMOD \<Rightarrow> Inr (Rem R_NONE_NOMOD left (Internal i ver ks cs') right old)
         | R_NONE_MOD \<Rightarrow> Inr (Rem R_NONE_MOD left (Internal i ver ks cs') right old)
         | R_STOLE_FROM_LEFT nk \<Rightarrow> Inr (Rem R_NONE_MOD left (Internal i ver (ks[c - 1 := nk]) cs') right old)
         | R_STOLE_FROM_RIGHT nk \<Rightarrow> Inr (Rem R_NONE_MOD left (Internal i ver (ks[c := nk]) cs') right old)
         | R_MERGE_WITH_LEFT \<Rightarrow> int_del i ver ks cs' (c - 1) c min_key max_key left right old
         | R_MERGE_WITH_RIGHT \<Rightarrow> int_del i ver ks cs' c (c + 1) min_key max_key left right old
         | R_REPLACE_NODE _ \<Rightarrow> Inl Broken)"

text \<open>\<^verbatim>\<open>remove0\<close>; \<open>rs\<close> are the leaves to the right of the subtree.\<close>

function (sequential) remove0 :: "'v bnode \<Rightarrow> u64 option \<Rightarrow> u64 option \<Rightarrow> bytes \<Rightarrow> 'v bnode option \<Rightarrow> 'v bnode option \<Rightarrow>
    'v bnode list \<Rightarrow> btree_error + 'v remove_ret" where
  "remove0 (Leaf i ver mk es) min_key max_key k left right rs =
     (if slice k < mk \<or> (case rs of [] \<Rightarrow> False | r # _ \<Rightarrow> leaf_min r \<le> slice k) then Inl Leaf_moved
      else case leaf_key_search es (slice k) (kslicelen k) of
             None \<Rightarrow> Inr (Rem R_NONE_NOMOD left (Leaf i ver mk es) right None)
           | Some ret \<Rightarrow>
               (case eslot (es ! ret) of
                  Inr n \<Rightarrow>
                    if kslicelen k \<noteq> 9 then Inl Broken
                    else (case remove0 n None None (shift k) None None [] of
                            Inl err \<Rightarrow> Inl err
                          | Inr r \<Rightarrow>
                              (case rem_status r of
                                 R_NONE_NOMOD \<Rightarrow>
                                   Inr (Rem R_NONE_NOMOD left (Leaf i ver mk (es[ret := set_slot (es ! ret) (Inr (rem_node r))])) right (rem_old r))
                               | R_NONE_MOD \<Rightarrow>
                                   Inr (Rem R_NONE_MOD left (Leaf i ver mk (es[ret := set_slot (es ! ret) (Inr (rem_node r))])) right (rem_old r))
                               | R_REPLACE_NODE x \<Rightarrow>
                                   Inr (Rem R_NONE_MOD left (Leaf i ver mk (es[ret := set_slot (es ! ret) (Inr x)])) right (rem_old r))
                               | _ \<Rightarrow> Inl Broken))
                | Inl x \<Rightarrow>
                    if kslicelen k = 9 \<and> esuffix (es ! ret) \<noteq> shift k
                    then Inr (Rem R_NONE_NOMOD left (Leaf i ver mk es) right None)
                    else leaf_del i ver mk es ret left right (Some x)))"
| "remove0 (Internal i ver ks cs) min_key max_key k left right rs =
     (let c = child_idx (key_lower_bound_search ks (slice k)); n = length ks
      in if c < length cs \<and> (c < n \<longrightarrow> c + 1 < length cs) \<and> 0 < n
         then (case remove0 (cs ! c)
                      (if c = 0 then None else Some (ks ! (c - 1))) (if c = n then None else Some (ks ! c)) k
                      (if c = 0 then None else Some (cs ! (c - 1))) (if c = n then None else Some (cs ! (c + 1)))
                      (concat (map leaves (drop (c + 1) cs)) @ rs) of
                 Inl err \<Rightarrow> Inl err
               | Inr r \<Rightarrow> int_rem i ver ks cs c min_key max_key left right r)
         else Inl Bad_child)"
  by pat_completeness auto
termination
  by (relation "inv_image (less_than <*lex*> less_than) (\<lambda>(t, mnk, mxk, k, l, r, rs). (length k, size t))")
     (auto simp: kslicelen_def shift_def size_nth_le)

declare remove0.simps [simp del]

text \<open>\<^verbatim>\<open>remove_stable_location\<close>: whether a value was removed, the value, and the root afterwards.\<close>

definition remove_stable_location :: "'v bnode \<Rightarrow> bytes \<Rightarrow> btree_error + (bool \<times> 'v option \<times> 'v bnode)" where
  "remove_stable_location t k =
     (case remove0 t None None k None None [] of
        Inl err \<Rightarrow> Inl err
      | Inr r \<Rightarrow>
          (case rem_status r of
             R_NONE_NOMOD \<Rightarrow> Inr (False, rem_old r, rem_node r)
           | R_NONE_MOD \<Rightarrow> Inr (True, rem_old r, rem_node r)
           | R_REPLACE_NODE x \<Rightarrow> Inr (True, rem_old r, x)
           | _ \<Rightarrow> Inl Broken))"

section \<open>Removal from a sorted list of entries\<close>

text \<open>What becomes of the entries: the one with key \<open>q\<close> is gone, or \<open>eo\<close> is in its place.\<close>

definition rem_flat :: "('v, 'n) entry option \<Rightarrow> u64 \<times> nat \<Rightarrow> ('v, 'n) entry list \<Rightarrow> ('v, 'n) entry list" where
  "rem_flat eo q es = (case eo of None \<Rightarrow> filter (\<lambda>x. entry_key x \<noteq> q) es | Some e \<Rightarrow> ins_entry e es)"

lemma rem_flat_append:
  assumes "\<And>x. x \<in> set A \<Longrightarrow> entry_key x < q" and "\<And>x. x \<in> set C \<Longrightarrow> q < entry_key x" and "\<And>e. eo = Some e \<Longrightarrow> entry_key e = q"
  shows "rem_flat eo q (A @ B @ C) = A @ rem_flat eo q B @ C"
proof (cases eo)
  case None
  have "filter (\<lambda>x. entry_key x \<noteq> q) A = A" "filter (\<lambda>x. entry_key x \<noteq> q) C = C"
    using assms(1,2) by (auto simp: filter_id_conv)
  then show ?thesis using None by (simp add: rem_flat_def)
next
  case (Some e)
  have "entry_key e = q" by (rule assms(3) [OF Some])
  then show ?thesis using ins_entry_append [of A e C B] assms(1,2) Some by (simp add: rem_flat_def)
qed

lemma entry_at_rem_flat:
  assumes "\<And>e. eo = Some e \<Longrightarrow> entry_key e = q"
  shows "entry_at (rem_flat eo q es) q' = (if q' = q then eo else entry_at es q')"
proof (cases eo)
  case None
  have "entry_at (filter (\<lambda>x. entry_key x \<noteq> q) es) q' = (if q' = q then None else entry_at es q')"
    by (induction es) (auto simp: entry_at_def)
  then show ?thesis using None by (simp add: rem_flat_def)
next
  case (Some e)
  then show ?thesis using assms [OF Some] by (simp add: rem_flat_def entry_at_ins_entry)
qed

lemma del_at_filter:
  assumes srt: "entries_sorted es" and m: "m < length es"
  shows "del_at m es = filter (\<lambda>x. entry_key x \<noteq> entry_key (es ! m)) es"
proof -
  let ?P = "\<lambda>x. entry_key x \<noteq> entry_key (es ! m)"
  have "filter ?P (take m es) = take m es"
    using entries_sorted_nth [OF srt _ m] by (fastforce simp: filter_id_conv in_set_conv_nth)
  moreover have "filter ?P (drop (Suc m) es) = drop (Suc m) es"
    unfolding filter_id_conv
  proof
    fix x assume "x \<in> set (drop (Suc m) es)"
    then obtain j where "j < length es - Suc m" "x = es ! (Suc m + j)" by (auto simp: in_set_conv_nth)
    then have "entry_key (es ! m) < entry_key x" using entries_sorted_nth [OF srt, of m "Suc m + j"] by (simp add: less_diff_conv)
    then show "?P x" by auto
  qed
  moreover have "filter ?P es = filter ?P (take m es) @ filter ?P (es ! m # drop (Suc m) es)"
    using arg_cong [OF id_take_nth_drop [OF m], of "filter ?P"] by simp
  ultimately show ?thesis by (simp add: del_at_def)
qed

lemma rem_flat_same:
  assumes srt: "entries_sorted es"
  shows "rem_flat (entry_at es q) q es = es"
proof (cases "entry_at es q")
  case None
  then have "\<forall>e \<in> set es. entry_key e \<noteq> q" by (simp add: entry_at_None)
  then show ?thesis unfolding None by (auto simp: rem_flat_def filter_id_conv)
next
  case (Some e)
  then obtain m where m: "m < length es" "e = es ! m" using entry_at_Some [OF Some] by (auto simp: in_set_conv_nth)
  then show ?thesis using ins_entry_replace [OF srt m(1), of e] Some by (simp add: rem_flat_def)
qed

lemma set_del_at: "x \<in> set (del_at m xs) \<Longrightarrow> x \<in> set xs"
  by (auto simp: del_at_def dest: in_set_takeD in_set_dropD)

lemma length_del_at: "m < length xs \<Longrightarrow> length (del_at m xs) = length xs - 1"
  by (simp add: del_at_def)

section \<open>Neighbours\<close>

definition ents_ok :: "('v, 'v bnode) entry list \<Rightarrow> bool" where
  "ents_ok es \<longleftrightarrow> entries_sorted es \<and> (\<forall>e \<in> set es. entry_ok e \<and> (\<forall>n. eslot e = Inr n \<longrightarrow> btree_ok n))"

lemma wf_leaf_ents:
  "node_wf h False lo hi (Leaf i v mk es) \<longleftrightarrow> h = 0 \<and> length es \<le> NKeysPerNode \<and> es \<noteq> [] \<and> ents_ok es \<and>
     (\<forall>e \<in> set es. in_bounds lo hi (eslice e)) \<and> mk = (case lo of None \<Rightarrow> 0 | Some l \<Rightarrow> l)"
  by (auto simp: wf_leaf leaf_ok_def ents_ok_def list_all_iff)

lemma ents_ok_append:
  "ents_ok (xs @ ys) \<longleftrightarrow> ents_ok xs \<and> ents_ok ys \<and> (\<forall>x \<in> set xs. \<forall>y \<in> set ys. entry_key x < entry_key y)"
  by (auto simp: ents_ok_def entries_sorted_append)

lemma ents_ok_take_drop: "ents_ok es \<Longrightarrow> ents_ok (take m es)" "ents_ok es \<Longrightarrow> ents_ok (drop m es)"
  by (metis append_take_drop_id ents_ok_append)+

lemma ents_ok_del_at: "ents_ok es \<Longrightarrow> ents_ok (del_at m es)"
  unfolding del_at_def ents_ok_append
  using ents_ok_take_drop [of es] ents_ok_append [of "take m es" "drop m es"] set_drop_subset_set_drop [of m "m + 1" es] by auto

lemma ents_ok_boundary:
  assumes "ents_ok es" and "p < length es" and "0 < p" and ne: "eslice (es ! (p - 1)) \<noteq> eslice (es ! p)"
  shows "x \<in> set (take p es) \<Longrightarrow> eslice x < eslice (es ! p)" and "x \<in> set (drop p es) \<Longrightarrow> eslice (es ! p) \<le> eslice x"
proof -
  have mono: "eslice (es ! a) \<le> eslice (es ! b)" if "a \<le> b" "b < length es" for a b
    using entries_sorted_nth [of es a b] assms(1) that by (cases "a = b") (auto simp: ents_ok_def entry_key_def)
  have lt: "eslice (es ! (p - 1)) < eslice (es ! p)" using ne mono [of "p - 1" p] assms(2) by simp
  show "eslice x < eslice (es ! p)" if x: "x \<in> set (take p es)"
  proof -
    obtain j where "j < p" "x = es ! j" using x assms(2) by (auto simp: in_set_conv_nth)
    then show ?thesis using le_less_trans [OF mono [of j "p - 1"] lt] assms(2) by simp
  qed
  show "eslice (es ! p) \<le> eslice x" if x: "x \<in> set (drop p es)"
  proof -
    obtain j where "j < length es - p" "x = es ! (p + j)" using x assms(2) by (auto simp: in_set_conv_nth)
    then show ?thesis using mono [of p "p + j"] by simp
  qed
qed

definition opt_list :: "'a option \<Rightarrow> 'a list" where
  "opt_list x = (case x of None \<Rightarrow> [] | Some y \<Rightarrow> [y])"

lemma opt_list_simps [simp]: "opt_list None = []" "opt_list (Some y) = [y]"
  by (simp_all add: opt_list_def)

text \<open>The separators and the nodes of a node with its neighbours, before with \<open>lk\<close> and \<open>rk\<close>, after a removal.\<close>

definition rem_keys :: "u64 list \<Rightarrow> u64 list \<Rightarrow> 'v remove_ret \<Rightarrow> u64 list" where
  "rem_keys lk rk r =
     (case rem_status r of
        R_STOLE_FROM_LEFT nk \<Rightarrow> nk # rk
      | R_STOLE_FROM_RIGHT nk \<Rightarrow> lk @ [nk]
      | R_MERGE_WITH_LEFT \<Rightarrow> rk
      | R_MERGE_WITH_RIGHT \<Rightarrow> lk
      | _ \<Rightarrow> lk @ rk)"

definition rem_nodes :: "'v remove_ret \<Rightarrow> 'v bnode list" where
  "rem_nodes r =
     (case rem_status r of
        R_MERGE_WITH_LEFT \<Rightarrow> opt_list (rem_left r)
      | _ \<Rightarrow> opt_list (rem_left r) @ rem_node r # opt_list (rem_right r))"

text \<open>Which neighbours there are for each status.\<close>

definition rem_shape :: "u64 list \<Rightarrow> u64 list \<Rightarrow> 'v remove_ret \<Rightarrow> bool" where
  "rem_shape lk rk r \<longleftrightarrow>
     (rem_left r = None \<longleftrightarrow> lk = []) \<and>
     (case rem_status r of
        R_MERGE_WITH_LEFT \<Rightarrow> lk \<noteq> [] \<and> rk = [] \<and> rem_right r = None
      | R_MERGE_WITH_RIGHT \<Rightarrow> rk \<noteq> [] \<and> rem_right r = None
      | R_STOLE_FROM_LEFT nk \<Rightarrow> lk \<noteq> [] \<and> rk = [] \<and> rem_right r = None
      | R_STOLE_FROM_RIGHT nk \<Rightarrow> rk \<noteq> [] \<and> rem_right r \<noteq> None
      | R_REPLACE_NODE x \<Rightarrow> False
      | _ \<Rightarrow> rem_right r = None \<longleftrightarrow> rk = [])"

definition rem_ok :: "nat \<Rightarrow> u64 option \<Rightarrow> u64 list \<Rightarrow> u64 list \<Rightarrow> u64 option \<Rightarrow> 'v remove_ret \<Rightarrow> bool" where
  "rem_ok h m lk rk u r \<longleftrightarrow> rem_shape lk rk r \<and> kids (node_wf h False) m (rem_keys lk rk r) (rem_nodes r) u"

lemma leaf_with_right_spec:
  assumes P: "P = node_wf 0 False" and lt: "lt_opt m (Some b)" "lt_opt (Some b) u" and w: "P m (Some b) (Leaf i ver mk es)"
    and wr: "P (Some b) u (Leaf ri rver rmk res)" and ret: "ret < length es" and n: "length es \<le> NMinKeysPerNode"
    and left: "left = None \<longleftrightarrow> lk = []"
  shows "\<exists>r. leaf_with_right i ver mk es ret ri rver rmk res left old = Inr r \<and> rem_shape lk [b] r \<and>
    (\<exists>ks x ys. rem_keys lk [b] r = lk @ ks \<and> rem_nodes r = opt_list left @ x # ys \<and> kids P m ks (x # ys) u \<and>
      flat x @ concat (map flat ys) = del_at ret es @ res) \<and>
    rem_old r = old \<and> rem_status r \<noteq> R_NONE_NOMOD"
proof -
  have N: "NKeysPerNode = 15" "NMinKeysPerNode = 7" by (simp_all add: NKeysPerNode_def NMinKeysPerNode_def)
  define sp where "sp = right_boundary (length res) (map eslice res) 1"
  have es: "ents_ok es" "\<And>e. e \<in> set es \<Longrightarrow> in_bounds m (Some b) (eslice e)" "mk = (case m of None \<Rightarrow> 0 | Some l \<Rightarrow> l)"
    and res: "ents_ok res" "\<And>e. e \<in> set res \<Longrightarrow> in_bounds (Some b) u (eslice e)" "res \<noteq> []" "length res \<le> 15" "rmk = b"
    using w wr N by (auto simp: P wf_leaf_ents)
  have del: "ents_ok (del_at ret es)" "length (del_at ret es) = length es - 1" using es(1) ents_ok_del_at length_del_at [OF ret] by auto
  have din: "in_bounds m (Some b) (eslice e)" if "e \<in> set (del_at ret es)" for e by (rule es(2) [OF set_del_at [OF that]])
  have both: "eslice x < eslice y" if "x \<in> set (del_at ret es)" "y \<in> set res" for x y
    by (rule less_le_trans [of _ b]) (use din [OF that(1)] res(2) [OF that(2)] in \<open>simp_all add: in_bounds_def\<close>)
  have sp: "1 \<le> sp" "sp \<le> length res" "sp = length res \<or> map eslice res ! (sp - 1) \<noteq> map eslice res ! sp"
    using right_boundary_spec [of 1 "length res" "map eslice res"] res(3) by (auto simp: sp_def Suc_le_eq)
  have sp0: "right_boundary (length res) (map eslice res) (Suc 0) = sp" by (simp add: sp_def)
  note unf = leaf_with_right_def Let_def sp0 N
  show ?thesis
  proof (cases "length res > 7 \<and> length es - 1 + sp \<le> 15 \<and> sp < length res")
    case True
    let ?nk = "eslice (res ! sp)"
    let ?x = "Leaf i (bump ver) mk (del_at ret es @ take sp res)" and ?y = "Leaf ri (bump rver) ?nk (drop sp res)"
    have bd: "x \<in> set (take sp res) \<Longrightarrow> eslice x < ?nk" "x \<in> set (drop sp res) \<Longrightarrow> ?nk \<le> eslice x" for x
      using ents_ok_boundary [OF res(1), of sp x] True sp by auto
    have nk: "in_bounds (Some b) u ?nk" using res(2) True by simp
    have "0 < length res" using res(3) by simp
    then have hd: "res ! 0 \<in> set (take sp res)" using sp(1) by (auto simp: in_set_conv_nth intro: exI [of _ 0])
    have "b \<le> eslice (res ! 0)" using res(2) [of "res ! 0"] \<open>0 < length res\<close> by (simp add: in_bounds_def)
    then have "b < ?nk" using bd(1) [OF hd] by simp
    then have lts: "lt_opt m (Some ?nk)" "lt_opt (Some ?nk) u" using nk lt by (auto simp: in_bounds_Some intro: lt_opt_trans)
    have "P m (Some ?nk) ?x"
      unfolding P wf_leaf_ents ents_ok_append
    proof (intro conjI ballI)
      show "entry_key x < entry_key y" if "x \<in> set (del_at ret es)" "y \<in> set (take sp res)" for x y
        using both [OF that(1)] in_set_takeD [OF that(2)] by (auto intro: entry_key_less)
      show "in_bounds m (Some ?nk) (eslice e)" if "e \<in> set (del_at ret es @ take sp res)" for e
      proof (cases "e \<in> set (take sp res)")
        case True
        then have "in_bounds (Some b) u (eslice e)" using res(2) in_set_takeD by fast
        then show ?thesis using bd(1) [OF True] lt by (cases m) (auto simp: in_bounds_def)
      next
        case False
        then have "in_bounds m (Some b) (eslice e)" using that din by simp
        then show ?thesis using \<open>b < ?nk\<close> by (auto simp: in_bounds_def)
      qed
    qed (use del es ents_ok_take_drop [OF res(1)] True sp res(3) N in \<open>auto simp: min_def\<close>)
    moreover have "P (Some ?nk) u ?y"
      using ents_ok_take_drop [OF res(1)] bd(2) res(2,4) True N unfolding P wf_leaf_ents
      by (auto simp: in_bounds_def dest: in_set_dropD)
    ultimately have "kids P m [?nk] [?x, ?y] u" using lts by simp
    moreover have "leaf_with_right i ver mk es ret ri rver rmk res left old = Inr (Rem (R_STOLE_FROM_RIGHT ?nk) left ?x (Some ?y) old)"
      using True by (simp add: unf)
    ultimately show ?thesis using left by (simp add: rem_shape_def rem_keys_def rem_nodes_def)
  next
    case ns: False
    show ?thesis
    proof (cases "length res > 7 \<and> length es - 1 + length res > 15")
      case True
      let ?x = "Leaf i (bump ver) mk (del_at ret es)" and ?y = "Leaf ri (bump rver) rmk res"
      have n1: "length es > 1" using True res(4) by linarith
      then have "del_at ret es \<noteq> []" using del(2) by auto
      then have "P m (Some b) ?x" using del es din n N by (simp add: P wf_leaf_ents)
      moreover have "P (Some b) u ?y" using wr by (simp add: P wf_leaf_ents)
      ultimately have "kids P m [b] [?x, ?y] u" using lt by simp
      moreover have "leaf_with_right i ver mk es ret ri rver rmk res left old = Inr (Rem R_NONE_MOD left ?x (Some ?y) old)"
        using ns True n1 by (auto simp: unf)
      ultimately show ?thesis using left by (simp add: rem_shape_def rem_keys_def rem_nodes_def)
    next
      case False
      let ?x = "Leaf i (bump ver) mk (del_at ret es @ res)"
      have room: "length es - 1 + length res \<le> 15" using False n N by auto
      have "P m u ?x" unfolding P wf_leaf_ents ents_ok_append
      proof (intro conjI ballI)
        show "entry_key x < entry_key y" if "x \<in> set (del_at ret es)" "y \<in> set res" for x y
          using both [OF that] by (rule entry_key_less)
        show "in_bounds m u (eslice e)" if "e \<in> set (del_at ret es @ res)" for e
          using that din [of e] res(2) [of e] lt lt_opt_trans by (auto simp: in_bounds_Some)
      qed (use del es res room N in auto)
      then have "kids P m [] [?x] u" using lt lt_opt_trans by auto
      moreover have "leaf_with_right i ver mk es ret ri rver rmk res left old = Inr (Rem R_MERGE_WITH_RIGHT left ?x None old)"
        using ns False room by (auto simp: unf)
      ultimately show ?thesis using left by (simp add: rem_shape_def rem_keys_def rem_nodes_def)
    qed
  qed
qed

lemma leaf_with_left_spec:
  assumes P: "P = node_wf 0 False" and lt: "lt_opt m (Some a)" "lt_opt (Some a) u" and w: "P (Some a) u (Leaf i ver mk es)"
    and wl: "P m (Some a) (Leaf li lver lmk les)" and ret: "ret < length es" and n: "length es \<le> NMinKeysPerNode"
  shows "\<exists>r. leaf_with_left i ver mk es ret li lver lmk les old = Inr r \<and> rem_shape [a] [] r \<and>
    kids P m (rem_keys [a] [] r) (rem_nodes r) u \<and> concat (map flat (rem_nodes r)) = les @ del_at ret es \<and>
    rem_old r = old \<and> rem_status r \<noteq> R_NONE_NOMOD"
proof -
  have N: "NKeysPerNode = 15" "NMinKeysPerNode = 7" by (simp_all add: NKeysPerNode_def NMinKeysPerNode_def)
  define sp where "sp = left_boundary (map eslice les) (length les - 1)"
  have es: "ents_ok es" "\<And>e. e \<in> set es \<Longrightarrow> in_bounds (Some a) u (eslice e)" "mk = a"
    and les: "ents_ok les" "\<And>e. e \<in> set les \<Longrightarrow> in_bounds m (Some a) (eslice e)" "les \<noteq> []" "length les \<le> 15"
      "lmk = (case m of None \<Rightarrow> 0 | Some l \<Rightarrow> l)"
    using w wl N by (auto simp: P wf_leaf_ents)
  have del: "ents_ok (del_at ret es)" "length (del_at ret es) = length es - 1" using es(1) ents_ok_del_at length_del_at [OF ret] by auto
  have din: "in_bounds (Some a) u (eslice e)" if "e \<in> set (del_at ret es)" for e by (rule es(2) [OF set_del_at [OF that]])
  have both: "eslice x < eslice y" if "x \<in> set les" "y \<in> set (del_at ret es)" for x y
    by (rule less_le_trans [of _ a]) (use les(2) [OF that(1)] din [OF that(2)] in \<open>simp_all add: in_bounds_def\<close>)
  have sp: "sp \<le> length les - 1" "sp = 0 \<or> map eslice les ! (sp - 1) \<noteq> map eslice les ! sp" "sp < length les"
    using left_boundary_spec [of "map eslice les" "length les - 1"] les(3) unfolding sp_def by (auto simp: Suc_le_eq neq_Nil_conv)
  have sp0: "left_boundary (map eslice les) (length les - Suc 0) = sp" by (simp add: sp_def)
  note unf = leaf_with_left_def Let_def sp0 N
  show ?thesis
  proof (cases "length les > 7 \<and> length es - 1 + (length les - sp) \<le> 15 \<and> sp > 0")
    case True
    let ?nk = "eslice (les ! sp)"
    let ?y = "Leaf i (bump ver) ?nk (drop sp les @ del_at ret es)" and ?x = "Leaf li (bump lver) lmk (take sp les)"
    have bd: "x \<in> set (take sp les) \<Longrightarrow> eslice x < ?nk" "x \<in> set (drop sp les) \<Longrightarrow> ?nk \<le> eslice x" for x
      using ents_ok_boundary [OF les(1), of sp x] True sp by auto
    have nk: "in_bounds m (Some a) ?nk" using les(2) sp(3) by simp
    then have nka: "?nk < a" by (simp add: in_bounds_def)
    have "les ! 0 \<in> set (take sp les)" using sp(3) True by (auto simp: in_set_conv_nth intro: exI [of _ 0])
    then have lm: "lt_opt m (Some ?nk)"
      using bd(1) les(2) [of "les ! 0"] les(3) by (cases m) (auto simp: in_bounds_def intro: le_less_trans)
    have lu: "lt_opt (Some ?nk) u" using lt(2) nka by (cases u) auto
    have "P (Some ?nk) u ?y"
      unfolding P wf_leaf_ents ents_ok_append
    proof (intro conjI ballI)
      show "entry_key x < entry_key y" if "x \<in> set (drop sp les)" "y \<in> set (del_at ret es)" for x y
        using both [OF _ that(2)] in_set_dropD [OF that(1)] by (auto intro: entry_key_less)
      show "in_bounds (Some ?nk) u (eslice e)" if "e \<in> set (drop sp les @ del_at ret es)" for e
      proof (cases "e \<in> set (drop sp les)")
        case True
        then have "in_bounds m (Some a) (eslice e)" using les(2) in_set_dropD by fast
        then show ?thesis using bd(2) [OF True] lt(2) by (cases u) (auto simp: in_bounds_def)
      next
        case False
        then have "in_bounds (Some a) u (eslice e)" using that din by simp
        then show ?thesis using nka by (auto simp: in_bounds_def intro: order_trans [of _ a])
      qed
    qed (use del ents_ok_take_drop [OF les(1)] True sp N in auto)
    moreover have "P m (Some ?nk) ?x"
      using ents_ok_take_drop [OF les(1)] bd(1) les(2,3,4,5) True N unfolding P wf_leaf_ents
      by (auto simp: in_bounds_def dest: in_set_takeD)
    ultimately have "kids P m [?nk] [?x, ?y] u" using lm lu by simp
    moreover have "leaf_with_left i ver mk es ret li lver lmk les old = Inr (Rem (R_STOLE_FROM_LEFT ?nk) (Some ?x) ?y None old)"
      using True by (simp add: unf)
    ultimately show ?thesis by (simp add: rem_shape_def rem_keys_def rem_nodes_def)
  next
    case ns: False
    show ?thesis
    proof (cases "length les > 7 \<and> length les + (length es - 1) > 15")
      case True
      let ?y = "Leaf i (bump ver) mk (del_at ret es)" and ?x = "Leaf li (bump lver) lmk les"
      have n1: "length es > 1" using True les(4) by linarith
      then have "del_at ret es \<noteq> []" using del(2) by auto
      then have "P (Some a) u ?y" using del es din n N by (simp add: P wf_leaf_ents)
      moreover have "P m (Some a) ?x" using wl by (simp add: P wf_leaf_ents)
      ultimately have "kids P m [a] [?x, ?y] u" using lt by simp
      moreover have "leaf_with_left i ver mk es ret li lver lmk les old = Inr (Rem R_NONE_MOD (Some ?x) ?y None old)"
        using ns True n1 by (auto simp: unf)
      ultimately show ?thesis by (simp add: rem_shape_def rem_keys_def rem_nodes_def)
    next
      case False
      let ?x = "Leaf li (bump lver) lmk (les @ del_at ret es)"
      have room: "length les + (length es - 1) \<le> 15" using False n N by auto
      have "P m u ?x" unfolding P wf_leaf_ents ents_ok_append
      proof (intro conjI ballI)
        show "entry_key x < entry_key y" if "x \<in> set les" "y \<in> set (del_at ret es)" for x y
          using both [OF that] by (rule entry_key_less)
        show "in_bounds m u (eslice e)" if "e \<in> set (les @ del_at ret es)" for e
          using that din [of e] les(2) [of e] lt lt_opt_trans by (auto simp: in_bounds_Some)
      qed (use del les room N in auto)
      then have "kids P m [] [?x] u" using lt lt_opt_trans by auto
      moreover have "leaf_with_left i ver mk es ret li lver lmk les old = Inr (Rem R_MERGE_WITH_LEFT (Some ?x) (Leaf i ver mk es) None old)"
        using ns False room by (auto simp: unf)
      ultimately show ?thesis by (simp add: rem_shape_def rem_keys_def rem_nodes_def)
    qed
  qed
qed

section \<open>A node between its neighbours\<close>

fun kids_after :: "(u64 option \<Rightarrow> u64 option \<Rightarrow> 'n \<Rightarrow> bool) \<Rightarrow> u64 option \<Rightarrow> u64 list \<Rightarrow> 'n list \<Rightarrow> u64 option \<Rightarrow> bool" where
  "kids_after P u [] cs hi \<longleftrightarrow> u = hi \<and> cs = []"
| "kids_after P u (b # ks) cs hi \<longleftrightarrow> u = Some b \<and> kids P (Some b) ks cs hi"

lemma kids_middle:
  assumes "length K1 = length C1" and "length C = Suc (length K)" and "length K2 = length C2"
  shows "kids P lo (K1 @ K @ K2) (C1 @ C @ C2) hi \<longleftrightarrow>
    (\<exists>m u. kids_before P lo K1 C1 m \<and> kids P m K C u \<and> kids_after P u K2 C2 hi)"
proof -
  have "kids P m (K @ K2) (C @ C2) hi \<longleftrightarrow> (\<exists>u. kids P m K C u \<and> kids_after P u K2 C2 hi)" for m
    using assms(2,3) by (cases K2) (auto simp: kids_append)
  then show ?thesis using kids_append_before [OF assms(1), of P lo "K @ K2" "C @ C2" hi] by auto
qed

lemma kids_around:
  assumes "length lk = length L" and "length rk = length R"
  shows "kids P m (lk @ rk) (L @ x # R) u \<longleftrightarrow>
    (\<exists>lo hi. kids_before P m lk L lo \<and> lt_opt lo hi \<and> P lo hi x \<and> kids_after P hi rk R u)"
  using kids_middle [of lk L "[x]" "[]" rk R P m u] assms by simp

lemma leaf_del_spec:
  assumes P: "P = node_wf 0 False" and g: "kids P m (lk @ rk) (opt_list left @ Leaf i ver mk es # opt_list right) u"
    and len: "length lk = length (opt_list left)" "length rk = length (opt_list right)" "lk @ rk \<noteq> []" and ret: "ret < length es"
  shows "\<exists>r. leaf_del i ver mk es ret left right old = Inr r \<and> rem_ok 0 m lk rk u r \<and>
    concat (map flat (rem_nodes r)) = concat (map flat (opt_list left)) @ del_at ret es @ concat (map flat (opt_list right)) \<and>
    rem_old r = old \<and> rem_status r \<noteq> R_NONE_NOMOD"
proof -
  have left: "left = None \<longleftrightarrow> lk = []" and right: "right = None \<longleftrightarrow> rk = []" using len by (auto split: option.splits simp: opt_list_def)
  obtain lo hi where k: "kids_before P m lk (opt_list left) lo" "lt_opt lo hi" "P lo hi (Leaf i ver mk es)" "kids_after P hi rk (opt_list right) u"
    using g kids_around [OF len(1,2)] by blast
  show ?thesis
  proof (cases "length es > NMinKeysPerNode")
    case True
    let ?x = "Leaf i (bump ver) mk (del_at ret es)"
    have "del_at ret es \<noteq> []" using True length_del_at [OF ret] by (auto simp: NMinKeysPerNode_def NKeysPerNode_def)
    then have "P lo hi ?x" using k(3) ents_ok_del_at length_del_at [OF ret] set_del_at unfolding P wf_leaf_ents by fastforce
    then have "kids P m (lk @ rk) (opt_list left @ ?x # opt_list right) u" using k kids_around [OF len(1,2)] by blast
    then show ?thesis using True left right by (simp add: leaf_del_def rem_ok_def rem_shape_def rem_keys_def rem_nodes_def P)
  next
    case small: False
    show ?thesis
    proof (cases right)
      case (Some R)
      obtain b where b: "rk = [b]" using len(2) Some by (cases rk) auto
      have hi: "hi = Some b" "lt_opt (Some b) u" "P (Some b) u R" using k(4) b Some by auto
      obtain ri rver rmk res where R: "R = Leaf ri rver rmk res" using hi(3) P by (cases R) (auto simp: wf_internal)
      obtain r where r: "leaf_with_right i ver mk es ret ri rver rmk res left old = Inr r" "rem_shape lk [b] r"
        "\<exists>ks x ys. rem_keys lk [b] r = lk @ ks \<and> rem_nodes r = opt_list left @ x # ys \<and> kids P lo ks (x # ys) u \<and>
           flat x @ concat (map flat ys) = del_at ret es @ res" "rem_old r = old" "rem_status r \<noteq> R_NONE_NOMOD"
        using leaf_with_right_spec [OF P, of lo b u i ver mk es ri rver rmk res ret left lk old] k hi R ret small left by auto
      then have "kids P m (rem_keys lk rk r) (rem_nodes r) u" using kids_append_before [OF len(1)] k(1) b by auto
      then show ?thesis using r small Some R b by (auto simp: leaf_del_def rem_ok_def P)
    next
      case None
      have rk: "rk = []" using right None by simp
      then obtain L where L: "left = Some L" using left len(3) by (cases left) auto
      obtain a where a: "lk = [a]" using len(1) L by (cases lk) auto
      have lo: "lo = Some a" "lt_opt m (Some a)" "P m (Some a) L" "hi = u" using k(1,4) a L rk None by auto
      obtain li lver lmk les where Lf: "L = Leaf li lver lmk les" using lo(3) P by (cases L) (auto simp: wf_internal)
      show ?thesis
        using leaf_with_left_spec [OF P, of m a u i ver mk es li lver lmk les ret old] k lo Lf ret small None L a rk
        by (auto simp: leaf_del_def rem_ok_def P)
    qed
  qed
qed

lemma int_del_spec:
  assumes P: "P = node_wf h False" and h: "0 < h" and dk: "dk < length ks" and n: "NMinKeysPerNode \<le> length ks" "length ks \<le> NKeysPerNode"
    and b: "kids_before P m lk (opt_list left) lo" and t: "kids (node_wf (h - 1) False) lo (del_at dk ks) (del_at dc cs) hi"
    and a: "kids_after P hi rk (opt_list right) u"
    and len: "length lk = length (opt_list left)" "length rk = length (opt_list right)" "lk @ rk \<noteq> []"
    and mn: "min_key = (case lk of [] \<Rightarrow> None | x # _ \<Rightarrow> Some x)" and mx: "max_key = (case rk of [] \<Rightarrow> None | x # _ \<Rightarrow> Some x)"
  shows "\<exists>r. int_del i ver ks cs dk dc min_key max_key left right old = Inr r \<and> rem_ok h m lk rk u r \<and>
    concat (map flat (rem_nodes r)) =
      concat (map flat (opt_list left)) @ concat (map flat (del_at dc cs)) @ concat (map flat (opt_list right)) \<and>
    rem_old r = old \<and> rem_status r \<noteq> R_NONE_NOMOD"
proof -
  let ?Q = "node_wf (h - 1) False" and ?ks = "del_at dk ks" and ?cs = "del_at dc cs"
  have N: "NKeysPerNode = 15" "NMinKeysPerNode = 7" by (simp_all add: NKeysPerNode_def NMinKeysPerNode_def)
  have left: "left = None \<longleftrightarrow> lk = []" and right: "right = None \<longleftrightarrow> rk = []" using len by (auto split: option.splits simp: opt_list_def)
  have l: "length ?ks = length ks - 1" by (rule length_del_at [OF dk])
  have Pint: "P a c (Internal j w kk cc) \<longleftrightarrow> length kk \<le> 15 \<and> 7 \<le> length kk \<and> kids ?Q a kk cc c" for a c j w kk cc
    using h by (simp add: P wf_kids N)
  show ?thesis
  proof (cases "length ks > 7")
    case True
    then have "P lo hi (Internal i (bump ver) ?ks ?cs)" using t n l by (auto simp: Pint N)
    then have "kids P m (lk @ rk) (opt_list left @ Internal i (bump ver) ?ks ?cs # opt_list right) u"
      using kids_around [OF len(1,2)] b a kids_lt [OF t] by blast
    then show ?thesis using True left right by (simp add: int_del_def N Let_def rem_ok_def rem_shape_def rem_keys_def rem_nodes_def P)
  next
    case False
    then have n7: "length ks = 7" "length ?ks = 6" using n l by (simp_all add: N)
    show ?thesis
    proof (cases right)
      case (Some R)
      obtain c where c: "rk = [c]" using len(2) Some by (cases rk) auto
      have hi: "hi = Some c" "lt_opt (Some c) u" "P (Some c) u R" using a c Some by auto
      obtain ri rver rks rcs where R: "R = Internal ri rver rks rcs" using hi(3) P h by (cases R) (auto simp: wf_leaf)
      have r: "kids ?Q (Some c) rks rcs u" "7 \<le> length rks" "length rks \<le> 15" using hi(3) R by (simp_all add: Pint)
      show ?thesis
      proof (cases "length rks > 7")
        case True
        obtain r0 rks' where rks: "rks = r0 # rks'" using True by (cases rks) auto
        then obtain c0 rcs' where rcs: "rcs = c0 # rcs'" using r(1) by (cases rcs) auto
        let ?x = "Internal i (bump ver) (?ks @ [c]) (?cs @ [c0])" and ?y = "Internal ri (bump rver) rks' rcs'"
        have "kids ?Q lo (?ks @ [c]) (?cs @ [c0]) (Some r0)"
          using kids_append [of ?cs ?ks ?Q lo c "[]" "[c0]"] kids_length [OF t] t hi r rks rcs by simp
        then have "P lo (Some r0) ?x" "P (Some r0) u ?y" "lt_opt lo (Some r0)" "lt_opt (Some r0) u"
          using n7 r True rks rcs kids_lt by (auto simp: Pint)
        then have "kids P m (lk @ [r0]) (opt_list left @ [?x, ?y]) u" using kids_append_before [OF len(1)] b by auto
        then show ?thesis using True False Some R left c rks rcs mx
          by (simp add: int_del_def int_with_right_def N Let_def rem_ok_def rem_shape_def rem_keys_def rem_nodes_def P)
      next
        case rs: False
        let ?x = "Internal i (bump ver) (?ks @ c # rks) (?cs @ rcs)"
        have "kids ?Q lo (?ks @ c # rks) (?cs @ rcs) u"
          using kids_append [of ?cs ?ks ?Q lo c rks rcs] kids_length [OF t] t hi r by simp
        then have "P lo u ?x" "lt_opt lo u" using n7 r rs kids_lt by (auto simp: Pint)
        then have "kids P m lk (opt_list left @ [?x]) u" using kids_append_before [OF len(1), of P m "[]"] b by auto
        then show ?thesis using rs False Some R left c mx
          by (simp add: int_del_def int_with_right_def N Let_def rem_ok_def rem_shape_def rem_keys_def rem_nodes_def P)
      qed
    next
      case None
      have rk: "rk = []" using right None by simp
      then obtain L where L: "left = Some L" using left len(3) by (cases left) auto
      obtain c where c: "lk = [c]" using len(1) L by (cases lk) auto
      have lo: "lo = Some c" "lt_opt m (Some c)" "P m (Some c) L" "hi = u" using b a c L rk None by auto
      obtain li lver lks lcs where Li: "L = Internal li lver lks lcs" using lo(3) P h by (cases L) (auto simp: wf_leaf)
      have r: "kids ?Q m lks lcs (Some c)" "7 \<le> length lks" "length lks \<le> 15" using lo(3) Li by (simp_all add: Pint)
      show ?thesis
      proof (cases "length lks > 7")
        case True
        let ?z = "lks ! (length lks - 1)" and ?lc = "lcs ! length lks"
        have ll: "length lcs = Suc (length lks)" by (rule kids_length [OF r(1)])
        have pos: "length lks - 1 < length lks" "Suc (length lks - 1) = length lks" using True by linarith+
        have "kids ?Q m (take (length lks - 1) lks) (take (length lks) lcs) (Some ?z) \<and> kids ?Q (Some ?z) [] [?lc] (Some c)"
          using kids_cut [OF r(1) pos(1)] ll Cons_nth_drop_Suc [of "length lks" lcs] unfolding pos(2) by simp
        then have k: "kids ?Q m (take (length lks - 1) lks) (take (length lks) lcs) (Some ?z)" "?z < c" "?Q (Some ?z) (Some c) ?lc" by simp_all
        have "lcs = take (length lks) lcs @ [?lc]" using ll by (metis lessI take_Suc_conv_app_nth take_all_iff order_refl)
        then have "concat (map flat (take (length lks) lcs @ [?lc])) = concat (map flat lcs)"
          by (rule arg_cong [where f = "\<lambda>x. concat (map flat x)", OF sym])
        then have fl: "concat (map flat (take (length lks) lcs)) @ flat ?lc = concat (map flat lcs)" by simp
        let ?x = "Internal li (bump lver) (take (length lks - 1) lks) (take (length lks) lcs)"
          and ?y = "Internal i (bump ver) (c # ?ks) (?lc # ?cs)"
        have "P m (Some ?z) ?x" "P (Some ?z) u ?y" "lt_opt m (Some ?z)" "lt_opt (Some ?z) u"
          using k t lo n7 True r kids_lt [OF k(1)] kids_lt [OF t] lt_opt_trans [of "Some ?z" c u] by (auto simp: Pint)
        then have "kids P m [?z] [?x, ?y] u" by simp
        then show ?thesis using True False None L Li c rk mn fl
          by (simp add: int_del_def int_with_left_def N Let_def rem_ok_def rem_shape_def rem_keys_def rem_nodes_def P)
      next
        case ls: False
        let ?x = "Internal li (bump lver) (lks @ c # ?ks) (lcs @ ?cs)"
        have "kids ?Q m (lks @ c # ?ks) (lcs @ ?cs) u"
          using kids_append [of lcs lks ?Q m c ?ks ?cs u] kids_length [OF r(1)] t r lo by simp
        then have "P m u ?x" "lt_opt m u" using n7 r ls kids_lt by (auto simp: Pint)
        then have "kids P m [] [?x] u" by simp
        then show ?thesis using ls False None L Li c rk mn
          by (simp add: int_del_def int_with_left_def N Let_def rem_ok_def rem_shape_def rem_keys_def rem_nodes_def P)
      qed
    qed
  qed
qed

lemma child_parts:
  assumes c: "c \<le> length ks" and len: "length cs = Suc (length ks)"
  obtains K1 lk rk K2 C1 L R C2 where "ks = K1 @ lk @ rk @ K2" "cs = C1 @ opt_list L @ cs ! c # opt_list R @ C2"
    "length K1 = length C1" "length K2 = length C2" "c = length C1 + length lk"
    "lk = (if c = 0 then [] else [ks ! (c - 1)])" "rk = (if c = length ks then [] else [ks ! c])"
    "L = (if c = 0 then None else Some (cs ! (c - 1)))" "R = (if c = length ks then None else Some (cs ! (c + 1)))"
    "length lk = length (opt_list L)" "length rk = length (opt_list R)"
proof -
  let ?lk = "if c = 0 then [] else [ks ! (c - 1)]" and ?rk = "if c = length ks then [] else [ks ! c]"
  let ?L = "if c = 0 then None else Some (cs ! (c - 1))" and ?R = "if c = length ks then None else Some (cs ! (c + 1))"
  have d: "drop j xs = xs ! j # drop (Suc j) xs" if "j < length xs" for j and xs :: "'x list" using that by (simp add: Cons_nth_drop_Suc)
  have r: "drop c ks = ?rk @ drop (c + 1) ks" "drop (c + 1) cs = opt_list ?R @ drop (c + 2) cs"
    using c len d [of c ks] d [of "c + 1" cs] by auto
  have l: "take c ks = take (c - 1) ks @ ?lk" "take c cs = take (c - 1) cs @ opt_list ?L"
    using c len take_Suc_conv_app_nth [of "c - 1" ks] take_Suc_conv_app_nth [of "c - 1" cs] by auto
  have "ks = take c ks @ drop c ks" "cs = take c cs @ cs ! c # drop (c + 1) cs" using c len by (simp_all add: id_take_nth_drop)
  then have "ks = take (c - 1) ks @ ?lk @ ?rk @ drop (c + 1) ks"
    "cs = take (c - 1) cs @ opt_list ?L @ cs ! c # opt_list ?R @ drop (c + 2) cs" unfolding r l by (metis append.assoc)+
  then show ?thesis using c len by (intro that [of "take (c - 1) ks" ?lk ?rk "drop (c + 1) ks" "take (c - 1) cs" ?L ?R "drop (c + 2) cs"]) auto
qed

lemma set_children_parts:
  assumes "rem_left r = None \<longleftrightarrow> L = None" and "rem_right r \<noteq> None \<Longrightarrow> R \<noteq> None" and "c = length C1 + length (opt_list L)"
  shows "set_children (C1 @ opt_list L @ x # opt_list R @ C2) c r =
    C1 @ opt_list (rem_left r) @ rem_node r # opt_list (if rem_right r = None then R else rem_right r) @ C2"
  using assms by (cases L; cases R; cases "rem_left r"; cases "rem_right r") (auto simp: set_children_def list_update_append split: nat.splits)

text \<open>The node after its child: the separators and the children that are left, before the node itself is looked at.\<close>

definition rem_rest :: "u64 list \<Rightarrow> 'v bnode list \<Rightarrow> nat \<Rightarrow> 'v remove_ret \<Rightarrow> u64 list \<times> 'v bnode list" where
  "rem_rest ks cs c r =
     (let cs' = set_children cs c r
      in case rem_status r of
           R_STOLE_FROM_LEFT nk \<Rightarrow> (ks[c - 1 := nk], cs')
         | R_STOLE_FROM_RIGHT nk \<Rightarrow> (ks[c := nk], cs')
         | R_MERGE_WITH_LEFT \<Rightarrow> (del_at (c - 1) ks, del_at c cs')
         | R_MERGE_WITH_RIGHT \<Rightarrow> (del_at c ks, del_at (c + 1) cs')
         | _ \<Rightarrow> (ks, cs'))"

lemma del_at_append: "del_at (length xs + j) (xs @ ys) = xs @ del_at j ys"
  by (simp add: del_at_def)

lemma rem_rest_parts:
  assumes ks: "ks = K1 @ lk @ rk @ K2" and cs: "cs = C1 @ opt_list L @ x # opt_list R @ C2"
    and len: "length K1 = length C1" "c = length C1 + length lk" "length lk = length (opt_list L)" "length rk = length (opt_list R)"
    and sh: "rem_shape lk rk r"
  shows "rem_rest ks cs c r = (K1 @ rem_keys lk rk r @ K2, C1 @ rem_nodes r @ C2)"
proof -
  have L: "rem_left r = None \<longleftrightarrow> L = None" and R: "rem_right r \<noteq> None \<Longrightarrow> R \<noteq> None"
    using sh len(3,4) by (auto simp: rem_shape_def opt_list_def split: option.splits remove_status.splits)
  have cs': "set_children cs c r = C1 @ opt_list (rem_left r) @ rem_node r # opt_list (if rem_right r = None then R else rem_right r) @ C2"
    unfolding cs by (rule set_children_parts) (use L R len in auto)
  have lkl: "length lk = length (opt_list (rem_left r))" using len(3) L by (cases L; cases "rem_left r") auto
  have one: "lk = [] \<or> (\<exists>a. lk = [a])" "rk = [] \<or> (\<exists>b. rk = [b])" using len(3,4) by (auto simp: opt_list_def length_Suc_conv split: option.splits)
  show ?thesis
  proof (cases "rem_status r")
    case R_MERGE_WITH_LEFT
    then obtain a l where "lk = [a]" "rk = []" "rem_left r = Some l" "rem_right r = None" "R = None"
      using sh one len(4) by (cases R) (auto simp: rem_shape_def)
    then show ?thesis using R_MERGE_WITH_LEFT len(1,2) cs' ks
      by (simp add: rem_rest_def rem_keys_def rem_nodes_def del_at_def)
  next
    case R_MERGE_WITH_RIGHT
    then obtain b y where "rk = [b]" "rem_right r = None" "R = Some y" using sh one len(4) by (cases R) (auto simp: rem_shape_def)
    then show ?thesis using R_MERGE_WITH_RIGHT len(1,2) lkl cs' ks one(1)
      by (cases "rem_left r") (auto simp: rem_rest_def rem_keys_def rem_nodes_def del_at_def)
  next
    case (R_STOLE_FROM_LEFT nk)
    then obtain a where "lk = [a]" "rk = []" "rem_right r = None" "R = None" using sh one len(4) by (cases R) (auto simp: rem_shape_def)
    then show ?thesis using R_STOLE_FROM_LEFT len(1,2) cs' ks
      by (simp add: rem_rest_def rem_keys_def rem_nodes_def list_update_append)
  next
    case (R_STOLE_FROM_RIGHT nk)
    then obtain b where "rk = [b]" "rem_right r \<noteq> None" using sh one by (auto simp: rem_shape_def)
    then show ?thesis using R_STOLE_FROM_RIGHT len(1,2) lkl cs' ks one(1)
      by (cases "rem_left r") (auto simp: rem_rest_def rem_keys_def rem_nodes_def list_update_append)
  next
    case R_NONE_NOMOD
    then show ?thesis using sh len(4) cs' ks by (cases R) (auto simp: rem_rest_def rem_keys_def rem_nodes_def rem_shape_def)
  next
    case R_NONE_MOD
    then show ?thesis using sh len(4) cs' ks by (cases R) (auto simp: rem_rest_def rem_keys_def rem_nodes_def rem_shape_def)
  next
    case (R_REPLACE_NODE x)
    then show ?thesis using sh by (simp add: rem_shape_def)
  qed
qed

lemma length_rem_rest:
  assumes "rem_status r \<noteq> R_MERGE_WITH_LEFT" and "rem_status r \<noteq> R_MERGE_WITH_RIGHT"
  shows "length (fst (rem_rest ks cs c r)) = length ks"
  using assms by (simp add: rem_rest_def Let_def split: remove_status.splits)

lemma int_rem_spec:
  assumes P: "P = node_wf h False" and t: "P lo hi (Internal i ver ks cs)"
    and b: "kids_before P m lk (opt_list left) lo" and a: "kids_after P hi rk (opt_list right) u"
    and len: "length lk = length (opt_list left)" "length rk = length (opt_list right)" "lk @ rk \<noteq> []"
    and mn: "min_key = (case lk of [] \<Rightarrow> None | x # _ \<Rightarrow> Some x)" and mx: "max_key = (case rk of [] \<Rightarrow> None | x # _ \<Rightarrow> Some x)"
    and r: "rem_shape lk' rk' r" "lk' \<noteq> [] \<Longrightarrow> 0 < c" "rk' \<noteq> [] \<Longrightarrow> c < length ks" "c \<le> length ks"
    and rest: "kids (node_wf (h - 1) False) lo (fst (rem_rest ks cs c r)) (snd (rem_rest ks cs c r)) hi"
  shows "\<exists>r'. int_rem i ver ks cs c min_key max_key left right r = Inr r' \<and> rem_ok h m lk rk u r' \<and>
    concat (map flat (rem_nodes r')) =
      concat (map flat (opt_list left)) @ concat (map flat (snd (rem_rest ks cs c r))) @ concat (map flat (opt_list right)) \<and>
    rem_old r' = rem_old r \<and> (rem_status r' = R_NONE_NOMOD \<longleftrightarrow> rem_status r = R_NONE_NOMOD)"
proof -
  have left: "left = None \<longleftrightarrow> lk = []" and right: "right = None \<longleftrightarrow> rk = []" using len by (auto split: option.splits simp: opt_list_def)
  have cnt: "0 < h" "NMinKeysPerNode \<le> length ks" "length ks \<le> NKeysPerNode" using t by (auto simp: P wf_kids)
  let ?K = "fst (rem_rest ks cs c r)" and ?C = "snd (rem_rest ks cs c r)"
  have keep: ?thesis if st: "st = R_NONE_NOMOD \<or> st = R_NONE_MOD" "st = R_NONE_NOMOD \<longleftrightarrow> rem_status r = R_NONE_NOMOD"
    and nm: "rem_status r \<noteq> R_MERGE_WITH_LEFT" "rem_status r \<noteq> R_MERGE_WITH_RIGHT"
    and eq: "int_rem i ver ks cs c min_key max_key left right r = Inr (Rem st left (Internal i ver ?K ?C) right (rem_old r))" for st
  proof -
    have "P lo hi (Internal i ver ?K ?C)" using rest cnt length_rem_rest [OF nm] by (simp add: P wf_kids)
    then have "kids P m (lk @ rk) (opt_list left @ Internal i ver ?K ?C # opt_list right) u"
      using kids_around [OF len(1,2)] b a kids_lt [OF rest] by blast
    then show ?thesis using eq st left right by (auto simp: rem_ok_def rem_shape_def rem_keys_def rem_nodes_def P)
  qed
  show ?thesis
  proof (cases "rem_status r")
    case R_MERGE_WITH_LEFT
    then have "c - 1 < length ks" using r by (auto simp: rem_shape_def)
    then show ?thesis
      using int_del_spec [OF P cnt(1) _ cnt(2,3) b _ a len mn mx, of "c - 1" c "set_children cs c r" i ver "rem_old r"] rest R_MERGE_WITH_LEFT
      by (auto simp: int_rem_def rem_rest_def Let_def)
  next
    case R_MERGE_WITH_RIGHT
    then have "c < length ks" using r by (auto simp: rem_shape_def)
    then show ?thesis
      using int_del_spec [OF P cnt(1) _ cnt(2,3) b _ a len mn mx, of c "c + 1" "set_children cs c r" i ver "rem_old r"] rest R_MERGE_WITH_RIGHT
      by (auto simp: int_rem_def rem_rest_def Let_def)
  next
    case R_NONE_NOMOD
    then show ?thesis by (intro keep [of R_NONE_NOMOD]) (auto simp: int_rem_def rem_rest_def Let_def)
  next
    case (R_REPLACE_NODE x)
    then show ?thesis using r(1) by (simp add: rem_shape_def)
  next
    case R_NONE_MOD
    then show ?thesis by (intro keep [of R_NONE_MOD]) (auto simp: int_rem_def rem_rest_def Let_def)
  next
    case (R_STOLE_FROM_LEFT nk)
    then show ?thesis by (intro keep [of R_NONE_MOD]) (auto simp: int_rem_def rem_rest_def Let_def)
  next
    case (R_STOLE_FROM_RIGHT nk)
    then show ?thesis by (intro keep [of R_NONE_MOD]) (auto simp: int_rem_def rem_rest_def Let_def)
  qed
qed

text \<open>The root of a layer after a removal.\<close>

definition rem_root :: "'v remove_ret \<Rightarrow> 'v bnode option" where
  "rem_root r = (case rem_status r of R_NONE_NOMOD \<Rightarrow> Some (rem_node r) | R_NONE_MOD \<Rightarrow> Some (rem_node r) | R_REPLACE_NODE x \<Rightarrow> Some x | _ \<Rightarrow> None)"

lemma wf_becomes_root: "node_wf h False None None t \<Longrightarrow> node_wf h True None None t"
  by (cases t) (auto simp: wf_leaf leaf_ok_def wf_kids NMinKeysPerNode_def NKeysPerNode_def)

lemma int_rem_root:
  assumes t: "node_wf h True None None (Internal i ver ks cs)"
    and r: "rem_shape lk' rk' r" "lk' \<noteq> [] \<Longrightarrow> 0 < c" "rk' \<noteq> [] \<Longrightarrow> c < length ks" "c \<le> length ks"
    and rest: "kids (node_wf (h - 1) False) None (fst (rem_rest ks cs c r)) (snd (rem_rest ks cs c r)) None"
  shows "\<exists>r' t'. int_rem i ver ks cs c None None None None r = Inr r' \<and> rem_root r' = Some t' \<and> btree_ok t' \<and>
    flat t' = concat (map flat (snd (rem_rest ks cs c r))) \<and> rem_old r' = rem_old r \<and>
    (rem_status r' = R_NONE_NOMOD \<longleftrightarrow> rem_status r = R_NONE_NOMOD)"
proof -
  have cnt: "0 < h" "1 \<le> length ks" "length ks \<le> NKeysPerNode" using t by (auto simp: wf_kids)
  let ?K = "fst (rem_rest ks cs c r)" and ?C = "snd (rem_rest ks cs c r)"
  have keep: ?thesis if st: "st = R_NONE_NOMOD \<or> st = R_NONE_MOD" "st = R_NONE_NOMOD \<longleftrightarrow> rem_status r = R_NONE_NOMOD"
    and l: "1 \<le> length ?K" "length ?K \<le> NKeysPerNode"
    and eq: "int_rem i ver ks cs c None None None None r = Inr (Rem st None (Internal i ver' ?K ?C) None (rem_old r))" for st ver'
  proof -
    have "node_wf h True None None (Internal i ver' ?K ?C)" using rest cnt(1) l by (simp add: wf_kids)
    then have "btree_ok (Internal i ver' ?K ?C)" by (rule wf_btree_ok)
    then show ?thesis using eq st by (auto simp: rem_root_def)
  qed
  have del: ?thesis if st: "rem_status r \<noteq> R_NONE_NOMOD" and dk: "dk < length ks" and K: "?K = del_at dk ks" and C: "?C = del_at dc cs'"
    and eq: "int_rem i ver ks cs c None None None None r = int_del i ver ks cs' dk dc None None None None (rem_old r)" for dk dc cs'
  proof -
    have lk: "length ?K = length ks - 1" unfolding K by (rule length_del_at [OF dk])
    have N: "1 < NMinKeysPerNode" by (simp add: NMinKeysPerNode_def NKeysPerNode_def)
    show ?thesis
    proof (cases "length ks = 1")
      case True
      then have "?K = []" using lk by simp
      then obtain x where x: "?C = [x]" "node_wf (h - 1) False None None x" using rest by (cases ?C) (auto elim: kids.elims)
      then have "btree_ok x" using wf_becomes_root wf_btree_ok by blast
      then show ?thesis using eq True st N x(1) K C by (auto simp: int_del_def Let_def rem_root_def)
    next
      case False
      then show ?thesis using eq st cnt lk K C by (intro keep [of R_NONE_MOD "bump ver"]) (auto simp: int_del_def Let_def)
    qed
  qed
  show ?thesis
  proof (cases "rem_status r")
    case R_MERGE_WITH_LEFT
    then have "c - 1 < length ks" using r cnt by (auto simp: rem_shape_def)
    then show ?thesis using R_MERGE_WITH_LEFT by (intro del [of "c - 1" c "set_children cs c r"]) (auto simp: int_rem_def rem_rest_def Let_def)
  next
    case R_MERGE_WITH_RIGHT
    then have "c < length ks" using r by (auto simp: rem_shape_def)
    then show ?thesis using R_MERGE_WITH_RIGHT by (intro del [of c "c + 1" "set_children cs c r"]) (auto simp: int_rem_def rem_rest_def Let_def)
  next
    case R_NONE_NOMOD
    then show ?thesis using cnt by (intro keep [of R_NONE_NOMOD ver]) (auto simp: int_rem_def rem_rest_def Let_def)
  next
    case (R_REPLACE_NODE x)
    then show ?thesis using r(1) by (simp add: rem_shape_def)
  next
    case R_NONE_MOD
    then show ?thesis using cnt by (intro keep [of R_NONE_MOD ver]) (auto simp: int_rem_def rem_rest_def Let_def)
  next
    case (R_STOLE_FROM_LEFT nk)
    then show ?thesis using cnt by (intro keep [of R_NONE_MOD ver]) (auto simp: int_rem_def rem_rest_def Let_def)
  next
    case (R_STOLE_FROM_RIGHT nk)
    then show ?thesis using cnt by (intro keep [of R_NONE_MOD ver]) (auto simp: int_rem_def rem_rest_def Let_def)
  qed
qed

section \<open>Removal updates the map\<close>

definition rem_post :: "'v bnode \<Rightarrow> bytes \<Rightarrow> ('v, 'v bnode) entry list \<Rightarrow> 'v option \<Rightarrow> bool \<Rightarrow> bool" where
  "rem_post t k es' old nomod \<longleftrightarrow>
     old = lookup t k \<and> (nomod \<longleftrightarrow> lookup t k = None) \<and>
     (\<exists>eo. (\<forall>e. eo = Some e \<longrightarrow> entry_key e = slice_key k) \<and> es' = rem_flat eo (slice_key k) (flat t) \<and>
        (\<forall>k'. slice_key k' = slice_key k \<longrightarrow>
           (case eo of None \<Rightarrow> None | Some e \<Rightarrow> entry_val e k') = (if k' = k then None else lookup t k')))"

lemma rem_post_lookup:
  assumes "rem_post t k es' old nomod" and "flat t' = es'"
  shows "lookup t' k' = (if k' = k then None else lookup t k')"
proof -
  obtain eo where eo: "\<forall>e. eo = Some e \<longrightarrow> entry_key e = slice_key k" "es' = rem_flat eo (slice_key k) (flat t)"
    "\<forall>k'. slice_key k' = slice_key k \<longrightarrow> (case eo of None \<Rightarrow> None | Some e \<Rightarrow> entry_val e k') = (if k' = k then None else lookup t k')"
    using assms(1) unfolding rem_post_def by blast
  have "entry_at (flat t') (slice_key k') = (if slice_key k' = slice_key k then eo else entry_at (flat t) (slice_key k'))"
    using assms(2) eo(1,2) entry_at_rem_flat [of eo "slice_key k" "flat t" "slice_key k'"] by auto
  then show ?thesis using eo(3) lookup_entry [of t' k'] lookup_entry [of t k'] by auto
qed

lemma remove0_leaf:
  fixes es :: "('v, 'v bnode) entry list"
  assumes w: "node_wf 0 root lo (next_min rs) (Leaf i ver mk es)" and b: "in_bounds lo (next_min rs) (slice k)"
    and IH: "\<And>t :: 'v bnode. kslicelen k = 9 \<Longrightarrow> btree_ok t \<Longrightarrow>
      \<exists>r t'. remove0 t None None (shift k) None None [] = Inr r \<and> rem_root r = Some t' \<and> btree_ok t' \<and>
        rem_post t (shift k) (flat t') (rem_old r) (rem_status r = R_NONE_NOMOD)"
  obtains (keep) st es2 old where "remove0 (Leaf i ver mk es) mnk mxk k left right rs = Inr (Rem st left (Leaf i ver mk es2) right old)"
      "st = R_NONE_NOMOD \<or> st = R_NONE_MOD" "node_wf 0 root lo (next_min rs) (Leaf i ver mk es2)"
      "rem_post (Leaf i ver mk es) k es2 old (st = R_NONE_NOMOD)"
    | (del) ret x where "remove0 (Leaf i ver mk es) mnk mxk k left right rs = leaf_del i ver mk es ret left right (Some x)"
      "ret < length es" "rem_post (Leaf i ver mk es) k (del_at ret es) (Some x) False"
proof -
  let ?t = "Leaf i ver mk es"
  have s: "entries_sorted es" and ok: "list_all entry_ok es" using w by (simp_all add: wf_leaf leaf_ok_def)
  have here: "\<not> (slice k < mk \<or> (case rs of [] \<Rightarrow> False | r # _ \<Rightarrow> leaf_min r \<le> slice k))"
    using w b by (auto simp: wf_leaf leaf_ok_def in_bounds_def next_min_def split: option.splits list.splits)
  note unf = remove0.simps(1) [of i ver mk es mnk mxk k left right rs] here
  have gone: "rem_post ?t k es None True" if n: "lookup ?t k = None"
    unfolding rem_post_def
  proof (intro conjI exI [of _ "entry_at es (slice_key k)"])
    show "\<forall>e. entry_at es (slice_key k) = Some e \<longrightarrow> entry_key e = slice_key k" using entry_at_Some by blast
    show "es = rem_flat (entry_at es (slice_key k)) (slice_key k) (flat ?t)" using rem_flat_same [OF s] by simp
    show "\<forall>k'. slice_key k' = slice_key k \<longrightarrow>
        (case entry_at es (slice_key k) of None \<Rightarrow> None | Some e \<Rightarrow> entry_val e k') = (if k' = k then None else lookup ?t k')"
      using n by (auto simp: lookup_entry)
  qed (use n in auto)
  show thesis
  proof (cases "leaf_key_search es (slice k) (kslicelen k)")
    case None
    then have "lookup ?t k = None" using leaf_key_search_at(2) [OF s None] by (simp add: lookup_entry slice_key_def)
    then show thesis using gone w None by (intro keep [of R_NONE_NOMOD es None]) (auto simp: unf)
  next
    case (Some m)
    have m: "m < length es" "entry_at es (slice_key k) = Some (es ! m)" using leaf_key_search_at(1) [OF s Some] by (simp_all add: slice_key_def)
    have km: "entry_key (es ! m) = slice_key k" using entry_at_Some [OF m(2)] by simp
    have lk: "lookup ?t k' = entry_val (es ! m) k'" if "slice_key k' = slice_key k" for k' using m(2) that by (simp add: lookup_entry)
    show thesis
    proof (cases "eslot (es ! m)")
      case (Inl x)
      show thesis
      proof (cases "kslicelen k = 9 \<and> esuffix (es ! m) \<noteq> shift k")
        case True
        then have "lookup ?t k = None" using lk [OF refl] Inl by (simp add: entry_val_def)
        then show thesis using gone w Some Inl True by (intro keep [of R_NONE_NOMOD es None]) (auto simp: unf)
      next
        case False
        have lkx: "lookup ?t k = Some x" using lk [OF refl] Inl False by (auto simp: entry_val_def)
        have oth: "lookup ?t k' = None" if "slice_key k' = slice_key k" "k' \<noteq> k" for k'
          using same_key_suffix [OF that] lk [OF that(1)] Inl False by (auto simp: entry_val_def)
        have "rem_post ?t k (del_at m es) (Some x) False"
          unfolding rem_post_def using lkx oth del_at_filter [OF s m(1)] km
          by (intro conjI exI [of _ None]) (auto simp: rem_flat_def)
        then show thesis using Some Inl False m(1) by (intro del [of m x]) (auto simp: unf)
      qed
    next
      case (Inr n)
      have I: "remove0 ?t mnk mxk k left right rs = (if kslicelen k \<noteq> 9 then Inl Broken
          else (case remove0 n None None (shift k) None None [] of
            Inl err \<Rightarrow> Inl err
          | Inr r \<Rightarrow>
              (case rem_status r of
                 R_NONE_NOMOD \<Rightarrow> Inr (Rem R_NONE_NOMOD left (Leaf i ver mk (es[m := set_slot (es ! m) (Inr (rem_node r))])) right (rem_old r))
               | R_NONE_MOD \<Rightarrow> Inr (Rem R_NONE_MOD left (Leaf i ver mk (es[m := set_slot (es ! m) (Inr (rem_node r))])) right (rem_old r))
               | R_REPLACE_NODE x \<Rightarrow> Inr (Rem R_NONE_MOD left (Leaf i ver mk (es[m := set_slot (es ! m) (Inr x)])) right (rem_old r))
               | _ \<Rightarrow> Inl Broken)))"
        using Some Inr by (simp add: unf)
      have n: "btree_ok n" "elen (es ! m) = 9" using layer_ok [OF w nth_mem [OF m(1)] Inr] by simp_all
      have k9: "kslicelen k = 9" using n(2) km by (simp add: entry_key_def slice_key_def)
      obtain r t' where r: "remove0 n None None (shift k) None None [] = Inr r" "rem_root r = Some t'" "btree_ok t'"
        "rem_post n (shift k) (flat t') (rem_old r) (rem_status r = R_NONE_NOMOD)" using IH [OF k9 n(1)] by blast
      let ?e = "set_slot (es ! m) (Inr t')" and ?st = "if rem_status r = R_NONE_NOMOD then R_NONE_NOMOD else R_NONE_MOD"
      have ke: "entry_key ?e = slice_key k" using km by (simp add: set_slot_def entry_key_def)
      have "entry_ok (es ! m)" using ok m(1) by (simp add: list_all_length)
      then have oke: "entry_ok ?e" using Inr by (simp add: entry_ok_def set_slot_def is_layer_def)
      have lay: "\<forall>n. eslot ?e = Inr n \<longrightarrow> btree_ok n" using r(3) by (simp add: set_slot_def)
      note up = leaf_replace [OF w m(1) _ oke lay]
      have lkn: "lookup ?t k' = lookup n (shift k')" if "slice_key k' = slice_key k" for k'
        using lk [OF that] Inr k9 that by (simp add: entry_val_def slice_key_def)
      have "remove0 ?t mnk mxk k left right rs = Inr (Rem ?st left (Leaf i ver mk (es[m := ?e])) right (rem_old r))"
        using I k9 r(1,2) by (auto simp: rem_root_def split: remove_status.splits)
      moreover have "node_wf 0 root lo (next_min rs) (Leaf i ver mk (es[m := ?e]))" by (rule up(1)) (use ke km in simp)
      moreover have "rem_post ?t k (es[m := ?e]) (rem_old r) (?st = R_NONE_NOMOD)"
        unfolding rem_post_def
      proof (intro conjI exI [of _ "Some ?e"])
        show "es[m := ?e] = rem_flat (Some ?e) (slice_key k) (flat ?t)" using up(2) ke km by (simp add: rem_flat_def)
        show "\<forall>k'. slice_key k' = slice_key k \<longrightarrow>
            (case Some ?e of None \<Rightarrow> None | Some e \<Rightarrow> entry_val e k') = (if k' = k then None else lookup ?t k')"
        proof (intro allI impI)
          fix k' assume e: "slice_key k' = slice_key k"
          have "entry_val ?e k' = lookup t' (shift k')" using k9 e by (simp add: entry_val_def set_slot_def slice_key_def)
          then show "(case Some ?e of None \<Rightarrow> None | Some e \<Rightarrow> entry_val e k') = (if k' = k then None else lookup ?t k')"
            using rem_post_lookup [OF r(4) refl, of "shift k'"] same_key_suffix(3) [OF e] lkn [OF e] by auto
        qed
      qed (use ke r(4) lkn [OF refl] in \<open>auto simp: rem_post_def\<close>)
      ultimately show thesis by (intro keep [of ?st "es[m := ?e]" "rem_old r"]) auto
    qed
  qed
qed

lemma rem_post_child:
  assumes w: "node_wf h r lo hi (Internal i v ks cs)" and c: "c = child_idx (key_lower_bound_search ks (slice k))"
    and p: "rem_post (cs ! c) k es' old nomod"
  shows "rem_post (Internal i v ks cs) k (concat (map flat (take c cs)) @ es' @ concat (map flat (drop (c + 1) cs))) old nomod"
proof -
  let ?t = "Internal i v ks cs"
  note ch = wf_child [OF w c]
  obtain eo where eo: "\<forall>e. eo = Some e \<longrightarrow> entry_key e = slice_key k" "es' = rem_flat eo (slice_key k) (flat (cs ! c))"
    "\<forall>k'. slice_key k' = slice_key k \<longrightarrow>
       (case eo of None \<Rightarrow> None | Some e \<Rightarrow> entry_val e k') = (if k' = k then None else lookup (cs ! c) k')"
    using p unfolding rem_post_def by blast
  have lk: "lookup ?t k' = lookup (cs ! c) k'" if "slice k' = slice k" for k'
    using entry_at_child [OF w c] that by (simp add: lookup_entry slice_key_def del: flat.simps)
  have "rem_flat eo (slice_key k) (flat ?t) = concat (map flat (take c cs)) @ es' @ concat (map flat (drop (c + 1) cs))"
    unfolding ch(3) eo(2) using ch(4,5) eo(1) by (intro rem_flat_append) (simp_all add: entry_key_def slice_key_def)
  then show ?thesis unfolding rem_post_def using p eo(1,3) lk
    by (intro conjI exI [of _ eo]) (auto simp: rem_post_def slice_key_def simp del: flat.simps)
qed

text \<open>What \<^verbatim>\<open>remove0\<close> does with a node that has a neighbour.\<close>

definition key_hd :: "u64 list \<Rightarrow> u64 option" where
  "key_hd ks = (case ks of [] \<Rightarrow> None | a # _ \<Rightarrow> Some a)"

definition rem_spec :: "bytes \<Rightarrow> 'v bnode \<Rightarrow> bool" where
  "rem_spec k t \<longleftrightarrow>
     (\<forall>h m lk rk u left right rs.
        kids (node_wf h False) m (lk @ rk) (opt_list left @ t # opt_list right) u \<longrightarrow>
        length lk = length (opt_list left) \<longrightarrow> length rk = length (opt_list right) \<longrightarrow> lk @ rk \<noteq> [] \<longrightarrow>
        next_min rs = (if rk = [] then u else key_hd rk) \<longrightarrow>
        in_bounds (if lk = [] then m else key_hd lk) (next_min rs) (slice k) \<longrightarrow>
        (\<exists>r es'. remove0 t (key_hd lk) (key_hd rk) k left right rs = Inr r \<and> rem_ok h m lk rk u r \<and>
           concat (map flat (rem_nodes r)) = concat (map flat (opt_list left)) @ es' @ concat (map flat (opt_list right)) \<and>
           rem_post t k es' (rem_old r) (rem_status r = R_NONE_NOMOD)))"

lemma remove0_child:
  fixes cs :: "'v bnode list"
  assumes w: "node_wf h root lo (next_min rs) (Internal i ver ks cs)" and b: "in_bounds lo (next_min rs) (slice k)"
    and c: "c = child_idx (key_lower_bound_search ks (slice k))" and IH: "rem_spec k (cs ! c)"
  obtains r lk rk where
    "remove0 (Internal i ver ks cs) mnk mxk k left right rs = int_rem i ver ks cs c mnk mxk left right r"
    "rem_shape lk rk r" "lk \<noteq> [] \<Longrightarrow> 0 < c" "rk \<noteq> [] \<Longrightarrow> c < length ks" "c \<le> length ks"
    "kids (node_wf (h - 1) False) lo (fst (rem_rest ks cs c r)) (snd (rem_rest ks cs c r)) (next_min rs)"
    "rem_post (Internal i ver ks cs) k (concat (map flat (snd (rem_rest ks cs c r)))) (rem_old r) (rem_status r = R_NONE_NOMOD)"
proof -
  let ?Q = "node_wf (h - 1) False" and ?hi = "next_min rs"
  let ?rs = "concat (map leaves (drop (c + 1) cs)) @ rs"
  note ch = wf_child [OF w c]
  have K: "kids ?Q lo ks cs ?hi" and len: "length cs = Suc (length ks)" and ne: "ks \<noteq> []"
    using w kids_length by (auto simp: wf_kids NMinKeysPerNode_def NKeysPerNode_def split: if_splits)
  obtain K1 lk rk K2 C1 L R C2 where p: "ks = K1 @ lk @ rk @ K2" "cs = C1 @ opt_list L @ cs ! c # opt_list R @ C2"
    "length K1 = length C1" "length K2 = length C2" "c = length C1 + length lk"
    "lk = (if c = 0 then [] else [ks ! (c - 1)])" "rk = (if c = length ks then [] else [ks ! c])"
    "L = (if c = 0 then None else Some (cs ! (c - 1)))" "R = (if c = length ks then None else Some (cs ! (c + 1)))"
    "length lk = length (opt_list L)" "length rk = length (opt_list R)"
    using child_parts [OF ch(1) len] by blast
  let ?G = "opt_list L @ cs ! c # opt_list R"
  have "kids ?Q lo (K1 @ (lk @ rk) @ K2) (C1 @ ?G @ C2) ?hi" using K p(1,2) by (metis append.assoc append_Cons)
  then obtain m u where mu: "kids_before ?Q lo K1 C1 m" "kids ?Q m (lk @ rk) ?G u" "kids_after ?Q u K2 C2 ?hi"
    using kids_middle [of K1 C1 ?G "lk @ rk" K2 C2] p(3,4,10,11) by auto
  have lo: "(if lk = [] then m else key_hd lk) = lo_at lo ks c"
    using p(3,5,6) mu(1) by (cases "c = 0") (auto simp: lo_at_def key_hd_def)
  have "K2 = []" if "rk = []"
  proof -
    have "length K2 = length ks - (length K1 + length lk + length rk)" using arg_cong [OF p(1), of length] by simp
    then show ?thesis using that p(3,5,7) by (simp split: if_splits)
  qed
  then have hi: "next_min ?rs = (if rk = [] then u else key_hd rk)"
    using next_min_child [OF w ch(1)] mu(3) p(4,7) ch(1) by (auto simp: hi_at_def key_hd_def split: if_splits)
  have nek: "lk @ rk \<noteq> []" using p(6,7) ne by auto
  have bc: "in_bounds (if lk = [] then m else key_hd lk) (next_min ?rs) (slice k)"
    unfolding lo next_min_child [OF w ch(1)] by (rule ch(7) [OF b])
  obtain r es' where r: "remove0 (cs ! c) (key_hd lk) (key_hd rk) k L R ?rs = Inr r" "rem_ok (h - 1) m lk rk u r"
    "concat (map flat (rem_nodes r)) = concat (map flat (opt_list L)) @ es' @ concat (map flat (opt_list R))"
    "rem_post (cs ! c) k es' (rem_old r) (rem_status r = R_NONE_NOMOD)"
    using IH mu(2) p(10,11) nek hi bc unfolding rem_spec_def by blast
  have rest: "rem_rest ks cs c r = (K1 @ rem_keys lk rk r @ K2, C1 @ rem_nodes r @ C2)"
    using rem_rest_parts [OF p(1,2,3,5,10,11)] r(2) by (simp add: rem_ok_def)
  show thesis
  proof (rule that [of r lk rk])
    have "key_hd lk = (if c = 0 then None else Some (ks ! (c - 1)))" "key_hd rk = (if c = length ks then None else Some (ks ! c))"
      using p(6,7) by (auto simp: key_hd_def)
    then show "remove0 (Internal i ver ks cs) mnk mxk k left right rs = int_rem i ver ks cs c mnk mxk left right r"
      using r(1) ch(1,2) len ne unfolding p(8,9) remove0.simps(2) Let_def c [symmetric] by simp
    show "rem_shape lk rk r" using r(2) by (simp add: rem_ok_def)
    show "0 < c" if "lk \<noteq> []" using that p(6) by (cases "c = 0") auto
    show "c < length ks" if "rk \<noteq> []" using that p(7) ch(1) by (auto split: if_splits)
    show "kids ?Q lo (fst (rem_rest ks cs c r)) (snd (rem_rest ks cs c r)) ?hi"
    proof -
      have k: "kids ?Q m (rem_keys lk rk r) (rem_nodes r) u" using r(2) by (simp add: rem_ok_def)
      show ?thesis unfolding rest fst_conv snd_conv using kids_middle [OF p(3) kids_length [OF k] p(4)] mu(1,3) k by blast
    qed
    have "take c cs = C1 @ opt_list L" "drop (c + 1) cs = opt_list R @ C2"
      using arg_cong [OF p(2), of "take c"] arg_cong [OF p(2), of "drop (c + 1)"] p(5,10) by simp_all
    then have "concat (map flat (snd (rem_rest ks cs c r))) = concat (map flat (take c cs)) @ es' @ concat (map flat (drop (c + 1) cs))"
      unfolding rest using r(3) by simp
    then show "rem_post (Internal i ver ks cs) k (concat (map flat (snd (rem_rest ks cs c r)))) (rem_old r) (rem_status r = R_NONE_NOMOD)"
      using rem_post_child [OF w c r(4)] by simp
  qed (rule ch(1))
qed

lemma remove0_neighbours:
  fixes t :: "'v bnode"
  assumes IH: "\<And>t :: 'v bnode. kslicelen k = 9 \<Longrightarrow> btree_ok t \<Longrightarrow>
      \<exists>r t'. remove0 t None None (shift k) None None [] = Inr r \<and> rem_root r = Some t' \<and> btree_ok t' \<and>
        rem_post t (shift k) (flat t') (rem_old r) (rem_status r = R_NONE_NOMOD)"
  shows "rem_spec k t"
proof (induction t rule: measure_induct_rule [of size])
  case (less t)
  show ?case unfolding rem_spec_def
  proof (intro allI impI)
    fix h m lk rk u and left right :: "'v bnode option" and rs :: "'v bnode list"
    assume g: "kids (node_wf h False) m (lk @ rk) (opt_list left @ t # opt_list right) u"
      and len: "length lk = length (opt_list left)" "length rk = length (opt_list right)" "lk @ rk \<noteq> []"
      and hi: "next_min rs = (if rk = [] then u else key_hd rk)"
      and b: "in_bounds (if lk = [] then m else key_hd lk) (next_min rs) (slice k)"
    let ?P = "node_wf h False"
    have left: "left = None \<longleftrightarrow> lk = []" and right: "right = None \<longleftrightarrow> rk = []" using len by (auto split: option.splits simp: opt_list_def)
    obtain lo hi' where k: "kids_before ?P m lk (opt_list left) lo" "lt_opt lo hi'" "?P lo hi' t" "kids_after ?P hi' rk (opt_list right) u"
      using g kids_around [OF len(1,2)] by blast
    have "lo = (if lk = [] then m else key_hd lk)"
      using k(1) len(1) by (cases lk; cases left) (auto simp: key_hd_def)
    moreover have "hi' = next_min rs" using k(4) hi by (cases rk) (auto simp: key_hd_def)
    ultimately have w: "?P lo (next_min rs) t" and b': "in_bounds lo (next_min rs) (slice k)" and k4: "kids_after ?P (next_min rs) rk (opt_list right) u"
      and lt: "lt_opt lo (next_min rs)" using k b by simp_all
    show "\<exists>r es'. remove0 t (key_hd lk) (key_hd rk) k left right rs = Inr r \<and> rem_ok h m lk rk u r \<and>
        concat (map flat (rem_nodes r)) = concat (map flat (opt_list left)) @ es' @ concat (map flat (opt_list right)) \<and>
        rem_post t k es' (rem_old r) (rem_status r = R_NONE_NOMOD)"
    proof (cases t)
      case (Leaf i ver mk es)
      have h: "h = 0" using w Leaf by (simp add: wf_leaf)
      show ?thesis
      proof (rule remove0_leaf [OF w [unfolded Leaf h] b' IH, of "key_hd lk" "key_hd rk" left right])
        fix st es2 old
        assume a: "remove0 (Leaf i ver mk es) (key_hd lk) (key_hd rk) k left right rs = Inr (Rem st left (Leaf i ver mk es2) right old)"
          "st = R_NONE_NOMOD \<or> st = R_NONE_MOD" "node_wf 0 False lo (next_min rs) (Leaf i ver mk es2)"
          "rem_post (Leaf i ver mk es) k es2 old (st = R_NONE_NOMOD)"
        have "kids ?P m (lk @ rk) (opt_list left @ Leaf i ver mk es2 # opt_list right) u"
          using kids_around [OF len(1,2)] k(1) k4 lt a(3) h by blast
        then have "rem_ok h m lk rk u (Rem st left (Leaf i ver mk es2) right old)"
          using a(2) left right by (auto simp: rem_ok_def rem_shape_def rem_keys_def rem_nodes_def)
        then show ?thesis using a Leaf by (intro exI [of _ "Rem st left (Leaf i ver mk es2) right old"] exI [of _ es2]) (auto simp: rem_nodes_def)
      next
        fix ret x
        assume a: "remove0 (Leaf i ver mk es) (key_hd lk) (key_hd rk) k left right rs = leaf_del i ver mk es ret left right (Some x)"
          "ret < length es" "rem_post (Leaf i ver mk es) k (del_at ret es) (Some x) False"
        show ?thesis using leaf_del_spec [OF refl g [unfolded Leaf h] len a(2), of "Some x"] a h Leaf by auto
      qed
    next
      case (Internal i ver ks cs)
      let ?c = "child_idx (key_lower_bound_search ks (slice k))"
      have wI: "node_wf h False lo (next_min rs) (Internal i ver ks cs)" using w Internal by simp
      have "size (cs ! ?c) < size t" using size_nth_le [OF wf_child(2) [OF wI refl, where k = "slice k"]] Internal by simp
      then have "rem_spec k (cs ! ?c)" by (rule less.IH)
      then show ?thesis
      proof (rule remove0_child [OF wI b' refl, of "key_hd lk" "key_hd rk" left right])
        fix r lk' rk'
        assume a: "remove0 (Internal i ver ks cs) (key_hd lk) (key_hd rk) k left right rs = int_rem i ver ks cs ?c (key_hd lk) (key_hd rk) left right r"
          "rem_shape lk' rk' r" "lk' \<noteq> [] \<Longrightarrow> 0 < ?c" "rk' \<noteq> [] \<Longrightarrow> ?c < length ks" "?c \<le> length ks"
          "kids (node_wf (h - 1) False) lo (fst (rem_rest ks cs ?c r)) (snd (rem_rest ks cs ?c r)) (next_min rs)"
          "rem_post (Internal i ver ks cs) k (concat (map flat (snd (rem_rest ks cs ?c r)))) (rem_old r) (rem_status r = R_NONE_NOMOD)"
        show ?thesis
          using int_rem_spec [OF refl wI k(1) k4 len key_hd_def key_hd_def a(2-6)] a(1,7) Internal by fastforce
      qed
    qed
  qed
qed

lemma remove0_root:
  fixes t :: "'v bnode"
  shows "btree_ok t \<Longrightarrow> \<exists>r t'. remove0 t None None k None None [] = Inr r \<and> rem_root r = Some t' \<and> btree_ok t' \<and>
     rem_post t k (flat t') (rem_old r) (rem_status r = R_NONE_NOMOD)"
proof (induction "length k" arbitrary: k t rule: less_induct)
  case less
  have IH: "\<exists>r t'. remove0 t None None (shift k) None None [] = Inr r \<and> rem_root r = Some t' \<and> btree_ok t' \<and>
      rem_post t (shift k) (flat t') (rem_old r) (rem_status r = R_NONE_NOMOD)" if "kslicelen k = 9" "btree_ok t" for t :: "'v bnode"
    using less.hyps [of "shift k" t] that by (auto simp: kslicelen_def shift_def)
  have w: "node_wf (height t) True None (next_min []) t" and b: "in_bounds None (next_min []) (slice k)"
    using less.prems by (simp_all add: btree_ok_def next_min_def in_bounds_def)
  show ?case
  proof (cases t)
    case (Leaf i ver mk es)
    have w0: "node_wf 0 True None (next_min []) (Leaf i ver mk es)" using w Leaf by simp
    show ?thesis
    proof (rule remove0_leaf [OF w0 b IH, of None None None None])
      fix st es2 old
      assume a: "remove0 (Leaf i ver mk es) None None k None None [] = Inr (Rem st None (Leaf i ver mk es2) None old)"
        "st = R_NONE_NOMOD \<or> st = R_NONE_MOD" "node_wf 0 True None (next_min []) (Leaf i ver mk es2)"
        "rem_post (Leaf i ver mk es) k es2 old (st = R_NONE_NOMOD)"
      then have "btree_ok (Leaf i ver mk es2)" using wf_btree_ok by (auto simp: next_min_def)
      then show ?thesis using a Leaf by (auto simp: rem_root_def)
    next
      fix ret x
      assume a: "remove0 (Leaf i ver mk es) None None k None None [] = leaf_del i ver mk es ret None None (Some x)"
        "ret < length es" "rem_post (Leaf i ver mk es) k (del_at ret es) (Some x) False"
      have "node_wf 0 True None None (Leaf i (bump ver) mk (del_at ret es))"
        using w0 ents_ok_del_at [of es ret] length_del_at [OF a(2)] set_del_at [of _ ret es]
        by (auto simp: wf_leaf leaf_ok_def next_min_def ents_ok_def list_all_iff)
      then have "btree_ok (Leaf i (bump ver) mk (del_at ret es))" by (rule wf_btree_ok)
      then show ?thesis using a Leaf by (auto simp: leaf_del_def rem_root_def)
    qed
  next
    case (Internal i ver ks cs)
    let ?c = "child_idx (key_lower_bound_search ks (slice k))"
    have wI: "node_wf (height t) True None (next_min []) (Internal i ver ks cs)" using w Internal by simp
    have "rem_spec k (cs ! ?c)" by (rule remove0_neighbours) (rule IH)
    then show ?thesis
    proof (rule remove0_child [OF wI b refl, of None None None None])
      fix r lk' rk'
      assume a: "remove0 (Internal i ver ks cs) None None k None None [] = int_rem i ver ks cs ?c None None None None r"
        "rem_shape lk' rk' r" "lk' \<noteq> [] \<Longrightarrow> 0 < ?c" "rk' \<noteq> [] \<Longrightarrow> ?c < length ks" "?c \<le> length ks"
        "kids (node_wf (height t - 1) False) None (fst (rem_rest ks cs ?c r)) (snd (rem_rest ks cs ?c r)) (next_min [])"
        "rem_post (Internal i ver ks cs) k (concat (map flat (snd (rem_rest ks cs ?c r)))) (rem_old r) (rem_status r = R_NONE_NOMOD)"
      obtain r' t' where r': "int_rem i ver ks cs ?c None None None None r = Inr r'" "rem_root r' = Some t'" "btree_ok t'"
        "flat t' = concat (map flat (snd (rem_rest ks cs ?c r)))" "rem_old r' = rem_old r"
        "rem_status r' = R_NONE_NOMOD \<longleftrightarrow> rem_status r = R_NONE_NOMOD"
        using int_rem_root [of "height t" i ver ks cs lk' rk' r ?c] wI a(2-6) by (auto simp: next_min_def)
      then show ?thesis using a(1,7) Internal by auto
    qed
  qed
qed

lemma remove_stable_location_spec:
  assumes ok: "btree_ok t"
  shows "\<exists>t'. remove_stable_location t k = Inr (lookup t k \<noteq> None, lookup t k, t') \<and> btree_ok t' \<and> lookup t' = (lookup t)(k := None)"
proof -
  obtain r t' where r: "remove0 t None None k None None [] = Inr r" "rem_root r = Some t'" "btree_ok t'"
    "rem_post t k (flat t') (rem_old r) (rem_status r = R_NONE_NOMOD)" using remove0_root [OF ok] by blast
  have "lookup t' = (lookup t)(k := None)" using rem_post_lookup [OF r(4) refl] by auto
  moreover have "remove_stable_location t k = Inr (lookup t k \<noteq> None, lookup t k, t')"
    using r by (auto simp: remove_stable_location_def rem_root_def rem_post_def split: remove_status.splits)
  ultimately show ?thesis using r(3) by blast
qed

text \<open>
  Property C19 (refinement). Removal from a well-formed tree returns: the tree stands for the old map without the key and
  is well-formed, the result tells whether the key was there, and its value is reported.
\<close>

theorem remove_updates_map:
  assumes "btree_ok t"
  shows "\<exists>t'. remove_stable_location t k = Inr (lookup t k \<noteq> None, lookup t k, t') \<and> btree_ok t' \<and> lookup t' = (lookup t)(k := None)"
  by (rule remove_stable_location_spec [OF assms])

text \<open>Two leaves at the minimum under a root: a removal merges them and the root goes.\<close>

definition demo_pair :: "nat bnode" where
  "demo_pair = Internal 2 0 [slice [5]]
     [Leaf 0 0 0 [new_entry [1] 1, new_entry [2] 2], Leaf 1 0 (slice [5]) [new_entry [5] 5, new_entry [6] 6]]"

theorem remove_updates_map_witness:
  "btree_ok demo_pair \<and> (\<exists>t'. remove_stable_location demo_pair [1] = Inr (True, Some 1, t') \<and> height t' = 0 \<and>
     lookup t' = (lookup demo_pair)([1] := None))"
proof -
  have ok: "btree_ok demo_pair" and old: "lookup demo_pair [1] = Some 1" by code_simp+
  have h: "case remove_stable_location demo_pair [1] of Inl _ \<Rightarrow> False | Inr (_, _, t') \<Rightarrow> height t' = 0" by code_simp
  show ?thesis using remove_updates_map [OF ok, of "[1]"] ok old h by auto
qed

section \<open>Sequences of operations\<close>

text \<open>An index with the operations a client calls, each of which reports the value it found.\<close>

datatype ('k, 'v) index_op = Op_search 'k | Op_insert 'k 'v | Op_insert_if_absent 'k 'v | Op_remove 'k

fun index_step :: "('s \<Rightarrow> 'k \<Rightarrow> 'e + 'v option) \<Rightarrow> ('s \<Rightarrow> 'k \<Rightarrow> 'v \<Rightarrow> bool \<Rightarrow> 'e + ('v option \<times> 's)) \<Rightarrow>
    ('s \<Rightarrow> 'k \<Rightarrow> 'e + ('v option \<times> 's)) \<Rightarrow> ('k, 'v) index_op \<Rightarrow> 's \<Rightarrow> 'e + ('v option \<times> 's)" where
  "index_step get put del (Op_search k) s = sbind (get s k) (\<lambda>v. Inr (v, s))"
| "index_step get put del (Op_insert k v) s = put s k v False"
| "index_step get put del (Op_insert_if_absent k v) s = put s k v True"
| "index_step get put del (Op_remove k) s = del s k"

fun index_run :: "(('k, 'v) index_op \<Rightarrow> 's \<Rightarrow> 'e + ('v option \<times> 's)) \<Rightarrow> ('k, 'v) index_op list \<Rightarrow> 's \<Rightarrow> 'e + 'v option list" where
  "index_run step [] s = Inr []"
| "index_run step (a # as) s = sbind (step a s) (\<lambda>(out, s'). sbind (index_run step as s') (\<lambda>outs. Inr (out # outs)))"

text \<open>The same operations on a map.\<close>

fun map_step :: "('k, 'v) index_op \<Rightarrow> ('k \<rightharpoonup> 'v) \<Rightarrow> 'v option \<times> ('k \<rightharpoonup> 'v)" where
  "map_step (Op_search k) m = (m k, m)"
| "map_step (Op_insert k v) m = (m k, m(k \<mapsto> v))"
| "map_step (Op_insert_if_absent k v) m = (m k, if m k = None then m(k \<mapsto> v) else m)"
| "map_step (Op_remove k) m = (m k, m(k := None))"

fun map_run :: "('k, 'v) index_op list \<Rightarrow> ('k \<rightharpoonup> 'v) \<Rightarrow> 'v option list" where
  "map_run [] m = []"
| "map_run (a # as) m = (case map_step a m of (out, m') \<Rightarrow> out # map_run as m')"

text \<open>What an index promises: no operation fails on a valid state, and each acts on the map of the state.\<close>

locale map_index =
  fixes get :: "'s \<Rightarrow> 'k \<Rightarrow> 'e + 'v option" and put :: "'s \<Rightarrow> 'k \<Rightarrow> 'v \<Rightarrow> bool \<Rightarrow> 'e + ('v option \<times> 's)"
    and del :: "'s \<Rightarrow> 'k \<Rightarrow> 'e + ('v option \<times> 's)" and valid :: "'s \<Rightarrow> bool" and map_of_state :: "'s \<Rightarrow> 'k \<rightharpoonup> 'v"
  assumes find_law: "valid s \<Longrightarrow> get s k = Inr (map_of_state s k)"
    and put_law: "valid s \<Longrightarrow> \<exists>s'. put s k v oia = Inr (map_of_state s k, s') \<and> valid s' \<and>
      map_of_state s' = (if oia \<and> map_of_state s k \<noteq> None then map_of_state s else (map_of_state s)(k \<mapsto> v))"
    and del_law: "valid s \<Longrightarrow> \<exists>s'. del s k = Inr (map_of_state s k, s') \<and> valid s' \<and> map_of_state s' = (map_of_state s)(k := None)"
begin

lemma step_map:
  assumes "valid s"
  shows "\<exists>s'. index_step get put del a s = Inr (fst (map_step a (map_of_state s)), s') \<and> valid s' \<and>
    map_of_state s' = snd (map_step a (map_of_state s))"
proof (cases a)
  case (Op_search k)
  then show ?thesis using find_law [OF assms] assms by simp
next
  case (Op_insert k v)
  then show ?thesis using put_law [OF assms, of k v False] by auto
next
  case (Op_insert_if_absent k v)
  then show ?thesis using put_law [OF assms, of k v True] by auto
next
  case (Op_remove k)
  then show ?thesis using del_law [OF assms, of k] by simp
qed

lemma run_map: "valid s \<Longrightarrow> index_run (index_step get put del) as s = Inr (map_run as (map_of_state s))"
proof (induction "as" arbitrary: s)
  case (Cons a as)
  obtain s' where s: "index_step get put del a s = Inr (fst (map_step a (map_of_state s)), s')" "valid s'"
    "map_of_state s' = snd (map_step a (map_of_state s))" using step_map [OF Cons.prems] by blast
  then show ?case using Cons.IH [OF s(2)] by (simp add: split_beta)
qed simp

end

text \<open>The tree with its next free address. The constructor allocates an empty leaf.\<close>

definition btree_new :: "nat \<times> 'v bnode" where
  "btree_new = (1, Leaf 0 0 0 [])"

definition btree_find :: "nat \<times> 'v bnode \<Rightarrow> bytes \<Rightarrow> btree_error + 'v option" where
  "btree_find s k = sbind (search_impl k (snd s) []) (\<lambda>r. Inr (sr_value r))"

definition btree_put :: "nat \<times> 'v bnode \<Rightarrow> bytes \<Rightarrow> 'v \<Rightarrow> bool \<Rightarrow> btree_error + ('v option \<times> nat \<times> 'v bnode)" where
  "btree_put s k v oia =
     sbind (if oia then insert_if_absent (fst s) (snd s) k v else btree_insert (fst s) (snd s) k v)
       (\<lambda>(b, r). Inr (ins_old r, ins_fresh r, ins_node r))"

definition btree_remove :: "nat \<times> 'v bnode \<Rightarrow> bytes \<Rightarrow> btree_error + ('v option \<times> nat \<times> 'v bnode)" where
  "btree_remove s k = sbind (remove_stable_location (snd s) k) (\<lambda>(b, old, t). Inr (old, fst s, t))"

interpretation bt: map_index btree_find btree_put btree_remove "\<lambda>s. btree_ok (snd s)" "\<lambda>s. lookup (snd s)"
proof
  fix s :: "nat \<times> 'v bnode" and k v oia
  assume ok: "btree_ok (snd s)"
  show "btree_find s k = Inr (lookup (snd s) k)" using search_impl_lookup [OF ok, of k "[]"] by (auto simp: btree_find_def)
  have "(lookup (snd s))(k \<mapsto> x) = lookup (snd s)" if "lookup (snd s) k = Some x" for x using that by auto
  then show "\<exists>s'. btree_put s k v oia = Inr (lookup (snd s) k, s') \<and> btree_ok (snd s') \<and>
      lookup (snd s') = (if oia \<and> lookup (snd s) k \<noteq> None then lookup (snd s) else (lookup (snd s))(k \<mapsto> v))"
    using insert_stable_location_spec [OF ok, of "fst s" k v oia]
    by (cases oia; cases "lookup (snd s) k") (auto simp: btree_put_def btree_insert_def insert_if_absent_def ins_val_def)
  show "\<exists>s'. btree_remove s k = Inr (lookup (snd s) k, s') \<and> btree_ok (snd s') \<and> lookup (snd s') = (lookup (snd s))(k := None)"
    using remove_stable_location_spec [OF ok, of k] by (auto simp: btree_remove_def)
qed

text \<open>
  Property C7 (refinement). Any sequence of searches, insertions and removals on a new tree runs without an error and
  reports what the same sequence on a map reports.
\<close>

theorem btree_run_refines_map:
  fixes "as" :: "(bytes, 'v) index_op list"
  shows "index_run (index_step btree_find btree_put btree_remove) as btree_new = Inr (map_run as Map.empty)"
proof -
  have "btree_ok (snd (btree_new :: nat \<times> 'v bnode))"
    by (simp add: btree_new_def btree_ok_def wf_leaf leaf_ok_def entries_sorted_def)
  moreover have "lookup (snd (btree_new :: nat \<times> 'v bnode)) = Map.empty"
    by (rule ext) (simp add: btree_new_def lookup_entry entry_at_def)
  ultimately show ?thesis using bt.run_map [of "btree_new :: nat \<times> 'v bnode" "as"] by simp
qed

end
