(* ===== verification/Btree_Index.thy ===== *)
theory Btree_Index
  imports Btree_Remove Txn_Commit
begin

text \<open>
  The trees of a database as the index of the transactions: search, insertion and removal of the B+-tree satisfy the laws
  that the transactions rely on.
\<close>

section \<open>The trees of a database\<close>

text \<open>All nodes of a tree with their versions, layers included.\<close>

function (sequential) nodes :: "'v bnode \<Rightarrow> (nat \<times> u64) list" where
  "nodes (Leaf i v mk es) =
     (i, v) # concat (map (\<lambda>e. case e of Entry s l suf (Inl x) \<Rightarrow> [] | Entry s l suf (Inr n) \<Rightarrow> nodes n) es)"
| "nodes (Internal i v ks cs) = (i, v) # concat (map nodes cs)"
  by pat_completeness auto
termination
  by (relation "measure size") (auto simp: size_layer_le less_Suc_eq_le intro: size_list_estimation')

text \<open>The next free address and the trees by number; a number without a tree stands for an empty one.\<close>

type_synonym trees = "nat \<times> ptr bnode list"

definition tree_at :: "trees \<Rightarrow> btree \<Rightarrow> ptr bnode" where
  "tree_at ix b = (if b < length (snd ix) then snd ix ! b else Leaf (fst ix) 0 0 [])"

definition open_tree :: "trees \<Rightarrow> btree \<Rightarrow> trees" where
  "open_tree ix b =
     (let n = b + 1 - length (snd ix) in (fst ix + n, snd ix @ map (\<lambda>i. Leaf (fst ix + i) 0 0 []) [0..<n]))"

definition trees_ok :: "trees \<Rightarrow> bool" where
  "trees_ok ix \<longleftrightarrow> list_all btree_ok (snd ix)"

definition trees_search :: "trees \<Rightarrow> btree \<Rightarrow> bytes \<Rightarrow> ptr option \<times> node \<times> u64" where
  "trees_search ix b k =
     (case search_impl k (tree_at ix b) [] of Inl _ \<Rightarrow> (None, 0, 0) | Inr s \<Rightarrow> (sr_value s, sr_info s))"

definition set_tree :: "trees \<Rightarrow> btree \<Rightarrow> ptr insert_ret \<Rightarrow> trees" where
  "set_tree ix b r = (ins_fresh r, (snd ix)[b := ins_node r])"

definition trees_insert_if_absent :: "trees \<Rightarrow> btree \<Rightarrow> bytes \<Rightarrow> ptr \<Rightarrow> (insert_info \<times> trees) option" where
  "trees_insert_if_absent ix b k p =
     (let ix' = open_tree ix b
      in case insert_if_absent (fst ix') (tree_at ix' b) k p of
           Inr (True, r) \<Rightarrow>
             Some (case ins_info r of
                     None \<Rightarrow> \<lparr>ii_node = 0, ii_old_version = 0, ii_new_version = 0\<rparr>
                   | Some (n, vo, vn) \<Rightarrow> \<lparr>ii_node = n, ii_old_version = vo, ii_new_version = vn\<rparr>,
                   set_tree ix' b r)
         | _ \<Rightarrow> None)"

definition trees_insert :: "trees \<Rightarrow> btree \<Rightarrow> bytes \<Rightarrow> ptr \<Rightarrow> trees" where
  "trees_insert ix b k p =
     (let ix' = open_tree ix b
      in case btree_insert (fst ix') (tree_at ix' b) k p of Inl _ \<Rightarrow> ix | Inr (_, r) \<Rightarrow> set_tree ix' b r)"

definition trees_remove :: "trees \<Rightarrow> btree \<Rightarrow> bytes \<Rightarrow> (ptr \<times> trees) option" where
  "trees_remove ix b k =
     (let ix' = open_tree ix b
      in case remove_stable_location (tree_at ix' b) k of
           Inr (True, Some p, t) \<Rightarrow> Some (p, fst ix', (snd ix')[b := t])
         | _ \<Rightarrow> None)"

definition trees_version :: "trees \<Rightarrow> node \<Rightarrow> u64" where
  "trees_version ix n = (case map_of (concat (map nodes (snd ix))) n of None \<Rightarrow> 0 | Some v \<Rightarrow> v)"

section \<open>They keep the trees well-formed\<close>

lemma btree_ok_empty [simp]: "btree_ok (Leaf i v 0 [])"
  by (simp add: btree_ok_def wf_leaf leaf_ok_def entries_sorted_def)

lemma lookup_empty [simp]: "lookup (Leaf i v mk []) k = None"
  by (simp add: lookup_entry entry_at_def)

lemma tree_at_ok: "trees_ok ix \<Longrightarrow> btree_ok (tree_at ix b)"
  by (simp add: trees_ok_def tree_at_def list_all_length)

lemma open_tree_simps:
  "trees_ok ix \<Longrightarrow> trees_ok (open_tree ix b)" "b < length (snd (open_tree ix b))" "lookup (tree_at (open_tree ix b) b') = lookup (tree_at ix b')"
  by (auto simp: trees_ok_def open_tree_def Let_def list_all_iff tree_at_def nth_append fun_eq_iff)

lemma set_tree_ok: "trees_ok ix \<Longrightarrow> btree_ok t \<Longrightarrow> trees_ok (f, (snd ix)[b := t])"
  using set_update_subset_insert [of "snd ix" b t] by (auto simp: trees_ok_def list_all_iff)

lemma tree_at_set:
  "b < length (snd ix) \<Longrightarrow> lookup t = m \<Longrightarrow>
   lookup (tree_at (f, (snd ix)[b := t]) b') = (if b' = b then m else lookup (tree_at ix b'))"
  by (auto simp: tree_at_def fun_eq_iff)

lemma trees_insert_spec:
  assumes "trees_ok ix"
  shows "trees_ok (trees_insert ix b k p)" and "(\<lambda>b. lookup (tree_at (trees_insert ix b0 k p) b)) = upd_key b0 k (Some p) (\<lambda>b. lookup (tree_at ix b))"
proof -
  have "trees_ok (trees_insert ix b k p) \<and> (\<lambda>b'. lookup (tree_at (trees_insert ix b k p) b')) = upd_key b k (Some p) (\<lambda>b. lookup (tree_at ix b))" for b
  proof -
    let ?ix = "open_tree ix b"
    have ok: "trees_ok ?ix" and len: "b < length (snd ?ix)" using open_tree_simps(1) [OF assms, of b] open_tree_simps(2) [of b ix] by auto
    obtain c r where r: "btree_insert (fst ?ix) (tree_at ?ix b) k p = Inr (c, r)" "btree_ok (ins_node r)"
      "lookup (ins_node r) = (lookup (tree_at ?ix b))(k \<mapsto> p)"
      using insert_stable_location_spec [OF tree_at_ok [OF ok, of b], of "fst ?ix" k p False] by (auto simp: btree_insert_def ins_val_def)
    have "trees_insert ix b k p = (ins_fresh r, (snd ?ix)[b := ins_node r])" using r(1) by (simp add: trees_insert_def Let_def set_tree_def)
    then show ?thesis using set_tree_ok [OF ok r(2)] tree_at_set [OF len r(3)] open_tree_simps(3) by (auto simp: upd_key_def fun_eq_iff)
  qed
  then show "trees_ok (trees_insert ix b k p)" "(\<lambda>b. lookup (tree_at (trees_insert ix b0 k p) b)) = upd_key b0 k (Some p) (\<lambda>b. lookup (tree_at ix b))"
    by simp_all
qed

lemma trees_insert_if_absent_spec:
  assumes "trees_ok ix"
  shows "case trees_insert_if_absent ix b k p of
      None \<Rightarrow> lookup (tree_at ix b) k \<noteq> None
    | Some (info, ix') \<Rightarrow> trees_ok ix' \<and> lookup (tree_at ix b) k = None \<and>
        (\<lambda>b. lookup (tree_at ix' b)) = upd_key b k (Some p) (\<lambda>b. lookup (tree_at ix b))"
proof -
  let ?ix = "open_tree ix b"
  have ok: "trees_ok ?ix" and len: "b < length (snd ?ix)" using open_tree_simps(1) [OF assms, of b] open_tree_simps(2) [of b ix] by auto
  have lk: "lookup (tree_at ?ix b') = lookup (tree_at ix b')" for b' by (rule open_tree_simps(3))
  obtain r where r: "insert_if_absent (fst ?ix) (tree_at ?ix b) k p = Inr (lookup (tree_at ix b) k = None, r)" "btree_ok (ins_node r)"
    "lookup (ins_node r) = (lookup (tree_at ?ix b))(k \<mapsto> ins_val True p (lookup (tree_at ix b) k))"
    using insert_stable_location_spec [OF tree_at_ok [OF ok, of b], of "fst ?ix" k p True] lk by (auto simp: insert_if_absent_def)
  show ?thesis
  proof (cases "lookup (tree_at ix b) k")
    case None
    then have m: "lookup (ins_node r) = (lookup (tree_at ?ix b))(k \<mapsto> p)" using r(3) by (simp add: ins_val_def)
    obtain info where "trees_insert_if_absent ix b k p = Some (info, ins_fresh r, (snd ?ix)[b := ins_node r])"
      using r(1) None by (simp add: trees_insert_if_absent_def Let_def set_tree_def)
    then show ?thesis using None set_tree_ok [OF ok r(2)] tree_at_set [OF len m] lk by (auto simp: upd_key_def fun_eq_iff)
  next
    case (Some q)
    then show ?thesis using r(1) by (simp add: trees_insert_if_absent_def Let_def)
  qed
qed

lemma trees_remove_spec:
  assumes "trees_ok ix"
  shows "case trees_remove ix b k of
      None \<Rightarrow> lookup (tree_at ix b) k = None
    | Some (p, ix') \<Rightarrow> trees_ok ix' \<and> lookup (tree_at ix b) k = Some p \<and>
        (\<lambda>b. lookup (tree_at ix' b)) = upd_key b k None (\<lambda>b. lookup (tree_at ix b))"
proof -
  let ?ix = "open_tree ix b"
  have ok: "trees_ok ?ix" and len: "b < length (snd ?ix)" using open_tree_simps(1) [OF assms, of b] open_tree_simps(2) [of b ix] by auto
  have lk: "lookup (tree_at ?ix b') = lookup (tree_at ix b')" for b' by (rule open_tree_simps(3))
  obtain t where t: "remove_stable_location (tree_at ?ix b) k = Inr (lookup (tree_at ix b) k \<noteq> None, lookup (tree_at ix b) k, t)" "btree_ok t"
    "lookup t = (lookup (tree_at ?ix b))(k := None)"
    using remove_stable_location_spec [OF tree_at_ok [OF ok, of b], of k] lk by auto
  show ?thesis
  proof (cases "lookup (tree_at ix b) k")
    case None
    then show ?thesis using t(1) by (simp add: trees_remove_def Let_def)
  next
    case (Some q)
    then have "trees_remove ix b k = Some (q, fst ?ix, (snd ?ix)[b := t])" using t(1) by (simp add: trees_remove_def Let_def)
    then show ?thesis using Some set_tree_ok [OF ok t(2)] tree_at_set [OF len t(3)] lk by (auto simp: upd_key_def fun_eq_iff)
  qed
qed

lemma trees_search_spec: "trees_ok ix \<Longrightarrow> fst (trees_search ix b k) = lookup (tree_at ix b) k"
  using search_impl_lookup [OF tree_at_ok, of ix k b "[]"] by (auto simp: trees_search_def)

section \<open>The index of the transactions\<close>

text \<open>The well-formed indices: what a database reaches from the empty one.\<close>

typedef silo_index = "{ix :: trees. trees_ok ix}"
  by (rule exI [of _ "(0, [])"]) (simp add: trees_ok_def)

setup_lifting type_definition_silo_index

lift_definition silo_search :: "silo_index \<Rightarrow> btree \<Rightarrow> bytes \<Rightarrow> ptr option \<times> node \<times> u64" is trees_search .

lift_definition silo_insert :: "silo_index \<Rightarrow> btree \<Rightarrow> bytes \<Rightarrow> ptr \<Rightarrow> silo_index" is trees_insert
  by (rule trees_insert_spec(1))

lift_definition silo_version :: "silo_index \<Rightarrow> node \<Rightarrow> u64" is trees_version .

lift_definition silo_insert_if_absent :: "silo_index \<Rightarrow> btree \<Rightarrow> bytes \<Rightarrow> ptr \<Rightarrow> (insert_info \<times> silo_index) option"
  is trees_insert_if_absent
  subgoal for ix b k p using trees_insert_if_absent_spec [of ix b k p] by (cases "trees_insert_if_absent ix b k p") auto
  done

lift_definition silo_remove :: "silo_index \<Rightarrow> btree \<Rightarrow> bytes \<Rightarrow> (ptr \<times> silo_index) option" is trees_remove
  subgoal for ix b k using trees_remove_spec [of ix b k] by (cases "trees_remove ix b k") auto
  done

lift_definition silo_map :: "silo_index \<Rightarrow> btree \<Rightarrow> bytes \<Rightarrow> ptr option" is "\<lambda>ix b. lookup (tree_at ix b)" .

definition silo_ops :: "silo_index index_ops" where
  "silo_ops =
     \<lparr>ix_search = silo_search, ix_insert_if_absent = silo_insert_if_absent, ix_insert = silo_insert, ix_remove = silo_remove,
      ix_version = silo_version\<rparr>"

lemma silo_insert_if_absent_map:
  "case silo_insert_if_absent ix b k p of
     None \<Rightarrow> silo_map ix b k \<noteq> None
   | Some (info, ix') \<Rightarrow> silo_map ix b k = None \<and> silo_map ix' = upd_key b k (Some p) (silo_map ix)"
proof (transfer fixing: b k p)
  fix ix assume "trees_ok ix"
  from trees_insert_if_absent_spec [OF this, of b k p]
  show "case trees_insert_if_absent ix b k p of
      None \<Rightarrow> lookup (tree_at ix b) k \<noteq> None
    | Some (info, ix') \<Rightarrow> lookup (tree_at ix b) k = None \<and>
        (\<lambda>b. lookup (tree_at ix' b)) = upd_key b k (Some p) (\<lambda>b. lookup (tree_at ix b))"
    by (cases "trees_insert_if_absent ix b k p") auto
qed

lemma silo_remove_map:
  "case silo_remove ix b k of
     None \<Rightarrow> silo_map ix b k = None
   | Some (p, ix') \<Rightarrow> silo_map ix b k = Some p \<and> silo_map ix' = upd_key b k None (silo_map ix)"
proof (transfer fixing: b k)
  fix ix assume "trees_ok ix"
  from trees_remove_spec [OF this, of b k]
  show "case trees_remove ix b k of
      None \<Rightarrow> lookup (tree_at ix b) k = None
    | Some (p, ix') \<Rightarrow> lookup (tree_at ix b) k = Some p \<and> (\<lambda>b. lookup (tree_at ix' b)) = upd_key b k None (\<lambda>b. lookup (tree_at ix b))"
    by (cases "trees_remove ix b k") auto
qed

text \<open>
  Property C8 (refinement). The B+-trees of a database satisfy what the transactions rely on from their index: search
  returns the value of a key, insertion, insertion of an absent key and removal change that key of that tree only.
\<close>

theorem silo_index_laws: "index_laws silo_ops silo_map"
proof -
  have "fst (silo_search ix b k) = silo_map ix b k" for ix b k by transfer (rule trees_search_spec)
  moreover have "silo_map (silo_insert ix b k p) = upd_key b k (Some p) (silo_map ix)" for ix b k p by transfer (rule trees_insert_spec(2))
  ultimately show ?thesis using silo_insert_if_absent_map silo_remove_map by (simp add: index_laws_def silo_ops_def)
qed

end
