(* ===== verification/Spec2Isabelle.thy ===== *)
theory Spec2Isabelle
  imports Typed_Writer Small_Vector Small_Map Rcu Txn_Gc Allocator Btree_Index
begin

text \<open>
  Silo is a main-memory transactional store: records live in versioned tuples, an ordered index maps keys to
  tuples, transactions run optimistically and validate at commit, a global epoch ticker orders everything that
  is deferred (snapshots, garbage collection, memory reclamation, logging). This library models that code, from
  the integer encodings up to whole transactions, and proves what makes each part correct.

  \<^bold>\<open>How the parts interact.\<close> A worker thread opens an RCU region (rcu.h), which opens a guard of the ticker
  (ticker.h) and so fixes the worker's epoch. Inside it a transaction (txn.h, txn_impl.h, the protocol in
  txn_proto2_impl.h) searches and writes tables (base_txn_btree.h, txn_btree.h, typed_txn_btree.h): the index
  yields a tuple (tuple.h), the tuple's version lock yields a consistent read, the read and write sets are
  vectors with inline storage, the set of scanned nodes is a hash map with inline buckets. A commit sorts and
  locks its writes, validates its reads, draws a commit id, writes the tuples, appends to the log buffer of its
  core, and hands old versions and deleted records to the queue of the garbage collector. Typed tables store
  records encoded field by field (record/*.h, varint.h).

  \<^bold>\<open>Theories and sources\<close> (file names are those under src/src).

  \<^item> \<open>Silo_Prelude\<close>: words, bit fields, error sums, the collections of rewrite rules.
  \<^item> \<open>Varint\<close> (varint.h), \<open>Serializer\<close> (record/serializer.h), \<open>Inline_Str\<close> (record/inline_str.h),
    \<open>Record_Codec\<close> (record/encoder.h, record/cursor.h), \<open>Schema\<close> (the DO_STRUCT schemas of benchmarks/tpcc.h and
    the big-endian helpers of util.h). A reader consumes the bytes at its pointer; \<open>Past_end\<close> is a read behind the
    memory the caller owns. Shown: round trips, sizes, exact behaviour of the failsafe readers, and that cursors
    select and replace exactly one field. Contracts: locales \<open>field_serializer\<close> and \<open>record_layout\<close>.
  \<^item> \<open>Tid\<close> (transaction_proto2_static): packing of core, number and epoch, snapshot ids, the overwrite test,
    gen_commit_tid. Shown: lexicographic order, freshness of commit ids while the 24-bit number has room and the
    overflow in every epoch when it has not, and that in-place overwrites are allowed exactly when no snapshot sees them.
  \<^item> \<open>Tuple_Hdr\<close>, \<open>Tuple\<close>, \<open>Tuple_Write\<close> (tuple.h): header word, validated reads against memory that other
    threads change, version chains, write_record_at with its four outcomes. The heap is a map from addresses to
    tuples. Shown: a validated read saw one state of the tuple, however many accesses of other threads lie between
    its loads (fewer than \<open>2^27\<close> unlocks that bump the version); chain reads find the snapshot; writes of string
    records put one version in front and leave older snapshots alone. Contract of a writer callback: locale \<open>tuple_writer_contract\<close>.
  \<^item> \<open>Typed_Writer\<close> (typed_txn_btree.h): masks of fields read and updated in place, for the TPC-C schemas, with the exact
    condition under which an update of some fields stays inside its buffer.
  \<^item> \<open>Small_Vector\<close> (small_vector.h, static_vector.h), \<open>Small_Map\<close> (small_unordered_map.h, static_unordered_map.h,
    log2.hh), \<open>Circbuf\<close> (circbuf.h), \<open>Px_Queue\<close> (pxqueue.h and the group queues built on it): containers, each
    a refinement of lists, maps or queues (locales \<open>vector\<close>, \<open>finite_map\<close>, \<open>bounded_queue\<close>, \<open>tick_queue\<close>); the ring
    buffer also in every interleaving of enqueuers and dequeuer. \<^verbatim>\<open>std::sort\<close> is a parameter: what it does with equal
    elements is unspecified.
  \<^item> \<open>Ticker\<close> (ticker.h, spinlock.h), \<open>Rcu\<close> (rcu.h, rcu.cc): guards, ticker loop, retiring and clean-up as steps
    on shared memory, one step per shared access, in every schedule. Shown: no assertion fails, the epochs of open
    regions stay within one tick of the completed ones (locale \<open>epoch_scheme\<close>), nothing is reclaimed while a region
    that could see it is open.
  \<^item> \<open>Txn_State\<close> (txn.h), \<open>Log_Buffer\<close> (txn_logger), \<open>Txn\<close> (txn_impl.h and the protocol hooks), \<open>Txn_Btree\<close>
    (base_txn_btree.h, txn_btree.h): the transaction record and its sets, log entries, reads, inserts, commit,
    abort, tables. \<open>Txn_Commit\<close>, \<open>Txn_Effect\<close>, \<open>Txn_Install\<close> and \<open>Txn_Run\<close> hold the proofs, from one phase of a commit to
    whole transactions against a specification on the values of keys. Shown: a committed transaction behaves as if
    it ran alone and installs its writes atomically under one fresh id; any other ending restores every key, every
    lock, the log and the garbage queues. Transactions are on string tables, with values of at most 65535 bytes. A read
    of an own write returns the first pending one, not the latest as documented, so the results of searches are specified
    for transactions that search no key after having written it twice.
  \<^item> \<open>Txn_Gc\<close> (txn_proto2_impl.cc): cleaning of old versions and deleted records. Shown: what may be cleaned is
    not needed by any running snapshot, cleaning changes what no key shows.
  \<^item> \<open>Btree_Node\<close>, \<open>Btree\<close>, \<open>Btree_Insert\<close>, \<open>Btree_Remove\<close> (varkey.h, btree.h, btree_impl.h): the B+-tree of layers, one
    tree per eight bytes of the key. A tree is a value; nodes have an address and the version number of their header, the
    header word with its lock bits is modelled apart in \<open>Btree_Node\<close>, leaf links are the order of the leaves. One
    operation runs at a time: the moves along the leaves and the retries that only a concurrent split causes are error
    values, as are failed assertions. Shown: the binary searches, the split points and every borrowing and merging case
    keep the invariant that invariant_checker asserts (with equal depth and the bounds of every subtree), no error value
    occurs, and any sequence of operations answers like a map (locale \<open>map_index\<close>). Among the assertions shown is the
    one on split positions that a comment in insert0 calls uncertain.
  \<^item> \<open>Btree_Index\<close>: the trees of a database as the index of the transactions. It satisfies \<open>index_laws\<close>, the hypothesis under
    which the transaction theorems hold.
  \<^item> \<open>Allocator\<close> (allocator.h, allocator.cc and the arenas of rcu::sync in rcu.h, rcu.cc): regions, pages cut into
    blocks, free lists threaded through the blocks, release of a thread's lists to the regions they came from. Memory
    is a function on addresses that the holders of blocks write to. Shown, for every address of the mapping: blocks in use
    never overlap; with the mapping of the port at address 0, that the null pointer is a block of processor 0 and that
    foreign blocks below the end of the regions are taken for managed ones.

  \<^bold>\<open>Loops and bounds.\<close> Readers of varints, chains and cursors are structurally recursive or have a measure. A chain
  read gets fuel one above the number of allocated tuples (a chain without cycles is shorter). A put retries at
  most once, so two rounds are enough. Clean-up loops get one more unit than the queue can hold (4096 entries per
  group times the number of groups). The search for a log buffer gets one more round
  than the queue has places. Spin loops that only another thread can end are the value \<open>Spin\<close>, or steps of an
  interleaving; a bound on rounds that is reached is the value \<open>No_fuel\<close>, which no theorem has as a result. Epochs
  stay below \<open>2^31\<close> (the width of the field in an id) and schedules below \<open>2^64\<close> steps, so the
  counters of the ticker do not wrap; at 40 ms per tick that is 2.7 years of epochs.

  \<^bold>\<open>Memory model.\<close> Loads and stores are sequentially consistent, as on the x86 processors the code is written for
  with its fences. The phases of a transaction are proved for one thread between two interactions with others: another
  thread shows up as a changed tuple, lock or node, which makes the commit abort; validated reads, the ticker,
  reclamation and the ring buffer are proved in all interleavings of single accesses.

  \<^bold>\<open>Parameters.\<close> The index of the default build is the masstree submodule, which is not in the repository: the
  transactions take the operations of the index and its documented map behaviour as parameters with named hypotheses,
  which the B+-tree of the repository satisfies. Parameters are also the compressor, memory that is allocated
  but not written, and what the standard library's malloc returns.

  \<^bold>\<open>Not modelled.\<close> Logger threads (writer, persister, advance_system_sync_epoch): file output, commented out in
  this port. masstree_btree.h: glue to the missing submodule. Of the B+-tree: the locking order of concurrent
  operations, range scans, destruction and printing. The log with compression on is modelled without theorems. Event and performance counters, thread and core numbering,
  prefetching: no effect on results. lz4 and xxhash: vendored. Benchmarks other than the record schemas,
  the network front end (TcpCommand, UdpCommand, Memcached, silo.cc, silomcd.cc) and tests: drivers of the modelled
  code.
\<close>

end
